(* ===== verification/Prelude.thy ===== *)
theory Prelude
  imports Main "HOL-Library.Word"
begin

text \<open>
  Shared vocabulary of the development: the machine integers of the Rust code
  as words, results as sums, little-endian bytes, and bounded reads of a byte
  buffer at a position (\<open>bytes.get(pos)\<close>, \<open>bytes.get(pos..pos + n)\<close>).

  A buffer is a list of bytes, a cursor \<open>pos: &mut usize\<close> is a natural number
  that is passed in and returned.  Every reader of the code is modelled as a
  function from the buffer and the cursor to an error or a value and the new
  cursor.
\<close>

unbundle bit_operations_syntax

named_theorems codec_simps \<open>equations that run an encoder or a decoder forward\<close>
named_theorems reads_at \<open>what a reader returns where an encoded item stands in the buffer\<close>

type_synonym u8 = "8 word"
type_synonym u16 = "16 word"
type_synonym u32 = "32 word"
type_synonym u64 = "64 word"
type_synonym u128 = "128 word"
type_synonym i64 = "64 word"  \<comment> \<open>read with \<open>sint\<close>\<close>
type_synonym bytes = "u8 list"

section \<open>Results\<close>

definition and_then :: "'e + 'a \<Rightarrow> ('a \<Rightarrow> 'e + 'b) \<Rightarrow> 'e + 'b" where
  "and_then r f = (case r of Inl e \<Rightarrow> Inl e | Inr x \<Rightarrow> f x)"

lemma and_then_simps [simp]:
  "and_then (Inl e) f = Inl e"
  "and_then (Inr x) f = f x"
  by (simp_all add: and_then_def)

lemma and_then_Inr_iff [simp]:
  "and_then r f = Inr y \<longleftrightarrow> (\<exists>x. r = Inr x \<and> f x = Inr y)"
  by (cases r) auto

lemma and_then_Inl_iff:
  "and_then r f = Inl e \<longleftrightarrow> r = Inl e \<or> (\<exists>x. r = Inr x \<and> f x = Inl e)"
  by (cases r) auto

lemma and_then_cong [fundef_cong]:
  "r = r' \<Longrightarrow> (\<And>x. r' = Inr x \<Longrightarrow> f x = g x) \<Longrightarrow> and_then r f = and_then r' g"
  by (cases r') auto

definition ok_or :: "'a option \<Rightarrow> 'e \<Rightarrow> 'e + 'a" where
  "ok_or x e = (case x of None \<Rightarrow> Inl e | Some y \<Rightarrow> Inr y)"

lemma ok_or_simps [simp]:
  "ok_or None e = Inl e"
  "ok_or (Some y) e = Inr y"
  by (simp_all add: ok_or_def)

lemma ok_or_Inr_iff [simp]: "ok_or x e = Inr y \<longleftrightarrow> x = Some y"
  by (cases x) auto

definition map_err :: "('e \<Rightarrow> 'f) \<Rightarrow> 'e + 'a \<Rightarrow> 'f + 'a" where
  "map_err g r = (case r of Inl e \<Rightarrow> Inl (g e) | Inr x \<Rightarrow> Inr x)"

lemma map_err_simps [simp]:
  "map_err g (Inl e) = Inl (g e)"
  "map_err g (Inr x) = Inr x"
  by (simp_all add: map_err_def)

lemma map_err_Inr_iff [simp]: "map_err g r = Inr y \<longleftrightarrow> r = Inr y"
  by (cases r) auto

definition is_ok :: "'e + 'a \<Rightarrow> bool" where
  "is_ok r = (case r of Inl _ \<Rightarrow> False | Inr _ \<Rightarrow> True)"

lemma is_ok_simps [simp]: "\<not> is_ok (Inl e)" "is_ok (Inr x)"
  by (simp_all add: is_ok_def)

lemma is_ok_iff: "is_ok r \<longleftrightarrow> (\<exists>x. r = Inr x)"
  by (cases r) auto

section \<open>Checked arithmetic\<close>

definition checked_add_u :: "'a::len word \<Rightarrow> 'a word \<Rightarrow> 'a word option" where
  "checked_add_u a b = (if unat a + unat b < 2 ^ LENGTH('a) then Some (a + b) else None)"

definition checked_add_s :: "'a::len word \<Rightarrow> 'a word \<Rightarrow> 'a word option" where
  "checked_add_s a b =
     (if - (2 ^ (LENGTH('a) - 1)) \<le> sint a + sint b \<and> sint a + sint b < 2 ^ (LENGTH('a) - 1)
      then Some (a + b) else None)"

definition checked_mul_u :: "'a::len word \<Rightarrow> 'a word \<Rightarrow> 'a word option" where
  "checked_mul_u a b = (if unat a * unat b < 2 ^ LENGTH('a) then Some (a * b) else None)"

definition saturating_add_u :: "'a::len word \<Rightarrow> 'a word \<Rightarrow> 'a word" where
  "saturating_add_u a b = (if unat a + unat b < 2 ^ LENGTH('a) then a + b else - 1)"

definition saturating_sub_u :: "'a::len word \<Rightarrow> 'a word \<Rightarrow> 'a word" where
  "saturating_sub_u a b = (if b \<le> a then a - b else 0)"

definition saturating_mul_u :: "'a::len word \<Rightarrow> 'a word \<Rightarrow> 'a word" where
  "saturating_mul_u a b = (if unat a * unat b < 2 ^ LENGTH('a) then a * b else - 1)"

definition abs_diff_u :: "'a::len word \<Rightarrow> 'a word \<Rightarrow> 'a word" where
  "abs_diff_u a b = (if a \<le> b then b - a else a - b)"

lemma checked_add_u_Some:
  "checked_add_u a b = Some c \<Longrightarrow> unat c = unat a + unat b"
  by (auto simp: checked_add_u_def unat_word_ariths split: if_splits)

lemma checked_mul_u_Some: "checked_mul_u a b = Some c \<Longrightarrow> unat c = unat a * unat b"
  by (auto simp: checked_mul_u_def unat_word_ariths split: if_splits)

lemma checked_add_s_Some:
  fixes a b c :: "'a::len word"
  assumes "checked_add_s a b = Some c"
  shows "sint c = sint a + sint b"
proof -
  from assms have r: "- (2 ^ (LENGTH('a) - 1)) \<le> sint a + sint b"
      "sint a + sint b < 2 ^ (LENGTH('a) - 1)" and c: "c = a + b"
    by (auto simp: checked_add_s_def split: if_splits)
  from r show ?thesis
    unfolding c by (simp add: sint_word_ariths(1) signed_take_bit_int_eq_self)
qed

lemma checked_add_s_None_iff:
  fixes a b :: "'a::len word"
  shows "checked_add_s a b = None \<longleftrightarrow>
    sint a + sint b < - (2 ^ (LENGTH('a) - 1)) \<or> 2 ^ (LENGTH('a) - 1) \<le> sint a + sint b"
  by (auto simp: checked_add_s_def)

lemma unat_ucast_up:
  assumes "LENGTH('a::len) \<le> LENGTH('b::len)"
  shows "unat (ucast (w :: 'a word) :: 'b word) = unat w"
proof -
  have "unat w < 2 ^ LENGTH('b)"
    using unsigned_less[of w, where 'a = nat] assms by (meson less_le_trans one_le_numeral power_increasing)
  then show ?thesis by (simp add: unsigned_ucast_eq take_bit_nat_eq_self)
qed

lemma unat_ucast_down:
  assumes "unat (w :: 'a::len word) < 2 ^ LENGTH('b::len)"
  shows "unat (ucast w :: 'b word) = unat w"
  using assms by (simp add: unsigned_ucast_eq take_bit_nat_eq_self)

lemma ucast_ucast_up [simp]:
  "LENGTH('a::len) \<le> LENGTH('b::len) \<Longrightarrow> ucast (ucast (w :: 'a word) :: 'b word) = w"
  by (rule bit_word_eqI) (auto simp: bit_simps dest: bit_imp_le_length)

section \<open>Little-endian bytes\<close>

fun to_le :: "nat \<Rightarrow> 'a::len word \<Rightarrow> bytes" where
  "to_le 0 w = []"
| "to_le (Suc n) w = ucast w # to_le n (drop_bit 8 w)"

fun of_le :: "bytes \<Rightarrow> 'a::len word" where
  "of_le [] = 0"
| "of_le (b # bs) = ucast b OR push_bit 8 (of_le bs)"

abbreviation u32_le :: "u32 \<Rightarrow> bytes" where "u32_le \<equiv> to_le 4"
abbreviation u64_le :: "u64 \<Rightarrow> bytes" where "u64_le \<equiv> to_le 8"

lemma length_to_le [simp]: "length (to_le n w) = n"
  by (induction n arbitrary: w) simp_all

lemma of_le_to_le_take: "of_le (to_le n (w :: 'a::len word)) = take_bit (8 * n) w"
proof (induction n arbitrary: w)
  case 0
  then show ?case by simp
next
  case (Suc n)
  have "of_le (to_le (Suc n) w) = (ucast (ucast w :: u8) :: 'a word)
      OR push_bit 8 (take_bit (8 * n) (drop_bit 8 w))"
    using Suc.IH by simp
  also have "\<dots> = take_bit (8 * Suc n) w"
    by (rule bit_word_eqI) (auto simp: bit_simps)
  finally show ?case .
qed

lemma of_le_to_le [simp]:
  "LENGTH('a) = 8 * n \<Longrightarrow> of_le (to_le n (w :: 'a::len word)) = w"
  by (simp add: of_le_to_le_take take_bit_length_eq flip: mult.commute)
     (metis take_bit_length_eq)

section \<open>Sums over lists\<close>

lemma sum_list_map_nonneg:
  "(\<And>x. x \<in> set xs \<Longrightarrow> (0::int) \<le> f x) \<Longrightarrow> 0 \<le> sum_list (map f xs)"
  by (induction xs) auto

lemma nth_le_sum_list_map:
  "(\<And>x. (0::int) \<le> f x) \<Longrightarrow> i < length xs \<Longrightarrow> f (xs ! i) \<le> sum_list (map f xs)"
proof (induction xs arbitrary: i)
  case Nil
  then show ?case by simp
next
  case (Cons x xs)
  then show ?case
    using sum_list_map_nonneg[of xs f] by (cases i) (auto intro: add_increasing)
qed

section \<open>The end of a list\<close>

definition last_n :: "nat \<Rightarrow> 'a list \<Rightarrow> 'a list" where
  "last_n n xs = drop (length xs - n) xs"

lemma length_last_n [simp]: "length (last_n n xs) = min n (length xs)"
  by (auto simp: last_n_def)

lemma set_last_n_subset: "set (last_n n xs) \<subseteq> set xs"
  unfolding last_n_def by (rule set_drop_subset)

lemma last_n_short: "length xs \<le> n \<Longrightarrow> last_n n xs = xs"
  by (simp add: last_n_def)

section \<open>Reading a buffer at a cursor\<close>

definition get :: "'a list \<Rightarrow> nat \<Rightarrow> 'a option" where
  "get xs i = (if i < length xs then Some (xs ! i) else None)"

definition get_range :: "'a list \<Rightarrow> nat \<Rightarrow> nat \<Rightarrow> 'a list option" where
  "get_range xs p n = (if p + n \<le> length xs then Some (take n (drop p xs)) else None)"

lemma get_at: "drop p xs = x # rest \<Longrightarrow> get xs p = Some x"
  by (metis drop_eq_Nil get_def hd_drop_conv_nth leI list.discI list.sel(1))

lemma drop_Suc_at: "drop p xs = x # rest \<Longrightarrow> drop (Suc p) xs = rest"
  by (metis drop_Suc drop_tl list.sel(3))

lemma drop_add_at: "drop p xs = ys @ rest \<Longrightarrow> drop (p + length ys) xs = rest"
  by (metis append_eq_conv_conj drop_drop add.commute)

lemma length_at: "drop p xs = ys \<Longrightarrow> ys \<noteq> [] \<Longrightarrow> length xs = p + length ys"
  by (metis add_diff_inverse_nat drop_eq_Nil length_drop less_imp_le_nat linorder_not_less)

lemma get_range_at: "drop p xs = ys @ rest \<Longrightarrow> ys \<noteq> [] \<Longrightarrow> length ys = n \<Longrightarrow> get_range xs p n = Some ys"
  using length_at [of p xs "ys @ rest"] by (simp add: get_range_def)

lemma get_range_le:
  assumes "drop p bs = to_le n w @ rest" and "0 < n"
  shows "get_range bs p n = Some (to_le n w)"
proof (rule get_range_at[OF assms(1)])
  show "to_le n w \<noteq> []" using assms(2) by (cases n) auto
qed simp

lemma get_Some_iff: "get xs i = Some x \<longleftrightarrow> i < length xs \<and> x = xs ! i"
  by (auto simp: get_def)

lemma get_range_Some_iff:
  "get_range xs p n = Some ys \<longleftrightarrow> p + n \<le> length xs \<and> ys = take n (drop p xs)"
  by (auto simp: get_range_def)

end
