(* ===== verification/Wire_Items.thy ===== *)
theory Wire_Items
  imports Prelude
begin

text \<open>
  The counted loops of the binary formats.  Every decoder of the code reads a
  declared number of items with \<open>for _ in 0..n\<close>, carrying a little state from one
  item to the next (the previous row or offset, the expected height); every
  encoder writes them in the same order.  \<open>for_read\<close> and \<open>for_write\<close>
  are those two loops.

  The locale \<open>wire_item\<close> is the contract between the writer and the reader
  of one item; \<open>conv\<close> relates the writer's carried state to the reader's,
  which may be wider.  Inside it the round trip of the whole loop is proved once; each
  format interprets it on its own item.
\<close>

fun for_read :: "('s \<Rightarrow> bytes \<Rightarrow> nat \<Rightarrow> 'e + ('a \<times> 's \<times> nat)) \<Rightarrow> nat \<Rightarrow> 's \<Rightarrow> bytes \<Rightarrow> nat
    \<Rightarrow> 'e + ('a list \<times> nat)" where
  "for_read rd 0 s bs p = Inr ([], p)"
| "for_read rd (Suc n) s bs p =
     and_then (rd s bs p) (\<lambda>(x, s', p').
     and_then (for_read rd n s' bs p') (\<lambda>(xs, q). Inr (x # xs, q)))"

fun for_write :: "('s \<Rightarrow> 'a \<Rightarrow> bytes \<times> 's) \<Rightarrow> 's \<Rightarrow> 'a list \<Rightarrow> bytes" where
  "for_write wr s [] = []"
| "for_write wr s (x # xs) = (case wr s x of (b, s') \<Rightarrow> b @ for_write wr s' xs)"

fun for_ok :: "('s \<Rightarrow> 'a \<Rightarrow> bytes \<times> 's) \<Rightarrow> ('s \<Rightarrow> 'a \<Rightarrow> bool) \<Rightarrow> 's \<Rightarrow> 'a list \<Rightarrow> bool" where
  "for_ok wr ok s [] = True"
| "for_ok wr ok s (x # xs) = (ok s x \<and> for_ok wr ok (snd (wr s x)) xs)"

lemma for_ok_const: "\<forall>x \<in> set xs. ok x \<Longrightarrow> for_ok wr (\<lambda>_. ok) s xs"
  by (induction xs arbitrary: s) auto

locale wire_item =
  fixes wr :: "'s \<Rightarrow> 'a \<Rightarrow> bytes \<times> 's"
    and rd :: "'t \<Rightarrow> bytes \<Rightarrow> nat \<Rightarrow> 'e + ('a \<times> 't \<times> nat)"
    and conv :: "'s \<Rightarrow> 't"
    and ok :: "'s \<Rightarrow> 'a \<Rightarrow> bool"
  assumes read_write:
      "ok s x \<Longrightarrow> drop p bs = fst (wr s x) @ rest \<Longrightarrow>
       rd (conv s) bs p = Inr (x, conv (snd (wr s x)), p + length (fst (wr s x)))"
    and write_nonempty: "fst (wr s x) \<noteq> []"
begin

lemma for_read_write:
  assumes "for_ok wr ok s xs" and "drop p bs = for_write wr s xs @ rest"
  shows "for_read rd (length xs) (conv s) bs p = Inr (xs, p + length (for_write wr s xs))"
  using assms
proof (induction xs arbitrary: s p)
  case Nil
  then show ?case by simp
next
  case (Cons x xs)
  obtain b s' where wr: "wr s x = (b, s')" by (cases "wr s x")
  have d: "drop p bs = b @ (for_write wr s' xs @ rest)"
    using Cons.prems(2) by (simp add: wr)
  have "rd (conv s) bs p = Inr (x, conv s', p + length b)"
    using read_write[of s x p bs] Cons.prems(1) d by (simp add: wr)
  moreover have "for_read rd (length xs) (conv s') bs (p + length b) =
      Inr (xs, p + length b + length (for_write wr s' xs))"
    by (rule Cons.IH) (use Cons.prems(1) drop_add_at[OF d] in \<open>simp_all add: wr\<close>)
  ultimately show ?case by (simp add: wr)
qed

lemma length_for_write: "length xs \<le> length (for_write wr s xs)"
proof (induction xs arbitrary: s)
  case Nil
  then show ?case by simp
next
  case (Cons x xs)
  obtain b s' where wr: "wr s x = (b, s')" by (cases "wr s x")
  have "1 \<le> length b"
    using write_nonempty[of s x] by (cases b) (auto simp: wr)
  with Cons.IH[of s'] show ?case by (simp add: wr)
qed

end

lemma for_read_length: "for_read rd n s bs p = Inr (xs, q) \<Longrightarrow> length xs = n"
  by (induction rd n s bs p arbitrary: xs q rule: for_read.induct) auto

text \<open>What a reader guarantees of each item it yields holds of every item of the loop.\<close>

lemma for_read_all:
  assumes "for_read rd n s bs p = Inr (xs, q)"
    and "\<And>s p x s' q. rd s bs p = Inr (x, s', q) \<Longrightarrow> P x"
  shows "\<forall>x \<in> set xs. P x"
  using assms(1) by (induction n arbitrary: s p xs q) (auto dest: assms(2))

lemma for_read_bounds:
  assumes "for_read rd n s bs p = Inr (xs, q)"
    and "\<And>s p x s' q. rd s bs p = Inr (x, s', q) \<Longrightarrow> p < q \<and> q \<le> length bs"
    and "p \<le> length bs"
  shows "p + n \<le> q \<and> q \<le> length bs"
  using assms(1,3) by (induction n arbitrary: s p xs q) (auto dest!: assms(2), fastforce)

text \<open>An item reader whose carried state is the (non-decreasing) key of the item it has just
  read yields the items in ascending key order.\<close>

lemma for_read_sorted:
  assumes "for_read rd n s bs p = Inr (xs, q)"
    and "\<And>s p x s' q. rd s bs p = Inr (x, s', q) \<Longrightarrow> k s \<le> (key x :: nat) \<and> key x = k s'"
  shows "sorted (map key xs) \<and> (\<forall>x \<in> set xs. k s \<le> key x)"
  using assms(1)
proof (induction n arbitrary: s p xs q)
  case 0
  then show ?case by simp
next
  case (Suc n)
  then obtain x s' p' ys where x: "rd s bs p = Inr (x, s', p')"
    and ys: "for_read rd n s' bs p' = Inr (ys, q)" and xs: "xs = x # ys"
    by auto
  from assms(2)[OF x] Suc.IH[OF ys] show ?case by (auto simp: xs)
qed

text \<open>The bytes consumed bound the total weight of what was read.\<close>

lemma for_read_weight:
  assumes "for_read rd n s bs p = Inr (xs, q)"
    and "\<And>s p x s' q. rd s bs p = Inr (x, s', q) \<Longrightarrow> p + (w x :: nat) \<le> q"
  shows "p + sum_list (map w xs) \<le> q"
  using assms(1)
proof (induction n arbitrary: s p xs q)
  case 0
  then show ?case by simp
next
  case (Suc n)
  then obtain x s' p' ys where x: "rd s bs p = Inr (x, s', p')"
    and ys: "for_read rd n s' bs p' = Inr (ys, q)" and xs: "xs = x # ys"
    by auto
  from assms(2)[OF x] Suc.IH[OF ys] show ?case by (simp add: xs)
qed

text \<open>A reader that succeeds on a buffer succeeds with the same result on every
  extension of it.\<close>

definition extends :: "(bytes \<Rightarrow> nat \<Rightarrow> 'e + 'a) \<Rightarrow> bool" where
  "extends rd \<longleftrightarrow> (\<forall>bs ys p r. rd bs p = Inr r \<longrightarrow> rd (bs @ ys) p = Inr r)"

lemma extendsD: "extends rd \<Longrightarrow> rd bs p = Inr r \<Longrightarrow> rd (bs @ ys) p = Inr r"
  by (simp add: extends_def)

lemma get_extends: "get bs p = Some b \<Longrightarrow> get (bs @ ys) p = Some b"
  by (auto simp: get_Some_iff nth_append)

lemma get_range_extends: "get_range bs p n = Some c \<Longrightarrow> get_range (bs @ ys) p n = Some c"
  by (auto simp: get_range_Some_iff)

lemma for_read_extends:
  assumes "\<And>s. extends (rd s)"
  shows "extends (for_read rd n s)"
  unfolding extends_def
proof (intro allI impI)
  fix bs ys p r
  assume "for_read rd n s bs p = Inr r"
  then show "for_read rd n s (bs @ ys) p = Inr r"
  proof (induction n arbitrary: s p r)
    case 0
    then show ?case by simp
  next
    case (Suc n)
    then obtain x s' p' xs q where x: "rd s bs p = Inr (x, s', p')"
      and xs: "for_read rd n s' bs p' = Inr (xs, q)" and r: "r = (x # xs, q)"
      by auto
    show ?case
      using extendsD[OF assms x, of ys] Suc.IH[OF xs] r by simp
  qed
qed

end
