(* ===== verification/Varint.thy ===== *)
theory Varint
  imports Wire_Items
begin

text \<open>
  The integer layer of \<open>crates/risepir-proto/src/codec.rs\<close>: LEB128 varints,
  zigzag, the declared-count guard, and the length-prefixed \<open>Vec<u32>\<close> payload
  that the wire bundles and the state file embed.

  A writer is modelled by the bytes it pushes; a reader takes the buffer and the
  cursor.  The facts in \<open>reads_at\<close> say: where the bytes of an encoded item
  stand at the cursor, the reader returns the item and advances past exactly
  those bytes, whatever follows.
\<close>

datatype codec_error =
    CodecBadMagic
  | CodecUnexpectedEof
  | MalformedVarint
  | CodecArityMismatch u32 u32   \<comment> \<open>expected, found\<close>
  | CountExceedsInput
  | IndexOverflow
  | DeltaOutOfRange
  | CodecTrailingBytes

section \<open>Varints\<close>

function write_uvarint :: "u64 \<Rightarrow> bytes" where
  "write_uvarint v =
     (let byte = ucast (v AND 0x7f); v' = drop_bit 7 v
      in if v' = 0 then [byte] else (byte OR 0x80) # write_uvarint v')"
  by pat_completeness auto

lemma unat_drop_bit_7: "unat (drop_bit 7 (v :: u64)) = unat v div 128"
  by (simp add: drop_bit_eq_div unat_div)

lemma drop_bit_7_eq_0_iff: "drop_bit 7 (v :: u64) = 0 \<longleftrightarrow> v < 0x80"
  by (simp add: unat_drop_bit_7 word_less_nat_alt div_eq_0_iff flip: unat_eq_zero)

lemma drop_bit_less: "drop_bit 7 (v :: u64) \<noteq> 0 \<Longrightarrow> unat (drop_bit 7 v) < unat v"
  unfolding unat_drop_bit_7
  by (rule div_less_dividend) (simp, metis drop_bit_of_0 gr0I unat_eq_zero)

termination write_uvarint
  by (relation "measure unat") (auto simp: drop_bit_less)

declare write_uvarint.simps [simp del]

text \<open>The reading loop: \<open>shift\<close> grows by 7, so at most ten bytes are read.\<close>

function read_uvarint_loop :: "bytes \<Rightarrow> nat \<Rightarrow> u64 \<Rightarrow> nat \<Rightarrow> codec_error + (u64 \<times> nat)" where
  "read_uvarint_loop bs pos result shift =
     (if shift \<ge> 64 then Inl MalformedVarint
      else case get bs pos of
        None \<Rightarrow> Inl CodecUnexpectedEof
      | Some byte \<Rightarrow>
          let low7 = ucast (byte AND 0x7f);
              shifted = push_bit shift low7
          in if drop_bit shift shifted \<noteq> low7 then Inl MalformedVarint
             else if byte AND 0x80 = 0 then Inr (result OR shifted, Suc pos)
             else read_uvarint_loop bs (Suc pos) (result OR shifted) (shift + 7))"
  by pat_completeness auto

termination read_uvarint_loop
  by (relation "measure (\<lambda>(_, _, _, shift). 64 - shift)") auto

declare read_uvarint_loop.simps [simp del]

definition read_uvarint :: "bytes \<Rightarrow> nat \<Rightarrow> codec_error + (u64 \<times> nat)" where
  "read_uvarint bs pos = read_uvarint_loop bs pos 0 0"

function uvarint_len :: "u64 \<Rightarrow> nat" where
  "uvarint_len v = (if v \<ge> 0x80 then Suc (uvarint_len (drop_bit 7 v)) else 1)"
  by pat_completeness auto

termination uvarint_len
  by (relation "measure unat") (auto intro!: drop_bit_less simp: drop_bit_7_eq_0_iff)

declare uvarint_len.simps [simp del]

lemma length_write_uvarint: "length (write_uvarint v) = uvarint_len v"
proof (induction v rule: write_uvarint.induct)
  case (1 v)
  then show ?case
    by (subst write_uvarint.simps, subst uvarint_len.simps)
      (auto simp: Let_def drop_bit_7_eq_0_iff not_less)
qed

lemma write_uvarint_nonempty [simp]: "write_uvarint v \<noteq> []"
  by (subst write_uvarint.simps) (simp add: Let_def)

lemma uvarint_len_pos: "0 < uvarint_len v"
  by (subst uvarint_len.simps) simp

lemma mask_7: "(0x7f :: 'a::len word) = mask 7"
  by (simp add: mask_eq_exp_minus_1)

lemma bit_80_iff: "bit (0x80 :: 'a::semiring_bit_operations) n \<longleftrightarrow> possible_bit TYPE('a) 7 \<and> n = 7"
  using bit_exp_iff [of 7 n, where 'a = 'a] by auto

lemma low7_last: "ucast ((ucast (v AND 0x7f) :: u8) AND 0x7f) = (v :: u64) AND 0x7f"
  unfolding mask_7 by (rule bit_word_eqI) (auto simp: bit_simps)

lemma low7_more: "ucast ((ucast (v AND 0x7f) OR 0x80 :: u8) AND 0x7f) = (v :: u64) AND 0x7f"
  unfolding mask_7 by (rule bit_word_eqI) (auto simp: bit_simps bit_80_iff)

lemma continuation_clear: "(ucast ((v :: u64) AND 0x7f) :: u8) AND 0x80 = 0"
  unfolding mask_7 by (rule bit_word_eqI) (auto simp: bit_simps bit_80_iff)

lemma continuation_set: "(ucast ((v :: u64) AND 0x7f) OR 0x80 :: u8) AND 0x80 \<noteq> 0"
proof
  assume "(ucast (v AND 0x7f) OR 0x80 :: u8) AND 0x80 = 0"
  then have "bit ((ucast (v AND 0x7f) OR 0x80 :: u8) AND 0x80) 7 = bit (0 :: u8) 7" by simp
  then show False by (simp add: bit_simps bit_80_iff)
qed

lemma drop_push_low7:
  assumes "\<forall>n. bit (v :: u64) n \<longrightarrow> n + shift < 64"
  shows "drop_bit shift (push_bit shift (v AND 0x7f)) = v AND 0x7f"
  by (rule bit_word_eqI) (use assms in \<open>auto simp: bit_simps add.commute\<close>)

lemma join_low7:
  "push_bit shift ((v :: u64) AND 0x7f) OR push_bit (shift + 7) (drop_bit 7 v) = push_bit shift v"
  unfolding mask_7
proof (rule bit_word_eqI)
  fix n assume "n < LENGTH(64)"
  moreover have "n - shift < 7 \<or> 7 + (n - (shift + 7)) = n - shift" by arith
  ultimately show "bit (push_bit shift (v AND mask 7) OR push_bit (shift + 7) (drop_bit 7 v)) n
      = bit (push_bit shift v) n"
    by (auto simp: bit_simps)
qed

lemma small_low7: "drop_bit 7 (v :: u64) = 0 \<Longrightarrow> v AND 0x7f = v"
  unfolding mask_7 take_bit_eq_mask[symmetric]
  by (metis bits_ident or.right_neutral or.commute push_bit_of_0 take_bit_eq_self_iff_drop_bit_eq_0)

lemma read_uvarint_loop_at:
  assumes "drop p bs = write_uvarint v @ rest" and "\<forall>n. bit v n \<longrightarrow> n + shift < 64" and "shift < 64"
  shows "read_uvarint_loop bs p result shift =
    Inr (result OR push_bit shift v, p + length (write_uvarint v))"
  using assms
proof (induction v arbitrary: p result shift rule: write_uvarint.induct)
  case (1 v)
  let ?low = "ucast (v AND 0x7f) :: u8"
  show ?case
  proof (cases "drop_bit 7 v = 0")
    case True
    then have w: "write_uvarint v = [?low]"
      by (subst write_uvarint.simps) simp
    with "1.prems"(1) have "get bs p = Some ?low" by (simp add: get_at)
    moreover have "drop_bit shift (push_bit shift v) = v"
      using drop_push_low7[OF "1.prems"(2)] by (simp add: small_low7[OF True])
    ultimately show ?thesis
      using "1.prems"(3) low7_last[of v] continuation_clear[of v]
      by (subst read_uvarint_loop.simps) (simp add: w Let_def small_low7[OF True])
  next
    case False
    then have w: "write_uvarint v = (?low OR 0x80) # write_uvarint (drop_bit 7 v)"
      by (subst write_uvarint.simps) (simp add: Let_def)
    with "1.prems"(1) have g: "get bs p = Some (?low OR 0x80)"
      and d: "drop (Suc p) bs = write_uvarint (drop_bit 7 v) @ rest"
      by (auto intro: get_at drop_Suc_at)
    have bits: "\<forall>n. bit (drop_bit 7 v) n \<longrightarrow> n + (shift + 7) < 64"
      using "1.prems"(2) by (auto simp: bit_simps dest: spec)
    from False obtain n where "bit (drop_bit 7 v) n"
      by (metis bit_eq_iff bit_0_eq bot_apply bot_bool_def bit.conj_zero_left bit_0)
    with bits have shift: "shift + 7 < 64" by fastforce
    have "read_uvarint_loop bs p result shift =
        read_uvarint_loop bs (Suc p) (result OR push_bit shift (v AND 0x7f)) (shift + 7)"
    proof -
      define x where "x = v AND 0x7f"
      show ?thesis
        using "1.prems"(3) g low7_more[of v] continuation_set[of v] drop_push_low7[OF "1.prems"(2)]
        unfolding x_def[symmetric] by (subst read_uvarint_loop.simps) (simp add: Let_def)
    qed
    also have "\<dots> = Inr ((result OR push_bit shift (v AND 0x7f)) OR push_bit (shift + 7) (drop_bit 7 v),
        Suc p + length (write_uvarint (drop_bit 7 v)))"
      by (rule "1.IH"[OF refl refl _ d bits shift]) (use False in simp)
    also have "\<dots> = Inr (result OR push_bit shift v, p + length (write_uvarint v))"
      by (simp only: w or.assoc join_low7 list.size add_Suc_right add_Suc add_0_right One_nat_def)
    finally show ?thesis .
  qed
qed

lemma read_uvarint_at [reads_at]:
  "drop p bs = write_uvarint v @ rest \<Longrightarrow> read_uvarint bs p = Inr (v, p + length (write_uvarint v))"
  unfolding read_uvarint_def
  by (subst read_uvarint_loop_at) (auto dest: bit_imp_le_length)

text \<open>A reader that succeeds has stayed inside the buffer and moved forward.\<close>

lemma read_uvarint_loop_bounds:
  "read_uvarint_loop bs p result shift = Inr (v, q) \<Longrightarrow> p < q \<and> q \<le> length bs"
proof (induction bs p result shift arbitrary: v q rule: read_uvarint_loop.induct)
  case (1 bs p result shift)
  show ?case
    using "1.prems" "1.IH"
    by (subst (asm) (1) read_uvarint_loop.simps)
      (fastforce simp: Let_def get_Some_iff split: if_splits option.splits)
qed

lemma read_uvarint_bounds: "read_uvarint bs p = Inr (v, q) \<Longrightarrow> p < q \<and> q \<le> length bs"
  unfolding read_uvarint_def by (rule read_uvarint_loop_bounds)

section \<open>Zigzag\<close>

definition zigzag_encode :: "i64 \<Rightarrow> u64" where
  "zigzag_encode v = push_bit 1 v XOR signed_drop_bit 63 v"

definition zigzag_decode :: "u64 \<Rightarrow> i64" where
  "zigzag_decode u = drop_bit 1 u XOR - (u AND 1)"

lemma signed_drop_bit_63: "signed_drop_bit 63 (v :: i64) = (if bit v 63 then -1 else 0)"
  by (rule bit_word_eqI) (auto simp: bit_simps Suc_le_eq)

lemma minus_and_1: "- (u AND 1 :: u64) = (if bit u 0 then -1 else 0)"
  by (simp add: and_one_eq bit_0 odd_iff_mod_2_eq_one)

lemma zigzag_decode_encode [simp]: "zigzag_decode (zigzag_encode v) = v"
proof -
  have "bit (zigzag_encode v) 0 = bit v 63"
    by (simp add: zigzag_encode_def signed_drop_bit_63 bit_simps bit_0)
  then show ?thesis
    unfolding zigzag_decode_def minus_and_1
  proof (intro bit_word_eqI)
    fix n assume "n < LENGTH(64)"
    then have "n < 63 \<or> n = 63" by auto
    then show "bit (drop_bit 1 (zigzag_encode v) XOR (if bit (zigzag_encode v) 0 then - 1 else 0)) n
        = bit v n"
      if "bit (zigzag_encode v) 0 = bit v 63"
      using that unfolding zigzag_encode_def signed_drop_bit_63
      by (auto simp: bit_simps simp del: push_bit_Suc)
  qed
qed

text \<open>\<open>i64::unsigned_abs\<close>.\<close>

definition unsigned_abs :: "i64 \<Rightarrow> u64" where
  "unsigned_abs d = of_int \<bar>sint d\<bar>"

lemma unat_unsigned_abs: "unat (unsigned_abs d) = nat \<bar>sint d\<bar>"
proof -
  have "- (2 ^ 63) \<le> sint d" "sint d < 2 ^ 63"
    using sint_ge[of d] sint_lt[of d] by simp_all
  then have "\<bar>sint d\<bar> < 2 ^ 64" by auto
  then show ?thesis
    by (simp add: unsigned_abs_def unat_eq_nat_uint uint_word_of_int_eq take_bit_int_eq_self)
qed

section \<open>Counts and vectors of \<open>u32\<close>\<close>

definition check_count :: "u64 \<Rightarrow> nat \<Rightarrow> codec_error + nat" where
  "check_count count remaining =
     (if unat count > remaining then Inl CountExceedsInput else Inr (unat count))"

lemma check_count_of_nat:
  "n < 2 ^ 64 \<Longrightarrow> n \<le> remaining \<Longrightarrow> check_count (of_nat n) remaining = Inr n"
  by (simp add: check_count_def unat_of_nat take_bit_nat_eq_self)

definition write_u32 :: "unit \<Rightarrow> u32 \<Rightarrow> bytes \<times> unit" where
  "write_u32 s v = (u32_le v, ())"

definition read_u32_item :: "unit \<Rightarrow> bytes \<Rightarrow> nat \<Rightarrow> codec_error + (u32 \<times> unit \<times> nat)" where
  "read_u32_item s bs pos =
     and_then (ok_or (get_range bs pos 4) CodecUnexpectedEof) (\<lambda>chunk.
     Inr (of_le chunk, (), pos + 4))"

definition encode_u32s :: "u32 list \<Rightarrow> bytes" where
  "encode_u32s values = write_uvarint (of_nat (length values)) @ for_write write_u32 () values"

definition read_u32s :: "bytes \<Rightarrow> nat \<Rightarrow> nat \<Rightarrow> codec_error + (u32 list \<times> nat)" where
  "read_u32s bs pos max_len =
     and_then (read_uvarint bs pos) (\<lambda>(len_raw, pos).
       if unat len_raw > max_len then Inl CountExceedsInput
       else let remaining = length bs - pos in
         if unat len_raw > remaining div 4 then Inl CountExceedsInput
         else for_read read_u32_item (unat len_raw) () bs pos)"

definition decode_u32s :: "bytes \<Rightarrow> nat \<Rightarrow> codec_error + u32 list" where
  "decode_u32s bs max_len =
     and_then (read_u32s bs 0 max_len) (\<lambda>(out, pos).
       if pos \<noteq> length bs then Inl CodecTrailingBytes else Inr out)"

interpretation u32_item: wire_item write_u32 read_u32_item "\<lambda>s. s" "\<lambda>_ _. True"
proof
  fix s :: unit and x :: u32 and p bs rest
  assume "drop p bs = fst (write_u32 s x) @ rest"
  then show "read_u32_item s bs p = Inr (x, snd (write_u32 s x), p + length (fst (write_u32 s x)))"
    by (simp add: write_u32_def read_u32_item_def get_range_le)
next
  show "fst (write_u32 s x) \<noteq> []" for s x
    by (simp add: write_u32_def flip: length_greater_0_conv)
qed

lemma for_ok_True [simp]: "for_ok wr (\<lambda>_ _. True) s xs"
  by (induction xs arbitrary: s) auto

lemma length_for_write_u32: "length (for_write write_u32 () vs) = 4 * length vs"
  by (induction vs) (simp_all add: write_u32_def)

lemma read_u32s_at [reads_at]:
  assumes "drop p bs = encode_u32s values @ rest" and "length values \<le> max_len"
    and "length values < 2 ^ 64"
  shows "read_u32s bs p max_len = Inr (values, p + length (encode_u32s values))"
proof -
  let ?n = "write_uvarint (of_nat (length values))" and ?p = "p + length (write_uvarint (of_nat (length values)))"
  have d0: "drop p bs = ?n @ (for_write write_u32 () values @ rest)"
    using assms(1) by (simp add: encode_u32s_def)
  note d1 = drop_add_at[OF d0]
  have len: "unat (of_nat (length values) :: u64) = length values"
    using assms(3) by (simp add: unat_of_nat take_bit_nat_eq_self)
  have "length (drop ?p bs) = 4 * length values + length rest"
    unfolding d1 by (simp add: length_for_write_u32)
  then have "length values \<le> (length bs - ?p) div 4" by simp
  then show ?thesis
    using u32_item.for_read_write[OF for_ok_True d1] assms(2)
    by (simp add: read_u32s_def read_uvarint_at[OF d0] len Let_def encode_u32s_def add.assoc)
qed

lemma read_u32s_bounds:
  assumes "read_u32s bs p max_len = Inr (values, q)"
  shows "p < q \<and> q \<le> length bs \<and> length values \<le> max_len \<and> 4 * length values \<le> length bs"
proof -
  from assms obtain n r where r: "read_uvarint bs p = Inr (n, r)"
    and n: "unat n \<le> max_len" "unat n \<le> (length bs - r) div 4"
    and loop: "for_read read_u32_item (unat n) () bs r = Inr (values, q)"
    by (auto simp: read_u32s_def Let_def split: if_splits)
  have "r + unat n \<le> q \<and> q \<le> length bs"
    by (rule for_read_bounds[OF loop])
      (use read_uvarint_bounds[OF r] in \<open>auto simp: read_u32_item_def get_range_Some_iff\<close>)
  then show ?thesis
    using read_uvarint_bounds[OF r] n for_read_length[OF loop] by auto
qed

lemma read_uvarint_loop_extends:
  "read_uvarint_loop bs p result shift = Inr r \<Longrightarrow>
   read_uvarint_loop (bs @ ys) p result shift = Inr r"
proof (induction bs p result shift rule: read_uvarint_loop.induct)
  case (1 bs p result shift)
  note eq = read_uvarint_loop.simps[of bs p result shift]
  have sh: "\<not> 64 \<le> shift" using "1.prems" by (auto simp: eq)
  with "1.prems" obtain b where b: "get bs p = Some b"
    by (auto simp: eq split: option.splits)
  note eq' = read_uvarint_loop.simps[of "bs @ ys" p result shift]
  from "1.prems" sh b "1.IH"[OF sh b refl refl] show ?case
    unfolding eq eq' get_extends[OF b] b option.case Let_def by (simp split: if_splits)
qed

lemma read_uvarint_extends: "extends read_uvarint"
  by (simp add: extends_def read_uvarint_def read_uvarint_loop_extends)

lemma read_u32_item_extends: "extends (read_u32_item s)"
  by (auto simp: extends_def read_u32_item_def get_range_extends)

lemma read_u32s_extends: "extends (\<lambda>bs p. read_u32s bs p n)"
  unfolding extends_def
proof (intro allI impI)
  fix bs ys p r assume "read_u32s bs p n = Inr r"
  then obtain c q where c: "read_uvarint bs p = Inr (c, q)" and le: "unat c \<le> n"
      "unat c \<le> (length bs - q) div 4"
    and loop: "for_read read_u32_item (unat c) () bs q = Inr r"
    by (auto simp: read_u32s_def Let_def split: if_splits)
  have "unat c \<le> (length (bs @ ys) - q) div 4"
    using le(2) by (rule order_trans) (simp add: div_le_mono)
  then show "read_u32s (bs @ ys) p n = Inr r"
    using extendsD[OF read_uvarint_extends c, of ys] le(1)
      extendsD[OF for_read_extends[OF read_u32_item_extends] loop, of ys]
    by (simp add: read_u32s_def Let_def)
qed

section \<open>Properties\<close>

text \<open>A list of \<open>u32\<close> values decodes from its encoding to itself, whatever the bound the
  reader is given, as long as the bound admits the length.\<close>

theorem u32s_roundtrip:
  assumes "length values \<le> max_len" and "length values < 2 ^ 64"
  shows "decode_u32s (encode_u32s values) max_len = Inr values"
  using read_u32s_at[of 0 "encode_u32s values" "values" "[]" max_len] assms by (simp add: decode_u32s_def)

lemma u32s_roundtrip_witness:
  "decode_u32s (encode_u32s [0, 300, 4294967295]) 3 = Inr [0, 300, 4294967295]"
  by (rule u32s_roundtrip) simp_all

end
