(* ===== verification/BTree_Map.thy ===== *)
theory BTree_Map
  imports Prelude "HOL-Library.Product_Lexorder"
begin

text \<open>
  The standard library's \<open>BTreeMap\<close>, by what its iterators expose: an
  association list in strictly ascending key order.  Iteration is the list
  itself, \<open>range\<close> is a filter, \<open>entry(k)\<close> is a lookup followed by an insert or
  a removal.  The interface the clients use is the locale \<open>ordered_map\<close>;
  it is interpreted on the operations below, and the facts it yields are the
  only ones the components use.
\<close>

section \<open>Operations\<close>

type_synonym ('k, 'v) btree = "('k \<times> 'v) list"

fun bt_insert :: "'k::linorder \<Rightarrow> 'v \<Rightarrow> ('k, 'v) btree \<Rightarrow> ('k, 'v) btree" where
  "bt_insert k v [] = [(k, v)]"
| "bt_insert k v ((k', v') # m) =
     (if k < k' then (k, v) # (k', v') # m
      else if k = k' then (k, v) # m
      else (k', v') # bt_insert k v m)"

fun bt_remove :: "'k::linorder \<Rightarrow> ('k, 'v) btree \<Rightarrow> ('k, 'v) btree" where
  "bt_remove k [] = []"
| "bt_remove k ((k', v') # m) = (if k = k' then m else (k', v') # bt_remove k m)"

definition bt_get :: "('k, 'v) btree \<Rightarrow> 'k \<Rightarrow> 'v option" where
  "bt_get m k = map_of m k"

definition bt_get_or :: "'v \<Rightarrow> ('k, 'v) btree \<Rightarrow> 'k \<Rightarrow> 'v" where
  "bt_get_or d m k = (case map_of m k of None \<Rightarrow> d | Some v \<Rightarrow> v)"

definition bt_range :: "'k::linorder \<Rightarrow> 'k \<Rightarrow> ('k, 'v) btree \<Rightarrow> ('k, 'v) btree" where
  "bt_range lo hi m = filter (\<lambda>(k, _). lo \<le> k \<and> k \<le> hi) m"

definition bt_invar :: "('k::linorder, 'v) btree \<Rightarrow> bool" where
  "bt_invar m \<longleftrightarrow> sorted_wrt (<) (map fst m)"

section \<open>The interface\<close>

locale ordered_map =
  fixes empty :: "'m"
    and insert :: "'k \<Rightarrow> 'v \<Rightarrow> 'm \<Rightarrow> 'm"
    and remove :: "'k \<Rightarrow> 'm \<Rightarrow> 'm"
    and lookup :: "'m \<Rightarrow> 'k \<Rightarrow> 'v option"
    and invar :: "'m \<Rightarrow> bool"
  assumes lookup_empty: "lookup empty k = None"
    and lookup_insert: "invar m \<Longrightarrow> lookup (insert k v m) k' = (if k' = k then Some v else lookup m k')"
    and lookup_remove: "invar m \<Longrightarrow> lookup (remove k m) k' = (if k' = k then None else lookup m k')"
    and invar_empty: "invar empty"
    and invar_insert: "invar m \<Longrightarrow> invar (insert k v m)"
    and invar_remove: "invar m \<Longrightarrow> invar (remove k m)"
begin

lemmas map_laws = lookup_empty lookup_insert lookup_remove invar_empty invar_insert invar_remove

lemma lookup_insert_insert:
  "invar m \<Longrightarrow> lookup (insert k v (insert k w m)) = lookup (insert k v m)"
  by (rule ext) (simp add: map_laws)

lemma lookup_fold_insert:
  assumes "invar m" and "distinct (map fst kvs)"
  shows "lookup (fold (\<lambda>(k, v). insert k v) kvs m) k =
    (case map_of kvs k of None \<Rightarrow> lookup m k | Some v \<Rightarrow> Some v)"
  using assms
proof (induction kvs arbitrary: m)
  case Nil
  then show ?case by simp
next
  case (Cons kv kvs)
  then show ?case
    by (cases kv) (auto simp: map_laws map_of_eq_None_iff[THEN iffD2] split: option.splits)
qed

lemma invar_fold_insert: "invar m \<Longrightarrow> invar (fold (\<lambda>(k, v). insert k v) kvs m)"
  by (induction kvs arbitrary: m) (auto simp: invar_insert)

end

lemma bt_invar_Nil [simp]: "bt_invar []"
  by (simp add: bt_invar_def)

lemma bt_invar_Cons: "bt_invar ((k, v) # m) \<longleftrightarrow> (\<forall>k' \<in> fst ` set m. k < k') \<and> bt_invar m"
  by (auto simp: bt_invar_def)

lemma bt_invar_distinct: "bt_invar m \<Longrightarrow> distinct (map fst m)"
  by (simp add: bt_invar_def strict_sorted_iff)

lemma bt_invar_tl: "bt_invar (kv # m) \<Longrightarrow> bt_invar m"
  by (simp add: bt_invar_def)

lemma bt_invar_filter: "bt_invar m \<Longrightarrow> bt_invar (filter P m)"
  by (induction m) (auto simp: bt_invar_def)

lemma map_of_bt_insert: "map_of (bt_insert k v m) = (map_of m)(k \<mapsto> v)"
  by (induction m) auto

lemma fst_set_bt_insert: "fst ` set (bt_insert k v m) = insert k (fst ` set m)"
  by (simp flip: dom_map_of_conv_image_fst add: map_of_bt_insert)

lemma set_bt_remove_subset: "set (bt_remove k m) \<subseteq> set m"
  by (induction m) (auto split: if_splits)

lemma bt_invar_insert: "bt_invar m \<Longrightarrow> bt_invar (bt_insert k v m)"
proof (induction m)
  case Nil
  then show ?case by (simp add: bt_invar_def)
next
  case (Cons kv m)
  then show ?case
    by (cases kv) (force simp: bt_invar_Cons fst_set_bt_insert not_less_iff_gr_or_eq)
qed

lemma bt_invar_remove: "bt_invar m \<Longrightarrow> bt_invar (bt_remove k m)"
  by (induction m) (use set_bt_remove_subset in \<open>fastforce simp: bt_invar_Cons\<close>)+

lemma map_of_bt_remove:
  "bt_invar m \<Longrightarrow> map_of (bt_remove k m) = (map_of m)(k := None)"
proof (induction m)
  case Nil
  then show ?case by simp
next
  case (Cons kv m)
  obtain k' v' where kv: "kv = (k', v')" by (cases kv)
  from Cons.prems have "k' \<notin> fst ` set m" by (auto simp: kv bt_invar_Cons)
  then have "map_of m k' = None" by (simp add: map_of_eq_None_iff)
  with Cons show ?case by (auto simp: kv bt_invar_Cons)
qed

interpretation bt: ordered_map "[]" bt_insert bt_remove bt_get bt_invar
  by unfold_locales
    (auto simp: bt_get_def map_of_bt_insert map_of_bt_remove bt_invar_insert bt_invar_remove)

lemma bt_get_or_insert:
  "bt_get_or d (bt_insert k v m) k' = (if k' = k then v else bt_get_or d m k')"
  by (simp add: bt_get_or_def map_of_bt_insert)

section \<open>Equality of ordered maps\<close>

lemma bt_eqI:
  assumes "bt_invar m" and "bt_invar n" and "map_of m = map_of n"
  shows "m = n"
proof (rule map_sorted_distinct_set_unique[of fst])
  show "inj_on fst (set m \<union> set n)"
  proof (rule inj_onI)
    fix x y assume x: "x \<in> set m \<union> set n" and y: "y \<in> set m \<union> set n" and eq: "fst x = fst y"
    have "map_of m (fst z) = Some (snd z)" if "z \<in> set m \<union> set n" for z
      using that assms bt_invar_distinct[of m] bt_invar_distinct[of n]
      by (metis Un_iff map_of_is_SomeI prod.collapse)
    with x y eq show "x = y" by (metis option.inject prod.expand)
  qed
  show "sorted (map fst m)" "distinct (map fst m)" "sorted (map fst n)" "distinct (map fst n)"
    using assms by (auto simp: bt_invar_def strict_sorted_iff)
  show "set m = set n"
    using assms by (metis bt_invar_distinct map_of_inject_set)
qed

lemma map_of_bt_range:
  "bt_invar m \<Longrightarrow> map_of (bt_range lo hi m) k = (if lo \<le> k \<and> k \<le> hi then map_of m k else None)"
  unfolding bt_range_def
  by (induction m) (auto simp: bt_invar_Cons)

end
