(* ===== verification/Block_Delta.thy ===== *)
theory Block_Delta
  imports BTree_Map
begin

text \<open>
  Model of \<open>crates/risepir-proto/src/types.rs\<close>: the block update every feed
  normalizes to, the sparse per-segment cell deltas, and
  \<open>coalesce\<close>, which folds a contiguous run of block deltas into one.

  What a delta means is \<open>delta_effect\<close>: the signed amount it adds to each
  cell \<open>(segment, row, offset)\<close>.  The lemmas show that coalescing adds the
  effects of its inputs, that its output is canonical (rows and offsets strictly
  ascending, no zero cell, no empty row), and exactly when each error is
  returned.
\<close>

section \<open>Data\<close>

type_synonym address_hash = bytes     \<comment> \<open>\<open>[u8; 32]\<close>\<close>
type_synonym balance = u128

record block_update =
  update_block :: u64
  changes :: "(address_hash \<times> balance) list"
  credits :: "(address_hash \<times> balance) list"

type_synonym cell_edits = "(u16 \<times> i64) list"
type_synonym segment_row_deltas = "(u32 \<times> cell_edits) list"

record block_delta =
  delta_block :: u64
  per_segment :: "segment_row_deltas list"

datatype coalesce_error =
    CoalesceEmpty
  | NonContiguous u64 u64          \<comment> \<open>expected, found\<close>
  | SegmentCountMismatch nat nat   \<comment> \<open>expected, found\<close>
  | CoalesceOverflow

section \<open>\<open>coalesce\<close>\<close>

text \<open>The check loop over \<open>(first.block..).zip(deltas)\<close>; the range's successor wraps,
  as an unchecked \<open>u64\<close> increment does in a release build.\<close>

fun check_run :: "u64 \<Rightarrow> nat \<Rightarrow> block_delta list \<Rightarrow> coalesce_error + unit" where
  "check_run expected n [] = Inr ()"
| "check_run expected n (d # ds) =
     (if delta_block d \<noteq> expected then Inl (NonContiguous expected (delta_block d))
      else if length (per_segment d) \<noteq> n
      then Inl (SegmentCountMismatch n (length (per_segment d)))
      else check_run (expected + 1) n ds)"

text \<open>The accumulator is one nested ordered map per segment.  An empty cell list still
  creates its row entry (\<open>entry(row).or_default()\<close>).\<close>

fun acc_cells :: "cell_edits \<Rightarrow> (u16, i64) btree \<Rightarrow> coalesce_error + (u16, i64) btree" where
  "acc_cells [] m = Inr m"
| "acc_cells ((off, delta) # cs) m =
     (case checked_add_s (bt_get_or 0 m off) delta of
        None \<Rightarrow> Inl CoalesceOverflow
      | Some slot \<Rightarrow> acc_cells cs (bt_insert off slot m))"

fun acc_rows :: "segment_row_deltas \<Rightarrow> (u32, (u16, i64) btree) btree
    \<Rightarrow> coalesce_error + (u32, (u16, i64) btree) btree" where
  "acc_rows [] m = Inr m"
| "acc_rows ((row, cells) # rs) m =
     and_then (acc_cells cells (bt_get_or [] m row)) (\<lambda>row_map.
       acc_rows rs (bt_insert row row_map m))"

fun acc_segments :: "segment_row_deltas list \<Rightarrow> nat \<Rightarrow> (u32, (u16, i64) btree) btree list
    \<Rightarrow> coalesce_error + (u32, (u16, i64) btree) btree list" where
  "acc_segments [] seg_idx acc = Inr acc"
| "acc_segments (seg # segs) seg_idx acc =
     and_then (acc_rows seg (acc ! seg_idx)) (\<lambda>m.
       acc_segments segs (Suc seg_idx) (acc[seg_idx := m]))"

fun acc_deltas :: "block_delta list \<Rightarrow> (u32, (u16, i64) btree) btree list
    \<Rightarrow> coalesce_error + (u32, (u16, i64) btree) btree list" where
  "acc_deltas [] acc = Inr acc"
| "acc_deltas (d # ds) acc =
     and_then (acc_segments (per_segment d) 0 acc) (acc_deltas ds)"

text \<open>Emission: zero cells are filtered out, then rows left without cells.\<close>

fun emit_rows :: "(u32 \<times> (u16, i64) btree) list \<Rightarrow> segment_row_deltas" where
  "emit_rows [] = []"
| "emit_rows ((row, cell_map) # m) =
     (let cells = filter (\<lambda>(_, delta). delta \<noteq> 0) cell_map
      in if cells = [] then emit_rows m else (row, cells) # emit_rows m)"

definition coalesce :: "block_delta list \<Rightarrow> coalesce_error + block_delta" where
  "coalesce deltas =
     (case deltas of
        [] \<Rightarrow> Inl CoalesceEmpty
      | first # _ \<Rightarrow>
          let num_segments = length (per_segment first) in
          and_then (check_run (delta_block first) num_segments deltas) (\<lambda>_.
          and_then (acc_deltas deltas (replicate num_segments [])) (\<lambda>acc.
          Inr \<lparr> delta_block = delta_block (last deltas),
                per_segment = map emit_rows acc \<rparr>)))"

section \<open>The meaning of a delta\<close>

definition cells_effect :: "cell_edits \<Rightarrow> u16 \<Rightarrow> int" where
  "cells_effect cs off = (\<Sum>(o', d) \<leftarrow> cs. if o' = off then sint d else 0)"

definition rows_effect :: "segment_row_deltas \<Rightarrow> u32 \<Rightarrow> u16 \<Rightarrow> int" where
  "rows_effect rs row off = (\<Sum>(r, cs) \<leftarrow> rs. if r = row then cells_effect cs off else 0)"

definition delta_effect :: "block_delta \<Rightarrow> nat \<Rightarrow> u32 \<Rightarrow> u16 \<Rightarrow> int" where
  "delta_effect d j row off =
     (if j < length (per_segment d) then rows_effect (per_segment d ! j) row off else 0)"

definition canonical_rows :: "segment_row_deltas \<Rightarrow> bool" where
  "canonical_rows rs \<longleftrightarrow> bt_invar rs \<and>
     (\<forall>(row, cells) \<in> set rs. bt_invar cells \<and> cells \<noteq> [] \<and> (\<forall>(_, d) \<in> set cells. d \<noteq> 0))"

definition canonical_delta :: "block_delta \<Rightarrow> bool" where
  "canonical_delta d \<longleftrightarrow> (\<forall>rs \<in> set (per_segment d). canonical_rows rs)"

definition nested_invar :: "(u32, (u16, i64) btree) btree \<Rightarrow> bool" where
  "nested_invar m \<longleftrightarrow> bt_invar m \<and> (\<forall>(_, cm) \<in> set m. bt_invar cm)"

lemma cells_effect_simps [simp]:
  "cells_effect [] off = 0"
  "cells_effect ((o', d) # cs) off = (if o' = off then sint d else 0) + cells_effect cs off"
  by (simp_all add: cells_effect_def)

lemma rows_effect_simps [simp]:
  "rows_effect [] row off = 0"
  "rows_effect ((r, cs) # rs) row off =
     (if r = row then cells_effect cs off else 0) + rows_effect rs row off"
  by (simp_all add: rows_effect_def)

lemma cells_effect_absent: "off \<notin> fst ` set m \<Longrightarrow> cells_effect m off = 0"
  by (induction m) auto

lemma rows_effect_absent: "row \<notin> fst ` set m \<Longrightarrow> rows_effect m row off = 0"
  by (induction m) auto

lemma cells_effect_lookup:
  assumes "bt_invar m"
  shows "cells_effect m off = sint (bt_get_or 0 m off)"
  using assms
proof (induction m)
  case Nil
  then show ?case by (simp add: bt_get_or_def)
next
  case (Cons kv m)
  obtain k v where kv: "kv = (k, v)" by (cases kv)
  from Cons.prems have "k \<notin> fst ` set m" by (auto simp: kv bt_invar_Cons)
  then have "cells_effect m k = 0" by (rule cells_effect_absent)
  with Cons show ?case
    by (auto simp: kv bt_invar_Cons bt_get_or_def)
qed

lemma rows_effect_lookup:
  assumes "bt_invar m"
  shows "rows_effect m row off = cells_effect (bt_get_or [] m row) off"
  using assms
proof (induction m)
  case Nil
  then show ?case by (simp add: bt_get_or_def)
next
  case (Cons kv m)
  obtain k v where kv: "kv = (k, v)" by (cases kv)
  from Cons.prems have "k \<notin> fst ` set m" by (auto simp: kv bt_invar_Cons)
  then have "rows_effect m k off = 0" by (rule rows_effect_absent)
  with Cons show ?case
    by (auto simp: kv bt_invar_Cons bt_get_or_def)
qed

lemma cells_effect_bt_insert:
  "bt_invar m \<Longrightarrow>
   cells_effect (bt_insert off v m) off' = (if off' = off then sint v else cells_effect m off')"
  by (simp add: cells_effect_lookup bt_invar_insert bt_get_or_insert)

lemma rows_effect_bt_insert:
  "bt_invar m \<Longrightarrow>
   rows_effect (bt_insert row rm m) row' off =
     (if row' = row then cells_effect rm off else rows_effect m row' off)"
  by (simp add: rows_effect_lookup bt_invar_insert bt_get_or_insert)

lemma nested_invar_Nil [simp]: "nested_invar []"
  by (simp add: nested_invar_def)

lemma set_bt_insert_subset: "set (bt_insert k v m) \<subseteq> insert (k, v) (set m)"
  by (induction m) (auto split: if_splits)

lemma nested_invar_get: "nested_invar m \<Longrightarrow> bt_invar (bt_get_or [] m row)"
  by (auto simp: nested_invar_def bt_get_or_def split: option.splits dest: map_of_SomeD)

lemma nested_invar_insert:
  "nested_invar m \<Longrightarrow> bt_invar rm \<Longrightarrow> nested_invar (bt_insert row rm m)"
  using set_bt_insert_subset [of row rm m]
  by (fastforce simp: nested_invar_def bt_invar_insert)

section \<open>The accumulator adds effects\<close>

lemma acc_cells_adds:
  assumes "acc_cells cs m = Inr m'" and "bt_invar m"
  shows "bt_invar m' \<and> (\<forall>off. cells_effect m' off = cells_effect m off + cells_effect cs off)"
  using assms
proof (induction cs m rule: acc_cells.induct)
  case (1 m)
  then show ?case by simp
next
  case (2 off delta cs m)
  then obtain slot where slot: "checked_add_s (bt_get_or 0 m off) delta = Some slot"
    and rest: "acc_cells cs (bt_insert off slot m) = Inr m'"
    by (auto split: option.splits)
  have "sint slot = cells_effect m off + sint delta"
    using checked_add_s_Some[OF slot] "2.prems"(2) by (simp add: cells_effect_lookup)
  then show ?case
    using "2.IH"[OF slot rest bt_invar_insert[OF "2.prems"(2)]] "2.prems"(2)
    by (auto simp: cells_effect_bt_insert)
qed

lemma acc_rows_adds:
  assumes "acc_rows rs m = Inr m'" and "nested_invar m"
  shows "nested_invar m' \<and>
    (\<forall>row off. rows_effect m' row off = rows_effect m row off + rows_effect rs row off)"
  using assms
proof (induction rs m rule: acc_rows.induct)
  case (1 m)
  then show ?case by simp
next
  case (2 row cells rs m)
  then obtain rm where rm: "acc_cells cells (bt_get_or [] m row) = Inr rm"
    and rest: "acc_rows rs (bt_insert row rm m) = Inr m'"
    by auto
  have bt: "bt_invar m" using "2.prems"(2) by (simp add: nested_invar_def)
  have rm': "bt_invar rm" "\<And>off. cells_effect rm off = rows_effect m row off + cells_effect cells off"
    using acc_cells_adds[OF rm nested_invar_get[OF "2.prems"(2)]] bt
    by (auto simp: rows_effect_lookup)
  then show ?case
    using "2.IH"[OF rm rest nested_invar_insert[OF "2.prems"(2) rm'(1)]] bt
    by (auto simp: rows_effect_bt_insert)
qed

definition acc_invar :: "(u32, (u16, i64) btree) btree list \<Rightarrow> bool" where
  "acc_invar acc \<longleftrightarrow> (\<forall>m \<in> set acc. nested_invar m)"

definition acc_effect :: "(u32, (u16, i64) btree) btree list \<Rightarrow> nat \<Rightarrow> u32 \<Rightarrow> u16 \<Rightarrow> int" where
  "acc_effect acc j row off = (if j < length acc then rows_effect (acc ! j) row off else 0)"

lemma acc_segments_adds:
  assumes "acc_segments segs i acc = Inr acc'" and "acc_invar acc" and "i + length segs \<le> length acc"
  shows "acc_invar acc' \<and> length acc' = length acc \<and>
    (\<forall>j row off. acc_effect acc' j row off = acc_effect acc j row off +
       (if i \<le> j \<and> j < i + length segs then rows_effect (segs ! (j - i)) row off else 0))"
  using assms
proof (induction segs i acc rule: acc_segments.induct)
  case (1 i acc)
  then show ?case by auto
next
  case (2 seg segs i acc)
  then obtain m where m: "acc_rows seg (acc ! i) = Inr m"
    and rest: "acc_segments segs (Suc i) (acc[i := m]) = Inr acc'"
    by auto
  have i: "i < length acc" using "2.prems"(3) by simp
  have inv_i: "nested_invar (acc ! i)"
    using "2.prems"(2) i by (simp add: acc_invar_def)
  note adds = acc_rows_adds[OF m inv_i]
  have inv': "acc_invar (acc[i := m])"
    using "2.prems"(2) adds set_update_subset_insert[of acc i m] by (auto simp: acc_invar_def)
  have eff: "acc_effect (acc[i := m]) j row off =
      acc_effect acc j row off + (if j = i then rows_effect seg row off else 0)" for j row off
    using adds i by (auto simp: acc_effect_def nth_list_update)
  show ?case
    using "2.IH"[OF m rest inv'] "2.prems"(3) eff
    by (auto simp: nth_Cons' Suc_diff_le not_less_eq_eq)
qed

lemma acc_deltas_adds:
  assumes "acc_deltas ds acc = Inr acc'" and "acc_invar acc"
    and "\<forall>d \<in> set ds. length (per_segment d) = length acc"
  shows "acc_invar acc' \<and> length acc' = length acc \<and>
    (\<forall>j row off. acc_effect acc' j row off =
       acc_effect acc j row off + (\<Sum>d \<leftarrow> ds. delta_effect d j row off))"
  using assms
proof (induction ds acc rule: acc_deltas.induct)
  case (1 acc)
  then show ?case by simp
next
  case (2 d ds acc)
  then obtain acc1 where acc1: "acc_segments (per_segment d) 0 acc = Inr acc1"
    and rest: "acc_deltas ds acc1 = Inr acc'"
    by auto
  have "length (per_segment d) = length acc" using "2.prems"(3) by simp
  with acc_segments_adds[OF acc1 "2.prems"(2)]
  have one: "acc_invar acc1" "length acc1 = length acc"
    "\<And>j row off. acc_effect acc1 j row off = acc_effect acc j row off + delta_effect d j row off"
    by (auto simp: delta_effect_def)
  then show ?case
    using "2.IH"[OF acc1 rest] "2.prems"(3) by auto
qed

lemma cells_effect_filter_nonzero:
  "cells_effect (filter (\<lambda>(_, d). d \<noteq> 0) cs) off = cells_effect cs off"
  by (induction cs) (auto split: if_splits)

lemma rows_effect_emit: "rows_effect (emit_rows m) row off = rows_effect m row off"
proof (induction m rule: emit_rows.induct)
  case 1
  then show ?case by simp
next
  case (2 row' cm m)
  then show ?case
    using cells_effect_filter_nonzero[of cm off] by (auto simp: Let_def)
qed

lemma fst_emit_subset: "fst ` set (emit_rows m) \<subseteq> fst ` set m"
proof (induction m)
  case Nil
  then show ?case by simp
next
  case (Cons kv m)
  then show ?case by (cases kv) (auto simp: Let_def split: if_splits)
qed

lemma emit_rows_canonical: "nested_invar m \<Longrightarrow> canonical_rows (emit_rows m)"
proof (induction m rule: emit_rows.induct)
  case 1
  then show ?case by (simp add: canonical_rows_def)
next
  case (2 row cm m)
  then have m: "nested_invar m" "bt_invar cm" "\<forall>k' \<in> fst ` set m. row < k'"
    by (auto simp: nested_invar_def bt_invar_Cons)
  with "2.IH" fst_emit_subset[of m] bt_invar_filter[of cm] show ?case
    by (fastforce simp: canonical_rows_def bt_invar_Cons Let_def)
qed

section \<open>Errors\<close>

lemma check_run_ok_iff:
  "check_run e n ds = Inr u \<longleftrightarrow>
     (\<forall>i < length ds. delta_block (ds ! i) = e + of_nat i \<and> length (per_segment (ds ! i)) = n)"
proof (induction e n ds rule: check_run.induct)
  case (1 e n)
  then show ?case by simp
next
  case (2 e n d ds)
  have "(\<forall>i < length (d # ds). delta_block ((d # ds) ! i) = e + of_nat i \<and>
            length (per_segment ((d # ds) ! i)) = n) \<longleftrightarrow>
        (delta_block d = e \<and> length (per_segment d) = n) \<and>
        (\<forall>i < length ds. delta_block (ds ! i) = e + 1 + of_nat i \<and> length (per_segment (ds ! i)) = n)"
    by (auto simp: All_less_Suc2 add.assoc)
  with 2 show ?case by auto
qed

definition contiguous_run :: "block_delta list \<Rightarrow> bool" where
  "contiguous_run ds \<longleftrightarrow>
     (\<forall>i < length ds. delta_block (ds ! i) = delta_block (hd ds) + of_nat i
        \<and> length (per_segment (ds ! i)) = length (per_segment (hd ds)))"

definition cells_mag :: "cell_edits \<Rightarrow> int" where
  "cells_mag cs = (\<Sum>(_, d) \<leftarrow> cs. \<bar>sint d\<bar>)"

definition rows_mag :: "segment_row_deltas \<Rightarrow> int" where
  "rows_mag rs = (\<Sum>(_, cs) \<leftarrow> rs. cells_mag cs)"

definition delta_mag :: "block_delta \<Rightarrow> int" where
  "delta_mag d = (\<Sum>rs \<leftarrow> per_segment d. rows_mag rs)"

lemma mag_nonneg [simp]: "0 \<le> cells_mag cs" "0 \<le> rows_mag rs" "0 \<le> delta_mag d"
proof -
  show c: "0 \<le> cells_mag cs" for cs by (auto simp: cells_mag_def intro!: sum_list_nonneg)
  show r: "0 \<le> rows_mag rs" for rs by (auto simp: rows_mag_def c intro!: sum_list_nonneg)
  show "0 \<le> delta_mag d" by (auto simp: delta_mag_def r intro!: sum_list_nonneg)
qed

lemma mag_simps [simp]:
  "cells_mag [] = 0" "cells_mag ((o', d) # cs) = \<bar>sint d\<bar> + cells_mag cs"
  "rows_mag [] = 0" "rows_mag ((r, cs) # rs) = cells_mag cs + rows_mag rs"
  by (simp_all add: cells_mag_def rows_mag_def)

lemma cells_effect_le_mag: "\<bar>cells_effect cs off\<bar> \<le> cells_mag cs"
  by (induction cs) (auto simp: abs_triangle_ineq[THEN order_trans])

lemma rows_effect_le_mag: "\<bar>rows_effect rs row off\<bar> \<le> rows_mag rs"
proof (induction rs)
  case Nil
  then show ?case by simp
next
  case (Cons x rs)
  then show ?case
    using cells_effect_le_mag[of "snd x" off] by (cases x) auto
qed

text \<open>No running sum leaves the \<open>i64\<close> range while the total magnitude stays below
  \<open>2^63\<close>.\<close>

lemma acc_cells_total:
  assumes "bt_invar m" and "\<forall>off. \<bar>cells_effect m off\<bar> \<le> M" and "M + cells_mag cs < 2 ^ 63"
  shows "\<exists>m'. acc_cells cs m = Inr m'"
  using assms
proof (induction cs m arbitrary: M rule: acc_cells.induct)
  case (1 m)
  then show ?case by simp
next
  case (2 off delta cs m)
  have cur: "sint (bt_get_or 0 m off) = cells_effect m off"
    using "2.prems"(1) by (simp add: cells_effect_lookup)
  have "\<bar>cells_effect m off + sint delta\<bar> < 2 ^ 63"
    using "2.prems"(2)[rule_format, of off] "2.prems"(3)[unfolded mag_simps] mag_nonneg(1)[of cs]
    by linarith
  then have slot: "checked_add_s (bt_get_or 0 m off) delta = Some (bt_get_or 0 m off + delta)"
    by (auto simp: checked_add_s_def cur)
  then have s: "sint (bt_get_or 0 m off + delta) = cells_effect m off + sint delta"
    using checked_add_s_Some[OF slot] cur by simp
  have "\<bar>cells_effect (bt_insert off (bt_get_or 0 m off + delta) m) o'\<bar> \<le> M + \<bar>sint delta\<bar>" for o'
    using "2.prems"(1) "2.prems"(2)[rule_format, of off] "2.prems"(2)[rule_format, of o'] s
    by (auto simp: cells_effect_bt_insert)
  then obtain m' where "acc_cells cs (bt_insert off (bt_get_or 0 m off + delta) m) = Inr m'"
    using "2.IH"[OF slot bt_invar_insert[OF "2.prems"(1)], of "M + \<bar>sint delta\<bar>"] "2.prems"(3)
    by auto
  with slot show ?case by auto
qed

lemma acc_rows_total:
  assumes "nested_invar m" and "\<forall>row off. \<bar>rows_effect m row off\<bar> \<le> M" and "M + rows_mag rs < 2 ^ 63"
  shows "\<exists>m'. acc_rows rs m = Inr m'"
  using assms
proof (induction rs m arbitrary: M rule: acc_rows.induct)
  case (1 m)
  then show ?case by simp
next
  case (2 row cells rs m)
  have bt: "bt_invar m" using "2.prems"(1) by (simp add: nested_invar_def)
  have bound: "\<forall>off. \<bar>cells_effect (bt_get_or [] m row) off\<bar> \<le> M"
    using "2.prems"(2) bt by (simp add: rows_effect_lookup)
  have "M + cells_mag cells < 2 ^ 63"
    using "2.prems"(3)[unfolded mag_simps] mag_nonneg(2)[of rs] by linarith
  then obtain rm where rm: "acc_cells cells (bt_get_or [] m row) = Inr rm"
    using acc_cells_total[OF nested_invar_get[OF "2.prems"(1)] bound] by blast
  note adds = acc_cells_adds[OF rm nested_invar_get[OF "2.prems"(1)]]
  have "\<bar>rows_effect (bt_insert row rm m) r off\<bar> \<le> M + cells_mag cells" for r off
  proof (cases "r = row")
    case True
    then have "rows_effect (bt_insert row rm m) r off =
        cells_effect (bt_get_or [] m row) off + cells_effect cells off"
      using adds bt by (simp add: rows_effect_bt_insert)
    with bound[rule_format, of off] cells_effect_le_mag[of cells off] show ?thesis by linarith
  next
    case False
    then have "rows_effect (bt_insert row rm m) r off = rows_effect m r off"
      using bt by (simp add: rows_effect_bt_insert)
    with "2.prems"(2)[rule_format, of r off] mag_nonneg(1)[of cells] show ?thesis by linarith
  qed
  then obtain m' where "acc_rows rs (bt_insert row rm m) = Inr m'"
    using "2.IH"[OF rm nested_invar_insert[OF "2.prems"(1)], of "M + cells_mag cells"]
      adds "2.prems"(3) by (auto simp: add.assoc)
  with rm show ?case by auto
qed

lemma acc_segments_total:
  assumes "acc_invar acc" and "i + length segs \<le> length acc"
    and "\<forall>j row off. \<bar>acc_effect acc j row off\<bar> \<le> M" and "M + sum_list (map rows_mag segs) < 2 ^ 63"
  shows "\<exists>acc'. acc_segments segs i acc = Inr acc'"
  using assms
proof (induction segs i acc arbitrary: M rule: acc_segments.induct)
  case (1 i acc)
  then show ?case by simp
next
  case (2 seg segs i acc)
  have i: "i < length acc" using "2.prems"(2) by simp
  have inv_i: "nested_invar (acc ! i)"
    using "2.prems"(1) i by (simp add: acc_invar_def)
  have bound: "\<forall>row off. \<bar>rows_effect (acc ! i) row off\<bar> \<le> M"
    using "2.prems"(3)[rule_format, of i] i by (simp add: acc_effect_def)
  have nn: "0 \<le> sum_list (map rows_mag segs)" by (rule sum_list_map_nonneg) simp
  with "2.prems"(4) obtain m where m: "acc_rows seg (acc ! i) = Inr m"
    using acc_rows_total[OF inv_i bound, of seg] by auto
  note adds = acc_rows_adds[OF m inv_i]
  have inv': "acc_invar (acc[i := m])"
    using "2.prems"(1) adds set_update_subset_insert[of acc i m] by (auto simp: acc_invar_def)
  have "\<bar>acc_effect (acc[i := m]) j row off\<bar> \<le> M + rows_mag seg" for j row off
    using adds i "2.prems"(3)[rule_format, of j row off] rows_effect_le_mag[of seg row off]
      mag_nonneg(2)[of seg] bound[rule_format, of row off]
    by (auto simp: acc_effect_def nth_list_update split: if_splits)
  then obtain acc' where "acc_segments segs (Suc i) (acc[i := m]) = Inr acc'"
    using "2.IH"[OF m inv', of "M + rows_mag seg"] "2.prems"(2,4) by (auto simp: add.assoc)
  with m show ?case by auto
qed

lemma acc_deltas_total:
  assumes "acc_invar acc" and "\<forall>d \<in> set ds. length (per_segment d) = length acc"
    and "\<forall>j row off. \<bar>acc_effect acc j row off\<bar> \<le> M" and "M + sum_list (map delta_mag ds) < 2 ^ 63"
  shows "\<exists>acc'. acc_deltas ds acc = Inr acc'"
  using assms
proof (induction ds acc arbitrary: M rule: acc_deltas.induct)
  case (1 acc)
  then show ?case by simp
next
  case (2 d ds acc)
  have len: "length (per_segment d) = length acc" using "2.prems"(2) by simp
  have nn: "0 \<le> sum_list (map delta_mag ds)" by (rule sum_list_map_nonneg) simp
  with "2.prems"(4) have "M + sum_list (map rows_mag (per_segment d)) < 2 ^ 63"
    by (simp flip: delta_mag_def)
  then obtain acc1 where acc1: "acc_segments (per_segment d) 0 acc = Inr acc1"
    using acc_segments_total[OF "2.prems"(1) _ "2.prems"(3), of 0 "per_segment d"] len
    by auto
  have one: "acc_invar acc1" "length acc1 = length acc"
    "\<And>j row off. acc_effect acc1 j row off = acc_effect acc j row off + delta_effect d j row off"
    using acc_segments_adds[OF acc1 "2.prems"(1)] len by (auto simp: delta_effect_def)
  have "\<bar>delta_effect d j row off\<bar> \<le> delta_mag d" for j row off
  proof (cases "j < length (per_segment d)")
    case True
    then have "rows_mag (per_segment d ! j) \<le> delta_mag d"
      unfolding delta_mag_def by (intro nth_le_sum_list_map) simp
    with True rows_effect_le_mag[of "per_segment d ! j" row off] show ?thesis
      by (simp add: delta_effect_def)
  qed (simp add: delta_effect_def)
  then have "\<bar>acc_effect acc1 j row off\<bar> \<le> M + delta_mag d" for j row off
    unfolding one(3)
    by (intro order_trans[OF abs_triangle_ineq] add_mono) (use "2.prems"(3) in blast)+
  then obtain acc' where "acc_deltas ds acc1 = Inr acc'"
    using "2.IH"[OF acc1 one(1), of "M + delta_mag d"] "2.prems"(2,4) one(2)
    by (auto simp: add.assoc)
  with acc1 show ?case by auto
qed

section \<open>What \<open>coalesce\<close> returns\<close>

lemma coalesce_InrD:
  assumes "coalesce ds = Inr d"
  shows "ds \<noteq> [] \<and> contiguous_run ds \<and>
    (\<exists>acc. acc_deltas ds (replicate (length (per_segment (hd ds))) []) = Inr acc \<and>
       d = \<lparr> delta_block = delta_block (last ds), per_segment = map emit_rows acc \<rparr>)"
proof -
  from assms obtain x xs where ds: "ds = x # xs"
    by (cases ds) (auto simp: coalesce_def)
  with assms show ?thesis
    by (auto simp: coalesce_def Let_def check_run_ok_iff contiguous_run_def simp del: check_run.simps)
qed

lemma acc_invar_replicate [simp]: "acc_invar (replicate n [])"
  by (simp add: acc_invar_def)

lemma acc_effect_replicate [simp]: "acc_effect (replicate n []) j row off = 0"
  by (simp add: acc_effect_def)

lemma contiguous_run_lengths:
  "contiguous_run ds \<Longrightarrow> d \<in> set ds \<Longrightarrow> length (per_segment d) = length (per_segment (hd ds))"
  by (auto simp: contiguous_run_def in_set_conv_nth)

lemma coalesce_shape:
  assumes "coalesce ds = Inr d"
  shows "delta_block d = delta_block (last ds)" and "canonical_delta d"
    and "length (per_segment d) = length (per_segment (hd ds))"
    and "delta_effect d j row off = (\<Sum>d' \<leftarrow> ds. delta_effect d' j row off)"
proof -
  from coalesce_InrD[OF assms] obtain acc where run: "contiguous_run ds"
    and acc: "acc_deltas ds (replicate (length (per_segment (hd ds))) []) = Inr acc"
    and d: "d = \<lparr> delta_block = delta_block (last ds), per_segment = map emit_rows acc \<rparr>"
    by blast
  have adds: "acc_invar acc" "length acc = length (per_segment (hd ds))"
    "acc_effect acc j row off = (\<Sum>d' \<leftarrow> ds. delta_effect d' j row off)"
    using acc_deltas_adds[OF acc] contiguous_run_lengths[OF run] by auto
  show "delta_block d = delta_block (last ds)" "length (per_segment d) = length (per_segment (hd ds))"
    using d adds(2) by simp_all
  show "canonical_delta d"
    using adds(1) by (auto simp: d canonical_delta_def acc_invar_def intro: emit_rows_canonical)
  have "delta_effect d j row off = acc_effect acc j row off"
    by (simp add: d delta_effect_def acc_effect_def rows_effect_emit)
  then show "delta_effect d j row off = (\<Sum>d' \<leftarrow> ds. delta_effect d' j row off)"
    using adds(3) by simp
qed

lemma coalesce_total:
  assumes "ds \<noteq> []" and "contiguous_run ds" and "sum_list (map delta_mag ds) < 2 ^ 63"
  shows "\<exists>d. coalesce ds = Inr d"
proof -
  obtain x xs where ds: "ds = x # xs" using assms(1) by (cases ds) auto
  have "\<exists>acc. acc_deltas ds (replicate (length (per_segment x)) []) = Inr acc"
  proof (rule acc_deltas_total[where M = 0])
    show "\<forall>d \<in> set ds. length (per_segment d) = length (replicate (length (per_segment x)) [])"
    proof
      fix d assume "d \<in> set ds"
      from contiguous_run_lengths[OF assms(2) this]
      show "length (per_segment d) = length (replicate (length (per_segment x)) [])"
        by (simp only: ds list.sel length_replicate)
    qed
  qed (use assms(3) in simp_all)
  moreover have "check_run (delta_block x) (length (per_segment x)) ds = Inr ()"
    using assms(2) unfolding check_run_ok_iff contiguous_run_def by (simp only: ds list.sel)
  ultimately show ?thesis
    unfolding coalesce_def ds list.case Let_def by auto
qed

text \<open>A canonical delta is determined by its effect.\<close>

lemma canonical_rows_eqI:
  assumes "canonical_rows rs" and "canonical_rows rs'"
    and eff: "\<And>row off. rows_effect rs row off = rows_effect rs' row off"
  shows "rs = rs'"
proof (rule bt_eqI)
  show b: "bt_invar rs" "bt_invar rs'"
    using assms(1,2) by (auto simp: canonical_rows_def)
  show "map_of rs = map_of rs'"
  proof
    fix row
    have cells: "bt_invar c \<and> (\<forall>(_, d) \<in> set c. d \<noteq> 0)" if "c = bt_get_or [] r row" "canonical_rows r" for c r
      using that by (auto simp: canonical_rows_def bt_get_or_def split: option.splits dest!: map_of_SomeD)
    have lookup: "map_of c off = (if cells_effect c off = 0 then None else Some (bt_get_or 0 c off))"
      if "bt_invar c" "\<forall>(_, d) \<in> set c. d \<noteq> 0" for c :: cell_edits and off
      using that
      by (fastforce simp: cells_effect_lookup bt_get_or_def signed_eq_0_iff
          split: option.splits dest!: map_of_SomeD)
    have ceff: "cells_effect (bt_get_or [] rs row) off = cells_effect (bt_get_or [] rs' row) off" for off
      using eff[of row off] b by (simp add: rows_effect_lookup)
    then have get: "bt_get_or 0 (bt_get_or [] rs row) off = bt_get_or 0 (bt_get_or [] rs' row) off" for off
      using cells[OF refl assms(1)] cells[OF refl assms(2)]
      by (metis cells_effect_lookup signed_word_eqI)
    have same: "bt_get_or [] rs row = bt_get_or [] rs' row"
    proof (rule bt_eqI)
      show "bt_invar (bt_get_or [] rs row)" "bt_invar (bt_get_or [] rs' row)"
        using cells[OF refl assms(1)] cells[OF refl assms(2)] by auto
      show "map_of (bt_get_or [] rs row) = map_of (bt_get_or [] rs' row)"
        using lookup cells[OF refl assms(1)] cells[OF refl assms(2)] ceff get
        by (intro ext) simp
    qed
    have "map_of r row = (if bt_get_or [] r row = [] then None else Some (bt_get_or [] r row))"
      if "canonical_rows r" for r
      using that by (auto simp: canonical_rows_def bt_get_or_def split: option.splits dest!: map_of_SomeD)
    with same assms(1,2) show "map_of rs row = map_of rs' row" by simp
  qed
qed

lemma canonical_delta_eqI:
  assumes "canonical_delta d" and "canonical_delta d'" and "delta_block d = delta_block d'"
    and "length (per_segment d) = length (per_segment d')"
    and "\<And>j row off. delta_effect d j row off = delta_effect d' j row off"
  shows "d = d'"
proof -
  have "per_segment d = per_segment d'"
  proof (rule nth_equalityI)
    fix j assume j: "j < length (per_segment d)"
    show "per_segment d ! j = per_segment d' ! j"
      by (rule canonical_rows_eqI)
        (use assms j in \<open>auto simp: canonical_delta_def delta_effect_def dest: spec[of _ j]
           intro!: ext\<close>, metis)
  qed (rule assms(4))
  with assms(3) show ?thesis by simp
qed

section \<open>Properties\<close>

text \<open>Coalescing a run of block deltas adds their effects cell by cell: the result carries the
  last block's number, has one entry per segment, is canonical (rows and offsets strictly ascending,
  no zero cell, no empty row), and at every cell its effect is the sum of the inputs' effects.\<close>

theorem coalesce_sums_effects:
  assumes "coalesce ds = Inr d"
  shows "delta_block d = delta_block (last ds) \<and> canonical_delta d \<and>
    length (per_segment d) = length (per_segment (hd ds)) \<and>
    (\<forall>j row off. delta_effect d j row off = (\<Sum>d' \<leftarrow> ds. delta_effect d' j row off))"
  using coalesce_shape[OF assms] by blast

definition example_delta :: "u64 \<Rightarrow> cell_edits \<Rightarrow> block_delta" where
  "example_delta b cells = \<lparr> delta_block = b, per_segment = [[(3, cells)], []] \<rparr>"

lemma coalesce_sums_effects_witness:
  "delta_effect \<lparr> delta_block = 8, per_segment = [[(3, [(2, 9), (4, - 2)])], []] \<rparr> 0 3 1 =
    (\<Sum>d' \<leftarrow> [example_delta 7 [(1, 5), (4, - 2)], example_delta 8 [(1, - 5), (2, 9)]]. delta_effect d' 0 3 1)"
proof -
  have "coalesce [example_delta 7 [(1, 5), (4, - 2)], example_delta 8 [(1, - 5), (2, 9)]] =
      Inr \<lparr> delta_block = 8, per_segment = [[(3, [(2, 9), (4, - 2)])], []] \<rparr>" by code_simp
  from coalesce_sums_effects[OF this] show ?thesis by blast
qed

text \<open>Coalescing succeeds on every nonempty contiguous run whose total magnitude stays below
  the \<open>i64\<close> range: no spurious error.\<close>

theorem coalesce_succeeds:
  assumes "ds \<noteq> []" and "contiguous_run ds" and "(\<Sum>d \<leftarrow> ds. delta_mag d) < 2 ^ 63"
  shows "\<exists>d. coalesce ds = Inr d"
  by (rule coalesce_total[OF assms])

lemma coalesce_succeeds_witness:
  "\<exists>d. coalesce [example_delta 7 [(1, 5)], example_delta 8 [(1, - 5)]] = Inr d"
proof (rule coalesce_succeeds)
  show "contiguous_run [example_delta 7 [(1, 5)], example_delta 8 [(1, - 5)]]"
    by (simp add: contiguous_run_def example_delta_def All_less_Suc2)
  show "(\<Sum>d \<leftarrow> [example_delta 7 [(1, 5)], example_delta 8 [(1, - 5)]]. delta_mag d) < 2 ^ 63"
    by (simp add: delta_mag_def example_delta_def)
qed simp

end
