(* ===== verification/Delta_Codec.thy ===== *)
theory Delta_Codec
  imports Varint Block_Delta
begin

text \<open>
  Model of the \<open>BlockDelta\<close> wire format of \<open>crates/risepir-proto/src/codec.rs\<close>
  (\<open>RPD1\<close>): \<open>encode_block_delta\<close>, \<open>decode_block_delta\<close> and
  \<open>encoded_len\<close>.

  The three nested loops of the encoder are \<open>for_write\<close> over the sorted
  rows and offsets, those of the decoder \<open>for_read\<close>; each level is one
  interpretation of \<open>wire_item\<close>.  The lemmas show the round trip (up to the
  sorting the encoder performs), the exact length, what every accepted input
  satisfies, and that no proper prefix of an accepted input is accepted.
\<close>

section \<open>Encoding\<close>

definition delta_magic :: bytes where
  "delta_magic = [0x52, 0x50, 0x44, 0x31]"  \<comment> \<open>the bytes of RPD1\<close>

definition write_cell :: "u32 \<Rightarrow> u16 \<times> i64 \<Rightarrow> bytes \<times> u32" where
  "write_cell prev_off = (\<lambda>(offset, cell_delta).
     (write_uvarint (ucast (ucast offset - prev_off)) @ write_uvarint (zigzag_encode cell_delta),
      ucast offset))"

definition write_row :: "u32 \<Rightarrow> u32 \<times> cell_edits \<Rightarrow> bytes \<times> u32" where
  "write_row prev_row = (\<lambda>(row, cells).
     let sorted_cells = sort_key fst cells in
     (write_uvarint (ucast (row - prev_row)) @ write_uvarint (of_nat (length sorted_cells)) @
        for_write write_cell 0 sorted_cells,
      row))"

definition write_segment :: "unit \<Rightarrow> segment_row_deltas \<Rightarrow> bytes \<times> unit" where
  "write_segment s seg =
     (let rows = sort_key fst seg in
      (write_uvarint (of_nat (length rows)) @ for_write write_row 0 rows, ()))"

text \<open>\<open>None\<close> is the assertion failure for more than 255 segments.  In a release build
  \<open>plaintext_bits\<close> has no effect on the bytes.\<close>

definition encode_block_delta :: "block_delta \<Rightarrow> u32 \<Rightarrow> bytes option" where
  "encode_block_delta delta plaintext_bits =
     (if length (per_segment delta) \<le> 255
      then Some (delta_magic @ u64_le (delta_block delta) @ [of_nat (length (per_segment delta))] @
                 for_write write_segment () (per_segment delta))
      else None)"

section \<open>Decoding\<close>

definition read_cell :: "u64 \<Rightarrow> u64 \<Rightarrow> bytes \<Rightarrow> nat
    \<Rightarrow> codec_error + ((u16 \<times> i64) \<times> u64 \<times> nat)" where
  "read_cell bound prev_off bs pos =
     and_then (read_uvarint bs pos) (\<lambda>(off_gap, pos).
     and_then (ok_or (checked_add_u prev_off off_gap) IndexOverflow) (\<lambda>offset.
     if unat offset \<ge> 2 ^ 16 then Inl IndexOverflow
     else and_then (read_uvarint bs pos) (\<lambda>(delta_raw, pos).
       let delta = zigzag_decode delta_raw in
       if unsigned_abs delta \<ge> bound then Inl DeltaOutOfRange
       else Inr ((ucast offset, delta), offset, pos))))"

definition read_row :: "u64 \<Rightarrow> u64 \<Rightarrow> bytes \<Rightarrow> nat
    \<Rightarrow> codec_error + ((u32 \<times> cell_edits) \<times> u64 \<times> nat)" where
  "read_row bound prev_row bs pos =
     and_then (read_uvarint bs pos) (\<lambda>(row_gap, pos).
     and_then (ok_or (checked_add_u prev_row row_gap) IndexOverflow) (\<lambda>row.
     if unat row \<ge> 2 ^ 32 then Inl IndexOverflow
     else and_then (read_uvarint bs pos) (\<lambda>(cell_count_raw, pos).
       and_then (check_count cell_count_raw (length bs - pos)) (\<lambda>cell_count.
       and_then (for_read (read_cell bound) cell_count 0 bs pos) (\<lambda>(cells, pos).
       Inr ((ucast row, cells), row, pos))))))"

definition read_segment :: "u64 \<Rightarrow> unit \<Rightarrow> bytes \<Rightarrow> nat
    \<Rightarrow> codec_error + (segment_row_deltas \<times> unit \<times> nat)" where
  "read_segment bound s bs pos =
     and_then (read_uvarint bs pos) (\<lambda>(row_count_raw, pos).
     and_then (check_count row_count_raw (length bs - pos)) (\<lambda>row_count.
     and_then (for_read (read_row bound) row_count 0 bs pos) (\<lambda>(rows, pos).
     Inr (rows, (), pos))))"

definition decode_block_delta :: "bytes \<Rightarrow> u32 \<Rightarrow> u32 \<Rightarrow> codec_error + block_delta" where
  "decode_block_delta bs plaintext_bits arity =
     (if \<not> (1 \<le> plaintext_bits \<and> plaintext_bits \<le> 31) then Inl DeltaOutOfRange
      else let bound = push_bit (unat plaintext_bits) 1 in
      if length bs < 4 \<or> take 4 bs \<noteq> delta_magic then Inl CodecBadMagic
      else let pos = 4 in
      and_then (ok_or (get_range bs pos 8) CodecUnexpectedEof) (\<lambda>block_bytes.
      let block = of_le block_bytes; pos = pos + 8 in
      and_then (ok_or (get bs pos) CodecUnexpectedEof) (\<lambda>arity_byte.
      let pos = pos + 1 in
      if ucast arity_byte \<noteq> arity then Inl (CodecArityMismatch arity (ucast arity_byte))
      else and_then (for_read (read_segment bound) (unat arity) () bs pos) (\<lambda>(segs, pos).
        if pos \<noteq> length bs then Inl CodecTrailingBytes
        else Inr \<lparr> delta_block = block, per_segment = segs \<rparr>))))"

section \<open>Length without encoding\<close>

fun cells_len :: "u32 \<Rightarrow> cell_edits \<Rightarrow> nat" where
  "cells_len prev_off [] = 0"
| "cells_len prev_off ((offset, cell_delta) # cs) =
     uvarint_len (ucast (ucast offset - prev_off)) + uvarint_len (zigzag_encode cell_delta)
     + cells_len (ucast offset) cs"

fun rows_len :: "u32 \<Rightarrow> segment_row_deltas \<Rightarrow> nat" where
  "rows_len prev_row [] = 0"
| "rows_len prev_row ((row, cells) # rs) =
     uvarint_len (ucast (row - prev_row)) + uvarint_len (of_nat (length cells))
     + cells_len 0 (sort_key fst cells) + rows_len row rs"

definition encoded_len :: "block_delta \<Rightarrow> nat" where
  "encoded_len delta =
     4 + 8 + 1 +
     (\<Sum>seg \<leftarrow> per_segment delta.
        uvarint_len (of_nat (length seg)) + rows_len 0 (sort_key fst seg))"

lemma cells_len_for_write: "length (for_write write_cell prev cs) = cells_len prev cs"
  by (induction prev cs rule: cells_len.induct) (simp_all add: write_cell_def length_write_uvarint)

lemma rows_len_for_write: "length (for_write write_row prev rs) = rows_len prev rs"
  by (induction prev rs rule: rows_len.induct)
    (simp_all add: write_row_def Let_def length_write_uvarint cells_len_for_write)

lemma segments_len_for_write:
  "length (for_write write_segment () segs) =
     (\<Sum>seg \<leftarrow> segs. uvarint_len (of_nat (length seg)) + rows_len 0 (sort_key fst seg))"
  by (induction segs)
    (simp_all add: write_segment_def Let_def length_write_uvarint rows_len_for_write)

lemma length_delta_magic [simp]: "length delta_magic = 4"
  by (simp add: delta_magic_def)

lemma encode_length: "encode_block_delta d pb = Some bs \<Longrightarrow> length bs = encoded_len d"
  by (auto simp: encode_block_delta_def encoded_len_def segments_len_for_write split: if_splits)

section \<open>One level of the format at a time\<close>

definition cell_ok :: "u64 \<Rightarrow> u32 \<Rightarrow> u16 \<times> i64 \<Rightarrow> bool" where
  "cell_ok bound prev = (\<lambda>(offset, d). prev \<le> ucast offset \<and> unsigned_abs d < bound)"

definition row_ok :: "u64 \<Rightarrow> u32 \<Rightarrow> u32 \<times> cell_edits \<Rightarrow> bool" where
  "row_ok bound prev = (\<lambda>(row, cells). prev \<le> row \<and> sorted (map fst cells) \<and>
     (\<forall>(_, d) \<in> set cells. unsigned_abs d < bound) \<and> length cells < 2 ^ 64)"

definition segment_ok :: "u64 \<Rightarrow> segment_row_deltas \<Rightarrow> bool" where
  "segment_ok bound seg \<longleftrightarrow> sorted (map fst seg) \<and> length seg < 2 ^ 64 \<and>
     (\<forall>rc \<in> set seg. row_ok bound 0 rc)"

lemma gap_add:
  assumes "prev \<le> (x :: u32)"
  shows "checked_add_u (ucast prev) (ucast (x - prev)) = Some (ucast x :: u64)"
proof -
  have u: "unat (ucast y :: u64) = unat y" for y :: u32
    by (rule unat_ucast_up) simp
  have s: "unat prev + unat (x - prev) = unat x"
    using assms by (simp add: unat_sub word_le_nat_alt)
  have "ucast prev + ucast (x - prev) = (ucast x :: u64)"
    by (rule word_unat_eq_iff[THEN iffD2]) (use s unsigned_less[of x, where 'a = nat] in \<open>simp add: unat_word_ariths u\<close>)
  moreover have "unat x < 2 ^ 64" using unsigned_less[of x, where 'a = nat] by simp
  ultimately show ?thesis by (simp add: checked_add_u_def u s)
qed

lemma ucast_le_16_32: "(ucast (x :: u16) :: u32) \<le> ucast y \<longleftrightarrow> x \<le> y"
  by (simp add: word_le_nat_alt unat_ucast_up)

interpretation cell_item: wire_item write_cell "read_cell bound" ucast "cell_ok bound" for bound
proof
  fix s :: u32 and x :: "u16 \<times> i64" and p bs rest
  obtain off d where x: "x = (off, d)" by (cases x)
  assume ok: "cell_ok bound s x" and at: "drop p bs = fst (write_cell s x) @ rest"
  let ?w1 = "write_uvarint (ucast (ucast off - s))" and ?w2 = "write_uvarint (zigzag_encode d)"
  have d1: "drop p bs = ?w1 @ (?w2 @ rest)" using at by (simp add: x write_cell_def)
  note d2 = drop_add_at[OF d1]
  have le: "s \<le> ucast off" and b: "\<not> bound \<le> unsigned_abs d"
    using ok by (simp_all add: x cell_ok_def not_le)
  have off: "unat (ucast (ucast off :: u32) :: u64) = unat off"
    by (simp add: unat_ucast_up)
  have "\<not> 2 ^ 16 \<le> unat (ucast (ucast off :: u32) :: u64)"
    unfolding off using unsigned_less[of off, where 'a = nat] by simp
  moreover have "(ucast (ucast (ucast off :: u32) :: u64) :: u16) = off"
    by (rule bit_word_eqI) (simp add: bit_simps)
  ultimately show "read_cell bound (ucast s) bs p =
      Inr (x, ucast (snd (write_cell s x)), p + length (fst (write_cell s x)))"
    using b by (simp add: read_cell_def write_cell_def x read_uvarint_at[OF d1] gap_add[OF le]
        read_uvarint_at[OF d2] add.assoc)
next
  show "fst (write_cell s x) \<noteq> []" for s x
    by (cases x) (simp add: write_cell_def)
qed

lemma for_ok_cells:
  assumes "sorted (map fst cs)" and "\<forall>(_, d) \<in> set cs. unsigned_abs d < bound"
    and "cs \<noteq> [] \<Longrightarrow> prev \<le> ucast (fst (hd cs))"
  shows "for_ok write_cell (cell_ok bound) prev cs"
  using assms
proof (induction cs arbitrary: prev)
  case Nil
  then show ?case by simp
next
  case (Cons c cs)
  obtain off d where c: "c = (off, d)" by (cases c)
  show ?case
    using Cons.prems Cons.IH[of "ucast off"]
    by (auto simp: c cell_ok_def write_cell_def ucast_le_16_32)
qed

lemma row_item_count:
  fixes cells :: cell_edits
  assumes "drop p bs = for_write write_cell 0 cells @ rest"
  shows "length cells \<le> length bs - p"
proof -
  have "length cells \<le> length (drop p bs)"
    unfolding assms using cell_item.length_for_write[of cells 0] by simp
  then show ?thesis by simp
qed

interpretation row_item: wire_item write_row "read_row bound" ucast "row_ok bound" for bound
proof
  fix s :: u32 and x :: "u32 \<times> cell_edits" and p bs rest
  obtain row cells where x: "x = (row, cells)" by (cases x)
  assume ok: "row_ok bound s x" and at: "drop p bs = fst (write_row s x) @ rest"
  then have le: "s \<le> row" and srt: "sorted (map fst cells)" and len: "length cells < 2 ^ 64"
    and b: "\<forall>(_, d) \<in> set cells. unsigned_abs d < bound"
    by (auto simp: x row_ok_def)
  have sk: "sort_key fst cells = cells" using srt by (rule sort_key_id_if_sorted)
  let ?w1 = "write_uvarint (ucast (row - s))" and ?w2 = "write_uvarint (of_nat (length cells))"
  have d1: "drop p bs = ?w1 @ (?w2 @ (for_write write_cell 0 cells @ rest))"
    using at by (simp add: x write_row_def sk)
  note d2 = drop_add_at[OF d1]
  note d3 = drop_add_at[OF d2]
  have row: "\<not> 2 ^ 32 \<le> unat (ucast row :: u64)"
    using unsigned_less[of row, where 'a = nat] by (simp add: unat_ucast_up)
  have cells: "for_read (read_cell bound) (length cells) 0 bs (p + length ?w1 + length ?w2) =
      Inr (cells, p + length ?w1 + length ?w2 + length (for_write write_cell 0 cells))"
    using cell_item.for_read_write[where s = 0, OF for_ok_cells[OF srt b] d3] by simp
  show "read_row bound (ucast s) bs p =
      Inr (x, ucast (snd (write_row s x)), p + length (fst (write_row s x)))"
    using row cells check_count_of_nat[OF len row_item_count[OF d3]]
    by (simp add: read_row_def write_row_def x sk read_uvarint_at[OF d1] gap_add[OF le]
        read_uvarint_at[OF d2] add.assoc)
next
  show "fst (write_row s x) \<noteq> []" for s x
    by (cases x) (simp add: write_row_def Let_def)
qed

lemma for_ok_rows:
  assumes "sorted (map fst rs)" and "\<forall>rc \<in> set rs. row_ok bound 0 rc"
    and "rs \<noteq> [] \<Longrightarrow> prev \<le> fst (hd rs)"
  shows "for_ok write_row (row_ok bound) prev rs"
  using assms
proof (induction rs arbitrary: prev)
  case Nil
  then show ?case by simp
next
  case (Cons c rs)
  obtain row cells where c: "c = (row, cells)" by (cases c)
  show ?case
    using Cons.prems Cons.IH[of row] by (auto simp: c row_ok_def write_row_def Let_def)
qed

interpretation segment_item: wire_item write_segment "read_segment bound" "\<lambda>s. s"
  "\<lambda>_. segment_ok bound" for bound
proof
  fix s :: unit and x :: segment_row_deltas and p bs rest
  assume ok: "segment_ok bound x" and at: "drop p bs = fst (write_segment s x) @ rest"
  then have srt: "sorted (map fst x)" and len: "length x < 2 ^ 64"
    and rows: "\<forall>rc \<in> set x. row_ok bound 0 rc"
    by (auto simp: segment_ok_def)
  have sk: "sort_key fst x = x" using srt by (rule sort_key_id_if_sorted)
  let ?w = "write_uvarint (of_nat (length x))"
  have d1: "drop p bs = ?w @ (for_write write_row 0 x @ rest)"
    using at by (simp add: write_segment_def sk)
  note d2 = drop_add_at[OF d1]
  have "length x \<le> length (drop (p + length ?w) bs)"
    unfolding d2 using row_item.length_for_write[of x 0] by simp
  then have cnt: "check_count (of_nat (length x)) (length bs - (p + length ?w)) = Inr (length x)"
    using len by (simp add: check_count_of_nat)
  have "for_read (read_row bound) (length x) 0 bs (p + length ?w) =
      Inr (x, p + length ?w + length (for_write write_row 0 x))"
    using row_item.for_read_write[where s = 0, OF for_ok_rows[OF srt rows] d2] by simp
  then show "read_segment bound s bs p =
      Inr (x, snd (write_segment s x), p + length (fst (write_segment s x)))"
    by (simp add: read_segment_def write_segment_def sk read_uvarint_at[OF d1] cnt add.assoc)
next
  show "fst (write_segment s x) \<noteq> []" for s x
    by (simp add: write_segment_def Let_def)
qed

section \<open>Round trip\<close>

text \<open>What the encoder sorts: rows by index, cells by offset, both stably.\<close>

definition sort_rows :: "segment_row_deltas \<Rightarrow> segment_row_deltas" where
  "sort_rows seg = sort_key fst (map (\<lambda>(row, cells). (row, sort_key fst cells)) seg)"

definition sort_delta :: "block_delta \<Rightarrow> block_delta" where
  "sort_delta d = d\<lparr>per_segment := map sort_rows (per_segment d)\<rparr>"

text \<open>What the format needs of a delta: every magnitude under the plaintext modulus, every
  count a \<open>u64\<close>.\<close>

definition delta_fits :: "u32 \<Rightarrow> block_delta \<Rightarrow> bool" where
  "delta_fits pb d \<longleftrightarrow>
     (\<forall>seg \<in> set (per_segment d). length seg < 2 ^ 64 \<and>
        (\<forall>(row, cells) \<in> set seg. length cells < 2 ^ 64 \<and>
           (\<forall>(off, v) \<in> set cells. \<bar>sint v\<bar> < 2 ^ unat pb)))"

lemma sort_key_map_snd:
  "sort_key fst (map (\<lambda>(k, v). (k, f v)) xs) = map (\<lambda>(k, v). (k, f v)) (sort_key fst xs)"
proof (induction xs)
  case Nil
  then show ?case by simp
next
  case (Cons x xs)
  have ins: "insort_key fst (k, f v) (map (\<lambda>(k, v). (k, f v)) ys) =
      map (\<lambda>(k, v). (k, f v)) (insort_key fst (k, v) ys)" for k :: 'a and v ys
    by (induction ys) auto
  show ?case by (cases x) (simp add: Cons.IH ins)
qed

lemma sort_key_idem [simp]: "sort_key f (sort_key f xs) = sort_key f xs"
  by (simp add: sort_key_id_if_sorted)

lemma write_row_sort: "write_row prev (row, sort_key fst cells) = write_row prev (row, cells)"
  by (simp add: write_row_def)

lemma for_write_rows_sort:
  "for_write write_row prev (map (\<lambda>(row, cells). (row, sort_key fst cells)) rs) = for_write write_row prev rs"
proof (induction rs arbitrary: prev)
  case Nil
  then show ?case by simp
next
  case (Cons r rs)
  then show ?case by (cases r) (simp add: write_row_sort split: prod.splits)
qed

lemma write_segment_sort: "write_segment s (sort_rows seg) = write_segment s seg"
proof -
  have "sort_key fst (sort_rows seg) = sort_rows seg"
    by (simp add: sort_rows_def)
  then show ?thesis
    by (simp add: write_segment_def sort_rows_def sort_key_map_snd for_write_rows_sort)
qed

lemma encode_sort_delta: "encode_block_delta (sort_delta d) pb = encode_block_delta d pb"
proof -
  have "for_write write_segment () (map sort_rows segs) = for_write write_segment () segs" for segs
    by (induction segs) (simp_all add: write_segment_sort)
  then show ?thesis by (simp add: encode_block_delta_def sort_delta_def)
qed

lemma unat_bound:
  assumes "(pb :: u32) \<le> 31"
  shows "unat (2 ^ unat pb :: u64) = 2 ^ unat pb"
proof -
  have "unat pb \<le> 31" using assms by (simp add: word_le_nat_alt)
  then have "(2::nat) ^ unat pb < 2 ^ 64" by (intro power_strict_increasing) simp_all
  then have "unat (of_nat (2 ^ unat pb) :: u64) = 2 ^ unat pb"
    by (simp only: unat_of_nat len_of_numeral_defs) (simp add: take_bit_nat_eq_self)
  then show ?thesis by simp
qed

lemma unsigned_abs_less_bound:
  assumes "(pb :: u32) \<le> 31"
  shows "unsigned_abs v < 2 ^ unat pb \<longleftrightarrow> \<bar>sint v\<bar> < 2 ^ unat pb"
proof -
  have "unsigned_abs v < 2 ^ unat pb \<longleftrightarrow> nat \<bar>sint v\<bar> < 2 ^ unat pb"
    by (simp only: word_less_nat_alt unat_unsigned_abs unat_bound[OF assms])
  then show ?thesis by (simp add: nat_less_iff)
qed

lemma segment_ok_sort_rows:
  assumes "(pb :: u32) \<le> 31"
    and "length seg < 2 ^ 64"
    and "\<forall>(row, cells) \<in> set seg. length cells < 2 ^ 64 \<and> (\<forall>(off, v) \<in> set cells. \<bar>sint v\<bar> < 2 ^ unat pb)"
  shows "segment_ok (2 ^ unat pb) (sort_rows seg)"
proof -
  have "row_ok (2 ^ unat pb) 0 rc" if rc: "rc \<in> set (sort_rows seg)" for rc
  proof -
    from rc obtain row cells where "rc = (row, sort_key fst cells)" "(row, cells) \<in> set seg"
      by (auto simp: sort_rows_def)
    with assms(3) show ?thesis
      by (auto simp: row_ok_def unsigned_abs_less_bound[OF assms(1)])
  qed
  with assms(2) show ?thesis by (simp add: segment_ok_def) (simp add: sort_rows_def)
qed

lemma of_nat_arity:
  assumes "n \<le> 255"
  shows "ucast (of_nat n :: u8) = (of_nat n :: u32)" and "unat (of_nat n :: u32) = n"
proof -
  show u: "unat (of_nat n :: u32) = n"
    using assms by (simp add: unat_of_nat take_bit_nat_eq_self)
  have "unat (of_nat n :: u8) = n"
    using assms by (simp add: unat_of_nat take_bit_nat_eq_self)
  then show "ucast (of_nat n :: u8) = (of_nat n :: u32)"
    using u by (simp add: word_unat_eq_iff unat_ucast_up)
qed

lemma encode_decode:
  assumes enc: "encode_block_delta d pb = Some bs" and pb: "1 \<le> pb" "pb \<le> 31"
    and fits: "delta_fits pb d"
  shows "decode_block_delta bs pb (of_nat (length (per_segment d))) = Inr (sort_delta d)"
proof -
  let ?bound = "2 ^ unat pb :: u64" and ?n = "length (per_segment d)"
    and ?segs = "per_segment (sort_delta d)"
  have n: "?n \<le> 255" and bs: "bs = delta_magic @ u64_le (delta_block d) @ [of_nat ?n] @
      for_write write_segment () ?segs"
    using enc encode_sort_delta[of d pb]
    by (auto simp: encode_block_delta_def sort_delta_def split: if_splits)
  have d4: "drop 4 bs = u64_le (delta_block d) @ [of_nat ?n] @ for_write write_segment () ?segs"
    by (simp add: bs)
  have d12: "drop 12 bs = of_nat ?n # for_write write_segment () ?segs"
    using drop_add_at[OF d4] by simp
  have d13: "drop 13 bs = for_write write_segment () ?segs @ []"
    using drop_Suc_at[OF d12] by simp
  have ok: "for_ok write_segment (\<lambda>_. segment_ok ?bound) () ?segs"
  proof -
    have "\<forall>seg \<in> set ?segs. segment_ok ?bound seg"
      using fits segment_ok_sort_rows[OF pb(2)] by (auto simp: sort_delta_def delta_fits_def)
    then show ?thesis by (rule for_ok_const)
  qed
  have len: "length bs = 13 + length (for_write write_segment () ?segs)"
    by (simp add: bs)
  have "for_read (read_segment ?bound) ?n () bs 13 = Inr (?segs, length bs)"
    using segment_item.for_read_write[OF ok d13] len by (simp add: sort_delta_def)
  moreover have "get_range bs 4 8 = Some (u64_le (delta_block d))"
    using get_range_le[OF d4] by simp
  moreover have "take 4 bs = delta_magic" by (simp add: bs)
  ultimately show ?thesis
    using pb n len get_at[OF d12]
    by (simp add: decode_block_delta_def Let_def of_nat_arity sort_delta_def not_less)
qed

section \<open>What an accepted input satisfies\<close>

lemma read_cellD:
  assumes "read_cell bound prev bs p = Inr ((off, d), s', q)"
  shows "unat prev \<le> unat off \<and> unat off = unat s' \<and> unsigned_abs d < bound \<and> p + 2 \<le> q"
proof -
  from assms obtain gap r raw where r: "read_uvarint bs p = Inr (gap, r)"
    and s': "checked_add_u prev gap = Some s'" and small: "unat s' < 2 ^ 16"
    and raw: "read_uvarint bs r = Inr (raw, q)" and d: "d = zigzag_decode raw" "unsigned_abs d < bound"
    and off: "off = ucast s'"
    by (auto simp: read_cell_def Let_def not_le split: if_splits)
  have "unat off = unat s'" using small by (simp add: off unat_ucast_down)
  with checked_add_u_Some[OF s'] d(2) read_uvarint_bounds[OF r] read_uvarint_bounds[OF raw]
  show ?thesis by auto
qed

lemma sorted_unat_fst:
  "sorted (map (\<lambda>x. unat (fst x :: 'k::len word)) xs) = sorted (map fst xs)"
  by (simp add: sorted_map word_le_nat_alt)

definition cells_sound :: "u64 \<Rightarrow> cell_edits \<Rightarrow> bool" where
  "cells_sound bound cells \<longleftrightarrow> sorted (map fst cells) \<and> (\<forall>(_, d) \<in> set cells. unsigned_abs d < bound)"

lemma for_read_cellsD:
  assumes "for_read (read_cell bound) n prev bs p = Inr (cells, q)"
  shows "cells_sound bound cells \<and> p + 2 * length cells \<le> q"
proof -
  have s: "sorted (map (\<lambda>x. unat (fst x)) cells)"
    using for_read_sorted[OF assms, where k = unat and key = "\<lambda>x. unat (fst x)"]
      read_cellD by (metis prod.collapse)
  have b: "\<forall>c \<in> set cells. unsigned_abs (snd c) < bound"
    by (rule for_read_all[OF assms]) (metis read_cellD prod.collapse)
  have "p + sum_list (map (\<lambda>_. 2) cells) \<le> q"
    by (rule for_read_weight[OF assms]) (metis read_cellD prod.collapse)
  with s b show ?thesis
    by (auto simp: cells_sound_def sorted_unat_fst sum_list_triv)
qed

lemma read_rowD:
  assumes "read_row bound prev bs p = Inr ((row, cells), s', q)"
  shows "unat prev \<le> unat row \<and> unat row = unat s' \<and> cells_sound bound cells
    \<and> p + 2 * length cells + 2 \<le> q"
proof -
  from assms obtain gap r cnt t n where r: "read_uvarint bs p = Inr (gap, r)"
    and s': "checked_add_u prev gap = Some s'" and small: "unat s' < 2 ^ 32"
    and t: "read_uvarint bs r = Inr (cnt, t)"
    and cells: "for_read (read_cell bound) n 0 bs t = Inr (cells, q)"
    and row: "row = ucast s'"
    by (auto simp: read_row_def Let_def not_le split: if_splits)
  have "unat row = unat s'" using small by (simp add: row unat_ucast_down)
  with checked_add_u_Some[OF s'] read_uvarint_bounds[OF r] read_uvarint_bounds[OF t]
    for_read_cellsD[OF cells]
  show ?thesis by auto
qed

definition rows_sound :: "u64 \<Rightarrow> segment_row_deltas \<Rightarrow> bool" where
  "rows_sound bound rows \<longleftrightarrow> sorted (map fst rows) \<and> (\<forall>(_, cells) \<in> set rows. cells_sound bound cells)"

definition rows_cells :: "segment_row_deltas \<Rightarrow> nat" where
  "rows_cells rows = (\<Sum>(_, cells) \<leftarrow> rows. length cells)"

lemma for_read_rowsD:
  assumes "for_read (read_row bound) n prev bs p = Inr (rows, q)"
  shows "rows_sound bound rows \<and> p + 2 * (rows_cells rows + length rows) \<le> q"
proof -
  have s: "sorted (map (\<lambda>x. unat (fst x)) rows)"
    using for_read_sorted[OF assms, where k = unat and key = "\<lambda>x. unat (fst x)"]
      read_rowD by (metis prod.collapse)
  have b: "\<forall>c \<in> set rows. cells_sound bound (snd c)"
    by (rule for_read_all[OF assms]) (metis read_rowD prod.collapse)
  have "p + sum_list (map (\<lambda>c. 2 * length (snd c) + 2) rows) \<le> q"
  proof (rule for_read_weight[OF assms])
    fix s p x s' q assume "read_row bound s bs p = Inr (x, s', q)"
    with read_rowD[of bound s bs p "fst x" "snd x" s' q]
    show "p + (2 * length (snd x) + 2) \<le> q" by simp
  qed
  moreover have "sum_list (map (\<lambda>c. 2 * length (snd c) + 2) rows) = 2 * (rows_cells rows + length rows)"
    by (induction rows) (auto simp: rows_cells_def)
  ultimately show ?thesis
    using s b by (auto simp: rows_sound_def sorted_unat_fst)
qed

lemma read_segmentD:
  assumes "read_segment bound s bs p = Inr (rows, s', q)"
  shows "rows_sound bound rows \<and> p + 2 * (rows_cells rows + length rows) + 1 \<le> q"
proof -
  from assms obtain cnt t n where t: "read_uvarint bs p = Inr (cnt, t)"
    and rows: "for_read (read_row bound) n 0 bs t = Inr (rows, q)"
    by (auto simp: read_segment_def)
  with read_uvarint_bounds[OF t] for_read_rowsD[OF rows] show ?thesis by auto
qed

definition delta_cells :: "block_delta \<Rightarrow> nat" where
  "delta_cells d = (\<Sum>rows \<leftarrow> per_segment d. rows_cells rows + length rows)"

lemma decode_block_deltaD:
  assumes "decode_block_delta bs pb arity = Inr d"
  shows "1 \<le> pb \<and> pb \<le> 31 \<and> take 4 bs = delta_magic \<and> delta_block d = of_le (take 8 (drop 4 bs)) \<and>
    for_read (read_segment (2 ^ unat pb)) (unat arity) () bs 13 = Inr (per_segment d, length bs) \<and>
    (\<exists>a. get_range bs 4 8 = Some (take 8 (drop 4 bs)) \<and> get bs 12 = Some a \<and> ucast a = arity)"
  using assms
  by (auto simp: decode_block_delta_def Let_def get_range_Some_iff split: if_splits)

lemma decode_sound:
  assumes "decode_block_delta bs pb arity = Inr d"
  shows "length (per_segment d) = unat arity
    \<and> (\<forall>rows \<in> set (per_segment d). rows_sound (2 ^ unat pb) rows)
    \<and> 13 + 2 * delta_cells d \<le> length bs"
proof -
  from decode_block_deltaD[OF assms]
  have segs: "for_read (read_segment (2 ^ unat pb)) (unat arity) () bs 13 = Inr (per_segment d, length bs)"
    by simp
  have "13 + sum_list (map (\<lambda>rows. 2 * (rows_cells rows + length rows)) (per_segment d)) \<le> length bs"
    by (rule for_read_weight[OF segs]) (auto dest!: read_segmentD)
  moreover have "\<forall>rows \<in> set (per_segment d). rows_sound (2 ^ unat pb) rows"
    by (rule for_read_all[OF segs]) (auto dest!: read_segmentD)
  moreover have "sum_list (map (\<lambda>rows. 2 * (rows_cells rows + length rows)) (per_segment d)) = 2 * delta_cells d"
    by (simp only: delta_cells_def sum_list_const_mult)
  ultimately show ?thesis
    using for_read_length[OF segs] by simp
qed

section \<open>Prefixes\<close>

lemma read_cell_extends: "extends (read_cell bound prev)"
  unfolding extends_def
proof (intro allI impI)
  fix bs ys p r assume a: "read_cell bound prev bs p = Inr r"
  then obtain gap q raw t where g: "read_uvarint bs p = Inr (gap, q)" and w: "read_uvarint bs q = Inr (raw, t)"
    by (auto simp: read_cell_def split: if_splits)
  from a g w show "read_cell bound prev (bs @ ys) p = Inr r"
    by (auto simp: read_cell_def extendsD[OF read_uvarint_extends g]
        extendsD[OF read_uvarint_extends w] split: if_splits)
qed

lemma check_count_mono: "check_count c m = Inr n \<Longrightarrow> m \<le> m' \<Longrightarrow> check_count c m' = Inr n"
  by (auto simp: check_count_def split: if_splits)

lemma read_row_extends: "extends (read_row bound prev)"
  unfolding extends_def
proof (intro allI impI)
  fix bs ys p r assume a: "read_row bound prev bs p = Inr r"
  then obtain gap q cnt t n cu where g: "read_uvarint bs p = Inr (gap, q)"
    and w: "read_uvarint bs q = Inr (cnt, t)"
    and n: "check_count cnt (length bs - t) = Inr n"
    and c: "for_read (read_cell bound) n 0 bs t = Inr cu"
    by (auto simp: read_row_def split: if_splits)
  have "check_count cnt (length (bs @ ys) - t) = Inr n"
    by (rule check_count_mono[OF n]) simp
  with a g w n c show "read_row bound prev (bs @ ys) p = Inr r"
    by (auto simp: read_row_def extendsD[OF read_uvarint_extends g] extendsD[OF read_uvarint_extends w]
        extendsD[OF for_read_extends[OF read_cell_extends] c] split: if_splits)
qed

lemma read_segment_extends: "extends (read_segment bound s)"
  unfolding extends_def
proof (intro allI impI)
  fix bs ys p r assume a: "read_segment bound s bs p = Inr r"
  then obtain cnt t n cu where w: "read_uvarint bs p = Inr (cnt, t)"
    and n: "check_count cnt (length bs - t) = Inr n"
    and c: "for_read (read_row bound) n 0 bs t = Inr cu"
    by (auto simp: read_segment_def split: if_splits)
  have "check_count cnt (length (bs @ ys) - t) = Inr n"
    by (rule check_count_mono[OF n]) simp
  with a w n c show "read_segment bound s (bs @ ys) p = Inr r"
    by (simp add: read_segment_def extendsD[OF read_uvarint_extends w]
        extendsD[OF for_read_extends[OF read_row_extends] c])
qed

lemma decode_extension_rejected:
  assumes "decode_block_delta bs pb arity = Inr d" and "ys \<noteq> []"
  shows "decode_block_delta (bs @ ys) pb arity = Inl CodecTrailingBytes"
proof -
  note D = decode_block_deltaD[OF assms(1)]
  then obtain a where a: "get bs 12 = Some a" "ucast a = arity" by auto
  then have len: "13 \<le> length bs" by (simp add: get_Some_iff)
  have "for_read (read_segment (2 ^ unat pb)) (unat arity) () (bs @ ys) 13 = Inr (per_segment d, length bs)"
    by (rule extendsD[OF for_read_extends[OF read_segment_extends]]) (use D in blast)
  moreover have "get_range (bs @ ys) 4 8 = Some (take 8 (drop 4 bs))"
    using D get_range_extends by blast
  ultimately show ?thesis
    using D len a get_extends[OF a(1), of ys] assms(2)
    by (simp add: decode_block_delta_def Let_def)
qed

section \<open>Canonical deltas are sent as they are\<close>

lemma bt_invar_sort_key: "bt_invar m \<Longrightarrow> sort_key fst m = m"
  by (rule sort_key_id_if_sorted) (simp add: bt_invar_def strict_sorted_iff)

lemma sort_rows_canonical: "canonical_rows rs \<Longrightarrow> sort_rows rs = rs"
proof -
  assume c: "canonical_rows rs"
  have "map (\<lambda>(row, cells). (row, sort_key fst cells)) rs = rs"
    using c by (intro map_idI) (auto simp: canonical_rows_def bt_invar_sort_key)
  then show ?thesis
    using c bt_invar_sort_key[of rs] by (simp add: sort_rows_def canonical_rows_def)
qed

lemma sort_delta_canonical: "canonical_delta d \<Longrightarrow> sort_delta d = d"
proof -
  assume "canonical_delta d"
  then have "map sort_rows (per_segment d) = per_segment d"
    by (intro map_idI) (simp add: canonical_delta_def sort_rows_canonical)
  then show ?thesis by (simp add: sort_delta_def)
qed

lemma length_distinct_words:
  assumes "bt_invar (m :: ('a::len word \<times> 'b) list)"
  shows "length m \<le> 2 ^ LENGTH('a)"
proof -
  have "length m = card (fst ` set m)"
    using bt_invar_distinct[OF assms] by (metis distinct_card length_map list.set_map)
  also have "\<dots> = card (unat ` fst ` set m)"
    by (rule card_image[symmetric]) (auto intro: inj_onI simp: word_unat_eq_iff)
  also have "\<dots> \<le> card {..<2 ^ LENGTH('a) :: nat}"
    using unsigned_less[where 'a = nat] by (intro card_mono) auto
  finally show ?thesis by simp
qed

lemma canonical_fits:
  assumes "canonical_delta d" and "\<And>j row off. \<bar>delta_effect d j row off\<bar> < 2 ^ unat pb"
  shows "delta_fits pb d"
  unfolding delta_fits_def
proof (intro ballI conjI)
  fix seg assume seg: "seg \<in> set (per_segment d)"
  then obtain j where j: "j < length (per_segment d)" "seg = per_segment d ! j" by (auto simp: in_set_conv_nth)
  have can: "canonical_rows seg" using assms(1) seg by (simp add: canonical_delta_def)
  show "length seg < 2 ^ 64"
    using length_distinct_words[of seg] can by (simp add: canonical_rows_def)
  fix r assume r: "r \<in> set seg"
  obtain row cells where rc: "r = (row, cells)" by (cases r)
  have bt: "bt_invar seg" "bt_invar cells" using can r by (auto simp: canonical_rows_def rc)
  have "length cells < 2 ^ 64" using length_distinct_words[OF bt(2)] by simp
  moreover have "\<bar>sint v\<bar> < 2 ^ unat pb" if v: "(off, v) \<in> set cells" for off v
  proof -
    have "map_of seg row = Some cells" using r bt(1) bt_invar_distinct by (metis map_of_is_SomeI rc)
    moreover have "map_of cells off = Some v" using v bt(2) bt_invar_distinct by (metis map_of_is_SomeI)
    ultimately have "rows_effect seg row off = sint v"
      using bt by (simp add: rows_effect_lookup cells_effect_lookup bt_get_or_def)
    then show ?thesis using assms(2)[of j row off] j by (simp add: delta_effect_def)
  qed
  ultimately show "case r of (row, cells) \<Rightarrow> length cells < 2 ^ 64 \<and> (\<forall>(off, v) \<in> set cells. \<bar>sint v\<bar> < 2 ^ unat pb)"
    by (auto simp: rc)
qed

section \<open>Properties\<close>

text \<open>C18. Round trip of the block-delta wire format: whatever the encoder accepts and whose
  magnitudes fit the plaintext modulus decodes, with the same modulus and the segment count, to the
  same delta with rows and cells in ascending order.\<close>

theorem block_delta_roundtrip:
  assumes "encode_block_delta d pb = Some bs" and "1 \<le> pb" and "pb \<le> 31" and "delta_fits pb d"
  shows "decode_block_delta bs pb (of_nat (length (per_segment d))) = Inr (sort_delta d)"
  by (rule encode_decode[OF assms])

lemma block_delta_roundtrip_witness:
  "decode_block_delta (the (encode_block_delta (example_delta 7 [(4, - 2), (1, 5)]) 10)) 10 2 =
    Inr (sort_delta (example_delta 7 [(4, - 2), (1, 5)]))"
proof -
  let ?d = "example_delta 7 [(4, - 2), (1, 5)]"
  have "encode_block_delta ?d 10 = Some (the (encode_block_delta ?d 10))"
    by (simp add: encode_block_delta_def example_delta_def)
  from block_delta_roundtrip[OF this] show ?thesis by (simp add: delta_fits_def example_delta_def)
qed

text \<open>What the decoder accepts is well formed: exactly the announced number of segments, rows
  and offsets in ascending order, every magnitude below the plaintext modulus, and at most one row
  or cell per two bytes of input (so a short input cannot make it allocate much).\<close>

theorem decode_block_delta_sound:
  assumes "decode_block_delta bs pb arity = Inr d"
  shows "length (per_segment d) = unat arity \<and>
    (\<forall>rows \<in> set (per_segment d). rows_sound (2 ^ unat pb) rows) \<and>
    13 + 2 * delta_cells d \<le> length bs"
  by (rule decode_sound[OF assms])

lemma decode_block_delta_sound_witness:
  "length (per_segment (sort_delta (example_delta 7 [(4, - 2), (1, 5)]))) = unat (2 :: u32)"
proof -
  let ?d = "example_delta 7 [(4, - 2), (1, 5)]"
  have "encode_block_delta ?d 10 = Some (the (encode_block_delta ?d 10))"
    by (simp add: encode_block_delta_def example_delta_def)
  from encode_decode[OF this] have
    "decode_block_delta (the (encode_block_delta ?d 10)) 10 2 = Inr (sort_delta ?d)"
    by (simp add: delta_fits_def example_delta_def)
  from decode_block_delta_sound[OF this] show ?thesis by blast
qed

text \<open>No accepted message is a proper prefix of another: every byte after a complete message
  is rejected as trailing.\<close>

theorem decode_rejects_extension:
  assumes "decode_block_delta bs pb arity = Inr d" and "ys \<noteq> []"
  shows "decode_block_delta (bs @ ys) pb arity = Inl CodecTrailingBytes"
  by (rule decode_extension_rejected[OF assms])

lemma decode_rejects_extension_witness:
  "decode_block_delta (the (encode_block_delta (example_delta 7 [(1, 5)]) 10) @ [0]) 10 2 = Inl CodecTrailingBytes"
proof -
  let ?d = "example_delta 7 [(1, 5)]"
  have "encode_block_delta ?d 10 = Some (the (encode_block_delta ?d 10))"
    by (simp add: encode_block_delta_def example_delta_def)
  from encode_decode[OF this] have
    "decode_block_delta (the (encode_block_delta ?d 10)) 10 2 = Inr (sort_delta ?d)"
    by (simp add: delta_fits_def example_delta_def)
  from decode_rejects_extension[OF this, of "[0]"] show ?thesis by simp
qed

text \<open>The size computed without encoding is the size of the encoding, byte for byte.\<close>

theorem encoded_len_exact:
  assumes "encode_block_delta d pb = Some bs"
  shows "length bs = encoded_len d"
  by (rule encode_length[OF assms])

lemma encoded_len_exact_witness:
  "length (the (encode_block_delta (example_delta 7 [(1, 5), (4, - 300)]) 10)) =
    encoded_len (example_delta 7 [(1, 5), (4, - 300)])"
proof (rule encoded_len_exact)
  show "encode_block_delta (example_delta 7 [(1, 5), (4, - 300)]) 10 =
      Some (the (encode_block_delta (example_delta 7 [(1, 5), (4, - 300)]) 10))"
    by (simp add: encode_block_delta_def example_delta_def)
qed

end
