(* ===== verification/Pending_Delta.thy ===== *)
theory Pending_Delta
  imports Block_Delta
begin

text \<open>
  Model of \<open>crates/risepir-client/src/delta.rs\<close> (and of the error type of
  \<open>error.rs\<close>): the rolling public delta a client keeps since its pinned hint, one
  ordered map from \<open>(row, offset)\<close> to a nonzero sum per segment.

  \<open>ingest(&mut self, ..)\<close> is a function from the state to the result and the new
  state: on \<open>DeltaOverflow\<close> the cells folded so far stay folded, as in the code.
  The lemmas: the representation invariant (ascending keys, no zero sum), the
  meaning of the state (\<open>pending_effect\<close>) and that an ingested delta adds its
  effect; that the row view and the row-delta view read exactly that state; that
  ingesting a coalesced span equals ingesting its blocks one by one.
\<close>

section \<open>Data\<close>

datatype client_error =
    NonContiguousDelta u64 u64                \<comment> \<open>current head, found\<close>
  | ClientSegmentCountMismatch nat nat        \<comment> \<open>expected, found\<close>
  | DeltaOverflow
  | GcTargetMismatch u64 u64                  \<comment> \<open>pending head, requested\<close>
  | MalformedResponse nat nat                 \<comment> \<open>expected, found\<close>
  | ResponseBlockMismatch u64 u64             \<comment> \<open>pending head, response block\<close>
  | KeyContextMismatch
  | CellOutOfRange nat u32 u16                \<comment> \<open>segment, row, offset\<close>

type_synonym pending_map = "(u32 \<times> u16, i64) btree"

record pending_delta =
  pd_per_segment :: "pending_map list"
  pd_head :: u64

section \<open>Operations\<close>

definition pending_new :: "nat \<Rightarrow> u64 \<Rightarrow> pending_delta" where
  "pending_new arity head = \<lparr> pd_per_segment = replicate arity [], pd_head = head \<rparr>"

definition pending_cells :: "pending_delta \<Rightarrow> nat" where
  "pending_cells p = (\<Sum>m \<leftarrow> pd_per_segment p. length m)"

definition pending_segment :: "pending_delta \<Rightarrow> nat \<Rightarrow> pending_map option" where
  "pending_segment p seg = get (pd_per_segment p) seg"

definition pending_row :: "pending_delta \<Rightarrow> nat \<Rightarrow> u32 \<Rightarrow> cell_edits option" where
  "pending_row p seg row =
     map_option (\<lambda>m. map (\<lambda>((_, off), d). (off, d)) (bt_range (row, 0) (row, - 1) m))
       (get (pd_per_segment p) seg)"

text \<open>One step of the loop of \<open>as_row_deltas\<close>, on \<open>out.last_mut()\<close>.\<close>

definition push_cell :: "segment_row_deltas \<Rightarrow> (u32 \<times> u16) \<times> i64 \<Rightarrow> segment_row_deltas" where
  "push_cell out cell =
     (case cell of ((row, off), delta) \<Rightarrow>
        if out \<noteq> [] \<and> fst (last out) = row
        then butlast out @ [(row, snd (last out) @ [(off, delta)])]
        else out @ [(row, [(off, delta)])])"

definition as_row_deltas :: "pending_delta \<Rightarrow> nat \<Rightarrow> segment_row_deltas option" where
  "as_row_deltas p seg = map_option (foldl push_cell []) (get (pd_per_segment p) seg)"

fun ingest_cells :: "u32 \<Rightarrow> cell_edits \<Rightarrow> pending_map \<Rightarrow> (client_error + unit) \<times> pending_map" where
  "ingest_cells row [] m = (Inr (), m)"
| "ingest_cells row ((off, delta) # cells) m =
     (case bt_get m (row, off) of
        None \<Rightarrow> ingest_cells row cells (if delta \<noteq> 0 then bt_insert (row, off) delta m else m)
      | Some v \<Rightarrow>
          (case checked_add_s v delta of
             None \<Rightarrow> (Inl DeltaOverflow, m)
           | Some s \<Rightarrow>
               ingest_cells row cells
                 (if s = 0 then bt_remove (row, off) m else bt_insert (row, off) s m)))"

fun ingest_rows :: "segment_row_deltas \<Rightarrow> pending_map \<Rightarrow> (client_error + unit) \<times> pending_map" where
  "ingest_rows [] m = (Inr (), m)"
| "ingest_rows ((row, cells) # rows) m =
     (case ingest_cells row cells m of
        (Inl e, m') \<Rightarrow> (Inl e, m')
      | (Inr _, m') \<Rightarrow> ingest_rows rows m')"

fun ingest_segments :: "segment_row_deltas list \<Rightarrow> nat \<Rightarrow> pending_map list
    \<Rightarrow> (client_error + unit) \<times> pending_map list" where
  "ingest_segments [] seg ms = (Inr (), ms)"
| "ingest_segments (rows # segs) seg ms =
     (case ingest_rows rows (ms ! seg) of
        (Inl e, m') \<Rightarrow> (Inl e, ms[seg := m'])
      | (Inr _, m') \<Rightarrow> ingest_segments segs (Suc seg) (ms[seg := m']))"

definition ingest :: "pending_delta \<Rightarrow> block_delta \<Rightarrow> (client_error + unit) \<times> pending_delta" where
  "ingest p d =
     (if delta_block d \<le> pd_head p
      then (Inl (NonContiguousDelta (pd_head p) (delta_block d)), p)
      else if length (per_segment d) \<noteq> length (pd_per_segment p)
      then (Inl (ClientSegmentCountMismatch (length (pd_per_segment p)) (length (per_segment d))), p)
      else
        (case ingest_segments (per_segment d) 0 (pd_per_segment p) of
           (Inl e, ms) \<Rightarrow> (Inl e, p\<lparr>pd_per_segment := ms\<rparr>)
         | (Inr _, ms) \<Rightarrow> (Inr (), p\<lparr>pd_per_segment := ms, pd_head := delta_block d\<rparr>)))"

section \<open>Invariant and meaning\<close>

definition pending_map_invar :: "pending_map \<Rightarrow> bool" where
  "pending_map_invar m \<longleftrightarrow> bt_invar m \<and> (\<forall>(_, d) \<in> set m. d \<noteq> 0)"

definition pending_invar :: "pending_delta \<Rightarrow> bool" where
  "pending_invar p \<longleftrightarrow> (\<forall>m \<in> set (pd_per_segment p). pending_map_invar m)"

definition map_effect :: "pending_map \<Rightarrow> u32 \<Rightarrow> u16 \<Rightarrow> int" where
  "map_effect m row off = sint (bt_get_or 0 m (row, off))"

definition pending_effect :: "pending_delta \<Rightarrow> nat \<Rightarrow> u32 \<Rightarrow> u16 \<Rightarrow> int" where
  "pending_effect p j row off =
     (if j < length (pd_per_segment p) then map_effect (pd_per_segment p ! j) row off else 0)"

lemma pending_map_invar_Nil [simp]: "pending_map_invar []"
  by (simp add: pending_map_invar_def)

lemma map_effect_Nil [simp]: "map_effect [] row off = 0"
  by (simp add: map_effect_def bt_get_or_def)

lemma pending_new_invar: "pending_invar (pending_new n h)"
  by (simp add: pending_new_def pending_invar_def)

lemma pending_new_effect: "pending_effect (pending_new n h) j row off = 0"
  by (simp add: pending_new_def pending_effect_def)

lemma pending_map_invar_insert:
  "pending_map_invar m \<Longrightarrow> d \<noteq> 0 \<Longrightarrow> pending_map_invar (bt_insert k d m)"
  using set_bt_insert_subset[of k d m] by (fastforce simp: pending_map_invar_def bt_invar_insert)

lemma pending_map_invar_remove:
  "pending_map_invar m \<Longrightarrow> pending_map_invar (bt_remove k m)"
  using set_bt_remove_subset[of k m] by (fastforce simp: pending_map_invar_def bt_invar_remove)

lemma map_effect_insert:
  "map_effect (bt_insert (r, k) d m) row off = (if row = r \<and> off = k then sint d else map_effect m row off)"
  by (auto simp: map_effect_def bt_get_or_insert)

lemma map_effect_remove:
  "bt_invar m \<Longrightarrow>
   map_effect (bt_remove (r, k) m) row off = (if row = r \<and> off = k then 0 else map_effect m row off)"
  by (auto simp: map_effect_def bt_get_or_def map_of_bt_remove)

lemmas pending_map_facts =
  pending_map_invar_insert pending_map_invar_remove map_effect_insert map_effect_remove

lemma ingest_cells_adds:
  assumes "ingest_cells row cs m = (Inr u, m')" and "pending_map_invar m"
  shows "pending_map_invar m' \<and>
    (\<forall>r off. map_effect m' r off = map_effect m r off + (if r = row then cells_effect cs off else 0))"
  using assms
proof (induction row cs m rule: ingest_cells.induct)
  case (1 row m)
  then show ?case by simp
next
  case (2 row off delta cs m)
  have bt: "bt_invar m" using "2.prems"(2) by (simp add: pending_map_invar_def)
  show ?case
  proof (cases "bt_get m (row, off)")
    case None
    then have z: "map_effect m row off = 0" by (simp add: map_effect_def bt_get_or_def bt_get_def)
    let ?m = "if delta \<noteq> 0 then bt_insert (row, off) delta m else m"
    have inv: "pending_map_invar ?m" using "2.prems"(2) by (simp add: pending_map_invar_insert)
    have eff: "map_effect ?m r o' = map_effect m r o' + (if r = row \<and> off = o' then sint delta else 0)" for r o'
      using z by (auto simp: map_effect_insert)
    have run: "ingest_cells row cs ?m = (Inr u, m')" using "2.prems"(1) None by simp
    show ?thesis using "2.IH"(1)[OF None run inv] eff by auto
  next
    case (Some v)
    then have v: "sint v = map_effect m row off" by (simp add: map_effect_def bt_get_or_def bt_get_def)
    from "2.prems"(1) Some obtain s where s: "checked_add_s v delta = Some s"
      by (auto split: option.splits)
    let ?m = "if s = 0 then bt_remove (row, off) m else bt_insert (row, off) s m"
    have inv: "pending_map_invar ?m"
      using "2.prems"(2) by (simp add: pending_map_invar_insert pending_map_invar_remove)
    have "sint s = map_effect m row off + sint delta"
      using checked_add_s_Some[OF s] v by simp
    then have eff: "map_effect ?m r o' = map_effect m r o' + (if r = row \<and> off = o' then sint delta else 0)" for r o'
      by (cases "s = 0") (auto simp: map_effect_insert map_effect_remove[OF bt])
    have run: "ingest_cells row cs ?m = (Inr u, m')" using "2.prems"(1) Some s by simp
    show ?thesis using "2.IH"(2)[OF Some s run inv] eff by auto
  qed
qed

lemma ingest_rows_adds:
  assumes "ingest_rows rs m = (Inr u, m')" and "pending_map_invar m"
  shows "pending_map_invar m' \<and>
    (\<forall>row off. map_effect m' row off = map_effect m row off + rows_effect rs row off)"
  using assms
proof (induction rs m rule: ingest_rows.induct)
  case (1 m)
  then show ?case by simp
next
  case (2 row cells rs m)
  then obtain m1 where m1: "ingest_cells row cells m = (Inr (), m1)"
    and rest: "ingest_rows rs m1 = (Inr u, m')"
    by (auto split: prod.splits sum.splits)
  note one = ingest_cells_adds[OF m1 "2.prems"(2)]
  then show ?case using "2.IH"[OF m1[symmetric] refl rest] by auto
qed

lemma ingest_segments_adds:
  assumes "ingest_segments segs i ms = (Inr u, ms')"
    and "\<forall>m \<in> set ms. pending_map_invar m" and "i + length segs \<le> length ms"
  shows "(\<forall>m \<in> set ms'. pending_map_invar m) \<and> length ms' = length ms \<and>
    (\<forall>j < length ms. \<forall>row off. map_effect (ms' ! j) row off = map_effect (ms ! j) row off +
       (if i \<le> j \<and> j < i + length segs then rows_effect (segs ! (j - i)) row off else 0))"
  using assms
proof (induction segs i ms rule: ingest_segments.induct)
  case (1 i ms)
  then show ?case by auto
next
  case (2 rows segs i ms)
  then obtain m where m: "ingest_rows rows (ms ! i) = (Inr (), m)"
    and rest: "ingest_segments segs (Suc i) (ms[i := m]) = (Inr u, ms')"
    by (auto split: prod.splits sum.splits)
  have i: "i < length ms" using "2.prems"(3) by simp
  then have "pending_map_invar (ms ! i)" using "2.prems"(2) by simp
  note adds = ingest_rows_adds[OF m this]
  have inv': "\<forall>m' \<in> set (ms[i := m]). pending_map_invar m'"
    using "2.prems"(2) adds set_update_subset_insert[of ms i m] by auto
  have "Suc i + length segs \<le> length (ms[i := m])" using "2.prems"(3) by simp
  from "2.IH"[OF m[symmetric] refl rest inv' this] adds i show ?case
    by (auto simp: nth_Cons' Suc_diff_le not_less_eq_eq nth_list_update)
qed

lemma ingest_adds:
  assumes "ingest p d = (Inr u, p')" and "pending_invar p"
  shows "pending_invar p' \<and> pd_head p' = delta_block d \<and> pd_head p < delta_block d \<and>
    length (per_segment d) = length (pd_per_segment p) \<and>
    length (pd_per_segment p') = length (pd_per_segment p) \<and>
    (\<forall>j row off. pending_effect p' j row off = pending_effect p j row off + delta_effect d j row off)"
proof -
  from assms(1) obtain ms where
    ms: "ingest_segments (per_segment d) 0 (pd_per_segment p) = (Inr (), ms)"
    and p': "p' = p\<lparr>pd_per_segment := ms, pd_head := delta_block d\<rparr>"
    and g: "pd_head p < delta_block d" "length (per_segment d) = length (pd_per_segment p)"
    by (auto simp: ingest_def not_le split: if_splits prod.splits sum.splits)
  from ingest_segments_adds[OF ms] assms(2) g(2) have
    "\<forall>m \<in> set ms. pending_map_invar m" "length ms = length (pd_per_segment p)"
    "\<And>j row off. j < length ms \<Longrightarrow> map_effect (ms ! j) row off =
       map_effect (pd_per_segment p ! j) row off + rows_effect (per_segment d ! j) row off"
    by (auto simp: pending_invar_def)
  then show ?thesis
    using g unfolding p' by (auto simp: pending_invar_def pending_effect_def delta_effect_def)
qed

lemma ingest_failed:
  assumes "ingest p d = (Inl e, p')"
  shows "pd_head p' = pd_head p" and "e \<noteq> DeltaOverflow \<Longrightarrow> p' = p"
proof -
  have c: "ingest_cells row cs m = (Inl e', m') \<Longrightarrow> e' = DeltaOverflow" for row cs m e' m'
    by (induction row cs m rule: ingest_cells.induct) (auto split: option.splits if_splits)
  have r: "ingest_rows rs m = (Inl e', m') \<Longrightarrow> e' = DeltaOverflow" for rs m e' m'
    by (induction rs m rule: ingest_rows.induct) (auto split: prod.splits sum.splits dest: c)
  have s: "ingest_segments segs i ms = (Inl e', ms') \<Longrightarrow> e' = DeltaOverflow" for segs i ms e' ms'
    by (induction segs i ms rule: ingest_segments.induct) (auto split: prod.splits sum.splits dest: r)
  show "pd_head p' = pd_head p" "e \<noteq> DeltaOverflow \<Longrightarrow> p' = p"
    using assms s by (auto simp: ingest_def split: if_splits prod.splits sum.splits)
qed

section \<open>The views\<close>

lemma pending_row_effect:
  assumes "pending_row p seg row = Some cells" and "pending_invar p"
  shows "bt_invar cells" and "\<forall>(_, d) \<in> set cells. d \<noteq> 0"
    and "cells_effect cells off = pending_effect p seg row off"
proof -
  from assms obtain m where m: "m = pd_per_segment p ! seg" "seg < length (pd_per_segment p)"
    and cells: "cells = map (\<lambda>((_, off), d). (off, d)) (bt_range (row, 0) (row, - 1) m)"
    and inv: "pending_map_invar m"
    by (auto simp: pending_row_def get_Some_iff pending_invar_def)
  have in_row: "(row, 0) \<le> k \<and> k \<le> (row, - 1) \<longleftrightarrow> fst k = row" for k :: "u32 \<times> u16"
    by (cases k) (auto simp: less_eq_prod_def)
  have bt: "bt_invar m" using inv by (simp add: pending_map_invar_def)
  have "bt_invar (map (\<lambda>((_, off), d). (off, d)) (filter (\<lambda>(k, _). fst k = row) m))"
    using bt by (induction m) (auto simp: bt_invar_Cons less_prod_def dest!: bspec)
  then show "bt_invar cells" unfolding cells bt_range_def in_row .
  show "\<forall>(_, d) \<in> set cells. d \<noteq> 0"
    using inv by (auto simp: cells bt_range_def pending_map_invar_def)
  have "cells_effect (map (\<lambda>((_, off), d). (off, d)) (filter (\<lambda>(k, _). fst k = row) m)) off
      = map_effect m row off"
    using bt
  proof (induction m)
    case Nil
    then show ?case by simp
  next
    case (Cons kv m)
    obtain r o' d where kv: "kv = ((r, o'), d)" by (metis prod.exhaust)
    from Cons.prems have "(r, o') \<notin> fst ` set m" by (auto simp: kv bt_invar_Cons)
    then have "map_effect m r o' = 0"
      by (simp add: map_effect_def bt_get_or_def map_of_eq_None_iff[THEN iffD2])
    with Cons show ?case
      by (auto simp: kv bt_invar_Cons map_effect_def bt_get_or_def)
  qed
  then show "cells_effect cells off = pending_effect p seg row off"
    unfolding cells bt_range_def in_row pending_effect_def using m by simp
qed



text \<open>\<open>as_row_deltas\<close> regroups the flat map by rows.  The keys of a row-delta list:\<close>

definition row_keys :: "segment_row_deltas \<Rightarrow> (u32 \<times> u16) set" where
  "row_keys rs = (\<Union>(row, cells) \<in> set rs. Pair row ` fst ` set cells)"

lemma row_keys_simps [simp]:
  "row_keys [] = {}"
  "row_keys ((row, cells) # rs) = Pair row ` fst ` set cells \<union> row_keys rs"
  "row_keys (xs @ ys) = row_keys xs \<union> row_keys ys"
  by (auto simp: row_keys_def)

lemma bt_invar_snoc:
  "bt_invar (m @ [(k, v)]) \<longleftrightarrow> bt_invar m \<and> (\<forall>k' \<in> fst ` set m. k' < k)"
  by (auto simp: bt_invar_def sorted_wrt_append)

lemma cells_effect_append: "cells_effect (xs @ ys) off = cells_effect xs off + cells_effect ys off"
  by (simp add: cells_effect_def)

lemma rows_effect_append: "rows_effect (xs @ ys) row off = rows_effect xs row off + rows_effect ys row off"
  by (simp add: rows_effect_def)

lemma push_cell_canonical:
  assumes "canonical_rows out" and "d \<noteq> 0" and "\<forall>k \<in> row_keys out. k < (row, off)"
  shows "canonical_rows (push_cell out ((row, off), d)) \<and>
    row_keys (push_cell out ((row, off), d)) = insert (row, off) (row_keys out) \<and>
    (\<forall>r o'. rows_effect (push_cell out ((row, off), d)) r o' =
       rows_effect out r o' + (if r = row \<and> o' = off then sint d else 0))"
proof (cases "out \<noteq> [] \<and> fst (last out) = row")
  case True
  then obtain rs cells where out: "out = rs @ [(row, cells)]"
    by (metis append_butlast_last_id prod.collapse)
  have pc: "push_cell out ((row, off), d) = rs @ [(row, cells @ [(off, d)])]"
    by (simp add: push_cell_def out)
  have offs: "\<forall>o' \<in> fst ` set cells. o' < off"
  proof
    fix o' assume "o' \<in> fst ` set cells"
    then have "(row, o') \<in> row_keys out" by (auto simp: out)
    with assms(3) show "o' < off" by fastforce
  qed
  show ?thesis
    unfolding pc using assms(1,2) offs
    by (auto simp: out canonical_rows_def bt_invar_snoc rows_effect_append cells_effect_append)
next
  case False
  have rows: "r < row" if "(r, cells) \<in> set out" for r cells
  proof -
    have ne: "cells' \<noteq> []" if "(r', cells') \<in> set out" for r' cells'
      using assms(1) that by (auto simp: canonical_rows_def)
    have le: "r' \<le> row" if m: "(r', cells') \<in> set out" for r' cells'
    proof -
      from ne[OF m] obtain o' where "o' \<in> fst ` set cells'" by (cases cells') auto
      with m have "(r', o') \<in> row_keys out" by (force simp: row_keys_def)
      with assms(3) show ?thesis by fastforce
    qed
    from that obtain rs lr lc where out: "out = rs @ [(lr, lc)]"
      by (metis append_butlast_last_id empty_iff list.set(1) prod.collapse)
    have "lr \<noteq> row" using False by (simp add: out)
    then have "lr < row" using le[of lr lc] by (simp add: out)
    moreover have "r \<le> lr"
      using that assms(1) by (force simp: out canonical_rows_def bt_invar_snoc)
    ultimately show "r < row" by simp
  qed
  have pc: "push_cell out ((row, off), d) = out @ [(row, [(off, d)])]"
    using False by (auto simp: push_cell_def)
  show ?thesis
    unfolding pc using assms(1,2) rows
    by (auto simp: canonical_rows_def bt_invar_snoc rows_effect_append bt_invar_Cons)
qed

lemma map_effect_snoc:
  "bt_invar (m @ [((r, k), d)]) \<Longrightarrow>
   map_effect (m @ [((r, k), d)]) row off = map_effect m row off + (if row = r \<and> off = k then sint d else 0)"
  by (auto simp: bt_invar_snoc map_effect_def bt_get_or_def map_add_def split: option.splits
      dest!: map_of_SomeD)

lemma foldl_push_cell:
  assumes "pending_map_invar m"
  shows "canonical_rows (foldl push_cell [] m) \<and> row_keys (foldl push_cell [] m) = fst ` set m \<and>
    (\<forall>row off. rows_effect (foldl push_cell [] m) row off = map_effect m row off)"
  using assms
proof (induction m rule: rev_induct)
  case Nil
  then show ?case by (simp add: canonical_rows_def)
next
  case (snoc x m)
  obtain r k d where x: "x = ((r, k), d)" by (metis prod.exhaust)
  have inv: "pending_map_invar m" and d: "d \<noteq> 0" and lt: "\<forall>k' \<in> fst ` set m. k' < (r, k)"
    and bt: "bt_invar (m @ [((r, k), d)])"
    using snoc.prems by (auto simp: pending_map_invar_def x bt_invar_snoc)
  note IH = snoc.IH[OF inv]
  have "\<forall>k' \<in> row_keys (foldl push_cell [] m). k' < (r, k)" using IH lt by simp
  from push_cell_canonical[OF _ d this] IH map_effect_snoc[OF bt] show ?case
    by (auto simp: x)
qed

lemma as_row_deltas_spec:
  assumes "as_row_deltas p seg = Some rs" and "pending_invar p"
  shows "canonical_rows rs" and "rows_effect rs row off = pending_effect p seg row off"
  using assms foldl_push_cell
  by (auto simp: as_row_deltas_def get_Some_iff pending_invar_def pending_effect_def)

section \<open>Equality of accumulators\<close>

lemma pending_map_eqI:
  assumes "pending_map_invar m" and "pending_map_invar n"
    and eff: "\<And>row off. map_effect m row off = map_effect n row off"
  shows "m = n"
proof (rule bt_eqI)
  show "bt_invar m" "bt_invar n" using assms by (simp_all add: pending_map_invar_def)
  have nz: "map_of x k \<noteq> Some 0" if "pending_map_invar x" for x k
    using that by (auto simp: pending_map_invar_def dest!: map_of_SomeD)
  show "map_of m = map_of n"
  proof
    fix k :: "u32 \<times> u16"
    have "sint (bt_get_or 0 m k) = sint (bt_get_or 0 n k)"
      using eff[of "fst k" "snd k"] by (simp add: map_effect_def)
    then have "bt_get_or 0 m k = bt_get_or 0 n k" by (rule signed_word_eqI)
    then show "map_of m k = map_of n k"
      using nz[OF assms(1), of k] nz[OF assms(2), of k]
      by (auto simp: bt_get_or_def split: option.splits)
  qed
qed

lemma pending_eqI:
  assumes "pending_invar p" and "pending_invar q" and "pd_head p = pd_head q"
    and "length (pd_per_segment p) = length (pd_per_segment q)"
    and eff: "\<And>j row off. pending_effect p j row off = pending_effect q j row off"
  shows "p = q"
proof -
  have "pd_per_segment p = pd_per_segment q"
  proof (rule nth_equalityI)
    show "length (pd_per_segment p) = length (pd_per_segment q)" by (rule assms(4))
    fix i assume i: "i < length (pd_per_segment p)"
    have "map_effect (pd_per_segment p ! i) row off = map_effect (pd_per_segment q ! i) row off" for row off
      using eff[of i row off] i assms(4) by (simp add: pending_effect_def)
    then show "pd_per_segment p ! i = pd_per_segment q ! i"
      using assms i by (intro pending_map_eqI) (auto simp: pending_invar_def)
  qed
  with assms(3) show ?thesis by simp
qed

fun ingest_all :: "pending_delta \<Rightarrow> block_delta list \<Rightarrow> (client_error + unit) \<times> pending_delta" where
  "ingest_all p [] = (Inr (), p)"
| "ingest_all p (d # ds) =
     (case ingest p d of (Inl e, p') \<Rightarrow> (Inl e, p') | (Inr _, p') \<Rightarrow> ingest_all p' ds)"

lemma ingest_all_adds:
  assumes "ingest_all p ds = (Inr u, p')" and "pending_invar p" and "ds \<noteq> []"
  shows "pending_invar p' \<and> pd_head p' = delta_block (last ds) \<and>
    length (pd_per_segment p') = length (pd_per_segment p) \<and>
    (\<forall>j row off. pending_effect p' j row off =
       pending_effect p j row off + (\<Sum>d \<leftarrow> ds. delta_effect d j row off))"
  using assms
proof (induction p ds rule: ingest_all.induct)
  case (1 p)
  then show ?case by simp
next
  case (2 p d ds)
  then obtain p1 where p1: "ingest p d = (Inr (), p1)" and rest: "ingest_all p1 ds = (Inr u, p')"
    by (auto split: prod.splits sum.splits)
  note one = ingest_adds[OF p1 "2.prems"(2)]
  show ?case
  proof (cases "ds = []")
    case True
    then show ?thesis using one rest by simp
  next
    case False
    then show ?thesis using "2.IH"[OF p1[symmetric] refl rest _ False] one by auto
  qed
qed

lemma ingest_coalesced:
  assumes c: "coalesce ds = Inr d" and all: "ingest_all p ds = (Inr u, p1)"
    and one: "ingest p d = (Inr v, p2)" and inv: "pending_invar p"
  shows "p1 = p2"
proof -
  have ne: "ds \<noteq> []" using coalesce_InrD[OF c] by simp
  note a = ingest_all_adds[OF all inv ne] and o = ingest_adds[OF one inv] and s = coalesce_shape[OF c]
  show ?thesis using a o s by (intro pending_eqI) auto
qed


section \<open>Ingestion succeeds below the overflow bound\<close>

definition map_bound :: "pending_map \<Rightarrow> int \<Rightarrow> bool" where
  "map_bound m b \<longleftrightarrow> (\<forall>row off. \<bar>map_effect m row off\<bar> \<le> b)"

lemma ingest_cells_total:
  assumes "pending_map_invar m" and "map_bound m b" and "b + cells_mag cs < 2 ^ 63"
  shows "\<exists>m'. ingest_cells row cs m = (Inr (), m')"
  using assms
proof (induction row cs m arbitrary: b rule: ingest_cells.induct)
  case (1 row m)
  then show ?case by simp
next
  case (2 row off delta cs m)
  let ?b = "b + \<bar>sint delta\<bar>"
  have rest: "?b + cells_mag cs < 2 ^ 63" using "2.prems"(3) by simp
  have "0 \<le> cells_mag cs" by simp
  have next_ok: "pending_map_invar m1 \<and> map_bound m1 ?b"
    if step: "ingest_cells row [(off, delta)] m = (Inr (), m1)" for m1
  proof -
    note adds = ingest_cells_adds[OF step "2.prems"(1)]
    have "\<bar>map_effect m1 r o'\<bar> \<le> ?b" for r o'
    proof -
      have "\<bar>map_effect m r o'\<bar> \<le> b" using "2.prems"(2) by (simp add: map_bound_def)
      then show ?thesis using adds by auto
    qed
    then show ?thesis using adds by (simp add: map_bound_def)
  qed
  show ?case
  proof (cases "bt_get m (row, off)")
    case None
    let ?m = "if delta \<noteq> 0 then bt_insert (row, off) delta m else m"
    have "ingest_cells row [(off, delta)] m = (Inr (), ?m)" using None by simp
    from next_ok[OF this] have "pending_map_invar ?m" "map_bound ?m ?b" by auto
    from "2.IH"(1)[OF None this rest] show ?thesis using None by simp
  next
    case (Some v)
    then have "sint v = map_effect m row off" by (simp add: map_effect_def bt_get_or_def bt_get_def)
    then have "\<bar>sint v + sint delta\<bar> < 2 ^ 63"
      using "2.prems"(2) rest \<open>0 \<le> cells_mag cs\<close> unfolding map_bound_def
      by (metis (no_types, opaque_lifting) abs_triangle_ineq add_mono_thms_linordered_semiring(3) add_increasing2 order_le_less_trans)
    then obtain s where s: "checked_add_s v delta = Some s"
      by (cases "checked_add_s v delta") (auto simp: checked_add_s_None_iff)
    let ?m = "if s = 0 then bt_remove (row, off) m else bt_insert (row, off) s m"
    have "ingest_cells row [(off, delta)] m = (Inr (), ?m)" using Some s by simp
    from next_ok[OF this] have "pending_map_invar ?m" "map_bound ?m ?b" by auto
    from "2.IH"(2)[OF Some s this rest] show ?thesis using Some s by simp
  qed
qed

lemma ingest_rows_total:
  assumes "pending_map_invar m" and "map_bound m b" and "b + rows_mag rs < 2 ^ 63"
  shows "\<exists>m'. ingest_rows rs m = (Inr (), m')"
  using assms
proof (induction rs m arbitrary: b rule: ingest_rows.induct)
  case (1 m)
  then show ?case by simp
next
  case (2 row cells rs m)
  have "b + cells_mag cells < 2 ^ 63"
    using "2.prems"(3) mag_nonneg(2)[of rs] unfolding mag_simps by linarith
  from ingest_cells_total[OF "2.prems"(1,2) this] obtain m1
    where m1: "ingest_cells row cells m = (Inr (), m1)" by blast
  note adds = ingest_cells_adds[OF m1 "2.prems"(1)]
  have "map_bound m1 (b + cells_mag cells)"
    unfolding map_bound_def
  proof (intro allI)
    fix r off
    have "\<bar>map_effect m r off\<bar> \<le> b" using "2.prems"(2) by (simp add: map_bound_def)
    then show "\<bar>map_effect m1 r off\<bar> \<le> b + cells_mag cells"
      using adds cells_effect_le_mag[of cells off] mag_nonneg(1)[of cells] by (auto split: if_splits)
  qed
  moreover have "b + cells_mag cells + rows_mag rs < 2 ^ 63" using "2.prems"(3) by simp
  ultimately show ?case using "2.IH"[OF m1[symmetric] refl] adds m1 by auto
qed

lemma ingest_segments_total:
  assumes "\<forall>m \<in> set ms. pending_map_invar m \<and> map_bound m b" and "i + length segs \<le> length ms"
    and "\<forall>rs \<in> set segs. b + rows_mag rs < 2 ^ 63"
  shows "\<exists>ms'. ingest_segments segs i ms = (Inr (), ms')"
proof -
  have "\<exists>ms'. ingest_segments segs i ms = (Inr (), ms')"
    if "\<forall>j. i \<le> j \<and> j < length ms \<longrightarrow> pending_map_invar (ms ! j) \<and> map_bound (ms ! j) b"
    and "i + length segs \<le> length ms" and "\<forall>rs \<in> set segs. b + rows_mag rs < 2 ^ 63"
    using that
  proof (induction segs i ms rule: ingest_segments.induct)
    case (1 i ms)
    then show ?case by simp
  next
    case (2 rows segs i ms)
    have "pending_map_invar (ms ! i)" "map_bound (ms ! i) b" "b + rows_mag rows < 2 ^ 63"
      using "2.prems" by auto
    from ingest_rows_total[OF this] obtain m where m: "ingest_rows rows (ms ! i) = (Inr (), m)" by blast
    have "\<exists>ms'. ingest_segments segs (Suc i) (ms[i := m]) = (Inr (), ms')"
      using "2.prems" by (intro "2.IH"[OF m[symmetric] refl]) auto
    then show ?case using m by simp
  qed
  then show ?thesis using assms by simp
qed

lemma ingest_total:
  assumes "pending_invar p" and "\<And>j row off. \<bar>pending_effect p j row off\<bar> \<le> b"
    and "b + delta_mag d < 2 ^ 63" and "pd_head p < delta_block d"
    and "length (per_segment d) = length (pd_per_segment p)"
  shows "\<exists>p'. ingest p d = (Inr (), p')"
proof -
  have "map_bound m b" if m: "m \<in> set (pd_per_segment p)" for m
  proof -
    from m obtain j where "j < length (pd_per_segment p)" "m = pd_per_segment p ! j"
      by (auto simp: in_set_conv_nth)
    then show ?thesis using assms(2)[of j] by (simp add: map_bound_def pending_effect_def)
  qed
  moreover have "rows_mag rs \<le> delta_mag d" if rs: "rs \<in> set (per_segment d)" for rs
    using rs nth_le_sum_list_map[of rows_mag _ "per_segment d"]
    by (auto simp: delta_mag_def in_set_conv_nth)
  then have "b + rows_mag rs < 2 ^ 63" if "rs \<in> set (per_segment d)" for rs
    using that assms(3) by fastforce
  ultimately have "\<exists>ms'. ingest_segments (per_segment d) 0 (pd_per_segment p) = (Inr (), ms')"
    using assms by (intro ingest_segments_total[where b = b]) (auto simp: pending_invar_def)
  then show ?thesis using assms(4,5) by (auto simp: ingest_def)
qed

section \<open>Canonical deltas never overflow on the way\<close>

text \<open>A canonical delta names every cell once, so only the final sums matter.\<close>

definition i64_range :: "int \<Rightarrow> bool" where
  "i64_range x \<longleftrightarrow> - (2 ^ 63) \<le> x \<and> x < 2 ^ 63"

lemma ingest_cells_canonical:
  assumes "bt_invar cs" and "pending_map_invar m"
    and "\<And>off. i64_range (map_effect m row off + cells_effect cs off)"
  shows "\<exists>m'. ingest_cells row cs m = (Inr (), m')"
  using assms
proof (induction row cs m rule: ingest_cells.induct)
  case (1 row m)
  then show ?case by simp
next
  case (2 row off delta cs m)
  have bt: "bt_invar cs" and later: "off \<notin> fst ` set cs"
    using "2.prems"(1) by (auto simp: bt_invar_Cons)
  have z: "cells_effect cs off = 0" by (rule cells_effect_absent[OF later])
  have step: "pending_map_invar m1 \<and> (\<forall>o'. i64_range (map_effect m1 row o' + cells_effect cs o'))"
    if m1: "ingest_cells row [(off, delta)] m = (Inr (), m1)" for m1
  proof -
    note adds = ingest_cells_adds[OF m1 "2.prems"(2)]
    have "map_effect m1 row o' + cells_effect cs o' = map_effect m row o' + cells_effect ((off, delta) # cs) o'" for o'
      using adds by simp
    then have "\<forall>o'. i64_range (map_effect m1 row o' + cells_effect cs o')"
      using "2.prems"(3) by metis
    then show ?thesis using adds by blast
  qed
  show ?case
  proof (cases "bt_get m (row, off)")
    case None
    let ?m = "if delta \<noteq> 0 then bt_insert (row, off) delta m else m"
    have "ingest_cells row [(off, delta)] m = (Inr (), ?m)" using None by simp
    from step[OF this] "2.IH"(1)[OF None bt] show ?thesis using None by simp
  next
    case (Some v)
    then have "sint v = map_effect m row off" by (simp add: map_effect_def bt_get_or_def bt_get_def)
    then have "i64_range (sint v + sint delta)" using "2.prems"(3)[of off] z by simp
    then obtain s where s: "checked_add_s v delta = Some s"
      by (auto simp: checked_add_s_def i64_range_def)
    let ?m = "if s = 0 then bt_remove (row, off) m else bt_insert (row, off) s m"
    have "ingest_cells row [(off, delta)] m = (Inr (), ?m)" using Some s by simp
    from step[OF this] "2.IH"(2)[OF Some s bt] show ?thesis using Some s by simp
  qed
qed

lemma ingest_rows_canonical:
  assumes "canonical_rows rs" and "pending_map_invar m"
    and "\<And>row off. i64_range (map_effect m row off + rows_effect rs row off)"
  shows "\<exists>m'. ingest_rows rs m = (Inr (), m')"
  using assms
proof (induction rs m rule: ingest_rows.induct)
  case (1 m)
  then show ?case by simp
next
  case (2 row cells rs m)
  have can: "canonical_rows rs" and cells: "bt_invar cells" and later: "row \<notin> fst ` set rs"
    using "2.prems"(1) by (auto simp: canonical_rows_def bt_invar_Cons)
  have z: "rows_effect rs row off = 0" for off by (rule rows_effect_absent[OF later])
  have "i64_range (map_effect m row off + cells_effect cells off)" for off
    using "2.prems"(3)[of row off] z by simp
  from ingest_cells_canonical[OF cells "2.prems"(2) this] obtain m1
    where m1: "ingest_cells row cells m = (Inr (), m1)" by blast
  note adds = ingest_cells_adds[OF m1 "2.prems"(2)]
  have "map_effect m1 r off + rows_effect rs r off = map_effect m r off + rows_effect ((row, cells) # rs) r off" for r off
    using adds by simp
  then have "i64_range (map_effect m1 r off + rows_effect rs r off)" for r off
    using "2.prems"(3) by metis
  with "2.IH"[OF m1[symmetric] refl can] adds m1 show ?case by auto
qed

lemma ingest_canonical:
  assumes "canonical_delta d" and "pending_invar p" and "pd_head p < delta_block d"
    and len: "length (per_segment d) = length (pd_per_segment p)"
    and rng: "\<And>j row off. i64_range (pending_effect p j row off + delta_effect d j row off)"
  shows "\<exists>p'. ingest p d = (Inr (), p')"
proof -
  have "\<exists>ms'. ingest_segments segs i ms = (Inr (), ms')"
    if "i + length segs \<le> length ms" and "\<forall>rs \<in> set segs. canonical_rows rs"
      and "\<forall>j. i \<le> j \<and> j < length ms \<longrightarrow> pending_map_invar (ms ! j)"
      and "\<forall>j < length segs. \<forall>row off. i64_range (map_effect (ms ! (i + j)) row off + rows_effect (segs ! j) row off)"
    for segs i ms
    using that
  proof (induction segs i ms rule: ingest_segments.induct)
    case (1 i ms)
    then show ?case by simp
  next
    case (2 rows segs i ms)
    have h: "canonical_rows rows" "pending_map_invar (ms ! i)"
      "\<And>row off. i64_range (map_effect (ms ! i) row off + rows_effect rows row off)"
      using "2.prems" by (auto dest: spec[of _ 0])
    from ingest_rows_canonical[OF this] obtain m where m: "ingest_rows rows (ms ! i) = (Inr (), m)" by blast
    have "\<exists>ms'. ingest_segments segs (Suc i) (ms[i := m]) = (Inr (), ms')"
      using "2.prems" by (intro "2.IH"[OF m[symmetric] refl]) (auto dest: spec[of _ "Suc _"])
    then show ?case using m by simp
  qed
  note run = this
  have "i64_range (map_effect (pd_per_segment p ! (0 + j)) row off + rows_effect (per_segment d ! j) row off)"
    if "j < length (per_segment d)" for j row off
    using rng[of j row off] that len by (simp add: pending_effect_def delta_effect_def)
  then have "\<exists>ms'. ingest_segments (per_segment d) 0 (pd_per_segment p) = (Inr (), ms')"
    using assms(1,2) len by (intro run) (auto simp: canonical_delta_def pending_invar_def)
  then show ?thesis using assms(3) len by (auto simp: ingest_def)
qed

section \<open>Properties\<close>

text \<open>An ingested delta is accounted for exactly: the accumulator keeps its invariant
  (ascending keys, no zero sum), moves to the delta's block, strictly forward, and at every cell
  its pending sum grows by exactly the delta's effect.\<close>

theorem ingest_accounts_exactly:
  assumes "ingest p d = (Inr (), p')" and "pending_invar p"
  shows "pending_invar p' \<and> pd_head p' = delta_block d \<and> pd_head p < delta_block d \<and>
    (\<forall>j row off. pending_effect p' j row off = pending_effect p j row off + delta_effect d j row off)"
  using ingest_adds[OF assms] by blast

lemma ingest_accounts_exactly_witness:
  "pending_effect (snd (ingest (pending_new 2 6) (example_delta 7 [(1, 5), (1, 3)]))) 0 3 1 =
    delta_effect (example_delta 7 [(1, 5), (1, 3)]) 0 3 1"
proof -
  let ?p = "snd (ingest (pending_new 2 6) (example_delta 7 [(1, 5), (1, 3)]))"
  have "fst (ingest (pending_new 2 6) (example_delta 7 [(1, 5), (1, 3)])) = Inr ()" by code_simp
  then have "ingest (pending_new 2 6) (example_delta 7 [(1, 5), (1, 3)]) = (Inr (), ?p)"
    by (metis prod.collapse)
  from ingest_accounts_exactly[OF this pending_new_invar] show ?thesis by (simp add: pending_new_effect)
qed

text \<open>Ingesting a coalesced span leaves the accumulator in exactly the state that ingesting its
  blocks one by one leaves it in (identical maps, not only equal sums).\<close>

theorem ingest_coalesced_equals_each:
  assumes "coalesce ds = Inr d" and "ingest_all p ds = (Inr (), p1)" and "ingest p d = (Inr (), p2)"
    and "pending_invar p"
  shows "p1 = p2"
  by (rule ingest_coalesced[OF assms])

lemma ingest_coalesced_equals_each_witness:
  "snd (ingest_all (pending_new 2 6) [example_delta 7 [(1, 5)], example_delta 8 [(1, - 5), (2, 1)]]) =
    snd (ingest (pending_new 2 6) (example_delta 8 [(2, 1)]))"
proof -
  let ?ds = "[example_delta 7 [(1, 5)], example_delta 8 [(1, - 5), (2, 1)]]"
  have c: "coalesce ?ds = Inr (example_delta 8 [(2, 1)])" by code_simp
  have "fst (ingest_all (pending_new 2 6) ?ds) = Inr ()" by code_simp
  then have a: "ingest_all (pending_new 2 6) ?ds = (Inr (), snd (ingest_all (pending_new 2 6) ?ds))"
    by (metis prod.collapse)
  have "fst (ingest (pending_new 2 6) (example_delta 8 [(2, 1)])) = Inr ()" by code_simp
  then have b: "ingest (pending_new 2 6) (example_delta 8 [(2, 1)]) =
      (Inr (), snd (ingest (pending_new 2 6) (example_delta 8 [(2, 1)])))"
    by (metis prod.collapse)
  show ?thesis by (rule ingest_coalesced_equals_each[OF c a b pending_new_invar])
qed

text \<open>Ingestion succeeds on every delta that extends the accumulator forward, has its segment
  count, and keeps the sums below the \<open>i64\<close> range; a rejected delta never moves the head, and
  every rejection but an overflow leaves the accumulator untouched.\<close>

theorem ingest_succeeds_or_keeps_head:
  "(pending_invar p \<and> (\<forall>j row off. \<bar>pending_effect p j row off\<bar> \<le> b) \<and> b + delta_mag d < 2 ^ 63 \<and>
    pd_head p < delta_block d \<and> length (per_segment d) = length (pd_per_segment p) \<longrightarrow>
      (\<exists>p'. ingest p d = (Inr (), p'))) \<and>
   (\<forall>e p'. ingest p d = (Inl e, p') \<longrightarrow> pd_head p' = pd_head p \<and> (e \<noteq> DeltaOverflow \<longrightarrow> p' = p))"
  using ingest_total[of p b d] ingest_failed[of p d] by blast

lemma ingest_succeeds_or_keeps_head_witness:
  "(\<exists>p'. ingest (pending_new 2 6) (example_delta 7 [(1, 5)]) = (Inr (), p')) \<and>
   (\<exists>e. ingest (pending_new 2 7) (example_delta 7 [(1, 5)]) = (Inl e, pending_new 2 7))"
proof -
  have "pending_invar (pending_new 2 6)" "\<forall>j row off. \<bar>pending_effect (pending_new 2 6) j row off\<bar> \<le> 0"
    by (simp_all add: pending_new_invar pending_new_effect)
  moreover have "0 + delta_mag (example_delta 7 [(1, 5)]) < 2 ^ 63"
    "pd_head (pending_new 2 6) < delta_block (example_delta 7 [(1, 5)])"
    "length (per_segment (example_delta 7 [(1, 5)])) = length (pd_per_segment (pending_new 2 6))"
    by (simp_all add: delta_mag_def example_delta_def pending_new_def)
  ultimately have "\<exists>p'. ingest (pending_new 2 6) (example_delta 7 [(1, 5)]) = (Inr (), p')"
    using ingest_succeeds_or_keeps_head[of "pending_new 2 6" 0 "example_delta 7 [(1, 5)]"] by blast
  moreover have "\<exists>e. ingest (pending_new 2 7) (example_delta 7 [(1, 5)]) = (Inl e, pending_new 2 7)"
    by (simp add: ingest_def pending_new_def example_delta_def)
  ultimately show ?thesis by blast
qed

end
