(* ===== verification/Value_Codec.thy ===== *)
theory Value_Codec
  imports Block_Delta
begin

text \<open>
  Model of \<open>crates/risepir-proto/src/value.rs\<close>: the packed value
  \<open>key_tag | balance | checksum\<close> of one account.

  A function that indexes a buffer returns an option, \<open>None\<close> being the panic of
  an out-of-range index.  The hash \<open>xxh3_64_with_seed\<close> (an external crate) is the
  parameter \<open>xxh\<close>.  The bit-level loops are related to a bit view of the
  buffer (\<open>buf_bit\<close>); from it follow: neither \<open>encode\<close> nor
  \<open>decode\<close> ever panics, decoding an encoded value gives it back, no balance
  is truncated, and a slot whose tag or checksum differs never yields a number.
\<close>

section \<open>Data\<close>

datatype lookup = Found balance | NotFound | DecodeFailed

record value_codec =
  key_tag_bits :: u32
  balance_bits :: u32
  checksum_bits :: u32

datatype value_error = BalanceOverflow | InvalidWidth

definition key_tag_seed :: u64 where
  "key_tag_seed = 0x524953455f544147"

definition fnv_offset_basis :: u64 where
  "fnv_offset_basis = 0xcbf29ce484222325"

definition fnv_prime :: u64 where
  "fnv_prime = 0x00000100000001b3"

definition fnv1a64 :: "bytes \<Rightarrow> u64" where
  "fnv1a64 bs = foldl (\<lambda>hash b. (hash XOR ucast b) * fnv_prime) fnv_offset_basis bs"

section \<open>Bit packing\<close>

fun write_bits_loop :: "nat \<Rightarrow> nat \<Rightarrow> bytes \<Rightarrow> nat \<Rightarrow> u128 \<Rightarrow> (bytes \<times> nat) option" where
  "write_bits_loop i 0 buf bit_pos val = Some (buf, bit_pos)"
| "write_bits_loop i (Suc n) buf bit_pos val =
     (if drop_bit i val AND 1 = 1
      then if bit_pos div 8 < length buf
           then write_bits_loop (Suc i) n
                  (buf[bit_pos div 8 := buf ! (bit_pos div 8) OR push_bit (bit_pos mod 8) 1])
                  (Suc bit_pos) val
           else None
      else write_bits_loop (Suc i) n buf (Suc bit_pos) val)"

definition write_bits :: "bytes \<Rightarrow> nat \<Rightarrow> u128 \<Rightarrow> u32 \<Rightarrow> (bytes \<times> nat) option" where
  "write_bits buf bit_pos val num_bits = write_bits_loop 0 (unat num_bits) buf bit_pos val"

fun read_bits_loop :: "nat \<Rightarrow> nat \<Rightarrow> bytes \<Rightarrow> nat \<Rightarrow> u128 \<Rightarrow> (u128 \<times> nat) option" where
  "read_bits_loop i 0 buf bit_pos val = Some (val, bit_pos)"
| "read_bits_loop i (Suc n) buf bit_pos val =
     (if bit_pos div 8 < length buf
      then read_bits_loop (Suc i) n buf (Suc bit_pos)
             (if buf ! (bit_pos div 8) AND push_bit (bit_pos mod 8) 1 \<noteq> 0
              then val OR push_bit i 1 else val)
      else None)"

definition read_bits :: "bytes \<Rightarrow> nat \<Rightarrow> u32 \<Rightarrow> (u128 \<times> nat) option" where
  "read_bits buf bit_pos num_bits = read_bits_loop 0 (unat num_bits) buf bit_pos 0"

section \<open>The codec\<close>

definition value_bits :: "value_codec \<Rightarrow> u32" where
  "value_bits c = key_tag_bits c + balance_bits c + checksum_bits c"

definition div_ceil8 :: "nat \<Rightarrow> nat" where
  "div_ceil8 n = (n + 7) div 8"

definition check_widths :: "value_codec \<Rightarrow> value_error + unit" where
  "check_widths c =
     (if key_tag_bits c > 64 \<or> balance_bits c > 128 \<or> checksum_bits c > 64
      then Inl InvalidWidth else Inr ())"

definition fits_balance_bits :: "value_codec \<Rightarrow> balance \<Rightarrow> bool" where
  "fits_balance_bits c bal =
     (if balance_bits c \<ge> 128 then True else bal < push_bit (unat (balance_bits c)) 1)"

text \<open>The slice \<open>bytes[..nbytes]\<close> is in range because every caller has checked the widths.\<close>

definition checksum :: "value_codec \<Rightarrow> balance \<Rightarrow> u64" where
  "checksum c bal =
     (if checksum_bits c = 0 then 0
      else let hash = fnv1a64 (take (div_ceil8 (unat (balance_bits c))) (to_le 16 bal))
           in if checksum_bits c \<ge> 64 then hash
              else hash AND (push_bit (unat (checksum_bits c)) 1 - 1))"

definition key_tag :: "(bytes \<Rightarrow> u64 \<Rightarrow> u64) \<Rightarrow> value_codec \<Rightarrow> address_hash \<Rightarrow> u64" where
  "key_tag xxh c addr =
     (if key_tag_bits c = 0 then 0
      else let full = xxh addr key_tag_seed
           in if key_tag_bits c \<ge> 64 then full
              else full AND (push_bit (unat (key_tag_bits c)) 1 - 1))"

definition extract_key_tag :: "value_codec \<Rightarrow> bytes \<Rightarrow> u64 option" where
  "extract_key_tag c value_bytes =
     map_option (\<lambda>(v, _). ucast v) (read_bits value_bytes 0 (key_tag_bits c))"

definition encode :: "(bytes \<Rightarrow> u64 \<Rightarrow> u64) \<Rightarrow> value_codec \<Rightarrow> address_hash \<Rightarrow> balance
    \<Rightarrow> (value_error + bytes) option" where
  "encode xxh c addr bal =
     (case check_widths c of
        Inl e \<Rightarrow> Some (Inl e)
      | Inr _ \<Rightarrow>
          if \<not> fits_balance_bits c bal then Some (Inl BalanceOverflow)
          else
            let buf = replicate (div_ceil8 (unat (value_bits c))) 0 in
            Option.bind (write_bits buf 0 (ucast (key_tag xxh c addr)) (key_tag_bits c)) (\<lambda>(buf, pos).
            Option.bind (write_bits buf pos bal (balance_bits c)) (\<lambda>(buf, pos).
            Option.bind (write_bits buf pos (ucast (checksum c bal)) (checksum_bits c)) (\<lambda>(buf, pos).
            Some (Inr buf)))))"

definition decode :: "(bytes \<Rightarrow> u64 \<Rightarrow> u64) \<Rightarrow> value_codec \<Rightarrow> address_hash \<Rightarrow> bytes \<Rightarrow> lookup option" where
  "decode xxh c addr value_bytes =
     (case check_widths c of
        Inl e \<Rightarrow> Some DecodeFailed
      | Inr _ \<Rightarrow>
          if length value_bytes \<noteq> div_ceil8 (unat (value_bits c)) then Some DecodeFailed
          else
            Option.bind (read_bits value_bytes 0 (key_tag_bits c)) (\<lambda>(stored_key_tag, pos).
            Option.bind (read_bits value_bytes pos (balance_bits c)) (\<lambda>(bal, pos).
            Option.bind (read_bits value_bytes pos (checksum_bits c)) (\<lambda>(stored_checksum, pos).
            Some (if ucast stored_key_tag \<noteq> key_tag xxh c addr then NotFound
                  else if ucast stored_checksum \<noteq> checksum c bal then DecodeFailed
                  else Found bal)))))"

section \<open>The bit view of a buffer\<close>

definition buf_bit :: "bytes \<Rightarrow> nat \<Rightarrow> bool" where
  "buf_bit buf m \<longleftrightarrow> m < 8 * length buf \<and> bit (buf ! (m div 8)) (m mod 8)"

lemma and_1_eq_1_iff: "(w :: 'a::len word) AND 1 = 1 \<longleftrightarrow> bit w 0"
  by (simp add: and_one_eq bit_0 odd_iff_mod_2_eq_one)

lemma and_push_bit_1_iff:
  "n < 8 \<Longrightarrow> (w :: u8) AND push_bit n 1 \<noteq> 0 \<longleftrightarrow> bit w n"
proof
  assume n: "n < 8" and nz: "w AND push_bit n 1 \<noteq> 0"
  then obtain k where "bit (w AND push_bit n 1) k"
    by (metis bit_0_eq bit_eqI bot_apply bot_bool_def)
  then show "bit w n" by (auto simp: bit_simps simp flip: push_bit_of_1)
next
  assume n: "n < 8" and b: "bit w n"
  show "w AND push_bit n 1 \<noteq> 0"
  proof
    assume "w AND push_bit n 1 = 0"
    then have "bit (w AND push_bit n 1) n = bit (0 :: u8) n" by simp
    with n b show False by (simp add: bit_simps)
  qed
qed


lemma buf_bit_update:
  assumes "p div 8 < length buf"
  shows "buf_bit (buf[p div 8 := buf ! (p div 8) OR push_bit (p mod 8) 1]) m \<longleftrightarrow> buf_bit buf m \<or> m = p"
proof (cases "m div 8 = p div 8")
  case True
  then have eq: "m mod 8 = p mod 8 \<longleftrightarrow> m = p" by (metis div_mod_decomp)
  have "m < 8 * length buf" using True assms by linarith
  then show ?thesis
    using True assms eq
    by (auto simp: buf_bit_def bit_simps simp flip: push_bit_of_1)
next
  case False
  then show ?thesis by (auto simp: buf_bit_def)
qed

lemma buf_bit_replicate [simp]: "\<not> buf_bit (replicate n 0) m"
  by (auto simp: buf_bit_def)

lemma buf_bit_test:
  "p < 8 * length buf \<Longrightarrow>
    buf ! (p div 8) AND push_bit (p mod 8) 1 \<noteq> 0 \<longleftrightarrow> buf_bit buf p"
  using and_push_bit_1_iff[of "p mod 8" "buf ! (p div 8)"] by (simp add: buf_bit_def)

lemma div8_less: "p < 8 * n \<Longrightarrow> p div 8 < (n :: nat)"
  by linarith

lemma write_bits_loop_spec:
  assumes "p + n \<le> 8 * length buf"
  shows "\<exists>buf'. write_bits_loop i n buf p v = Some (buf', p + n) \<and> length buf' = length buf \<and>
    (\<forall>m. buf_bit buf' m \<longleftrightarrow> buf_bit buf m \<or> p \<le> m \<and> m < p + n \<and> bit v (i + (m - p)))"
  using assms
proof (induction i n buf p v rule: write_bits_loop.induct)
  case (1 i buf p v)
  then show ?case by (auto simp: not_less)
next
  case (2 i n buf p v)
  have p8: "p div 8 < length buf" using "2.prems" by linarith
  have bit0: "drop_bit i v AND 1 = 1 \<longleftrightarrow> bit v i"
    by (simp add: and_1_eq_1_iff bit_simps)
  have idx: "(m = p \<and> bit v i) \<or> (Suc p \<le> m \<and> m < Suc p + n \<and> bit v (Suc i + (m - Suc p)))
      \<longleftrightarrow> p \<le> m \<and> m < p + Suc n \<and> bit v (i + (m - p))" for m
    by (cases "m = p") (auto simp: Suc_diff_Suc)
  show ?case
  proof (cases "bit v i")
    case True
    let ?buf = "buf[p div 8 := buf ! (p div 8) OR push_bit (p mod 8) 1]"
    have "Suc p + n \<le> 8 * length ?buf" using "2.prems" by simp
    from "2.IH"(1)[OF bit0[THEN iffD2, OF True] p8 this] obtain buf' where
      b: "write_bits_loop (Suc i) n ?buf (Suc p) v = Some (buf', Suc p + n)"
        "length buf' = length ?buf"
        "\<And>m. buf_bit buf' m \<longleftrightarrow> buf_bit ?buf m \<or>
              Suc p \<le> m \<and> m < Suc p + n \<and> bit v (Suc i + (m - Suc p))" by blast
    have "buf_bit buf' m \<longleftrightarrow> buf_bit buf m \<or> p \<le> m \<and> m < p + Suc n \<and> bit v (i + (m - p))" for m
      using b(3)[of m] idx[of m] True unfolding buf_bit_update[OF p8] by blast
    then show ?thesis using b(1,2) p8 bit0 True by simp
  next
    case False
    have "Suc p + n \<le> 8 * length buf" using "2.prems" by simp
    from "2.IH"(2)[OF bit0[THEN arg_cong[of _ _ Not], THEN iffD2, OF False] this] obtain buf' where
      b: "write_bits_loop (Suc i) n buf (Suc p) v = Some (buf', Suc p + n)"
        "length buf' = length buf"
        "\<And>m. buf_bit buf' m \<longleftrightarrow> buf_bit buf m \<or>
              Suc p \<le> m \<and> m < Suc p + n \<and> bit v (Suc i + (m - Suc p))" by blast
    have "buf_bit buf' m \<longleftrightarrow> buf_bit buf m \<or> p \<le> m \<and> m < p + Suc n \<and> bit v (i + (m - p))" for m
      using b(3)[of m] idx[of m] False by blast
    then show ?thesis using b(1,2) bit0 False by simp
  qed
qed

lemma read_bits_loop_spec:
  assumes "p + n \<le> 8 * length buf" and "i + n \<le> 128"
  shows "\<exists>w. read_bits_loop i n buf p v = Some (w, p + n) \<and>
    (\<forall>k. bit w k \<longleftrightarrow> bit v k \<or> i \<le> k \<and> k < i + n \<and> buf_bit buf (p + (k - i)))"
  using assms
proof (induction i n buf p v rule: read_bits_loop.induct)
  case (1 i buf p v)
  then show ?case by (auto simp: not_less)
next
  case (2 i n buf p v)
  have p8: "p div 8 < length buf" using "2.prems" by linarith
  have tst: "buf ! (p div 8) AND push_bit (p mod 8) 1 \<noteq> 0 \<longleftrightarrow> buf_bit buf p"
    using buf_bit_test[of p buf] "2.prems"(1) by linarith
  let ?v = "if buf ! (p div 8) AND push_bit (p mod 8) 1 \<noteq> 0 then v OR push_bit i 1 else v"
  have i: "i < 128" using "2.prems"(2) by simp
  have v: "bit ?v k \<longleftrightarrow> bit v k \<or> (k = i \<and> buf_bit buf p)" for k
    unfolding tst using i by (auto simp: bit_simps simp flip: push_bit_of_1)
  have "Suc p + n \<le> 8 * length buf" "Suc i + n \<le> 128" using "2.prems" by simp_all
  from "2.IH"[OF p8 this] obtain w where
    w: "read_bits_loop (Suc i) n buf (Suc p) ?v = Some (w, Suc p + n)"
      "\<And>k. bit w k \<longleftrightarrow> bit ?v k \<or> Suc i \<le> k \<and> k < Suc i + n \<and> buf_bit buf (Suc p + (k - Suc i))"
    by blast
  have "bit w k \<longleftrightarrow> bit v k \<or> i \<le> k \<and> k < i + Suc n \<and> buf_bit buf (p + (k - i))" for k
    unfolding w(2) v by (cases "k = i") (auto simp: Suc_diff_Suc)
  then show ?case using w(1) p8 by auto
qed

lemma write_bits_spec:
  assumes "p + unat n \<le> 8 * length buf"
  obtains buf' where "write_bits buf p v n = Some (buf', p + unat n)" "length buf' = length buf"
    "\<And>m. buf_bit buf' m \<longleftrightarrow> buf_bit buf m \<or> p \<le> m \<and> m < p + unat n \<and> bit v (m - p)"
  using write_bits_loop_spec[OF assms, of 0 v] unfolding write_bits_def by auto

lemma read_bits_spec:
  assumes "p + unat n \<le> 8 * length buf" and "unat n \<le> 128"
  obtains w where "read_bits buf p n = Some (w, p + unat n)"
    "\<And>k. bit w k \<longleftrightarrow> k < unat n \<and> buf_bit buf (p + k)"
  using read_bits_loop_spec[of p "unat n" buf 0 0] assms unfolding read_bits_def by auto

section \<open>The fields of an encoding\<close>

lemma check_widths_ok_iff:
  "check_widths c = Inr () \<longleftrightarrow>
    unat (key_tag_bits c) \<le> 64 \<and> unat (balance_bits c) \<le> 128 \<and> unat (checksum_bits c) \<le> 64"
  by (auto simp: check_widths_def word_less_nat_alt)

lemma unat_value_bits:
  assumes "check_widths c = Inr ()"
  shows "unat (value_bits c) = unat (key_tag_bits c) + unat (balance_bits c) + unat (checksum_bits c)"
  using assms unfolding check_widths_ok_iff value_bits_def
  by (simp add: unat_word_ariths)

lemma div_ceil8_bound: "n \<le> 8 * div_ceil8 n"
  by (simp add: div_ceil8_def)

lemma fits_balance_bits_iff:
  "fits_balance_bits c bal \<longleftrightarrow> unat bal < 2 ^ unat (balance_bits c)"
proof (cases "balance_bits c \<ge> 128")
  case True
  have "unat bal < 2 ^ 128" using unsigned_less[of bal, where 'a = nat] by simp
  also have "(2::nat) ^ 128 \<le> 2 ^ unat (balance_bits c)"
    by (rule power_increasing) (use True in \<open>simp_all add: word_le_nat_alt\<close>)
  finally show ?thesis using True by (simp add: fits_balance_bits_def)
next
  case False
  then have "unat (balance_bits c) < 128" by (simp add: word_le_nat_alt)
  then have "unat (push_bit (unat (balance_bits c)) 1 :: u128) = 2 ^ unat (balance_bits c)"
    by (simp add: unsigned_push_bit_eq take_bit_nat_eq_self del: push_bit_of_1)
  then show ?thesis using False by (simp add: fits_balance_bits_def word_less_nat_alt)
qed


lemma bit_masked:
  fixes h :: "'a::len word"
  assumes "n < LENGTH('a)"
  shows "bit (h AND (push_bit n 1 - 1)) k \<longleftrightarrow> k < n \<and> bit h k"
proof -
  have "push_bit n 1 - (1 :: 'a word) = mask n" by (simp add: mask_eq_exp_minus_1)
  then show ?thesis
    using assms by (auto simp: bit_simps)
qed

lemma bit_key_tag: "bit (key_tag xxh c addr) k \<Longrightarrow> k < unat (key_tag_bits c)"
proof -
  assume b: "bit (key_tag xxh c addr) k"
  show ?thesis
  proof (cases "key_tag_bits c \<ge> 64")
    case True
    then have "64 \<le> unat (key_tag_bits c)" by (simp add: word_le_nat_alt)
    then show ?thesis using bit_imp_le_length[OF b] by simp
  next
    case False
    then have "unat (key_tag_bits c) < 64" by (simp add: word_le_nat_alt)
    then show ?thesis using b False
      using bit_masked[of "unat (key_tag_bits c)" "xxh addr key_tag_seed" k]
      by (auto simp: key_tag_def Let_def split: if_splits)
  qed
qed

lemma bit_checksum: "bit (checksum c bal) k \<Longrightarrow> k < unat (checksum_bits c)"
proof -
  assume b: "bit (checksum c bal) k"
  show ?thesis
  proof (cases "checksum_bits c \<ge> 64")
    case True
    then have "64 \<le> unat (checksum_bits c)" by (simp add: word_le_nat_alt)
    then show ?thesis using bit_imp_le_length[OF b] by simp
  next
    case False
    then have "unat (checksum_bits c) < 64" by (simp add: word_le_nat_alt)
    then show ?thesis using b False
      using bit_masked[where ?'a = 64 and n = "unat (checksum_bits c)" and k = k]
      by (auto simp: checksum_def Let_def split: if_splits)
  qed
qed

lemma bit_fits:
  assumes "unat (w :: 'a::len word) < 2 ^ n" and "bit w k"
  shows "k < n"
proof (rule ccontr)
  assume "\<not> k < n"
  then have "w = take_bit n w" using assms(1)
    by (metis take_bit_nat_eq_self unsigned_take_bit_eq word_unat_eq_iff)
  then have "bit (take_bit n w) k" using assms(2) by simp
  with \<open>\<not> k < n\<close> show False by (simp add: bit_simps)
qed

text \<open>The three fields of a buffer, lowest bits first.\<close>

definition holds_fields :: "value_codec \<Rightarrow> bytes \<Rightarrow> u64 \<Rightarrow> balance \<Rightarrow> u64 \<Rightarrow> bool" where
  "holds_fields c buf tag bal chk \<longleftrightarrow>
     length buf = div_ceil8 (unat (value_bits c)) \<and>
     (\<forall>k < unat (key_tag_bits c). buf_bit buf k = bit tag k) \<and>
     (\<forall>k < unat (balance_bits c). buf_bit buf (unat (key_tag_bits c) + k) = bit bal k) \<and>
     (\<forall>k < unat (checksum_bits c).
        buf_bit buf (unat (key_tag_bits c) + unat (balance_bits c) + k) = bit chk k)"

lemma bit_ucast_u128: "bit (ucast (w :: u64) :: u128) k \<longleftrightarrow> bit w k"
  by (auto simp: bit_simps dest: bit_imp_le_length)

lemma encode_fields:
  assumes w: "check_widths c = Inr ()" and f: "fits_balance_bits c bal"
  obtains buf where "encode xxh c addr bal = Some (Inr buf)"
    "holds_fields c buf (key_tag xxh c addr) bal (checksum c bal)"
proof -
  let ?t = "unat (key_tag_bits c)" and ?b = "unat (balance_bits c)" and ?k = "unat (checksum_bits c)"
  let ?buf = "replicate (div_ceil8 (unat (value_bits c))) 0 :: bytes"
  have total: "?t + ?b + ?k \<le> 8 * length ?buf"
    using div_ceil8_bound[of "unat (value_bits c)"] by (simp add: unat_value_bits[OF w])
  have "0 + ?t \<le> 8 * length ?buf" using total by simp
  from write_bits_spec[OF this] obtain b1 where
    b1: "write_bits ?buf 0 (ucast (key_tag xxh c addr)) (key_tag_bits c) = Some (b1, 0 + ?t)"
      "length b1 = length ?buf"
      "\<And>m. buf_bit b1 m \<longleftrightarrow> buf_bit ?buf m \<or>
         0 \<le> m \<and> m < 0 + ?t \<and> bit (ucast (key_tag xxh c addr) :: u128) (m - 0)" by blast
  have "?t + ?b \<le> 8 * length b1" using total b1(2) by simp
  from write_bits_spec[OF this] obtain b2 where
    b2: "write_bits b1 ?t bal (balance_bits c) = Some (b2, ?t + ?b)" "length b2 = length b1"
      "\<And>m. buf_bit b2 m \<longleftrightarrow> buf_bit b1 m \<or> ?t \<le> m \<and> m < ?t + ?b \<and> bit bal (m - ?t)" by blast
  have "?t + ?b + ?k \<le> 8 * length b2" using total b1(2) b2(2) by simp
  from write_bits_spec[OF this] obtain b3 where
    b3: "write_bits b2 (?t + ?b) (ucast (checksum c bal)) (checksum_bits c) = Some (b3, ?t + ?b + ?k)"
      "length b3 = length b2"
      "\<And>m. buf_bit b3 m \<longleftrightarrow> buf_bit b2 m \<or> ?t + ?b \<le> m \<and> m < ?t + ?b + ?k \<and>
         bit (ucast (checksum c bal) :: u128) (m - (?t + ?b))" by blast
  have "encode xxh c addr bal = Some (Inr b3)"
    using w f b1(1) b2(1) b3(1) by (simp add: encode_def Let_def)
  moreover have "holds_fields c b3 (key_tag xxh c addr) bal (checksum c bal)"
    unfolding holds_fields_def b3(3) b2(3) b1(3) bit_ucast_u128 using b1(2) b2(2) b3(2) by auto
  ultimately show thesis by (rule that)
qed

lemma decode_fields:
  assumes w: "check_widths c = Inr ()" and len: "length buf = div_ceil8 (unat (value_bits c))"
  obtains tag bal chk where
    "\<And>k. bit tag k \<longleftrightarrow> k < unat (key_tag_bits c) \<and> buf_bit buf k"
    "\<And>k. bit bal k \<longleftrightarrow> k < unat (balance_bits c) \<and> buf_bit buf (unat (key_tag_bits c) + k)"
    "\<And>k. bit chk k \<longleftrightarrow> k < unat (checksum_bits c) \<and>
       buf_bit buf (unat (key_tag_bits c) + unat (balance_bits c) + k)"
    "extract_key_tag c buf = Some tag"
    "decode xxh c addr buf = Some (if tag \<noteq> key_tag xxh c addr then NotFound
       else if chk \<noteq> checksum c bal then DecodeFailed else Found bal)"
proof -
  let ?t = "unat (key_tag_bits c)" and ?b = "unat (balance_bits c)" and ?k = "unat (checksum_bits c)"
  have wid: "?t \<le> 64" "?b \<le> 128" "?k \<le> 64" using w by (simp_all add: check_widths_ok_iff)
  have total: "?t + ?b + ?k \<le> 8 * length buf"
    using div_ceil8_bound[of "unat (value_bits c)"] len by (simp add: unat_value_bits[OF w])
  have "0 + ?t \<le> 8 * length buf" "?t \<le> 128" using total wid by simp_all
  from read_bits_spec[OF this] obtain t where
    t: "read_bits buf 0 (key_tag_bits c) = Some (t, 0 + ?t)"
      "\<And>k. bit t k \<longleftrightarrow> k < ?t \<and> buf_bit buf (0 + k)" by blast
  have "?t + ?b \<le> 8 * length buf" "?b \<le> 128" using total wid by simp_all
  from read_bits_spec[OF this] obtain b where
    b: "read_bits buf ?t (balance_bits c) = Some (b, ?t + ?b)"
      "\<And>k. bit b k \<longleftrightarrow> k < ?b \<and> buf_bit buf (?t + k)" by blast
  have "?t + ?b + ?k \<le> 8 * length buf" "?k \<le> 128" using total wid by simp_all
  from read_bits_spec[OF this] obtain k where
    k: "read_bits buf (?t + ?b) (checksum_bits c) = Some (k, ?t + ?b + ?k)"
      "\<And>m. bit k m \<longleftrightarrow> m < ?k \<and> buf_bit buf (?t + ?b + m)" by blast
  show thesis
  proof (rule that[of "ucast t" b "ucast k"])
    show "bit (ucast t :: u64) m \<longleftrightarrow> m < ?t \<and> buf_bit buf m" for m
      using wid(1) unfolding bit_unsigned_iff possible_bit_word t(2) by auto
    show "bit (ucast k :: u64) m \<longleftrightarrow> m < ?k \<and> buf_bit buf (?t + ?b + m)" for m
      using wid(3) unfolding bit_unsigned_iff possible_bit_word k(2) by auto
    show "extract_key_tag c buf = Some (ucast t)"
      using t(1) by (simp add: extract_key_tag_def)
    show "decode xxh c addr buf = Some (if ucast t \<noteq> key_tag xxh c addr then NotFound
       else if ucast k \<noteq> checksum c b then DecodeFailed else Found b)"
      by (simp add: decode_def w len t(1)[simplified] b(1) k(1))
  qed (rule b(2))
qed

lemma decode_total: "\<exists>r. decode xxh c addr buf = Some r"
proof (cases "check_widths c")
  case (Inl e)
  then show ?thesis by (simp add: decode_def)
next
  case (Inr u)
  then have w: "check_widths c = Inr ()" by simp
  show ?thesis
  proof (cases "length buf = div_ceil8 (unat (value_bits c))")
    case True
    from decode_fields[OF w True] show ?thesis by metis
  qed (simp add: decode_def w)
qed

lemma encode_total: "\<exists>r. encode xxh c addr bal = Some r"
proof (cases "check_widths c = Inr () \<and> fits_balance_bits c bal")
  case True
  then show ?thesis using encode_fields by metis
next
  case False
  then show ?thesis by (cases "check_widths c") (auto simp: encode_def)
qed

lemma encode_Inr_iff:
  "(\<exists>buf. encode xxh c addr bal = Some (Inr buf)) \<longleftrightarrow>
    check_widths c = Inr () \<and> unat bal < 2 ^ unat (balance_bits c)"
proof
  assume "\<exists>buf. encode xxh c addr bal = Some (Inr buf)"
  then show "check_widths c = Inr () \<and> unat bal < 2 ^ unat (balance_bits c)"
    by (auto simp: encode_def fits_balance_bits_iff split: sum.splits if_splits)
next
  assume "check_widths c = Inr () \<and> unat bal < 2 ^ unat (balance_bits c)"
  then show "\<exists>buf. encode xxh c addr bal = Some (Inr buf)"
    using encode_fields fits_balance_bits_iff by metis
qed

lemma encode_holds_fields:
  assumes "encode xxh c addr bal = Some (Inr buf)"
  shows "check_widths c = Inr ()" and "unat bal < 2 ^ unat (balance_bits c)"
    and "holds_fields c buf (key_tag xxh c addr) bal (checksum c bal)"
proof -
  show w: "check_widths c = Inr ()" and f: "unat bal < 2 ^ unat (balance_bits c)"
    using assms encode_Inr_iff by blast+
  show "holds_fields c buf (key_tag xxh c addr) bal (checksum c bal)"
    using encode_fields[OF w f[folded fits_balance_bits_iff], of xxh addr] assms by auto
qed

lemma decode_encode_other:
  assumes e: "encode xxh c addr bal = Some (Inr buf)"
  shows "decode xxh c addr' buf =
    Some (if key_tag xxh c addr' = key_tag xxh c addr then Found bal else NotFound)"
    and "extract_key_tag c buf = Some (key_tag xxh c addr)"
proof -
  note h = encode_holds_fields[OF e]
  from h(3) have len: "length buf = div_ceil8 (unat (value_bits c))"
    by (simp add: holds_fields_def)
  from decode_fields[OF h(1) len, of xxh addr'] obtain tag bal' chk where
    d: "\<And>k. bit tag k \<longleftrightarrow> k < unat (key_tag_bits c) \<and> buf_bit buf k"
    "\<And>k. bit bal' k \<longleftrightarrow> k < unat (balance_bits c) \<and> buf_bit buf (unat (key_tag_bits c) + k)"
    "\<And>k. bit chk k \<longleftrightarrow> k < unat (checksum_bits c) \<and>
       buf_bit buf (unat (key_tag_bits c) + unat (balance_bits c) + k)"
    "extract_key_tag c buf = Some tag"
    "decode xxh c addr' buf = Some (if tag \<noteq> key_tag xxh c addr' then NotFound
       else if chk \<noteq> checksum c bal' then DecodeFailed else Found bal')" by blast
  have tag: "tag = key_tag xxh c addr"
    using h(3) d(1) bit_key_tag by (intro bit_word_eqI) (auto simp: holds_fields_def)
  moreover have bal: "bal' = bal"
    using h(2,3) d(2) bit_fits[OF h(2)] by (intro bit_word_eqI) (auto simp: holds_fields_def)
  moreover have "chk = checksum c bal"
    using h(3) d(3) bit_checksum by (intro bit_word_eqI) (auto simp: holds_fields_def)
  ultimately show "decode xxh c addr' buf =
    Some (if key_tag xxh c addr' = key_tag xxh c addr then Found bal else NotFound)"
    "extract_key_tag c buf = Some (key_tag xxh c addr)"
    using d(4,5) by auto
qed

text \<open>A buffer decodes to a number only when it holds that number with the right tag and checksum.\<close>

lemma decode_Found_iff:
  "decode xxh c addr buf = Some (Found bal) \<longleftrightarrow>
    check_widths c = Inr () \<and> unat bal < 2 ^ unat (balance_bits c) \<and>
    holds_fields c buf (key_tag xxh c addr) bal (checksum c bal)"
  (is "?l \<longleftrightarrow> ?r")
proof (cases "check_widths c = Inr () \<and> length buf = div_ceil8 (unat (value_bits c))")
  case False
  then show ?thesis
    by (cases "check_widths c") (auto simp: decode_def holds_fields_def)
next
  case True
  then have w: "check_widths c = Inr ()" and len: "length buf = div_ceil8 (unat (value_bits c))" by auto
  from decode_fields[OF w len, of xxh addr] obtain tag bal' chk where
    d: "\<And>k. bit tag k \<longleftrightarrow> k < unat (key_tag_bits c) \<and> buf_bit buf k"
    "\<And>k. bit bal' k \<longleftrightarrow> k < unat (balance_bits c) \<and> buf_bit buf (unat (key_tag_bits c) + k)"
    "\<And>k. bit chk k \<longleftrightarrow> k < unat (checksum_bits c) \<and>
       buf_bit buf (unat (key_tag_bits c) + unat (balance_bits c) + k)"
    "decode xxh c addr buf = Some (if tag \<noteq> key_tag xxh c addr then NotFound
       else if chk \<noteq> checksum c bal' then DecodeFailed else Found bal')" by metis
  have fit: "unat bal' < 2 ^ unat (balance_bits c)"
  proof -
    have "take_bit (unat (balance_bits c)) bal' = bal'"
      using d(2) by (intro bit_word_eqI) (auto simp: bit_simps)
    then have "unat bal' = take_bit (unat (balance_bits c)) (unat bal')"
      by (metis unsigned_take_bit_eq)
    then show ?thesis by (metis take_bit_nat_less_exp)
  qed
  show ?thesis
  proof
    assume ?l
    then have "tag = key_tag xxh c addr" "chk = checksum c bal'" "bal' = bal"
      using d(4) by (auto split: if_splits)
    then show ?r using w len fit d(1-3) by (auto simp: holds_fields_def)
  next
    assume r: ?r
    then have "tag = key_tag xxh c addr"
      using d(1) bit_key_tag by (intro bit_word_eqI) (auto simp: holds_fields_def)
    moreover have "bal' = bal"
      using r d(2) bit_fits[of bal "unat (balance_bits c)"]
      by (intro bit_word_eqI) (auto simp: holds_fields_def)
    moreover have "chk = checksum c bal"
      using r d(3) bit_checksum by (intro bit_word_eqI) (auto simp: holds_fields_def)
    ultimately show ?l using d(4) by simp
  qed
qed

section \<open>Properties\<close>

text \<open>C19. Round trip of the packed account value: an encoded balance decodes, for any address with
  the same key tag, to exactly that balance, and for any other address to "not found"; the tag
  extracted alone is the key's tag.  Encoding succeeds exactly when the widths are representable
  and the balance fits its field, so no balance is ever truncated.\<close>

theorem value_roundtrip:
  "(\<exists>buf. encode xxh c addr bal = Some (Inr buf)) =
      (check_widths c = Inr () \<and> unat bal < 2 ^ unat (balance_bits c)) \<and>
   (\<forall>buf addr'. encode xxh c addr bal = Some (Inr buf) \<longrightarrow>
      decode xxh c addr' buf =
        Some (if key_tag xxh c addr' = key_tag xxh c addr then Found bal else NotFound) \<and>
      extract_key_tag c buf = Some (key_tag xxh c addr))"
  using encode_Inr_iff decode_encode_other by blast

definition example_codec :: value_codec where
  "example_codec = \<lparr> key_tag_bits = 8, balance_bits = 16, checksum_bits = 8 \<rparr>"

definition example_hash :: "bytes \<Rightarrow> u64 \<Rightarrow> u64" where
  "example_hash bs seed = seed + of_nat (length bs)"

lemma value_roundtrip_witness:
  "\<exists>buf. encode example_hash example_codec [1, 2] 300 = Some (Inr buf) \<and>
    decode example_hash example_codec [1, 2] buf = Some (Found 300) \<and>
    decode example_hash example_codec [1] buf = Some NotFound"
proof -
  have fits: "check_widths example_codec = Inr () \<and> unat (300 :: u128) < 2 ^ unat (balance_bits example_codec)"
    by (simp add: check_widths_def example_codec_def)
  have tags: "key_tag example_hash example_codec [1] \<noteq> key_tag example_hash example_codec [1, 2]"
    by code_simp
  from value_roundtrip[of example_hash example_codec "[1, 2]" 300] fits obtain buf where
    "encode example_hash example_codec [1, 2] 300 = Some (Inr buf)" by blast
  with value_roundtrip[of example_hash example_codec "[1, 2]" 300] tags show ?thesis by auto
qed

text \<open>A buffer decodes to a balance exactly when it has the codec's length and holds the key's
  tag, that balance and its checksum, bit for bit: a corrupted or foreign slot never yields a
  number, and neither direction of the codec ever panics.\<close>

theorem decode_found_iff:
  "(decode xxh c addr buf = Some (Found bal)) =
     (check_widths c = Inr () \<and> unat bal < 2 ^ unat (balance_bits c) \<and>
      holds_fields c buf (key_tag xxh c addr) bal (checksum c bal)) \<and>
   (\<exists>r. decode xxh c addr buf = Some r) \<and> (\<exists>r. encode xxh c addr bal = Some r)"
  using decode_Found_iff decode_total encode_total by blast

lemma decode_found_iff_witness:
  "\<exists>r. decode example_hash example_codec [1] [0] = Some r"
  using decode_found_iff[of example_hash example_codec "[1]" "[0]"] by blast

end
