(* ===== verification/Geometry.thy ===== *)
theory Geometry
  imports Value_Codec
begin

text \<open>
  Model of \<open>crates/risepir-proto/src/geometry.rs\<close>: the choice of a table geometry
  for a number of accounts and the sizes that follow from it.

  The tables and selectors of the PIR crates are the record \<open>pir_lib\<close>: an
  argument of every function here.  \<open>u128\<close> values are natural numbers: every product
  of the code stays below \<open>2 ^ 128\<close>.  \<open>None\<close> is a panic (\<open>expect\<close>, division
  by zero).  The floating-point square root of \<open>reshape_dims\<close> is computed on
  integers (\<open>reshape_k\<close>): the exact quotient of two \<open>u32\<close> values is either
  equal to the square of a half-integer, and then every \<open>f64\<close> step is exact, or
  differs from it by a relative \<open>2 ^ (-34)\<close>, far more than the rounding error,
  so both round to the same integer.
\<close>

section \<open>Data\<close>

datatype backend = Simple | Frodo

record geometry =
  geom_arity :: u32
  geom_num_buckets :: u32
  geom_bucket_size :: u32
  geom_fingerprint_bits :: u32
  geom_value_bits :: u32
  geom_plaintext_bits :: u32

record sizes =
  size_cells_per_slot :: u32
  size_row_width :: u32
  size_segment_rows :: u32
  size_k :: u32
  size_reshape_rows :: u32
  size_reshape_row_width :: u32
  size_hint_per_segment :: u64
  size_query_per_segment :: u64
  size_response_per_segment :: u64
  size_a_per_segment :: u64
  size_server_db :: u64
  size_slots :: u64

datatype geom_error =
    InvalidArity u32
  | InvalidBucketSize
  | InvalidFieldWidth
  | TooManyAccounts
  | InvalidNumBuckets u32

text \<open>What the code uses of \<open>segmented_cuckoo\<close> and \<open>ikpir_common\<close>: the load ceilings in
  hundredths (rows by arity from 2, columns by bucket size from 1), the two
  plaintext-modulus selectors and the two LWE dimensions.\<close>

record pir_lib =
  max_load_hundredths :: "nat list list"
  frodo_max_plaintext_bits :: "u32 \<Rightarrow> u32 \<Rightarrow> u32 \<Rightarrow> u32 \<Rightarrow> u32 \<Rightarrow> u32"
  simple_max_plaintext_bits :: "u32 \<Rightarrow> u32 \<Rightarrow> u32 \<Rightarrow> u32 \<Rightarrow> u32 \<Rightarrow> u32 \<Rightarrow> u32"
  simple_default_sigma :: u32
  frodo_lwe_dim :: u32
  simple_lwe_dim :: u32

section \<open>Choosing a geometry\<close>

definition global_target_num :: nat where "global_target_num = 9000"
definition target_den :: nat where "target_den = 10000"
definition safety_margin_num :: nat where "safety_margin_num = 95"

definition max_load_factor_hundredths :: "pir_lib \<Rightarrow> u32 \<Rightarrow> u32 \<Rightarrow> nat option" where
  "max_load_factor_hundredths lib arity bucket_size =
     (if arity < 2 \<or> bucket_size < 1 then None
      else Option.bind (get (max_load_hundredths lib) (unat arity - 2))
             (\<lambda>r. get r (unat bucket_size - 1)))"

definition effective_target_load :: "pir_lib \<Rightarrow> u32 \<Rightarrow> u32 \<Rightarrow> nat \<times> nat" where
  "effective_target_load lib arity bucket_size =
     (case max_load_factor_hundredths lib arity bucket_size of
        Some ceiling \<Rightarrow> (min global_target_num (safety_margin_num * ceiling), target_den)
      | None \<Rightarrow> (global_target_num, target_den))"

function next_power_of_two_from :: "nat \<Rightarrow> nat \<Rightarrow> nat" where
  "next_power_of_two_from p n = (if p = 0 \<or> n \<le> p then p else next_power_of_two_from (2 * p) n)"
  by auto
termination by (relation "measure (\<lambda>(p, n). n - p)") auto

declare next_power_of_two_from.simps [simp del]

definition next_power_of_two :: "nat \<Rightarrow> nat" where
  "next_power_of_two n = next_power_of_two_from 1 n"

definition div_ceil :: "nat \<Rightarrow> nat \<Rightarrow> nat option" where
  "div_ceil a b = (if b = 0 then None else Some (a div b + (if a mod b = 0 then 0 else 1)))"

definition for_num_buckets :: "pir_lib \<Rightarrow> u32 \<Rightarrow> u32 \<Rightarrow> u32 \<Rightarrow> u32 \<Rightarrow> value_codec \<Rightarrow> backend
    \<Rightarrow> geom_error + geometry" where
  "for_num_buckets lib num_buckets arity bucket_size fingerprint_bits c backend =
     (if \<not> (2 \<le> arity \<and> arity \<le> 4) then Inl (InvalidArity arity)
      else if bucket_size = 0 then Inl InvalidBucketSize
      else if fingerprint_bits = 0 \<or> value_bits c = 0 then Inl InvalidFieldWidth
      else if num_buckets = 0 \<or> num_buckets mod arity \<noteq> 0 then Inl (InvalidNumBuckets num_buckets)
      else Inr \<lparr> geom_arity = arity, geom_num_buckets = num_buckets, geom_bucket_size = bucket_size,
                 geom_fingerprint_bits = fingerprint_bits, geom_value_bits = value_bits c,
                 geom_plaintext_bits =
                   (case backend of
                      Frodo \<Rightarrow> frodo_max_plaintext_bits lib arity (num_buckets div arity) bucket_size
                                 fingerprint_bits (value_bits c)
                    | Simple \<Rightarrow> simple_max_plaintext_bits lib arity (num_buckets div arity) bucket_size
                                 fingerprint_bits (value_bits c) (simple_default_sigma lib)) \<rparr>)"

text \<open>The \<open>match arity\<close> of \<open>for_accounts\<close>: the number of buckets, a power of two for
  arity 2 and 4, three segments of a power of two each for arity 3.\<close>

definition round_up_buckets :: "u32 \<Rightarrow> nat \<Rightarrow> geom_error + nat" where
  "round_up_buckets arity needed =
     (if arity = 2 \<or> arity = 4 then Inr (next_power_of_two (max needed (unat arity)))
      else if arity = 3
        then Inr (next_power_of_two (max (needed div 3 + (if needed mod 3 = 0 then 0 else 1)) 1) * 3)
      else Inl (InvalidArity arity))"

definition for_accounts :: "pir_lib \<Rightarrow> u64 \<Rightarrow> u32 \<Rightarrow> u32 \<Rightarrow> u32 \<Rightarrow> value_codec \<Rightarrow> backend
    \<Rightarrow> (geom_error + geometry) option" where
  "for_accounts lib accounts arity bucket_size fingerprint_bits c backend =
     (if bucket_size = 0 then Some (Inl InvalidBucketSize)
      else if fingerprint_bits = 0 \<or> value_bits c = 0 then Some (Inl InvalidFieldWidth)
      else
        let (target_num, target_den) = effective_target_load lib arity bucket_size in
        Option.bind (div_ceil (unat accounts * target_den) (unat bucket_size * target_num)) (\<lambda>needed.
        Some (and_then (round_up_buckets arity needed) (\<lambda>n.
          if n < 2 ^ 32
          then for_num_buckets lib (of_nat n) arity bucket_size fingerprint_bits c backend
          else Inl TooManyAccounts))))"

section \<open>Sizes\<close>

text \<open>\<open>(f64::from(n) / f64::from(w)).sqrt().round().max(1.0) as u32\<close>: the largest \<open>k\<close>
  with \<open>(2 * k - 1)\<^sup>2 * w \<le> 4 * n\<close>, and at least 1.\<close>

function reshape_k_from :: "nat \<Rightarrow> nat \<Rightarrow> nat \<Rightarrow> nat" where
  "reshape_k_from k n w =
     (if w = 0 \<or> 4 * n < (2 * k + 1) * (2 * k + 1) * w then k else reshape_k_from (Suc k) n w)"
  by auto
termination
proof (relation "measure (\<lambda>(k, n, w). 4 * n + 1 - k)")
  fix k n w :: nat
  assume a: "\<not> (w = 0 \<or> 4 * n < (2 * k + 1) * (2 * k + 1) * w)"
  have "k < (2 * k + 1) * (2 * k + 1)" by (simp add: algebra_simps)
  also have "\<dots> \<le> (2 * k + 1) * (2 * k + 1) * w" using a by (cases w) auto
  also have "\<dots> \<le> 4 * n" using a by simp
  finally show "((Suc k, n, w), k, n, w) \<in> measure (\<lambda>(k, n, w). 4 * n + 1 - k)" by simp
qed simp

declare reshape_k_from.simps [simp del]

definition reshape_k :: "u32 \<Rightarrow> u32 \<Rightarrow> u32" where
  "reshape_k n w = (if w = 0 then (if n = 0 then 1 else - 1)
     else of_nat (max 1 (reshape_k_from 0 (unat n) (unat w))))"

definition div_ceil_u :: "'a::len word \<Rightarrow> 'a word \<Rightarrow> 'a word option" where
  "div_ceil_u a b = map_option of_nat (div_ceil (unat a) (unat b))"

definition reshape_dims :: "u32 \<Rightarrow> u32 \<Rightarrow> (u32 \<times> u32 \<times> u32) option" where
  "reshape_dims n_rows row_width =
     Option.bind (div_ceil_u n_rows (reshape_k n_rows row_width)) (\<lambda>reshape_rows.
     Option.bind (checked_mul_u (reshape_k n_rows row_width) row_width) (\<lambda>reshape_row_width.
     Some (reshape_k n_rows row_width, reshape_rows, reshape_row_width)))"

definition geometry_sizes :: "pir_lib \<Rightarrow> geometry \<Rightarrow> backend \<Rightarrow> sizes option" where
  "geometry_sizes lib g backend =
     Option.bind (checked_add_u (geom_fingerprint_bits g) (geom_value_bits g)) (\<lambda>bits.
     Option.bind (div_ceil_u bits (geom_plaintext_bits g)) (\<lambda>cells.
     Option.bind (checked_mul_u (geom_bucket_size g) cells) (\<lambda>width.
     if geom_arity g = 0 then None else
     let rows = geom_num_buckets g div geom_arity g;
         slots = (ucast (geom_num_buckets g) :: u64) * ucast (geom_bucket_size g) in
     Option.bind (checked_mul_u (ucast (geom_num_buckets g) :: u64) (ucast (geom_bucket_size g))) (\<lambda>v.
     Option.bind (checked_mul_u v (ucast cells)) (\<lambda>v.
     Option.bind (checked_mul_u v 4) (\<lambda>db.
     case backend of
       Frodo \<Rightarrow>
         Some \<lparr> size_cells_per_slot = cells, size_row_width = width, size_segment_rows = rows,
                size_k = 0, size_reshape_rows = 0, size_reshape_row_width = 0,
                size_hint_per_segment = ucast (frodo_lwe_dim lib) * ucast width * 4,
                size_query_per_segment = ucast rows * 4, size_response_per_segment = ucast width * 4,
                size_a_per_segment = ucast rows * ucast (frodo_lwe_dim lib) * 4,
                size_server_db = db, size_slots = slots \<rparr>
     | Simple \<Rightarrow>
         Option.bind (reshape_dims rows width) (\<lambda>(k, r, c).
         Some \<lparr> size_cells_per_slot = cells, size_row_width = width, size_segment_rows = rows,
                size_k = k, size_reshape_rows = r, size_reshape_row_width = c,
                size_hint_per_segment = ucast (simple_lwe_dim lib) * ucast c * 4,
                size_query_per_segment = ucast r * 4, size_response_per_segment = ucast c * 4,
                size_a_per_segment = ucast r * ucast (simple_lwe_dim lib) * 4,
                size_server_db = db, size_slots = slots \<rparr>)))))))"

section \<open>The load target\<close>

lemma next_power_of_two_from_pow:
  "\<exists>j. next_power_of_two_from p n = p * 2 ^ j"
proof (induction p n rule: next_power_of_two_from.induct)
  case (1 p n)
  show ?case
  proof (cases "p = 0 \<or> n \<le> p")
    case True
    then show ?thesis using next_power_of_two_from.simps[of p n] by (auto intro: exI[of _ 0])
  next
    case False
    with 1 obtain j where "next_power_of_two_from (2 * p) n = 2 * p * 2 ^ j" by auto
    then have "next_power_of_two_from p n = p * 2 ^ Suc j"
      using False next_power_of_two_from.simps[of p n] by simp
    then show ?thesis by blast
  qed
qed

lemma next_power_of_two_from_ge: "0 < p \<Longrightarrow> n \<le> next_power_of_two_from p n"
proof (induction p n rule: next_power_of_two_from.induct)
  case (1 p n)
  then show ?case using next_power_of_two_from.simps[of p n] by auto
qed

lemma next_power_of_two_pow: "\<exists>j. next_power_of_two n = 2 ^ j"
  using next_power_of_two_from_pow[of 1 n] by (simp add: next_power_of_two_def)

lemma next_power_of_two_ge: "n \<le> next_power_of_two n"
  by (simp add: next_power_of_two_def next_power_of_two_from_ge)

lemma div_ceil_Some: "div_ceil a b = Some q \<Longrightarrow> a \<le> q * b"
proof -
  assume "div_ceil a b = Some q"
  then have b: "0 < b" and q: "q = a div b + (if a mod b = 0 then 0 else 1)"
    by (auto simp: div_ceil_def split: if_splits)
  show ?thesis
  proof (cases "a mod b = 0")
    case True
    then show ?thesis unfolding q by (auto simp: dvd_eq_mod_eq_0[symmetric])
  next
    case False
    have "a mod b \<le> b" using b by (simp add: less_imp_le)
    then have "a div b * b + a mod b \<le> a div b * b + b" by (rule add_left_mono)
    also have "a div b * b + b = q * b" using False unfolding q by simp
    finally show ?thesis by simp
  qed
qed

lemma pow2_mod_small:
  assumes "(2::nat) ^ i \<le> 2 ^ j" shows "(2::nat) ^ j mod 2 ^ i = 0"
  using assms by (simp add: dvd_imp_mod_0 le_imp_power_dvd)

lemma round_up_buckets_ok:
  assumes "round_up_buckets arity needed = Inr n"
  shows "arity = 2 \<or> arity = 3 \<or> arity = 4" and "needed \<le> n" and "0 < n"
    and "\<exists>j. n = unat arity * 2 ^ j"
proof -
  show a: "arity = 2 \<or> arity = 3 \<or> arity = 4"
    using assms by (auto simp: round_up_buckets_def split: if_splits)
  have "needed \<le> n \<and> 0 < n \<and> (\<exists>j. n = unat arity * 2 ^ j)"
  proof (cases "arity = 3")
    case True
    let ?s = "max (needed div 3 + (if needed mod 3 = 0 then 0 else 1)) 1"
    have n: "n = next_power_of_two ?s * 3" using assms True by (simp add: round_up_buckets_def)
    have "needed \<le> ?s * 3" by presburger
    also have "\<dots> \<le> n" unfolding n using next_power_of_two_ge[of ?s] by simp
    finally have "needed \<le> n" .
    moreover have "0 < n" unfolding n using next_power_of_two_ge[of ?s] by linarith
    ultimately show ?thesis using n True next_power_of_two_pow[of ?s] by auto
  next
    case False
    then have n: "n = next_power_of_two (max needed (unat arity))" and a2: "arity = 2 \<or> arity = 4"
      using assms a by (auto simp: round_up_buckets_def)
    obtain j where j: "n = 2 ^ j" using next_power_of_two_pow n by blast
    have ge: "max needed (unat arity) \<le> n" unfolding n by (rule next_power_of_two_ge)
    obtain i where i: "unat arity = 2 ^ i"
      using a2 by (auto intro: that[of 1] that[of 2])
    have ij: "i \<le> j" using ge j i by (metis max.boundedE one_less_numeral_iff power_increasing_iff semiring_norm(76))
    then have "n = unat arity * 2 ^ (j - i)" using j i by (simp flip: power_add)
    moreover have "0 < n" using j by simp
    ultimately show ?thesis using ge by auto
  qed
  then show "needed \<le> n" "0 < n" "\<exists>j. n = unat arity * 2 ^ j" by auto
qed

lemma for_num_buckets_Inr_iff:
  "for_num_buckets lib n a b f c backend = Inr g \<longleftrightarrow>
    2 \<le> a \<and> a \<le> 4 \<and> b \<noteq> 0 \<and> f \<noteq> 0 \<and> value_bits c \<noteq> 0 \<and> n \<noteq> 0 \<and> n mod a = 0 \<and>
    g = \<lparr> geom_arity = a, geom_num_buckets = n, geom_bucket_size = b,
          geom_fingerprint_bits = f, geom_value_bits = value_bits c,
          geom_plaintext_bits =
            (case backend of
               Frodo \<Rightarrow> frodo_max_plaintext_bits lib a (n div a) b f (value_bits c)
             | Simple \<Rightarrow> simple_max_plaintext_bits lib a (n div a) b f (value_bits c)
                          (simple_default_sigma lib)) \<rparr>"
  by (auto simp: for_num_buckets_def)


lemma effective_target_load_le: "effective_target_load lib a b = (t, d) \<Longrightarrow> d = 10000 \<and> t \<le> 9000"
  by (auto simp: effective_target_load_def global_target_num_def target_den_def split: option.splits)

lemma for_accounts_InrD:
  assumes "for_accounts lib accounts a b f c backend = Some (Inr g)"
    and "effective_target_load lib a b = (t, d)"
  obtains n j where "unat n = unat a * 2 ^ j" "a = 2 \<or> a = 3 \<or> a = 4"
    "unat accounts * d \<le> unat n * unat b * t"
    "for_num_buckets lib n a b f c backend = Inr g"
proof -
  from assms obtain needed m where
    q: "div_ceil (unat accounts * d) (unat b * t) = Some needed"
    and m: "round_up_buckets a needed = Inr m" "m < 2 ^ 32"
    and g: "for_num_buckets lib (of_nat m) a b f c backend = Inr g"
    by (auto simp: for_accounts_def Let_def bind_eq_Some_conv split: if_splits)
  note r = round_up_buckets_ok[OF m(1)]
  have u: "unat (of_nat m :: u32) = m"
    using m(2) by (simp add: unat_of_nat take_bit_nat_eq_self)
  obtain j where "m = unat a * 2 ^ j" using r(4) by blast
  moreover have "unat accounts * d \<le> m * unat b * t"
    using div_ceil_Some[OF q] r(2) by (metis (no_types, lifting) mult.assoc mult_le_mono1 order_trans)
  ultimately show thesis using that[of "of_nat m" j] r(1) g u by simp
qed

text \<open>Every cell of the unreshaped matrix has a place in the reshaped one.\<close>

lemma div_ceil_u_Some:
  assumes "div_ceil_u a b = Some (q :: 'a::len word)"
  shows "b \<noteq> 0" and "unat a \<le> unat q * unat b"
proof -
  from assms obtain m where m: "div_ceil (unat a) (unat b) = Some m" and q: "q = of_nat m"
    by (auto simp: div_ceil_u_def)
  then show b: "b \<noteq> 0" by (auto simp: div_ceil_def)
  have "m \<le> unat a"
  proof -
    have "m = unat a div unat b + (if unat a mod unat b = 0 then 0 else 1)"
      using m by (auto simp: div_ceil_def split: if_splits)
    moreover have "unat a div unat b + (if unat a mod unat b = 0 then 0 else 1) \<le> unat a"
    proof (cases "unat b = 1")
      case False
      then have "2 \<le> unat b" using b by (metis One_nat_def Suc_leI le_neq_implies_less not_gr_zero numeral_2_eq_2 unat_eq_zero)
      then have "unat a div unat b \<le> unat a div 2" by (simp add: div_le_mono2)
      then show ?thesis
        by (cases "unat a = 0") (auto, (metis div_less_dividend le_neq_implies_less less_imp_le_nat One_nat_def Suc_leI neq0_conv \<open>2 \<le> unat b\<close> less_le_trans one_less_numeral_iff semiring_norm(76))?)
    qed simp
    ultimately show ?thesis by simp
  qed
  then have "m < 2 ^ LENGTH('a)"
    using unsigned_less[of a, where 'a = nat] by linarith
  then have "unat q = m" unfolding q by (simp add: unat_of_nat)
  then show "unat a \<le> unat q * unat b" using div_ceil_Some[OF m] by simp
qed


lemma reshape_dims_covers:
  assumes "reshape_dims n w = Some (k, r, c)" and "row < n" and "unat off < unat w"
  shows "k \<noteq> 0" and "row div k < r" and "unat (row mod k) * unat w + unat off < unat c"
    and "unat c = unat k * unat w"
proof -
  from assms(1) have k: "k = reshape_k n w" and r: "div_ceil_u n k = Some r"
    and c: "checked_mul_u k w = Some c"
    by (auto simp: reshape_dims_def bind_eq_Some_conv)
  note d = div_ceil_u_Some[OF r]
  show "k \<noteq> 0" by (rule d(1))
  then have k0: "0 < unat k" by (simp add: unat_gt_0)
  have "unat row < unat r * unat k" using assms(2) d(2) by (simp add: word_less_nat_alt)
  then have "unat row div unat k < unat r" using k0 by (simp add: less_mult_imp_div_less)
  then show "row div k < r" by (simp add: word_less_nat_alt unat_div)
  from c show uc: "unat c = unat k * unat w"
    by (auto simp: checked_mul_u_def unat_word_ariths split: if_splits)
  have "unat (row mod k) < unat k" using k0 by (simp add: unat_mod)
  then have "Suc (unat (row mod k)) * unat w \<le> unat c" unfolding uc by (intro mult_le_mono1) simp
  then show "unat (row mod k) * unat w + unat off < unat c" using assms(3) by simp
qed

section \<open>Properties\<close>

text \<open>The geometry chosen for a number of accounts holds them under the target load: the number
  of buckets is the arity times a power of two (so segments are equal and a power of two), the
  slots times the target load are at least the accounts, and the parameters are the requested ones.\<close>

theorem for_accounts_meets_target:
  assumes "for_accounts lib accounts a b f c backend = Some (Inr g)"
    and "effective_target_load lib a b = (t, d)"
  shows "unat accounts * d \<le> unat (geom_num_buckets g) * unat (geom_bucket_size g) * t \<and>
    (\<exists>j. unat (geom_num_buckets g) = unat (geom_arity g) * 2 ^ j) \<and>
    geom_num_buckets g mod geom_arity g = 0 \<and>
    geom_arity g = a \<and> geom_bucket_size g = b \<and> geom_value_bits g = value_bits c"
proof -
  from for_accounts_InrD[OF assms] obtain n j where n: "unat n = unat a * 2 ^ j"
    "unat accounts * d \<le> unat n * unat b * t" "for_num_buckets lib n a b f c backend = Inr g" by metis
  from n(3) show ?thesis using n(1,2) unfolding for_num_buckets_Inr_iff by auto
qed

definition example_lib :: pir_lib where
  "example_lib = \<lparr> max_load_hundredths = [[50, 85], [80, 97]],
     frodo_max_plaintext_bits = (\<lambda>_ _ _ _ _. 7), simple_max_plaintext_bits = (\<lambda>_ _ _ _ _ _. 8),
     simple_default_sigma = 6, frodo_lwe_dim = 1566, simple_lwe_dim = 1275 \<rparr>"

lemma for_accounts_meets_target_witness:
  "\<exists>g. for_accounts example_lib 10 3 2 32 example_codec Simple = Some (Inr g) \<and>
    10 * 10000 \<le> unat (geom_num_buckets g) * unat (geom_bucket_size g) * 9000"
proof -
  have load: "effective_target_load example_lib 3 2 = (9000, 10000)"
    by (simp add: effective_target_load_def max_load_factor_hundredths_def example_lib_def get_def
        global_target_num_def safety_margin_num_def target_den_def)
  have "\<exists>g. for_accounts example_lib 10 3 2 32 example_codec Simple = Some (Inr g)"
    by (simp add: for_accounts_def load div_ceil_def round_up_buckets_def next_power_of_two_def
        next_power_of_two_from.simps for_num_buckets_def example_codec_def value_bits_def)
  then obtain g where g: "for_accounts example_lib 10 3 2 32 example_codec Simple = Some (Inr g)" by blast
  from for_accounts_meets_target[OF g load] g show ?thesis by (auto simp: mult.commute)
qed

text \<open>The reshape of SimplePIR has a place for every cell of the segment: for every row and
  offset the reshaped row and column are in range, so no query or patch indexes out of bounds.\<close>

theorem reshape_covers_segment:
  assumes "reshape_dims n w = Some (k, r, c)" and "row < n" and "unat (off :: u16) < unat w"
  shows "k \<noteq> 0 \<and> row div k < r \<and> unat (row mod k) * unat w + unat off < unat c \<and>
    unat c = unat k * unat w"
  using reshape_dims_covers[OF assms] by blast

lemma reshape_covers_segment_witness:
  "(8 :: u32) div 2 < 5 \<and> unat (8 mod 2 :: u32) * unat (2 :: u32) + unat (1 :: u16) < unat (4 :: u32)"
proof -
  have "reshape_dims 9 2 = Some (2, 5, 4)"
    by (simp add: reshape_dims_def reshape_k_def reshape_k_from.simps div_ceil_u_def div_ceil_def
        checked_mul_u_def)
  from reshape_covers_segment[OF this, of 8 1] show ?thesis by simp
qed

end
