(* ===== verification/Rewind.thy ===== *)
theory Rewind
  imports Pending_Delta Geometry
begin

text \<open>
  Model of \<open>crates/risepir-client/src/rewind.rs\<close>: the index mapping of the response
  rewind, \<open>resp -= q\<^sup>T \<Delta>\<close> modulo \<open>2 ^ 32\<close>, for the two shipped backends.

  The interface is the locale \<open>response_rewind\<close>: a backend stores the cell
  \<open>(row, offset)\<close> of a segment at one place \<open>(R, C)\<close> of the matrix its queries are
  multiplied with, and \<open>loc\<close> computes that place.  Its one theorem,
  \<open>rewind_exact\<close>: rewinding the honest response over the database after a
  delta gives, bit for bit, the honest response over the database before it.
  The interpretations are the code's two mappings: FrodoPIR (no reshape) and
  SimplePIR (reshape by \<open>k\<close>).
\<close>

section \<open>The two implementations\<close>

text \<open>The loop both implementations share: \<open>resp.a[C] -= q.b[R] * (d as u32)\<close>, indexing
  out of range being a panic.\<close>

fun rewind_loop :: "(u32 \<Rightarrow> u16 \<Rightarrow> (nat \<times> nat) option) \<Rightarrow> u32 list \<Rightarrow> u32 list \<Rightarrow> pending_map
    \<Rightarrow> u32 list option" where
  "rewind_loop loc b a [] = Some a"
| "rewind_loop loc b a (((row, off), d) # deltas) =
     (case loc row off of
        None \<Rightarrow> None
      | Some (r, c) \<Rightarrow>
          Option.bind (get b r) (\<lambda>q.
          Option.bind (get a c) (\<lambda>old.
          rewind_loop loc b (a[c := old - q * ucast d]) deltas)))"

definition frodo_loc :: "u32 \<Rightarrow> u16 \<Rightarrow> (nat \<times> nat) option" where
  "frodo_loc row off = Some (unat row, unat off)"

definition simple_loc :: "u32 \<Rightarrow> u32 \<Rightarrow> u32 \<Rightarrow> u16 \<Rightarrow> (nat \<times> nat) option" where
  "simple_loc k row_width row off =
     (if k = 0 then None
      else Some (unat (row div k), unat (row mod k * row_width + ucast off)))"

definition frodo_rewind_response :: "u32 list \<Rightarrow> u32 list \<Rightarrow> pending_map \<Rightarrow> u32 list option" where
  "frodo_rewind_response b a deltas = rewind_loop frodo_loc b a deltas"

definition simple_rewind_response :: "u32 \<Rightarrow> u32 \<Rightarrow> u32 list \<Rightarrow> u32 list \<Rightarrow> pending_map \<Rightarrow> u32 list option" where
  "simple_rewind_response k row_width b a deltas = rewind_loop (simple_loc k row_width) b a deltas"

section \<open>Honest responses\<close>

text \<open>The response a server computes, \<open>q\<^sup>T M\<close> modulo \<open>2 ^ 32\<close>.\<close>

definition vec_mat :: "u32 list \<Rightarrow> (nat \<Rightarrow> nat \<Rightarrow> u32) \<Rightarrow> nat \<Rightarrow> u32 list" where
  "vec_mat b m cols = map (\<lambda>c. \<Sum>r = 0..<length b. b ! r * m r c) [0..<cols]"

definition nat_effect :: "pending_map \<Rightarrow> nat \<Rightarrow> nat \<Rightarrow> int" where
  "nat_effect m row off =
     (if row < 2 ^ 32 \<and> off < 2 ^ 16 then map_effect m (of_nat row) (of_nat off) else 0)"

definition add_delta :: "(nat \<Rightarrow> nat \<Rightarrow> u32) \<Rightarrow> pending_map \<Rightarrow> nat \<Rightarrow> nat \<Rightarrow> u32" where
  "add_delta db m row off = db row off + of_int (nat_effect m row off)"

lemma length_vec_mat [simp]: "length (vec_mat b m cols) = cols"
  by (simp add: vec_mat_def)

lemma vec_mat_cong:
  "(\<And>r c. r < length b \<Longrightarrow> c < cols \<Longrightarrow> m r c = m' r c) \<Longrightarrow> vec_mat b m cols = vec_mat b m' cols"
  by (auto simp: vec_mat_def intro!: sum.cong)

lemma vec_mat_update:
  assumes "\<And>r c. r < length b \<Longrightarrow> c < cols \<Longrightarrow> m' r c = m r c + (if r = R \<and> c = C then x else 0)"
    and "R < length b" and "C < cols"
  shows "(vec_mat b m' cols)[C := vec_mat b m' cols ! C - b ! R * x] = vec_mat b m cols"
proof (rule nth_equalityI)
  fix c assume "c < length ((vec_mat b m' cols)[C := vec_mat b m' cols ! C - b ! R * x])"
  then have c: "c < cols" by simp
  have "(\<Sum>r = 0..<length b. b ! r * m' r c)
      = (\<Sum>r = 0..<length b. b ! r * m r c + (if r = R then (if c = C then b ! R * x else 0) else 0))"
    using assms(1) c by (intro sum.cong) (auto simp: distrib_left)
  also have "\<dots> = (\<Sum>r = 0..<length b. b ! r * m r c) + (if c = C then b ! R * x else 0)"
    using assms(2) by (simp add: sum.distrib)
  finally show "(vec_mat b m' cols)[C := vec_mat b m' cols ! C - b ! R * x] ! c = vec_mat b m cols ! c"
    using c assms(3) by (auto simp: vec_mat_def nth_list_update)
qed simp

lemma scast_u32: "(scast (d :: i64) :: u32) = ucast d"
  by (rule bit_word_eqI) (auto simp: bit_simps)

lemma add_delta_Nil [simp]: "add_delta db [] = db"
  by (intro ext) (simp add: add_delta_def nat_effect_def)

lemma nat_effect_Cons:
  assumes "bt_invar (((row, off), d) # m)"
  shows "nat_effect (((row, off), d) # m) r c =
    nat_effect m r c + (if r = unat row \<and> c = unat off then sint d else 0)"
proof -
  from assms have "(row, off) \<notin> fst ` set m" by (auto simp: bt_invar_Cons)
  then have "map_effect m row off = 0"
    by (simp add: map_effect_def bt_get_or_def map_of_eq_None_iff[THEN iffD2])
  moreover have "map_effect (((row, off), d) # m) r' c' =
      (if r' = row \<and> c' = off then sint d else map_effect m r' c')" for r' c'
    by (simp add: map_effect_def bt_get_or_def)
  moreover have "of_nat r = row \<longleftrightarrow> r = unat row" if "r < 2 ^ 32"
    using that by (auto simp: unat_of_nat)
  moreover have "of_nat c = off \<longleftrightarrow> c = unat off" if "c < 2 ^ 16"
    using that by (auto simp: unat_of_nat)
  moreover have "unat row < 2 ^ 32" "unat off < 2 ^ 16"
    using unsigned_less[of row, where 'a = nat] unsigned_less[of off, where 'a = nat] by simp_all
  ultimately show ?thesis by (auto simp: nat_effect_def)
qed

lemma add_delta_Cons:
  assumes "bt_invar (((row, off), d) # m)"
  shows "add_delta db (((row, off), d) # m) r c =
    add_delta db m r c + (if r = unat row \<and> c = unat off then ucast d else 0)"
  by (simp add: add_delta_def nat_effect_Cons[OF assms] scast_u32)

text \<open>The honest response of a backend that keeps cell \<open>cell_of r c\<close> of the segment
  at place \<open>(r, c)\<close> of its matrix.\<close>

definition honest_response :: "(nat \<Rightarrow> nat \<Rightarrow> nat \<times> nat) \<Rightarrow> nat \<Rightarrow> u32 list \<Rightarrow> (nat \<Rightarrow> nat \<Rightarrow> u32) \<Rightarrow> u32 list" where
  "honest_response cell_of cols b db = vec_mat b (\<lambda>r c. case_prod db (cell_of r c)) cols"

section \<open>The interface\<close>

locale response_rewind =
  fixes loc :: "u32 \<Rightarrow> u16 \<Rightarrow> (nat \<times> nat) option"
    and cell_of :: "nat \<Rightarrow> nat \<Rightarrow> nat \<times> nat"
    and rows :: nat
    and cols :: nat
    and valid :: "u32 \<Rightarrow> u16 \<Rightarrow> bool"
  assumes loc_in_range:
      "valid row off \<Longrightarrow> \<exists>r c. loc row off = Some (r, c) \<and> r < rows \<and> c < cols"
    and loc_iff:
      "valid row off \<Longrightarrow> r < rows \<Longrightarrow> c < cols \<Longrightarrow>
       loc row off = Some (r, c) \<longleftrightarrow> cell_of r c = (unat row, unat off)"
begin

lemma rewind_exact:
  assumes "bt_invar m" and "\<forall>((row, off), _) \<in> set m. valid row off" and "length b = rows"
  shows "rewind_loop loc b (honest_response cell_of cols b (add_delta db m)) m =
    Some (honest_response cell_of cols b db)"
  using assms
proof (induction m)
  case Nil
  then show ?case by simp
next
  case (Cons kv m)
  obtain row off d where kv: "kv = ((row, off), d)" by (metis prod.exhaust)
  have v: "valid row off" using Cons.prems by (auto simp: kv)
  from loc_in_range[OF v] obtain r c where rc: "loc row off = Some (r, c)" "r < rows" "c < cols" by blast
  have upd: "case_prod (add_delta db (kv # m)) (cell_of r' c') =
      case_prod (add_delta db m) (cell_of r' c') + (if r' = r \<and> c' = c then ucast d else 0)"
    if "r' < length b" "c' < cols" for r' c'
    using loc_iff[OF v, of r' c'] that Cons.prems(1,3) rc(1)
    by (auto simp: kv add_delta_Cons split: prod.splits)
  have "rewind_loop loc b (honest_response cell_of cols b (add_delta db (kv # m))) (kv # m)
      = rewind_loop loc b (honest_response cell_of cols b (add_delta db m)) m"
    using vec_mat_update[OF upd] rc Cons.prems(3)
    by (simp add: kv get_def honest_response_def)
  also have "\<dots> = Some (honest_response cell_of cols b db)"
    using Cons.prems by (intro Cons.IH) (auto dest: bt_invar_tl)
  finally show ?case .
qed

end

section \<open>Interpretations\<close>

interpretation frodo: response_rewind frodo_loc "\<lambda>r c. (r, c)" n w "\<lambda>row off. unat row < n \<and> unat off < w"
  for n w :: nat
  by unfold_locales (auto simp: frodo_loc_def)

definition simple_cell_of :: "u32 \<Rightarrow> u32 \<Rightarrow> nat \<Rightarrow> nat \<Rightarrow> nat \<times> nat" where
  "simple_cell_of k w r c = (r * unat k + c div unat w, c mod unat w)"

definition simple_cols :: "u32 \<Rightarrow> u32 \<Rightarrow> nat" where
  "simple_cols k w = (case checked_mul_u k w of None \<Rightarrow> 0 | Some c \<Rightarrow> unat c)"

definition simple_valid :: "u32 \<Rightarrow> u32 \<Rightarrow> nat \<Rightarrow> u32 \<Rightarrow> u16 \<Rightarrow> bool" where
  "simple_valid k w rows row off \<longleftrightarrow>
     k \<noteq> 0 \<and> checked_mul_u k w \<noteq> None \<and> unat (row div k) < rows \<and> unat off < unat w"

lemma simple_loc_valid:
  assumes "simple_valid k w rows row off"
  shows "simple_loc k w row off = Some (unat row div unat k, unat row mod unat k * unat w + unat off)"
    and "simple_cols k w = unat k * unat w" and "0 < unat k" and "0 < unat w"
    and "unat row mod unat k * unat w + unat off < unat k * unat w"
proof -
  have k: "k \<noteq> 0" and off: "unat off < unat w" and fits: "unat k * unat w < 2 ^ 32"
    using assms by (auto simp: simple_valid_def checked_mul_u_def split: if_splits)
  show k0: "0 < unat k" using k by (simp add: unat_gt_0)
  show w0: "0 < unat w" using off by linarith
  have "Suc (unat row mod unat k) * unat w \<le> unat k * unat w"
    using k0 by (intro mult_le_mono1) (simp add: Suc_leI)
  then show lt: "unat row mod unat k * unat w + unat off < unat k * unat w" using off by simp
  have row: "unat row mod unat k < 2 ^ 32"
    using unsigned_less[of row, where 'a = nat] by (simp add: le_less_trans[OF mod_less_eq_dividend])
  have "unat row mod unat k * unat w < 2 ^ 32" using lt fits by simp
  then have "unat (row mod k * w + ucast off) = unat row mod unat k * unat w + unat off"
    using lt fits row by (simp add: unat_word_ariths unat_mod unat_ucast_up)
  then show "simple_loc k w row off = Some (unat row div unat k, unat row mod unat k * unat w + unat off)"
    using k by (simp add: simple_loc_def unat_div)
  show "simple_cols k w = unat k * unat w"
    using fits by (simp add: simple_cols_def checked_mul_u_def unat_word_ariths)
qed

lemma simple_place_iff:
  fixes k w :: nat
  assumes "0 < k" and "0 < w" and "off < w" and "c < k * w"
  shows "row div k = r \<and> row mod k * w + off = c \<longleftrightarrow> r * k + c div w = row \<and> c mod w = off"
proof
  assume "row div k = r \<and> row mod k * w + off = c"
  then show "r * k + c div w = row \<and> c mod w = off" using assms by auto
next
  assume h: "r * k + c div w = row \<and> c mod w = off"
  have "c div w < k" using assms(4) by (simp add: less_mult_imp_div_less)
  then have "row div k = r" "row mod k = c div w" using h by auto
  then show "row div k = r \<and> row mod k * w + off = c" using h by (metis div_mult_mod_eq)
qed

interpretation simple: response_rewind "simple_loc k w" "simple_cell_of k w" rows "simple_cols k w"
    "simple_valid k w rows"
  for k w :: u32 and rows :: nat
proof unfold_locales
  fix row :: u32 and off :: u16
  assume v: "simple_valid k w rows row off"
  then have r: "unat row div unat k < rows" by (simp add: simple_valid_def unat_div)
  show "\<exists>r c. simple_loc k w row off = Some (r, c) \<and> r < rows \<and> c < simple_cols k w"
    using simple_loc_valid[OF v] r by auto
  fix r c assume "r < rows" and c: "c < simple_cols k w"
  have "unat off < unat w" using v by (simp add: simple_valid_def)
  with simple_place_iff[of "unat k" "unat w" "unat off" c "unat row" r] simple_loc_valid[OF v] c
  show "simple_loc k w row off = Some (r, c) \<longleftrightarrow> simple_cell_of k w r c = (unat row, unat off)"
    by (auto simp: simple_cell_of_def)
qed

text \<open>The reshape the geometry chooses makes every cell of the segment valid.\<close>

lemma reshape_valid:
  assumes "reshape_dims n w = Some (k, r, c)" and "row < n" and "unat off < unat w"
  shows "simple_valid k w (unat r) row off" and "simple_cols k w = unat c"
  using reshape_dims_covers[OF assms] assms
  by (auto simp: simple_valid_def simple_cols_def reshape_dims_def bind_eq_Some_conv
      word_less_nat_alt unat_ucast_up)

section \<open>Properties\<close>

text \<open>C20. SimplePIR: rewinding the honest response over the database with a pending delta gives, bit
  for bit, the honest response over the database without it; no index is out of range and all
  arithmetic is modulo \<open>2 ^ 32\<close>.\<close>

theorem simple_rewind_is_exact:
  assumes "bt_invar m" and "\<forall>((row, off), _) \<in> set m. simple_valid k w (length b) row off"
  shows "simple_rewind_response k w b
      (honest_response (simple_cell_of k w) (simple_cols k w) b (add_delta db m)) m =
    Some (honest_response (simple_cell_of k w) (simple_cols k w) b db)"
  using simple.rewind_exact[OF assms refl] by (simp add: simple_rewind_response_def)

definition example_pending :: pending_map where
  "example_pending = [((0, 1), 5), ((3, 1), - 4)]"

definition example_db :: "nat \<Rightarrow> nat \<Rightarrow> u32" where
  "example_db row off = of_nat (10 * row + off)"

lemma example_pending_invar: "bt_invar example_pending" "pending_map_invar example_pending"
  by (auto simp: example_pending_def bt_invar_Cons pending_map_invar_def less_prod_def)

lemma simple_rewind_is_exact_witness:
  "simple_rewind_response 2 2 [7, 9]
      (honest_response (simple_cell_of 2 2) (simple_cols 2 2) [7, 9] (add_delta example_db example_pending))
      example_pending =
    Some (honest_response (simple_cell_of 2 2) (simple_cols 2 2) [7, 9] example_db)"
proof (rule simple_rewind_is_exact)
  show "bt_invar example_pending" by (rule example_pending_invar)
  show "\<forall>((row, off), _) \<in> set example_pending. simple_valid 2 2 (length [7, 9 :: u32]) row off"
    by (simp add: example_pending_def simple_valid_def checked_mul_u_def unat_div)
qed

text \<open>FrodoPIR: the same identity without a reshape.\<close>

theorem frodo_rewind_is_exact:
  assumes "bt_invar m" and "\<forall>((row, off), _) \<in> set m. unat row < length b \<and> unat off < w"
  shows "frodo_rewind_response b (honest_response (\<lambda>r c. (r, c)) w b (add_delta db m)) m =
    Some (honest_response (\<lambda>r c. (r, c)) w b db)"
  using frodo.rewind_exact[OF assms refl] by (simp add: frodo_rewind_response_def)

lemma frodo_rewind_is_exact_witness:
  "frodo_rewind_response [7, 9, 1, 4]
      (honest_response (\<lambda>r c. (r, c)) 2 [7, 9, 1, 4] (add_delta example_db example_pending)) example_pending =
    Some (honest_response (\<lambda>r c. (r, c)) 2 [7, 9, 1, 4] example_db)"
  by (rule frodo_rewind_is_exact) (simp_all add: example_pending_invar, simp add: example_pending_def)

end
