(* ===== verification/Cuckoo.thy ===== *)
theory Cuckoo
  imports Block_Delta
begin

text \<open>
  What the code uses of the external crate \<open>segmented_cuckoo\<close>: the public parameters
  of the table with the functions computed from them (candidate buckets, the cells
  of a slot, packing and unpacking a slot), one entry of the store's mutation log,
  and the store's operations over an abstract state.  Every field is an argument of
  the model; none is defined here.
\<close>

record cuckoo_params =
  cp_arity :: nat
  cp_segment_size :: u32
  cp_bucket_size :: u32
  cp_cells_per_slot :: u32
  cp_value_size :: nat
  cp_plaintext_bits :: u32
  cp_candidate_buckets :: "address_hash \<Rightarrow> u64 \<times> u32 list"
  cp_slot_cell_range :: "u32 \<Rightarrow> u32 \<Rightarrow> nat \<times> nat"        \<comment> \<open>start and end\<close>
  cp_unpack_slot :: "u32 list \<Rightarrow> u64 \<times> bytes"
  cp_pack_slot :: "u64 \<Rightarrow> u32 list \<Rightarrow> u32 list"

record slot_mutation =
  mut_bucket :: u32
  mut_slot :: nat
  old_fingerprint :: u64
  old_value_cells :: "u32 list"
  new_fingerprint :: u64
  new_value_cells :: "u32 list"

datatype cuckoo_error = CuckooTableFull | CuckooInvalidParams string | CuckooNotFound

record 's store_ops =
  so_cells :: "'s \<Rightarrow> u32 list"
  so_num_items :: "'s \<Rightarrow> u64"
  so_update :: "'s \<Rightarrow> address_hash \<Rightarrow> bytes \<Rightarrow> (cuckoo_error + unit) \<times> 's"
  so_insert :: "'s \<Rightarrow> address_hash \<Rightarrow> bytes \<Rightarrow> (cuckoo_error + unit) \<times> 's"
  so_delete :: "'s \<Rightarrow> address_hash \<Rightarrow> (cuckoo_error + unit) \<times> 's"
  so_enable_log :: "'s \<Rightarrow> 's"
  so_drain :: "'s \<Rightarrow> slot_mutation list \<times> 's"

end
