(* ===== verification/Client.thy ===== *)
theory Client
  imports Rewind Cuckoo
begin

text \<open>
  Model of \<open>crates/risepir-client/src/client.rs\<close>: the response-rewind client.

  A PIR backend is the record \<open>pir_backend\<close>; its rewind is the code of
  \<open>rewind.rs\<close> (\<open>frodo_client\<close>, \<open>simple_client\<close>), its other operations
  belong to the external crate \<open>ikpir_common\<close> and are arguments.  The table
  parameters and the slot unpacking of \<open>segmented_cuckoo\<close> are the record
  \<open>cuckoo_params\<close> of theory \<open>Cuckoo\<close>.  \<open>None\<close> is a panic; an error is \<open>Inl\<close>.

  The lemmas describe \<open>finish\<close> on every path: its guards in order, the range
  check of every corrected cell, the joint branchless scan
  (\<open>finish_scan\<close>), and its answer when the response is the honest one over
  the database at the head.
\<close>

section \<open>Parameters and state\<close>

record ('p, 'h, 'st) pir_backend =
  be_setup :: "'p \<Rightarrow> 'h \<Rightarrow> 'st"
  be_query :: "'st \<Rightarrow> u32 \<Rightarrow> 'st \<times> u32 list"
  be_decode :: "'st \<Rightarrow> u32 list \<Rightarrow> u32 list"
  be_patch :: "'st \<Rightarrow> segment_row_deltas \<Rightarrow> 'st"
  be_rewind :: "'st \<Rightarrow> u32 list \<Rightarrow> u32 list \<Rightarrow> pending_map \<Rightarrow> u32 list option"

definition frodo_client :: "('p, 'h, 'st) pir_backend \<Rightarrow> ('p, 'h, 'st) pir_backend" where
  "frodo_client be = be\<lparr>be_rewind := (\<lambda>_. frodo_rewind_response)\<rparr>"

definition simple_client :: "('st \<Rightarrow> u32 \<times> u32) \<Rightarrow> ('p, 'h, 'st) pir_backend \<Rightarrow> ('p, 'h, 'st) pir_backend" where
  "simple_client reshape be =
     be\<lparr>be_rewind := (\<lambda>st. simple_rewind_response (fst (reshape st)) (snd (reshape st)))\<rparr>"

record query_ctx =
  ctx_queries :: "u32 list list"
  ctx_rows :: "u32 list"

record ('p, 'h) setup_bundle =
  sb_params :: cuckoo_params
  sb_backend_params :: "'p list"
  sb_hints :: "'h list"
  sb_block :: u64

record 'st rise_client =
  rc_params :: cuckoo_params
  rc_states :: "'st list"
  rc_pinned_block :: u64
  rc_delta :: pending_delta
  rc_value_codec :: value_codec

section \<open>Setup, ingestion, garbage collection\<close>

definition from_setup :: "('p, 'h, 'st) pir_backend \<Rightarrow> ('p, 'h) setup_bundle \<Rightarrow> value_codec \<Rightarrow> 'st rise_client" where
  "from_setup be bundle vc =
     \<lparr> rc_params = sb_params bundle,
       rc_states = map (\<lambda>(p, h). be_setup be p h) (zip (sb_backend_params bundle) (sb_hints bundle)),
       rc_pinned_block = sb_block bundle,
       rc_delta = pending_new (cp_arity (sb_params bundle)) (sb_block bundle),
       rc_value_codec = vc \<rparr>"

definition ingest_delta :: "'st rise_client \<Rightarrow> block_delta \<Rightarrow> (client_error + unit) \<times> 'st rise_client" where
  "ingest_delta c d = (case ingest (rc_delta c) d of (r, p) \<Rightarrow> (r, c\<lparr>rc_delta := p\<rparr>))"

definition delta_cells_count :: "'st rise_client \<Rightarrow> nat" where
  "delta_cells_count c = pending_cells (rc_delta c)"

fun patch_states :: "('p, 'h, 'st) pir_backend \<Rightarrow> pending_delta \<Rightarrow> nat \<Rightarrow> 'st list \<Rightarrow> 'st list option" where
  "patch_states be p j [] = Some []"
| "patch_states be p j (st # sts) =
     Option.bind (as_row_deltas p j) (\<lambda>row_deltas.
     Option.bind (patch_states be p (Suc j) sts) (\<lambda>sts'.
     Some ((if row_deltas \<noteq> [] then be_patch be st row_deltas else st) # sts')))"

definition collect_garbage :: "('p, 'h, 'st) pir_backend \<Rightarrow> 'st rise_client \<Rightarrow> u64
    \<Rightarrow> ((client_error + unit) \<times> 'st rise_client) option" where
  "collect_garbage be c up_to =
     (let pending_head = pd_head (rc_delta c) in
      if up_to \<noteq> pending_head then Some (Inl (GcTargetMismatch pending_head up_to), c)
      else if up_to = rc_pinned_block c then Some (Inr (), c)
      else
        Option.bind (patch_states be (rc_delta c) 0 (rc_states c)) (\<lambda>sts.
        Some (Inr (), c\<lparr>rc_states := sts, rc_pinned_block := up_to,
                        rc_delta := pending_new (length sts) up_to\<rparr>)))"

section \<open>Queries\<close>

fun query_segments :: "('p, 'h, 'st) pir_backend \<Rightarrow> u32 list \<Rightarrow> u32 \<Rightarrow> nat \<Rightarrow> nat \<Rightarrow> 'st list
    \<Rightarrow> ('st list \<times> u32 list list \<times> u32 list) option" where
  "query_segments be indices segment_size j 0 sts = Some (sts, [], [])"
| "query_segments be indices segment_size j (Suc n) sts =
     Option.bind (get indices j) (\<lambda>index.
     Option.bind (get sts j) (\<lambda>st.
     if segment_size = 0 then None else
     let row = index mod segment_size; (st', q) = be_query be st row in
     Option.bind (query_segments be indices segment_size (Suc j) n (sts[j := st'])) (\<lambda>(sts', qs, rows).
     Some (sts', q # qs, row # rows))))"

definition build_query :: "('p, 'h, 'st) pir_backend \<Rightarrow> 'st rise_client \<Rightarrow> address_hash
    \<Rightarrow> (u32 list list \<times> query_ctx \<times> 'st rise_client) option" where
  "build_query be c key =
     (let (fp, indices) = cp_candidate_buckets (rc_params c) key in
      map_option (\<lambda>(sts, qs, rows). (qs, \<lparr> ctx_queries = qs, ctx_rows = rows \<rparr>, c\<lparr>rc_states := sts\<rparr>))
        (query_segments be indices (cp_segment_size (rc_params c)) 0 (cp_arity (rc_params c)) (rc_states c)))"

section \<open>Finishing a lookup\<close>

definition ct_eq_u64_mask :: "u64 \<Rightarrow> u64 \<Rightarrow> u64" where
  "ct_eq_u64_mask a b = (let x = a XOR b in drop_bit 63 (x OR (- x)) - 1)"

text \<open>Step 4 on the queried row: every corrected cell is range checked.\<close>

fun apply_row_deltas :: "nat \<Rightarrow> u32 \<Rightarrow> i64 \<Rightarrow> cell_edits \<Rightarrow> u32 list \<Rightarrow> client_error + u32 list" where
  "apply_row_deltas j row bound [] cells = Inr cells"
| "apply_row_deltas j row bound ((offset, cell_delta) # ds) cells =
     (let idx = unat offset in
      if idx \<ge> length cells then Inl (CellOutOfRange j row offset)
      else
        let corrected = ucast (cells ! idx) + cell_delta in
        if sint corrected < 0 \<or> sint corrected \<ge> sint bound then Inl (CellOutOfRange j row offset)
        else apply_row_deltas j row bound ds (cells[idx := ucast corrected]))"

fun or_masked :: "u8 \<Rightarrow> bytes \<Rightarrow> bytes \<Rightarrow> bytes" where
  "or_masked m (a # acc) (v # vs) = (a OR (m AND v)) # or_masked m acc vs"
| "or_masked m acc vs = acc"

text \<open>Step 5: the joint mask of one slot, and the loop over the slots of a bucket.\<close>

definition scan_slot :: "cuckoo_params \<Rightarrow> value_codec \<Rightarrow> u64 \<Rightarrow> u64 \<Rightarrow> u32 list \<Rightarrow> nat
    \<Rightarrow> bytes \<times> u64 \<Rightarrow> (bytes \<times> u64) option" where
  "scan_slot cp vc fp tag cells s st =
     (let cps = unat (cp_cells_per_slot cp); (acc, found_mask) = st in
      Option.bind (get_range cells (s * cps) cps) (\<lambda>slot.
      let (decoded_fp, value_bytes) = cp_unpack_slot cp slot in
      Option.bind (extract_key_tag vc value_bytes) (\<lambda>slot_tag.
      let mask = ct_eq_u64_mask decoded_fp fp AND ct_eq_u64_mask slot_tag tag;
          mask8 = ucast (mask AND 0xFF) in
      Some (or_masked mask8 acc value_bytes, found_mask OR mask))))"

fun scan_slots :: "cuckoo_params \<Rightarrow> value_codec \<Rightarrow> u64 \<Rightarrow> u64 \<Rightarrow> u32 list \<Rightarrow> nat \<Rightarrow> nat
    \<Rightarrow> bytes \<times> u64 \<Rightarrow> (bytes \<times> u64) option" where
  "scan_slots cp vc fp tag cells s 0 st = Some st"
| "scan_slots cp vc fp tag cells s (Suc n) st =
     Option.bind (scan_slot cp vc fp tag cells s st) (scan_slots cp vc fp tag cells (Suc s) n)"

definition finish_segment :: "('p, 'h, 'st) pir_backend \<Rightarrow> 'st rise_client \<Rightarrow> query_ctx \<Rightarrow> u32 list list
    \<Rightarrow> u64 \<Rightarrow> u64 \<Rightarrow> nat \<Rightarrow> bytes \<times> u64 \<Rightarrow> (client_error + bytes \<times> u64) option" where
  "finish_segment be c ctx resp fp tag j st =
     (let cp = rc_params c;
          plaintext_bound = push_bit (unat (cp_plaintext_bits cp) mod 64) 1 in
      Option.bind (get (rc_states c) j) (\<lambda>state.
      Option.bind (get (ctx_queries ctx) j) (\<lambda>query.
      Option.bind (get resp j) (\<lambda>r.
      Option.bind (pending_segment (rc_delta c) j) (\<lambda>deltas.
      Option.bind (be_rewind be state query r deltas) (\<lambda>r'.
      Option.bind (get (ctx_rows ctx) j) (\<lambda>row.
      Option.bind (pending_row (rc_delta c) j row) (\<lambda>row_deltas.
      case apply_row_deltas j row plaintext_bound row_deltas (be_decode be state r') of
        Inl e \<Rightarrow> Some (Inl e)
      | Inr cells \<Rightarrow>
          map_option Inr
            (scan_slots cp (rc_value_codec c) fp tag cells 0 (unat (cp_bucket_size cp)) st)))))))))"

fun finish_segments :: "('p, 'h, 'st) pir_backend \<Rightarrow> 'st rise_client \<Rightarrow> query_ctx \<Rightarrow> u32 list list
    \<Rightarrow> u64 \<Rightarrow> u64 \<Rightarrow> nat \<Rightarrow> nat \<Rightarrow> bytes \<times> u64 \<Rightarrow> (client_error + bytes \<times> u64) option" where
  "finish_segments be c ctx resp fp tag j 0 st = Some (Inr st)"
| "finish_segments be c ctx resp fp tag j (Suc n) st =
     Option.bind (finish_segment be c ctx resp fp tag j st) (\<lambda>r.
     case r of
       Inl e \<Rightarrow> Some (Inl e)
     | Inr st' \<Rightarrow> finish_segments be c ctx resp fp tag (Suc j) n st')"

fun rows_match :: "u32 list \<Rightarrow> u32 list \<Rightarrow> u32 \<Rightarrow> nat \<Rightarrow> nat \<Rightarrow> (client_error + unit) option" where
  "rows_match rows indices segment_size j 0 = Some (Inr ())"
| "rows_match rows indices segment_size j (Suc n) =
     Option.bind (get rows j) (\<lambda>row.
     Option.bind (get indices j) (\<lambda>index.
     if segment_size = 0 then None
     else if row \<noteq> index mod segment_size then Some (Inl KeyContextMismatch)
     else rows_match rows indices segment_size (Suc j) n))"

definition finish :: "(bytes \<Rightarrow> u64 \<Rightarrow> u64) \<Rightarrow> ('p, 'h, 'st) pir_backend \<Rightarrow> 'st rise_client \<Rightarrow> address_hash
    \<Rightarrow> query_ctx \<Rightarrow> u32 list list \<Rightarrow> u64 \<Rightarrow> (client_error + lookup) option" where
  "finish xxh be c key ctx resp at_block =
     (let arity = cp_arity (rc_params c) in
      if length resp \<noteq> arity \<or> length (ctx_queries ctx) \<noteq> arity \<or> length (ctx_rows ctx) \<noteq> arity
      then Some (Inl (MalformedResponse arity (length resp)))
      else if at_block \<noteq> pd_head (rc_delta c)
      then Some (Inl (ResponseBlockMismatch (pd_head (rc_delta c)) at_block))
      else
        let (fp, indices) = cp_candidate_buckets (rc_params c) key in
        Option.bind (rows_match (ctx_rows ctx) indices (cp_segment_size (rc_params c)) 0 arity) (\<lambda>m.
        case m of Inl e \<Rightarrow> Some (Inl e)
        | Inr _ \<Rightarrow>
            Option.bind
              (finish_segments be c ctx resp fp (key_tag xxh (rc_value_codec c) key) 0 arity
                 (replicate (cp_value_size (rc_params c)) 0, 0)) (\<lambda>r.
            case r of Inl e \<Rightarrow> Some (Inl e)
            | Inr (acc, found_mask) \<Rightarrow>
                if found_mask = 0 then Some (Inr NotFound)
                else map_option Inr (decode xxh (rc_value_codec c) key acc))))"

section \<open>The branchless mask\<close>

lemma drop_bit_63: "bit (w :: u64) 63 \<Longrightarrow> drop_bit 63 w = 1"
proof (rule bit_word_eqI)
  fix n assume w: "bit w 63"
  have "bit w (63 + n) \<longleftrightarrow> n = 0"
    using w bit_imp_le_length[of w "63 + n"] by auto
  then show "bit (drop_bit 63 w) n \<longleftrightarrow> bit (1 :: u64) n" by (simp add: bit_simps bit_1_iff)
qed

lemma ct_eq_u64_mask_iff: "ct_eq_u64_mask a b = (if a = b then - 1 else 0)"
proof (cases "a = b")
  case True
  then show ?thesis by (simp add: ct_eq_u64_mask_def)
next
  case False
  let ?x = "a XOR b"
  have nz: "?x \<noteq> 0"
  proof
    assume "?x = 0"
    then have "bit (a XOR b) n = bit (0 :: u64) n" for n by simp
    then have "a = b" by (intro bit_word_eqI) (simp add: bit_simps)
    with False show False ..
  qed
  have "bit (?x OR - ?x) 63"
  proof (cases "bit ?x 63")
    case False
    have "sint ?x \<ge> 0" using False bit_last_iff[of ?x] by simp
    moreover have "sint ?x \<noteq> 0" using nz by (simp only: signed_eq_0_iff not_False_eq_True)
    ultimately have pos: "0 < sint ?x" by simp
    have "- (2 ^ 63) \<le> - sint ?x" using sint_lt[of ?x] by simp
    moreover have "- sint ?x < 2 ^ 63" using pos by simp
    ultimately have "sint (- ?x) = - sint ?x"
      by (simp add: sint_word_ariths signed_take_bit_int_eq_self)
    then have "sint (- ?x) < 0" using pos by simp
    then have "bit (- ?x) 63" using bit_last_iff[of "- ?x"] by simp
    then show ?thesis by (simp add: bit_simps)
  qed (simp add: bit_simps)
  then have "drop_bit 63 (?x OR - ?x) = 1" by (rule drop_bit_63)
  then show ?thesis using False by (simp add: ct_eq_u64_mask_def Let_def)
qed


section \<open>The scan of a bucket\<close>

text \<open>The slots of a bucket, unpacked, and those that match jointly.\<close>

definition bucket_slots :: "cuckoo_params \<Rightarrow> u32 list \<Rightarrow> nat \<Rightarrow> nat \<Rightarrow> (u64 \<times> bytes) list" where
  "bucket_slots cp cells s n =
     map (\<lambda>i. cp_unpack_slot cp (take (unat (cp_cells_per_slot cp)) (drop (i * unat (cp_cells_per_slot cp)) cells)))
       [s..<s + n]"

definition slot_hit :: "value_codec \<Rightarrow> u64 \<Rightarrow> u64 \<Rightarrow> u64 \<times> bytes \<Rightarrow> bool" where
  "slot_hit vc fp tag slot \<longleftrightarrow> fst slot = fp \<and> extract_key_tag vc (snd slot) = Some tag"

definition or_hits :: "bytes \<Rightarrow> bytes list \<Rightarrow> bytes" where
  "or_hits acc vs = foldl (or_masked (- 1)) acc vs"

text \<open>What the scan needs of the cells: enough of them for every slot, and value bytes
  long enough to hold a tag.\<close>

definition scannable :: "cuckoo_params \<Rightarrow> value_codec \<Rightarrow> u32 list \<Rightarrow> bool" where
  "scannable cp vc cells \<longleftrightarrow>
     unat (cp_bucket_size cp) * unat (cp_cells_per_slot cp) \<le> length cells \<and>
     (\<forall>slot \<in> set (bucket_slots cp cells 0 (unat (cp_bucket_size cp))).
        extract_key_tag vc (snd slot) \<noteq> None)"

lemma or_masked_0 [simp]: "or_masked 0 acc vs = acc"
  by (induction "0 :: u8" acc vs rule: or_masked.induct) auto

lemma or_masked_zeros:
  "length vs = n \<Longrightarrow> or_masked (- 1) (replicate n 0) vs = vs"
proof (induction vs arbitrary: n)
  case Nil
  then show ?case by simp
next
  case (Cons v vs)
  then show ?case by (cases n) auto
qed

lemma or_masked_idem: "or_masked (- 1) vs vs = vs"
  by (induction vs) auto

lemma or_hits_same:
  assumes "\<forall>v \<in> set vs. v = w" and "vs \<noteq> []" and "length w = n"
  shows "or_hits (replicate n 0) vs = w"
proof -
  have same: "foldl (or_masked (- 1)) w us = w" if "\<forall>v \<in> set us. v = w" for us
    using that by (induction us) (auto simp: or_masked_idem)
  from assms obtain v us where vs: "vs = v # us" by (cases vs) auto
  then show ?thesis
    using assms same[of us] or_masked_zeros[of w n] by (simp add: or_hits_def)
qed

lemma mask_and:
  "ct_eq_u64_mask a b AND ct_eq_u64_mask c d = (if a = b \<and> c = d then - 1 else 0)"
  by (auto simp: ct_eq_u64_mask_iff)

lemma mask8_ones: "(255 :: u8) = - 1"
  by simp

lemma scan_slots_spec:
  assumes "(s + n) * unat (cp_cells_per_slot cp) \<le> length cells"
    and "\<forall>slot \<in> set (bucket_slots cp cells s n). extract_key_tag vc (snd slot) \<noteq> None"
  shows "\<exists>found'. scan_slots cp vc fp tag cells s n (acc, found) =
      Some (or_hits acc (map snd (filter (slot_hit vc fp tag) (bucket_slots cp cells s n))), found') \<and>
    (found' = 0 \<longleftrightarrow> found = 0 \<and> filter (slot_hit vc fp tag) (bucket_slots cp cells s n) = [])"
  using assms
proof (induction n arbitrary: s acc found)
  case 0
  then show ?case by (simp add: bucket_slots_def or_hits_def)
next
  case (Suc n)
  let ?cps = "unat (cp_cells_per_slot cp)"
  let ?slot = "cp_unpack_slot cp (take ?cps (drop (s * ?cps) cells))"
  have slots: "bucket_slots cp cells s (Suc n) = ?slot # bucket_slots cp cells (Suc s) n"
    unfolding bucket_slots_def by (subst upt_conv_Cons) auto
  from Suc.prems(2) obtain t where t: "extract_key_tag vc (snd ?slot) = Some t"
    by (auto simp: slots)
  have "s * ?cps + ?cps \<le> length cells"
    using Suc.prems(1) by (simp add: add_mult_distrib)
  then have range: "get_range cells (s * ?cps) ?cps = Some (take ?cps (drop (s * ?cps) cells))"
    by (simp add: get_range_def)
  let ?hit = "slot_hit vc fp tag ?slot"
  let ?acc = "if ?hit then or_masked (- 1) acc (snd ?slot) else acc"
  let ?found = "if ?hit then - 1 else found"
  have "scan_slot cp vc fp tag cells s (acc, found) = Some (?acc, ?found)"
    using t by (cases "?slot")
      (auto simp: scan_slot_def Let_def range mask_and slot_hit_def mask8_ones)
  then have run: "scan_slots cp vc fp tag cells s (Suc n) (acc, found) =
      scan_slots cp vc fp tag cells (Suc s) n (?acc, ?found)" by simp
  have "(Suc s + n) * ?cps \<le> length cells" using Suc.prems(1) by simp
  moreover have "\<forall>slot \<in> set (bucket_slots cp cells (Suc s) n). extract_key_tag vc (snd slot) \<noteq> None"
    using Suc.prems(2) by (simp add: slots)
  ultimately show ?case
    using Suc.IH[of "Suc s" ?acc ?found] unfolding run slots
    by (auto simp: or_hits_def)
qed

section \<open>Correcting the row\<close>

definition corrected_row :: "u32 list \<Rightarrow> cell_edits \<Rightarrow> u32 list" where
  "corrected_row cells ds =
     map (\<lambda>i. cells ! i + of_int (if i < 2 ^ 16 then cells_effect ds (of_nat i) else 0)) [0..<length cells]"

definition row_in_range :: "nat \<Rightarrow> cell_edits \<Rightarrow> u32 list \<Rightarrow> bool" where
  "row_in_range pb ds cells \<longleftrightarrow>
     (\<forall>(off, d) \<in> set ds. unat off < length cells \<and>
        0 \<le> uint (cells ! unat off) + sint d \<and> uint (cells ! unat off) + sint d < 2 ^ pb)"


lemma corrected_cell:
  fixes c :: u32 and d :: i64
  shows "ucast ((ucast c :: i64) + d) = c + (of_int (sint d) :: u32)"
proof -
  have "ucast ((ucast c :: i64) + d) = c + (ucast d :: u32)"
    by (rule word_uint_eqI)
       (simp add: uint_word_ariths unsigned_ucast_eq take_bit_eq_mod mod_simps mod_mod_cancel)
  then show ?thesis by (simp add: scast_u32)
qed

lemma sint_corrected:
  fixes c :: u32 and d :: i64
  assumes "0 \<le> uint c + sint d" and "uint c + sint d < 2 ^ 63"
  shows "sint ((ucast c :: i64) + d) = uint c + sint d"
proof -
  have u: "uint c < 2 ^ 32" using unsigned_less[of c, where 'a = int] by simp
  have "uint (ucast c :: i64) = uint c" using u by (simp add: unsigned_ucast_eq take_bit_int_eq_self)
  moreover have "- (2 ^ 63) \<le> uint c" by (rule order_trans[of _ 0]) simp_all
  moreover have "uint c < 2 ^ 63" using u by simp
  ultimately have "sint (ucast c :: i64) = uint c"
    unfolding sint_uint by (simp only:) (simp add: signed_take_bit_int_eq_self)
  then show ?thesis using assms by (simp add: sint_word_ariths signed_take_bit_int_eq_self)
qed

lemma sint_bound: "pb < 63 \<Longrightarrow> sint (push_bit pb 1 :: i64) = 2 ^ pb"
proof -
  assume pb: "pb < 63"
  have "uint (push_bit pb 1 :: i64) = 2 ^ pb"
    using pb by (simp add: unsigned_push_bit_eq take_bit_int_eq_self flip: push_bit_of_1)
       (simp add: push_bit_of_1 take_bit_int_eq_self)
  moreover have "(2 :: int) ^ pb < 2 ^ 63" using pb by (intro power_strict_increasing) auto
  moreover have "- (2 ^ 63) \<le> (2 :: int) ^ pb" by (rule order_trans[of _ 0]) simp_all
  ultimately show ?thesis
    unfolding sint_uint by (simp only:) (simp add: signed_take_bit_int_eq_self)
qed

lemma apply_row_deltas_ok:
  assumes "bt_invar ds" and "row_in_range pb ds cells" and "pb < 63"
  shows "apply_row_deltas j row (push_bit pb 1) ds cells = Inr (corrected_row cells ds)"
  using assms(1,2)
proof (induction ds arbitrary: cells)
  case Nil
  have "corrected_row cells [] = cells"
    by (rule nth_equalityI) (simp_all add: corrected_row_def)
  then show ?case by simp
next
  case (Cons e ds)
  obtain off d where e: "e = (off, d)" by (cases e)
  let ?i = "unat off"
  have i: "?i < length cells" and lo: "0 \<le> uint (cells ! ?i) + sint d"
    and hi: "uint (cells ! ?i) + sint d < 2 ^ pb"
    using Cons.prems(2) by (auto simp: e row_in_range_def)
  have "(2 :: int) ^ pb < 2 ^ 63" using assms(3) by (intro power_strict_increasing) auto
  then have s: "sint ((ucast (cells ! ?i) :: i64) + d) = uint (cells ! ?i) + sint d"
    using lo hi by (intro sint_corrected) linarith+
  let ?cells = "cells[?i := cells ! ?i + of_int (sint d)]"
  have step: "apply_row_deltas j row (push_bit pb 1) (e # ds) cells =
      apply_row_deltas j row (push_bit pb 1) ds ?cells"
    using i lo hi by (simp add: e Let_def s sint_bound[OF assms(3)] corrected_cell del: push_bit_of_1)
  have bt: "bt_invar ds" and later: "\<forall>k \<in> fst ` set ds. off < k"
    using Cons.prems(1) by (auto simp: e bt_invar_Cons)
  have ne: "unat off' \<noteq> ?i" if "(off', d') \<in> set ds" for off' d'
    using later that by (fastforce simp: unat_arith_simps)
  have "row_in_range pb ds ?cells"
    using Cons.prems(2) ne by (fastforce simp: e row_in_range_def)
  note IH = Cons.IH[OF bt this]
  have "corrected_row ?cells ds = corrected_row cells (e # ds)"
  proof (rule nth_equalityI)
    fix n assume "n < length (corrected_row ?cells ds)"
    then have n: "n < length cells" by (simp add: corrected_row_def)
    have z: "cells_effect ds off = 0" using later by (intro cells_effect_absent) auto
    have "off = of_nat n \<longleftrightarrow> n = ?i" if "n < 2 ^ 16" using that by (auto simp: unat_of_nat)
    moreover have "?i < 2 ^ 16" using unsigned_less[of off, where 'a = nat] by simp
    ultimately show "corrected_row ?cells ds ! n = corrected_row cells (e # ds) ! n"
      using n z by (auto simp: corrected_row_def e nth_list_update)
  qed (simp add: corrected_row_def)
  then show ?case using step IH by simp
qed


section \<open>Finishing a lookup\<close>

text \<open>Segment \<open>j\<close> is answered with the corrected row \<open>cells\<close>: every index is in
  range, the rewind and the decoding yield a row, and its pending edits keep it inside the
  plaintext range.\<close>

definition segment_row :: "('p, 'h, 'st) pir_backend \<Rightarrow> 'st rise_client \<Rightarrow> query_ctx \<Rightarrow> u32 list list
    \<Rightarrow> nat \<Rightarrow> u32 list \<Rightarrow> bool" where
  "segment_row be c ctx resp j cells \<longleftrightarrow>
     j < length (rc_states c) \<and> j < length (ctx_queries ctx) \<and> j < length resp \<and>
     j < length (ctx_rows ctx) \<and>
     (\<exists>m ds r'. pending_segment (rc_delta c) j = Some m \<and>
        pending_row (rc_delta c) j (ctx_rows ctx ! j) = Some ds \<and>
        be_rewind be (rc_states c ! j) (ctx_queries ctx ! j) (resp ! j) m = Some r' \<and>
        row_in_range (unat (cp_plaintext_bits (rc_params c))) ds (be_decode be (rc_states c ! j) r') \<and>
        cells = corrected_row (be_decode be (rc_states c ! j) r') ds)"

definition segment_hits :: "'st rise_client \<Rightarrow> u64 \<Rightarrow> u64 \<Rightarrow> u32 list \<Rightarrow> bytes list" where
  "segment_hits c fp tag cells =
     map snd (filter (slot_hit (rc_value_codec c) fp tag)
       (bucket_slots (rc_params c) cells 0 (unat (cp_bucket_size (rc_params c)))))"

lemma finish_segment_spec:
  assumes "segment_row be c ctx resp j cells" and "pending_invar (rc_delta c)"
    and "cp_plaintext_bits (rc_params c) < 63" and "scannable (rc_params c) (rc_value_codec c) cells"
  shows "\<exists>found'. finish_segment be c ctx resp fp tag j (acc, found) =
      Some (Inr (or_hits acc (segment_hits c fp tag cells), found')) \<and>
    (found' = 0 \<longleftrightarrow> found = 0 \<and> segment_hits c fp tag cells = [])"
proof -
  let ?pb = "unat (cp_plaintext_bits (rc_params c))"
  from assms(1) obtain m ds r' where len: "j < length (rc_states c)" "j < length (ctx_queries ctx)"
      "j < length resp" "j < length (ctx_rows ctx)"
    and m: "pending_segment (rc_delta c) j = Some m"
    and ds: "pending_row (rc_delta c) j (ctx_rows ctx ! j) = Some ds"
    and r': "be_rewind be (rc_states c ! j) (ctx_queries ctx ! j) (resp ! j) m = Some r'"
    and rng: "row_in_range ?pb ds (be_decode be (rc_states c ! j) r')"
    and cells: "cells = corrected_row (be_decode be (rc_states c ! j) r') ds"
    unfolding segment_row_def by blast
  have pb: "?pb < 63" using assms(3) by (simp add: word_less_nat_alt)
  have app: "apply_row_deltas j (ctx_rows ctx ! j) (push_bit (?pb mod 64) 1) ds
      (be_decode be (rc_states c ! j) r') = Inr cells"
    using apply_row_deltas_ok[OF pending_row_effect(1)[OF ds assms(2)] rng pb] pb
    by (simp add: cells del: push_bit_of_1)
  from scan_slots_spec[of 0 "unat (cp_bucket_size (rc_params c))" "rc_params c" cells "rc_value_codec c" fp tag acc found]
    assms(4)
  obtain found' where f: "scan_slots (rc_params c) (rc_value_codec c) fp tag cells 0
      (unat (cp_bucket_size (rc_params c))) (acc, found) =
      Some (or_hits acc (segment_hits c fp tag cells), found')"
    "found' = 0 \<longleftrightarrow> found = 0 \<and> segment_hits c fp tag cells = []"
    by (auto simp: scannable_def segment_hits_def)
  have "finish_segment be c ctx resp fp tag j (acc, found) =
      Some (Inr (or_hits acc (segment_hits c fp tag cells), found'))"
    unfolding finish_segment_def Let_def
    using len m ds r' app f(1) by (simp add: get_def del: push_bit_of_1)
  then show ?thesis using f(2) by blast
qed

lemma or_hits_append: "or_hits (or_hits acc xs) ys = or_hits acc (xs @ ys)"
  by (simp add: or_hits_def)

lemma finish_segments_spec:
  assumes "\<And>i. j \<le> i \<Longrightarrow> i < j + n \<Longrightarrow> segment_row be c ctx resp i (cells i) \<and>
      scannable (rc_params c) (rc_value_codec c) (cells i)"
    and "pending_invar (rc_delta c)" and "cp_plaintext_bits (rc_params c) < 63"
  shows "\<exists>found'. finish_segments be c ctx resp fp tag j n (acc, found) =
      Some (Inr (or_hits acc (concat (map (\<lambda>i. segment_hits c fp tag (cells i)) [j..<j + n])), found')) \<and>
    (found' = 0 \<longleftrightarrow> found = 0 \<and> concat (map (\<lambda>i. segment_hits c fp tag (cells i)) [j..<j + n]) = [])"
  using assms(1)
proof (induction n arbitrary: j acc found)
  case 0
  then show ?case by (simp add: or_hits_def)
next
  case (Suc n)
  have "segment_row be c ctx resp j (cells j)" "scannable (rc_params c) (rc_value_codec c) (cells j)"
    using Suc.prems[of j] by auto
  from finish_segment_spec[OF this(1) assms(2,3) this(2), of fp tag acc found] obtain f1 where
    f1: "finish_segment be c ctx resp fp tag j (acc, found) =
        Some (Inr (or_hits acc (segment_hits c fp tag (cells j)), f1))"
      "f1 = 0 \<longleftrightarrow> found = 0 \<and> segment_hits c fp tag (cells j) = []" by blast
  have "\<And>i. Suc j \<le> i \<Longrightarrow> i < Suc j + n \<Longrightarrow> segment_row be c ctx resp i (cells i) \<and>
      scannable (rc_params c) (rc_value_codec c) (cells i)"
    using Suc.prems by auto
  from Suc.IH[OF this, where acc = "or_hits acc (segment_hits c fp tag (cells j))" and found = f1] obtain f2 where
    f2: "finish_segments be c ctx resp fp tag (Suc j) n (or_hits acc (segment_hits c fp tag (cells j)), f1) =
        Some (Inr (or_hits acc (segment_hits c fp tag (cells j) @
          concat (map (\<lambda>i. segment_hits c fp tag (cells i)) [Suc j..<Suc j + n])), f2))"
      "f2 = 0 \<longleftrightarrow> f1 = 0 \<and> concat (map (\<lambda>i. segment_hits c fp tag (cells i)) [Suc j..<Suc j + n]) = []"
    unfolding or_hits_append by blast
  have upt: "[j..<j + Suc n] = j # [Suc j..<Suc j + n]" by (simp add: upt_conv_Cons)
  show ?case using f1 f2 unfolding upt by auto
qed

lemma rows_match_ok:
  assumes "\<And>i. j \<le> i \<Longrightarrow> i < j + n \<Longrightarrow>
      i < length rows \<and> i < length indices \<and> rows ! i = indices ! i mod sz"
    and "sz \<noteq> 0"
  shows "rows_match rows indices sz j n = Some (Inr ())"
  using assms(1)
proof (induction n arbitrary: j)
  case 0
  then show ?case by simp
next
  case (Suc n)
  have "rows_match rows indices sz (Suc j) n = Some (Inr ())"
    by (rule Suc.IH) (use Suc.prems in auto)
  then show ?case using Suc.prems[of j] assms(2) by (simp add: get_def)
qed

text \<open>The context belongs to the key: what \<open>build_query\<close> records.\<close>

definition ctx_for :: "cuckoo_params \<Rightarrow> address_hash \<Rightarrow> query_ctx \<Rightarrow> bool" where
  "ctx_for cp key ctx \<longleftrightarrow>
     cp_segment_size cp \<noteq> 0 \<and> cp_arity cp \<le> length (snd (cp_candidate_buckets cp key)) \<and>
     length (ctx_queries ctx) = cp_arity cp \<and> length (ctx_rows ctx) = cp_arity cp \<and>
     (\<forall>j < cp_arity cp. ctx_rows ctx ! j = snd (cp_candidate_buckets cp key) ! j mod cp_segment_size cp)"

definition all_hits :: "(bytes \<Rightarrow> u64 \<Rightarrow> u64) \<Rightarrow> 'st rise_client \<Rightarrow> address_hash \<Rightarrow> (nat \<Rightarrow> u32 list) \<Rightarrow> bytes list" where
  "all_hits xxh c key cells =
     concat (map (\<lambda>j. segment_hits c (fst (cp_candidate_buckets (rc_params c) key))
         (key_tag xxh (rc_value_codec c) key) (cells j)) [0..<cp_arity (rc_params c)])"

lemma finish_scan:
  assumes "ctx_for (rc_params c) key ctx" and "length resp = cp_arity (rc_params c)"
    and "at_block = pd_head (rc_delta c)"
    and "\<And>j. j < cp_arity (rc_params c) \<Longrightarrow> segment_row be c ctx resp j (cells j) \<and>
      scannable (rc_params c) (rc_value_codec c) (cells j)"
    and "pending_invar (rc_delta c)" and "cp_plaintext_bits (rc_params c) < 63"
  shows "finish xxh be c key ctx resp at_block =
    (if all_hits xxh c key cells = [] then Some (Inr NotFound)
     else map_option Inr (decode xxh (rc_value_codec c) key
            (or_hits (replicate (cp_value_size (rc_params c)) 0) (all_hits xxh c key cells))))"
proof -
  obtain fp indices where fi: "cp_candidate_buckets (rc_params c) key = (fp, indices)" by fastforce
  have rows: "rows_match (ctx_rows ctx) indices (cp_segment_size (rc_params c)) 0 (cp_arity (rc_params c)) =
      Some (Inr ())"
    using assms(1) fi by (intro rows_match_ok) (auto simp: ctx_for_def)
  from finish_segments_spec[of 0 "cp_arity (rc_params c)" be c ctx resp cells fp
      "key_tag xxh (rc_value_codec c) key" "replicate (cp_value_size (rc_params c)) 0" 0] assms(4-6)
  obtain found where f: "finish_segments be c ctx resp fp (key_tag xxh (rc_value_codec c) key) 0
      (cp_arity (rc_params c)) (replicate (cp_value_size (rc_params c)) 0, 0) =
      Some (Inr (or_hits (replicate (cp_value_size (rc_params c)) 0) (all_hits xxh c key cells), found))"
    "found = 0 \<longleftrightarrow> all_hits xxh c key cells = []"
    by (auto simp: all_hits_def fi)
  show ?thesis
    using assms(1-3) fi rows f by (auto simp: finish_def ctx_for_def Let_def)
qed

section \<open>Honest responses\<close>

lemma corrected_row_head:
  assumes "pending_row p j row = Some ds" and "pending_invar p" and "pending_segment p j = Some m"
  shows "corrected_row (map (db (unat row)) [0..<w]) ds = map (add_delta db m (unat row)) [0..<w]"
proof -
  have m: "j < length (pd_per_segment p)" "m = pd_per_segment p ! j"
    using assms(3) by (auto simp: pending_segment_def get_Some_iff)
  have row: "unat row < 2 ^ 32" using unsigned_less[of row, where 'a = nat] by simp
  have "(if i < 2 ^ 16 then cells_effect ds (of_nat i) else 0) = nat_effect m (unat row) i" for i
    using pending_row_effect(3)[OF assms(1,2), of "of_nat i"] row m
    by (simp add: nat_effect_def pending_effect_def)
  then show ?thesis by (simp add: corrected_row_def add_delta_def)
qed

definition head_in_range :: "u32 \<Rightarrow> (nat \<Rightarrow> nat \<Rightarrow> u32) \<Rightarrow> pending_map \<Rightarrow> nat \<Rightarrow> nat \<Rightarrow> bool" where
  "head_in_range pb db m w row \<longleftrightarrow>
     (\<forall>off < w. 0 \<le> uint (db row off) + nat_effect m row off \<and>
        uint (db row off) + nat_effect m row off < 2 ^ unat pb)"

lemma row_in_range_head:
  assumes ds: "pending_row p j row = Some ds" and inv: "pending_invar p"
    and seg: "pending_segment p j = Some m"
    and offs: "\<forall>(off, _) \<in> set ds. unat off < w" and rng: "head_in_range pb db m w (unat row)"
  shows "row_in_range (unat pb) ds (map (db (unat row)) [0..<w])"
proof -
  have m: "j < length (pd_per_segment p)" "m = pd_per_segment p ! j"
    using seg by (auto simp: pending_segment_def get_Some_iff)
  have row: "unat row < 2 ^ 32" using unsigned_less[of row, where 'a = nat] by simp
  have "unat off < w \<and> 0 \<le> uint (db (unat row) (unat off)) + sint d \<and>
      uint (db (unat row) (unat off)) + sint d < 2 ^ unat pb" if e: "(off, d) \<in> set ds" for off d
  proof -
    have bt: "bt_invar ds" using pending_row_effect(1)[OF ds inv] .
    then have "map_of ds off = Some d"
      using e bt_invar_distinct by (metis map_of_is_SomeI)
    then have "cells_effect ds off = sint d" using cells_effect_lookup[OF bt] by (simp add: bt_get_or_def)
    moreover have "unat off < 2 ^ 16" using unsigned_less[of off, where 'a = nat] by simp
    ultimately have "nat_effect m (unat row) (unat off) = sint d"
      using pending_row_effect(3)[OF ds inv, of off] row m by (simp add: nat_effect_def pending_effect_def)
    then show ?thesis using offs e rng by (fastforce simp: head_in_range_def)
  qed
  then show ?thesis by (auto simp: row_in_range_def)
qed


lemma pending_row_valid:
  assumes "pending_row p j row = Some ds" and "pending_segment p j = Some m" and "(off, d) \<in> set ds"
  shows "((row, off), d) \<in> set m"
  using assms by (auto simp: pending_row_def pending_segment_def bt_range_def less_eq_prod_def)

text \<open>Segment \<open>j\<close> of an honest deployment of a backend with reshape place \<open>cell_of\<close>:
  the response is the honest one over the database at the head, and the backend decodes the honest
  response over the pinned database to the queried row (the documented correctness of
  \<open>client_decode\<close>).\<close>

definition honest_segment :: "('p, 'h, 'st) pir_backend \<Rightarrow> 'st rise_client \<Rightarrow> query_ctx \<Rightarrow> u32 list list
    \<Rightarrow> (nat \<Rightarrow> nat \<Rightarrow> nat \<times> nat) \<Rightarrow> nat \<Rightarrow> (nat \<Rightarrow> nat \<Rightarrow> u32) \<Rightarrow> u32 \<Rightarrow> nat \<Rightarrow> bool" where
  "honest_segment be c ctx resp cell_of cols db w j \<longleftrightarrow>
     j < length (rc_states c) \<and> j < length (pd_per_segment (rc_delta c)) \<and>
     (let q = ctx_queries ctx ! j; row = ctx_rows ctx ! j; m = pd_per_segment (rc_delta c) ! j in
        resp ! j = honest_response cell_of cols q (add_delta db m) \<and>
        be_decode be (rc_states c ! j) (honest_response cell_of cols q db) = map (db (unat row)) [0..<unat w] \<and>
        (\<forall>((_, off), _) \<in> set m. unat off < unat w) \<and>
        head_in_range (cp_plaintext_bits (rc_params c)) db m (unat w) (unat row))"

definition head_row :: "'st rise_client \<Rightarrow> query_ctx \<Rightarrow> (nat \<Rightarrow> nat \<Rightarrow> u32) \<Rightarrow> u32 \<Rightarrow> nat \<Rightarrow> u32 list" where
  "head_row c ctx db w j =
     map (add_delta db (pd_per_segment (rc_delta c) ! j) (unat (ctx_rows ctx ! j))) [0..<unat w]"

lemma honest_segment_row:
  assumes h: "honest_segment be c ctx resp cell_of cols db w j" and inv: "pending_invar (rc_delta c)"
    and len: "j < length (ctx_queries ctx)" "j < length resp" "j < length (ctx_rows ctx)"
    and rew: "be_rewind be (rc_states c ! j) (ctx_queries ctx ! j)
        (honest_response cell_of cols (ctx_queries ctx ! j) (add_delta db (pd_per_segment (rc_delta c) ! j)))
        (pd_per_segment (rc_delta c) ! j) = Some (honest_response cell_of cols (ctx_queries ctx ! j) db)"
  shows "segment_row be c ctx resp j (head_row c ctx db w j)"
proof -
  let ?m = "pd_per_segment (rc_delta c) ! j" and ?row = "ctx_rows ctx ! j"
  have st: "j < length (rc_states c)" "j < length (pd_per_segment (rc_delta c))"
    and resp: "resp ! j = honest_response cell_of cols (ctx_queries ctx ! j) (add_delta db ?m)"
    and dec: "be_decode be (rc_states c ! j) (honest_response cell_of cols (ctx_queries ctx ! j) db) =
      map (db (unat ?row)) [0..<unat w]"
    and offs: "\<forall>((_, off), _) \<in> set ?m. unat off < unat w"
    and rng: "head_in_range (cp_plaintext_bits (rc_params c)) db ?m (unat w) (unat ?row)"
    using h by (auto simp: honest_segment_def Let_def)
  have seg: "pending_segment (rc_delta c) j = Some ?m"
    using st(2) by (simp add: pending_segment_def get_def)
  then obtain ds where ds: "pending_row (rc_delta c) j ?row = Some ds"
    by (auto simp: pending_row_def pending_segment_def)
  have "\<forall>(off, _) \<in> set ds. unat off < unat w"
    using pending_row_valid[OF ds seg] offs by fastforce
  from row_in_range_head[OF ds inv seg this rng] corrected_row_head[OF ds inv seg]
  show ?thesis
    unfolding segment_row_def head_row_def using st(1) len seg ds rew resp dec by auto
qed

text \<open>The two backends.\<close>

definition frodo_segment where
  "frodo_segment be c ctx resp db w j \<longleftrightarrow>
     honest_segment be c ctx resp (\<lambda>r c. (r, c)) (unat w) db w j \<and>
     (\<forall>((row, off), _) \<in> set (pd_per_segment (rc_delta c) ! j). unat row < length (ctx_queries ctx ! j))"

definition simple_segment where
  "simple_segment reshape be c ctx resp db w j \<longleftrightarrow>
     (\<exists>k. reshape (rc_states c ! j) = (k, w) \<and>
        honest_segment be c ctx resp (simple_cell_of k w) (simple_cols k w) db w j \<and>
        (\<forall>((row, off), _) \<in> set (pd_per_segment (rc_delta c) ! j).
           simple_valid k w (length (ctx_queries ctx ! j)) row off))"

lemma frodo_segment_row:
  assumes h: "frodo_segment (frodo_client be) c ctx resp db w j" and inv: "pending_invar (rc_delta c)"
    and len: "j < length (ctx_queries ctx)" "j < length resp" "j < length (ctx_rows ctx)"
  shows "segment_row (frodo_client be) c ctx resp j (head_row c ctx db w j)"
proof (rule honest_segment_row)
  let ?m = "pd_per_segment (rc_delta c) ! j"
  show hs: "honest_segment (frodo_client be) c ctx resp (\<lambda>r c. (r, c)) (unat w) db w j"
    using h by (simp add: frodo_segment_def)
  have "bt_invar ?m"
    using inv hs by (auto simp: honest_segment_def pending_invar_def pending_map_invar_def)
  moreover have "\<forall>((row, off), _) \<in> set ?m. unat row < length (ctx_queries ctx ! j) \<and> unat off < unat w"
    using h hs by (fastforce simp: frodo_segment_def honest_segment_def Let_def)
  ultimately show "be_rewind (frodo_client be) (rc_states c ! j) (ctx_queries ctx ! j)
      (honest_response (\<lambda>r c. (r, c)) (unat w) (ctx_queries ctx ! j) (add_delta db ?m)) ?m =
      Some (honest_response (\<lambda>r c. (r, c)) (unat w) (ctx_queries ctx ! j) db)"
    using frodo.rewind_exact[of ?m "length (ctx_queries ctx ! j)" "unat w"]
    by (simp add: frodo_client_def frodo_rewind_response_def)
qed (use assms in auto)

lemma simple_segment_row:
  assumes h: "simple_segment reshape (simple_client reshape be) c ctx resp db w j"
    and inv: "pending_invar (rc_delta c)"
    and len: "j < length (ctx_queries ctx)" "j < length resp" "j < length (ctx_rows ctx)"
  shows "segment_row (simple_client reshape be) c ctx resp j (head_row c ctx db w j)"
proof -
  let ?m = "pd_per_segment (rc_delta c) ! j"
  from h obtain k where k: "reshape (rc_states c ! j) = (k, w)"
    and hs: "honest_segment (simple_client reshape be) c ctx resp (simple_cell_of k w) (simple_cols k w) db w j"
    and v: "\<forall>((row, off), _) \<in> set ?m. simple_valid k w (length (ctx_queries ctx ! j)) row off"
    unfolding simple_segment_def by blast
  have bt: "bt_invar ?m"
    using inv hs by (auto simp: honest_segment_def pending_invar_def pending_map_invar_def)
  show ?thesis
  proof (rule honest_segment_row[OF hs inv len])
    show "be_rewind (simple_client reshape be) (rc_states c ! j) (ctx_queries ctx ! j)
        (honest_response (simple_cell_of k w) (simple_cols k w) (ctx_queries ctx ! j) (add_delta db ?m)) ?m =
        Some (honest_response (simple_cell_of k w) (simple_cols k w) (ctx_queries ctx ! j) db)"
      using simple.rewind_exact[OF bt v refl, of db] k
      by (simp add: simple_client_def simple_rewind_response_def)
  qed
qed

text \<open>The answer of an honest deployment, in terms of the slots at the head.\<close>

lemma finish_head:
  assumes "ctx_for (rc_params c) key ctx" and "length resp = cp_arity (rc_params c)"
    and "at_block = pd_head (rc_delta c)"
    and "\<And>j. j < cp_arity (rc_params c) \<Longrightarrow> segment_row be c ctx resp j (cells j) \<and>
      scannable (rc_params c) (rc_value_codec c) (cells j)"
    and "pending_invar (rc_delta c)" and "cp_plaintext_bits (rc_params c) < 63"
    and "\<forall>v \<in> set (all_hits xxh c key cells). encode xxh (rc_value_codec c) key bal = Some (Inr v)"
    and "cp_value_size (rc_params c) = div_ceil8 (unat (value_bits (rc_value_codec c)))"
  shows "finish xxh be c key ctx resp at_block =
    Some (Inr (if all_hits xxh c key cells = [] then NotFound else Found bal))"
proof (cases "all_hits xxh c key cells")
  case Nil
  then show ?thesis using finish_scan[OF assms(1-6), where xxh = xxh] by simp
next
  case (Cons v vs)
  then have e: "encode xxh (rc_value_codec c) key bal = Some (Inr v)" using assms(7) by simp
  have "\<forall>v' \<in> set (v # vs). v' = v" using assms(7) e unfolding Cons by auto
  moreover have "length v = cp_value_size (rc_params c)"
    using encode_holds_fields(3)[OF e] assms(8) by (simp add: holds_fields_def)
  ultimately have "or_hits (replicate (cp_value_size (rc_params c)) 0) (v # vs) = v"
    by (intro or_hits_same) auto
  then show ?thesis
    using finish_scan[OF assms(1-6), where xxh = xxh] decode_encode_other(1)[OF e, of key] Cons by simp
qed

section \<open>Garbage collection keeps the view of the head\<close>

definition add_rows :: "(nat \<Rightarrow> nat \<Rightarrow> u32) \<Rightarrow> segment_row_deltas \<Rightarrow> nat \<Rightarrow> nat \<Rightarrow> u32" where
  "add_rows db rs row off = db row off +
     of_int (if row < 2 ^ 32 \<and> off < 2 ^ 16 then rows_effect rs (of_nat row) (of_nat off) else 0)"

lemma add_rows_as_row_deltas:
  assumes "as_row_deltas p j = Some rs" and "pending_invar p" and "j < length (pd_per_segment p)"
  shows "add_rows db rs = add_delta db (pd_per_segment p ! j)"
  using assms(3) as_row_deltas_spec(2)[OF assms(1,2)]
  by (intro ext) (auto simp: add_rows_def add_delta_def nat_effect_def pending_effect_def)

lemma patch_states_reps:
  assumes "pending_invar p" and "j + length sts \<le> length (pd_per_segment p)"
    and patch: "\<forall>st db rs. reps st db \<longrightarrow> canonical_rows rs \<longrightarrow> reps (be_patch be st rs) (add_rows db rs)"
    and "\<forall>i < length sts. reps (sts ! i) (db (j + i))"
  shows "\<exists>sts'. patch_states be p j sts = Some sts' \<and> length sts' = length sts \<and>
    (\<forall>i < length sts. reps (sts' ! i) (add_delta (db (j + i)) (pd_per_segment p ! (j + i))))"
  using assms(2,4)
proof (induction sts arbitrary: j)
  case Nil
  then show ?case by simp
next
  case (Cons st sts)
  have j: "j < length (pd_per_segment p)" using Cons.prems(1) by simp
  then obtain rs where rs: "as_row_deltas p j = Some rs" by (auto simp: as_row_deltas_def get_def)
  note ard = as_row_deltas_spec[OF rs assms(1)] and adds = add_rows_as_row_deltas[OF rs assms(1) j]
  have st: "reps st (db j)" using Cons.prems(2) by force
  let ?st = "if rs \<noteq> [] then be_patch be st rs else st"
  have head: "reps ?st (add_delta (db j) (pd_per_segment p ! j))"
  proof (cases "rs = []")
    case True
    then have "add_rows (db j) rs = db j" by (intro ext) (simp add: add_rows_def)
    then show ?thesis using True st adds[of "db j"] by simp
  next
    case False
    have "reps (be_patch be st rs) (add_rows (db j) rs)" using patch st ard(1) by blast
    then show ?thesis using False adds[of "db j"] by simp
  qed
  have "\<forall>i < length sts. reps (sts ! i) (db (Suc j + i))"
    using Cons.prems(2) by (metis Suc_less_eq add_Suc_shift length_Cons nth_Cons_Suc)
  with Cons.IH[of "Suc j"] Cons.prems(1) obtain sts' where
    sts': "patch_states be p (Suc j) sts = Some sts'" "length sts' = length sts"
    "\<forall>i < length sts. reps (sts' ! i) (add_delta (db (Suc j + i)) (pd_per_segment p ! (Suc j + i)))"
    by auto
  show ?case
  proof (intro exI[of _ "?st # sts'"] conjI allI impI)
    show "patch_states be p j (st # sts) = Some (?st # sts')" using rs sts'(1) by simp
    show "length (?st # sts') = length (st # sts)" using sts'(2) by simp
    fix i assume "i < length (st # sts)"
    then show "reps ((?st # sts') ! i) (add_delta (db (j + i)) (pd_per_segment p ! (j + i)))"
      using head sts'(3) by (cases i) (simp_all del: if_not_P if_P)
  qed
qed

lemma collect_garbage_spec:
  assumes inv: "pending_invar (rc_delta c)" and len: "length (rc_states c) = length (pd_per_segment (rc_delta c))"
    and patch: "\<forall>st db rs. reps st db \<longrightarrow> canonical_rows rs \<longrightarrow> reps (be_patch be st rs) (add_rows db rs)"
    and reps: "\<forall>j < length (rc_states c). reps (rc_states c ! j) (db j)"
    and ne: "rc_pinned_block c \<noteq> pd_head (rc_delta c)"
  shows "\<exists>c'. collect_garbage be c (pd_head (rc_delta c)) = Some (Inr (), c') \<and>
    rc_pinned_block c' = pd_head (rc_delta c) \<and>
    rc_delta c' = pending_new (length (rc_states c)) (pd_head (rc_delta c)) \<and>
    length (rc_states c') = length (rc_states c) \<and>
    (\<forall>j < length (rc_states c). reps (rc_states c' ! j) (add_delta (db j) (pd_per_segment (rc_delta c) ! j)))"
proof -
  have "0 + length (rc_states c) \<le> length (pd_per_segment (rc_delta c))" using len by simp
  from patch_states_reps[OF inv this patch, of db] reps obtain sts where
    sts: "patch_states be (rc_delta c) 0 (rc_states c) = Some sts" "length sts = length (rc_states c)"
      "\<forall>i < length (rc_states c). reps (sts ! i) (add_delta (db i) (pd_per_segment (rc_delta c) ! i))"
    by auto
  then show ?thesis using ne by (auto simp: collect_garbage_def Let_def)
qed

section \<open>Properties\<close>

text \<open>A table of four rows of two one-cell slots and a backend without privacy, to instantiate the
  external operations in the witnesses: a query is a unit vector, the state the queried row.\<close>

definition byte_codec :: value_codec where
  "byte_codec = \<lparr> key_tag_bits = 0, balance_bits = 8, checksum_bits = 0 \<rparr>"

definition pair_params :: cuckoo_params where
  "pair_params = \<lparr> cp_arity = 1, cp_segment_size = 4, cp_bucket_size = 2, cp_cells_per_slot = 1,
     cp_value_size = 1, cp_plaintext_bits = 9,
     cp_candidate_buckets = (\<lambda>_. (5, [0])), cp_slot_cell_range = (\<lambda>_ _. (0, 1)),
     cp_unpack_slot = (\<lambda>cells. (if hd cells = 6 then 5 else 0, [ucast (hd cells - 1)])),
     cp_pack_slot = (\<lambda>fp cells. [hd cells + 1]) \<rparr>"

definition unit_backend :: "(unit, unit, u32) pir_backend" where
  "unit_backend = \<lparr> be_setup = (\<lambda>_ _. 0), be_query = (\<lambda>_ row. (row, [1, 0])),
     be_decode = (\<lambda>st r. take 2 (drop (unat (st mod 2) * 2) r)), be_patch = (\<lambda>st _. st),
     be_rewind = (\<lambda>_ _ _ _. None) \<rparr>"

definition example_client :: "u32 rise_client" where
  "example_client = \<lparr> rc_params = pair_params, rc_states = [0], rc_pinned_block = 6,
     rc_delta = \<lparr> pd_per_segment = [example_pending], pd_head = 8 \<rparr>, rc_value_codec = byte_codec \<rparr>"

definition example_ctx :: query_ctx where
  "example_ctx = \<lparr> ctx_queries = [[1, 0]], ctx_rows = [0] \<rparr>"

definition example_resp :: "u32 list list" where
  "example_resp = [honest_response (simple_cell_of 2 2) (simple_cols 2 2) [1, 0] (add_delta example_db example_pending)]"

lemma byte_encode: "encode example_hash byte_codec [1] 5 = Some (Inr [5])" "extract_key_tag byte_codec [x] = Some 0"
  "key_tag example_hash byte_codec [1] = 0"
  by (code_simp, simp add: extract_key_tag_def read_bits_def byte_codec_def, code_simp)

lemma example_effect: "nat_effect example_pending row off =
    (if row = 0 \<and> off = 1 then 5 else if row = 3 \<and> off = 1 then - 4 else 0)"
  using nat_effect_Cons[of 0 1 5 "[((3, 1), - 4)]" row off] nat_effect_Cons[of 3 1 "- 4" "[]" row off]
    example_pending_invar(1)
  by (auto simp: example_pending_def bt_invar_Cons nat_effect_def)

lemma example_head_row: "head_row example_client example_ctx example_db 2 0 = [0, 6]"
  by (simp add: head_row_def example_client_def example_ctx_def add_delta_def example_effect example_db_def
      upt_conv_Cons)

lemma example_honest: "honest_response (simple_cell_of 2 2) (simple_cols 2 2) [1, 0] example_db = [0, 1, 10, 11]"
proof -
  have cols: "simple_cols 2 2 = Suc (Suc (Suc (Suc 0)))" by (simp add: simple_cols_def checked_mul_u_def)
  have rows: "(\<Sum>r = 0..<length [1, 0 :: u32]. f r) = f 0 + f 1" for f :: "nat \<Rightarrow> u32"
    by simp
  show ?thesis
    unfolding honest_response_def vec_mat_def rows cols by (simp add: simple_cell_of_def example_db_def)
qed

lemma example_simple_segment:
  "simple_segment (\<lambda>_. (2, 2)) (simple_client (\<lambda>_. (2, 2)) unit_backend) example_client example_ctx example_resp
     example_db 2 0"
proof -
  have "uint (example_db 0 off) + nat_effect example_pending 0 off < 512 \<and>
      0 \<le> uint (example_db 0 off) + nat_effect example_pending 0 off" if "off < 2" for off
    using that by (cases off) (auto simp: example_effect example_db_def less_Suc_eq)
  then show ?thesis
    by (auto simp: simple_segment_def honest_segment_def simple_client_def unit_backend_def example_client_def
        example_ctx_def example_resp_def example_honest Let_def head_in_range_def pair_params_def simple_valid_def
        example_pending_def checked_mul_u_def unat_div upt_conv_Cons example_db_def)
qed

lemma example_fields:
  "rc_params example_client = pair_params" "rc_value_codec example_client = byte_codec"
  "pd_head (rc_delta example_client) = 8" "cp_arity pair_params = Suc 0"
  "pending_invar (rc_delta example_client)" "cp_plaintext_bits pair_params < 63"
  "cp_value_size pair_params = div_ceil8 (unat (value_bits byte_codec))"
  by (simp_all add: example_client_def pair_params_def pending_invar_def example_pending_invar byte_codec_def
      value_bits_def div_ceil8_def)

lemma example_segment_hits: "segment_hits example_client 5 0 [0, 6] = [[5]]"
  by (simp add: segment_hits_def bucket_slots_def example_client_def pair_params_def slot_hit_def byte_encode
      upt_conv_Cons)

lemma example_hits: "all_hits example_hash example_client [1] (\<lambda>j. head_row example_client example_ctx example_db 2 j) = [[5]]"
proof -
  have "cp_candidate_buckets pair_params [1] = (5, [0])" by (simp add: pair_params_def)
  then show ?thesis
    by (simp add: all_hits_def example_fields example_head_row byte_encode example_segment_hits)
qed

lemma example_scannable: "scannable pair_params byte_codec [0, 6]"
  by (simp add: scannable_def bucket_slots_def pair_params_def byte_encode upt_conv_Cons)

lemma example_ctx_for: "ctx_for pair_params [1] example_ctx"
  by (simp add: ctx_for_def pair_params_def example_ctx_def)

text \<open>C3. A lookup answers the balance at the server's head although the hint is pinned in the past
  (SimplePIR, the deployed backend): if every segment's response is the honest one over the database
  at the head, i.e. the pinned database plus the client's pending delta, and the slots that carry the
  key's fingerprint and tag at the head hold the key's encoded balance, then \<open>finish\<close> succeeds
  and returns exactly that balance, or "not found" when no slot carries them.\<close>

theorem simple_lookup_answers_head:
  assumes "ctx_for (rc_params c) key ctx" and "length resp = cp_arity (rc_params c)"
    and "at_block = pd_head (rc_delta c)" and "pending_invar (rc_delta c)"
    and "cp_plaintext_bits (rc_params c) < 63"
    and "\<forall>j < cp_arity (rc_params c). simple_segment reshape (simple_client reshape be) c ctx resp (db j) w j \<and>
      scannable (rc_params c) (rc_value_codec c) (head_row c ctx (db j) w j)"
    and "\<forall>v \<in> set (all_hits xxh c key (\<lambda>j. head_row c ctx (db j) w j)).
      encode xxh (rc_value_codec c) key bal = Some (Inr v)"
    and "cp_value_size (rc_params c) = div_ceil8 (unat (value_bits (rc_value_codec c)))"
  shows "finish xxh (simple_client reshape be) c key ctx resp at_block =
    Some (Inr (if all_hits xxh c key (\<lambda>j. head_row c ctx (db j) w j) = [] then NotFound else Found bal))"
proof (rule finish_head[OF assms(1-3) _ assms(4,5,7,8)])
  fix j assume j: "j < cp_arity (rc_params c)"
  then have "segment_row (simple_client reshape be) c ctx resp j (head_row c ctx (db j) w j)"
    using assms(1,2,4,6) by (intro simple_segment_row) (auto simp: ctx_for_def)
  then show "segment_row (simple_client reshape be) c ctx resp j (head_row c ctx (db j) w j) \<and>
      scannable (rc_params c) (rc_value_codec c) (head_row c ctx (db j) w j)"
    using assms(6) j by blast
qed

lemma simple_lookup_answers_head_witness:
  "finish example_hash (simple_client (\<lambda>_. (2, 2)) unit_backend) example_client [1] example_ctx example_resp 8 =
    Some (Inr (Found 5))"
proof -
  have seg: "\<forall>j < cp_arity (rc_params example_client).
      simple_segment (\<lambda>_. (2, 2)) (simple_client (\<lambda>_. (2, 2)) unit_backend) example_client example_ctx example_resp
        example_db 2 j \<and>
      scannable (rc_params example_client) (rc_value_codec example_client) (head_row example_client example_ctx example_db 2 j)"
    using example_simple_segment example_scannable
    by (simp add: example_fields example_head_row)
  have "length example_resp = cp_arity pair_params" by (simp add: example_resp_def example_fields)
  then show ?thesis
    using simple_lookup_answers_head[of example_client "[1]" example_ctx example_resp 8 "\<lambda>_. (2, 2)" unit_backend
        "\<lambda>_. example_db" 2 example_hash 5] seg example_ctx_for example_hits byte_encode(1)
    by (simp add: example_fields)
qed

text \<open>The same for FrodoPIR.\<close>

theorem frodo_lookup_answers_head:
  assumes "ctx_for (rc_params c) key ctx" and "length resp = cp_arity (rc_params c)"
    and "at_block = pd_head (rc_delta c)" and "pending_invar (rc_delta c)"
    and "cp_plaintext_bits (rc_params c) < 63"
    and "\<forall>j < cp_arity (rc_params c). frodo_segment (frodo_client be) c ctx resp (db j) w j \<and>
      scannable (rc_params c) (rc_value_codec c) (head_row c ctx (db j) w j)"
    and "\<forall>v \<in> set (all_hits xxh c key (\<lambda>j. head_row c ctx (db j) w j)).
      encode xxh (rc_value_codec c) key bal = Some (Inr v)"
    and "cp_value_size (rc_params c) = div_ceil8 (unat (value_bits (rc_value_codec c)))"
  shows "finish xxh (frodo_client be) c key ctx resp at_block =
    Some (Inr (if all_hits xxh c key (\<lambda>j. head_row c ctx (db j) w j) = [] then NotFound else Found bal))"
proof (rule finish_head[OF assms(1-3) _ assms(4,5,7,8)])
  fix j assume j: "j < cp_arity (rc_params c)"
  then have "segment_row (frodo_client be) c ctx resp j (head_row c ctx (db j) w j)"
    using assms(1,2,4,6) by (intro frodo_segment_row) (auto simp: ctx_for_def)
  then show "segment_row (frodo_client be) c ctx resp j (head_row c ctx (db j) w j) \<and>
      scannable (rc_params c) (rc_value_codec c) (head_row c ctx (db j) w j)"
    using assms(6) j by blast
qed

definition frodo_ctx :: query_ctx where
  "frodo_ctx = \<lparr> ctx_queries = [[1, 0, 0, 0]], ctx_rows = [0] \<rparr>"

definition frodo_resp :: "u32 list list" where
  "frodo_resp = [honest_response (\<lambda>r c. (r, c)) 2 [1, 0, 0, 0] (add_delta example_db example_pending)]"

definition row_backend :: "(unit, unit, u32) pir_backend" where
  "row_backend = unit_backend\<lparr>be_decode := (\<lambda>_ r. r)\<rparr>"

lemma frodo_honest: "honest_response (\<lambda>r c. (r, c)) 2 [1, 0, 0, 0] example_db = [0, 1]"
proof -
  have two: "[0..<2] = [0, 1 :: nat]" by (simp add: upt_conv_Cons)
  have rows: "(\<Sum>r = 0..<length [1, 0, 0, 0 :: u32]. f r) = f 0 + f 1 + f 2 + f 3" for f :: "nat \<Rightarrow> u32"
    by (simp add: eval_nat_numeral)
  show ?thesis unfolding honest_response_def vec_mat_def rows two by (simp add: example_db_def)
qed

lemma frodo_example_segment:
  "frodo_segment (frodo_client row_backend) example_client frodo_ctx frodo_resp example_db 2 0"
proof -
  have "uint (example_db 0 off) + nat_effect example_pending 0 off < 512 \<and>
      0 \<le> uint (example_db 0 off) + nat_effect example_pending 0 off" if "off < 2" for off
    using that by (cases off) (auto simp: example_effect example_db_def less_Suc_eq)
  then show ?thesis
    by (auto simp: frodo_segment_def honest_segment_def frodo_client_def row_backend_def unit_backend_def
        example_client_def frodo_ctx_def frodo_resp_def frodo_honest Let_def head_in_range_def pair_params_def
        example_pending_def upt_conv_Cons example_db_def)
qed

lemma frodo_lookup_answers_head_witness:
  "finish example_hash (frodo_client row_backend) example_client [1] frodo_ctx frodo_resp 8 = Some (Inr (Found 5))"
proof -
  have row: "head_row example_client frodo_ctx example_db 2 j = head_row example_client example_ctx example_db 2 j" for j
    by (simp add: head_row_def frodo_ctx_def example_ctx_def)
  have seg: "\<forall>j < cp_arity (rc_params example_client).
      frodo_segment (frodo_client row_backend) example_client frodo_ctx frodo_resp example_db 2 j \<and>
      scannable (rc_params example_client) (rc_value_codec example_client) (head_row example_client frodo_ctx example_db 2 j)"
    using frodo_example_segment example_scannable
    by (simp add: row example_fields example_head_row)
  have "length frodo_resp = cp_arity pair_params" by (simp add: frodo_resp_def example_fields)
  moreover have "ctx_for pair_params [1] frodo_ctx" by (simp add: ctx_for_def pair_params_def frodo_ctx_def)
  ultimately show ?thesis
    using frodo_lookup_answers_head[of example_client "[1]" frodo_ctx frodo_resp 8 row_backend
        "\<lambda>_. example_db" 2 example_hash 5] seg example_hits byte_encode(1) row
    by (simp add: example_fields)
qed

text \<open>C22. Garbage collection folds the whole pending delta into the hints and changes nothing the
  client can see: afterwards every state is the hint of the database at the old pending head, the
  pinned block is that head and nothing is pending.  (\<open>reps\<close> is the relation "the state is the
  hint of this database", and the assumption on \<open>be_patch\<close> the documented behaviour of
  \<open>client_patch_state\<close>.)\<close>

theorem collect_garbage_keeps_head_view:
  assumes "pending_invar (rc_delta c)" and "length (rc_states c) = length (pd_per_segment (rc_delta c))"
    and "\<forall>st db rs. reps st db \<longrightarrow> canonical_rows rs \<longrightarrow> reps (be_patch be st rs) (add_rows db rs)"
    and "\<forall>j < length (rc_states c). reps (rc_states c ! j) (db j)"
    and "rc_pinned_block c \<noteq> pd_head (rc_delta c)"
  shows "\<exists>c'. collect_garbage be c (pd_head (rc_delta c)) = Some (Inr (), c') \<and>
    rc_pinned_block c' = pd_head (rc_delta c) \<and>
    rc_delta c' = pending_new (length (rc_states c)) (pd_head (rc_delta c)) \<and>
    (\<forall>j < length (rc_states c). reps (rc_states c' ! j) (add_delta (db j) (pd_per_segment (rc_delta c) ! j)))"
  using collect_garbage_spec[OF assms] by blast

definition matrix_backend :: "(unit, unit, nat \<Rightarrow> nat \<Rightarrow> u32) pir_backend" where
  "matrix_backend = \<lparr> be_setup = (\<lambda>_ _ _ _. 0), be_query = (\<lambda>st _. (st, [])), be_decode = (\<lambda>_ r. r),
     be_patch = add_rows, be_rewind = (\<lambda>_ _ _ _. None) \<rparr>"

definition matrix_client :: "(nat \<Rightarrow> nat \<Rightarrow> u32) rise_client" where
  "matrix_client = \<lparr> rc_params = pair_params, rc_states = [example_db], rc_pinned_block = 6,
     rc_delta = \<lparr> pd_per_segment = [example_pending], pd_head = 8 \<rparr>, rc_value_codec = byte_codec \<rparr>"

lemma collect_garbage_keeps_head_view_witness:
  "\<exists>c'. collect_garbage matrix_backend matrix_client 8 = Some (Inr (), c') \<and> rc_pinned_block c' = 8 \<and>
    rc_states c' ! 0 = add_delta example_db example_pending"
proof -
  have "pending_invar (rc_delta matrix_client)"
    by (simp add: matrix_client_def pending_invar_def example_pending_invar)
  from collect_garbage_keeps_head_view[OF this, of "(=)" matrix_backend "\<lambda>_. example_db"]
  show ?thesis by (auto simp: matrix_client_def matrix_backend_def)
qed

end
