(* ===== verification/Delta_Ring.thy ===== *)
theory Delta_Ring
  imports Block_Delta
begin

text \<open>
  Model of \<open>crates/risepir-server/src/delta_ring.rs\<close>: the sliding window of the most
  recent block deltas.  The window holds exactly the last \<open>capacity\<close> deltas pushed;
  a range it serves covers every block of the request, each exactly once
  (\<open>ring_range_sound\<close>); and it serves every range that lies inside a
  gap-free window (\<open>ring_range_complete\<close>).
\<close>

definition default_capacity :: nat where
  "default_capacity = 300"

record delta_ring =
  ring_capacity :: nat
  ring_buf :: "block_delta list"

text \<open>\<open>None\<close>: the assertion \<open>capacity > 0\<close> panics.\<close>

definition ring_new :: "nat \<Rightarrow> delta_ring option" where
  "ring_new capacity = (if capacity > 0 then Some \<lparr> ring_capacity = capacity, ring_buf = [] \<rparr> else None)"

definition ring_push :: "delta_ring \<Rightarrow> block_delta \<Rightarrow> delta_ring" where
  "ring_push r d =
     (let buf = (if length (ring_buf r) = ring_capacity r then tl (ring_buf r) else ring_buf r)
      in r\<lparr>ring_buf := buf @ [d]\<rparr>)"

definition ring_range :: "delta_ring \<Rightarrow> u64 \<Rightarrow> u64 \<Rightarrow> block_delta option" where
  "ring_range r from_block to_block =
     (if from_block \<ge> to_block then None
      else
        let want = to_block - from_block;
            selected = filter (\<lambda>d. delta_block d > from_block \<and> delta_block d \<le> to_block) (ring_buf r) in
        if length selected \<noteq> unat want then None
        else (case coalesce selected of Inl _ \<Rightarrow> None | Inr d \<Rightarrow> Some d))"

definition ring_oldest :: "delta_ring \<Rightarrow> u64 option" where
  "ring_oldest r = (case ring_buf r of [] \<Rightarrow> None | d # _ \<Rightarrow> Some (delta_block d))"

definition ring_head :: "delta_ring \<Rightarrow> u64 option" where
  "ring_head r = (if ring_buf r = [] then None else Some (delta_block (last (ring_buf r))))"

section \<open>The window\<close>

lemma ring_push_window:
  assumes "0 < ring_capacity r" and "ring_buf r = drop (length ds - ring_capacity r) ds"
  shows "ring_buf (ring_push r d) = drop (length (ds @ [d]) - ring_capacity r) (ds @ [d])"
    and "ring_capacity (ring_push r d) = ring_capacity r"
proof -
  show "ring_capacity (ring_push r d) = ring_capacity r" by (simp add: ring_push_def Let_def)
  show "ring_buf (ring_push r d) = drop (length (ds @ [d]) - ring_capacity r) (ds @ [d])"
  proof (cases "ring_capacity r \<le> length ds")
    case True
    then have "Suc (length ds) - ring_capacity r = Suc (length ds - ring_capacity r)" by simp
    then show ?thesis
      using assms True by (simp add: ring_push_def Let_def tl_drop drop_Suc)
  qed (use assms in \<open>simp add: ring_push_def Let_def\<close>)
qed

lemma ring_pushes_window:
  assumes "ring_new capacity = Some r"
  shows "ring_buf (foldl ring_push r ds) = drop (length ds - capacity) ds \<and>
    ring_capacity (foldl ring_push r ds) = capacity"
proof -
  have r: "ring_capacity r = capacity" "ring_buf r = []" "0 < capacity"
    using assms by (auto simp: ring_new_def split: if_splits)
  show ?thesis
  proof (induction ds rule: rev_induct)
    case Nil
    then show ?case using r by simp
  next
    case (snoc d ds)
    then show ?case using ring_push_window[of "foldl ring_push r ds" ds d] r(3) by simp
  qed
qed

section \<open>Ranges\<close>

text \<open>A list of deltas whose blocks are \<open>start\<close>, \<open>start + 1\<close>, \<dots> as numbers.\<close>

definition block_run :: "nat \<Rightarrow> block_delta list \<Rightarrow> bool" where
  "block_run start ds \<longleftrightarrow> (\<forall>i < length ds. unat (delta_block (ds ! i)) = start + i)"

lemma block_run_no_wrap:
  assumes "\<And>i. i < n \<Longrightarrow> lo < h + of_nat i" and "0 < n"
  shows "i < n \<Longrightarrow> unat (h + of_nat i :: u64) = unat h + i"
proof (induction i)
  case 0
  then show ?case by simp
next
  case (Suc i)
  then have IH: "unat (h + of_nat i) = unat h + i" by simp
  have "unat (h + of_nat i) + 1 \<noteq> 2 ^ 64"
  proof
    assume e: "unat (h + of_nat i) + 1 = 2 ^ 64"
    have "h + of_nat (Suc i) = (h + of_nat i) + 1" by simp
    then have "unat (h + of_nat (Suc i)) = (unat (h + of_nat i) + 1) mod 2 ^ 64"
      by (simp only:) (simp add: unat_word_ariths)
    then have "h + of_nat (Suc i) = 0" using e by (simp add: unat_eq_zero)
    then show False using assms(1)[OF Suc.prems] by simp
  qed
  then have lt: "unat (h + of_nat i) + 1 < 2 ^ 64"
    using unsigned_less[of "h + of_nat i :: u64", where 'a = nat] by simp
  have "h + of_nat (Suc i) = (h + of_nat i) + 1" by simp
  then have "unat (h + of_nat (Suc i)) = (unat (h + of_nat i) + 1) mod 2 ^ 64"
    by (simp only:) (simp add: unat_word_ariths)
  then show ?case using lt IH by simp
qed

lemma ring_range_sound:
  assumes "ring_range r from_block to_block = Some d"
  shows "from_block < to_block \<and> delta_block d = to_block \<and> canonical_delta d \<and>
    (\<exists>ds. ds = filter (\<lambda>d. delta_block d > from_block \<and> delta_block d \<le> to_block) (ring_buf r) \<and>
       length ds = unat to_block - unat from_block \<and> block_run (Suc (unat from_block)) ds \<and>
       (\<forall>j row off. delta_effect d j row off = (\<Sum>d' \<leftarrow> ds. delta_effect d' j row off)))"
proof -
  let ?ds = "filter (\<lambda>d. delta_block d > from_block \<and> delta_block d \<le> to_block) (ring_buf r)"
  from assms have lt: "from_block < to_block" and len: "length ?ds = unat (to_block - from_block)"
    and c: "coalesce ?ds = Inr d"
    by (auto simp: ring_range_def Let_def not_le split: if_splits sum.splits)
  have "unat (to_block - from_block) = unat to_block - unat from_block"
    using lt by (intro unat_sub) simp
  with len have n: "length ?ds = unat to_block - unat from_block" by simp
  from coalesce_InrD[OF c] have ne: "?ds \<noteq> []" and run: "contiguous_run ?ds" by auto
  let ?h = "delta_block (hd ?ds)"
  have blk: "delta_block (?ds ! i) = ?h + of_nat i" if "i < length ?ds" for i
    using run that by (simp add: contiguous_run_def)
  have rng: "from_block < ?h + of_nat i \<and> ?h + of_nat i \<le> to_block" if "i < length ?ds" for i
    using nth_mem[OF that] blk[OF that] by simp
  have u: "unat (?h + of_nat i) = unat ?h + i" if "i < length ?ds" for i
    using block_run_no_wrap[of "length ?ds" from_block ?h i] rng that ne by blast
  have h0: "unat from_block < unat ?h" using rng[of 0] ne by (simp add: word_less_nat_alt)
  have l: "length ?ds - 1 < length ?ds" using ne by (cases ?ds) auto
  have "unat ?h + (length ?ds - 1) \<le> unat to_block"
    using rng[OF l] u[OF l] by (simp add: word_le_nat_alt)
  then have h: "unat ?h = Suc (unat from_block)" using n h0 l by linarith
  have br: "block_run (Suc (unat from_block)) ?ds"
    using blk u h by (simp add: block_run_def)
  have "delta_block (last ?ds) = to_block"
  proof -
    have "last ?ds = ?ds ! (length ?ds - 1)" using ne by (rule last_conv_nth)
    then have "unat (delta_block (last ?ds)) = Suc (unat from_block) + (length ?ds - 1)"
      using br l by (simp add: block_run_def)
    then show ?thesis using n l by (simp add: word_unat_eq_iff)
  qed
  then have "delta_block d = to_block" using coalesce_shape(1)[OF c] by simp
  then show ?thesis
    using lt n br coalesce_shape(2,4)[OF c] by auto
qed

lemma ring_range_length:
  assumes "ring_range r from_block to_block = Some d" and "\<forall>d \<in> set (ring_buf r). length (per_segment d) = n"
  shows "length (per_segment d) = n"
proof -
  let ?ds = "filter (\<lambda>d. delta_block d > from_block \<and> delta_block d \<le> to_block) (ring_buf r)"
  have c: "coalesce ?ds = Inr d"
    using assms(1) by (auto simp: ring_range_def Let_def not_le split: if_splits sum.splits)
  then have "?ds \<noteq> []" using coalesce_InrD by blast
  then have "hd ?ds \<in> set (ring_buf r)" using hd_in_set[of ?ds] by auto
  then show ?thesis using coalesce_shape(3)[OF c] assms(2) by simp
qed

lemma filter_run:
  assumes run: "block_run start ds" and "start \<le> Suc lo" and "lo < hi" and "hi < start + length ds"
  shows "filter (\<lambda>d. lo < unat (delta_block d) \<and> unat (delta_block d) \<le> hi) ds =
    take (hi - lo) (drop (Suc lo - start) ds)"
proof -
  let ?P = "\<lambda>d. lo < unat (delta_block d) \<and> unat (delta_block d) \<le> hi"
  let ?a = "Suc lo - start" and ?n = "hi - lo"
  have split: "ds = take ?a ds @ take ?n (drop ?a ds) @ drop (?n + ?a) ds"
    by (metis append_take_drop_id drop_drop)
  have "filter ?P (take ?a ds) = []"
    using run by (force simp: filter_empty_conv in_set_conv_nth block_run_def)
  moreover have "filter ?P (take ?n (drop ?a ds)) = take ?n (drop ?a ds)"
  proof (rule filter_True, rule ballI)
    fix x assume "x \<in> set (take ?n (drop ?a ds))"
    then obtain i where i: "i < ?n" "?a + i < length ds" "x = ds ! (?a + i)"
      by (auto simp: in_set_conv_nth)
    then have "unat (delta_block x) = start + (?a + i)" using run by (simp add: block_run_def)
    then show "?P x" using i(1) assms(2,3) by auto
  qed
  moreover have "filter ?P (drop (?n + ?a) ds) = []"
  proof -
    have "\<not> ?P x" if x: "x \<in> set (drop (?n + ?a) ds)" for x
    proof -
      from x obtain i where "i < length ds - (?n + ?a)" "x = drop (?n + ?a) ds ! i"
        by (metis in_set_conv_nth length_drop)
      then have "?n + ?a + i < length ds" "x = ds ! (?n + ?a + i)" by simp_all
      then have "unat (delta_block x) = start + (?n + ?a + i)" using run by (simp add: block_run_def)
      then show ?thesis using assms(2,3) by auto
    qed
    then show ?thesis by (simp add: filter_empty_conv)
  qed
  moreover have "filter ?P ds = filter ?P (take ?a ds @ take ?n (drop ?a ds) @ drop (?n + ?a) ds)"
    using split by (rule arg_cong)
  ultimately show ?thesis by (simp only: filter_append append_Nil append_Nil2)
qed

lemma ring_range_complete:
  assumes run: "block_run start (ring_buf r)" and "start \<le> Suc (unat from_block)"
    and lt: "from_block < to_block" and "unat to_block < start + length (ring_buf r)"
    and segs: "\<forall>d \<in> set (ring_buf r). length (per_segment d) = n"
    and mag: "(\<Sum>d \<leftarrow> ring_buf r. delta_mag d) < 2 ^ 63"
  shows "\<exists>d. ring_range r from_block to_block = Some d"
proof -
  let ?lo = "unat from_block" and ?hi = "unat to_block"
  let ?ds = "filter (\<lambda>d. delta_block d > from_block \<and> delta_block d \<le> to_block) (ring_buf r)"
  let ?a = "Suc ?lo - start"
  have ds: "?ds = take (?hi - ?lo) (drop ?a (ring_buf r))"
    using filter_run[OF run assms(2) _ assms(4), of ] lt by (simp add: word_less_nat_alt word_le_nat_alt)
  have want: "unat (to_block - from_block) = ?hi - ?lo"
    using lt by (intro unat_sub) simp
  have len: "length ?ds = ?hi - ?lo"
    unfolding ds using assms(2,4) lt by (auto simp: word_less_nat_alt)
  have ne: "?ds \<noteq> []" using len lt by (auto simp: word_less_nat_alt)
  have nth: "unat (delta_block (?ds ! i)) = Suc ?lo + i" if i: "i < length ?ds" for i
  proof -
    have a: "?a + i < length (ring_buf r)" using i unfolding ds length_take length_drop by linarith
    then have "?ds ! i = ring_buf r ! (?a + i)" using i unfolding ds by simp
    with a show ?thesis using run assms(2) by (simp add: block_run_def)
  qed
  have "contiguous_run ?ds"
    unfolding contiguous_run_def
  proof (intro allI impI conjI)
    fix i assume i: "i < length ?ds"
    have "unat (delta_block (hd ?ds)) = Suc ?lo" using nth[of 0] ne by (simp add: hd_conv_nth)
    then have "unat (delta_block (?ds ! i)) = unat (delta_block (hd ?ds)) + i" using nth[OF i] by simp
    then have "of_nat (unat (delta_block (?ds ! i))) = (of_nat (unat (delta_block (hd ?ds))) + of_nat i :: u64)"
      by (simp only: of_nat_add)
    then show "delta_block (?ds ! i) = delta_block (hd ?ds) + of_nat i" by simp
    have "?ds ! i \<in> set (ring_buf r)" "hd ?ds \<in> set (ring_buf r)"
      using nth_mem[OF i] hd_in_set[OF ne] by auto
    then show "length (per_segment (?ds ! i)) = length (per_segment (hd ?ds))" using segs by simp
  qed
  moreover have "(\<Sum>d \<leftarrow> filter P ds. delta_mag d) \<le> (\<Sum>d \<leftarrow> ds. delta_mag d)" for P ds
    by (induction ds) (auto intro: add_increasing)
  ultimately obtain d where "coalesce ?ds = Inr d"
    using coalesce_total[OF ne] mag by (meson le_less_trans)
  then show ?thesis using lt len want by (auto simp: ring_range_def Let_def)
qed

section \<open>Properties\<close>

text \<open>A range the ring serves is complete: it is the coalesced sum of exactly the blocks
  \<open>from + 1\<close> to \<open>to\<close>, each once and in order; nothing that aged out is silently missing.\<close>

theorem ring_range_is_complete_sum:
  assumes "ring_range r from_block to_block = Some d"
  shows "from_block < to_block \<and> delta_block d = to_block \<and> canonical_delta d \<and>
    (\<exists>ds. set ds \<subseteq> set (ring_buf r) \<and>
       length ds = unat to_block - unat from_block \<and> block_run (Suc (unat from_block)) ds \<and>
       (\<forall>j row off. delta_effect d j row off = (\<Sum>d' \<leftarrow> ds. delta_effect d' j row off)))"
proof -
  from ring_range_sound[OF assms] obtain ds where
    ds: "ds = filter (\<lambda>d. delta_block d > from_block \<and> delta_block d \<le> to_block) (ring_buf r)"
    and rest: "length ds = unat to_block - unat from_block" "block_run (Suc (unat from_block)) ds"
      "\<forall>j row off. delta_effect d j row off = (\<Sum>d' \<leftarrow> ds. delta_effect d' j row off)"
    by blast
  have "set ds \<subseteq> set (ring_buf r)" unfolding ds by (rule filter_is_subset)
  then show ?thesis using ring_range_sound[OF assms] rest by blast
qed

definition example_ring :: delta_ring where
  "example_ring = \<lparr> ring_capacity = 2,
     ring_buf = [example_delta 7 [(1, 5)], example_delta 8 [(1, - 5), (2, 1)]] \<rparr>"

lemma ring_range_is_complete_sum_witness:
  "(6 :: u64) < 8 \<and> (\<exists>ds. set ds \<subseteq> set (ring_buf example_ring) \<and> length ds = unat (8 :: u64) - unat (6 :: u64))"
proof -
  have "ring_range example_ring 6 8 = Some (example_delta 8 [(2, 1)])" by code_simp
  from ring_range_is_complete_sum[OF this] show ?thesis by blast
qed

text \<open>Conversely, a ring whose blocks are consecutive serves every range inside its window.\<close>

theorem ring_range_serves_window:
  assumes "block_run start (ring_buf r)" and "start \<le> Suc (unat from_block)"
    and "from_block < to_block" and "unat to_block < start + length (ring_buf r)"
    and "\<forall>d \<in> set (ring_buf r). length (per_segment d) = n"
    and "(\<Sum>d \<leftarrow> ring_buf r. delta_mag d) < 2 ^ 63"
  shows "\<exists>d. ring_range r from_block to_block = Some d"
  by (rule ring_range_complete[OF assms])

lemma ring_range_serves_window_witness: "\<exists>d. ring_range example_ring 7 8 = Some d"
proof (rule ring_range_serves_window[where start = 7 and n = 2])
  show "block_run 7 (ring_buf example_ring)"
    by (simp add: block_run_def example_ring_def example_delta_def All_less_Suc2)
qed (simp_all add: example_ring_def example_delta_def delta_mag_def)

text \<open>After any sequence of pushes the ring holds exactly the last \<open>capacity\<close> deltas pushed,
  in order.\<close>

theorem ring_keeps_last_pushed:
  assumes "ring_new capacity = Some r"
  shows "ring_buf (foldl ring_push r ds) = drop (length ds - capacity) ds"
  using ring_pushes_window[OF assms] by blast

lemma ring_keeps_last_pushed_witness:
  "ring_buf (foldl ring_push \<lparr> ring_capacity = 1, ring_buf = [] \<rparr> [example_delta 7 [], example_delta 8 []]) =
    [example_delta 8 []]"
  using ring_keeps_last_pushed[of 1 "\<lparr> ring_capacity = 1, ring_buf = [] \<rparr>" "[example_delta 7 [], example_delta 8 []]"]
  by (simp add: ring_new_def)

end
