(* ===== verification/Fold.thy ===== *)
theory Fold
  imports Cuckoo
begin

text \<open>
  Model of \<open>crates/risepir-server/src/fold.rs\<close>: the slot mutations a block made,
  folded into one sparse cell delta per segment.

  The mutation log and the packing of a slot into cells belong to the external
  store crate (theory \<open>Cuckoo\<close>); \<open>log_replays\<close> states the log's documented contract: every entry carries
  the cells of the slot before and after the write.  Under it the folded delta is
  exactly the difference between the database after and before the block, whatever
  the intermediate values (\<open>fold_exact\<close>); the \<open>i64\<close> sums wrap as unchecked
  additions do, and the wrap cancels.
\<close>

abbreviation slot_cells :: "cuckoo_params \<Rightarrow> nat" where
  "slot_cells p \<equiv> unat (cp_cells_per_slot p)"

section \<open>\<open>fold_mutations_into_row_deltas\<close>\<close>

text \<open>The loop over the cells of one slot, from cell \<open>c\<close>; \<open>None\<close> is a panic.\<close>

fun fold_cells :: "nat \<Rightarrow> nat \<Rightarrow> nat \<Rightarrow> u32 list \<Rightarrow> u32 list \<Rightarrow> (u16, i64) btree \<Rightarrow> (u16, i64) btree option" where
  "fold_cells base c 0 new_buf old_buf row_entry = Some row_entry"
| "fold_cells base c (Suc n) new_buf old_buf row_entry =
     Option.bind (get new_buf c) (\<lambda>new.
     Option.bind (get old_buf c) (\<lambda>old.
     let delta = (ucast new :: i64) - ucast old in
     if delta = 0 then fold_cells base (Suc c) n new_buf old_buf row_entry
     else if base + c \<ge> 2 ^ 16 then None
     else
       let cell_offset = of_nat (base + c) in
       fold_cells base (Suc c) n new_buf old_buf
         (bt_insert cell_offset (bt_get_or 0 row_entry cell_offset + delta) row_entry)))"

definition fold_mutation :: "cuckoo_params \<Rightarrow> slot_mutation \<Rightarrow> (u32, (u16, i64) btree) btree list
    \<Rightarrow> (u32, (u16, i64) btree) btree list option" where
  "fold_mutation p m acc =
     (if cp_segment_size p = 0 then None
      else
        let seg_idx = unat (mut_bucket m div cp_segment_size p);
            bucket_in_seg = mut_bucket m mod cp_segment_size p;
            cps = slot_cells p;
            old_buf = cp_pack_slot p (old_fingerprint m) (old_value_cells m);
            new_buf = cp_pack_slot p (new_fingerprint m) (new_value_cells m) in
        Option.bind (get acc seg_idx) (\<lambda>seg.
        Option.bind (fold_cells (mut_slot m * cps) 0 cps new_buf old_buf (bt_get_or [] seg bucket_in_seg))
          (\<lambda>row_entry. Some (acc[seg_idx := bt_insert bucket_in_seg row_entry seg]))))"

fun fold_all :: "cuckoo_params \<Rightarrow> slot_mutation list \<Rightarrow> (u32, (u16, i64) btree) btree list
    \<Rightarrow> (u32, (u16, i64) btree) btree list option" where
  "fold_all p [] acc = Some acc"
| "fold_all p (m # ms) acc = Option.bind (fold_mutation p m acc) (fold_all p ms)"

definition fold_mutations_into_row_deltas :: "slot_mutation list \<Rightarrow> cuckoo_params \<Rightarrow> segment_row_deltas list option" where
  "fold_mutations_into_row_deltas muts p =
     map_option (map emit_rows) (fold_all p muts (replicate (cp_arity p) []))"

section \<open>The log contract\<close>

type_synonym cell_view = "nat \<Rightarrow> u32 \<Rightarrow> u16 \<Rightarrow> u32"

definition mut_seg :: "cuckoo_params \<Rightarrow> slot_mutation \<Rightarrow> nat" where
  "mut_seg p m = unat (mut_bucket m div cp_segment_size p)"

definition mut_row :: "cuckoo_params \<Rightarrow> slot_mutation \<Rightarrow> u32" where
  "mut_row p m = mut_bucket m mod cp_segment_size p"

definition in_slot :: "cuckoo_params \<Rightarrow> slot_mutation \<Rightarrow> u16 \<Rightarrow> bool" where
  "in_slot p m off \<longleftrightarrow> mut_slot m * slot_cells p \<le> unat off \<and>
     unat off < mut_slot m * slot_cells p + slot_cells p"

definition old_cell :: "cuckoo_params \<Rightarrow> slot_mutation \<Rightarrow> u16 \<Rightarrow> u32" where
  "old_cell p m off = cp_pack_slot p (old_fingerprint m) (old_value_cells m) !
     (unat off - mut_slot m * slot_cells p)"

definition new_cell :: "cuckoo_params \<Rightarrow> slot_mutation \<Rightarrow> u16 \<Rightarrow> u32" where
  "new_cell p m off = cp_pack_slot p (new_fingerprint m) (new_value_cells m) !
     (unat off - mut_slot m * slot_cells p)"

definition hits_cell :: "cuckoo_params \<Rightarrow> slot_mutation \<Rightarrow> nat \<Rightarrow> u32 \<Rightarrow> u16 \<Rightarrow> bool" where
  "hits_cell p m seg row off \<longleftrightarrow> seg = mut_seg p m \<and> row = mut_row p m \<and> in_slot p m off"

definition write_slot :: "cuckoo_params \<Rightarrow> slot_mutation \<Rightarrow> cell_view \<Rightarrow> cell_view" where
  "write_slot p m v seg row off = (if hits_cell p m seg row off then new_cell p m off else v seg row off)"

text \<open>\<open>log_replays\<close>: from database \<open>v\<close> the log leads to database \<open>v'\<close>, each entry
  recording the slot's cells before and after.\<close>

fun log_replays :: "cuckoo_params \<Rightarrow> cell_view \<Rightarrow> slot_mutation list \<Rightarrow> cell_view \<Rightarrow> bool" where
  "log_replays p v [] v' \<longleftrightarrow> v' = v"
| "log_replays p v (m # ms) v' \<longleftrightarrow>
     (\<forall>seg row off. hits_cell p m seg row off \<longrightarrow> v seg row off = old_cell p m off) \<and>
     log_replays p (write_slot p m v) ms v'"

text \<open>What the store guarantees of an entry: the segment exists, a slot packs into
  \<open>cells_per_slot\<close> cells, and its offsets fit \<open>u16\<close>.\<close>

definition mut_ok :: "cuckoo_params \<Rightarrow> slot_mutation \<Rightarrow> bool" where
  "mut_ok p m \<longleftrightarrow> cp_segment_size p \<noteq> 0 \<and> mut_seg p m < cp_arity p \<and>
     mut_slot m * slot_cells p + slot_cells p \<le> 2 ^ 16 \<and>
     length (cp_pack_slot p (old_fingerprint m) (old_value_cells m)) = slot_cells p \<and>
     length (cp_pack_slot p (new_fingerprint m) (new_value_cells m)) = slot_cells p"

section \<open>One mutation\<close>

lemma fold_cells_spec:
  assumes "bt_invar m" and "c + n \<le> length new_buf" and "c + n \<le> length old_buf"
    and "base + (c + n) \<le> 2 ^ 16"
  shows "\<exists>m'. fold_cells base c n new_buf old_buf m = Some m' \<and> bt_invar m' \<and>
    (\<forall>off. bt_get_or 0 m' off = bt_get_or 0 m off +
       (if base + c \<le> unat off \<and> unat off < base + (c + n)
        then ucast (new_buf ! (unat off - base)) - ucast (old_buf ! (unat off - base)) else 0))"
  using assms
proof (induction base c n new_buf old_buf m rule: fold_cells.induct)
  case (1 base c new_buf old_buf m)
  then show ?case by (auto simp: not_less)
next
  case (2 base c n new_buf old_buf m)
  let ?d = "(ucast (new_buf ! c) :: i64) - ucast (old_buf ! c)"
  let ?off = "of_nat (base + c) :: u16"
  let ?m = "if ?d = 0 then m else bt_insert ?off (bt_get_or 0 m ?off + ?d) m"
  have c: "get new_buf c = Some (new_buf ! c)" "get old_buf c = Some (old_buf ! c)" "base + c < 2 ^ 16"
    using "2.prems" by (auto simp: get_def)
  have u: "unat ?off = base + c" using c(3) by (simp add: unat_of_nat del: of_nat_add)
  have off: "off = ?off \<longleftrightarrow> unat off = base + c" for off
    using u by (metis word_unat_eq_iff)
  have inv: "bt_invar ?m" using "2.prems"(1) by (simp add: bt_invar_insert)
  have bnd: "Suc c + n \<le> length new_buf" "Suc c + n \<le> length old_buf" "base + (Suc c + n) \<le> 2 ^ 16"
    using "2.prems" by simp_all
  have val: "bt_get_or 0 ?m off = bt_get_or 0 m off + (if unat off = base + c then ?d else 0)" for off
    using off[of off] by (auto simp: bt_get_or_insert)
  have run: "fold_cells base c (Suc n) new_buf old_buf m = fold_cells base (Suc c) n new_buf old_buf ?m"
    using c by (auto simp: Let_def)
  have "\<exists>m'. fold_cells base (Suc c) n new_buf old_buf ?m = Some m' \<and> bt_invar m' \<and>
    (\<forall>off. bt_get_or 0 m' off = bt_get_or 0 ?m off +
       (if base + Suc c \<le> unat off \<and> unat off < base + (Suc c + n)
        then ucast (new_buf ! (unat off - base)) - ucast (old_buf ! (unat off - base)) else 0))"
  proof (cases "?d = 0")
    case True
    then show ?thesis using "2.IH"(1)[OF c(1,2) refl True _ bnd] "2.prems"(1) by simp
  next
    case False
    have "\<not> 2 ^ 16 \<le> base + c" using c(3) by simp
    from "2.IH"(2)[OF c(1,2) refl False this refl _ bnd] inv False show ?thesis by simp
  qed
  then obtain m' where m': "fold_cells base (Suc c) n new_buf old_buf ?m = Some m'" "bt_invar m'"
    "\<And>off. bt_get_or 0 m' off = bt_get_or 0 ?m off +
       (if base + Suc c \<le> unat off \<and> unat off < base + (Suc c + n)
        then ucast (new_buf ! (unat off - base)) - ucast (old_buf ! (unat off - base)) else 0)" by blast
  have "bt_get_or 0 m' off = bt_get_or 0 m off +
       (if base + c \<le> unat off \<and> unat off < base + (c + Suc n)
        then ucast (new_buf ! (unat off - base)) - ucast (old_buf ! (unat off - base)) else 0)" for off
    unfolding m'(3) val by (cases "unat off = base + c") auto
  then show ?case using run m'(1,2) by auto
qed

definition acc_val :: "(u32, (u16, i64) btree) btree list \<Rightarrow> nat \<Rightarrow> u32 \<Rightarrow> u16 \<Rightarrow> i64" where
  "acc_val acc seg row off =
     (if seg < length acc then bt_get_or 0 (bt_get_or [] (acc ! seg) row) off else 0)"

lemma fold_mutation_spec:
  assumes "acc_invar acc" and "length acc = cp_arity p" and "mut_ok p m"
  shows "\<exists>acc'. fold_mutation p m acc = Some acc' \<and> acc_invar acc' \<and> length acc' = length acc \<and>
    (\<forall>seg row off. acc_val acc' seg row off = acc_val acc seg row off +
       (if hits_cell p m seg row off then ucast (new_cell p m off) - ucast (old_cell p m off) else 0))"
proof -
  let ?s = "mut_seg p m" and ?r = "mut_row p m"
  have s: "?s < length acc" and sz: "cp_segment_size p \<noteq> 0"
    using assms(2,3) by (auto simp: mut_ok_def)
  have inv: "nested_invar (acc ! ?s)" using assms(1) s by (simp add: acc_invar_def)
  from fold_cells_spec[OF nested_invar_get[OF inv, of ?r], of 0 "slot_cells p"
      "cp_pack_slot p (new_fingerprint m) (new_value_cells m)"
      "cp_pack_slot p (old_fingerprint m) (old_value_cells m)"
      "mut_slot m * slot_cells p"] assms(3)
  obtain re where re: "fold_cells (mut_slot m * slot_cells p) 0 (slot_cells p)
      (cp_pack_slot p (new_fingerprint m) (new_value_cells m))
      (cp_pack_slot p (old_fingerprint m) (old_value_cells m)) (bt_get_or [] (acc ! ?s) ?r) = Some re"
    "bt_invar re"
    "\<And>off. bt_get_or 0 re off = bt_get_or 0 (bt_get_or [] (acc ! ?s) ?r) off +
       (if in_slot p m off then ucast (new_cell p m off) - ucast (old_cell p m off) else 0)"
    by (auto simp: mut_ok_def in_slot_def new_cell_def old_cell_def)
  let ?acc = "acc[?s := bt_insert ?r re (acc ! ?s)]"
  have run: "fold_mutation p m acc = Some ?acc"
    using s sz re(1) by (simp add: fold_mutation_def Let_def get_def mut_seg_def mut_row_def)
  have "nested_invar (bt_insert ?r re (acc ! ?s))" by (rule nested_invar_insert[OF inv re(2)])
  then have "acc_invar ?acc"
    using assms(1) set_update_subset_insert[of acc ?s "bt_insert ?r re (acc ! ?s)"]
    by (auto simp: acc_invar_def)
  moreover have "acc_val ?acc seg row off = acc_val acc seg row off +
       (if hits_cell p m seg row off then ucast (new_cell p m off) - ucast (old_cell p m off) else 0)"
    for seg row off
    using s re(3)[of off]
    by (cases "seg = ?s"; cases "row = ?r") (simp_all add: acc_val_def hits_cell_def bt_get_or_insert)
  ultimately show ?thesis using run by auto
qed

section \<open>The whole log\<close>

lemma write_slot_diff:
  assumes "\<forall>seg row off. hits_cell p m seg row off \<longrightarrow> v seg row off = old_cell p m off"
  shows "(ucast (write_slot p m v seg row off) :: i64) = ucast (v seg row off) +
    (if hits_cell p m seg row off then ucast (new_cell p m off) - ucast (old_cell p m off) else 0)"
  using assms by (simp add: write_slot_def)

lemma fold_all_spec:
  assumes "acc_invar acc" and "length acc = cp_arity p" and "\<forall>m \<in> set muts. mut_ok p m"
    and "log_replays p v muts v'"
  shows "\<exists>acc'. fold_all p muts acc = Some acc' \<and> acc_invar acc' \<and> length acc' = length acc \<and>
    (\<forall>seg row off. acc_val acc' seg row off =
       acc_val acc seg row off + (ucast (v' seg row off) - ucast (v seg row off)))"
  using assms
proof (induction muts arbitrary: acc v)
  case Nil
  then show ?case by simp
next
  case (Cons m muts)
  have ok: "mut_ok p m" using Cons.prems(3) by simp
  from fold_mutation_spec[OF Cons.prems(1,2) ok] obtain acc1 where
    a1: "fold_mutation p m acc = Some acc1" "acc_invar acc1" "length acc1 = length acc"
      "\<And>seg row off. acc_val acc1 seg row off = acc_val acc seg row off +
       (if hits_cell p m seg row off then ucast (new_cell p m off) - ucast (old_cell p m off) else 0)"
    by blast
  have log: "\<forall>seg row off. hits_cell p m seg row off \<longrightarrow> v seg row off = old_cell p m off"
    "log_replays p (write_slot p m v) muts v'" using Cons.prems(4) by auto
  have "length acc1 = cp_arity p" using a1(3) Cons.prems(2) by simp
  from Cons.IH[OF a1(2) this _ log(2)] Cons.prems(3) obtain acc2 where
    a2: "fold_all p muts acc1 = Some acc2" "acc_invar acc2" "length acc2 = length acc1"
      "\<And>seg row off. acc_val acc2 seg row off =
         acc_val acc1 seg row off + (ucast (v' seg row off) - ucast (write_slot p m v seg row off))"
    by auto
  have "acc_val acc2 seg row off =
      acc_val acc seg row off + (ucast (v' seg row off) - ucast (v seg row off))" for seg row off
    unfolding a2(4) a1(4) write_slot_diff[OF log(1)] by simp
  then show ?case using a1(1,3) a2(1-3) by auto
qed

lemma sint_diff_u32: "sint ((ucast (a :: u32) :: i64) - ucast (b :: u32)) = uint a - uint b"
proof -
  have u: "uint x < 2 ^ 32" "0 \<le> uint x" for x :: u32
    using unsigned_less[of x, where 'a = int] by simp_all
  have "sint (ucast x :: i64) = uint x" for x :: u32
  proof -
    have "uint (ucast x :: i64) = uint x" using u[of x] by (simp add: unsigned_ucast_eq take_bit_int_eq_self)
    moreover have "- (2 ^ 63) \<le> uint x" by (rule order_trans[of _ 0]) (simp_all add: u)
    moreover have "uint x < 2 ^ 63" using u(1)[of x] by simp
    ultimately show ?thesis unfolding sint_uint by (simp only:) (simp add: signed_take_bit_int_eq_self)
  qed
  moreover have "- (2 ^ 63) \<le> uint a - uint b" using u(1)[of b] u(2)[of a] by (simp, linarith)
  moreover have "uint a - uint b < 2 ^ 63" using u(1)[of a] u(2)[of b] by (simp, linarith)
  ultimately show ?thesis by (simp add: sint_word_ariths signed_take_bit_int_eq_self)
qed

lemma fold_mutations_spec:
  assumes "\<forall>m \<in> set muts. mut_ok p m" and "log_replays p v muts v'"
  shows "\<exists>rows. fold_mutations_into_row_deltas muts p = Some rows \<and> length rows = cp_arity p \<and>
    (\<forall>rs \<in> set rows. canonical_rows rs) \<and>
    (\<forall>seg < cp_arity p. \<forall>row off.
       rows_effect (rows ! seg) row off = uint (v' seg row off) - uint (v seg row off))"
proof -
  from fold_all_spec[of "replicate (cp_arity p) []" p muts v v'] assms obtain acc where
    acc: "fold_all p muts (replicate (cp_arity p) []) = Some acc" "acc_invar acc" "length acc = cp_arity p"
    "\<And>seg row off. acc_val acc seg row off =
       acc_val (replicate (cp_arity p) []) seg row off + (ucast (v' seg row off) - ucast (v seg row off))"
    by auto
  have "rows_effect (acc ! seg) row off = uint (v' seg row off) - uint (v seg row off)"
    if seg: "seg < cp_arity p" for seg row off
  proof -
    have inv: "nested_invar (acc ! seg)" using acc(2,3) seg by (simp add: acc_invar_def)
    then have "rows_effect (acc ! seg) row off = sint (acc_val acc seg row off)"
      using acc(3) seg nested_invar_get[OF inv, of row]
      by (simp add: acc_val_def rows_effect_lookup nested_invar_def cells_effect_lookup)
    also have "acc_val acc seg row off = ucast (v' seg row off) - ucast (v seg row off)"
      using acc(4)[of seg row off] seg by (simp add: acc_val_def bt_get_or_def)
    finally show ?thesis by (simp add: sint_diff_u32)
  qed
  then show ?thesis
    using acc by (auto simp: fold_mutations_into_row_deltas_def rows_effect_emit acc_invar_def
        intro: emit_rows_canonical)
qed

section \<open>Properties\<close>

text \<open>C21. Folding the mutation log of a block yields, per segment, a canonical row delta that is at
  every cell exactly the difference between the database after and before the block; the fold
  never panics on a log of the documented shape, and its wrapping sums lose nothing.\<close>

theorem fold_is_exact_difference:
  assumes "\<forall>m \<in> set muts. mut_ok p m" and "log_replays p v muts v'"
  shows "\<exists>rows. fold_mutations_into_row_deltas muts p = Some rows \<and> length rows = cp_arity p \<and>
    (\<forall>rs \<in> set rows. canonical_rows rs) \<and>
    (\<forall>seg < cp_arity p. \<forall>row off.
       rows_effect (rows ! seg) row off = uint (v' seg row off) - uint (v seg row off))"
  by (rule fold_mutations_spec[OF assms])

definition example_params :: cuckoo_params where
  "example_params = \<lparr> cp_arity = 1, cp_segment_size = 1, cp_bucket_size = 1, cp_cells_per_slot = 1,
     cp_value_size = 1, cp_plaintext_bits = 9,
     cp_candidate_buckets = (\<lambda>_. (1, [0])), cp_slot_cell_range = (\<lambda>_ _. (0, 1)),
     cp_unpack_slot = (\<lambda>cells. (if hd cells = 0 then 0 else 1, [ucast (hd cells - 1)])),
     cp_pack_slot = (\<lambda>fp cells. [if fp = 0 then 0 else hd cells + 1]) \<rparr>"

definition example_mutation :: "u32 \<Rightarrow> u32 \<Rightarrow> slot_mutation" where
  "example_mutation old new = \<lparr> mut_bucket = 0, mut_slot = 0, old_fingerprint = 1, old_value_cells = [old],
     new_fingerprint = 1, new_value_cells = [new] \<rparr>"

definition example_view :: "u32 \<Rightarrow> cell_view" where
  "example_view x seg row off = (if seg = 0 \<and> row = 0 \<and> off = 0 then x + 1 else 0)"

lemma example_mut_hits: "hits_cell example_params (example_mutation a b) seg row off \<longleftrightarrow> seg = 0 \<and> row = 0 \<and> off = 0"
proof -
  have "unat off < Suc 0 \<longleftrightarrow> off = 0" by (simp add: unat_eq_zero)
  then show ?thesis
    by (auto simp: hits_cell_def mut_seg_def mut_row_def in_slot_def example_params_def example_mutation_def)
qed

lemma example_old: "old_cell example_params (example_mutation a b) 0 = a + 1"
  "new_cell example_params (example_mutation a b) 0 = b + 1"
  by (simp_all add: old_cell_def new_cell_def example_params_def example_mutation_def)

lemma example_mut_ok: "mut_ok example_params (example_mutation a b)"
  by (simp add: mut_ok_def mut_seg_def example_params_def example_mutation_def)

lemma example_replays:
  "log_replays example_params (example_view a) [example_mutation a b, example_mutation b c] (example_view c)"
  by (auto simp: example_mut_hits example_old example_view_def write_slot_def intro!: ext)

lemma fold_is_exact_difference_witness:
  "\<exists>rows. fold_mutations_into_row_deltas [example_mutation 5 9, example_mutation 9 2] example_params = Some rows \<and>
    rows_effect (rows ! 0) 0 0 = uint (example_view 2 0 0 0) - uint (example_view 5 0 0 0)"
proof -
  have ok: "\<forall>m \<in> set [example_mutation 5 9, example_mutation 9 2]. mut_ok example_params m"
    by (simp add: example_mut_ok)
  have "0 < cp_arity example_params" by (simp add: example_params_def)
  with fold_is_exact_difference[OF ok example_replays] show ?thesis by blast
qed

end
