(* ===== verification/Verified.thy ===== *)
theory Verified
  imports Cuckoo Value_Codec
begin

text \<open>
  Model of \<open>crates/risepir-server/src/verified.rs\<close>: the scan of a key's candidate
  buckets that classifies the key's presence before any key-addressed write, and
  the verified read.  The lemmas give both as functions of the slots in probe
  order (\<open>locate_spec\<close>, \<open>verified_get_spec\<close>): a foreign entry is never
  read as the key's, and \<open>Own\<close> is only answered when the first fingerprint match in
  probe order is the key's single entry.
\<close>

section \<open>Operations\<close>

datatype located = Own balance | Absent u32 | Shadowed | DuplicateTag | Corrupt

definition read_slot :: "cuckoo_params \<Rightarrow> u32 list \<Rightarrow> u32 \<times> u32 \<Rightarrow> (u64 \<times> bytes) option" where
  "read_slot cp cells probe =
     (case probe of (bucket, slot) \<Rightarrow>
        let (s, e) = cp_slot_cell_range cp bucket slot in
        if s \<le> e then map_option (cp_unpack_slot cp) (get_range cells s (e - s)) else None)"

text \<open>The two nested loops: candidate buckets in order, slots ascending.\<close>

definition probes :: "cuckoo_params \<Rightarrow> u32 list \<Rightarrow> (u32 \<times> u32) list" where
  "probes cp indices =
     concat (map (\<lambda>bucket. map (\<lambda>slot. (bucket, of_nat slot)) [0..<unat (cp_bucket_size cp)])
       (take (cp_arity cp) indices))"

fun locate_loop :: "(bytes \<Rightarrow> u64 \<Rightarrow> u64) \<Rightarrow> cuckoo_params \<Rightarrow> value_codec \<Rightarrow> address_hash \<Rightarrow> u64 \<Rightarrow> u64 \<Rightarrow> u32 list
    \<Rightarrow> (u32 \<times> u32) list \<Rightarrow> u32 \<Rightarrow> bool \<Rightarrow> lookup option \<Rightarrow> located option" where
  "locate_loop xxh cp codec key fp tag cells [] foreign foreign_first ours =
     Some (case ours of
         None \<Rightarrow> Absent foreign
       | Some l \<Rightarrow>
           if foreign_first then Shadowed
           else (case l of Found b \<Rightarrow> Own b | NotFound \<Rightarrow> Corrupt | DecodeFailed \<Rightarrow> Corrupt))"
| "locate_loop xxh cp codec key fp tag cells (p # ps) foreign foreign_first ours =
     Option.bind (read_slot cp cells p) (\<lambda>(slot_fp, value_bytes).
     if slot_fp \<noteq> fp then locate_loop xxh cp codec key fp tag cells ps foreign foreign_first ours
     else
       Option.bind (extract_key_tag codec value_bytes) (\<lambda>t.
       if t = tag then
         (if ours \<noteq> None then Some DuplicateTag
          else Option.bind (decode xxh codec key value_bytes) (\<lambda>l.
            locate_loop xxh cp codec key fp tag cells ps foreign (foreign_first \<or> foreign > 0) (Some l)))
       else locate_loop xxh cp codec key fp tag cells ps (foreign + 1) foreign_first ours))"

definition locate :: "(bytes \<Rightarrow> u64 \<Rightarrow> u64) \<Rightarrow> cuckoo_params \<Rightarrow> value_codec \<Rightarrow> u32 list \<Rightarrow> address_hash \<Rightarrow> located option" where
  "locate xxh cp codec cells key =
     (let (fp, indices) = cp_candidate_buckets cp key in
      locate_loop xxh cp codec key fp (key_tag xxh codec key) cells (probes cp indices) 0 False None)"

text \<open>The re-scan of the shadowed case.\<close>

fun rescan :: "(bytes \<Rightarrow> u64 \<Rightarrow> u64) \<Rightarrow> cuckoo_params \<Rightarrow> value_codec \<Rightarrow> address_hash \<Rightarrow> u64 \<Rightarrow> u64 \<Rightarrow> u32 list
    \<Rightarrow> (u32 \<times> u32) list \<Rightarrow> (located + balance option) option" where
  "rescan xxh cp codec key fp tag cells [] = Some (Inl Corrupt)"
| "rescan xxh cp codec key fp tag cells (p # ps) =
     Option.bind (read_slot cp cells p) (\<lambda>(slot_fp, value_bytes).
     if slot_fp \<noteq> fp then rescan xxh cp codec key fp tag cells ps
     else
       Option.bind (extract_key_tag codec value_bytes) (\<lambda>t.
       if t = tag then
         map_option (\<lambda>l. case l of Found b \<Rightarrow> Inr (Some b) | _ \<Rightarrow> Inl Corrupt) (decode xxh codec key value_bytes)
       else rescan xxh cp codec key fp tag cells ps))"

definition verified_get :: "(bytes \<Rightarrow> u64 \<Rightarrow> u64) \<Rightarrow> cuckoo_params \<Rightarrow> value_codec \<Rightarrow> u32 list \<Rightarrow> address_hash
    \<Rightarrow> (located + balance option) option" where
  "verified_get xxh cp codec cells key =
     Option.bind (locate xxh cp codec cells key) (\<lambda>l.
     case l of
       Own b \<Rightarrow> Some (Inr (Some b))
     | Shadowed \<Rightarrow>
         (let (fp, indices) = cp_candidate_buckets cp key in
          rescan xxh cp codec key fp (key_tag xxh codec key) cells (probes cp indices))
     | Absent _ \<Rightarrow> Some (Inr None)
     | err \<Rightarrow> Some (Inl err))"

section \<open>As functions of the slots in probe order\<close>

text \<open>The slots of the key's candidate buckets, when none is out of range.\<close>

fun read_slots :: "cuckoo_params \<Rightarrow> u32 list \<Rightarrow> (u32 \<times> u32) list \<Rightarrow> (u64 \<times> bytes) list option" where
  "read_slots cp cells [] = Some []"
| "read_slots cp cells (p # ps) =
     Option.bind (read_slot cp cells p) (\<lambda>s. Option.bind (read_slots cp cells ps) (\<lambda>ss. Some (s # ss)))"

definition key_slots :: "cuckoo_params \<Rightarrow> value_codec \<Rightarrow> u32 list \<Rightarrow> address_hash \<Rightarrow> (u64 \<times> bytes) list option" where
  "key_slots cp codec cells key =
     Option.bind (read_slots cp cells (probes cp (snd (cp_candidate_buckets cp key)))) (\<lambda>ss.
     if \<forall>s \<in> set ss. extract_key_tag codec (snd s) \<noteq> None then Some ss else None)"

definition fp_hits :: "u64 \<Rightarrow> (u64 \<times> bytes) list \<Rightarrow> bytes list" where
  "fp_hits fp ss = map snd (filter (\<lambda>s. fst s = fp) ss)"

definition own_hits :: "value_codec \<Rightarrow> u64 \<Rightarrow> bytes list \<Rightarrow> bytes list" where
  "own_hits codec tag vs = filter (\<lambda>v. extract_key_tag codec v = Some tag) vs"

definition decode_value :: "(bytes \<Rightarrow> u64 \<Rightarrow> u64) \<Rightarrow> value_codec \<Rightarrow> address_hash \<Rightarrow> bytes \<Rightarrow> located" where
  "decode_value xxh codec key v =
     (case decode xxh codec key v of Some (Found b) \<Rightarrow> Own b | _ \<Rightarrow> Corrupt)"

text \<open>The specification of \<open>locate\<close>, from the values of the fingerprint matches.\<close>

definition classify :: "(bytes \<Rightarrow> u64 \<Rightarrow> u64) \<Rightarrow> value_codec \<Rightarrow> address_hash \<Rightarrow> bytes list \<Rightarrow> located" where
  "classify xxh codec key vs =
     (let own = own_hits codec (key_tag xxh codec key) vs in
      case own of
        [] \<Rightarrow> Absent (of_nat (length vs))
      | [v] \<Rightarrow> if extract_key_tag codec (hd vs) = Some (key_tag xxh codec key)
               then decode_value xxh codec key v else Shadowed
      | _ \<Rightarrow> DuplicateTag)"

lemma own_hits_simps [simp]:
  "own_hits codec tag [] = []"
  "own_hits codec tag (v # vs) =
     (if extract_key_tag codec v = Some tag then v # own_hits codec tag vs else own_hits codec tag vs)"
  by (simp_all add: own_hits_def)

lemma fp_hits_simps [simp]:
  "fp_hits fp [] = []"
  "fp_hits fp (s # ss) = (if fst s = fp then snd s # fp_hits fp ss else fp_hits fp ss)"
  by (simp_all add: fp_hits_def)

lemma locate_loop_found:
  assumes "read_slots cp cells ps = Some ss" and "\<forall>s \<in> set ss. extract_key_tag codec (snd s) \<noteq> None"
  shows "locate_loop xxh cp codec key fp tag cells ps foreign foreign_first (Some l) =
    Some (if own_hits codec tag (fp_hits fp ss) \<noteq> [] then DuplicateTag
          else if foreign_first then Shadowed
          else (case l of Found b \<Rightarrow> Own b | _ \<Rightarrow> Corrupt))"
  using assms
proof (induction ps arbitrary: ss foreign)
  case Nil
  then show ?case by (auto split: lookup.splits)
next
  case (Cons p ps)
  from Cons.prems(1) obtain f v ss' where p: "read_slot cp cells p = Some (f, v)"
    and rest: "read_slots cp cells ps = Some ss'" and ss: "ss = (f, v) # ss'"
    by (auto simp: bind_eq_Some_conv)
  from Cons.prems(2) obtain t where t: "extract_key_tag codec v = Some t" by (auto simp: ss)
  show ?case using Cons.IH[OF rest] Cons.prems(2) p t by (auto simp: ss)
qed

lemma locate_loop_none:
  assumes "read_slots cp cells ps = Some ss" and "\<forall>s \<in> set ss. extract_key_tag codec (snd s) \<noteq> None"
    and "unat foreign + length ss < 2 ^ 32"
  shows "locate_loop xxh cp codec key fp tag cells ps foreign False None =
    Some (case own_hits codec tag (fp_hits fp ss) of
            [] \<Rightarrow> Absent (foreign + of_nat (length (fp_hits fp ss)))
          | [v] \<Rightarrow> if foreign = 0 \<and> extract_key_tag codec (hd (fp_hits fp ss)) = Some tag
                  then decode_value xxh codec key v else Shadowed
          | _ \<Rightarrow> DuplicateTag)"
  using assms
proof (induction ps arbitrary: ss foreign)
  case Nil
  then show ?case by simp
next
  case (Cons p ps)
  from Cons.prems(1) obtain f v ss' where p: "read_slot cp cells p = Some (f, v)"
    and rest: "read_slots cp cells ps = Some ss'" and ss: "ss = (f, v) # ss'"
    by (auto simp: bind_eq_Some_conv)
  from Cons.prems(2) obtain t where t: "extract_key_tag codec v = Some t" by (auto simp: ss)
  have tags: "\<forall>s \<in> set ss'. extract_key_tag codec (snd s) \<noteq> None" using Cons.prems(2) by (simp add: ss)
  obtain l where l: "decode xxh codec key v = Some l" using decode_total by blast
  consider "f \<noteq> fp" | "f = fp" "t = tag" | "f = fp" "t \<noteq> tag" by blast
  then show ?case
  proof cases
    case 1
    then show ?thesis using Cons.IH[OF rest tags, of foreign] Cons.prems(3) p by (simp add: ss cong: list.case_cong)
  next
    case 2
    have "foreign > 0 \<longleftrightarrow> foreign \<noteq> 0" by (simp add: word_neq_0_conv)
    then show ?thesis
      using locate_loop_found[OF rest tags, of xxh key fp tag foreign "foreign \<noteq> 0" l] 2 p t l
      by (cases "own_hits codec tag (fp_hits fp ss')")
        (auto simp: ss decode_value_def split: lookup.splits)
  next
    case 3
    have u: "unat (foreign + 1) = unat foreign + 1"
      using Cons.prems(3) by (simp add: ss unat_word_ariths)
    then have nz: "foreign + 1 \<noteq> 0" by (metis Suc_eq_plus1 nat.distinct(1) unat_0)
    have "locate_loop xxh cp codec key fp tag cells (p # ps) foreign False None =
        locate_loop xxh cp codec key fp tag cells ps (foreign + 1) False None"
      using 3 p t by simp
    also have "\<dots> = Some (case own_hits codec tag (fp_hits fp ss') of
            [] \<Rightarrow> Absent (foreign + 1 + of_nat (length (fp_hits fp ss')))
          | [v] \<Rightarrow> Shadowed
          | _ \<Rightarrow> DuplicateTag)"
      using Cons.IH[OF rest tags, of "foreign + 1"] Cons.prems(3) u nz by (simp add: ss cong: list.case_cong)
    finally show ?thesis using 3 t by (simp add: ss add.assoc split: list.splits)
  qed
qed

lemma locate_spec:
  assumes "key_slots cp codec cells key = Some ss" and "length ss < 2 ^ 32"
  shows "locate xxh cp codec cells key =
    Some (classify xxh codec key (fp_hits (fst (cp_candidate_buckets cp key)) ss))"
proof -
  obtain fp indices where fi: "cp_candidate_buckets cp key = (fp, indices)" by fastforce
  from assms have "read_slots cp cells (probes cp indices) = Some ss"
    "\<forall>s \<in> set ss. extract_key_tag codec (snd s) \<noteq> None"
    by (auto simp: key_slots_def fi bind_eq_Some_conv split: if_splits)
  from locate_loop_none[OF this, of 0 xxh key fp "key_tag xxh codec key"] assms(2)
  show ?thesis by (simp add: locate_def fi classify_def Let_def cong: list.case_cong)
qed

lemma rescan_spec:
  assumes "read_slots cp cells ps = Some ss" and "\<forall>s \<in> set ss. extract_key_tag codec (snd s) \<noteq> None"
  shows "rescan xxh cp codec key fp tag cells ps =
    Some (case own_hits codec tag (fp_hits fp ss) of
            [] \<Rightarrow> Inl Corrupt
          | v # _ \<Rightarrow> (case decode_value xxh codec key v of Own b \<Rightarrow> Inr (Some b) | _ \<Rightarrow> Inl Corrupt))"
  using assms
proof (induction ps arbitrary: ss)
  case Nil
  then show ?case by simp
next
  case (Cons p ps)
  from Cons.prems(1) obtain f v ss' where p: "read_slot cp cells p = Some (f, v)"
    and rest: "read_slots cp cells ps = Some ss'" and ss: "ss = (f, v) # ss'"
    by (auto simp: bind_eq_Some_conv)
  from Cons.prems(2) obtain t where t: "extract_key_tag codec v = Some t" by (auto simp: ss)
  obtain l where l: "decode xxh codec key v = Some l" using decode_total by blast
  show ?case using Cons.IH[OF rest] Cons.prems(2) p t l
    by (auto simp: ss decode_value_def split: lookup.splits)
qed

text \<open>The specification of the verified read: the single entry with the key's tag, wherever
  it stands.\<close>

definition verified_value :: "(bytes \<Rightarrow> u64 \<Rightarrow> u64) \<Rightarrow> value_codec \<Rightarrow> address_hash \<Rightarrow> bytes list
    \<Rightarrow> located + balance option" where
  "verified_value xxh codec key vs =
     (case own_hits codec (key_tag xxh codec key) vs of
        [] \<Rightarrow> Inr None
      | [v] \<Rightarrow> (case decode_value xxh codec key v of Own b \<Rightarrow> Inr (Some b) | _ \<Rightarrow> Inl Corrupt)
      | _ \<Rightarrow> Inl DuplicateTag)"

lemma decode_value_cases: "(\<exists>b. decode_value xxh codec key v = Own b) \<or> decode_value xxh codec key v = Corrupt"
  by (auto simp: decode_value_def split: option.splits lookup.splits)

lemma verified_get_spec:
  assumes "key_slots cp codec cells key = Some ss" and "length ss < 2 ^ 32"
  shows "verified_get xxh cp codec cells key =
    Some (verified_value xxh codec key (fp_hits (fst (cp_candidate_buckets cp key)) ss))"
proof -
  obtain fp indices where fi: "cp_candidate_buckets cp key = (fp, indices)" by fastforce
  from assms have r: "read_slots cp cells (probes cp indices) = Some ss"
    "\<forall>s \<in> set ss. extract_key_tag codec (snd s) \<noteq> None"
    by (auto simp: key_slots_def fi bind_eq_Some_conv split: if_splits)
  let ?own = "own_hits codec (key_tag xxh codec key) (fp_hits fp ss)"
  show ?thesis
  proof (cases "\<exists>v. ?own = [v]")
    case False
    then show ?thesis
      using locate_spec[OF assms] by (auto simp: verified_get_def fi classify_def verified_value_def
          Let_def split: list.splits)
  next
    case True
    then obtain v where v: "?own = [v]" by blast
    show ?thesis
      using decode_value_cases[of xxh codec key v] locate_spec[OF assms] rescan_spec[OF r] v
      by (auto simp: verified_get_def fi classify_def verified_value_def Let_def)
  qed
qed

section \<open>Properties\<close>

text \<open>The verified scan classifies a key exactly by the slots that match its fingerprint, in probe
  order: absent when none carries its tag, duplicate when several do, shadowed when a foreign match
  comes first, its own balance only when the first match is its single entry and decodes.\<close>

theorem locate_classifies:
  assumes "key_slots cp codec cells key = Some ss" and "length ss < 2 ^ 32"
  shows "locate xxh cp codec cells key =
    Some (classify xxh codec key (fp_hits (fst (cp_candidate_buckets cp key)) ss))"
  by (rule locate_spec[OF assms])

text \<open>The verified read returns the balance of the single slot carrying the key's fingerprint and
  tag wherever it stands, \<open>None\<close> when there is none, and an error when there are several or its
  checksum fails; a colliding foreign entry is never read as the key's.\<close>

theorem verified_get_reads_own:
  assumes "key_slots cp codec cells key = Some ss" and "length ss < 2 ^ 32"
  shows "verified_get xxh cp codec cells key =
    Some (verified_value xxh codec key (fp_hits (fst (cp_candidate_buckets cp key)) ss))"
  by (rule verified_get_spec[OF assms])

definition example_table :: "(u64 \<times> bytes) list \<Rightarrow> cuckoo_params" where
  "example_table slots = \<lparr> cp_arity = 1, cp_segment_size = 1, cp_bucket_size = of_nat (length slots),
     cp_cells_per_slot = 1, cp_value_size = 4, cp_plaintext_bits = 9,
     cp_candidate_buckets = (\<lambda>_. (5, [0])), cp_slot_cell_range = (\<lambda>_ s. (unat s, Suc (unat s))),
     cp_unpack_slot = (\<lambda>cells. slots ! unat (hd cells)),
     cp_pack_slot = (\<lambda>fp cells. cells) \<rparr>"

definition example_slot :: "bytes \<Rightarrow> balance \<Rightarrow> u64 \<times> bytes" where
  "example_slot key bal =
     (5, case encode example_hash example_codec key bal of Some (Inr v) \<Rightarrow> v | _ \<Rightarrow> [])"

lemma example_slots:
  "key_slots (example_table [example_slot [1] 9, (6, [0, 0, 0, 0]), example_slot [1, 2] 300]) example_codec
      [0, 1, 2] [1, 2] = Some [example_slot [1] 9, (6, [0, 0, 0, 0]), example_slot [1, 2] 300]"
  by code_simp

lemma locate_classifies_witness:
  "locate example_hash (example_table [example_slot [1] 9, (6, [0, 0, 0, 0]), example_slot [1, 2] 300])
      example_codec [0, 1, 2] [1, 2] = Some Shadowed"
proof -
  have "classify example_hash example_codec [1, 2] (fp_hits 5
      [example_slot [1] 9, (6, [0, 0, 0, 0]), example_slot [1, 2] 300]) = Shadowed" by code_simp
  then show ?thesis
    using locate_classifies[OF example_slots, of example_hash] by (simp add: example_table_def)
qed

lemma verified_get_reads_own_witness:
  "verified_get example_hash (example_table [example_slot [1] 9, (6, [0, 0, 0, 0]), example_slot [1, 2] 300])
      example_codec [0, 1, 2] [1, 2] = Some (Inr (Some 300))"
proof -
  have "verified_value example_hash example_codec [1, 2] (fp_hits 5
      [example_slot [1] 9, (6, [0, 0, 0, 0]), example_slot [1, 2] 300]) = Inr (Some 300)" by code_simp
  then show ?thesis
    using verified_get_reads_own[OF example_slots, of example_hash] by (simp add: example_table_def)
qed

end
