(* ===== verification/Server.thy ===== *)
theory Server
  imports Fold Verified
begin

text \<open>
  Model of \<open>crates/risepir-server/src/server.rs\<close> and \<open>error.rs\<close>: the server that owns
  the store, applies blocks, keeps the hints current and answers queries.

  The store (\<open>store_ops\<close>) and the PIR backend (\<open>server_backend\<close>) are
  external and arguments; \<open>None\<close> is a panic.  A method that takes \<open>&mut self\<close>
  returns its result with the new state, also when it fails: a failed block leaves
  the store half-written, as the code does.  Wall-clock durations of the report are
  left out.

  The lemmas: which writes \<open>apply_change\<close> makes and which it refuses; that a failed
  block changes neither the block number nor the hints; that the delta of a
  successful block is exactly the difference of the database and that every hint
  stays the hint of the current database (\<open>apply_block_delta\<close>,
  \<open>server_run_invar\<close>).
\<close>

section \<open>Data\<close>

record ('cfg, 'sp, 'mat, 'h) server_backend =
  sb_server_setup :: "'cfg \<Rightarrow> u32 list \<Rightarrow> u32 \<Rightarrow> u32 \<Rightarrow> u32 \<Rightarrow> 'sp \<times> 'mat \<times> 'h"
  sb_expand_material :: "'sp \<Rightarrow> 'mat"
  sb_server_answer :: "'sp \<Rightarrow> u32 list \<Rightarrow> u32 \<Rightarrow> u32 \<Rightarrow> u32 list \<Rightarrow> u32 list"
  sb_patch_hint :: "'sp \<Rightarrow> 'mat \<Rightarrow> 'h \<Rightarrow> segment_row_deltas \<Rightarrow> 'h"

datatype change_kind = InsertKind | UpdateKind | DeleteKind | NoopDeleteKind

text \<open>The messages of \<open>ServerError::Store\<close>, by the place that formats them.\<close>

datatype store_message =
    DeleteAfterOwn cuckoo_error
  | UpdateAfterOwn cuckoo_error
  | InsertInvalidParams string
  | InsertNotFound

datatype server_error =
    Encode value_error
  | TableFull
  | NonMonotonicBlock u64 u64          \<comment> \<open>current, attempted\<close>
  | MalformedQuery nat nat             \<comment> \<open>expected, got\<close>
  | FingerprintAmbiguity bool          \<comment> \<open>shadowed\<close>
  | CorruptStoredValue
  | StoreError store_message

record block_apply_report =
  rep_inserts :: u64
  rep_updates :: u64
  rep_deletes :: u64
  rep_noop_deletes :: u64
  rep_changes :: u64
  rep_credits :: u64
  rep_touched_cells :: u64

record ('s, 'cfg, 'sp, 'mat, 'h) rise_server =
  sv_store :: 's
  sv_params :: cuckoo_params
  sv_config :: 'cfg
  sv_backend_params :: "'sp list"
  sv_material :: "'mat list"
  sv_hints :: "'h list"
  sv_block :: u64
  sv_codec :: value_codec

record ('sp, 'h) server_setup =
  su_params :: cuckoo_params
  su_backend_params :: "'sp list"
  su_hints :: "'h list"
  su_block :: u64

section \<open>Construction\<close>

definition row_width_of :: "cuckoo_params \<Rightarrow> u32" where
  "row_width_of p = cp_bucket_size p * cp_cells_per_slot p"

definition seg_cells_of :: "cuckoo_params \<Rightarrow> nat" where
  "seg_cells_of p = unat (cp_segment_size p) * unat (row_width_of p)"

definition segment_slice :: "cuckoo_params \<Rightarrow> u32 list \<Rightarrow> nat \<Rightarrow> u32 list option" where
  "segment_slice p cells j = get_range cells (j * seg_cells_of p) (seg_cells_of p)"

text \<open>The loop over the segments that \<open>new\<close> and \<open>full_rebuild\<close> share.\<close>

fun setup_segments :: "('cfg, 'sp, 'mat, 'h) server_backend \<Rightarrow> 'cfg \<Rightarrow> cuckoo_params \<Rightarrow> u32 list \<Rightarrow> nat \<Rightarrow> nat
    \<Rightarrow> ('sp \<times> 'mat \<times> 'h) list option" where
  "setup_segments be cfg p cells j 0 = Some []"
| "setup_segments be cfg p cells j (Suc n) =
     Option.bind (segment_slice p cells j) (\<lambda>seg.
     Option.bind (setup_segments be cfg p cells (Suc j) n) (\<lambda>rest.
     Some (sb_server_setup be cfg seg (cp_segment_size p) (row_width_of p) (cp_plaintext_bits p) # rest)))"

definition drain_log :: "'s store_ops \<Rightarrow> 's \<Rightarrow> 's" where
  "drain_log so s = snd (so_drain so s)"

definition server_new :: "'s store_ops \<Rightarrow> ('cfg, 'sp, 'mat, 'h) server_backend \<Rightarrow> cuckoo_params \<Rightarrow> 's \<Rightarrow> 'cfg
    \<Rightarrow> value_codec \<Rightarrow> u64 \<Rightarrow> ('s, 'cfg, 'sp, 'mat, 'h) rise_server option" where
  "server_new so be p store cfg codec genesis_block =
     (if div_ceil8 (unat (value_bits codec)) \<noteq> cp_value_size p then None
      else
        Option.bind (setup_segments be cfg p (so_cells so store) 0 (cp_arity p)) (\<lambda>segs.
        Some \<lparr> sv_store = drain_log so (so_enable_log so store), sv_params = p, sv_config = cfg,
               sv_backend_params = map fst segs, sv_material = map (fst \<circ> snd) segs,
               sv_hints = map (snd \<circ> snd) segs, sv_block = genesis_block, sv_codec = codec \<rparr>))"

definition server_from_parts :: "'s store_ops \<Rightarrow> ('cfg, 'sp, 'mat, 'h) server_backend \<Rightarrow> cuckoo_params \<Rightarrow> 's \<Rightarrow> 'cfg
    \<Rightarrow> value_codec \<Rightarrow> 'sp list \<Rightarrow> 'h list \<Rightarrow> u64 \<Rightarrow> ('s, 'cfg, 'sp, 'mat, 'h) rise_server option" where
  "server_from_parts so be p store cfg codec backend_params hints block =
     (if div_ceil8 (unat (value_bits codec)) \<noteq> cp_value_size p then None
      else if length backend_params \<noteq> cp_arity p then None
      else if length hints \<noteq> cp_arity p then None
      else Some \<lparr> sv_store = drain_log so (so_enable_log so store), sv_params = p, sv_config = cfg,
                  sv_backend_params = backend_params,
                  sv_material = map (sb_expand_material be) backend_params,
                  sv_hints = hints, sv_block = block, sv_codec = codec \<rparr>)"

section \<open>One change\<close>

definition located_error :: "located \<Rightarrow> server_error" where
  "located_error l =
     (case l of
        Shadowed \<Rightarrow> FingerprintAmbiguity True
      | DuplicateTag \<Rightarrow> FingerprintAmbiguity False
      | _ \<Rightarrow> CorruptStoredValue)"

definition apply_change :: "(bytes \<Rightarrow> u64 \<Rightarrow> u64) \<Rightarrow> 's store_ops \<Rightarrow> cuckoo_params \<Rightarrow> value_codec
    \<Rightarrow> address_hash \<Rightarrow> balance \<Rightarrow> 's \<Rightarrow> ((server_error + change_kind) \<times> 's) option" where
  "apply_change xxh so p codec addr bal store =
     Option.bind (locate xxh p codec (so_cells so store) addr) (\<lambda>located.
     if bal = 0 then
       (case located of
          Own _ \<Rightarrow>
            (case so_delete so store addr of
               (Inr _, store') \<Rightarrow> Some (Inr DeleteKind, store')
             | (Inl e, store') \<Rightarrow> Some (Inl (StoreError (DeleteAfterOwn e)), store'))
        | Absent _ \<Rightarrow> Some (Inr NoopDeleteKind, store)
        | l \<Rightarrow> Some (Inl (located_error l), store))
     else
       Option.bind (encode xxh codec addr bal) (\<lambda>r.
       case r of
         Inl e \<Rightarrow> Some (Inl (Encode e), store)
       | Inr encoded \<Rightarrow>
           (case located of
              Own _ \<Rightarrow>
                (case so_update so store addr encoded of
                   (Inr _, store') \<Rightarrow> Some (Inr UpdateKind, store')
                 | (Inl e, store') \<Rightarrow> Some (Inl (StoreError (UpdateAfterOwn e)), store'))
            | Absent _ \<Rightarrow>
                (case so_insert so store addr encoded of
                   (Inr _, store') \<Rightarrow> Some (Inr InsertKind, store')
                 | (Inl CuckooTableFull, store') \<Rightarrow> Some (Inl TableFull, store')
                 | (Inl (CuckooInvalidParams msg), store') \<Rightarrow>
                     Some (Inl (StoreError (InsertInvalidParams msg)), store')
                 | (Inl CuckooNotFound, store') \<Rightarrow> Some (Inl (StoreError InsertNotFound), store'))
            | l \<Rightarrow> Some (Inl (located_error l), store))))"

definition balance_of :: "(bytes \<Rightarrow> u64 \<Rightarrow> u64) \<Rightarrow> 's store_ops
    \<Rightarrow> ('s, 'cfg, 'sp, 'mat, 'h) rise_server \<Rightarrow> address_hash \<Rightarrow> (server_error + balance option) option" where
  "balance_of xxh so sv addr =
     Option.bind (verified_get xxh (sv_params sv) (sv_codec sv) (so_cells so (sv_store sv)) addr) (\<lambda>r.
     Some (case r of
         Inr v \<Rightarrow> Inr v
       | Inl Corrupt \<Rightarrow> Inl CorruptStoredValue
       | Inl _ \<Rightarrow> Inl (FingerprintAmbiguity False)))"

section \<open>Blocks\<close>

text \<open>The four counters: inserts, updates, deletes, no-op deletes.\<close>

type_synonym counts = "u64 \<times> u64 \<times> u64 \<times> u64"

fun count_kind :: "change_kind \<Rightarrow> counts \<Rightarrow> counts" where
  "count_kind InsertKind (i, u, d, n) = (i + 1, u, d, n)"
| "count_kind UpdateKind (i, u, d, n) = (i, u + 1, d, n)"
| "count_kind DeleteKind (i, u, d, n) = (i, u, d + 1, n)"
| "count_kind NoopDeleteKind (i, u, d, n) = (i, u, d, n + 1)"

fun apply_changes :: "(bytes \<Rightarrow> u64 \<Rightarrow> u64) \<Rightarrow> 's store_ops \<Rightarrow> cuckoo_params \<Rightarrow> value_codec
    \<Rightarrow> (address_hash \<times> balance) list \<Rightarrow> counts \<Rightarrow> 's \<Rightarrow> ((server_error + counts) \<times> 's) option" where
  "apply_changes xxh so p codec [] cnt store = Some (Inr cnt, store)"
| "apply_changes xxh so p codec ((addr, bal) # cs) cnt store =
     Option.bind (apply_change xxh so p codec addr bal store) (\<lambda>(r, store').
     case r of
       Inl e \<Rightarrow> Some (Inl e, store')
     | Inr kind \<Rightarrow> apply_changes xxh so p codec cs (count_kind kind cnt) store')"

fun apply_credits :: "(bytes \<Rightarrow> u64 \<Rightarrow> u64) \<Rightarrow> 's store_ops \<Rightarrow> cuckoo_params \<Rightarrow> value_codec
    \<Rightarrow> (address_hash \<times> balance) list \<Rightarrow> counts \<Rightarrow> 's \<Rightarrow> ((server_error + counts) \<times> 's) option" where
  "apply_credits xxh so p codec [] cnt store = Some (Inr cnt, store)"
| "apply_credits xxh so p codec ((addr, amount) # cs) cnt store =
     Option.bind (verified_get xxh p codec (so_cells so store) addr) (\<lambda>g.
     case g of
       Inl Corrupt \<Rightarrow> Some (Inl CorruptStoredValue, store)
     | Inl _ \<Rightarrow> Some (Inl (FingerprintAmbiguity False), store)
     | Inr v \<Rightarrow>
         (case checked_add_u (case v of None \<Rightarrow> 0 | Some b \<Rightarrow> b) amount of
            None \<Rightarrow> Some (Inl (Encode BalanceOverflow), store)
          | Some credited \<Rightarrow>
              Option.bind (apply_change xxh so p codec addr credited store) (\<lambda>(r, store').
              case r of
                Inl e \<Rightarrow> Some (Inl e, store')
              | Inr kind \<Rightarrow> apply_credits xxh so p codec cs (count_kind kind cnt) store')))"

definition reject_block :: "'s store_ops \<Rightarrow> server_error \<Rightarrow> ('s, 'cfg, 'sp, 'mat, 'h) rise_server
    \<Rightarrow> server_error \<times> ('s, 'cfg, 'sp, 'mat, 'h) rise_server" where
  "reject_block so err sv = (err, sv\<lparr>sv_store := drain_log so (sv_store sv)\<rparr>)"

definition touched_cells :: "segment_row_deltas list \<Rightarrow> u64" where
  "touched_cells segs = (\<Sum>seg \<leftarrow> segs. \<Sum>(row, cells) \<leftarrow> seg. of_nat (length cells))"

text \<open>The patch loop: one call per segment with changes, indexing the three parallel lists.\<close>

fun patch_hints :: "('cfg, 'sp, 'mat, 'h) server_backend \<Rightarrow> 'sp list \<Rightarrow> 'mat list \<Rightarrow> nat
    \<Rightarrow> segment_row_deltas list \<Rightarrow> 'h list \<Rightarrow> 'h list option" where
  "patch_hints be sps mats j [] hints = Some hints"
| "patch_hints be sps mats j (deltas # segs) hints =
     (if deltas = [] then patch_hints be sps mats (Suc j) segs hints
      else
        Option.bind (get sps j) (\<lambda>sp.
        Option.bind (get mats j) (\<lambda>mat.
        Option.bind (get hints j) (\<lambda>h.
        patch_hints be sps mats (Suc j) segs (hints[j := sb_patch_hint be sp mat h deltas])))))"

definition apply_block_reporting :: "(bytes \<Rightarrow> u64 \<Rightarrow> u64) \<Rightarrow> 's store_ops \<Rightarrow> ('cfg, 'sp, 'mat, 'h) server_backend
    \<Rightarrow> ('s, 'cfg, 'sp, 'mat, 'h) rise_server \<Rightarrow> block_update
    \<Rightarrow> ((server_error + block_delta \<times> block_apply_report) \<times> ('s, 'cfg, 'sp, 'mat, 'h) rise_server) option" where
  "apply_block_reporting xxh so be sv u =
     (if update_block u \<le> sv_block sv
      then Some (Inl (NonMonotonicBlock (sv_block sv) (update_block u)), sv)
      else
        Option.bind (apply_changes xxh so (sv_params sv) (sv_codec sv) (changes u) (0, 0, 0, 0) (sv_store sv))
          (\<lambda>(r, store1).
        case r of
          Inl e \<Rightarrow> (let (e', sv') = reject_block so e (sv\<lparr>sv_store := store1\<rparr>) in Some (Inl e', sv'))
        | Inr cnt \<Rightarrow>
            Option.bind (apply_credits xxh so (sv_params sv) (sv_codec sv) (credits u) cnt store1)
              (\<lambda>(r, store2).
            case r of
              Inl e \<Rightarrow> (let (e', sv') = reject_block so e (sv\<lparr>sv_store := store2\<rparr>) in Some (Inl e', sv'))
            | Inr (inserts, updates, deletes, noop_deletes) \<Rightarrow>
                let (muts, store3) = so_drain so store2 in
                Option.bind (fold_mutations_into_row_deltas muts (sv_params sv)) (\<lambda>row_deltas.
                Option.bind (patch_hints be (sv_backend_params sv) (sv_material sv) 0 row_deltas (sv_hints sv))
                  (\<lambda>hints.
                Some (Inr (\<lparr> delta_block = update_block u, per_segment = row_deltas \<rparr>,
                           \<lparr> rep_inserts = inserts, rep_updates = updates, rep_deletes = deletes,
                             rep_noop_deletes = noop_deletes,
                             rep_changes = of_nat (length (changes u)),
                             rep_credits = of_nat (length (credits u)),
                             rep_touched_cells = touched_cells row_deltas \<rparr>),
                      sv\<lparr>sv_store := store3, sv_hints := hints, sv_block := update_block u\<rparr>))))))"

definition apply_block :: "(bytes \<Rightarrow> u64 \<Rightarrow> u64) \<Rightarrow> 's store_ops \<Rightarrow> ('cfg, 'sp, 'mat, 'h) server_backend
    \<Rightarrow> ('s, 'cfg, 'sp, 'mat, 'h) rise_server \<Rightarrow> block_update
    \<Rightarrow> ((server_error + block_delta) \<times> ('s, 'cfg, 'sp, 'mat, 'h) rise_server) option" where
  "apply_block xxh so be sv u =
     map_option (\<lambda>(r, sv'). (and_then r (\<lambda>(delta, _). Inr delta), sv')) (apply_block_reporting xxh so be sv u)"

section \<open>Answers, setup, rebuild\<close>

fun answer_segments :: "('cfg, 'sp, 'mat, 'h) server_backend \<Rightarrow> 'sp list \<Rightarrow> cuckoo_params \<Rightarrow> u32 list \<Rightarrow> nat
    \<Rightarrow> u32 list list \<Rightarrow> u32 list list option" where
  "answer_segments be sps p cells j [] = Some []"
| "answer_segments be sps p cells j (q # qs) =
     Option.bind (get sps j) (\<lambda>sp.
     Option.bind (segment_slice p cells j) (\<lambda>seg.
     Option.bind (answer_segments be sps p cells (Suc j) qs) (\<lambda>rs.
     Some (sb_server_answer be sp seg (cp_segment_size p) (row_width_of p) q # rs))))"

definition answer :: "'s store_ops \<Rightarrow> ('cfg, 'sp, 'mat, 'h) server_backend \<Rightarrow> ('s, 'cfg, 'sp, 'mat, 'h) rise_server
    \<Rightarrow> u32 list list \<Rightarrow> (server_error + u32 list list \<times> u64) option" where
  "answer so be sv queries =
     (if length queries \<noteq> cp_arity (sv_params sv)
      then Some (Inl (MalformedQuery (cp_arity (sv_params sv)) (length queries)))
      else
        Option.bind (answer_segments be (sv_backend_params sv) (sv_params sv) (so_cells so (sv_store sv)) 0 queries)
          (\<lambda>rs. Some (Inr (rs, sv_block sv))))"

definition server_setup_bundle :: "('s, 'cfg, 'sp, 'mat, 'h) rise_server \<Rightarrow> ('sp, 'h) server_setup" where
  "server_setup_bundle sv = \<lparr> su_params = sv_params sv, su_backend_params = sv_backend_params sv,
     su_hints = sv_hints sv, su_block = sv_block sv \<rparr>"

definition full_rebuild :: "'s store_ops \<Rightarrow> ('cfg, 'sp, 'mat, 'h) server_backend
    \<Rightarrow> ('s, 'cfg, 'sp, 'mat, 'h) rise_server \<Rightarrow> ('s, 'cfg, 'sp, 'mat, 'h) rise_server option" where
  "full_rebuild so be sv =
     Option.bind (setup_segments be (sv_config sv) (sv_params sv) (so_cells so (sv_store sv)) 0
         (cp_arity (sv_params sv))) (\<lambda>segs.
     Some (sv\<lparr>sv_backend_params := map fst segs, sv_material := map (fst \<circ> snd) segs,
              sv_hints := map (snd \<circ> snd) segs, sv_store := drain_log so (sv_store sv)\<rparr>))"


section \<open>Refused and no-op changes\<close>

lemma apply_change_noop:
  assumes "locate xxh p codec (so_cells so store) addr = Some (Absent n)"
  shows "apply_change xxh so p codec addr 0 store = Some (Inr NoopDeleteKind, store)"
  using assms by (simp add: apply_change_def)

lemma apply_change_refused:
  assumes "locate xxh p codec (so_cells so store) addr = Some l" and "l \<in> {Shadowed, DuplicateTag, Corrupt}"
  shows "\<exists>e. apply_change xxh so p codec addr bal store = Some (Inl e, store)"
proof (cases "bal = 0")
  case True
  then show ?thesis using assms by (auto simp: apply_change_def)
next
  case False
  obtain r where "encode xxh codec addr bal = Some r" using encode_total by blast
  then show ?thesis using assms False by (cases r) (auto simp: apply_change_def)
qed

section \<open>Guards and failed blocks\<close>

lemma apply_block_not_monotonic:
  assumes "update_block u \<le> sv_block sv"
  shows "apply_block_reporting xxh so be sv u = Some (Inl (NonMonotonicBlock (sv_block sv) (update_block u)), sv)"
  using assms by (simp add: apply_block_reporting_def)

lemma apply_block_failed:
  assumes "apply_block_reporting xxh so be sv u = Some (Inl e, sv')"
  shows "sv'\<lparr>sv_store := sv_store sv\<rparr> = sv"
proof (cases "update_block u \<le> sv_block sv")
  case True
  then show ?thesis using assms by (simp add: apply_block_reporting_def)
next
  case False
  then obtain r1 store1 where s1: "apply_changes xxh so (sv_params sv) (sv_codec sv) (changes u) (0, 0, 0, 0)
      (sv_store sv) = Some (r1, store1)"
    using assms by (auto simp: apply_block_reporting_def bind_eq_Some_conv)
  show ?thesis
  proof (cases r1)
    case (Inl e1)
    then show ?thesis using assms False s1 by (auto simp: apply_block_reporting_def reject_block_def)
  next
    case (Inr cnt)
    then obtain r2 store2 where s2: "apply_credits xxh so (sv_params sv) (sv_codec sv) (credits u) cnt store1 =
        Some (r2, store2)"
      using assms False s1 by (auto simp: apply_block_reporting_def bind_eq_Some_conv)
    show ?thesis
    proof (cases r2)
      case (Inl e2)
      then show ?thesis using assms False s1 s2 Inr by (auto simp: apply_block_reporting_def reject_block_def)
    next
      case (Inr cnt2)
      then show ?thesis using assms False s1 s2 \<open>r1 = Inr cnt\<close>
        by (cases cnt2) (auto simp: apply_block_reporting_def bind_eq_Some_conv Let_def split: prod.splits)
    qed
  qed
qed

section \<open>The contract of the store\<close>

text \<open>The cells of the database by segment, row and offset.\<close>

definition db_view :: "cuckoo_params \<Rightarrow> u32 list \<Rightarrow> cell_view" where
  "db_view p cells j row off =
     (let i = j * seg_cells_of p + unat row * unat (row_width_of p) + unat off in
      if unat row < unat (cp_segment_size p) \<and> unat off < unat (row_width_of p) \<and> i < length cells
      then cells ! i else 0)"

abbreviation store_view :: "'s store_ops \<Rightarrow> cuckoo_params \<Rightarrow> 's \<Rightarrow> cell_view" where
  "store_view so p s \<equiv> db_view p (so_cells so s)"

text \<open>The documented behaviour of the mutation log: while it is enabled every change of the
  cells is recorded, slot by slot, with the cells before and after; draining returns the
  recorded entries, empties the log and changes no cell.\<close>

definition logged :: "'s store_ops \<Rightarrow> cuckoo_params \<Rightarrow> ('s \<Rightarrow> slot_mutation list) \<Rightarrow> 's \<Rightarrow> 's \<Rightarrow> bool" where
  "logged so p log s s' \<longleftrightarrow>
     (\<exists>ms. log s' = log s @ ms \<and> (\<forall>m \<in> set ms. mut_ok p m) \<and>
       log_replays p (store_view so p s) ms (store_view so p s'))"

definition store_contract :: "'s store_ops \<Rightarrow> cuckoo_params \<Rightarrow> ('s \<Rightarrow> slot_mutation list) \<Rightarrow> bool" where
  "store_contract so p log \<longleftrightarrow>
     (\<forall>s k v. logged so p log s (snd (so_update so s k v))) \<and>
     (\<forall>s k v. logged so p log s (snd (so_insert so s k v))) \<and>
     (\<forall>s k. logged so p log s (snd (so_delete so s k))) \<and>
     (\<forall>s. fst (so_drain so s) = log s \<and> log (snd (so_drain so s)) = [] \<and>
          so_cells so (snd (so_drain so s)) = so_cells so s) \<and>
     (\<forall>s. so_cells so (so_enable_log so s) = so_cells so s)"

lemma log_replays_append:
  "log_replays p v ms v1 \<Longrightarrow> log_replays p v1 ms' v' \<Longrightarrow> log_replays p v (ms @ ms') v'"
  by (induction ms arbitrary: v) auto

lemma logged_refl [simp]: "logged so p log s s"
  by (auto simp: logged_def intro!: exI[of _ "[]"])

lemma logged_trans: "logged so p log s s1 \<Longrightarrow> logged so p log s1 s2 \<Longrightarrow> logged so p log s s2"
proof -
  assume "logged so p log s s1" and "logged so p log s1 s2"
  then obtain ms ms' where m: "log s1 = log s @ ms" "\<forall>m \<in> set ms. mut_ok p m"
      "log_replays p (store_view so p s) ms (store_view so p s1)"
    and m': "log s2 = log s1 @ ms'" "\<forall>m \<in> set ms'. mut_ok p m"
      "log_replays p (store_view so p s1) ms' (store_view so p s2)"
    unfolding logged_def by blast
  have "log_replays p (store_view so p s) (ms @ ms') (store_view so p s2)"
    by (rule log_replays_append[OF m(3) m'(3)])
  then show "logged so p log s s2"
    unfolding logged_def using m(1,2) m'(1,2) by (intro exI[of _ "ms @ ms'"]) auto
qed

lemma apply_change_logged:
  assumes "store_contract so p log" and "apply_change xxh so p codec addr bal store = Some (r, store')"
  shows "logged so p log store store'"
proof -
  have c: "logged so p log store (snd (so_update so store k v))"
    "logged so p log store (snd (so_insert so store k v))"
    "logged so p log store (snd (so_delete so store k))" for k v
    using assms(1) by (simp_all add: store_contract_def)
  obtain e where enc: "encode xxh codec addr bal = Some e" using encode_total by blast
  from assms(2) show ?thesis
    using c(3)[of addr] c(1,2)[of addr "projr e"] enc
    by (auto simp: apply_change_def bind_eq_Some_conv split: if_splits located.splits prod.splits
        sum.splits cuckoo_error.splits)
qed

lemma apply_changes_logged:
  assumes "store_contract so p log" and "apply_changes xxh so p codec cs cnt store = Some (r, store')"
  shows "logged so p log store store'"
  using assms(2)
proof (induction cs arbitrary: cnt store)
  case Nil
  then show ?case by simp
next
  case (Cons c cs)
  obtain addr bal where c: "c = (addr, bal)" by (cases c)
  from Cons.prems obtain r1 s1 where s1: "apply_change xxh so p codec addr bal store = Some (r1, s1)"
    by (auto simp: c bind_eq_Some_conv)
  note l = apply_change_logged[OF assms(1) s1]
  show ?case
  proof (cases r1)
    case (Inl e)
    then show ?thesis using Cons.prems s1 l by (simp add: c)
  next
    case (Inr k)
    then show ?thesis using Cons.prems Cons.IH[of "count_kind k cnt" s1] s1 l logged_trans by (simp add: c)
  qed
qed

lemma apply_credits_logged:
  assumes "store_contract so p log" and "apply_credits xxh so p codec cs cnt store = Some (r, store')"
  shows "logged so p log store store'"
  using assms(2)
proof (induction cs arbitrary: cnt store)
  case Nil
  then show ?case by simp
next
  case (Cons c cs)
  obtain addr amount where c: "c = (addr, amount)" by (cases c)
  from Cons.prems obtain g where g: "verified_get xxh p codec (so_cells so store) addr = Some g"
    by (auto simp: c bind_eq_Some_conv)
  show ?case
  proof (cases g)
    case (Inl e)
    then show ?thesis using Cons.prems g by (cases e) (auto simp: c)
  next
    case (Inr v)
    let ?prior = "case v of None \<Rightarrow> 0 | Some b \<Rightarrow> b"
    show ?thesis
    proof (cases "checked_add_u ?prior amount")
      case None
      then show ?thesis using Cons.prems g Inr by (simp add: c)
    next
      case (Some credited)
      from Cons.prems obtain r1 s1 where s1: "apply_change xxh so p codec addr credited store = Some (r1, s1)"
        using g Inr Some by (auto simp: c bind_eq_Some_conv)
      note l = apply_change_logged[OF assms(1) s1]
      show ?thesis
      proof (cases r1)
        case (Inl e)
        then show ?thesis using Cons.prems g Inr Some s1 l by (simp add: c)
      next
        case (Inr k)
        then show ?thesis
          using Cons.prems Cons.IH[of "count_kind k cnt" s1] g \<open>g = Inr v\<close> Some s1 l logged_trans
          by (simp add: c)
      qed
    qed
  qed
qed

section \<open>The delta of a block\<close>

lemma apply_block_okD:
  assumes "apply_block_reporting xxh so be sv u = Some (Inr (d, rep), sv')"
  obtains cnt1 i up de n store1 store2 muts store3 rows hints where
    "sv_block sv < update_block u"
    "apply_changes xxh so (sv_params sv) (sv_codec sv) (changes u) (0, 0, 0, 0) (sv_store sv) = Some (Inr cnt1, store1)"
    "apply_credits xxh so (sv_params sv) (sv_codec sv) (credits u) cnt1 store1 = Some (Inr (i, up, de, n), store2)"
    "so_drain so store2 = (muts, store3)"
    "fold_mutations_into_row_deltas muts (sv_params sv) = Some rows"
    "patch_hints be (sv_backend_params sv) (sv_material sv) 0 rows (sv_hints sv) = Some hints"
    "d = \<lparr> delta_block = update_block u, per_segment = rows \<rparr>"
    "rep = \<lparr> rep_inserts = i, rep_updates = up, rep_deletes = de, rep_noop_deletes = n,
       rep_changes = of_nat (length (changes u)), rep_credits = of_nat (length (credits u)),
       rep_touched_cells = touched_cells rows \<rparr>"
    "sv' = sv\<lparr>sv_store := store3, sv_hints := hints, sv_block := update_block u\<rparr>"
proof -
  have gt: "\<not> update_block u \<le> sv_block sv"
    using assms by (auto simp: apply_block_reporting_def)
  then obtain r1 store1 where s1: "apply_changes xxh so (sv_params sv) (sv_codec sv) (changes u) (0, 0, 0, 0)
      (sv_store sv) = Some (r1, store1)"
    using assms by (auto simp: apply_block_reporting_def bind_eq_Some_conv)
  then obtain cnt1 where r1: "r1 = Inr cnt1"
    using assms gt by (cases r1) (auto simp: apply_block_reporting_def reject_block_def)
  then obtain r2 store2 where s2: "apply_credits xxh so (sv_params sv) (sv_codec sv) (credits u) cnt1 store1 =
      Some (r2, store2)"
    using assms gt s1 by (auto simp: apply_block_reporting_def bind_eq_Some_conv)
  then obtain cnt2 where r2: "r2 = Inr cnt2"
    using assms gt s1 r1 by (cases r2) (auto simp: apply_block_reporting_def reject_block_def)
  obtain i up de n where cnt2: "cnt2 = (i, up, de, n)" by (metis prod.exhaust)
  obtain muts store3 where dr: "so_drain so store2 = (muts, store3)" by fastforce
  obtain rows hints where
    "fold_mutations_into_row_deltas muts (sv_params sv) = Some rows"
    "patch_hints be (sv_backend_params sv) (sv_material sv) 0 rows (sv_hints sv) = Some hints"
    "d = \<lparr> delta_block = update_block u, per_segment = rows \<rparr>"
    "rep = \<lparr> rep_inserts = i, rep_updates = up, rep_deletes = de, rep_noop_deletes = n,
       rep_changes = of_nat (length (changes u)), rep_credits = of_nat (length (credits u)),
       rep_touched_cells = touched_cells rows \<rparr>"
    "sv' = sv\<lparr>sv_store := store3, sv_hints := hints, sv_block := update_block u\<rparr>"
    using assms gt s1 s2 dr unfolding r1 r2 cnt2
    by (auto simp: apply_block_reporting_def bind_eq_Some_conv)
  with gt s1 s2 dr show thesis
    unfolding r1 r2 cnt2 not_le by (rule that)
qed

lemma apply_block_delta:
  assumes contract: "store_contract so (sv_params sv) log" and empty: "log (sv_store sv) = []"
    and ok: "apply_block_reporting xxh so be sv u = Some (Inr (d, rep), sv')"
  shows "sv_block sv < update_block u \<and> sv_block sv' = update_block u \<and> delta_block d = update_block u \<and>
    length (per_segment d) = cp_arity (sv_params sv) \<and> canonical_delta d \<and>
    sv_params sv' = sv_params sv \<and> log (sv_store sv') = [] \<and>
    (\<forall>j < cp_arity (sv_params sv). \<forall>row off. delta_effect d j row off =
       uint (store_view so (sv_params sv) (sv_store sv') j row off) -
       uint (store_view so (sv_params sv) (sv_store sv) j row off))"
  using ok
proof (rule apply_block_okD)
  fix cnt1 i up de n store1 store2 muts store3 rows hints
  assume lt: "sv_block sv < update_block u"
    and c: "apply_changes xxh so (sv_params sv) (sv_codec sv) (changes u) (0, 0, 0, 0) (sv_store sv) = Some (Inr cnt1, store1)"
    and cr: "apply_credits xxh so (sv_params sv) (sv_codec sv) (credits u) cnt1 store1 = Some (Inr (i, up, de, n), store2)"
    and dr: "so_drain so store2 = (muts, store3)"
    and f: "fold_mutations_into_row_deltas muts (sv_params sv) = Some rows"
    and d: "d = \<lparr> delta_block = update_block u, per_segment = rows \<rparr>"
    and sv': "sv' = sv\<lparr>sv_store := store3, sv_hints := hints, sv_block := update_block u\<rparr>"
  have l: "logged so (sv_params sv) log (sv_store sv) store2"
    using apply_changes_logged[OF contract c] apply_credits_logged[OF contract cr] by (rule logged_trans)
  have drain: "muts = log store2" "log store3 = []" "so_cells so store3 = so_cells so store2"
    using contract dr by (auto simp: store_contract_def dest: spec[of _ store2])
  have muts: "\<forall>m \<in> set muts. mut_ok (sv_params sv) m"
    "log_replays (sv_params sv) (store_view so (sv_params sv) (sv_store sv)) muts
       (store_view so (sv_params sv) store3)"
    using l empty drain by (auto simp: logged_def)
  from fold_mutations_spec[OF this] f show ?thesis
    using lt drain(2) by (auto simp: d sv' canonical_delta_def delta_effect_def)
qed

section \<open>The hints stay current\<close>

text \<open>\<open>reps\<close> states that a hint (with its parameters and material) is the hint of a
  segment's database.  The documented laws of the backend: setup yields the hint of the
  cells it is given, and patching by a row delta yields the hint of the patched cells.\<close>

definition add_view :: "(u32 \<Rightarrow> u16 \<Rightarrow> u32) \<Rightarrow> segment_row_deltas \<Rightarrow> u32 \<Rightarrow> u16 \<Rightarrow> u32" where
  "add_view db rs row off = db row off + of_int (rows_effect rs row off)"

definition backend_contract :: "('cfg, 'sp, 'mat, 'h) server_backend \<Rightarrow> cuckoo_params
    \<Rightarrow> ('sp \<Rightarrow> 'mat \<Rightarrow> 'h \<Rightarrow> (u32 \<Rightarrow> u16 \<Rightarrow> u32) \<Rightarrow> bool) \<Rightarrow> bool" where
  "backend_contract be p reps \<longleftrightarrow>
     (\<forall>sp mat h db rs. reps sp mat h db \<and> canonical_rows rs \<longrightarrow>
        reps sp mat (sb_patch_hint be sp mat h rs) (add_view db rs)) \<and>
     (\<forall>cfg cells j seg. segment_slice p cells j = Some seg \<longrightarrow>
        (case sb_server_setup be cfg seg (cp_segment_size p) (row_width_of p) (cp_plaintext_bits p) of
           (sp, mat, h) \<Rightarrow> reps sp mat h (db_view p cells j)))"

definition hints_current :: "'s store_ops \<Rightarrow> ('sp \<Rightarrow> 'mat \<Rightarrow> 'h \<Rightarrow> (u32 \<Rightarrow> u16 \<Rightarrow> u32) \<Rightarrow> bool)
    \<Rightarrow> ('s, 'cfg, 'sp, 'mat, 'h) rise_server \<Rightarrow> bool" where
  "hints_current so reps sv \<longleftrightarrow>
     length (sv_backend_params sv) = cp_arity (sv_params sv) \<and>
     length (sv_material sv) = cp_arity (sv_params sv) \<and>
     length (sv_hints sv) = cp_arity (sv_params sv) \<and>
     (\<forall>j < cp_arity (sv_params sv). reps (sv_backend_params sv ! j) (sv_material sv ! j) (sv_hints sv ! j)
        (store_view so (sv_params sv) (sv_store sv) j))"

lemma patch_hints_reps:
  assumes patch: "\<forall>sp mat h db rs. reps sp mat h db \<and> canonical_rows rs \<longrightarrow>
        reps sp mat (sb_patch_hint be sp mat h rs) (add_view db rs)"
    and "j + length segs \<le> length hints" "length sps = length hints" "length mats = length hints"
    and "\<forall>rs \<in> set segs. canonical_rows rs"
  shows "\<exists>hints'. patch_hints be sps mats j segs hints = Some hints' \<and> length hints' = length hints \<and>
    (\<forall>i < length hints. \<forall>db. reps (sps ! i) (mats ! i) (hints ! i) db \<longrightarrow>
       reps (sps ! i) (mats ! i) (hints' ! i)
         (if j \<le> i \<and> i < j + length segs then add_view db (segs ! (i - j)) else db))"
  using assms(2-)
proof (induction segs arbitrary: j hints)
  case Nil
  then show ?case by auto
next
  case (Cons rs segs)
  have j: "j < length hints" using Cons.prems(1) by simp
  have nil: "add_view db [] = db" for db by (intro ext) (simp add: add_view_def)
  let ?h = "if rs = [] then hints ! j else sb_patch_hint be (sps ! j) (mats ! j) (hints ! j) rs"
  have h: "reps (sps ! j) (mats ! j) ?h (add_view db rs)" if "reps (sps ! j) (mats ! j) (hints ! j) db" for db
    using that patch Cons.prems(4) nil by (cases "rs = []") auto
  have run: "patch_hints be sps mats j (rs # segs) hints = patch_hints be sps mats (Suc j) segs (hints[j := ?h])"
    using j Cons.prems(2,3) by (simp add: get_def)
  obtain hints' where hints': "patch_hints be sps mats (Suc j) segs (hints[j := ?h]) = Some hints'"
    "length hints' = length hints"
    "\<forall>i < length hints. \<forall>db. reps (sps ! i) (mats ! i) (hints[j := ?h] ! i) db \<longrightarrow>
       reps (sps ! i) (mats ! i) (hints' ! i)
         (if Suc j \<le> i \<and> i < Suc j + length segs then add_view db (segs ! (i - Suc j)) else db)"
    using Cons.IH[of "Suc j" "hints[j := ?h]"] Cons.prems by auto
  have "reps (sps ! i) (mats ! i) (hints' ! i)
      (if j \<le> i \<and> i < j + length (rs # segs) then add_view db ((rs # segs) ! (i - j)) else db)"
    if i: "i < length hints" and r: "reps (sps ! i) (mats ! i) (hints ! i) db" for i db
  proof (cases "i = j")
    case True
    then have "reps (sps ! i) (mats ! i) (hints[j := ?h] ! i) (add_view db rs)"
      using h[of db] r j by simp
    from hints'(3)[rule_format, OF i this] True show ?thesis by simp
  next
    case False
    then have "reps (sps ! i) (mats ! i) (hints[j := ?h] ! i) db" using r by simp
    note r' = hints'(3)[rule_format, OF i this]
    show ?thesis
    proof (cases "j < i")
      case True
      then have "(rs # segs) ! (i - j) = segs ! (i - Suc j)" by (simp add: nth_Cons')
      then show ?thesis using r' True by (simp split: if_splits)
    next
      case False
      then show ?thesis using r' \<open>i \<noteq> j\<close> by simp
    qed
  qed
  then show ?case using run hints'(1,2) by auto
qed

lemma add_view_eq:
  assumes "\<And>row off. rows_effect rs row off = uint (v' row off) - uint (v row off)"
  shows "add_view v rs = v'"
  by (intro ext) (simp add: add_view_def assms)

lemma apply_block_hints:
  assumes contract: "store_contract so (sv_params sv) log" and empty: "log (sv_store sv) = []"
    and backend: "backend_contract be (sv_params sv) reps" and cur: "hints_current so reps sv"
    and ok: "apply_block_reporting xxh so be sv u = Some (Inr (d, rep), sv')"
  shows "hints_current so reps sv'"
proof -
  note delta = apply_block_delta[OF contract empty ok]
  from ok show ?thesis
  proof (rule apply_block_okD)
    fix rows hints store3
    assume p: "patch_hints be (sv_backend_params sv) (sv_material sv) 0 rows (sv_hints sv) = Some hints"
      and d: "d = \<lparr> delta_block = update_block u, per_segment = rows \<rparr>"
      and sv': "sv' = sv\<lparr>sv_store := store3, sv_hints := hints, sv_block := update_block u\<rparr>"
    have len: "length (sv_backend_params sv) = length (sv_hints sv)" "length (sv_material sv) = length (sv_hints sv)"
      "length (sv_hints sv) = cp_arity (sv_params sv)"
      using cur by (simp_all add: hints_current_def)
    have rows: "length rows = cp_arity (sv_params sv)" "\<forall>rs \<in> set rows. canonical_rows rs"
      using delta by (auto simp: d canonical_delta_def)
    have patch: "\<forall>sp mat h db rs. reps sp mat h db \<and> canonical_rows rs \<longrightarrow>
        reps sp mat (sb_patch_hint be sp mat h rs) (add_view db rs)"
      using backend by (simp add: backend_contract_def)
    have "0 + length rows \<le> length (sv_hints sv)" using rows(1) len(3) by simp
    from patch_hints_reps[OF patch this len(1,2) rows(2)] p
    have h: "length hints = length (sv_hints sv)"
      "\<And>i db. i < length (sv_hints sv) \<Longrightarrow> reps (sv_backend_params sv ! i) (sv_material sv ! i) (sv_hints sv ! i) db \<Longrightarrow>
         reps (sv_backend_params sv ! i) (sv_material sv ! i) (hints ! i)
           (if 0 \<le> i \<and> i < 0 + length rows then add_view db (rows ! (i - 0)) else db)"
      by auto
    have "reps (sv_backend_params sv ! j) (sv_material sv ! j) (hints ! j)
        (store_view so (sv_params sv) (sv_store sv') j)" if j: "j < cp_arity (sv_params sv)" for j
    proof -
      have "add_view (store_view so (sv_params sv) (sv_store sv) j) (rows ! j) =
          store_view so (sv_params sv) (sv_store sv') j"
        using delta j rows(1) by (intro add_view_eq) (auto simp: d delta_effect_def)
      then show ?thesis
        using h(2)[of j "store_view so (sv_params sv) (sv_store sv) j"] cur j len(3) rows(1)
        by (simp add: hints_current_def)
    qed
    then show ?thesis using len h(1) by (simp add: hints_current_def sv')
  qed
qed

lemma setup_segments_spec:
  assumes "setup_segments be cfg p cells j n = Some segs"
  shows "length segs = n \<and> (\<forall>i < n. \<exists>seg. segment_slice p cells (j + i) = Some seg \<and>
    segs ! i = sb_server_setup be cfg seg (cp_segment_size p) (row_width_of p) (cp_plaintext_bits p))"
  using assms
proof (induction n arbitrary: j segs)
  case 0
  then show ?case by simp
next
  case (Suc n)
  from Suc.prems obtain seg rest where seg: "segment_slice p cells j = Some seg"
    and rest: "setup_segments be cfg p cells (Suc j) n = Some rest"
    and segs: "segs = sb_server_setup be cfg seg (cp_segment_size p) (row_width_of p) (cp_plaintext_bits p) # rest"
    by (auto simp: bind_eq_Some_conv)
  note IH = Suc.IH[OF rest]
  show ?case
  proof (intro conjI allI impI)
    show "length segs = Suc n" using IH by (simp add: segs)
    fix i assume "i < Suc n"
    then show "\<exists>seg. segment_slice p cells (j + i) = Some seg \<and>
        segs ! i = sb_server_setup be cfg seg (cp_segment_size p) (row_width_of p) (cp_plaintext_bits p)"
      using IH seg segs by (cases i) auto
  qed
qed

lemma full_rebuild_current:
  assumes contract: "store_contract so (sv_params sv) log" and backend: "backend_contract be (sv_params sv) reps"
    and r: "full_rebuild so be sv = Some sv'"
  shows "hints_current so reps sv' \<and> log (sv_store sv') = [] \<and> sv_params sv' = sv_params sv \<and>
    sv_block sv' = sv_block sv \<and> so_cells so (sv_store sv') = so_cells so (sv_store sv)"
proof -
  from r obtain segs where segs: "setup_segments be (sv_config sv) (sv_params sv) (so_cells so (sv_store sv)) 0
      (cp_arity (sv_params sv)) = Some segs"
    and sv': "sv' = sv\<lparr>sv_backend_params := map fst segs, sv_material := map (fst \<circ> snd) segs,
        sv_hints := map (snd \<circ> snd) segs, sv_store := drain_log so (sv_store sv)\<rparr>"
    by (auto simp: full_rebuild_def bind_eq_Some_conv)
  note s = setup_segments_spec[OF segs]
  have drain: "log (drain_log so (sv_store sv)) = []"
    "so_cells so (drain_log so (sv_store sv)) = so_cells so (sv_store sv)"
    using contract by (auto simp: store_contract_def drain_log_def)
  have "reps (fst (segs ! j)) (fst (snd (segs ! j))) (snd (snd (segs ! j)))
      (store_view so (sv_params sv) (sv_store sv) j)" if j: "j < cp_arity (sv_params sv)" for j
  proof -
    from s j obtain seg where seg: "segment_slice (sv_params sv) (so_cells so (sv_store sv)) j = Some seg"
      "segs ! j = sb_server_setup be (sv_config sv) seg (cp_segment_size (sv_params sv))
         (row_width_of (sv_params sv)) (cp_plaintext_bits (sv_params sv))" by auto
    note backend[unfolded backend_contract_def, THEN conjunct2, rule_format, OF seg(1), of "sv_config sv"]
    then show ?thesis by (simp add: seg(2) split: prod.splits)
  qed
  then show ?thesis using s drain by (auto simp: hints_current_def sv')
qed


section \<open>Runs of the server\<close>

text \<open>The life of a server: blocks that succeed, and blocks that fail and are followed by the
  documented repair, \<open>full_rebuild\<close>.\<close>

inductive server_run :: "(bytes \<Rightarrow> u64 \<Rightarrow> u64) \<Rightarrow> 's store_ops \<Rightarrow> ('cfg, 'sp, 'mat, 'h) server_backend
    \<Rightarrow> ('s, 'cfg, 'sp, 'mat, 'h) rise_server \<Rightarrow> ('s, 'cfg, 'sp, 'mat, 'h) rise_server \<Rightarrow> bool"
  for xxh so be sv0 where
  run_start: "server_run xxh so be sv0 sv0"
| run_block: "server_run xxh so be sv0 sv \<Longrightarrow> apply_block_reporting xxh so be sv u = Some (Inr r, sv')
    \<Longrightarrow> server_run xxh so be sv0 sv'"
| run_repair: "server_run xxh so be sv0 sv \<Longrightarrow> apply_block_reporting xxh so be sv u = Some (Inl e, sv')
    \<Longrightarrow> full_rebuild so be sv' = Some sv'' \<Longrightarrow> server_run xxh so be sv0 sv''"

definition server_invar :: "'s store_ops \<Rightarrow> ('s \<Rightarrow> slot_mutation list)
    \<Rightarrow> ('sp \<Rightarrow> 'mat \<Rightarrow> 'h \<Rightarrow> (u32 \<Rightarrow> u16 \<Rightarrow> u32) \<Rightarrow> bool) \<Rightarrow> ('s, 'cfg, 'sp, 'mat, 'h) rise_server \<Rightarrow> bool" where
  "server_invar so log reps sv \<longleftrightarrow> hints_current so reps sv \<and> log (sv_store sv) = []"

lemma failed_fields:
  assumes "apply_block_reporting xxh so be sv u = Some (Inl e, sv')"
  shows "sv_params sv' = sv_params sv" and "sv_block sv' = sv_block sv" and "sv_hints sv' = sv_hints sv"
    and "sv_backend_params sv' = sv_backend_params sv" and "sv_material sv' = sv_material sv"
  using apply_block_failed[OF assms] by (cases sv; cases sv'; simp)+

lemma server_run_invar:
  assumes run: "server_run xxh so be sv0 sv" and contract: "store_contract so (sv_params sv0) log"
    and backend: "backend_contract be (sv_params sv0) reps" and inv: "server_invar so log reps sv0"
  shows "server_invar so log reps sv \<and> sv_params sv = sv_params sv0 \<and> sv_block sv0 \<le> sv_block sv"
  using run
proof (induction rule: server_run.induct)
  case run_start
  then show ?case using inv by simp
next
  case (run_block sv u r sv')
  obtain d rep where r: "r = (d, rep)" by (cases r)
  have c: "store_contract so (sv_params sv) log" "log (sv_store sv) = []"
    "backend_contract be (sv_params sv) reps" "hints_current so reps sv"
    using run_block.IH contract backend by (simp_all add: server_invar_def)
  note ok = run_block.hyps(2)[unfolded r]
  show ?case
    using apply_block_delta[OF c(1,2) ok] apply_block_hints[OF c(1,2,3,4) ok] run_block.IH
    by (auto simp: server_invar_def)
next
  case (run_repair sv u e sv' sv'')
  note f = failed_fields[OF run_repair.hyps(2)]
  have "store_contract so (sv_params sv') log" "backend_contract be (sv_params sv') reps"
    using run_repair.IH contract backend f(1) by simp_all
  from full_rebuild_current[OF this run_repair.hyps(3)] show ?case
    using run_repair.IH f by (simp add: server_invar_def)
qed

text \<open>A run of successful blocks and the deltas it returns.\<close>

inductive server_blocks :: "(bytes \<Rightarrow> u64 \<Rightarrow> u64) \<Rightarrow> 's store_ops \<Rightarrow> ('cfg, 'sp, 'mat, 'h) server_backend
    \<Rightarrow> ('s, 'cfg, 'sp, 'mat, 'h) rise_server \<Rightarrow> block_delta list \<Rightarrow> ('s, 'cfg, 'sp, 'mat, 'h) rise_server \<Rightarrow> bool"
  for xxh so be sv0 where
  blocks_start: "server_blocks xxh so be sv0 [] sv0"
| blocks_step: "server_blocks xxh so be sv0 ds sv \<Longrightarrow> apply_block_reporting xxh so be sv u = Some (Inr (d, rep), sv')
    \<Longrightarrow> server_blocks xxh so be sv0 (ds @ [d]) sv'"

inductive_cases server_blocks_ConsE: "server_blocks xxh so be sv0 (ds @ [d]) sv'"

lemma server_blocks_effect:
  assumes run: "server_blocks xxh so be sv0 ds sv" and contract: "store_contract so (sv_params sv0) log"
    and inv: "log (sv_store sv0) = []"
  shows "log (sv_store sv) = [] \<and> sv_params sv = sv_params sv0 \<and>
    (ds \<noteq> [] \<longrightarrow> sv_block sv = delta_block (last ds) \<and> sv_block sv0 < sv_block sv) \<and> (ds = [] \<longrightarrow> sv = sv0) \<and>
    (\<forall>d \<in> set ds. canonical_delta d \<and> length (per_segment d) = cp_arity (sv_params sv0)) \<and>
    (\<forall>j < cp_arity (sv_params sv0). \<forall>row off. (\<Sum>d \<leftarrow> ds. delta_effect d j row off) =
       uint (store_view so (sv_params sv0) (sv_store sv) j row off) -
       uint (store_view so (sv_params sv0) (sv_store sv0) j row off))"
  using run
proof (induction rule: server_blocks.induct)
  case blocks_start
  then show ?case using inv by simp
next
  case (blocks_step ds sv u d rep sv')
  have c: "store_contract so (sv_params sv) log" "log (sv_store sv) = []"
    using blocks_step.IH contract by simp_all
  from apply_block_delta[OF c blocks_step.hyps(2)] blocks_step.IH show ?case by auto
qed

section \<open>The report\<close>

fun total_count :: "counts \<Rightarrow> u64" where
  "total_count (i, u, d, n) = i + u + d + n"

lemma total_count_kind: "total_count (count_kind k c) = total_count c + 1"
  by (cases c; cases k) (simp_all add: algebra_simps)

lemma apply_changes_count:
  "apply_changes xxh so p codec cs cnt store = Some (Inr cnt', store') \<Longrightarrow>
   total_count cnt' = total_count cnt + of_nat (length cs)"
proof (induction cs arbitrary: cnt store)
  case Nil
  then show ?case by simp
next
  case (Cons c cs)
  obtain addr bal where c: "c = (addr, bal)" by (cases c)
  with Cons.prems obtain r s1 where s1: "apply_change xxh so p codec addr bal store = Some (r, s1)"
    by (auto simp: bind_eq_Some_conv)
  with Cons.prems obtain k where "apply_changes xxh so p codec cs (count_kind k cnt) s1 = Some (Inr cnt', store')"
    by (cases r) (auto simp: c)
  from Cons.IH[OF this] show ?case by (simp add: total_count_kind)
qed

lemma apply_credits_count:
  "apply_credits xxh so p codec cs cnt store = Some (Inr cnt', store') \<Longrightarrow>
   total_count cnt' = total_count cnt + of_nat (length cs)"
proof (induction cs arbitrary: cnt store)
  case Nil
  then show ?case by simp
next
  case (Cons c cs)
  obtain addr amount where c: "c = (addr, amount)" by (cases c)
  from Cons.prems obtain g where g: "verified_get xxh p codec (so_cells so store) addr = Some g"
    by (auto simp: c bind_eq_Some_conv)
  with Cons.prems obtain v where v: "g = Inr v"
    by (cases g) (auto simp: c split: located.splits)
  with Cons.prems g obtain w where w: "checked_add_u (case v of None \<Rightarrow> 0 | Some b \<Rightarrow> b) amount = Some w"
    by (auto simp: c split: option.splits)
  with Cons.prems g v obtain r s1 where s1: "apply_change xxh so p codec addr w store = Some (r, s1)"
    by (auto simp: c bind_eq_Some_conv)
  with Cons.prems g v w obtain k where
    "apply_credits xxh so p codec cs (count_kind k cnt) s1 = Some (Inr cnt', store')"
    by (cases r) (auto simp: c)
  from Cons.IH[OF this] show ?case by (simp add: total_count_kind)
qed

lemma apply_block_report:
  assumes "apply_block_reporting xxh so be sv u = Some (Inr (d, rep), sv')"
  shows "rep_inserts rep + rep_updates rep + rep_deletes rep + rep_noop_deletes rep =
      rep_changes rep + rep_credits rep"
    and "rep_changes rep = of_nat (length (changes u))" and "rep_credits rep = of_nat (length (credits u))"
    and "rep_touched_cells rep = touched_cells (per_segment d)"
proof -
  from assms obtain cnt1 i up de n store1 store2 rows where
    c: "apply_changes xxh so (sv_params sv) (sv_codec sv) (changes u) (0, 0, 0, 0) (sv_store sv) = Some (Inr cnt1, store1)"
    and cr: "apply_credits xxh so (sv_params sv) (sv_codec sv) (credits u) cnt1 store1 = Some (Inr (i, up, de, n), store2)"
    and d: "d = \<lparr> delta_block = update_block u, per_segment = rows \<rparr>"
    and rep: "rep = \<lparr> rep_inserts = i, rep_updates = up, rep_deletes = de, rep_noop_deletes = n,
       rep_changes = of_nat (length (changes u)), rep_credits = of_nat (length (credits u)),
       rep_touched_cells = touched_cells rows \<rparr>"
    by (rule apply_block_okD)
  show "rep_inserts rep + rep_updates rep + rep_deletes rep + rep_noop_deletes rep =
      rep_changes rep + rep_credits rep"
    using apply_changes_count[OF c] apply_credits_count[OF cr] by (simp add: rep)
  show "rep_changes rep = of_nat (length (changes u))" "rep_credits rep = of_nat (length (credits u))"
    "rep_touched_cells rep = touched_cells (per_segment d)"
    by (simp_all add: rep d)
qed

section \<open>Stored and read back\<close>

lemma balance_of_spec:
  assumes "key_slots (sv_params sv) (sv_codec sv) (so_cells so (sv_store sv)) addr = Some ss"
    and "length ss < 2 ^ 32"
  shows "balance_of xxh so sv addr =
    Some (case verified_value xxh (sv_codec sv) addr (fp_hits (fst (cp_candidate_buckets (sv_params sv) addr)) ss) of
            Inr v \<Rightarrow> Inr v
          | Inl Corrupt \<Rightarrow> Inl CorruptStoredValue
          | Inl _ \<Rightarrow> Inl (FingerprintAmbiguity False))"
  using verified_get_spec[OF assms] by (simp add: balance_of_def cong: sum.case_cong located.case_cong)

section \<open>Properties\<close>

text \<open>A store of one slot and a backend whose hint is the database itself, to instantiate the
  external operations in the witnesses.\<close>

definition example_entry :: "u64 \<Rightarrow> u32 \<Rightarrow> u32 \<Rightarrow> slot_mutation" where
  "example_entry fp v old = \<lparr> mut_bucket = 0, mut_slot = 0, old_fingerprint = (if old = 0 then 0 else 1),
     old_value_cells = [old - 1], new_fingerprint = fp, new_value_cells = [v] \<rparr>"

definition example_write :: "u64 \<Rightarrow> u32 \<Rightarrow> u32 \<times> slot_mutation list \<Rightarrow> u32 \<times> slot_mutation list" where
  "example_write fp v s = (if fp = 0 then 0 else v + 1, snd s @ [example_entry fp v (fst s)])"

definition example_store :: "(u32 \<times> slot_mutation list) store_ops" where
  "example_store = \<lparr> so_cells = (\<lambda>s. [fst s]), so_num_items = (\<lambda>s. if fst s = 0 then 0 else 1),
     so_update = (\<lambda>s k v. (Inr (), example_write 1 (ucast (hd v)) s)),
     so_insert = (\<lambda>s k v. (Inr (), example_write 1 (ucast (hd v)) s)),
     so_delete = (\<lambda>s k. (Inr (), example_write 0 0 s)),
     so_enable_log = (\<lambda>s. s), so_drain = (\<lambda>s. (snd s, (fst s, []))) \<rparr>"

definition example_backend :: "(unit, unit, unit, u32 \<Rightarrow> u16 \<Rightarrow> u32) server_backend" where
  "example_backend = \<lparr> sb_server_setup = (\<lambda>_ cells n w _. ((), (), \<lambda>row off.
       if unat row < unat n \<and> unat off < unat w \<and> unat row * unat w + unat off < length cells
       then cells ! (unat row * unat w + unat off) else 0)),
     sb_expand_material = (\<lambda>_. ()), sb_server_answer = (\<lambda>_ cells _ _ _. cells),
     sb_patch_hint = (\<lambda>_ _ h rs. add_view h rs) \<rparr>"

definition example_reps :: "unit \<Rightarrow> unit \<Rightarrow> (u32 \<Rightarrow> u16 \<Rightarrow> u32) \<Rightarrow> (u32 \<Rightarrow> u16 \<Rightarrow> u32) \<Rightarrow> bool" where
  "example_reps _ _ h db \<longleftrightarrow> h = db"

definition tiny_codec :: value_codec where
  "tiny_codec = \<lparr> key_tag_bits = 0, balance_bits = 8, checksum_bits = 0 \<rparr>"

definition example_server :: "u32 \<Rightarrow> (u32 \<times> slot_mutation list, unit, unit, unit, u32 \<Rightarrow> u16 \<Rightarrow> u32) rise_server" where
  "example_server c = \<lparr> sv_store = (c, []), sv_params = example_params, sv_config = (),
     sv_backend_params = [()], sv_material = [()], sv_hints = [db_view example_params [c] 0],
     sv_block = 6, sv_codec = tiny_codec \<rparr>"

lemma example_db_view: "db_view example_params [c] j row off = (if j = 0 \<and> row = 0 \<and> off = 0 then c else 0)"
proof -
  have "unat row = 0 \<longleftrightarrow> row = 0" "unat off = 0 \<longleftrightarrow> off = 0" by (simp_all add: unat_eq_zero)
  then show ?thesis by (auto simp: db_view_def seg_cells_of_def row_width_of_def example_params_def Let_def)
qed

lemma example_entry_facts:
  "hits_cell example_params (example_entry fp v old) seg row off \<longleftrightarrow> seg = 0 \<and> row = 0 \<and> off = 0"
  "old_cell example_params (example_entry fp v old) 0 = old"
  "new_cell example_params (example_entry fp v old) 0 = (if fp = 0 then 0 else v + 1)"
  "mut_ok example_params (example_entry fp v old)"
proof -
  have "unat off < Suc 0 \<longleftrightarrow> off = 0" by (simp add: unat_eq_zero)
  then show "hits_cell example_params (example_entry fp v old) seg row off \<longleftrightarrow> seg = 0 \<and> row = 0 \<and> off = 0"
    by (auto simp: hits_cell_def mut_seg_def mut_row_def in_slot_def example_params_def example_entry_def)
qed (simp_all add: old_cell_def new_cell_def mut_ok_def mut_seg_def example_params_def example_entry_def)

lemma example_logged: "logged example_store example_params snd s (example_write fp v s)"
proof -
  have "log_replays example_params (store_view example_store example_params s) [example_entry fp v (fst s)]
      (store_view example_store example_params (example_write fp v s))"
    by (auto simp: example_entry_facts example_store_def example_db_view example_write_def write_slot_def
        intro!: ext)
  then show ?thesis
    unfolding logged_def by (intro exI[of _ "[example_entry fp v (fst s)]"])
      (simp add: example_write_def example_entry_facts)
qed

lemma example_contract: "store_contract example_store example_params snd"
  unfolding store_contract_def
  using example_logged by (simp add: example_store_def)

lemma example_backend_contract: "backend_contract example_backend example_params example_reps"
proof -
  have "(\<lambda>row off. if unat row < unat (1 :: u32) \<and> unat off < unat (1 :: u32) \<and> unat row * unat (1 :: u32) + unat off < length seg
       then seg ! (unat row * unat (1 :: u32) + unat off) else 0) = db_view example_params cells j"
    if "segment_slice example_params cells j = Some seg" for cells :: "u32 list" and j seg
    using that by (intro ext) (auto simp: db_view_def segment_slice_def get_range_Some_iff seg_cells_of_def
        row_width_of_def example_params_def Let_def)
  then show ?thesis
    by (auto simp: backend_contract_def example_backend_def example_reps_def row_width_of_def example_params_def)
qed

lemma example_server_invar: "server_invar example_store snd example_reps (example_server c)"
  by (simp add: server_invar_def hints_current_def example_server_def example_reps_def example_params_def
      example_store_def)

definition example_update :: "u64 \<Rightarrow> balance \<Rightarrow> block_update" where
  "example_update b bal = \<lparr> update_block = b, changes = [([1], bal)], credits = [([1], 2)] \<rparr>"


lemma tiny_encode:
  "encode example_hash tiny_codec [1] 5 = Some (Inr [5])"
  "encode example_hash tiny_codec [1] 7 = Some (Inr [7])"
  "encode example_hash tiny_codec [1] 300 = Some (Inl BalanceOverflow)"
  "decode example_hash tiny_codec [1] [5] = Some (Found 5)"
  "extract_key_tag tiny_codec [5] = Some 0" "key_tag example_hash tiny_codec [1] = 0"
  by code_simp+

lemma tiny_locate:
  "locate example_hash example_params tiny_codec [0] [1] = Some (Absent 0)"
  "locate example_hash example_params tiny_codec [6] [1] = Some (Own 5)"
  by (simp_all add: locate_def probes_def read_slot_def example_params_def get_range_def tiny_encode)

lemma tiny_get: "verified_get example_hash example_params tiny_codec [6] [1] = Some (Inr (Some 5))"
  by (simp add: verified_get_def tiny_locate)

lemma tiny_fold: "fold_mutations_into_row_deltas [example_entry 1 5 0, example_entry 1 7 6] example_params =
    Some [[(0, [(0, 8)])]]"
  by (simp add: fold_mutations_into_row_deltas_def fold_mutation_def example_params_def example_entry_def
      bt_get_or_def get_def)

lemmas example_run = apply_block_reporting_def apply_change_def example_server_def example_store_def
  tiny_encode tiny_locate tiny_get tiny_fold example_write_def

lemma example_apply:
  "\<exists>rep sv'. apply_block_reporting example_hash example_store example_backend (example_server 0) (example_update 7 5) =
     Some (Inr (\<lparr> delta_block = 7, per_segment = [[(0, [(0, 8)])]] \<rparr>, rep), sv') \<and> sv_store sv' = (8, [])"
  by (simp add: example_run example_update_def checked_add_u_def get_def)

lemma example_apply_fails:
  "\<exists>sv'. apply_block_reporting example_hash example_store example_backend (example_server 0)
      \<lparr> update_block = 7, changes = [([1], 5), ([1], 300)], credits = [] \<rparr> =
     Some (Inl (Encode BalanceOverflow), sv') \<and> sv_store sv' = (6, [])"
  by (simp add: example_run reject_block_def drain_log_def)

text \<open>C13. The delta a successful block returns is exact: the block number moves strictly forward to
  the update's, the delta has one canonical entry per segment, and at every cell its effect is the
  difference between the database after and before the block.\<close>

theorem block_delta_is_exact:
  assumes "store_contract so (sv_params sv) log" and "log (sv_store sv) = []"
    and "apply_block_reporting xxh so be sv u = Some (Inr (d, rep), sv')"
  shows "sv_block sv < update_block u \<and> sv_block sv' = update_block u \<and> delta_block d = update_block u \<and>
    length (per_segment d) = cp_arity (sv_params sv) \<and> canonical_delta d \<and>
    (\<forall>j < cp_arity (sv_params sv). \<forall>row off. delta_effect d j row off =
       uint (store_view so (sv_params sv) (sv_store sv') j row off) -
       uint (store_view so (sv_params sv) (sv_store sv) j row off))"
  using apply_block_delta[OF assms] by blast

lemma block_delta_is_exact_witness:
  "delta_effect \<lparr> delta_block = 7, per_segment = [[(0, [(0, 8)])]] \<rparr> 0 0 0 =
    uint (db_view example_params [8] 0 0 0) - uint (db_view example_params [0] 0 0 0)"
proof -
  from example_apply obtain rep sv' where
    a: "apply_block_reporting example_hash example_store example_backend (example_server 0) (example_update 7 5) =
     Some (Inr (\<lparr> delta_block = 7, per_segment = [[(0, [(0, 8)])]] \<rparr>, rep), sv')" and s: "sv_store sv' = (8, [])"
    by blast
  have p: "sv_params (example_server 0) = example_params" "sv_store (example_server 0) = (0, [])"
    "cp_arity example_params = 1"
    by (simp_all add: example_server_def example_params_def)
  from block_delta_is_exact[OF _ _ a, of snd] example_contract s p show ?thesis
    by (simp add: example_store_def)
qed

text \<open>C14. Along every run of the server (successful blocks, and failed blocks followed by the
  documented full rebuild) the hints stay the hints of the current database, no mutation is left
  over in the log, the parameters never change and the block number never decreases.\<close>

theorem server_run_keeps_hints_current:
  assumes "server_run xxh so be sv0 sv" and "store_contract so (sv_params sv0) log"
    and "backend_contract be (sv_params sv0) reps" and "server_invar so log reps sv0"
  shows "hints_current so reps sv \<and> log (sv_store sv) = [] \<and> sv_params sv = sv_params sv0 \<and>
    sv_block sv0 \<le> sv_block sv"
  using server_run_invar[OF assms] by (simp add: server_invar_def)

lemma server_run_keeps_hints_current_witness:
  "\<exists>sv. server_run example_hash example_store example_backend (example_server 0) sv \<and>
    hints_current example_store example_reps sv \<and> sv_store sv = (8, [])"
proof -
  from example_apply obtain rep sv' where
    a: "apply_block_reporting example_hash example_store example_backend (example_server 0) (example_update 7 5) =
     Some (Inr (\<lparr> delta_block = 7, per_segment = [[(0, [(0, 8)])]] \<rparr>, rep), sv')" and s: "sv_store sv' = (8, [])"
    by blast
  have run: "server_run example_hash example_store example_backend (example_server 0) sv'"
    by (rule run_block[OF run_start a])
  have p: "sv_params (example_server 0) = example_params" by (simp add: example_server_def)
  from server_run_keeps_hints_current[OF run, of snd example_reps] example_contract example_backend_contract
    example_server_invar s run p show ?thesis by auto
qed

text \<open>A failed block changes nothing but the store: block number, hints, parameters and codec are
  as before (the store itself may be half-written); a block that does not move forward changes
  nothing at all.\<close>

theorem failed_block_keeps_all_but_store:
  assumes "apply_block_reporting xxh so be sv u = Some (Inl e, sv')"
  shows "sv'\<lparr>sv_store := sv_store sv\<rparr> = sv \<and> (update_block u \<le> sv_block sv \<longrightarrow> sv' = sv)"
  using apply_block_failed[OF assms] assms apply_block_not_monotonic[of u sv xxh so be] by auto

lemma failed_block_keeps_all_but_store_witness:
  "\<exists>sv'. apply_block_reporting example_hash example_store example_backend (example_server 0)
      \<lparr> update_block = 7, changes = [([1], 5), ([1], 300)], credits = [] \<rparr> =
     Some (Inl (Encode BalanceOverflow), sv') \<and> sv_block sv' = 6 \<and> sv_store sv' = (6, [])"
proof -
  from example_apply_fails obtain sv' where a: "apply_block_reporting example_hash example_store example_backend
      (example_server 0) \<lparr> update_block = 7, changes = [([1], 5), ([1], 300)], credits = [] \<rparr> =
     Some (Inl (Encode BalanceOverflow), sv')" and s: "sv_store sv' = (6, [])" by blast
  have "sv_block (sv'\<lparr>sv_store := sv_store (example_server 0)\<rparr>) = sv_block (example_server 0)"
    using failed_block_keeps_all_but_store[OF a] by simp
  then show ?thesis using a s by (simp add: example_server_def)
qed

text \<open>A change never writes through an ambiguous or corrupt slot and a zero balance for an absent
  account is a no-op: in both cases the store is returned unchanged, with an error in the first.\<close>

theorem change_never_writes_foreign_slot:
  assumes "locate xxh p codec (so_cells so store) addr = Some l"
  shows "(l \<in> {Shadowed, DuplicateTag, Corrupt} \<longrightarrow>
      (\<exists>e. apply_change xxh so p codec addr bal store = Some (Inl e, store))) \<and>
    ((\<exists>n. l = Absent n) \<longrightarrow> apply_change xxh so p codec addr 0 store = Some (Inr NoopDeleteKind, store))"
proof (intro conjI impI)
  assume "l \<in> {Shadowed, DuplicateTag, Corrupt}"
  then show "\<exists>e. apply_change xxh so p codec addr bal store = Some (Inl e, store)"
    by (rule apply_change_refused[OF assms])
next
  assume "\<exists>n. l = Absent n"
  then obtain n where "locate xxh p codec (so_cells so store) addr = Some (Absent n)" using assms by auto
  then show "apply_change xxh so p codec addr 0 store = Some (Inr NoopDeleteKind, store)"
    by (rule apply_change_noop)
qed

lemma change_never_writes_foreign_slot_witness:
  "apply_change example_hash example_store example_params tiny_codec [1] 0 (0, []) = Some (Inr NoopDeleteKind, (0, []))"
proof -
  have "locate example_hash example_params tiny_codec (so_cells example_store (0, [])) [1] = Some (Absent 0)"
    by (simp add: tiny_locate example_store_def)
  from change_never_writes_foreign_slot[OF this] show ?thesis by blast
qed

text \<open>The report of a block accounts for every entry of the update: the four counters sum to the
  changes plus the credits, and the touched cells are the cells of the returned delta.\<close>

theorem block_report_accounts:
  assumes "apply_block_reporting xxh so be sv u = Some (Inr (d, rep), sv')"
  shows "rep_inserts rep + rep_updates rep + rep_deletes rep + rep_noop_deletes rep =
      of_nat (length (changes u)) + of_nat (length (credits u)) \<and>
    rep_touched_cells rep = touched_cells (per_segment d)"
  using apply_block_report[OF assms] by simp

lemma block_report_accounts_witness:
  "\<exists>rep sv'. apply_block_reporting example_hash example_store example_backend (example_server 0) (example_update 7 5) =
     Some (Inr (\<lparr> delta_block = 7, per_segment = [[(0, [(0, 8)])]] \<rparr>, rep), sv') \<and>
     rep_inserts rep + rep_updates rep + rep_deletes rep + rep_noop_deletes rep = 2 \<and> rep_touched_cells rep = 1"
proof -
  from example_apply obtain rep sv' where
    a: "apply_block_reporting example_hash example_store example_backend (example_server 0) (example_update 7 5) =
     Some (Inr (\<lparr> delta_block = 7, per_segment = [[(0, [(0, 8)])]] \<rparr>, rep), sv')" by blast
  from block_report_accounts[OF a] a show ?thesis by (auto simp: example_update_def touched_cells_def)
qed

end
