(* ===== verification/Wire.thy ===== *)
theory Wire
  imports Varint Cuckoo
begin

text \<open>
  Model of \<open>crates/risepir-http/src/wire.rs\<close>: the binary bundles of the HTTP transport
  (\<open>GET /setup\<close>, the query and the response of \<open>POST /answer\<close>) and the lineage
  epoch that both sides compute from a setup bundle.

  \<open>SimpleParams\<close> belongs to the external crate \<open>ikpir_common\<close>: its constructor
  and its public fields are the record \<open>simple_lib\<close>, an argument, with the
  documented law \<open>simple_lib_ok\<close>.  So is \<open>CuckooParams::arity\<close>
  (\<open>arity_doc\<close>) and the hash \<open>keccak256_bytes\<close>.  An \<open>f64\<close> is its 64-bit pattern.
  \<open>None\<close> is a panic, an error is \<open>Inl\<close>.

  The lemmas: the length computed up front is the length written; every bundle decodes
  from its encoding to itself; whatever a decoder accepts has exactly the segment
  lengths that the deployment's geometry demands.
\<close>

section \<open>Data\<close>

datatype wire_error =
    WireBadMagic
  | WireUnexpectedEof
  | BadScheme u8
  | WireArityMismatch nat nat                  \<comment> \<open>expected, found\<close>
  | SegmentLengthMismatch nat u64 nat          \<comment> \<open>segment, expected, found\<close>
  | InvalidSimpleParams nat
  | WireTrailingBytes
  | WireCodec codec_error

datatype scheme_kind = Segmented2ary | Segmented3ary | Segmented4ary

record cuckoo_fields =
  cf_scheme_kind :: scheme_kind
  cf_num_buckets :: u32
  cf_bucket_size :: u32
  cf_fingerprint_bits :: u32
  cf_value_bits :: u32
  cf_plaintext_bits :: u32

record 'p simple_lib =
  sl_new :: "u32 \<Rightarrow> u32 \<Rightarrow> u64 \<Rightarrow> bytes \<Rightarrow> 'p"
  sl_lwe_dim :: "'p \<Rightarrow> u32"
  sl_plaintext_bits :: "'p \<Rightarrow> u32"
  sl_sigma :: "'p \<Rightarrow> u64"
  sl_seed :: "'p \<Rightarrow> bytes"

record 'p simple_server_params =
  sp_params :: 'p
  sp_n_rows :: u32
  sp_row_width :: u32
  sp_k :: u32
  sp_reshape_rows :: u32
  sp_reshape_row_width :: u32

record 'p wire_bundle =
  wb_params :: cuckoo_fields
  wb_backend_params :: "'p simple_server_params list"
  wb_hints :: "u32 list list"
  wb_block :: u64

fun scheme_arity :: "scheme_kind \<Rightarrow> nat" where
  "scheme_arity Segmented2ary = 2"
| "scheme_arity Segmented3ary = 3"
| "scheme_arity Segmented4ary = 4"

definition arity_doc :: "(cuckoo_fields \<Rightarrow> nat) \<Rightarrow> bool" where
  "arity_doc arity_of \<longleftrightarrow> (\<forall>p. arity_of p = scheme_arity (cf_scheme_kind p))"

text \<open>The assertions of \<open>SimpleParams::new\<close>: \<open>lwe_dim > 0\<close>, \<open>plaintext_bits\<close> in
  \<open>1..=31\<close>, \<open>sigma\<close> positive and finite.\<close>

definition sigma_positive_finite :: "u64 \<Rightarrow> bool" where
  "sigma_positive_finite bits \<longleftrightarrow> 0 < bits \<and> bits < 0x7FF0000000000000"

definition simple_params_ok :: "u32 \<Rightarrow> u32 \<Rightarrow> u64 \<Rightarrow> bool" where
  "simple_params_ok lwe_dim pb sigma \<longleftrightarrow>
     lwe_dim \<noteq> 0 \<and> 1 \<le> pb \<and> pb \<le> 31 \<and> sigma_positive_finite sigma"

definition simple_lib_ok :: "'p simple_lib \<Rightarrow> bool" where
  "simple_lib_ok lib \<longleftrightarrow>
     (\<forall>d b s seed. simple_params_ok d b s \<longrightarrow> length seed = 16 \<longrightarrow>
        sl_lwe_dim lib (sl_new lib d b s seed) = d \<and>
        sl_plaintext_bits lib (sl_new lib d b s seed) = b \<and>
        sl_sigma lib (sl_new lib d b s seed) = s \<and>
        sl_seed lib (sl_new lib d b s seed) = seed)"

text \<open>A value of the library's type that its constructor has built.\<close>

definition sl_built :: "'p simple_lib \<Rightarrow> 'p \<Rightarrow> bool" where
  "sl_built lib p \<longleftrightarrow> (\<exists>d b s seed. simple_params_ok d b s \<and> length seed = 16 \<and> p = sl_new lib d b s seed)"

section \<open>Field readers\<close>

definition setup_magic :: bytes where "setup_magic = [0x52, 0x50, 0x53, 0x31]"
definition query_magic :: bytes where "query_magic = [0x52, 0x50, 0x51, 0x31]"
definition response_magic :: bytes where "response_magic = [0x52, 0x50, 0x52, 0x31]"

definition expect_magic :: "bytes \<Rightarrow> bytes \<Rightarrow> wire_error + nat" where
  "expect_magic bs magic =
     (if length bs < 4 \<or> take 4 bs \<noteq> magic then Inl WireBadMagic else Inr 4)"

definition wire_read_u8 :: "bytes \<Rightarrow> nat \<Rightarrow> wire_error + (u8 \<times> nat)" where
  "wire_read_u8 bs pos =
     and_then (ok_or (get bs pos) WireUnexpectedEof) (\<lambda>b. Inr (b, pos + 1))"

definition wire_read_u32 :: "bytes \<Rightarrow> nat \<Rightarrow> wire_error + (u32 \<times> nat)" where
  "wire_read_u32 bs pos =
     and_then (ok_or (get_range bs pos 4) WireUnexpectedEof) (\<lambda>chunk. Inr (of_le chunk, pos + 4))"

definition wire_read_u64 :: "bytes \<Rightarrow> nat \<Rightarrow> wire_error + (u64 \<times> nat)" where
  "wire_read_u64 bs pos =
     and_then (ok_or (get_range bs pos 8) WireUnexpectedEof) (\<lambda>chunk. Inr (of_le chunk, pos + 8))"

definition wire_read_f64 :: "bytes \<Rightarrow> nat \<Rightarrow> wire_error + (u64 \<times> nat)" where
  "wire_read_f64 bs pos =
     and_then (ok_or (get_range bs pos 8) WireUnexpectedEof) (\<lambda>chunk. Inr (of_le chunk, pos + 8))"

definition wire_read_seed :: "bytes \<Rightarrow> nat \<Rightarrow> wire_error + (bytes \<times> nat)" where
  "wire_read_seed bs pos =
     and_then (ok_or (get_range bs pos 16) WireUnexpectedEof) (\<lambda>chunk. Inr (chunk, pos + 16))"

definition mul_u32_saturating_usize :: "u32 \<Rightarrow> u32 \<Rightarrow> nat" where
  "mul_u32_saturating_usize a b = min (unat ((ucast a :: u64) * ucast b)) (2 ^ 64 - 1)"

section \<open>Lineage epoch\<close>

definition lineage_material :: "'p simple_lib \<Rightarrow> 'p simple_server_params list \<Rightarrow> bytes" where
  "lineage_material lib ps = concat (map (\<lambda>sp.
     sl_seed lib (sp_params sp) @ u32_le (sp_n_rows sp) @ u32_le (sp_row_width sp) @
     u32_le (sp_reshape_rows sp) @ u32_le (sp_reshape_row_width sp)) ps)"

definition hex_digits :: string where "hex_digits = ''0123456789abcdef''"

definition hex_byte :: "u8 \<Rightarrow> string" where
  "hex_byte b = [hex_digits ! unat (drop_bit 4 b), hex_digits ! unat (b AND 0x0f)]"

definition lineage_epoch :: "(bytes \<Rightarrow> bytes) \<Rightarrow> 'p simple_lib \<Rightarrow> 'p simple_server_params list \<Rightarrow> string" where
  "lineage_epoch keccak lib ps = concat (map hex_byte (take 8 (keccak (lineage_material lib ps))))"

section \<open>Setup bundle\<close>

definition write_server_params :: "'p simple_lib \<Rightarrow> nat \<Rightarrow> 'p simple_server_params \<Rightarrow> bytes \<times> nat" where
  "write_server_params lib segment sp =
     (u32_le (sl_lwe_dim lib (sp_params sp)) @ u32_le (sl_plaintext_bits lib (sp_params sp)) @
      u64_le (sl_sigma lib (sp_params sp)) @ sl_seed lib (sp_params sp) @
      u32_le (sp_n_rows sp) @ u32_le (sp_row_width sp) @ u32_le (sp_k sp) @
      u32_le (sp_reshape_rows sp) @ u32_le (sp_reshape_row_width sp), Suc segment)"

definition encode_setup :: "(cuckoo_fields \<Rightarrow> nat) \<Rightarrow> 'p simple_lib \<Rightarrow> 'p wire_bundle \<Rightarrow> bytes option" where
  "encode_setup arity_of lib b =
     (let arity = arity_of (wb_params b) in
      if arity > 255 then None
      else Some (setup_magic @ [of_nat arity] @
        u32_le (cf_num_buckets (wb_params b)) @ u32_le (cf_bucket_size (wb_params b)) @
        u32_le (cf_fingerprint_bits (wb_params b)) @ u32_le (cf_value_bits (wb_params b)) @
        u32_le (cf_plaintext_bits (wb_params b)) @ u64_le (wb_block b) @
        for_write (write_server_params lib) 0 (wb_backend_params b) @
        concat (map encode_u32s (wb_hints b))))"

definition setup_encoded_len :: "'p wire_bundle \<Rightarrow> nat" where
  "setup_encoded_len b =
     33 + 52 * length (wb_backend_params b) +
     (\<Sum>hint \<leftarrow> wb_hints b. uvarint_len (of_nat (length hint)) + length hint * 4)"

definition read_server_params ::
    "'p simple_lib \<Rightarrow> nat \<Rightarrow> bytes \<Rightarrow> nat \<Rightarrow> wire_error + ('p simple_server_params \<times> nat \<times> nat)" where
  "read_server_params lib segment bs pos =
     and_then (wire_read_u32 bs pos) (\<lambda>(lwe_dim, pos).
     and_then (wire_read_u32 bs pos) (\<lambda>(seg_plaintext_bits, pos).
     and_then (wire_read_f64 bs pos) (\<lambda>(sigma, pos).
     and_then (wire_read_seed bs pos) (\<lambda>(seed, pos).
     and_then (wire_read_u32 bs pos) (\<lambda>(n_rows, pos).
     and_then (wire_read_u32 bs pos) (\<lambda>(row_width, pos).
     and_then (wire_read_u32 bs pos) (\<lambda>(k, pos).
     and_then (wire_read_u32 bs pos) (\<lambda>(reshape_rows, pos).
     and_then (wire_read_u32 bs pos) (\<lambda>(reshape_row_width, pos).
       if lwe_dim = 0 \<or> \<not> (1 \<le> seg_plaintext_bits \<and> seg_plaintext_bits \<le> 31) \<or>
          \<not> sigma_positive_finite sigma
       then Inl (InvalidSimpleParams segment)
       else Inr (\<lparr> sp_params = sl_new lib lwe_dim seg_plaintext_bits sigma seed,
                   sp_n_rows = n_rows, sp_row_width = row_width, sp_k = k,
                   sp_reshape_rows = reshape_rows, sp_reshape_row_width = reshape_row_width \<rparr>,
                 Suc segment, pos))))))))))"

fun read_hints :: "'p simple_lib \<Rightarrow> 'p simple_server_params list \<Rightarrow> nat \<Rightarrow> bytes \<Rightarrow> nat
    \<Rightarrow> wire_error + (u32 list list \<times> nat)" where
  "read_hints lib [] segment bs pos = Inr ([], pos)"
| "read_hints lib (sp # sps) segment bs pos =
     (let expected_len = (ucast (sl_lwe_dim lib (sp_params sp)) :: u64) * ucast (sp_reshape_row_width sp);
          max_len = mul_u32_saturating_usize (sl_lwe_dim lib (sp_params sp)) (sp_reshape_row_width sp)
      in and_then (map_err WireCodec (read_u32s bs pos max_len)) (\<lambda>(data, pos).
           if length data \<noteq> unat expected_len
           then Inl (SegmentLengthMismatch segment expected_len (length data))
           else and_then (read_hints lib sps (Suc segment) bs pos) (\<lambda>(hints, pos).
                  Inr (data # hints, pos))))"

definition read_scheme :: "u8 \<Rightarrow> wire_error + (scheme_kind \<times> nat)" where
  "read_scheme b =
     (if b = 2 then Inr (Segmented2ary, 2)
      else if b = 3 then Inr (Segmented3ary, 3)
      else if b = 4 then Inr (Segmented4ary, 4)
      else Inl (BadScheme b))"

definition decode_setup :: "'p simple_lib \<Rightarrow> bytes \<Rightarrow> wire_error + 'p wire_bundle" where
  "decode_setup lib bs =
     and_then (expect_magic bs setup_magic) (\<lambda>pos.
     and_then (wire_read_u8 bs pos) (\<lambda>(scheme_byte, pos).
     and_then (read_scheme scheme_byte) (\<lambda>(scheme_kind, arity).
     and_then (wire_read_u32 bs pos) (\<lambda>(num_buckets, pos).
     and_then (wire_read_u32 bs pos) (\<lambda>(bucket_size, pos).
     and_then (wire_read_u32 bs pos) (\<lambda>(fingerprint_bits, pos).
     and_then (wire_read_u32 bs pos) (\<lambda>(vbits, pos).
     and_then (wire_read_u32 bs pos) (\<lambda>(plaintext_bits, pos).
     and_then (wire_read_u64 bs pos) (\<lambda>(block, pos).
     and_then (for_read (read_server_params lib) arity 0 bs pos) (\<lambda>(backend_params, pos).
     and_then (read_hints lib backend_params 0 bs pos) (\<lambda>(hints, pos).
       if pos \<noteq> length bs then Inl WireTrailingBytes
       else Inr \<lparr> wb_params = \<lparr> cf_scheme_kind = scheme_kind, cf_num_buckets = num_buckets,
                    cf_bucket_size = bucket_size, cf_fingerprint_bits = fingerprint_bits,
                    cf_value_bits = vbits, cf_plaintext_bits = plaintext_bits \<rparr>,
                  wb_backend_params = backend_params, wb_hints = hints, wb_block = block \<rparr>)))))))))))"

section \<open>Query and response bundles\<close>

definition encode_query_bundle :: "u32 list list \<Rightarrow> bytes option" where
  "encode_query_bundle queries =
     (if length queries > 255 then None
      else Some (query_magic @ [of_nat (length queries)] @ concat (map encode_u32s queries)))"

fun read_exact :: "u32 list \<Rightarrow> nat \<Rightarrow> bytes \<Rightarrow> nat \<Rightarrow> wire_error + (u32 list list \<times> nat)" where
  "read_exact [] segment bs pos = Inr ([], pos)"
| "read_exact (expected_len # es) segment bs pos =
     (let max_len = unat expected_len
      in and_then (map_err WireCodec (read_u32s bs pos max_len)) (\<lambda>(b, pos).
           if length b \<noteq> max_len
           then Inl (SegmentLengthMismatch segment (ucast expected_len) (length b))
           else and_then (read_exact es (Suc segment) bs pos) (\<lambda>(qs, pos). Inr (b # qs, pos))))"

definition decode_query_bundle ::
    "(cuckoo_fields \<Rightarrow> nat) \<Rightarrow> bytes \<Rightarrow> cuckoo_fields \<Rightarrow> u32 list \<Rightarrow> wire_error + u32 list list" where
  "decode_query_bundle arity_of bs params expected_len_per_seg =
     and_then (expect_magic bs query_magic) (\<lambda>pos.
     and_then (wire_read_u8 bs pos) (\<lambda>(arity_byte, pos).
       let expected_arity = arity_of params in
       if unat arity_byte \<noteq> expected_arity
       then Inl (WireArityMismatch expected_arity (unat arity_byte))
       else if length expected_len_per_seg \<noteq> expected_arity
       then Inl (WireArityMismatch expected_arity (length expected_len_per_seg))
       else and_then (read_exact expected_len_per_seg 0 bs pos) (\<lambda>(queries, pos).
         if pos \<noteq> length bs then Inl WireTrailingBytes else Inr queries)))"

definition encode_response_bundle :: "u32 list list \<Rightarrow> u64 \<Rightarrow> bytes option" where
  "encode_response_bundle responses head =
     (if length responses > 255 then None
      else Some (response_magic @ [of_nat (length responses)] @ u64_le head @
        concat (map encode_u32s responses)))"

definition decode_response_bundle ::
    "bytes \<Rightarrow> u32 list \<Rightarrow> nat \<Rightarrow> wire_error + (u32 list list \<times> u64)" where
  "decode_response_bundle bs expected_len_per_seg arity =
     and_then (expect_magic bs response_magic) (\<lambda>pos.
     and_then (wire_read_u8 bs pos) (\<lambda>(arity_byte, pos).
       if unat arity_byte \<noteq> arity then Inl (WireArityMismatch arity (unat arity_byte))
       else if length expected_len_per_seg \<noteq> arity
       then Inl (WireArityMismatch arity (length expected_len_per_seg))
       else and_then (wire_read_u64 bs pos) (\<lambda>(head, pos).
         and_then (read_exact expected_len_per_seg 0 bs pos) (\<lambda>(responses, pos).
           if pos \<noteq> length bs then Inl WireTrailingBytes else Inr (responses, head)))))"

section \<open>Reading what was written\<close>

lemma wire_read_u8_at [reads_at]: "drop p bs = b # rest \<Longrightarrow> wire_read_u8 bs p = Inr (b, p + 1)"
  by (simp add: wire_read_u8_def get_at)

lemma wire_read_u32_at [reads_at]: "drop p bs = u32_le v @ rest \<Longrightarrow> wire_read_u32 bs p = Inr (v, p + 4)"
  by (simp add: wire_read_u32_def get_range_le)

lemma wire_read_u64_at [reads_at]: "drop p bs = u64_le v @ rest \<Longrightarrow> wire_read_u64 bs p = Inr (v, p + 8)"
  by (simp add: wire_read_u64_def get_range_le)

lemma wire_read_f64_at [reads_at]: "drop p bs = u64_le v @ rest \<Longrightarrow> wire_read_f64 bs p = Inr (v, p + 8)"
  by (simp add: wire_read_f64_def get_range_le)

lemma wire_read_seed_at [reads_at]:
  "drop p bs = s @ rest \<Longrightarrow> length s = 16 \<Longrightarrow> wire_read_seed bs p = Inr (s, p + 16)"
  by (subst wire_read_seed_def, subst get_range_at) auto

lemma wire_read_bounds:
  "wire_read_u8 bs p = Inr (x8, q) \<Longrightarrow> p < q \<and> q \<le> length bs"
  "wire_read_u32 bs p = Inr (x32, q) \<Longrightarrow> p < q \<and> q \<le> length bs"
  "wire_read_u64 bs p = Inr (x64, q) \<Longrightarrow> p < q \<and> q \<le> length bs"
  "wire_read_f64 bs p = Inr (x64, q) \<Longrightarrow> p < q \<and> q \<le> length bs"
  "wire_read_seed bs p = Inr (s, q) \<Longrightarrow> p < q \<and> q \<le> length bs"
  by (auto simp: wire_read_u8_def wire_read_u32_def wire_read_u64_def wire_read_f64_def
      wire_read_seed_def get_Some_iff get_range_Some_iff)

lemma expect_magic_at [simp]: "length magic = 4 \<Longrightarrow> expect_magic (magic @ rest) magic = Inr 4"
  by (simp add: expect_magic_def)

lemma length_magics [simp]:
  "length setup_magic = 4" "length query_magic = 4" "length response_magic = 4"
  by (simp_all add: setup_magic_def query_magic_def response_magic_def)

lemma unat_lt_32: "unat (a :: u32) < 2 ^ 32"
  using unsigned_less[of a, where 'a = nat] by simp

lemma mul_u32_exact: "unat ((ucast (a :: u32) :: u64) * ucast (b :: u32)) = unat a * unat b"
proof -
  have "unat a * unat b < 2 ^ 32 * 2 ^ 32"
    by (intro mult_strict_mono' unat_lt_32) simp_all
  then show ?thesis
    by (simp add: unat_word_ariths unat_ucast_up)
qed

lemma mul_u32_saturating_usize_eq: "mul_u32_saturating_usize a b = unat a * unat b"
proof -
  have "unat ((ucast a :: u64) * ucast b) < 2 ^ 64"
    using unsigned_less[of "(ucast a :: u64) * ucast b", where 'a = nat] by simp
  then show ?thesis unfolding mul_u32_saturating_usize_def mul_u32_exact by simp
qed

text \<open>One segment's parameters.\<close>

lemma simple_lib_okD:
  assumes "simple_lib_ok lib" and "sl_built lib p"
  shows "length (sl_seed lib p) = 16"
    and "simple_params_ok (sl_lwe_dim lib p) (sl_plaintext_bits lib p) (sl_sigma lib p)"
    and "sl_new lib (sl_lwe_dim lib p) (sl_plaintext_bits lib p) (sl_sigma lib p) (sl_seed lib p) = p"
  using assms by (auto simp: simple_lib_ok_def sl_built_def)

lemma read_server_params_at:
  assumes ok: "simple_lib_ok lib" "sl_built lib (sp_params sp)" and d: "drop p bs = fst (write_server_params lib s sp) @ rest"
  shows "read_server_params lib s bs p = Inr (sp, Suc s, p + 52)"
proof -
  note d0 = d[unfolded write_server_params_def fst_conv append_assoc]
  note d1 = drop_add_at[OF d0, unfolded length_to_le] note d2 = drop_add_at[OF d1, unfolded length_to_le]
  note d3 = drop_add_at[OF d2, unfolded length_to_le]
  note d4 = drop_add_at[OF d3, unfolded simple_lib_okD(1)[OF ok]]
  note d5 = drop_add_at[OF d4, unfolded length_to_le] note d6 = drop_add_at[OF d5, unfolded length_to_le]
  note d7 = drop_add_at[OF d6, unfolded length_to_le] note d8 = drop_add_at[OF d7, unfolded length_to_le]
  have "read_server_params lib s bs p = Inr (sp, Suc s, p + 4 + 4 + 8 + 16 + 4 + 4 + 4 + 4 + 4)"
    using simple_lib_okD(2)[OF ok]
    by (simp only: read_server_params_def simple_params_ok_def wire_read_u32_at[OF d0]
        wire_read_u32_at[OF d1] wire_read_f64_at[OF d2] wire_read_seed_at[OF d3 simple_lib_okD(1)[OF ok]]
        wire_read_u32_at[OF d4] wire_read_u32_at[OF d5] wire_read_u32_at[OF d6]
        wire_read_u32_at[OF d7] wire_read_u32_at[OF d8] and_then_simps prod.case)
      (simp add: simple_lib_okD(3)[OF ok])
  then show ?thesis by simp
qed

lemma length_write_server_params:
  "simple_lib_ok lib \<Longrightarrow> sl_built lib (sp_params sp) \<Longrightarrow> length (fst (write_server_params lib s sp)) = 52"
  by (simp add: write_server_params_def simple_lib_okD)

lemma server_params_item:
  assumes ok: "simple_lib_ok lib"
  shows "wire_item (write_server_params lib) (read_server_params lib) (\<lambda>s. s)
    (\<lambda>_ sp. sl_built lib (sp_params sp))"
proof
  fix s x p bs rest
  assume b: "sl_built lib (sp_params x)" and d: "drop p bs = fst (write_server_params lib s x) @ rest"
  show "read_server_params lib s bs p = Inr (x, snd (write_server_params lib s x),
      p + length (fst (write_server_params lib s x)))"
    by (simp only: read_server_params_at[OF ok b d] length_write_server_params[OF ok b])
      (simp add: write_server_params_def)
next
  show "fst (write_server_params lib s x) \<noteq> []" for s x
    by (simp add: write_server_params_def flip: length_greater_0_conv)
qed

lemma length_for_write_params:
  assumes "simple_lib_ok lib" and "\<forall>sp \<in> set sps. sl_built lib (sp_params sp)"
  shows "length (for_write (write_server_params lib) s sps) = 52 * length sps"
  using assms(2)
proof (induction sps arbitrary: s)
  case (Cons sp sps)
  then show ?case
    using length_write_server_params[OF assms(1), of sp s]
    by (cases "write_server_params lib s sp") simp
qed simp

text \<open>The exact-length segment loops.  \<open>lens\<close> is what the geometry demands.\<close>

definition hint_len :: "'p simple_lib \<Rightarrow> 'p simple_server_params \<Rightarrow> nat" where
  "hint_len lib sp = unat (sl_lwe_dim lib (sp_params sp)) * unat (sp_reshape_row_width sp)"

lemma read_exact_at:
  assumes "drop p bs = concat (map encode_u32s ds) @ rest" and "map unat lens = map length ds"
  shows "read_exact lens seg bs p = Inr (ds, p + length (concat (map encode_u32s ds)))"
  using assms
proof (induction ds arbitrary: lens seg p)
  case Nil
  then show ?case by simp
next
  case (Cons d ds)
  then obtain l ls where lens: "lens = l # ls" and l: "unat l = length d"
    and ls: "map unat ls = map length ds" by (cases lens) auto
  have dr: "drop p bs = encode_u32s d @ (concat (map encode_u32s ds) @ rest)"
    using Cons.prems(1) by simp
  have "length d < 2 ^ 64"
    using unsigned_less[of l, where 'a = nat] l by simp
  then have "read_u32s bs p (length d) = Inr (d, p + length (encode_u32s d))"
    by (intro read_u32s_at[OF dr]) simp_all
  then show ?case
    using Cons.IH[OF drop_add_at[OF dr] ls] by (simp add: lens l)
qed

lemma read_exact_sound:
  assumes "read_exact lens seg bs p = Inr (ds, q)" and "p \<le> length bs"
  shows "map length ds = map unat lens \<and> p \<le> q \<and> q \<le> length bs"
  using assms
proof (induction lens arbitrary: seg p ds)
  case Nil
  then show ?case by simp
next
  case (Cons e es)
  then obtain d r ds' where d: "read_u32s bs p (unat e) = Inr (d, r)" and len: "length d = unat e"
    and ds': "read_exact es (Suc seg) bs r = Inr (ds', q)" and ds: "ds = d # ds'"
    by (auto simp: Let_def split: if_splits)
  from read_u32s_bounds[OF d] have r: "p < r" "r \<le> length bs" by simp_all
  have "map length ds' = map unat es \<and> r \<le> q \<and> q \<le> length bs"
    by (rule Cons.IH[OF ds' r(2)])
  with r len show ?case by (simp add: ds)
qed

lemma read_hints_at:
  assumes "drop p bs = concat (map encode_u32s ds) @ rest" and "map (hint_len lib) sps = map length ds"
  shows "read_hints lib sps seg bs p = Inr (ds, p + length (concat (map encode_u32s ds)))"
  using assms
proof (induction ds arbitrary: sps seg p)
  case Nil
  then show ?case by simp
next
  case (Cons d ds)
  then obtain sp sps' where sps: "sps = sp # sps'" and l: "hint_len lib sp = length d"
    and ls: "map (hint_len lib) sps' = map length ds" by (cases sps) auto
  have dr: "drop p bs = encode_u32s d @ (concat (map encode_u32s ds) @ rest)"
    using Cons.prems(1) by simp
  have l': "mul_u32_saturating_usize (sl_lwe_dim lib (sp_params sp)) (sp_reshape_row_width sp) = length d"
    "unat ((ucast (sl_lwe_dim lib (sp_params sp)) :: u64) * ucast (sp_reshape_row_width sp)) = length d"
    using l by (simp_all add: mul_u32_saturating_usize_eq mul_u32_exact hint_len_def)
  have "length d < 2 ^ 64"
    using unsigned_less[of "(ucast (sl_lwe_dim lib (sp_params sp)) :: u64) * ucast (sp_reshape_row_width sp)",
        where 'a = nat] unfolding l'(2) by simp
  then have "read_u32s bs p (length d) = Inr (d, p + length (encode_u32s d))"
    by (intro read_u32s_at[OF dr]) simp_all
  then show ?case
    using Cons.IH[OF drop_add_at[OF dr] ls] by (simp add: sps l' Let_def)
qed

lemma read_hints_sound:
  assumes "read_hints lib sps seg bs p = Inr (ds, q)" and "p \<le> length bs"
  shows "map length ds = map (hint_len lib) sps \<and> p \<le> q \<and> q \<le> length bs"
  using assms
proof (induction sps arbitrary: seg p ds)
  case Nil
  then show ?case by simp
next
  case (Cons sp sps)
  then obtain d r ds' where
    d: "read_u32s bs p (mul_u32_saturating_usize (sl_lwe_dim lib (sp_params sp)) (sp_reshape_row_width sp)) = Inr (d, r)"
    and len: "length d = hint_len lib sp"
    and ds': "read_hints lib sps (Suc seg) bs r = Inr (ds', q)" and ds: "ds = d # ds'"
    by (auto simp: Let_def mul_u32_exact hint_len_def split: if_splits)
  from read_u32s_bounds[OF d] have r: "p < r" "r \<le> length bs" by simp_all
  have "map length ds' = map (hint_len lib) sps \<and> r \<le> q \<and> q \<le> length bs"
    by (rule Cons.IH[OF ds' r(2)])
  with r len show ?case by (simp add: ds)
qed

lemma read_server_params_bounds:
  assumes "read_server_params lib s bs p = Inr (x, s', q)"
  shows "p < q \<and> q \<le> length bs"
proof -
  from assms obtain p1 p2 p3 p4 p5 p6 p7 p8 where
    "p < p1" "p1 < p2" "p2 < p3" "p3 < p4" "p4 < p5" "p5 < p6" "p6 < p7" "p7 < p8" "p8 < q \<and> q \<le> length bs"
    unfolding read_server_params_def
    by (auto dest!: wire_read_bounds split: if_splits)
  then show ?thesis by simp
qed

lemma read_server_params_built:
  assumes "read_server_params lib s bs p = Inr (x, s', q)"
  shows "sl_built lib (sp_params x)"
proof -
  from assms obtain d b sg seed p3 p4 where "wire_read_seed bs p3 = Inr (seed, p4)"
    "simple_params_ok d b sg" "sp_params x = sl_new lib d b sg seed"
    unfolding read_server_params_def by (auto simp: simple_params_ok_def split: if_splits)
  moreover from this(1) have "length seed = 16"
    by (auto simp: wire_read_seed_def get_range_Some_iff)
  ultimately show ?thesis unfolding sl_built_def by blast
qed

lemma for_read_params_bounds:
  assumes "for_read (read_server_params lib) n s bs p = Inr (sps, q)" and "p \<le> length bs"
  shows "length sps = n \<and> p \<le> q \<and> q \<le> length bs"
proof -
  have "p + n \<le> q \<and> q \<le> length bs"
    by (rule for_read_bounds[OF assms(1) _ assms(2)]) (rule read_server_params_bounds)
  then show ?thesis using for_read_length[OF assms(1)] by simp
qed

section \<open>Whole bundles\<close>

lemma read_scheme_arity:
  "read_scheme (of_nat (scheme_arity k)) = Inr (k, scheme_arity k)"
  by (cases k) (simp_all add: read_scheme_def)

lemma read_scheme_Inr: "read_scheme b = Inr (k, n) \<Longrightarrow> n = scheme_arity k"
  by (auto simp: read_scheme_def split: if_splits)

lemma scheme_arity_range: "2 \<le> scheme_arity k \<and> scheme_arity k \<le> 4"
  by (cases k) simp_all

definition setup_fits :: "'p simple_lib \<Rightarrow> 'p wire_bundle \<Rightarrow> bool" where
  "setup_fits lib b \<longleftrightarrow>
     length (wb_backend_params b) = scheme_arity (cf_scheme_kind (wb_params b)) \<and>
     map length (wb_hints b) = map (hint_len lib) (wb_backend_params b) \<and>
     (\<forall>sp \<in> set (wb_backend_params b). sl_built lib (sp_params sp))"

definition setup_bytes :: "'p simple_lib \<Rightarrow> 'p wire_bundle \<Rightarrow> bytes" where
  "setup_bytes lib b = setup_magic @ [of_nat (scheme_arity (cf_scheme_kind (wb_params b)))] @
     u32_le (cf_num_buckets (wb_params b)) @ u32_le (cf_bucket_size (wb_params b)) @
     u32_le (cf_fingerprint_bits (wb_params b)) @ u32_le (cf_value_bits (wb_params b)) @
     u32_le (cf_plaintext_bits (wb_params b)) @ u64_le (wb_block b) @
     for_write (write_server_params lib) 0 (wb_backend_params b) @
     concat (map encode_u32s (wb_hints b))"

lemma encode_setup_bytes: "arity_doc arity_of \<Longrightarrow> encode_setup arity_of lib b = Some (setup_bytes lib b)"
  using scheme_arity_range[of "cf_scheme_kind (wb_params b)"]
  by (simp add: encode_setup_def arity_doc_def setup_bytes_def Let_def)

lemma length_concat_u32s:
  "length (concat (map encode_u32s hs)) = (\<Sum>h \<leftarrow> hs. uvarint_len (of_nat (length h)) + length h * 4)"
  by (induction hs) (simp_all add: encode_u32s_def length_write_uvarint length_for_write_u32)

lemma setup_bytes_length:
  "simple_lib_ok lib \<Longrightarrow> setup_fits lib b \<Longrightarrow> length (setup_bytes lib b) = setup_encoded_len b"
  unfolding setup_fits_def
  by (simp add: setup_bytes_def setup_encoded_len_def length_for_write_params length_concat_u32s)

lemma decode_setup_bytes:
  assumes ok: "simple_lib_ok lib" and fits: "setup_fits lib b"
  shows "decode_setup lib (setup_bytes lib b) = Inr b"
proof -
  define bs where "bs = setup_bytes lib b"
  let ?k = "cf_scheme_kind (wb_params b)"
  have m: "expect_magic bs setup_magic = Inr 4"
    by (simp add: bs_def setup_bytes_def)
  have d1: "drop 4 bs = of_nat (scheme_arity ?k) # drop 5 bs"
    by (simp add: bs_def setup_bytes_def)
  have d2: "drop (4 + 1) bs = u32_le (cf_num_buckets (wb_params b)) @
      (u32_le (cf_bucket_size (wb_params b)) @ u32_le (cf_fingerprint_bits (wb_params b)) @
       u32_le (cf_value_bits (wb_params b)) @ u32_le (cf_plaintext_bits (wb_params b)) @
       u64_le (wb_block b) @ for_write (write_server_params lib) 0 (wb_backend_params b) @
       concat (map encode_u32s (wb_hints b)) @ [])"
    by (simp add: bs_def setup_bytes_def)
  note d3 = drop_add_at[OF d2, unfolded length_to_le] note d4 = drop_add_at[OF d3, unfolded length_to_le]
  note d5 = drop_add_at[OF d4, unfolded length_to_le] note d6 = drop_add_at[OF d5, unfolded length_to_le]
  note d7 = drop_add_at[OF d6, unfolded length_to_le] note d8 = drop_add_at[OF d7, unfolded length_to_le]
  note d9 = drop_add_at[OF d8]
  have len: "length (wb_backend_params b) = scheme_arity ?k"
    and hints: "map (hint_len lib) (wb_backend_params b) = map length (wb_hints b)"
    and built: "\<forall>sp \<in> set (wb_backend_params b). sl_built lib (sp_params sp)"
    using fits by (simp_all add: setup_fits_def)
  note params = wire_item.for_read_write[OF server_params_item[OF ok]
      for_ok_const[where ok = "\<lambda>sp. sl_built lib (sp_params sp)", OF built] d8, unfolded len]
  note end_pos = drop_add_at[OF d9]
  have e: "4 + 1 + 4 + 4 + 4 + 4 + 4 + 8 + length (for_write (write_server_params lib) 0 (wb_backend_params b))
      + length (concat (map encode_u32s (wb_hints b))) = length bs"
    by (simp add: bs_def setup_bytes_def)
  have "decode_setup lib bs = Inr b"
    by (simp only: decode_setup_def m and_then_simps prod.case wire_read_u8_at[OF d1] read_scheme_arity
        wire_read_u32_at[OF d2] wire_read_u32_at[OF d3] wire_read_u32_at[OF d4]
        wire_read_u32_at[OF d5] wire_read_u32_at[OF d6] wire_read_u64_at[OF d7] params
        read_hints_at[OF d9 hints] e) simp
  then show ?thesis by (simp only: bs_def)
qed

lemma wire_read_le:
  "expect_magic bs magic = Inr p \<Longrightarrow> p \<le> length bs"
  by (auto simp: expect_magic_def split: if_splits)

lemma decode_setup_InrD:
  assumes "decode_setup lib bs = Inr b"
  shows "setup_fits lib b"
proof -
  from assms obtain k n p9 p10 p11 where k: "n = scheme_arity k" "cf_scheme_kind (wb_params b) = k"
    and p9: "p9 \<le> length bs"
    and ps: "for_read (read_server_params lib) n 0 bs p9 = Inr (wb_backend_params b, p10)"
    and hs: "read_hints lib (wb_backend_params b) 0 bs p10 = Inr (wb_hints b, p11)"
    unfolding decode_setup_def
    by (auto dest!: wire_read_bounds read_scheme_Inr split: if_splits)
  from for_read_params_bounds[OF ps p9] have "length (wb_backend_params b) = n" "p10 \<le> length bs" by auto
  moreover have "\<forall>sp \<in> set (wb_backend_params b). sl_built lib (sp_params sp)"
    by (rule for_read_all[OF ps]) (rule read_server_params_built)
  ultimately show ?thesis
    using read_hints_sound[OF hs] k by (simp add: setup_fits_def)
qed

text \<open>The query and the response bundle.\<close>

lemma query_bytes_decode:
  assumes enc: "encode_query_bundle qs = Some bs" and lens: "map unat lens = map length qs"
    and ar: "length lens = arity_of params"
  shows "decode_query_bundle arity_of bs params lens = Inr qs"
proof -
  from enc have n: "length qs \<le> 255"
    and bs: "bs = query_magic @ of_nat (length qs) # concat (map encode_u32s qs) @ []"
    by (auto simp: encode_query_bundle_def split: if_splits)
  have d1: "drop 4 bs = of_nat (length qs) # concat (map encode_u32s qs) @ []" by (simp add: bs)
  note d2 = drop_Suc_at[OF d1]
  have b: "unat (of_nat (length qs) :: u8) = length qs"
    using n by (simp add: unat_of_nat take_bit_nat_eq_self)
  have "expect_magic bs query_magic = Inr 4" by (simp add: bs)
  moreover have "length lens = length qs" using lens by (metis length_map)
  ultimately show ?thesis
    using ar read_exact_at[OF d2 lens, of 0] wire_read_u8_at[OF d1]
    by (simp add: decode_query_bundle_def b Let_def) (simp add: bs)
qed

lemma decode_query_InrD:
  assumes "decode_query_bundle arity_of bs params lens = Inr qs"
  shows "map length qs = map unat lens \<and> length lens = arity_of params"
proof -
  from assms obtain p q where "p \<le> length bs" "read_exact lens 0 bs p = Inr (qs, q)"
    and ar: "length lens = arity_of params"
    unfolding decode_query_bundle_def by (auto simp: Let_def dest!: wire_read_bounds split: if_splits)
  from read_exact_sound[OF this(2,1)] ar show ?thesis by simp
qed

lemma response_bytes_decode:
  assumes enc: "encode_response_bundle rs head = Some bs" and lens: "map unat lens = map length rs"
  shows "decode_response_bundle bs lens (length lens) = Inr (rs, head)"
proof -
  from enc have n: "length rs \<le> 255"
    and bs: "bs = response_magic @ of_nat (length rs) # u64_le head @ concat (map encode_u32s rs) @ []"
    by (auto simp: encode_response_bundle_def split: if_splits)
  have d1: "drop 4 bs = of_nat (length rs) # u64_le head @ concat (map encode_u32s rs) @ []"
    by (simp add: bs)
  note d2 = drop_Suc_at[OF d1]
  note d3 = drop_add_at[OF d2, unfolded length_to_le]
  have b: "unat (of_nat (length rs) :: u8) = length rs"
    using n by (simp add: unat_of_nat take_bit_nat_eq_self)
  have "expect_magic bs response_magic = Inr 4" by (simp add: bs)
  moreover have "length lens = length rs" using lens by (metis length_map)
  ultimately show ?thesis
    using read_exact_at[OF d3 lens, of 0] wire_read_u8_at[OF d1] wire_read_u64_at[OF d2]
    by (simp add: decode_response_bundle_def b Let_def) (simp add: bs)
qed

lemma decode_response_InrD:
  assumes "decode_response_bundle bs lens arity = Inr (rs, head)"
  shows "map length rs = map unat lens \<and> length lens = arity"
proof -
  from assms obtain p q where "p \<le> length bs" "read_exact lens 0 bs p = Inr (rs, q)"
    and ar: "length lens = arity"
    unfolding decode_response_bundle_def by (auto dest!: wire_read_bounds split: if_splits)
  from read_exact_sound[OF this(2,1)] ar show ?thesis by simp
qed

text \<open>The epoch's material determines seeds and dimensions.\<close>

definition lineage_of :: "'p simple_lib \<Rightarrow> 'p simple_server_params \<Rightarrow> bytes \<times> u32 \<times> u32 \<times> u32 \<times> u32" where
  "lineage_of lib sp = (sl_seed lib (sp_params sp), sp_n_rows sp, sp_row_width sp,
     sp_reshape_rows sp, sp_reshape_row_width sp)"

lemma to_le_inj: "LENGTH('a::len) = 8 * n \<Longrightarrow> to_le n v = to_le n w \<longleftrightarrow> (v :: 'a word) = w"
  by (metis of_le_to_le)

lemma lineage_material_eq_iff:
  assumes ok: "simple_lib_ok lib"
    and "\<forall>sp \<in> set ps. sl_built lib (sp_params sp)" and "\<forall>sp \<in> set qs. sl_built lib (sp_params sp)"
  shows "lineage_material lib ps = lineage_material lib qs \<longleftrightarrow> map (lineage_of lib) ps = map (lineage_of lib) qs"
  using assms(2,3)
proof (induction ps arbitrary: qs)
  case Nil
  show ?case
    by (cases qs) (auto simp: lineage_material_def simp flip: length_0_conv)
next
  case (Cons p ps)
  show ?case
  proof (cases qs)
    case Nil
    then show ?thesis by (auto simp: lineage_material_def simp flip: length_0_conv)
  next
    case (Cons q qs')
    have "length (sl_seed lib (sp_params p)) = length (sl_seed lib (sp_params q))"
      using Cons.prems by (simp add: simple_lib_okD[OF ok] Cons)
    then show ?thesis
      using Cons.IH[of qs'] Cons.prems unfolding Cons
      by (auto simp: lineage_material_def lineage_of_def to_le_inj)
  qed
qed

lemma nibble_lt: "unat (drop_bit 4 (b :: u8)) < 16" "unat (b AND 0x0f :: u8) < 16"
proof -
  show "unat (drop_bit 4 b) < 16"
    using unsigned_less[of b, where 'a = nat] by (simp add: drop_bit_eq_div unat_div)
  have "(0x0f :: u8) = mask 4" by (simp add: mask_eq_exp_minus_1)
  then have "unat (b AND 0x0f) = take_bit 4 (unat b)"
    by (simp only: flip: take_bit_eq_mask) (simp add: unsigned_take_bit_eq)
  then show "unat (b AND 0x0f) < 16"
    by (simp add: take_bit_eq_mod)
qed

lemma hex_digit_inj: "i < 16 \<Longrightarrow> j < 16 \<Longrightarrow> hex_digits ! i = hex_digits ! j \<longleftrightarrow> i = j"
  by (rule nth_eq_iff_index_eq) (simp_all add: hex_digits_def)

lemma hex_byte_inj [simp]: "hex_byte a = hex_byte b \<longleftrightarrow> a = b"
proof
  assume "hex_byte a = hex_byte b"
  then have hi: "drop_bit 4 a = drop_bit 4 b" and lo: "a AND 0x0f = b AND 0x0f"
    using nibble_lt[of a] nibble_lt[of b] by (simp_all add: hex_byte_def hex_digit_inj flip: word_unat_eq_iff)
  have m: "(0x0f :: u8) = mask 4" by (simp add: mask_eq_exp_minus_1)
  show "a = b"
  proof (rule bit_word_eqI)
    fix n assume "n < LENGTH(8)"
    have "bit (drop_bit 4 a) (n - 4) = bit (drop_bit 4 b) (n - 4)"
      "bit (a AND mask 4) n = bit (b AND mask 4) n"
      using hi lo unfolding m by simp_all
    then show "bit a n = bit b n" by (cases "n < 4") (auto simp: bit_simps)
  qed
qed simp

lemma concat_hex_inj: "concat (map hex_byte xs) = concat (map hex_byte ys) \<longleftrightarrow> xs = ys"
proof (induction xs arbitrary: ys)
  case Nil
  show ?case by (cases ys) (simp_all add: hex_byte_def)
next
  case (Cons x xs)
  note IH = Cons.IH
  have len: "length (hex_byte z) = 2" for z by (simp add: hex_byte_def)
  show ?case
  proof (cases ys)
    case Nil
    then show ?thesis using len[of x] by (auto simp del: hex_byte_inj)
  next
    case (Cons y ys')
    then show ?thesis using IH[of ys'] append_eq_append_conv[of "hex_byte x" "hex_byte y"] by (simp add: len)
  qed
qed

section \<open>Trailing bytes\<close>

text \<open>A decoder that reads on from an offset and accepts nothing that goes on behind what it has read.\<close>

definition closes :: "(bytes \<Rightarrow> nat \<Rightarrow> wire_error + 'a) \<Rightarrow> bool" where
  "closes k \<longleftrightarrow> (\<forall>bs ys p r. k bs p = Inr r \<longrightarrow> ys \<noteq> [] \<longrightarrow> k (bs @ ys) p = Inl WireTrailingBytes)"

lemma extends_bind:
  "extends rd \<Longrightarrow> (\<And>x. extends (k x)) \<Longrightarrow> extends (\<lambda>bs p. and_then (rd bs p) (\<lambda>(x, q). k x bs q))"
  unfolding extends_def by fastforce

lemma extends_fixed: "extends (\<lambda>bs p. f p)"
  by (simp add: extends_def)

lemma extends_if: "extends k \<Longrightarrow> extends (\<lambda>bs p. if c then Inl e else k bs p)"
  by (auto simp: extends_def)

lemma closes_end: "closes (\<lambda>bs p. if p \<noteq> length bs then Inl WireTrailingBytes else Inr x)"
  by (auto simp: closes_def)

lemma closes_bind:
  "extends rd \<Longrightarrow> (\<And>x. closes (k x)) \<Longrightarrow> closes (\<lambda>bs p. and_then (rd bs p) (\<lambda>(x, q). k x bs q))"
  unfolding extends_def closes_def by fastforce

lemma closes_given: "(\<And>x y. closes (k x y)) \<Longrightarrow> closes (\<lambda>bs p. and_then r (\<lambda>(x, y). k x y bs p))"
  unfolding closes_def by fastforce

lemma closes_if: "closes k \<Longrightarrow> closes (\<lambda>bs p. if c then Inl e else k bs p)"
  by (auto simp: closes_def)

lemma closes_magic:
  assumes "closes k" and "and_then (expect_magic bs magic) (\<lambda>p. k bs p) = Inr r" and "ys \<noteq> []"
  shows "and_then (expect_magic (bs @ ys) magic) (\<lambda>p. k (bs @ ys) p) = Inl WireTrailingBytes"
proof -
  obtain p where p: "expect_magic bs magic = Inr p" "k bs p = Inr r" using assms(2) by auto
  then have "expect_magic (bs @ ys) magic = Inr p" by (auto simp: expect_magic_def split: if_splits)
  then show ?thesis using assms(1,3) p(2) by (simp add: closes_def)
qed

lemma wire_read_extends:
  "extends wire_read_u8" "extends wire_read_u32" "extends wire_read_u64" "extends wire_read_f64" "extends wire_read_seed"
  by (auto simp: extends_def wire_read_u8_def wire_read_u32_def wire_read_u64_def wire_read_f64_def wire_read_seed_def
      get_extends get_range_extends)

lemma read_server_params_extends: "extends (read_server_params lib segment)"
  unfolding read_server_params_def by (intro extends_bind wire_read_extends extends_if extends_fixed)

lemma read_u32s_wire_extends: "extends (\<lambda>bs p. map_err WireCodec (read_u32s bs p n))"
  using read_u32s_extends[of n] by (fastforce simp: extends_def map_err_def split: sum.splits)

lemma read_hints_extends: "extends (read_hints lib sps segment)"
proof (induction sps arbitrary: segment)
  case (Cons sp sps)
  show ?case unfolding read_hints.simps Let_def by (intro extends_bind read_u32s_wire_extends extends_if Cons extends_fixed)
qed (simp add: extends_def)

lemma read_exact_extends: "extends (read_exact lens segment)"
proof (induction lens arbitrary: segment)
  case (Cons len lens)
  show ?case unfolding read_exact.simps Let_def by (intro extends_bind read_u32s_wire_extends extends_if Cons extends_fixed)
qed (simp add: extends_def)

lemma decode_setup_trailing: "decode_setup lib bs = Inr b \<Longrightarrow> ys \<noteq> [] \<Longrightarrow> decode_setup lib (bs @ ys) = Inl WireTrailingBytes"
  unfolding decode_setup_def
  by (rule closes_magic) (intro closes_bind closes_given wire_read_extends for_read_extends read_server_params_extends
    read_hints_extends closes_end)

lemma decode_query_trailing:
  "decode_query_bundle arity_of bs params lens = Inr qs \<Longrightarrow> ys \<noteq> [] \<Longrightarrow>
   decode_query_bundle arity_of (bs @ ys) params lens = Inl WireTrailingBytes"
  unfolding decode_query_bundle_def Let_def
  by (rule closes_magic) (intro closes_bind closes_if wire_read_extends read_exact_extends closes_end)

lemma decode_response_trailing:
  "decode_response_bundle bs lens arity = Inr r \<Longrightarrow> ys \<noteq> [] \<Longrightarrow> decode_response_bundle (bs @ ys) lens arity = Inl WireTrailingBytes"
  unfolding decode_response_bundle_def
  by (rule closes_magic) (intro closes_bind closes_if wire_read_extends read_exact_extends closes_end)

section \<open>Concrete data\<close>

type_synonym toy_params = "u32 \<times> u32 \<times> u64 \<times> bytes"

definition toy_simple_lib :: "toy_params simple_lib" where
  "toy_simple_lib = \<lparr> sl_new = (\<lambda>d b s seed. (d, b, s, seed)), sl_lwe_dim = fst,
     sl_plaintext_bits = fst \<circ> snd, sl_sigma = fst \<circ> snd \<circ> snd, sl_seed = snd \<circ> snd \<circ> snd \<rparr>"

definition toy_server_params :: "u8 \<Rightarrow> toy_params simple_server_params" where
  "toy_server_params x = \<lparr> sp_params = (2, 9, 0x4019000000000000, replicate 16 x),
     sp_n_rows = 4, sp_row_width = 3, sp_k = 1, sp_reshape_rows = 4, sp_reshape_row_width = 3 \<rparr>"

definition toy_bundle :: "toy_params wire_bundle" where
  "toy_bundle = \<lparr> wb_params = \<lparr> cf_scheme_kind = Segmented2ary, cf_num_buckets = 8, cf_bucket_size = 1,
       cf_fingerprint_bits = 8, cf_value_bits = 16, cf_plaintext_bits = 9 \<rparr>,
     wb_backend_params = [toy_server_params 7, toy_server_params 8],
     wb_hints = [[1, 2, 3, 4, 5, 6], [300, 0, 0, 0, 0, 4294967295]], wb_block = 19 \<rparr>"

definition toy_arity :: "cuckoo_fields \<Rightarrow> nat" where
  "toy_arity p = scheme_arity (cf_scheme_kind p)"

lemma toy_simple_lib_ok: "simple_lib_ok toy_simple_lib"
  by (simp add: simple_lib_ok_def toy_simple_lib_def)

lemma toy_built: "sl_built toy_simple_lib (sp_params (toy_server_params x))"
  unfolding sl_built_def
  by (intro exI[of _ 2] exI[of _ 9] exI[of _ "0x4019000000000000"] exI[of _ "replicate 16 x"])
    (simp add: toy_simple_lib_def toy_server_params_def simple_params_ok_def sigma_positive_finite_def)

lemma toy_arity_doc: "arity_doc toy_arity"
  by (simp add: arity_doc_def toy_arity_def)

lemma toy_bundle_fits: "setup_fits toy_simple_lib toy_bundle"
  by (simp add: setup_fits_def toy_bundle_def toy_built hint_len_def)
    (simp add: toy_simple_lib_def toy_server_params_def)

section \<open>Properties\<close>

text \<open>The setup bundle that a fresh client downloads decodes to exactly the bundle the
  server encoded, and the buffer the encoder reserves has exactly the length it writes.\<close>

theorem setup_roundtrip:
  assumes "simple_lib_ok lib" and "arity_doc arity_of" and "setup_fits lib b"
  shows "\<exists>bs. encode_setup arity_of lib b = Some bs \<and> length bs = setup_encoded_len b \<and>
    decode_setup lib bs = Inr b"
  using encode_setup_bytes[OF assms(2)] setup_bytes_length[OF assms(1,3)] decode_setup_bytes[OF assms(1,3)]
  by blast

lemma setup_roundtrip_witness:
  "\<exists>bs. encode_setup toy_arity toy_simple_lib toy_bundle = Some bs \<and> length bs = 187 \<and>
    decode_setup toy_simple_lib bs = Inr toy_bundle"
proof -
  have "setup_encoded_len toy_bundle = 187"
    by (simp add: setup_encoded_len_def toy_bundle_def uvarint_len.simps)
  then show ?thesis
    using setup_roundtrip[OF toy_simple_lib_ok toy_arity_doc toy_bundle_fits] by simp
qed

text \<open>C27. Whatever bytes are sent, an accepted setup bundle has one parameter block and one
  hint per segment, every hint has exactly \<open>lwe_dim * reshape_row_width\<close> entries, and every
  \<open>SimpleParams\<close> was built with arguments its constructor's assertions admit; an accepted
  query or response has exactly the segments and segment lengths of the geometry, so that no
  index computed from them downstream is out of range.  And each is consumed to its end: the same bytes
  with anything behind them are refused for the trailing bytes.\<close>

theorem accepted_bundles_are_exact:
  "(\<forall>b. decode_setup lib bs = Inr b \<longrightarrow> setup_fits lib b \<and>
      (\<forall>ys. ys \<noteq> [] \<longrightarrow> decode_setup lib (bs @ ys) = Inl WireTrailingBytes)) \<and>
   (\<forall>qs. decode_query_bundle arity_of bs params lens = Inr qs \<longrightarrow>
      map length qs = map unat lens \<and> length qs = arity_of params \<and>
      (\<forall>ys. ys \<noteq> [] \<longrightarrow> decode_query_bundle arity_of (bs @ ys) params lens = Inl WireTrailingBytes)) \<and>
   (\<forall>rs head. decode_response_bundle bs lens arity = Inr (rs, head) \<longrightarrow>
      map length rs = map unat lens \<and> length rs = arity \<and>
      (\<forall>ys. ys \<noteq> [] \<longrightarrow> decode_response_bundle (bs @ ys) lens arity = Inl WireTrailingBytes))"
proof (intro conjI allI impI)
  show "map length qs = map unat lens" "length qs = arity_of params" if "decode_query_bundle arity_of bs params lens = Inr qs" for qs
    using decode_query_InrD[OF that] map_eq_imp_length_eq by (blast, metis length_map)
  show "map length rs = map unat lens" "length rs = arity" if "decode_response_bundle bs lens arity = Inr (rs, head)" for rs head
    using decode_response_InrD[OF that] by (blast, metis length_map)
qed (simp_all add: decode_setup_InrD decode_setup_trailing decode_query_trailing decode_response_trailing)

lemma accepted_bundles_are_exact_witness:
  "setup_fits toy_simple_lib toy_bundle \<and>
   decode_setup toy_simple_lib (setup_bytes toy_simple_lib toy_bundle @ [0]) = Inl WireTrailingBytes \<and>
   (\<exists>bs qs. decode_query_bundle toy_arity bs (wb_params toy_bundle) [1, 2] = Inr qs \<and> map length qs = [1, 2] \<and>
      decode_query_bundle toy_arity (bs @ [0]) (wb_params toy_bundle) [1, 2] = Inl WireTrailingBytes)"
proof -
  let ?lib = "toy_simple_lib" and ?p = "wb_params toy_bundle"
  have d: "decode_setup ?lib (setup_bytes ?lib toy_bundle) = Inr toy_bundle"
    by (rule decode_setup_bytes[OF toy_simple_lib_ok toy_bundle_fits])
  note a = accepted_bundles_are_exact[of ?lib _ toy_arity ?p "[1, 2]" 2]
  have s: "setup_fits ?lib toy_bundle" "decode_setup ?lib (setup_bytes ?lib toy_bundle @ [0]) = Inl WireTrailingBytes"
    using a[of "setup_bytes ?lib toy_bundle"] d by simp_all
  obtain bs where bs: "encode_query_bundle [[5], [6, 7]] = Some bs"
    by (simp add: encode_query_bundle_def)
  have q: "decode_query_bundle toy_arity bs ?p [1, 2] = Inr [[5], [6, 7]]"
    by (rule query_bytes_decode[OF bs]) (simp_all add: toy_arity_def toy_bundle_def)
  then have "decode_query_bundle toy_arity (bs @ [0]) ?p [1, 2] = Inl WireTrailingBytes" using a[of bs] by simp
  then show ?thesis using s q by (intro conjI exI[of _ bs] exI[of _ "[[5], [6, 7]]"]) simp_all
qed

text \<open>A query or response bundle of at most 255 segments is accepted by the other side
  exactly when its segments have the lengths of the geometry, and then it arrives unchanged,
  the response with the epoch it names.\<close>

theorem answer_bundles_roundtrip:
  assumes "encode_query_bundle qs = Some qbs" and "encode_response_bundle rs head = Some rbs"
    and "length lens = arity_of params"
  shows "(decode_query_bundle arity_of qbs params lens = Inr qs \<longleftrightarrow> map length qs = map unat lens) \<and>
    (decode_response_bundle rbs lens (length lens) = Inr (rs, head) \<longleftrightarrow> map length rs = map unat lens)"
  using query_bytes_decode[where arity_of = arity_of and params = params, OF assms(1) _ assms(3)] response_bytes_decode[OF assms(2)]
    decode_query_InrD[of arity_of qbs params lens qs]
    decode_response_InrD[of rbs lens "length lens" rs head] by metis

lemma answer_bundles_roundtrip_witness:
  "\<exists>qbs rbs. encode_query_bundle [[5], [6, 7]] = Some qbs \<and> encode_response_bundle [[1], [2, 3]] 9 = Some rbs \<and>
     decode_query_bundle toy_arity qbs (wb_params toy_bundle) [1, 2] = Inr [[5], [6, 7]] \<and>
     decode_response_bundle rbs [1, 2] 2 = Inr ([[1], [2, 3]], 9)"
proof -
  obtain qbs rbs where b: "encode_query_bundle [[5], [6, 7]] = Some qbs"
      "encode_response_bundle [[1], [2, 3]] 9 = Some rbs"
    by (simp add: encode_query_bundle_def encode_response_bundle_def)
  moreover have "length [1, 2 :: u32] = toy_arity (wb_params toy_bundle)"
    by (simp add: toy_arity_def toy_bundle_def)
  moreover have "toy_arity (wb_params toy_bundle) = 2"
    by (simp add: toy_arity_def toy_bundle_def)
  ultimately show ?thesis
    using answer_bundles_roundtrip[OF b, of "[1, 2]" toy_arity "wb_params toy_bundle"]
    unfolding numeral_2_eq_2[symmetric] by (auto simp flip: numeral_2_eq_2)
qed

text \<open>The lineage epoch identifies the hint lineage: two lists of server parameters
  have the same epoch exactly when the first eight bytes of the digest of their material
  agree, and their material agrees exactly when, segment by segment, the seeds and all four
  dimensions agree.\<close>

theorem lineage_epoch_identity:
  assumes "simple_lib_ok lib"
    and "\<forall>sp \<in> set ps. sl_built lib (sp_params sp)" and "\<forall>sp \<in> set qs. sl_built lib (sp_params sp)"
  shows "(lineage_epoch keccak lib ps = lineage_epoch keccak lib qs \<longleftrightarrow>
      take 8 (keccak (lineage_material lib ps)) = take 8 (keccak (lineage_material lib qs))) \<and>
    (lineage_material lib ps = lineage_material lib qs \<longleftrightarrow>
      map (lineage_of lib) ps = map (lineage_of lib) qs)"
  unfolding lineage_epoch_def concat_hex_inj using lineage_material_eq_iff[OF assms] by blast

lemma lineage_epoch_identity_witness:
  "lineage_epoch (\<lambda>m. m) toy_simple_lib [toy_server_params 7] \<noteq> lineage_epoch (\<lambda>m. m) toy_simple_lib [toy_server_params 8]"
proof -
  have "take 8 (lineage_material toy_simple_lib [toy_server_params 7]) \<noteq>
      take 8 (lineage_material toy_simple_lib [toy_server_params 8])"
    by (simp add: lineage_material_def toy_simple_lib_def toy_server_params_def)
  then show ?thesis
    using lineage_epoch_identity[OF toy_simple_lib_ok, of "[toy_server_params 7]" "[toy_server_params 8]" "\<lambda>m. m"]
    by (simp add: toy_built)
qed

end
