(* ===== verification/Journal.thy ===== *)
theory Journal
  imports Delta_Codec
begin

text \<open>
  Model of \<open>crates/risepir-rpc/src/journal.rs\<close>: the append-only delta journal beside a
  state file.  The file is the list of its bytes; offsets and lengths (\<open>u64\<close>) are
  natural numbers, block heights wrap as the release build does.  The hash \<open>xxh3\<close> is a
  parameter.

  \<open>JournalWriter\<close> carries its height, the file is passed beside it; \<open>journal_append\<close>
  takes a fault: \<open>None\<close> if every write succeeds, \<open>Some k\<close> if the device fails (or the
  machine stops) after \<open>k\<close> bytes of the record have reached the file.  The reader's state
  after a rejected record is not observable (\<open>done\<close> is set), so \<open>try_next\<close> returns no
  state there.

  The lemmas: a record is read back as it was written; a torn record ends the scan at its
  start; along every run of appends, failures and restarts (\<open>journal_run\<close>) the file
  scans to everything that was acknowledged, plus at most the one record whose append was
  interrupted, up to the first record above the reader's cap, which an append writes all the same.
\<close>

section \<open>Data\<close>

definition rpjl1_magic :: bytes where "rpjl1_magic = [0x52, 0x50, 0x4A, 0x4C, 0x31]"
definition header_len :: nat where "header_len = 5 + 8 + 8 + 8"
definition max_record_bytes :: nat where "max_record_bytes = 64 * 1024 * 1024"

datatype journal_error =
    JournalIo
  | JournalCorrupt string
  | JournalGap u64 u64                        \<comment> \<open>expected, found\<close>

record journal_header =
  jh_base_digest :: u64
  jh_base_block :: u64

text \<open>The diagnoses of \<open>try_next\<close>.\<close>

datatype stop_reason =
    TornTail
  | RecordIo
  | LengthOutOfBounds u32
  | LengthExceedsFile u32 nat
  | RecordChecksum
  | PayloadDecode codec_error
  | HeightGap u64 u64

datatype scan_stop = ScanEof | ScanInvalid nat stop_reason   \<comment> \<open>offset, reason\<close>

record scan_record =
  sr_delta :: block_delta
  sr_num_items_after :: u64
  sr_end_offset :: nat

record journal_reader =
  jr_rest :: bytes
  jr_plaintext_bits :: u32
  jr_arity :: u32
  jr_remaining :: nat
  jr_consumed :: nat
  jr_expected_block :: u64
  jr_done :: bool
  jr_stop :: "scan_stop option"

record journal_writer =
  jw_plaintext_bits :: u32
  jw_last :: u64

section \<open>Reading\<close>

definition read_exact_bytes :: "nat \<Rightarrow> bytes \<Rightarrow> (bytes \<times> bytes) option" where
  "read_exact_bytes n bs = (if n \<le> length bs then Some (take n bs, drop n bs) else None)"

definition journal_open ::
    "(bytes \<Rightarrow> u64) \<Rightarrow> bytes \<Rightarrow> nat \<Rightarrow> u32 \<Rightarrow> u32 \<Rightarrow> journal_error + (journal_header \<times> journal_reader)" where
  "journal_open xxh3 reader total_len plaintext_bits arity =
     (if total_len < header_len then Inl (JournalCorrupt ''file too short for a journal header'')
      else
      and_then (ok_or (read_exact_bytes 5 reader) JournalIo) (\<lambda>(magic, reader).
      if magic \<noteq> rpjl1_magic then Inl (JournalCorrupt ''bad magic (not an RPJL1 journal)'')
      else
      and_then (ok_or (read_exact_bytes 8 reader) JournalIo) (\<lambda>(bd_bytes, reader).
      and_then (ok_or (read_exact_bytes 8 reader) JournalIo) (\<lambda>(bb_bytes, reader).
      and_then (ok_or (read_exact_bytes 8 reader) JournalIo) (\<lambda>(stored_bytes, reader).
      if xxh3 (magic @ bd_bytes @ bb_bytes) \<noteq> of_le stored_bytes
      then Inl (JournalCorrupt ''header checksum mismatch'')
      else
        let header = \<lparr> jh_base_digest = of_le bd_bytes, jh_base_block = of_le bb_bytes \<rparr> in
        Inr (header,
          \<lparr> jr_rest = reader, jr_plaintext_bits = plaintext_bits, jr_arity = arity,
            jr_remaining = total_len - header_len, jr_consumed = header_len,
            jr_expected_block = jh_base_block header + 1, jr_done = False, jr_stop = None \<rparr>))))))"

definition valid_end_offset :: "journal_reader \<Rightarrow> nat" where
  "valid_end_offset r = jr_consumed r"

definition last_valid_height :: "journal_reader \<Rightarrow> u64" where
  "last_valid_height r = jr_expected_block r - 1"

definition try_next ::
    "(bytes \<Rightarrow> u64) \<Rightarrow> journal_reader \<Rightarrow> (stop_reason \<times> nat) + (scan_record \<times> journal_reader) option" where
  "try_next xxh3 r =
     (if jr_remaining r = 0 then Inr None
      else if jr_remaining r < 4 then Inl (TornTail, jr_consumed r)
      else
      and_then (ok_or (read_exact_bytes 4 (jr_rest r)) (RecordIo, jr_consumed r)) (\<lambda>(len_bytes, rest).
      let remaining = jr_remaining r - 4; len = of_le len_bytes :: u32 in
      if len = 0 \<or> unat len > max_record_bytes then Inl (LengthOutOfBounds len, jr_consumed r)
      else let need = 8 + unat len + 8 in
      if need > remaining then Inl (LengthExceedsFile len remaining, jr_consumed r)
      else
      and_then (ok_or (read_exact_bytes 8 rest) (RecordIo, jr_consumed r)) (\<lambda>(n_bytes, rest).
      and_then (ok_or (read_exact_bytes (unat len) rest) (RecordIo, jr_consumed r)) (\<lambda>(payload, rest).
      and_then (ok_or (read_exact_bytes 8 rest) (RecordIo, jr_consumed r)) (\<lambda>(xxh_bytes, rest).
      if xxh3 (n_bytes @ payload) \<noteq> of_le xxh_bytes then Inl (RecordChecksum, jr_consumed r)
      else
      and_then (map_err (\<lambda>e. (PayloadDecode e, jr_consumed r))
        (decode_block_delta payload (jr_plaintext_bits r) (jr_arity r))) (\<lambda>delta.
      if delta_block delta \<noteq> jr_expected_block r
      then Inl (HeightGap (jr_expected_block r) (delta_block delta), jr_consumed r)
      else
        let consumed = jr_consumed r + (4 + 8 + unat len + 8) in
        Inr (Some (\<lparr> sr_delta = delta, sr_num_items_after = of_le n_bytes, sr_end_offset = consumed \<rparr>,
          r\<lparr> jr_rest := rest, jr_remaining := remaining - 8 - unat len - 8, jr_consumed := consumed,
             jr_expected_block := jr_expected_block r + 1 \<rparr>))))))))"

definition journal_next ::
    "(bytes \<Rightarrow> u64) \<Rightarrow> journal_reader \<Rightarrow> scan_record option \<times> journal_reader" where
  "journal_next xxh3 r =
     (if jr_done r then (None, r)
      else case try_next xxh3 r of
        Inr (Some (rec, r')) \<Rightarrow> (Some rec, r')
      | Inr None \<Rightarrow> (None, r\<lparr> jr_done := True, jr_stop := Some ScanEof \<rparr>)
      | Inl (reason, offset) \<Rightarrow> (None, r\<lparr> jr_done := True, jr_stop := Some (ScanInvalid offset reason) \<rparr>))"

lemma try_next_shorter:
  "try_next xxh3 r = Inr (Some (rec, r')) \<Longrightarrow> length (jr_rest r') < length (jr_rest r)"
  by (auto simp: try_next_def read_exact_bytes_def Let_def split: if_splits)

lemma journal_next_shorter:
  "journal_next xxh3 r = (Some rec, r') \<Longrightarrow> length (jr_rest r') < length (jr_rest r)"
  by (auto simp: journal_next_def split: if_splits sum.splits option.splits dest: try_next_shorter)

text \<open>Running the iterator to its end.\<close>

function scan_all :: "(bytes \<Rightarrow> u64) \<Rightarrow> journal_reader \<Rightarrow> scan_record list \<times> journal_reader" where
  "scan_all xxh3 r =
     (case journal_next xxh3 r of
        (None, r') \<Rightarrow> ([], r')
      | (Some rec, r') \<Rightarrow> (case scan_all xxh3 r' of (recs, r'') \<Rightarrow> (rec # recs, r'')))"
  by pat_completeness auto

termination scan_all
  by (relation "measure (\<lambda>(_, r). length (jr_rest r))") (auto dest: journal_next_shorter[OF sym])

declare scan_all.simps [simp del]

record journal_report =
  jp_count :: nat
  jp_end_height :: u64
  jp_end_offset :: nat
  jp_stop :: "scan_stop option"

text \<open>What opening the path yields: an I/O error, no such file, or the file's bytes.\<close>

type_synonym file_read = "unit + bytes option"

definition scan_report_only ::
    "(bytes \<Rightarrow> u64) \<Rightarrow> file_read \<Rightarrow> u64 \<Rightarrow> u32 \<Rightarrow> u32 \<Rightarrow> unit + journal_report option" where
  "scan_report_only xxh3 file base_digest plaintext_bits arity =
     and_then file (\<lambda>opened.
       case opened of
         None \<Rightarrow> Inr None
       | Some bs \<Rightarrow>
           (case journal_open xxh3 bs (length bs) plaintext_bits arity of
              Inl _ \<Rightarrow> Inr None
            | Inr (header, reader) \<Rightarrow>
                if jh_base_digest header \<noteq> base_digest then Inr None
                else (case scan_all xxh3 reader of
                  (recs, reader) \<Rightarrow> Inr (Some \<lparr> jp_count = length recs,
                    jp_end_height = last_valid_height reader, jp_end_offset = valid_end_offset reader,
                    jp_stop = jr_stop reader \<rparr>))))"

section \<open>Writing\<close>

definition journal_header_bytes :: "(bytes \<Rightarrow> u64) \<Rightarrow> u64 \<Rightarrow> u64 \<Rightarrow> bytes" where
  "journal_header_bytes xxh3 base_digest base_block =
     (let covered = rpjl1_magic @ u64_le base_digest @ u64_le base_block
      in covered @ u64_le (xxh3 covered))"

text \<open>The file that the rename puts in place, with its writer.\<close>

definition journal_create ::
    "(bytes \<Rightarrow> u64) \<Rightarrow> u64 \<Rightarrow> u64 \<Rightarrow> u32 \<Rightarrow> journal_writer \<times> bytes" where
  "journal_create xxh3 base_digest base_block plaintext_bits =
     (\<lparr> jw_plaintext_bits = plaintext_bits, jw_last = base_block \<rparr>,
      journal_header_bytes xxh3 base_digest base_block)"

text \<open>\<open>set_len\<close> truncates, or extends with zeros.\<close>

definition set_len :: "nat \<Rightarrow> bytes \<Rightarrow> bytes" where
  "set_len n file = take n file @ replicate (n - length file) 0"

definition journal_adopt :: "bytes \<Rightarrow> u32 \<Rightarrow> nat \<Rightarrow> u64 \<Rightarrow> journal_writer \<times> bytes" where
  "journal_adopt file plaintext_bits valid_end last_height =
     (\<lparr> jw_plaintext_bits = plaintext_bits, jw_last = last_height \<rparr>, set_len valid_end file)"

definition record_bytes :: "(bytes \<Rightarrow> u64) \<Rightarrow> bytes \<Rightarrow> u64 \<Rightarrow> bytes" where
  "record_bytes xxh3 payload num_items_after =
     u32_le (of_nat (length payload)) @ u64_le num_items_after @ payload @
     u64_le (xxh3 (u64_le num_items_after @ payload))"

definition journal_append ::
    "(bytes \<Rightarrow> u64) \<Rightarrow> nat option \<Rightarrow> journal_writer \<Rightarrow> bytes \<Rightarrow> block_delta \<Rightarrow> u64
     \<Rightarrow> ((journal_error + unit) \<times> journal_writer \<times> bytes) option" where
  "journal_append xxh3 fault w file delta num_items_after =
     (let expected = jw_last w + 1 in
      if delta_block delta \<noteq> expected
      then Some (Inl (JournalGap expected (delta_block delta)), w, file)
      else case encode_block_delta delta (jw_plaintext_bits w) of
        None \<Rightarrow> None
      | Some payload \<Rightarrow>
          if length payload \<ge> 2 ^ 32 then Some (Inl JournalIo, w, file)
          else case fault of
            Some k \<Rightarrow> Some (Inl JournalIo, w, file @ take k (record_bytes xxh3 payload num_items_after))
          | None \<Rightarrow> Some (Inr (), w\<lparr> jw_last := delta_block delta \<rparr>,
                file @ record_bytes xxh3 payload num_items_after))"

section \<open>One record\<close>

text \<open>A delta that a record can carry and be read back as it is.\<close>

definition journalable :: "u32 \<Rightarrow> u32 \<Rightarrow> block_delta \<Rightarrow> bool" where
  "journalable pb arity d \<longleftrightarrow>
     (\<exists>payload. encode_block_delta d pb = Some payload \<and> length payload \<le> max_record_bytes \<and>
        decode_block_delta payload pb arity = Inr d)"

definition payload_of :: "u32 \<Rightarrow> block_delta \<Rightarrow> bytes" where
  "payload_of pb d = the (encode_block_delta d pb)"

definition entry_bytes :: "(bytes \<Rightarrow> u64) \<Rightarrow> u32 \<Rightarrow> block_delta \<times> u64 \<Rightarrow> bytes" where
  "entry_bytes xxh3 pb e = record_bytes xxh3 (payload_of pb (fst e)) (snd e)"

lemma journalableD:
  assumes "journalable pb arity d"
  shows "encode_block_delta d pb = Some (payload_of pb d)"
    and "length (payload_of pb d) \<le> max_record_bytes"
    and "0 < length (payload_of pb d)"
    and "decode_block_delta (payload_of pb d) pb arity = Inr d"
proof -
  from assms obtain p where p: "encode_block_delta d pb = Some p" "length p \<le> max_record_bytes"
      "decode_block_delta p pb arity = Inr d"
    by (auto simp: journalable_def)
  then have "payload_of pb d = p" by (simp add: payload_of_def)
  moreover from p(1) have "0 < length p"
    by (auto simp: encode_block_delta_def length_delta_magic split: if_splits)
  ultimately show "encode_block_delta d pb = Some (payload_of pb d)"
    "length (payload_of pb d) \<le> max_record_bytes" "0 < length (payload_of pb d)"
    "decode_block_delta (payload_of pb d) pb arity = Inr d"
    using p by simp_all
qed

lemma length_record_bytes: "length (record_bytes xxh3 payload n) = 20 + length payload"
  by (simp add: record_bytes_def)

lemma read_exact_bytes_append [simp]:
  "length xs = n \<Longrightarrow> read_exact_bytes n (xs @ ys) = Some (xs, ys)"
  by (auto simp: read_exact_bytes_def)

lemma unat_len32:
  "n \<le> max_record_bytes \<Longrightarrow> unat (of_nat n :: u32) = n"
  by (simp add: max_record_bytes_def unat_of_nat take_bit_nat_eq_self)

lemma try_next_entry:
  assumes d: "journalable pb arity (fst e)"
    and rest: "jr_rest r = entry_bytes xxh3 pb e @ rest" and rem: "jr_remaining r = length (jr_rest r)"
    and pb: "jr_plaintext_bits r = pb" "jr_arity r = arity"
    and block: "delta_block (fst e) = jr_expected_block r"
  shows "try_next xxh3 r = Inr (Some
    (\<lparr> sr_delta = fst e, sr_num_items_after = snd e,
       sr_end_offset = jr_consumed r + length (entry_bytes xxh3 pb e) \<rparr>,
     r\<lparr> jr_rest := rest, jr_remaining := length rest,
        jr_consumed := jr_consumed r + length (entry_bytes xxh3 pb e),
        jr_expected_block := jr_expected_block r + 1 \<rparr>))"
proof -
  note d' = journalableD[OF d]
  let ?p = "payload_of pb (fst e)"
  have len: "unat (of_nat (length ?p) :: u32) = length ?p" by (rule unat_len32[OF d'(2)])
  then have nz: "(of_nat (length ?p) :: u32) \<noteq> 0" using d'(3) by auto
  have r: "jr_rest r = u32_le (of_nat (length ?p)) @ u64_le (snd e) @ ?p @
      u64_le (xxh3 (u64_le (snd e) @ ?p)) @ rest"
    using rest by (simp add: entry_bytes_def record_bytes_def)
  have rm: "jr_remaining r = 20 + length ?p + length rest" unfolding rem r by simp
  show ?thesis
    unfolding try_next_def rm r
    using len nz d' block by (simp add: Let_def pb entry_bytes_def length_record_bytes)
qed

text \<open>A torn record: a proper prefix of one, standing at the end of the file.\<close>

lemma try_next_torn:
  assumes d: "journalable pb arity (fst e)" and k: "k < length (entry_bytes xxh3 pb e)"
    and rest: "jr_rest r = take k (entry_bytes xxh3 pb e)" and rem: "jr_remaining r = length (jr_rest r)"
  shows "if k = 0 then try_next xxh3 r = Inr None
    else \<exists>reason. try_next xxh3 r = Inl (reason, jr_consumed r)"
proof -
  note d' = journalableD[OF d]
  let ?p = "payload_of pb (fst e)"
  have k': "k < 20 + length ?p" using k by (simp add: entry_bytes_def length_record_bytes)
  have rk: "jr_remaining r = k" unfolding rem rest using k by simp
  show ?thesis
  proof (cases "k < 4")
    case True
    then show ?thesis by (auto simp: try_next_def rk)
  next
    case False
    have len: "unat (of_nat (length ?p) :: u32) = length ?p" by (rule unat_len32[OF d'(2)])
    then have nz: "(of_nat (length ?p) :: u32) \<noteq> 0" using d'(3) by auto
    have "jr_rest r = u32_le (of_nat (length ?p)) @
        take (k - 4) (u64_le (snd e) @ ?p @ u64_le (xxh3 (u64_le (snd e) @ ?p)))"
      unfolding rest entry_bytes_def record_bytes_def using False by (simp only: take_append length_to_le) simp
    then have "read_exact_bytes 4 (jr_rest r) = Some (u32_le (of_nat (length ?p)),
        take (k - 4) (u64_le (snd e) @ ?p @ u64_le (xxh3 (u64_le (snd e) @ ?p))))"
      by (simp only: read_exact_bytes_append length_to_le)
    moreover have "of_le (u32_le (of_nat (length ?p))) = (of_nat (length ?p) :: u32)" by simp
    moreover have "k - 4 < 8 + length ?p + 8" using k' False by simp
    ultimately have "try_next xxh3 r = Inl (LengthExceedsFile (of_nat (length ?p)) (k - 4), jr_consumed r)"
      using False nz d'(2) unfolding try_next_def rk
      by (simp only: ok_or_simps and_then_simps prod.case Let_def len if_False if_True) simp
    then show ?thesis using False by simp
  qed
qed

lemma journal_append_cases:
  assumes "journalable pb arity d" and "jw_plaintext_bits w = pb"
    and "journal_append xxh3 fault w f d n = Some (res, w', f')"
  shows "delta_block d \<noteq> jw_last w + 1 \<and> res = Inl (JournalGap (jw_last w + 1) (delta_block d)) \<and> w' = w \<and> f' = f \<or>
    delta_block d = jw_last w + 1 \<and>
    (case fault of None \<Rightarrow> res = Inr () \<and> w' = w\<lparr> jw_last := delta_block d \<rparr> \<and> f' = f @ entry_bytes xxh3 pb (d, n)
     | Some k \<Rightarrow> res = Inl JournalIo \<and> w' = w \<and> f' = f @ take k (entry_bytes xxh3 pb (d, n)))"
proof -
  have "length (payload_of pb d) < 2 ^ 32"
    using journalableD(2)[OF assms(1)] by (simp add: max_record_bytes_def)
  then show ?thesis
    using assms(2,3) journalableD(1)[OF assms(1)]
    by (auto simp: journal_append_def Let_def entry_bytes_def split: if_splits option.splits)
qed

section \<open>A whole file\<close>

fun chain :: "u64 \<Rightarrow> (block_delta \<times> u64) list \<Rightarrow> bool" where
  "chain b [] = True"
| "chain b (e # es) = (delta_block (fst e) = b + 1 \<and> chain (b + 1) es)"

definition journal_file ::
    "(bytes \<Rightarrow> u64) \<Rightarrow> u32 \<Rightarrow> u64 \<Rightarrow> u64 \<Rightarrow> (block_delta \<times> u64) list \<Rightarrow> bytes" where
  "journal_file xxh3 pb digest base es =
     journal_header_bytes xxh3 digest base @ concat (map (entry_bytes xxh3 pb) es)"

definition entry_of :: "scan_record \<Rightarrow> block_delta \<times> u64" where
  "entry_of rec = (sr_delta rec, sr_num_items_after rec)"

definition torn :: "(bytes \<Rightarrow> u64) \<Rightarrow> u32 \<Rightarrow> u32 \<Rightarrow> bytes \<Rightarrow> bool" where
  "torn xxh3 pb arity t \<longleftrightarrow> t = [] \<or>
     (\<exists>e k. journalable pb arity (fst e) \<and> k < length (entry_bytes xxh3 pb e) \<and> t = take k (entry_bytes xxh3 pb e))"

lemma torn_Nil [simp]: "torn xxh3 pb arity []"
  by (simp add: torn_def)

lemma chain_append: "chain b (es @ fs) \<longleftrightarrow> chain b es \<and> chain (b + of_nat (length es)) fs"
  by (induction es arbitrary: b) (simp_all add: add.assoc add.commute)

text \<open>Bytes at which a scan ends: there are none, or they are no record.\<close>

definition stuck :: "(bytes \<Rightarrow> u64) \<Rightarrow> bytes \<Rightarrow> bool" where
  "stuck xxh3 t \<longleftrightarrow> t = [] \<or>
     (\<forall>r. jr_rest r = t \<longrightarrow> jr_remaining r = length t \<longrightarrow> (\<exists>reason. try_next xxh3 r = Inl (reason, jr_consumed r)))"

lemma stuck_Nil [simp]: "stuck xxh3 []"
  by (simp add: stuck_def)

lemma torn_stuck: "torn xxh3 pb arity t \<Longrightarrow> stuck xxh3 t"
  using try_next_torn by (fastforce simp: torn_def stuck_def split: if_splits)

lemma scan_all_stuck:
  assumes t: "stuck xxh3 t" and rest: "jr_rest r = t" and rem: "jr_remaining r = length t"
    and nd: "\<not> jr_done r"
  shows "\<exists>stop. scan_all xxh3 r = ([], r\<lparr> jr_done := True, jr_stop := Some stop \<rparr>) \<and>
    (t = [] \<longleftrightarrow> stop = ScanEof)"
proof (cases "t = []")
  case True
  then show ?thesis
    using rem nd by (subst scan_all.simps) (simp add: journal_next_def try_next_def)
next
  case False
  with t rest rem obtain reason where "try_next xxh3 r = Inl (reason, jr_consumed r)" by (auto simp: stuck_def)
  with nd False show ?thesis
    by (subst scan_all.simps, intro exI[of _ "ScanInvalid (jr_consumed r) reason"])
      (simp add: journal_next_def)
qed

lemma scan_all_entries:
  assumes "jr_rest r = concat (map (entry_bytes xxh3 pb) es) @ t" and "jr_remaining r = length (jr_rest r)"
    and "\<not> jr_done r" and "jr_plaintext_bits r = pb" and "jr_arity r = arity"
    and "jr_expected_block r = b + 1" and "chain b es" and "\<forall>e \<in> set es. journalable pb arity (fst e)"
    and "stuck xxh3 t"
  shows "\<exists>recs r' stop. scan_all xxh3 r = (recs, r') \<and> map entry_of recs = es \<and>
    jr_consumed r' = jr_consumed r + length (concat (map (entry_bytes xxh3 pb) es)) \<and>
    jr_expected_block r' = b + of_nat (length es) + 1 \<and>
    jr_stop r' = Some stop \<and> (t = [] \<longleftrightarrow> stop = ScanEof)"
  using assms
proof (induction es arbitrary: r b)
  case Nil
  then obtain stop where "scan_all xxh3 r = ([], r\<lparr> jr_done := True, jr_stop := Some stop \<rparr>)"
    "t = [] \<longleftrightarrow> stop = ScanEof"
    using scan_all_stuck[of xxh3 t r] by auto
  with Nil show ?case by simp
next
  case (Cons e es)
  define r1 where "r1 = r\<lparr> jr_rest := concat (map (entry_bytes xxh3 pb) es) @ t,
      jr_remaining := length (concat (map (entry_bytes xxh3 pb) es) @ t),
      jr_consumed := jr_consumed r + length (entry_bytes xxh3 pb e),
      jr_expected_block := jr_expected_block r + 1 \<rparr>"
  obtain recd where tn: "try_next xxh3 r = Inr (Some (recd, r1))" and recd: "entry_of recd = e"
    using try_next_entry[of pb arity e r xxh3 "concat (map (entry_bytes xxh3 pb) es) @ t"] Cons.prems
    by (auto simp: r1_def entry_of_def)
  from Cons.prems have "\<exists>recs r' stop. scan_all xxh3 r1 = (recs, r') \<and> map entry_of recs = es \<and>
    jr_consumed r' = jr_consumed r1 + length (concat (map (entry_bytes xxh3 pb) es)) \<and>
    jr_expected_block r' = (b + 1) + of_nat (length es) + 1 \<and>
    jr_stop r' = Some stop \<and> (t = [] \<longleftrightarrow> stop = ScanEof)"
    by (intro Cons.IH) (simp_all add: r1_def)
  then obtain recs r' stop where IH: "scan_all xxh3 r1 = (recs, r')" "map entry_of recs = es"
    "jr_consumed r' = jr_consumed r1 + length (concat (map (entry_bytes xxh3 pb) es))"
    "jr_expected_block r' = (b + 1) + of_nat (length es) + 1"
    "jr_stop r' = Some stop" "t = [] \<longleftrightarrow> stop = ScanEof" by blast
  have "scan_all xxh3 r = (recd # recs, r')"
    using tn Cons.prems(3) IH(1) by (subst scan_all.simps) (simp add: journal_next_def)
  then show ?case
    using IH(2-) recd by (intro exI[of _ "recd # recs"] exI[of _ r'] exI[of _ stop]) (simp add: r1_def)
qed

lemma length_journal_header [simp]: "length (journal_header_bytes xxh3 digest base) = 29"
  by (simp add: journal_header_bytes_def Let_def rpjl1_magic_def)

lemma journal_open_header:
  "journal_open xxh3 (journal_header_bytes xxh3 digest base @ rest) (29 + length rest) pb arity =
    Inr (\<lparr> jh_base_digest = digest, jh_base_block = base \<rparr>,
      \<lparr> jr_rest = rest, jr_plaintext_bits = pb, jr_arity = arity, jr_remaining = length rest,
        jr_consumed = 29, jr_expected_block = base + 1, jr_done = False, jr_stop = None \<rparr>)"
proof -
  have m: "length rpjl1_magic = 5" by (simp add: rpjl1_magic_def)
  show ?thesis
    by (simp add: journal_open_def journal_header_bytes_def Let_def m header_len_def)
qed

text \<open>What a file scans to, as one result.\<close>

definition recovers ::
    "(bytes \<Rightarrow> u64) \<Rightarrow> u32 \<Rightarrow> u32 \<Rightarrow> u64 \<Rightarrow> u64 \<Rightarrow> bytes \<Rightarrow> (block_delta \<times> u64) list \<Rightarrow> bool \<Rightarrow> bool" where
  "recovers xxh3 pb arity digest base f es clean \<longleftrightarrow>
     (\<exists>r0 recs r. journal_open xxh3 f (length f) pb arity =
          Inr (\<lparr> jh_base_digest = digest, jh_base_block = base \<rparr>, r0) \<and>
        scan_all xxh3 r0 = (recs, r) \<and> map entry_of recs = es \<and>
        last_valid_height r = base + of_nat (length es) \<and>
        set_len (valid_end_offset r) f = journal_file xxh3 pb digest base es \<and>
        (clean \<longleftrightarrow> jr_stop r = Some ScanEof))"

lemma journal_file_recovers_stuck:
  assumes "chain base es" and "\<forall>e \<in> set es. journalable pb arity (fst e)" and "stuck xxh3 t"
  shows "recovers xxh3 pb arity digest base (journal_file xxh3 pb digest base es @ t) es (t = [])"
proof -
  let ?f = "journal_file xxh3 pb digest base es @ t"
  let ?rest = "concat (map (entry_bytes xxh3 pb) es) @ t"
  define r0 where "r0 = \<lparr> jr_rest = ?rest, jr_plaintext_bits = pb, jr_arity = arity,
    jr_remaining = length ?rest, jr_consumed = 29, jr_expected_block = base + 1,
    jr_done = False, jr_stop = None \<rparr>"
  have "journal_open xxh3 ?f (length ?f) pb arity = Inr (\<lparr> jh_base_digest = digest, jh_base_block = base \<rparr>, r0)"
    using journal_open_header[of xxh3 digest base ?rest pb arity] by (simp add: journal_file_def r0_def)
  moreover obtain recs r stop where "scan_all xxh3 r0 = (recs, r)" "map entry_of recs = es"
    "jr_consumed r = jr_consumed r0 + length (concat (map (entry_bytes xxh3 pb) es))"
    "jr_expected_block r = base + of_nat (length es) + 1"
    "jr_stop r = Some stop" "t = [] \<longleftrightarrow> stop = ScanEof"
    using scan_all_entries[of r0 xxh3 pb es t arity base] assms by (auto simp: r0_def)
  ultimately show ?thesis
    unfolding recovers_def
    by (intro exI[of _ r0] exI[of _ recs] exI[of _ r])
      (simp add: last_valid_height_def valid_end_offset_def set_len_def journal_file_def r0_def)
qed

lemma journal_file_recovers:
  assumes "chain base es" and "\<forall>e \<in> set es. journalable pb arity (fst e)" and "torn xxh3 pb arity t"
  shows "recovers xxh3 pb arity digest base (journal_file xxh3 pb digest base es @ t) es (t = [])"
  by (rule journal_file_recovers_stuck[OF assms(1,2) torn_stuck[OF assms(3)]])

section \<open>Runs of a journal\<close>

text \<open>The codec's contract for the delta of a block, whatever its size: a plaintext modulus the format
  knows, every magnitude under it, rows and cells in ascending order, one segment list per segment.\<close>

definition deliverable :: "u32 \<Rightarrow> u32 \<Rightarrow> block_delta \<Rightarrow> bool" where
  "deliverable pb arity d \<longleftrightarrow> 1 \<le> pb \<and> pb \<le> 31 \<and> delta_fits pb d \<and> sort_delta d = d \<and>
     arity = of_nat (length (per_segment d))"

text \<open>A delta that an append has written, and one that the reader's cap admits.\<close>

definition recorded :: "u32 \<Rightarrow> u32 \<Rightarrow> block_delta \<Rightarrow> bool" where
  "recorded pb arity d \<longleftrightarrow> deliverable pb arity d \<and> encode_block_delta d pb = Some (payload_of pb d) \<and>
     length (payload_of pb d) < 2 ^ 32"

definition readable :: "u32 \<Rightarrow> block_delta \<times> u64 \<Rightarrow> bool" where
  "readable pb e \<longleftrightarrow> length (payload_of pb (fst e)) \<le> max_record_bytes"

lemma recorded_journalable: "recorded pb arity d \<Longrightarrow> readable pb (d, n) \<Longrightarrow> journalable pb arity d"
  using encode_decode[of d pb "payload_of pb d"] by (auto simp: recorded_def readable_def deliverable_def journalable_def)

lemma set_takeWhile_recorded:
  assumes "\<forall>e \<in> set es. recorded pb arity (fst e)"
  shows "\<forall>e \<in> set (takeWhile (readable pb) es). recorded pb arity (fst e) \<and> journalable pb arity (fst e)"
proof
  fix e assume "e \<in> set (takeWhile (readable pb) es)"
  then have "recorded pb arity (fst e)" "readable pb (fst e, snd e)" using set_takeWhileD assms by (metis, metis prod.collapse)
  then show "recorded pb arity (fst e) \<and> journalable pb arity (fst e)" using recorded_journalable by blast
qed

text \<open>The life of one journal file: created after a save, extended by acknowledged appends of
  any size; an append may fail (a gap, a device error, or the machine stopping at any byte of the
  record), after which the writer is given up; a restart scans the file and adopts it.  The
  last argument lists what has been acknowledged so far, or what the last restart recovered.\<close>

inductive journal_run ::
    "(bytes \<Rightarrow> u64) \<Rightarrow> u32 \<Rightarrow> u32 \<Rightarrow> u64 \<Rightarrow> u64 \<Rightarrow> bytes \<Rightarrow> journal_writer option \<Rightarrow> (block_delta \<times> u64) list \<Rightarrow> bool"
  for xxh3 :: "bytes \<Rightarrow> u64" and pb arity :: u32 and digest base :: u64 where
  created: "journal_create xxh3 digest base pb = (w, f) \<Longrightarrow>
     journal_run xxh3 pb arity digest base f (Some w) []"
| appended: "journal_run xxh3 pb arity digest base f (Some w) acked \<Longrightarrow> deliverable pb arity d \<Longrightarrow>
     journal_append xxh3 None w f d n = Some (Inr (), w', f') \<Longrightarrow>
     journal_run xxh3 pb arity digest base f' (Some w') (acked @ [(d, n)])"
| failed: "journal_run xxh3 pb arity digest base f (Some w) acked \<Longrightarrow> deliverable pb arity d \<Longrightarrow>
     journal_append xxh3 fault w f d n = Some (Inl e, w', f') \<Longrightarrow>
     journal_run xxh3 pb arity digest base f' None acked"
| restarted: "journal_run xxh3 pb arity digest base f w acked \<Longrightarrow>
     journal_open xxh3 f (length f) pb arity = Inr (header, r0) \<Longrightarrow> scan_all xxh3 r0 = (recs, r) \<Longrightarrow>
     journal_adopt f pb (valid_end_offset r) (last_valid_height r) = (w', f') \<Longrightarrow>
     journal_run xxh3 pb arity digest base f' (Some w') (map entry_of recs)"

inductive_cases journal_run_liveE: "journal_run xxh3 pb arity digest base f (Some w) acked"

text \<open>A record above the reader's cap is written and acknowledged all the same, and ends every scan.\<close>

lemma oversized_record_stuck:
  assumes "recorded pb arity (fst e)" and "\<not> readable pb e"
    and "t = take k (entry_bytes xxh3 pb e) @ rest" and "length (entry_bytes xxh3 pb e) \<le> k \<or> rest = []"
  shows "stuck xxh3 t"
proof (cases "length t < 4")
  case True
  then show ?thesis by (auto simp: stuck_def try_next_def)
next
  case False
  let ?p = "payload_of pb (fst e)"
  have len: "unat (of_nat (length ?p) :: u32) = length ?p"
    using assms(1) by (simp add: recorded_def unat_of_nat take_bit_nat_eq_self)
  have big: "max_record_bytes < length ?p" using assms(2) by (simp add: readable_def)
  have k: "4 \<le> k" using False assms(3,4) by (auto simp: entry_bytes_def length_record_bytes)
  obtain tl where t: "t = u32_le (of_nat (length ?p)) @ tl"
    unfolding assms(3) entry_bytes_def record_bytes_def using k by (simp only: take_append length_to_le) simp
  have "try_next xxh3 r = Inl (LengthOutOfBounds (of_nat (length ?p)), jr_consumed r)"
    if "jr_rest r = t" "jr_remaining r = length t" for r
    using that big len by (simp add: t try_next_def Let_def)
  then show ?thesis by (auto simp: stuck_def)
qed

lemma unreadable_stuck:
  assumes "\<forall>e \<in> set es. recorded pb arity (fst e)" and "es \<noteq> [] \<Longrightarrow> \<not> readable pb (hd es)" and "es = [] \<Longrightarrow> stuck xxh3 t"
  shows "stuck xxh3 (concat (map (entry_bytes xxh3 pb) es) @ t)"
proof (cases es)
  case (Cons e es')
  then show ?thesis
    using assms(1,2) by (intro oversized_record_stuck[of pb arity e _ "length (entry_bytes xxh3 pb e)" xxh3 "concat (map (entry_bytes xxh3 pb) es') @ t"]) simp_all
qed (use assms(3) in simp)

lemma partial_record_stuck:
  assumes "recorded pb arity (fst e)" and "k < length (entry_bytes xxh3 pb e)"
  shows "stuck xxh3 (take k (entry_bytes xxh3 pb e))"
proof (cases "readable pb e")
  case True
  then have "journalable pb arity (fst e)" using recorded_journalable[OF assms(1), of "snd e"] by simp
  then have "torn xxh3 pb arity (take k (entry_bytes xxh3 pb e))"
    unfolding torn_def using assms(2) by blast
  then show ?thesis by (rule torn_stuck)
next
  case False
  show ?thesis by (rule oversized_record_stuck[OF assms(1) False, where rest = "[]" and k = k]) simp_all
qed

lemma recorded_file_recovers:
  assumes "chain base es" and "\<forall>e \<in> set es. recorded pb arity (fst e)" and "stuck xxh3 t"
  shows "recovers xxh3 pb arity digest base (journal_file xxh3 pb digest base es @ t) (takeWhile (readable pb) es)
    (list_all (readable pb) es \<and> t = [])"
proof -
  let ?es = "takeWhile (readable pb) es" and ?fs = "dropWhile (readable pb) es"
  let ?t = "concat (map (entry_bytes xxh3 pb) ?fs) @ t"
  have split: "journal_file xxh3 pb digest base es @ t = journal_file xxh3 pb digest base ?es @ ?t"
    unfolding journal_file_def append_assoc by (metis append_assoc concat_append map_append takeWhile_dropWhile_id)
  have c: "chain base ?es" using assms(1) chain_append[of base ?es ?fs] by simp
  have j: "\<forall>e \<in> set ?es. journalable pb arity (fst e)"
    using set_takeWhile_recorded[OF assms(2)] by blast
  have s: "stuck xxh3 ?t"
    by (rule unreadable_stuck) (use assms(2,3) hd_dropWhile[of "readable pb" es] in \<open>auto dest: set_dropWhileD\<close>)
  have nonempty: "entry_bytes xxh3 pb e \<noteq> []" for e using length_record_bytes[of xxh3 "payload_of pb (fst e)" "snd e"]
    by (auto simp: entry_bytes_def)
  have "?t = [] \<longleftrightarrow> list_all (readable pb) es \<and> t = []"
  proof -
    have "concat (map (entry_bytes xxh3 pb) fs) = [] \<longleftrightarrow> fs = []" for fs by (cases fs) (simp_all add: nonempty)
    then have "?t = [] \<longleftrightarrow> ?fs = [] \<and> t = []" by (simp only: append_is_Nil_conv)
    then show ?thesis by (simp only: dropWhile_eq_Nil_conv list_all_iff)
  qed
  with journal_file_recovers_stuck[OF c j s, of digest] show ?thesis unfolding split by simp
qed

definition journal_invar ::
    "(bytes \<Rightarrow> u64) \<Rightarrow> u32 \<Rightarrow> u32 \<Rightarrow> u64 \<Rightarrow> u64 \<Rightarrow> bytes \<Rightarrow> journal_writer option
     \<Rightarrow> (block_delta \<times> u64) list \<Rightarrow> (block_delta \<times> u64) list \<Rightarrow> bytes \<Rightarrow> bool" where
  "journal_invar xxh3 pb arity digest base f wo acked extra t \<longleftrightarrow>
     f = journal_file xxh3 pb digest base (acked @ extra) @ t \<and> stuck xxh3 t \<and>
     chain base (acked @ extra) \<and> (\<forall>e \<in> set (acked @ extra). recorded pb arity (fst e)) \<and>
     length extra \<le> 1 \<and>
     (case wo of None \<Rightarrow> True
      | Some w \<Rightarrow> extra = [] \<and> t = [] \<and> jw_last w = base + of_nat (length acked) \<and> jw_plaintext_bits w = pb)"

lemma journal_file_snoc:
  "journal_file xxh3 pb digest base (es @ [e]) = journal_file xxh3 pb digest base es @ entry_bytes xxh3 pb e"
  by (simp add: journal_file_def)

lemma journal_append_outcomes:
  assumes "deliverable pb arity d" and "jw_plaintext_bits w = pb"
    and "journal_append xxh3 fault w f d n = Some (res, w', f')"
  obtains (unwritten) e where "res = Inl e" "w' = w" "f' = f"
  | (written) "fault = None" "recorded pb arity d" "delta_block d = jw_last w + 1" "res = Inr ()"
      "w' = w\<lparr> jw_last := delta_block d \<rparr>" "f' = f @ entry_bytes xxh3 pb (d, n)"
  | (broken) k where "fault = Some k" "recorded pb arity d" "delta_block d = jw_last w + 1" "res = Inl JournalIo" "w' = w"
      "f' = f @ take k (entry_bytes xxh3 pb (d, n))"
proof (cases "delta_block d = jw_last w + 1")
  case False
  then show thesis using assms(3) by (intro unwritten[of "JournalGap (jw_last w + 1) (delta_block d)"]) (auto simp: journal_append_def)
next
  case True
  note st = assms(3)[unfolded journal_append_def Let_def assms(2)]
  then obtain p where p: "encode_block_delta d pb = Some p" using True by (auto split: option.splits)
  then have pl: "payload_of pb d = p" by (simp add: payload_of_def)
  show thesis
  proof (cases "length p < 2 ^ 32")
    case False
    then show thesis using st True p unwritten[of JournalIo] by auto
  next
    case small: True
    have r: "recorded pb arity d" using assms(1) p pl small by (simp add: recorded_def)
    show thesis
    proof (cases fault)
      case None
      show thesis by (rule written) (use st True p pl small r None in \<open>simp_all add: entry_bytes_def\<close>)
    next
      case (Some k)
      show thesis by (rule broken[of k]) (use st True p pl small r Some in \<open>simp_all add: entry_bytes_def\<close>)
    qed
  qed
qed

lemma journal_run_invar:
  assumes "journal_run xxh3 pb arity digest base f wo acked"
  shows "\<exists>extra t. journal_invar xxh3 pb arity digest base f wo acked extra t"
  using assms
proof (induction rule: journal_run.induct)
  case (created w f)
  then have "journal_invar xxh3 pb arity digest base f (Some w) [] [] []"
    by (auto simp: journal_invar_def journal_create_def journal_file_def)
  then show ?case by blast
next
  case (appended f w acked d n w' f')
  then obtain extra t where inv: "journal_invar xxh3 pb arity digest base f (Some w) acked extra t" by blast
  then have "jw_plaintext_bits w = pb" by (simp add: journal_invar_def)
  from appended.hyps(2) this appended.hyps(3)
  have "journal_invar xxh3 pb arity digest base f' (Some w') (acked @ [(d, n)]) [] []"
    by (cases rule: journal_append_outcomes) (use inv in \<open>auto simp: journal_invar_def journal_file_snoc chain_append\<close>)
  then show ?case by blast
next
  case (failed f w acked d fault n e w' f')
  then obtain extra t where inv: "journal_invar xxh3 pb arity digest base f (Some w) acked extra t" by blast
  then have w: "jw_plaintext_bits w = pb" and f: "f = journal_file xxh3 pb digest base acked"
    and c: "chain base acked" "\<forall>e \<in> set acked. recorded pb arity (fst e)"
    and last: "jw_last w = base + of_nat (length acked)"
    by (auto simp: journal_invar_def)
  from failed.hyps(2) w failed.hyps(3) show ?case
  proof (cases rule: journal_append_outcomes)
    case (unwritten e)
    then have "journal_invar xxh3 pb arity digest base f' None acked [] []"
      unfolding journal_invar_def using f c by simp
    then show ?thesis by blast
  next
    case (broken k)
    show ?thesis
    proof (cases "k < length (entry_bytes xxh3 pb (d, n))")
      case True
      then have "stuck xxh3 (take k (entry_bytes xxh3 pb (d, n)))"
        using partial_record_stuck[of pb arity "(d, n)"] broken(2) by simp
      then have "journal_invar xxh3 pb arity digest base f' None acked [] (take k (entry_bytes xxh3 pb (d, n)))"
        unfolding journal_invar_def broken(6) f using c by simp
      then show ?thesis by blast
    next
      case False
      then have "journal_invar xxh3 pb arity digest base f' None acked [(d, n)] []"
        unfolding journal_invar_def broken(6) f using c last broken(2,3)
        by (auto simp: journal_file_snoc chain_append)
      then show ?thesis by blast
    qed
  qed simp
next
  case (restarted f w acked header r0 recs r w' f')
  then obtain extra t where inv: "journal_invar xxh3 pb arity digest base f w acked extra t" by blast
  let ?es = "takeWhile (readable pb) (acked @ extra)"
  have "recovers xxh3 pb arity digest base f ?es (list_all (readable pb) (acked @ extra) \<and> t = [])"
    using recorded_file_recovers[of base "acked @ extra" pb arity xxh3 t digest] inv by (simp add: journal_invar_def)
  then have r: "map entry_of recs = ?es" "last_valid_height r = base + of_nat (length ?es)"
    "set_len (valid_end_offset r) f = journal_file xxh3 pb digest base ?es"
    using restarted.hyps(2,3) by (auto simp: recovers_def)
  have "chain base ?es" using inv chain_append[of base ?es "dropWhile (readable pb) (acked @ extra)"] by (simp add: journal_invar_def)
  moreover have "\<forall>e \<in> set ?es. recorded pb arity (fst e)"
    using inv set_takeWhile_recorded[of "acked @ extra" pb arity] by (simp add: journal_invar_def)
  ultimately have "journal_invar xxh3 pb arity digest base f' (Some w') ?es [] []"
    using r restarted.hyps(4) by (auto simp: journal_invar_def journal_adopt_def)
  then show ?case unfolding r(1) by blast
qed

section \<open>Concrete data\<close>

lemma uvarint_len_le: "unat v < 128 ^ Suc n \<Longrightarrow> uvarint_len v \<le> Suc n"
proof (induction n arbitrary: v)
  case 0
  then show ?case by (subst uvarint_len.simps) (simp add: word_le_nat_alt)
next
  case (Suc n)
  have "unat (drop_bit 7 v) < 128 ^ Suc n"
    unfolding unat_drop_bit_7 using Suc.prems by (simp add: less_mult_imp_div_less)
  from Suc.IH[OF this] show ?case by (subst uvarint_len.simps) simp
qed

lemma uvarint_len_le_10: "uvarint_len v \<le> 10"
proof -
  have "unat v < 128 ^ Suc 9"
    using unsigned_less[of v, where 'a = nat] by simp
  then show ?thesis using uvarint_len_le[of v 9] by simp
qed

definition example_xxh :: "bytes \<Rightarrow> u64" where
  "example_xxh bs = of_nat (length bs)"

lemma example_journalable: "journalable 10 2 (example_delta 7 [(1, 5), (4, - 2)])"
proof -
  let ?d = "example_delta 7 [(1, 5), (4, - 2)]"
  have e: "encode_block_delta ?d 10 = Some (the (encode_block_delta ?d 10))"
    by (simp add: encode_block_delta_def example_delta_def)
  have "encoded_len ?d = length (the (encode_block_delta ?d 10))"
    by (rule encode_length[OF e, symmetric])
  moreover have "encoded_len ?d \<le> 13 + 2 * 10 + 1 * 20 + 2 * 20"
    using uvarint_len_le_10[of 1] uvarint_len_le_10[of 3] uvarint_len_le_10[of 2] uvarint_len_le_10[of 0]
      uvarint_len_le_10[of "zigzag_encode 5"] uvarint_len_le_10[of "zigzag_encode (- 2)"]
    by (simp add: encoded_len_def example_delta_def)
  moreover have "sort_delta ?d = ?d"
    by (simp add: sort_delta_def sort_rows_def example_delta_def)
  ultimately show ?thesis
    using e encode_decode[OF e] unfolding journalable_def max_record_bytes_def
    by (intro exI[of _ "the (encode_block_delta ?d 10)"]) (simp add: delta_fits_def example_delta_def)
qed

section \<open>Properties\<close>

text \<open>C17. A journal is read back exactly as far as the reader's cap lets it.  Along every run of appends of any
  size, failed appends (a gap, a device error or a crash after any number of bytes) and restarts, the file holds
  consecutive blocks from the base: exactly the acknowledged records, plus at most the one whose
  append was interrupted.  It scans without a header error to the longest prefix of them whose
  payloads are at most 64 MiB, so an acknowledged record is lost exactly if it, or one before it, is
  larger; truncating at the reported offset leaves a clean journal of that prefix; and while the
  writer is live the scan is clean exactly when every acknowledged record is within the cap.\<close>

theorem journal_run_recovers:
  assumes "journal_run xxh3 pb arity digest base f wo acked"
  shows "\<exists>extra clean. length extra \<le> 1 \<and> chain base (acked @ extra) \<and>
    recovers xxh3 pb arity digest base f
      (takeWhile (\<lambda>e. length (payload_of pb (fst e)) \<le> 64 * 1024 * 1024) (acked @ extra)) clean \<and>
    (wo = None \<or> (extra = [] \<and> clean = list_all (\<lambda>e. length (payload_of pb (fst e)) \<le> 64 * 1024 * 1024) acked))"
proof -
  have cap: "(\<lambda>e. length (payload_of pb (fst e)) \<le> 64 * 1024 * 1024) = readable pb"
    by (simp add: fun_eq_iff readable_def max_record_bytes_def)
  from journal_run_invar[OF assms] obtain extra t where
    inv: "journal_invar xxh3 pb arity digest base f wo acked extra t" by blast
  then have "recovers xxh3 pb arity digest base f (takeWhile (readable pb) (acked @ extra)) (list_all (readable pb) (acked @ extra) \<and> t = [])"
    using recorded_file_recovers[of base "acked @ extra" pb arity xxh3 t digest] by (simp add: journal_invar_def)
  with inv show ?thesis
    unfolding cap journal_invar_def
    by (intro exI[of _ extra] exI[of _ "list_all (readable pb) (acked @ extra) \<and> t = []"]) (auto split: option.splits)
qed

lemma journal_run_recovers_witness:
  "recovers example_xxh 10 2 99 6
     (snd (journal_create example_xxh 99 6 10) @ entry_bytes example_xxh 10 (example_delta 7 [(1, 5), (4, - 2)], 12))
     [(example_delta 7 [(1, 5), (4, - 2)], 12)] True"
proof -
  let ?d = "example_delta 7 [(1, 5), (4, - 2)]"
  obtain w f where c: "journal_create example_xxh 99 6 10 = (w, f)"
    by (cases "journal_create example_xxh 99 6 10") simp
  then have w: "jw_plaintext_bits w = 10" "jw_last w = 6" by (auto simp: journal_create_def)
  have d: "delta_block ?d = jw_last w + 1" by (simp add: w example_delta_def)
  have small: "length (payload_of 10 ?d) \<le> 64 * 1024 * 1024"
    using journalableD(2)[OF example_journalable] by (simp add: max_record_bytes_def)
  have "journal_append example_xxh None w f ?d 12 = Some (Inr (), w\<lparr> jw_last := delta_block ?d \<rparr>,
      f @ entry_bytes example_xxh 10 (?d, 12))"
    using journalableD(1)[OF example_journalable] d small by (simp add: journal_append_def w entry_bytes_def)
  moreover have "deliverable 10 2 ?d"
    by (simp add: deliverable_def delta_fits_def sort_delta_def sort_rows_def example_delta_def)
  ultimately have "journal_run example_xxh 10 2 99 6 (f @ entry_bytes example_xxh 10 (?d, 12))
      (Some (w\<lparr> jw_last := delta_block ?d \<rparr>)) [(?d, 12)]"
    using journal_run.appended[OF journal_run.created[OF c, where arity = 2]] by fastforce
  from journal_run_recovers[OF this] show ?thesis using c small by auto
qed

end
