(* ===== verification/State_File.thy ===== *)
theory State_File
  imports Wire Geometry
begin

text \<open>
  Model of the state file of \<open>crates/risepir-rpc/src/state.rs\<close>: \<open>save\<close>, the path guard
  of \<open>acquire_state_path\<close>, and \<open>parse_raw\<close> with its geometry lineage check.

  A file is the list of its bytes.  The hashing reader hashes every byte it has read, so
  its digest at cursor \<open>pos\<close> is the hash of the first \<open>pos\<close> bytes.  \<open>save\<close> takes a
  fault: \<open>Some k\<close> if the device or the machine stops after \<open>k\<close> bytes of the staging
  file, before the rename.  The hash \<open>xxh3\<close>, \<open>CuckooParams::arity\<close> and
  \<open>cells_per_slot\<close>, the plaintext selectors (\<open>pir_lib\<close>) and \<open>SimpleParams\<close> are
  parameters.  Lengths (\<open>usize\<close>) are natural numbers; the product of the geometry wraps at
  64 bits as the release build does.
\<close>

section \<open>Data\<close>

definition state_magic_v1 :: bytes where "state_magic_v1 = [0x52, 0x50, 0x53, 0x54, 0x31]"
definition state_magic_v2 :: bytes where "state_magic_v2 = [0x52, 0x50, 0x53, 0x54, 0x32]"
definition state_magic :: bytes where "state_magic = [0x52, 0x50, 0x53, 0x54, 0x33]"

definition chunk_cells :: nat where "chunk_cells = 64 * 1024"
definition store_arity :: nat where "store_arity = 2"
definition mainnet_bucket_size :: u32 where "mainnet_bucket_size = 4"
definition mainnet_fingerprint_bits :: u32 where "mainnet_fingerprint_bits = 32"

datatype corrupt_reason =
    OldHashLineage
  | StateBadMagic
  | BadCompletenessFlag u8
  | ValueCodecMismatch
  | SetupLenExceedsFile u64
  | SetupSection wire_error
  | ArityLineage nat
  | NotAGeometry geom_error
  | GeometryLineage
  | CellsLenMismatch nat nat
  | WholeFileChecksum
  | TrailingAfterCells
  | StoreReconstruction string

datatype state_error = StateIo | StateCorrupt corrupt_reason

record 'p raw_state =
  raw_cells :: "u32 list"
  raw_setup :: "'p wire_bundle"
  raw_num_items :: u64
  raw_complete :: bool
  raw_digest :: u64

record save_report =
  report_bytes :: nat
  report_digest :: u64

record state_fs =
  fs_path :: "bytes option"
  fs_tmp :: "bytes option"

text \<open>The external functions of \<open>CuckooParams\<close>.\<close>

record cuckoo_api =
  ca_arity :: "cuckoo_fields \<Rightarrow> nat"
  ca_cells_per_slot :: "cuckoo_fields \<Rightarrow> u32"

section \<open>Saving\<close>

function chunks :: "nat \<Rightarrow> 'a list \<Rightarrow> 'a list list" where
  "chunks n xs = (if xs = [] \<or> n = 0 then [] else take n xs # chunks n (drop n xs))"
  by pat_completeness auto

termination chunks
  by (relation "measure (\<lambda>(_, xs). length xs)") auto

declare chunks.simps [simp del]

definition save_content ::
    "cuckoo_api \<Rightarrow> 'p simple_lib \<Rightarrow> 'p wire_bundle \<Rightarrow> u32 list \<Rightarrow> u64 \<Rightarrow> value_codec \<Rightarrow> bool \<Rightarrow> bytes option" where
  "save_content api lib setup cells num_items codec complete =
     map_option (\<lambda>setup_bytes.
       state_magic @ [if complete then 1 else 0] @
       u32_le (key_tag_bits codec) @ u32_le (balance_bits codec) @ u32_le (checksum_bits codec) @
       u64_le num_items @ u64_le (of_nat (length setup_bytes)) @ setup_bytes @
       u64_le (of_nat (length cells)) @
       concat (map (\<lambda>block. concat (map u32_le block)) (chunks chunk_cells cells)))
     (encode_setup (ca_arity api) lib setup)"

definition save ::
    "(bytes \<Rightarrow> u64) \<Rightarrow> cuckoo_api \<Rightarrow> 'p simple_lib \<Rightarrow> nat option \<Rightarrow> state_fs \<Rightarrow> 'p wire_bundle \<Rightarrow> u32 list
     \<Rightarrow> u64 \<Rightarrow> value_codec \<Rightarrow> bool \<Rightarrow> ((state_error + save_report) \<times> state_fs) option" where
  "save xxh3 api lib fault fs setup cells num_items codec complete =
     map_option (\<lambda>covered.
       let digest = xxh3 covered; file = covered @ u64_le digest in
       case fault of
         Some k \<Rightarrow> (Inl StateIo, fs\<lparr> fs_tmp := Some (take k file) \<rparr>)
       | None \<Rightarrow> (Inr \<lparr> report_bytes = length covered + 8, report_digest = digest \<rparr>,
                  fs\<lparr> fs_path := Some file, fs_tmp := None \<rparr>))
     (save_content api lib setup cells num_items codec complete)"

text \<open>The extensions that siblings of the state path use.\<close>

definition reserved_extensions :: "string list" where
  "reserved_extensions = [''journal'', ''tmp'', ''lock'', ''audit'']"

definition state_path_allowed :: "string option \<Rightarrow> bool" where
  "state_path_allowed extension = (\<not> list_ex (\<lambda>reserved. extension = Some reserved) reserved_extensions)"

section \<open>Loading\<close>

definition st_read :: "nat \<Rightarrow> bytes \<Rightarrow> nat \<Rightarrow> state_error + (bytes \<times> nat)" where
  "st_read n bs pos = and_then (ok_or (get_range bs pos n) StateIo) (\<lambda>chunk. Inr (chunk, pos + n))"

definition st_read_u32 :: "bytes \<Rightarrow> nat \<Rightarrow> state_error + (u32 \<times> nat)" where
  "st_read_u32 bs pos = and_then (st_read 4 bs pos) (\<lambda>(chunk, pos). Inr (of_le chunk, pos))"

definition st_read_u64 :: "bytes \<Rightarrow> nat \<Rightarrow> state_error + (u64 \<times> nat)" where
  "st_read_u64 bs pos = and_then (st_read 8 bs pos) (\<lambda>(chunk, pos). Inr (of_le chunk, pos))"

definition check_geometry_lineage :: "pir_lib \<Rightarrow> cuckoo_fields \<Rightarrow> value_codec \<Rightarrow> state_error + unit" where
  "check_geometry_lineage plib params codec =
     and_then (map_err (\<lambda>e. StateCorrupt (NotAGeometry e))
       (for_num_buckets plib (cf_num_buckets params) (of_nat store_arity) mainnet_bucket_size
          mainnet_fingerprint_bits codec Simple)) (\<lambda>expected.
     if cf_bucket_size params = geom_bucket_size expected \<and>
        cf_fingerprint_bits params = geom_fingerprint_bits expected \<and>
        cf_plaintext_bits params = geom_plaintext_bits expected
     then Inr () else Inl (StateCorrupt GeometryLineage))"

definition expected_cells :: "cuckoo_api \<Rightarrow> cuckoo_fields \<Rightarrow> nat" where
  "expected_cells api params =
     (unat (cf_num_buckets params) * unat (cf_bucket_size params) * unat (ca_cells_per_slot api params)) mod 2 ^ 64"

text \<open>The part of \<open>parse_raw\<close> before the cell array is allocated: the flag, the item count,
  the setup bundle and the number of cells, with the cursor.\<close>

definition parse_header ::
    "cuckoo_api \<Rightarrow> 'p simple_lib \<Rightarrow> pir_lib \<Rightarrow> bytes \<Rightarrow> nat \<Rightarrow> value_codec
     \<Rightarrow> state_error + (bool \<times> u64 \<times> 'p wire_bundle \<times> nat \<times> nat)" where
  "parse_header api lib plib bs total_len codec =
     and_then (st_read 5 bs 0) (\<lambda>(magic, pos).
     if magic \<noteq> state_magic
     then (if magic = state_magic_v1 \<or> magic = state_magic_v2
           then Inl (StateCorrupt OldHashLineage) else Inl (StateCorrupt StateBadMagic))
     else
     and_then (st_read 1 bs pos) (\<lambda>(flag, pos).
     if hd flag \<noteq> 0 \<and> hd flag \<noteq> 1 then Inl (StateCorrupt (BadCompletenessFlag (hd flag)))
     else
     and_then (st_read_u32 bs pos) (\<lambda>(w0, pos).
     and_then (st_read_u32 bs pos) (\<lambda>(w1, pos).
     and_then (st_read_u32 bs pos) (\<lambda>(w2, pos).
     if \<lparr> key_tag_bits = w0, balance_bits = w1, checksum_bits = w2 \<rparr> \<noteq> codec
     then Inl (StateCorrupt ValueCodecMismatch)
     else
     and_then (st_read_u64 bs pos) (\<lambda>(num_items, pos).
     and_then (st_read_u64 bs pos) (\<lambda>(setup_len, pos).
     if unat setup_len > total_len then Inl (StateCorrupt (SetupLenExceedsFile setup_len))
     else
     and_then (st_read (unat setup_len) bs pos) (\<lambda>(setup_bytes, pos).
     and_then (map_err (\<lambda>e. StateCorrupt (SetupSection e)) (decode_setup lib setup_bytes)) (\<lambda>setup.
     let params = wb_params setup in
     if ca_arity api params \<noteq> store_arity then Inl (StateCorrupt (ArityLineage (ca_arity api params)))
     else
     and_then (check_geometry_lineage plib params codec) (\<lambda>_.
     and_then (st_read_u64 bs pos) (\<lambda>(cells_len, pos).
     if unat cells_len \<noteq> expected_cells api params
     then Inl (StateCorrupt (CellsLenMismatch (unat cells_len) (expected_cells api params)))
     else Inr (hd flag = 1, num_items, setup, unat cells_len, pos))))))))))))"

fun u32s_of :: "bytes \<Rightarrow> u32 list" where
  "u32s_of (a # b # c # d # rest) = of_le [a, b, c, d] # u32s_of rest"
| "u32s_of _ = []"

function fill_cells :: "bytes \<Rightarrow> nat \<Rightarrow> nat \<Rightarrow> state_error + (u32 list \<times> nat)" where
  "fill_cells bs pos remaining =
     (if remaining = 0 then Inr ([], pos)
      else let n = min remaining chunk_cells in
        and_then (st_read (n * 4) bs pos) (\<lambda>(chunk, pos).
        and_then (fill_cells bs pos (remaining - n)) (\<lambda>(cells, pos).
        Inr (u32s_of chunk @ cells, pos))))"
  by pat_completeness auto

termination fill_cells
  by (relation "measure (\<lambda>(_, _, remaining). remaining)") (auto simp: chunk_cells_def)

declare fill_cells.simps [simp del]

definition parse_raw ::
    "(bytes \<Rightarrow> u64) \<Rightarrow> cuckoo_api \<Rightarrow> 'p simple_lib \<Rightarrow> pir_lib \<Rightarrow> bytes \<Rightarrow> nat \<Rightarrow> value_codec
     \<Rightarrow> state_error + 'p raw_state" where
  "parse_raw xxh3 api lib plib bs total_len codec =
     and_then (parse_header api lib plib bs total_len codec) (\<lambda>(complete, num_items, setup, cells_len, pos).
     and_then (fill_cells bs pos cells_len) (\<lambda>(cells, pos).
     let computed = xxh3 (take pos bs) in
     and_then (st_read_u64 bs pos) (\<lambda>(stored, pos).
     if computed \<noteq> stored then Inl (StateCorrupt WholeFileChecksum)
     else if pos < length bs then Inl (StateCorrupt TrailingAfterCells)
     else Inr \<lparr> raw_cells = cells, raw_setup = setup, raw_num_items = num_items,
                raw_complete = complete, raw_digest = computed \<rparr>)))"

definition load_raw ::
    "(bytes \<Rightarrow> u64) \<Rightarrow> cuckoo_api \<Rightarrow> 'p simple_lib \<Rightarrow> pir_lib \<Rightarrow> bytes option \<Rightarrow> value_codec
     \<Rightarrow> state_error + 'p raw_state" where
  "load_raw xxh3 api lib plib file codec =
     (case file of None \<Rightarrow> Inl StateIo
      | Some bs \<Rightarrow> parse_raw xxh3 api lib plib bs (length bs) codec)"

section \<open>Reading what was saved\<close>

lemma st_read_at: "drop p bs = ys @ rest \<Longrightarrow> length ys = n \<Longrightarrow> p \<le> length bs \<Longrightarrow> st_read n bs p = Inr (ys, p + n)"
proof -
  assume d: "drop p bs = ys @ rest" and n: "length ys = n" and p: "p \<le> length bs"
  have "length (drop p bs) = n + length rest" unfolding d using n by simp
  with p have "p + n \<le> length bs" by simp
  then show ?thesis using d n by (simp add: st_read_def get_range_def)
qed

lemma st_read_u32_at: "drop p bs = u32_le v @ rest \<Longrightarrow> st_read_u32 bs p = Inr (v, p + 4)"
  by (simp add: st_read_u32_def st_read_def get_range_le)

lemma st_read_u64_at: "drop p bs = u64_le v @ rest \<Longrightarrow> st_read_u64 bs p = Inr (v, p + 8)"
  by (simp add: st_read_u64_def st_read_def get_range_le)

lemma concat_chunks: "0 < n \<Longrightarrow> concat (chunks n xs) = xs"
proof (induction n xs rule: chunks.induct)
  case (1 n xs)
  then show ?case by (subst chunks.simps) auto
qed

definition cells_bytes :: "u32 list \<Rightarrow> bytes" where
  "cells_bytes cells = concat (map u32_le cells)"

lemma cells_bytes_chunks:
  "concat (map (\<lambda>block. concat (map u32_le block)) (chunks chunk_cells cells)) = cells_bytes cells"
proof -
  have "concat (map (\<lambda>block. concat (map u32_le block)) bss) = cells_bytes (concat bss)" for bss
    by (induction bss) (simp_all add: cells_bytes_def)
  then show ?thesis by (simp add: concat_chunks chunk_cells_def)
qed

lemma length_cells_bytes [simp]: "length (cells_bytes cells) = 4 * length cells"
  by (induction cells) (simp_all add: cells_bytes_def)

lemma u32s_of_cells_bytes: "u32s_of (cells_bytes cells) = cells"
proof (induction cells)
  case (Cons c cells)
  obtain a b d e where "u32_le c = [a, b, d, e]"
    by (simp add: eval_nat_numeral)
  moreover have "of_le (u32_le c) = c" by simp
  ultimately show ?case using Cons by (simp add: cells_bytes_def)
qed (simp add: cells_bytes_def)

lemma fill_cells_at:
  assumes "drop p bs = cells_bytes cells @ rest" and "p \<le> length bs"
  shows "fill_cells bs p (length cells) = Inr (cells, p + 4 * length cells)"
  using assms
proof (induction "length cells" arbitrary: cells p rule: less_induct)
  case less
  show ?case
  proof (cases "cells = []")
    case True
    then show ?thesis by (subst fill_cells.simps) simp
  next
    case False
    let ?n = "min (length cells) chunk_cells"
    let ?a = "take ?n cells" and ?b = "drop ?n cells"
    have n: "0 < ?n" using False by (simp add: chunk_cells_def)
    have split: "cells_bytes cells = cells_bytes ?a @ cells_bytes ?b"
      by (metis append_take_drop_id cells_bytes_def concat_append map_append)
    have d: "drop p bs = cells_bytes ?a @ (cells_bytes ?b @ rest)"
      using less.prems(1) unfolding split by simp
    have la: "length (cells_bytes ?a) = ?n * 4" by simp
    have rd: "st_read (?n * 4) bs p = Inr (cells_bytes ?a, p + ?n * 4)"
      by (rule st_read_at[OF d la less.prems(2)])
    have d': "drop (p + ?n * 4) bs = cells_bytes ?b @ rest"
      using drop_add_at[OF d] unfolding la .
    have "length (drop p bs) = 4 * length cells + length rest" unfolding less.prems(1) by simp
    then have le: "p + ?n * 4 \<le> length bs" using less.prems(2) by simp
    have "fill_cells bs (p + ?n * 4) (length ?b) = Inr (?b, p + ?n * 4 + 4 * length ?b)"
      by (rule less.hyps[OF _ d' le]) (use n in simp)
    then show ?thesis
      using False rd by (subst fill_cells.simps) (simp add: Let_def u32s_of_cells_bytes)
  qed
qed

definition header_content ::
    "'p simple_lib \<Rightarrow> 'p wire_bundle \<Rightarrow> nat \<Rightarrow> u64 \<Rightarrow> value_codec \<Rightarrow> bool \<Rightarrow> bytes" where
  "header_content lib setup n_cells num_items codec complete =
     state_magic @ [if complete then 1 else 0] @
     u32_le (key_tag_bits codec) @ u32_le (balance_bits codec) @ u32_le (checksum_bits codec) @
     u64_le num_items @ u64_le (of_nat (length (setup_bytes lib setup))) @ setup_bytes lib setup @
     u64_le (of_nat n_cells)"

lemma save_content_eq:
  "arity_doc (ca_arity api) \<Longrightarrow>
   save_content api lib setup cells num_items codec complete =
     Some (header_content lib setup (length cells) num_items codec complete @ cells_bytes cells)"
  by (simp add: save_content_def encode_setup_bytes cells_bytes_chunks header_content_def)

text \<open>A state this binary can save and load again: the bundle is well formed and of the
  compiled geometry, and the cell array has the size the geometry gives.\<close>

definition state_ok ::
    "cuckoo_api \<Rightarrow> 'p simple_lib \<Rightarrow> pir_lib \<Rightarrow> 'p wire_bundle \<Rightarrow> nat \<Rightarrow> value_codec \<Rightarrow> bool" where
  "state_ok api lib plib setup n_cells codec \<longleftrightarrow>
     arity_doc (ca_arity api) \<and> simple_lib_ok lib \<and> setup_fits lib setup \<and>
     cf_scheme_kind (wb_params setup) = Segmented2ary \<and>
     check_geometry_lineage plib (wb_params setup) codec = Inr () \<and>
     n_cells = expected_cells api (wb_params setup) \<and> setup_encoded_len setup < 2 ^ 64"

lemma parse_header_at:
  assumes ok: "state_ok api lib plib setup n_cells codec"
    and bs: "bs = header_content lib setup n_cells num_items codec complete @ rest"
    and total: "setup_encoded_len setup \<le> total_len"
  shows "parse_header api lib plib bs total_len codec =
    Inr (complete, num_items, setup, n_cells, 42 + setup_encoded_len setup)"
proof -
  let ?sb = "setup_bytes lib setup" and ?L = "length (setup_bytes lib setup)"
  have len: "?L = setup_encoded_len setup" and dec: "decode_setup lib ?sb = Inr setup"
    using ok setup_bytes_length decode_setup_bytes unfolding state_ok_def by blast+
  have ar: "ca_arity api (wb_params setup) = store_arity"
    using ok by (simp add: state_ok_def arity_doc_def store_arity_def)
  have n: "unat (of_nat n_cells :: u64) = n_cells"
    using ok by (simp add: state_ok_def expected_cells_def unat_of_nat take_bit_eq_mod)
  have l: "unat (of_nat ?L :: u64) = ?L"
    using ok unfolding len by (simp add: state_ok_def unat_of_nat take_bit_nat_eq_self)
  have d0: "drop 0 bs = state_magic @ [if complete then 1 else 0] @
     u32_le (key_tag_bits codec) @ u32_le (balance_bits codec) @ u32_le (checksum_bits codec) @
     u64_le num_items @ u64_le (of_nat ?L) @ ?sb @ u64_le (of_nat n_cells) @ rest"
    by (simp add: bs header_content_def)
  have m: "length state_magic = 5" by (simp add: state_magic_def)
  note d1 = drop_add_at[OF d0, unfolded m]
  have one: "length [if complete then 1 else 0 :: u8] = 1" by simp
  note d2 = drop_add_at[OF d1, unfolded one]
  note d3 = drop_add_at[OF d2, unfolded length_to_le] note d4 = drop_add_at[OF d3, unfolded length_to_le]
  note d5 = drop_add_at[OF d4, unfolded length_to_le] note d6 = drop_add_at[OF d5, unfolded length_to_le]
  note d7 = drop_add_at[OF d6, unfolded length_to_le]
  note d8 = drop_add_at[OF d7]
  have bl: "0 + 5 \<le> length bs" "0 + 5 + 1 + 4 + 4 + 4 + 8 + 8 \<le> length bs"
    by (simp_all add: bs header_content_def m)
  have flag: "\<not> (hd [if complete then 1 else 0 :: u8] \<noteq> 0 \<and> hd [if complete then 1 else 0 :: u8] \<noteq> 1)"
    "(hd [if complete then 1 else 0 :: u8] = 1) = complete" by simp_all
  have codec: "\<lparr> key_tag_bits = key_tag_bits codec, balance_bits = balance_bits codec,
      checksum_bits = checksum_bits codec \<rparr> = codec" by simp
  have lineage: "check_geometry_lineage plib (wb_params setup) codec = Inr ()"
    and nc: "n_cells = expected_cells api (wb_params setup)" using ok by (simp_all add: state_ok_def)
  have "parse_header api lib plib bs total_len codec =
      Inr (complete, num_items, setup, n_cells, 0 + 5 + 1 + 4 + 4 + 4 + 8 + 8 + ?L + 8)"
    using total unfolding parse_header_def len[symmetric]
    by (simp only: st_read_at[OF d0 m le0] st_read_at[OF d1 one bl(1)] st_read_u32_at[OF d2]
        st_read_u32_at[OF d3] st_read_u32_at[OF d4] st_read_u64_at[OF d5] st_read_u64_at[OF d6]
        st_read_at[OF d7 refl bl(2)] st_read_u64_at[OF d8] and_then_simps prod.case flag codec l n dec
        map_err_simps Let_def ar lineage not_less[symmetric] nc[symmetric] if_False if_True simp_thms)
      simp
  then show ?thesis unfolding len by simp
qed

lemma length_header_content:
  assumes "simple_lib_ok lib" and "setup_fits lib setup"
  shows "length (header_content lib setup n num_items codec complete) = 42 + setup_encoded_len setup"
  using setup_bytes_length[OF assms] by (simp add: header_content_def state_magic_def)

lemma parse_saved:
  assumes ok: "state_ok api lib plib setup (length cells) codec"
    and covered: "covered = header_content lib setup (length cells) num_items codec complete @ cells_bytes cells"
  shows "parse_raw xxh3 api lib plib (covered @ u64_le (xxh3 covered)) (length (covered @ u64_le (xxh3 covered))) codec =
    Inr \<lparr> raw_cells = cells, raw_setup = setup, raw_num_items = num_items, raw_complete = complete,
          raw_digest = xxh3 covered \<rparr>"
proof -
  let ?H = "header_content lib setup (length cells) num_items codec complete"
  let ?bs = "covered @ u64_le (xxh3 covered)"
  have H: "length ?H = 42 + setup_encoded_len setup"
    using ok by (intro length_header_content) (simp_all add: state_ok_def)
  have bs: "?bs = ?H @ (cells_bytes cells @ u64_le (xxh3 covered))" by (simp add: covered)
  have hdr: "parse_header api lib plib ?bs (length ?bs) codec =
      Inr (complete, num_items, setup, length cells, length ?H)"
    unfolding H by (rule parse_header_at[OF ok bs]) (simp add: covered H)
  have d: "drop (length ?H) ?bs = cells_bytes cells @ u64_le (xxh3 covered)" by (simp add: bs)
  have cells: "fill_cells ?bs (length ?H) (length cells) = Inr (cells, length ?H + 4 * length cells)"
    by (rule fill_cells_at[OF d]) (simp add: covered)
  have d2: "drop (length ?H + 4 * length cells) ?bs = u64_le (xxh3 covered) @ []"
    using drop_add_at[OF d] by simp
  have t: "take (length ?H + 4 * length cells) ?bs = covered" by (simp add: covered)
  have l: "length ?H + 4 * length cells + 8 = length ?bs" by (simp add: covered)
  show ?thesis
    unfolding parse_raw_def
    by (simp only: hdr cells and_then_simps prod.case Let_def st_read_u64_at[OF d2] t l) simp
qed

text \<open>What is accepted: the file is a covered part followed by the hash of it, and nothing
  else.\<close>

lemma st_read_InrD: "st_read n bs p = Inr (c, q) \<Longrightarrow> q = p + n \<and> q \<le> length bs \<and> c = take n (drop p bs)"
  by (auto simp: st_read_def get_range_Some_iff)

text \<open>What is read is a piece of the file, and the reading goes on behind it.\<close>

lemma st_read_piece:
  "st_read n bs p = Inr (c, q) \<Longrightarrow> length c = n \<and> drop p bs = c @ drop q bs \<and> q \<le> length bs"
  by (auto simp: st_read_def get_range_Some_iff) (metis add.commute append_take_drop_id drop_drop)

lemma to_le_of_le: "length bs = n \<Longrightarrow> 8 * n \<le> LENGTH('a) \<Longrightarrow> to_le n (of_le bs :: 'a::len word) = bs"
proof (induction bs arbitrary: n)
  case (Cons b bs)
  then obtain m where n: "n = Suc m" "length bs = m" "8 \<le> LENGTH('a)" "8 * m + 8 \<le> LENGTH('a)" by auto
  have lo: "ucast (ucast b OR push_bit 8 (of_le bs) :: 'a word) = b"
    using n(3) by (intro bit_word_eqI) (auto simp: bit_simps)
  have hi: "drop_bit 8 (ucast b OR push_bit 8 (of_le bs) :: 'a word) = take_bit (LENGTH('a) - 8) (of_le bs)"
    using n(3) by (intro bit_word_eqI) (auto simp: bit_simps dest: bit_imp_le_length)
  have cut: "to_le m (take_bit k w) = to_le m w" if "8 * m \<le> k" for k and w :: "'a word" and m
    using that
  proof (induction m arbitrary: k w)
    case (Suc m)
    have "drop_bit 8 (take_bit k w) = take_bit (k - 8) (drop_bit 8 w)" by (simp add: drop_bit_take_bit)
    moreover have "ucast (take_bit k w) = (ucast w :: u8)" using Suc.prems by (intro bit_word_eqI) (auto simp: bit_simps)
    ultimately show ?case using Suc by simp
  qed simp
  have "to_le m (take_bit (LENGTH('a) - 8) (of_le bs :: 'a word)) = bs"
    using n Cons.IH[of m] by (simp add: cut)
  then show ?case using lo hi by (simp add: n(1))
qed simp

lemma st_read_u32_piece: "st_read_u32 bs p = Inr (v, q) \<Longrightarrow> drop p bs = u32_le v @ drop q bs"
  by (auto simp: st_read_u32_def to_le_of_le dest!: st_read_piece)

lemma st_read_u64_piece: "st_read_u64 bs p = Inr (v, q) \<Longrightarrow> drop p bs = u64_le v @ drop q bs \<and> q \<le> length bs"
  by (auto simp: st_read_u64_def to_le_of_le dest!: st_read_piece)

lemma u32s_of_chunk: "length c = 4 * n \<Longrightarrow> cells_bytes (u32s_of c) = c \<and> length (u32s_of c) = n"
proof (induction c arbitrary: n rule: u32s_of.induct)
  case (1 a b c d rest)
  then obtain m where "n = Suc m" by (cases n) auto
  moreover have "u32_le (of_le [a, b, c, d]) = [a, b, c, d]" by (rule to_le_of_le) simp_all
  ultimately show ?case using 1 by (simp add: cells_bytes_def)
qed (auto simp: cells_bytes_def, presburger+)

lemma fill_cells_piece:
  "fill_cells bs p n = Inr (cells, q) \<Longrightarrow> p \<le> length bs \<Longrightarrow> length cells = n \<and> drop p bs = cells_bytes cells @ drop q bs \<and> q \<le> length bs"
proof (induction bs p n arbitrary: cells q rule: fill_cells.induct)
  case (1 bs p n)
  show ?case
  proof (cases "n = 0")
    case True
    then show ?thesis using 1(2,3) by (simp add: fill_cells.simps cells_bytes_def)
  next
    case False
    let ?m = "min n chunk_cells"
    from 1(2) obtain chunk p' cells' where r: "st_read (?m * 4) bs p = Inr (chunk, p')"
      and f: "fill_cells bs p' (n - ?m) = Inr (cells', q)" and cells: "cells = u32s_of chunk @ cells'"
      using False by (subst (asm) fill_cells.simps) (auto simp: Let_def)
    note c = st_read_piece[OF r]
    note u = u32s_of_chunk[of chunk ?m]
    have ih: "length cells' = n - ?m \<and> drop p' bs = cells_bytes cells' @ drop q bs \<and> q \<le> length bs"
      using 1(1)[OF False refl r refl f] c by blast
    have "cells_bytes cells = cells_bytes (u32s_of chunk) @ cells_bytes cells'" by (simp add: cells cells_bytes_def)
    then show ?thesis using ih c u by (simp add: cells mult.commute)
  qed
qed

text \<open>The covered part of a file, with the bytes of its setup section.\<close>

definition covered_content :: "value_codec \<Rightarrow> bytes \<Rightarrow> 'p raw_state \<Rightarrow> bytes" where
  "covered_content codec setup_section raw = state_magic @ [if raw_complete raw then 1 else 0] @
     u32_le (key_tag_bits codec) @ u32_le (balance_bits codec) @ u32_le (checksum_bits codec) @
     u64_le (raw_num_items raw) @ u64_le (of_nat (length setup_section)) @ setup_section @
     u64_le (of_nat (length (raw_cells raw))) @ cells_bytes (raw_cells raw)"

lemma parse_raw_exact:
  assumes "parse_raw xxh3 api lib plib bs total_len codec = Inr raw"
  shows "\<exists>setup_section. bs = covered_content codec setup_section raw @ u64_le (xxh3 (covered_content codec setup_section raw)) \<and>
    raw_digest raw = xxh3 (covered_content codec setup_section raw) \<and>
    decode_setup lib setup_section = Inr (raw_setup raw) \<and> length setup_section \<le> total_len \<and>
    ca_arity api (wb_params (raw_setup raw)) = store_arity \<and>
    check_geometry_lineage plib (wb_params (raw_setup raw)) codec = Inr () \<and>
    length (raw_cells raw) = expected_cells api (wb_params (raw_setup raw))"
proof -
  from assms obtain whole num_items su cells_len p where
    h: "parse_header api lib plib bs total_len codec = Inr (whole, num_items, su, cells_len, p)"
    by (auto simp: parse_raw_def)
  from assms[unfolded parse_raw_def h and_then_simps prod.case] obtain cells q stored e where
    f: "fill_cells bs p cells_len = Inr (cells, q)" and s: "st_read_u64 bs q = Inr (stored, e)"
    and c: "xxh3 (take q bs) = stored" "\<not> e < length bs"
    and raw: "raw = \<lparr> raw_cells = cells, raw_setup = su, raw_num_items = num_items, raw_complete = whole, raw_digest = stored \<rparr>"
    by (auto simp: Let_def split: if_splits)
  from h obtain p1 flag p2 w0 p3 w1 p4 w2 p5 p6 setup_len p7 sect p8 cl where
    r1: "st_read 5 bs 0 = Inr (state_magic, p1)" and r2: "st_read 1 bs p1 = Inr (flag, p2)" and flag: "hd flag = 0 \<or> hd flag = 1"
    and r3: "st_read_u32 bs p2 = Inr (w0, p3)" and r4: "st_read_u32 bs p3 = Inr (w1, p4)" and r5: "st_read_u32 bs p4 = Inr (w2, p5)"
    and codec: "\<lparr> key_tag_bits = w0, balance_bits = w1, checksum_bits = w2 \<rparr> = codec"
    and r6: "st_read_u64 bs p5 = Inr (num_items, p6)" and r7: "st_read_u64 bs p6 = Inr (setup_len, p7)"
    and small: "unat setup_len \<le> total_len" and r8: "st_read (unat setup_len) bs p7 = Inr (sect, p8)"
    and d: "decode_setup lib sect = Inr su"
    and ar: "ca_arity api (wb_params su) = store_arity"
    and geo: "check_geometry_lineage plib (wb_params su) codec = Inr ()"
    and r9: "st_read_u64 bs p8 = Inr (cl, p)" and cl: "unat cl = expected_cells api (wb_params su)" "unat cl = cells_len"
    and whole: "whole = (hd flag = 1)"
    by (fastforce simp: parse_header_def Let_def map_err_def split: if_splits sum.splits)
  have "p \<le> length bs" using st_read_u64_piece[OF r9] by simp
  note pieces = st_read_piece[OF r1] st_read_piece[OF r2] st_read_u32_piece[OF r3] st_read_u32_piece[OF r4]
    st_read_u32_piece[OF r5] st_read_u64_piece[OF r6] st_read_u64_piece[OF r7] st_read_piece[OF r8]
    st_read_u64_piece[OF r9] fill_cells_piece[OF f this] st_read_u64_piece[OF s]
  let ?covered = "covered_content codec sect raw"
  have "length flag = 1" using pieces by simp
  then have "flag = [if whole then 1 else 0]" using flag whole by (cases flag) auto
  moreover have "setup_len = of_nat (length sect)" using pieces by simp
  moreover have "length cells = unat cl" using pieces cl(2) by simp
  then have "cl = of_nat (length cells)" by simp
  moreover have "codec = \<lparr> key_tag_bits = w0, balance_bits = w1, checksum_bits = w2 \<rparr>" by (rule codec[symmetric])
  ultimately have covered: "bs = ?covered @ drop q bs"
    using pieces by (simp add: covered_content_def raw)
  have q: "drop q bs = u64_le stored" using st_read_u64_piece[OF s] c(2) by auto
  have bs: "bs = ?covered @ u64_le stored" using covered unfolding q .
  have "length bs = length ?covered + 8" unfolding bs by simp
  moreover have "length bs = q + 8" using arg_cong[OF q, of length] by simp
  ultimately have "take q bs = ?covered" using bs by simp
  then have "stored = xxh3 ?covered" using c(1) by simp
  moreover have "length sect \<le> total_len" using small st_read_piece[OF r8] by simp
  moreover have "length cells = cells_len" using fill_cells_piece[OF f] st_read_u64_piece[OF r9] by simp
  ultimately show ?thesis
    using bs d ar geo cl by (intro exI[of _ sect]) (simp add: raw)
qed

lemma parse_raw_InrD:
  assumes "parse_raw xxh3 api lib plib bs total_len codec = Inr raw"
  shows "\<exists>covered. length bs = length covered + 8 \<and> covered = take (length covered) bs \<and>
    of_le (drop (length covered) bs) = xxh3 covered \<and> raw_digest raw = xxh3 covered"
proof -
  from assms obtain pos stored q where
    st: "st_read_u64 bs pos = Inr (stored, q)" and c: "xxh3 (take pos bs) = stored" and q: "\<not> q < length bs"
    and dg: "raw_digest raw = xxh3 (take pos bs)"
    by (auto simp: parse_raw_def Let_def split: if_splits)
  from st have s: "stored = of_le (take 8 (drop pos bs))" and q': "q = pos + 8" "q \<le> length bs"
    by (auto simp: st_read_u64_def dest!: st_read_InrD)
  with q have len: "length bs = pos + 8" by simp
  then show ?thesis
    using s c dg by (intro exI[of _ "take pos bs"]) simp
qed

text \<open>The cell array is sized from the header alone: the same checks accept the header with no
  cells behind it, and only the reading that follows the allocation fails.\<close>

lemma truncated_file_sizes_allocation:
  assumes ok: "state_ok api lib plib setup n_cells codec" and "0 < n_cells"
    and bs: "bs = header_content lib setup n_cells num_items codec complete"
  shows "parse_header api lib plib bs (length bs) codec = Inr (complete, num_items, setup, n_cells, length bs)"
    and "parse_raw xxh3 api lib plib bs (length bs) codec = Inl StateIo"
proof -
  have H: "length bs = 42 + setup_encoded_len setup"
    unfolding bs using ok by (intro length_header_content) (simp_all add: state_ok_def)
  show h: "parse_header api lib plib bs (length bs) codec = Inr (complete, num_items, setup, n_cells, length bs)"
    unfolding H by (rule parse_header_at[OF ok]) (simp_all add: bs)
  have "0 < min n_cells chunk_cells * 4" using assms(2) by (simp add: chunk_cells_def)
  then have "st_read (min n_cells chunk_cells * 4) bs (length bs) = Inl StateIo"
    by (simp add: st_read_def get_range_def)
  then have "fill_cells bs (length bs) n_cells = Inl StateIo"
    using assms(2) by (subst fill_cells.simps) (simp add: Let_def)
  then show "parse_raw xxh3 api lib plib bs (length bs) codec = Inl StateIo"
    by (simp add: parse_raw_def h)
qed

section \<open>Concrete data\<close>

definition toy_api :: cuckoo_api where
  "toy_api = \<lparr> ca_arity = toy_arity, ca_cells_per_slot = (\<lambda>_. 1) \<rparr>"

definition toy_state_bundle :: "toy_params wire_bundle" where
  "toy_state_bundle = toy_bundle\<lparr> wb_params := \<lparr> cf_scheme_kind = Segmented2ary, cf_num_buckets = 2,
     cf_bucket_size = 4, cf_fingerprint_bits = 32, cf_value_bits = 16,
     cf_plaintext_bits = simple_max_plaintext_bits example_lib 2 1 4 32 (value_bits example_codec)
       (simple_default_sigma example_lib) \<rparr> \<rparr>"

lemma toy_state_ok: "state_ok toy_api toy_simple_lib example_lib toy_state_bundle 8 example_codec"
proof -
  have "setup_fits toy_simple_lib toy_state_bundle"
    using toy_bundle_fits by (simp add: setup_fits_def toy_state_bundle_def toy_bundle_def)
  moreover have "setup_encoded_len toy_state_bundle = 187"
    by (simp add: setup_encoded_len_def toy_state_bundle_def toy_bundle_def uvarint_len.simps)
  moreover have "check_geometry_lineage example_lib (wb_params toy_state_bundle) example_codec = Inr ()"
    by (simp add: check_geometry_lineage_def for_num_buckets_def toy_state_bundle_def store_arity_def
        mainnet_bucket_size_def mainnet_fingerprint_bits_def value_bits_def example_codec_def)
  moreover have "expected_cells toy_api (wb_params toy_state_bundle) = 8"
    by (simp add: expected_cells_def toy_api_def toy_state_bundle_def)
  ultimately show ?thesis
    using toy_simple_lib_ok toy_arity_doc
    by (simp add: state_ok_def) (simp add: toy_api_def toy_state_bundle_def)
qed

lemma toy_state_ok8:
  "state_ok toy_api toy_simple_lib example_lib toy_state_bundle
    (length [1, 2, 3, 4, 5, 6, 7, 511 :: u32]) example_codec"
proof -
  have "length [1, 2, 3, 4, 5, 6, 7, 511 :: u32] = 8" by simp
  then show ?thesis using toy_state_ok by (simp only:)
qed

definition toy_covered :: bytes where
  "toy_covered = header_content toy_simple_lib toy_state_bundle 8 3 example_codec True @
     cells_bytes [1, 2, 3, 4, 5, 6, 7, 511]"

definition toy_hash :: "bytes \<Rightarrow> u64" where
  "toy_hash bs = of_nat (length bs)"

section \<open>Properties\<close>

text \<open>C28. Saving then loading gives the state back: bundle, cells, item count, completeness flag,
  and the digest that the save reported, to which a journal binds itself.  A save that stops
  after any number of bytes of its staging file leaves the previous state file as it was.\<close>

theorem state_file_roundtrip:
  assumes "state_ok api lib plib setup (length cells) codec"
  shows "\<exists>rep fs' e fs''. save xxh3 api lib None fs setup cells num_items codec complete = Some (Inr rep, fs') \<and>
    load_raw xxh3 api lib plib (fs_path fs') codec =
      Inr \<lparr> raw_cells = cells, raw_setup = setup, raw_num_items = num_items,
            raw_complete = complete, raw_digest = report_digest rep \<rparr> \<and>
    report_bytes rep = 50 + setup_encoded_len setup + 4 * length cells \<and>
    save xxh3 api lib (Some k) fs setup cells num_items codec complete = Some (Inl e, fs'') \<and>
    fs_path fs'' = fs_path fs"
proof -
  have ad: "arity_doc (ca_arity api)" using assms by (simp add: state_ok_def)
  have H: "length (header_content lib setup (length cells) num_items codec complete) = 42 + setup_encoded_len setup"
    using assms by (intro length_header_content) (simp_all add: state_ok_def)
  let ?covered = "header_content lib setup (length cells) num_items codec complete @ cells_bytes cells"
  have "load_raw xxh3 api lib plib (Some (?covered @ u64_le (xxh3 ?covered))) codec =
      Inr \<lparr> raw_cells = cells, raw_setup = setup, raw_num_items = num_items,
            raw_complete = complete, raw_digest = xxh3 ?covered \<rparr>"
    unfolding load_raw_def option.case by (rule parse_saved[OF assms refl])
  then show ?thesis
    by (simp add: save_def save_content_eq[OF ad] Let_def H)
qed

lemma state_file_roundtrip_witness:
  "\<exists>rep fs'. save toy_hash toy_api toy_simple_lib None \<lparr> fs_path = None, fs_tmp = None \<rparr> toy_state_bundle
      [1, 2, 3, 4, 5, 6, 7, 511] 3 example_codec True = Some (Inr rep, fs') \<and>
    load_raw toy_hash toy_api toy_simple_lib example_lib (fs_path fs') example_codec =
      Inr \<lparr> raw_cells = [1, 2, 3, 4, 5, 6, 7, 511], raw_setup = toy_state_bundle, raw_num_items = 3,
            raw_complete = True, raw_digest = report_digest rep \<rparr>"
  using state_file_roundtrip[of toy_api toy_simple_lib example_lib toy_state_bundle "[1, 2, 3, 4, 5, 6, 7, 511]"
      example_codec toy_hash "\<lparr> fs_path = None, fs_tmp = None \<rparr>" 3 True 0] toy_state_ok8
  by blast

text \<open>C29. A state file is only ever accepted if it is, byte for byte, a covered part followed by
  the eight bytes of the covered part's hash, and the digest reported is that hash.  The covered
  part is the current magic, the completeness flag, the widths of the deployed value codec, the
  item count, the length of the setup section and the section, the length of the cell array and
  the cells; the section decodes to the bundle that is loaded, whose arity and geometry are the
  compiled ones, and there are as many cells as the geometry gives.\<close>

theorem accepted_state_file_is_hashed:
  assumes "parse_raw xxh3 api lib plib bs total_len codec = Inr raw"
  shows "\<exists>setup_section covered.
    covered = state_magic @ [if raw_complete raw then 1 else 0] @
      u32_le (key_tag_bits codec) @ u32_le (balance_bits codec) @ u32_le (checksum_bits codec) @
      u64_le (raw_num_items raw) @ u64_le (of_nat (length setup_section)) @ setup_section @
      u64_le (of_nat (length (raw_cells raw))) @ cells_bytes (raw_cells raw) \<and>
    bs = covered @ u64_le (xxh3 covered) \<and> raw_digest raw = xxh3 covered \<and>
    decode_setup lib setup_section = Inr (raw_setup raw) \<and> length setup_section \<le> total_len \<and>
    ca_arity api (wb_params (raw_setup raw)) = store_arity \<and>
    check_geometry_lineage plib (wb_params (raw_setup raw)) codec = Inr () \<and>
    length (raw_cells raw) = expected_cells api (wb_params (raw_setup raw))"
  using parse_raw_exact[OF assms] unfolding covered_content_def by blast

lemma accepted_state_file_is_hashed_witness:
  "\<exists>raw setup_section. parse_raw toy_hash toy_api toy_simple_lib example_lib
      (toy_covered @ u64_le (toy_hash toy_covered)) (length (toy_covered @ u64_le (toy_hash toy_covered)))
      example_codec = Inr raw \<and>
    raw_cells raw = [1, 2, 3, 4, 5, 6, 7, 511] \<and> raw_digest raw = toy_hash toy_covered \<and>
    decode_setup toy_simple_lib setup_section = Inr (raw_setup raw) \<and>
    toy_covered = covered_content example_codec setup_section raw"
proof -
  have p: "parse_raw toy_hash toy_api toy_simple_lib example_lib
      (toy_covered @ u64_le (toy_hash toy_covered)) (length (toy_covered @ u64_le (toy_hash toy_covered))) example_codec =
    Inr \<lparr> raw_cells = [1, 2, 3, 4, 5, 6, 7, 511], raw_setup = toy_state_bundle, raw_num_items = 3,
      raw_complete = True, raw_digest = toy_hash toy_covered \<rparr>" (is "_ = Inr ?raw")
    by (rule parse_saved[OF toy_state_ok8]) (simp add: toy_covered_def numeral_eq_Suc)
  from accepted_state_file_is_hashed[OF p, folded covered_content_def] obtain sect where
    d: "decode_setup toy_simple_lib sect = Inr (raw_setup ?raw)"
    and "toy_covered @ u64_le (toy_hash toy_covered) =
      covered_content example_codec sect ?raw @ u64_le (toy_hash (covered_content example_codec sect ?raw))"
    by blast
  then have "toy_covered = covered_content example_codec sect ?raw"
    by (metis append_eq_append_conv length_to_le)
  moreover have "raw_cells ?raw = [1, 2, 3, 4, 5, 6, 7, 511]" and "raw_digest ?raw = toy_hash toy_covered"
    by (rule raw_state.select_convs)+
  ultimately show ?thesis using p d by blast
qed

end
