(* ===== verification/Restore.thy ===== *)
theory Restore
  imports State_File Journal Server Client
begin

text \<open>
  Model of the restart path of \<open>crates/risepir-rpc/src/state.rs\<close>:
  \<open>load_with_journal_restore\<close> with \<open>apply_delta_in_place\<close> and \<open>assemble\<close>.  The base
  file is loaded raw (theory \<open>State_File\<close>), the journal beside it is scanned (theory
  \<open>Journal\<close>), every record is applied to the flat cell array and to the hints, and the
  server is assembled from the result.

  \<open>cp_of\<close> gives the external functions of \<open>CuckooParams\<close>, \<open>from_cells\<close> is the external
  store constructor.  \<open>None\<close> is a panic.  A failed replay discards the half-edited arrays,
  so an error carries no state.  The elapsed time and the log lines are left out.
\<close>

section \<open>Applying a delta to the flat cells\<close>

datatype apply_failure =
    SegmentOutOfBounds nat
  | OffsetPastRow nat u32 u16
  | CellOutOfBounds nat nat
  | CellBoundViolated nat u32 u32 i64

fun apply_cell_edits ::
    "cuckoo_params \<Rightarrow> nat \<Rightarrow> nat \<Rightarrow> u32 \<Rightarrow> cell_edits \<Rightarrow> u32 list \<Rightarrow> apply_failure + u32 list" where
  "apply_cell_edits p j start row [] cells = Inr cells"
| "apply_cell_edits p j start row ((offset, cell_delta) # es) cells =
     (if ucast offset \<ge> row_width_of p then Inl (OffsetPastRow j row offset)
      else
        let idx = unat row * unat (row_width_of p) + unat offset in
        if idx \<ge> seg_cells_of p then Inl (CellOutOfBounds j idx)
        else
          let cell = cells ! (start + idx);
              updated = (ucast cell :: i64) + cell_delta;
              modulus = push_bit (unat (cp_plaintext_bits p) mod 64) (1 :: i64) in
          if sint updated < 0 \<or> sint updated \<ge> sint modulus
          then Inl (CellBoundViolated j row cell cell_delta)
          else apply_cell_edits p j start row es (cells[start + idx := ucast updated]))"

fun apply_row_edits ::
    "cuckoo_params \<Rightarrow> nat \<Rightarrow> nat \<Rightarrow> segment_row_deltas \<Rightarrow> u32 list \<Rightarrow> apply_failure + u32 list" where
  "apply_row_edits p j start [] cells = Inr cells"
| "apply_row_edits p j start ((row, edits) # rs) cells =
     and_then (apply_cell_edits p j start row edits cells) (apply_row_edits p j start rs)"

fun apply_segment_edits ::
    "cuckoo_params \<Rightarrow> nat \<Rightarrow> segment_row_deltas list \<Rightarrow> u32 list \<Rightarrow> apply_failure + u32 list" where
  "apply_segment_edits p j [] cells = Inr cells"
| "apply_segment_edits p j (seg_deltas # segs) cells =
     (if seg_deltas = [] then apply_segment_edits p (Suc j) segs cells
      else
        let start = j * seg_cells_of p in
        if start + seg_cells_of p > length cells then Inl (SegmentOutOfBounds j)
        else and_then (apply_row_edits p j start seg_deltas cells) (apply_segment_edits p (Suc j) segs))"

definition apply_delta_in_place :: "u32 list \<Rightarrow> cuckoo_params \<Rightarrow> block_delta \<Rightarrow> apply_failure + u32 list" where
  "apply_delta_in_place cells p delta = apply_segment_edits p 0 (per_segment delta) cells"

section \<open>Restoring\<close>

datatype restore_error = RestoreState state_error | ApplyFailure apply_failure

record ('s, 'cfg, 'p, 'mat) restored =
  rs_server :: "('s, 'cfg, 'p simple_server_params, 'mat, u32 list) rise_server"
  rs_complete :: bool
  rs_digest :: u64
  rs_replayed :: u64
  rs_base_block :: u64
  rs_tail_deltas :: "block_delta list"
  rs_adopt_at :: "(nat \<times> u64) option"
  rs_scan_stop :: "scan_stop option"

text \<open>The external parts: the store's constructor and \<open>CuckooParams\<close>.\<close>

record 's store_api =
  sa_api :: cuckoo_api
  sa_cp_of :: "cuckoo_fields \<Rightarrow> cuckoo_params"
  sa_from_cells :: "u32 list \<Rightarrow> cuckoo_fields \<Rightarrow> u64 \<Rightarrow> string + 's"

type_synonym ('cfg, 'p, 'mat) simple_backend = "('cfg, 'p simple_server_params, 'mat, u32 list) server_backend"

definition assemble :: "'s store_api \<Rightarrow> 's store_ops \<Rightarrow> ('cfg, 'p, 'mat) simple_backend \<Rightarrow> 'p raw_state \<Rightarrow> 'cfg
    \<Rightarrow> value_codec \<Rightarrow> (state_error + ('s, 'cfg, 'p simple_server_params, 'mat, u32 list) rise_server) option" where
  "assemble sa so be raw config codec =
     (let setup = raw_setup raw in
      case sa_from_cells sa (raw_cells raw) (wb_params setup) (raw_num_items raw) of
        Inl e \<Rightarrow> Some (Inl (StateCorrupt (StoreReconstruction e)))
      | Inr store \<Rightarrow>
          map_option Inr (server_from_parts so be (sa_cp_of sa (wb_params setup)) store config codec
            (wb_backend_params setup) (wb_hints setup) (wb_block setup)))"

text \<open>The journal that is replayed: present, its header intact, and naming this base.\<close>

definition open_for_base ::
    "(bytes \<Rightarrow> u64) \<Rightarrow> cuckoo_api \<Rightarrow> 'p raw_state \<Rightarrow> bytes option \<Rightarrow> journal_reader option" where
  "open_for_base xxh3 api raw journal =
     Option.bind journal (\<lambda>f.
       case journal_open xxh3 f (length f) (cf_plaintext_bits (wb_params (raw_setup raw)))
              (of_nat (ca_arity api (wb_params (raw_setup raw)))) of
         Inl _ \<Rightarrow> None
       | Inr (header, reader) \<Rightarrow>
           if jh_base_digest header \<noteq> raw_digest raw then None
           else if jh_base_block header \<noteq> wb_block (raw_setup raw) then None
           else Some reader)"

fun push_tail :: "nat \<Rightarrow> block_delta list \<Rightarrow> block_delta \<Rightarrow> block_delta list" where
  "push_tail cap tail d = drop (length tail + 1 - cap) (tail @ [d])"

text \<open>The replay loop over the scanned records.\<close>

fun replay :: "'s store_api \<Rightarrow> ('cfg, 'p, 'mat) simple_backend \<Rightarrow> 'mat list \<Rightarrow> nat \<Rightarrow> scan_record list
    \<Rightarrow> 'p raw_state \<times> u64 \<times> block_delta list \<Rightarrow> (restore_error + ('p raw_state \<times> u64 \<times> block_delta list)) option" where
  "replay sa be material cap [] st = Some (Inr st)"
| "replay sa be material cap (rec # recs) (raw, replayed, tail) =
     (case apply_delta_in_place (raw_cells raw) (sa_cp_of sa (wb_params (raw_setup raw))) (sr_delta rec) of
        Inl e \<Rightarrow> Some (Inl (ApplyFailure e))
      | Inr cells \<Rightarrow>
          Option.bind (patch_hints be (wb_backend_params (raw_setup raw)) material 0
            (per_segment (sr_delta rec)) (wb_hints (raw_setup raw))) (\<lambda>hints.
          replay sa be material cap recs
            (raw\<lparr> raw_cells := cells, raw_num_items := sr_num_items_after rec,
                 raw_setup := (raw_setup raw)\<lparr> wb_hints := hints, wb_block := delta_block (sr_delta rec) \<rparr> \<rparr>,
             replayed + 1, push_tail cap tail (sr_delta rec))))"

definition load_with_journal_restore ::
    "(bytes \<Rightarrow> u64) \<Rightarrow> 's store_api \<Rightarrow> 's store_ops \<Rightarrow> ('cfg, 'p, 'mat) simple_backend \<Rightarrow> 'p simple_lib \<Rightarrow> pir_lib
     \<Rightarrow> bytes option \<Rightarrow> bytes option \<Rightarrow> 'cfg \<Rightarrow> value_codec \<Rightarrow> nat
     \<Rightarrow> (restore_error + ('s, 'cfg, 'p, 'mat) restored) option" where
  "load_with_journal_restore xxh3 sa so be lib plib file journal config codec ring_capacity =
     (case load_raw xxh3 (sa_api sa) lib plib file codec of
        Inl e \<Rightarrow> Some (Inl (RestoreState e))
      | Inr raw \<Rightarrow>
          let base_block = wb_block (raw_setup raw) in
          (case open_for_base xxh3 (sa_api sa) raw journal of
             None \<Rightarrow>
               map_option (\<lambda>r. and_then (map_err RestoreState r) (\<lambda>server.
                 Inr \<lparr> rs_server = server, rs_complete = raw_complete raw, rs_digest = raw_digest raw,
                      rs_replayed = 0, rs_base_block = base_block, rs_tail_deltas = [],
                      rs_adopt_at = None, rs_scan_stop = None \<rparr>)) (assemble sa so be raw config codec)
           | Some reader \<Rightarrow>
               (case scan_all xxh3 reader of (recs, reader) \<Rightarrow>
                Option.bind (replay sa be (map (sb_expand_material be) (wb_backend_params (raw_setup raw)))
                    ring_capacity recs (raw, 0, [])) (\<lambda>res.
                case res of
                  Inl e \<Rightarrow> Some (Inl e)
                | Inr (raw', replayed, tail) \<Rightarrow>
                    map_option (\<lambda>r. and_then (map_err RestoreState r) (\<lambda>server.
                      Inr \<lparr> rs_server = server, rs_complete = raw_complete raw', rs_digest = raw_digest raw',
                           rs_replayed = replayed, rs_base_block = base_block, rs_tail_deltas = tail,
                           rs_adopt_at = Some (valid_end_offset reader, last_valid_height reader),
                           rs_scan_stop = jr_stop reader \<rparr>)) (assemble sa so be raw' config codec)))))"

section \<open>Applying in place is adding the delta\<close>

definition cell_pos :: "cuckoo_params \<Rightarrow> nat \<Rightarrow> u32 \<Rightarrow> u16 \<Rightarrow> nat" where
  "cell_pos p j row off = j * seg_cells_of p + unat row * unat (row_width_of p) + unat off"

definition in_seg :: "cuckoo_params \<Rightarrow> u32 \<Rightarrow> u16 \<Rightarrow> bool" where
  "in_seg p row off \<longleftrightarrow> unat row < unat (cp_segment_size p) \<and> unat off < unat (row_width_of p)"

lemma db_view_at:
  "in_seg p row off \<Longrightarrow> cell_pos p j row off < length cells \<Longrightarrow> db_view p cells j row off = cells ! cell_pos p j row off"
  by (simp add: db_view_def in_seg_def cell_pos_def Let_def)

lemma db_view_outside: "\<not> in_seg p row off \<Longrightarrow> db_view p cells j row off = 0"
  by (auto simp: db_view_def in_seg_def Let_def)

lemma place_inj:
  fixes w n :: nat
  assumes "o1 < w" "o2 < w" "r1 < n" "r2 < n" and "j1 * (n * w) + r1 * w + o1 = j2 * (n * w) + r2 * w + o2"
  shows "j1 = j2 \<and> r1 = r2 \<and> o1 = o2"
proof -
  have lt: "r * w + c < n * w" if "r < n" "c < w" for r c :: nat
  proof -
    have "r * w + c < Suc r * w" using that by simp
    also have "\<dots> \<le> n * w" using that by (intro mult_le_mono1) simp
    finally show ?thesis .
  qed
  have a: "(j * (n * w) + (r * w + c)) div (n * w) = j \<and> (j * (n * w) + (r * w + c)) mod (n * w) = r * w + c"
    if "r < n" "c < w" for j r c :: nat
  proof -
    have "n * w \<noteq> 0" using lt[OF that] by linarith
    then have "(r * w + c + j * (n * w)) div (n * w) = j + (r * w + c) div (n * w)"
      "(r * w + c + j * (n * w)) mod (n * w) = (r * w + c) mod (n * w)"
      by (simp_all only: div_mult_self1[of "n * w" "r * w + c" j] mod_mult_self1 not_False_eq_True)
    then show ?thesis using lt[OF that] by (simp add: add.commute)
  qed
  have j: "j1 = j2" "r1 * w + o1 = r2 * w + o2"
    using a[of r1 o1 j1] a[of r2 o2 j2] assms unfolding add.assoc by metis+
  have "(r * w + c) div w = r \<and> (r * w + c) mod w = c" if "c < w" for r c :: nat using that by simp
  then show ?thesis using j assms(1,2) by metis
qed

lemma cell_pos_inj:
  assumes "in_seg p r1 o1" "in_seg p r2 o2" "cell_pos p j1 r1 o1 = cell_pos p j2 r2 o2"
  shows "j1 = j2 \<and> r1 = r2 \<and> o1 = o2"
  using place_inj[of "unat o1" "unat (row_width_of p)" "unat o2" "unat r1" "unat (cp_segment_size p)" "unat r2" j1 j2]
    assms by (simp add: in_seg_def cell_pos_def seg_cells_of_def word_unat_eq_iff)

lemma cell_pos_in_segment:
  assumes "in_seg p row off"
  shows "unat row * unat (row_width_of p) + unat off < seg_cells_of p"
proof -
  have "unat row * unat (row_width_of p) + unat off < Suc (unat row) * unat (row_width_of p)"
    using assms by (simp add: in_seg_def)
  also have "\<dots> \<le> seg_cells_of p"
    unfolding seg_cells_of_def using assms by (intro mult_le_mono1) (simp add: in_seg_def)
  finally show ?thesis .
qed

lemma db_view_update:
  assumes "in_seg p row off" and "cell_pos p j row off < length cells"
  shows "db_view p (cells[cell_pos p j row off := v]) j' r c =
    (if j' = j \<and> r = row \<and> c = off then v else db_view p cells j' r c)"
proof (cases "in_seg p r c \<and> cell_pos p j' r c < length cells")
  case True
  then show ?thesis
    using assms cell_pos_inj[of p r c row off j' j] by (auto simp: db_view_at nth_list_update)
next
  case False
  then have "db_view p cells' j' r c = 0" if "length cells' = length cells" for cells'
    using that by (auto simp: db_view_def in_seg_def cell_pos_def Let_def)
  then show ?thesis using False assms by auto
qed

text \<open>Where an effect is not zero, it is inside the segment and the sum stays within the
  modulus.\<close>

definition applies :: "cuckoo_params \<Rightarrow> u32 list \<Rightarrow> nat \<Rightarrow> (u32 \<Rightarrow> u16 \<Rightarrow> int) \<Rightarrow> bool" where
  "applies p cells j e \<longleftrightarrow>
     (\<forall>row off. e row off \<noteq> 0 \<longrightarrow> in_seg p row off \<and>
        0 \<le> uint (db_view p cells j row off) + e row off \<and>
        uint (db_view p cells j row off) + e row off < 2 ^ unat (cp_plaintext_bits p))"

lemma uint_add_of_int: "uint ((c :: u32) + of_int k) = (uint c + k) mod 2 ^ 32"
  by (simp add: uint_word_ariths uint_word_of_int mod_simps)

lemma apply_cell_edits_spec:
  assumes pb: "cp_plaintext_bits p \<le> 31" and "bt_invar es" and "\<forall>(_, d) \<in> set es. d \<noteq> 0"
    and "j * seg_cells_of p + seg_cells_of p \<le> length cells"
    and "applies p cells j (\<lambda>r c. if r = row then cells_effect es c else 0)"
  shows "\<exists>cells'. apply_cell_edits p j (j * seg_cells_of p) row es cells = Inr cells' \<and>
    length cells' = length cells \<and>
    (\<forall>j' r c. uint (db_view p cells' j' r c) =
       uint (db_view p cells j' r c) + (if j' = j \<and> r = row then cells_effect es c else 0))"
  using assms(2-)
proof (induction es arbitrary: cells)
  case Nil
  then show ?case by simp
next
  case (Cons e es)
  obtain off d where e: "e = (off, d)" by (cases e)
  have absent: "cells_effect es off = 0" and inv: "bt_invar es" and d0: "d \<noteq> 0"
    using Cons.prems(1,2) by (auto simp: e bt_invar_Cons intro: cells_effect_absent)
  then have eff: "cells_effect (e # es) off = sint d" by (simp add: e)
  have "sint d \<noteq> 0" using d0 by (simp add: signed_eq_0_iff)
  then have at: "in_seg p row off" "0 \<le> uint (db_view p cells j row off) + sint d"
      "uint (db_view p cells j row off) + sint d < 2 ^ unat (cp_plaintext_bits p)"
    using Cons.prems(4)[unfolded applies_def, rule_format, of row off] by (simp_all add: eff)
  note seg = at(1)
  let ?pos = "cell_pos p j row off" and ?idx = "unat row * unat (row_width_of p) + unat off"
  have pos: "j * seg_cells_of p + ?idx = ?pos" by (simp add: cell_pos_def)
  have lt: "?pos < length cells"
    using cell_pos_in_segment[OF seg] Cons.prems(3) by (simp add: pos[symmetric])
  have v: "db_view p cells j row off = cells ! ?pos" by (rule db_view_at[OF seg lt])
  have rng: "0 \<le> uint (cells ! ?pos) + sint d" "uint (cells ! ?pos) + sint d < 2 ^ unat (cp_plaintext_bits p)"
    using at(2,3) by (simp_all only: v)
  have pbn: "unat (cp_plaintext_bits p) \<le> 31" using pb by (simp add: word_le_nat_alt)
  have "(2 :: int) ^ unat (cp_plaintext_bits p) \<le> 2 ^ 31" using pbn by (intro power_increasing) simp_all
  with rng(2) have r31: "uint (cells ! ?pos) + sint d < 2 ^ 31" by linarith
  have up: "sint ((ucast (cells ! ?pos) :: i64) + d) = uint (cells ! ?pos) + sint d"
    by (rule sint_corrected[OF rng(1)]) (use r31 in simp)
  have md: "sint ((2 :: i64) ^ (unat (cp_plaintext_bits p) mod 64)) = 2 ^ unat (cp_plaintext_bits p)"
    using sint_bound[of "unat (cp_plaintext_bits p)"] pbn by (simp add: push_bit_of_1)
  let ?new = "ucast ((ucast (cells ! ?pos) :: i64) + d) :: u32"
  have "uint ?new = (uint (cells ! ?pos) + sint d) mod 2 ^ 32"
    unfolding corrected_cell by (rule uint_add_of_int)
  also have "\<dots> = uint (cells ! ?pos) + sint d" using rng(1) r31 by (simp add: mod_pos_pos_trivial)
  finally have new: "uint ?new = uint (cells ! ?pos) + sint d" .
  have w: "\<not> row_width_of p \<le> ucast off"
    using seg by (simp add: in_seg_def word_le_nat_alt unat_ucast_up)
  have step: "apply_cell_edits p j (j * seg_cells_of p) row (e # es) cells =
      apply_cell_edits p j (j * seg_cells_of p) row es (cells[?pos := ?new])"
    using w cell_pos_in_segment[OF seg, folded not_le] rng[folded not_less] rng(2)[folded not_le]
    by (simp only: e apply_cell_edits.simps Let_def pos up push_bit_of_1 md if_False simp_thms)
  have view: "uint (db_view p (cells[?pos := ?new]) j' r c) =
      uint (db_view p cells j' r c) + (if j' = j \<and> r = row \<and> c = off then sint d else 0)" for j' r c
    unfolding db_view_update[OF seg lt] using new v by auto
  have "applies p (cells[?pos := ?new]) j (\<lambda>r c. if r = row then cells_effect es c else 0)"
  proof -
    have "in_seg p r c \<and> 0 \<le> uint (db_view p (cells[?pos := ?new]) j r c) + e' \<and>
        uint (db_view p (cells[?pos := ?new]) j r c) + e' < 2 ^ unat (cp_plaintext_bits p)"
      if "e' = (if r = row then cells_effect es c else 0)" "e' \<noteq> 0" for r c e'
    proof -
      have r: "r = row" and c: "c \<noteq> off" using that absent by (auto split: if_splits)
      then have e': "e' = cells_effect (e # es) c" using that by (simp add: e)
      then show ?thesis
        using Cons.prems(4)[unfolded applies_def, rule_format, of r c] r c that(2) unfolding view by simp
    qed
    then show ?thesis unfolding applies_def by blast
  qed
  from Cons.IH[OF inv _ _ this] Cons.prems(2,3) obtain cells' where
    c': "apply_cell_edits p j (j * seg_cells_of p) row es (cells[?pos := ?new]) = Inr cells'"
    "length cells' = length cells"
    "\<forall>j' r c. uint (db_view p cells' j' r c) = uint (db_view p (cells[?pos := ?new]) j' r c) +
       (if j' = j \<and> r = row then cells_effect es c else 0)"
    by auto
  show ?case
    unfolding step using c' unfolding view by (intro exI[of _ cells']) (auto simp: e)
qed

lemma apply_row_edits_spec:
  assumes pb: "cp_plaintext_bits p \<le> 31" and "canonical_rows rs"
    and "j * seg_cells_of p + seg_cells_of p \<le> length cells" and "applies p cells j (rows_effect rs)"
  shows "\<exists>cells'. apply_row_edits p j (j * seg_cells_of p) rs cells = Inr cells' \<and> length cells' = length cells \<and>
    (\<forall>j' r c. uint (db_view p cells' j' r c) =
       uint (db_view p cells j' r c) + (if j' = j then rows_effect rs r c else 0))"
  using assms(2-)
proof (induction rs arbitrary: cells)
  case Nil
  then show ?case by simp
next
  case (Cons rc rs)
  obtain row es where rc: "rc = (row, es)" by (cases rc)
  have es: "bt_invar es" "\<forall>(_, d) \<in> set es. d \<noteq> 0" and rs: "canonical_rows rs"
    and absent: "rows_effect rs row c = 0" for c
    using Cons.prems(1) by (auto simp: rc canonical_rows_def bt_invar_Cons intro!: rows_effect_absent)
  have split: "rows_effect (rc # rs) r c = (if r = row then cells_effect es c else rows_effect rs r c)" for r c
    using absent by (auto simp: rc)
  have "applies p cells j (\<lambda>r c. if r = row then cells_effect es c else 0)"
    unfolding applies_def
  proof (intro allI impI)
    fix r c assume "(if r = row then cells_effect es c else 0) \<noteq> 0"
    then have "r = row" "rows_effect (rc # rs) r c = cells_effect es c" "cells_effect es c \<noteq> 0"
      by (auto simp: split split: if_splits)
    then show "in_seg p r c \<and> 0 \<le> uint (db_view p cells j r c) + (if r = row then cells_effect es c else 0) \<and>
        uint (db_view p cells j r c) + (if r = row then cells_effect es c else 0) < 2 ^ unat (cp_plaintext_bits p)"
      using Cons.prems(3)[unfolded applies_def, rule_format, of r c] by simp
  qed
  from apply_cell_edits_spec[OF pb es Cons.prems(2) this] obtain cells1 where
    c1: "apply_cell_edits p j (j * seg_cells_of p) row es cells = Inr cells1" "length cells1 = length cells"
    and v1: "\<And>j' r c. uint (db_view p cells1 j' r c) =
       uint (db_view p cells j' r c) + (if j' = j \<and> r = row then cells_effect es c else 0)" by blast
  have "applies p cells1 j (rows_effect rs)"
    unfolding applies_def
  proof (intro allI impI)
    fix r c assume ne: "rows_effect rs r c \<noteq> 0"
    then have "r \<noteq> row" using absent by auto
    then show "in_seg p r c \<and> 0 \<le> uint (db_view p cells1 j r c) + rows_effect rs r c \<and>
        uint (db_view p cells1 j r c) + rows_effect rs r c < 2 ^ unat (cp_plaintext_bits p)"
      using Cons.prems(3)[unfolded applies_def, rule_format, of r c] ne unfolding v1 split by simp
  qed
  from Cons.IH[OF rs _ this] Cons.prems(2) c1(2) obtain cells' where
    c': "apply_row_edits p j (j * seg_cells_of p) rs cells1 = Inr cells'" "length cells' = length cells"
    and v': "\<And>j' r c. uint (db_view p cells' j' r c) =
       uint (db_view p cells1 j' r c) + (if j' = j then rows_effect rs r c else 0)" by auto
  have "uint (db_view p cells' j' r c) =
      uint (db_view p cells j' r c) + (if j' = j then rows_effect (rc # rs) r c else 0)" for j' r c
    unfolding v' v1 split using absent by auto
  then show ?case using c1(1) c' by (simp add: rc)
qed

lemma apply_segment_edits_spec:
  assumes pb: "cp_plaintext_bits p \<le> 31" and "\<forall>rs \<in> set segs. canonical_rows rs"
    and "(j + length segs) * seg_cells_of p \<le> length cells"
    and "\<forall>i < length segs. applies p cells (j + i) (rows_effect (segs ! i))"
  shows "\<exists>cells'. apply_segment_edits p j segs cells = Inr cells' \<and> length cells' = length cells \<and>
    (\<forall>j' r c. uint (db_view p cells' j' r c) = uint (db_view p cells j' r c) +
       (if j \<le> j' \<and> j' < j + length segs then rows_effect (segs ! (j' - j)) r c else 0))"
  using assms(2-)
proof (induction segs arbitrary: j cells)
  case Nil
  then show ?case by auto
next
  case (Cons rs segs)
  have a: "applies p cells j (rows_effect rs)" using Cons.prems(3) by force
  have fit: "j * seg_cells_of p + seg_cells_of p \<le> length cells"
  proof -
    have "j * seg_cells_of p + seg_cells_of p = (j + 1) * seg_cells_of p" by simp
    also have "\<dots> \<le> (j + length (rs # segs)) * seg_cells_of p" by (intro mult_le_mono1) simp
    finally show ?thesis using Cons.prems(2) by linarith
  qed
  have "canonical_rows rs" using Cons.prems(1) by simp
  from apply_row_edits_spec[OF pb this fit a] obtain cells1 where
    c1: "apply_row_edits p j (j * seg_cells_of p) rs cells = Inr cells1" "length cells1 = length cells"
    and v1: "\<And>j' r c. uint (db_view p cells1 j' r c) =
       uint (db_view p cells j' r c) + (if j' = j then rows_effect rs r c else 0)" by blast
  have first: "apply_segment_edits p j (rs # segs) cells = apply_segment_edits p (Suc j) segs cells1"
  proof (cases "rs = []")
    case True
    with c1 show ?thesis by simp
  next
    case False
    with fit c1(1) show ?thesis by (simp add: Let_def)
  qed
  have "\<forall>i < length segs. applies p cells1 (Suc j + i) (rows_effect (segs ! i))"
  proof (intro allI impI)
    fix i assume i: "i < length segs"
    then have "applies p cells (j + Suc i) (rows_effect ((rs # segs) ! Suc i))"
      using Cons.prems(3) by (metis Suc_less_eq length_Cons)
    then show "applies p cells1 (Suc j + i) (rows_effect (segs ! i))"
      unfolding applies_def v1 by simp
  qed
  with Cons.IH[of "Suc j" cells1] Cons.prems c1(2) obtain cells' where
    c': "apply_segment_edits p (Suc j) segs cells1 = Inr cells'" "length cells' = length cells"
    and v': "\<And>j' r c. uint (db_view p cells' j' r c) = uint (db_view p cells1 j' r c) +
       (if Suc j \<le> j' \<and> j' < Suc j + length segs then rows_effect (segs ! (j' - Suc j)) r c else 0)" by auto
  have idx: "(rs # segs) ! (j' - j) = segs ! (j' - Suc j)" if "Suc j \<le> j'" for j'
    using that by (simp add: nth_Cons')
  have "uint (db_view p cells' j' r c) = uint (db_view p cells j' r c) +
       (if j \<le> j' \<and> j' < j + length (rs # segs) then rows_effect ((rs # segs) ! (j' - j)) r c else 0)" for j' r c
    unfolding v' v1 by (cases "j' = j") (auto simp: idx)
  then show ?case unfolding first using c' by blast
qed

lemma apply_delta_in_place_spec:
  assumes "cp_plaintext_bits p \<le> 31" and "canonical_delta d"
    and "length (per_segment d) * seg_cells_of p \<le> length cells"
    and "\<forall>j < length (per_segment d). applies p cells j (delta_effect d j)"
  shows "\<exists>cells'. apply_delta_in_place cells p d = Inr cells' \<and> length cells' = length cells \<and>
    (\<forall>j r c. uint (db_view p cells' j r c) = uint (db_view p cells j r c) + delta_effect d j r c)"
proof -
  have "\<forall>i < length (per_segment d). applies p cells (0 + i) (rows_effect (per_segment d ! i))"
    using assms(4) by (auto simp: delta_effect_def[abs_def])
  from apply_segment_edits_spec[OF assms(1) _ _ this] assms(2,3) show ?thesis
    by (auto simp: apply_delta_in_place_def canonical_delta_def delta_effect_def)
qed

section \<open>Replaying a run of blocks\<close>

abbreviation raw_params :: "'s store_api \<Rightarrow> 'p raw_state \<Rightarrow> cuckoo_params" where
  "raw_params sa raw \<equiv> sa_cp_of sa (wb_params (raw_setup raw))"

text \<open>Every hint of a raw state is the hint of its cells.\<close>

definition raw_current :: "'s store_api \<Rightarrow> ('cfg, 'p, 'mat) simple_backend
    \<Rightarrow> ('p simple_server_params \<Rightarrow> 'mat \<Rightarrow> u32 list \<Rightarrow> (u32 \<Rightarrow> u16 \<Rightarrow> u32) \<Rightarrow> bool) \<Rightarrow> 'p raw_state \<Rightarrow> bool" where
  "raw_current sa be reps raw \<longleftrightarrow>
     length (wb_backend_params (raw_setup raw)) = cp_arity (raw_params sa raw) \<and>
     length (wb_hints (raw_setup raw)) = cp_arity (raw_params sa raw) \<and>
     (\<forall>j < cp_arity (raw_params sa raw).
        reps (wb_backend_params (raw_setup raw) ! j) (sb_expand_material be (wb_backend_params (raw_setup raw) ! j))
          (wb_hints (raw_setup raw) ! j) (db_view (raw_params sa raw) (raw_cells raw) j))"

text \<open>The deltas can be applied one after another: each is canonical, has one list per
  segment, and keeps every cell it edits inside the segment and below the modulus.\<close>

fun replayable :: "cuckoo_params \<Rightarrow> (nat \<Rightarrow> u32 \<Rightarrow> u16 \<Rightarrow> int) \<Rightarrow> block_delta list \<Rightarrow> bool" where
  "replayable p v [] = True"
| "replayable p v (d # ds) =
     (canonical_delta d \<and> length (per_segment d) = cp_arity p \<and>
      (\<forall>j row off. delta_effect d j row off \<noteq> 0 \<longrightarrow> in_seg p row off \<and>
         0 \<le> v j row off + delta_effect d j row off \<and>
         v j row off + delta_effect d j row off < 2 ^ unat (cp_plaintext_bits p)) \<and>
      replayable p (\<lambda>j row off. v j row off + delta_effect d j row off) ds)"

definition last_items :: "u64 \<Rightarrow> (block_delta \<times> u64) list \<Rightarrow> u64" where
  "last_items n es = (if es = [] then n else snd (last es))"

definition last_block :: "u64 \<Rightarrow> (block_delta \<times> u64) list \<Rightarrow> u64" where
  "last_block b es = (if es = [] then b else delta_block (fst (last es)))"

lemma push_tail_last_n: "push_tail n (last_n n xs) d = last_n n (xs @ [d])"
  by (cases "n \<le> length xs") (auto simp: last_n_def Suc_diff_le)

lemma replay_spec:
  assumes pb: "cp_plaintext_bits (raw_params sa raw) \<le> 31"
    and patch: "\<forall>sp mat h db rs. reps sp mat h db \<and> canonical_rows rs \<longrightarrow>
        reps sp mat (sb_patch_hint be sp mat h rs) (add_view db rs)"
    and mats: "mats = map (sb_expand_material be) (wb_backend_params (raw_setup raw))"
    and len: "cp_arity (raw_params sa raw) * seg_cells_of (raw_params sa raw) \<le> length (raw_cells raw)"
    and cur: "raw_current sa be reps raw"
    and ok: "replayable (raw_params sa raw) (\<lambda>j row off. uint (db_view (raw_params sa raw) (raw_cells raw) j row off))
      (map sr_delta recs)"
  shows "\<exists>raw'. replay sa be mats cap recs (raw, c, last_n cap ds0) =
      Some (Inr (raw', c + of_nat (length recs), last_n cap (ds0 @ map sr_delta recs))) \<and>
    raw_params sa raw' = raw_params sa raw \<and> wb_params (raw_setup raw') = wb_params (raw_setup raw) \<and>
    raw_complete raw' = raw_complete raw \<and> raw_digest raw' = raw_digest raw \<and>
    wb_backend_params (raw_setup raw') = wb_backend_params (raw_setup raw) \<and>
    length (raw_cells raw') = length (raw_cells raw) \<and> raw_current sa be reps raw' \<and>
    raw_num_items raw' = last_items (raw_num_items raw) (map entry_of recs) \<and>
    wb_block (raw_setup raw') = last_block (wb_block (raw_setup raw)) (map entry_of recs) \<and>
    (\<forall>j row off. uint (db_view (raw_params sa raw) (raw_cells raw') j row off) =
       uint (db_view (raw_params sa raw) (raw_cells raw) j row off) +
       (\<Sum>d \<leftarrow> map sr_delta recs. delta_effect d j row off))"
  using pb mats len cur ok
proof (induction recs arbitrary: raw c ds0)
  case Nil
  then show ?case by (simp add: last_items_def last_block_def)
next
  case (Cons rec recs)
  let ?p = "raw_params sa raw" and ?d = "sr_delta rec"
  have d: "canonical_delta ?d" "length (per_segment ?d) = cp_arity ?p"
    using Cons.prems(5) by simp_all
  have "\<forall>j < length (per_segment ?d). applies ?p (raw_cells raw) j (delta_effect ?d j)"
    using Cons.prems(5) by (auto simp: applies_def)
  from apply_delta_in_place_spec[OF Cons.prems(1) d(1) _ this] Cons.prems(3) d(2) obtain cells where
    cells: "apply_delta_in_place (raw_cells raw) ?p ?d = Inr cells" "length cells = length (raw_cells raw)"
    and v: "\<And>j r c. uint (db_view ?p cells j r c) = uint (db_view ?p (raw_cells raw) j r c) + delta_effect ?d j r c"
    by auto
  have lens: "length (wb_backend_params (raw_setup raw)) = cp_arity ?p" "length (wb_hints (raw_setup raw)) = cp_arity ?p"
    "length mats = cp_arity ?p"
    using Cons.prems(2,4) by (simp_all add: raw_current_def)
  have "\<forall>rs \<in> set (per_segment ?d). canonical_rows rs" using d(1) by (simp add: canonical_delta_def)
  from patch_hints_reps[OF patch, of 0 "per_segment ?d" "wb_hints (raw_setup raw)"
      "wb_backend_params (raw_setup raw)" mats] this d(2) lens obtain hints where
    h: "patch_hints be (wb_backend_params (raw_setup raw)) mats 0 (per_segment ?d) (wb_hints (raw_setup raw)) = Some hints"
      "length hints = cp_arity ?p"
    and hr: "\<And>j db. j < cp_arity ?p \<Longrightarrow>
        reps (wb_backend_params (raw_setup raw) ! j) (mats ! j) (wb_hints (raw_setup raw) ! j) db \<Longrightarrow>
        reps (wb_backend_params (raw_setup raw) ! j) (mats ! j) (hints ! j) (add_view db (per_segment ?d ! j))"
    by auto
  define raw1 where "raw1 = raw\<lparr> raw_cells := cells, raw_num_items := sr_num_items_after rec,
     raw_setup := (raw_setup raw)\<lparr> wb_hints := hints, wb_block := delta_block ?d \<rparr> \<rparr>"
  have p1: "raw_params sa raw1 = ?p" by (simp add: raw1_def)
  have "add_view (db_view ?p (raw_cells raw) j) (per_segment ?d ! j) = db_view ?p cells j" if "j < cp_arity ?p" for j
    using that d(2) v by (intro add_view_eq) (simp add: delta_effect_def)
  then have cur1: "raw_current sa be reps raw1"
    using Cons.prems(2,4) lens h(2) hr unfolding raw_current_def p1
    by (fastforce simp: raw1_def)
  have ok1: "replayable (raw_params sa raw1)
      (\<lambda>j row off. uint (db_view (raw_params sa raw1) (raw_cells raw1) j row off)) (map sr_delta recs)"
    using Cons.prems(5) unfolding p1 by (simp add: raw1_def v)
  have step: "replay sa be mats cap (rec # recs) (raw, c, last_n cap ds0) =
      replay sa be mats cap recs (raw1, c + 1, last_n cap (ds0 @ [?d]))"
    using cells(1) h(1) by (simp add: raw1_def push_tail_last_n del: push_tail.simps)
  have b1: "raw_complete raw1 = raw_complete raw" "raw_digest raw1 = raw_digest raw"
    "wb_backend_params (raw_setup raw1) = wb_backend_params (raw_setup raw)"
    "wb_params (raw_setup raw1) = wb_params (raw_setup raw)"
    "length (raw_cells raw1) = length (raw_cells raw)" "raw_num_items raw1 = sr_num_items_after rec"
    "wb_block (raw_setup raw1) = delta_block ?d" "raw_cells raw1 = cells"
    by (simp_all add: raw1_def cells(2))
  have lst: "last_items (raw_num_items raw1) (map entry_of recs) = last_items (raw_num_items raw) (map entry_of (rec # recs))"
    "last_block (wb_block (raw_setup raw1)) (map entry_of recs) = last_block (wb_block (raw_setup raw)) (map entry_of (rec # recs))"
    by (simp_all add: last_items_def last_block_def b1 entry_of_def)
  have mats1: "mats = map (sb_expand_material be) (wb_backend_params (raw_setup raw1))" using Cons.prems(2) b1 by simp
  have pr: "cp_plaintext_bits (raw_params sa raw1) \<le> 31"
    "cp_arity (raw_params sa raw1) * seg_cells_of (raw_params sa raw1) \<le> length (raw_cells raw1)"
    unfolding p1 b1(5) by (rule Cons.prems(1), rule Cons.prems(3))
  from Cons.IH[OF pr(1) mats1 pr(2) cur1 ok1, of "c + 1" "ds0 @ [?d]", unfolded p1 lst, unfolded b1(1-5), unfolded b1(8)]
  obtain raw' where r: "replay sa be mats cap recs (raw1, c + 1, last_n cap (ds0 @ [?d])) =
      Some (Inr (raw', c + 1 + of_nat (length recs), last_n cap ((ds0 @ [?d]) @ map sr_delta recs)))"
    and p': "raw_params sa raw' = ?p" and f: "wb_params (raw_setup raw') = wb_params (raw_setup raw)"
    "raw_complete raw' = raw_complete raw" "raw_digest raw' = raw_digest raw"
    "wb_backend_params (raw_setup raw') = wb_backend_params (raw_setup raw)"
    "length (raw_cells raw') = length (raw_cells raw)" "raw_current sa be reps raw'"
    and l: "raw_num_items raw' = last_items (raw_num_items raw) (map entry_of (rec # recs))"
    "wb_block (raw_setup raw') = last_block (wb_block (raw_setup raw)) (map entry_of (rec # recs))"
    and sm: "\<And>j row off. uint (db_view ?p (raw_cells raw') j row off) =
       uint (db_view ?p cells j row off) + (\<Sum>d \<leftarrow> map sr_delta recs. delta_effect d j row off)"
    by blast
  show ?case
  proof (intro exI[of _ raw'] conjI allI)
    show "replay sa be mats cap (rec # recs) (raw, c, last_n cap ds0) =
        Some (Inr (raw', c + of_nat (length (rec # recs)), last_n cap (ds0 @ map sr_delta (rec # recs))))"
      unfolding step r by (simp add: add.assoc)
    show "uint (db_view ?p (raw_cells raw') j row off) = uint (db_view ?p (raw_cells raw) j row off) +
        (\<Sum>d \<leftarrow> map sr_delta (rec # recs). delta_effect d j row off)" for j row off
      unfolding sm v by simp
  qed (use p' f l in simp_all)
qed

lemma server_blocks_prefix:
  assumes "server_blocks xxh so be sv0 ds sv" and "k \<le> length ds"
  shows "\<exists>svk. server_blocks xxh so be sv0 (take k ds) svk"
  using assms
proof (induction rule: server_blocks.induct)
  case blocks_start
  then show ?case by (auto intro!: exI[of _ sv0] server_blocks.blocks_start)
next
  case (blocks_step ds sv u d rep sv')
  then show ?case
    using server_blocks.blocks_step[OF blocks_step.hyps(1,2)] by (cases "k \<le> length ds") (auto simp: le_Suc_eq)
qed

lemma replayable_nth:
  "replayable p v ds \<longleftrightarrow> (\<forall>k < length ds. canonical_delta (ds ! k) \<and> length (per_segment (ds ! k)) = cp_arity p \<and>
     (\<forall>j row off. delta_effect (ds ! k) j row off \<noteq> 0 \<longrightarrow> in_seg p row off \<and>
        0 \<le> v j row off + (\<Sum>d \<leftarrow> take (Suc k) ds. delta_effect d j row off) \<and>
        v j row off + (\<Sum>d \<leftarrow> take (Suc k) ds. delta_effect d j row off) < 2 ^ unat (cp_plaintext_bits p)))"
proof (induction ds arbitrary: v)
  case (Cons d ds)
  show ?case
    unfolding replayable.simps Cons.IH by (simp add: All_less_Suc2 add.assoc)
qed simp

lemma server_blocks_replayable:
  assumes run: "server_blocks xxh so be sv0 ds sv" and contract: "store_contract so (sv_params sv0) log"
    and inv: "log (sv_store sv0) = []"
    and bound: "\<forall>k \<le> length ds. \<forall>j row off. uint (store_view so (sv_params sv0) (sv_store sv0) j row off) +
      (\<Sum>d \<leftarrow> take k ds. delta_effect d j row off) < 2 ^ unat (cp_plaintext_bits (sv_params sv0))"
  shows "replayable (sv_params sv0) (\<lambda>j row off. uint (store_view so (sv_params sv0) (sv_store sv0) j row off)) ds"
  unfolding replayable_nth
proof (intro allI impI)
  fix k assume k: "k < length ds"
  let ?p = "sv_params sv0" and ?v = "\<lambda>s j row off. uint (store_view so (sv_params sv0) (sv_store s) j row off)"
  note e = server_blocks_effect[OF run contract inv]
  obtain sk sk1 where sk: "server_blocks xxh so be sv0 (take k ds) sk" "server_blocks xxh so be sv0 (take (Suc k) ds) sk1"
    using server_blocks_prefix[OF run, of k] server_blocks_prefix[OF run, of "Suc k"] k by auto
  have v: "?v sv0 j row off + (\<Sum>d \<leftarrow> take k ds. delta_effect d j row off) = ?v sk j row off"
    "?v sv0 j row off + (\<Sum>d \<leftarrow> take (Suc k) ds. delta_effect d j row off) = ?v sk1 j row off"
    if "j < cp_arity ?p" for j row off
    using server_blocks_effect[OF sk(1) contract inv] server_blocks_effect[OF sk(2) contract inv] that by auto
  have snoc: "(\<Sum>d \<leftarrow> take (Suc k) ds. delta_effect d j row off) =
      (\<Sum>d \<leftarrow> take k ds. delta_effect d j row off) + delta_effect (ds ! k) j row off" for j row off
    using k by (simp add: take_Suc_conv_app_nth)
  have d: "canonical_delta (ds ! k)" "length (per_segment (ds ! k)) = cp_arity ?p"
    using e k by simp_all
  have "in_seg ?p row off \<and> 0 \<le> ?v sv0 j row off + (\<Sum>d \<leftarrow> take (Suc k) ds. delta_effect d j row off) \<and>
      ?v sv0 j row off + (\<Sum>d \<leftarrow> take (Suc k) ds. delta_effect d j row off) < 2 ^ unat (cp_plaintext_bits ?p)"
    if ne: "delta_effect (ds ! k) j row off \<noteq> 0" for j row off
  proof -
    have j: "j < cp_arity ?p" using ne d(2) by (auto simp: delta_effect_def split: if_splits)
    have "in_seg ?p row off"
    proof (rule ccontr)
      assume "\<not> in_seg ?p row off"
      then have "?v sk1 j row off = ?v sk j row off" by (simp add: db_view_outside)
      with v[OF j, of row off] snoc[of j row off] ne show False by simp
    qed
    moreover have "0 \<le> ?v sk1 j row off" by simp
    moreover have "?v sv0 j row off + (\<Sum>d \<leftarrow> take (Suc k) ds. delta_effect d j row off)
        < 2 ^ unat (cp_plaintext_bits ?p)"
      using bound[rule_format, of "Suc k" j row off] k by simp
    ultimately show ?thesis using v(2)[OF j, of row off] by simp
  qed
  with d show "canonical_delta (ds ! k) \<and> length (per_segment (ds ! k)) = cp_arity ?p \<and>
     (\<forall>j row off. delta_effect (ds ! k) j row off \<noteq> 0 \<longrightarrow> in_seg ?p row off \<and>
        0 \<le> ?v sv0 j row off + (\<Sum>d \<leftarrow> take (Suc k) ds. delta_effect d j row off) \<and>
        ?v sv0 j row off + (\<Sum>d \<leftarrow> take (Suc k) ds. delta_effect d j row off) < 2 ^ unat (cp_plaintext_bits ?p))"
    by blast
qed

section \<open>The restored server\<close>

text \<open>A raw state is what a save of the server \<open>sv\<close> holds.\<close>

definition base_of :: "'s store_api \<Rightarrow> 's store_ops \<Rightarrow> ('cfg, 'p, 'mat) simple_backend
    \<Rightarrow> ('s, 'cfg, 'p simple_server_params, 'mat, u32 list) rise_server \<Rightarrow> 'p raw_state \<Rightarrow> bool" where
  "base_of sa so be sv raw \<longleftrightarrow>
     raw_cells raw = so_cells so (sv_store sv) \<and> raw_params sa raw = sv_params sv \<and>
     wb_block (raw_setup raw) = sv_block sv \<and> wb_backend_params (raw_setup raw) = sv_backend_params sv \<and>
     wb_hints (raw_setup raw) = sv_hints sv \<and>
     sv_material sv = map (sb_expand_material be) (sv_backend_params sv) \<and>
     cp_arity (sv_params sv) * seg_cells_of (sv_params sv) \<le> length (raw_cells raw) \<and>
     ca_arity (sa_api sa) (wb_params (raw_setup raw)) = cp_arity (sv_params sv)"

text \<open>The documented behaviour of the store's constructor: it takes an array of the size of the
  geometry as its cells.\<close>

definition from_cells_doc :: "'s store_api \<Rightarrow> 's store_ops \<Rightarrow> cuckoo_fields \<Rightarrow> nat \<Rightarrow> bool" where
  "from_cells_doc sa so flds n \<longleftrightarrow>
     (\<forall>cells k. length cells = n \<longrightarrow> (\<exists>store. sa_from_cells sa cells flds k = Inr store \<and> so_cells so store = cells))"

lemma assemble_spec:
  assumes doc: "from_cells_doc sa so (wb_params (raw_setup raw)) (length (raw_cells raw))"
    and contract: "store_contract so (raw_params sa raw) log" and cur: "raw_current sa be reps raw"
    and width: "div_ceil8 (unat (value_bits codec)) = cp_value_size (raw_params sa raw)"
  shows "\<exists>server. assemble sa so be raw config codec = Some (Inr server) \<and>
    sv_params server = raw_params sa raw \<and> sv_block server = wb_block (raw_setup raw) \<and>
    so_cells so (sv_store server) = raw_cells raw \<and> hints_current so reps server"
proof -
  obtain store where st: "sa_from_cells sa (raw_cells raw) (wb_params (raw_setup raw)) (raw_num_items raw) = Inr store"
      "so_cells so store = raw_cells raw"
    using doc by (auto simp: from_cells_doc_def)
  have "so_cells so (drain_log so (so_enable_log so store)) = raw_cells raw"
    using contract st(2) by (simp add: store_contract_def drain_log_def)
  then show ?thesis
    using cur width st(1)
    by (simp add: assemble_def Let_def server_from_parts_def raw_current_def hints_current_def)
qed

lemma restore_core:
  assumes raw: "load_raw xxh3 (sa_api sa) lib plib file codec = Inr raw"
    and base: "base_of sa so be sv0 raw"
    and jr: "recovers xxh3 (cf_plaintext_bits (wb_params (raw_setup raw))) (of_nat (cp_arity (sv_params sv0)))
      (raw_digest raw) (sv_block sv0) f es clean"
    and run: "server_blocks xxh so be sv0 (map fst es) sv"
    and contract: "store_contract so (sv_params sv0) log" and empty: "log (sv_store sv0) = []"
    and backend: "backend_contract be (sv_params sv0) reps" and cur: "hints_current so reps sv0"
    and doc: "from_cells_doc sa so (wb_params (raw_setup raw)) (length (raw_cells raw))"
    and width: "div_ceil8 (unat (value_bits codec)) = cp_value_size (sv_params sv0)"
    and pb: "cp_plaintext_bits (sv_params sv0) \<le> 31"
    and bound: "\<forall>k \<le> length es. \<forall>j row off. uint (store_view so (sv_params sv0) (sv_store sv0) j row off) +
      (\<Sum>d \<leftarrow> take k (map fst es). delta_effect d j row off) < 2 ^ unat (cp_plaintext_bits (sv_params sv0))"
  shows "\<exists>rs. load_with_journal_restore xxh3 sa so be lib plib file (Some f) config codec cap = Some (Inr rs) \<and>
    sv_block (rs_server rs) = sv_block sv \<and> hints_current so reps (rs_server rs) \<and>
    sv_params (rs_server rs) = sv_params sv \<and>
    (\<forall>j < cp_arity (sv_params sv). \<forall>row off.
       store_view so (sv_params sv) (sv_store (rs_server rs)) j row off = store_view so (sv_params sv) (sv_store sv) j row off) \<and>
    rs_replayed rs = of_nat (length es) \<and> rs_base_block rs = sv_block sv0 \<and>
    rs_tail_deltas rs = last_n cap (map fst es) \<and>
    (\<exists>off. rs_adopt_at rs = Some (off, sv_block sv0 + of_nat (length es)))"
proof -
  let ?p = "sv_params sv0"
  have b: "raw_cells raw = so_cells so (sv_store sv0)" "raw_params sa raw = ?p" "wb_block (raw_setup raw) = sv_block sv0"
    "wb_backend_params (raw_setup raw) = sv_backend_params sv0" "wb_hints (raw_setup raw) = sv_hints sv0"
    "sv_material sv0 = map (sb_expand_material be) (sv_backend_params sv0)"
    "cp_arity ?p * seg_cells_of ?p \<le> length (raw_cells raw)"
    "ca_arity (sa_api sa) (wb_params (raw_setup raw)) = cp_arity ?p"
    using base unfolding base_of_def by blast+
  obtain r0 recs r where j: "journal_open xxh3 f (length f) (cf_plaintext_bits (wb_params (raw_setup raw)))
        (of_nat (cp_arity ?p)) = Inr (\<lparr> jh_base_digest = raw_digest raw, jh_base_block = sv_block sv0 \<rparr>, r0)"
    "scan_all xxh3 r0 = (recs, r)" "map entry_of recs = es"
    and lh: "last_valid_height r = sv_block sv0 + of_nat (length es)"
    using jr unfolding recovers_def by blast
  have op: "open_for_base xxh3 (sa_api sa) raw (Some f) = Some r0"
    using j(1) by (simp add: open_for_base_def b)
  have ds: "map sr_delta recs = map fst es" and len: "length recs = length es"
    by (simp_all add: j(3)[symmetric] entry_of_def comp_def)
  have rc: "raw_current sa be reps raw"
    using cur unfolding raw_current_def hints_current_def b by auto
  have rp: "replayable ?p (\<lambda>j row off. uint (db_view ?p (raw_cells raw) j row off)) (map sr_delta recs)"
    using server_blocks_replayable[OF run contract empty] bound unfolding b ds by simp
  have patch: "\<forall>sp mat h db rs. reps sp mat h db \<and> canonical_rows rs \<longrightarrow>
      reps sp mat (sb_patch_hint be sp mat h rs) (add_view db rs)"
    using backend by (simp add: backend_contract_def)
  define mats where "mats = map (sb_expand_material be) (wb_backend_params (raw_setup raw))"
  have nil: "last_n cap [] = []" by (simp add: last_n_def)
  obtain raw' where rep: "replay sa be mats cap recs (raw, 0, []) =
      Some (Inr (raw', of_nat (length es), last_n cap (map fst es)))"
    and p': "raw_params sa raw' = ?p" and f': "wb_params (raw_setup raw') = wb_params (raw_setup raw)"
    and l': "length (raw_cells raw') = length (raw_cells raw)" and c': "raw_current sa be reps raw'"
    and blk: "wb_block (raw_setup raw') = last_block (sv_block sv0) es"
    and view: "\<And>j row off. uint (db_view ?p (raw_cells raw') j row off) =
       uint (db_view ?p (raw_cells raw) j row off) + (\<Sum>d \<leftarrow> map fst es. delta_effect d j row off)"
    using replay_spec[of sa raw reps be mats recs cap 0 "[]", unfolded b(2) nil, OF pb patch mats_def _ rc rp]
      b(7) unfolding ds len j(3) b(3) by (auto simp: nil)
  obtain server where as: "assemble sa so be raw' config codec = Some (Inr server)"
    and s: "sv_params server = ?p" "sv_block server = last_block (sv_block sv0) es"
      "so_cells so (sv_store server) = raw_cells raw'" "hints_current so reps server"
    using assemble_spec[of sa so raw' log be reps codec config] doc contract c' width
    unfolding f' l' blk b(2) by blast
  define rs where "rs = \<lparr> rs_server = server, rs_complete = raw_complete raw', rs_digest = raw_digest raw',
    rs_replayed = of_nat (length es), rs_base_block = sv_block sv0, rs_tail_deltas = last_n cap (map fst es),
    rs_adopt_at = Some (valid_end_offset r, last_valid_height r), rs_scan_stop = jr_stop r \<rparr>"
  have "load_with_journal_restore xxh3 sa so be lib plib file (Some f) config codec cap = Some (Inr rs)"
    unfolding load_with_journal_restore_def raw sum.case Let_def op option.case j(2) prod.case mats_def[symmetric] rep
    by (simp add: as rs_def b(3))
  moreover note e = server_blocks_effect[OF run contract empty]
  have "sv_block server = sv_block sv"
    unfolding s(2) last_block_def using e by (cases es rule: rev_cases) auto
  moreover have "store_view so (sv_params sv) (sv_store server) j row off = store_view so (sv_params sv) (sv_store sv) j row off"
    if "j < cp_arity (sv_params sv)" for j row off
  proof -
    have "uint (store_view so ?p (sv_store server) j row off) = uint (store_view so ?p (sv_store sv) j row off)"
      unfolding s(3) view b(1) using e that by auto
    then show ?thesis using e by (simp add: word_uint_eq_iff)
  qed
  ultimately show ?thesis
    using s(1,4) e lh by (intro exI[of _ rs]) (simp add: rs_def)
qed

section \<open>Concrete data\<close>

text \<open>A store of two segments with one row of four cells each, whose three write operations find
  nothing; it has a state file, a base block 19 and a journal of one block.\<close>

definition toy_store :: "(u32 list \<times> slot_mutation list) store_ops" where
  "toy_store = \<lparr> so_cells = fst, so_num_items = (\<lambda>s. of_nat (length (fst s))),
     so_update = (\<lambda>s _ _. (Inl CuckooNotFound, s)), so_insert = (\<lambda>s _ _. (Inl CuckooNotFound, s)),
     so_delete = (\<lambda>s _. (Inl CuckooNotFound, s)), so_enable_log = (\<lambda>s. s),
     so_drain = (\<lambda>s. (snd s, (fst s, []))) \<rparr>"

definition toy_cp :: cuckoo_params where
  "toy_cp = \<lparr> cp_arity = 2, cp_segment_size = 1, cp_bucket_size = 4, cp_cells_per_slot = 1,
     cp_value_size = 4, cp_plaintext_bits = 9, cp_candidate_buckets = (\<lambda>_. (1, [0, 1])),
     cp_slot_cell_range = (\<lambda>b s. (unat b * 4 + unat s, unat b * 4 + unat s + 1)),
     cp_unpack_slot = (\<lambda>_. (0, [])), cp_pack_slot = (\<lambda>_ cells. cells) \<rparr>"

definition toy_store_api :: "(u32 list \<times> slot_mutation list) store_api" where
  "toy_store_api = \<lparr> sa_api = toy_api, sa_cp_of = (\<lambda>_. toy_cp), sa_from_cells = (\<lambda>cells _ _. Inr (cells, [])) \<rparr>"

definition toy_backend :: "(unit, toy_params, unit) simple_backend" where
  "toy_backend = \<lparr> sb_server_setup = (\<lambda>_ _ _ _ _. (toy_server_params 7, (), [])),
     sb_expand_material = (\<lambda>_. ()), sb_server_answer = (\<lambda>_ _ _ _ q. q), sb_patch_hint = (\<lambda>_ _ h _. h) \<rparr>"

definition toy_reps :: "toy_params simple_server_params \<Rightarrow> unit \<Rightarrow> u32 list \<Rightarrow> (u32 \<Rightarrow> u16 \<Rightarrow> u32) \<Rightarrow> bool" where
  "toy_reps _ _ _ _ = True"

definition toy_cells :: "u32 list" where
  "toy_cells = [1, 2, 3, 4, 5, 6, 7, 511]"

definition toy_raw :: "toy_params raw_state" where
  "toy_raw = \<lparr> raw_cells = toy_cells, raw_setup = toy_state_bundle, raw_num_items = 3, raw_complete = True,
     raw_digest = toy_hash (header_content toy_simple_lib toy_state_bundle (length toy_cells) 3 example_codec True
       @ cells_bytes toy_cells) \<rparr>"

definition toy_file :: bytes where
  "toy_file = (let covered = header_content toy_simple_lib toy_state_bundle (length toy_cells) 3 example_codec True
     @ cells_bytes toy_cells in covered @ u64_le (toy_hash covered))"

definition toy_server where
  "toy_server = \<lparr> sv_store = (toy_cells, []), sv_params = toy_cp, sv_config = (),
     sv_backend_params = wb_backend_params toy_state_bundle, sv_material = [(), ()],
     sv_hints = wb_hints toy_state_bundle, sv_block = 19, sv_codec = example_codec \<rparr>"

definition toy_empty_delta :: block_delta where
  "toy_empty_delta = \<lparr> delta_block = 20, per_segment = [[], []] \<rparr>"

lemma toy_load: "load_raw toy_hash (sa_api toy_store_api) toy_simple_lib example_lib (Some toy_file) example_codec = Inr toy_raw"
proof -
  have ok: "state_ok toy_api toy_simple_lib example_lib toy_state_bundle (length toy_cells) example_codec"
    unfolding toy_cells_def by (rule toy_state_ok8)
  show ?thesis
    unfolding load_raw_def option.case toy_file_def Let_def toy_raw_def
    using parse_saved[OF ok refl] by (simp add: toy_store_api_def)
qed

lemma toy_contract: "store_contract toy_store toy_cp snd"
  by (simp add: store_contract_def toy_store_def)

lemma toy_journalable: "journalable 8 2 toy_empty_delta"
proof -
  have e: "encode_block_delta toy_empty_delta 8 = Some (the (encode_block_delta toy_empty_delta 8))"
    by (simp add: encode_block_delta_def toy_empty_delta_def)
  have "encoded_len toy_empty_delta = length (the (encode_block_delta toy_empty_delta 8))"
    by (rule encode_length[OF e, symmetric])
  moreover have "encoded_len toy_empty_delta \<le> 13 + 2 * 10"
    using uvarint_len_le_10[of 0] by (simp add: encoded_len_def toy_empty_delta_def)
  moreover have "sort_delta toy_empty_delta = toy_empty_delta"
    by (simp add: sort_delta_def sort_rows_def toy_empty_delta_def)
  ultimately show ?thesis
    using e encode_decode[OF e] unfolding journalable_def max_record_bytes_def
    by (intro exI[of _ "the (encode_block_delta toy_empty_delta 8)"])
      (simp add: delta_fits_def toy_empty_delta_def)
qed

lemma toy_block:
  "\<exists>rep. apply_block_reporting example_hash toy_store toy_backend toy_server
      \<lparr> update_block = 20, changes = [], credits = [] \<rparr> =
    Some (Inr (toy_empty_delta, rep), toy_server\<lparr> sv_block := 20 \<rparr>)"
proof -
  have "replicate 2 x = [x, x]" for x :: "(u32, (u16, i64) btree) btree" by (simp add: numeral_2_eq_2)
  then have "fold_mutations_into_row_deltas [] toy_cp = Some [[], []]"
    by (simp add: fold_mutations_into_row_deltas_def toy_cp_def)
  then show ?thesis
    by (simp add: apply_block_reporting_def toy_server_def toy_store_def toy_empty_delta_def)
qed

section \<open>Properties\<close>

text \<open>C16. A restart reaches the server that was running.  If the state file holds the server
  \<open>sv0\<close>, and the journal beside it recovers the deltas of the blocks that led from
  \<open>sv0\<close> to \<open>sv\<close>, then loading with the journal succeeds with a server at the block of
  \<open>sv\<close>, with every cell of \<open>sv\<close>, and with every hint the hint of these cells; it
  replays each record once, keeps the last deltas for the ring, and adopts the journal at the
  height of \<open>sv\<close>.\<close>

theorem restore_reaches_journaled_server:
  assumes "load_raw xxh3 (sa_api sa) lib plib file codec = Inr raw" and "base_of sa so be sv0 raw"
    and "recovers xxh3 (cf_plaintext_bits (wb_params (raw_setup raw))) (of_nat (cp_arity (sv_params sv0)))
      (raw_digest raw) (sv_block sv0) f es clean"
    and "server_blocks xxh so be sv0 (map fst es) sv"
    and "store_contract so (sv_params sv0) log" and "log (sv_store sv0) = []"
    and "backend_contract be (sv_params sv0) reps" and "hints_current so reps sv0"
    and "from_cells_doc sa so (wb_params (raw_setup raw)) (length (raw_cells raw))"
    and "div_ceil8 (unat (value_bits codec)) = cp_value_size (sv_params sv0)"
    and "cp_plaintext_bits (sv_params sv0) \<le> 31"
    and "\<forall>k \<le> length es. \<forall>j row off. uint (store_view so (sv_params sv0) (sv_store sv0) j row off) +
      (\<Sum>d \<leftarrow> take k (map fst es). delta_effect d j row off) < 2 ^ unat (cp_plaintext_bits (sv_params sv0))"
  shows "\<exists>rs. load_with_journal_restore xxh3 sa so be lib plib file (Some f) config codec cap = Some (Inr rs) \<and>
    sv_block (rs_server rs) = sv_block sv \<and> hints_current so reps (rs_server rs) \<and>
    sv_params (rs_server rs) = sv_params sv \<and>
    (\<forall>j < cp_arity (sv_params sv). \<forall>row off.
       store_view so (sv_params sv) (sv_store (rs_server rs)) j row off = store_view so (sv_params sv) (sv_store sv) j row off) \<and>
    rs_replayed rs = of_nat (length es) \<and> rs_base_block rs = sv_block sv0 \<and>
    rs_tail_deltas rs = last_n cap (map fst es) \<and>
    (\<exists>off. rs_adopt_at rs = Some (off, sv_block sv0 + of_nat (length es)))"
  by (rule restore_core[OF assms])

lemma restore_reaches_journaled_server_witness:
  "\<exists>rs. load_with_journal_restore toy_hash toy_store_api toy_store toy_backend toy_simple_lib example_lib
      (Some toy_file) (Some (journal_file toy_hash 8 (raw_digest toy_raw) 19 [(toy_empty_delta, 3)])) () example_codec 100 =
    Some (Inr rs) \<and> sv_block (rs_server rs) = 20 \<and> rs_replayed rs = 1 \<and> rs_tail_deltas rs = [toy_empty_delta]"
proof -
  let ?es = "[(toy_empty_delta, 3 :: u64)]"
  have base: "base_of toy_store_api toy_store toy_backend toy_server toy_raw"
    by (simp add: base_of_def toy_raw_def toy_store_def toy_server_def toy_store_api_def toy_cells_def toy_backend_def
        toy_state_bundle_def toy_bundle_def seg_cells_of_def row_width_of_def toy_cp_def toy_api_def toy_arity_def)
  have f: "sv_params toy_server = toy_cp" "sv_store toy_server = (toy_cells, [])" "sv_block toy_server = 19"
    "cp_arity toy_cp = 2" "cf_plaintext_bits (wb_params (raw_setup toy_raw)) = 8" "cp_plaintext_bits toy_cp = 9"
    by (simp_all add: toy_server_def toy_cp_def toy_raw_def toy_state_bundle_def example_lib_def)
  have rec: "recovers toy_hash (cf_plaintext_bits (wb_params (raw_setup toy_raw))) (of_nat (cp_arity (sv_params toy_server)))
      (raw_digest toy_raw) (sv_block toy_server) (journal_file toy_hash 8 (raw_digest toy_raw) 19 ?es) ?es True"
    using journal_file_recovers[of 19 ?es 8 2 toy_hash "[]" "raw_digest toy_raw"] toy_journalable
    by (simp add: f) (simp add: toy_empty_delta_def)
  from toy_block obtain rep where
    "apply_block_reporting example_hash toy_store toy_backend toy_server \<lparr> update_block = 20, changes = [], credits = [] \<rparr> =
      Some (Inr (toy_empty_delta, rep), toy_server\<lparr> sv_block := 20 \<rparr>)" by blast
  from blocks_step[OF blocks_start this]
  have run: "server_blocks example_hash toy_store toy_backend toy_server (map fst ?es) (toy_server\<lparr> sv_block := 20 \<rparr>)"
    by simp
  have bc: "backend_contract toy_backend (sv_params toy_server) toy_reps"
    by (simp add: backend_contract_def toy_reps_def split: prod.split)
  have hc: "hints_current toy_store toy_reps toy_server"
    by (simp add: hints_current_def toy_reps_def f)
      (simp add: toy_server_def toy_state_bundle_def toy_bundle_def)
  have doc: "from_cells_doc toy_store_api toy_store (wb_params (raw_setup toy_raw)) (length (raw_cells toy_raw))"
    by (simp add: from_cells_doc_def toy_store_api_def toy_store_def)
  have width: "div_ceil8 (unat (value_bits example_codec)) = cp_value_size (sv_params toy_server)"
    by (simp add: f toy_cp_def value_bits_def example_codec_def div_ceil8_def)
  have small: "\<forall>c \<in> set toy_cells. uint c < 2 ^ 9" by (simp add: toy_cells_def)
  have "uint (db_view p toy_cells j row off) < 2 ^ 9" for p j row off
    using small by (simp add: db_view_def Let_def)
  moreover have "delta_effect toy_empty_delta j row off = 0" for j row off
    by (auto simp: delta_effect_def toy_empty_delta_def nth_Cons split: nat.splits)
  ultimately have bound: "\<forall>k \<le> length ?es. \<forall>j row off.
      uint (store_view toy_store (sv_params toy_server) (sv_store toy_server) j row off) +
      (\<Sum>d \<leftarrow> take k (map fst ?es). delta_effect d j row off) < 2 ^ unat (cp_plaintext_bits (sv_params toy_server))"
    by (auto simp: f toy_store_def le_Suc_eq)
  from restore_reaches_journaled_server[OF toy_load base rec run _ _ bc hc doc width _ bound, of snd "()" 100]
  show ?thesis
    using toy_contract by (auto simp: f last_n_def)
qed

end
