(* ===== verification/Http_Text.thy ===== *)
theory Http_Text
  imports Prelude
begin

text \<open>
  The small text parsers of \<open>crates/risepir-http/src/node.rs\<close>: query strings
  (\<open>parse_epoch_param\<close>, \<open>parse_sync_query\<close>), the \<open>Range\<close> header (\<open>parse_range\<close>),
  \<open>If-None-Match\<close> (\<open>if_none_match_hits\<close>) and the route labels, with the operations of
  Rust's \<open>str\<close> and \<open>u64\<close> they use.

  A \<open>str\<close> is a \<open>string\<close>; header values reach these functions as ASCII text, so trimming
  removes ASCII white space.  The lemmas: decimal numbers round trip through
  \<open>u64::from_str\<close>, and \<open>parse_range\<close> returns only ranges that lie inside the resource and
  reads back the range a resuming client writes.
\<close>

section \<open>\<open>str\<close> and \<open>u64\<close>\<close>

fun split_char :: "char \<Rightarrow> string \<Rightarrow> string list" where
  "split_char c [] = [[]]"
| "split_char c (x # xs) =
     (if x = c then [] # split_char c xs
      else (case split_char c xs of [] \<Rightarrow> [[x]] | p # ps \<Rightarrow> (x # p) # ps))"

lemma split_char_none: "c \<notin> set s \<Longrightarrow> split_char c s = [s]"
  by (induction s) auto

lemma split_char_append: "c \<notin> set p \<Longrightarrow> split_char c (p @ c # s) = p # split_char c s"
  by (induction p) auto

fun split_once :: "char \<Rightarrow> string \<Rightarrow> (string \<times> string) option" where
  "split_once c [] = None"
| "split_once c (x # xs) =
     (if x = c then Some ([], xs) else map_option (\<lambda>(a, b). (x # a, b)) (split_once c xs))"

fun strip_prefix :: "string \<Rightarrow> string \<Rightarrow> string option" where
  "strip_prefix [] s = Some s"
| "strip_prefix (c # cs) [] = None"
| "strip_prefix (c # cs) (x # xs) = (if c = x then strip_prefix cs xs else None)"

fun find_map :: "('a \<Rightarrow> 'b option) \<Rightarrow> 'a list \<Rightarrow> 'b option" where
  "find_map f [] = None"
| "find_map f (x # xs) = (case f x of None \<Rightarrow> find_map f xs | Some y \<Rightarrow> Some y)"

definition is_white :: "char \<Rightarrow> bool" where
  "is_white c \<longleftrightarrow> (of_char c :: nat) \<in> {9, 10, 11, 12, 13, 32}"

definition trim :: "string \<Rightarrow> string" where
  "trim s = rev (dropWhile is_white (rev (dropWhile is_white s)))"

definition digit_value :: "char \<Rightarrow> nat option" where
  "digit_value c = (let n = (of_char c :: nat) in if 48 \<le> n \<and> n \<le> 57 then Some (n - 48) else None)"

fun parse_digits :: "nat \<Rightarrow> string \<Rightarrow> nat option" where
  "parse_digits v [] = Some v"
| "parse_digits v (c # cs) =
     (case digit_value c of
        None \<Rightarrow> None
      | Some d \<Rightarrow> if v * 10 + d < 2 ^ 64 then parse_digits (v * 10 + d) cs else None)"

text \<open>\<open>str::parse::<u64>\<close>: one optional plus sign, at least one digit, no overflow.\<close>

definition parse_u64 :: "string \<Rightarrow> u64 option" where
  "parse_u64 s =
     (let digits = (case s of [] \<Rightarrow> [] | c # cs \<Rightarrow> if c = CHR ''+'' then cs else s)
      in if digits = [] then None else map_option of_nat (parse_digits 0 digits))"

text \<open>How \<open>format!\<close> prints a number.\<close>

function show_nat :: "nat \<Rightarrow> string" where
  "show_nat n = (if n < 10 then [char_of (48 + n)] else show_nat (n div 10) @ [char_of (48 + n mod 10)])"
  by pat_completeness auto
termination by (relation "measure id") auto

declare show_nat.simps [simp del]

definition show_u64 :: "u64 \<Rightarrow> string" where
  "show_u64 w = show_nat (unat w)"

section \<open>Query strings\<close>

definition parse_epoch_param :: "string option \<Rightarrow> string option" where
  "parse_epoch_param raw =
     Option.bind raw (\<lambda>q. find_map (\<lambda>pair.
       Option.bind (split_once (CHR ''='') pair) (\<lambda>(key, val). if key = ''epoch'' then Some val else None))
       (split_char (CHR ''&'') q))"

fun sync_pairs :: "string list \<Rightarrow> u64 option \<times> u64 option \<Rightarrow> (u64 option \<times> u64 option) option" where
  "sync_pairs [] st = Some st"
| "sync_pairs (pair # pairs) (from, to) =
     (if pair = [] then sync_pairs pairs (from, to)
      else
        Option.bind (split_once (CHR ''='') pair) (\<lambda>(key, val).
          if key = ''from'' then sync_pairs pairs (parse_u64 val, to)
          else if key = ''to'' then sync_pairs pairs (from, parse_u64 val)
          else sync_pairs pairs (from, to)))"

definition parse_sync_query :: "string \<Rightarrow> (u64 \<times> u64) option" where
  "parse_sync_query q =
     Option.bind (sync_pairs (split_char (CHR ''&'') q) (None, None)) (\<lambda>st.
       case st of (Some f, Some t) \<Rightarrow> Some (f, t) | _ \<Rightarrow> None)"

section \<open>Headers\<close>

datatype range_outcome = Unsupported | Unsatisfiable | Satisfiable u64 u64   \<comment> \<open>first, last\<close>

definition parse_range :: "string \<Rightarrow> u64 \<Rightarrow> range_outcome" where
  "parse_range raw sz =
     (case strip_prefix ''bytes='' raw of
        None \<Rightarrow> Unsupported
      | Some spec \<Rightarrow>
          if CHR '','' \<in> set spec then Unsupported
          else (case split_once (CHR ''-'') spec of
            None \<Rightarrow> Unsupported
          | Some (first_s, last_s) \<Rightarrow>
              if first_s = [] then Unsupported
              else (case parse_u64 first_s of
                None \<Rightarrow> Unsupported
              | Some first \<Rightarrow>
                  if first \<ge> sz then Unsatisfiable
                  else if last_s = [] then Satisfiable first (sz - 1)
                  else (case parse_u64 last_s of
                    None \<Rightarrow> Unsupported
                  | Some l \<Rightarrow> if l \<ge> first then Satisfiable first (min l (sz - 1)) else Unsupported))))"

text \<open>The header value, as far as \<open>to_str\<close> can read it.\<close>

definition if_none_match_hits :: "string option \<Rightarrow> string \<Rightarrow> bool" where
  "if_none_match_hits raw etag =
     (case raw of
        None \<Rightarrow> False
      | Some raw \<Rightarrow>
          list_ex (\<lambda>tok.
            let tok = trim tok in
            tok = ''*'' \<or> tok = etag \<or> map_option trim (strip_prefix ''W/'' tok) = Some etag)
          (split_char (CHR '','') raw))"

definition asset_paths :: "string list" where
  "asset_paths = [''/status.js'', ''/status.css'', ''/app.js'', ''/pir.js'', ''/style.css'', ''/client.wasm'',
     ''/fonts/raleway.woff2'', ''/fonts/raleway-italic.woff2'', ''/fonts/jetbrains-mono.woff2'']"

definition route_label :: "string \<Rightarrow> string" where
  "route_label path =
     (if path = ''/answer'' then ''answer''
      else if path = ''/sync'' then ''sync''
      else if path = ''/setup'' then ''setup''
      else if path = ''/head'' then ''head''
      else if path = ''/mode'' then ''mode''
      else if path = ''/recent'' then ''recent''
      else if path = ''/healthz'' then ''healthz''
      else if path = ''/metrics'' then ''metrics''
      else if path = ''/status'' then ''status''
      else if path = ''/'' then ''index''
      else if strip_prefix ''/delta/'' path \<noteq> None then ''delta''
      else if path \<in> set asset_paths then ''asset''
      else ''unmatched'')"

section \<open>Decimal numbers\<close>

lemma digit_value_digit [simp]: "d < 10 \<Longrightarrow> digit_value (char_of (48 + d)) = Some d"
  by (simp add: digit_value_def)

lemma parse_digits_append:
  "parse_digits v (cs @ ds) = Option.bind (parse_digits v cs) (\<lambda>v. parse_digits v ds)"
  by (induction cs arbitrary: v) (auto split: option.splits)

lemma parse_show_nat: "n < 2 ^ 64 \<Longrightarrow> parse_digits 0 (show_nat n) = Some n"
proof (induction n rule: show_nat.induct)
  case (1 n)
  show ?case
  proof (cases "n < 10")
    case True
    then show ?thesis by (simp add: show_nat.simps[of n])
  next
    case False
    with 1 have "parse_digits 0 (show_nat (n div 10)) = Some (n div 10)"
      by (meson div_le_dividend le_less_trans)
    then show ?thesis
      using False 1(2) by (simp add: show_nat.simps[of n] parse_digits_append div_mult_mod_eq)
  qed
qed

lemma show_nat_digits: "c \<in> set (show_nat n) \<Longrightarrow> 48 \<le> (of_char c :: nat) \<and> (of_char c :: nat) \<le> 57"
proof (induction n rule: show_nat.induct)
  case (1 n)
  show ?case
  proof (cases "n < 10")
    case True
    with 1(2) show ?thesis by (simp add: show_nat.simps[of n])
  next
    case False
    have m: "n mod 10 < 10" by simp
    have "c \<in> set (show_nat (n div 10)) \<or> c = char_of (48 + n mod 10)"
      using 1(2) False by (simp add: show_nat.simps[of n]) blast
    then show ?thesis
    proof
      assume "c = char_of (48 + n mod 10)"
      then have "(of_char c :: nat) = 48 + n mod 10" using m by simp
      then show ?thesis using m by linarith
    qed (use 1(1) False in blast)
  qed
qed

lemma show_nat_nonempty [simp]: "show_nat n \<noteq> []"
  by (subst show_nat.simps) simp

lemma not_in_show [simp]: "CHR '','' \<notin> set (show_nat n)" "CHR ''-'' \<notin> set (show_nat n)" "CHR ''+'' \<notin> set (show_nat n)"
  by (auto dest: show_nat_digits)

lemma parse_show_u64 [simp]: "parse_u64 (show_u64 w) = Some w"
proof -
  have "parse_digits 0 (show_u64 w) = Some (unat w)"
    unfolding show_u64_def using unsigned_less[of w, where 'a = nat] by (intro parse_show_nat) simp
  moreover obtain c cs where "show_u64 w = c # cs"
    unfolding show_u64_def by (cases "show_nat (unat w)") simp_all
  moreover from this have "c \<noteq> CHR ''+''"
    using not_in_show(3)[of "unat w"] by (auto simp: show_u64_def simp del: not_in_show)
  ultimately show ?thesis
    by (simp add: parse_u64_def del: parse_digits.simps)
qed

lemma show_u64_inject [simp]: "show_u64 a = show_u64 b \<longleftrightarrow> a = b"
  by (metis option.inject parse_show_u64)

text \<open>An unknown parameter is ignored only if it has a value.\<close>

lemma pair_without_value_rejects_sync:
  "parse_sync_query ''from=6&to=7&x=1'' = Some (6, 7)" "parse_sync_query ''from=6&to=7&x'' = None"
  by (simp_all add: parse_sync_query_def parse_u64_def digit_value_def)

section \<open>Ranges\<close>

lemma strip_prefix_append [simp]: "strip_prefix p (p @ s) = Some s"
  by (induction p) auto

lemma strip_prefix_Some: "strip_prefix p s = Some r \<longleftrightarrow> s = p @ r"
  by (induction p s rule: strip_prefix.induct) auto

lemma split_once_append: "c \<notin> set a \<Longrightarrow> split_once c (a @ c # b) = Some (a, b)"
  by (induction a) auto

lemma split_once_Some: "split_once c s = Some (a, b) \<Longrightarrow> s = a @ c # b \<and> c \<notin> set a"
  by (induction s arbitrary: a) (auto split: if_splits)

lemma parse_range_inside:
  assumes "parse_range raw sz = Satisfiable fst_byte lst_byte"
  shows "fst_byte \<le> lst_byte \<and> lst_byte < sz"
proof -
  have cases: "fst_byte < sz \<and> (lst_byte = sz - 1 \<or> (\<exists>l \<ge> fst_byte. lst_byte = min l (sz - 1)))"
    using assms unfolding parse_range_def by (auto split: option.splits if_splits simp: not_le) (metis leD)
  then have "sz \<noteq> 0" by auto
  then have "unat (sz - 1) = unat sz - 1" "0 < unat sz" by (simp_all add: unat_minus_one unat_gt_0)
  then show ?thesis
    using cases by (auto simp: word_less_nat_alt word_le_nat_alt min_def)
qed

lemma parse_range_from:
  assumes "first < sz"
  shows "parse_range (''bytes='' @ show_u64 first @ ''-'') sz = Satisfiable first (sz - 1)"
proof -
  have c: "CHR '','' \<notin> set (show_u64 first)" "CHR ''-'' \<notin> set (show_u64 first)" "show_u64 first \<noteq> []"
    by (simp_all add: show_u64_def)
  then have "split_once (CHR ''-'') (show_u64 first @ ''-'') = Some (show_u64 first, [])"
    by (intro split_once_append) simp
  then show ?thesis using assms c by (simp only: parse_range_def strip_prefix_append option.case) (simp add: not_le)
qed

end
