(* ===== verification/Node.thy ===== *)
theory Node
  imports Http_Text Wire Server Delta_Ring Delta_Codec
begin

text \<open>
  Model of the node state and the handlers of \<open>crates/risepir-http/src/node.rs\<close>:
  \<open>NodeState\<close> with its server, delta ring, per-block index, setup cache and list of
  recent addresses; \<open>apply_block_reporting\<close>, \<open>seed_history\<close>, \<open>setup_bytes\<close>,
  \<open>note_recent\<close>, and the handlers \<open>answer\<close>, \<open>delta_by_block\<close>, \<open>sync\<close>, \<open>setup\<close>,
  \<open>head\<close>, \<open>mode\<close>, \<open>recent\<close>.

  Each handler takes the locks it needs once and runs under them, so a concurrent
  execution is a sequence of handler steps (\<open>node_run\<close>).  A method that changes the
  state returns the new state.  \<open>None\<close> is a panic.  \<open>Reason\<close> names the text of a
  refusal by the value it is formatted from.  Clocks, timing headers and the lock
  waiting times are left out; the reconciliation health is theory \<open>Reconcile\<close>.
\<close>

section \<open>Data\<close>

record ('s, 'cfg, 'p, 'mat) node_inner =
  in_server :: "('s, 'cfg, 'p simple_server_params, 'mat, u32 list) rise_server"
  in_ring :: delta_ring
  in_per_block :: "(u64, block_delta) btree"

record cached_setup =
  cs_block :: u64
  cs_bytes :: bytes

text \<open>\<open>nd_fields\<close> are the \<open>CuckooParams\<close> the store of the node answers.\<close>

record ('s, 'cfg, 'p, 'mat) node_state =
  nd_inner :: "('s, 'cfg, 'p, 'mat) node_inner"
  nd_fields :: cuckoo_fields
  nd_complete :: bool
  nd_backend_params :: "'p simple_server_params list"
  nd_recent :: "bytes list"                  \<comment> \<open>newest last\<close>
  nd_setup_cache :: "cached_setup option"
  nd_setup_generation :: nat
  nd_epoch :: string

record block_apply_outcome =
  oc_delta :: block_delta
  oc_report :: block_apply_report
  oc_delta_bytes :: nat

text \<open>The external functions the transport uses: the arity of \<open>CuckooParams\<close>, \<open>SimpleParams\<close>
  and Keccak.\<close>

record 'p node_ext =
  nx_arity :: "cuckoo_fields \<Rightarrow> nat"
  nx_lib :: "'p simple_lib"
  nx_keccak :: "bytes \<Rightarrow> bytes"

type_synonym ('cfg, 'p, 'mat) node_backend = "('cfg, 'p simple_server_params, 'mat, u32 list) server_backend"

definition recent_capacity :: nat where "recent_capacity = 128"

section \<open>The node\<close>

definition node_new :: "'p node_ext \<Rightarrow> cuckoo_fields
    \<Rightarrow> ('s, 'cfg, 'p simple_server_params, 'mat, u32 list) rise_server \<Rightarrow> delta_ring \<Rightarrow> bool
    \<Rightarrow> ('s, 'cfg, 'p, 'mat) node_state" where
  "node_new ext flds server ring complete =
     (let backend_params = su_backend_params (server_setup_bundle server) in
      \<lparr> nd_inner = \<lparr> in_server = server, in_ring = ring, in_per_block = [] \<rparr>, nd_fields = flds,
        nd_complete = complete, nd_backend_params = backend_params, nd_recent = [],
        nd_setup_cache = None, nd_setup_generation = 0,
        nd_epoch = lineage_epoch (nx_keccak ext) (nx_lib ext) backend_params \<rparr>)"

definition note_one :: "bytes list \<Rightarrow> bytes \<Rightarrow> bytes list" where
  "note_one recent addr = (let r = remove1 addr recent @ [addr] in drop (length r - recent_capacity) r)"

definition note_recent :: "('s, 'cfg, 'p, 'mat) node_state \<Rightarrow> bytes list \<Rightarrow> ('s, 'cfg, 'p, 'mat) node_state" where
  "note_recent nd addrs = nd\<lparr> nd_recent := foldl note_one (nd_recent nd) addrs \<rparr>"

text \<open>The two lines that put a delta into the ring and the index, and the eviction of index
  entries older than the ring.\<close>

definition index_delta :: "('s, 'cfg, 'p, 'mat) node_inner \<Rightarrow> block_delta \<Rightarrow> ('s, 'cfg, 'p, 'mat) node_inner" where
  "index_delta inner d = inner\<lparr> in_ring := ring_push (in_ring inner) d,
     in_per_block := bt_insert (delta_block d) d (in_per_block inner) \<rparr>"

definition evict_stale :: "('s, 'cfg, 'p, 'mat) node_inner \<Rightarrow> ('s, 'cfg, 'p, 'mat) node_inner" where
  "evict_stale inner =
     (case ring_oldest (in_ring inner) of
        None \<Rightarrow> inner
      | Some oldest \<Rightarrow>
          let stale = map fst (filter (\<lambda>(b, _). b < oldest) (in_per_block inner)) in
          inner\<lparr> in_per_block := foldl (\<lambda>m b. bt_remove b m) (in_per_block inner) stale \<rparr>)"

definition node_apply_block_reporting :: "(bytes \<Rightarrow> u64 \<Rightarrow> u64) \<Rightarrow> 's store_ops \<Rightarrow> ('cfg, 'p, 'mat) node_backend
    \<Rightarrow> ('s, 'cfg, 'p, 'mat) node_state \<Rightarrow> block_update
    \<Rightarrow> ((server_error + block_apply_outcome) \<times> ('s, 'cfg, 'p, 'mat) node_state) option" where
  "node_apply_block_reporting xxh so be nd u =
     Option.bind (apply_block_reporting xxh so be (in_server (nd_inner nd)) u) (\<lambda>(r, server).
       let inner = (nd_inner nd)\<lparr> in_server := server \<rparr> in
       case r of
         Inl e \<Rightarrow> Some (Inl e, nd\<lparr> nd_inner := inner \<rparr>)
       | Inr (d, rep) \<Rightarrow>
           Some (Inr \<lparr> oc_delta = d, oc_report = rep, oc_delta_bytes = encoded_len d \<rparr>,
                 nd\<lparr> nd_inner := evict_stale (index_delta inner d) \<rparr>))"

definition seed_history :: "('s, 'cfg, 'p, 'mat) node_state \<Rightarrow> block_delta list \<Rightarrow> ('s, 'cfg, 'p, 'mat) node_state" where
  "seed_history nd deltas = nd\<lparr> nd_inner := evict_stale (foldl index_delta (nd_inner nd) deltas) \<rparr>"

definition setup_of :: "cuckoo_fields \<Rightarrow> ('s, 'cfg, 'p simple_server_params, 'mat, u32 list) rise_server
    \<Rightarrow> 'p wire_bundle" where
  "setup_of flds server = \<lparr> wb_params = flds, wb_backend_params = sv_backend_params server,
     wb_hints = sv_hints server, wb_block = sv_block server \<rparr>"

text \<open>A cached bundle is served while the head is at most an eighth of the ring past it.\<close>

definition node_setup_bytes :: "'p node_ext \<Rightarrow> ('s, 'cfg, 'p, 'mat) node_state
    \<Rightarrow> ((bytes \<times> u64) \<times> ('s, 'cfg, 'p, 'mat) node_state) option" where
  "node_setup_bytes ext nd =
     (let inner = nd_inner nd;
          head = sv_block (in_server inner);
          fresh_window = ring_capacity (in_ring inner) div 8;
          regenerate =
            (let bundle = setup_of (nd_fields nd) (in_server inner) in
             map_option (\<lambda>bs. ((bs, wb_block bundle),
                 nd\<lparr> nd_setup_generation := nd_setup_generation nd + 1,
                     nd_setup_cache := Some \<lparr> cs_block = wb_block bundle, cs_bytes = bs \<rparr> \<rparr>))
               (encode_setup (nx_arity ext) (nx_lib ext) bundle)) in
      case nd_setup_cache nd of
        Some c \<Rightarrow>
          if unat head - unat (cs_block c) \<le> fresh_window then Some ((cs_bytes c, cs_block c), nd) else regenerate
      | None \<Rightarrow> regenerate)"

section \<open>Handlers\<close>

datatype refusal =
    EpochMismatch | EpochMissing | DeltaEpochMismatch | NotRetained | BadQuery | OutOfWindow
  | WireReason wire_error | ServerReason server_error

datatype http_body = NoBody | Octets bytes | Reason refusal

record http_response =
  hr_status :: nat
  hr_headers :: "(string \<times> string) list"
  hr_body :: http_body

definition octet_response :: "nat \<Rightarrow> bytes \<Rightarrow> http_response" where
  "octet_response status body = \<lparr> hr_status = status,
     hr_headers = [(''content-type'', ''application/octet-stream'')], hr_body = Octets body \<rparr>"

definition refused :: "nat \<Rightarrow> refusal \<Rightarrow> http_response" where
  "refused status r = \<lparr> hr_status = status, hr_headers = [], hr_body = Reason r \<rparr>"

definition with_headers :: "(string \<times> string) list \<Rightarrow> http_response \<Rightarrow> http_response" where
  "with_headers hs r = r\<lparr> hr_headers := hr_headers r @ hs \<rparr>"

definition epoch_gate :: "('s, 'cfg, 'p, 'mat) node_state \<Rightarrow> string option \<Rightarrow> http_response option" where
  "epoch_gate nd raw =
     (case parse_epoch_param raw of
        Some presented \<Rightarrow> if presented = nd_epoch nd then None else Some (refused 409 EpochMismatch)
      | None \<Rightarrow> Some (refused 409 EpochMissing))"

definition answer_handler :: "'p node_ext \<Rightarrow> 's store_ops \<Rightarrow> ('cfg, 'p, 'mat) node_backend
    \<Rightarrow> ('s, 'cfg, 'p, 'mat) node_state \<Rightarrow> string option \<Rightarrow> bytes \<Rightarrow> http_response option" where
  "answer_handler ext so be nd raw body =
     (case epoch_gate nd raw of
        Some refusal \<Rightarrow> Some refusal
      | None \<Rightarrow>
          (case decode_query_bundle (nx_arity ext) body (nd_fields nd) (map sp_reshape_rows (nd_backend_params nd)) of
             Inl e \<Rightarrow> Some (refused 400 (WireReason e))
           | Inr queries \<Rightarrow>
               Option.bind (answer so be (in_server (nd_inner nd)) queries) (\<lambda>r.
               case r of
                 Inl e \<Rightarrow> Some (refused 400 (ServerReason e))
               | Inr (responses, head) \<Rightarrow>
                   map_option (octet_response 200) (encode_response_bundle responses head))))"

definition node_plaintext_bits :: "('s, 'cfg, 'p, 'mat) node_state \<Rightarrow> u32" where
  "node_plaintext_bits nd = cp_plaintext_bits (sv_params (in_server (nd_inner nd)))"

definition delta_by_block :: "('s, 'cfg, 'p, 'mat) node_state \<Rightarrow> u64 \<Rightarrow> string option \<Rightarrow> http_response option" where
  "delta_by_block nd block raw =
     (if parse_epoch_param raw \<noteq> Some (nd_epoch nd) then Some (refused 404 DeltaEpochMismatch)
      else (case bt_get (in_per_block (nd_inner nd)) block of
        None \<Rightarrow> Some (refused 404 NotRetained)
      | Some d \<Rightarrow>
          map_option (\<lambda>bs. with_headers [(''cache-control'', ''public, max-age=31536000, immutable'')]
              (octet_response 200 bs)) (encode_block_delta d (node_plaintext_bits nd))))"

definition sync_handler :: "('s, 'cfg, 'p, 'mat) node_state \<Rightarrow> string option \<Rightarrow> http_response option" where
  "sync_handler nd raw =
     (case epoch_gate nd raw of
        Some refusal \<Rightarrow> Some refusal
      | None \<Rightarrow>
          (case Option.bind raw parse_sync_query of
             None \<Rightarrow> Some (refused 400 BadQuery)
           | Some (from, to) \<Rightarrow>
               (case ring_range (in_ring (nd_inner nd)) from to of
                  Some d \<Rightarrow> map_option (octet_response 200) (encode_block_delta d (node_plaintext_bits nd))
                | None \<Rightarrow> Some (refused 409 OutOfWindow))))"

text \<open>A header is absent, present but not text (\<open>Some None\<close>), or text.\<close>

record setup_request =
  rq_if_none_match :: "string option option"
  rq_range :: "string option option"
  rq_if_range :: "string option option"

definition quote :: string where "quote = [CHR 0x22]"

definition setup_etag :: "string \<Rightarrow> u64 \<Rightarrow> string" where
  "setup_etag epoch block = quote @ ''setup-'' @ epoch @ ''-'' @ show_u64 block @ quote"

definition mode_header :: "('s, 'cfg, 'p, 'mat) node_state \<Rightarrow> string" where
  "mode_header nd = (if nd_complete nd then ''1'' else ''0'')"

definition validators :: "('s, 'cfg, 'p, 'mat) node_state \<Rightarrow> string \<Rightarrow> (string \<times> string) list" where
  "validators nd etag = [(''etag'', etag), (''cache-control'', ''no-cache''),
     (''x-risepir-epoch'', nd_epoch nd), (''x-risepir-mode'', mode_header nd)]"

text \<open>The answer to a \<open>Range\<close> request whose \<open>If-Range\<close> names the bundle being served;
  \<open>None\<close> falls through to the full body.\<close>

definition setup_range :: "('s, 'cfg, 'p, 'mat) node_state \<Rightarrow> string \<Rightarrow> bytes \<Rightarrow> setup_request
    \<Rightarrow> http_response option option" where
  "setup_range nd etag bs req =
     (case (rq_range req, rq_if_range req) of
        (Some (Some raw), Some (Some ir)) \<Rightarrow>
          if ir \<noteq> etag then None
          else
            let n = of_nat (length bs) :: u64 in
            (case parse_range raw n of
               Satisfiable f l \<Rightarrow>
                 Some (map_option (\<lambda>slice.
                     with_headers ([(''content-range'', ''bytes '' @ show_u64 f @ ''-'' @ show_u64 l @ ''/'' @ show_u64 n),
                         (''accept-ranges'', ''bytes'')] @ validators nd etag) (octet_response 206 slice))
                   (get_range bs (unat f) (Suc (unat l) - unat f)))
             | Unsatisfiable \<Rightarrow>
                 Some (Some \<lparr> hr_status = 416, hr_headers = [(''content-range'', ''bytes */'' @ show_u64 n),
                   (''accept-ranges'', ''bytes'')], hr_body = NoBody \<rparr>)
             | Unsupported \<Rightarrow> None)
      | _ \<Rightarrow> None)"

definition setup_handler :: "'p node_ext \<Rightarrow> ('s, 'cfg, 'p, 'mat) node_state \<Rightarrow> setup_request
    \<Rightarrow> (http_response \<times> ('s, 'cfg, 'p, 'mat) node_state) option" where
  "setup_handler ext nd req =
     Option.bind (node_setup_bytes ext nd) (\<lambda>((bs, block), nd).
       let etag = setup_etag (nd_epoch nd) block in
       if (case rq_if_none_match req of None \<Rightarrow> False | Some inm \<Rightarrow> if_none_match_hits inm etag)
       then Some (\<lparr> hr_status = 304, hr_headers = validators nd etag, hr_body = NoBody \<rparr>, nd)
       else (case setup_range nd etag bs req of
         Some r \<Rightarrow> map_option (\<lambda>resp. (resp, nd)) r
       | None \<Rightarrow> Some (with_headers (validators nd etag @ [(''accept-ranges'', ''bytes'')]) (octet_response 200 bs), nd)))"

definition head_handler :: "('s, 'cfg, 'p, 'mat) node_state \<Rightarrow> http_response" where
  "head_handler nd = with_headers [(''x-risepir-epoch'', nd_epoch nd), (''x-risepir-mode'', mode_header nd)]
     (octet_response 200 (u64_le (sv_block (in_server (nd_inner nd)))))"

definition mode_handler :: "('s, 'cfg, 'p, 'mat) node_state \<Rightarrow> http_response" where
  "mode_handler nd = octet_response 200 [if nd_complete nd then 1 else 0]"

definition recent_handler :: "('s, 'cfg, 'p, 'mat) node_state \<Rightarrow> http_response" where
  "recent_handler nd = with_headers [(''cache-control'', ''no-store'')]
     (octet_response 200 (u32_le (of_nat (length (nd_recent nd))) @ concat (rev (nd_recent nd))))"

end
