(* ===== verification/Node_Run.thy ===== *)
theory Node_Run
  imports Node
begin

text \<open>
  Runs of the node: blocks are applied, \<open>/setup\<close> bundles are served from the cache,
  addresses are noted, in any order.  The history of a deployment is its first block, the
  database at that block and the deltas applied since; \<open>history_at b\<close> is the database at
  block \<open>b\<close>.

  The lemmas: the ring and the per-block index hold exactly the last deltas applied
  (\<open>window\<close>); every bundle ever served carries the hints of the database at its block,
  and no two bundles share a block (\<open>served_ok\<close>).  The properties follow: what
  \<open>/sync\<close> and \<open>/delta\<close> answer, that a bundle served by \<open>/setup\<close> can still be brought to the head,
  and that a resumed download is never spliced from two bundles.
\<close>

section \<open>The window\<close>

abbreviation keyed :: "block_delta list \<Rightarrow> (u64, block_delta) btree" where
  "keyed ds \<equiv> map (\<lambda>d. (delta_block d, d)) ds"

abbreviation ascending :: "block_delta list \<Rightarrow> bool" where
  "ascending ds \<equiv> sorted_wrt (<) (map delta_block ds)"

lemma bt_insert_greatest: "(\<And>k'. k' \<in> fst ` set m \<Longrightarrow> k' < k) \<Longrightarrow> bt_insert k v m = m @ [(k, v)]"
  by (induction k v m rule: bt_insert.induct) force+

lemma bt_remove_stale:
  "bt_invar m \<Longrightarrow> foldl (\<lambda>m b. bt_remove b m) m (map fst (filter (\<lambda>(b, _). b < lo) m)) = filter (\<lambda>(b, _). \<not> b < lo) m"
proof (induction m)
  case (Cons kv m)
  obtain k v where kv: "kv = (k, v)" by (cases kv)
  have m: "bt_invar m" "\<forall>k' \<in> fst ` set m. k < k'" using Cons.prems by (auto simp: kv bt_invar_Cons)
  show ?case
  proof (cases "k < lo")
    case True
    then show ?thesis using Cons.IH[OF m(1)] by (simp add: kv)
  next
    case False
    then have "\<not> b < lo" if "(b, w) \<in> set m" for b w using m(2) that by force
    then have "filter (\<lambda>(b, _). b < lo) m = []" "filter (\<lambda>(b, _). \<not> b < lo) m = m"
      by (auto simp: filter_empty_conv filter_id_conv)
    then show ?thesis using False by (simp add: kv)
  qed
qed simp

lemma filter_from_nth:
  assumes "ascending ds" and "i < length ds"
  shows "filter (\<lambda>d. \<not> delta_block d < delta_block (ds ! i)) ds = drop i ds"
  using assms
proof (induction ds arbitrary: i)
  case (Cons d ds)
  show ?case
  proof (cases i)
    case 0
    then show ?thesis using Cons.prems(1) by (auto simp: filter_id_conv dest: less_not_sym)
  next
    case (Suc j)
    then have "j < length ds" using Cons.prems(2) by simp
    then have "d \<noteq> ds ! j" "delta_block d < delta_block (ds ! j)" using Cons.prems(1) by auto
    then show ?thesis using Cons.IH[of j] Cons.prems(1) Suc \<open>j < length ds\<close> by simp
  qed
qed simp

lemma evict_stale_window:
  assumes "ascending ds" and "in_per_block inner = keyed ds" and "ring_buf (in_ring inner) = drop i ds"
    and "i < length ds \<or> ds = []"
  shows "in_per_block (evict_stale inner) = keyed (drop i ds)"
    and "in_ring (evict_stale inner) = in_ring inner" and "in_server (evict_stale inner) = in_server inner"
proof -
  have inv: "bt_invar (keyed ds)" using assms(1) by (simp add: bt_invar_def comp_def)
  have split: "filter (\<lambda>(b, _). P b) (keyed ds) = keyed (filter (\<lambda>d. P (delta_block d)) ds)" for P
    by (induction ds) auto
  show "in_per_block (evict_stale inner) = keyed (drop i ds)"
  proof (cases "drop i ds")
    case Nil
    then show ?thesis using assms(2,3,4) by (auto simp: evict_stale_def ring_oldest_def)
  next
    case (Cons x xs)
    then have i: "i < length ds" "x = ds ! i"
      by (metis drop_all linorder_not_less list.distinct(1)) (metis Cons hd_drop_conv_nth list.sel(1) drop_all linorder_not_less list.distinct(1))
    have old: "ring_oldest (in_ring inner) = Some (delta_block (ds ! i))"
      using Cons assms(3) i(2) by (simp add: ring_oldest_def)
    have "foldl (\<lambda>m b. bt_remove b m) (keyed ds) (map fst (filter (\<lambda>(b, _). b < delta_block (ds ! i)) (keyed ds))) =
        keyed (drop i ds)"
      by (rule trans[OF bt_remove_stale[OF inv]]) (simp only: split filter_from_nth[OF assms(1) i(1)])
    then show ?thesis using assms(2) by (simp add: evict_stale_def old)
  qed
qed (simp_all add: evict_stale_def Let_def split: option.split)

text \<open>The ring and the index hold the last \<open>c\<close> of the deltas.\<close>

definition window :: "nat \<Rightarrow> block_delta list \<Rightarrow> ('s, 'cfg, 'p, 'mat) node_inner \<Rightarrow> bool" where
  "window c ds inner \<longleftrightarrow> 0 < c \<and> ring_capacity (in_ring inner) = c \<and> ring_buf (in_ring inner) = last_n c ds \<and>
     in_per_block inner = keyed (last_n c ds)"

lemma ascending_last_n: "ascending ds \<Longrightarrow> ascending (last_n c ds)"
  by (simp add: last_n_def sorted_wrt_drop flip: drop_map)

lemma last_n_snoc:
  assumes "0 < c"
  shows "last_n c (ds @ [d]) = drop (Suc (length (last_n c ds)) - c) (last_n c ds @ [d])"
  using assms by (cases "c \<le> length ds") (auto simp: last_n_def Suc_diff_le)

lemma index_delta_window:
  assumes w: "window c ds inner" and asc: "ascending (ds @ [d])"
  shows "window c (ds @ [d]) (evict_stale (index_delta inner d))"
    and "in_server (evict_stale (index_delta inner d)) = in_server inner"
proof -
  let ?l = "last_n c ds" and ?i = "Suc (length (last_n c ds)) - c"
  have f: "0 < c" "ring_capacity (in_ring inner) = c" "ring_buf (in_ring inner) = ?l"
    "in_per_block inner = keyed ?l"
    using w by (simp_all add: window_def)
  have asc': "ascending (?l @ [d])"
    using asc ascending_last_n[of ds c] set_last_n_subset[of c ds] by (auto simp: sorted_wrt_append)
  have ring: "ring_buf (in_ring (index_delta inner d)) = drop ?i (?l @ [d])"
    "ring_capacity (in_ring (index_delta inner d)) = c"
    using ring_push_window[of "in_ring inner" ds d, folded last_n_def] f unfolding last_n_snoc[OF f(1), symmetric]
    by (simp_all add: index_delta_def)
  have "bt_insert (delta_block d) d (keyed ?l) = keyed ?l @ [(delta_block d, d)]"
    using asc' by (intro bt_insert_greatest) (auto simp: sorted_wrt_append)
  then have pb: "in_per_block (index_delta inner d) = keyed (?l @ [d])"
    by (simp add: index_delta_def f)
  have "?i < length (?l @ [d]) \<or> ?l @ [d] = []" using f(1) by simp
  note e = evict_stale_window[OF asc' pb ring(1) this]
  show "window c (ds @ [d]) (evict_stale (index_delta inner d))"
    unfolding window_def using e ring f(1) last_n_snoc[OF f(1), of ds d] by simp
  show "in_server (evict_stale (index_delta inner d)) = in_server inner"
    using e(3) by (simp add: index_delta_def)
qed

text \<open>Seeding an empty window with the deltas of a replayed journal.\<close>

lemma foldl_index_delta:
  assumes "ring_capacity (in_ring inner) = c" "0 < c" and "ring_buf (in_ring inner) = last_n c xs"
    and "in_per_block inner = keyed xs" and "ascending (xs @ ds)"
  shows "ring_buf (in_ring (foldl index_delta inner ds)) = last_n c (xs @ ds) \<and>
    ring_capacity (in_ring (foldl index_delta inner ds)) = c \<and>
    in_per_block (foldl index_delta inner ds) = keyed (xs @ ds) \<and>
    in_server (foldl index_delta inner ds) = in_server inner"
  using assms
proof (induction ds arbitrary: inner xs)
  case (Cons d ds)
  let ?inner = "index_delta inner d"
  have "bt_insert (delta_block d) d (keyed xs) = keyed xs @ [(delta_block d, d)]"
    using Cons.prems(5) by (intro bt_insert_greatest) (auto simp: sorted_wrt_append)
  then have "in_per_block ?inner = keyed (xs @ [d])" by (simp add: index_delta_def Cons.prems(4))
  moreover have "ring_buf (in_ring ?inner) = last_n c (xs @ [d])" "ring_capacity (in_ring ?inner) = c"
    using ring_push_window[of "in_ring inner" xs d] Cons.prems(1-3) by (simp_all add: index_delta_def last_n_def)
  moreover have "in_server ?inner = in_server inner" by (simp add: index_delta_def)
  ultimately show ?case using Cons.IH[of ?inner "xs @ [d]"] Cons.prems(2,5) by simp
qed simp

lemma seed_history_window:
  assumes "ring_new c = Some ring" and "in_ring (nd_inner nd) = ring" and "in_per_block (nd_inner nd) = []"
    and "ascending ds"
  shows "window c ds (nd_inner (seed_history nd ds))"
    and "in_server (nd_inner (seed_history nd ds)) = in_server (nd_inner nd)"
proof -
  have r: "0 < c" "ring_capacity (in_ring (nd_inner nd)) = c" "ring_buf (in_ring (nd_inner nd)) = last_n c []"
    unfolding assms(2) using assms(1) by (auto simp: ring_new_def last_n_def split: if_splits)
  have f: "ring_buf (in_ring (foldl index_delta (nd_inner nd) ds)) = last_n c ds"
    "ring_capacity (in_ring (foldl index_delta (nd_inner nd) ds)) = c"
    "in_per_block (foldl index_delta (nd_inner nd) ds) = keyed ds"
    "in_server (foldl index_delta (nd_inner nd) ds) = in_server (nd_inner nd)"
    using foldl_index_delta[OF r(2,1,3), of ds] assms(3,4) by simp_all
  have "length ds - c < length ds \<or> ds = []" using r(1) by (cases ds) auto
  note e = evict_stale_window[OF assms(4) f(3) f(1)[unfolded last_n_def] this]
  show "window c ds (nd_inner (seed_history nd ds))"
    unfolding window_def using e f r(1) by (simp add: seed_history_def last_n_def)
  show "in_server (nd_inner (seed_history nd ds)) = in_server (nd_inner nd)"
    using e(3) f(4) by (simp add: seed_history_def)
qed

section \<open>Histories\<close>

text \<open>The database at block \<open>b\<close>: the database at the start and the deltas up to \<open>b\<close>.\<close>

definition history_at :: "(nat \<Rightarrow> u32 \<Rightarrow> u16 \<Rightarrow> int) \<Rightarrow> block_delta list \<Rightarrow> u64 \<Rightarrow> nat \<Rightarrow> u32 \<Rightarrow> u16 \<Rightarrow> int" where
  "history_at v0 ds b j row off =
     v0 j row off + (\<Sum>d \<leftarrow> filter (\<lambda>d. delta_block d \<le> b) ds. delta_effect d j row off)"

definition tracks :: "'s store_ops \<Rightarrow> ('s \<Rightarrow> slot_mutation list) \<Rightarrow> u64 \<Rightarrow> (nat \<Rightarrow> u32 \<Rightarrow> u16 \<Rightarrow> int)
    \<Rightarrow> block_delta list \<Rightarrow> ('s, 'cfg, 'sp, 'mat, 'h) rise_server \<Rightarrow> bool" where
  "tracks so log b0 v0 ds sv \<longleftrightarrow>
     log (sv_store sv) = [] \<and> sorted_wrt (<) (b0 # map delta_block ds) \<and>
     sv_block sv = last (b0 # map delta_block ds) \<and>
     (\<forall>d \<in> set ds. canonical_delta d \<and> length (per_segment d) = cp_arity (sv_params sv)) \<and>
     (\<forall>j < cp_arity (sv_params sv). \<forall>row off. history_at v0 ds (sv_block sv) j row off =
        uint (store_view so (sv_params sv) (sv_store sv) j row off))"

lemma tracksD:
  assumes "tracks so log b0 v0 ds sv"
  shows "ascending ds" and "b0 \<le> sv_block sv" and "d \<in> set ds \<Longrightarrow> b0 < delta_block d \<and> delta_block d \<le> sv_block sv"
proof -
  have t: "sorted_wrt (<) (b0 # map delta_block ds)" "sv_block sv = last (b0 # map delta_block ds)"
    using assms by (simp_all add: tracks_def)
  show "ascending ds" using t(1) by simp
  have s: "sorted (b0 # map delta_block ds)" using t(1) by (simp add: strict_sorted_imp_sorted del: sorted_wrt.simps)
  have le: "x \<le> last xs" if "x \<in> set xs" "sorted xs" for x and xs :: "u64 list"
    using that by (induction xs) auto
  show "b0 \<le> sv_block sv" using le[OF _ s] t(2) by simp
  show "b0 < delta_block d \<and> delta_block d \<le> sv_block sv" if "d \<in> set ds"
    using t that le[OF _ s, of "delta_block d"] by auto
qed

lemma tracks_view:
  "tracks so log b0 v0 ds sv \<Longrightarrow> j < cp_arity (sv_params sv) \<Longrightarrow>
    history_at v0 ds (sv_block sv) j row off = uint (store_view so (sv_params sv) (sv_store sv) j row off)"
  unfolding tracks_def by blast

lemma tracks_start:
  assumes "log (sv_store sv) = []"
  shows "tracks so log (sv_block sv) (\<lambda>j row off. uint (store_view so (sv_params sv) (sv_store sv) j row off)) [] sv"
  using assms by (simp add: tracks_def history_at_def)

lemma history_at_later: "b < delta_block d \<Longrightarrow> history_at v0 (ds @ [d]) b = history_at v0 ds b"
  by (intro ext) (auto simp: history_at_def dest: leD)

lemma history_at_snoc:
  assumes "b \<le> delta_block d" and "\<forall>x \<in> set ds. delta_block x \<le> b"
  shows "history_at v0 (ds @ [d]) (delta_block d) j row off = history_at v0 ds b j row off + delta_effect d j row off"
proof -
  have "filter (\<lambda>x. delta_block x \<le> delta_block d) ds = ds" "filter (\<lambda>x. delta_block x \<le> b) ds = ds"
    using assms by (auto simp: filter_id_conv)
  then show ?thesis by (simp add: history_at_def)
qed

lemma tracks_block:
  assumes t: "tracks so log b0 v0 ds sv" and contract: "store_contract so (sv_params sv) log"
    and ok: "apply_block_reporting xxh so be sv u = Some (Inr (d, rep), sv')"
  shows "tracks so log b0 v0 (ds @ [d]) sv'" and "sv_params sv' = sv_params sv" and "sv_block sv < delta_block d"
proof -
  have empty: "log (sv_store sv) = []" using t by (simp add: tracks_def)
  note a = apply_block_delta[OF contract empty ok]
  show "sv_params sv' = sv_params sv" "sv_block sv < delta_block d" using a by simp_all
  have b: "sv_block sv' = delta_block d" "sv_block sv \<le> delta_block d" using a by (simp_all add: less_imp_le)
  have "\<forall>x \<in> set ds. delta_block x \<le> sv_block sv" using tracksD(3)[OF t] by blast
  note h = history_at_snoc[OF b(2) this, of v0]
  have srt: "sorted_wrt (<) (b0 # map delta_block (ds @ [d]))"
    using t a tracksD(2,3)[OF t] by (auto simp: tracks_def sorted_wrt_append intro: le_less_trans)
  have "history_at v0 (ds @ [d]) (sv_block sv') j row off = uint (store_view so (sv_params sv) (sv_store sv') j row off)"
    if "j < cp_arity (sv_params sv)" for j row off
    using tracks_view[OF t that] a that unfolding b(1) h by simp
  then show "tracks so log b0 v0 (ds @ [d]) sv'"
    using t a b srt by (auto simp: tracks_def)
qed

section \<open>Runs\<close>

text \<open>A rejected block that has not touched the server leaves the node as it was.  A block that
  fails after its first write is not a step: the follow loop stops there.\<close>

inductive node_run :: "(bytes \<Rightarrow> u64 \<Rightarrow> u64) \<Rightarrow> 's store_ops \<Rightarrow> ('cfg, 'p, 'mat) node_backend \<Rightarrow> 'p node_ext
    \<Rightarrow> ('s, 'cfg, 'p, 'mat) node_state \<Rightarrow> block_delta list
    \<Rightarrow> block_delta list \<Rightarrow> (u64 \<times> bytes) list \<Rightarrow> ('s, 'cfg, 'p, 'mat) node_state \<Rightarrow> bool"
  for xxh so be ext n0 ds0 where
  node_start: "node_run xxh so be ext n0 ds0 ds0 [] n0"
| node_block: "node_run xxh so be ext n0 ds0 ds served n \<Longrightarrow> node_apply_block_reporting xxh so be n u = Some (Inr oc, n')
    \<Longrightarrow> node_run xxh so be ext n0 ds0 (ds @ [oc_delta oc]) served n'"
| node_reject: "node_run xxh so be ext n0 ds0 ds served n \<Longrightarrow> node_apply_block_reporting xxh so be n u = Some (Inl e, n')
    \<Longrightarrow> in_server (nd_inner n') = in_server (nd_inner n) \<Longrightarrow> node_run xxh so be ext n0 ds0 ds served n'"
| node_serve: "node_run xxh so be ext n0 ds0 ds served n \<Longrightarrow> node_setup_bytes ext n = Some ((bs, b), n')
    \<Longrightarrow> node_run xxh so be ext n0 ds0 ds (served @ [(b, bs)]) n'"
| node_note: "node_run xxh so be ext n0 ds0 ds served n
    \<Longrightarrow> node_run xxh so be ext n0 ds0 ds served (note_recent n addrs)"

text \<open>A bundle for block \<open>b\<close>: it encodes the parameters of the deployment and, per segment, the
  hint of the database \<open>v\<close>.\<close>

definition bundle_for :: "'p node_ext \<Rightarrow> ('p simple_server_params \<Rightarrow> 'mat \<Rightarrow> u32 list \<Rightarrow> (u32 \<Rightarrow> u16 \<Rightarrow> u32) \<Rightarrow> bool)
    \<Rightarrow> ('s, 'cfg, 'p, 'mat) node_state \<Rightarrow> (nat \<Rightarrow> u32 \<Rightarrow> u16 \<Rightarrow> int) \<Rightarrow> u64 \<Rightarrow> bytes \<Rightarrow> bool" where
  "bundle_for ext reps n v b bs \<longleftrightarrow>
     (\<exists>bundle. encode_setup (nx_arity ext) (nx_lib ext) bundle = Some bs \<and> wb_block bundle = b \<and>
        wb_params bundle = nd_fields n \<and> wb_backend_params bundle = nd_backend_params n \<and>
        (\<forall>j < cp_arity (sv_params (in_server (nd_inner n))).
           reps (nd_backend_params n ! j) (sv_material (in_server (nd_inner n)) ! j) (wb_hints bundle ! j)
             (\<lambda>row off. of_int (v j row off))))"

text \<open>How a deployment starts: its server tracks a history and has current hints, its window
  holds the last deltas of the history, and nothing is cached.\<close>

definition node_started :: "'s store_ops \<Rightarrow> ('s \<Rightarrow> slot_mutation list)
    \<Rightarrow> ('p simple_server_params \<Rightarrow> 'mat \<Rightarrow> u32 list \<Rightarrow> (u32 \<Rightarrow> u16 \<Rightarrow> u32) \<Rightarrow> bool)
    \<Rightarrow> u64 \<Rightarrow> (nat \<Rightarrow> u32 \<Rightarrow> u16 \<Rightarrow> int) \<Rightarrow> nat \<Rightarrow> nat \<Rightarrow> block_delta list \<Rightarrow> ('s, 'cfg, 'p, 'mat) node_state \<Rightarrow> bool" where
  "node_started so log reps b0 v0 c m ds0 n0 \<longleftrightarrow>
     tracks so log b0 v0 ds0 (in_server (nd_inner n0)) \<and> hints_current so reps (in_server (nd_inner n0)) \<and>
     m \<le> length ds0 \<and> window c (drop m ds0) (nd_inner n0) \<and> nd_setup_cache n0 = None \<and>
     nd_backend_params n0 = sv_backend_params (in_server (nd_inner n0))"

lemma node_new_started:
  assumes "tracks so log b0 v0 ds sv" and "hints_current so reps sv" and "ring_new c = Some ring"
  shows "node_started so log reps b0 v0 c (length ds - k) ds
    (seed_history (node_new ext flds sv ring complete) (last_n k ds))"
proof -
  let ?n = "node_new ext flds sv ring complete"
  have n: "in_ring (nd_inner ?n) = ring" "in_per_block (nd_inner ?n) = []" "in_server (nd_inner ?n) = sv"
    by (simp_all add: node_new_def Let_def)
  have "ascending (last_n k ds)" by (rule ascending_last_n[OF tracksD(1)[OF assms(1)]])
  note w = seed_history_window[OF assms(3) n(1,2) this]
  then show ?thesis
    using assms(1,2) n(3)
    by (simp add: node_started_def last_n_def) (simp add: seed_history_def node_new_def server_setup_bundle_def Let_def)
qed

section \<open>The invariant of a run\<close>

definition same_deployment :: "('s, 'cfg, 'p, 'mat) node_state \<Rightarrow> ('s, 'cfg, 'p, 'mat) node_state \<Rightarrow> bool" where
  "same_deployment n0 n \<longleftrightarrow>
     nd_fields n = nd_fields n0 \<and> nd_backend_params n = nd_backend_params n0 \<and> nd_epoch n = nd_epoch n0 \<and>
     nd_complete n = nd_complete n0 \<and>
     sv_params (in_server (nd_inner n)) = sv_params (in_server (nd_inner n0)) \<and>
     sv_material (in_server (nd_inner n)) = sv_material (in_server (nd_inner n0)) \<and>
     sv_backend_params (in_server (nd_inner n)) = nd_backend_params n0"

definition cache_latest :: "(u64 \<times> bytes) list \<Rightarrow> cached_setup option \<Rightarrow> bool" where
  "cache_latest served cache \<longleftrightarrow>
     (case cache of
        None \<Rightarrow> served = []
      | Some k \<Rightarrow> (cs_block k, cs_bytes k) \<in> set served \<and> (\<forall>x \<in> set served. fst x \<le> cs_block k))"

definition served_ok :: "'p node_ext \<Rightarrow> ('p simple_server_params \<Rightarrow> 'mat \<Rightarrow> u32 list \<Rightarrow> (u32 \<Rightarrow> u16 \<Rightarrow> u32) \<Rightarrow> bool)
    \<Rightarrow> u64 \<Rightarrow> (nat \<Rightarrow> u32 \<Rightarrow> u16 \<Rightarrow> int) \<Rightarrow> nat \<Rightarrow> ('s, 'cfg, 'p, 'mat) node_state \<Rightarrow> block_delta list \<Rightarrow> u64
    \<Rightarrow> (u64 \<times> bytes) list \<Rightarrow> bool" where
  "served_ok ext reps b0 v0 m n0 ds head served \<longleftrightarrow>
     (\<forall>(b, bs) \<in> set served. b0 \<le> b \<and> b \<le> head \<and> (\<forall>d \<in> set (take m ds). delta_block d \<le> b) \<and>
        bundle_for ext reps n0 (history_at v0 ds b) b bs) \<and>
     (\<forall>x \<in> set served. \<forall>y \<in> set served. fst x = fst y \<longrightarrow> x = y)"

definition node_invar :: "'s store_ops \<Rightarrow> ('s \<Rightarrow> slot_mutation list)
    \<Rightarrow> ('p simple_server_params \<Rightarrow> 'mat \<Rightarrow> u32 list \<Rightarrow> (u32 \<Rightarrow> u16 \<Rightarrow> u32) \<Rightarrow> bool) \<Rightarrow> 'p node_ext
    \<Rightarrow> u64 \<Rightarrow> (nat \<Rightarrow> u32 \<Rightarrow> u16 \<Rightarrow> int) \<Rightarrow> nat \<Rightarrow> nat \<Rightarrow> ('s, 'cfg, 'p, 'mat) node_state
    \<Rightarrow> block_delta list \<Rightarrow> (u64 \<times> bytes) list \<Rightarrow> ('s, 'cfg, 'p, 'mat) node_state \<Rightarrow> bool" where
  "node_invar so log reps ext b0 v0 c m n0 ds served n \<longleftrightarrow>
     tracks so log b0 v0 ds (in_server (nd_inner n)) \<and> hints_current so reps (in_server (nd_inner n)) \<and>
     m \<le> length ds \<and> window c (drop m ds) (nd_inner n) \<and> same_deployment n0 n \<and>
     cache_latest served (nd_setup_cache n) \<and>
     served_ok ext reps b0 v0 m n0 ds (sv_block (in_server (nd_inner n))) served"

lemma node_invarD:
  assumes "node_invar so log reps ext b0 v0 c m n0 ds served n"
  shows "tracks so log b0 v0 ds (in_server (nd_inner n))" and "hints_current so reps (in_server (nd_inner n))"
    and "m \<le> length ds" and "window c (drop m ds) (nd_inner n)" and "same_deployment n0 n"
    and "cache_latest served (nd_setup_cache n)"
    and "served_ok ext reps b0 v0 m n0 ds (sv_block (in_server (nd_inner n))) served"
  using assms by (simp_all add: node_invar_def)

lemma node_started_invar:
  "node_started so log reps b0 v0 c m ds0 n0 \<Longrightarrow> node_invar so log reps ext b0 v0 c m n0 ds0 [] n0"
  by (simp add: node_started_def node_invar_def same_deployment_def cache_latest_def served_ok_def)

lemma node_apply_InrD:
  assumes "node_apply_block_reporting xxh so be n u = Some (Inr oc, n')"
  obtains rep sv where "apply_block_reporting xxh so be (in_server (nd_inner n)) u = Some (Inr (oc_delta oc, rep), sv)"
    and "n' = n\<lparr> nd_inner := evict_stale (index_delta ((nd_inner n)\<lparr> in_server := sv \<rparr>) (oc_delta oc)) \<rparr>"
    and "oc_delta_bytes oc = encoded_len (oc_delta oc)" and "oc_report oc = rep"
proof -
  obtain r sv where a: "apply_block_reporting xxh so be (in_server (nd_inner n)) u = Some (r, sv)"
    using assms by (auto simp: node_apply_block_reporting_def bind_eq_Some_conv)
  show thesis
  proof (cases r)
    case (Inl e)
    then show ?thesis using assms a by (simp add: node_apply_block_reporting_def)
  next
    case (Inr x)
    obtain d rep where x: "x = (d, rep)" by (cases x)
    have "oc = \<lparr> oc_delta = d, oc_report = rep, oc_delta_bytes = encoded_len d \<rparr>"
      "n' = n\<lparr> nd_inner := evict_stale (index_delta ((nd_inner n)\<lparr> in_server := sv \<rparr>) d) \<rparr>"
      using assms a by (auto simp: node_apply_block_reporting_def Inr x)
    then show ?thesis using that[of rep sv] a by (simp add: Inr x)
  qed
qed

lemma node_apply_InlD:
  assumes "node_apply_block_reporting xxh so be n u = Some (Inl e, n')"
  obtains sv where "apply_block_reporting xxh so be (in_server (nd_inner n)) u = Some (Inl e, sv)"
    and "n' = n\<lparr> nd_inner := (nd_inner n)\<lparr> in_server := sv \<rparr> \<rparr>"
proof -
  obtain r sv where a: "apply_block_reporting xxh so be (in_server (nd_inner n)) u = Some (r, sv)"
    using assms by (auto simp: node_apply_block_reporting_def bind_eq_Some_conv)
  show thesis
  proof (cases r)
    case (Inl e')
    then show ?thesis using assms a that[of sv] by (simp add: node_apply_block_reporting_def)
  next
    case (Inr x)
    then show ?thesis using assms a by (cases x) (simp add: node_apply_block_reporting_def)
  qed
qed

lemma window_server [simp]: "window c ds (inner\<lparr> in_server := sv \<rparr>) \<longleftrightarrow> window c ds inner"
  by (simp add: window_def)

lemma invar_block:
  assumes inv: "node_invar so log reps ext b0 v0 c m n0 ds served n"
    and contract: "store_contract so (sv_params (in_server (nd_inner n0))) log"
    and backend: "backend_contract be (sv_params (in_server (nd_inner n0))) reps"
    and ok: "node_apply_block_reporting xxh so be n u = Some (Inr oc, n')"
  shows "node_invar so log reps ext b0 v0 c m n0 (ds @ [oc_delta oc]) served n'"
proof -
  let ?sv = "in_server (nd_inner n)" and ?d = "oc_delta oc"
  note i = node_invarD[OF inv]
  obtain rep sv where a: "apply_block_reporting xxh so be ?sv u = Some (Inr (?d, rep), sv)"
    and n': "n' = n\<lparr> nd_inner := evict_stale (index_delta ((nd_inner n)\<lparr> in_server := sv \<rparr>) ?d) \<rparr>"
    using node_apply_InrD[OF ok] by blast
  have p: "sv_params ?sv = sv_params (in_server (nd_inner n0))" using i(5) by (simp add: same_deployment_def)
  have c: "store_contract so (sv_params ?sv) log" "backend_contract be (sv_params ?sv) reps"
    unfolding p by (rule contract, rule backend)
  have empty: "log (sv_store ?sv) = []" using i(1) by (simp add: tracks_def)
  note t = tracks_block[OF i(1) c(1) a]
  have asc: "ascending (drop m ds @ [?d])"
    using tracksD(1)[OF t(1)] i(3) sorted_wrt_drop[of "(<)" "map delta_block (ds @ [?d])" m]
    by (simp add: drop_map)
  have w0: "window c (drop m ds) ((nd_inner n)\<lparr> in_server := sv \<rparr>)" using i(4) by simp
  note w = index_delta_window[OF w0 asc]
  have sv: "in_server (nd_inner n') = sv" using w(2) by (simp add: n')
  have fields: "sv_material sv = sv_material ?sv" "sv_backend_params sv = sv_backend_params ?sv"
    using a by (auto elim!: apply_block_okD)
  have head: "sv_block ?sv < delta_block ?d" "sv_block sv = delta_block ?d"
    using t(3) t(1) by (simp_all add: tracks_def)
  have "served_ok ext reps b0 v0 m n0 (ds @ [?d]) (sv_block sv) served"
  proof -
    have "b < delta_block ?d" if "(b, bs) \<in> set served" for b bs
      using i(7) that head(1) unfolding served_ok_def by fastforce
    then have "history_at v0 (ds @ [?d]) b = history_at v0 ds b" "b \<le> sv_block sv" if "(b, bs) \<in> set served" for b bs
      using that head(2) history_at_later by (blast, simp add: less_imp_le)
    then show ?thesis
      using i(7) i(3) unfolding served_ok_def by fastforce
  qed
  moreover have "same_deployment n0 n'"
    using i(5) t(2) fields sv by (simp add: same_deployment_def n')
  moreover have "window c (drop m (ds @ [?d])) (nd_inner n')"
    using w(1) i(3) by (simp add: n')
  moreover have "cache_latest served (nd_setup_cache n')" using i(6) by (simp add: n')
  ultimately show ?thesis
    using t(1) apply_block_hints[OF c(1) empty c(2) i(2) a] i(3) by (simp add: node_invar_def sv)
qed

lemma setup_bytes_cases:
  assumes "node_setup_bytes ext n = Some ((bs, b), n')"
  obtains (hit) k where "nd_setup_cache n = Some k" "b = cs_block k" "bs = cs_bytes k" "n' = n"
      "unat (sv_block (in_server (nd_inner n))) - unat b \<le> ring_capacity (in_ring (nd_inner n)) div 8"
  | (fresh) "encode_setup (nx_arity ext) (nx_lib ext) (setup_of (nd_fields n) (in_server (nd_inner n))) = Some bs"
      "b = sv_block (in_server (nd_inner n))" "\<And>k. nd_setup_cache n = Some k \<Longrightarrow> cs_block k < b"
      "n' = n\<lparr> nd_setup_generation := nd_setup_generation n + 1,
         nd_setup_cache := Some \<lparr> cs_block = b, cs_bytes = bs \<rparr> \<rparr>"
proof (cases "\<exists>k. nd_setup_cache n = Some k \<and>
    unat (sv_block (in_server (nd_inner n))) - unat (cs_block k) \<le> ring_capacity (in_ring (nd_inner n)) div 8")
  case True
  then obtain k where k: "nd_setup_cache n = Some k"
    "unat (sv_block (in_server (nd_inner n))) - unat (cs_block k) \<le> ring_capacity (in_ring (nd_inner n)) div 8"
    by blast
  then have "bs = cs_bytes k" "b = cs_block k" "n' = n"
    using assms by (simp_all add: node_setup_bytes_def Let_def)
  with k show ?thesis by (intro hit[of k]) simp_all
next
  case False
  have lt: "cs_block k < sv_block (in_server (nd_inner n))" if "nd_setup_cache n = Some k" for k
    using False that by (force simp: word_less_nat_alt)
  have "node_setup_bytes ext n = map_option (\<lambda>bs. ((bs, sv_block (in_server (nd_inner n))),
      n\<lparr> nd_setup_generation := nd_setup_generation n + 1,
         nd_setup_cache := Some \<lparr> cs_block = sv_block (in_server (nd_inner n)), cs_bytes = bs \<rparr> \<rparr>))
      (encode_setup (nx_arity ext) (nx_lib ext) (setup_of (nd_fields n) (in_server (nd_inner n))))"
    using False by (cases "nd_setup_cache n") (simp_all add: node_setup_bytes_def Let_def setup_of_def)
  with assms have e: "encode_setup (nx_arity ext) (nx_lib ext) (setup_of (nd_fields n) (in_server (nd_inner n))) = Some bs"
    "b = sv_block (in_server (nd_inner n))"
    "n' = n\<lparr> nd_setup_generation := nd_setup_generation n + 1,
         nd_setup_cache := Some \<lparr> cs_block = b, cs_bytes = bs \<rparr> \<rparr>"
    by auto
  with lt show ?thesis by (intro fresh) simp_all
qed

lemma invar_serve:
  assumes inv: "node_invar so log reps ext b0 v0 c m n0 ds served n"
    and ok: "node_setup_bytes ext n = Some ((bs, b), n')"
  shows "node_invar so log reps ext b0 v0 c m n0 ds (served @ [(b, bs)]) n'"
  using ok
proof (cases rule: setup_bytes_cases)
  case (hit k)
  then have "(b, bs) \<in> set served" using node_invarD(6)[OF inv] by (simp add: cache_latest_def)
  then have "set (served @ [(b, bs)]) = set served" by auto
  then show ?thesis
    using inv hit(1,4) unfolding node_invar_def cache_latest_def served_ok_def by simp
next
  case fresh
  let ?sv = "in_server (nd_inner n)"
  note i = node_invarD[OF inv]
  have same: "nd_fields n = nd_fields n0" "sv_params ?sv = sv_params (in_server (nd_inner n0))"
    "sv_material ?sv = sv_material (in_server (nd_inner n0))" "sv_backend_params ?sv = nd_backend_params n0"
    using i(5) by (simp_all add: same_deployment_def)
  have new: "fst x < b" if "x \<in> set served" for x
    using i(6) that fresh(3) by (auto simp: cache_latest_def split: option.splits dest: le_less_trans)
  have view: "store_view so (sv_params ?sv) (sv_store ?sv) j = (\<lambda>row off. of_int (history_at v0 ds b j row off))"
    if "j < cp_arity (sv_params ?sv)" for j
    using tracks_view[OF i(1) that] by (intro ext) (simp add: fresh(2))
  have "bundle_for ext reps n0 (history_at v0 ds b) b bs"
    unfolding bundle_for_def
    using fresh(1,2) i(2) view unfolding same hints_current_def
    by (intro exI[of _ "setup_of (nd_fields n) ?sv"]) (simp add: setup_of_def same)
  moreover have "b0 \<le> b" "\<forall>d \<in> set (take m ds). delta_block d \<le> b"
    using tracksD[OF i(1)] in_set_takeD[of _ m ds] by (auto simp: fresh(2))
  ultimately have "served_ok ext reps b0 v0 m n0 ds b (served @ [(b, bs)])"
    using i(7) new by (force simp: served_ok_def fresh(2)[symmetric])
  moreover have "cache_latest (served @ [(b, bs)]) (nd_setup_cache n')"
    using new by (auto simp: cache_latest_def fresh(4) less_imp_le)
  ultimately show ?thesis
    using i(1-5) by (simp add: node_invar_def fresh(2,4) same_deployment_def)
qed

lemma invar_server_kept:
  assumes "node_invar so log reps ext b0 v0 c m n0 ds served n" and "same_deployment n n'"
    and "in_server (nd_inner n') = in_server (nd_inner n)" and "nd_setup_cache n' = nd_setup_cache n"
    and "in_ring (nd_inner n') = in_ring (nd_inner n)" "in_per_block (nd_inner n') = in_per_block (nd_inner n)"
  shows "node_invar so log reps ext b0 v0 c m n0 ds served n'"
  using assms by (simp add: node_invar_def same_deployment_def window_def)

lemma node_run_invar:
  assumes run: "node_run xxh so be ext n0 ds0 ds served n"
    and start: "node_started so log reps b0 v0 c m ds0 n0"
    and contract: "store_contract so (sv_params (in_server (nd_inner n0))) log"
    and backend: "backend_contract be (sv_params (in_server (nd_inner n0))) reps"
  shows "node_invar so log reps ext b0 v0 c m n0 ds served n"
  using run
proof (induction rule: node_run.induct)
  case node_start
  show ?case by (rule node_started_invar[OF start])
next
  case (node_block ds served n u oc n')
  show ?case by (rule invar_block[OF node_block.IH contract backend node_block.hyps(2)])
next
  case (node_reject ds served n u e n')
  obtain sv where "n' = n\<lparr> nd_inner := (nd_inner n)\<lparr> in_server := sv \<rparr> \<rparr>"
    using node_apply_InlD[OF node_reject.hyps(2)] by blast
  then show ?case
    using node_reject.IH node_reject.hyps(3)
    by (intro invar_server_kept[OF node_reject.IH]) (simp_all add: same_deployment_def node_invar_def)
next
  case (node_serve ds served n bs b n')
  show ?case by (rule invar_serve[OF node_serve.IH node_serve.hyps(2)])
next
  case (node_note ds served n addrs)
  then show ?case
    by (intro invar_server_kept[OF node_note.IH]) (simp_all add: same_deployment_def node_invar_def note_recent_def)
qed

section \<open>Served ranges\<close>

lemma sum_filter_between:
  fixes f :: "'a \<Rightarrow> int"
  assumes "\<And>x. P x \<Longrightarrow> Q x"
  shows "(\<Sum>x \<leftarrow> filter Q xs. f x) = (\<Sum>x \<leftarrow> filter P xs. f x) + (\<Sum>x \<leftarrow> filter (\<lambda>x. Q x \<and> \<not> P x) xs. f x)"
  using assms by (induction xs) auto

lemma last_n_suffix: "\<exists>k. last_n c (drop m ds) = drop k ds"
  unfolding last_n_def drop_drop by blast

lemma window_range:
  assumes t: "tracks so log b0 v0 ds sv" and w: "window c (drop m ds) inner"
    and r: "ring_range (in_ring inner) from_b to_b = Some d"
  shows "from_b < to_b \<and> to_b \<le> sv_block sv \<and> delta_block d = to_b \<and> canonical_delta d \<and>
    length (per_segment d) = cp_arity (sv_params sv) \<and>
    delta_effect d j row off = history_at v0 ds to_b j row off - history_at v0 ds from_b j row off"
proof -
  obtain k where k: "ring_buf (in_ring inner) = drop k ds"
    using w last_n_suffix[of c m ds] by (auto simp: window_def)
  let ?in = "\<lambda>d. from_b < delta_block d \<and> delta_block d \<le> to_b"
  note s = ring_range_sound[OF r]
  have sel: "length (filter ?in (drop k ds)) = unat to_b - unat from_b"
    "block_run (Suc (unat from_b)) (filter ?in (drop k ds))"
    and eff: "delta_effect d j row off = (\<Sum>d \<leftarrow> filter ?in (drop k ds). delta_effect d j row off)"
    using s unfolding k by auto
  have lt: "unat from_b < unat to_b" using s by (simp add: word_less_nat_alt)
  then have ne: "filter ?in (drop k ds) \<noteq> []" using sel(1) by (metis list.size(3) zero_less_diff less_numeral_extra(3))
  then obtain x where x: "x \<in> set (drop k ds)" "unat (delta_block x) = Suc (unat from_b)"
    using sel(2) nth_mem[of 0 "filter ?in (drop k ds)"] by (auto simp: block_run_def)
  have asc: "ascending (take k ds @ drop k ds)" using tracksD(1)[OF t] by simp
  have none: "filter ?in (take k ds) = []"
  proof -
    have "\<not> from_b < delta_block y" if y: "y \<in> set (take k ds)" for y
    proof -
      have "delta_block y < delta_block x"
        using asc x(1) y unfolding map_append sorted_wrt_append by auto
      then show ?thesis using x(2) by (simp add: word_less_nat_alt)
    qed
    then show ?thesis by (auto simp: filter_empty_conv)
  qed
  have "filter ?in ds = filter ?in (take k ds) @ filter ?in (drop k ds)"
    by (metis append_take_drop_id filter_append)
  then have sel': "filter ?in ds = filter ?in (drop k ds)" using none by simp
  have both: "filter (\<lambda>d. delta_block d \<le> to_b \<and> \<not> delta_block d \<le> from_b) ds = filter ?in ds"
    by (rule filter_cong) auto
  have "delta_block x \<le> from_b \<Longrightarrow> delta_block x \<le> to_b" for x using lt by (simp add: word_le_nat_alt)
  from sum_filter_between[of "\<lambda>d. delta_block d \<le> from_b" "\<lambda>d. delta_block d \<le> to_b", OF this,
      of "\<lambda>d. delta_effect d j row off" ds, unfolded both]
  have "history_at v0 ds to_b j row off - history_at v0 ds from_b j row off = delta_effect d j row off"
    unfolding history_at_def eff sel'[symmetric] by linarith
  moreover have "\<forall>d \<in> set (ring_buf (in_ring inner)). length (per_segment d) = cp_arity (sv_params sv)"
    using t in_set_dropD[of _ k ds] unfolding k tracks_def by blast
  then have "length (per_segment d) = cp_arity (sv_params sv)" by (rule ring_range_length[OF r])
  moreover have "to_b \<le> sv_block sv"
  proof -
    have l: "length (filter ?in (drop k ds)) - 1 < length (filter ?in (drop k ds))" using ne by simp
    define y where "y = filter ?in (drop k ds) ! (length (filter ?in (drop k ds)) - 1)"
    have "y \<in> set ds" using nth_mem[OF l] in_set_dropD[of _ k ds] unfolding y_def by auto
    moreover have "unat (delta_block y) = unat to_b"
      using sel(2) l lt unfolding y_def block_run_def sel(1) by simp
    then have "delta_block y = to_b" by (simp only: word_unat_eq_iff)
    ultimately show ?thesis using tracksD(3)[OF t, of y] by simp
  qed
  ultimately show ?thesis using s by simp
qed

lemma map_of_keyed: "map_of (keyed ds) b = find (\<lambda>d. delta_block d = b) ds"
  by (induction ds) auto

lemma window_catches_up:
  assumes t: "tracks so log b0 v0 ds sv" and w: "window c (drop m ds) inner" and m: "m \<le> length ds"
    and consecutive: "block_run (Suc (unat b0)) ds" and mag: "(\<Sum>d \<leftarrow> ds. delta_mag d) < 2 ^ 63"
    and low: "b0 \<le> b" "\<forall>d \<in> set (take m ds). delta_block d \<le> b"
    and near: "unat (sv_block sv) - unat b \<le> c" and lt: "b < sv_block sv"
  shows "\<exists>d. ring_range (in_ring inner) b (sv_block sv) = Some d"
proof -
  let ?k = "length (drop m ds) - c + m"
  have k: "ring_buf (in_ring inner) = drop ?k ds"
    using w by (simp add: window_def last_n_def)
  have head: "unat (sv_block sv) = unat b0 + length ds"
    using t consecutive by (cases ds rule: rev_cases) (auto simp: tracks_def block_run_def nth_append)
  have kl: "?k \<le> length ds" using m by simp
  show ?thesis
  proof (rule ring_range_complete)
    show "block_run (Suc (unat b0) + ?k) (ring_buf (in_ring inner))"
      unfolding k block_run_def
    proof (intro allI impI)
      fix i assume "i < length (drop ?k ds)"
      then have "?k + i < length ds" by simp
      then show "unat (delta_block (drop ?k ds ! i)) = Suc (unat b0) + ?k + i"
        using consecutive kl by (simp add: block_run_def)
    qed
    show "Suc (unat b0) + ?k \<le> Suc (unat b)"
    proof (cases "length (drop m ds) \<le> c")
      case True
      then have "?k = m" by simp
      moreover have "unat b0 + m \<le> unat b"
      proof (cases m)
        case (Suc i)
        then have "ds ! i \<in> set (take m ds)" using m by (auto simp: in_set_conv_nth intro!: exI[of _ i])
        then have "delta_block (ds ! i) \<le> b" using low(2) by blast
        moreover have "unat (delta_block (ds ! i)) = Suc (unat b0) + i"
          using consecutive m Suc by (simp add: block_run_def)
        ultimately show ?thesis using Suc by (simp add: word_le_nat_alt)
      qed (use low(1) in \<open>simp add: word_le_nat_alt\<close>)
      ultimately show ?thesis by simp
    next
      case False
      then have "unat b0 + ?k + c = unat b0 + length ds" using m by simp
      then show ?thesis using near head by linarith
    qed
    show "unat (sv_block sv) < Suc (unat b0) + ?k + length (ring_buf (in_ring inner))"
      unfolding head k using kl by simp
    show "\<forall>d \<in> set (ring_buf (in_ring inner)). length (per_segment d) = cp_arity (sv_params sv)"
      using t in_set_dropD[of _ ?k ds] unfolding k tracks_def by blast
    have "(\<Sum>d \<leftarrow> drop ?k ds. delta_mag d) \<le> (\<Sum>d \<leftarrow> ds. delta_mag d)"
    proof -
      have "(\<Sum>d \<leftarrow> ds. delta_mag d) = (\<Sum>d \<leftarrow> take ?k ds. delta_mag d) + (\<Sum>d \<leftarrow> drop ?k ds. delta_mag d)"
        by (metis append_take_drop_id map_append sum_list.append)
      moreover have "0 \<le> (\<Sum>d \<leftarrow> take ?k ds. delta_mag d)" by (rule sum_list_map_nonneg) simp
      ultimately show ?thesis by linarith
    qed
    then show "(\<Sum>d \<leftarrow> ring_buf (in_ring inner). delta_mag d) < 2 ^ 63"
      unfolding k using mag by linarith
  qed (rule lt)
qed

section \<open>A block that fails on the way\<close>

lemma apply_changes_refused:
  "apply_changes xxh so p codec cs cnt store = Some (Inr cnt1, store1) \<Longrightarrow>
   apply_change xxh so p codec addr bal store1 = Some (Inl e, store2) \<Longrightarrow>
   apply_changes xxh so p codec (cs @ (addr, bal) # left) cnt store = Some (Inl e, store2)"
proof (induction cs arbitrary: cnt store)
  case (Cons c cs)
  obtain a b where c: "c = (a, b)" by (cases c)
  from Cons.prems(1) obtain r s where s: "apply_change xxh so p codec a b store = Some (r, s)"
    by (auto simp: c bind_eq_Some_conv)
  with Cons show ?case by (cases r) (auto simp: c)
qed auto

lemma node_server_kept: "in_server (evict_stale (index_delta inner d)) = in_server inner"
  by (simp add: evict_stale_def index_delta_def Let_def split: option.split)

lemma refused_change_fails_block:
  assumes "sv_block sv < update_block u" and "changes u = applied @ (addr, bal) # left"
    and "apply_changes xxh so (sv_params sv) (sv_codec sv) applied (0, 0, 0, 0) (sv_store sv) = Some (Inr cnt, store1)"
    and "apply_change xxh so (sv_params sv) (sv_codec sv) addr bal store1 = Some (Inl e, store2)"
  shows "apply_block_reporting xxh so be sv u = Some (Inl e, sv\<lparr> sv_store := drain_log so store2 \<rparr>)"
  using assms(1)[folded not_le] apply_changes_refused[OF assms(3,4), of left]
  by (simp add: apply_block_reporting_def assms(2) reject_block_def)

text \<open>A successful block patches the hints by its delta, whatever database they describe.\<close>

lemma block_patches_hints:
  assumes contract: "store_contract so (sv_params sv) log" and empty: "log (sv_store sv) = []"
    and backend: "backend_contract be (sv_params sv) reps"
    and len: "length (sv_backend_params sv) = cp_arity (sv_params sv)" "length (sv_material sv) = cp_arity (sv_params sv)"
      "length (sv_hints sv) = cp_arity (sv_params sv)"
    and hints: "\<forall>j < cp_arity (sv_params sv). reps (sv_backend_params sv ! j) (sv_material sv ! j) (sv_hints sv ! j) (db j)"
    and ok: "apply_block_reporting xxh so be sv u = Some (Inr (d, rep), sv')"
  shows "\<forall>j < cp_arity (sv_params sv). reps (sv_backend_params sv' ! j) (sv_material sv' ! j) (sv_hints sv' ! j)
    (add_view (db j) (per_segment d ! j))"
  using ok
proof (rule apply_block_okD)
  fix rows hints store3
  assume p: "patch_hints be (sv_backend_params sv) (sv_material sv) 0 rows (sv_hints sv) = Some hints"
    and d: "d = \<lparr> delta_block = update_block u, per_segment = rows \<rparr>"
    and sv': "sv' = sv\<lparr>sv_store := store3, sv_hints := hints, sv_block := update_block u\<rparr>"
  note delta = apply_block_delta[OF contract empty ok]
  have patch: "\<forall>sp mat h db rs. reps sp mat h db \<and> canonical_rows rs \<longrightarrow>
      reps sp mat (sb_patch_hint be sp mat h rs) (add_view db rs)"
    using backend by (simp add: backend_contract_def)
  have rows: "length rows = cp_arity (sv_params sv)" "\<forall>rs \<in> set rows. canonical_rows rs"
    using delta by (auto simp: d canonical_delta_def in_set_conv_nth)
  from patch_hints_reps[OF patch, of 0 rows "sv_hints sv" "sv_backend_params sv" "sv_material sv"] p rows len hints
  show ?thesis by (simp add: sv' d)
qed

section \<open>Concrete data\<close>

text \<open>A node over the one-cell store of theory \<open>Server\<close>, with a backend whose hint is the list of
  that cell.\<close>

definition pin_backend :: "(unit, toy_params, unit) node_backend" where
  "pin_backend = \<lparr> sb_server_setup = (\<lambda>_ cells _ _ _. (toy_server_params 7, (), take 1 cells)),
     sb_expand_material = (\<lambda>_. ()), sb_server_answer = (\<lambda>_ cells _ _ _. cells),
     sb_patch_hint = (\<lambda>_ _ h rs. [hd h + of_int (rows_effect rs 0 0)]) \<rparr>"

definition pin_reps :: "toy_params simple_server_params \<Rightarrow> unit \<Rightarrow> u32 list \<Rightarrow> (u32 \<Rightarrow> u16 \<Rightarrow> u32) \<Rightarrow> bool" where
  "pin_reps _ _ h db \<longleftrightarrow> h = [db 0 0]"

definition pin_ext :: "toy_params node_ext" where
  "pin_ext = \<lparr> nx_arity = (\<lambda>_. 1), nx_lib = toy_simple_lib, nx_keccak = (\<lambda>_. replicate 32 0xAB) \<rparr>"

definition pin_server :: "u32 \<Rightarrow> u64 \<Rightarrow> (u32 \<times> slot_mutation list, unit, toy_params simple_server_params, unit, u32 list) rise_server" where
  "pin_server c b = \<lparr> sv_store = (c, []), sv_params = example_params, sv_config = (),
     sv_backend_params = [toy_server_params 7], sv_material = [()], sv_hints = [[c]],
     sv_block = b, sv_codec = tiny_codec \<rparr>"

definition pin_node :: "u32 \<Rightarrow> u64 \<Rightarrow> block_delta list \<Rightarrow> cached_setup option \<Rightarrow> nat
    \<Rightarrow> (u32 \<times> slot_mutation list, unit, toy_params, unit) node_state" where
  "pin_node c b ds cache g = \<lparr> nd_inner = \<lparr> in_server = pin_server c b,
       in_ring = \<lparr> ring_capacity = 8, ring_buf = ds \<rparr>, in_per_block = keyed ds \<rparr>,
     nd_fields = wb_params toy_bundle, nd_complete = True, nd_backend_params = [toy_server_params 7],
     nd_recent = [], nd_setup_cache = cache, nd_setup_generation = g, nd_epoch = ''abababababababab'' \<rparr>"

definition pin_delta :: block_delta where
  "pin_delta = \<lparr> delta_block = 7, per_segment = [[(0, [(0, 8)])]] \<rparr>"

definition pin_bundle :: "u32 \<Rightarrow> u64 \<Rightarrow> bytes" where
  "pin_bundle c b = the (encode_setup (\<lambda>_. 1) toy_simple_lib (setup_of (wb_params toy_bundle) (pin_server c b)))"

lemma pin_backend_contract: "backend_contract pin_backend example_params pin_reps"
proof -
  have "take 1 seg = [db_view example_params cells j 0 0]" if "segment_slice example_params cells j = Some seg"
    for cells j seg
  proof -
    have "j < length cells" "seg = [cells ! j]"
      using that by (auto simp: segment_slice_def get_range_Some_iff seg_cells_of_def row_width_of_def
          example_params_def take_Suc_conv_app_nth simp flip: Cons_nth_drop_Suc)
    then show ?thesis
      by (simp add: db_view_def seg_cells_of_def row_width_of_def example_params_def)
  qed
  then show ?thesis
    by (simp add: backend_contract_def pin_backend_def pin_reps_def add_view_def)
qed

lemma pin_new: "pin_node c b [] None 0 =
    node_new pin_ext (wb_params toy_bundle) (pin_server c b) \<lparr> ring_capacity = 8, ring_buf = [] \<rparr> True"
proof -
  have "lineage_epoch (\<lambda>_. replicate 32 0xAB) toy_simple_lib [toy_server_params 7] = ''abababababababab''"
  proof -
    have "hex_byte 0xAB = ''ab''" by code_simp
    then show ?thesis by (simp add: lineage_epoch_def) (simp add: eval_nat_numeral)
  qed
  then show ?thesis
    by (simp add: node_new_def pin_node_def pin_server_def server_setup_bundle_def pin_ext_def Let_def)
qed

lemma pin_started:
  "node_started example_store snd pin_reps 6 (\<lambda>_ _ _. 0) 8 0 [] (pin_node 0 6 [] None 0)"
proof -
  have "cp_arity example_params = 1" by (simp add: example_params_def)
  moreover have "so_cells example_store s = [fst s]" for s by (simp add: example_store_def)
  ultimately show ?thesis
    by (simp add: node_started_def tracks_def history_at_def hints_current_def window_def last_n_def pin_node_def
        pin_server_def pin_reps_def example_db_view)
qed

lemma pin_apply:
  "\<exists>oc. node_apply_block_reporting example_hash example_store pin_backend (pin_node 0 6 [] k g) (example_update 7 5) =
     Some (Inr oc, pin_node 8 7 [pin_delta] k g) \<and> oc_delta oc = pin_delta"
proof -
  have "\<exists>rep. apply_block_reporting example_hash example_store pin_backend (pin_server 0 6) (example_update 7 5) =
      Some (Inr (pin_delta, rep), pin_server 8 7)"
    by (simp add: apply_block_reporting_def apply_change_def pin_server_def example_store_def pin_backend_def
        pin_delta_def tiny_encode tiny_locate tiny_get tiny_fold example_write_def example_update_def
        checked_add_u_def get_def)
  then show ?thesis
    by (auto simp: node_apply_block_reporting_def pin_node_def index_delta_def evict_stale_def ring_push_def
        ring_oldest_def pin_delta_def)
qed

lemma pin_serve:
  "node_setup_bytes pin_ext (pin_node c b ds None g) =
     Some ((pin_bundle c b, b), pin_node c b ds (Some \<lparr> cs_block = b, cs_bytes = pin_bundle c b \<rparr>) (g + 1))"
  by (simp add: node_setup_bytes_def pin_node_def pin_ext_def pin_bundle_def encode_setup_def setup_of_def)
    (simp add: pin_server_def)

lemma pin_run:
  "node_run example_hash example_store pin_backend pin_ext (pin_node 0 6 [] None 0) []
     [pin_delta] [(6, pin_bundle 0 6)] (pin_node 8 7 [pin_delta] (Some \<lparr> cs_block = 6, cs_bytes = pin_bundle 0 6 \<rparr>) 1)"
proof -
  note start = node_run.node_start[of example_hash example_store pin_backend pin_ext "pin_node 0 6 [] None 0" "[]"]
  note served = node_run.node_serve[OF start pin_serve]
  obtain oc where "node_apply_block_reporting example_hash example_store pin_backend
      (pin_node 0 6 [] (Some \<lparr> cs_block = 6, cs_bytes = pin_bundle 0 6 \<rparr>) (0 + 1)) (example_update 7 5) =
    Some (Inr oc, pin_node 8 7 [pin_delta] (Some \<lparr> cs_block = 6, cs_bytes = pin_bundle 0 6 \<rparr>) (0 + 1))"
    "oc_delta oc = pin_delta" using pin_apply by blast
  from node_run.node_block[OF served this(1)] this(2) show ?thesis by simp
qed

lemma pin_params: "sv_params (in_server (nd_inner (pin_node c b ds k g))) = example_params"
  by (simp add: pin_node_def pin_server_def)

lemmas pin_contracts = example_contract pin_backend_contract

section \<open>What the handlers answer\<close>

lemma sync_handler_200:
  assumes "sync_handler n raw = Some r" and "hr_status r = 200"
  obtains from_b to_b d bs where "parse_epoch_param raw = Some (nd_epoch n)"
    and "Option.bind raw parse_sync_query = Some (from_b, to_b)"
    and "ring_range (in_ring (nd_inner n)) from_b to_b = Some d"
    and "encode_block_delta d (node_plaintext_bits n) = Some bs" and "hr_body r = Octets bs"
proof -
  have gate: "epoch_gate n raw = None" and epoch: "parse_epoch_param raw = Some (nd_epoch n)"
    using assms by (auto simp: sync_handler_def epoch_gate_def refused_def split: option.splits if_splits)
  show thesis
    using assms epoch that
    by (auto simp: sync_handler_def gate refused_def octet_response_def split: option.splits)
qed

lemma setup_etag_inj [simp]: "setup_etag e a = setup_etag e b \<longleftrightarrow> a = b"
  by (simp add: setup_etag_def)

text \<open>A resuming client: it asks for everything from byte \<open>k\<close> on, if the bundle is still the one
  its tag names.\<close>

definition resume_request :: "nat \<Rightarrow> string \<Rightarrow> setup_request" where
  "resume_request k etag = \<lparr> rq_if_none_match = None,
     rq_range = Some (Some (''bytes='' @ show_nat k @ ''-'')), rq_if_range = Some (Some etag) \<rparr>"

lemma setup_resume:
  assumes bs: "node_setup_bytes ext n = Some ((bs, b), n')" and k: "k < length bs" "length bs < 2 ^ 64"
  shows "setup_handler ext n (resume_request k (setup_etag (nd_epoch n') b)) =
    Some (with_headers ([(''content-range'', ''bytes '' @ show_nat k @ ''-'' @ show_u64 (of_nat (length bs) - 1) @ ''/'' @
        show_u64 (of_nat (length bs))), (''accept-ranges'', ''bytes'')] @ validators n' (setup_etag (nd_epoch n') b))
      (octet_response 206 (drop k bs)), n')"
proof -
  let ?n = "of_nat (length bs) :: u64" and ?k = "of_nat k :: u64"
  have u: "unat ?k = k" "unat ?n = length bs"
    using k by (simp_all add: unsigned_of_nat take_bit_nat_eq_self)
  have lt: "?k < ?n" using k(1) u by (simp add: word_less_nat_alt)
  have sk: "show_nat k = show_u64 ?k" by (simp add: show_u64_def u)
  have "?n \<noteq> 0" using lt by auto
  then have last: "unat (?n - 1) = length bs - 1" using u by (simp add: unat_minus_one)
  have slice: "get_range bs k (Suc (length bs - 1) - k) = Some (drop k bs)"
    using k(1) by (simp add: get_range_def)
  show ?thesis
    unfolding setup_handler_def bs resume_request_def setup_range_def sk
    by (simp add: Let_def parse_range_from[OF lt, simplified] u last slice[simplified])
qed

lemma setup_resume_other:
  assumes "node_setup_bytes ext n = Some ((bs, b), n')" and "etag \<noteq> setup_etag (nd_epoch n') b"
  shows "setup_handler ext n (resume_request k etag) =
    Some (with_headers (validators n' (setup_etag (nd_epoch n') b) @ [(''accept-ranges'', ''bytes'')])
      (octet_response 200 bs), n')"
  using assms by (simp add: setup_handler_def setup_range_def resume_request_def Let_def)

lemma sync_handler_exact:
  assumes "node_run xxh so be ext n0 ds0 ds served n" and "node_started so log reps b0 v0 c m ds0 n0"
    and "store_contract so (sv_params (in_server (nd_inner n0))) log"
    and "backend_contract be (sv_params (in_server (nd_inner n0))) reps"
    and "1 \<le> node_plaintext_bits n0" "node_plaintext_bits n0 \<le> 31"
    and "\<And>b j row off. j < cp_arity (sv_params (in_server (nd_inner n0))) \<Longrightarrow>
      0 \<le> history_at v0 ds b j row off \<and> history_at v0 ds b j row off < 2 ^ unat (node_plaintext_bits n0)"
    and "sync_handler n raw = Some r" and "hr_status r = 200"
  shows "\<exists>from_b to_b bs d. parse_epoch_param raw = Some (nd_epoch n0) \<and>
    Option.bind raw parse_sync_query = Some (from_b, to_b) \<and> hr_body r = Octets bs \<and>
    decode_block_delta bs (node_plaintext_bits n0) (of_nat (cp_arity (sv_params (in_server (nd_inner n0))))) = Inr d \<and>
    delta_block d = to_b \<and> from_b < to_b \<and> to_b \<le> sv_block (in_server (nd_inner n)) \<and>
    (\<forall>j < cp_arity (sv_params (in_server (nd_inner n0))). \<forall>row off.
       delta_effect d j row off = history_at v0 ds to_b j row off - history_at v0 ds from_b j row off \<and>
       history_at v0 ds (sv_block (in_server (nd_inner n))) j row off =
         uint (store_view so (sv_params (in_server (nd_inner n))) (sv_store (in_server (nd_inner n))) j row off))"
proof -
  note i = node_invarD[OF node_run_invar[OF assms(1-4)]]
  have same: "nd_epoch n = nd_epoch n0" "sv_params (in_server (nd_inner n)) = sv_params (in_server (nd_inner n0))"
    "node_plaintext_bits n = node_plaintext_bits n0"
    using i(5) by (simp_all add: same_deployment_def node_plaintext_bits_def)
  obtain from_b to_b d bs where r: "parse_epoch_param raw = Some (nd_epoch n0)"
    "Option.bind raw parse_sync_query = Some (from_b, to_b)"
    "ring_range (in_ring (nd_inner n)) from_b to_b = Some d"
    "encode_block_delta d (node_plaintext_bits n0) = Some bs" "hr_body r = Octets bs"
    using sync_handler_200[OF assms(8,9)] unfolding same by metis
  note w = window_range[OF i(1,4) r(3)]
  have small: "\<bar>delta_effect d j row off\<bar> < 2 ^ unat (node_plaintext_bits n0)" for j row off
  proof (cases "j < cp_arity (sv_params (in_server (nd_inner n0)))")
    case True
    then show ?thesis
      using w[of j row off] assms(7)[OF True, of to_b row off] assms(7)[OF True, of from_b row off] by linarith
  next
    case False
    then show ?thesis using w unfolding same by (simp add: delta_effect_def)
  qed
  have can: "canonical_delta d" using w by blast
  have "decode_block_delta bs (node_plaintext_bits n0) (of_nat (cp_arity (sv_params (in_server (nd_inner n0))))) = Inr d"
    using encode_decode[OF r(4) assms(5,6) canonical_fits[OF can small]] w
    by (simp add: sort_delta_canonical[OF can] same)
  then show ?thesis
    using r w tracks_view[OF i(1)] by (auto simp: same)
qed

section \<open>Properties\<close>

text \<open>C15. What \<open>/sync\<close> serves is the difference of two databases of this very lineage.  In every
  run of a node, a \<open>200\<close> is given only to a request that presents the node's epoch, and its body
  decodes to a delta for exactly the requested target block whose effect on every cell is the
  database at \<open>to\<close> minus the database at \<open>from\<close>; the database at the head is the
  server's.\<close>

theorem sync_serves_lineage_difference:
  assumes "node_run xxh so be ext n0 ds0 ds served n" and "node_started so log reps b0 v0 c m ds0 n0"
    and "store_contract so (sv_params (in_server (nd_inner n0))) log"
    and "backend_contract be (sv_params (in_server (nd_inner n0))) reps"
    and "1 \<le> node_plaintext_bits n0" "node_plaintext_bits n0 \<le> 31"
    and "\<And>b j row off. j < cp_arity (sv_params (in_server (nd_inner n0))) \<Longrightarrow>
      0 \<le> history_at v0 ds b j row off \<and> history_at v0 ds b j row off < 2 ^ unat (node_plaintext_bits n0)"
    and "sync_handler n raw = Some r" and "hr_status r = 200"
  shows "\<exists>from_b to_b bs d. parse_epoch_param raw = Some (nd_epoch n0) \<and>
    Option.bind raw parse_sync_query = Some (from_b, to_b) \<and> hr_body r = Octets bs \<and>
    decode_block_delta bs (node_plaintext_bits n0) (of_nat (cp_arity (sv_params (in_server (nd_inner n0))))) = Inr d \<and>
    delta_block d = to_b \<and> from_b < to_b \<and> to_b \<le> sv_block (in_server (nd_inner n)) \<and>
    (\<forall>j < cp_arity (sv_params (in_server (nd_inner n0))). \<forall>row off.
       delta_effect d j row off = history_at v0 ds to_b j row off - history_at v0 ds from_b j row off \<and>
       history_at v0 ds (sv_block (in_server (nd_inner n))) j row off =
         uint (store_view so (sv_params (in_server (nd_inner n))) (sv_store (in_server (nd_inner n))) j row off))"
  by (rule sync_handler_exact[OF assms])

lemma sync_serves_lineage_difference_witness:
  "\<exists>r bs d. sync_handler (pin_node 8 7 [pin_delta] (Some \<lparr> cs_block = 6, cs_bytes = pin_bundle 0 6 \<rparr>) 1)
      (Some ''from=6&epoch=abababababababab&to=7'') = Some r \<and>
    hr_body r = Octets bs \<and> decode_block_delta bs 9 1 = Inr d \<and> delta_block d = 7 \<and> delta_effect d 0 0 0 = 8"
proof -
  let ?n = "pin_node 8 7 [pin_delta] (Some \<lparr> cs_block = 6, cs_bytes = pin_bundle 0 6 \<rparr>) 1"
  let ?raw = "''from=6&epoch=abababababababab&to=7''"
  have parse: "parse_epoch_param (Some ?raw) = Some ''abababababababab''" "parse_sync_query ?raw = Some (6, 7)"
    by (simp_all add: parse_epoch_param_def parse_sync_query_def parse_u64_def digit_value_def)
  have range: "ring_range \<lparr> ring_capacity = 8, ring_buf = [pin_delta] \<rparr> 6 7 = Some pin_delta"
    "\<exists>bs. encode_block_delta pin_delta 9 = Some bs"
    unfolding pin_delta_def by (code_simp, simp add: encode_block_delta_def)
  have pb: "node_plaintext_bits (pin_node c b ds k g) = 9" for c b ds k g
    by (simp add: node_plaintext_bits_def pin_params) (simp add: example_params_def)
  obtain bs where "sync_handler ?n (Some ?raw) = Some (octet_response 200 bs)"
    using range parse unfolding sync_handler_def epoch_gate_def pb by (auto simp: pin_node_def)
  moreover have "0 \<le> history_at (\<lambda>_ _ _. 0) [pin_delta] b j row off \<and>
      history_at (\<lambda>_ _ _. 0) [pin_delta] b j row off < 2 ^ 9" if "j < 1" for b j row off
    using that by (simp add: history_at_def pin_delta_def delta_effect_def)
  moreover have "cp_arity example_params = 1" by (simp add: example_params_def)
  ultimately obtain bs' d where "Octets bs = Octets bs'" "decode_block_delta bs' 9 1 = Inr d" "delta_block d = 7"
    "delta_effect d 0 0 0 = history_at (\<lambda>_ _ _. 0) [pin_delta] 7 0 0 0 - history_at (\<lambda>_ _ _. 0) [pin_delta] 6 0 0 0"
    using sync_serves_lineage_difference[OF pin_run pin_started, unfolded pin_params pb, OF pin_contracts,
        of "Some ?raw" "octet_response 200 bs"] parse(2)
    by (auto simp: octet_response_def)
  moreover have "delta_effect pin_delta 0 0 0 = 8" "delta_block pin_delta = 7"
    by (simp_all add: pin_delta_def delta_effect_def)
  then have "history_at (\<lambda>_ _ _. 0) [pin_delta] 7 0 0 0 - history_at (\<lambda>_ _ _. 0) [pin_delta] 6 0 0 0 = 8"
    by (simp add: history_at_def)
  ultimately show ?thesis
    using \<open>sync_handler ?n (Some ?raw) = Some (octet_response 200 bs)\<close> by (auto simp: octet_response_def)
qed

text \<open>\<open>/delta/{block}\<close> serves exactly the retention window.  In every run the per-block
  index and the ring hold the last \<open>c\<close> deltas applied; a request with the epoch of this
  lineage gets the encoding of that block's own delta while it is among them, and every
  other request gets a \<open>404\<close>.\<close>

theorem delta_by_block_serves_window:
  assumes "node_run xxh so be ext n0 ds0 ds served n" and "node_started so log reps b0 v0 c m ds0 n0"
    and "store_contract so (sv_params (in_server (nd_inner n0))) log"
    and "backend_contract be (sv_params (in_server (nd_inner n0))) reps"
  shows "delta_by_block n block raw =
    (if parse_epoch_param raw \<noteq> Some (nd_epoch n0) then Some (refused 404 DeltaEpochMismatch)
     else (case find (\<lambda>d. delta_block d = block) (last_n c (drop m ds)) of
       None \<Rightarrow> Some (refused 404 NotRetained)
     | Some d \<Rightarrow> map_option (\<lambda>bs. with_headers [(''cache-control'', ''public, max-age=31536000, immutable'')]
         (octet_response 200 bs)) (encode_block_delta d (node_plaintext_bits n0)))) \<and>
    ring_buf (in_ring (nd_inner n)) = last_n c (drop m ds)"
proof -
  note i = node_invarD[OF node_run_invar[OF assms]]
  have "nd_epoch n = nd_epoch n0" "node_plaintext_bits n = node_plaintext_bits n0"
    using i(5) by (simp_all add: same_deployment_def node_plaintext_bits_def)
  then show ?thesis
    using i(4) by (auto simp: delta_by_block_def window_def bt_get_def map_of_keyed split: option.splits)
qed

lemma delta_by_block_serves_window_witness:
  "\<exists>bs. encode_block_delta pin_delta 9 = Some bs \<and>
    delta_by_block (pin_node 8 7 [pin_delta] (Some \<lparr> cs_block = 6, cs_bytes = pin_bundle 0 6 \<rparr>) 1) 7
      (Some ''epoch=abababababababab'') =
    Some (with_headers [(''cache-control'', ''public, max-age=31536000, immutable'')] (octet_response 200 bs))"
proof -
  have "parse_epoch_param (Some ''epoch=abababababababab'') = Some ''abababababababab''"
    by (simp add: parse_epoch_param_def)
  moreover have "last_n 8 (drop 0 [pin_delta]) = [pin_delta]" "delta_block pin_delta = 7"
    by (simp_all add: last_n_def pin_delta_def)
  moreover have "node_plaintext_bits (pin_node 0 6 [] None 0) = 9" "nd_epoch (pin_node 0 6 [] None 0) = ''abababababababab''"
    by (simp_all add: node_plaintext_bits_def pin_params) (simp_all add: example_params_def pin_node_def)
  moreover have "\<exists>bs. encode_block_delta pin_delta 9 = Some bs"
    by (simp add: encode_block_delta_def pin_delta_def)
  ultimately show ?thesis
    using delta_by_block_serves_window[OF pin_run pin_started, unfolded pin_params, OF pin_contracts,
        of 7 "Some ''epoch=abababababababab''"]
    by auto
qed

text \<open>C23. A bundle that \<open>/setup\<close> serves can always be brought to the head.  If the blocks of the
  deployment are consecutive and their changes stay within the codec's range, then whatever the
  cache holds, the served bundle carries the hints of the database at its block, that block is
  at most an eighth of the ring behind the head, and \<open>/sync\<close> from there to the head is in the
  window and yields the difference to the current database.\<close>

theorem served_setup_reaches_head:
  assumes "node_run xxh so be ext n0 ds0 ds served n" and "node_started so log reps b0 v0 c m ds0 n0"
    and "store_contract so (sv_params (in_server (nd_inner n0))) log"
    and "backend_contract be (sv_params (in_server (nd_inner n0))) reps"
    and "block_run (Suc (unat b0)) ds" and "(\<Sum>d \<leftarrow> ds. delta_mag d) < 2 ^ 63"
    and "node_setup_bytes ext n = Some ((bs, b), n')"
  shows "bundle_for ext reps n0 (history_at v0 ds b) b bs \<and> b \<le> sv_block (in_server (nd_inner n')) \<and>
    unat (sv_block (in_server (nd_inner n'))) - unat b \<le> c div 8 \<and>
    (b = sv_block (in_server (nd_inner n')) \<or>
     (\<exists>d. ring_range (in_ring (nd_inner n')) b (sv_block (in_server (nd_inner n'))) = Some d \<and>
        (\<forall>j < cp_arity (sv_params (in_server (nd_inner n'))). \<forall>row off. delta_effect d j row off =
           uint (store_view so (sv_params (in_server (nd_inner n'))) (sv_store (in_server (nd_inner n'))) j row off) -
           history_at v0 ds b j row off)))"
proof -
  let ?sv = "in_server (nd_inner n')"
  note i = node_invarD[OF node_run_invar[OF node_run.node_serve[OF assms(1,7)] assms(2-4)]]
  have served: "b0 \<le> b" "b \<le> sv_block ?sv" "\<forall>d \<in> set (take m ds). delta_block d \<le> b"
    "bundle_for ext reps n0 (history_at v0 ds b) b bs"
    using i(7) by (auto simp: served_ok_def)
  have cap: "ring_capacity (in_ring (nd_inner n')) = c" using i(4) by (simp add: window_def)
  have near: "unat (sv_block ?sv) - unat b \<le> c div 8"
    using assms(7) by (cases rule: setup_bytes_cases) (use cap in auto)
  show ?thesis
  proof (cases "b = sv_block ?sv")
    case False
    then have lt: "b < sv_block ?sv" using served(2) by simp
    have "unat (sv_block ?sv) - unat b \<le> c" using near by linarith
    from window_catches_up[OF i(1,4,3) assms(5,6) served(1,3) this lt] obtain d where
      d: "ring_range (in_ring (nd_inner n')) b (sv_block ?sv) = Some d" by blast
    then show ?thesis
      using served(2,4) near window_range[OF i(1,4) d] tracks_view[OF i(1)] by auto
  qed (use served near in simp)
qed

lemma served_setup_reaches_head_witness:
  "\<exists>d. ring_range (in_ring (nd_inner (pin_node 8 7 [pin_delta] (Some \<lparr> cs_block = 6, cs_bytes = pin_bundle 0 6 \<rparr>) 1))) 6 7 = Some d \<and>
    delta_effect d 0 0 0 = 8"
proof -
  let ?n = "pin_node 8 7 [pin_delta] (Some \<lparr> cs_block = 6, cs_bytes = pin_bundle 0 6 \<rparr>) 1"
  have f: "sv_block (in_server (nd_inner ?n)) = 7" "cp_arity example_params = 1" "sv_store (in_server (nd_inner ?n)) = (8, [])"
    by (simp_all add: pin_node_def pin_server_def example_params_def)
  have v: "history_at (\<lambda>_ _ _. 0) [pin_delta] 6 0 0 0 = 0" "so_cells example_store (8, []) = [8]"
    by (simp_all add: history_at_def pin_delta_def example_store_def)
  have "node_setup_bytes pin_ext ?n = Some ((pin_bundle 0 6, 6), ?n)"
    by (simp add: node_setup_bytes_def pin_node_def pin_server_def)
  moreover have "block_run (Suc (unat (6 :: u64))) [pin_delta]" "(\<Sum>d \<leftarrow> [pin_delta]. delta_mag d) < 2 ^ 63"
    by (simp_all add: block_run_def pin_delta_def delta_mag_def)
  ultimately obtain d where "ring_range (in_ring (nd_inner ?n)) 6 7 = Some d"
    "\<forall>j < 1. \<forall>row off. delta_effect d j row off = uint (db_view example_params [8] j row off) -
       history_at (\<lambda>_ _ _. 0) [pin_delta] 6 j row off"
    using served_setup_reaches_head[OF pin_run pin_started, unfolded pin_params, OF pin_contracts, of "pin_bundle 0 6" 6 ?n]
    unfolding f pin_params v by auto
  then show ?thesis by (auto simp: v example_db_view)
qed

text \<open>C26. A resumed download is one bundle.  A client that holds the first \<open>k\<close> bytes of a bundle
  served at any earlier moment of the run and asks for the rest under that bundle's tag either
  gets exactly the missing bytes, or, when the cache has moved on to a later block, the whole
  later bundle under its own tag; two bundles are never spliced.\<close>

theorem resumed_download_is_one_bundle:
  assumes "node_run xxh so be ext n0 ds0 ds served n" and "node_started so log reps b0 v0 c m ds0 n0"
    and "store_contract so (sv_params (in_server (nd_inner n0))) log"
    and "backend_contract be (sv_params (in_server (nd_inner n0))) reps"
    and "(b, bs) \<in> set served" and "k < length bs" and "length bs < 2 ^ 64"
    and "setup_handler ext n (resume_request k (setup_etag (nd_epoch n0) b)) = Some (r, n')"
  shows "(hr_status r = 206 \<and> hr_body r = Octets (drop k bs)) \<or>
    (\<exists>b' bs'. b < b' \<and> hr_status r = 200 \<and> hr_body r = Octets bs' \<and>
       (''etag'', setup_etag (nd_epoch n0) b') \<in> set (hr_headers r))"
proof -
  obtain bs' b' n1 where s: "node_setup_bytes ext n = Some ((bs', b'), n1)"
    using assms(8) by (auto simp: setup_handler_def bind_eq_Some_conv)
  note i = node_invarD[OF node_run_invar[OF node_run.node_serve[OF assms(1) s] assms(2-4)]]
  have epoch: "nd_epoch n1 = nd_epoch n0" using i(5) by (simp add: same_deployment_def)
  have "\<forall>x \<in> set (served @ [(b', bs')]). \<forall>y \<in> set (served @ [(b', bs')]). fst x = fst y \<longrightarrow> x = y"
    using i(7) unfolding served_ok_def by blast
  then have unique: "b = b' \<Longrightarrow> bs = bs'" using assms(5) by fastforce
  have latest: "b \<le> b'"
    using s
  proof (cases rule: setup_bytes_cases)
    case (hit k)
    then show ?thesis using i(6) assms(5) by (auto simp: cache_latest_def)
  next
    case fresh
    then show ?thesis using i(6) assms(5) by (auto simp: cache_latest_def)
  qed
  show ?thesis
  proof (cases "b = b'")
    case True
    with unique s have "node_setup_bytes ext n = Some ((bs, b), n1)" by simp
    from setup_resume[OF this assms(6,7)] show ?thesis
      using assms(8) by (auto simp: epoch with_headers_def octet_response_def)
  next
    case False
    then have "setup_etag (nd_epoch n0) b \<noteq> setup_etag (nd_epoch n1) b'" by (simp add: epoch)
    from setup_resume_other[OF s this] show ?thesis
      using assms(8) latest False
      by (auto simp: epoch with_headers_def octet_response_def validators_def intro!: exI[of _ b'])
  qed
qed

lemma resumed_download_is_one_bundle_witness:
  "\<exists>r n'. setup_handler pin_ext (pin_node 8 7 [pin_delta] (Some \<lparr> cs_block = 6, cs_bytes = pin_bundle 0 6 \<rparr>) 1)
      (resume_request 5 (setup_etag ''abababababababab'' 6)) = Some (r, n') \<and>
    hr_status r = 206 \<and> hr_body r = Octets (drop 5 (pin_bundle 0 6))"
proof -
  let ?n = "pin_node 8 7 [pin_delta] (Some \<lparr> cs_block = 6, cs_bytes = pin_bundle 0 6 \<rparr>) 1"
  have s: "node_setup_bytes pin_ext ?n = Some ((pin_bundle 0 6, 6), ?n)"
    by (simp add: node_setup_bytes_def pin_node_def pin_server_def)
  have "length (encode_u32s [0]) = 5" by code_simp
  then have l: "length (pin_bundle 0 6) = 90"
    by (simp add: pin_bundle_def encode_setup_def setup_of_def pin_server_def toy_bundle_def setup_magic_def
        length_for_write_params)
      (simp add: toy_server_params_def toy_simple_lib_def write_server_params_def)
  have e: "nd_epoch (pin_node c b ds k g) = ''abababababababab''" for c b ds k g by (simp add: pin_node_def)
  note r = setup_resume[OF s, of 5, unfolded l e]
  have "hr_status (with_headers hs (octet_response 206 x)) = 206" "hr_body (with_headers hs (octet_response 206 x)) = Octets x"
    for hs x by (simp_all add: with_headers_def octet_response_def)
  with r resumed_download_is_one_bundle[OF pin_run pin_started, unfolded pin_params, OF pin_contracts, of 6 "pin_bundle 0 6" 5,
      unfolded l e, OF _ _ _ r]
  show ?thesis by simp
qed

text \<open>C40. A block whose change is refused after others were applied tears the node.  It keeps
  its head, its ring and the hints of the database before the block, but its store holds the
  changes applied up to the refused one: answers at the old head are computed from those cells,
  and the writes are in no log.  So no later block heals it: at every cell the database minus
  what the patched hints describe stays what the failed block had written there.\<close>

theorem failed_block_leaves_torn_node:
  assumes sv: "in_server (nd_inner n) = sv" and contract: "store_contract so (sv_params sv) log"
    and backend: "backend_contract be (sv_params sv) reps" and cur: "hints_current so reps sv"
    and next_block: "sv_block sv < update_block u" and u: "changes u = applied @ (addr, bal) # left"
    and some: "apply_changes xxh so (sv_params sv) (sv_codec sv) applied (0, 0, 0, 0) (sv_store sv) = Some (Inr cnt, store1)"
    and fails: "apply_change xxh so (sv_params sv) (sv_codec sv) addr bal store1 = Some (Inl e, store2)"
  shows "\<exists>store'. let sv' = sv\<lparr> sv_store := store' \<rparr>; n' = n\<lparr> nd_inner := (nd_inner n)\<lparr> in_server := sv' \<rparr> \<rparr> in
    node_apply_block_reporting xxh so be n u = Some (Inl e, n') \<and>
    so_cells so store' = so_cells so store2 \<and> log store' = [] \<and>
    (\<forall>qs. length qs = cp_arity (sv_params sv) \<longrightarrow> answer so be sv' qs =
       map_option (\<lambda>rs. Inr (rs, sv_block sv))
         (answer_segments be (sv_backend_params sv) (sv_params sv) (so_cells so store2) 0 qs)) \<and>
    (\<forall>u2 oc n2. node_apply_block_reporting xxh so be n' u2 = Some (Inr oc, n2) \<longrightarrow>
       (\<forall>j < cp_arity (sv_params sv). \<exists>described.
         reps (sv_backend_params (in_server (nd_inner n2)) ! j) (sv_material (in_server (nd_inner n2)) ! j)
           (sv_hints (in_server (nd_inner n2)) ! j) described \<and>
         (\<forall>row off. store_view so (sv_params sv) (sv_store (in_server (nd_inner n2))) j row off - described row off =
            store_view so (sv_params sv) store2 j row off - store_view so (sv_params sv) (sv_store sv) j row off)))"
proof -
  let ?s = "drain_log so store2" and ?p = "sv_params sv"
  let ?sv = "sv\<lparr> sv_store := ?s \<rparr>"
  let ?n = "n\<lparr> nd_inner := (nd_inner n)\<lparr> in_server := ?sv \<rparr> \<rparr>"
  have run: "node_apply_block_reporting xxh so be n u = Some (Inl e, ?n)"
    using refused_change_fails_block[OF next_block u some fails, of be] by (simp add: node_apply_block_reporting_def sv)
  have drain: "so_cells so ?s = so_cells so store2" "log ?s = []"
    using contract by (auto simp: store_contract_def drain_log_def)
  have answers: "answer so be ?sv qs = map_option (\<lambda>rs. Inr (rs, sv_block sv))
      (answer_segments be (sv_backend_params sv) ?p (so_cells so store2) 0 qs)" if "length qs = cp_arity ?p" for qs
    using that drain by (simp add: answer_def map_conv_bind_option comp_def)
  have later: "\<exists>described. reps (sv_backend_params (in_server (nd_inner n2)) ! j) (sv_material (in_server (nd_inner n2)) ! j)
        (sv_hints (in_server (nd_inner n2)) ! j) described \<and>
      (\<forall>row off. store_view so ?p (sv_store (in_server (nd_inner n2))) j row off - described row off =
         store_view so ?p store2 j row off - store_view so ?p (sv_store sv) j row off)"
    if ok: "node_apply_block_reporting xxh so be ?n u2 = Some (Inr oc, n2)" and j: "j < cp_arity ?p" for u2 oc n2 j
  proof -
    from ok obtain rep sv2 where a: "apply_block_reporting xxh so be ?sv u2 = Some (Inr (oc_delta oc, rep), sv2)"
      and n2: "in_server (nd_inner n2) = sv2"
      by (rule node_apply_InrD) (simp add: node_server_kept)
    let ?described = "add_view (store_view so ?p (sv_store sv) j) (per_segment (oc_delta oc) ! j)"
    have c: "store_contract so (sv_params ?sv) log" "backend_contract be (sv_params ?sv) reps" "log (sv_store ?sv) = []"
      using contract backend drain by simp_all
    note d = apply_block_delta[OF c(1,3) a]
    have "reps (sv_backend_params sv2 ! j) (sv_material sv2 ! j) (sv_hints sv2 ! j) ?described"
      using block_patches_hints[OF c(1,3,2) _ _ _ _ a, of "store_view so ?p (sv_store sv)"] cur j
      by (simp add: hints_current_def)
    moreover have "store_view so ?p (sv_store sv2) j row off - ?described row off =
        store_view so ?p store2 j row off - store_view so ?p (sv_store sv) j row off" for row off
    proof -
      have "delta_effect (oc_delta oc) j row off =
          uint (store_view so ?p (sv_store sv2) j row off) - uint (store_view so ?p store2 j row off)"
        using d j drain(1) by simp
      moreover have "j < length (per_segment (oc_delta oc))" using d j by simp
      ultimately show ?thesis by (simp add: add_view_def delta_effect_def)
    qed
    ultimately show ?thesis unfolding n2 by blast
  qed
  show ?thesis
    unfolding Let_def using run drain answers later by (intro exI[of _ ?s] conjI allI impI) simp_all
qed

lemma failed_block_leaves_torn_node_witness:
  "\<exists>store'. let sv' = (pin_server 0 6)\<lparr> sv_store := store' \<rparr>; n = pin_node 0 6 [] None 0 in
    node_apply_block_reporting example_hash example_store pin_backend n
      \<lparr> update_block = 7, changes = [([1], 5), ([1], 300)], credits = [] \<rparr> =
    Some (Inl (Encode BalanceOverflow), n\<lparr> nd_inner := (nd_inner n)\<lparr> in_server := sv' \<rparr> \<rparr>) \<and>
    so_cells example_store store' = [6] \<and> snd store' = [] \<and>
    answer example_store pin_backend sv' [[1]] = Some (Inr ([[6]], 6))"
proof -
  let ?n = "pin_node 0 6 [] None 0" and ?sv = "pin_server 0 6"
  have sv: "in_server (nd_inner ?n) = ?sv" by (simp add: pin_node_def)
  have p: "sv_params ?sv = example_params" "sv_codec ?sv = tiny_codec" "sv_store ?sv = (0, [])" "sv_block ?sv = 6"
    by (simp_all add: pin_server_def)
  have "\<exists>kind ms. apply_change example_hash example_store example_params tiny_codec [1] 5 (0, []) = Some (Inr kind, (6, ms)) \<and>
      apply_change example_hash example_store example_params tiny_codec [1] 300 (6, ms) = Some (Inl (Encode BalanceOverflow), (6, ms))"
    by (simp add: apply_change_def example_store_def tiny_encode tiny_locate tiny_get example_write_def)
  then obtain kind ms where
    one: "apply_change example_hash example_store example_params tiny_codec [1] 5 (0, []) = Some (Inr kind, (6, ms))" and
    two: "apply_change example_hash example_store example_params tiny_codec [1] 300 (6, ms) = Some (Inl (Encode BalanceOverflow), (6, ms))"
    by blast
  let ?u = "\<lparr> update_block = 7, changes = [([1], 5), ([1], 300)], credits = [] \<rparr>"
  have cur: "hints_current example_store pin_reps ?sv"
    using pin_started by (simp add: node_started_def sv)
  have f: "cp_arity example_params = 1" "so_cells example_store s = [fst s]" for s
    by (simp_all add: example_params_def example_store_def)
  have "answer_segments pin_backend [toy_server_params 7] example_params [6] 0 [[1]] = Some [[6]]"
    by (simp add: pin_backend_def segment_slice_def get_range_def get_def seg_cells_of_def row_width_of_def)
      (simp add: example_params_def)
  moreover from failed_block_leaves_torn_node[OF sv, of example_store snd pin_backend pin_reps ?u "[([1], 5)]" "[1]" 300 "[]"
      example_hash "count_kind kind (0, 0, 0, 0)" "(6, ms)" "Encode BalanceOverflow" "(6, ms)", unfolded p,
      OF example_contract pin_backend_contract cur _ _ _ two] one obtain store' where
    "node_apply_block_reporting example_hash example_store pin_backend ?n ?u = Some (Inl (Encode BalanceOverflow),
       ?n\<lparr> nd_inner := (nd_inner ?n)\<lparr> in_server := ?sv\<lparr> sv_store := store' \<rparr> \<rparr> \<rparr>)"
    "so_cells example_store store' = [6]" "snd store' = []"
    "answer example_store pin_backend (?sv\<lparr> sv_store := store' \<rparr>) [[1]] = map_option (\<lambda>rs. Inr (rs, 6))
       (answer_segments pin_backend (sv_backend_params ?sv) example_params [6] 0 [[1]])"
    by (auto simp: Let_def f)
  ultimately show ?thesis unfolding Let_def by (intro exI[of _ store']) (simp add: pin_server_def)
qed

end
