(* ===== verification/Autosave.thy ===== *)
theory Autosave
  imports Node Restore
begin

text \<open>
  Model of \<open>crates/risepir-rpc/src/autosave.rs\<close>: \<open>StateSaver\<close> with its save,
  rotation and append, on a disk that holds the state file, its temporary sibling and the
  journal.

  The file operations take the fault they meet as an argument: a save may stop after any
  number of bytes of its temporary file, a rotation before or after its rename, an append
  after any number of bytes of its record.  Times are natural numbers; \<open>started\<close> is
  the time at which the interval is tested and \<open>now\<close> the time at the end of the save.
  \<open>None\<close> is a panic.  The log lines are left out.

  \<open>saver_run\<close> is the life of one process after a first save: blocks are applied, their
  deltas appended, and saves happen at any moment, also between the application of a block
  and the append of its delta, which is what the save at shutdown may do.
\<close>

section \<open>Data\<close>

record state_saver =
  ss_codec :: value_codec
  ss_complete :: bool
  ss_interval :: nat
  ss_plaintext_bits :: u32
  ss_last_saved_block :: "u64 option"
  ss_last_finished :: nat
  ss_journal :: "journal_writer option"
  ss_journal_broken :: bool
  ss_records :: u64

datatype save_outcome = SaveSaved u64 nat | SaveUnchanged u64 | SaveNotDue | SaveBusy

record journal_status =
  js_records_since_save :: u64
  js_broken :: bool

record disk =
  dk_state :: state_fs
  dk_journal :: "bytes option"

datatype rotate_fault = BeforeRename | AfterRename

record save_faults =
  sf_save :: "nat option"
  sf_rotate :: "rotate_fault option"

section \<open>Operations\<close>

definition saver_new ::
    "value_codec \<Rightarrow> bool \<Rightarrow> nat \<Rightarrow> u64 option \<Rightarrow> u32 \<Rightarrow> journal_writer option \<Rightarrow> nat \<Rightarrow> state_saver" where
  "saver_new codec complete interval last_saved plaintext_bits initial_journal now =
     \<lparr> ss_codec = codec, ss_complete = complete, ss_interval = interval, ss_plaintext_bits = plaintext_bits,
       ss_last_saved_block = last_saved, ss_last_finished = now, ss_journal = initial_journal,
       ss_journal_broken = False, ss_records = 0 \<rparr>"

definition journal_status_of :: "state_saver \<Rightarrow> journal_status" where
  "journal_status_of ss = \<lparr> js_records_since_save = ss_records ss, js_broken = ss_journal_broken ss \<rparr>"

text \<open>The live writer holds the file at the journal's path open.\<close>

definition append_delta :: "(bytes \<Rightarrow> u64) \<Rightarrow> nat option \<Rightarrow> state_saver \<Rightarrow> disk \<Rightarrow> block_delta \<Rightarrow> u64
    \<Rightarrow> (state_saver \<times> disk) option" where
  "append_delta xxh3 fault ss dk d num_items_after =
     (if ss_journal_broken ss then Some (ss, dk)
      else case (ss_journal ss, dk_journal dk) of
        (Some w, Some file) \<Rightarrow>
          map_option (\<lambda>(r, w', file').
            let dk' = dk\<lparr> dk_journal := Some file' \<rparr>;
                disabled = ss\<lparr> ss_journal := None, ss_journal_broken := True \<rparr> in
            case r of
              Inr _ \<Rightarrow> (ss\<lparr> ss_journal := Some w', ss_records := ss_records ss + 1 \<rparr>, dk')
            | Inl (JournalGap expected found) \<Rightarrow> (if found < expected then ss else disabled, dk')
            | Inl _ \<Rightarrow> (disabled, dk'))
          (journal_append xxh3 fault w file d num_items_after)
      | _ \<Rightarrow> Some (ss, dk))"

text \<open>The rotation after a completed save: a fresh journal for the base just written.\<close>

definition rotate :: "(bytes \<Rightarrow> u64) \<Rightarrow> rotate_fault option \<Rightarrow> u64 \<Rightarrow> u64 \<Rightarrow> state_saver \<Rightarrow> disk \<Rightarrow> state_saver \<times> disk" where
  "rotate xxh3 fault digest block ss dk =
     (if ss_journal_broken ss then (ss, dk)
      else case journal_create xxh3 digest block (ss_plaintext_bits ss) of
        (w, file) \<Rightarrow>
          (case fault of
             Some BeforeRename \<Rightarrow> (ss\<lparr> ss_journal := None \<rparr>, dk)
           | Some AfterRename \<Rightarrow> (ss\<lparr> ss_journal := None \<rparr>, dk\<lparr> dk_journal := Some file \<rparr>)
           | None \<Rightarrow> (ss\<lparr> ss_journal := Some w, ss_records := 0 \<rparr>, dk\<lparr> dk_journal := Some file \<rparr>)))"

definition save_with :: "(bytes \<Rightarrow> u64) \<Rightarrow> cuckoo_api \<Rightarrow> 'p simple_lib \<Rightarrow> 's store_ops \<Rightarrow> cuckoo_fields
    \<Rightarrow> ('s, 'cfg, 'p simple_server_params, 'mat, u32 list) rise_server \<Rightarrow> bool \<Rightarrow> save_faults \<Rightarrow> nat
    \<Rightarrow> state_saver \<Rightarrow> disk \<Rightarrow> ((state_error + save_outcome) \<times> state_saver \<times> disk) option" where
  "save_with xxh3 api lib so flds server force io now ss dk =
     (let block = sv_block server; ss1 = ss\<lparr> ss_last_finished := now \<rparr> in
      if \<not> force \<and> ss_last_saved_block ss = Some block then Some (Inr (SaveUnchanged block), ss1, dk)
      else
        map_option (\<lambda>(r, fs).
          let dk1 = dk\<lparr> dk_state := fs \<rparr> in
          case r of
            Inl e \<Rightarrow> (Inl e, ss1, dk1)
          | Inr report \<Rightarrow>
              (case rotate xxh3 (sf_rotate io) (report_digest report) block
                      (ss1\<lparr> ss_last_saved_block := Some block \<rparr>) dk1 of
                 (ss2, dk2) \<Rightarrow> (Inr (SaveSaved block (report_bytes report)), ss2, dk2)))
        (save xxh3 api lib (sf_save io) (dk_state dk) (setup_of flds server) (so_cells so (sv_store server))
           (so_num_items so (sv_store server)) (ss_codec ss) (ss_complete ss)))"

text \<open>\<open>busy\<close>: another save holds the lock.\<close>

definition maybe_save :: "(bytes \<Rightarrow> u64) \<Rightarrow> cuckoo_api \<Rightarrow> 'p simple_lib \<Rightarrow> 's store_ops \<Rightarrow> cuckoo_fields
    \<Rightarrow> ('s, 'cfg, 'p simple_server_params, 'mat, u32 list) rise_server \<Rightarrow> bool \<Rightarrow> nat \<Rightarrow> save_faults \<Rightarrow> nat
    \<Rightarrow> state_saver \<Rightarrow> disk \<Rightarrow> ((state_error + save_outcome) \<times> state_saver \<times> disk) option" where
  "maybe_save xxh3 api lib so flds server busy started io now ss dk =
     (if ss_interval ss = 0 then Some (Inr SaveNotDue, ss, dk)
      else if busy then Some (Inr SaveBusy, ss, dk)
      else if started - ss_last_finished ss < ss_interval ss then Some (Inr SaveNotDue, ss, dk)
      else save_with xxh3 api lib so flds server False io now ss dk)"

definition save_now :: "(bytes \<Rightarrow> u64) \<Rightarrow> cuckoo_api \<Rightarrow> 'p simple_lib \<Rightarrow> 's store_ops \<Rightarrow> cuckoo_fields
    \<Rightarrow> ('s, 'cfg, 'p simple_server_params, 'mat, u32 list) rise_server \<Rightarrow> save_faults \<Rightarrow> nat
    \<Rightarrow> state_saver \<Rightarrow> disk \<Rightarrow> ((state_error + save_outcome) \<times> state_saver \<times> disk) option" where
  "save_now xxh3 api lib so flds server io now ss dk = save_with xxh3 api lib so flds server True io now ss dk"

text \<open>The save and the first journal of a fresh bootstrap (\<open>mainnet.rs\<close>), with the saver that
  is made from what they leave.\<close>

definition bootstrap_saver :: "(bytes \<Rightarrow> u64) \<Rightarrow> cuckoo_api \<Rightarrow> 'p simple_lib \<Rightarrow> 's store_ops \<Rightarrow> cuckoo_fields
    \<Rightarrow> ('s, 'cfg, 'p simple_server_params, 'mat, u32 list) rise_server \<Rightarrow> value_codec \<Rightarrow> nat \<Rightarrow> save_faults \<Rightarrow> nat
    \<Rightarrow> disk \<Rightarrow> (state_saver \<times> disk) option" where
  "bootstrap_saver xxh3 api lib so flds server codec interval io now dk =
     map_option (\<lambda>(r, fs).
       let dk1 = dk\<lparr> dk_state := fs \<rparr>; pb = cp_plaintext_bits (sv_params server);
           mk = (\<lambda>last_saved journal. saver_new codec True interval last_saved pb journal now) in
       case r of
         Inl e \<Rightarrow> (mk None None, dk1)
       | Inr report \<Rightarrow>
           (case journal_create xxh3 (report_digest report) (sv_block server) pb of
              (w, file) \<Rightarrow>
                (case sf_rotate io of
                   Some BeforeRename \<Rightarrow> (mk (Some (sv_block server)) None, dk1)
                 | Some AfterRename \<Rightarrow> (mk (Some (sv_block server)) None, dk1\<lparr> dk_journal := Some file \<rparr>)
                 | None \<Rightarrow> (mk (Some (sv_block server)) (Some w), dk1\<lparr> dk_journal := Some file \<rparr>))))
     (save xxh3 api lib (sf_save io) (dk_state dk) (setup_of flds server) (so_cells so (sv_store server))
        (so_num_items so (sv_store server)) codec True)"

section \<open>Runs of a saver\<close>

text \<open>The servers and the deltas so far, whether the last delta still waits to be appended, the
  saver and the disk.\<close>

inductive saver_run ::
    "(bytes \<Rightarrow> u64 \<Rightarrow> u64) \<Rightarrow> (bytes \<Rightarrow> u64) \<Rightarrow> cuckoo_api \<Rightarrow> 'p simple_lib \<Rightarrow> 's store_ops
     \<Rightarrow> ('cfg, 'p, 'mat) simple_backend \<Rightarrow> cuckoo_fields \<Rightarrow> value_codec
     \<Rightarrow> ('s, 'cfg, 'p simple_server_params, 'mat, u32 list) rise_server list \<Rightarrow> block_delta list
     \<Rightarrow> (block_delta \<times> u64) option \<Rightarrow> state_saver \<Rightarrow> disk \<Rightarrow> bool"
  for xxh :: "bytes \<Rightarrow> u64 \<Rightarrow> u64" and xxh3 :: "bytes \<Rightarrow> u64" and api :: cuckoo_api and lib :: "'p simple_lib"
    and so :: "'s store_ops" and be :: "('cfg, 'p, 'mat) simple_backend" and flds :: cuckoo_fields
    and codec :: value_codec where
  saver_started: "dk_journal dk0 = None \<Longrightarrow>
     bootstrap_saver xxh3 api lib so flds sv0 codec interval io now dk0 = Some (ss, dk) \<Longrightarrow>
     ss_last_saved_block ss \<noteq> None \<Longrightarrow> saver_run xxh xxh3 api lib so be flds codec [sv0] [] None ss dk"
| saver_applied: "saver_run xxh xxh3 api lib so be flds codec svs ds None ss dk \<Longrightarrow>
     apply_block_reporting xxh so be (last svs) u = Some (Inr (d, rep), sv) \<Longrightarrow>
     saver_run xxh xxh3 api lib so be flds codec (svs @ [sv]) (ds @ [d]) (Some (d, so_num_items so (sv_store sv))) ss dk"
| saver_appended: "saver_run xxh xxh3 api lib so be flds codec svs ds (Some (d, n)) ss dk \<Longrightarrow>
     append_delta xxh3 fault ss dk d n = Some (ss', dk') \<Longrightarrow>
     saver_run xxh xxh3 api lib so be flds codec svs ds None ss' dk'"
| saver_ticked: "saver_run xxh xxh3 api lib so be flds codec svs ds pend ss dk \<Longrightarrow>
     maybe_save xxh3 api lib so flds (last svs) busy started io now ss dk = Some (r, ss', dk') \<Longrightarrow>
     saver_run xxh xxh3 api lib so be flds codec svs ds pend ss' dk'"
| saver_saved: "saver_run xxh xxh3 api lib so be flds codec svs ds pend ss dk \<Longrightarrow>
     save_now xxh3 api lib so flds (last svs) io now ss dk = Some (r, ss', dk') \<Longrightarrow>
     saver_run xxh xxh3 api lib so be flds codec svs ds pend ss' dk'"

definition history :: "(bytes \<Rightarrow> u64 \<Rightarrow> u64) \<Rightarrow> 's store_ops \<Rightarrow> ('cfg, 'sp, 'mat, 'h) server_backend
    \<Rightarrow> ('s, 'cfg, 'sp, 'mat, 'h) rise_server list \<Rightarrow> block_delta list \<Rightarrow> bool" where
  "history xxh so be svs ds \<longleftrightarrow> length svs = Suc (length ds) \<and>
     (\<forall>i < length ds. \<exists>u rep. apply_block_reporting xxh so be (svs ! i) u = Some (Inr (ds ! i, rep), svs ! Suc i))"

lemma history_snoc:
  assumes "history xxh so be svs ds" and "apply_block_reporting xxh so be (last svs) u = Some (Inr (d, rep), sv)"
  shows "history xxh so be (svs @ [sv]) (ds @ [d])"
proof -
  have l: "length svs = Suc (length ds)" using assms(1) by (simp add: history_def)
  then have "last svs = svs ! length ds" by (cases svs rule: rev_cases) (auto simp: nth_append)
  then show ?thesis
    using assms l by (fastforce simp: history_def nth_append less_Suc_eq)
qed

lemma history_blocks:
  assumes h: "history xxh so be svs ds" and "i + n \<le> length ds"
  shows "server_blocks xxh so be (svs ! i) (take n (drop i ds)) (svs ! (i + n))"
  using assms(2)
proof (induction n)
  case 0
  then show ?case by (simp add: server_blocks.blocks_start)
next
  case (Suc n)
  then have lt: "i + n < length ds" by simp
  then obtain u rep where "apply_block_reporting xxh so be (svs ! (i + n)) u = Some (Inr (ds ! (i + n), rep), svs ! Suc (i + n))"
    using h by (auto simp: history_def)
  from server_blocks.blocks_step[OF Suc.IH this] lt show ?case
    by (simp add: take_Suc_conv_app_nth)
qed

lemma history_step_block:
  assumes "history xxh so be svs ds" and "i < length ds"
  shows "sv_block (svs ! i) < sv_block (svs ! Suc i) \<and> sv_block (svs ! Suc i) = delta_block (ds ! i)"
proof -
  obtain u rep where "apply_block_reporting xxh so be (svs ! i) u = Some (Inr (ds ! i, rep), svs ! Suc i)"
    using assms by (auto simp: history_def)
  then show ?thesis by (rule apply_block_okD) auto
qed

lemma history_strict:
  assumes h: "history xxh so be svs ds" and "i < j" and "j \<le> length ds"
  shows "sv_block (svs ! i) < sv_block (svs ! j)"
  using assms(2,3)
proof (induction j)
  case (Suc j)
  then have "j < length ds" by simp
  note step = history_step_block[OF h this, THEN conjunct1]
  show ?case
  proof (cases "i = j")
    case True
    with step show ?thesis by simp
  next
    case False
    with Suc have "sv_block (svs ! i) < sv_block (svs ! j)" by simp
    from order.strict_trans[OF this step] show ?thesis .
  qed
qed simp

lemma history_last: "history xxh so be svs ds \<Longrightarrow> last svs = svs ! length ds"
  by (cases svs rule: rev_cases) (auto simp: nth_append history_def)

text \<open>The invariant.  The state file is the image of the \<open>k\<close>-th server; the journal is one
  that was started for the \<open>m\<close>-th server with the digest \<open>dg'\<close> and has the entries
  \<open>es\<close> and a torn tail \<open>t\<close>; a live writer stands at the end of a clean journal of the
  state file, which reaches the head, except for the delta that waits.\<close>

definition state_image :: "(bytes \<Rightarrow> u64) \<Rightarrow> cuckoo_api \<Rightarrow> 'p simple_lib \<Rightarrow> 's store_ops \<Rightarrow> cuckoo_fields
    \<Rightarrow> ('s, 'cfg, 'p simple_server_params, 'mat, u32 list) rise_server \<Rightarrow> value_codec \<Rightarrow> bytes \<Rightarrow> u64 \<Rightarrow> bool" where
  "state_image xxh3 api lib so flds sv codec file dg \<longleftrightarrow>
     (\<exists>covered. save_content api lib (setup_of flds sv) (so_cells so (sv_store sv))
          (so_num_items so (sv_store sv)) codec True = Some covered \<and>
        dg = xxh3 covered \<and> file = covered @ u64_le dg)"

definition journal_holds :: "(bytes \<Rightarrow> u64) \<Rightarrow> u32 \<Rightarrow> u32 \<Rightarrow> u64 \<Rightarrow> block_delta list \<Rightarrow> nat \<Rightarrow> u64
    \<Rightarrow> (block_delta \<times> u64) list \<Rightarrow> bytes \<Rightarrow> bytes \<Rightarrow> bool" where
  "journal_holds xxh3 pb arity base ds m dg es t file \<longleftrightarrow>
     file = journal_file xxh3 pb dg base es @ t \<and> torn xxh3 pb arity t \<and>
     m + length es \<le> length ds \<and> map fst es = take (length es) (drop m ds) \<and> chain base es"

definition writer_at :: "u32 \<Rightarrow> u64 \<Rightarrow> nat \<Rightarrow> nat \<Rightarrow> (block_delta \<times> u64) option \<Rightarrow> (block_delta \<times> u64) list \<Rightarrow> journal_writer \<Rightarrow> bool" where
  "writer_at pb base n k pend es w \<longleftrightarrow>
     jw_plaintext_bits w = pb \<and> jw_last w = base + of_nat (length es) \<and>
     (case pend of None \<Rightarrow> k + length es = n
      | Some _ \<Rightarrow> k + length es + 1 = n \<or> (k = n \<and> es = []))"

definition journal_state where
  "journal_state xxh3 pb arity svs ds pend k dg jw jf \<longleftrightarrow>
     (case jf of None \<Rightarrow> jw = None
      | Some f \<Rightarrow> \<exists>m dg' es t. journal_holds xxh3 pb arity (sv_block (svs ! m)) ds m dg' es t f \<and>
          (\<forall>w. jw = Some w \<longrightarrow> m = k \<and> dg' = dg \<and> t = [] \<and>
             writer_at pb (sv_block (svs ! k)) (length ds) k pend es w))"

definition saver_holds where
  "saver_holds xxh3 api lib so flds codec pb arity svs ds pend ss dk k dg \<longleftrightarrow>
     k \<le> length ds \<and> ss_codec ss = codec \<and> ss_complete ss \<and> ss_plaintext_bits ss = pb \<and>
     ss_last_saved_block ss = Some (sv_block (svs ! k)) \<and>
     (\<exists>file. fs_path (dk_state dk) = Some file \<and> state_image xxh3 api lib so flds (svs ! k) codec file dg) \<and>
     (\<forall>d n. pend = Some (d, n) \<longrightarrow> ds \<noteq> [] \<and> d = last ds) \<and>
     (ss_journal_broken ss \<longrightarrow> ss_journal ss = None) \<and>
     journal_state xxh3 pb arity svs ds pend k dg (ss_journal ss) (dk_journal dk)"

lemma journal_state_given_up:
  "journal_state xxh3 pb arity svs ds pend k dg jw jf \<Longrightarrow> journal_state xxh3 pb arity svs ds pend' k' dg' None jf"
  by (fastforce simp: journal_state_def split: option.splits)

lemma journal_state_fresh:
  assumes "journal_create xxh3 dg (sv_block (svs ! length ds)) pb = (w, f)" and "jw = None \<or> jw = Some w"
  shows "journal_state xxh3 pb arity svs ds pend (length ds) dg jw (Some f)"
proof -
  have "journal_holds xxh3 pb arity (sv_block (svs ! length ds)) ds (length ds) dg [] [] f"
    "writer_at pb (sv_block (svs ! length ds)) (length ds) (length ds) pend [] w"
    using assms(1) by (auto simp: journal_holds_def writer_at_def journal_create_def journal_file_def split: option.split)
  then show ?thesis using assms(2) by (fastforce simp: journal_state_def)
qed

lemma journal_holds_grow:
  "journal_holds xxh3 pb arity base ds m dg es t f \<Longrightarrow> journal_holds xxh3 pb arity base (ds @ [d]) m dg es t f"
  by (auto simp: journal_holds_def)

lemma save_image:
  assumes "save xxh3 api lib fault fs (setup_of flds sv) (so_cells so (sv_store sv)) (so_num_items so (sv_store sv)) codec True
    = Some (r, fs')"
  shows "case r of Inl _ \<Rightarrow> fs_path fs' = fs_path fs
    | Inr report \<Rightarrow> \<exists>file. fs_path fs' = Some file \<and> state_image xxh3 api lib so flds sv codec file (report_digest report)"
  using assms by (auto simp: save_def state_image_def Let_def split: option.splits)

lemma saver_holds_save:
  assumes h: "saver_holds xxh3 api lib so flds codec pb arity svs ds pend ss dk k dg"
    and l: "last svs = svs ! length ds"
    and s: "save_with xxh3 api lib so flds (last svs) force io now ss dk = Some (r, ss', dk')"
  shows "\<exists>k' dg'. k \<le> k' \<and> saver_holds xxh3 api lib so flds codec pb arity svs ds pend ss' dk' k' dg'"
proof (cases "\<not> force \<and> ss_last_saved_block ss = Some (sv_block (last svs))")
  case True
  then have "ss' = ss\<lparr> ss_last_finished := now \<rparr>" "dk' = dk" using s by (auto simp: save_with_def Let_def)
  with h show ?thesis by (intro exI[of _ k] exI[of _ dg]) (simp add: saver_holds_def)
next
  case False
  have c: "ss_codec ss = codec" "ss_complete ss" "ss_plaintext_bits ss = pb" using h by (simp_all add: saver_holds_def)
  let ?sv = "last svs"
  from False s obtain res fs where sv: "save xxh3 api lib (sf_save io) (dk_state dk) (setup_of flds ?sv)
      (so_cells so (sv_store ?sv)) (so_num_items so (sv_store ?sv)) codec True = Some (res, fs)"
    by (auto simp: save_with_def Let_def c)
  note imgs = save_image[OF sv]
  show ?thesis
  proof (cases res)
    case (Inl e)
    then have "ss' = ss\<lparr> ss_last_finished := now \<rparr>" "dk' = dk\<lparr> dk_state := fs \<rparr>" "fs_path fs = fs_path (dk_state dk)"
      using s sv imgs False by (auto simp: save_with_def Let_def c)
    with h show ?thesis by (intro exI[of _ k] exI[of _ dg]) (simp add: saver_holds_def)
  next
    case (Inr report)
    define ss1 where "ss1 = ss\<lparr> ss_last_finished := now, ss_last_saved_block := Some (sv_block ?sv) \<rparr>"
    define dk1 where "dk1 = dk\<lparr> dk_state := fs \<rparr>"
    have rot: "rotate xxh3 (sf_rotate io) (report_digest report) (sv_block ?sv) ss1 dk1 = (ss', dk')"
      using s sv Inr False by (auto simp: save_with_def Let_def c ss1_def dk1_def split: prod.splits)
    obtain img where fl: "fs_path fs = Some img" "state_image xxh3 api lib so flds ?sv codec img (report_digest report)"
      using imgs Inr by auto
    obtain w f where cr: "journal_create xxh3 (report_digest report) (sv_block ?sv) pb = (w, f)" by fastforce
    have k: "k \<le> length ds" using h by (simp add: saver_holds_def)
    have pre: "ss_journal_broken ss \<longrightarrow> ss_journal ss = None" "\<forall>d n. pend = Some (d, n) \<longrightarrow> ds \<noteq> [] \<and> d = last ds"
      "journal_state xxh3 pb arity svs ds pend k dg (ss_journal ss) (dk_journal dk)"
      using h by (simp_all add: saver_holds_def)
    note gone = journal_state_given_up[OF pre(3), of pend "length ds" "report_digest report"]
    note fresh = journal_state_fresh[OF cr[unfolded l], of _ arity pend]
    have "saver_holds xxh3 api lib so flds codec pb arity svs ds pend ss' dk' (length ds) (report_digest report)"
    proof (cases "ss_journal_broken ss")
      case True
      then have "ss' = ss1" "dk' = dk1" using rot by (auto simp: rotate_def ss1_def)
      then show ?thesis using True pre c fl l gone
        by (simp add: saver_holds_def ss1_def dk1_def)
    next
      case False
      then have rot': "(ss', dk') = (case sf_rotate io of
             Some BeforeRename \<Rightarrow> (ss1\<lparr> ss_journal := None \<rparr>, dk1)
           | Some AfterRename \<Rightarrow> (ss1\<lparr> ss_journal := None \<rparr>, dk1\<lparr> dk_journal := Some f \<rparr>)
           | None \<Rightarrow> (ss1\<lparr> ss_journal := Some w, ss_records := 0 \<rparr>, dk1\<lparr> dk_journal := Some f \<rparr>))"
        using rot cr c(3) by (auto simp: rotate_def ss1_def split: option.splits rotate_fault.splits)
      show ?thesis
        using rot' False pre(1,2) c fl l gone fresh
        by (auto simp: saver_holds_def ss1_def dk1_def split: option.splits rotate_fault.splits)
    qed
    with k show ?thesis by blast
  qed
qed

lemma saver_holds_append:
  assumes h: "saver_holds xxh3 api lib so flds codec pb arity svs ds (Some (d, n)) ss dk k dg"
    and hist: "history xxh so be svs ds" and j: "journalable pb arity d"
    and a: "append_delta xxh3 fault ss dk d n = Some (ss', dk')"
  shows "saver_holds xxh3 api lib so flds codec pb arity svs ds None ss' dk' k dg"
proof -
  have pend: "ds \<noteq> []" "d = last ds" and js: "journal_state xxh3 pb arity svs ds (Some (d, n)) k dg (ss_journal ss) (dk_journal dk)"
    and br: "ss_journal_broken ss \<longrightarrow> ss_journal ss = None"
    using h unfolding saver_holds_def by blast+
  have done_: ?thesis
    if "ss' = ss\<lparr> ss_journal := jw', ss_records := x, ss_journal_broken := b \<rparr>" "dk' = dk\<lparr> dk_journal := jf' \<rparr>"
      "b \<longrightarrow> jw' = None" "journal_state xxh3 pb arity svs ds None k dg jw' jf'" for jw' jf' b x
    using h that by (simp add: saver_holds_def)
  show ?thesis
  proof (cases "ss_journal ss")
    case None
    then have "ss' = ss" "dk' = dk" using a by (auto simp: append_delta_def split: if_splits)
    with done_[of "ss_journal_broken ss" "ss_records ss" None "dk_journal dk"] None
      journal_state_given_up[OF js, of None k dg] show ?thesis by simp
  next
    case (Some w)
    then have nb: "\<not> ss_journal_broken ss" using br by auto
    obtain f m dg' es t where f: "dk_journal dk = Some f"
      and jh: "journal_holds xxh3 pb arity (sv_block (svs ! k)) ds k dg es [] f"
      and wa: "writer_at pb (sv_block (svs ! k)) (length ds) k (Some (d, n)) es w"
      using js Some by (fastforce simp: journal_state_def split: option.splits)
    have pb: "jw_plaintext_bits w = pb" and lw: "jw_last w = sv_block (svs ! k) + of_nat (length es)"
      using wa by (simp_all add: writer_at_def)
    obtain r w' f' where ap: "journal_append xxh3 fault w f d n = Some (r, w', f')"
      using a Some f nb by (auto simp: append_delta_def)
    have old: "journal_state xxh3 pb arity svs ds None k dg None (Some f)"
      using journal_state_given_up[OF js] f by simp
    from journal_append_cases[OF j pb ap] show ?thesis
    proof (elim disjE conjE)
      assume gap: "delta_block d \<noteq> jw_last w + 1" and r: "r = Inl (JournalGap (jw_last w + 1) (delta_block d))"
        and w': "w' = w" "f' = f"
      have e: "ss' = (if delta_block d < jw_last w + 1 then ss else ss\<lparr> ss_journal := None, ss_journal_broken := True \<rparr>)"
        "dk' = dk\<lparr> dk_journal := Some f \<rparr>"
        using a Some f nb ap r w' by (auto simp: append_delta_def)
      show ?thesis
      proof (cases "delta_block d < jw_last w + 1")
        case False
        with e old done_[of True "ss_records ss" None "Some f"] show ?thesis by simp
      next
        case True
        have db: "delta_block d = sv_block (svs ! length ds)"
          using history_step_block[OF hist, of "length ds - 1"] pend by (cases ds rule: rev_cases) (auto simp: nth_append)
        have "k + length es + 1 \<noteq> length ds"
        proof
          assume n: "k + length es + 1 = length ds"
          have "sv_block (svs ! (k + length es)) = jw_last w"
          proof (cases es rule: rev_cases)
            case Nil
            then show ?thesis using lw by simp
          next
            case (snoc es' e)
            have "fst e = ds ! (k + length es')"
              using jh snoc n by (auto simp: journal_holds_def take_Suc_conv_app_nth dest!: arg_cong[of _ _ last])
            moreover have "delta_block (fst e) = sv_block (svs ! k) + of_nat (length es') + 1"
              using jh snoc by (simp add: journal_holds_def chain_append)
            moreover have "sv_block (svs ! Suc (k + length es')) = delta_block (ds ! (k + length es'))"
              using history_step_block[OF hist, of "k + length es'"] n snoc by simp
            ultimately show ?thesis using lw snoc by (simp add: add.assoc)
          qed
          moreover have "sv_block (svs ! (k + length es)) < delta_block d"
            using history_strict[OF hist, of "k + length es" "length ds"] n db by simp
          ultimately show False using True by (metis inc_le leD)
        qed
        then have kn: "k = length ds" "es = []" using wa by (auto simp: writer_at_def)
        then have "writer_at pb (sv_block (svs ! k)) (length ds) k None es w" using pb lw by (simp add: writer_at_def)
        then have "journal_state xxh3 pb arity svs ds None k dg (Some w) (Some f)"
          using jh by (fastforce simp: journal_state_def)
        with e True nb Some done_[of False "ss_records ss" "Some w" "Some f"] show ?thesis by simp
      qed
    next
      assume next_: "delta_block d = jw_last w + 1"
        and c: "case fault of None \<Rightarrow> r = Inr () \<and> w' = w\<lparr> jw_last := delta_block d \<rparr> \<and> f' = f @ entry_bytes xxh3 pb (d, n)
          | Some k \<Rightarrow> r = Inl JournalIo \<and> w' = w \<and> f' = f @ take k (entry_bytes xxh3 pb (d, n))"
      have db: "delta_block d = sv_block (svs ! length ds)"
        using history_step_block[OF hist, of "length ds - 1"] pend by (cases ds rule: rev_cases) (auto simp: nth_append)
      have kn: "k + length es + 1 = length ds"
      proof (rule ccontr)
        assume "k + length es + 1 \<noteq> length ds"
        then have "k = length ds" "es = []" using wa by (auto simp: writer_at_def)
        then show False using next_ lw db by simp
      qed
      have d: "d = ds ! (k + length es)" using pend kn by (simp add: last_conv_nth flip: kn)
      have ext: "journal_holds xxh3 pb arity (sv_block (svs ! k)) ds k dg (es @ [(d, n)]) [] (f @ entry_bytes xxh3 pb (d, n))"
      proof -
        have "drop k ds = take (length es) (drop k ds) @ [ds ! (k + length es)]"
          using take_Suc_conv_app_nth[of "length es" "drop k ds"] kn by simp
        then show ?thesis
          using jh kn d next_ lw by (auto simp: journal_holds_def journal_file_snoc chain_append)
      qed
      show ?thesis
      proof (cases fault)
        case None
        then have r: "r = Inr ()" "w' = w\<lparr> jw_last := delta_block d \<rparr>" "f' = f @ entry_bytes xxh3 pb (d, n)" using c by simp_all
        have "writer_at pb (sv_block (svs ! k)) (length ds) k None (es @ [(d, n)]) w'"
          using pb r next_ lw kn by (simp add: writer_at_def)
        then have "journal_state xxh3 pb arity svs ds None k dg (Some w') (Some f')"
          using ext r by (fastforce simp: journal_state_def)
        moreover have "ss' = ss\<lparr> ss_journal := Some w', ss_records := ss_records ss + 1 \<rparr>" "dk' = dk\<lparr> dk_journal := Some f' \<rparr>"
          using a Some f nb ap r by (auto simp: append_delta_def)
        ultimately show ?thesis using nb done_[of False "ss_records ss + 1" "Some w'" "Some f'"] by simp
      next
        case (Some i)
        then have r: "r = Inl JournalIo" "f' = f @ take i (entry_bytes xxh3 pb (d, n))" using c by simp_all
        have "\<exists>es t. journal_holds xxh3 pb arity (sv_block (svs ! k)) ds k dg es t f'"
        proof (cases "i < length (entry_bytes xxh3 pb (d, n))")
          case True
          then have "torn xxh3 pb arity (take i (entry_bytes xxh3 pb (d, n)))"
            unfolding torn_def using j by (metis fst_conv)
          then show ?thesis using jh r by (auto simp: journal_holds_def)
        next
          case False
          then show ?thesis using ext r by auto
        qed
        then have "journal_state xxh3 pb arity svs ds None k dg None (Some f')" by (fastforce simp: journal_state_def)
        moreover have "ss' = ss\<lparr> ss_journal := None, ss_journal_broken := True \<rparr>" "dk' = dk\<lparr> dk_journal := Some f' \<rparr>"
          using a \<open>ss_journal ss = Some w\<close> f nb ap r by (auto simp: append_delta_def)
        ultimately show ?thesis using done_[of True "ss_records ss" None "Some f'"] by simp
      qed
    qed
  qed
qed

lemma saver_run_hd: "saver_run xxh xxh3 api lib so be flds codec svs ds pend ss dk \<Longrightarrow> svs \<noteq> []"
  by (induction rule: saver_run.induct) simp_all

lemma saver_run_history:
  "saver_run xxh xxh3 api lib so be flds codec svs ds pend ss dk \<Longrightarrow> history xxh so be svs ds"
  by (induction rule: saver_run.induct) (simp_all add: history_snoc, simp add: history_def)

lemma bootstrap_holds:
  assumes "dk_journal dk0 = None" and "ss_last_saved_block ss \<noteq> None"
    and "bootstrap_saver xxh3 api lib so flds sv0 codec interval io now dk0 = Some (ss, dk)"
  shows "\<exists>dg. saver_holds xxh3 api lib so flds codec (cp_plaintext_bits (sv_params sv0)) arity [sv0] [] None ss dk 0 dg"
proof -
  let ?pb = "cp_plaintext_bits (sv_params sv0)"
  obtain res fs where sv: "save xxh3 api lib (sf_save io) (dk_state dk0) (setup_of flds sv0)
      (so_cells so (sv_store sv0)) (so_num_items so (sv_store sv0)) codec True = Some (res, fs)"
    using assms(3) by (auto simp: bootstrap_saver_def)
  with assms(2,3) obtain report where rep: "res = Inr report"
    by (cases res) (auto simp: bootstrap_saver_def saver_new_def Let_def)
  obtain w f where cr: "journal_create xxh3 (report_digest report) (sv_block sv0) ?pb = (w, f)" by fastforce
  have n: "journal_state xxh3 ?pb arity [sv0] [] None 0 (report_digest report) None None"
    by (simp add: journal_state_def)
  note fresh = journal_state_fresh[of _ _ "[sv0]" "[]", simplified, OF cr, of _ arity None]
  obtain img where img: "fs_path fs = Some img" "state_image xxh3 api lib so flds sv0 codec img (report_digest report)"
    using save_image[OF sv] rep by auto
  have "saver_holds xxh3 api lib so flds codec ?pb arity [sv0] [] None
      (saver_new codec True interval (Some (sv_block sv0)) ?pb jw now) (dk0\<lparr> dk_state := fs, dk_journal := jf \<rparr>) 0 (report_digest report)"
    if "(jw, jf) = (None, None) \<or> jf = Some f \<and> (jw = None \<or> jw = Some w)" for jw jf
    using that img n fresh by (auto simp: saver_holds_def saver_new_def)
  note this[of None None] this[of None "Some f"] this[of "Some w" "Some f"]
  moreover have "dk0\<lparr> dk_state := fs \<rparr> = dk0\<lparr> dk_state := fs, dk_journal := None \<rparr>" using assms(1) by (cases dk0) simp
  ultimately show ?thesis
    using assms(3) unfolding bootstrap_saver_def sv rep
    by (auto simp: Let_def cr split: option.splits rotate_fault.splits)
qed

lemma journal_state_applied:
  assumes js: "journal_state xxh3 pb arity svs ds None k dg jw jf" and k: "k \<le> length ds"
    and l: "length svs = Suc (length ds)"
  shows "journal_state xxh3 pb arity (svs @ [sv]) (ds @ [d]) (Some p) k dg jw jf"
proof (cases jf)
  case None
  then show ?thesis using js by (simp add: journal_state_def)
next
  case (Some f)
  from js obtain m dg' es t where m: "journal_holds xxh3 pb arity (sv_block (svs ! m)) ds m dg' es t f"
    and w: "\<forall>w. jw = Some w \<longrightarrow> m = k \<and> dg' = dg \<and> t = [] \<and> writer_at pb (sv_block (svs ! k)) (length ds) k None es w"
    unfolding journal_state_def Some option.case by (elim exE conjE)
  have "m \<le> length ds" using m by (auto simp: journal_holds_def)
  then have "(svs @ [sv]) ! m = svs ! m" "(svs @ [sv]) ! k = svs ! k" using l k by (auto simp: nth_append)
  with m w journal_holds_grow[OF m] show ?thesis
    unfolding journal_state_def Some option.case
    by (intro exI[of _ m] exI[of _ dg'] exI[of _ es] exI[of _ t]) (auto simp: writer_at_def)
qed

lemma saver_run_invar:
  assumes "saver_run xxh xxh3 api lib so be flds codec svs ds pend ss dk"
    and "\<forall>d \<in> set ds. journalable (cp_plaintext_bits (sv_params (hd svs))) arity d"
  shows "\<exists>k dg. saver_holds xxh3 api lib so flds codec (cp_plaintext_bits (sv_params (hd svs))) arity svs ds pend ss dk k dg"
  using assms
proof (induction rule: saver_run.induct)
  case (saver_started dk0 sv0 interval io now ss dk)
  then show ?case using bootstrap_holds[of dk0 ss xxh3 api lib so flds sv0 codec interval io now dk arity] by auto
next
  case (saver_applied svs ds ss dk u d rep sv)
  note ne = saver_run_hd[OF saver_applied.hyps(1)]
  obtain k dg where "saver_holds xxh3 api lib so flds codec (cp_plaintext_bits (sv_params (hd svs))) arity svs ds None ss dk k dg"
    using saver_applied by (auto simp: ne)
  moreover have "(svs @ [sv]) ! k = svs ! k" if "k \<le> length ds"
    using saver_run_history[OF saver_applied.hyps(1)] that by (auto simp: nth_append history_def)
  moreover have "length svs = Suc (length ds)"
    using saver_run_history[OF saver_applied.hyps(1)] by (simp add: history_def)
  ultimately show ?case
    by (intro exI[of _ k] exI[of _ dg]) (simp add: saver_holds_def ne journal_state_applied)
next
  case (saver_appended svs ds d n ss dk fault ss' dk')
  then obtain k dg where "saver_holds xxh3 api lib so flds codec (cp_plaintext_bits (sv_params (hd svs))) arity
      svs ds (Some (d, n)) ss dk k dg" by auto
  moreover from this have "d \<in> set ds" by (auto simp: saver_holds_def)
  ultimately show ?case
    using saver_holds_append[OF _ saver_run_history[OF saver_appended.hyps(1)] _ saver_appended.hyps(2)]
      saver_appended.prems by blast
next
  case (saver_ticked svs ds pend ss dk busy started io now r ss' dk')
  then obtain k dg where h: "saver_holds xxh3 api lib so flds codec (cp_plaintext_bits (sv_params (hd svs))) arity
      svs ds pend ss dk k dg" by auto
  note l = history_last[OF saver_run_history[OF saver_ticked.hyps(1)]]
  from saver_ticked.hyps(2) consider "ss' = ss" "dk' = dk"
    | "save_with xxh3 api lib so flds (last svs) False io now ss dk = Some (r, ss', dk')"
    by (auto simp: maybe_save_def split: if_splits)
  then show ?case
    using h saver_holds_save[OF h l] by cases blast+
next
  case (saver_saved svs ds pend ss dk io now r ss' dk')
  then obtain k dg where h: "saver_holds xxh3 api lib so flds codec (cp_plaintext_bits (sv_params (hd svs))) arity
      svs ds pend ss dk k dg" by auto
  from saver_holds_save[OF h history_last[OF saver_run_history[OF saver_saved.hyps(1)]]
      saver_saved.hyps(2)[unfolded save_now_def]] show ?case by blast
qed

section \<open>Restarting from any such disk\<close>

text \<open>A server that can be saved and restored: its parameters are those of the bundle's fields,
  its cells fill the geometry, its hints are current, and the external store and backend keep
  their documented contracts.\<close>

definition deployed ::
    "'s store_api \<Rightarrow> 's store_ops \<Rightarrow> ('cfg, 'p, 'mat) simple_backend \<Rightarrow> cuckoo_fields \<Rightarrow> value_codec
     \<Rightarrow> ('s \<Rightarrow> slot_mutation list) \<Rightarrow> ('p simple_server_params \<Rightarrow> 'mat \<Rightarrow> u32 list \<Rightarrow> (u32 \<Rightarrow> u16 \<Rightarrow> u32) \<Rightarrow> bool)
     \<Rightarrow> ('s, 'cfg, 'p simple_server_params, 'mat, u32 list) rise_server \<Rightarrow> bool" where
  "deployed sa so be flds codec log reps sv \<longleftrightarrow>
     sa_cp_of sa flds = sv_params sv \<and> cf_plaintext_bits flds = cp_plaintext_bits (sv_params sv) \<and>
     cp_plaintext_bits (sv_params sv) \<le> 31 \<and> ca_arity (sa_api sa) flds = cp_arity (sv_params sv) \<and>
     cp_arity (sv_params sv) * seg_cells_of (sv_params sv) \<le> expected_cells (sa_api sa) flds \<and>
     sv_material sv = map (sb_expand_material be) (sv_backend_params sv) \<and>
     div_ceil8 (unat (value_bits codec)) = cp_value_size (sv_params sv) \<and>
     store_contract so (sv_params sv) log \<and> log (sv_store sv) = [] \<and>
     backend_contract be (sv_params sv) reps \<and> hints_current so reps sv \<and>
     from_cells_doc sa so flds (expected_cells (sa_api sa) flds)"

text \<open>Every cell of every server of the run is below the plaintext modulus, and every server has
  a bundle that can be encoded.\<close>

definition savable_run where
  "savable_run sa so lib plib flds codec svs \<longleftrightarrow>
     (\<forall>sv \<in> set svs. state_ok (sa_api sa) lib plib (setup_of flds sv) (length (so_cells so (sv_store sv))) codec \<and>
        (\<forall>j row off. uint (store_view so (sv_params sv) (sv_store sv) j row off) < 2 ^ unat (cp_plaintext_bits (sv_params sv))))"

lemma server_blocks_deployed:
  assumes "server_blocks xxh so be sv0 ds sv" and "deployed sa so be flds codec log reps sv0"
  shows "deployed sa so be flds codec log reps sv"
  using assms
proof (induction rule: server_blocks.induct)
  case (blocks_step ds sv u d rep sv')
  then have d: "deployed sa so be flds codec log reps sv" by simp
  then have c: "store_contract so (sv_params sv) log" "log (sv_store sv) = []" "backend_contract be (sv_params sv) reps"
    "hints_current so reps sv" by (simp_all add: deployed_def)
  have "hints_current so reps sv'" by (rule apply_block_hints[OF c blocks_step.hyps(2)])
  moreover have "sv_params sv' = sv_params sv" "log (sv_store sv') = []"
    using apply_block_delta[OF c(1,2) blocks_step.hyps(2)] by simp_all
  moreover have "sv_material sv' = sv_material sv" "sv_backend_params sv' = sv_backend_params sv"
    using blocks_step.hyps(2) by (auto elim: apply_block_okD)
  ultimately show ?case using d by (simp add: deployed_def)
qed simp

lemma image_loads:
  assumes img: "state_image xxh3 (sa_api sa) lib so flds sv codec img dg"
    and ok: "state_ok (sa_api sa) lib plib (setup_of flds sv) (length (so_cells so (sv_store sv))) codec"
    and dep: "deployed sa so be flds codec log reps sv"
  shows "\<exists>raw. load_raw xxh3 (sa_api sa) lib plib (Some img) codec = Inr raw \<and> base_of sa so be sv raw \<and>
    raw_digest raw = dg \<and> wb_params (raw_setup raw) = flds \<and>
    length (raw_cells raw) = expected_cells (sa_api sa) flds \<and> raw_current sa be reps raw"
proof -
  have ad: "arity_doc (ca_arity (sa_api sa))" and n: "length (so_cells so (sv_store sv)) = expected_cells (sa_api sa) flds"
    using ok by (simp_all add: state_ok_def setup_of_def)
  define raw where "raw = \<lparr> raw_cells = so_cells so (sv_store sv), raw_setup = setup_of flds sv,
    raw_num_items = so_num_items so (sv_store sv), raw_complete = True, raw_digest = dg \<rparr>"
  have "load_raw xxh3 (sa_api sa) lib plib (Some img) codec = Inr raw"
    using img parse_saved[OF ok refl]
    by (auto simp: state_image_def save_content_eq[OF ad] load_raw_def raw_def)
  moreover have "base_of sa so be sv raw"
    using dep n by (simp add: base_of_def raw_def setup_of_def deployed_def)
  moreover have "raw_current sa be reps raw"
  proof -
    have p: "sa_cp_of sa flds = sv_params sv" and hc: "hints_current so reps sv"
      and mat: "sv_material sv = map (sb_expand_material be) (sv_backend_params sv)"
      using dep unfolding deployed_def by blast+
    have "sv_material sv ! j = sb_expand_material be (sv_backend_params sv ! j)" if "j < cp_arity (sv_params sv)" for j
      using hc that unfolding mat hints_current_def by simp
    then show ?thesis using hc p by (simp add: raw_current_def raw_def setup_of_def hints_current_def)
  qed
  ultimately show ?thesis using n by (intro exI[of _ raw]) (simp add: raw_def setup_of_def)
qed

lemma restore_base_only:
  assumes raw: "load_raw xxh3 (sa_api sa) lib plib img codec = Inr raw" and base: "base_of sa so be sv raw"
    and closed_: "open_for_base xxh3 (sa_api sa) raw jf = None"
    and flds: "wb_params (raw_setup raw) = flds" "length (raw_cells raw) = expected_cells (sa_api sa) flds"
    and cur: "raw_current sa be reps raw" and dep: "deployed sa so be flds codec log reps sv"
  shows "\<exists>rs. load_with_journal_restore xxh3 sa so be lib plib img jf config codec cap = Some (Inr rs) \<and>
    sv_block (rs_server rs) = sv_block sv \<and> hints_current so reps (rs_server rs) \<and>
    sv_params (rs_server rs) = sv_params sv \<and> so_cells so (sv_store (rs_server rs)) = so_cells so (sv_store sv)"
proof -
  have b: "raw_params sa raw = sv_params sv" "raw_cells raw = so_cells so (sv_store sv)" "wb_block (raw_setup raw) = sv_block sv"
    using base by (simp_all add: base_of_def)
  from assemble_spec[of sa so raw log be reps codec config] dep flds cur obtain server where
    s: "assemble sa so be raw config codec = Some (Inr server)"
      "sv_params server = raw_params sa raw" "sv_block server = wb_block (raw_setup raw)"
      "so_cells so (sv_store server) = raw_cells raw" "hints_current so reps server"
    unfolding deployed_def b by auto
  then show ?thesis unfolding load_with_journal_restore_def raw sum.case Let_def closed_ option.case by (simp add: b)
qed

lemma journal_holds_recovers:
  assumes jh: "journal_holds xxh3 pb arity base ds m dg es t f" and jr: "\<forall>d \<in> set ds. journalable pb arity d"
  shows "recovers xxh3 pb arity dg base f es (t = [])"
proof -
  have "set (map fst es) \<subseteq> set ds"
    using jh unfolding journal_holds_def by (metis set_take_subset set_drop_subset subset_trans)
  then have "\<forall>e \<in> set es. journalable pb arity (fst e)" using jr by auto
  then show ?thesis
    using jh journal_file_recovers[of base es pb arity xxh3 t dg] by (simp add: journal_holds_def)
qed

lemma journal_not_ours:
  assumes "journal_holds xxh3 pb arity base ds m dg' es t f" and "\<forall>d \<in> set ds. journalable pb arity d"
    and "cf_plaintext_bits (wb_params (raw_setup raw)) = pb" and "of_nat (ca_arity api (wb_params (raw_setup raw))) = arity"
    and "dg' \<noteq> raw_digest raw \<or> base \<noteq> wb_block (raw_setup raw)"
  shows "open_for_base xxh3 api raw (Some f) = None"
proof -
  note journal_holds_recovers[OF assms(1,2)]
  then show ?thesis using assms(3-5) by (auto simp: recovers_def open_for_base_def)
qed

lemma sum_delta_split:
  "(\<Sum>d \<leftarrow> take (k + i) ds. f d) = (\<Sum>d \<leftarrow> take k ds. f d) + (\<Sum>d \<leftarrow> take i (drop k ds). (f d :: int))"
  by (simp add: take_add)

lemma restart_core:
  assumes run: "saver_run xxh xxh3 (sa_api sa) lib so be flds codec svs ds pend ss dk"
    and dep: "deployed sa so be flds codec log reps (hd svs)"
    and sav: "savable_run sa so lib plib flds codec svs"
    and jr: "\<forall>d \<in> set ds. journalable (cf_plaintext_bits flds) (of_nat (ca_arity (sa_api sa) flds)) d"
  shows "\<exists>rs i. load_with_journal_restore xxh3 sa so be lib plib (fs_path (dk_state dk)) (dk_journal dk) config codec cap = Some (Inr rs) \<and>
    i \<le> length ds \<and> sv_block (rs_server rs) = sv_block (svs ! i) \<and> hints_current so reps (rs_server rs) \<and>
    sv_params (rs_server rs) = sv_params (svs ! i) \<and>
    (\<forall>j < cp_arity (sv_params (svs ! i)). \<forall>row off. store_view so (sv_params (svs ! i)) (sv_store (rs_server rs)) j row off =
       store_view so (sv_params (svs ! i)) (sv_store (svs ! i)) j row off) \<and>
    (\<exists>b. ss_last_saved_block ss = Some b \<and> b \<le> sv_block (svs ! i)) \<and>
    (ss_journal ss \<noteq> None \<longrightarrow> length ds \<le> i + (if pend = None then 0 else 1))"
proof -
  note hist = saver_run_history[OF run] and ne = saver_run_hd[OF run]
  let ?pb = "cp_plaintext_bits (sv_params (hd svs))" and ?ar = "of_nat (ca_arity (sa_api sa) flds) :: u32"
  have hd: "hd svs = svs ! 0" using ne by (simp add: hd_conv_nth)
  have pb: "cf_plaintext_bits flds = ?pb" using dep by (simp add: deployed_def)
  from saver_run_invar[OF run jr[unfolded pb]] obtain k dg where
    h: "saver_holds xxh3 (sa_api sa) lib so flds codec ?pb ?ar svs ds pend ss dk k dg" by blast
  then have k: "k \<le> length ds" "ss_last_saved_block ss = Some (sv_block (svs ! k))" by (simp_all add: saver_holds_def)
  have len: "length svs = Suc (length ds)" using hist by (simp add: history_def)
  have b0: "server_blocks xxh so be (svs ! 0) (take i ds) (svs ! i)" if "i \<le> length ds" for i
    using history_blocks[OF hist, of 0 i] that by simp
  have dep_i: "deployed sa so be flds codec log reps (svs ! i)" if "i \<le> length ds" for i
    by (rule server_blocks_deployed[OF b0[OF that] dep[unfolded hd]])
  have c0: "store_contract so (sv_params (svs ! 0)) log" "log (sv_store (svs ! 0)) = []"
    using dep unfolding deployed_def hd by blast+
  have par: "sv_params (svs ! i) = sv_params (hd svs)" if "i \<le> length ds" for i
    unfolding hd using server_blocks_effect[OF b0[OF that] c0] by blast
  note depk = dep_i[OF k(1)]
  have "svs ! k \<in> set svs" using k len by simp
  with sav have ok: "state_ok (sa_api sa) lib plib (setup_of flds (svs ! k)) (length (so_cells so (sv_store (svs ! k)))) codec"
    by (simp add: savable_run_def)
  from h obtain img where img: "fs_path (dk_state dk) = Some img" "state_image xxh3 (sa_api sa) lib so flds (svs ! k) codec img dg"
    by (auto simp: saver_holds_def)
  from image_loads[OF img(2) ok depk] obtain raw where
    raw: "load_raw xxh3 (sa_api sa) lib plib (Some img) codec = Inr raw" and base: "base_of sa so be (svs ! k) raw"
    and r: "raw_digest raw = dg" "wb_params (raw_setup raw) = flds" "length (raw_cells raw) = expected_cells (sa_api sa) flds"
    and cur: "raw_current sa be reps raw" by blast
  have blk: "wb_block (raw_setup raw) = sv_block (svs ! k)" using base by (simp add: base_of_def)
  have js: "journal_state xxh3 ?pb ?ar svs ds pend k dg (ss_journal ss) (dk_journal dk)" using h by (simp add: saver_holds_def)
  show ?thesis
  proof (cases "open_for_base xxh3 (sa_api sa) raw (dk_journal dk)")
    case None
    from restore_base_only[OF raw base None r(2,3) cur depk] obtain rs where
      rs: "load_with_journal_restore xxh3 sa so be lib plib (Some img) (dk_journal dk) config codec cap = Some (Inr rs)"
        "sv_block (rs_server rs) = sv_block (svs ! k)" "hints_current so reps (rs_server rs)"
        "sv_params (rs_server rs) = sv_params (svs ! k)"
        "so_cells so (sv_store (rs_server rs)) = so_cells so (sv_store (svs ! k))" by blast
    have nj: "ss_journal ss = None"
    proof (rule ccontr)
      assume "ss_journal ss \<noteq> None"
      with js obtain f es where f: "dk_journal dk = Some f" "journal_holds xxh3 ?pb ?ar (sv_block (svs ! k)) ds k dg es [] f"
        by (fastforce simp: journal_state_def split: option.splits)
      note journal_holds_recovers[OF f(2) jr[unfolded pb]]
      with None f(1) show False using r blk by (auto simp: recovers_def open_for_base_def pb)
    qed
    show ?thesis
      using rs k nj img(1) by (intro exI[of _ rs] exI[of _ k]) simp
  next
    case (Some r0)
    then obtain f where f: "dk_journal dk = Some f" by (cases "dk_journal dk") (simp_all add: open_for_base_def)
    from js f obtain m dg' es t where jh: "journal_holds xxh3 ?pb ?ar (sv_block (svs ! m)) ds m dg' es t f"
      and w: "\<forall>w. ss_journal ss = Some w \<longrightarrow> m = k \<and> dg' = dg \<and> t = [] \<and>
        writer_at ?pb (sv_block (svs ! k)) (length ds) k pend es w"
      unfolding journal_state_def f option.case by (elim exE conjE)
    have ours: "dg' = dg" "sv_block (svs ! m) = sv_block (svs ! k)"
      using journal_not_ours[OF jh, of raw "sa_api sa"] jr Some f r blk by (auto simp: pb)
    have ml: "m + length es \<le> length ds" using jh by (simp add: journal_holds_def)
    have "m = k"
      using history_strict[OF hist, of m k] history_strict[OF hist, of k m] ours(2) ml k by (cases m k rule: linorder_cases) auto
    note jh = jh[unfolded this ours(1)] and ml = ml[unfolded this]
    let ?i = "k + length es"
    have es: "map fst es = take (length es) (drop k ds)" using jh unfolding journal_holds_def by blast
    have rec: "recovers xxh3 ?pb ?ar dg (sv_block (svs ! k)) f es (t = [])"
      by (rule journal_holds_recovers[OF jh jr[unfolded pb]])
    have run2: "server_blocks xxh so be (svs ! k) (map fst es) (svs ! ?i)"
      unfolding es by (rule history_blocks[OF hist ml])
    note depk' = depk[unfolded deployed_def]
    have bnd: "uint (store_view so (sv_params (svs ! k)) (sv_store (svs ! k)) j row off) +
      (\<Sum>d \<leftarrow> take n (map fst es). delta_effect d j row off) < 2 ^ unat (cp_plaintext_bits (sv_params (svs ! k)))"
      if n: "n \<le> length es" for n j row off
    proof -
      have kn: "k + n \<le> length ds" using ml n by simp
      have tk: "take n (map fst es) = take n (drop k ds)" unfolding es using n by simp
      have b: "server_blocks xxh so be (svs ! k) (take n (drop k ds)) (svs ! (k + n))" by (rule history_blocks[OF hist kn])
      have ck: "store_contract so (sv_params (svs ! k)) log" "log (sv_store (svs ! k)) = []" using depk' by simp_all
      have e: "\<forall>d \<in> set (take n (drop k ds)). length (per_segment d) = cp_arity (sv_params (svs ! k))"
        using server_blocks_effect[OF b ck] by simp
      have in_: "uint (store_view so (sv_params (svs ! i)) (sv_store (svs ! i)) j row off)
          < 2 ^ unat (cp_plaintext_bits (sv_params (svs ! i)))" if "i \<le> length ds" for i
        using sav that len by (simp add: savable_run_def)
      show ?thesis
      proof (cases "j < cp_arity (sv_params (svs ! k))")
        case True
        then show ?thesis
          using server_blocks_effect[OF b ck] in_[OF kn] par[OF kn] par[OF k(1)] unfolding tk by simp
      next
        case False
        then have "delta_effect d j row off = 0" if "d \<in> set (take n (drop k ds))" for d
          using e that by (simp add: delta_effect_def)
        then have "(\<Sum>d \<leftarrow> take n (drop k ds). delta_effect d j row off) = 0" by (simp cong: map_cong)
        then show ?thesis using in_[OF k(1)] unfolding tk by simp
      qed
    qed
    have pk: "cf_plaintext_bits flds = ?pb" "?ar = of_nat (cp_arity (sv_params (svs ! k)))"
      "cp_plaintext_bits (sv_params (svs ! k)) \<le> 31"
      using depk' pb by simp_all
    have rec': "recovers xxh3 (cf_plaintext_bits (wb_params (raw_setup raw))) (of_nat (cp_arity (sv_params (svs ! k))))
        (raw_digest raw) (sv_block (svs ! k)) f es (t = [])"
      using rec unfolding r pk .
    from restore_core[OF raw base rec' run2, of log reps config cap] depk' bnd r obtain rs where
      rs: "load_with_journal_restore xxh3 sa so be lib plib (Some img) (Some f) config codec cap = Some (Inr rs)"
        "sv_block (rs_server rs) = sv_block (svs ! ?i)" "hints_current so reps (rs_server rs)"
        "sv_params (rs_server rs) = sv_params (svs ! ?i)"
        "\<forall>j < cp_arity (sv_params (svs ! ?i)). \<forall>row off. store_view so (sv_params (svs ! ?i)) (sv_store (rs_server rs)) j row off =
          store_view so (sv_params (svs ! ?i)) (sv_store (svs ! ?i)) j row off" by auto
    have "sv_block (svs ! k) \<le> sv_block (svs ! ?i)"
      using history_strict[OF hist, of k ?i] ml by (cases "es = []") auto
    moreover have "ss_journal ss \<noteq> None \<longrightarrow> length ds \<le> ?i + (if pend = None then 0 else 1)"
      using w by (auto simp: writer_at_def split: option.splits)
    ultimately show ?thesis
      using rs k ml img(1) f by (intro exI[of _ rs] exI[of _ ?i]) auto
  qed
qed

section \<open>Concrete data\<close>

definition saver_cp :: cuckoo_params where
  "saver_cp = toy_cp\<lparr> cp_plaintext_bits := 8 \<rparr>"

definition saver_api :: "(u32 list \<times> slot_mutation list) store_api" where
  "saver_api = toy_store_api\<lparr> sa_cp_of := (\<lambda>_. saver_cp) \<rparr>"

definition saver_server where
  "saver_server = toy_server\<lparr> sv_store := ([1, 2, 3, 4, 5, 6, 7, 8], []), sv_params := saver_cp \<rparr>"

abbreviation saver_flds :: cuckoo_fields where
  "saver_flds \<equiv> wb_params toy_state_bundle"

lemma saver_server_sel:
  "sv_store saver_server = ([1, 2, 3, 4, 5, 6, 7, 8], [])" "sv_params saver_server = saver_cp" "sv_block saver_server = 19"
  "setup_of saver_flds (saver_server\<lparr> sv_block := b \<rparr>) = toy_state_bundle\<lparr> wb_block := b \<rparr>"
  by (simp_all add: saver_server_def toy_server_def setup_of_def)

lemma saver_block:
  "\<exists>rep. apply_block_reporting example_hash toy_store toy_backend saver_server
      \<lparr> update_block = 20, changes = [], credits = [] \<rparr> =
    Some (Inr (toy_empty_delta, rep), saver_server\<lparr> sv_block := 20 \<rparr>)"
proof -
  have "replicate 2 x = [x, x]" for x :: "(u32, (u16, i64) btree) btree" by (simp add: numeral_2_eq_2)
  then have "fold_mutations_into_row_deltas [] saver_cp = Some [[], []]"
    by (simp add: fold_mutations_into_row_deltas_def saver_cp_def toy_cp_def)
  then show ?thesis
    by (simp add: apply_block_reporting_def saver_server_def toy_server_def toy_store_def toy_empty_delta_def)
qed

lemma saver_state_ok: "state_ok toy_api toy_simple_lib example_lib (toy_state_bundle\<lparr> wb_block := b \<rparr>) 8 example_codec"
proof -
  have "setup_encoded_len (toy_state_bundle\<lparr> wb_block := b \<rparr>) = setup_encoded_len toy_state_bundle"
    "setup_fits toy_simple_lib (toy_state_bundle\<lparr> wb_block := b \<rparr>) = setup_fits toy_simple_lib toy_state_bundle"
    by (simp_all add: setup_encoded_len_def setup_fits_def)
  then show ?thesis using toy_state_ok by (simp add: state_ok_def)
qed

lemma saver_deployed: "deployed saver_api toy_store toy_backend saver_flds example_codec snd toy_reps saver_server"
proof -
  have "cf_plaintext_bits saver_flds = 8" by (simp add: toy_state_bundle_def example_lib_def)
  moreover have "expected_cells toy_api saver_flds = 8"
    by (simp add: expected_cells_def toy_api_def toy_state_bundle_def)
  moreover have "store_contract toy_store saver_cp snd" by (simp add: store_contract_def toy_store_def)
  moreover have "backend_contract toy_backend saver_cp toy_reps"
    by (simp add: backend_contract_def toy_reps_def split: prod.split)
  moreover have "hints_current toy_store toy_reps saver_server"
    by (simp add: hints_current_def toy_reps_def saver_server_sel saver_cp_def toy_cp_def)
      (simp add: saver_server_def toy_server_def toy_state_bundle_def toy_bundle_def)
  moreover have "from_cells_doc saver_api toy_store saver_flds 8"
    by (simp add: from_cells_doc_def saver_api_def toy_store_api_def toy_store_def)
  moreover have "div_ceil8 (unat (value_bits example_codec)) = 4"
    by (simp add: value_bits_def example_codec_def div_ceil8_def)
  moreover have "sv_material saver_server = map (sb_expand_material toy_backend) (sv_backend_params saver_server)"
    by (simp add: saver_server_def toy_server_def toy_backend_def toy_state_bundle_def toy_bundle_def)
  ultimately show ?thesis
    by (simp add: deployed_def saver_server_sel saver_api_def toy_store_api_def)
      (simp add: saver_cp_def toy_cp_def seg_cells_of_def row_width_of_def toy_api_def toy_arity_def toy_state_bundle_def)
qed

lemma saver_savable:
  "savable_run saver_api toy_store toy_simple_lib example_lib saver_flds example_codec
    [saver_server, saver_server\<lparr> sv_block := 20 \<rparr>]"
proof -
  let ?cells = "[1, 2, 3, 4, 5, 6, 7, 8] :: u32 list"
  have small: "\<forall>c \<in> set ?cells. uint c < 2 ^ 8" by simp
  have view: "uint (db_view p ?cells j row off) < 2 ^ 8" for p j row off
    using small by (simp add: db_view_def Let_def del: set_simps)
  have sel: "so_cells toy_store (sv_store (saver_server\<lparr> sv_block := b \<rparr>)) = ?cells"
    "sv_params (saver_server\<lparr> sv_block := b \<rparr>) = saver_cp" "cp_plaintext_bits saver_cp = 8" "sa_api saver_api = toy_api" for b
    by (simp_all add: saver_server_sel toy_store_def saver_cp_def saver_api_def toy_store_api_def)
  have len: "length ?cells = 8" by simp
  have "state_ok (sa_api saver_api) toy_simple_lib example_lib (setup_of saver_flds (saver_server\<lparr> sv_block := b \<rparr>))
      (length (so_cells toy_store (sv_store (saver_server\<lparr> sv_block := b \<rparr>)))) example_codec" for b
    unfolding sel saver_server_sel(4) len by (rule saver_state_ok)
  moreover have "uint (store_view toy_store (sv_params (saver_server\<lparr> sv_block := b \<rparr>))
      (sv_store (saver_server\<lparr> sv_block := b \<rparr>)) j row off) < 2 ^ unat (cp_plaintext_bits (sv_params (saver_server\<lparr> sv_block := b \<rparr>)))"
    for b j row off
    unfolding sel using view by simp
  ultimately have one: "savable_run saver_api toy_store toy_simple_lib example_lib saver_flds example_codec [saver_server\<lparr> sv_block := b \<rparr>]" for b
    unfolding savable_run_def by (metis empty_iff insert_iff list.set)
  have "saver_server = saver_server\<lparr> sv_block := 19 \<rparr>" by (simp add: saver_server_def toy_server_def)
  then show ?thesis using one[of 19] one[of 20] unfolding savable_run_def by (metis list.set_intros set_ConsD)
qed

section \<open>Properties\<close>

text \<open>C30. A crash costs at most the block in flight.  Take any run of a server with its saver:
  blocks applied, deltas appended, periodic saves and the save at shutdown at any moment, and
  any of the file operations stopped at any byte.  If every state can be saved and the record of every
  delta is within the journal reader's cap, then whatever the disk holds, loading the
  state file with the journal succeeds, with exactly one of the servers of the run: its block,
  every one of its cells, and current hints; it is not older than the last completed save;
  and while journaling is live it is the newest server, or the one before it if the newest
  delta still waited to be appended.\<close>

theorem restart_recovers_running_server:
  assumes "saver_run xxh xxh3 (sa_api sa) lib so be flds codec svs ds pend ss dk"
    and "deployed sa so be flds codec log reps (hd svs)" and "savable_run sa so lib plib flds codec svs"
    and "\<forall>d \<in> set ds. journalable (cf_plaintext_bits flds) (of_nat (ca_arity (sa_api sa) flds)) d"
  shows "\<exists>rs i. load_with_journal_restore xxh3 sa so be lib plib (fs_path (dk_state dk)) (dk_journal dk) config codec cap = Some (Inr rs) \<and>
    i \<le> length ds \<and> sv_block (rs_server rs) = sv_block (svs ! i) \<and> hints_current so reps (rs_server rs) \<and>
    sv_params (rs_server rs) = sv_params (svs ! i) \<and>
    (\<forall>j < cp_arity (sv_params (svs ! i)). \<forall>row off. store_view so (sv_params (svs ! i)) (sv_store (rs_server rs)) j row off =
       store_view so (sv_params (svs ! i)) (sv_store (svs ! i)) j row off) \<and>
    (\<exists>b. ss_last_saved_block ss = Some b \<and> b \<le> sv_block (svs ! i)) \<and>
    (ss_journal ss \<noteq> None \<longrightarrow> length ds \<le> i + (if pend = None then 0 else 1))"
  by (rule restart_core[OF assms])

lemma restart_recovers_running_server_witness:
  "\<exists>ss dk rs. saver_run example_hash toy_hash toy_api toy_simple_lib toy_store toy_backend saver_flds example_codec
      [saver_server, saver_server\<lparr> sv_block := 20 \<rparr>] [toy_empty_delta] None ss dk \<and>
    load_with_journal_restore toy_hash saver_api toy_store toy_backend toy_simple_lib example_lib
      (fs_path (dk_state dk)) (dk_journal dk) () example_codec 100 = Some (Inr rs) \<and>
    sv_block (rs_server rs) = 20 \<and> ss_last_saved_block ss = Some 19"
proof -
  let ?run = "saver_run example_hash toy_hash toy_api toy_simple_lib toy_store toy_backend saver_flds example_codec"
  let ?dk0 = "\<lparr> dk_state = \<lparr> fs_path = None, fs_tmp = None \<rparr>, dk_journal = None \<rparr>"
  let ?io = "\<lparr> sf_save = None, sf_rotate = None \<rparr>"
  have ad: "arity_doc (ca_arity toy_api)" using toy_state_ok by (simp add: state_ok_def)
  obtain ss dk w f where boot: "bootstrap_saver toy_hash toy_api toy_simple_lib toy_store saver_flds saver_server example_codec
      60 ?io 0 ?dk0 = Some (ss, dk)" and ss: "ss_last_saved_block ss = Some 19" "ss_journal ss = Some w"
      "\<not> ss_journal_broken ss" "dk_journal dk = Some f" "jw_plaintext_bits w = 8" "jw_last w = 19"
    by (simp add: bootstrap_saver_def save_def save_content_eq[OF ad] Let_def journal_create_def saver_new_def
        saver_server_sel saver_cp_def)
  from saver_started[OF _ boot] ss(1) have r0: "?run [saver_server] [] None ss dk" by simp
  from saver_block obtain rep where
    "apply_block_reporting example_hash toy_store toy_backend (last [saver_server])
      \<lparr> update_block = 20, changes = [], credits = [] \<rparr> = Some (Inr (toy_empty_delta, rep), saver_server\<lparr> sv_block := 20 \<rparr>)"
    by auto
  from saver_applied[OF r0 this] have r1: "?run [saver_server, saver_server\<lparr> sv_block := 20 \<rparr>] [toy_empty_delta]
      (Some (toy_empty_delta, so_num_items toy_store (sv_store (saver_server\<lparr> sv_block := 20 \<rparr>)))) ss dk" by simp
  have "length (payload_of 8 toy_empty_delta) < 2 ^ 32"
    using journalableD(2)[OF toy_journalable] by (simp add: max_record_bytes_def)
  then have "journal_append toy_hash None w f toy_empty_delta n = Some (Inr (), w\<lparr> jw_last := 20 \<rparr>,
      f @ record_bytes toy_hash (payload_of 8 toy_empty_delta) n)" for n
    using journalableD(1)[OF toy_journalable] ss by (simp add: journal_append_def toy_empty_delta_def)
  then obtain ss' dk' where ap: "append_delta toy_hash None ss dk toy_empty_delta
      (so_num_items toy_store (sv_store (saver_server\<lparr> sv_block := 20 \<rparr>))) = Some (ss', dk')"
      "ss_last_saved_block ss' = Some 19" "ss_journal ss' \<noteq> None"
    using ss by (simp add: append_delta_def)
  from saver_appended[OF r1 ap(1)] have r2:
    "?run [saver_server, saver_server\<lparr> sv_block := 20 \<rparr>] [toy_empty_delta] None ss' dk'" .
  have api: "sa_api saver_api = toy_api" by (simp add: saver_api_def toy_store_api_def)
  have "\<forall>d \<in> set [toy_empty_delta]. journalable (cf_plaintext_bits saver_flds) (of_nat (ca_arity (sa_api saver_api) saver_flds)) d"
  proof -
    have "cf_plaintext_bits saver_flds = 8" "ca_arity toy_api saver_flds = 2"
      by (simp_all add: toy_state_bundle_def example_lib_def toy_api_def toy_arity_def)
    then show ?thesis using toy_journalable by (simp add: api)
  qed
  from restart_recovers_running_server[OF r2[folded api] _ saver_savable this, of snd toy_reps "()" 100] saver_deployed
  obtain rs i where "load_with_journal_restore toy_hash saver_api toy_store toy_backend toy_simple_lib example_lib
      (fs_path (dk_state dk')) (dk_journal dk') () example_codec 100 = Some (Inr rs)" "i \<le> 1"
      "sv_block (rs_server rs) = sv_block ([saver_server, saver_server\<lparr> sv_block := 20 \<rparr>] ! i)" "1 \<le> i"
    using ap(3) by auto
  then show ?thesis
    using r2 ap(2) by (intro exI[of _ ss'] exI[of _ dk'] exI[of _ rs]) (cases i; simp)
qed

end
