(* ===== verification/Hex_Text.thy ===== *)
theory Hex_Text
  imports Http_Text
begin

text \<open>
  Hexadecimal text as the feed (\<open>crates/risepir-feed/src/rpc.rs\<close>), the snapshot loader, the
  hard refresh and the JSON-RPC front end read and write it: \<open>u128::from_str_radix(_, 16)\<close>,
  \<open>parse_hex_u128\<close>, \<open>parse_address\<close>, and the printing of bytes and of numbers.

  The lemmas: an address and a number print and parse back.  \<open>from_str_radix\<close> takes one
  leading plus sign, so \<open>parse_hex_u128\<close> accepts \<open>0x+5\<close>.
\<close>

section \<open>Digits\<close>

definition hex_value :: "char \<Rightarrow> nat option" where
  "hex_value c =
     (let n = (of_char c :: nat) in
      if 48 \<le> n \<and> n \<le> 57 then Some (n - 48)
      else if 97 \<le> n \<and> n \<le> 102 then Some (n - 87)
      else if 65 \<le> n \<and> n \<le> 70 then Some (n - 55)
      else None)"

definition hex_digit :: "nat \<Rightarrow> char" where
  "hex_digit d = (if d < 10 then char_of (48 + d) else char_of (87 + d))"

fun parse_hex_digits :: "nat \<Rightarrow> nat \<Rightarrow> string \<Rightarrow> nat option" where
  "parse_hex_digits lim v [] = Some v"
| "parse_hex_digits lim v (c # cs) =
     (case hex_value c of
        None \<Rightarrow> None
      | Some d \<Rightarrow> if v * 16 + d < lim then parse_hex_digits lim (v * 16 + d) cs else None)"

definition ascii_lower :: "char \<Rightarrow> char" where
  "ascii_lower c = (let n = (of_char c :: nat) in if 65 \<le> n \<and> n \<le> 90 then char_of (n + 32) else c)"

text \<open>\<open>from_str_radix(s, 16)\<close> of an unsigned type with \<open>lim\<close> values.\<close>

definition from_hex :: "nat \<Rightarrow> string \<Rightarrow> nat option" where
  "from_hex lim s =
     (let digits = (case s of [] \<Rightarrow> [] | c # cs \<Rightarrow> if c = CHR ''+'' then cs else s)
      in if digits = [] then None else parse_hex_digits lim 0 digits)"

function show_hex :: "nat \<Rightarrow> string" where
  "show_hex n = (if n < 16 then [hex_digit n] else show_hex (n div 16) @ [hex_digit (n mod 16)])"
  by pat_completeness auto
termination by (relation "measure id") auto

declare show_hex.simps [simp del]

text \<open>\<open>{:02x}\<close> of each byte.\<close>

definition hex_bytes :: "bytes \<Rightarrow> string" where
  "hex_bytes bs = concat (map (\<lambda>b. [hex_digit (unat b div 16), hex_digit (unat b mod 16)]) bs)"

section \<open>Quantities and addresses\<close>

datatype hex_error = NotHexQuantity string | EmptyHexQuantity | HexQuantityTooLarge string

definition strip_0x :: "string \<Rightarrow> string option" where
  "strip_0x s = (case strip_prefix ''0x'' s of Some d \<Rightarrow> Some d | None \<Rightarrow> strip_prefix ''0X'' s)"

definition parse_hex_u128 :: "string \<Rightarrow> hex_error + u128" where
  "parse_hex_u128 s =
     (case strip_0x s of
        None \<Rightarrow> Inl (NotHexQuantity s)
      | Some digits \<Rightarrow>
          if digits = [] then Inl EmptyHexQuantity
          else (case from_hex (2 ^ 128) digits of
            None \<Rightarrow> Inl (HexQuantityTooLarge s)
          | Some n \<Rightarrow> Inr (of_nat n)))"

fun hex_pairs :: "string \<Rightarrow> bytes option" where
  "hex_pairs (a # b # cs) =
     Option.bind (from_hex (2 ^ 8) [a, b]) (\<lambda>n. map_option (\<lambda>bs. of_nat n # bs) (hex_pairs cs))"
| "hex_pairs _ = Some []"

definition parse_address :: "string \<Rightarrow> bytes option" where
  "parse_address s =
     Option.bind (strip_0x s) (\<lambda>hex.
       if length hex \<noteq> 40 \<or> \<not> list_all (\<lambda>c. hex_value c \<noteq> None) hex then None else hex_pairs hex)"

section \<open>Printing and parsing back\<close>

lemma hex_value_digit [simp]: "d < 16 \<Longrightarrow> hex_value (hex_digit d) = Some d"
  by (auto simp: hex_value_def hex_digit_def)

lemma hex_digit_not_plus [simp]: "d < 16 \<Longrightarrow> hex_digit d \<noteq> CHR ''+''"
proof
  assume "d < 16" and "hex_digit d = CHR ''+''"
  then have "hex_value (CHR ''+'') = Some d" using hex_value_digit[of d] by simp
  then show False by (simp add: hex_value_def)
qed

lemma parse_hex_digits_append:
  "parse_hex_digits lim v (cs @ ds) = Option.bind (parse_hex_digits lim v cs) (\<lambda>v. parse_hex_digits lim v ds)"
  by (induction cs arbitrary: v) (auto split: option.splits)

lemma parse_show_hex: "n < lim \<Longrightarrow> parse_hex_digits lim 0 (show_hex n) = Some n"
proof (induction n rule: show_hex.induct)
  case (1 n)
  show ?case
  proof (cases "n < 16")
    case True
    with 1(2) show ?thesis by (simp add: show_hex.simps[of n])
  next
    case False
    with 1 have "parse_hex_digits lim 0 (show_hex (n div 16)) = Some (n div 16)"
      by (meson div_le_dividend le_less_trans)
    then show ?thesis
      using False 1(2) by (simp add: show_hex.simps[of n] parse_hex_digits_append div_mult_mod_eq)
  qed
qed

lemma show_hex_Cons: "\<exists>d cs. d < 16 \<and> show_hex n = hex_digit d # cs"
proof (induction n rule: show_hex.induct)
  case (1 n)
  show ?case
  proof (cases "n < 16")
    case True
    then have "show_hex n = hex_digit n # []" by (simp add: show_hex.simps[of n])
    with True show ?thesis by blast
  next
    case False
    with 1 obtain d cs where "d < 16" "show_hex (n div 16) = hex_digit d # cs" by blast
    then show ?thesis using False by (subst show_hex.simps) auto
  qed
qed

lemma from_hex_show [simp]: "n < lim \<Longrightarrow> from_hex lim (show_hex n) = Some n"
proof -
  assume n: "n < lim"
  obtain d cs where d: "d < 16" "show_hex n = hex_digit d # cs" using show_hex_Cons by blast
  then show ?thesis using parse_show_hex[OF n] by (simp add: from_hex_def del: parse_hex_digits.simps)
qed

lemma strip_0x_prefix [simp]: "strip_0x (CHR ''0'' # CHR ''x'' # s) = Some s"
  by (simp add: strip_0x_def)

lemma parse_hex_show_u128: "parse_hex_u128 (''0x'' @ show_hex (unat w)) = Inr w"
proof -
  have "unat w < 2 ^ 128" using unsigned_less[of w, where 'a = nat] by simp
  moreover have "show_hex (unat w) \<noteq> []" using show_hex_Cons[of "unat w"] by auto
  ultimately show ?thesis by (simp add: parse_hex_u128_def)
qed

lemma hex_pairs_hex_bytes [simp]: "hex_pairs (hex_bytes bs) = Some bs"
proof (induction bs)
  case (Cons b bs)
  have b: "unat b < 256" using unsigned_less[of b, where 'a = nat] by simp
  then have "unat b div 16 < 16" "unat b mod 16 < 16" "16 * (unat b div 16) + unat b mod 16 = unat b"
    by (simp_all add: less_mult_imp_div_less)
  moreover from this b have "unat b div 16 * 16 + unat b mod 16 < 256" "unat b div 16 < 256" by simp_all
  ultimately have "from_hex (2 ^ 8) [hex_digit (unat b div 16), hex_digit (unat b mod 16)] = Some (unat b)"
    by (simp add: from_hex_def mult.commute)
  then show ?case using Cons by (simp add: hex_bytes_def)
qed (simp add: hex_bytes_def)

lemma length_hex_bytes [simp]: "length (hex_bytes bs) = 2 * length bs"
  by (induction bs) (simp_all add: hex_bytes_def)

lemma hex_bytes_digits: "list_all (\<lambda>c. hex_value c \<noteq> None) (hex_bytes bs)"
proof (induction bs)
  case (Cons b bs)
  have "unat b < 256" using unsigned_less[of b, where 'a = nat] by simp
  then have "unat b div 16 < 16" "unat b mod 16 < 16" by (simp_all add: less_mult_imp_div_less)
  then show ?case using Cons by (simp add: hex_bytes_def)
qed (simp add: hex_bytes_def)

lemma parse_address_hex: "length a = 20 \<Longrightarrow> parse_address (''0x'' @ hex_bytes a) = Some a"
  using hex_bytes_digits[of a] by (simp add: parse_address_def)

text \<open>A plus sign after the prefix is accepted.\<close>

lemma signed_hex_quantity_accepted: "parse_hex_u128 ''0x+5'' = Inr 5"
  by (simp add: parse_hex_u128_def strip_0x_def from_hex_def hex_value_def)

end
