(* ===== verification/Text_Lines.thy ===== *)
theory Text_Lines
  imports Hex_Text
begin

text \<open>
  Text files as the snapshot loader and the hard refresh read them.  A \<open>str\<close> is the list of its
  UTF-8 bytes: \<open>str::from_utf8\<close> is \<open>utf8_valid\<close>, \<open>str::trim\<close> removes the encodings of the
  Unicode white space, \<open>BufRead::lines\<close> and \<open>str::lines\<close> split at \<open>\n\<close> and drop one \<open>\r\<close> before
  it.  A decimal number prints and parses back, and the lines of a file that was written line by
  line are those lines.
\<close>

section \<open>UTF-8\<close>

definition byte_in :: "nat \<Rightarrow> nat \<Rightarrow> char \<Rightarrow> bool" where
  "byte_in lo hi c \<longleftrightarrow> lo \<le> (of_char c :: nat) \<and> (of_char c :: nat) \<le> hi"

abbreviation cont_byte :: "char \<Rightarrow> bool" where
  "cont_byte \<equiv> byte_in 0x80 0xbf"

fun utf8_valid :: "string \<Rightarrow> bool" where
  "utf8_valid [] = True"
| "utf8_valid (a # s) =
     (if byte_in 0 0x7f a then utf8_valid s
      else case s of
        [] \<Rightarrow> False
      | b # s \<Rightarrow>
          if byte_in 0xc2 0xdf a then cont_byte b \<and> utf8_valid s
          else case s of
            [] \<Rightarrow> False
          | c # s \<Rightarrow>
              if byte_in 0xe0 0xe0 a then byte_in 0xa0 0xbf b \<and> cont_byte c \<and> utf8_valid s
              else if byte_in 0xed 0xed a then byte_in 0x80 0x9f b \<and> cont_byte c \<and> utf8_valid s
              else if byte_in 0xe1 0xef a then cont_byte b \<and> cont_byte c \<and> utf8_valid s
              else case s of
                [] \<Rightarrow> False
              | d # s \<Rightarrow>
                  cont_byte c \<and> cont_byte d \<and>
                  (byte_in 0xf0 0xf0 a \<and> byte_in 0x90 0xbf b \<or> byte_in 0xf1 0xf3 a \<and> cont_byte b \<or>
                   byte_in 0xf4 0xf4 a \<and> byte_in 0x80 0x8f b) \<and> utf8_valid s)"

text \<open>The encodings of the characters with the property \<open>White_Space\<close>.\<close>

definition chars :: "nat list \<Rightarrow> string" where "chars = map char_of"

definition white_chars :: "string list" where
  "white_chars =
     map (\<lambda>n. chars [n]) [9, 10, 11, 12, 13, 32] @ [chars [0xc2, 0x85], chars [0xc2, 0xa0], chars [0xe1, 0x9a, 0x80]] @
     map (\<lambda>n. chars [0xe2, 0x80, n]) [0x80, 0x81, 0x82, 0x83, 0x84, 0x85, 0x86, 0x87, 0x88, 0x89, 0x8a, 0xa8, 0xa9, 0xaf] @
     [chars [0xe2, 0x81, 0x9f], chars [0xe3, 0x80, 0x80]]"

text \<open>\<open>strip ws s\<close> removes from the front of \<open>s\<close> as many members of \<open>ws\<close> as stand there; the
  fuel is the length of the string, each step removes a byte or more.\<close>

fun strip_front :: "string list \<Rightarrow> nat \<Rightarrow> string \<Rightarrow> string" where
  "strip_front ws 0 s = s"
| "strip_front ws (Suc n) s =
     (case find_map (\<lambda>w. strip_prefix w s) ws of None \<Rightarrow> s | Some r \<Rightarrow> strip_front ws n r)"

definition trim_start :: "string \<Rightarrow> string" where
  "trim_start s = strip_front white_chars (length s) s"

definition trim_end :: "string \<Rightarrow> string" where
  "trim_end s = rev (strip_front (map rev white_chars) (length s) (rev s))"

definition str_trim :: "string \<Rightarrow> string" where
  "str_trim s = trim_end (trim_start s)"

section \<open>Lines\<close>

abbreviation newline :: char where "newline \<equiv> CHR 0x0a"
abbreviation carriage_return :: char where "carriage_return \<equiv> CHR 0x0d"

definition strip_cr :: "string \<Rightarrow> string" where
  "strip_cr s = (if s \<noteq> [] \<and> last s = carriage_return then butlast s else s)"

fun line_pieces :: "string list \<Rightarrow> string list" where
  "line_pieces [] = []"
| "line_pieces [p] = (if p = [] then [] else [p])"
| "line_pieces (p # q # ps) = strip_cr p # line_pieces (q # ps)"

text \<open>\<open>str::lines\<close>.\<close>

definition str_lines :: "string \<Rightarrow> string list" where
  "str_lines s = line_pieces (split_char newline s)"

text \<open>What a reader yields: its bytes up to the first read error, and that error.\<close>

record text_source =
  ts_bytes :: string
  ts_fault :: "string option"

definition checked_line :: "string \<Rightarrow> string + string" where
  "checked_line l = (if utf8_valid l then Inr l else Inl ''stream did not contain valid UTF-8'')"

text \<open>\<open>BufRead::lines\<close>: an error ends the line it strikes.\<close>

definition read_lines :: "text_source \<Rightarrow> (string + string) list" where
  "read_lines src =
     (let pieces = split_char newline (ts_bytes src) in
      case ts_fault src of
        None \<Rightarrow> map checked_line (line_pieces pieces)
      | Some e \<Rightarrow> map (\<lambda>p. checked_line (strip_cr p)) (butlast pieces) @ [Inl e])"

section \<open>Decimal numbers\<close>

fun parse_dec :: "nat \<Rightarrow> nat \<Rightarrow> string \<Rightarrow> nat option" where
  "parse_dec lim v [] = Some v"
| "parse_dec lim v (c # cs) =
     (case digit_value c of
        None \<Rightarrow> None
      | Some d \<Rightarrow> if v * 10 + d < lim then parse_dec lim (v * 10 + d) cs else None)"

lemma parse_dec_append:
  "parse_dec lim v (cs @ ds) = Option.bind (parse_dec lim v cs) (\<lambda>v. parse_dec lim v ds)"
  by (induction cs arbitrary: v) (auto split: option.splits)

lemma parse_dec_show: "n < lim \<Longrightarrow> parse_dec lim 0 (show_nat n) = Some n"
proof (induction n rule: show_nat.induct)
  case (1 n)
  show ?case
  proof (cases "n < 10")
    case True
    with 1(2) show ?thesis by (simp add: show_nat.simps[of n])
  next
    case False
    with 1 have "parse_dec lim 0 (show_nat (n div 10)) = Some (n div 10)"
      by (meson div_le_dividend le_less_trans)
    then show ?thesis
      using False 1(2) by (simp add: show_nat.simps[of n] parse_dec_append div_mult_mod_eq)
  qed
qed

text \<open>What a run of digits denotes, most significant first.\<close>

fun dec_value :: "nat \<Rightarrow> string \<Rightarrow> nat" where
  "dec_value v [] = v"
| "dec_value v (c # cs) = dec_value (v * 10 + (of_char c - 48)) cs"

lemma parse_dec_value: "parse_dec lim v cs = Some n \<Longrightarrow> n = dec_value v cs \<and> (cs = [] \<or> n < lim) \<and> (\<forall>c \<in> set cs. digit_value c \<noteq> None)"
proof (induction cs arbitrary: v)
  case (Cons c cs)
  then obtain d where d: "digit_value c = Some d" "v * 10 + d < lim" "parse_dec lim (v * 10 + d) cs = Some n"
    by (auto split: option.splits if_splits)
  moreover have "d = of_char c - 48" using d(1) by (auto simp: digit_value_def Let_def split: if_splits)
  ultimately show ?case using Cons.IH[OF d(3)] by (cases cs) auto
qed simp

section \<open>Writing lines and reading them back\<close>

lemma split_char_nonempty [simp]: "split_char c s \<noteq> []"
  by (cases s) (auto split: list.splits)

lemma line_pieces_Cons: "ps \<noteq> [] \<Longrightarrow> line_pieces (p # ps) = strip_cr p # line_pieces ps"
  by (cases ps) auto

lemma str_lines_Nil [simp]: "str_lines [] = []"
  by (simp add: str_lines_def)

lemma str_lines_Cons: "newline \<notin> set p \<Longrightarrow> str_lines (p @ newline # s) = strip_cr p # str_lines s"
  by (simp add: str_lines_def split_char_append line_pieces_Cons)

lemma str_lines_written:
  "\<forall>l \<in> set ls. newline \<notin> set l \<Longrightarrow> str_lines (concat (map (\<lambda>l. l @ [newline]) ls)) = map strip_cr ls"
  by (induction ls) (auto simp: str_lines_Cons)

lemma strip_cr_id: "carriage_return \<notin> set s \<Longrightarrow> strip_cr s = s"
  by (auto simp: strip_cr_def dest: last_in_set)

lemma strip_cr_snoc [simp]: "strip_cr (s @ [carriage_return]) = s"
  by (simp add: strip_cr_def)

text \<open>Plain ASCII is valid, and has nothing to trim when it begins and ends with a visible byte.\<close>

lemma utf8_ascii: "\<forall>c \<in> set s. byte_in 0 0x7f c \<Longrightarrow> utf8_valid s"
  by (induction s) auto

definition visible :: "char \<Rightarrow> bool" where
  "visible c \<longleftrightarrow> byte_in 33 126 c"

lemma white_ends:
  "list_all (\<lambda>w. w \<noteq> [] \<and> \<not> visible (hd w) \<and> \<not> visible (last w)) white_chars"
  by (simp add: white_chars_def chars_def visible_def byte_in_def)

lemma strip_prefix_other: "w \<noteq> [] \<Longrightarrow> hd w \<noteq> c \<Longrightarrow> strip_prefix w (c # s) = None"
  by (cases w) auto

lemma white_first: "w \<in> set white_chars \<Longrightarrow> visible c \<Longrightarrow> strip_prefix w (c # s) = None"
  using white_ends strip_prefix_other[of w c s] unfolding list_all_iff by blast

lemma white_last: "w \<in> set white_chars \<Longrightarrow> visible c \<Longrightarrow> strip_prefix (rev w) (c # s) = None"
  using white_ends strip_prefix_other[of "rev w" c s] unfolding list_all_iff hd_rev rev_is_Nil_conv by blast

lemma find_map_None: "(\<And>x. x \<in> set xs \<Longrightarrow> f x = None) \<Longrightarrow> find_map f xs = None"
  by (induction xs) auto

lemma str_trim_visible:
  assumes "s \<noteq> []" and "visible (hd s)" and "visible (last s)"
  shows "str_trim s = s"
proof -
  obtain c t where s: "s = c # t" using assms(1) by (cases s) auto
  have "find_map (\<lambda>w. strip_prefix w (c # t)) white_chars = None"
    using white_first assms(2) s by (intro find_map_None) auto
  then have front: "trim_start s = s" using s by (simp add: trim_start_def)
  obtain d u where r: "rev s = d # u" using assms(1) by (cases "rev s") auto
  then have "visible d" using assms(3) by (metis hd_rev list.sel(1))
  then have "find_map (\<lambda>w. strip_prefix w (d # u)) (map rev white_chars) = None"
    using white_last by (intro find_map_None) auto
  moreover have "length s = Suc (length u)" using r by (metis length_Cons length_rev)
  ultimately have "strip_front (map rev white_chars) (length s) (d # u) = d # u" by simp
  then have "trim_end s = s" using r by (metis rev_rev_ident trim_end_def)
  with front show ?thesis by (simp add: str_trim_def)
qed

lemma find_map_Some: "find_map f xs = Some y \<Longrightarrow> \<exists>x \<in> set xs. f x = Some y"
  by (induction xs) (auto split: option.splits)

lemma str_trim_Nil [simp]: "str_trim [] = []"
  by (simp add: str_trim_def trim_start_def trim_end_def)

end
