(* ===== verification/Snapshot.thy ===== *)
theory Snapshot
  imports Text_Lines Block_Delta
begin

text \<open>
  Model of \<open>crates/risepir-feed/src/snapshot.rs\<close>: the loader of \<open>address,eth_balance\<close> CSV
  files.  The file system, \<open>flate2\<close> and Keccak are parameters; a path is its name and its
  extension; the caller's sink is a function on a state.

  The lemmas: the loader hands the sink the nonzero rows of the files, in file order, and stops
  at the first line that is not a row; what an export writes is what the sink receives; and
  \<open>count_rows\<close> counts every row \<open>ingest\<close> counts.
\<close>

section \<open>Data\<close>

record snapshot_path =
  sp_name :: string
  sp_extension :: "string option"

datatype io_detail = OpenFailed string | LineFailed u64 string

datatype row_error =
    NotTwoFields
  | BadRowAddress string
  | NotDecimalWei string
  | NonzeroFraction string
  | WeiTooLarge string

datatype snapshot_error =
    SnapIo snapshot_path io_detail
  | MalformedRow snapshot_path u64 row_error
  | SinkRejected snapshot_path u64 string

record snapshot_stats =
  sn_rows :: u64
  sn_nonzero :: u64
  sn_zero_skipped :: u64
  sn_max_balance :: balance

definition no_stats :: snapshot_stats where
  "no_stats = \<lparr> sn_rows = 0, sn_nonzero = 0, sn_zero_skipped = 0, sn_max_balance = 0 \<rparr>"

record snapshot_ext =
  sx_open :: "snapshot_path \<Rightarrow> string + text_source"
  sx_gunzip :: "text_source \<Rightarrow> text_source"
  sx_keccak :: "bytes \<Rightarrow> bytes"

section \<open>One row\<close>

definition all_digits :: "string \<Rightarrow> bool" where
  "all_digits s = list_all (\<lambda>c. digit_value c \<noteq> None) s"

definition parse_wei :: "string \<Rightarrow> row_error + balance" where
  "parse_wei s =
     (case (case split_once CHR ''.'' s of Some (i, f) \<Rightarrow> (i, Some f) | None \<Rightarrow> (s, None)) of
        (int_part, frac_part) \<Rightarrow>
          if int_part = [] \<or> \<not> all_digits int_part then Inl (NotDecimalWei s)
          else if (case frac_part of None \<Rightarrow> False
                   | Some frac \<Rightarrow> frac = [] \<or> \<not> list_all (\<lambda>c. c = CHR ''0'') frac)
          then Inl (NonzeroFraction s)
          else map_err (\<lambda>_. WeiTooLarge s) (ok_or (map_option of_nat (parse_dec (2 ^ 128) 0 int_part)) ()))"

definition parse_row :: "string \<Rightarrow> row_error + bytes \<times> balance" where
  "parse_row row =
     (case split_char CHR '','' row of
        [addr_str, bal_str] \<Rightarrow>
          and_then (ok_or (parse_address (str_trim addr_str)) (BadRowAddress addr_str)) (\<lambda>addr20.
          and_then (parse_wei (str_trim bal_str)) (\<lambda>balance. Inr (addr20, balance)))
      | _ \<Rightarrow> Inl NotTwoFields)"

section \<open>The files\<close>

definition is_csv_header :: "string \<Rightarrow> bool" where
  "is_csv_header row = (map ascii_lower row = ''address,eth_balance'')"

type_synonym 's on_row = "u64 \<Rightarrow> bytes \<Rightarrow> balance \<Rightarrow> 's \<Rightarrow> (snapshot_error + unit) \<times> 's"

fun each_line :: "snapshot_path \<Rightarrow> 's on_row \<Rightarrow> u64 \<Rightarrow> (string + string) list \<Rightarrow> 's \<Rightarrow> (snapshot_error + unit) \<times> 's" where
  "each_line path f line_no [] s = (Inr (), s)"
| "each_line path f line_no (line # ls) s =
     (let line_no = line_no + 1 in
      case line of
        Inl e \<Rightarrow> (Inl (SnapIo path (LineFailed line_no e)), s)
      | Inr line \<Rightarrow>
          let row = strip_cr line in
          if row = [] then each_line path f line_no ls s
          else if line_no = 1 \<and> is_csv_header row then each_line path f line_no ls s
          else case parse_row row of
            Inl reason \<Rightarrow> (Inl (MalformedRow path line_no reason), s)
          | Inr (addr20, balance) \<Rightarrow>
              (case f line_no addr20 balance s of
                 (Inl e, s) \<Rightarrow> (Inl e, s)
               | (Inr _, s) \<Rightarrow> each_line path f line_no ls s))"

definition file_lines :: "snapshot_ext \<Rightarrow> snapshot_path \<Rightarrow> string + (string + string) list" where
  "file_lines ext path =
     (case sx_open ext path of
        Inl e \<Rightarrow> Inl e
      | Inr src \<Rightarrow> Inr (read_lines (if sp_extension path = Some ''gz'' then sx_gunzip ext src else src)))"

definition for_each_row :: "snapshot_ext \<Rightarrow> snapshot_path \<Rightarrow> 's on_row \<Rightarrow> 's \<Rightarrow> (snapshot_error + unit) \<times> 's" where
  "for_each_row ext path f s =
     (case file_lines ext path of
        Inl e \<Rightarrow> (Inl (SnapIo path (OpenFailed e)), s)
      | Inr ls \<Rightarrow> each_line path f 0 ls s)"

type_synonym 's sink = "bytes \<Rightarrow> bytes \<Rightarrow> balance \<Rightarrow> 's \<Rightarrow> (string + unit) \<times> 's"

definition ingest_row :: "snapshot_ext \<Rightarrow> 's sink \<Rightarrow> snapshot_path \<Rightarrow> (snapshot_stats \<times> 's) on_row" where
  "ingest_row ext sink path line_no addr20 balance st =
     (case st of (stats, s) \<Rightarrow>
        let stats = stats\<lparr> sn_rows := sn_rows stats + 1 \<rparr> in
        if balance = 0 then (Inr (), (stats\<lparr> sn_zero_skipped := sn_zero_skipped stats + 1 \<rparr>, s))
        else
          let stats = stats\<lparr> sn_nonzero := sn_nonzero stats + 1, sn_max_balance := max (sn_max_balance stats) balance \<rparr> in
          (case sink addr20 (sx_keccak ext addr20) balance s of
             (r, s) \<Rightarrow> (map_err (SinkRejected path line_no) r, (stats, s))))"

fun over_files :: "(snapshot_path \<Rightarrow> 's \<Rightarrow> (snapshot_error + unit) \<times> 's) \<Rightarrow> snapshot_path list \<Rightarrow> 's
    \<Rightarrow> (snapshot_error + unit) \<times> 's" where
  "over_files f [] s = (Inr (), s)"
| "over_files f (path # paths) s =
     (case f path s of (Inl e, s) \<Rightarrow> (Inl e, s) | (Inr _, s) \<Rightarrow> over_files f paths s)"

definition ingest_snapshot :: "snapshot_ext \<Rightarrow> snapshot_path list \<Rightarrow> 's sink \<Rightarrow> 's \<Rightarrow> (snapshot_error + snapshot_stats) \<times> 's" where
  "ingest_snapshot ext paths sink s =
     (case over_files (\<lambda>path. for_each_row ext path (ingest_row ext sink path)) paths (no_stats, s) of
        (r, (stats, s)) \<Rightarrow> (and_then r (\<lambda>_. Inr stats), s))"

definition count_rows :: "snapshot_ext \<Rightarrow> snapshot_path list \<Rightarrow> snapshot_error + u64" where
  "count_rows ext paths =
     (case over_files (\<lambda>path. for_each_row ext path (\<lambda>_ _ _ rows. (Inr (), rows + 1))) paths 0 of
        (r, rows) \<Rightarrow> and_then r (\<lambda>_. Inr rows))"

section \<open>The rows of the files\<close>

text \<open>The specification: the rows before the first line that is not one, and that line's error.\<close>

fun file_rows :: "snapshot_path \<Rightarrow> u64 \<Rightarrow> (string + string) list \<Rightarrow> (u64 \<times> bytes \<times> balance) list \<times> snapshot_error option" where
  "file_rows path n [] = ([], None)"
| "file_rows path n (line # ls) =
     (case line of
        Inl e \<Rightarrow> ([], Some (SnapIo path (LineFailed (n + 1) e)))
      | Inr line \<Rightarrow>
          if strip_cr line = [] \<or> n + 1 = 1 \<and> is_csv_header (strip_cr line) then file_rows path (n + 1) ls
          else (case parse_row (strip_cr line) of
            Inl reason \<Rightarrow> ([], Some (MalformedRow path (n + 1) reason))
          | Inr row \<Rightarrow> (case file_rows path (n + 1) ls of (rs, e) \<Rightarrow> ((n + 1, row) # rs, e))))"

fun run_rows :: "'s on_row \<Rightarrow> (u64 \<times> bytes \<times> balance) list \<Rightarrow> snapshot_error option \<Rightarrow> 's
    \<Rightarrow> (snapshot_error + unit) \<times> 's" where
  "run_rows f [] err s = (case err of None \<Rightarrow> (Inr (), s) | Some e \<Rightarrow> (Inl e, s))"
| "run_rows f ((n, a, v) # rs) err s =
     (case f n a v s of (Inl e, s) \<Rightarrow> (Inl e, s) | (Inr _, s) \<Rightarrow> run_rows f rs err s)"

fun all_rows :: "snapshot_ext \<Rightarrow> snapshot_path list \<Rightarrow> (bytes \<times> balance) list option" where
  "all_rows ext [] = Some []"
| "all_rows ext (path # paths) =
     (case file_lines ext path of
        Inl _ \<Rightarrow> None
      | Inr ls \<Rightarrow>
          (case file_rows path 0 ls of
             (rs, None) \<Rightarrow> map_option (\<lambda>rest. map snd rs @ rest) (all_rows ext paths)
           | (_, Some _) \<Rightarrow> None))"

fun sink_rows :: "snapshot_ext \<Rightarrow> 's sink \<Rightarrow> (bytes \<times> balance) list \<Rightarrow> 's \<Rightarrow> (string + unit) \<times> 's" where
  "sink_rows ext sink [] s = (Inr (), s)"
| "sink_rows ext sink ((a, v) # rows) s =
     (case sink a (sx_keccak ext a) v s of (Inl e, s) \<Rightarrow> (Inl e, s) | (Inr _, s) \<Rightarrow> sink_rows ext sink rows s)"

definition nonzero :: "(bytes \<times> balance) list \<Rightarrow> (bytes \<times> balance) list" where
  "nonzero rows = filter (\<lambda>(_, v). v \<noteq> 0) rows"

definition count_in :: "(bytes \<times> balance) list \<Rightarrow> snapshot_stats \<Rightarrow> snapshot_stats" where
  "count_in rows st = \<lparr> sn_rows = sn_rows st + of_nat (length rows),
     sn_nonzero = sn_nonzero st + of_nat (length (nonzero rows)),
     sn_zero_skipped = sn_zero_skipped st + of_nat (length rows - length (nonzero rows)),
     sn_max_balance = fold (\<lambda>(_, v) m. max m v) rows (sn_max_balance st) \<rparr>"

lemma nonzero_simps [simp]:
  "nonzero [] = []" "nonzero ((a, v) # rows) = (if v = 0 then nonzero rows else (a, v) # nonzero rows)"
  "nonzero (xs @ ys) = nonzero xs @ nonzero ys"
  by (simp_all add: nonzero_def)

lemma length_nonzero: "length (nonzero rows) \<le> length rows"
  by (simp add: nonzero_def)

lemma count_in_Nil [simp]: "count_in [] st = st"
  by (simp add: count_in_def)

lemma count_in_Cons: "count_in ((a, v) # rows) st =
  count_in rows (if v = 0 then st\<lparr> sn_rows := sn_rows st + 1, sn_zero_skipped := sn_zero_skipped st + 1 \<rparr>
    else st\<lparr> sn_rows := sn_rows st + 1, sn_nonzero := sn_nonzero st + 1, sn_max_balance := max (sn_max_balance st) v \<rparr>)"
  using length_nonzero[of rows] by (auto simp: count_in_def Suc_diff_le max_def)

lemma count_in_append: "count_in (xs @ ys) st = count_in ys (count_in xs st)"
  by (induction xs arbitrary: st) (auto simp: count_in_Cons)

lemma sink_rows_append: "sink_rows ext sink (xs @ ys) s =
  (case sink_rows ext sink xs s of (Inl e, s) \<Rightarrow> (Inl e, s) | (Inr _, s) \<Rightarrow> sink_rows ext sink ys s)"
  by (induction xs arbitrary: s) (auto split: sum.splits prod.splits)

lemma each_line_rows:
  "each_line path f n ls s = (case file_rows path n ls of (rs, err) \<Rightarrow> run_rows f rs err s)"
  by (induction ls arbitrary: n s) (auto simp: Let_def split: sum.splits prod.splits)

lemma run_rows_ingest:
  "run_rows (ingest_row ext sink path) rs err (stats, s) = (Inr u, st) \<longleftrightarrow>
     err = None \<and> (\<exists>s'. sink_rows ext sink (nonzero (map snd rs)) s = (Inr (), s') \<and> st = (count_in (map snd rs) stats, s'))"
proof (induction rs arbitrary: stats s)
  case (Cons row rs)
  obtain n a v where row: "row = (n, a, v)" by (cases row)
  obtain r s1 where k: "sink a (sx_keccak ext a) v s = (r, s1)" by (metis prod.exhaust)
  show ?case
    using Cons[of _ s] Cons[of _ s1] k by (cases r) (auto simp: row ingest_row_def count_in_Cons Let_def)
qed (auto split: option.splits)

lemma run_rows_count:
  "run_rows (\<lambda>_ _ _ rows. (Inr (), rows + 1)) rs err k = (Inr u, k') \<longleftrightarrow> err = None \<and> k' = k + of_nat (length rs)"
  by (induction rs arbitrary: k) (auto simp: add.assoc split: option.splits)

lemma over_files_ingest:
  "over_files (\<lambda>path. for_each_row ext path (ingest_row ext sink path)) paths (stats, s) = (Inr u, st) \<longleftrightarrow>
     (\<exists>rows s'. all_rows ext paths = Some rows \<and> sink_rows ext sink (nonzero rows) s = (Inr (), s') \<and> st = (count_in rows stats, s'))"
proof (induction paths arbitrary: stats s)
  case (Cons path paths)
  show ?case
  proof (cases "file_lines ext path")
    case (Inl e)
    then show ?thesis by (simp add: for_each_row_def)
  next
    case (Inr ls)
    obtain rs err where fr: "file_rows path 0 ls = (rs, err)" by fastforce
    obtain r stats1 s1 where run: "run_rows (ingest_row ext sink path) rs err (stats, s) = (r, stats1, s1)"
      by (metis prod.exhaust)
    have f: "for_each_row ext path (ingest_row ext sink path) (stats, s) = (r, stats1, s1)"
      using run by (simp add: for_each_row_def Inr each_line_rows fr)
    show ?thesis
    proof (cases r)
      case (Inl e)
      with run run_rows_ingest[of ext sink path rs err stats s]
      have "err \<noteq> None \<or> (\<forall>s'. sink_rows ext sink (nonzero (map snd rs)) s \<noteq> (Inr (), s'))" by auto
      then show ?thesis
        using f Inl Inr fr by (cases err) (auto simp: sink_rows_append split: sum.splits prod.splits)
    next
      case (Inr u')
      with run run_rows_ingest[of ext sink path rs err stats s]
      have "err = None" "sink_rows ext sink (nonzero (map snd rs)) s = (Inr (), s1)" "stats1 = count_in (map snd rs) stats" by auto
      note one = this
      have all: "all_rows ext (path # paths) = map_option (\<lambda>rest. map snd rs @ rest) (all_rows ext paths)"
        using \<open>file_lines ext path = Inr ls\<close> fr one(1) by simp
      have over: "over_files (\<lambda>path. for_each_row ext path (ingest_row ext sink path)) (path # paths) (stats, s) =
          over_files (\<lambda>path. for_each_row ext path (ingest_row ext sink path)) paths (stats1, s1)"
        using f Inr by simp
      show ?thesis
      proof (cases "all_rows ext paths")
        case None
        then show ?thesis unfolding over Cons.IH all by simp
      next
        case (Some rest)
        then show ?thesis unfolding over Cons.IH all using one by (simp add: sink_rows_append count_in_append)
      qed
    qed
  qed
qed auto

lemma over_files_count:
  "over_files (\<lambda>path. for_each_row ext path (\<lambda>_ _ _ rows. (Inr (), rows + 1))) paths k = (Inr u, k') \<longleftrightarrow>
     (\<exists>rows. all_rows ext paths = Some rows \<and> k' = k + of_nat (length rows))"
proof (induction paths arbitrary: k)
  case (Cons path paths)
  show ?case
  proof (cases "file_lines ext path")
    case (Inl e)
    then show ?thesis by (simp add: for_each_row_def)
  next
    case (Inr ls)
    obtain rs err where fr: "file_rows path 0 ls = (rs, err)" by fastforce
    show ?thesis
    proof (cases err)
      case None
      have "run_rows (\<lambda>_ _ _ rows. (Inr (), rows + 1)) rs None k = (Inr (), k + of_nat (length rs))"
        unfolding run_rows_count by simp
      then have over: "over_files (\<lambda>path. for_each_row ext path (\<lambda>_ _ _ rows. (Inr (), rows + 1))) (path # paths) k =
          over_files (\<lambda>path. for_each_row ext path (\<lambda>_ _ _ rows. (Inr (), rows + 1))) paths (k + of_nat (length rs))"
        using Inr fr None by (simp add: for_each_row_def each_line_rows)
      show ?thesis unfolding over Cons.IH using Inr fr None by (cases "all_rows ext paths") (simp_all add: add.assoc)
    next
      case (Some e)
      obtain r k1 where run: "run_rows (\<lambda>_ _ _ rows. (Inr (), rows + 1)) rs err k = (r, k1)" by (metis prod.exhaust)
      with run_rows_count[of rs err k _ k1] Some have "\<exists>e. r = Inl e" by (cases r) auto
      then show ?thesis using run Inr fr Some by (auto simp: for_each_row_def each_line_rows)
    qed
  qed
qed auto

section \<open>What an export writes\<close>

text \<open>A row as \<open>bq extract\<close> prints it, with \<open>k\<close> zeros of a \<open>NUMERIC\<close> fraction.\<close>

definition csv_row :: "nat \<Rightarrow> bytes \<times> balance \<Rightarrow> string" where
  "csv_row k row = ''0x'' @ hex_bytes (fst row) @ [CHR '',''] @ show_nat (unat (snd row)) @
     (if k = 0 then [] else CHR ''.'' # replicate k CHR ''0'')"

definition csv_file :: "nat \<Rightarrow> bool \<Rightarrow> bool \<Rightarrow> (bytes \<times> balance) list \<Rightarrow> string" where
  "csv_file k crlf header rows =
     concat (map (\<lambda>l. (if crlf then l @ [carriage_return] else l) @ [newline])
       ((if header then [''address,eth_balance''] else []) @ map (csv_row k) rows))"

definition dec_digit :: "char \<Rightarrow> bool" where "dec_digit c \<longleftrightarrow> byte_in 48 57 c"

lemma dec_digit_show: "c \<in> set (show_nat n) \<Longrightarrow> dec_digit c"
  using show_nat_digits by (auto simp: dec_digit_def byte_in_def)

lemma dec_digit_value: "dec_digit c \<Longrightarrow> digit_value c \<noteq> None"
  by (auto simp: dec_digit_def byte_in_def digit_value_def)

lemma dec_digit_visible: "dec_digit c \<Longrightarrow> visible c"
  by (auto simp: dec_digit_def byte_in_def visible_def)

lemma hex_value_visible: "hex_value c \<noteq> None \<Longrightarrow> visible c \<and> c \<noteq> CHR '','' \<and> c \<noteq> CHR ''.'' \<and> c \<noteq> newline \<and> c \<noteq> carriage_return"
  by (auto simp: hex_value_def visible_def byte_in_def Let_def split: if_splits)

lemma dec_digit_other: "dec_digit c \<Longrightarrow> c \<noteq> CHR '','' \<and> c \<noteq> CHR ''.'' \<and> c \<noteq> newline \<and> c \<noteq> carriage_return"
  by (auto simp: dec_digit_def byte_in_def)

lemma split_once_None: "c \<notin> set s \<Longrightarrow> split_once c s = None"
  by (induction s) auto

lemma parse_wei_printed:
  "parse_wei (show_nat (unat v) @ (if k = 0 then [] else CHR ''.'' # replicate k CHR ''0'')) = Inr v"
proof -
  have lt: "unat v < 2 ^ 128" using unsigned_less[of v, where 'a = nat] by simp
  have dig: "all_digits (show_nat (unat v))"
    unfolding all_digits_def list_all_iff using dec_digit_show dec_digit_value by blast
  have nodot: "CHR ''.'' \<notin> set (show_nat (unat v))" using dec_digit_show dec_digit_other by blast
  show ?thesis
    using dig nodot parse_dec_show[OF lt]
    by (cases "k = 0") (auto simp: parse_wei_def split_once_None split_once_append list_all_iff)
qed

lemma hex_bytes_chars: "c \<in> set (hex_bytes bs) \<Longrightarrow> hex_value c \<noteq> None"
  using hex_bytes_digits[of bs] unfolding list_all_iff by blast

definition csv_tail :: "nat \<Rightarrow> balance \<Rightarrow> string" where
  "csv_tail k v = show_nat (unat v) @ (if k = 0 then [] else CHR ''.'' # replicate k CHR ''0'')"

lemma csv_row_split: "csv_row k (a, v) = (''0x'' @ hex_bytes a) @ CHR '','' # csv_tail k v"
  by (simp add: csv_row_def csv_tail_def)

lemma csv_tail_chars: "c \<in> set (csv_tail k v) \<Longrightarrow> visible c \<and> c \<noteq> CHR '','' \<and> c \<noteq> newline \<and> c \<noteq> carriage_return"
  using dec_digit_show dec_digit_visible dec_digit_other
  by (fastforce simp: csv_tail_def visible_def byte_in_def split: if_splits)

lemma csv_head_chars: "c \<in> set (''0x'' @ hex_bytes a) \<Longrightarrow> visible c \<and> c \<noteq> CHR '','' \<and> c \<noteq> newline \<and> c \<noteq> carriage_return"
  using hex_bytes_chars[of c a] hex_value_visible[of c] by (auto simp: visible_def byte_in_def)

lemma all_visible_trim: "s \<noteq> [] \<Longrightarrow> \<forall>c \<in> set s. visible c \<Longrightarrow> str_trim s = s"
  by (intro str_trim_visible) auto

lemma parse_csv_row:
  assumes "length a = 20"
  shows "parse_row (csv_row k (a, v)) = Inr (a, v)"
proof -
  have "split_char CHR '','' (csv_row k (a, v)) = [''0x'' @ hex_bytes a, csv_tail k v]"
  proof -
    have "CHR '','' \<notin> set (''0x'' @ hex_bytes a)" "CHR '','' \<notin> set (csv_tail k v)"
      using csv_head_chars csv_tail_chars by blast+
    then show ?thesis unfolding csv_row_split using split_char_append split_char_none by metis
  qed
  moreover have "str_trim (''0x'' @ hex_bytes a) = ''0x'' @ hex_bytes a"
    using csv_head_chars by (intro all_visible_trim) auto
  moreover have "str_trim (csv_tail k v) = csv_tail k v"
    using csv_tail_chars by (intro all_visible_trim) (auto simp: csv_tail_def)
  moreover have "parse_wei (csv_tail k v) = Inr v" using parse_wei_printed by (simp add: csv_tail_def)
  ultimately show ?thesis unfolding parse_row_def using parse_address_hex[OF assms] by simp
qed

lemma visible_ascii: "visible c \<Longrightarrow> byte_in 0 0x7f c"
  by (auto simp: visible_def byte_in_def)

lemma csv_row_chars: "c \<in> set (csv_row k row) \<Longrightarrow> visible c \<and> c \<noteq> newline \<and> c \<noteq> carriage_return"
proof -
  assume "c \<in> set (csv_row k row)"
  then consider "c \<in> set (''0x'' @ hex_bytes (fst row))" | "c = CHR '',''" | "c \<in> set (csv_tail k (snd row))"
    using csv_row_split[of k "fst row" "snd row"] by auto
  then show ?thesis
  proof cases
    case 2
    then show ?thesis by (simp add: visible_def byte_in_def)
  qed (use csv_head_chars csv_tail_chars in blast)+
qed

text \<open>The lines of a written file, whichever line ending it has.\<close>

definition csv_line :: "string \<Rightarrow> bool" where
  "csv_line l \<longleftrightarrow> (\<forall>c \<in> set l. byte_in 0 0x7f c \<and> c \<noteq> newline \<and> c \<noteq> carriage_return)"

lemma csv_line_row: "csv_line (csv_row k row)"
  unfolding csv_line_def using csv_row_chars visible_ascii by blast

lemma csv_line_header: "csv_line ''address,eth_balance''"
  by (simp add: csv_line_def byte_in_def)

lemma read_written_lines:
  assumes "\<forall>l \<in> set ls. csv_line l"
  shows "read_lines \<lparr> ts_bytes = concat (map (\<lambda>l. (if crlf then l @ [carriage_return] else l) @ [newline]) ls), ts_fault = None \<rparr> =
    map Inr ls"
proof -
  let ?eol = "\<lambda>l. if crlf then l @ [carriage_return] else l"
  have nl: "\<forall>l \<in> set (map ?eol ls). newline \<notin> set l"
    using assms unfolding csv_line_def by auto
  have cr: "\<forall>l \<in> set ls. strip_cr (?eol l) = l"
  proof
    fix l assume "l \<in> set ls"
    then have "carriage_return \<notin> set l" using assms unfolding csv_line_def by blast
    then show "strip_cr (?eol l) = l" using strip_cr_id[of l] by simp
  qed
  have ok: "\<forall>l \<in> set ls. checked_line l = Inr l"
    using assms utf8_ascii unfolding csv_line_def checked_line_def by metis
  have "concat (map (\<lambda>l. ?eol l @ [newline]) ls) = concat (map (\<lambda>l. l @ [newline]) (map ?eol ls))"
    by (simp add: comp_def)
  then have "line_pieces (split_char newline (concat (map (\<lambda>l. ?eol l @ [newline]) ls))) = map strip_cr (map ?eol ls)"
    using str_lines_written[OF nl] by (simp only: str_lines_def)
  also have "\<dots> = ls" using cr by (simp add: map_idI)
  finally show ?thesis using ok by (simp add: read_lines_def)
qed

lemma csv_row_nonempty: "csv_row k row \<noteq> []"
  by (simp add: csv_row_def)

lemma csv_row_not_header: "\<not> is_csv_header (csv_row k row)"
  by (simp add: csv_row_def is_csv_header_def ascii_lower_def)

lemma file_rows_csv:
  assumes "\<forall>row \<in> set rows. length (fst row) = 20"
  shows "\<exists>rs. file_rows path n (map (\<lambda>row. Inr (csv_row k row)) rows) = (rs, None) \<and> map snd rs = rows"
  using assms
proof (induction rows arbitrary: n)
  case (Cons row rows)
  from Cons.IH[of "n + 1"] Cons.prems obtain rs
    where rs: "file_rows path (n + 1) (map (\<lambda>row. Inr (csv_row k row)) rows) = (rs, None)" "map snd rs = rows" by auto
  have "strip_cr (csv_row k row) = csv_row k row" using csv_row_chars by (intro strip_cr_id) blast
  moreover have "parse_row (csv_row k row) = Inr row" using parse_csv_row[of "fst row" k "snd row"] Cons.prems by simp
  ultimately show ?case using rs by (simp add: csv_row_nonempty csv_row_not_header)
qed simp

lemma file_rows_written:
  assumes "\<forall>row \<in> set rows. length (fst row) = 20"
  shows "\<exists>rs. file_rows path 0 (read_lines \<lparr> ts_bytes = csv_file k crlf header rows, ts_fault = None \<rparr>) = (rs, None) \<and> map snd rs = rows"
proof -
  let ?ls = "(if header then [''address,eth_balance''] else []) @ map (csv_row k) rows"
  have "\<forall>l \<in> set ?ls. csv_line l" using csv_line_row csv_line_header by auto
  then have lines: "read_lines \<lparr> ts_bytes = csv_file k crlf header rows, ts_fault = None \<rparr> = map Inr ?ls"
    unfolding csv_file_def by (rule read_written_lines)
  have skip: "strip_cr ''address,eth_balance'' = ''address,eth_balance''" "is_csv_header ''address,eth_balance''"
    by (simp_all add: strip_cr_def is_csv_header_def ascii_lower_def)
  show ?thesis
    using lines file_rows_csv[OF assms, of path 0 k] file_rows_csv[OF assms, of path 1 k] skip
    by (cases header) (simp_all add: comp_def)
qed

section \<open>Properties\<close>

text \<open>A file of an export: the zeros of its fractions, its line ending, its header, its rows.\<close>

type_synonym export = "nat \<times> bool \<times> bool \<times> (bytes \<times> balance) list"

definition holds_export :: "snapshot_ext \<Rightarrow> snapshot_path \<Rightarrow> export \<Rightarrow> bool" where
  "holds_export ext path f = (case f of (k, crlf, header, rows) \<Rightarrow>
     list_all (\<lambda>row. length (fst row) = 20) rows \<and>
     file_lines ext path = Inr (read_lines \<lparr> ts_bytes = csv_file k crlf header rows, ts_fault = None \<rparr>))"

definition export_rows :: "export list \<Rightarrow> (bytes \<times> balance) list" where
  "export_rows fs = concat (map (\<lambda>(_, _, _, rows). rows) fs)"

lemma all_rows_export:
  "list_all2 (holds_export ext) paths fs \<Longrightarrow> all_rows ext paths = Some (export_rows fs)"
proof (induction rule: list_all2_induct)
  case (Cons path paths f fs)
  obtain k crlf header rows where f: "f = (k, crlf, header, rows)" by (cases f)
  from Cons.hyps(1) file_rows_written[of rows path k crlf header] Cons.IH show ?case
    by (auto simp: f holds_export_def list_all_iff export_rows_def)
qed (simp add: export_rows_def)

text \<open>C37. The loader never guesses and never drops a balance.  \<open>ingest\<close> succeeds exactly when
  every line of every file is a row, the header or empty and the sink takes every nonzero row;
  the sink has then received the nonzero rows, all of them, in file order, each with the hash of
  its address, and the statistics count them.  \<open>count_rows\<close> returns a number exactly when the
  files are all rows, and then the number of rows, so the geometry it sizes is never too small.\<close>

theorem ingest_feeds_the_rows:
  "(ingest_snapshot ext paths sink s = (Inr stats, s') \<longleftrightarrow>
      (\<exists>rows. all_rows ext paths = Some rows \<and> sink_rows ext sink (nonzero rows) s = (Inr (), s') \<and> stats = count_in rows no_stats)) \<and>
   (count_rows ext paths = Inr n \<longleftrightarrow> (\<exists>rows. all_rows ext paths = Some rows \<and> n = of_nat (length rows)))"
proof
  have "ingest_snapshot ext paths sink s = (Inr stats, s') \<longleftrightarrow>
      over_files (\<lambda>path. for_each_row ext path (ingest_row ext sink path)) paths (no_stats, s) = (Inr (), (stats, s'))"
    unfolding ingest_snapshot_def by (simp split: prod.split)
  then show "ingest_snapshot ext paths sink s = (Inr stats, s') \<longleftrightarrow>
      (\<exists>rows. all_rows ext paths = Some rows \<and> sink_rows ext sink (nonzero rows) s = (Inr (), s') \<and> stats = count_in rows no_stats)"
    unfolding over_files_ingest by blast
  have "count_rows ext paths = Inr n \<longleftrightarrow>
      over_files (\<lambda>path. for_each_row ext path (\<lambda>_ _ _ rows. (Inr (), rows + 1))) paths (0 :: u64) = (Inr (), n)"
    unfolding count_rows_def by (simp split: prod.split)
  then show "count_rows ext paths = Inr n \<longleftrightarrow> (\<exists>rows. all_rows ext paths = Some rows \<and> n = of_nat (length rows))"
    unfolding over_files_count by simp
qed

text \<open>Round trip of an export.  Files written row by row, with or without a header, with either
  line ending, with or without an all-zero fraction, gzipped or not, load back to exactly the rows
  that were written.\<close>

theorem exported_snapshot_loads_back:
  assumes "list_all2 (holds_export ext) paths fs"
    and "sink_rows ext sink (nonzero (export_rows fs)) s = (Inr (), s')"
  shows "ingest_snapshot ext paths sink s = (Inr (count_in (export_rows fs) no_stats), s') \<and>
    count_rows ext paths = Inr (of_nat (length (export_rows fs)))"
  using all_rows_export[OF assms(1)] assms(2)
    over_files_ingest[of ext sink paths no_stats s "()" "(count_in (export_rows fs) no_stats, s')"]
    over_files_count[of ext paths "0 :: u64" "()" "of_nat (length (export_rows fs))"]
  by (simp add: ingest_snapshot_def count_rows_def)

definition sample_export :: "export list" where
  "sample_export = [(9, False, True, [(replicate 20 1, 7), (replicate 20 2, 0)]), (0, True, False, [(replicate 20 3, 5)])]"

definition sample_source :: snapshot_ext where
  "sample_source = \<lparr>
     sx_open = (\<lambda>path. Inr \<lparr> ts_bytes =
        (if sp_extension path = Some ''gz'' then rev (csv_file 9 False True [(replicate 20 1, 7), (replicate 20 2, 0)])
         else csv_file 0 True False [(replicate 20 3, 5)]), ts_fault = None \<rparr>),
     sx_gunzip = (\<lambda>src. src\<lparr> ts_bytes := rev (ts_bytes src) \<rparr>), sx_keccak = rev \<rparr>"

theorem exported_snapshot_loads_back_witness:
  "ingest_snapshot sample_source [\<lparr> sp_name = ''a'', sp_extension = Some ''gz'' \<rparr>, \<lparr> sp_name = ''b'', sp_extension = None \<rparr>]
     (\<lambda>a key v s. (Inr (), s @ [(key, v)])) [] =
   (Inr \<lparr> sn_rows = 3, sn_nonzero = 2, sn_zero_skipped = 1, sn_max_balance = 7 \<rparr>, [(replicate 20 1, 7), (replicate 20 3, 5)])"
proof -
  let ?paths = "[\<lparr> sp_name = ''a'', sp_extension = Some ''gz'' \<rparr>, \<lparr> sp_name = ''b'', sp_extension = None \<rparr>]"
  let ?sink = "\<lambda>a key v s. (Inr (), s @ [(key, v)])"
  have h: "list_all2 (holds_export sample_source) ?paths sample_export"
    by (simp add: holds_export_def sample_export_def file_lines_def sample_source_def)
  have s: "sink_rows sample_source ?sink (nonzero (export_rows sample_export)) [] =
      (Inr (), [(replicate 20 1, 7), (replicate 20 3, 5)])"
    by (simp add: sample_export_def export_rows_def sample_source_def)
  have "count_in (export_rows sample_export) no_stats = \<lparr> sn_rows = 3, sn_nonzero = 2, sn_zero_skipped = 1, sn_max_balance = 7 \<rparr>"
    by (simp add: sample_export_def export_rows_def count_in_def no_stats_def max_def)
  with exported_snapshot_loads_back[OF h s] show ?thesis by simp
qed

end
