(* ===== verification/Mock_Feed.thy ===== *)
theory Mock_Feed
  imports Block_Delta "HOL-Library.Multiset"
begin

text \<open>
  Model of the deterministic mock of \<open>crates/risepir-feed/src/lib.rs\<close>: \<open>SplitMix64\<close>, the
  balances it draws, \<open>MockFeed\<close> with its live keys and its ground truth.  A lookup of a live key
  that has no balance, and an inconsistent configuration, panic (\<open>None\<close>).

  The lemmas: \<open>SplitMix64\<close>'s output is a bijection of its state, so distinct ids have distinct
  addresses; the live keys are exactly the keys with a balance; every balance is positive and
  fits 96 bits; and the ground truth is the replay of the emitted changes.
\<close>

section \<open>The generator\<close>

definition mix64 :: "u64 \<Rightarrow> u64" where
  "mix64 z =
     (let z = (z XOR drop_bit 30 z) * 0xBF58476D1CE4E5B9;
          z = (z XOR drop_bit 27 z) * 0x94D049BB133111EB
      in z XOR drop_bit 31 z)"

definition next_u64 :: "u64 \<Rightarrow> u64 \<times> u64" where
  "next_u64 rng = (let rng = rng + 0x9E3779B97F4A7C15 in (mix64 rng, rng))"

definition addr_domain :: u64 where "addr_domain = 0x6D6F636B5F616464"

definition random_balance :: "u64 \<Rightarrow> balance \<times> u64" where
  "random_balance rng =
     (case next_u64 rng of (b, rng) \<Rightarrow>
      case next_u64 rng of (lo, rng) \<Rightarrow>
      case next_u64 rng of (hi, rng) \<Rightarrow>
        let bits = unat (40 + b mod 50);
            raw = push_bit 64 (ucast hi) OR ucast lo;
            m = push_bit bits 1 - 1
        in (max ((raw AND m) OR push_bit (bits - 1) 1) 1, rng))"

definition perturb :: "u64 \<Rightarrow> balance \<Rightarrow> balance \<times> u64" where
  "perturb rng old =
     (case next_u64 rng of (d, rng) \<Rightarrow>
      case next_u64 rng of (lo, rng) \<Rightarrow>
        let dbits = unat (43 + d mod 21);
            dmask = push_bit dbits 1 - 1;
            amount = max ((ucast lo AND dmask) OR push_bit (dbits - 1) 1) 1;
            cap = push_bit 96 1 - 1
        in case next_u64 rng of (u, rng) \<Rightarrow>
          let up = u AND 1 = 0;
              new = (if up then min (saturating_add_u old amount) cap else saturating_sub_u old amount)
          in (max new 1, rng))"

section \<open>The feed\<close>

record mock_config =
  mc_seed :: u64
  mc_num_genesis_keys :: u64
  mc_changes_per_block :: nat
  mc_inserts_per_block :: nat
  mc_deletes_per_block :: nat

record mock_feed =
  mf_cfg :: mock_config
  mf_rng :: u64
  mf_live :: "address_hash list"
  mf_balances :: "address_hash \<rightharpoonup> balance"
  mf_block :: u64
  mf_next_id :: u64

definition default_config :: mock_config where
  "default_config = \<lparr> mc_seed = 0xB16B00B55EED1234, mc_num_genesis_keys = 1000000, mc_changes_per_block = 300,
     mc_inserts_per_block = 30, mc_deletes_per_block = 30 \<rparr>"

fun draws :: "nat \<Rightarrow> u64 \<Rightarrow> u64 list" where
  "draws 0 rng = []"
| "draws (Suc n) rng = (case next_u64 rng of (x, rng) \<Rightarrow> x # draws n rng)"

definition address_for :: "u64 \<Rightarrow> address_hash" where
  "address_for ident = concat (map u64_le (draws 4 (ident XOR addr_domain)))"

text \<open>One account: the next id's address with a random balance.  Genesis and inserts share it.\<close>

fun add_accounts :: "nat \<Rightarrow> u64 \<Rightarrow> u64 \<times> address_hash list \<times> (address_hash \<rightharpoonup> balance) \<times> (address_hash \<times> balance) list
    \<Rightarrow> u64 \<times> address_hash list \<times> (address_hash \<rightharpoonup> balance) \<times> (address_hash \<times> balance) list" where
  "add_accounts 0 ident st = st"
| "add_accounts (Suc n) ident (rng, live, balances, chs) =
     (let a = address_for ident in
      case random_balance rng of (bal, rng) \<Rightarrow>
        add_accounts n (ident + 1) (rng, live @ [a], balances(a \<mapsto> bal), chs @ [(a, bal)]))"

definition config_ok :: "mock_config \<Rightarrow> bool" where
  "config_ok cfg \<longleftrightarrow> mc_inserts_per_block cfg + mc_deletes_per_block cfg \<le> mc_changes_per_block cfg"

definition mock_new :: "mock_config \<Rightarrow> mock_feed option" where
  "mock_new cfg =
     (if \<not> config_ok cfg then None
      else case add_accounts (unat (mc_num_genesis_keys cfg)) 0 (mc_seed cfg, [], Map.empty, []) of
        (rng, live, balances, _) \<Rightarrow>
          Some \<lparr> mf_cfg = cfg, mf_rng = rng, mf_live = live, mf_balances = balances, mf_block = 0,
            mf_next_id = mc_num_genesis_keys cfg \<rparr>)"

definition mock_snapshot :: "mock_feed \<Rightarrow> (address_hash \<times> balance) list option" where
  "mock_snapshot f = those (map (\<lambda>a. map_option (Pair a) (mf_balances f a)) (mf_live f))"

definition mock_balance_of :: "mock_feed \<Rightarrow> address_hash \<Rightarrow> balance" where
  "mock_balance_of f a = (case mf_balances f a of Some b \<Rightarrow> b | None \<Rightarrow> 0)"

definition swap_remove :: "nat \<Rightarrow> 'a list \<Rightarrow> 'a list" where
  "swap_remove i xs = butlast (xs[i := last xs])"

fun delete_accounts :: "nat \<Rightarrow> u64 \<times> address_hash list \<times> (address_hash \<rightharpoonup> balance) \<times> (address_hash \<times> balance) list
    \<Rightarrow> u64 \<times> address_hash list \<times> (address_hash \<rightharpoonup> balance) \<times> (address_hash \<times> balance) list" where
  "delete_accounts 0 st = st"
| "delete_accounts (Suc n) (rng, live, balances, chs) =
     (if live = [] then (rng, live, balances, chs)
      else case next_u64 rng of (x, rng) \<Rightarrow>
        let i = unat (x mod of_nat (length live));
            a = live ! i
        in delete_accounts n (rng, swap_remove i live, balances(a := None), chs @ [(a, 0)]))"

fun update_accounts :: "nat \<Rightarrow> address_hash list \<Rightarrow> u64 \<times> (address_hash \<rightharpoonup> balance) \<times> (address_hash \<times> balance) list
    \<Rightarrow> (u64 \<times> (address_hash \<rightharpoonup> balance) \<times> (address_hash \<times> balance) list) option" where
  "update_accounts 0 live st = Some st"
| "update_accounts (Suc n) live (rng, balances, chs) =
     (if live = [] then Some (rng, balances, chs)
      else case next_u64 rng of (x, rng) \<Rightarrow>
        let a = live ! unat (x mod of_nat (length live)) in
        case balances a of
          None \<Rightarrow> None
        | Some old \<Rightarrow>
            (case perturb rng old of (new, rng) \<Rightarrow>
               update_accounts n live (rng, balances(a \<mapsto> new), chs @ [(a, new)])))"

definition mock_next_block :: "mock_feed \<Rightarrow> (block_update \<times> mock_feed) option" where
  "mock_next_block f =
     (let cfg = mf_cfg f in
      case delete_accounts (mc_deletes_per_block cfg) (mf_rng f, mf_live f, mf_balances f, []) of
        (rng, live, balances, chs) \<Rightarrow>
          let deletes = length chs in
          case add_accounts (mc_inserts_per_block cfg) (mf_next_id f) (rng, live, balances, chs) of
            (rng, live, balances, chs) \<Rightarrow>
              let updates = mc_changes_per_block cfg - deletes - mc_inserts_per_block cfg in
              map_option (\<lambda>(rng, balances, chs).
                (\<lparr> update_block = mf_block f + 1, changes = chs, credits = [] \<rparr>,
                 f\<lparr> mf_rng := rng, mf_live := live, mf_balances := balances, mf_block := mf_block f + 1,
                    mf_next_id := mf_next_id f + of_nat (mc_inserts_per_block cfg) \<rparr>))
                (update_accounts updates live (rng, balances, chs)))"

definition mock_head :: "mock_feed \<Rightarrow> u64" where
  "mock_head f = mf_block f"


section \<open>The generator is a bijection\<close>

lemma xorshift_inject:
  fixes a b :: "'a::len word"
  assumes "a XOR drop_bit k a = b XOR drop_bit k b" and "0 < k"
  shows "a = b"
proof -
  define d where "d = a XOR b"
  have d: "d = drop_bit k d"
  proof (rule bit_eqI)
    fix n
    have "bit (a XOR drop_bit k a) n = bit (b XOR drop_bit k b) n" using assms(1) by simp
    then show "bit d n = bit (drop_bit k d) n" by (auto simp: d_def bit_simps)
  qed
  have "d = drop_bit (m * k) d" for m
    by (induction m) (use d in \<open>auto simp: add.commute simp flip: drop_bit_drop_bit\<close>)
  from this[of "LENGTH('a)"] have "d = 0"
    using assms(2) by (metis drop_bit_word_beyond le_add1 mult.commute mult_Suc not0_implies_Suc not_gr0)
  moreover have "a = d XOR b" by (simp add: d_def xor.assoc)
  ultimately show ?thesis by simp
qed

lemma odd_mult_inject:
  fixes a b c d :: "'a::len word"
  assumes "a * c = b * c" and "c * d = 1"
  shows "a = b"
  by (metis assms mult.assoc mult_1_right)

lemma mix64_inject: "mix64 a = mix64 b \<longleftrightarrow> a = b"
proof
  assume eq: "mix64 a = mix64 b"
  have i1: "(0xBF58476D1CE4E5B9 :: u64) * 0x96de1b173f119089 = 1" by simp
  have i2: "(0x94D049BB133111EB :: u64) * 0x319642b2d24d8ec3 = 1" by simp
  show "a = b"
    using eq unfolding mix64_def Let_def
    by (metis i1 i2 odd_mult_inject xorshift_inject zero_less_numeral)
qed simp


lemma draws_4: "draws 4 rng = fst (next_u64 rng) # draws 3 (snd (next_u64 rng))"
proof -
  have "draws (Suc 3) rng = fst (next_u64 rng) # draws 3 (snd (next_u64 rng))" by (simp only: draws.simps case_prod_beta)
  then show ?thesis by simp
qed

lemma address_for_head: "take 8 (address_for ident) = u64_le (mix64 ((ident XOR addr_domain) + 0x9E3779B97F4A7C15))"
proof -
  have "address_for ident = u64_le (fst (next_u64 (ident XOR addr_domain))) @
      concat (map u64_le (draws 3 (snd (next_u64 (ident XOR addr_domain)))))"
    by (simp only: address_for_def draws_4 list.map concat.simps)
  then show ?thesis by (simp add: next_u64_def Let_def)
qed

lemma address_for_inject: "address_for x = address_for y \<longleftrightarrow> x = y"
proof
  assume "address_for x = address_for y"
  then have "u64_le (mix64 ((x XOR addr_domain) + 0x9E3779B97F4A7C15)) = u64_le (mix64 ((y XOR addr_domain) + 0x9E3779B97F4A7C15))"
    using address_for_head by metis
  then have "of_le (u64_le (mix64 ((x XOR addr_domain) + 0x9E3779B97F4A7C15))) =
      (of_le (u64_le (mix64 ((y XOR addr_domain) + 0x9E3779B97F4A7C15))) :: u64)" by (rule arg_cong)
  then have "x XOR addr_domain = y XOR addr_domain" by (simp add: mix64_inject)
  then have "(x XOR addr_domain) XOR addr_domain = (y XOR addr_domain) XOR addr_domain" by simp
  then show "x = y" by (simp only: xor.assoc xor_self_eq xor.right_neutral)
qed simp

section \<open>Bounds of the balances\<close>

definition wei_scale :: "balance \<Rightarrow> bool" where
  "wei_scale b \<longleftrightarrow> 0 < uint b \<and> uint b < 2 ^ 96"

lemma wei_scale_max: "uint b < 2 ^ 96 \<Longrightarrow> wei_scale (max b 1)"
  unfolding wei_scale_def by (auto simp: max_def word_le_def)

lemma uint_draw:
  fixes raw :: balance
  assumes "b \<le> 96" "1 \<le> b"
  shows "uint ((raw AND (push_bit b 1 - 1)) OR push_bit (b - 1) 1) < 2 ^ 96"
proof -
  have p: "uint (push_bit n (1 :: balance)) = 2 ^ n" if "n \<le> 96" for n
  proof -
    have "(2 :: int) ^ n < 2 ^ 128" using that by (intro power_strict_increasing) simp_all
    then have "uint (word_of_int (2 ^ n) :: balance) = 2 ^ n"
      using that by (subst uint_word_of_int_eq) (simp add: take_bit_int_eq_self)
    then show ?thesis by (simp add: push_bit_of_1)
  qed
  have "uint (push_bit b (1 :: balance) - 1) = 2 ^ b - 1"
    using p[OF assms(1)] by (simp add: uint_sub_if' uint_minus_simple_alt)
  moreover have "uint (raw AND (push_bit b 1 - 1)) \<le> uint (push_bit b (1 :: balance) - 1)"
    using word_and_le1 unfolding word_le_def .
  ultimately have "uint (raw AND (push_bit b 1 - 1)) < 2 ^ b" by linarith
  moreover have "uint (push_bit (b - 1) (1 :: balance)) < 2 ^ b"
    using p[of "b - 1"] assms by simp
  ultimately have "uint ((raw AND (push_bit b 1 - 1)) OR push_bit (b - 1) 1) < 2 ^ b"
    unfolding uint_or by (intro OR_upper) simp_all
  also have "(2 :: int) ^ b \<le> 2 ^ 96" using assms(1) by (rule power_increasing) simp
  finally show ?thesis .
qed

lemma wei_scale_random: "wei_scale (fst (random_balance rng))"
proof -
  have "unat (40 + b mod 50) \<le> 96 \<and> 1 \<le> unat (40 + b mod 50)" for b :: u64
  proof -
    have "unat (b mod 50) < 50" by (simp add: unat_mod)
    then show ?thesis by (simp add: unat_word_ariths)
  qed
  then show ?thesis
    unfolding random_balance_def Let_def case_prod_beta fst_conv by (intro wei_scale_max uint_draw) blast+
qed

lemma wei_scale_perturb:
  assumes "wei_scale old"
  shows "wei_scale (fst (perturb rng old))"
proof -
  have cap: "uint (min x (push_bit 96 1 - 1 :: balance)) < 2 ^ 96" for x
    by (simp add: min_def word_le_def)
  have sub: "uint (saturating_sub_u old a) < 2 ^ 96" for a
    using assms 
  proof -
    have "uint (saturating_sub_u old a) \<le> uint old"
      unfolding saturating_sub_u_def by (simp add: word_le_def uint_sub_if')
    then show ?thesis using assms unfolding wei_scale_def by linarith
  qed
  show ?thesis
    unfolding perturb_def Let_def case_prod_beta fst_conv using cap sub by (intro wei_scale_max) simp
qed


section \<open>The ground truth\<close>

text \<open>What a change stream does to a set of accounts: a zero removes, anything else writes.\<close>

definition replay_changes :: "(address_hash \<times> balance) list \<Rightarrow> (address_hash \<rightharpoonup> balance) \<Rightarrow> (address_hash \<rightharpoonup> balance)" where
  "replay_changes chs m = fold (\<lambda>(a, v) m. m(a := if v = 0 then None else Some v)) chs m"

lemma replay_changes_simps [simp]:
  "replay_changes [] m = m" "replay_changes (xs @ ys) m = replay_changes ys (replay_changes xs m)"
  "replay_changes ((a, v) # xs) m = replay_changes xs (m(a := if v = 0 then None else Some v))"
  by (simp_all add: replay_changes_def)

text \<open>The live keys are the keys with a balance, each once, and are addresses of the ids below
  \<open>k\<close>; every balance is positive and fits 96 bits.\<close>

definition accounts_ok :: "nat \<Rightarrow> address_hash list \<Rightarrow> (address_hash \<rightharpoonup> balance) \<Rightarrow> bool" where
  "accounts_ok k live balances \<longleftrightarrow> distinct live \<and> set live = dom balances \<and> (\<forall>b \<in> ran balances. wei_scale b) \<and>
     set live \<subseteq> (\<lambda>n. address_for (of_nat n)) ` {..<k}"

lemma accounts_ok_length: "accounts_ok k live balances \<Longrightarrow> length live \<le> k"
proof -
  assume ok: "accounts_ok k live balances"
  then have "distinct live" by (simp add: accounts_ok_def)
  then have "length live = card (set live)" by (rule distinct_card[symmetric])
  also have "\<dots> \<le> card ((\<lambda>n. address_for (of_nat n)) ` {..<k})"
    using ok by (intro card_mono) (auto simp: accounts_ok_def)
  also have "\<dots> \<le> k" using card_image_le[of "{..<k}"] by simp
  finally show ?thesis .
qed

lemma wei_scale_neq_0: "wei_scale b \<Longrightarrow> b \<noteq> 0"
  by (auto simp: wei_scale_def)

lemma fresh_address:
  assumes "accounts_ok k live balances" and "k < 2 ^ 64"
  shows "address_for (of_nat k) \<notin> set live"
proof
  assume "address_for (of_nat k) \<in> set live"
  then obtain n where n: "n < k" "address_for (of_nat k) = address_for (of_nat n)"
    using assms(1) unfolding accounts_ok_def by blast
  from n(2) have "(of_nat k :: u64) = of_nat n" by (simp only: address_for_inject)
  then have "unat (of_nat k :: u64) = unat (of_nat n :: u64)" by simp
  with n(1) assms(2) show False by (simp add: unsigned_of_nat take_bit_nat_eq_self)
qed

lemma accounts_ok_add:
  assumes "accounts_ok k live balances" and "k < 2 ^ 64" and "wei_scale b"
  shows "accounts_ok (Suc k) (live @ [address_for (of_nat k)]) (balances(address_for (of_nat k) \<mapsto> b))"
  using assms fresh_address[OF assms(1,2)]
  by (auto simp: accounts_ok_def lessThan_Suc ran_def split: if_splits)

lemma add_accounts_ok:
  assumes "add_accounts n (of_nat k) (rng, live, balances, chs) = (rng', live', balances', chs')"
    and "accounts_ok k live balances" and "k + n \<le> 2 ^ 64"
  shows "accounts_ok (k + n) live' balances' \<and> length live' = length live + n \<and>
    (\<exists>new. chs' = chs @ new \<and> length new = n \<and> balances' = replay_changes new balances)"
  using assms
proof (induction n arbitrary: k rng live balances chs)
  case (Suc n)
  obtain b rng1 where b: "random_balance rng = (b, rng1)" by fastforce
  then have w: "wei_scale b" using wei_scale_random[of rng] by simp
  let ?a = "address_for (of_nat k)"
  have lt: "k < 2 ^ 64" using Suc.prems(3) by simp
  from Suc.prems(1) b have run: "add_accounts n (of_nat (Suc k)) (rng1, live @ [?a], balances(?a \<mapsto> b), chs @ [(?a, b)]) =
      (rng', live', balances', chs')" by (simp add: Let_def add.commute)
  have "Suc k + n \<le> 2 ^ 64" using Suc.prems(3) by simp
  from Suc.IH[OF run accounts_ok_add[OF Suc.prems(2) lt w] this]
  obtain new where "accounts_ok (Suc k + n) live' balances'" "length live' = length (live @ [?a]) + n"
    "chs' = (chs @ [(?a, b)]) @ new" "length new = n" "balances' = replay_changes new (balances(?a \<mapsto> b))" by blast
  moreover from this have "balances' = replay_changes ([(?a, b)] @ new) balances"
    using wei_scale_neq_0[OF w] by simp
  ultimately show ?case
    by (intro conjI exI[of _ "[(?a, b)] @ new"]) simp_all
qed simp

lemma mset_swap_remove: "i < length xs \<Longrightarrow> mset (swap_remove i xs) = mset xs - {#xs ! i#}"
proof -
  assume i: "i < length xs"
  then have ne: "xs[i := last xs] \<noteq> []" by auto
  have "last (xs[i := last xs]) = last xs" using i by (cases "xs = []") (auto simp: last_conv_nth nth_list_update)
  then have "mset (swap_remove i xs) + {#last xs#} = mset (xs[i := last xs])"
    unfolding swap_remove_def using ne by (metis append_butlast_last_id mset_append mset_single_iff_right mset.simps)
  also have "\<dots> = mset xs - {#xs ! i#} + {#last xs#}" using i by (simp add: mset_update)
  finally show ?thesis by simp
qed


lemma swap_remove_set:
  assumes "i < length xs" and "distinct xs"
  shows "distinct (swap_remove i xs) \<and> set (swap_remove i xs) = set xs - {xs ! i} \<and> length (swap_remove i xs) = length xs - 1"
proof -
  have m: "mset (swap_remove i xs) = mset xs - {#xs ! i#}" by (rule mset_swap_remove[OF assms(1)])
  have "mset xs = add_mset (xs ! i) (mset (swap_remove i xs))" unfolding m using assms(1) by simp
  then have "mset (xs ! i # swap_remove i xs) = mset xs" by simp
  then have "distinct (xs ! i # swap_remove i xs)" "set (xs ! i # swap_remove i xs) = set xs"
    "length (xs ! i # swap_remove i xs) = length xs"
    using assms(2) by (metis mset_eq_imp_distinct_iff, metis mset_eq_setD, metis mset_eq_length)
  then show ?thesis by auto
qed

lemma pick_index: "live \<noteq> [] \<Longrightarrow> length live < 2 ^ 64 \<Longrightarrow> unat (x mod of_nat (length live) :: u64) < length live"
  by (simp add: unat_mod unsigned_of_nat take_bit_nat_eq_self)

lemma delete_accounts_ok:
  assumes "delete_accounts n (rng, live, balances, chs) = (rng', live', balances', chs')"
    and "accounts_ok k live balances" and "k < 2 ^ 64"
  shows "accounts_ok k live' balances' \<and> length live' = length live - n \<and>
    (\<exists>new. chs' = chs @ new \<and> length new = min n (length live) \<and> balances' = replay_changes new balances)"
  using assms
proof (induction n arbitrary: rng live balances chs)
  case (Suc n)
  show ?case
  proof (cases "live = []")
    case True
    with Suc.prems show ?thesis by auto
  next
    case False
    obtain x rng1 where x: "next_u64 rng = (x, rng1)" by fastforce
    let ?i = "unat (x mod of_nat (length live))"
    have i: "?i < length live" using pick_index[OF False] accounts_ok_length[OF Suc.prems(2)] Suc.prems(3) by simp
    note sw = swap_remove_set[OF i]
    have run: "delete_accounts n (rng1, swap_remove ?i live, balances(live ! ?i := None), chs @ [(live ! ?i, 0)]) =
        (rng', live', balances', chs')"
      using Suc.prems(1) False x by (simp add: Let_def)
    have ok: "accounts_ok k (swap_remove ?i live) (balances(live ! ?i := None))"
      using Suc.prems(2) sw by (auto simp: accounts_ok_def ran_def)
    from Suc.IH[OF run ok Suc.prems(3)] obtain new where
      "accounts_ok k live' balances'" "length live' = length (swap_remove ?i live) - n"
      "chs' = (chs @ [(live ! ?i, 0)]) @ new" "length new = min n (length (swap_remove ?i live))"
      "balances' = replay_changes new (balances(live ! ?i := None))" by blast
    moreover have "length live = Suc (length (swap_remove ?i live))"
      using sw Suc.prems(2) False by (simp add: accounts_ok_def)
    ultimately show ?thesis by (intro conjI exI[of _ "[(live ! ?i, 0)] @ new"]) simp_all
  qed
qed auto

lemma update_accounts_ok:
  assumes "accounts_ok k live balances" and "k < 2 ^ 64"
  shows "\<exists>rng' balances' new. update_accounts n live (rng, balances, chs) = Some (rng', balances', chs @ new) \<and>
    accounts_ok k live balances' \<and> length new = (if live = [] then 0 else n) \<and> balances' = replay_changes new balances"
  using assms
proof (induction n arbitrary: rng balances chs)
  case (Suc n)
  show ?case
  proof (cases "live = []")
    case False
    obtain x rng1 where x: "next_u64 rng = (x, rng1)" by fastforce
    let ?a = "live ! unat (x mod of_nat (length live))"
    have "?a \<in> set live" using pick_index[OF False] accounts_ok_length[OF Suc.prems(1)] Suc.prems(2) by simp
    then obtain old where old: "balances ?a = Some old" using Suc.prems(1) by (auto simp: accounts_ok_def)
    then have "wei_scale old" using Suc.prems(1) by (auto simp: accounts_ok_def ran_def)
    then obtain new rng2 where p: "perturb rng1 old = (new, rng2)" "wei_scale new"
      using wei_scale_perturb[of old rng1] by (metis prod.exhaust fst_conv)
    have "accounts_ok k live (balances(?a \<mapsto> new))"
      using Suc.prems(1) p(2) \<open>?a \<in> set live\<close> by (auto simp: accounts_ok_def ran_def)
    from Suc.IH[OF this Suc.prems(2), of rng2 "chs @ [(?a, new)]", unfolded if_not_P[OF False]] obtain rng' balances' rest where
      "update_accounts n live (rng2, balances(?a \<mapsto> new), chs @ [(?a, new)]) = Some (rng', balances', (chs @ [(?a, new)]) @ rest)"
      "accounts_ok k live balances'" "length rest = n" "balances' = replay_changes rest (balances(?a \<mapsto> new))"
      by blast
    then show ?thesis
      using x old p(1) False wei_scale_neq_0[OF p(2)]
      by (intro exI[of _ rng'] exI[of _ balances'] exI[of _ "[(?a, new)] @ rest"]) (simp add: Let_def)
  qed (use Suc.prems in simp)
qed simp


section \<open>Properties\<close>

fun mock_run :: "nat \<Rightarrow> mock_feed \<Rightarrow> (block_update list \<times> mock_feed) option" where
  "mock_run 0 f = Some ([], f)"
| "mock_run (Suc n) f =
     Option.bind (mock_next_block f) (\<lambda>(u, f). map_option (\<lambda>(us, f). (u # us, f)) (mock_run n f))"

definition emitted :: "block_update list \<Rightarrow> (address_hash \<times> balance) list" where
  "emitted us = concat (map changes us)"

definition mock_ok :: "nat \<Rightarrow> mock_feed \<Rightarrow> bool" where
  "mock_ok k f \<longleftrightarrow> accounts_ok k (mf_live f) (mf_balances f) \<and> mf_next_id f = of_nat k \<and> config_ok (mf_cfg f)"

lemma mock_new_ok:
  assumes "config_ok cfg"
  shows "\<exists>f. mock_new cfg = Some f \<and> mock_ok (unat (mc_num_genesis_keys cfg)) f \<and> mf_cfg f = cfg \<and> mf_block f = 0 \<and>
    length (mf_live f) = unat (mc_num_genesis_keys cfg)"
proof -
  let ?n = "unat (mc_num_genesis_keys cfg)"
  obtain rng live balances chs where run: "add_accounts ?n (of_nat 0) (mc_seed cfg, [], Map.empty, []) = (rng, live, balances, chs)"
    by (metis prod.exhaust)
  have "accounts_ok 0 [] Map.empty" by (simp add: accounts_ok_def)
  moreover have "0 + ?n \<le> 2 ^ 64" using unsigned_less[of "mc_num_genesis_keys cfg", where 'a = nat] by simp
  ultimately have "accounts_ok ?n live balances \<and> length live = ?n" using add_accounts_ok[OF run] by auto
  then show ?thesis using run assms by (simp add: mock_new_def mock_ok_def)
qed

lemma mock_next_block_ok:
  assumes "mock_ok k f" and "k + mc_inserts_per_block (mf_cfg f) < 2 ^ 64"
  shows "\<exists>u f'. mock_next_block f = Some (u, f') \<and> mock_ok (k + mc_inserts_per_block (mf_cfg f)) f' \<and> mf_cfg f' = mf_cfg f \<and>
    mf_block f' = mf_block f + 1 \<and> update_block u = mf_block f + 1 \<and> credits u = [] \<and>
    mf_balances f' = replay_changes (changes u) (mf_balances f) \<and>
    length (mf_live f') = length (mf_live f) - mc_deletes_per_block (mf_cfg f) + mc_inserts_per_block (mf_cfg f) \<and>
    (mc_deletes_per_block (mf_cfg f) < length (mf_live f) \<longrightarrow> length (changes u) = mc_changes_per_block (mf_cfg f))"
proof -
  let ?cfg = "mf_cfg f"
  obtain rng1 live1 bal1 chs1 where d: "delete_accounts (mc_deletes_per_block ?cfg) (mf_rng f, mf_live f, mf_balances f, []) = (rng1, live1, bal1, chs1)"
    by (metis prod.exhaust)
  have lt: "k < 2 ^ 64" using assms(2) by simp
  from delete_accounts_ok[OF d _ lt] assms(1) have d':
    "accounts_ok k live1 bal1" "length live1 = length (mf_live f) - mc_deletes_per_block ?cfg"
    "length chs1 = min (mc_deletes_per_block ?cfg) (length (mf_live f))" "bal1 = replay_changes chs1 (mf_balances f)"
    by (auto simp: mock_ok_def)
  obtain rng2 live2 bal2 chs2 where a: "add_accounts (mc_inserts_per_block ?cfg) (of_nat k) (rng1, live1, bal1, chs1) = (rng2, live2, bal2, chs2)"
    by (metis prod.exhaust)
  from add_accounts_ok[OF a d'(1)] assms(2) obtain new2 where a':
    "accounts_ok (k + mc_inserts_per_block ?cfg) live2 bal2" "length live2 = length live1 + mc_inserts_per_block ?cfg"
    "chs2 = chs1 @ new2" "length new2 = mc_inserts_per_block ?cfg" "bal2 = replay_changes new2 bal1" by auto
  let ?n = "mc_changes_per_block ?cfg - length chs1 - mc_inserts_per_block ?cfg"
  from update_accounts_ok[OF a'(1) assms(2), of ?n rng2 chs2] obtain rng3 bal3 new3 where u:
    "update_accounts ?n live2 (rng2, bal2, chs2) = Some (rng3, bal3, chs2 @ new3)"
    "accounts_ok (k + mc_inserts_per_block ?cfg) live2 bal3" "length new3 = (if live2 = [] then 0 else ?n)"
    "bal3 = replay_changes new3 bal2" by blast
  have "mf_next_id f = of_nat k" "config_ok ?cfg" using assms(1) by (simp_all add: mock_ok_def)
  moreover have "length (chs2 @ new3) = mc_changes_per_block ?cfg" if "mc_deletes_per_block ?cfg < length (mf_live f)"
    using that calculation(2) d'(2,3) a'(2,3,4) u(3) by (auto simp: config_ok_def)
  ultimately show ?thesis
    using d a u d' a' by (simp add: mock_next_block_def Let_def mock_ok_def)
qed

text \<open>The mock's ground truth is exact.  From any consistent configuration whose ids do not run
  out, any number of blocks is produced without a panic; \<open>MockFeed::balance_of\<close> is then the replay, over the
  genesis balances, of exactly the changes that were emitted; the live keys are the keys with a
  balance, each once; every balance is positive and fits the 96 bits of the codec; and with as many
  inserts as deletes the number of accounts never changes.\<close>

theorem mock_ground_truth_is_exact:
  assumes "config_ok cfg"
    and "unat (mc_num_genesis_keys cfg) + n * mc_inserts_per_block cfg < 2 ^ 64"
  shows "\<exists>f us f'. mock_new cfg = Some f \<and> mock_run n f = Some (us, f') \<and> length us = n \<and> mock_head f' = of_nat n \<and>
    mf_balances f' = replay_changes (emitted us) (mf_balances f) \<and>
    distinct (mf_live f') \<and> set (mf_live f') = dom (mf_balances f') \<and>
    (\<forall>a \<in> set (mf_live f'). wei_scale (mock_balance_of f' a)) \<and>
    (mc_inserts_per_block cfg = mc_deletes_per_block cfg \<and> mc_deletes_per_block cfg \<le> length (mf_live f) \<longrightarrow>
       length (mf_live f') = unat (mc_num_genesis_keys cfg))"
proof -
  have run: "\<exists>us f'. mock_run n f = Some (us, f') \<and> length us = n \<and> mf_block f' = mf_block f + of_nat n \<and>
      mf_balances f' = replay_changes (emitted us) (mf_balances f) \<and> accounts_ok (k + n * mc_inserts_per_block cfg) (mf_live f') (mf_balances f') \<and>
      (mc_inserts_per_block cfg = mc_deletes_per_block cfg \<and> mc_deletes_per_block cfg \<le> length (mf_live f) \<longrightarrow>
         length (mf_live f') = length (mf_live f))"
    if "mock_ok k f" "mf_cfg f = cfg" "k + n * mc_inserts_per_block cfg < 2 ^ 64" for k f
    using that
  proof (induction n arbitrary: k f)
    case 0
    then show ?case by (simp add: mock_ok_def emitted_def)
  next
    case (Suc n)
    from mock_next_block_ok[OF Suc.prems(1)] Suc.prems(2,3) obtain u f1 where one:
      "mock_next_block f = Some (u, f1)" "mock_ok (k + mc_inserts_per_block cfg) f1" "mf_cfg f1 = cfg"
      "mf_block f1 = mf_block f + 1" "mf_balances f1 = replay_changes (changes u) (mf_balances f)"
      "length (mf_live f1) = length (mf_live f) - mc_deletes_per_block cfg + mc_inserts_per_block cfg" by auto
    have "k + mc_inserts_per_block cfg + n * mc_inserts_per_block cfg < 2 ^ 64" using Suc.prems(3) by simp
    from Suc.IH[OF one(2,3) this] obtain us f' where
      "mock_run n f1 = Some (us, f')" "length us = n" "mf_block f' = mf_block f1 + of_nat n"
      "mf_balances f' = replay_changes (emitted us) (mf_balances f1)"
      "accounts_ok (k + mc_inserts_per_block cfg + n * mc_inserts_per_block cfg) (mf_live f') (mf_balances f')"
      "mc_inserts_per_block cfg = mc_deletes_per_block cfg \<and> mc_deletes_per_block cfg \<le> length (mf_live f1) \<longrightarrow>
         length (mf_live f') = length (mf_live f1)" by blast
    then show ?case using one by (auto simp: emitted_def add.assoc)
  qed
  from mock_new_ok[OF assms(1)] obtain f where f: "mock_new cfg = Some f" "mock_ok (unat (mc_num_genesis_keys cfg)) f"
    "mf_cfg f = cfg" "mf_block f = 0" "length (mf_live f) = unat (mc_num_genesis_keys cfg)" by blast
  from run[OF f(2,3) assms(2)] obtain us f' where g: "mock_run n f = Some (us, f')" "length us = n"
    "mf_block f' = mf_block f + of_nat n" "mf_balances f' = replay_changes (emitted us) (mf_balances f)"
    "accounts_ok (unat (mc_num_genesis_keys cfg) + n * mc_inserts_per_block cfg) (mf_live f') (mf_balances f')"
    "mc_inserts_per_block cfg = mc_deletes_per_block cfg \<and> mc_deletes_per_block cfg \<le> length (mf_live f) \<longrightarrow>
       length (mf_live f') = length (mf_live f)" by blast
  moreover have "wei_scale (mock_balance_of f' a)" if "a \<in> set (mf_live f')" for a
    using g(5) that by (auto simp: accounts_ok_def mock_balance_of_def ran_def)
  moreover have "mock_head f' = of_nat n" using g(3) f(4) by (simp add: mock_head_def)
  ultimately show ?thesis using f(1,5) unfolding accounts_ok_def by metis
qed

theorem mock_ground_truth_is_exact_witness:
  "\<exists>f us f'. mock_new default_config = Some f \<and> mock_run 1000 f = Some (us, f') \<and> length us = 1000 \<and>
     mf_balances f' = replay_changes (emitted us) (mf_balances f)"
proof -
  have "config_ok default_config" by (simp add: config_ok_def default_config_def)
  moreover have "unat (mc_num_genesis_keys default_config) + 1000 * mc_inserts_per_block default_config < 2 ^ 64"
    by (simp add: default_config_def)
  ultimately show ?thesis using mock_ground_truth_is_exact[of default_config 1000] by blast
qed

end
