(* ===== verification/Feed_Rpc.thy ===== *)
theory Feed_Rpc
  imports Hex_Text BTree_Map Block_Delta "HOL-Library.List_Lexorder"
begin

text \<open>
  Model of \<open>crates/risepir-feed/src/rpc.rs\<close>: the JSON-RPC client, the ordered list of
  endpoints with its chain checks, and the parsers that turn a block and its trace into a
  \<open>BlockUpdate\<close>; with \<open>FeedError\<close> of \<open>crates/risepir-feed/src/lib.rs\<close>.

  A JSON value is a \<open>json\<close>; an object lists its members by ascending key, which is how
  \<open>serde_json\<close> without \<open>preserve_order\<close> iterates.  The parser of \<open>serde_json\<close>, the
  network and Keccak are parameters: \<open>net t url method params\<close> is the reply to the call
  made at time \<open>t\<close>, and every call advances the time.  A message that is formatted from
  values is the \<open>feed_detail\<close> of these values.

  The lemmas: the changes of a block are the last write of each account over its
  transactions; credits are the withdrawals in wei, exactly; and a block is only ever taken
  from an endpoint that has reported the deployment's chain.
\<close>

section \<open>Data\<close>

datatype json =
    JNull
  | JBool bool
  | JInt int
  | JReal u64                                 \<comment> \<open>the bits of an \<open>f64\<close>\<close>
  | JStr string
  | JArr "json list"
  | JObj "(string \<times> json) list"

fun json_get :: "json \<Rightarrow> string \<Rightarrow> json option" where
  "json_get (JObj members) key = map_of members key"
| "json_get _ key = None"

fun as_str :: "json \<Rightarrow> string option" where
  "as_str (JStr s) = Some s"
| "as_str _ = None"

fun as_array :: "json \<Rightarrow> json list option" where
  "as_array (JArr xs) = Some xs"
| "as_array _ = None"

fun as_object :: "json \<Rightarrow> (string \<times> json) list option" where
  "as_object (JObj members) = Some members"
| "as_object _ = None"

fun as_i64 :: "json \<Rightarrow> int option" where
  "as_i64 (JInt k) = (if - (2 ^ 63) \<le> k \<and> k < 2 ^ 63 then Some k else None)"
| "as_i64 _ = None"

datatype feed_error =
    FeedInternal string
  | FeedRpc string feed_detail
  | FeedDepthRefused string feed_detail
  | FeedParse string feed_detail
  | ChainIdMismatch u64 u64                   \<comment> \<open>expected, got\<close>
and feed_detail =
    Plain string
  | InTx nat feed_detail
  | InWithdrawal nat feed_detail
  | BadHex hex_error
  | TracerError string
  | TransportFailure
  | BodyReadFailure
  | HttpStatus nat bytes
  | InvalidJson
  | JsonRpcError json
  | BlockNotAvailable u64
  | AllFailed string "endpoint_failure list"
and endpoint_failure = Unverified string feed_error | Declined string feed_error

fun is_depth_refusal :: "feed_error \<Rightarrow> bool" where
  "is_depth_refusal (FeedDepthRefused _ _) = True"
| "is_depth_refusal _ = False"

type_synonym address = bytes                  \<comment> \<open>\<open>[u8; 20]\<close>\<close>

record fetched_block =
  fb_update :: block_update
  fb_changed :: "(address \<times> balance) list"
  fb_credited :: "(address \<times> balance) list"

datatype http_reply = NoReply | NoReplyBody | HttpReply nat bytes

type_synonym net = "nat \<Rightarrow> string \<Rightarrow> string \<Rightarrow> json list \<Rightarrow> http_reply"

record endpoint =
  ep_url :: string
  ep_verified :: bool

record rpc_feed =
  fd_endpoints :: "endpoint list"
  fd_chain_id :: u64

text \<open>The external functions: \<open>serde_json::from_slice\<close>, the network, Keccak.\<close>

record feed_ext =
  fx_parse :: "bytes \<Rightarrow> json option"
  fx_net :: net
  fx_keccak :: "bytes \<Rightarrow> bytes"

section \<open>One call\<close>

fun contains_str :: "string \<Rightarrow> string \<Rightarrow> bool" where
  "contains_str needle [] = (needle = [])"
| "contains_str needle (c # cs) = (strip_prefix needle (c # cs) \<noteq> None \<or> contains_str needle cs)"

definition depth_needles :: "string list" where
  "depth_needles = [''archive'', ''missing trie node'', ''state is not available'', ''state unavailable'', ''pruned'']"

definition looks_like_depth_refusal :: "nat \<Rightarrow> int option \<Rightarrow> string \<Rightarrow> bool" where
  "looks_like_depth_refusal status code message =
     (if status = 403 then True
      else if code = Some (- 32602) \<or> code = Some (- 32000)
      then list_ex (\<lambda>needle. contains_str needle (map ascii_lower message)) depth_needles
      else False)"

definition extract_code_message :: "(bytes \<Rightarrow> json option) \<Rightarrow> bytes \<Rightarrow> int option \<times> string" where
  "extract_code_message parse bs =
     (case parse bs of
        None \<Rightarrow> (None, [])
      | Some v \<Rightarrow>
          let obj = (case json_get v ''error'' of Some e \<Rightarrow> e | None \<Rightarrow> v) in
          (Option.bind (json_get obj ''code'') as_i64,
           case Option.bind (json_get obj ''message'') as_str of Some m \<Rightarrow> m | None \<Rightarrow> []))"

definition classified_err :: "string \<Rightarrow> nat \<Rightarrow> int option \<Rightarrow> string \<Rightarrow> feed_detail \<Rightarrow> feed_error" where
  "classified_err method status code message detail =
     (if looks_like_depth_refusal status code message then FeedDepthRefused method detail else FeedRpc method detail)"

definition read_reply :: "(bytes \<Rightarrow> json option) \<Rightarrow> string \<Rightarrow> http_reply \<Rightarrow> feed_error + json" where
  "read_reply parse method reply =
     (case reply of
        NoReply \<Rightarrow> Inl (FeedRpc method TransportFailure)
      | NoReplyBody \<Rightarrow> Inl (FeedRpc method BodyReadFailure)
      | HttpReply status body \<Rightarrow>
          if \<not> (200 \<le> status \<and> status < 300)
          then (case extract_code_message parse body of
            (code, message) \<Rightarrow> Inl (classified_err method status code message (HttpStatus status body)))
          else (case parse body of
            None \<Rightarrow> Inl (FeedRpc method InvalidJson)
          | Some envelope \<Rightarrow>
              (case json_get envelope ''error'' of
                 Some err \<Rightarrow>
                   Inl (classified_err method status (Option.bind (json_get err ''code'') as_i64)
                     (case Option.bind (json_get err ''message'') as_str of Some m \<Rightarrow> m | None \<Rightarrow> []) (JsonRpcError err))
               | None \<Rightarrow>
                   (case json_get envelope ''result'' of
                      Some r \<Rightarrow> Inr r
                    | None \<Rightarrow> Inl (FeedRpc method (Plain ''response has neither result nor error''))))))"

definition rpc_call :: "feed_ext \<Rightarrow> string \<Rightarrow> string \<Rightarrow> json list \<Rightarrow> nat \<Rightarrow> (feed_error + json) \<times> nat" where
  "rpc_call ext url method params t =
     (read_reply (fx_parse ext) method (fx_net ext t url method params), Suc t)"

definition hex_block :: "u64 \<Rightarrow> string" where
  "hex_block n = ''0x'' @ show_hex (unat n)"

definition balance_at_raw :: "feed_ext \<Rightarrow> string \<Rightarrow> address \<Rightarrow> u64 \<Rightarrow> nat \<Rightarrow> (feed_error + balance \<times> string) \<times> nat" where
  "balance_at_raw ext url addr block t =
     (case rpc_call ext url ''eth_getBalance'' [JStr (''0x'' @ hex_bytes addr), JStr (hex_block block)] t of
        (r, t') \<Rightarrow>
          (and_then r (\<lambda>result.
           and_then (ok_or (as_str result) (FeedParse ''eth_getBalance'' (Plain ''result is not a string''))) (\<lambda>s.
           and_then (map_err (\<lambda>e. FeedParse ''eth_getBalance'' (BadHex e)) (parse_hex_u128 s)) (\<lambda>v. Inr (v, s)))), t'))"

definition balance_at :: "feed_ext \<Rightarrow> string \<Rightarrow> address \<Rightarrow> u64 \<Rightarrow> nat \<Rightarrow> (feed_error + balance) \<times> nat" where
  "balance_at ext url addr block t =
     (case balance_at_raw ext url addr block t of (r, t') \<Rightarrow> (and_then r (\<lambda>(v, _). Inr v), t'))"

section \<open>Reading a block\<close>

abbreviation trace_err :: "nat \<Rightarrow> feed_detail \<Rightarrow> feed_error" where
  "trace_err i d \<equiv> FeedParse ''debug_traceBlockByNumber'' (InTx i d)"

fun post_changes :: "nat \<Rightarrow> (string \<times> json) list \<Rightarrow> (address, balance) btree \<Rightarrow> feed_error + (address, balance) btree" where
  "post_changes i [] m = Inr m"
| "post_changes i ((addr_str, acct) # rest) m =
     and_then (ok_or (parse_address addr_str) (trace_err i (Plain ''bad post address''))) (\<lambda>addr.
       case json_get acct ''balance'' of
         None \<Rightarrow> post_changes i rest m
       | Some b \<Rightarrow>
           and_then (ok_or (as_str b) (trace_err i (Plain ''post balance not a string''))) (\<lambda>b.
           and_then (map_err (\<lambda>e. trace_err i (BadHex e)) (parse_hex_u128 b)) (\<lambda>wei.
           post_changes i rest (bt_insert addr wei m))))"

fun pre_destroyed :: "nat \<Rightarrow> (string \<times> json) list \<Rightarrow> (string \<times> json) list \<Rightarrow> (address, balance) btree
    \<Rightarrow> feed_error + (address, balance) btree" where
  "pre_destroyed i post [] m = Inr m"
| "pre_destroyed i post ((addr_str, _) # rest) m =
     (if map_of post addr_str = None
      then and_then (ok_or (parse_address addr_str) (trace_err i (Plain ''bad pre address''))) (\<lambda>addr.
             pre_destroyed i post rest (bt_insert addr 0 m))
      else pre_destroyed i post rest m)"

definition tx_objects :: "nat \<Rightarrow> json \<Rightarrow> feed_error + (string \<times> json) list \<times> (string \<times> json) list" where
  "tx_objects i tx =
     and_then (ok_or (json_get tx ''result'') (trace_err i (Plain ''missing result''))) (\<lambda>result.
       case Option.bind (json_get result ''error'') as_str of
         Some err \<Rightarrow> Inl (trace_err i (TracerError err))
       | None \<Rightarrow>
           and_then (ok_or (Option.bind (json_get result ''pre'') as_object) (trace_err i (Plain ''missing pre object''))) (\<lambda>pre.
           and_then (ok_or (Option.bind (json_get result ''post'') as_object) (trace_err i (Plain ''missing post object''))) (\<lambda>post.
           Inr (pre, post))))"

fun trace_changes :: "nat \<Rightarrow> json list \<Rightarrow> (address, balance) btree \<Rightarrow> feed_error + (address, balance) btree" where
  "trace_changes i [] m = Inr m"
| "trace_changes i (tx # txs) m =
     and_then (tx_objects i tx) (\<lambda>(pre, post).
     and_then (post_changes i post m) (\<lambda>m.
     and_then (pre_destroyed i post pre m) (\<lambda>m.
     trace_changes (Suc i) txs m)))"

definition changes_from_trace :: "json \<Rightarrow> feed_error + (address \<times> balance) list" where
  "changes_from_trace trace =
     and_then (ok_or (as_array trace) (FeedParse ''debug_traceBlockByNumber'' (Plain ''result is not an array''))) (\<lambda>txs.
     trace_changes 0 txs [])"

definition wei_per_gwei :: u128 where "wei_per_gwei = 1000000000"

abbreviation withdrawal_err :: "nat \<Rightarrow> feed_detail \<Rightarrow> feed_error" where
  "withdrawal_err i d \<equiv> FeedParse ''eth_getBlockByNumber'' (InWithdrawal i d)"

definition one_credit :: "nat \<Rightarrow> json \<Rightarrow> feed_error + (address \<times> balance)" where
  "one_credit i w =
     and_then (ok_or (Option.bind (Option.bind (json_get w ''address'') as_str) parse_address)
       (withdrawal_err i (Plain ''bad address''))) (\<lambda>addr.
     and_then (ok_or (Option.bind (json_get w ''amount'') as_str) (withdrawal_err i (Plain ''missing amount''))) (\<lambda>gwei.
     and_then (map_err (\<lambda>e. withdrawal_err i (BadHex e)) (parse_hex_u128 gwei)) (\<lambda>gwei.
     and_then (ok_or (checked_mul_u gwei wei_per_gwei) (withdrawal_err i (Plain ''amount overflows wei''))) (\<lambda>wei.
     Inr (addr, wei)))))"

fun block_credits :: "nat \<Rightarrow> json list \<Rightarrow> feed_error + (address \<times> balance) list" where
  "block_credits i [] = Inr []"
| "block_credits i (w # ws) =
     and_then (one_credit i w) (\<lambda>c. and_then (block_credits (Suc i) ws) (\<lambda>cs. Inr (c # cs)))"

definition credits_from_block :: "json \<Rightarrow> feed_error + (address \<times> balance) list" where
  "credits_from_block block =
     (case json_get block ''withdrawals'' of
        None \<Rightarrow> Inr []
      | Some withdrawals \<Rightarrow>
          and_then (ok_or (as_array withdrawals) (FeedParse ''eth_getBlockByNumber'' (Plain ''withdrawals is not an array'')))
            (block_credits 0))"

section \<open>Endpoints\<close>

definition u64_of_u128 :: "u128 \<Rightarrow> u64 option" where
  "u64_of_u128 w = (if unat w < 2 ^ 64 then Some (ucast w) else None)"

definition verify_chain :: "feed_ext \<Rightarrow> string \<Rightarrow> u64 \<Rightarrow> nat \<Rightarrow> (feed_error + unit) \<times> nat" where
  "verify_chain ext url expected t =
     (case rpc_call ext url ''eth_chainId'' [] t of
        (r, t') \<Rightarrow>
          (and_then r (\<lambda>got.
           and_then (ok_or (as_str got) (FeedParse ''eth_chainId'' (Plain ''result is not a string''))) (\<lambda>s.
           and_then (map_err (\<lambda>e. FeedParse ''eth_chainId'' (BadHex e)) (parse_hex_u128 s)) (\<lambda>v.
           and_then (ok_or (u64_of_u128 v) (FeedParse ''eth_chainId'' (Plain ''does not fit u64''))) (\<lambda>got.
           if got \<noteq> expected then Inl (ChainIdMismatch expected got) else Inr ())))), t'))"

fun connect_all :: "feed_ext \<Rightarrow> u64 \<Rightarrow> nat \<Rightarrow> string list \<Rightarrow> nat \<Rightarrow> (feed_error + endpoint list) \<times> nat" where
  "connect_all ext expected i [] t = (Inr [], t)"
| "connect_all ext expected i (url # urls) t =
     (case verify_chain ext url expected t of
        (r, t') \<Rightarrow>
          let continue = (\<lambda>verified.
                case connect_all ext expected (Suc i) urls t' of
                  (r, t'') \<Rightarrow> (and_then r (\<lambda>eps. Inr (\<lparr> ep_url = url, ep_verified = verified \<rparr> # eps)), t'')) in
          (case r of
             Inr _ \<Rightarrow> continue True
           | Inl (ChainIdMismatch e g) \<Rightarrow> (Inl (ChainIdMismatch e g), t')
           | Inl e \<Rightarrow> if i = 0 then (Inl e, t') else continue False))"

definition new_multi :: "feed_ext \<Rightarrow> string list \<Rightarrow> u64 \<Rightarrow> nat \<Rightarrow> (feed_error + rpc_feed) \<times> nat" where
  "new_multi ext urls expected t =
     (if urls = [] then (Inl (FeedInternal ''feed needs at least one endpoint URL''), t)
      else case connect_all ext expected 0 urls t of
        (r, t') \<Rightarrow> (and_then r (\<lambda>eps. Inr \<lparr> fd_endpoints = eps, fd_chain_id = expected \<rparr>), t'))"

definition ensure_chain_verified :: "feed_ext \<Rightarrow> u64 \<Rightarrow> endpoint \<Rightarrow> nat \<Rightarrow> (feed_error + unit) \<times> endpoint \<times> nat" where
  "ensure_chain_verified ext chain ep t =
     (if ep_verified ep then (Inr (), ep, t)
      else case verify_chain ext (ep_url ep) chain t of
        (Inl e, t') \<Rightarrow> (Inl e, ep, t')
      | (Inr _, t') \<Rightarrow> (Inr (), ep\<lparr> ep_verified := True \<rparr>, t'))"

text \<open>The loop over the endpoints that \<open>finalized\<close> and \<open>block_update\<close> share.\<close>

fun try_endpoints :: "feed_ext \<Rightarrow> u64 \<Rightarrow> (string \<Rightarrow> nat \<Rightarrow> (feed_error + 'a) \<times> nat) \<Rightarrow> endpoint list \<Rightarrow> nat
    \<Rightarrow> endpoint_failure list \<Rightarrow> (endpoint_failure list + 'a) \<times> endpoint list \<times> nat" where
  "try_endpoints ext chain on [] t failures = (Inl failures, [], t)"
| "try_endpoints ext chain on (ep # eps) t failures =
     (case ensure_chain_verified ext chain ep t of
        (Inl e, ep, t') \<Rightarrow>
          (case try_endpoints ext chain on eps t' (failures @ [Unverified (ep_url ep) e]) of
             (r, eps', t'') \<Rightarrow> (r, ep # eps', t''))
      | (Inr _, ep, t') \<Rightarrow>
          (case on (ep_url ep) t' of
             (Inr x, t'') \<Rightarrow> (Inr x, ep # eps, t'')
           | (Inl e, t'') \<Rightarrow>
               (case try_endpoints ext chain on eps t'' (failures @ [Declined (ep_url ep) e]) of
                  (r, eps', t3) \<Rightarrow> (r, ep # eps', t3))))"

definition on_feed :: "feed_ext \<Rightarrow> string \<Rightarrow> (string \<Rightarrow> nat \<Rightarrow> (feed_error + 'a) \<times> nat) \<Rightarrow> rpc_feed \<Rightarrow> nat
    \<Rightarrow> (feed_error + 'a) \<times> rpc_feed \<times> nat" where
  "on_feed ext label on feed t =
     (case try_endpoints ext (fd_chain_id feed) on (fd_endpoints feed) t [] of
        (r, eps, t') \<Rightarrow> (map_err (\<lambda>fs. FeedRpc label (AllFailed label fs)) r, feed\<lparr> fd_endpoints := eps \<rparr>, t'))"

definition finalized_on :: "feed_ext \<Rightarrow> string \<Rightarrow> nat \<Rightarrow> (feed_error + u64) \<times> nat" where
  "finalized_on ext url t =
     (let label = ''eth_getBlockByNumber(finalized)'' in
      case rpc_call ext url ''eth_getBlockByNumber'' [JStr ''finalized'', JBool False] t of
        (r, t') \<Rightarrow>
          (and_then r (\<lambda>block.
           and_then (ok_or (Option.bind (json_get block ''number'') as_str) (FeedParse label (Plain ''missing number''))) (\<lambda>s.
           and_then (map_err (\<lambda>e. FeedParse label (BadHex e)) (parse_hex_u128 s)) (\<lambda>v.
           ok_or (u64_of_u128 v) (FeedParse label (Plain ''block number does not fit u64''))))), t'))"

definition feed_finalized :: "feed_ext \<Rightarrow> rpc_feed \<Rightarrow> nat \<Rightarrow> (feed_error + u64) \<times> rpc_feed \<times> nat" where
  "feed_finalized ext = on_feed ext ''eth_getBlockByNumber(finalized)'' (finalized_on ext)"

definition trace_options :: json where
  "trace_options = JObj [(''tracer'', JStr ''prestateTracer''), (''tracerConfig'', JObj [(''diffMode'', JBool True)])]"

definition block_update_on :: "feed_ext \<Rightarrow> u64 \<Rightarrow> string \<Rightarrow> nat \<Rightarrow> (feed_error + fetched_block) \<times> nat" where
  "block_update_on ext n url t =
     (case rpc_call ext url ''eth_getBlockByNumber'' [JStr (hex_block n), JBool False] t of
        (Inl e, t') \<Rightarrow> (Inl e, t')
      | (Inr block, t') \<Rightarrow>
          if block = JNull then (Inl (FeedRpc ''eth_getBlockByNumber'' (BlockNotAvailable n)), t')
          else (case credits_from_block block of
            Inl e \<Rightarrow> (Inl e, t')
          | Inr credited \<Rightarrow>
              (case rpc_call ext url ''debug_traceBlockByNumber'' [JStr (hex_block n), trace_options] t' of
                 (r, t'') \<Rightarrow>
                   (and_then r (\<lambda>trace.
                    and_then (changes_from_trace trace) (\<lambda>changed.
                    Inr \<lparr> fb_update = \<lparr> update_block = n,
                            changes = map (\<lambda>(a, b). (fx_keccak ext a, b)) changed,
                            credits = map (\<lambda>(a, b). (fx_keccak ext a, b)) credited \<rparr>,
                          fb_changed = changed, fb_credited = credited \<rparr>)), t''))))"

definition feed_block_update :: "feed_ext \<Rightarrow> rpc_feed \<Rightarrow> u64 \<Rightarrow> nat \<Rightarrow> (feed_error + fetched_block) \<times> rpc_feed \<times> nat" where
  "feed_block_update ext feed n = on_feed ext (''block_update('' @ show_u64 n @ '')'') (block_update_on ext n) feed"

section \<open>The changes of a block\<close>

text \<open>What one transaction does to an account, as the diff mode documents it: the posted balance,
  if the account is in \<open>post\<close> with one; zero, if it is only in \<open>pre\<close>; nothing otherwise.\<close>

definition key_of :: "(string \<times> json) list \<Rightarrow> address \<Rightarrow> string option" where
  "key_of obj a = find (\<lambda>s. parse_address s = Some a) (map fst obj)"

definition posted_balance :: "json \<Rightarrow> balance option" where
  "posted_balance acct =
     Option.bind (Option.bind (json_get acct ''balance'') as_str) (\<lambda>s.
       case parse_hex_u128 s of Inr v \<Rightarrow> Some v | Inl _ \<Rightarrow> None)"

definition tx_effect :: "(string \<times> json) list \<Rightarrow> (string \<times> json) list \<Rightarrow> address \<Rightarrow> balance option" where
  "tx_effect pre post a =
     (case key_of post a of
        Some s \<Rightarrow> Option.bind (map_of post s) posted_balance
      | None \<Rightarrow> (case key_of pre a of Some _ \<Rightarrow> Some 0 | None \<Rightarrow> None))"

definition tx_pre_post :: "json \<Rightarrow> (string \<times> json) list \<times> (string \<times> json) list" where
  "tx_pre_post tx = (case tx_objects 0 tx of Inr po \<Rightarrow> po | Inl _ \<Rightarrow> ([], []))"

text \<open>The last transaction that touches the account decides.\<close>

fun block_effect :: "json list \<Rightarrow> address \<Rightarrow> balance option" where
  "block_effect [] a = None"
| "block_effect (tx # txs) a =
     (case block_effect txs a of
        Some v \<Rightarrow> Some v
      | None \<Rightarrow> (case tx_pre_post tx of (pre, post) \<Rightarrow> tx_effect pre post a))"

text \<open>An account has one spelling in a transaction, and an object names a member once.\<close>

definition one_spelling :: "(string \<times> json) list \<Rightarrow> (string \<times> json) list \<Rightarrow> bool" where
  "one_spelling pre post \<longleftrightarrow> distinct (map fst post) \<and>
     (\<forall>s \<in> set (map fst pre) \<union> set (map fst post). \<forall>s' \<in> set (map fst pre) \<union> set (map fst post).
        parse_address s = parse_address s' \<and> parse_address s \<noteq> None \<longrightarrow> s = s')"

lemma tx_objects_index: "tx_objects i tx = Inr po \<Longrightarrow> tx_objects j tx = Inr po"
  by (auto simp: tx_objects_def split: option.splits)

lemma find_key: "find P (map fst obj) = Some s \<Longrightarrow> P s \<and> s \<in> fst ` set obj"
  by (auto simp: find_Some_iff)

lemma key_of_None: "key_of obj a = None \<longleftrightarrow> (\<forall>s \<in> fst ` set obj. parse_address s \<noteq> Some a)"
  by (auto simp: key_of_def find_None_iff)

lemma key_of_unique:
  assumes "s \<in> fst ` set obj" and "parse_address s = Some a"
    and "\<forall>s' \<in> fst ` set obj. parse_address s' = Some a \<longrightarrow> s' = s"
  shows "key_of obj a = Some s"
proof (cases "key_of obj a")
  case None
  then show ?thesis using assms(1,2) by (auto simp: key_of_def find_None_iff)
next
  case (Some s')
  then show ?thesis using find_key[of _ obj s'] assms(3) by (auto simp: key_of_def)
qed

lemma post_changes_spec:
  assumes "post_changes i rest m = Inr m'" and "bt_invar m"
    and "distinct (map fst rest)"
    and "\<forall>s \<in> fst ` set rest. \<forall>s' \<in> fst ` set rest. parse_address s = parse_address s' \<and> parse_address s \<noteq> None \<longrightarrow> s = s'"
  shows "bt_invar m' \<and> (\<forall>a. map_of m' a = (case Option.bind (key_of rest a) (\<lambda>s. Option.bind (map_of rest s) posted_balance) of
      None \<Rightarrow> map_of m a | Some v \<Rightarrow> Some v))"
  using assms
proof (induction rest arbitrary: m)
  case Nil
  then show ?case by (simp add: key_of_def)
next
  case (Cons member rest)
  obtain addr_str acct where mem: "member = (addr_str, acct)" by (cases member)
  note prem = Cons.prems[unfolded mem]
  from prem(1) obtain addr where a: "parse_address addr_str = Some addr" by auto
  have dist: "distinct (map fst rest)" and fresh: "addr_str \<notin> fst ` set rest" using prem(3) by simp_all
  have sp: "\<forall>s \<in> fst ` set rest. \<forall>s' \<in> fst ` set rest. parse_address s = parse_address s' \<and> parse_address s \<noteq> None \<longrightarrow> s = s'"
    using prem(4) by (metis image_insert insertCI list.set(2))
  have nokey: "key_of rest addr = None"
    unfolding key_of_None using prem(4) fresh a by (metis fst_conv image_insert insertCI list.set(2) option.distinct(1))
  have other: "key_of ((addr_str, acct) # rest) x = (if x = addr then Some addr_str else key_of rest x)" for x
    using a by (auto simp: key_of_def)
  have lk: "Option.bind (key_of rest x) (\<lambda>s. Option.bind (map_of ((addr_str, acct) # rest) s) posted_balance) =
      Option.bind (key_of rest x) (\<lambda>s. Option.bind (map_of rest s) posted_balance)" for x
  proof (cases "key_of rest x")
    case (Some s)
    then have "s \<noteq> addr_str" using find_key[of _ rest s] fresh by (auto simp: key_of_def)
    then show ?thesis using Some by simp
  qed simp
  have look: "Option.bind (key_of (member # rest) x) (\<lambda>s. Option.bind (map_of (member # rest) s) posted_balance) =
      (if x = addr then posted_balance acct
       else Option.bind (key_of rest x) (\<lambda>s. Option.bind (map_of rest s) posted_balance))" for x
    unfolding mem other using lk[of x] by simp
  show ?case
  proof (cases "json_get acct ''balance''")
    case None
    then have "post_changes i rest m = Inr m'" using prem(1) a by simp
    note IH = Cons.IH[OF this prem(2) dist sp]
    have "posted_balance acct = None" using None by (simp add: posted_balance_def)
    then show ?thesis using IH nokey unfolding look by simp
  next
    case (Some b)
    then obtain str wei where w: "as_str b = Some str" "parse_hex_u128 str = Inr wei"
      "post_changes i rest (bt_insert addr wei m) = Inr m'"
      using prem(1) a by auto
    note IH = Cons.IH[OF w(3) bt_invar_insert[OF prem(2)] dist sp]
    have "posted_balance acct = Some wei" using Some w by (simp add: posted_balance_def)
    then show ?thesis using IH[unfolded map_of_bt_insert] nokey unfolding look by (auto split: option.split)
  qed
qed

lemma pre_destroyed_spec:
  assumes "pre_destroyed i post rest m = Inr m'" and "bt_invar m"
  shows "bt_invar m' \<and> (\<forall>a. map_of m' a =
    (if \<exists>s \<in> fst ` set rest. map_of post s = None \<and> parse_address s = Some a then Some 0 else map_of m a))"
  using assms
proof (induction i post rest m rule: pre_destroyed.induct)
  case (2 i post addr_str acct rest m)
  show ?case
  proof (cases "map_of post addr_str")
    case None
    then obtain addr where a: "parse_address addr_str = Some addr" "pre_destroyed i post rest (bt_insert addr 0 m) = Inr m'"
      using 2(3) by auto
    with 2(1) None 2(4) show ?thesis by (auto simp: bt_invar_insert map_of_bt_insert)
  next
    case (Some v)
    with 2 show ?thesis by auto
  qed
qed simp

lemma tx_changes_spec:
  assumes p: "post_changes i post m = Inr m1" and d: "pre_destroyed i post pre m1 = Inr m2" and m: "bt_invar m"
    and o: "one_spelling pre post"
  shows "bt_invar m2 \<and> (\<forall>a. map_of m2 a = (case tx_effect pre post a of None \<Rightarrow> map_of m a | Some v \<Rightarrow> Some v))"
proof -
  have dist: "distinct (map fst post)"
    and post1: "\<forall>s \<in> fst ` set post. \<forall>s' \<in> fst ` set post. parse_address s = parse_address s' \<and> parse_address s \<noteq> None \<longrightarrow> s = s'"
    using o unfolding one_spelling_def set_map by blast+
  note s1 = post_changes_spec[OF p m dist post1]
  note s2 = pre_destroyed_spec[OF d s1[THEN conjunct1]]
  have "map_of m2 a = (case tx_effect pre post a of None \<Rightarrow> map_of m a | Some v \<Rightarrow> Some v)" for a
  proof (cases "\<exists>s \<in> fst ` set pre. map_of post s = None \<and> parse_address s = Some a")
    case True
    then obtain s where s: "s \<in> fst ` set pre" "s \<notin> fst ` set post" "parse_address s = Some a"
      by (auto simp: map_of_eq_None_iff)
    have "parse_address s' \<noteq> Some a" if "s' \<in> fst ` set post" for s'
      using o[unfolded one_spelling_def set_map] s that by (metis UnCI option.distinct(1))
    then have "key_of post a = None" unfolding key_of_None by blast
    moreover have "key_of pre a \<noteq> None" unfolding key_of_None using s by blast
    ultimately show ?thesis using True s2 by (auto simp: tx_effect_def)
  next
    case False
    have "key_of pre a = None" if "key_of post a = None"
    proof (rule ccontr)
      assume "key_of pre a \<noteq> None"
      then obtain s where s: "s \<in> fst ` set pre" "parse_address s = Some a"
        unfolding key_of_None by blast
      then have "s \<in> fst ` set post" using False by (auto simp: map_of_eq_None_iff)
      then show False using that s unfolding key_of_None by blast
    qed
    then show ?thesis using False s1 s2 by (auto simp: tx_effect_def split: option.splits)
  qed
  then show ?thesis using s2 by blast
qed

lemma trace_changes_spec:
  assumes "trace_changes i txs m = Inr m'" and "bt_invar m"
    and "\<forall>tx \<in> set txs. case tx_pre_post tx of (pre, post) \<Rightarrow> one_spelling pre post"
  shows "bt_invar m' \<and> (\<forall>a. map_of m' a = (case block_effect txs a of None \<Rightarrow> map_of m a | Some v \<Rightarrow> Some v))"
  using assms
proof (induction i txs m rule: trace_changes.induct)
  case (2 i tx txs m)
  from 2(2) obtain pre post m1 m2 where o: "tx_objects i tx = Inr (pre, post)"
    and p: "post_changes i post m = Inr m1" "pre_destroyed i post pre m1 = Inr m2" and t: "trace_changes (Suc i) txs m2 = Inr m'"
    by auto
  have po: "tx_pre_post tx = (pre, post)" using tx_objects_index[OF o, of 0] by (simp add: tx_pre_post_def)
  with 2(4) have "one_spelling pre post" by simp
  note s = tx_changes_spec[OF p 2(3) this]
  from 2(1)[OF o refl p t] s 2(4) have
    "bt_invar m' \<and> (\<forall>a. map_of m' a = (case block_effect txs a of None \<Rightarrow> map_of m2 a | Some v \<Rightarrow> Some v))" by simp
  then show ?case using s po by (auto split: option.splits)
qed simp

text \<open>The account \<open>0xab...\<close> spelled in two cases in one transaction: the posted balance is
  overwritten by zero.\<close>

definition spelled :: "string \<Rightarrow> string" where
  "spelled s = ''0x'' @ concat (replicate 20 s)"

definition two_spellings :: json where
  "two_spellings = JArr [JObj [(''result'', JObj
     [(''post'', JObj [(spelled ''ab'', JObj [(''balance'', JStr ''0x5'')])]),
      (''pre'', JObj [(spelled ''AB'', JObj [(''balance'', JStr ''0x7'')])])])]]"

section \<open>Credits\<close>

definition credit_of :: "json \<Rightarrow> address \<times> balance \<Rightarrow> bool" where
  "credit_of w c \<longleftrightarrow>
     (\<exists>s gwei. Option.bind (Option.bind (json_get w ''address'') as_str) parse_address = Some (fst c) \<and>
        Option.bind (json_get w ''amount'') as_str = Some s \<and> parse_hex_u128 s = Inr gwei \<and>
        unat (snd c) = unat gwei * 1000000000)"

lemma one_credit_spec: "one_credit i w = Inr c \<Longrightarrow> credit_of w c"
  by (auto simp: one_credit_def credit_of_def wei_per_gwei_def dest!: checked_mul_u_Some)

lemma block_credits_spec: "block_credits i ws = Inr cs \<Longrightarrow> list_all2 credit_of ws cs"
  by (induction ws arbitrary: i cs) (auto dest: one_credit_spec)

section \<open>Only endpoints of the right chain\<close>

definition reported :: "feed_ext \<Rightarrow> u64 \<Rightarrow> string \<Rightarrow> bool" where
  "reported ext chain url \<longleftrightarrow>
     (\<exists>t s v. read_reply (fx_parse ext) ''eth_chainId'' (fx_net ext t url ''eth_chainId'' []) = Inr (JStr s) \<and>
        parse_hex_u128 s = Inr v \<and> u64_of_u128 v = Some chain)"

definition chain_checked :: "feed_ext \<Rightarrow> u64 \<Rightarrow> endpoint list \<Rightarrow> bool" where
  "chain_checked ext chain eps \<longleftrightarrow> (\<forall>ep \<in> set eps. ep_verified ep \<longrightarrow> reported ext chain (ep_url ep))"

lemma as_str_Some: "as_str j = Some s \<longleftrightarrow> j = JStr s"
  by (cases j) auto

lemma verify_chain_reported: "verify_chain ext url chain t = (Inr u, t') \<Longrightarrow> reported ext chain url"
  by (auto simp: verify_chain_def rpc_call_def reported_def as_str_Some split: if_splits)

lemma ensure_reported:
  assumes "ensure_chain_verified ext chain ep t = (r, ep', t')" and "ep_verified ep \<longrightarrow> reported ext chain (ep_url ep)"
  shows "ep_url ep' = ep_url ep \<and> (ep_verified ep' \<longrightarrow> reported ext chain (ep_url ep')) \<and> (is_ok r \<longrightarrow> ep_verified ep')"
  using assms verify_chain_reported[of ext "ep_url ep" chain t]
  by (auto simp: ensure_chain_verified_def split: if_splits prod.splits sum.splits)

lemma connect_all_checked:
  "connect_all ext chain i urls t = (Inr eps, t') \<Longrightarrow> chain_checked ext chain eps \<and> map ep_url eps = urls"
proof (induction urls arbitrary: i t eps t')
  case Nil
  then show ?case by (simp add: chain_checked_def)
next
  case (Cons url urls)
  obtain r t1 where v: "verify_chain ext url chain t = (r, t1)" by fastforce
  obtain verified eps' t2 where c: "connect_all ext chain (Suc i) urls t1 = (Inr eps', t2)"
    "eps = \<lparr> ep_url = url, ep_verified = verified \<rparr> # eps'" "verified \<longrightarrow> is_ok r"
  proof (cases r)
    case (Inl e)
    then show ?thesis using Cons.prems v that[of _ _ False]
      by (cases e) (auto simp: Let_def split: if_splits prod.splits)
  next
    case (Inr u)
    then show ?thesis using Cons.prems v that[of _ _ True] by (auto simp: Let_def split: prod.splits)
  qed
  have "verified \<longrightarrow> reported ext chain url"
    using c(3) v verify_chain_reported by (cases r) auto
  then show ?case using Cons.IH[OF c(1)] c(2) by (simp add: chain_checked_def)
qed

lemma try_endpoints_checked:
  assumes "try_endpoints ext chain on eps t fs = (r, eps', t')" and "chain_checked ext chain eps"
  shows "chain_checked ext chain eps' \<and> map ep_url eps' = map ep_url eps \<and>
    (\<forall>x. r = Inr x \<longrightarrow> (\<exists>ep \<in> set eps. reported ext chain (ep_url ep) \<and> (\<exists>t0 t1. on (ep_url ep) t0 = (Inr x, t1))))"
  using assms
proof (induction eps arbitrary: t fs r eps' t')
  case Nil
  then show ?case by auto
next
  case (Cons ep eps)
  obtain rv ep1 t1 where en: "ensure_chain_verified ext chain ep t = (rv, ep1, t1)" by (metis prod.exhaust)
  have e: "ep_url ep1 = ep_url ep" "ep_verified ep1 \<longrightarrow> reported ext chain (ep_url ep)" "is_ok rv \<longrightarrow> ep_verified ep1"
    using ensure_reported[OF en] Cons.prems(2) by (auto simp: chain_checked_def)
  have rest: "chain_checked ext chain eps" using Cons.prems(2) by (simp add: chain_checked_def)
  show ?case
  proof (cases rv)
    case (Inl err)
    then obtain eps1 where "try_endpoints ext chain on eps t1 (fs @ [Unverified (ep_url ep1) err]) = (r, eps1, t')" "eps' = ep1 # eps1"
      using Cons.prems(1) en by (auto split: prod.splits)
    with Cons.IH[OF this(1) rest] e show ?thesis by (auto simp: chain_checked_def)
  next
    case (Inr u)
    obtain ro t2 where o: "on (ep_url ep1) t1 = (ro, t2)" by fastforce
    show ?thesis
    proof (cases ro)
      case (Inl err)
      then obtain eps1 where "try_endpoints ext chain on eps t2 (fs @ [Declined (ep_url ep1) err]) = (r, eps1, t')" "eps' = ep1 # eps1"
        using Cons.prems(1) en Inr o by (auto split: prod.splits)
      with Cons.IH[OF this(1) rest] e show ?thesis by (auto simp: chain_checked_def)
    next
      case (Inr x)
      then have "r = Inr x" "eps' = ep1 # eps" using Cons.prems(1) en \<open>rv = Inr u\<close> o by simp_all
      then show ?thesis using e rest o Inr \<open>rv = Inr u\<close> by (auto simp: chain_checked_def)
    qed
  qed
qed

text \<open>A feed in use: connected once, then asked for heads and blocks.\<close>

inductive feed_run :: "feed_ext \<Rightarrow> string list \<Rightarrow> u64 \<Rightarrow> rpc_feed \<Rightarrow> bool"
  for ext :: feed_ext and urls :: "string list" and chain :: u64 where
  feed_connected: "new_multi ext urls chain t = (Inr feed, t') \<Longrightarrow> feed_run ext urls chain feed"
| feed_polled: "feed_run ext urls chain feed \<Longrightarrow> feed_finalized ext feed t = (r, feed', t') \<Longrightarrow> feed_run ext urls chain feed'"
| feed_asked: "feed_run ext urls chain feed \<Longrightarrow> feed_block_update ext feed n t = (r, feed', t') \<Longrightarrow> feed_run ext urls chain feed'"

lemma on_feed_checked:
  assumes "on_feed ext label on feed t = (r, feed', t')" and "chain_checked ext (fd_chain_id feed) (fd_endpoints feed)"
  shows "fd_chain_id feed' = fd_chain_id feed \<and> chain_checked ext (fd_chain_id feed) (fd_endpoints feed') \<and>
    map ep_url (fd_endpoints feed') = map ep_url (fd_endpoints feed) \<and>
    (\<forall>x. r = Inr x \<longrightarrow> (\<exists>ep \<in> set (fd_endpoints feed). reported ext (fd_chain_id feed) (ep_url ep) \<and>
       (\<exists>t0 t1. on (ep_url ep) t0 = (Inr x, t1))))"
proof -
  obtain re eps where "try_endpoints ext (fd_chain_id feed) on (fd_endpoints feed) t [] = (re, eps, t')"
    "r = map_err (\<lambda>fs. FeedRpc label (AllFailed label fs)) re" "feed' = feed\<lparr> fd_endpoints := eps \<rparr>"
    using assms(1) by (auto simp: on_feed_def split: prod.splits)
  with try_endpoints_checked[OF this(1) assms(2)] show ?thesis by simp
qed

lemma feed_run_checked:
  "feed_run ext urls chain feed \<Longrightarrow> fd_chain_id feed = chain \<and> chain_checked ext chain (fd_endpoints feed) \<and>
     map ep_url (fd_endpoints feed) = urls"
proof (induction rule: feed_run.induct)
  case (feed_connected t feed t')
  then show ?case
    using connect_all_checked[of ext chain 0 urls t] by (auto simp: new_multi_def split: if_splits prod.splits)
next
  case (feed_polled feed t r feed' t')
  from on_feed_checked[OF feed_polled.hyps(2)[unfolded feed_finalized_def]] feed_polled.IH show ?case by simp
next
  case (feed_asked feed n t r feed' t')
  from on_feed_checked[OF feed_asked.hyps(2)[unfolded feed_block_update_def]] feed_asked.IH show ?case by simp
qed

text \<open>One endpoint that always answers is enough.\<close>

lemma good_endpoint_suffices:
  assumes "ep \<in> set eps" and "\<forall>t. \<exists>ep' t'. ensure_chain_verified ext chain ep t = (Inr (), ep', t') \<and> ep_url ep' = ep_url ep"
    and "\<forall>t. \<exists>x t'. on (ep_url ep) t = (Inr x, t')"
  shows "\<exists>x eps' t'. try_endpoints ext chain on eps t fs = (Inr x, eps', t')"
  using assms(1)
proof (induction eps arbitrary: t fs)
  case (Cons e eps)
  obtain rv e1 t1 where en: "ensure_chain_verified ext chain e t = (rv, e1, t1)" by (metis prod.exhaust)
  obtain ro t2 where o: "on (ep_url e1) t1 = (ro, t2)" by fastforce
  show ?case
  proof (cases "e = ep")
    case True
    obtain e' tt where "ensure_chain_verified ext chain ep t = (Inr (), e', tt)" "ep_url e' = ep_url ep" using assms(2) by blast
    moreover obtain x t3 where "on (ep_url ep) tt = (Inr x, t3)" using assms(3) by blast
    ultimately show ?thesis using True by simp
  next
    case False
    then have "ep \<in> set eps" using Cons.prems by simp
    note IH = Cons.IH[OF this]
    show ?thesis
    proof (cases rv)
      case (Inl err)
      from IH[of t1 "fs @ [Unverified (ep_url e1) err]"] obtain x eps' t' where
        "try_endpoints ext chain on eps t1 (fs @ [Unverified (ep_url e1) err]) = (Inr x, eps', t')" by blast
      then show ?thesis using en Inl by simp
    next
      case (Inr u)
      show ?thesis
      proof (cases ro)
        case (Inl err)
        from IH[of t2 "fs @ [Declined (ep_url e1) err]"] obtain x eps' t' where
          "try_endpoints ext chain on eps t2 (fs @ [Declined (ep_url e1) err]) = (Inr x, eps', t')" by blast
        then show ?thesis using en \<open>rv = Inr u\<close> o Inl by simp
      next
        case (Inr x)
        then show ?thesis using en \<open>rv = Inr u\<close> o by simp
      qed
    qed
  qed
qed simp


lemma block_update_on_Inr:
  assumes "block_update_on ext n url t0 = (Inr fb, t1)"
  shows "\<exists>block trace. read_reply (fx_parse ext) ''eth_getBlockByNumber''
        (fx_net ext t0 url ''eth_getBlockByNumber'' [JStr (hex_block n), JBool False]) = Inr block \<and> block \<noteq> JNull \<and>
      read_reply (fx_parse ext) ''debug_traceBlockByNumber''
        (fx_net ext (Suc t0) url ''debug_traceBlockByNumber'' [JStr (hex_block n), trace_options]) = Inr trace \<and>
      credits_from_block block = Inr (fb_credited fb) \<and> changes_from_trace trace = Inr (fb_changed fb) \<and>
      fb_update fb = \<lparr> update_block = n, changes = map (\<lambda>(a, b). (fx_keccak ext a, b)) (fb_changed fb),
        credits = map (\<lambda>(a, b). (fx_keccak ext a, b)) (fb_credited fb) \<rparr>"
  using assms by (auto simp: block_update_on_def rpc_call_def split: sum.splits if_splits)

lemma credits_from_block_spec:
  assumes "credits_from_block block = Inr cs"
  shows "list_all2 credit_of (case Option.bind (json_get block ''withdrawals'') as_array of Some ws \<Rightarrow> ws | None \<Rightarrow> []) cs"
  using assms block_credits_spec by (fastforce simp: credits_from_block_def split: option.splits)

section \<open>Properties\<close>

definition two_transactions :: "json list" where
  "two_transactions =
     [JObj [(''result'', JObj
        [(''post'', JObj [(spelled ''ab'', JObj [(''balance'', JStr ''0x5'')])]), (''pre'', JObj [(spelled ''cd'', JObj [])])])],
      JObj [(''result'', JObj
        [(''post'', JObj [(spelled ''cd'', JObj [(''balance'', JStr ''0x7'')])]), (''pre'', JObj [])])]]"

lemma hex_pairs_replicate:
  "hex_value c = Some x \<Longrightarrow> hex_value d = Some y \<Longrightarrow>
   hex_pairs (concat (replicate n [c, d])) = Some (replicate n (of_nat (16 * x + y)))"
proof (induction n)
  case (Suc n)
  have "x < 16" "y < 16" using Suc.prems by (auto simp: hex_value_def Let_def split: if_splits)
  moreover have "c \<noteq> CHR ''+''" using Suc.prems by (auto simp: hex_value_def)
  ultimately show ?case using Suc by (simp add: from_hex_def)
qed simp

lemma parse_spelled:
  assumes "hex_value c = Some x" "hex_value d = Some y"
  shows "parse_address (spelled [c, d]) = Some (replicate 20 (of_nat (16 * x + y)))"
proof -
  have "length (concat (replicate n [c, d])) = 2 * n" "list_all (\<lambda>c. hex_value c \<noteq> None) (concat (replicate n [c, d]))" for n
    using assms by (induction n) simp_all
  then show ?thesis
    using hex_pairs_replicate[OF assms] by (simp add: parse_address_def spelled_def strip_0x_def)
qed

lemma spelled_address [simp]:
  "parse_address (spelled ''ab'') = Some (replicate 20 0xab)"
  "parse_address (spelled ''AB'') = Some (replicate 20 0xab)"
  "parse_address (spelled ''cd'') = Some (replicate 20 0xcd)"
  by (simp_all add: parse_spelled[where x = 10 and y = 11] parse_spelled[where x = 12 and y = 13] hex_value_def)

lemma quantities [simp]:
  "parse_hex_u128 ''0x1'' = Inr 1" "parse_hex_u128 ''0x5'' = Inr 5" "parse_hex_u128 ''0x7'' = Inr 7"
  by (simp_all add: parse_hex_u128_def strip_0x_def from_hex_def hex_value_def)

lemma spelled_distinct [simp]: "spelled ''ab'' \<noteq> spelled ''cd''" "spelled ''cd'' \<noteq> spelled ''ab''"
  "spelled ''ab'' \<noteq> spelled ''AB''" "spelled ''AB'' \<noteq> spelled ''ab''"
  by (simp_all add: spelled_def numeral_eq_Suc)

lemma replicate_20_distinct [simp]: "replicate 20 (0xab :: u8) \<noteq> replicate 20 0xcd" "replicate 20 (0xcd :: u8) \<noteq> replicate 20 0xab"
  by (simp_all add: replicate_eq_replicate)

lemma replicate_20_Cons: "replicate 20 x = x # replicate 19 x"
  by (simp add: numeral_eq_Suc)

lemma replicate_20_less [simp]: "replicate 20 (0xab :: u8) < replicate 20 0xcd" "\<not> replicate 20 (0xcd :: u8) < replicate 20 0xab"
  by (simp_all add: replicate_20_Cons)

lemma one_spelling_two:
  "one_spelling [(spelled ''cd'', JObj [])] [(spelled ''ab'', JObj [(''balance'', JStr ''0x5'')])]"
  "one_spelling [] [(spelled ''cd'', JObj [(''balance'', JStr ''0x7'')])]"
  by (auto simp: one_spelling_def)

lemma two_transactions_changes:
  "changes_from_trace (JArr two_transactions) = Inr [(replicate 20 0xab, 5), (replicate 20 0xcd, 7)]"
  by (simp add: changes_from_trace_def two_transactions_def tx_objects_def)

lemma two_spellings_zeroed: "changes_from_trace two_spellings = Inr [(replicate 20 0xab, 0)]"
  by (simp add: changes_from_trace_def two_spellings_def tx_objects_def)

text \<open>C35. The changes of a block are the last write of each account.  When every account has one
  spelling per transaction, \<open>changes_from_trace\<close> returns each account at most once, in ascending
  order, and exactly with the balance of the last transaction that touches it: the balance its
  \<open>post\<close> object carries, or zero where the account is in \<open>pre\<close> alone.\<close>

theorem changes_are_last_writes:
  assumes "changes_from_trace trace = Inr cs" and "as_array trace = Some txs"
    and "\<forall>tx \<in> set txs. case tx_pre_post tx of (pre, post) \<Rightarrow> one_spelling pre post"
  shows "sorted (map fst cs) \<and> distinct (map fst cs) \<and> (\<forall>a. map_of cs a = block_effect txs a)"
proof -
  have "trace_changes 0 txs [] = Inr cs" using assms(1,2) by (simp add: changes_from_trace_def)
  from trace_changes_spec[OF this bt_invar_Nil assms(3)] show ?thesis
    by (auto simp: bt_invar_def strict_sorted_iff split: option.splits)
qed

theorem changes_are_last_writes_witness:
  "map_of [(replicate 20 (0xab :: u8), 5 :: balance), (replicate 20 0xcd, 7)] (replicate 20 0xcd) =
     block_effect two_transactions (replicate 20 0xcd)"
proof -
  have "tx_pre_post (two_transactions ! 0) = ([(spelled ''cd'', JObj [])], [(spelled ''ab'', JObj [(''balance'', JStr ''0x5'')])])"
    "tx_pre_post (two_transactions ! 1) = ([], [(spelled ''cd'', JObj [(''balance'', JStr ''0x7'')])])"
    "two_transactions = [two_transactions ! 0, two_transactions ! 1]"
    by (simp_all add: two_transactions_def tx_pre_post_def tx_objects_def)
  then have "\<forall>tx \<in> set two_transactions. case tx_pre_post tx of (pre, post) \<Rightarrow> one_spelling pre post"
    by (metis (no_types, lifting) one_spelling_two case_prodI set_ConsD empty_iff list.set(1))
  from changes_are_last_writes[OF two_transactions_changes _ this] show ?thesis by (metis as_array.simps(1))
qed

definition sample_feed :: feed_ext where
  "sample_feed = \<lparr>
     fx_parse = (\<lambda>bs.
       if bs = [0] then Some (JObj [(''result'', JStr ''0x1'')])
       else if bs = [1] then Some (JObj [(''result'', JObj [(''withdrawals'',
         JArr [JObj [(''address'', JStr (spelled ''cd'')), (''amount'', JStr ''0x5'')]])])])
       else Some (JObj [(''result'', JArr two_transactions)])),
     fx_net = (\<lambda>t url method params.
       if url = ''a'' \<and> 0 < t then NoReply
       else HttpReply 200
         (if method = ''eth_chainId'' then [0] else if method = ''eth_getBlockByNumber'' then [1] else [2])),
     fx_keccak = rev \<rparr>"

definition sample_fetched :: fetched_block where
  "sample_fetched = (case feed_block_update sample_feed
      \<lparr> fd_endpoints = [\<lparr> ep_url = ''a'', ep_verified = True \<rparr>, \<lparr> ep_url = ''b'', ep_verified = True \<rparr>], fd_chain_id = 1 \<rparr> 9 5
     of (Inr fb, _) \<Rightarrow> fb)"

text \<open>C36. A block is only ever taken from an endpoint of the deployment's chain, and is that
  endpoint's block.  Whatever the network did since \<open>new_multi\<close>, whichever endpoints were skipped
  or declined, a block that \<open>block_update\<close> returns was answered by one configured endpoint that has
  reported the expected chain id; the block, not null, and its trace come from that same endpoint;
  its changes are those of the trace, its credits are the block's withdrawals, one for one and in
  order, each with its amount in wei exactly, and its keys are the Keccak hashes of the addresses.\<close>

theorem fetched_block_is_the_chains:
  assumes "feed_run ext urls chain feed" and "feed_block_update ext feed n t = (Inr fb, feed', t')"
  shows "\<exists>url \<in> set urls. reported ext chain url \<and>
    (\<exists>t0 block trace.
       read_reply (fx_parse ext) ''eth_getBlockByNumber''
         (fx_net ext t0 url ''eth_getBlockByNumber'' [JStr (hex_block n), JBool False]) = Inr block \<and> block \<noteq> JNull \<and>
       read_reply (fx_parse ext) ''debug_traceBlockByNumber''
         (fx_net ext (Suc t0) url ''debug_traceBlockByNumber'' [JStr (hex_block n), trace_options]) = Inr trace \<and>
       changes_from_trace trace = Inr (fb_changed fb) \<and>
       list_all2 credit_of
         (case Option.bind (json_get block ''withdrawals'') as_array of Some ws \<Rightarrow> ws | None \<Rightarrow> []) (fb_credited fb)) \<and>
    fb_update fb = \<lparr> update_block = n, changes = map (\<lambda>(a, b). (fx_keccak ext a, b)) (fb_changed fb),
      credits = map (\<lambda>(a, b). (fx_keccak ext a, b)) (fb_credited fb) \<rparr>"
proof -
  note run = feed_run_checked[OF assms(1)]
  from on_feed_checked[OF assms(2)[unfolded feed_block_update_def]] run
  obtain ep t0 t1 where ep: "ep \<in> set (fd_endpoints feed)" "reported ext chain (ep_url ep)"
    and b: "block_update_on ext n (ep_url ep) t0 = (Inr fb, t1)" by auto
  have "ep_url ep \<in> set urls" using ep(1) run by (metis image_eqI set_map)
  with ep(2) block_update_on_Inr[OF b] credits_from_block_spec show ?thesis by metis
qed

lemma sample_connected:
  "new_multi sample_feed [''a'', ''b''] 1 0 =
     (Inr \<lparr> fd_endpoints = [\<lparr> ep_url = ''a'', ep_verified = True \<rparr>, \<lparr> ep_url = ''b'', ep_verified = True \<rparr>], fd_chain_id = 1 \<rparr>, Suc (Suc 0))"
  by (simp add: new_multi_def verify_chain_def rpc_call_def read_reply_def sample_feed_def u64_of_u128_def)

lemma sample_fetched:
  "\<exists>feed' t'. feed_block_update sample_feed
      \<lparr> fd_endpoints = [\<lparr> ep_url = ''a'', ep_verified = True \<rparr>, \<lparr> ep_url = ''b'', ep_verified = True \<rparr>], fd_chain_id = 1 \<rparr> 9 5
     = (Inr sample_fetched, feed', t')"
  by (simp add: sample_fetched_def feed_block_update_def on_feed_def ensure_chain_verified_def block_update_on_def rpc_call_def
      read_reply_def sample_feed_def credits_from_block_def one_credit_def checked_mul_u_def wei_per_gwei_def two_transactions_changes)

theorem fetched_block_is_the_chains_witness:
  "fb_update sample_fetched = \<lparr> update_block = 9,
     changes = map (\<lambda>(a, b). (rev a, b)) (fb_changed sample_fetched),
     credits = map (\<lambda>(a, b). (rev a, b)) (fb_credited sample_fetched) \<rparr> \<and>
   (\<exists>url. url \<in> {''a'', ''b''} \<and> reported sample_feed 1 url)"
proof -
  obtain feed' t' where f: "feed_block_update sample_feed
      \<lparr> fd_endpoints = [\<lparr> ep_url = ''a'', ep_verified = True \<rparr>, \<lparr> ep_url = ''b'', ep_verified = True \<rparr>], fd_chain_id = 1 \<rparr> 9 5
     = (Inr sample_fetched, feed', t')" using sample_fetched by blast
  have "fx_keccak sample_feed = rev" by (simp add: sample_feed_def)
  with fetched_block_is_the_chains[OF feed_connected[OF sample_connected] f] show ?thesis by auto
qed

end
