(* ===== verification/Hard_Refresh.thy ===== *)
theory Hard_Refresh
  imports Text_Lines Feed_Rpc Mock_Feed Server "HOL-Library.Char_ord"
begin

text \<open>
  Model of \<open>crates/risepir-rpc/src/hard_refresh.rs\<close>: the address file, the quorum over the
  providers with its retries, the decision, the queue of corrections, and the background run;
  with the three steps of the follow loop that take corrections out of the queue.

  A run starts at the head \<open>H\<close>; its checks complete in any order, and between two completions
  the follow loop may change the store and drain the queue, so the store is a parameter of each
  step (\<open>read\<close>, the verified read of a key at that moment).  \<open>refresh_run\<close> is every such
  interleaving.

  The lemmas: the three invariants the module documents, and what the third does not cover: the
  providers are asked at \<open>H\<close>, the baseline is read when the check completes.
\<close>

section \<open>Constants and backoff\<close>

definition max_corrections_per_block :: nat where "max_corrections_per_block = 2000"
definition concurrent_address_checks :: nat where "concurrent_address_checks = 8"
definition max_fetch_attempts :: nat where "max_fetch_attempts = 4"
definition retry_base_delay :: nat where "retry_base_delay = 500"       \<comment> \<open>milliseconds\<close>

text \<open>In milliseconds.  \<open>checked_shl\<close> is \<open>None\<close> from 32 on; the products fit a \<open>Duration\<close>.\<close>

definition backoff_delay :: "u32 \<Rightarrow> address \<Rightarrow> nat" where
  "backoff_delay attempt addr =
     (let shift = unat (saturating_sub_u attempt 1);
          factor = (if shift < 32 then 2 ^ shift else 2 ^ 32 - 1);
          z = mix64 (of_le (take 8 addr) + ucast attempt * 0x9E3779B97F4A7C15)
      in retry_base_delay * factor + unat z mod max retry_base_delay 1)"

section \<open>The address file\<close>

datatype address_file_error = AddressFileIo string | AddressMalformed nat string

definition is_lower_hex :: "char \<Rightarrow> bool" where
  "is_lower_hex c \<longleftrightarrow> byte_in 48 57 c \<or> byte_in 97 102 c"

definition parse_lowercase_address :: "string \<Rightarrow> address option" where
  "parse_lowercase_address s =
     Option.bind (strip_prefix ''0x'' s) (\<lambda>hex.
       if length hex \<noteq> 40 \<or> \<not> list_all is_lower_hex hex then None else hex_pairs hex)"

fun parse_address_lines :: "nat \<Rightarrow> string list \<Rightarrow> address_file_error + address list" where
  "parse_address_lines i [] = Inr []"
| "parse_address_lines i (raw_line # ls) =
     (let line = str_trim raw_line in
      if line = [] \<or> hd line = CHR ''#'' then parse_address_lines (Suc i) ls
      else and_then (ok_or (parse_lowercase_address line) (AddressMalformed (Suc i) line)) (\<lambda>addr.
           and_then (parse_address_lines (Suc i) ls) (\<lambda>rest. Inr (addr # rest))))"

definition parse_addresses :: "string \<Rightarrow> address_file_error + address list" where
  "parse_addresses text = parse_address_lines 0 (str_lines text)"

text \<open>\<open>read_to_string\<close> is the parameter: an error, or the text.\<close>

definition parse_address_file :: "string + string \<Rightarrow> address_file_error + address list" where
  "parse_address_file contents = and_then (map_err AddressFileIo contents) parse_addresses"

section \<open>Quorum and decision\<close>

datatype quorum_outcome = Agreed balance | Disagreed | Errored

fun all_answers :: "('e + balance) list \<Rightarrow> balance list" where
  "all_answers [] = []"
| "all_answers (r # rs) = (case r of Inr v \<Rightarrow> v # all_answers rs | Inl _ \<Rightarrow> all_answers rs)"

definition quorum :: "('e + balance) list \<Rightarrow> quorum_outcome" where
  "quorum results =
     (if results = [] \<or> list_ex (\<lambda>r. \<not> is_ok r) results then Errored
      else case all_answers results of
        [] \<Rightarrow> Errored
      | v # vs \<Rightarrow> if list_all (\<lambda>w. w = v) vs then Agreed v else Disagreed)"

definition validate_refresh_urls :: "string list \<Rightarrow> nat + unit" where
  "validate_refresh_urls urls =
     (let distinct_urls = remdups_adj (sort urls) in
      if length distinct_urls < 2 then Inl (length distinct_urls) else Inr ())"

datatype check_outcome = Skipped | SkippedDisagreement | AlreadyCorrect | Correct balance balance

fun decide_correction :: "quorum_outcome \<Rightarrow> balance \<Rightarrow> check_outcome" where
  "decide_correction Errored current = Skipped"
| "decide_correction Disagreed current = SkippedDisagreement"
| "decide_correction (Agreed v) current = (if v = current then AlreadyCorrect else Correct v current)"

section \<open>The queue\<close>

record correction =
  co_key :: address_hash
  co_balance :: balance
  co_baseline :: balance

type_synonym correction_queue = "correction list"

definition push_one :: "correction \<Rightarrow> correction_queue \<Rightarrow> correction_queue" where
  "push_one c q = q @ [c]"

definition push_many :: "correction list \<Rightarrow> correction_queue \<Rightarrow> correction_queue" where
  "push_many cs q = q @ cs"

definition drain_up_to :: "nat \<Rightarrow> correction_queue \<Rightarrow> correction list \<times> correction_queue" where
  "drain_up_to mx q = (let n = min mx (length q) in (take n q, drop n q))"

definition prepend_corrections :: "correction list \<Rightarrow> (address_hash \<times> balance) list \<Rightarrow> (address_hash \<times> balance) list" where
  "prepend_corrections cs chs = map (\<lambda>c. (co_key c, co_balance c)) cs @ chs"

type_synonym verified_read = "address_hash \<Rightarrow> server_error + balance option"

definition read_or_zero :: "verified_read \<Rightarrow> address_hash \<Rightarrow> server_error + balance" where
  "read_or_zero read key = and_then (read key) (\<lambda>v. Inr (case v of Some b \<Rightarrow> b | None \<Rightarrow> 0))"

fun filter_stale_corrections :: "verified_read \<Rightarrow> correction list \<Rightarrow> server_error + correction list \<times> nat" where
  "filter_stale_corrections read [] = Inr ([], 0)"
| "filter_stale_corrections read (c # cs) =
     and_then (read_or_zero read (co_key c)) (\<lambda>current.
     and_then (filter_stale_corrections read cs) (\<lambda>(still_valid, stale).
       if current = co_baseline c then Inr (c # still_valid, stale) else Inr (still_valid, Suc stale)))"

section \<open>The background run\<close>

text \<open>One provider, up to \<open>n\<close> more attempts; the sleeps are returned.\<close>

fun fetch_attempts :: "feed_ext \<Rightarrow> string \<Rightarrow> address \<Rightarrow> u64 \<Rightarrow> nat \<Rightarrow> nat \<Rightarrow> nat \<Rightarrow> (unit + balance) \<times> nat list \<times> nat" where
  "fetch_attempts ext url addr height attempt 0 t = (Inl (), [], t)"
| "fetch_attempts ext url addr height attempt (Suc n) t =
     (case balance_at ext url addr height t of
        (Inr b, t) \<Rightarrow> (Inr b, [], t)
      | (Inl err, t) \<Rightarrow>
          if is_depth_refusal err \<or> attempt = max_fetch_attempts then (Inl (), [], t)
          else (case fetch_attempts ext url addr height (Suc attempt) n t of
            (r, sleeps, t) \<Rightarrow> (r, backoff_delay (of_nat attempt) addr # sleeps, t)))"

definition fetch_with_retry :: "feed_ext \<Rightarrow> string \<Rightarrow> address \<Rightarrow> u64 \<Rightarrow> nat \<Rightarrow> (unit + balance) \<times> nat list \<times> nat" where
  "fetch_with_retry ext url addr height t = fetch_attempts ext url addr height 1 max_fetch_attempts t"

fun fetch_all :: "feed_ext \<Rightarrow> string list \<Rightarrow> address \<Rightarrow> u64 \<Rightarrow> nat \<Rightarrow> (unit + balance) list \<times> nat" where
  "fetch_all ext [] addr height t = ([], t)"
| "fetch_all ext (url # urls) addr height t =
     (case fetch_with_retry ext url addr height t of
        (r, _, t) \<Rightarrow> (case fetch_all ext urls addr height t of (rs, t) \<Rightarrow> (r # rs, t)))"

text \<open>The task \<open>spawn_check\<close> starts.\<close>

definition spawn_check :: "feed_ext \<Rightarrow> string list \<Rightarrow> address \<Rightarrow> u64 \<Rightarrow> nat \<Rightarrow> quorum_outcome" where
  "spawn_check ext urls addr height t = quorum (fst (fetch_all ext urls addr height t))"

record refresh_state =
  rf_remaining :: "address list"
  rf_in_flight :: "address list"
  rf_checked :: u64
  rf_agreed :: u64
  rf_skipped :: u64
  rf_already_correct :: u64
  rf_corrected :: u64
  rf_total_wei :: u128
  rf_stopped :: bool

definition refresh_start :: "address list \<Rightarrow> refresh_state" where
  "refresh_start addresses = \<lparr> rf_remaining = drop concurrent_address_checks addresses,
     rf_in_flight = take concurrent_address_checks addresses, rf_checked = 0, rf_agreed = 0, rf_skipped = 0,
     rf_already_correct = 0, rf_corrected = 0, rf_total_wei = 0, rf_stopped = False \<rparr>"

text \<open>The body of the loop for the \<open>i\<close>-th check in flight completing with \<open>q\<close>.\<close>

definition refresh_complete :: "(bytes \<Rightarrow> bytes) \<Rightarrow> verified_read \<Rightarrow> nat \<Rightarrow> quorum_outcome \<Rightarrow> refresh_state \<Rightarrow> correction_queue
    \<Rightarrow> refresh_state \<times> correction_queue" where
  "refresh_complete keccak read i q st queue =
     (let addr = rf_in_flight st ! i;
          others = take i (rf_in_flight st) @ drop (Suc i) (rf_in_flight st);
          st = st\<lparr> rf_checked := rf_checked st + 1, rf_in_flight := others @ take 1 (rf_remaining st),
                   rf_remaining := drop 1 (rf_remaining st) \<rparr>;
          st = (case q of Agreed _ \<Rightarrow> st\<lparr> rf_agreed := rf_agreed st + 1 \<rparr> | _ \<Rightarrow> st);
          key = keccak addr
      in case read_or_zero read key of
           Inl _ \<Rightarrow> (st\<lparr> rf_stopped := True, rf_in_flight := [] \<rparr>, queue)
         | Inr current \<Rightarrow>
             (case decide_correction q current of
                Skipped \<Rightarrow> (st\<lparr> rf_skipped := rf_skipped st + 1 \<rparr>, queue)
              | SkippedDisagreement \<Rightarrow> (st\<lparr> rf_skipped := rf_skipped st + 1 \<rparr>, queue)
              | AlreadyCorrect \<Rightarrow> (st\<lparr> rf_already_correct := rf_already_correct st + 1 \<rparr>, queue)
              | Correct new_balance old_balance \<Rightarrow>
                  (st\<lparr> rf_corrected := rf_corrected st + 1,
                       rf_total_wei := saturating_add_u (rf_total_wei st) (abs_diff_u old_balance new_balance) \<rparr>,
                   push_one \<lparr> co_key = key, co_balance = new_balance, co_baseline = old_balance \<rparr> queue)))"

text \<open>What the follow loop does with the queue for one block.\<close>

definition inject_corrections :: "verified_read \<Rightarrow> correction_queue \<Rightarrow> (address_hash \<times> balance) list
    \<Rightarrow> (server_error + (address_hash \<times> balance) list) \<times> correction_queue" where
  "inject_corrections read queue chs =
     (case drain_up_to max_corrections_per_block queue of
        (drained, queue) \<Rightarrow>
          if drained = [] then (Inr chs, queue)
          else (and_then (filter_stale_corrections read drained) (\<lambda>(still_valid, _).
                 Inr (if still_valid = [] then chs else prepend_corrections still_valid chs)), queue))"


section \<open>Every interleaving\<close>

text \<open>\<open>pushed\<close> are the corrections queued so far, \<open>drained\<close> what each block took out,
  \<open>checked\<close> the addresses whose check has completed.  The verified read of each step is that of
  the store at that moment.\<close>

inductive refresh_run :: "feed_ext \<Rightarrow> string list \<Rightarrow> (bytes \<Rightarrow> bytes) \<Rightarrow> address list \<Rightarrow> u64 \<Rightarrow> refresh_state
    \<Rightarrow> correction_queue \<Rightarrow> correction list \<Rightarrow> correction list list \<Rightarrow> address list \<Rightarrow> bool"
  for ext :: feed_ext and urls :: "string list" and keccak :: "bytes \<Rightarrow> bytes" and addresses :: "address list" and height :: u64
  where
  refresh_started: "refresh_run ext urls keccak addresses height (refresh_start addresses) [] [] [] []"
| refresh_completed: "refresh_run ext urls keccak addresses height st queue pushed drained checked \<Longrightarrow>
     i < length (rf_in_flight st) \<Longrightarrow>
     refresh_complete keccak read i (spawn_check ext urls (rf_in_flight st ! i) height t) st queue = (st', queue @ new) \<Longrightarrow>
     refresh_run ext urls keccak addresses height st' (queue @ new) (pushed @ new) drained (checked @ [rf_in_flight st ! i])"
| refresh_drained: "refresh_run ext urls keccak addresses height st queue pushed drained checked \<Longrightarrow>
     drain_up_to max_corrections_per_block queue = (out, queue') \<Longrightarrow>
     refresh_run ext urls keccak addresses height st queue' pushed (drained @ [out]) checked"

text \<open>The provider replied \<open>v\<close> for the account at the height.\<close>

definition answered :: "feed_ext \<Rightarrow> string \<Rightarrow> address \<Rightarrow> u64 \<Rightarrow> balance \<Rightarrow> bool" where
  "answered ext url addr height v \<longleftrightarrow> (\<exists>t t'. balance_at ext url addr height t = (Inr v, t'))"

definition unanimous :: "feed_ext \<Rightarrow> string list \<Rightarrow> address \<Rightarrow> u64 \<Rightarrow> balance \<Rightarrow> bool" where
  "unanimous ext urls addr height v \<longleftrightarrow> urls \<noteq> [] \<and> (\<forall>url \<in> set urls. answered ext url addr height v)"

lemma all_answers_ok: "list_all is_ok rs \<Longrightarrow> rs = map Inr (all_answers rs)"
  by (induction rs) (auto simp: is_ok_iff)

lemma quorum_Agreed: "quorum rs = Agreed v \<longleftrightarrow> rs \<noteq> [] \<and> (\<forall>r \<in> set rs. r = Inr v)"
proof
  assume q: "quorum rs = Agreed v"
  then have ok: "list_all is_ok rs" "rs \<noteq> []"
    by (auto simp: quorum_def list_ex_iff list_all_iff split: if_splits)
  from q have "\<forall>w \<in> set (all_answers rs). w = v"
    by (auto simp: quorum_def list_all_iff split: if_splits list.splits)
  then show "rs \<noteq> [] \<and> (\<forall>r \<in> set rs. r = Inr v)"
    using ok(2) all_answers_ok[OF ok(1)] by (metis imageE list.set_map)
next
  assume a: "rs \<noteq> [] \<and> (\<forall>r \<in> set rs. r = Inr v)"
  then have "rs = replicate (length rs) (Inr v)" by (metis replicate_length_same)
  then obtain n where rs: "rs = replicate (Suc n) (Inr v)" using a by (metis gr0_implies_Suc length_greater_0_conv)
  have "all_answers (replicate n (Inr v :: 'a + balance)) = replicate n v" for n by (induction n) simp_all
  then show "quorum rs = Agreed v" unfolding rs by (auto simp: quorum_def list_ex_iff list_all_iff)
qed

lemma fetch_attempts_answered:
  "fetch_attempts ext url addr height attempt n t = (Inr v, sleeps, t') \<Longrightarrow> answered ext url addr height v"
  by (induction n arbitrary: attempt t sleeps)
    (auto simp: answered_def split: prod.splits sum.splits if_splits)

lemma fetch_all_answered:
  "\<forall>r \<in> set (fst (fetch_all ext urls addr height t)). r = Inr v \<Longrightarrow> \<forall>url \<in> set urls. answered ext url addr height v"
proof (induction urls arbitrary: t)
  case (Cons url urls)
  obtain r sleeps t1 where f: "fetch_with_retry ext url addr height t = (r, sleeps, t1)" by (metis prod.exhaust)
  obtain rs t2 where g: "fetch_all ext urls addr height t1 = (rs, t2)" by fastforce
  have "r = Inr v" "\<forall>r \<in> set rs. r = Inr v" using Cons.prems f g by auto
  then show ?case using Cons.IH[of t1] f g fetch_attempts_answered unfolding fetch_with_retry_def by auto
qed simp

lemma length_fetch_all [simp]: "length (fst (fetch_all ext urls addr height t)) = length urls"
proof (induction urls arbitrary: t)
  case (Cons url urls)
  obtain r sleeps t1 where f: "fetch_with_retry ext url addr height t = (r, sleeps, t1)" by (metis prod.exhaust)
  obtain rs t2 where g: "fetch_all ext urls addr height t1 = (rs, t2)" by fastforce
  show ?case using Cons.IH[of t1] f g by simp
qed simp

lemma spawn_check_Agreed: "spawn_check ext urls addr height t = Agreed v \<Longrightarrow> unanimous ext urls addr height v"
  using fetch_all_answered length_fetch_all[of ext urls addr height t]
  by (fastforce simp: spawn_check_def quorum_Agreed unanimous_def)

text \<open>The retries: four requests at most, and the sleeps between them.\<close>

lemma fetch_attempts_requests:
  "fetch_attempts ext url addr height attempt n t = (r, sleeps, t') \<Longrightarrow> t' \<le> t + n \<and> length sleeps \<le> n"
proof (induction n arbitrary: attempt t r sleeps t')
  case (Suc n)
  obtain rb t1 where b: "balance_at ext url addr height t = (rb, t1)" by fastforce
  then have "t1 = Suc t" by (auto simp: balance_at_def balance_at_raw_def rpc_call_def)
  then show ?case using Suc.prems b Suc.IH
    by (cases rb) (fastforce split: if_splits prod.splits)+
qed simp

section \<open>Decision and completion\<close>

lemma decide_Correct: "decide_correction q current = Correct v w \<longleftrightarrow> q = Agreed v \<and> w = current \<and> v \<noteq> current"
  by (cases q) auto

text \<open>What one completion does.\<close>

definition outcome_of :: "verified_read \<Rightarrow> address_hash \<Rightarrow> quorum_outcome \<Rightarrow> correction list" where
  "outcome_of read key q =
     (case read_or_zero read key of
        Inl _ \<Rightarrow> []
      | Inr current \<Rightarrow>
          (case decide_correction q current of
             Correct v w \<Rightarrow> [\<lparr> co_key = key, co_balance = v, co_baseline = w \<rparr>]
           | _ \<Rightarrow> []))"

lemma refresh_complete_queue:
  "snd (refresh_complete keccak read i q st queue) = queue @ outcome_of read (keccak (rf_in_flight st ! i)) q"
  by (auto simp: refresh_complete_def outcome_of_def Let_def push_one_def split: sum.splits check_outcome.splits)

lemma outcome_of_spec:
  "c \<in> set (outcome_of read key q) \<Longrightarrow> co_key c = key \<and> q = Agreed (co_balance c) \<and> co_balance c \<noteq> co_baseline c"
  by (cases q; cases "read_or_zero read key") (auto simp: outcome_of_def split: if_splits)

lemma mset_take_drop_nth: "i < length xs \<Longrightarrow> add_mset (xs ! i) (mset (take i xs @ drop (Suc i) xs)) = mset xs"
  by (metis id_take_nth_drop add_mset_add_single mset_append union_mset_add_mset_right mset.simps(2))

lemma refresh_complete_pool:
  assumes "i < length (rf_in_flight st)" and "refresh_complete keccak read i q st queue = (st', queue')"
  shows "rf_stopped st' \<or> rf_stopped st' = rf_stopped st \<and>
      add_mset (rf_in_flight st ! i) (mset (rf_in_flight st') + mset (rf_remaining st')) = mset (rf_in_flight st) + mset (rf_remaining st)"
    and "length (rf_in_flight st') \<le> length (rf_in_flight st)"
    and "\<not> rf_stopped st' \<and> rf_in_flight st' = [] \<longrightarrow> rf_remaining st' = []"
proof -
  have pool: "add_mset (rf_in_flight st ! i) (mset ((take i (rf_in_flight st) @ drop (Suc i) (rf_in_flight st)) @ take 1 (rf_remaining st)) +
      mset (drop 1 (rf_remaining st))) = mset (rf_in_flight st) + mset (rf_remaining st)"
  proof -
    have "mset (take 1 (rf_remaining st)) + mset (drop 1 (rf_remaining st)) = mset (rf_remaining st)"
      by (metis append_take_drop_id mset_append)
    then show ?thesis using mset_take_drop_nth[OF assms(1)]
      by (metis (no_types, lifting) mset_append union_assoc union_mset_add_mset_left)
  qed
  have shape: "rf_stopped st' \<and> rf_in_flight st' = [] \<or> rf_stopped st' = rf_stopped st \<and>
      rf_in_flight st' = (take i (rf_in_flight st) @ drop (Suc i) (rf_in_flight st)) @ take 1 (rf_remaining st) \<and>
      rf_remaining st' = drop 1 (rf_remaining st)"
    using assms(2) by (auto simp: refresh_complete_def Let_def split: sum.splits check_outcome.splits quorum_outcome.splits)
  show "rf_stopped st' \<or> rf_stopped st' = rf_stopped st \<and>
      add_mset (rf_in_flight st ! i) (mset (rf_in_flight st') + mset (rf_remaining st')) = mset (rf_in_flight st) + mset (rf_remaining st)"
    using shape pool by metis
  show "length (rf_in_flight st') \<le> length (rf_in_flight st)"
    using shape assms(1) by auto
  show "\<not> rf_stopped st' \<and> rf_in_flight st' = [] \<longrightarrow> rf_remaining st' = []"
    using shape by auto
qed


section \<open>Properties\<close>

lemma outcome_of_length: "length (outcome_of read key q) \<le> 1"
  by (auto simp: outcome_of_def split: sum.splits check_outcome.splits)

lemma refresh_run_queue:
  "refresh_run ext urls keccak addresses height st queue pushed drained checked \<Longrightarrow>
     pushed = concat drained @ queue \<and> (\<forall>d \<in> set drained. length d \<le> max_corrections_per_block)"
  by (induction rule: refresh_run.induct) (auto simp: drain_up_to_def Let_def)

lemma refresh_run_pool:
  "refresh_run ext urls keccak addresses height st queue pushed drained checked \<Longrightarrow>
     length (rf_in_flight st) \<le> concurrent_address_checks \<and> set checked \<subseteq> set addresses \<and>
     set (rf_in_flight st) \<union> set (rf_remaining st) \<subseteq> set addresses \<and>
     (\<not> rf_stopped st \<longrightarrow> mset checked + mset (rf_in_flight st) + mset (rf_remaining st) = mset addresses \<and>
        (rf_in_flight st = [] \<longrightarrow> rf_remaining st = []))"
proof (induction rule: refresh_run.induct)
  case refresh_started
  have "mset (take 8 addresses) + mset (drop 8 addresses) = mset addresses"
    by (metis append_take_drop_id mset_append)
  then show ?case
    by (auto simp: refresh_start_def concurrent_address_checks_def dest: in_set_takeD in_set_dropD)
next
  case (refresh_completed st queue pushed drained checked i read t st' new)
  note pool = refresh_complete_pool[OF refresh_completed.hyps(2,3)]
  let ?a = "rf_in_flight st ! i"
  have a: "?a \<in> set (rf_in_flight st)" using refresh_completed.hyps(2) by simp
  have sub: "set (rf_in_flight st') \<union> set (rf_remaining st') \<subseteq> set (rf_in_flight st) \<union> set (rf_remaining st)"
    using refresh_completed.hyps(3)
    by (auto simp: refresh_complete_def Let_def dest: in_set_takeD in_set_dropD
        split: sum.splits check_outcome.splits quorum_outcome.splits)
  have "mset (checked @ [?a]) + mset (rf_in_flight st') + mset (rf_remaining st') = mset addresses" if "\<not> rf_stopped st'"
  proof -
    from pool(1) that have p: "\<not> rf_stopped st"
      "add_mset ?a (mset (rf_in_flight st') + mset (rf_remaining st')) = mset (rf_in_flight st) + mset (rf_remaining st)" by auto
    have "mset (checked @ [?a]) + mset (rf_in_flight st') + mset (rf_remaining st') =
        mset checked + add_mset ?a (mset (rf_in_flight st') + mset (rf_remaining st'))" by (simp add: ac_simps)
    also have "\<dots> = mset checked + mset (rf_in_flight st) + mset (rf_remaining st)" unfolding p(2) by (simp add: ac_simps)
    finally show ?thesis using refresh_completed.IH p(1) by simp
  qed
  moreover have "length (rf_in_flight st') \<le> concurrent_address_checks" using pool(2) refresh_completed.IH by linarith
  moreover have "rf_in_flight st' = [] \<longrightarrow> rf_remaining st' = []" if "\<not> rf_stopped st'" using pool(3) that by blast
  ultimately show ?case using refresh_completed.IH sub a by auto
next
  case (refresh_drained st queue pushed drained checked out queue')
  then show ?case by simp
qed

lemma refresh_run_pushed:
  "refresh_run ext urls keccak addresses height st queue pushed drained checked \<Longrightarrow>
     (\<forall>c \<in> set pushed. \<exists>a \<in> set addresses. co_key c = keccak a \<and> unanimous ext urls a height (co_balance c) \<and>
        co_balance c \<noteq> co_baseline c)"
proof (induction rule: refresh_run.induct)
  case refresh_started
  then show ?case by simp
next
  case (refresh_completed st queue pushed drained checked i read t st' new)
  let ?a = "rf_in_flight st ! i"
  have "?a \<in> set addresses"
    using refresh_run_pool[OF refresh_completed.hyps(1)] refresh_completed.hyps(2) nth_mem by blast
  moreover have "new = outcome_of read (keccak ?a) (spawn_check ext urls ?a height t)"
    using refresh_complete_queue[of keccak read i "spawn_check ext urls ?a height t" st queue] refresh_completed.hyps(3) by simp
  then have "co_key c = keccak ?a \<and> unanimous ext urls ?a height (co_balance c) \<and> co_balance c \<noteq> co_baseline c"
    if "c \<in> set new" for c
    using outcome_of_spec[of c read "keccak ?a"] that spawn_check_Agreed by metis
  ultimately show ?case using refresh_completed.IH by (metis Un_iff set_append)
next
  case (refresh_drained st queue pushed drained checked out queue')
  then show ?case by simp
qed


definition sample_providers :: feed_ext where
  "sample_providers = \<lparr>
     fx_parse = (\<lambda>bs. Some (JObj [(''result'', JStr (if bs = [0] then ''0x5'' else ''0x7''))])),
     fx_net = (\<lambda>t url method params. HttpReply 200 (if params ! 1 = JStr (hex_block 9) then [0] else [1])),
     fx_keccak = rev \<rparr>"

lemma hex_block_9_10: "hex_block 10 \<noteq> hex_block 9"
  by (simp add: hex_block_def show_hex.simps[of 9] show_hex.simps[of 10] hex_digit_def)

lemma sample_balances:
  "balance_at sample_providers url a 9 t = (Inr 5, Suc t)" "balance_at sample_providers url a 10 t = (Inr 7, Suc t)"
  using hex_block_9_10 by (simp_all add: balance_at_def balance_at_raw_def rpc_call_def read_reply_def sample_providers_def)

lemma sample_check: "spawn_check sample_providers [''a'', ''b''] a 9 t = Agreed 5"
  by (simp add: spawn_check_def fetch_with_retry_def max_fetch_attempts_def numeral_eq_Suc sample_balances quorum_def)



lemma filter_stale_spec:
  "filter_stale_corrections read cs = Inr (valid, stale) \<Longrightarrow>
     valid = filter (\<lambda>c. read_or_zero read (co_key c) = Inr (co_baseline c)) cs \<and> stale + length valid = length cs"
  by (induction cs arbitrary: valid stale) (auto split: if_splits)

lemma map_of_rev_append: "k \<in> fst ` set ys \<Longrightarrow> map_of (rev (xs @ ys)) k = map_of (rev ys) k"
proof -
  assume "k \<in> fst ` set ys"
  then have "map_of (rev ys) k \<noteq> None" by (simp add: map_of_eq_None_iff)
  then show ?thesis by (auto simp: map_add_Some_iff)
qed

text \<open>A stale correction is dropped and the feed wins.  What a block takes from the queue is its
  first corrections up to the cap; of these exactly the ones whose account still reads as its
  baseline are placed, in order, before the block's own changes; so the last write of every account
  the block changes is the block's.\<close>

theorem stale_corrections_dropped_and_feed_wins:
  assumes "inject_corrections read queue chs = (Inr chs', queue')"
  shows "queue' = drop max_corrections_per_block queue \<and>
    chs' = map (\<lambda>c. (co_key c, co_balance c))
      (filter (\<lambda>c. read_or_zero read (co_key c) = Inr (co_baseline c)) (take max_corrections_per_block queue)) @ chs \<and>
    (\<forall>key \<in> fst ` set chs. map_of (rev chs') key = map_of (rev chs) key)"
proof -
  have d: "drain_up_to max_corrections_per_block queue = (take max_corrections_per_block queue, drop max_corrections_per_block queue)"
    by (simp add: drain_up_to_def Let_def min_def)
  have q: "queue' = drop max_corrections_per_block queue \<and>
    chs' = map (\<lambda>c. (co_key c, co_balance c))
      (filter (\<lambda>c. read_or_zero read (co_key c) = Inr (co_baseline c)) (take max_corrections_per_block queue)) @ chs"
    using assms by (auto simp: inject_corrections_def d prepend_corrections_def dest!: filter_stale_spec split: if_splits)
  have keys: "\<forall>key \<in> fst ` set chs. map_of (rev chs') key = map_of (rev chs) key"
    unfolding q[THEN conjunct2] by (intro ballI) (rule map_of_rev_append)
  show ?thesis by (intro conjI q[THEN conjunct1] q[THEN conjunct2] keys)
qed

definition sample_queue :: correction_queue where
  "sample_queue = [\<lparr> co_key = [1], co_balance = 5, co_baseline = 0 \<rparr>, \<lparr> co_key = [2], co_balance = 6, co_baseline = 3 \<rparr>]"

lemma sample_injection: "inject_corrections (\<lambda>_. Inr None) sample_queue [([1], 9)] = (Inr [([1], 5), ([1], 9)], [])"
  by (simp add: inject_corrections_def drain_up_to_def max_corrections_per_block_def read_or_zero_def prepend_corrections_def
      sample_queue_def)

theorem stale_corrections_dropped_and_feed_wins_witness:
  "drop max_corrections_per_block sample_queue = [] \<and>
   map_of (rev [([1 :: u8], 5 :: balance), ([1], 9)]) [1] = map_of (rev [([1 :: u8], 9)]) [1]"
proof -
  note s = stale_corrections_dropped_and_feed_wins[OF sample_injection]
  have "[1 :: u8] \<in> fst ` set [([1 :: u8], 9 :: balance)]" by simp
  note key = bspec[OF s[THEN conjunct2, THEN conjunct2] this]
  show ?thesis by (intro conjI key s[THEN conjunct1, symmetric])
qed

text \<open>C32. What the staleness check does not cover.  The providers are asked at the height the run
  started at, but the baseline is the store's balance when the check completes.  When an account
  moved between the two, every provider agreeing on the old balance at the run's height and on the
  new one at the head, and the store holds the new one, the completed check still queues the old
  balance; the next block that leaves the account alone finds the baseline unchanged and writes the
  old balance over the new one.\<close>

theorem refresh_overwrites_newer_balance:
  assumes old: "\<forall>t. spawn_check ext urls a height t = Agreed v" and new: "unanimous ext urls a head w" and "v \<noteq> w"
    and "i < length (rf_in_flight st)" and "rf_in_flight st ! i = a"
    and "read (keccak a) = Inr (Some w)" and "keccak a \<notin> fst ` set chs"
  shows "\<exists>queue chs'. snd (refresh_complete keccak read i (spawn_check ext urls (rf_in_flight st ! i) height t) st []) = queue \<and>
    inject_corrections read queue chs = (Inr chs', []) \<and> map_of (rev chs') (keccak a) = Some v"
proof -
  have r: "read_or_zero read (keccak a) = Inr w" using assms(6) by (simp add: read_or_zero_def)
  have "snd (refresh_complete keccak read i (spawn_check ext urls (rf_in_flight st ! i) height t) st []) =
      [\<lparr> co_key = keccak a, co_balance = v, co_baseline = w \<rparr>]"
    using old assms(3,5) r by (simp add: refresh_complete_queue outcome_of_def)
  moreover have "inject_corrections read [\<lparr> co_key = keccak a, co_balance = v, co_baseline = w \<rparr>] chs = (Inr ((keccak a, v) # chs), [])"
    using r by (simp add: inject_corrections_def drain_up_to_def max_corrections_per_block_def prepend_corrections_def)
  moreover have "map_of (rev ((keccak a, v) # chs)) (keccak a) = Some v"
  proof -
    have "map_of (rev chs) (keccak a) = None" using assms(7) by (simp add: map_of_eq_None_iff)
    then show ?thesis by (simp add: map_add_def)
  qed
  ultimately show ?thesis by blast
qed

theorem refresh_overwrites_newer_balance_witness:
  "\<exists>queue chs'. snd (refresh_complete rev (\<lambda>_. Inr (Some 7)) 0
      (spawn_check sample_providers [''a'', ''b''] (rf_in_flight (refresh_start [[1]]) ! 0) 9 0) (refresh_start [[1]]) []) = queue \<and>
    inject_corrections (\<lambda>_. Inr (Some 7)) queue [] = (Inr chs', []) \<and> map_of (rev chs') [1] = Some 5"
proof -
  have "unanimous sample_providers [''a'', ''b''] [1] 10 7"
    by (auto simp: unanimous_def answered_def sample_balances)
  moreover have "0 < length (rf_in_flight (refresh_start [[1]]))" "rf_in_flight (refresh_start [[1]]) ! 0 = [1]"
    by (simp_all add: refresh_start_def concurrent_address_checks_def)
  ultimately show ?thesis
    using refresh_overwrites_newer_balance[of sample_providers "[''a'', ''b'']" "[1]" 9 5 10 7 0 "refresh_start [[1]]"
        "\<lambda>_. Inr (Some 7)" rev "[]" 0] sample_check
    by simp
qed

end
