(* ===== verification/Reconcile.thy ===== *)
theory Reconcile
  imports Hard_Refresh
begin

text \<open>
  Model of the reconciliation of a followed chain against an independent provider:
  \<open>ReconcileHealth\<close> and \<open>healthz\<close> of \<open>crates/risepir-http/src/node.rs\<close>, and
  \<open>classify_checkpoint\<close>, \<open>DeferredReservoir\<close>, \<open>sample_reference\<close>, \<open>compare_one\<close>, the
  escalation and \<open>reconcile\<close> of \<open>crates/risepir-rpc/src/mainnet.rs\<close>.

  The provider answers \<open>confirm addr block t\<close> at the request time \<open>t\<close>, each request advances
  it.  The follow loop, the only writer, awaits a checkpoint, so the store does not change under
  it: \<open>read\<close> is the verified read.  A log line is a \<open>reconcile_log\<close> of the values it prints;
  \<open>now\<close> is the clock.

  The lemmas: a checkpoint halts exactly when a balance it fetched differs from the store; it
  sends a bounded number of requests, and none while deferred; the reservoir is bounded and loses
  no address before it is verified; and no checkpoint is silent or counts a failure as a success.
\<close>

section \<open>Health\<close>

record reconcile_health =
  rh_configured :: bool
  rh_last_checkpoint_block :: u64
  rh_last_checkpoint_unix :: u64
  rh_last_success_block :: u64
  rh_last_success_unix :: u64
  rh_comparisons_total :: u64
  rh_checkpoints_total :: u64
  rh_consecutive_dark :: u64
  rh_halted :: bool
  rh_deferred_total :: u64
  rh_consecutive_deferred :: u64
  rh_reservoir_checks_total :: u64
  rh_reservoir_len :: u64

definition health_default :: reconcile_health where
  "health_default = \<lparr> rh_configured = False, rh_last_checkpoint_block = 0, rh_last_checkpoint_unix = 0,
     rh_last_success_block = 0, rh_last_success_unix = 0, rh_comparisons_total = 0, rh_checkpoints_total = 0,
     rh_consecutive_dark = 0, rh_halted = False, rh_deferred_total = 0, rh_consecutive_deferred = 0,
     rh_reservoir_checks_total = 0, rh_reservoir_len = 0 \<rparr>"

definition set_reconcile_configured :: "bool \<Rightarrow> reconcile_health \<Rightarrow> reconcile_health" where
  "set_reconcile_configured configured h = h\<lparr> rh_configured := configured \<rparr>"

definition record_reconcile_checkpoint :: "u64 \<Rightarrow> u64 \<Rightarrow> nat \<Rightarrow> bool \<Rightarrow> bool \<Rightarrow> reconcile_health \<Rightarrow> reconcile_health" where
  "record_reconcile_checkpoint now block checked dark deferred h =
     (let h = h\<lparr> rh_last_checkpoint_block := block, rh_last_checkpoint_unix := now,
                 rh_checkpoints_total := rh_checkpoints_total h + 1,
                 rh_comparisons_total := rh_comparisons_total h + of_nat checked \<rparr>;
          h = (if deferred then h\<lparr> rh_deferred_total := rh_deferred_total h + 1 \<rparr> else h)
      in if 0 < checked
         then h\<lparr> rh_last_success_block := block, rh_last_success_unix := now, rh_consecutive_dark := 0,
                 rh_consecutive_deferred := 0 \<rparr>
         else if dark \<or> deferred
         then h\<lparr> rh_consecutive_dark := rh_consecutive_dark h + 1,
                 rh_consecutive_deferred := (if deferred then rh_consecutive_deferred h + 1 else 0) \<rparr>
         else h)"

definition record_reservoir_check :: "reconcile_health \<Rightarrow> reconcile_health" where
  "record_reservoir_check h = h\<lparr> rh_reservoir_checks_total := rh_reservoir_checks_total h + 1 \<rparr>"

definition set_reservoir_len :: "u64 \<Rightarrow> reconcile_health \<Rightarrow> reconcile_health" where
  "set_reservoir_len n h = h\<lparr> rh_reservoir_len := n \<rparr>"

definition mark_reconcile_halted :: "reconcile_health \<Rightarrow> reconcile_health" where
  "mark_reconcile_halted h = h\<lparr> rh_halted := True \<rparr>"

definition health_line :: "string \<Rightarrow> string \<Rightarrow> string" where
  "health_line key v = key @ ''='' @ v @ [newline]"

definition show_flag :: "bool \<Rightarrow> string" where
  "show_flag b = (if b then ''1'' else ''0'')"

definition healthz_body :: "u64 \<Rightarrow> reconcile_health \<Rightarrow> string \<Rightarrow> string" where
  "healthz_body head rh audit_line =
     ''ok '' @ show_u64 head @ [newline] @
     health_line ''reconcile_configured'' (show_flag (rh_configured rh)) @
     health_line ''reconcile_last_checkpoint_block'' (show_u64 (rh_last_checkpoint_block rh)) @
     health_line ''reconcile_last_checkpoint_unix'' (show_u64 (rh_last_checkpoint_unix rh)) @
     health_line ''reconcile_last_success_block'' (show_u64 (rh_last_success_block rh)) @
     health_line ''reconcile_last_success_unix'' (show_u64 (rh_last_success_unix rh)) @
     health_line ''reconcile_comparisons_total'' (show_u64 (rh_comparisons_total rh)) @
     health_line ''reconcile_checkpoints_total'' (show_u64 (rh_checkpoints_total rh)) @
     health_line ''reconcile_consecutive_dark'' (show_u64 (rh_consecutive_dark rh)) @
     health_line ''reconcile_halted'' (show_flag (rh_halted rh)) @
     health_line ''reconcile_deferred_total'' (show_u64 (rh_deferred_total rh)) @
     health_line ''reconcile_reservoir_checks_total'' (show_u64 (rh_reservoir_checks_total rh)) @
     health_line ''reconcile_reservoir_len'' (show_u64 (rh_reservoir_len rh)) @
     health_line ''snapshot_audit'' audit_line"

section \<open>Classification\<close>

definition recent_depth_blocks :: u64 where "recent_depth_blocks = 64"
definition dark_escalation_threshold :: u64 where "dark_escalation_threshold = 20"
definition deferred_reservoir_cap :: nat where "deferred_reservoir_cap = 256"
definition reservoir_drain_per_checkpoint :: nat where "reservoir_drain_per_checkpoint = 2"

datatype sample_result = Matched | FetchFailed

datatype checkpoint_outcome = EmptyCheckpoint | Success nat | Dark nat | Deferred u64

definition classify_checkpoint :: "nat \<Rightarrow> sample_result list \<Rightarrow> u64 \<Rightarrow> checkpoint_outcome" where
  "classify_checkpoint candidates results lag =
     (if recent_depth_blocks < lag then Deferred lag
      else if candidates = 0 then EmptyCheckpoint
      else let checked = length (filter (\<lambda>r. r = Matched) results) in
        if 0 < checked then Success checked else Dark (length results))"

definition should_escalate :: "u64 \<Rightarrow> bool" where
  "should_escalate consecutive_dark = (0 < consecutive_dark \<and> consecutive_dark mod dark_escalation_threshold = 0)"

section \<open>The reservoir\<close>

fun reservoir_insert_many :: "address list \<Rightarrow> address list \<Rightarrow> address list" where
  "reservoir_insert_many [] addrs = addrs"
| "reservoir_insert_many (a # candidates) addrs =
     (if deferred_reservoir_cap \<le> length addrs then addrs
      else reservoir_insert_many candidates (if a \<in> set addrs then addrs else addrs @ [a]))"

definition reservoir_pop_front_up_to :: "nat \<Rightarrow> address list \<Rightarrow> address list \<times> address list" where
  "reservoir_pop_front_up_to n addrs = (take n addrs, drop n addrs)"

definition reservoir_requeue :: "address \<Rightarrow> address list \<Rightarrow> address list" where
  "reservoir_requeue a addrs = (if length addrs < deferred_reservoir_cap then addrs @ [a] else addrs)"

section \<open>Log lines\<close>

datatype dark_cause = AllDeferred | MixedDark | AllFailedFetches

text \<open>\<open>None\<close> is "no successful comparison yet", otherwise the seconds and the block.\<close>

type_synonym since_success = "(u64 \<times> u64) option"

datatype reconcile_log =
    FetchSkipped address u64 feed_error
  | MoreFailures nat
  | CriticalReadFailed server_error bool
  | CriticalMismatch u64 address balance balance bool
  | CheckpointDeferred u64 u64 u64 since_success
  | CheckpointEmpty u64
  | CheckpointExact u64 nat
  | CheckpointDark u64 nat u64 since_success
  | CriticalDark u64 u64 u64 dark_cause
  | ReservoirFetchFailed address u64 feed_error
  | ReservoirDrained

definition since_last_success :: "u64 \<Rightarrow> reconcile_health \<Rightarrow> since_success" where
  "since_last_success now h =
     (if rh_last_success_unix h = 0 then None
      else Some (saturating_sub_u now (rh_last_success_unix h), rh_last_success_block h))"

definition maybe_escalate :: "reconcile_health \<Rightarrow> u64 \<Rightarrow> reconcile_log list" where
  "maybe_escalate h reconcile_every =
     (if \<not> should_escalate (rh_consecutive_dark h) then []
      else
        let cause = (if rh_consecutive_dark h \<le> rh_consecutive_deferred h then AllDeferred
                     else if 0 < rh_consecutive_deferred h then MixedDark else AllFailedFetches)
        in [CriticalDark (rh_consecutive_dark h) (saturating_mul_u (rh_consecutive_dark h) reconcile_every)
              (rh_last_success_block h) cause])"

record failure_logger =
  fl_logged :: nat
  fl_suppressed :: nat

definition verbatim_cap :: nat where "verbatim_cap = 2"

definition logger_new :: failure_logger where
  "logger_new = \<lparr> fl_logged = 0, fl_suppressed = 0 \<rparr>"

definition logger_log :: "address \<Rightarrow> u64 \<Rightarrow> feed_error \<Rightarrow> failure_logger \<Rightarrow> failure_logger \<times> reconcile_log list" where
  "logger_log addr block err fl =
     (if fl_logged fl < verbatim_cap then (fl\<lparr> fl_logged := fl_logged fl + 1 \<rparr>, [FetchSkipped addr block err])
      else (fl\<lparr> fl_suppressed := fl_suppressed fl + 1 \<rparr>, []))"

definition logger_finish :: "failure_logger \<Rightarrow> reconcile_log list" where
  "logger_finish fl = (if 0 < fl_suppressed fl then [MoreFailures (fl_suppressed fl)] else [])"

section \<open>One checkpoint\<close>

type_synonym confirm_source = "address \<Rightarrow> u64 \<Rightarrow> nat \<Rightarrow> (feed_error + balance) \<times> nat"

fun sample_reference :: "confirm_source \<Rightarrow> u64 \<Rightarrow> nat \<Rightarrow> nat \<Rightarrow> nat \<Rightarrow> nat \<Rightarrow> address list \<Rightarrow> nat
    \<Rightarrow> (feed_error + balance) list \<times> nat" where
  "sample_reference confirm block samples budget succeeded attempted [] t = ([], t)"
| "sample_reference confirm block samples budget succeeded attempted (a # candidates) t =
     (if samples \<le> succeeded \<or> budget \<le> attempted then ([], t)
      else case confirm a block t of
        (outcome, t) \<Rightarrow>
          (case sample_reference confirm block samples budget (if is_ok outcome then Suc succeeded else succeeded)
                  (Suc attempted) candidates t of
             (outcomes, t) \<Rightarrow> (outcome # outcomes, t)))"

text \<open>\<open>True\<close> is \<open>CompareOutcome::Matched\<close>.\<close>

definition compare_one :: "verified_read \<Rightarrow> (bytes \<Rightarrow> bytes) \<Rightarrow> address \<Rightarrow> u64 \<Rightarrow> balance \<Rightarrow> bool \<Rightarrow> reconcile_health
    \<Rightarrow> bool \<times> reconcile_health \<times> reconcile_log list" where
  "compare_one read keccak addr n reference reservoir_entry h =
     (case read_or_zero read (keccak addr) of
        Inl e \<Rightarrow> (False, mark_reconcile_halted h, [CriticalReadFailed e reservoir_entry])
      | Inr ours \<Rightarrow>
          if ours \<noteq> reference
          then (False, mark_reconcile_halted h, [CriticalMismatch n addr ours reference reservoir_entry])
          else (True, h, []))"

text \<open>The loop over the sampled candidates; \<open>None\<close> is \<open>Halted\<close>.\<close>

fun compare_samples :: "verified_read \<Rightarrow> (bytes \<Rightarrow> bytes) \<Rightarrow> u64 \<Rightarrow> (address \<times> (feed_error + balance)) list \<Rightarrow> failure_logger
    \<Rightarrow> reconcile_health \<Rightarrow> sample_result list option \<times> reconcile_health \<times> reconcile_log list" where
  "compare_samples read keccak n [] fl h = (Some [], h, logger_finish fl)"
| "compare_samples read keccak n ((addr, outcome) # rest) fl h =
     (case outcome of
        Inl e \<Rightarrow>
          (case logger_log addr n e fl of (fl, out) \<Rightarrow>
           case compare_samples read keccak n rest fl h of
             (results, h, logs) \<Rightarrow> (map_option (\<lambda>rs. FetchFailed # rs) results, h, out @ logs))
      | Inr reference \<Rightarrow>
          (case compare_one read keccak addr n reference False h of
             (True, h, out) \<Rightarrow>
               (case compare_samples read keccak n rest fl h of
                  (results, h, logs) \<Rightarrow> (map_option (\<lambda>rs. Matched # rs) results, h, out @ logs))
           | (False, h, out) \<Rightarrow> (None, h, out @ logger_finish fl)))"

datatype reconcile_outcome = Continued | Halted

fun drain_reservoir :: "confirm_source \<Rightarrow> verified_read \<Rightarrow> (bytes \<Rightarrow> bytes) \<Rightarrow> u64 \<Rightarrow> address list \<Rightarrow> address list
    \<Rightarrow> reconcile_health \<Rightarrow> nat \<Rightarrow> reconcile_outcome \<times> address list \<times> reconcile_health \<times> reconcile_log list \<times> nat" where
  "drain_reservoir confirm read keccak n [] addrs h t = (Continued, addrs, h, [], t)"
| "drain_reservoir confirm read keccak n (addr # rest) addrs h t =
     (case confirm addr n t of
        (Inl e, t) \<Rightarrow>
          (case drain_reservoir confirm read keccak n rest (reservoir_requeue addr addrs) h t of
             (r, addrs, h, logs, t) \<Rightarrow> (r, addrs, h, ReservoirFetchFailed addr n e # logs, t))
      | (Inr reference, t) \<Rightarrow>
          (case compare_one read keccak addr n reference True h of
             (True, h, out) \<Rightarrow>
               (case drain_reservoir confirm read keccak n rest addrs (record_reservoir_check h) t of
                  (r, addrs, h, logs, t) \<Rightarrow> (r, addrs, h, out @ logs, t))
           | (False, h, out) \<Rightarrow> (Halted, addrs, h, out, t)))"

record reconcile_config =
  rcfg_complete :: bool
  rcfg_samples :: nat
  rcfg_every :: u64

definition reconcile_candidates :: "bool \<Rightarrow> (address \<times> balance) list \<Rightarrow> (address \<times> balance) list \<Rightarrow> address list" where
  "reconcile_candidates complete changed credited =
     remdups_adj (map fst changed @ (if complete then map fst credited else []))"

text \<open>\<open>usize::saturating_mul\<close>.\<close>

definition attempt_budget :: "nat \<Rightarrow> nat" where
  "attempt_budget samples = min (samples * 2) (2 ^ 64 - 1)"

definition reconcile :: "confirm_source \<Rightarrow> verified_read \<Rightarrow> (bytes \<Rightarrow> bytes) \<Rightarrow> u64 \<Rightarrow> u64 \<Rightarrow> u64
    \<Rightarrow> (address \<times> balance) list \<Rightarrow> (address \<times> balance) list \<Rightarrow> reconcile_config \<Rightarrow> address list \<Rightarrow> reconcile_health \<Rightarrow> nat
    \<Rightarrow> reconcile_outcome \<times> address list \<times> reconcile_health \<times> reconcile_log list \<times> nat" where
  "reconcile confirm read keccak now n lag changed credited cfg reservoir h t =
     (let candidates = reconcile_candidates (rcfg_complete cfg) changed credited;
          candidate_count = length candidates in
      case classify_checkpoint candidate_count [] lag of
        Deferred lag \<Rightarrow>
          let reservoir = reservoir_insert_many candidates reservoir;
              h = record_reconcile_checkpoint now n 0 True True (set_reservoir_len (of_nat (length reservoir)) h)
          in (Continued, reservoir, h,
              CheckpointDeferred n lag (rh_consecutive_dark h) (since_last_success now h) # maybe_escalate h (rcfg_every cfg), t)
      | _ \<Rightarrow>
          (case sample_reference confirm n (rcfg_samples cfg) (attempt_budget (rcfg_samples cfg)) 0 0 candidates t of
             (outcomes, t) \<Rightarrow>
           case compare_samples read keccak n (zip candidates outcomes) logger_new h of
             (None, h, logs) \<Rightarrow> (Halted, reservoir, h, logs, t)
           | (Some results, h, logs) \<Rightarrow>
               let outcome = classify_checkpoint candidate_count results lag;
                   (record_checked, dark) = (case outcome of Success checked \<Rightarrow> (checked, False) | Dark _ \<Rightarrow> (0, True) | _ \<Rightarrow> (0, False));
                   h = record_reconcile_checkpoint now n record_checked dark False h;
                   logs = logs @ (case outcome of
                       EmptyCheckpoint \<Rightarrow> [CheckpointEmpty n]
                     | Success checked \<Rightarrow> [CheckpointExact n checked]
                     | Dark attempted \<Rightarrow>
                         CheckpointDark n attempted (rh_consecutive_dark h) (since_last_success now h) # maybe_escalate h (rcfg_every cfg)
                     | Deferred _ \<Rightarrow> [])
               in case reservoir_pop_front_up_to reservoir_drain_per_checkpoint reservoir of
                    (popped, rest) \<Rightarrow>
                      (case drain_reservoir confirm read keccak n popped rest h t of
                         (r, reservoir', h, out, t) \<Rightarrow>
                           (r, reservoir', set_reservoir_len (of_nat (length reservoir')) h,
                            logs @ out @ (if r = Continued \<and> reservoir \<noteq> [] \<and> reservoir' = [] then [ReservoirDrained] else []), t))))"


section \<open>What a checkpoint fetches\<close>

definition fetched_ok :: "(address \<times> (feed_error + balance)) list \<Rightarrow> (address \<times> balance) list" where
  "fetched_ok fs = concat (map (\<lambda>(a, r). case r of Inr v \<Rightarrow> [(a, v)] | Inl _ \<Rightarrow> []) fs)"

text \<open>A fetched balance that is not what the store reads.\<close>

definition disagrees :: "verified_read \<Rightarrow> (bytes \<Rightarrow> bytes) \<Rightarrow> address \<times> balance \<Rightarrow> bool" where
  "disagrees read keccak av \<longleftrightarrow> read_or_zero read (keccak (fst av)) \<noteq> Inr (snd av)"

fun drain_fetches :: "confirm_source \<Rightarrow> u64 \<Rightarrow> address list \<Rightarrow> nat \<Rightarrow> (address \<times> (feed_error + balance)) list" where
  "drain_fetches confirm n [] t = []"
| "drain_fetches confirm n (a # as) t = (case confirm a n t of (r, t) \<Rightarrow> (a, r) # drain_fetches confirm n as t)"

definition sampled :: "confirm_source \<Rightarrow> u64 \<Rightarrow> nat \<Rightarrow> address list \<Rightarrow> nat \<Rightarrow> (address \<times> (feed_error + balance)) list" where
  "sampled confirm n samples candidates t =
     zip candidates (fst (sample_reference confirm n samples (attempt_budget samples) 0 0 candidates t))"

definition drained_fetches :: "confirm_source \<Rightarrow> u64 \<Rightarrow> nat \<Rightarrow> address list \<Rightarrow> address list \<Rightarrow> nat
    \<Rightarrow> (address \<times> (feed_error + balance)) list" where
  "drained_fetches confirm n samples candidates reservoir t =
     drain_fetches confirm n (take reservoir_drain_per_checkpoint reservoir)
       (snd (sample_reference confirm n samples (attempt_budget samples) 0 0 candidates t))"

definition references :: "confirm_source \<Rightarrow> u64 \<Rightarrow> u64 \<Rightarrow> nat \<Rightarrow> address list \<Rightarrow> address list \<Rightarrow> nat \<Rightarrow> (address \<times> balance) list" where
  "references confirm n lag samples candidates reservoir t =
     (if recent_depth_blocks < lag then []
      else fetched_ok (sampled confirm n samples candidates t @ drained_fetches confirm n samples candidates reservoir t))"

lemma fetched_ok_simps [simp]:
  "fetched_ok [] = []" "fetched_ok ((a, Inl e) # fs) = fetched_ok fs" "fetched_ok ((a, Inr v) # fs) = (a, v) # fetched_ok fs"
  "fetched_ok (xs @ ys) = fetched_ok xs @ fetched_ok ys"
  by (simp_all add: fetched_ok_def)

lemma compare_one_cases:
  "disagrees read keccak (a, v) \<and> (\<exists>c. compare_one read keccak a n v b h = (False, mark_reconcile_halted h, [c])) \<or>
   \<not> disagrees read keccak (a, v) \<and> compare_one read keccak a n v b h = (True, h, [])"
  by (auto simp: compare_one_def disagrees_def split: sum.splits)

lemma compare_samples_spec:
  assumes "compare_samples read keccak n fs fl h = (results, h', logs)"
  shows "if \<exists>av \<in> set (fetched_ok fs). disagrees read keccak av
    then results = None \<and> h' = mark_reconcile_halted h \<and> logs \<noteq> []
    else results = Some (map (\<lambda>(_, r). if is_ok r then Matched else FetchFailed) fs) \<and> h' = h"
  using assms
proof (induction fs arbitrary: fl results h' logs)
  case (Cons f fs)
  obtain a r where f: "f = (a, r)" by (cases f)
  show ?case
  proof (cases r)
    case (Inl e)
    obtain fl1 out where l: "logger_log a n e fl = (fl1, out)" by fastforce
    obtain results1 h1 logs1 where c: "compare_samples read keccak n fs fl1 h = (results1, h1, logs1)" by (metis prod.exhaust)
    have "results = map_option (\<lambda>rs. FetchFailed # rs) results1" "h' = h1" "logs = out @ logs1"
      using Cons.prems l c f Inl by auto
    then show ?thesis using Cons.IH[OF c] f Inl by (simp split: if_splits)
  next
    case (Inr v)
    from compare_one_cases[of read keccak a v n False h] show ?thesis
    proof (elim disjE conjE exE)
      fix c assume "disagrees read keccak (a, v)" "compare_one read keccak a n v False h = (False, mark_reconcile_halted h, [c])"
      then show ?thesis using Cons.prems f Inr by auto
    next
      assume d: "\<not> disagrees read keccak (a, v)" "compare_one read keccak a n v False h = (True, h, [])"
      obtain results1 h1 logs1 where c: "compare_samples read keccak n fs fl h = (results1, h1, logs1)" by (metis prod.exhaust)
      have "results = map_option (\<lambda>rs. Matched # rs) results1" "h' = h1" "logs = logs1"
        using Cons.prems c f Inr d by auto
      then show ?thesis using Cons.IH[OF c] f Inr d(1) by (simp split: if_splits)
    qed
  qed
qed auto

definition checks_added :: "nat \<Rightarrow> reconcile_health \<Rightarrow> reconcile_health" where
  "checks_added k h = h\<lparr> rh_reservoir_checks_total := rh_reservoir_checks_total h + of_nat k \<rparr>"

definition failed_fetches :: "(address \<times> (feed_error + balance)) list \<Rightarrow> address list" where
  "failed_fetches fs = map fst (filter (\<lambda>(_, r). \<not> is_ok r) fs)"

lemma failed_fetches_simps [simp]:
  "failed_fetches [] = []" "failed_fetches ((a, Inl e) # fs) = a # failed_fetches fs" "failed_fetches ((a, Inr v) # fs) = failed_fetches fs"
  by (simp_all add: failed_fetches_def)

lemma drain_reservoir_spec:
  assumes "drain_reservoir confirm read keccak n popped addrs h t = (out, addrs', h', logs, t')"
    and "length addrs + length popped \<le> deferred_reservoir_cap"
  shows "if \<exists>av \<in> set (fetched_ok (drain_fetches confirm n popped t)). disagrees read keccak av
    then out = Halted \<and> rh_halted h' \<and> logs \<noteq> []
    else out = Continued \<and> addrs' = addrs @ failed_fetches (drain_fetches confirm n popped t) \<and>
      h' = checks_added (length (fetched_ok (drain_fetches confirm n popped t))) h"
  using assms
proof (induction popped arbitrary: addrs h t out addrs' h' logs t')
  case Nil
  then show ?case by (simp add: checks_added_def)
next
  case (Cons a popped)
  obtain r t1 where c: "confirm a n t = (r, t1)" by fastforce
  show ?case
  proof (cases r)
    case (Inl e)
    have q: "reservoir_requeue a addrs = addrs @ [a]" using Cons.prems(2) by (simp add: reservoir_requeue_def)
    obtain r1 addrs1 h1 logs1 t2 where d: "drain_reservoir confirm read keccak n popped (addrs @ [a]) h t1 = (r1, addrs1, h1, logs1, t2)"
      by (metis prod.exhaust)
    have "out = r1" "addrs' = addrs1" "h' = h1" "logs = ReservoirFetchFailed a n e # logs1" using Cons.prems(1) c Inl d q by auto
    then show ?thesis using Cons.IH[OF d] Cons.prems(2) c Inl by (simp split: if_splits)
  next
    case (Inr v)
    from compare_one_cases[of read keccak a v n True h] show ?thesis
    proof (elim disjE conjE exE)
      fix k assume "disagrees read keccak (a, v)" "compare_one read keccak a n v True h = (False, mark_reconcile_halted h, [k])"
      then show ?thesis using Cons.prems(1) c Inr by (auto simp: mark_reconcile_halted_def)
    next
      assume g: "\<not> disagrees read keccak (a, v)" "compare_one read keccak a n v True h = (True, h, [])"
      obtain r1 addrs1 h1 logs1 t2 where d: "drain_reservoir confirm read keccak n popped addrs (record_reservoir_check h) t1 = (r1, addrs1, h1, logs1, t2)"
        by (metis prod.exhaust)
      have "out = r1" "addrs' = addrs1" "h' = h1" "logs = logs1" using Cons.prems(1) c Inr d g by auto
      moreover have "checks_added k (record_reservoir_check h) = checks_added (Suc k) h" for k
        by (simp add: checks_added_def record_reservoir_check_def)
      ultimately show ?thesis using Cons.IH[OF d] Cons.prems(2) c Inr g(1) by (simp split: if_splits)
    qed
  qed
qed


fun is_escalation :: "reconcile_log \<Rightarrow> bool" where
  "is_escalation (CriticalDark _ _ _ _) = True"
| "is_escalation _ = False"

lemma compare_one_quiet: "compare_one read keccak a n v b h = (m, h', logs) \<Longrightarrow> \<not> list_ex is_escalation logs"
  by (auto simp: compare_one_def split: sum.splits if_splits)

lemma logger_quiet [simp]: "\<not> list_ex is_escalation (logger_finish fl)" "logger_log a n e fl = (fl', out) \<Longrightarrow> \<not> list_ex is_escalation out"
  by (auto simp: logger_finish_def logger_log_def split: if_splits)

lemma compare_samples_quiet: "compare_samples read keccak n fs fl h = (results, h', logs) \<Longrightarrow> \<not> list_ex is_escalation logs"
proof (induction fs arbitrary: fl h results h' logs)
  case (Cons f fs)
  obtain a r where f: "f = (a, r)" by (cases f)
  show ?case
  proof (cases r)
    case (Inl e)
    obtain fl1 out where l: "logger_log a n e fl = (fl1, out)" by fastforce
    obtain results1 h1 logs1 where c: "compare_samples read keccak n fs fl1 h = (results1, h1, logs1)" by (metis prod.exhaust)
    show ?thesis using Cons.prems Cons.IH[OF c] logger_quiet(2)[OF l] l c f Inl by auto
  next
    case (Inr v)
    obtain m h1 out where o: "compare_one read keccak a n v False h = (m, h1, out)" by (metis prod.exhaust)
    obtain results1 h2 logs1 where c: "compare_samples read keccak n fs fl h1 = (results1, h2, logs1)" by (metis prod.exhaust)
    show ?thesis using Cons.prems Cons.IH[OF c] compare_one_quiet[OF o] o c f Inr by (cases m) auto
  qed
qed simp

lemma drain_reservoir_quiet:
  "drain_reservoir confirm read keccak n popped addrs h t = (out, addrs', h', logs, t') \<Longrightarrow> \<not> list_ex is_escalation logs"
proof (induction popped arbitrary: addrs h t out addrs' h' logs t')
  case (Cons a popped)
  obtain r t1 where c: "confirm a n t = (r, t1)" by fastforce
  show ?case
  proof (cases r)
    case (Inl e)
    obtain r1 addrs1 h1 logs1 t2 where d: "drain_reservoir confirm read keccak n popped (reservoir_requeue a addrs) h t1 = (r1, addrs1, h1, logs1, t2)"
      by (metis prod.exhaust)
    show ?thesis using Cons.prems Cons.IH[OF d] c Inl d by auto
  next
    case (Inr v)
    obtain m h1 k where o: "compare_one read keccak a n v True h = (m, h1, k)" by (metis prod.exhaust)
    obtain r1 addrs1 h2 logs1 t2 where d: "drain_reservoir confirm read keccak n popped addrs (record_reservoir_check h1) t1 = (r1, addrs1, h2, logs1, t2)"
      by (metis prod.exhaust)
    show ?thesis using Cons.prems Cons.IH[OF d] compare_one_quiet[OF o] c Inr o d by (cases m) auto
  qed
qed simp

section \<open>The checkpoint as a whole\<close>

text \<open>A checkpoint that attempted a comparison and completed none, or was deferred.\<close>

definition blind :: "u64 \<Rightarrow> address list \<Rightarrow> (address \<times> (feed_error + balance)) list \<Rightarrow> bool" where
  "blind lag candidates fs \<longleftrightarrow> recent_depth_blocks < lag \<or> candidates \<noteq> [] \<and> fetched_ok fs = []"

lemma matched_count: "length (filter (\<lambda>r. r = Matched) (map (\<lambda>(_, r). if is_ok r then Matched else FetchFailed) fs)) = length (fetched_ok fs)"
proof (induction fs)
  case (Cons f fs)
  then show ?case by (cases f; cases "snd f") auto
qed simp

lemma maybe_escalate_logs: "list_ex is_escalation (maybe_escalate h k) \<longleftrightarrow> should_escalate (rh_consecutive_dark h)"
  by (simp add: maybe_escalate_def Let_def)

lemma reconcile_deferred:
  assumes "recent_depth_blocks < lag"
  shows "\<exists>h1. h1 = record_reconcile_checkpoint now n 0 True True (set_reservoir_len
        (of_nat (length (reservoir_insert_many (reconcile_candidates (rcfg_complete cfg) changed credited) reservoir))) h) \<and>
    reconcile confirm read keccak now n lag changed credited cfg reservoir h t =
      (Continued, reservoir_insert_many (reconcile_candidates (rcfg_complete cfg) changed credited) reservoir, h1,
       CheckpointDeferred n lag (rh_consecutive_dark h1) (since_last_success now h1) # maybe_escalate h1 (rcfg_every cfg), t)"
  using assms by (simp add: reconcile_def classify_checkpoint_def Let_def)

lemma drop_take_length: "length (drop k xs) + length (take k xs) = length xs"
  by simp

lemma reconcile_spec:
  assumes rec: "reconcile confirm read keccak now n lag changed credited cfg reservoir h t = (out, reservoir', h', logs, t')"
    and lag: "\<not> recent_depth_blocks < lag" and cap: "length reservoir \<le> deferred_reservoir_cap"
  defines "cands \<equiv> reconcile_candidates (rcfg_complete cfg) changed credited"
  defines "S \<equiv> sampled confirm n (rcfg_samples cfg) cands t"
  defines "D \<equiv> drained_fetches confirm n (rcfg_samples cfg) cands reservoir t"
  shows "if \<exists>av \<in> set (fetched_ok (S @ D)). disagrees read keccak av
    then out = Halted \<and> rh_halted h' \<and> logs \<noteq> []
    else out = Continued \<and> reservoir' = drop reservoir_drain_per_checkpoint reservoir @ failed_fetches D \<and>
      (\<exists>h1. h1 = record_reconcile_checkpoint now n (length (fetched_ok S)) (blind lag cands S) False h \<and>
        h' = set_reservoir_len (of_nat (length reservoir')) (checks_added (length (fetched_ok D)) h1) \<and> logs \<noteq> [] \<and>
        (list_ex is_escalation logs \<longleftrightarrow> blind lag cands S \<and> should_escalate (rh_consecutive_dark h1)))"
proof -
  obtain outcomes t1 where sr: "sample_reference confirm n (rcfg_samples cfg) (attempt_budget (rcfg_samples cfg)) 0 0 cands t = (outcomes, t1)"
    by fastforce
  have S: "S = zip cands outcomes" by (simp add: S_def sampled_def sr)
  have D: "D = drain_fetches confirm n (take reservoir_drain_per_checkpoint reservoir) t1"
    by (simp add: D_def drained_fetches_def sr)
  have branch: "\<exists>c. classify_checkpoint (length cands) [] lag = c \<and> (\<forall>l. c \<noteq> Deferred l)"
    using lag by (simp add: classify_checkpoint_def)
  obtain results h1 logs1 where cs: "compare_samples read keccak n S logger_new h = (results, h1, logs1)" by (metis prod.exhaust)
  note spec = compare_samples_spec[OF cs]
  show ?thesis
  proof (cases "\<exists>av \<in> set (fetched_ok S). disagrees read keccak av")
    case True
    then have n: "results = None" "h1 = mark_reconcile_halted h" "logs1 \<noteq> []" using spec by auto
    have "out = Halted \<and> h' = h1 \<and> logs = logs1"
      using rec branch sr cs n unfolding reconcile_def cands_def[symmetric] S
      by (auto simp: Let_def split: checkpoint_outcome.splits)
    then show ?thesis using True n by (auto simp: mark_reconcile_halted_def)
  next
    case False
    then have n: "results = Some (map (\<lambda>(_, r). if is_ok r then Matched else FetchFailed) S)" "h1 = h" using spec by auto
    let ?results = "map (\<lambda>(_, r). if is_ok r then Matched else FetchFailed) S"
    let ?outcome = "classify_checkpoint (length cands) ?results lag"
    let ?k = "length (fetched_ok S)"
    let ?h = "record_reconcile_checkpoint now n ?k (blind lag cands S) False h"
    let ?line = "case ?outcome of EmptyCheckpoint \<Rightarrow> [CheckpointEmpty n] | Success checked \<Rightarrow> [CheckpointExact n checked]
      | Dark attempted \<Rightarrow> CheckpointDark n attempted (rh_consecutive_dark ?h) (since_last_success now ?h) # maybe_escalate ?h (rcfg_every cfg)
      | Deferred _ \<Rightarrow> []"
    have oc: "?outcome = (if cands = [] then EmptyCheckpoint else if 0 < ?k then Success ?k else Dark (length S))"
      using lag by (simp only: classify_checkpoint_def matched_count Let_def if_False length_map length_0_conv)
    have empty: "cands = [] \<Longrightarrow> S = []" by (simp add: S)
    have rc: "(case ?outcome of Success checked \<Rightarrow> (checked, False) | Dark _ \<Rightarrow> (0, True) | _ \<Rightarrow> (0, False)) = (?k, blind lag cands S)"
      unfolding oc using lag empty by (auto simp: blind_def)
    obtain r res2 h2 out2 t2 where dr: "drain_reservoir confirm read keccak n (take reservoir_drain_per_checkpoint reservoir)
        (drop reservoir_drain_per_checkpoint reservoir) ?h t1 = (r, res2, h2, out2, t2)" by (metis prod.exhaust)
    have whole: "out = r \<and> reservoir' = res2 \<and> h' = set_reservoir_len (of_nat (length res2)) h2 \<and>
        (\<exists>tail. logs = (logs1 @ ?line) @ out2 @ tail \<and> \<not> list_ex is_escalation tail)"
      using rec branch sr cs n rc dr unfolding reconcile_def cands_def[symmetric] S reservoir_pop_front_up_to_def
      by (auto simp: Let_def split: checkpoint_outcome.splits)
    have line: "?line \<noteq> []" unfolding oc by simp
    have esc: "list_ex is_escalation ?line \<longleftrightarrow> blind lag cands S \<and> should_escalate (rh_consecutive_dark ?h)"
      unfolding oc using lag empty maybe_escalate_logs by (auto simp: blind_def)
    note quiet = compare_samples_quiet[OF cs] drain_reservoir_quiet[OF dr]
    have cap2: "length (drop reservoir_drain_per_checkpoint reservoir) + length (take reservoir_drain_per_checkpoint reservoir) \<le> deferred_reservoir_cap"
      using cap unfolding drop_take_length .
    note d = drain_reservoir_spec[OF dr cap2, folded D]
    show ?thesis
    proof (cases "\<exists>av \<in> set (fetched_ok D). disagrees read keccak av")
      case True
      then have "\<exists>av \<in> set (fetched_ok (S @ D)). disagrees read keccak av" by auto
      then show ?thesis using d True whole line by (auto simp: set_reservoir_len_def)
    next
      case ok: False
      then have none: "\<not> (\<exists>av \<in> set (fetched_ok (S @ D)). disagrees read keccak av)" using False by auto
      have "r = Continued" "res2 = drop reservoir_drain_per_checkpoint reservoir @ failed_fetches D"
        "h2 = checks_added (length (fetched_ok D)) ?h" using d ok by auto
      moreover from whole obtain tail where "logs = (logs1 @ ?line) @ out2 @ tail" "\<not> list_ex is_escalation tail" by blast
      then have "logs \<noteq> []" "list_ex is_escalation logs \<longleftrightarrow> blind lag cands S \<and> should_escalate (rh_consecutive_dark ?h)"
        using line esc quiet by auto
      ultimately show ?thesis unfolding if_not_P[OF none] using whole by blast
    qed
  qed
qed


section \<open>Requests and the reservoir\<close>

text \<open>A source that counts its requests, which is what \<open>ConfirmSource\<close> is for an RPC client.\<close>

locale counted_source =
  fixes confirm :: confirm_source
  assumes request_time: "confirm a n t = (r, t') \<Longrightarrow> t' = Suc t"
begin

lemma sample_reference_requests:
  "sample_reference confirm n samples budget k m cands t = (outcomes, t') \<Longrightarrow>
     t' = t + length outcomes \<and> length outcomes \<le> budget - m \<and> length outcomes \<le> length cands"
proof (induction cands arbitrary: k m t outcomes t')
  case (Cons a cands)
  show ?case
  proof (cases "samples \<le> k \<or> budget \<le> m")
    case False
    obtain r t1 where b: "confirm a n t = (r, t1)" by fastforce
    obtain os t2 where s: "sample_reference confirm n samples budget (if is_ok r then Suc k else k) (Suc m) cands t1 = (os, t2)"
      by fastforce
    show ?thesis using Cons.IH[OF s] Cons.prems False b s request_time[OF b] by auto
  qed (use Cons.prems in auto)
qed simp

lemma drain_reservoir_requests:
  "drain_reservoir confirm read keccak n popped addrs h t = (out, addrs', h', logs, t') \<Longrightarrow> t' \<le> t + length popped"
proof (induction popped arbitrary: addrs h t out addrs' h' logs t')
  case (Cons a popped)
  obtain r t1 where b: "confirm a n t = (r, t1)" by fastforce
  note t1 = request_time[OF b]
  show ?case
  proof (cases r)
    case (Inl e)
    obtain r1 addrs1 h1 logs1 t2 where d: "drain_reservoir confirm read keccak n popped (reservoir_requeue a addrs) h t1 =
        (r1, addrs1, h1, logs1, t2)" by (metis prod.exhaust)
    show ?thesis using Cons.prems Cons.IH[OF d] b Inl d t1 by auto
  next
    case (Inr v)
    obtain m h1 k where o: "compare_one read keccak a n v True h = (m, h1, k)" by (metis prod.exhaust)
    obtain r1 addrs1 h2 logs1 t2 where d: "drain_reservoir confirm read keccak n popped addrs (record_reservoir_check h1) t1 =
        (r1, addrs1, h2, logs1, t2)" by (metis prod.exhaust)
    show ?thesis using Cons.prems Cons.IH[OF d] b Inr o d t1 by (cases m) auto
  qed
qed simp

lemma reconcile_time:
  assumes rec: "reconcile confirm read keccak now n lag changed credited cfg reservoir h t = (out, reservoir', h', logs, t')"
    and lag: "\<not> recent_depth_blocks < lag"
  shows "t' \<le> t + 2 * rcfg_samples cfg + reservoir_drain_per_checkpoint"
proof -
  let ?cands = "reconcile_candidates (rcfg_complete cfg) changed credited"
  obtain outcomes t1 where sr: "sample_reference confirm n (rcfg_samples cfg) (attempt_budget (rcfg_samples cfg)) 0 0 ?cands t =
      (outcomes, t1)" by fastforce
  have t1: "t1 \<le> t + 2 * rcfg_samples cfg"
    using sample_reference_requests[OF sr] by (auto simp: attempt_budget_def)
  have branch: "\<exists>c. classify_checkpoint (length ?cands) [] lag = c \<and> (\<forall>l. c \<noteq> Deferred l)"
    using lag by (simp add: classify_checkpoint_def)
  obtain results h1 logs1 where cs: "compare_samples read keccak n (zip ?cands outcomes) logger_new h = (results, h1, logs1)"
    by (metis prod.exhaust)
  show ?thesis
  proof (cases results)
    case None
    have "t' = t1" using rec branch sr cs None unfolding reconcile_def by (auto simp: Let_def split: checkpoint_outcome.splits)
    then show ?thesis using t1 by simp
  next
    case (Some rs)
    obtain k dark where kd: "(case classify_checkpoint (length ?cands) rs lag of Success checked \<Rightarrow> (checked, False)
        | Dark _ \<Rightarrow> (0, True) | _ \<Rightarrow> (0, False)) = (k, dark)" by (metis prod.exhaust)
    let ?h = "record_reconcile_checkpoint now n k dark False h1"
    obtain r res2 h3 logs2 t2 where dr: "drain_reservoir confirm read keccak n (take reservoir_drain_per_checkpoint reservoir)
        (drop reservoir_drain_per_checkpoint reservoir) ?h t1 = (r, res2, h3, logs2, t2)" by (metis prod.exhaust)
    have "t' = t2"
      using rec branch sr cs Some kd dr unfolding reconcile_def reservoir_pop_front_up_to_def
      by (auto simp: Let_def split: checkpoint_outcome.splits)
    then have "t' \<le> t1 + length (take reservoir_drain_per_checkpoint reservoir)" using drain_reservoir_requests[OF dr] by simp
    then show ?thesis using t1 by simp
  qed
qed

end

lemma balance_at_time: "balance_at ext url a n t = (r, t') \<Longrightarrow> t' = Suc t"
  by (auto simp: balance_at_def balance_at_raw_def rpc_call_def)

interpretation rpc_source: counted_source "balance_at ext url" for ext url
  by unfold_locales (rule balance_at_time)

lemma reservoir_insert_many_spec:
  assumes "distinct addrs" and "length addrs \<le> deferred_reservoir_cap"
  shows "distinct (reservoir_insert_many cands addrs) \<and> length (reservoir_insert_many cands addrs) \<le> deferred_reservoir_cap \<and>
    set addrs \<subseteq> set (reservoir_insert_many cands addrs) \<and>
    (\<forall>a \<in> set cands. a \<in> set (reservoir_insert_many cands addrs) \<or> length (reservoir_insert_many cands addrs) = deferred_reservoir_cap)"
  using assms
proof (induction cands arbitrary: addrs)
  case (Cons a cands)
  show ?case
  proof (cases "deferred_reservoir_cap \<le> length addrs")
    case True
    with Cons.prems show ?thesis by auto
  next
    case False
    let ?addrs = "if a \<in> set addrs then addrs else addrs @ [a]"
    have "distinct ?addrs" "length ?addrs \<le> deferred_reservoir_cap" "a \<in> set ?addrs" "set addrs \<subseteq> set ?addrs"
      using Cons.prems False by auto
    with Cons.IH[of ?addrs] show ?thesis using False by auto
  qed
qed simp

lemma drain_fetches_split: "a \<in> set popped \<Longrightarrow>
  a \<in> set (failed_fetches (drain_fetches confirm n popped t)) \<or> (\<exists>v. (a, v) \<in> set (fetched_ok (drain_fetches confirm n popped t)))"
proof (induction popped arbitrary: t)
  case (Cons b popped)
  obtain r t1 where b: "confirm b n t = (r, t1)" by fastforce
  show ?case using Cons.prems Cons.IH[of t1] b by (cases r) auto
qed simp

lemma failed_fetches_sublist:
  "set (failed_fetches (drain_fetches confirm n popped t)) \<subseteq> set popped \<and>
   length (failed_fetches (drain_fetches confirm n popped t)) \<le> length popped \<and>
   (distinct popped \<longrightarrow> distinct (failed_fetches (drain_fetches confirm n popped t)))"
proof (induction popped arbitrary: t)
  case (Cons b popped)
  obtain r t1 where b: "confirm b n t = (r, t1)" by fastforce
  show ?case using Cons.IH[of t1] b by (cases r) auto
qed simp

text \<open>A checkpoint that asked and got no answer leaves its candidates out of the reservoir.\<close>

lemma dark_candidates_not_queued:
  assumes "reconcile confirm read keccak now n lag changed credited cfg reservoir h t = (Continued, reservoir', h', logs, t')"
    and "\<not> recent_depth_blocks < lag" and "length reservoir \<le> deferred_reservoir_cap"
  shows "set reservoir' \<subseteq> set reservoir"
proof -
  note spec = reconcile_spec[OF assms]
  let ?D = "drained_fetches confirm n (rcfg_samples cfg) (reconcile_candidates (rcfg_complete cfg) changed credited) reservoir t"
  have "reservoir' = drop reservoir_drain_per_checkpoint reservoir @ failed_fetches ?D"
    using spec by (auto split: if_splits)
  moreover have "set (failed_fetches ?D) \<subseteq> set (take reservoir_drain_per_checkpoint reservoir)"
    using failed_fetches_sublist unfolding drained_fetches_def by blast
  ultimately show ?thesis using set_take_subset set_drop_subset by fastforce
qed

section \<open>Properties\<close>

text \<open>C34. The backstop halts on a wrong balance and on nothing else.  A checkpoint returns \<open>Halted\<close>
  exactly when one of the balances it fetched, for a sampled candidate or for a reservoir entry, is
  not the balance the verified read of the store returns; a failed request, a dark or a deferred
  checkpoint never halts; the health record says halted exactly when some checkpoint did.\<close>

theorem reconcile_halts_exactly_on_disagreement:
  assumes "reconcile confirm read keccak now n lag changed credited cfg reservoir h t = (out, reservoir', h', logs, t')"
    and "length reservoir \<le> deferred_reservoir_cap"
  shows "(out = Halted \<longleftrightarrow> (\<exists>av \<in> set (references confirm n lag (rcfg_samples cfg)
        (reconcile_candidates (rcfg_complete cfg) changed credited) reservoir t). disagrees read keccak av)) \<and>
    (rh_halted h' \<longleftrightarrow> rh_halted h \<or> out = Halted) \<and> logs \<noteq> []"
proof (cases "recent_depth_blocks < lag")
  case True
  then show ?thesis
    using reconcile_deferred[OF True, of now n cfg changed credited reservoir h confirm read keccak t] assms(1)
    by (auto simp: references_def record_reconcile_checkpoint_def set_reservoir_len_def Let_def)
next
  case False
  note spec = reconcile_spec[OF assms(1) False assms(2)]
  let ?S = "sampled confirm n (rcfg_samples cfg) (reconcile_candidates (rcfg_complete cfg) changed credited) t"
  let ?D = "drained_fetches confirm n (rcfg_samples cfg) (reconcile_candidates (rcfg_complete cfg) changed credited) reservoir t"
  have refs: "references confirm n lag (rcfg_samples cfg) (reconcile_candidates (rcfg_complete cfg) changed credited) reservoir t =
      fetched_ok (?S @ ?D)" using False by (simp only: references_def if_False)
  show ?thesis
  proof (cases "\<exists>av \<in> set (fetched_ok (?S @ ?D)). disagrees read keccak av")
    case True
    then show ?thesis using spec unfolding refs by simp
  next
    case none: False
    from spec[unfolded if_not_P[OF none]] obtain h1 k b m l where
      "out = Continued" "h1 = record_reconcile_checkpoint now n k b False h" "h' = set_reservoir_len l (checks_added m h1)" "logs \<noteq> []"
      by blast
    then show ?thesis using none unfolding refs
      by (simp add: record_reconcile_checkpoint_def set_reservoir_len_def checks_added_def Let_def)
  qed
qed


definition sample_config :: reconcile_config where
  "sample_config = \<lparr> rcfg_complete = True, rcfg_samples = 1, rcfg_every = 32 \<rparr>"

lemma sample_sampled:
  "sampled (balance_at sample_providers ''a'') 10 (Suc 0) [[1]] 0 = [([1], Inr 7)]"
  "drained_fetches (balance_at sample_providers ''a'') 10 (Suc 0) [[1]] [[2]] 0 = [([2], Inr 7)]"
  by (simp_all add: sampled_def drained_fetches_def sample_balances attempt_budget_def reservoir_drain_per_checkpoint_def)

lemma sample_candidates: "reconcile_candidates (rcfg_complete sample_config) [([1], 7)] [] = [[1]]"
  by (simp add: reconcile_candidates_def)

theorem reconcile_halts_exactly_on_disagreement_witness:
  "fst (reconcile (balance_at sample_providers ''a'') (\<lambda>_. Inr (Some 5)) rev 100 10 0 [([1], 7)] [] sample_config [[2]] health_default 0) = Halted \<and>
   fst (reconcile (balance_at sample_providers ''a'') (\<lambda>_. Inr (Some 7)) rev 100 10 0 [([1], 7)] [] sample_config [[2]] health_default 0) \<noteq> Halted"
proof -
  have refs: "references (balance_at sample_providers ''a'') 10 0 (rcfg_samples sample_config)
      (reconcile_candidates (rcfg_complete sample_config) [([1], 7)] []) [[2]] 0 = [([1], 7), ([2], 7)]"
    unfolding sample_candidates
    by (simp add: references_def recent_depth_blocks_def sample_config_def sample_sampled)
  have cap: "length [[2 :: u8]] \<le> deferred_reservoir_cap" by (simp add: deferred_reservoir_cap_def)
  have "fst (reconcile (balance_at sample_providers ''a'') read rev 100 10 0 [([1], 7)] [] sample_config [[2]] health_default 0) = Halted \<longleftrightarrow>
      (\<exists>av \<in> set [([1 :: u8], 7 :: balance), ([2], 7)]. disagrees read rev av)" for read
  proof -
    obtain out reservoir' h' logs t' where r: "reconcile (balance_at sample_providers ''a'') read rev 100 10 0 [([1], 7)] []
        sample_config [[2]] health_default 0 = (out, reservoir', h', logs, t')" by (metis prod.exhaust)
    from reconcile_halts_exactly_on_disagreement[OF r cap] r show ?thesis unfolding refs by simp
  qed
  from this[of "\<lambda>_. Inr (Some 5)"] this[of "\<lambda>_. Inr (Some 7)"] show ?thesis
    by (simp add: disagrees_def read_or_zero_def)
qed

text \<open>Verification is deferred, bounded and never skipped.  A checkpoint against an RPC client
  sends at most twice the sample count and two requests more, and none when the block is more than
  64 behind the finalized head; the reservoir never exceeds its 256 entries and holds none twice;
  an address leaves it only after a comparison at this block found the store exact; and a deferred
  checkpoint queues its candidates, in order, until the reservoir is full.\<close>

theorem reconcile_defers_and_never_skips:
  assumes rec: "reconcile (balance_at ext url) read keccak now n lag changed credited cfg reservoir h t = (out, reservoir', h', logs, t')"
    and inv: "distinct reservoir" "length reservoir \<le> deferred_reservoir_cap"
  shows "t' \<le> t + 2 * rcfg_samples cfg + reservoir_drain_per_checkpoint \<and> (recent_depth_blocks < lag \<longrightarrow> t' = t) \<and>
    (out = Continued \<longrightarrow> distinct reservoir' \<and> length reservoir' \<le> deferred_reservoir_cap \<and>
       (\<forall>a \<in> set reservoir. a \<in> set reservoir' \<or>
          (\<exists>v. (a, v) \<in> set (references (balance_at ext url) n lag (rcfg_samples cfg)
                 (reconcile_candidates (rcfg_complete cfg) changed credited) reservoir t) \<and>
               read_or_zero read (keccak a) = Inr v)) \<and>
       (recent_depth_blocks < lag \<longrightarrow> (\<forall>a \<in> set (reconcile_candidates (rcfg_complete cfg) changed credited).
          a \<in> set reservoir' \<or> length reservoir' = deferred_reservoir_cap)))"
proof (cases "recent_depth_blocks < lag")
  case True
  have "reservoir' = reservoir_insert_many (reconcile_candidates (rcfg_complete cfg) changed credited) reservoir" "t' = t"
    using reconcile_deferred[OF True, of now n cfg changed credited reservoir h "balance_at ext url" read keccak t] rec by auto
  then show ?thesis using reservoir_insert_many_spec[OF inv] by auto
next
  case False
  let ?cands = "reconcile_candidates (rcfg_complete cfg) changed credited"
  let ?S = "sampled (balance_at ext url) n (rcfg_samples cfg) ?cands t"
  let ?D = "drained_fetches (balance_at ext url) n (rcfg_samples cfg) ?cands reservoir t"
  note spec = reconcile_spec[OF rec False inv(2)]
  have refs: "references (balance_at ext url) n lag (rcfg_samples cfg) ?cands reservoir t = fetched_ok (?S @ ?D)"
    using False by (simp only: references_def if_False)
  have time: "t' \<le> t + 2 * rcfg_samples cfg + reservoir_drain_per_checkpoint"
    by (rule rpc_source.reconcile_time[OF rec False])
  show ?thesis
  proof (cases "\<exists>av \<in> set (fetched_ok (?S @ ?D)). disagrees read keccak av")
    case True
    then have "out = Halted" using spec by simp
    then show ?thesis using time False by simp
  next
    case none: False
    let ?popped = "take reservoir_drain_per_checkpoint reservoir"
    obtain t1 where D: "?D = drain_fetches (balance_at ext url) n ?popped t1" by (simp add: drained_fetches_def)
    note ff = failed_fetches_sublist[of "balance_at ext url" n ?popped t1, folded D]
    have r': "reservoir' = drop reservoir_drain_per_checkpoint reservoir @ failed_fetches ?D"
      using spec[unfolded if_not_P[OF none]] by blast
    have dist: "distinct ?popped" "distinct (drop reservoir_drain_per_checkpoint reservoir)"
      "set (drop reservoir_drain_per_checkpoint reservoir) \<inter> set ?popped = {}"
      using inv(1) set_take_disj_set_drop_if_distinct[OF inv(1), of reservoir_drain_per_checkpoint reservoir_drain_per_checkpoint] by auto
    have "distinct reservoir'" unfolding r' using ff dist by auto
    moreover have "length reservoir' \<le> deferred_reservoir_cap"
    proof -
      have "length reservoir' \<le> length (drop reservoir_drain_per_checkpoint reservoir) + length ?popped"
        unfolding r' length_append using ff by simp
      also have "\<dots> = length reservoir" by (rule drop_take_length)
      finally show ?thesis using inv(2) by simp
    qed
    moreover have "a \<in> set reservoir' \<or> (\<exists>v. (a, v) \<in> set (fetched_ok (?S @ ?D)) \<and> read_or_zero read (keccak a) = Inr v)"
      if "a \<in> set reservoir" for a
    proof -
      have "a \<in> set (drop reservoir_drain_per_checkpoint reservoir) \<or> a \<in> set ?popped"
        using that by (metis Un_iff append_take_drop_id set_append)
      then consider "a \<in> set (drop reservoir_drain_per_checkpoint reservoir)" | "a \<in> set (failed_fetches ?D)"
        | v where "(a, v) \<in> set (fetched_ok ?D)"
        using drain_fetches_split[of a ?popped "balance_at ext url" n t1] unfolding D by blast
      then show ?thesis
      proof cases
        case 3
        then have "(a, v) \<in> set (fetched_ok (?S @ ?D))" by simp
        moreover from this none have "\<not> disagrees read keccak (a, v)" by blast
        then have "read_or_zero read (keccak a) = Inr v" by (simp add: disagrees_def)
        ultimately show ?thesis by blast
      qed (auto simp: r')
    qed
    ultimately show ?thesis using time False unfolding refs by simp
  qed
qed


theorem reconcile_defers_and_never_skips_witness:
  "snd (snd (snd (snd (reconcile (balance_at sample_providers ''a'') (\<lambda>_. Inr (Some 7)) rev 100 10 0 [([1], 7)] [] sample_config
     [[2]] health_default 0)))) \<le> 4"
proof -
  obtain out reservoir' h' logs t' where r: "reconcile (balance_at sample_providers ''a'') (\<lambda>_. Inr (Some 7)) rev 100 10 0 [([1], 7)] []
      sample_config [[2]] health_default 0 = (out, reservoir', h', logs, t')" by (metis prod.exhaust)
  have "distinct [[2 :: u8]]" "length [[2 :: u8]] \<le> deferred_reservoir_cap" by (simp_all add: deferred_reservoir_cap_def)
  from reconcile_defers_and_never_skips[OF r this, THEN conjunct1] r show ?thesis
    by (simp add: sample_config_def reservoir_drain_per_checkpoint_def)
qed

text \<open>Nothing to check, nothing answered and something answered are never confused.  After a
  checkpoint that does not halt, the health record counts exactly the comparisons that completed;
  the dark streak restarts when there was one, grows by one when the checkpoint was blind (deferred,
  or with candidates of which none was answered), and stays when there was nothing to check; the
  last success moves only with a completed comparison; every checkpoint logs, and it escalates
  exactly when it was blind and the streak reached a multiple of twenty.\<close>

theorem checkpoint_health_accounts_for_darkness:
  assumes rec: "reconcile confirm read keccak now n lag changed credited cfg reservoir h t = (Continued, reservoir', h', logs, t')"
    and cap: "length reservoir \<le> deferred_reservoir_cap"
    and cands: "cands = reconcile_candidates (rcfg_complete cfg) changed credited"
    and fs: "fs = (if recent_depth_blocks < lag then [] else sampled confirm n (rcfg_samples cfg) cands t)"
  shows "rh_last_checkpoint_block h' = n \<and> rh_checkpoints_total h' = rh_checkpoints_total h + 1 \<and>
    rh_comparisons_total h' = rh_comparisons_total h + of_nat (length (fetched_ok fs)) \<and>
    rh_consecutive_dark h' = (if fetched_ok fs \<noteq> [] then 0
      else if blind lag cands fs then rh_consecutive_dark h + 1 else rh_consecutive_dark h) \<and>
    rh_last_success_block h' = (if fetched_ok fs \<noteq> [] then n else rh_last_success_block h) \<and>
    rh_reservoir_len h' = of_nat (length reservoir') \<and> logs \<noteq> [] \<and>
    (list_ex is_escalation logs \<longleftrightarrow> blind lag cands fs \<and> should_escalate (rh_consecutive_dark h'))"
proof (cases "recent_depth_blocks < lag")
  case True
  then have b: "blind lag cands fs" "fetched_ok fs = []" by (simp_all add: blind_def fs)
  show ?thesis
    using reconcile_deferred[OF True, of now n cfg changed credited reservoir h confirm read keccak t] rec b
    by (auto simp: record_reconcile_checkpoint_def set_reservoir_len_def Let_def maybe_escalate_logs)
next
  case False
  let ?D = "drained_fetches confirm n (rcfg_samples cfg) cands reservoir t"
  have f: "fs = sampled confirm n (rcfg_samples cfg) cands t" using False fs by simp
  note spec = reconcile_spec[OF rec False cap, folded cands, folded f]
  have none: "\<not> (\<exists>av \<in> set (fetched_ok (fs @ ?D)). disagrees read keccak av)"
    using spec by (auto split: if_splits)
  from spec[unfolded if_not_P[OF none]] obtain h1 where h1:
    "h1 = record_reconcile_checkpoint now n (length (fetched_ok fs)) (blind lag cands fs) False h"
    "h' = set_reservoir_len (of_nat (length reservoir')) (checks_added (length (fetched_ok ?D)) h1)" "logs \<noteq> []"
    "list_ex is_escalation logs \<longleftrightarrow> blind lag cands fs \<and> should_escalate (rh_consecutive_dark h1)" by blast
  have "rh_consecutive_dark h' = rh_consecutive_dark h1" unfolding h1(2) by (simp add: set_reservoir_len_def checks_added_def)
  then show ?thesis using h1
    by (simp add: record_reconcile_checkpoint_def set_reservoir_len_def checks_added_def Let_def)
qed

theorem checkpoint_health_accounts_for_darkness_witness:
  "\<exists>reservoir' h' logs t'. reconcile (balance_at sample_providers ''a'') (\<lambda>_. Inr (Some 7)) rev 100 10 65 [([1], 7)] [] sample_config
     [[2]] (health_default\<lparr> rh_consecutive_dark := 19 \<rparr>) 0 = (Continued, reservoir', h', logs, t') \<and>
     rh_consecutive_dark h' = 20 \<and> list_ex is_escalation logs"
proof -
  have deep: "recent_depth_blocks < 65" by (simp add: recent_depth_blocks_def)
  let ?h = "health_default\<lparr> rh_consecutive_dark := 19 \<rparr>"
  from reconcile_deferred[OF deep] obtain reservoir' h' logs t' where
    r: "reconcile (balance_at sample_providers ''a'') (\<lambda>_. Inr (Some 7)) rev 100 10 65 [([1], 7)] [] sample_config [[2]] ?h 0 =
      (Continued, reservoir', h', logs, t')" by blast
  have cap: "length [[2 :: u8]] \<le> deferred_reservoir_cap" by (simp add: deferred_reservoir_cap_def)
  note s = checkpoint_health_accounts_for_darkness[OF r cap refl refl]
  have b: "blind 65 c fs" for c fs using deep by (simp add: blind_def)
  have "rh_consecutive_dark h' = 20" using s b deep by (simp add: health_default_def)
  moreover have "should_escalate 20" by (simp add: should_escalate_def dark_escalation_threshold_def)
  ultimately show ?thesis using s b r by auto
qed

end
