(* ===== verification/Prefetch.thy ===== *)
theory Prefetch
  imports Feed_Rpc "HOL-Library.Multiset"
begin

text \<open>
  Model of \<open>crates/risepir-rpc/src/prefetch.rs\<close>: the bounded lookahead the follow loop fetches
  its blocks through.

  A fetch task is known by its number, the order of its \<open>tokio::spawn\<close>; \<open>spawned\<close> lists the
  block of every task so far, and \<open>join i b\<close> is what awaiting task \<open>i\<close>, which fetches
  block \<open>b\<close>, gives: \<open>Inl\<close> a task that did not complete, \<open>Inr\<close> the result of
  \<open>BlockSource::block_update\<close>.  When a task runs and how long it takes does not appear: the
  applier only ever sees its result.  \<open>None\<close> is a panic (the \<open>expect\<close> of \<open>fetch\<close>).

  The lemmas: blocks are delivered consecutively, each by its own task; the window stays within
  its depth and the head; and what the applier sees does not depend on the depth.
\<close>

section \<open>The prefetcher\<close>

datatype fetch_failure = FetchFeed feed_error | FetchTask string

type_synonym task_results = "nat \<Rightarrow> u64 \<Rightarrow> string + (feed_error + fetched_block)"

record block_prefetch =
  pf_depth :: nat
  pf_head :: u64
  pf_inflight :: "(u64, nat) btree"

definition prefetch_new :: "nat \<Rightarrow> block_prefetch" where
  "prefetch_new depth = \<lparr> pf_depth = max depth 1, pf_head = 0, pf_inflight = [] \<rparr>"

text \<open>\<open>split_off\<close>: the entries below the key stay, the others are returned.\<close>

definition bt_split_off :: "'k::linorder \<Rightarrow> ('k, 'v) btree \<Rightarrow> ('k, 'v) btree \<times> ('k, 'v) btree" where
  "bt_split_off k m = (filter (\<lambda>(b, _). b < k) m, filter (\<lambda>(b, _). k \<le> b) m)"

text \<open>With the new state, the tasks that were aborted.\<close>

definition set_head :: "u64 \<Rightarrow> block_prefetch \<Rightarrow> block_prefetch \<times> nat list" where
  "set_head head p =
     (case bt_split_off (saturating_add_u head 1) (pf_inflight p) of
        (kept, gone) \<Rightarrow> (p\<lparr> pf_head := head, pf_inflight := kept \<rparr>, map snd gone))"

definition window_through :: "u64 \<Rightarrow> block_prefetch \<Rightarrow> u64" where
  "window_through n p = max (min (saturating_add_u n (of_nat (pf_depth p) - 1)) (pf_head p)) n"

definition blocks_between :: "u64 \<Rightarrow> u64 \<Rightarrow> u64 list" where
  "blocks_between a b = map of_nat [unat a ..< Suc (unat b)]"

fun top_up :: "u64 list \<Rightarrow> (u64, nat) btree \<Rightarrow> u64 list \<Rightarrow> (u64, nat) btree \<times> u64 list" where
  "top_up [] m spawned = (m, spawned)"
| "top_up (b # bs) m spawned =
     (case bt_get m b of
        Some _ \<Rightarrow> top_up bs m spawned
      | None \<Rightarrow> top_up bs (bt_insert b (length spawned) m) (spawned @ [b]))"

definition open_window :: "u64 \<Rightarrow> block_prefetch \<Rightarrow> u64 list \<Rightarrow> block_prefetch \<times> u64 list" where
  "open_window n p spawned =
     (case top_up (blocks_between n (window_through n p)) (pf_inflight p) spawned of
        (m, spawned) \<Rightarrow> (p\<lparr> pf_inflight := m \<rparr>, spawned))"

definition join_outcome :: "string + (feed_error + fetched_block) \<Rightarrow> fetch_failure + fetched_block" where
  "join_outcome joined =
     (case joined of
        Inr (Inr block) \<Rightarrow> Inr block
      | Inr (Inl e) \<Rightarrow> Inl (FetchFeed e)
      | Inl detail \<Rightarrow> Inl (FetchTask detail))"

definition collect :: "task_results \<Rightarrow> u64 \<Rightarrow> block_prefetch \<Rightarrow> u64 list
    \<Rightarrow> ((fetch_failure + fetched_block) \<times> block_prefetch) option" where
  "collect join n p spawned =
     map_option (\<lambda>i. (join_outcome (join i (spawned ! i)), p\<lparr> pf_inflight := bt_remove n (pf_inflight p) \<rparr>))
       (bt_get (pf_inflight p) n)"

definition prefetch_fetch :: "task_results \<Rightarrow> u64 \<Rightarrow> block_prefetch \<Rightarrow> u64 list
    \<Rightarrow> ((fetch_failure + fetched_block) \<times> block_prefetch \<times> u64 list) option" where
  "prefetch_fetch join n p spawned =
     (case open_window n p spawned of
        (p, spawned) \<Rightarrow> map_option (\<lambda>(r, p). (r, p, spawned)) (collect join n p spawned))"

text \<open>\<open>Drop\<close>: every task in flight is aborted.\<close>

definition prefetch_drop :: "block_prefetch \<Rightarrow> nat list" where
  "prefetch_drop p = map snd (pf_inflight p)"

section \<open>The applier\<close>

text \<open>What the applier awaited: the block it asked for, the task that answered, the result.\<close>

type_synonym ask = "u64 \<times> nat \<times> (fetch_failure + fetched_block)"

text \<open>An applier that asks for the block after its last one while that is at or below the head,
  again after a failure; heads may be any; \<open>fetch\<close> may be dropped while it waits.\<close>

inductive prefetch_run :: "task_results \<Rightarrow> nat \<Rightarrow> u64 \<Rightarrow> u64 \<Rightarrow> block_prefetch \<Rightarrow> u64 list \<Rightarrow> ask list \<Rightarrow> nat list \<Rightarrow> bool"
  for join :: task_results and depth :: nat and start :: u64 where
  prefetch_start: "prefetch_run join depth start start (prefetch_new depth) [] [] []"
| prefetch_head: "prefetch_run join depth start at_block p spawned asks aborted \<Longrightarrow> set_head f p = (p', gone) \<Longrightarrow>
     prefetch_run join depth start at_block p' spawned asks (aborted @ gone)"
| prefetch_dropped: "prefetch_run join depth start at_block p spawned asks aborted \<Longrightarrow> at_block < pf_head p \<Longrightarrow>
     open_window (at_block + 1) p spawned = (p', spawned') \<Longrightarrow>
     prefetch_run join depth start at_block p' spawned' asks aborted"
| prefetch_asked: "prefetch_run join depth start at_block p spawned asks aborted \<Longrightarrow> at_block < pf_head p \<Longrightarrow>
     prefetch_fetch join (at_block + 1) p spawned = Some (r, p', spawned') \<Longrightarrow>
     open_window (at_block + 1) p spawned = (p1, spawned') \<Longrightarrow> bt_get (pf_inflight p1) (at_block + 1) = Some i \<Longrightarrow>
     prefetch_run join depth start (if is_ok r then at_block + 1 else at_block) p' spawned'
       (asks @ [(at_block + 1, i, r)]) aborted"

definition delivered :: "ask list \<Rightarrow> (u64 \<times> fetched_block) list" where
  "delivered asks = concat (map (\<lambda>(b, _, r). case r of Inr fb \<Rightarrow> [(b, fb)] | Inl _ \<Rightarrow> []) asks)"

section \<open>One spawn, one window\<close>

lemma bt_split_off_spec:
  "bt_split_off k m = (kept, gone) \<Longrightarrow> mset m = mset kept + mset gone"
  "bt_split_off k m = (kept, gone) \<Longrightarrow> (\<forall>(b, i) \<in> set kept. b < k)"
  "bt_split_off k m = (kept, gone) \<Longrightarrow> set kept \<subseteq> set m"
  "bt_split_off k m = (kept, gone) \<Longrightarrow> bt_invar m \<Longrightarrow> bt_invar kept"
proof -
  assume a: "bt_split_off k m = (kept, gone)"
  then have k: "kept = filter (\<lambda>(b, _). b < k) m" and g: "gone = filter (\<lambda>(b, _). k \<le> b) m"
    by (simp_all add: bt_split_off_def)
  have "gone = filter (\<lambda>x. \<not> (case x of (b, _) \<Rightarrow> b < k)) m"
    unfolding g by (rule filter_cong) auto
  then show "mset m = mset kept + mset gone" unfolding k by (simp add: multiset_partition)
  show "\<forall>(b, i) \<in> set kept. b < k" "set kept \<subseteq> set m" unfolding k by auto
  show "bt_invar m \<Longrightarrow> bt_invar kept" unfolding k by (rule bt_invar_filter)
qed

lemma mset_bt_insert: "map_of m k = None \<Longrightarrow> mset (bt_insert k v m) = add_mset (k, v) (mset m)"
  by (induction m) (auto split: if_splits)

lemma mset_bt_remove: "map_of m k = Some v \<Longrightarrow> add_mset (k, v) (mset (bt_remove k m)) = mset m"
  by (induction m) (auto split: if_splits)

lemma set_bt_insert: "map_of m k = None \<Longrightarrow> set (bt_insert k v m) = insert (k, v) (set m)"
  by (drule mset_bt_insert[of m k v], drule arg_cong[of _ _ set_mset]) simp

lemma set_bt_remove:
  assumes "bt_invar m" and "map_of m k = Some v"
  shows "set m = insert (k, v) (set (bt_remove k m))" and "\<forall>(b, i) \<in> set (bt_remove k m). b \<noteq> k"
proof -
  show "set m = insert (k, v) (set (bt_remove k m))"
    using arg_cong[OF mset_bt_remove[OF assms(2)], of set_mset] by simp
  have "map_of (bt_remove k m) k = None" by (simp add: map_of_bt_remove[OF assms(1)])
  then show "\<forall>(b, i) \<in> set (bt_remove k m). b \<noteq> k" by (force simp: map_of_eq_None_iff)
qed

text \<open>What every spawn keeps, a window keeps.\<close>

lemma top_up_induct:
  assumes "P m spawned"
    and "\<And>b m spawned. P m spawned \<Longrightarrow> b \<in> set bs \<Longrightarrow> map_of m b = None \<Longrightarrow> P (bt_insert b (length spawned) m) (spawned @ [b])"
    and "top_up bs m spawned = (m', spawned')"
  shows "P m' spawned'"
  using assms
proof (induction bs arbitrary: m spawned)
  case (Cons b bs)
  show ?case
  proof (cases "bt_get m b")
    case None
    have "P (bt_insert b (length spawned) m) (spawned @ [b])"
      using Cons.prems(1,2) None by (simp add: bt_get_def)
    from Cons.IH[OF this] show ?thesis using Cons.prems(2,3) None by simp
  next
    case (Some i)
    from Cons.IH[OF Cons.prems(1)] show ?thesis using Cons.prems(2,3) Some by simp
  qed
qed simp

lemma top_up_keeps: "top_up bs m spawned = (m', spawned') \<Longrightarrow> map_of m b \<noteq> None \<Longrightarrow> map_of m' b \<noteq> None"
proof -
  assume a: "top_up bs m spawned = (m', spawned')" and b: "map_of m b \<noteq> None"
  show "map_of m' b \<noteq> None"
    by (rule top_up_induct[where P = "\<lambda>m _. map_of m b \<noteq> None", OF b _ a]) (simp add: map_of_bt_insert)
qed

lemma top_up_covers: "top_up bs m spawned = (m', spawned') \<Longrightarrow> b \<in> set bs \<Longrightarrow> map_of m' b \<noteq> None"
proof (induction bs arbitrary: m spawned)
  case (Cons c bs)
  show ?case
  proof (cases "b \<in> set bs")
    case True
    then show ?thesis using Cons by (auto simp: bt_get_def split: option.splits)
  next
    case False
    then have bc: "b = c" using Cons.prems by simp
    show ?thesis
    proof (cases "bt_get m c")
      case None
      then have "top_up bs (bt_insert c (length spawned) m) (spawned @ [c]) = (m', spawned')"
        using Cons.prems(1) by simp
      from top_up_keeps[OF this, of b] show ?thesis by (simp add: bc map_of_bt_insert)
    next
      case (Some i)
      then have "top_up bs m spawned = (m', spawned')" using Cons.prems(1) by simp
      from top_up_keeps[OF this, of b] show ?thesis using Some by (simp add: bc bt_get_def)
    qed
  qed
qed simp

text \<open>The blocks of a window.\<close>

lemma saturating_add_u_bound: "unat (saturating_add_u a b) \<le> unat a + unat b"
proof (cases "unat a + unat b < 2 ^ LENGTH('a)")
  case True
  then show ?thesis by (simp add: saturating_add_u_def unat_word_ariths)
next
  case False
  have "unat (- 1 :: 'a word) < 2 ^ LENGTH('a)" by (rule unsigned_less)
  then have "unat (- 1 :: 'a word) \<le> unat a + unat b" using False by linarith
  with False show ?thesis unfolding saturating_add_u_def by (simp only: if_False)
qed

lemma below_saturating_suc: "b < saturating_add_u h 1 \<Longrightarrow> b \<le> (h :: u64)"
proof -
  assume b: "b < saturating_add_u h 1"
  have "unat (saturating_add_u h 1) \<le> unat h + 1" using saturating_add_u_bound[of h 1] by simp
  then show ?thesis using b by (simp add: word_less_nat_alt word_le_nat_alt)
qed

lemma in_window:
  assumes b: "b \<in> set (blocks_between n (window_through n p))" and n: "n \<le> pf_head p"
    and d: "0 < pf_depth p" "pf_depth p < 2 ^ 64"
  shows "n \<le> b" and "unat b < unat n + pf_depth p" and "b \<le> pf_head p"
proof -
  let ?t = "window_through n p"
  from b obtain k where k: "unat n \<le> k" "k \<le> unat ?t" "b = of_nat k" by (auto simp: blocks_between_def)
  have "k < 2 ^ 64" using k(2) unsigned_less[of ?t, where 'a = nat] by simp
  then have ub: "unat b = k" by (simp add: k(3) unat_of_nat take_bit_nat_eq_self)
  have e: "(of_nat (pf_depth p) :: u64) - 1 = of_nat (pf_depth p - 1)" using d(1) by (simp add: of_nat_diff)
  then have dd: "unat ((of_nat (pf_depth p) :: u64) - 1) = pf_depth p - 1"
    unfolding e unat_of_nat using d by (simp add: take_bit_nat_eq_self)
  have t: "?t \<le> saturating_add_u n (of_nat (pf_depth p) - 1) \<or> ?t = n" "?t \<le> pf_head p"
    using n by (auto simp: window_through_def max_def min_def)
  show "n \<le> b" using k(1) ub by (simp add: word_le_nat_alt)
  show "b \<le> pf_head p" using k(2) ub t(2) by (simp add: word_le_nat_alt)
  have "unat ?t < unat n + pf_depth p"
    using t(1) saturating_add_u_bound[of n "of_nat (pf_depth p) - 1"] dd d(1) by (auto simp: word_le_nat_alt)
  then show "unat b < unat n + pf_depth p" using k(2) ub by simp
qed

lemma window_has_n: "n \<in> set (blocks_between n (window_through n p))"
proof -
  have "n \<le> window_through n p" by (simp add: window_through_def)
  then have "unat n \<in> set [unat n ..< Suc (unat (window_through n p))]" by (auto simp: word_le_nat_alt)
  then have "of_nat (unat n) \<in> set (blocks_between n (window_through n p))"
    unfolding blocks_between_def set_map by (rule imageI)
  then show ?thesis by simp
qed

section \<open>The invariant of a run\<close>

definition ask_tasks :: "ask list \<Rightarrow> nat list" where
  "ask_tasks asks = map (\<lambda>(_, i, _). i) asks"

text \<open>Every task is in flight, collected or aborted; a block is asked of a new task only when its
  earlier ones are over without it.\<close>

definition tasks_ok :: "(u64, nat) btree \<Rightarrow> u64 list \<Rightarrow> ask list \<Rightarrow> nat list \<Rightarrow> bool" where
  "tasks_ok m spawned asks aborted \<longleftrightarrow>
     bt_invar m \<and> mset (map snd m) + mset (ask_tasks asks) + mset aborted = mset [0..<length spawned] \<and>
     (\<forall>(b, i) \<in> set m. spawned ! i = b) \<and>
     (\<forall>i j. i < j \<and> j < length spawned \<and> spawned ! i = spawned ! j \<longrightarrow>
        i \<in> set aborted \<or> (\<exists>e. (spawned ! i, i, Inl e) \<in> set asks))"

definition window_ok :: "nat \<Rightarrow> u64 \<Rightarrow> block_prefetch \<Rightarrow> bool" where
  "window_ok depth at_block p \<longleftrightarrow> pf_depth p = max depth 1 \<and>
     (\<forall>(b, i) \<in> set (pf_inflight p). at_block < b \<and> unat b \<le> unat at_block + max depth 1 \<and> b \<le> pf_head p)"

definition asks_ok :: "task_results \<Rightarrow> u64 \<Rightarrow> u64 \<Rightarrow> u64 list \<Rightarrow> ask list \<Rightarrow> bool" where
  "asks_ok join start at_block spawned asks \<longleftrightarrow> start \<le> at_block \<and>
     (\<forall>(b, i, r) \<in> set asks. i < length spawned \<and> spawned ! i = b \<and> r = join_outcome (join i b) \<and> (is_ok r \<longrightarrow> b \<le> at_block)) \<and>
     map (\<lambda>(b, _). unat b) (delivered asks) = [Suc (unat start) ..< Suc (unat at_block)]"

text \<open>Without aborts, the task in flight for a block is its next attempt.\<close>

definition attempts_ok :: "(u64, nat) btree \<Rightarrow> u64 list \<Rightarrow> ask list \<Rightarrow> bool" where
  "attempts_ok m spawned asks \<longleftrightarrow>
     (\<forall>b. count_list spawned b = count_list (map fst asks) b + (if map_of m b = None then 0 else 1)) \<and>
     (\<forall>(b, i) \<in> set m. i < length spawned \<and> count_list (take i spawned) b = count_list (map fst asks) b) \<and>
     (\<forall>k < length asks. case asks ! k of (b, i, _) \<Rightarrow> i < length spawned \<and>
        count_list (take i spawned) b = count_list (map fst (take k asks)) b)"

lemma tasks_ok_ids:
  assumes "tasks_ok m spawned asks aborted"
  shows "set (map snd m) \<union> set (ask_tasks asks) \<union> set aborted = {..<length spawned}"
    and "distinct (ask_tasks asks)"
proof -
  have e: "mset (map snd m) + mset (ask_tasks asks) + mset aborted = mset [0..<length spawned]"
    using assms by (simp add: tasks_ok_def)
  from arg_cong[OF e, of set_mset]
  show "set (map snd m) \<union> set (ask_tasks asks) \<union> set aborted = {..<length spawned}"
    by (auto simp: atLeast0LessThan)
  have "mset (map snd m @ ask_tasks asks @ aborted) = mset [0..<length spawned]" using e by (simp add: add.assoc)
  then have "distinct (map snd m @ ask_tasks asks @ aborted) = distinct [0..<length spawned]" by (rule mset_eq_imp_distinct_iff)
  then show "distinct (ask_tasks asks)" by simp
qed

lemma tasks_ok_inflight: "tasks_ok m spawned asks aborted \<Longrightarrow> (b, i) \<in> set m \<Longrightarrow> i < length spawned"
  using tasks_ok_ids(1)[of m spawned asks aborted] by force

lemma tasks_ok_spawn:
  assumes ok: "tasks_ok m spawned asks aborted" and asks: "asks_ok join start at_block spawned asks"
    and b: "map_of m b = None" "at_block < b"
  shows "tasks_ok (bt_insert b (length spawned) m) (spawned @ [b]) asks aborted"
proof -
  have old: "spawned ! i = b \<Longrightarrow> i < length spawned \<Longrightarrow> i \<in> set aborted \<or> (\<exists>e. (b, i, Inl e) \<in> set asks)" for i
  proof -
    assume i: "spawned ! i = b" "i < length spawned"
    have "i \<notin> snd ` set m" using i(1) b(1) ok unfolding tasks_ok_def by (force simp: map_of_eq_None_iff)
    then have "i \<in> set (ask_tasks asks) \<or> i \<in> set aborted" using tasks_ok_ids(1)[OF ok] i(2) by auto
    then consider "i \<in> set aborted" | c r where "(c, i, r) \<in> set asks" by (force simp: ask_tasks_def)
    then show ?thesis
    proof cases
      case 2
      then have "c = b" "is_ok r \<longrightarrow> c \<le> at_block" using asks i(1) unfolding asks_ok_def by auto
      then show ?thesis using 2 b(2) by (cases r) auto
    qed simp
  qed
  have "\<forall>(c, i) \<in> set (bt_insert b (length spawned) m). (spawned @ [b]) ! i = c"
    using ok tasks_ok_inflight[OF ok] b(1) unfolding tasks_ok_def by (force simp: set_bt_insert nth_append)
  moreover have "i \<in> set aborted \<or> (\<exists>e. ((spawned @ [b]) ! i, i, Inl e) \<in> set asks)"
    if "i < j" "j < length (spawned @ [b])" "(spawned @ [b]) ! i = (spawned @ [b]) ! j" for i j
  proof (cases "j = length spawned")
    case True
    then show ?thesis using that old[of i] by (simp add: nth_append)
  next
    case False
    then have "i < length spawned" "j < length spawned" using that by auto
    then show ?thesis using that ok unfolding tasks_ok_def by (simp add: nth_append)
  qed
  ultimately show ?thesis
    using ok b(1) by (simp add: tasks_ok_def mset_bt_insert bt_invar_insert)
qed

lemma attempts_ok_spawn:
  assumes ok: "attempts_ok m spawned asks" and b: "map_of m b = None"
  shows "attempts_ok (bt_insert b (length spawned) m) (spawned @ [b]) asks"
proof -
  have c: "count_list spawned b = count_list (map fst asks) b" using ok b unfolding attempts_ok_def by simp
  have 1: "\<forall>b'. count_list (spawned @ [b]) b' = count_list (map fst asks) b' + (if map_of (bt_insert b (length spawned) m) b' = None then 0 else 1)"
    using ok b unfolding attempts_ok_def by (simp add: map_of_bt_insert)
  have 2: "\<forall>(b', i) \<in> set (bt_insert b (length spawned) m). i < length (spawned @ [b]) \<and>
      count_list (take i (spawned @ [b])) b' = count_list (map fst asks) b'"
    using ok c b unfolding attempts_ok_def by (auto simp: set_bt_insert)
  have 3: "\<forall>k < length asks. case asks ! k of (b', i, _) \<Rightarrow> i < length (spawned @ [b]) \<and>
      count_list (take i (spawned @ [b])) b' = count_list (map fst (take k asks)) b'"
    using ok unfolding attempts_ok_def by (auto split: prod.splits)
  show ?thesis unfolding attempts_ok_def using 1 2 3 by blast
qed

text \<open>Opening the window.\<close>

lemma unat_next: "a < (b :: u64) \<Longrightarrow> unat (a + 1) = unat a + 1"
proof -
  assume "a < b"
  then have "unat a < unat b" by (simp add: word_less_nat_alt)
  moreover have "unat b < 2 ^ 64" using unsigned_less[of b, where 'a = nat] by simp
  ultimately have "unat a + 1 < 2 ^ 64" by linarith
  then show ?thesis by (simp add: unat_word_ariths)
qed

lemma asks_ok_grow: "asks_ok join start at_block spawned asks \<Longrightarrow> asks_ok join start at_block (spawned @ [b]) asks"
  by (auto simp: asks_ok_def nth_append)

lemma open_window_invar:
  assumes ok: "tasks_ok (pf_inflight p) spawned asks aborted" "asks_ok join start at_block spawned asks"
      "window_ok depth at_block p" and att: "aborted = [] \<longrightarrow> attempts_ok (pf_inflight p) spawned asks"
    and n: "at_block < pf_head p" and d: "depth < 2 ^ 64" and w: "open_window (at_block + 1) p spawned = (p', spawned')"
  shows "tasks_ok (pf_inflight p') spawned' asks aborted \<and> asks_ok join start at_block spawned' asks \<and>
    window_ok depth at_block p' \<and> (aborted = [] \<longrightarrow> attempts_ok (pf_inflight p') spawned' asks) \<and>
    map_of (pf_inflight p') (at_block + 1) \<noteq> None \<and> pf_head p' = pf_head p"
proof -
  let ?n = "at_block + 1" and ?bs = "blocks_between (at_block + 1) (window_through (at_block + 1) p)"
  have un: "unat ?n = unat at_block + 1" by (rule unat_next[OF n])
  then have nh: "?n \<le> pf_head p" using n by (simp add: word_less_nat_alt word_le_nat_alt)
  have dp: "pf_depth p = max depth 1" "0 < pf_depth p" "pf_depth p < 2 ^ 64" using ok(3) d by (auto simp: window_ok_def)
  have bs: "at_block < b \<and> unat b \<le> unat at_block + max depth 1 \<and> b \<le> pf_head p" if "b \<in> set ?bs" for b
    using in_window[OF that nh dp(2,3)] un by (auto simp: word_less_nat_alt word_le_nat_alt dp(1))
  obtain m where m: "top_up ?bs (pf_inflight p) spawned = (m, spawned')" "p' = p\<lparr> pf_inflight := m \<rparr>"
    using w by (auto simp: open_window_def split: prod.splits)
  let ?P = "\<lambda>m sp. tasks_ok m sp asks aborted \<and> asks_ok join start at_block sp asks \<and>
    (\<forall>(b, i) \<in> set m. at_block < b \<and> unat b \<le> unat at_block + max depth 1 \<and> b \<le> pf_head p) \<and>
    (aborted = [] \<longrightarrow> attempts_ok m sp asks)"
  have "?P m spawned'"
  proof (rule top_up_induct[where P = ?P, OF _ _ m(1)])
    show "?P (pf_inflight p) spawned" using ok att by (simp add: window_ok_def)
    fix b m sp assume p: "?P m sp" and b: "b \<in> set ?bs" "map_of m b = None"
    then have "tasks_ok (bt_insert b (length sp) m) (sp @ [b]) asks aborted"
      using tasks_ok_spawn[of m sp asks aborted join start at_block b] bs[OF b(1)] by simp
    then show "?P (bt_insert b (length sp) m) (sp @ [b])"
      using p bs[OF b(1)] b(2) asks_ok_grow attempts_ok_spawn[of m sp asks b] by (auto simp: set_bt_insert)
  qed
  moreover have "map_of m ?n \<noteq> None" by (rule top_up_covers[OF m(1) window_has_n])
  ultimately show ?thesis using ok(3) m(2) by (simp add: window_ok_def)
qed

text \<open>Collecting the block.\<close>

lemma delivered_snoc: "delivered (asks @ [(b, i, r)]) = delivered asks @ (case r of Inr fb \<Rightarrow> [(b, fb)] | Inl _ \<Rightarrow> [])"
  by (simp add: delivered_def)

lemma collect_invar:
  assumes ok: "tasks_ok (pf_inflight p) spawned asks aborted" "asks_ok join start at_block spawned asks"
      "window_ok depth at_block p" and att: "aborted = [] \<longrightarrow> attempts_ok (pf_inflight p) spawned asks"
    and n: "unat (at_block + 1) = unat at_block + 1"
    and i: "map_of (pf_inflight p) (at_block + 1) = Some i"
    and c: "collect join (at_block + 1) p spawned = Some (r, p')"
    and at': "at' = (if is_ok r then at_block + 1 else at_block)"
  shows "tasks_ok (pf_inflight p') spawned (asks @ [(at_block + 1, i, r)]) aborted \<and>
    asks_ok join start at' spawned (asks @ [(at_block + 1, i, r)]) \<and> window_ok depth at' p' \<and>
    (aborted = [] \<longrightarrow> attempts_ok (pf_inflight p') spawned (asks @ [(at_block + 1, i, r)]))"
proof -
  let ?n = "at_block + 1" and ?m = "pf_inflight p" and ?asks = "asks @ [(at_block + 1, i, r)]"
  have inv: "bt_invar ?m" using ok(1) by (simp add: tasks_ok_def)
  note rm = set_bt_remove[OF inv i]
  have mem: "(?n, i) \<in> set ?m" using i by (rule map_of_SomeD)
  have il: "i < length spawned" "spawned ! i = ?n"
    using tasks_ok_inflight[OF ok(1) mem] mem ok(1) by (auto simp: tasks_ok_def)
  have p': "p' = p\<lparr> pf_inflight := bt_remove ?n ?m \<rparr>" "r = join_outcome (join i ?n)"
    using c i il(2) by (auto simp: collect_def bt_get_def)
  have "mset (map snd ?m) = add_mset i (mset (map snd (bt_remove ?n ?m)))"
    using arg_cong[OF mset_bt_remove[OF i], of "image_mset snd"] by simp
  then have t: "mset (map snd (bt_remove ?n ?m)) + mset (ask_tasks ?asks) + mset aborted = mset [0..<length spawned]"
    using ok(1) by (simp add: tasks_ok_def ask_tasks_def)
  have 1: "tasks_ok (pf_inflight p') spawned ?asks aborted"
    unfolding tasks_ok_def
  proof (intro conjI)
    show "bt_invar (pf_inflight p')" using inv by (simp add: p'(1) bt_invar_remove)
    show "mset (map snd (pf_inflight p')) + mset (ask_tasks ?asks) + mset aborted = mset [0..<length spawned]"
    proof -
      have "pf_inflight p' = bt_remove ?n ?m" by (simp add: p'(1))
      then show ?thesis using t by (simp only:)
    qed
    show "\<forall>(b, i) \<in> set (pf_inflight p'). spawned ! i = b"
      using ok(1) rm(1) by (auto simp: tasks_ok_def p'(1))
    show "\<forall>k j. k < j \<and> j < length spawned \<and> spawned ! k = spawned ! j \<longrightarrow>
        k \<in> set aborted \<or> (\<exists>e. (spawned ! k, k, Inl e) \<in> set ?asks)"
      using ok(1) unfolding tasks_ok_def by (meson UnCI set_append[THEN equalityD2, THEN subsetD])
  qed
  have le: "at_block \<le> at'" using n by (auto simp: at' word_le_nat_alt)
  have 2: "asks_ok join start at' spawned ?asks"
  proof (cases r)
    case (Inl e)
    then show ?thesis using ok(2) il p'(2) by (auto simp: asks_ok_def at' delivered_snoc)
  next
    case (Inr fb)
    have s: "start \<le> at_block" using ok(2) by (simp add: asks_ok_def)
    then have "[Suc (unat start) ..< Suc (unat at')] = [Suc (unat start) ..< Suc (unat at_block)] @ [unat at']"
      using n Inr by (simp add: at' word_le_nat_alt)
    moreover have "delivered ?asks = delivered asks @ [(?n, fb)]" by (simp add: delivered_snoc Inr)
    ultimately have "map (\<lambda>(b, _). unat b) (delivered ?asks) = [Suc (unat start) ..< Suc (unat at')]"
      using ok(2) Inr by (simp add: asks_ok_def at' del: upt_Suc)
    moreover have "\<forall>(b, j, q) \<in> set ?asks. j < length spawned \<and> spawned ! j = b \<and> q = join_outcome (join j b) \<and> (is_ok q \<longrightarrow> b \<le> at')"
      using ok(2) il p'(2) le Inr unfolding asks_ok_def by (auto simp: at' intro: order_trans)
    ultimately show ?thesis using s le unfolding asks_ok_def by simp
  qed
  have 3: "window_ok depth at' p'"
  proof -
    have "at' < b \<and> unat b \<le> unat at' + max depth 1 \<and> b \<le> pf_head p"
      if "(b, j) \<in> set (bt_remove ?n ?m)" for b j
    proof -
      have o: "at_block < b" "unat b \<le> unat at_block + max depth 1" "b \<le> pf_head p" "b \<noteq> ?n"
        using that rm ok(3) unfolding window_ok_def by auto
      have "unat b \<noteq> unat ?n" using o(4) by (simp add: word_unat_eq_iff)
      then show ?thesis using o n by (auto simp: at' word_less_nat_alt)
    qed
    then show ?thesis using ok(3) by (auto simp: window_ok_def p')
  qed
  have 4: "attempts_ok (pf_inflight p') spawned ?asks" if ab: "aborted = []"
  proof -
    have a: "attempts_ok ?m spawned asks" using att ab by simp
    have "\<forall>b. count_list spawned b = count_list (map fst ?asks) b + (if map_of (bt_remove ?n ?m) b = None then 0 else 1)"
      using a i unfolding attempts_ok_def by (auto simp: map_of_bt_remove[OF inv])
    moreover have "\<forall>(b, j) \<in> set (bt_remove ?n ?m). j < length spawned \<and> count_list (take j spawned) b = count_list (map fst ?asks) b"
      using a rm unfolding attempts_ok_def by auto
    moreover have "case ?asks ! k of (b, j, _) \<Rightarrow> j < length spawned \<and> count_list (take j spawned) b = count_list (map fst (take k ?asks)) b"
      if "k < length ?asks" for k
    proof (cases "k = length asks")
      case True
      then show ?thesis using a mem unfolding attempts_ok_def by auto
    next
      case False
      then have "k < length asks" using that by simp
      then show ?thesis using a unfolding attempts_ok_def by (simp add: nth_append)
    qed
    ultimately show ?thesis unfolding attempts_ok_def p' by simp
  qed
  show ?thesis using 1 2 3 4 by blast
qed

text \<open>A new head.\<close>

lemma set_head_invar:
  assumes ok: "tasks_ok (pf_inflight p) spawned asks aborted" "window_ok depth at_block p"
    and att: "aborted @ gone = [] \<longrightarrow> attempts_ok (pf_inflight p) spawned asks" and h: "set_head f p = (p', gone)"
  shows "tasks_ok (pf_inflight p') spawned asks (aborted @ gone) \<and> window_ok depth at_block p' \<and>
    (aborted @ gone = [] \<longrightarrow> attempts_ok (pf_inflight p') spawned asks)"
proof -
  obtain kept out where sp: "bt_split_off (saturating_add_u f 1) (pf_inflight p) = (kept, out)"
    by (cases "bt_split_off (saturating_add_u f 1) (pf_inflight p)")
  then have p': "p' = p\<lparr> pf_head := f, pf_inflight := kept \<rparr>" and g: "gone = map snd out"
    using h by (auto simp: set_head_def)
  note s = bt_split_off_spec[OF sp]
  have inv: "bt_invar kept" using s(4) ok(1) by (simp add: tasks_ok_def)
  have "mset (map snd (pf_inflight p)) = mset (map snd kept) + mset gone"
    using arg_cong[OF s(1), of "image_mset snd"] by (simp add: g)
  then have "tasks_ok kept spawned asks (aborted @ gone)"
    using ok(1) inv s(3) unfolding tasks_ok_def by (auto simp: add_ac)
  moreover have "window_ok depth at_block p'"
    using ok(2) s(2,3) below_saturating_suc unfolding window_ok_def p' by fastforce
  moreover have "attempts_ok kept spawned asks" if n: "aborted @ gone = []"
  proof -
    have "out = []" using n g by simp
    then have m: "mset kept = mset (pf_inflight p)" using s(1) by simp
    have e: "set kept = set (pf_inflight p)" using m by (metis set_mset_mset)
    moreover have "map_of kept = map_of (pf_inflight p)"
      using e inv ok(1) by (intro map_of_inject_set[THEN iffD2]) (simp_all add: tasks_ok_def bt_invar_distinct)
    ultimately show ?thesis using att n unfolding attempts_ok_def by simp
  qed
  ultimately show ?thesis by (simp add: p')
qed

lemma prefetch_run_invar:
  assumes "prefetch_run join depth start at_block p spawned asks aborted" and "depth < 2 ^ 64"
  shows "tasks_ok (pf_inflight p) spawned asks aborted \<and> asks_ok join start at_block spawned asks \<and>
    window_ok depth at_block p \<and> (aborted = [] \<longrightarrow> attempts_ok (pf_inflight p) spawned asks)"
  using assms(1)
proof (induction rule: prefetch_run.induct)
  case prefetch_start
  then show ?case
    by (auto simp: prefetch_new_def tasks_ok_def asks_ok_def window_ok_def attempts_ok_def ask_tasks_def delivered_def)
next
  case (prefetch_head at_block p spawned asks aborted f p' gone)
  then show ?case using set_head_invar[of p spawned asks aborted depth at_block gone f p'] by simp
next
  case (prefetch_dropped at_block p spawned asks aborted p' spawned')
  then show ?case using open_window_invar[of p spawned asks aborted join start at_block depth p' spawned'] assms(2) by blast
next
  case (prefetch_asked at_block p spawned asks aborted r p' spawned' p1 i)
  have o: "tasks_ok (pf_inflight p1) spawned' asks aborted" "asks_ok join start at_block spawned' asks"
      "window_ok depth at_block p1" "aborted = [] \<longrightarrow> attempts_ok (pf_inflight p1) spawned' asks"
    using open_window_invar[of p spawned asks aborted join start at_block depth p1 spawned'] prefetch_asked assms(2) by blast+
  have c: "collect join (at_block + 1) p1 spawned' = Some (r, p')"
    using prefetch_asked.hyps(3,4) by (auto simp: prefetch_fetch_def)
  from collect_invar[OF o unat_next[OF prefetch_asked.hyps(2)] _ c refl, of i] prefetch_asked.hyps(5)
  show ?case by (simp add: bt_get_def)
qed

section \<open>The loop without lookahead\<close>

text \<open>One turn of the loop that calls \<open>block_update\<close> itself, with what it has seen so far;
  \<open>answer b k\<close> is the result of the \<open>k\<close>-th call for block \<open>b\<close>.\<close>

definition plain_step :: "(u64 \<Rightarrow> nat \<Rightarrow> string + (feed_error + fetched_block)) \<Rightarrow> u64 \<times> (u64 \<times> (fetch_failure + fetched_block)) list
    \<Rightarrow> u64 \<times> (u64 \<times> (fetch_failure + fetched_block)) list" where
  "plain_step answer st =
     (case st of (at_block, seen) \<Rightarrow>
        let b = at_block + 1; r = join_outcome (answer b (count_list (map fst seen) b)) in
        (if is_ok r then b else at_block, seen @ [(b, r)]))"

definition seen_of :: "ask list \<Rightarrow> (u64 \<times> (fetch_failure + fetched_block)) list" where
  "seen_of asks = map (\<lambda>(b, _, r). (b, r)) asks"

definition answers_by_attempt :: "task_results \<Rightarrow> u64 list \<Rightarrow> (u64 \<Rightarrow> nat \<Rightarrow> string + (feed_error + fetched_block)) \<Rightarrow> bool" where
  "answers_by_attempt join spawned answer \<longleftrightarrow>
     (\<forall>i < length spawned. join i (spawned ! i) = answer (spawned ! i) (count_list (take i spawned) (spawned ! i)))"

lemma answers_by_attempt_prefix:
  assumes "answers_by_attempt join (spawned @ later) answer"
  shows "answers_by_attempt join spawned answer"
  unfolding answers_by_attempt_def
proof (intro allI impI)
  fix i assume i: "i < length spawned"
  then have "i < length (spawned @ later)" by simp
  from assms[unfolded answers_by_attempt_def, rule_format, OF this] i
  show "join i (spawned ! i) = answer (spawned ! i) (count_list (take i spawned) (spawned ! i))"
    by (simp add: nth_append)
qed

lemma open_window_appends: "open_window n p spawned = (p', spawned') \<Longrightarrow> \<exists>later. spawned' = spawned @ later"
proof -
  assume "open_window n p spawned = (p', spawned')"
  then obtain m where m: "top_up (blocks_between n (window_through n p)) (pf_inflight p) spawned = (m, spawned')"
    by (auto simp: open_window_def split: prod.splits)
  show "\<exists>later. spawned' = spawned @ later"
    by (rule top_up_induct[where P = "\<lambda>_ sp. \<exists>later. sp = spawned @ later", OF _ _ m]) auto
qed

lemma prefetch_run_plain:
  assumes "prefetch_run join depth start at_block p spawned asks aborted" and "depth < 2 ^ 64"
    and "aborted = []" and "answers_by_attempt join spawned answer"
  shows "(plain_step answer ^^ length asks) (start, []) = (at_block, seen_of asks)"
  using assms(1,3,4)
proof (induction rule: prefetch_run.induct)
  case (prefetch_dropped at_block p spawned asks aborted p' spawned')
  then show ?case using open_window_appends answers_by_attempt_prefix by metis
next
  case (prefetch_asked at_block p spawned asks aborted r p' spawned' p1 i)
  let ?b = "at_block + 1" and ?asks = "asks @ [(at_block + 1, i, r)]"
  have "prefetch_run join depth start (if is_ok r then ?b else at_block) p' spawned' ?asks aborted"
    by (rule prefetch_run.prefetch_asked[OF prefetch_asked.hyps])
  from prefetch_run_invar[OF this assms(2)] have inv: "attempts_ok (pf_inflight p') spawned' ?asks"
    "asks_ok join start (if is_ok r then ?b else at_block) spawned' ?asks" using prefetch_asked.prems(1) by simp_all
  from inv(1) have "i < length spawned' \<and> count_list (take i spawned') ?b = count_list (map fst asks) ?b"
    unfolding attempts_ok_def by (elim conjE) (drule spec[where x = "length asks"], simp)
  moreover have "spawned' ! i = ?b" "r = join_outcome (join i ?b)" using inv(2) by (auto simp: asks_ok_def)
  ultimately have r: "r = join_outcome (answer ?b (count_list (map fst asks) ?b))"
    using prefetch_asked.prems(2) unfolding answers_by_attempt_def by auto
  have "answers_by_attempt join spawned answer"
    using open_window_appends[OF prefetch_asked.hyps(4)] prefetch_asked.prems(2) answers_by_attempt_prefix by metis
  then have ih: "(plain_step answer ^^ length asks) (start, []) = (at_block, seen_of asks)"
    using prefetch_asked.IH prefetch_asked.prems(1) by blast
  have f: "map fst (seen_of asks) = map fst asks" by (simp add: seen_of_def comp_def case_prod_unfold)
  have "(plain_step answer ^^ length ?asks) (start, []) = plain_step answer (at_block, seen_of asks)"
    using ih by simp
  also have "\<dots> = (if is_ok r then ?b else at_block, seen_of ?asks)"
    unfolding plain_step_def prod.case Let_def f r[symmetric] by (simp add: seen_of_def)
  finally show ?case .
qed (auto simp: seen_of_def)

section \<open>A run at depth two\<close>

text \<open>The task for block 6 panics, its retry answers, block 7 was fetched meanwhile.\<close>

definition block_of :: "u64 \<Rightarrow> fetched_block" where
  "block_of b = \<lparr> fb_update = \<lparr> update_block = b, changes = [], credits = [] \<rparr>, fb_changed = [], fb_credited = [] \<rparr>"

definition sample_join :: task_results where
  "sample_join i b = (if i = 0 then Inl ''panicked'' else Inr (Inr (block_of b)))"

definition sample_answer :: "u64 \<Rightarrow> nat \<Rightarrow> string + (feed_error + fetched_block)" where
  "sample_answer b k = (if b = 6 \<and> k = 0 then Inl ''panicked'' else Inr (Inr (block_of b)))"

definition sample_asks :: "ask list" where
  "sample_asks = [(6, 0, Inl (FetchTask ''panicked'')), (6, 2, Inr (block_of 6)), (7, 1, Inr (block_of 7))]"

abbreviation (input) pf_at :: "u64 \<Rightarrow> (u64, nat) btree \<Rightarrow> block_prefetch" where
  "pf_at h m \<equiv> \<lparr> pf_depth = 2, pf_head = h, pf_inflight = m \<rparr>"

lemma set_head_idle: "pf_inflight p = [] \<Longrightarrow> set_head h p = (p\<lparr> pf_head := h \<rparr>, [])"
  by (simp add: set_head_def bt_split_off_def)

lemma sample_windows: "blocks_between 6 (window_through 6 (pf_at 7 m)) = [6, 7]" "blocks_between 7 (window_through 7 (pf_at 7 m)) = [7]"
  by (simp_all add: window_through_def saturating_add_u_def blocks_between_def upt_rec)

lemmas sample_eval = prefetch_fetch_def open_window_def sample_windows collect_def bt_get_def join_outcome_def sample_join_def

lemma sample_run: "prefetch_run sample_join 2 5 7 (pf_at 7 []) [6, 7, 6] sample_asks []"
proof -
  have "prefetch_run sample_join 2 5 5 (prefetch_new 2) [] [] []" by (rule prefetch_start)
  from prefetch_head[OF this set_head_idle, of 7]
  have r0: "prefetch_run sample_join 2 5 5 (pf_at 7 []) [] [] []" by (simp add: prefetch_new_def numeral_2_eq_2)
  have "prefetch_fetch sample_join (5 + 1) (pf_at 7 []) [] = Some (Inl (FetchTask ''panicked''), pf_at 7 [(7, 1)], [6, 7])"
    "open_window (5 + 1) (pf_at 7 []) [] = (pf_at 7 [(6, 0), (7, 1)], [6, 7])"
    "bt_get (pf_inflight (pf_at 7 [(6, 0), (7, 1)])) (5 + 1) = Some 0" by (simp_all add: sample_eval)
  from prefetch_asked[OF r0 _ this]
  have r1: "prefetch_run sample_join 2 5 5 (pf_at 7 [(7, 1)]) [6, 7] [(6, 0, Inl (FetchTask ''panicked''))] []" by simp
  have "prefetch_fetch sample_join (5 + 1) (pf_at 7 [(7, 1)]) [6, 7] = Some (Inr (block_of 6), pf_at 7 [(7, 1)], [6, 7, 6])"
    "open_window (5 + 1) (pf_at 7 [(7, 1)]) [6, 7] = (pf_at 7 [(6, 2), (7, 1)], [6, 7, 6])"
    "bt_get (pf_inflight (pf_at 7 [(6, 2), (7, 1)])) (5 + 1) = Some 2" by (simp_all add: sample_eval)
  from prefetch_asked[OF r1 _ this]
  have r2: "prefetch_run sample_join 2 5 6 (pf_at 7 [(7, 1)]) [6, 7, 6] [(6, 0, Inl (FetchTask ''panicked'')), (6, 2, Inr (block_of 6))] []"
    by simp
  have "prefetch_fetch sample_join (6 + 1) (pf_at 7 [(7, 1)]) [6, 7, 6] = Some (Inr (block_of 7), pf_at 7 [], [6, 7, 6])"
    "open_window (6 + 1) (pf_at 7 [(7, 1)]) [6, 7, 6] = (pf_at 7 [(7, 1)], [6, 7, 6])"
    "bt_get (pf_inflight (pf_at 7 [(7, 1)])) (6 + 1) = Some 1" by (simp_all add: sample_eval)
  from prefetch_asked[OF r2 _ this] show ?thesis by (simp add: sample_asks_def)
qed

lemma sample_answers: "answers_by_attempt sample_join [6, 7, 6] sample_answer"
  by (auto simp: answers_by_attempt_def sample_join_def sample_answer_def less_Suc_eq numeral_3_eq_3 numeral_2_eq_2)

section \<open>Properties\<close>

text \<open>C38. Strictly in order, nothing skipped, at most \<open>depth\<close> ahead, never past the head.  In every
  run the delivered blocks are consecutive from the start to the applier's block; every result the
  applier saw is the result of a task for exactly the block it asked for, and no task answered
  twice; at most \<open>depth\<close> tasks (one, for a depth of zero) are in flight, all for blocks after
  the applier's and at or below the head; and asking for the next block never panics.\<close>

theorem prefetch_delivers_in_order:
  assumes "prefetch_run join depth start at_block p spawned asks aborted" and "depth < 2 ^ 64"
  shows "map (\<lambda>(b, _). unat b) (delivered asks) = [Suc (unat start) ..< Suc (unat at_block)] \<and>
    (\<forall>(b, i, r) \<in> set asks. i < length spawned \<and> spawned ! i = b \<and> r = join_outcome (join i b)) \<and>
    distinct (ask_tasks asks) \<and> length (pf_inflight p) \<le> max depth 1 \<and>
    (\<forall>(b, i) \<in> set (pf_inflight p). at_block < b \<and> b \<le> pf_head p) \<and>
    (at_block < pf_head p \<longrightarrow> prefetch_fetch join (at_block + 1) p spawned \<noteq> None)"
proof -
  note inv = prefetch_run_invar[OF assms]
  have "bt_invar (pf_inflight p)" using inv by (simp add: tasks_ok_def)
  then have d: "distinct (map (unat \<circ> fst) (pf_inflight p))"
    using bt_invar_distinct[of "pf_inflight p"] by (auto simp: distinct_map inj_on_def word_unat_eq_iff simp flip: map_map)
  have "set (map (unat \<circ> fst) (pf_inflight p)) \<subseteq> {unat at_block <.. unat at_block + max depth 1}"
    using inv by (auto simp: window_ok_def word_less_nat_alt)
  from card_mono[OF _ this] have "length (pf_inflight p) \<le> max depth 1"
    using distinct_card[OF d] by simp
  moreover have "prefetch_fetch join (at_block + 1) p spawned \<noteq> None" if n: "at_block < pf_head p"
  proof -
    obtain p' sp' where w: "open_window (at_block + 1) p spawned = (p', sp')"
      by (cases "open_window (at_block + 1) p spawned")
    have "map_of (pf_inflight p') (at_block + 1) \<noteq> None"
      using open_window_invar[OF _ _ _ _ n assms(2) w] inv by blast
    then show ?thesis by (auto simp: prefetch_fetch_def w collect_def bt_get_def)
  qed
  ultimately show ?thesis
    using inv tasks_ok_ids(2)[of "pf_inflight p" spawned asks aborted] by (auto simp: asks_ok_def window_ok_def)
qed

lemma prefetch_delivers_in_order_witness:
  "map (\<lambda>(b, _). unat b) (delivered sample_asks) = [6, 7] \<and>
    prefetch_fetch sample_join 8 (pf_at 9 []) [6, 7, 6] \<noteq> None"
proof -
  from prefetch_head[OF sample_run set_head_idle, of 9]
  have "prefetch_run sample_join 2 5 7 (pf_at 9 []) [6, 7, 6] sample_asks []" by simp
  note c = prefetch_delivers_in_order[OF this]
  have "prefetch_fetch sample_join (7 + 1) (pf_at 9 []) [6, 7, 6] \<noteq> None" using c by simp
  moreover have "map (\<lambda>(b, _). unat b) (delivered sample_asks) = [Suc 5 ..< Suc 7]" using c by (simp del: upt_Suc)
  ultimately show ?thesis by (simp add: upt_rec)
qed

text \<open>No request is wasted and none is lost.  Every task spawned so far is in flight, collected or
  aborted; a second task for the same block is spawned only after the first one was collected as
  a failure, or aborted because the head fell below it.\<close>

theorem prefetch_requests_are_needed:
  assumes "prefetch_run join depth start at_block p spawned asks aborted" and "depth < 2 ^ 64"
  shows "set (map snd (pf_inflight p)) \<union> set (ask_tasks asks) \<union> set aborted = {..<length spawned} \<and>
    (\<forall>i j. i < j \<and> j < length spawned \<and> spawned ! i = spawned ! j \<longrightarrow>
       i \<in> set aborted \<or> (\<exists>e. (spawned ! i, i, Inl e) \<in> set asks))"
  using prefetch_run_invar[OF assms] tasks_ok_ids(1)[of "pf_inflight p" spawned asks aborted]
  unfolding tasks_ok_def by blast

lemma prefetch_requests_are_needed_witness:
  "(\<exists>e. (6, 0, Inl e) \<in> set sample_asks) \<and> set (ask_tasks sample_asks) = {..<3}"
  using prefetch_requests_are_needed[OF sample_run] by (force simp: sample_asks_def ask_tasks_def)

text \<open>C39. Lookahead is invisible to the applier.  When the answer to a fetch depends on the block and
  on which attempt at it this is, then at every depth and for every sequence of heads that aborts
  nothing, the blocks and results the applier sees are those of the loop that calls
  \<open>block_update\<close> itself, one block at a time.\<close>

theorem prefetch_refines_plain_loop:
  assumes "prefetch_run join depth start at_block p spawned asks []" and "depth < 2 ^ 64"
    and "answers_by_attempt join spawned answer"
  shows "(plain_step answer ^^ length asks) (start, []) = (at_block, seen_of asks)"
  by (rule prefetch_run_plain[OF assms(1,2) refl assms(3)])

lemma prefetch_refines_plain_loop_witness:
  "(plain_step sample_answer ^^ 3) (5, []) = (7, [(6, Inl (FetchTask ''panicked'')), (6, Inr (block_of 6)), (7, Inr (block_of 7))])"
proof -
  have "length sample_asks = 3" "seen_of sample_asks =
    [(6, Inl (FetchTask ''panicked'')), (6, Inr (block_of 6)), (7, Inr (block_of 7))]"
    by (simp_all add: sample_asks_def seen_of_def)
  then show ?thesis using prefetch_refines_plain_loop[OF sample_run _ sample_answers] by (simp only: numeral_less_iff) simp
qed

end
