(* ===== verification/Follow.thy ===== *)
theory Follow
  imports Prefetch Reconcile Autosave Node_Run
begin

text \<open>
  Model of the follow loop of \<open>crates/risepir-rpc/src/mainnet.rs\<close> (\<open>follow_loop\<close>,
  \<open>record_save_tick\<close>): the only writer of the node, which polls the finalized head, fetches,
  prepares, applies and journals one block at a time, and reconciles on cadence.

  The loop is cut at the awaits between which another task may run: \<open>Polling\<close> is the top of
  the outer loop, \<open>Following f\<close> the top of the inner one, \<open>Applied\<close> the point between the
  application of a block and the append of its delta, \<open>Journaled\<close> the point before the recent
  list and the reconciliation, \<open>Stopped\<close> a return.  Beside the loop, the hard refresh pushes
  corrections, the handlers serve bundles, and the save at shutdown may come at any moment.

  What the feed and the clocks answer is an argument of each step.  The verified read is
  \<open>balance_of\<close> of the node's server, as far as it does not panic.  Metrics, the CSV row, the
  patch statistics and the log lines are left out.
\<close>

section \<open>One block\<close>

datatype follow_stop =
    WrongBlock u64
  | CreditReadFailed server_error
  | CorrectionReadFailed server_error
  | ApplyFailed server_error
  | ReconcileHalted

text \<open>In partial mode a credit is kept when its account changed in this block or has a balance.\<close>

fun keep_tracked :: "verified_read \<Rightarrow> address_hash set \<Rightarrow> (address_hash \<times> balance) list \<Rightarrow> server_error + (address_hash \<times> balance) list" where
  "keep_tracked read changed_keys [] = Inr []"
| "keep_tracked read changed_keys ((key, amount) # rest) =
     and_then (if key \<in> changed_keys then Inr True else and_then (read key) (\<lambda>v. Inr (v \<noteq> None))) (\<lambda>tracked.
     and_then (keep_tracked read changed_keys rest) (\<lambda>kept.
       Inr (if tracked then (key, amount) # kept else kept)))"

definition filter_credits :: "verified_read \<Rightarrow> bool \<Rightarrow> block_update \<Rightarrow> server_error + block_update" where
  "filter_credits read complete u =
     (if \<not> complete \<and> credits u \<noteq> []
      then and_then (keep_tracked read (fst ` set (changes u)) (credits u)) (\<lambda>kept. Inr (u\<lparr> credits := kept \<rparr>))
      else Inr u)"

text \<open>The update of block \<open>n\<close> as it is applied, and the queue after it.\<close>

definition prepare_update :: "verified_read \<Rightarrow> bool \<Rightarrow> u64 \<Rightarrow> correction_queue \<Rightarrow> fetched_block
    \<Rightarrow> (follow_stop + block_update) \<times> correction_queue" where
  "prepare_update read complete n queue fetched =
     (let u = fb_update fetched in
      if update_block u \<noteq> n then (Inl (WrongBlock (update_block u)), queue)
      else case filter_credits read complete u of
        Inl e \<Rightarrow> (Inl (CreditReadFailed e), queue)
      | Inr u \<Rightarrow>
          (case inject_corrections read queue (changes u) of
             (Inl e, queue) \<Rightarrow> (Inl (CorrectionReadFailed e), queue)
           | (Inr chs, queue) \<Rightarrow> (Inr (u\<lparr> changes := chs \<rparr>), queue)))"

definition apply_prepared :: "(bytes \<Rightarrow> u64 \<Rightarrow> u64) \<Rightarrow> 's store_ops \<Rightarrow> ('cfg, 'p, 'mat) node_backend \<Rightarrow> ('s, 'cfg, 'p, 'mat) node_state
    \<Rightarrow> block_update \<Rightarrow> ((follow_stop + block_apply_outcome) \<times> ('s, 'cfg, 'p, 'mat) node_state) option" where
  "apply_prepared xxh so be nd u =
     map_option (\<lambda>(r, nd). (map_err ApplyFailed r, nd)) (node_apply_block_reporting xxh so be nd u)"

section \<open>The loop\<close>

record follow_config =
  fc_complete :: bool
  fc_reconcile_every :: u64
  fc_reconcile_samples :: nat
  fc_prefetch :: nat

record ('s, 'cfg, 'p, 'mat) follow_ext =
  lx_xxh :: "bytes \<Rightarrow> u64 \<Rightarrow> u64"
  lx_xxh3 :: "bytes \<Rightarrow> u64"
  lx_api :: cuckoo_api
  lx_store :: "'s store_ops"
  lx_backend :: "('cfg, 'p, 'mat) node_backend"
  lx_node :: "'p node_ext"
  lx_join :: task_results
  lx_confirm :: confirm_source

record ('s, 'cfg, 'p, 'mat) follow_state =
  fl_node :: "('s, 'cfg, 'p, 'mat) node_state"
  fl_last :: u64
  fl_prefetch :: block_prefetch
  fl_spawned :: "u64 list"
  fl_saver :: "state_saver option"
  fl_disk :: disk
  fl_queue :: correction_queue
  fl_reservoir :: "address list"
  fl_health :: reconcile_health
  fl_time :: nat

datatype phase =
    Polling
  | Following u64
  | Applied u64 fetched_block block_delta
  | Journaled u64 fetched_block
  | Stopped follow_stop

abbreviation fl_server :: "('s, 'cfg, 'p, 'mat) follow_state
    \<Rightarrow> ('s, 'cfg, 'p simple_server_params, 'mat, u32 list) rise_server" where
  "fl_server s \<equiv> in_server (nd_inner (fl_node s))"

text \<open>\<open>read\<close> is the verified read of the node's server, which never panics.\<close>

definition reads :: "('s, 'cfg, 'p, 'mat) follow_ext \<Rightarrow> ('s, 'cfg, 'p, 'mat) follow_state \<Rightarrow> verified_read \<Rightarrow> bool" where
  "reads ext s read \<longleftrightarrow> (\<forall>key. balance_of (lx_xxh ext) (lx_store ext) (fl_server s) key = Some (read key))"

definition record_save_tick :: "('s, 'cfg, 'p, 'mat) follow_ext \<Rightarrow> bool \<Rightarrow> nat \<Rightarrow> save_faults \<Rightarrow> nat \<Rightarrow> ('s, 'cfg, 'p, 'mat) follow_state
    \<Rightarrow> ('s, 'cfg, 'p, 'mat) follow_state option" where
  "record_save_tick ext busy started io now s =
     (case fl_saver s of
        None \<Rightarrow> Some s
      | Some ss \<Rightarrow>
          map_option (\<lambda>(_, ss, dk). s\<lparr> fl_saver := Some ss, fl_disk := dk \<rparr>)
            (maybe_save (lx_xxh3 ext) (lx_api ext) (nx_lib (lx_node ext)) (lx_store ext) (nd_fields (fl_node s)) (fl_server s)
               busy started io now ss (fl_disk s)))"

definition follow_poll :: "feed_error + u64 \<Rightarrow> ('s, 'cfg, 'p, 'mat) follow_state \<Rightarrow> phase \<times> ('s, 'cfg, 'p, 'mat) follow_state" where
  "follow_poll r s =
     (case r of
        Inl _ \<Rightarrow> (Polling, s)
      | Inr finalized \<Rightarrow> (Following finalized, s\<lparr> fl_prefetch := fst (set_head finalized (fl_prefetch s)) \<rparr>))"

text \<open>The inner loop from the fetch to the application.\<close>

definition follow_fetch :: "('s, 'cfg, 'p, 'mat) follow_ext \<Rightarrow> follow_config \<Rightarrow> verified_read \<Rightarrow> u64 \<Rightarrow> ('s, 'cfg, 'p, 'mat) follow_state
    \<Rightarrow> (phase \<times> ('s, 'cfg, 'p, 'mat) follow_state) option" where
  "follow_fetch ext cfg read finalized s =
     (let n = fl_last s + 1 in
      Option.bind (prefetch_fetch (lx_join ext) n (fl_prefetch s) (fl_spawned s)) (\<lambda>(r, p, spawned).
        let s = s\<lparr> fl_prefetch := p, fl_spawned := spawned \<rparr> in
        case r of
          Inl _ \<Rightarrow> Some (Following finalized, s)
        | Inr fetched \<Rightarrow>
            (case prepare_update read (fc_complete cfg) n (fl_queue s) fetched of
               (Inl stop, queue) \<Rightarrow> Some (Stopped stop, s\<lparr> fl_queue := queue \<rparr>)
             | (Inr u, queue) \<Rightarrow>
                 map_option (\<lambda>(r, nd).
                   let s = s\<lparr> fl_queue := queue, fl_node := nd \<rparr> in
                   case r of
                     Inl stop \<Rightarrow> (Stopped stop, s)
                   | Inr oc \<Rightarrow> (Applied finalized fetched (oc_delta oc), s\<lparr> fl_last := n \<rparr>))
                 (apply_prepared (lx_xxh ext) (lx_store ext) (lx_backend ext) (fl_node s) u))))"

definition follow_journal :: "('s, 'cfg, 'p, 'mat) follow_ext \<Rightarrow> nat option \<Rightarrow> u64 \<Rightarrow> fetched_block \<Rightarrow> block_delta \<Rightarrow> ('s, 'cfg, 'p, 'mat) follow_state
    \<Rightarrow> (phase \<times> ('s, 'cfg, 'p, 'mat) follow_state) option" where
  "follow_journal ext fault finalized fetched d s =
     (case fl_saver s of
        None \<Rightarrow> Some (Journaled finalized fetched, s)
      | Some ss \<Rightarrow>
          map_option (\<lambda>(ss, dk). (Journaled finalized fetched, s\<lparr> fl_saver := Some ss, fl_disk := dk \<rparr>))
            (append_delta (lx_xxh3 ext) fault ss (fl_disk s) d (so_num_items (lx_store ext) (sv_store (fl_server s)))))"

definition follow_finish :: "('s, 'cfg, 'p, 'mat) follow_ext \<Rightarrow> follow_config \<Rightarrow> verified_read \<Rightarrow> u64 \<Rightarrow> u64 \<Rightarrow> fetched_block \<Rightarrow> ('s, 'cfg, 'p, 'mat) follow_state
    \<Rightarrow> phase \<times> ('s, 'cfg, 'p, 'mat) follow_state" where
  "follow_finish ext cfg read now finalized fetched s =
     (let n = fl_last s; s = s\<lparr> fl_node := note_recent (fl_node s) (map fst (fb_changed fetched)) \<rparr> in
      if 0 < fc_reconcile_every cfg \<and> n mod fc_reconcile_every cfg = 0
      then case reconcile (lx_confirm ext) read (nx_keccak (lx_node ext)) now n (saturating_sub_u finalized n) (fb_changed fetched)
             (fb_credited fetched) \<lparr> rcfg_complete = fc_complete cfg, rcfg_samples = fc_reconcile_samples cfg,
               rcfg_every = fc_reconcile_every cfg \<rparr> (fl_reservoir s) (fl_health s) (fl_time s) of
             (r, reservoir, h, _, t) \<Rightarrow>
               (if r = Halted then Stopped ReconcileHalted else Following finalized,
                s\<lparr> fl_reservoir := reservoir, fl_health := h, fl_time := t \<rparr>)
      else (Following finalized, s))"

definition follow_start :: "('s, 'cfg, 'p, 'mat) node_state \<Rightarrow> follow_config \<Rightarrow> u64 \<Rightarrow> state_saver option \<Rightarrow> disk \<Rightarrow> correction_queue
    \<Rightarrow> reconcile_health \<Rightarrow> ('s, 'cfg, 'p, 'mat) follow_state" where
  "follow_start nd cfg start_at saver dk queue h =
     \<lparr> fl_node = nd, fl_last = start_at, fl_prefetch = prefetch_new (fc_prefetch cfg), fl_spawned = [], fl_saver = saver,
       fl_disk = dk, fl_queue = queue, fl_reservoir = [], fl_health = h, fl_time = 0 \<rparr>"

section \<open>Runs\<close>

text \<open>\<open>applied\<close> are the fetched blocks, the updates and the deltas of the blocks applied,
  \<open>pushed\<close> the corrections queued.\<close>

type_synonym applied_block = "fetched_block \<times> block_update \<times> block_delta"

inductive follow_run :: "('s, 'cfg, 'p, 'mat) follow_ext \<Rightarrow> follow_config \<Rightarrow> ('s, 'cfg, 'p, 'mat) follow_state
    \<Rightarrow> phase \<Rightarrow> ('s, 'cfg, 'p, 'mat) follow_state \<Rightarrow> applied_block list \<Rightarrow> correction list \<Rightarrow> bool"
  for ext :: "('s, 'cfg, 'p, 'mat) follow_ext" and cfg :: follow_config and s0 :: "('s, 'cfg, 'p, 'mat) follow_state" where
  follow_begin: "follow_run ext cfg s0 Polling s0 [] (fl_queue s0)"
| follow_polled: "follow_run ext cfg s0 Polling s applied pushed \<Longrightarrow> record_save_tick ext busy started io now s = Some s1 \<Longrightarrow>
     follow_poll r s1 = (ph, s') \<Longrightarrow> follow_run ext cfg s0 ph s' applied pushed"
| follow_caught_up: "follow_run ext cfg s0 (Following f) s applied pushed \<Longrightarrow> f \<le> fl_last s \<Longrightarrow>
     follow_run ext cfg s0 Polling s applied pushed"
| follow_applied: "follow_run ext cfg s0 (Following f) s applied pushed \<Longrightarrow> fl_last s < f \<Longrightarrow>
     record_save_tick ext busy started io now s = Some s1 \<Longrightarrow> reads ext s1 read \<Longrightarrow>
     follow_fetch ext cfg read f s1 = Some (Applied f fetched d, s') \<Longrightarrow>
     prepare_update read (fc_complete cfg) (fl_last s1 + 1) (fl_queue s1) fetched = (Inr u, queue) \<Longrightarrow>
     follow_run ext cfg s0 (Applied f fetched d) s' (applied @ [(fetched, u, d)]) pushed"
| follow_held: "follow_run ext cfg s0 (Following f) s applied pushed \<Longrightarrow> fl_last s < f \<Longrightarrow>
     record_save_tick ext busy started io now s = Some s1 \<Longrightarrow> reads ext s1 read \<Longrightarrow>
     follow_fetch ext cfg read f s1 = Some (ph, s') \<Longrightarrow> (\<forall>fetched d. ph \<noteq> Applied f fetched d) \<Longrightarrow>
     follow_run ext cfg s0 ph s' applied pushed"
| follow_journaled: "follow_run ext cfg s0 (Applied f fetched d) s applied pushed \<Longrightarrow>
     follow_journal ext fault f fetched d s = Some (ph, s') \<Longrightarrow> follow_run ext cfg s0 ph s' applied pushed"
| follow_finished: "follow_run ext cfg s0 (Journaled f fetched) s applied pushed \<Longrightarrow> reads ext s read \<Longrightarrow>
     follow_finish ext cfg read now f fetched s = (ph, s') \<Longrightarrow> follow_run ext cfg s0 ph s' applied pushed"
| follow_pushed: "follow_run ext cfg s0 ph s applied pushed \<Longrightarrow>
     follow_run ext cfg s0 ph (s\<lparr> fl_queue := push_one c (fl_queue s) \<rparr>) applied (pushed @ [c])"
| follow_served: "follow_run ext cfg s0 ph s applied pushed \<Longrightarrow> node_setup_bytes (lx_node ext) (fl_node s) = Some (r, nd) \<Longrightarrow>
     follow_run ext cfg s0 ph (s\<lparr> fl_node := nd \<rparr>) applied pushed"
| follow_saved: "follow_run ext cfg s0 ph s applied pushed \<Longrightarrow> fl_saver s = Some ss \<Longrightarrow>
     save_now (lx_xxh3 ext) (lx_api ext) (nx_lib (lx_node ext)) (lx_store ext) (nd_fields (fl_node s)) (fl_server s) io now ss (fl_disk s)
       = Some (r, ss', dk') \<Longrightarrow>
     follow_run ext cfg s0 ph (s\<lparr> fl_saver := Some ss', fl_disk := dk' \<rparr>) applied pushed"

section \<open>What one step changes\<close>

definition same_but_saver :: "('s, 'cfg, 'p, 'mat) follow_state \<Rightarrow> ('s, 'cfg, 'p, 'mat) follow_state \<Rightarrow> bool" where
  "same_but_saver s s' \<longleftrightarrow> (\<exists>ss dk. s' = s\<lparr> fl_saver := ss, fl_disk := dk \<rparr>)"

lemma same_but_saverD:
  assumes "same_but_saver s s'"
  shows "fl_node s' = fl_node s" "fl_last s' = fl_last s" "fl_prefetch s' = fl_prefetch s" "fl_spawned s' = fl_spawned s"
    "fl_queue s' = fl_queue s" "fl_reservoir s' = fl_reservoir s" "fl_health s' = fl_health s" "fl_time s' = fl_time s"
  using assms by (auto simp: same_but_saver_def)

lemma same_but_saverI: "same_but_saver s s" "same_but_saver s (s\<lparr> fl_saver := ss, fl_disk := dk \<rparr>)"
proof -
  have "s = s\<lparr> fl_saver := fl_saver s, fl_disk := fl_disk s \<rparr>" by simp
  then show "same_but_saver s s" unfolding same_but_saver_def by blast
  show "same_but_saver s (s\<lparr> fl_saver := ss, fl_disk := dk \<rparr>)" unfolding same_but_saver_def by blast
qed

lemma tick_same: "record_save_tick ext busy started io now s = Some s1 \<Longrightarrow> same_but_saver s s1"
  by (auto simp: record_save_tick_def same_but_saverI split: option.splits)

lemma journal_same:
  "follow_journal ext fault f fetched d s = Some (ph, s') \<Longrightarrow> ph = Journaled f fetched \<and> same_but_saver s s'"
  by (auto simp: follow_journal_def same_but_saverI split: option.splits)

lemma poll_cases:
  assumes "follow_poll r s = (ph, s')"
  obtains "ph = Polling" "s' = s"
  | f where "ph = Following f" "s' = s\<lparr> fl_prefetch := fst (set_head f (fl_prefetch s)) \<rparr>"
  using assms by (cases r) (auto simp: follow_poll_def)

lemma fetch_cases:
  assumes "follow_fetch ext cfg read f s = Some (ph, s')"
  obtains
    (retry) e p sp where "prefetch_fetch (lx_join ext) (fl_last s + 1) (fl_prefetch s) (fl_spawned s) = Some (Inl e, p, sp)"
      "ph = Following f" "s' = s\<lparr> fl_prefetch := p, fl_spawned := sp \<rparr>"
  | (refused) fb p sp stop queue where "prefetch_fetch (lx_join ext) (fl_last s + 1) (fl_prefetch s) (fl_spawned s) = Some (Inr fb, p, sp)"
      "prepare_update read (fc_complete cfg) (fl_last s + 1) (fl_queue s) fb = (Inl stop, queue)"
      "ph = Stopped stop" "s' = s\<lparr> fl_prefetch := p, fl_spawned := sp, fl_queue := queue \<rparr>"
  | (failed) fb p sp u queue e nd where "prefetch_fetch (lx_join ext) (fl_last s + 1) (fl_prefetch s) (fl_spawned s) = Some (Inr fb, p, sp)"
      "prepare_update read (fc_complete cfg) (fl_last s + 1) (fl_queue s) fb = (Inr u, queue)"
      "node_apply_block_reporting (lx_xxh ext) (lx_store ext) (lx_backend ext) (fl_node s) u = Some (Inl e, nd)"
      "ph = Stopped (ApplyFailed e)" "s' = s\<lparr> fl_prefetch := p, fl_spawned := sp, fl_queue := queue, fl_node := nd \<rparr>"
  | (applied) fb p sp u queue oc nd where "prefetch_fetch (lx_join ext) (fl_last s + 1) (fl_prefetch s) (fl_spawned s) = Some (Inr fb, p, sp)"
      "prepare_update read (fc_complete cfg) (fl_last s + 1) (fl_queue s) fb = (Inr u, queue)"
      "node_apply_block_reporting (lx_xxh ext) (lx_store ext) (lx_backend ext) (fl_node s) u = Some (Inr oc, nd)"
      "ph = Applied f fb (oc_delta oc)"
      "s' = s\<lparr> fl_prefetch := p, fl_spawned := sp, fl_queue := queue, fl_node := nd, fl_last := fl_last s + 1 \<rparr>"
proof -
  obtain r p sp where pf: "prefetch_fetch (lx_join ext) (fl_last s + 1) (fl_prefetch s) (fl_spawned s) = Some (r, p, sp)"
    using assms by (auto simp: follow_fetch_def Let_def bind_eq_Some_conv)
  show thesis
  proof (cases r)
    case (Inl e)
    then show ?thesis using assms pf by (intro retry[of e p sp]) (simp_all add: follow_fetch_def Let_def)
  next
    case (Inr fb)
    obtain q queue where pr: "prepare_update read (fc_complete cfg) (fl_last s + 1) (fl_queue s) fb = (q, queue)" by fastforce
    show ?thesis
    proof (cases q)
      case (Inl stop)
      then show ?thesis using assms pf Inr pr by (intro refused[of fb p sp stop queue]) (simp_all add: follow_fetch_def Let_def)
    next
      case (Inr u)
      obtain x nd where ap: "node_apply_block_reporting (lx_xxh ext) (lx_store ext) (lx_backend ext) (fl_node s) u = Some (x, nd)"
        using assms pf pr \<open>r = Inr fb\<close> Inr
        by (cases "node_apply_block_reporting (lx_xxh ext) (lx_store ext) (lx_backend ext) (fl_node s) u")
          (auto simp: follow_fetch_def Let_def apply_prepared_def)
      show ?thesis
      proof (cases x)
        case (Inl e)
        then show ?thesis using assms pf \<open>r = Inr fb\<close> \<open>q = Inr u\<close> pr ap
          by (intro failed[of fb p sp u queue e nd]) (simp_all add: follow_fetch_def Let_def apply_prepared_def)
      next
        case (Inr oc)
        then show ?thesis using assms pf \<open>r = Inr fb\<close> \<open>q = Inr u\<close> pr ap
          by (intro applied[of fb p sp u queue oc nd]) (simp_all add: follow_fetch_def Let_def apply_prepared_def)
      qed
    qed
  qed
qed

lemma finish_cases:
  assumes "follow_finish ext cfg read now f fetched s = (ph, s')"
  shows "fl_node s' = note_recent (fl_node s) (map fst (fb_changed fetched)) \<and> fl_last s' = fl_last s \<and>
    fl_prefetch s' = fl_prefetch s \<and> fl_spawned s' = fl_spawned s \<and> fl_saver s' = fl_saver s \<and> fl_disk s' = fl_disk s \<and>
    fl_queue s' = fl_queue s \<and> (ph = Following f \<or> ph = Stopped ReconcileHalted)"
  using assms by (auto simp: follow_finish_def Let_def split: if_splits prod.splits)

lemma note_recent_same [simp]: "nd_inner (note_recent nd addrs) = nd_inner nd" "nd_fields (note_recent nd addrs) = nd_fields nd"
  by (simp_all add: note_recent_def)

lemma setup_bytes_same:
  "node_setup_bytes ext nd = Some (r, nd') \<Longrightarrow> nd_inner nd' = nd_inner nd \<and> nd_fields nd' = nd_fields nd"
  by (auto simp: node_setup_bytes_def Let_def split: option.splits if_splits)

lemma node_apply_same:
  assumes "node_apply_block_reporting xxh so be nd u = Some (Inr oc, nd')"
  shows "\<exists>rep. apply_block_reporting xxh so be (in_server (nd_inner nd)) u = Some (Inr (oc_delta oc, rep), in_server (nd_inner nd'))"
    and "nd_fields nd' = nd_fields nd" and "sv_block (in_server (nd_inner nd')) = update_block u" and "delta_block (oc_delta oc) = update_block u"
proof -
  obtain rep sv where a: "apply_block_reporting xxh so be (in_server (nd_inner nd)) u = Some (Inr (oc_delta oc, rep), sv)"
    and n: "nd' = nd\<lparr> nd_inner := evict_stale (index_delta ((nd_inner nd)\<lparr> in_server := sv \<rparr>) (oc_delta oc)) \<rparr>"
    using assms by (rule node_apply_InrD)
  have sv: "in_server (nd_inner nd') = sv"
    by (simp add: n evict_stale_def index_delta_def Let_def split: option.split)
  show "\<exists>rep. apply_block_reporting xxh so be (in_server (nd_inner nd)) u = Some (Inr (oc_delta oc, rep), in_server (nd_inner nd'))"
    using a sv by blast
  show "nd_fields nd' = nd_fields nd" by (simp add: n)
  from a show "sv_block (in_server (nd_inner nd')) = update_block u" "delta_block (oc_delta oc) = update_block u"
    unfolding sv by (auto elim!: apply_block_okD)
qed

text \<open>The prepared update.\<close>

lemma filter_credits_spec:
  assumes "filter_credits read complete u = Inr u'"
  shows "update_block u' = update_block u \<and> changes u' = changes u \<and>
    credits u' = filter (\<lambda>(k, _). complete \<or> k \<in> fst ` set (changes u) \<or> (\<exists>v. read k = Inr (Some v))) (credits u)"
proof -
  have k: "kept = filter (\<lambda>(k, _). k \<in> keys \<or> (\<exists>v. read k = Inr (Some v))) cs"
    if "keep_tracked read keys cs = Inr kept" for keys cs kept
    using that
  proof (induction cs arbitrary: kept)
    case (Cons c cs)
    then show ?case by (cases c; cases "read (fst c)") (auto split: if_splits)
  qed simp
  show ?thesis using assms k by (cases complete) (auto simp: filter_credits_def split: if_splits)
qed

lemma prepare_update_spec:
  assumes "prepare_update read complete n queue fb = (Inr u, queue')"
  shows "update_block (fb_update fb) = n \<and> update_block u = n \<and>
    credits u = filter (\<lambda>(k, _). complete \<or> k \<in> fst ` set (changes (fb_update fb)) \<or> (\<exists>v. read k = Inr (Some v))) (credits (fb_update fb)) \<and>
    (\<exists>cs. changes u = map (\<lambda>c. (co_key c, co_balance c)) cs @ changes (fb_update fb) \<and> set cs \<subseteq> set queue \<and>
       length cs \<le> max_corrections_per_block) \<and> set queue' \<subseteq> set queue"
proof -
  let ?u = "fb_update fb"
  have n: "update_block ?u = n" using assms by (auto simp: prepare_update_def Let_def split: if_splits)
  obtain u1 chs where f: "filter_credits read complete ?u = Inr u1"
    and i: "inject_corrections read queue (changes u1) = (Inr chs, queue')" and u: "u = u1\<lparr> changes := chs \<rparr>"
    using assms n by (auto simp: prepare_update_def Let_def split: sum.splits prod.splits)
  note fs = filter_credits_spec[OF f]
  have d: "drain_up_to max_corrections_per_block queue = (take max_corrections_per_block queue, drop max_corrections_per_block queue)"
    by (simp add: drain_up_to_def Let_def min_def)
  obtain cs where cs: "chs = map (\<lambda>c. (co_key c, co_balance c)) cs @ changes u1" "set cs \<subseteq> set queue"
      "length cs \<le> max_corrections_per_block" "queue' = drop max_corrections_per_block queue"
  proof -
    let ?cs = "filter (\<lambda>c. read_or_zero read (co_key c) = Inr (co_baseline c)) (take max_corrections_per_block queue)"
    have "chs = map (\<lambda>c. (co_key c, co_balance c)) ?cs @ changes u1 \<and> queue' = drop max_corrections_per_block queue"
      using i by (auto simp: inject_corrections_def d prepend_corrections_def dest!: filter_stale_spec split: if_splits)
    moreover have "set ?cs \<subseteq> set queue" using set_take_subset[of max_corrections_per_block queue] by auto
    moreover have "length ?cs \<le> max_corrections_per_block" by (rule order_trans[OF length_filter_le]) simp
    ultimately show thesis using that by blast
  qed
  have "set queue' \<subseteq> set queue" unfolding cs(4) by (rule set_drop_subset)
  then show ?thesis using fs n cs(1-3) u by auto
qed

section \<open>The loop as a run of the node, of the saver and of the prefetcher\<close>

definition deltas_of :: "applied_block list \<Rightarrow> block_delta list" where
  "deltas_of applied = map (\<lambda>(_, _, d). d) applied"

lemma deltas_of_simps [simp]: "deltas_of [] = []" "deltas_of (as @ [(fb, u, d)]) = deltas_of as @ [d]" "length (deltas_of as) = length as"
  by (simp_all add: deltas_of_def)

fun apply_failed :: "phase \<Rightarrow> bool" where
  "apply_failed (Stopped (ApplyFailed e)) = True"
| "apply_failed _ = False"

lemma apply_failed_poll: "follow_poll r s = (ph, s') \<Longrightarrow> \<not> apply_failed ph"
  by (cases r) (auto simp: follow_poll_def)

lemma refused_not_failed: "prepare_update read complete n queue fb = (Inl stop, queue') \<Longrightarrow> \<not> apply_failed (Stopped stop)"
  by (auto simp: prepare_update_def Let_def split: if_splits sum.splits prod.splits)

lemma follow_run_node:
  assumes "follow_run ext cfg s0 ph s applied pushed" and "fl_last s0 = sv_block (fl_server s0)" and "\<not> apply_failed ph"
  shows "\<exists>served. node_run (lx_xxh ext) (lx_store ext) (lx_backend ext) (lx_node ext) (fl_node s0) ds0 (ds0 @ deltas_of applied) served (fl_node s) \<and>
    fl_last s = sv_block (fl_server s) \<and> nd_fields (fl_node s) = nd_fields (fl_node s0)"
  using assms
proof (induction rule: follow_run.induct)
  case follow_begin
  then show ?case using node_run.node_start by fastforce
next
  case (follow_polled s applied pushed busy started io now s1 r ph s')
  note ih = follow_polled.IH[OF follow_polled.prems(1)] and t = same_but_saverD[OF tick_same[OF follow_polled.hyps(2)]]
  show ?case by (rule poll_cases[OF follow_polled.hyps(3)]) (use ih t in auto)
next
  case (follow_applied f s applied pushed busy started io now s1 read fetched d s' u queue)
  note t = same_but_saverD[OF tick_same[OF follow_applied.hyps(3)]]
  from follow_applied.IH[OF follow_applied.prems(1)] obtain served where
    n: "node_run (lx_xxh ext) (lx_store ext) (lx_backend ext) (lx_node ext) (fl_node s0) ds0 (ds0 @ deltas_of applied) served (fl_node s)"
    "fl_last s = sv_block (fl_server s)" "nd_fields (fl_node s) = nd_fields (fl_node s0)" by auto
  from follow_applied.hyps(5) show ?case
  proof (rule fetch_cases)
    fix fb p sp u' queue' oc nd
    assume a: "prepare_update read (fc_complete cfg) (fl_last s1 + 1) (fl_queue s1) fb = (Inr u', queue')"
      "node_apply_block_reporting (lx_xxh ext) (lx_store ext) (lx_backend ext) (fl_node s1) u' = Some (Inr oc, nd)"
      "Applied f fetched d = Applied f fb (oc_delta oc)"
      "s' = s1\<lparr> fl_prefetch := p, fl_spawned := sp, fl_queue := queue', fl_node := nd, fl_last := fl_last s1 + 1 \<rparr>"
    have "node_run (lx_xxh ext) (lx_store ext) (lx_backend ext) (lx_node ext) (fl_node s0) ds0 ((ds0 @ deltas_of applied) @ [oc_delta oc]) served nd"
      using a(2) unfolding t(1) by (rule node_run.node_block[OF n(1)])
    then show ?thesis
      using a n node_apply_same(2,3)[OF a(2)] prepare_update_spec[OF a(1)] t by auto
  qed auto
next
  case (follow_held f s applied pushed busy started io now s1 read ph s')
  note t = same_but_saverD[OF tick_same[OF follow_held.hyps(3)]]
  note ih = follow_held.IH[OF follow_held.prems(1)]
  show ?case by (rule fetch_cases[OF follow_held.hyps(5)]) (use ih follow_held.prems(2) follow_held.hyps(6) t in auto)
next
  case (follow_journaled f fetched d s applied pushed fault ph s')
  from follow_journaled.IH[OF follow_journaled.prems(1)] journal_same[OF follow_journaled.hyps(2)]
  show ?case using same_but_saverD[of s s'] by auto
next
  case (follow_finished f fetched s applied pushed read now ph s')
  from follow_finished.IH[OF follow_finished.prems(1)] finish_cases[OF follow_finished.hyps(3)]
  show ?case using node_run.node_note by fastforce
next
  case (follow_served ph s applied pushed r nd)
  then obtain served where n: "node_run (lx_xxh ext) (lx_store ext) (lx_backend ext) (lx_node ext) (fl_node s0) ds0 (ds0 @ deltas_of applied) served (fl_node s)"
    "fl_last s = sv_block (fl_server s)" "nd_fields (fl_node s) = nd_fields (fl_node s0)" by auto
  obtain bs b where r: "r = (bs, b)" by (cases r)
  from node_run.node_serve[OF n(1) follow_served.hyps(2)[unfolded r]] n(2,3) setup_bytes_same[OF follow_served.hyps(2)]
  show ?case by auto
qed auto

definition pending_append :: "'s store_ops \<Rightarrow> phase \<Rightarrow> ('s, 'cfg, 'p, 'mat) follow_state \<Rightarrow> (block_delta \<times> u64) option" where
  "pending_append so ph s = (case ph of Applied f fetched d \<Rightarrow> Some (d, so_num_items so (sv_store (fl_server s))) | _ \<Rightarrow> None)"

definition saver_started_at :: "('s, 'cfg, 'p, 'mat) follow_ext \<Rightarrow> value_codec \<Rightarrow> ('s, 'cfg, 'p, 'mat) follow_state \<Rightarrow> bool" where
  "saver_started_at ext codec s0 \<longleftrightarrow> fl_last s0 = sv_block (fl_server s0) \<and>
     (\<exists>ss. fl_saver s0 = Some ss \<and> saver_run (lx_xxh ext) (lx_xxh3 ext) (lx_api ext) (nx_lib (lx_node ext)) (lx_store ext) (lx_backend ext)
        (nd_fields (fl_node s0)) codec [fl_server s0] [] None ss (fl_disk s0))"

text \<open>The servers after each update.\<close>

fun server_trail :: "(bytes \<Rightarrow> u64 \<Rightarrow> u64) \<Rightarrow> 's store_ops \<Rightarrow> ('cfg, 'sp, 'mat, 'h) server_backend
    \<Rightarrow> ('s, 'cfg, 'sp, 'mat, 'h) rise_server \<Rightarrow> block_update list \<Rightarrow> ('s, 'cfg, 'sp, 'mat, 'h) rise_server list" where
  "server_trail xxh so be sv [] = [sv]"
| "server_trail xxh so be sv (u # us) =
     sv # (case apply_block_reporting xxh so be sv u of None \<Rightarrow> [] | Some (_, sv) \<Rightarrow> server_trail xxh so be sv us)"

lemma server_trail_snoc:
  assumes "length (server_trail xxh so be sv us) = Suc (length us)"
    and "apply_block_reporting xxh so be (last (server_trail xxh so be sv us)) u = Some (r, sv')"
  shows "server_trail xxh so be sv (us @ [u]) = server_trail xxh so be sv us @ [sv']"
  using assms by (induction us arbitrary: sv) (auto split: option.splits if_splits)

definition trail_of :: "('s, 'cfg, 'p, 'mat) follow_ext \<Rightarrow> ('s, 'cfg, 'p, 'mat) follow_state \<Rightarrow> applied_block list
    \<Rightarrow> ('s, 'cfg, 'p simple_server_params, 'mat, u32 list) rise_server list" where
  "trail_of ext s0 applied = server_trail (lx_xxh ext) (lx_store ext) (lx_backend ext) (fl_server s0) (map (\<lambda>(_, u, _). u) applied)"

lemma trail_of_hd [simp]: "hd (trail_of ext s0 applied) = fl_server s0"
  by (cases applied) (auto simp: trail_of_def)

definition saved_along :: "('s, 'cfg, 'p, 'mat) follow_ext \<Rightarrow> value_codec \<Rightarrow> ('s, 'cfg, 'p, 'mat) follow_state \<Rightarrow> phase
    \<Rightarrow> ('s, 'cfg, 'p, 'mat) follow_state \<Rightarrow> applied_block list \<Rightarrow> state_saver \<Rightarrow> bool" where
  "saved_along ext codec s0 ph s applied ss \<longleftrightarrow> fl_saver s = Some ss \<and> last (trail_of ext s0 applied) = fl_server s \<and>
     saver_run (lx_xxh ext) (lx_xxh3 ext) (lx_api ext) (nx_lib (lx_node ext)) (lx_store ext) (lx_backend ext)
       (nd_fields (fl_node s0)) codec (trail_of ext s0 applied) (deltas_of applied) (pending_append (lx_store ext) ph s) ss (fl_disk s)"

lemma saved_along_cong:
  "saved_along ext codec s0 ph s applied ss \<Longrightarrow> fl_saver s' = fl_saver s \<Longrightarrow> fl_disk s' = fl_disk s \<Longrightarrow> fl_server s' = fl_server s \<Longrightarrow>
   pending_append (lx_store ext) ph' s' = pending_append (lx_store ext) ph s \<Longrightarrow> saved_along ext codec s0 ph' s' applied ss"
  by (simp add: saved_along_def)

lemma saved_along_tick:
  assumes h: "saved_along ext codec s0 ph s applied ss" and flds: "nd_fields (fl_node s) = nd_fields (fl_node s0)"
    and t: "record_save_tick ext busy started io now s = Some s1"
  shows "\<exists>ss1. saved_along ext codec s0 ph s1 applied ss1"
proof -
  from t h obtain r ss1 dk where m: "maybe_save (lx_xxh3 ext) (lx_api ext) (nx_lib (lx_node ext)) (lx_store ext) (nd_fields (fl_node s))
      (fl_server s) busy started io now ss (fl_disk s) = Some (r, ss1, dk)" and s1: "s1 = s\<lparr> fl_saver := Some ss1, fl_disk := dk \<rparr>"
    by (auto simp: record_save_tick_def saved_along_def)
  have pa: "pending_append (lx_store ext) ph s1 = pending_append (lx_store ext) ph s"
    by (simp add: pending_append_def s1 split: phase.split)
  have "saver_run (lx_xxh ext) (lx_xxh3 ext) (lx_api ext) (nx_lib (lx_node ext)) (lx_store ext) (lx_backend ext)
       (nd_fields (fl_node s0)) codec (trail_of ext s0 applied) (deltas_of applied) (pending_append (lx_store ext) ph s) ss (fl_disk s)" "last (trail_of ext s0 applied) = fl_server s"
    using h by (simp_all add: saved_along_def)
  from saver_ticked[OF this(1), unfolded this(2), OF m[unfolded flds]] h show ?thesis
    by (intro exI[of _ ss1]) (simp add: saved_along_def pa, simp add: s1)
qed

lemma follow_run_saver:
  assumes "follow_run ext cfg s0 ph s applied pushed" and "saver_started_at ext codec s0" and "\<not> apply_failed ph"
  shows "\<exists>ss. saved_along ext codec s0 ph s applied ss"
  using assms
proof (induction rule: follow_run.induct)
  case follow_begin
  then obtain ss where "fl_saver s0 = Some ss" "saver_run (lx_xxh ext) (lx_xxh3 ext) (lx_api ext) (nx_lib (lx_node ext)) (lx_store ext) (lx_backend ext)
        (nd_fields (fl_node s0)) codec [fl_server s0] [] None ss (fl_disk s0)" by (auto simp: saver_started_at_def)
  then show ?case by (intro exI[of _ ss]) (simp add: saved_along_def pending_append_def trail_of_def)
next
  case (follow_polled s applied pushed busy started io now s1 r ph s')
  have flds: "nd_fields (fl_node s) = nd_fields (fl_node s0)"
    using follow_run_node[OF follow_polled.hyps(1)] follow_polled.prems(1) by (auto simp: saver_started_at_def)
  from follow_polled.IH[OF follow_polled.prems(1)] obtain ss where "saved_along ext codec s0 Polling s applied ss" by auto
  from saved_along_tick[OF this flds follow_polled.hyps(2)] obtain ss1
    where h: "saved_along ext codec s0 Polling s1 applied ss1" by blast
  have "saved_along ext codec s0 ph s' applied ss1"
    using follow_polled.hyps(3) by (rule poll_cases) (rule saved_along_cong[OF h], simp_all add: pending_append_def)+
  then show ?case by blast
next
  case (follow_caught_up f s applied pushed)
  from follow_caught_up.IH[OF follow_caught_up.prems(1)] obtain ss where "saved_along ext codec s0 (Following f) s applied ss" by auto
  from saved_along_cong[OF this, of s Polling] show ?case by (auto simp: pending_append_def)
next
  case (follow_applied f s applied pushed busy started io now s1 read fetched d s' u queue)
  have flds: "nd_fields (fl_node s) = nd_fields (fl_node s0)"
    using follow_run_node[OF follow_applied.hyps(1)] follow_applied.prems(1) by (auto simp: saver_started_at_def)
  from follow_applied.IH[OF follow_applied.prems(1)] obtain ss where "saved_along ext codec s0 (Following f) s applied ss" by auto
  from saved_along_tick[OF this flds follow_applied.hyps(3)] obtain ss1
    where h: "saved_along ext codec s0 (Following f) s1 applied ss1" by blast
  show ?case
  proof (rule fetch_cases[OF follow_applied.hyps(5)])
    fix fb p sp u' queue' oc nd
    assume a: "prepare_update read (fc_complete cfg) (fl_last s1 + 1) (fl_queue s1) fb = (Inr u', queue')"
      "node_apply_block_reporting (lx_xxh ext) (lx_store ext) (lx_backend ext) (fl_node s1) u' = Some (Inr oc, nd)"
      "Applied f fetched d = Applied f fb (oc_delta oc)"
      "s' = s1\<lparr> fl_prefetch := p, fl_spawned := sp, fl_queue := queue', fl_node := nd, fl_last := fl_last s1 + 1 \<rparr>"
    have u: "u' = u" using a(1,3) follow_applied.hyps(6) by simp
    from node_apply_same(1)[OF a(2)] obtain rep where
      b: "apply_block_reporting (lx_xxh ext) (lx_store ext) (lx_backend ext) (fl_server s1) u = Some (Inr (oc_delta oc, rep), fl_server s')"
      by (auto simp: a(4) u)
    have r: "saver_run (lx_xxh ext) (lx_xxh3 ext) (lx_api ext) (nx_lib (lx_node ext)) (lx_store ext) (lx_backend ext)
       (nd_fields (fl_node s0)) codec (trail_of ext s0 applied) (deltas_of applied) None ss1 (fl_disk s1)"
      and l: "last (trail_of ext s0 applied) = fl_server s1"
      using h by (simp_all add: saved_along_def pending_append_def)
    have "length (trail_of ext s0 applied) = Suc (length applied)"
      using saver_run_history[OF r] by (simp add: history_def)
    then have tr: "trail_of ext s0 (applied @ [(fetched, u, d)]) = trail_of ext s0 applied @ [fl_server s']"
      using server_trail_snoc[of "lx_xxh ext" "lx_store ext" "lx_backend ext" "fl_server s0" "map (\<lambda>(_, u, _). u) applied" u] b l
      by (simp add: trail_of_def)
    have d: "oc_delta oc = d" using a(3) by simp
    from saver_applied[OF r, unfolded l, OF b]
    have "saved_along ext codec s0 (Applied f fetched d) s' (applied @ [(fetched, u, d)]) ss1"
      using h d by (simp add: saved_along_def pending_append_def tr) (simp add: a(4))
    then show ?thesis by blast
  qed auto
next
  case (follow_held f s applied pushed busy started io now s1 read ph s')
  have flds: "nd_fields (fl_node s) = nd_fields (fl_node s0)"
    using follow_run_node[OF follow_held.hyps(1)] follow_held.prems(1) by (auto simp: saver_started_at_def)
  from follow_held.IH[OF follow_held.prems(1)] obtain ss where "saved_along ext codec s0 (Following f) s applied ss" by auto
  from saved_along_tick[OF this flds follow_held.hyps(3)] obtain ss1
    where h: "saved_along ext codec s0 (Following f) s1 applied ss1" by blast
  have "saved_along ext codec s0 ph s' applied ss1"
    using follow_held.hyps(5)
  proof (rule fetch_cases)
    fix e assume "ph = Stopped (ApplyFailed e)"
    then show ?thesis using follow_held.prems(2) by simp
  qed (rule saved_along_cong[OF h], use follow_held.hyps(6) in \<open>auto simp: pending_append_def\<close>)+
  then show ?case by blast
next
  case (follow_journaled f fetched d s applied pushed fault ph s')
  from follow_journaled.IH[OF follow_journaled.prems(1)] obtain ss
    where h: "saved_along ext codec s0 (Applied f fetched d) s applied ss" by auto
  then obtain ss' dk where a: "append_delta (lx_xxh3 ext) fault ss (fl_disk s) d (so_num_items (lx_store ext) (sv_store (fl_server s))) = Some (ss', dk)"
    and s': "s' = s\<lparr> fl_saver := Some ss', fl_disk := dk \<rparr>" "ph = Journaled f fetched"
    using follow_journaled.hyps(2) by (auto simp: follow_journal_def saved_along_def)
  have "saver_run (lx_xxh ext) (lx_xxh3 ext) (lx_api ext) (nx_lib (lx_node ext)) (lx_store ext) (lx_backend ext)
       (nd_fields (fl_node s0)) codec (trail_of ext s0 applied) (deltas_of applied) (Some (d, so_num_items (lx_store ext) (sv_store (fl_server s)))) ss (fl_disk s)"
    using h by (simp add: saved_along_def pending_append_def)
  from saver_appended[OF this a] h show ?case
    by (intro exI[of _ ss']) (simp add: saved_along_def pending_append_def s')
next
  case (follow_finished f fetched s applied pushed read now ph s')
  from follow_finished.IH[OF follow_finished.prems(1)] obtain ss
    where h: "saved_along ext codec s0 (Journaled f fetched) s applied ss" by auto
  have "saved_along ext codec s0 ph s' applied ss"
    by (rule saved_along_cong[OF h]) (use finish_cases[OF follow_finished.hyps(3)] in \<open>auto simp: pending_append_def\<close>)
  then show ?case by blast
next
  case (follow_pushed ph s applied pushed c)
  from follow_pushed.IH[OF follow_pushed.prems] obtain ss where h: "saved_along ext codec s0 ph s applied ss" by auto
  have "saved_along ext codec s0 ph (s\<lparr> fl_queue := push_one c (fl_queue s) \<rparr>) applied ss"
    by (rule saved_along_cong[OF h]) (simp_all add: pending_append_def split: phase.split)
  then show ?case by blast
next
  case (follow_served ph s applied pushed r nd)
  from follow_served.IH[OF follow_served.prems] obtain ss where h: "saved_along ext codec s0 ph s applied ss" by auto
  have "saved_along ext codec s0 ph (s\<lparr> fl_node := nd \<rparr>) applied ss"
    by (rule saved_along_cong[OF h]) (use setup_bytes_same[OF follow_served.hyps(2)] in \<open>simp_all add: pending_append_def split: phase.split\<close>)
  then show ?case by blast
next
  case (follow_saved ph s applied pushed ss io now r ss' dk')
  have flds: "nd_fields (fl_node s) = nd_fields (fl_node s0)"
    using follow_run_node[OF follow_saved.hyps(1)] follow_saved.prems by (auto simp: saver_started_at_def)
  from follow_saved.IH[OF follow_saved.prems] have h: "saved_along ext codec s0 ph s applied ss"
    using follow_saved.hyps(2) by (auto simp: saved_along_def)
  have pa: "pending_append (lx_store ext) ph (s\<lparr> fl_saver := Some ss', fl_disk := dk' \<rparr>) = pending_append (lx_store ext) ph s"
    by (simp add: pending_append_def split: phase.split)
  have "saver_run (lx_xxh ext) (lx_xxh3 ext) (lx_api ext) (nx_lib (lx_node ext)) (lx_store ext) (lx_backend ext)
       (nd_fields (fl_node s0)) codec (trail_of ext s0 applied) (deltas_of applied) (pending_append (lx_store ext) ph s) ss (fl_disk s)" "last (trail_of ext s0 applied) = fl_server s"
    using h by (simp_all add: saved_along_def)
  from saver_saved[OF this(1), unfolded this(2), OF follow_saved.hyps(3)[unfolded flds]] h show ?case
    by (intro exI[of _ ss']) (simp add: saved_along_def pa)
qed

section \<open>What is applied\<close>

fun running :: "phase \<Rightarrow> bool" where
  "running (Stopped stop) = False"
| "running _ = True"

fun phase_head :: "phase \<Rightarrow> u64 option" where
  "phase_head (Following f) = Some f"
| "phase_head (Applied f _ _) = Some f"
| "phase_head (Journaled f _) = Some f"
| "phase_head _ = None"

definition applied_pairs :: "applied_block list \<Rightarrow> (u64 \<times> fetched_block) list" where
  "applied_pairs applied = map (\<lambda>(fb, u, d). (update_block u, fb)) applied"

lemma applied_pairs_simps [simp]:
  "applied_pairs [] = []" "applied_pairs (as @ [(fb, u, d)]) = applied_pairs as @ [(update_block u, fb)]"
  by (simp_all add: applied_pairs_def)

lemma phase_head_finish: "running ph \<Longrightarrow> ph = Following f \<or> ph = Stopped stop \<Longrightarrow> ph = Following f" by auto

definition prefetched :: "('s, 'cfg, 'p, 'mat) follow_ext \<Rightarrow> nat \<Rightarrow> u64 \<Rightarrow> phase \<Rightarrow> ('s, 'cfg, 'p, 'mat) follow_state \<Rightarrow> applied_block list
    \<Rightarrow> block_prefetch \<Rightarrow> u64 list \<Rightarrow> ask list \<Rightarrow> nat list \<Rightarrow> bool" where
  "prefetched ext depth start ph s applied p spawned asks aborted \<longleftrightarrow>
     prefetch_run (lx_join ext) depth start (fl_last s) p spawned asks aborted \<and> delivered asks = applied_pairs applied \<and>
     (running ph \<longrightarrow> p = fl_prefetch s \<and> spawned = fl_spawned s \<and> (\<forall>f. phase_head ph = Some f \<longrightarrow> pf_head p = f))"

lemma prefetched_cong:
  "prefetched ext depth start ph s applied p spawned asks aborted \<Longrightarrow> fl_last s' = fl_last s \<Longrightarrow> fl_prefetch s' = fl_prefetch s \<Longrightarrow>
   fl_spawned s' = fl_spawned s \<Longrightarrow> (running ph' \<Longrightarrow> running ph \<and> (phase_head ph' = phase_head ph \<or> phase_head ph' = None)) \<Longrightarrow>
   prefetched ext depth start ph' s' applied p spawned asks aborted"
  by (auto simp: prefetched_def)

lemma prefetched_ex_cong:
  "\<exists>p spawned asks aborted. prefetched ext depth start ph s applied p spawned asks aborted \<Longrightarrow> fl_last s' = fl_last s \<Longrightarrow>
   fl_prefetch s' = fl_prefetch s \<Longrightarrow> fl_spawned s' = fl_spawned s \<Longrightarrow>
   (running ph' \<Longrightarrow> running ph \<and> (phase_head ph' = phase_head ph \<or> phase_head ph' = None)) \<Longrightarrow>
   \<exists>p spawned asks aborted. prefetched ext depth start ph' s' applied p spawned asks aborted"
  using prefetched_cong by blast

lemma prefetched_ask:
  assumes h: "prefetched ext depth start (Following f) s applied p spawned asks aborted" and lt: "fl_last s < f"
    and pf: "prefetch_fetch (lx_join ext) (fl_last s + 1) (fl_prefetch s) (fl_spawned s) = Some (r, p', sp)"
  shows "\<exists>i. prefetch_run (lx_join ext) depth start (if is_ok r then fl_last s + 1 else fl_last s) p' sp
      (asks @ [(fl_last s + 1, i, r)]) aborted \<and> pf_head p' = f"
proof -
  from h have run: "prefetch_run (lx_join ext) depth start (fl_last s) (fl_prefetch s) (fl_spawned s) asks aborted"
    and hd: "pf_head (fl_prefetch s) = f" by (auto simp: prefetched_def)
  obtain p1 sp1 where w: "open_window (fl_last s + 1) (fl_prefetch s) (fl_spawned s) = (p1, sp1)" by fastforce
  from pf w obtain i where i: "bt_get (pf_inflight p1) (fl_last s + 1) = Some i" "sp = sp1"
      "p' = p1\<lparr> pf_inflight := bt_remove (fl_last s + 1) (pf_inflight p1) \<rparr>"
    by (auto simp: prefetch_fetch_def collect_def)
  have "pf_head p' = f" using w hd i(3) by (auto simp: open_window_def split: prod.splits)
  then show ?thesis using prefetch_asked[OF run lt[folded hd] pf w[folded i(2)] i(1)] by blast
qed

lemma follow_run_prefetch:
  assumes "follow_run ext cfg s0 ph s applied pushed" and "fl_prefetch s0 = prefetch_new (fc_prefetch cfg)" and "fl_spawned s0 = []"
  shows "\<exists>p spawned asks aborted. prefetched ext (fc_prefetch cfg) (fl_last s0) ph s applied p spawned asks aborted"
  using assms
proof (induction rule: follow_run.induct)
  case follow_begin
  then show ?case using prefetch_start[of "lx_join ext" "fc_prefetch cfg" "fl_last s0"]
    by (intro exI[of _ "[]"] exI[of _ "prefetch_new (fc_prefetch cfg)"]) (simp add: prefetched_def delivered_def)
next
  case (follow_polled s applied pushed busy started io now s1 r ph s')
  note t = same_but_saverD[OF tick_same[OF follow_polled.hyps(2)]]
  from follow_polled.IH[OF follow_polled.prems] obtain asks aborted
    where h: "prefetched ext (fc_prefetch cfg) (fl_last s0) Polling s applied (fl_prefetch s) (fl_spawned s) asks aborted"
    by (auto simp: prefetched_def)
  show ?case
  proof (rule poll_cases[OF follow_polled.hyps(3)])
    assume "ph = Polling" "s' = s1"
    then show ?thesis using prefetched_cong[OF h, of s1 Polling] t by auto
  next
    fix f assume a: "ph = Following f" "s' = s1\<lparr> fl_prefetch := fst (set_head f (fl_prefetch s1)) \<rparr>"
    obtain p' gone where g: "set_head f (fl_prefetch s) = (p', gone)" by fastforce
    then have "pf_head p' = f" by (auto simp: set_head_def split: prod.splits)
    then show ?thesis using prefetch_head[OF _ g] h a g t
      by (intro exI[of _ p'] exI[of _ "fl_spawned s"] exI[of _ asks] exI[of _ "aborted @ gone"]) (simp add: prefetched_def)
  qed
next
  case (follow_caught_up f s applied pushed)
  show ?case by (rule prefetched_ex_cong[OF follow_caught_up.IH[OF follow_caught_up.prems]]) simp_all
next
  case (follow_applied f s applied pushed busy started io now s1 read fetched d s' u queue)
  note t = same_but_saverD[OF tick_same[OF follow_applied.hyps(3)]]
  from follow_applied.IH[OF follow_applied.prems] obtain asks aborted
    where h: "prefetched ext (fc_prefetch cfg) (fl_last s0) (Following f) s applied (fl_prefetch s) (fl_spawned s) asks aborted"
    by (auto simp: prefetched_def)
  from prepare_update_spec[OF follow_applied.hyps(6)] have ub: "update_block u = fl_last s1 + 1" by blast
  show ?case
  proof (rule fetch_cases[OF follow_applied.hyps(5)])
    fix fb p sp oc nd queue'
    assume a: "prefetch_fetch (lx_join ext) (fl_last s1 + 1) (fl_prefetch s1) (fl_spawned s1) = Some (Inr fb, p, sp)"
      "Applied f fetched d = Applied f fb (oc_delta oc)"
      "s' = s1\<lparr> fl_prefetch := p, fl_spawned := sp, fl_queue := queue', fl_node := nd, fl_last := fl_last s1 + 1 \<rparr>"
    from prefetched_ask[OF h follow_applied.hyps(2)] a(1) t obtain i where
      "prefetch_run (lx_join ext) (fc_prefetch cfg) (fl_last s0) (fl_last s + 1) p sp (asks @ [(fl_last s + 1, i, Inr fb)]) aborted"
      "pf_head p = f" by fastforce
    then show ?thesis using h a(2,3) t ub
      by (intro exI[of _ p] exI[of _ sp] exI[of _ "asks @ [(fl_last s + 1, i, Inr fb)]"] exI[of _ aborted])
        (simp add: prefetched_def delivered_snoc)
  qed auto
next
  case (follow_held f s applied pushed busy started io now s1 read ph s')
  note t = same_but_saverD[OF tick_same[OF follow_held.hyps(3)]]
  from follow_held.IH[OF follow_held.prems] obtain asks aborted
    where h: "prefetched ext (fc_prefetch cfg) (fl_last s0) (Following f) s applied (fl_prefetch s) (fl_spawned s) asks aborted"
    by (auto simp: prefetched_def)
  have stop: ?case if "ph = Stopped stop" "fl_last s' = fl_last s" for stop
    using h that by (intro exI) (auto simp: prefetched_def)
  show ?case
  proof (rule fetch_cases[OF follow_held.hyps(5)])
    fix e p sp
    assume a: "prefetch_fetch (lx_join ext) (fl_last s1 + 1) (fl_prefetch s1) (fl_spawned s1) = Some (Inl e, p, sp)"
      "ph = Following f" "s' = s1\<lparr> fl_prefetch := p, fl_spawned := sp \<rparr>"
    from prefetched_ask[OF h follow_held.hyps(2)] a(1) t obtain i where
      "prefetch_run (lx_join ext) (fc_prefetch cfg) (fl_last s0) (fl_last s) p sp (asks @ [(fl_last s + 1, i, Inl e)]) aborted"
      "pf_head p = f" by fastforce
    then show ?thesis using h a(2,3) t
      by (intro exI[of _ p] exI[of _ sp] exI[of _ "asks @ [(fl_last s + 1, i, Inl e)]"] exI[of _ aborted])
        (simp add: prefetched_def delivered_snoc)
  qed (use stop t follow_held.hyps(6) in auto)
next
  case (follow_journaled f fetched d s applied pushed fault ph s')
  from journal_same[OF follow_journaled.hyps(2)] have "ph = Journaled f fetched" "same_but_saver s s'" by simp_all
  then show ?case by (intro prefetched_ex_cong[OF follow_journaled.IH[OF follow_journaled.prems]]) (auto dest: same_but_saverD)
next
  case (follow_finished f fetched s applied pushed read now ph s')
  show ?case
    by (rule prefetched_ex_cong[OF follow_finished.IH[OF follow_finished.prems]]) (use finish_cases[OF follow_finished.hyps(3)] in auto)
next
  case (follow_pushed ph s applied pushed c)
  show ?case by (rule prefetched_ex_cong[OF follow_pushed.IH[OF follow_pushed.prems]]) simp_all
next
  case (follow_served ph s applied pushed r nd)
  show ?case by (rule prefetched_ex_cong[OF follow_served.IH[OF follow_served.prems]]) simp_all
next
  case (follow_saved ph s applied pushed ss io now r ss' dk')
  show ?case by (rule prefetched_ex_cong[OF follow_saved.IH[OF follow_saved.prems]]) simp_all
qed

lemma follow_run_queue: "follow_run ext cfg s0 ph s applied pushed \<Longrightarrow> set (fl_queue s) \<subseteq> set pushed"
proof (induction rule: follow_run.induct)
  case (follow_polled s applied pushed busy started io now s1 r ph s')
  then show ?case using same_but_saverD(5)[OF tick_same[OF follow_polled.hyps(2)]]
    by (auto elim!: poll_cases)
next
  case (follow_applied f s applied pushed busy started io now s1 read fetched d s' u queue)
  have q: "fl_queue s1 = fl_queue s" using same_but_saverD(5)[OF tick_same[OF follow_applied.hyps(3)]] .
  show ?case by (rule fetch_cases[OF follow_applied.hyps(5)]) (use q follow_applied.IH prepare_update_spec in fastforce)+
next
  case (follow_held f s applied pushed busy started io now s1 read ph s')
  have q: "fl_queue s1 = fl_queue s" using same_but_saverD(5)[OF tick_same[OF follow_held.hyps(3)]] .
  have r: "set queue \<subseteq> set (fl_queue s)" if "prepare_update read (fc_complete cfg) n (fl_queue s1) fb = (x, queue)" for n fb x queue
  proof -
    have d: "drain_up_to max_corrections_per_block k = (take max_corrections_per_block k, drop max_corrections_per_block k)" for k
      by (simp add: drain_up_to_def Let_def min_def)
    show ?thesis using that set_drop_subset[of max_corrections_per_block "fl_queue s1"]
      by (auto simp: q prepare_update_def inject_corrections_def d Let_def split: if_splits sum.splits prod.splits)
  qed
  show ?case by (rule fetch_cases[OF follow_held.hyps(5)]) (use q follow_held.IH r follow_held.hyps(6) in fastforce)+
next
  case (follow_journaled f fetched d s applied pushed fault ph s')
  then show ?case using journal_same same_but_saverD(5) by metis
next
  case (follow_finished f fetched s applied pushed read now ph s')
  then show ?case using finish_cases by metis
qed (auto simp: push_one_def)

text \<open>What the loop makes of one fetched block.\<close>

definition follows_block :: "('s, 'cfg, 'p, 'mat) follow_ext \<Rightarrow> follow_config \<Rightarrow> correction list \<Rightarrow> applied_block \<Rightarrow> bool" where
  "follows_block ext cfg pushed a \<longleftrightarrow> (case a of (fb, u, d) \<Rightarrow>
     update_block (fb_update fb) = update_block u \<and> delta_block d = update_block u \<and>
     (\<exists>cs. changes u = map (\<lambda>c. (co_key c, co_balance c)) cs @ changes (fb_update fb) \<and> set cs \<subseteq> set pushed \<and>
        length cs \<le> max_corrections_per_block) \<and>
     set (credits u) \<subseteq> set (credits (fb_update fb)) \<and> (fc_complete cfg \<longrightarrow> credits u = credits (fb_update fb)))"

lemma follows_block_mono: "follows_block ext cfg pushed a \<Longrightarrow> set pushed \<subseteq> set pushed' \<Longrightarrow> follows_block ext cfg pushed' a"
  by (fastforce simp: follows_block_def split: prod.splits)

lemma follow_run_blocks:
  "follow_run ext cfg s0 ph s applied pushed \<Longrightarrow> \<forall>a \<in> set applied. follows_block ext cfg pushed a"
proof (induction rule: follow_run.induct)
  case (follow_applied f s applied pushed busy started io now s1 read fetched d s' u queue)
  have q: "set (fl_queue s1) \<subseteq> set pushed"
    using same_but_saverD(5)[OF tick_same[OF follow_applied.hyps(3)]] follow_run_queue[OF follow_applied.hyps(1)] by simp
  have d: "delta_block d = update_block u"
  proof (rule fetch_cases[OF follow_applied.hyps(5)])
    fix fb p sp u' queue' oc nd
    assume "prepare_update read (fc_complete cfg) (fl_last s1 + 1) (fl_queue s1) fb = (Inr u', queue')"
      "node_apply_block_reporting (lx_xxh ext) (lx_store ext) (lx_backend ext) (fl_node s1) u' = Some (Inr oc, nd)"
      "Applied f fetched d = Applied f fb (oc_delta oc)"
    then show ?thesis using node_apply_same(4) follow_applied.hyps(6) by fastforce
  qed auto
  have "follows_block ext cfg pushed (fetched, u, d)"
    using prepare_update_spec[OF follow_applied.hyps(6)] q d by (fastforce simp: follows_block_def)
  then show ?case using follow_applied.IH by simp
next
  case (follow_pushed ph s applied pushed c)
  then show ?case using follows_block_mono[of ext cfg pushed _ "pushed @ [c]"] by auto
qed simp_all

section \<open>Checkpoints\<close>

lemma reconcile_step:
  assumes rec: "reconcile confirm read keccak now n lag changed credited cfg reservoir h t = (out, reservoir', h', logs, t')"
    and inv: "distinct reservoir" "length reservoir \<le> deferred_reservoir_cap" and halt: "\<not> rh_halted h"
  shows "if out = Halted then rh_halted h' else \<not> rh_halted h' \<and> rh_checkpoints_total h' = rh_checkpoints_total h + 1 \<and>
    rh_last_checkpoint_block h' = n \<and> distinct reservoir' \<and> length reservoir' \<le> deferred_reservoir_cap"
proof (cases "recent_depth_blocks < lag")
  case True
  show ?thesis
    using reconcile_deferred[OF True, of now n cfg changed credited reservoir h confirm read keccak t] rec halt
      reservoir_insert_many_spec[OF inv]
    by (auto simp: record_reconcile_checkpoint_def set_reservoir_len_def Let_def)
next
  case False
  let ?cands = "reconcile_candidates (rcfg_complete cfg) changed credited"
  let ?S = "sampled confirm n (rcfg_samples cfg) ?cands t"
  let ?D = "drained_fetches confirm n (rcfg_samples cfg) ?cands reservoir t"
  let ?popped = "take reservoir_drain_per_checkpoint reservoir"
  note spec = reconcile_spec[OF rec False inv(2)]
  show ?thesis
  proof (cases "\<exists>av \<in> set (fetched_ok (?S @ ?D)). disagrees read keccak av")
    case True
    then show ?thesis using spec by simp
  next
    case none: False
    from spec[unfolded if_not_P[OF none]] obtain h1 k b m l where out: "out = Continued"
      and r': "reservoir' = drop reservoir_drain_per_checkpoint reservoir @ failed_fetches ?D"
      and h1: "h1 = record_reconcile_checkpoint now n k b False h" "h' = set_reservoir_len l (checks_added m h1)" by blast
    obtain t1 where D: "?D = drain_fetches confirm n ?popped t1" by (simp add: drained_fetches_def)
    note ff = failed_fetches_sublist[of confirm n ?popped t1, folded D]
    have d: "distinct ?popped" "distinct (drop reservoir_drain_per_checkpoint reservoir)"
      "set (drop reservoir_drain_per_checkpoint reservoir) \<inter> set ?popped = {}"
      using inv(1) set_take_disj_set_drop_if_distinct[OF inv(1), of reservoir_drain_per_checkpoint reservoir_drain_per_checkpoint] by auto
    have "distinct reservoir'" unfolding r' using ff d by auto
    moreover have "length reservoir' \<le> deferred_reservoir_cap"
      using ff drop_take_length[of reservoir_drain_per_checkpoint reservoir] inv(2) unfolding r' length_append by linarith
    moreover have "\<not> rh_halted h' \<and> rh_checkpoints_total h' = rh_checkpoints_total h + 1 \<and> rh_last_checkpoint_block h' = n"
      using h1 halt by (simp add: record_reconcile_checkpoint_def set_reservoir_len_def checks_added_def Let_def)
    ultimately show ?thesis using out by simp
  qed
qed

text \<open>The applied blocks that are due for a checkpoint, and those of them whose turn is over.\<close>

definition due :: "follow_config \<Rightarrow> applied_block list \<Rightarrow> u64 list" where
  "due cfg applied = filter (\<lambda>b. 0 < fc_reconcile_every cfg \<and> b mod fc_reconcile_every cfg = 0) (map delta_block (deltas_of applied))"

fun turn_over :: "phase \<Rightarrow> applied_block list \<Rightarrow> applied_block list" where
  "turn_over (Applied _ _ _) applied = butlast applied"
| "turn_over (Journaled _ _) applied = butlast applied"
| "turn_over _ applied = applied"

lemma due_snoc: "due cfg (as @ [(fb, u, d)]) = due cfg as @
    (if 0 < fc_reconcile_every cfg \<and> delta_block d mod fc_reconcile_every cfg = 0 then [delta_block d] else [])"
  by (simp add: due_def)

definition checked_through :: "follow_config \<Rightarrow> reconcile_health \<Rightarrow> phase \<Rightarrow> ('s, 'cfg, 'p, 'mat) follow_state \<Rightarrow> applied_block list \<Rightarrow> bool" where
  "checked_through cfg h ph s applied \<longleftrightarrow>
     (if ph = Stopped ReconcileHalted then rh_halted (fl_health s)
      else \<not> rh_halted (fl_health s) \<and> distinct (fl_reservoir s) \<and> length (fl_reservoir s) \<le> deferred_reservoir_cap \<and>
        rh_checkpoints_total (fl_health s) = rh_checkpoints_total h + of_nat (length (due cfg (turn_over ph applied))) \<and>
        rh_last_checkpoint_block (fl_health s) = last (rh_last_checkpoint_block h # due cfg (turn_over ph applied)))"

lemma checked_through_cong:
  "checked_through cfg h ph s applied \<Longrightarrow> fl_health s' = fl_health s \<Longrightarrow> fl_reservoir s' = fl_reservoir s \<Longrightarrow>
   (ph' = Stopped ReconcileHalted \<longleftrightarrow> ph = Stopped ReconcileHalted) \<Longrightarrow> turn_over ph' applied' = turn_over ph applied \<Longrightarrow>
   checked_through cfg h ph' s' applied'"
  by (simp add: checked_through_def)

lemma finish_checked:
  assumes h: "checked_through cfg h (Journaled f fetched) s (as @ [(fb, u, d)])" and d: "delta_block d = fl_last s"
    and fin: "follow_finish ext cfg read now f fetched s = (ph, s')"
  shows "checked_through cfg h ph s' (as @ [(fb, u, d)])"
proof (cases "0 < fc_reconcile_every cfg \<and> fl_last s mod fc_reconcile_every cfg = 0")
  case False
  then have "ph = Following f" "fl_health s' = fl_health s" "fl_reservoir s' = fl_reservoir s"
    using fin by (auto simp: follow_finish_def Let_def)
  then show ?thesis using h False d by (auto simp: checked_through_def due_snoc)
next
  case True
  from h have inv: "distinct (fl_reservoir s)" "length (fl_reservoir s) \<le> deferred_reservoir_cap" "\<not> rh_halted (fl_health s)"
    by (simp_all add: checked_through_def)
  let ?rcfg = "\<lparr> rcfg_complete = fc_complete cfg, rcfg_samples = fc_reconcile_samples cfg, rcfg_every = fc_reconcile_every cfg \<rparr>"
  obtain r reservoir' h' logs t' where rec: "reconcile (lx_confirm ext) read (nx_keccak (lx_node ext)) now (fl_last s)
      (saturating_sub_u f (fl_last s)) (fb_changed fetched) (fb_credited fetched) ?rcfg (fl_reservoir s) (fl_health s) (fl_time s) =
      (r, reservoir', h', logs, t')" by (metis prod.exhaust)
  have ph: "ph = (if r = Halted then Stopped ReconcileHalted else Following f)" "fl_health s' = h'" "fl_reservoir s' = reservoir'"
    using fin True rec by (auto simp: follow_finish_def Let_def)
  have "due cfg (as @ [(fb, u, d)]) = due cfg as @ [fl_last s]" using True d by (simp add: due_snoc)
  then show ?thesis using h reconcile_step[OF rec inv] ph by (auto simp: checked_through_def split: if_splits)
qed

lemma follow_run_last:
  assumes "follow_run ext cfg s0 ph s applied pushed"
  shows "applied \<noteq> [] \<longrightarrow> delta_block (last (deltas_of applied)) = fl_last s"
  using assms
proof (induction rule: follow_run.induct)
  case (follow_polled s applied pushed busy started io now s1 r ph s')
  then show ?case using same_but_saverD(2)[OF tick_same[OF follow_polled.hyps(2)]] by (auto elim!: poll_cases)
next
  case (follow_applied f s applied pushed busy started io now s1 read fetched d s' u queue)
  have "delta_block d = fl_last s'"
    by (rule fetch_cases[OF follow_applied.hyps(5)])
      (use prepare_update_spec node_apply_same(4) same_but_saverD(2)[OF tick_same[OF follow_applied.hyps(3)]] in fastforce)+
  then show ?case by simp
next
  case (follow_held f s applied pushed busy started io now s1 read ph s')
  have "fl_last s' = fl_last s \<and> turn_over ph applied = applied"
    by (rule fetch_cases[OF follow_held.hyps(5)])
      (use follow_held.hyps(6) same_but_saverD(2)[OF tick_same[OF follow_held.hyps(3)]] in auto)
  then show ?case using follow_held.IH by simp
next
  case (follow_journaled f fetched d s applied pushed fault ph s')
  then show ?case using journal_same[OF follow_journaled.hyps(2)] same_but_saverD(2)[of s s'] by auto
next
  case (follow_finished f fetched s applied pushed read now ph s')
  then show ?case using finish_cases[OF follow_finished.hyps(3)] by auto
qed auto

lemma follow_run_pending: "follow_run ext cfg s0 ph s applied pushed \<Longrightarrow>
    (\<exists>f fb d. ph = Applied f fb d) \<or> (\<exists>f fb. ph = Journaled f fb) \<Longrightarrow> applied \<noteq> []"
proof (induction rule: follow_run.induct)
  case (follow_held f s applied pushed busy started io now s1 read ph s')
  show ?case by (rule fetch_cases[OF follow_held.hyps(5)]) (use follow_held.prems follow_held.hyps(6) in auto)
next
  case (follow_finished f fetched s applied pushed read now ph s')
  then show ?case using finish_cases[OF follow_finished.hyps(3)] by auto
qed (auto elim: poll_cases)

lemma follow_run_checked:
  assumes "follow_run ext cfg s0 ph s applied pushed" and "\<not> rh_halted (fl_health s0)" and "fl_reservoir s0 = []"
  shows "checked_through cfg (fl_health s0) ph s applied"
  using assms
proof (induction rule: follow_run.induct)
  case follow_begin
  then show ?case by (simp add: checked_through_def due_def deltas_of_def)
next
  case (follow_polled s applied pushed busy started io now s1 r ph s')
  note h = follow_polled.IH[OF follow_polled.prems] and t = same_but_saverD[OF tick_same[OF follow_polled.hyps(2)]]
  show ?case by (rule poll_cases[OF follow_polled.hyps(3)]) (rule checked_through_cong[OF h], use t in auto)+
next
  case (follow_caught_up f s applied pushed)
  show ?case by (rule checked_through_cong[OF follow_caught_up.IH[OF follow_caught_up.prems]]) simp_all
next
  case (follow_applied f s applied pushed busy started io now s1 read fetched d s' u queue)
  note h = follow_applied.IH[OF follow_applied.prems] and t = same_but_saverD[OF tick_same[OF follow_applied.hyps(3)]]
  show ?case
    by (rule fetch_cases[OF follow_applied.hyps(5)]) (rule checked_through_cong[OF h], use t in auto)+
next
  case (follow_held f s applied pushed busy started io now s1 read ph s')
  note h = follow_held.IH[OF follow_held.prems] and t = same_but_saverD[OF tick_same[OF follow_held.hyps(3)]]
  have stop: "stop \<noteq> ReconcileHalted" if "prepare_update read complete n queue fb = (Inl stop, queue')" for complete n queue fb stop queue'
    using that by (auto simp: prepare_update_def Let_def split: if_splits sum.splits prod.splits)
  show ?case
    by (rule fetch_cases[OF follow_held.hyps(5)]) (rule checked_through_cong[OF h], use t stop follow_held.hyps(6) in auto)+
next
  case (follow_journaled f fetched d s applied pushed fault ph s')
  from journal_same[OF follow_journaled.hyps(2)] have "ph = Journaled f fetched" "same_but_saver s s'" by simp_all
  then show ?case
    by (intro checked_through_cong[OF follow_journaled.IH[OF follow_journaled.prems]]) (auto dest: same_but_saverD)
next
  case (follow_finished f fetched s applied pushed read now ph s')
  have ne: "applied \<noteq> []" using follow_run_pending[OF follow_finished.hyps(1)] by blast
  then obtain as fb u d where a: "applied = as @ [(fb, u, d)]" by (metis prod.exhaust rev_exhaust)
  then have "delta_block d = fl_last s" using follow_run_last[OF follow_finished.hyps(1)] by simp
  then show ?case using finish_checked[OF _ _ follow_finished.hyps(3)] follow_finished.IH[OF follow_finished.prems] unfolding a by blast
next
  case (follow_pushed ph s applied pushed c)
  show ?case by (rule checked_through_cong[OF follow_pushed.IH[OF follow_pushed.prems]]) simp_all
next
  case (follow_served ph s applied pushed r nd)
  show ?case by (rule checked_through_cong[OF follow_served.IH[OF follow_served.prems]]) simp_all
next
  case (follow_saved ph s applied pushed ss io now r ss' dk')
  show ?case by (rule checked_through_cong[OF follow_saved.IH[OF follow_saved.prems]]) simp_all
qed

section \<open>Consecutive blocks\<close>

lemma follow_run_consecutive:
  assumes run: "follow_run ext cfg s0 ph s applied pushed"
    and s0: "fl_prefetch s0 = prefetch_new (fc_prefetch cfg)" "fl_spawned s0 = []" and depth: "fc_prefetch cfg < 2 ^ 64"
  shows "map (\<lambda>d. unat (delta_block d)) (deltas_of applied) = [Suc (unat (fl_last s0)) ..< Suc (unat (fl_last s))] \<and>
    (\<forall>(fb, u, d) \<in> set applied. \<exists>i. join_outcome (lx_join ext i (delta_block d)) = Inr fb) \<and> fl_last s0 \<le> fl_last s"
proof -
  from follow_run_prefetch[OF run s0] obtain p spawned asks aborted where
    pr: "prefetch_run (lx_join ext) (fc_prefetch cfg) (fl_last s0) (fl_last s) p spawned asks aborted"
    and del: "delivered asks = applied_pairs applied" by (auto simp: prefetched_def)
  note inv = prefetch_run_invar[OF pr depth]
  have db: "delta_block d = update_block u" if "(fb, u, d) \<in> set applied" for fb u d
    using follow_run_blocks[OF run] that by (auto simp: follows_block_def)
  have "map (\<lambda>d. unat (delta_block d)) (deltas_of applied) = map (\<lambda>(b, _). unat b) (delivered asks)"
    unfolding del deltas_of_def applied_pairs_def using db by (auto simp: o_def)
  moreover have "\<exists>i. join_outcome (lx_join ext i (delta_block d)) = Inr fb" if "(fb, u, d) \<in> set applied" for fb u d
  proof -
    have "(update_block u, fb) \<in> set (delivered asks)" using that by (force simp: del applied_pairs_def)
    then obtain i where "(update_block u, i, Inr fb) \<in> set asks" by (auto simp: delivered_def split: sum.splits)
    then have "join_outcome (lx_join ext i (update_block u)) = Inr fb" using inv unfolding asks_ok_def by fastforce
    then show ?thesis using db[OF that] by auto
  qed
  ultimately show ?thesis using inv by (auto simp: asks_ok_def)
qed

lemma history_block:
  assumes "history xxh so be svs ds" and "map (\<lambda>d. unat (delta_block d)) ds = [Suc b ..< Suc e]" and "unat (sv_block (svs ! 0)) = b"
    and "i \<le> length ds"
  shows "unat (sv_block (svs ! i)) = b + i"
proof (cases i)
  case (Suc k)
  then have "k < length ds" using assms(4) by simp
  then obtain u rep where "apply_block_reporting xxh so be (svs ! k) u = Some (Inr (ds ! k, rep), svs ! i)"
    using assms(1) Suc by (auto simp: history_def)
  then have "sv_block (svs ! i) = delta_block (ds ! k)" by (auto elim!: apply_block_okD)
  moreover have "unat (delta_block (ds ! k)) = [Suc b ..< Suc e] ! k"
    using \<open>k < length ds\<close> assms(2) by (metis nth_map)
  moreover have "k < length [Suc b ..< Suc e]" using \<open>k < length ds\<close> assms(2) by (metis length_map)
  then have "[Suc b ..< Suc e] ! k = Suc b + k" by (simp del: upt_Suc)
  ultimately show ?thesis using Suc by simp
qed (use assms(3) in simp)

fun appending :: "phase \<Rightarrow> bool" where
  "appending (Applied _ _ _) = True"
| "appending _ = False"

lemma appending_pending: "(pending_append so ph s = None) = (\<not> appending ph)"
  by (cases ph) (simp_all add: pending_append_def)


lemma follow_crash:
  assumes run: "follow_run ext cfg s0 ph s applied pushed" and st: "saver_started_at ext codec s0" and nf: "\<not> apply_failed ph"
    and s0: "fl_prefetch s0 = prefetch_new (fc_prefetch cfg)" "fl_spawned s0 = []" and depth: "fc_prefetch cfg < 2 ^ 64"
    and api: "sa_api sa = lx_api ext"
    and dep: "deployed sa (lx_store ext) (lx_backend ext) (nd_fields (fl_node s0)) codec log reps (fl_server s0)"
    and sav: "savable_run sa (lx_store ext) (nx_lib (lx_node ext)) plib (nd_fields (fl_node s0)) codec (trail_of ext s0 applied)"
    and jr: "\<forall>d \<in> set (deltas_of applied). journalable (cf_plaintext_bits (nd_fields (fl_node s0)))
        (of_nat (ca_arity (sa_api sa) (nd_fields (fl_node s0)))) d"
  shows "\<exists>rs ss. load_with_journal_restore (lx_xxh3 ext) sa (lx_store ext) (lx_backend ext) (nx_lib (lx_node ext)) plib
        (fs_path (dk_state (fl_disk s))) (dk_journal (fl_disk s)) config codec cap = Some (Inr rs) \<and>
      fl_last s0 \<le> sv_block (rs_server rs) \<and> sv_block (rs_server rs) \<le> fl_last s \<and> fl_saver s = Some ss \<and>
      (ss_journal ss \<noteq> None \<longrightarrow> unat (fl_last s) \<le> unat (sv_block (rs_server rs)) + (if appending ph then 1 else 0)) \<and>
      hints_current (lx_store ext) reps (rs_server rs) \<and>
      (sv_block (rs_server rs) = fl_last s \<longrightarrow> (\<forall>j < cp_arity (sv_params (fl_server s)). \<forall>row off.
         store_view (lx_store ext) (sv_params (fl_server s)) (sv_store (rs_server rs)) j row off =
         store_view (lx_store ext) (sv_params (fl_server s)) (sv_store (fl_server s)) j row off))"
proof -
  let ?svs = "trail_of ext s0 applied" and ?ds = "deltas_of applied"
  from follow_run_saver[OF run st nf] obtain ss where sa: "saved_along ext codec s0 ph s applied ss" by blast
  then have r: "saver_run (lx_xxh ext) (lx_xxh3 ext) (sa_api sa) (nx_lib (lx_node ext)) (lx_store ext) (lx_backend ext)
      (nd_fields (fl_node s0)) codec ?svs ?ds (pending_append (lx_store ext) ph s) ss (fl_disk s)"
    and l: "last ?svs = fl_server s" and ss: "fl_saver s = Some ss"
    by (simp_all add: saved_along_def api)
  obtain rs i where rs: "load_with_journal_restore (lx_xxh3 ext) sa (lx_store ext) (lx_backend ext) (nx_lib (lx_node ext)) plib
      (fs_path (dk_state (fl_disk s))) (dk_journal (fl_disk s)) config codec cap = Some (Inr rs)"
    and i: "i \<le> length ?ds" "sv_block (rs_server rs) = sv_block (?svs ! i)" and hc: "hints_current (lx_store ext) reps (rs_server rs)"
    and view: "\<forall>j < cp_arity (sv_params (?svs ! i)). \<forall>row off.
        store_view (lx_store ext) (sv_params (?svs ! i)) (sv_store (rs_server rs)) j row off =
        store_view (lx_store ext) (sv_params (?svs ! i)) (sv_store (?svs ! i)) j row off"
    and live: "ss_journal ss \<noteq> None \<longrightarrow> length ?ds \<le> i + (if pending_append (lx_store ext) ph s = None then 0 else 1)"
    using restart_core[OF r _ sav jr, of log reps config cap] dep by auto
  note c = follow_run_consecutive[OF run s0 depth]
  have "?svs ! 0 = fl_server s0" using trail_of_hd[of ext s0 applied] hd_conv_nth[OF saver_run_hd[OF r]] by metis
  then have first: "unat (sv_block (?svs ! 0)) = unat (fl_last s0)" using st by (simp add: saver_started_at_def)
  note hist = saver_run_history[OF r]
  have b: "unat (sv_block (?svs ! i)) = unat (fl_last s0) + i"
    using history_block[OF hist _ first i(1)] c by simp
  have n: "length ?ds = unat (fl_last s) - unat (fl_last s0)"
    using arg_cong[OF c[THEN conjunct1], of length] by (simp del: upt_Suc)
  have le: "unat (fl_last s0) \<le> unat (fl_last s)" using c by (simp add: word_le_nat_alt)
  have same: "?svs ! i = fl_server s" if "sv_block (rs_server rs) = fl_last s"
  proof -
    have "i = length ?ds" using that b i(2) n le by simp
    then have "?svs ! i = last ?svs" using history_last[OF hist] by simp
    then show ?thesis using l by simp
  qed
  have "fl_last s0 \<le> sv_block (rs_server rs)" "sv_block (rs_server rs) \<le> fl_last s"
    using b i n le by (simp_all add: word_le_nat_alt)
  moreover have "ss_journal ss \<noteq> None \<longrightarrow> unat (fl_last s) \<le> unat (sv_block (rs_server rs)) + (if appending ph then 1 else 0)"
    using live b i(2) n le by (auto simp: appending_pending)
  moreover have "sv_block (rs_server rs) = fl_last s \<longrightarrow> (\<forall>j < cp_arity (sv_params (fl_server s)). \<forall>row off.
         store_view (lx_store ext) (sv_params (fl_server s)) (sv_store (rs_server rs)) j row off =
         store_view (lx_store ext) (sv_params (fl_server s)) (sv_store (fl_server s)) j row off)"
    using view same by auto
  ultimately show ?thesis using rs ss hc by blast
qed


section \<open>A sample run\<close>

definition sample_fetched :: "u64 \<Rightarrow> fetched_block" where
  "sample_fetched b = \<lparr> fb_update = \<lparr> update_block = b, changes = [], credits = [] \<rparr>, fb_changed = [], fb_credited = [] \<rparr>"

definition sample_follow_ext :: "(u32 list \<times> slot_mutation list, unit, toy_params, unit) follow_ext" where
  "sample_follow_ext = \<lparr> lx_xxh = example_hash, lx_xxh3 = toy_hash, lx_api = toy_api, lx_store = toy_store, lx_backend = toy_backend,
     lx_node = \<lparr> nx_arity = ca_arity toy_api, nx_lib = toy_simple_lib, nx_keccak = rev \<rparr>,
     lx_join = (\<lambda>_ b. Inr (Inr (sample_fetched b))), lx_confirm = (\<lambda>_ _ t. (Inr 0, t)) \<rparr>"

definition sample_follow_config :: follow_config where
  "sample_follow_config = \<lparr> fc_complete = True, fc_reconcile_every = 10, fc_reconcile_samples = 1, fc_prefetch = 1 \<rparr>"

definition sample_node :: "(u32 list \<times> slot_mutation list, unit, toy_params, unit) node_state" where
  "sample_node = \<lparr> nd_inner = \<lparr> in_server = saver_server, in_ring = \<lparr> ring_capacity = 8, ring_buf = [] \<rparr>, in_per_block = [] \<rparr>,
     nd_fields = saver_flds, nd_complete = True, nd_backend_params = [], nd_recent = [], nd_setup_cache = None,
     nd_setup_generation = 0, nd_epoch = [] \<rparr>"

lemma sample_ext_sel [simp]:
  "lx_xxh sample_follow_ext = example_hash" "lx_xxh3 sample_follow_ext = toy_hash" "lx_api sample_follow_ext = toy_api"
  "lx_store sample_follow_ext = toy_store" "lx_backend sample_follow_ext = toy_backend"
  "nx_lib (lx_node sample_follow_ext) = toy_simple_lib" "lx_join sample_follow_ext i b = Inr (Inr (sample_fetched b))"
  by (simp_all add: sample_follow_ext_def)

lemma sample_config_sel [simp]:
  "fc_complete sample_follow_config" "fc_reconcile_every sample_follow_config = 10" "fc_prefetch sample_follow_config = 1"
  by (simp_all add: sample_follow_config_def)

lemma sample_saver:
  "\<exists>ss dk ss' dk'. bootstrap_saver toy_hash toy_api toy_simple_lib toy_store saver_flds saver_server example_codec 0
      \<lparr> sf_save = None, sf_rotate = None \<rparr> 0 \<lparr> dk_state = \<lparr> fs_path = None, fs_tmp = None \<rparr>, dk_journal = None \<rparr> = Some (ss, dk) \<and>
    ss_last_saved_block ss = Some 19 \<and> ss_interval ss = 0 \<and>
    append_delta toy_hash None ss dk toy_empty_delta 8 = Some (ss', dk') \<and> ss_journal ss' \<noteq> None \<and> ss_interval ss' = 0"
proof -
  have ad: "arity_doc (ca_arity toy_api)" using toy_state_ok by (simp add: state_ok_def)
  obtain ss dk w f where boot: "bootstrap_saver toy_hash toy_api toy_simple_lib toy_store saver_flds saver_server example_codec 0
      \<lparr> sf_save = None, sf_rotate = None \<rparr> 0 \<lparr> dk_state = \<lparr> fs_path = None, fs_tmp = None \<rparr>, dk_journal = None \<rparr> = Some (ss, dk)"
      and ss: "ss_last_saved_block ss = Some 19" "ss_journal ss = Some w" "ss_interval ss = 0"
      "\<not> ss_journal_broken ss" "dk_journal dk = Some f" "jw_plaintext_bits w = 8" "jw_last w = 19"
    by (simp add: bootstrap_saver_def save_def save_content_eq[OF ad] Let_def journal_create_def saver_new_def
        saver_server_sel saver_cp_def)
  have "length (payload_of 8 toy_empty_delta) < 2 ^ 32"
    using journalableD(2)[OF toy_journalable] by (simp add: max_record_bytes_def)
  then have "journal_append toy_hash None w f toy_empty_delta n = Some (Inr (), w\<lparr> jw_last := 20 \<rparr>,
      f @ record_bytes toy_hash (payload_of 8 toy_empty_delta) n)" for n
    using journalableD(1)[OF toy_journalable] ss by (simp add: journal_append_def toy_empty_delta_def)
  then obtain ss' dk' where "append_delta toy_hash None ss dk toy_empty_delta 8 = Some (ss', dk')"
      "ss_journal ss' \<noteq> None" "ss_interval ss' = 0"
    using ss by (simp add: append_delta_def)
  then show ?thesis using boot ss by blast
qed

lemma sample_reads: "balance_of example_hash toy_store (saver_server\<lparr> sv_block := b \<rparr>) key = Some (Inr None)"
proof -
  have upt: "[0..<4] = [0, 1, 2, 3 :: nat]" by (simp add: eval_nat_numeral)
  have probes: "probes saver_cp [0, 1] = [(0, 0), (0, 1), (0, 2), (0, 3), (1, 0), (1, 1), (1, 2), (1, 3)]"
    by (simp add: probes_def saver_cp_def toy_cp_def upt)
  have slot: "read_slot saver_cp [1, 2, 3, 4, 5, 6, 7, 8] (p, q) = Some (0, [])" if "unat p * 4 + unat q < 8" for p q :: u32
    using that by (simp add: read_slot_def saver_cp_def toy_cp_def get_range_def)
  have "locate_loop example_hash saver_cp codec key 1 tag [1, 2, 3, 4, 5, 6, 7, 8] (probes saver_cp [0, 1]) 0 False None = Some (Absent 0)"
    for codec tag unfolding probes by (simp add: slot)
  then show ?thesis
    by (simp add: balance_of_def verified_get_def locate_def saver_server_sel toy_store_def)
      (simp add: saver_cp_def toy_cp_def)
qed

definition sample_follow_start :: "state_saver \<Rightarrow> disk \<Rightarrow> (u32 list \<times> slot_mutation list, unit, toy_params, unit) follow_state" where
  "sample_follow_start ss dk = follow_start sample_node sample_follow_config 19 (Some ss) dk [] health_default"

abbreviation sample_block :: applied_block where
  "sample_block \<equiv> (sample_fetched 20, \<lparr> update_block = 20, changes = [], credits = [] \<rparr>, toy_empty_delta)"

lemma sample_tick: "fl_saver s = Some ss \<Longrightarrow> ss_interval ss = 0 \<Longrightarrow> record_save_tick ext busy started io now s = Some s"
  by (simp add: record_save_tick_def maybe_save_def)

lemma sample_finish:
  assumes "fl_last s = 20" "fl_reservoir s = []"
  shows "\<exists>s'. follow_finish sample_follow_ext sample_follow_config read now 20 (sample_fetched 20) s = (Following 20, s')"
proof -
  let ?rcfg = "\<lparr> rcfg_complete = True, rcfg_samples = fc_reconcile_samples sample_follow_config, rcfg_every = 10 \<rparr>"
  obtain out reservoir' h' logs t' where rec: "reconcile (lx_confirm sample_follow_ext) read (nx_keccak (lx_node sample_follow_ext)) now 20 0 [] []
      ?rcfg [] (fl_health s) (fl_time s) = (out, reservoir', h', logs, t')" by (metis prod.exhaust)
  have "reconcile_candidates c [] [] = []" for c by (simp add: reconcile_candidates_def)
  then have "out = Continued" using reconcile_spec[OF rec]
    by (auto simp: recent_depth_blocks_def sampled_def drained_fetches_def split: prod.splits)
  then show ?thesis using assms rec
    by (simp add: follow_finish_def Let_def saturating_sub_u_def sample_fetched_def)
qed

lemma sample_follow_run:
  assumes ss: "ss_interval ss = 0" "append_delta toy_hash None ss dk toy_empty_delta 8 = Some (ss', dk')" "ss_interval ss' = 0"
  shows "\<exists>s. follow_run sample_follow_ext sample_follow_config (sample_follow_start ss dk) (Following 20) s [sample_block] [] \<and>
    fl_last s = 20 \<and> fl_saver s = Some ss' \<and> fl_disk s = dk'"
proof -
  let ?run = "follow_run sample_follow_ext sample_follow_config (sample_follow_start ss dk)"
  let ?s0 = "sample_follow_start ss dk"
  have r0: "?run Polling ?s0 [] []"
    using follow_begin[of sample_follow_ext sample_follow_config ?s0] by (simp add: sample_follow_start_def follow_start_def)
  have t0: "record_save_tick sample_follow_ext False 0 io 0 ?s0 = Some ?s0" for io
    by (rule sample_tick[OF _ ss(1)]) (simp add: sample_follow_start_def follow_start_def)
  define s1 where "s1 = ?s0\<lparr> fl_prefetch := \<lparr> pf_depth = 1, pf_head = 20, pf_inflight = [] \<rparr> \<rparr>"
  have "follow_poll (Inr 20) ?s0 = (Following 20, s1)"
    by (simp add: follow_poll_def s1_def sample_follow_start_def follow_start_def set_head_def prefetch_new_def bt_split_off_def)
  from follow_polled[OF r0 t0 this] have r1: "?run (Following 20) s1 [] []" .
  have sel: "fl_last s1 = 19" "fl_queue s1 = []" "fl_node s1 = sample_node" "fl_saver s1 = Some ss" "fl_disk s1 = dk"
      "fl_prefetch s1 = \<lparr> pf_depth = 1, pf_head = 20, pf_inflight = [] \<rparr>" "fl_spawned s1 = []" "fl_reservoir s1 = []"
    by (simp_all add: s1_def sample_follow_start_def follow_start_def)
  have reads: "reads sample_follow_ext s (\<lambda>_. Inr None)" if "fl_server s = saver_server\<lparr> sv_block := b \<rparr>" for s b
    by (simp add: reads_def that sample_reads)
  have "saver_server = saver_server\<lparr> sv_block := 19 \<rparr>" by (simp add: saver_server_def toy_server_def)
  then have rd1: "reads sample_follow_ext s1 (\<lambda>_. Inr None)" using reads[of s1 19] sel(3) by (simp add: sample_node_def)
  have pf: "prefetch_fetch (lx_join sample_follow_ext) 20 (fl_prefetch s1) [] =
      Some (Inr (sample_fetched 20), \<lparr> pf_depth = 1, pf_head = 20, pf_inflight = [] \<rparr>, [20])"
    by (simp add: sel prefetch_fetch_def open_window_def window_through_def blocks_between_def saturating_add_u_def collect_def
        bt_get_def join_outcome_def)
  have pu: "prepare_update (\<lambda>_. Inr None) True 20 [] (sample_fetched 20) = (Inr \<lparr> update_block = 20, changes = [], credits = [] \<rparr>, [])"
    by (simp add: prepare_update_def sample_fetched_def filter_credits_def inject_corrections_def drain_up_to_def)
  obtain rep where "apply_block_reporting example_hash toy_store toy_backend saver_server
      \<lparr> update_block = 20, changes = [], credits = [] \<rparr> = Some (Inr (toy_empty_delta, rep), saver_server\<lparr> sv_block := 20 \<rparr>)"
    using saver_block by blast
  then obtain oc nd where ap: "node_apply_block_reporting example_hash toy_store toy_backend sample_node
      \<lparr> update_block = 20, changes = [], credits = [] \<rparr> = Some (Inr oc, nd)"
    and oc: "oc_delta oc = toy_empty_delta" and nd: "in_server (nd_inner nd) = saver_server\<lparr> sv_block := 20 \<rparr>"
    by (auto simp: node_apply_block_reporting_def sample_node_def evict_stale_def index_delta_def Let_def split: option.splits)
  define s2 where "s2 = s1\<lparr> fl_spawned := [20], fl_node := nd, fl_last := 20 \<rparr>"
  have ff: "follow_fetch sample_follow_ext sample_follow_config (\<lambda>_. Inr None) 20 s1 = Some (Applied 20 (sample_fetched 20) toy_empty_delta, s2)"
    using pf pu ap oc by (simp add: follow_fetch_def apply_prepared_def sel s2_def Let_def)
  have t1: "record_save_tick sample_follow_ext False 0 io 0 s1 = Some s1" for io
    by (rule sample_tick[OF _ ss(1)]) (simp add: sel)
  have "fl_last s1 < 20" by (simp add: sel)
  from follow_applied[OF r1 this t1 rd1 ff] pu sel have r2: "?run (Applied 20 (sample_fetched 20) toy_empty_delta) s2 [sample_block] []"
    by simp
  define s3 where "s3 = s2\<lparr> fl_saver := Some ss', fl_disk := dk' \<rparr>"
  have "so_num_items toy_store (sv_store (fl_server s2)) = 8" by (simp add: s2_def nd toy_store_def saver_server_sel)
  then have "follow_journal sample_follow_ext None 20 (sample_fetched 20) toy_empty_delta s2 = Some (Journaled 20 (sample_fetched 20), s3)"
    using ss by (simp add: follow_journal_def s3_def) (simp add: s2_def sel)
  from follow_journaled[OF r2 this] have r3: "?run (Journaled 20 (sample_fetched 20)) s3 [sample_block] []" .
  have sel3: "fl_last s3 = 20" "fl_reservoir s3 = []" "fl_saver s3 = Some ss'" "fl_disk s3 = dk'" "fl_server s3 = saver_server\<lparr> sv_block := 20 \<rparr>"
    by (simp_all add: s3_def s2_def sel nd)
  from sample_finish[OF sel3(1,2)] obtain s4 where
    f: "follow_finish sample_follow_ext sample_follow_config (\<lambda>_. Inr None) 0 20 (sample_fetched 20) s3 = (Following 20, s4)" by blast
  from follow_finished[OF r3 reads[OF sel3(5)] f] finish_cases[OF f] sel3 show ?thesis by auto
qed

section \<open>Properties\<close>



text \<open>C2. No block is skipped, repeated or taken for another.  In every run of the follow loop the
  applied blocks are consecutive from the start to the loop's block; each delta carries the number
  of its update, and each update is what a fetch of exactly that number returned, with at most
  2000 corrections that had been pushed in front of its changes, and with all of its credits in
  complete mode, some of them otherwise.\<close>

theorem follow_applies_every_block_once:
  assumes "follow_run ext cfg (follow_start nd cfg start saver dk queue h) ph s applied pushed" and "fc_prefetch cfg < 2 ^ 64"
  shows "map (\<lambda>(fb, u, d). unat (delta_block d)) applied = [Suc (unat start) ..< Suc (unat (fl_last s))] \<and>
    (\<forall>(fb, u, d) \<in> set applied. delta_block d = update_block u \<and> update_block (fb_update fb) = update_block u \<and>
       (\<exists>i. join_outcome (lx_join ext i (update_block u)) = Inr fb) \<and>
       (\<exists>cs. changes u = map (\<lambda>c. (co_key c, co_balance c)) cs @ changes (fb_update fb) \<and> set cs \<subseteq> set pushed \<and>
          length cs \<le> max_corrections_per_block) \<and>
       set (credits u) \<subseteq> set (credits (fb_update fb)) \<and> (fc_complete cfg \<longrightarrow> credits u = credits (fb_update fb)))"
proof -
  have s0: "fl_prefetch (follow_start nd cfg start saver dk queue h) = prefetch_new (fc_prefetch cfg)"
    "fl_spawned (follow_start nd cfg start saver dk queue h) = []" "fl_last (follow_start nd cfg start saver dk queue h) = start"
    by (simp_all add: follow_start_def)
  have "map (\<lambda>(fb, u, d). unat (delta_block d)) applied = map (\<lambda>d. unat (delta_block d)) (deltas_of applied)"
    by (auto simp: deltas_of_def)
  then show ?thesis
    using follow_run_consecutive[OF assms(1) s0(1,2) assms(2)] follow_run_blocks[OF assms(1)] unfolding s0(3)
    by (fastforce simp: follows_block_def)
qed

lemma follow_applies_every_block_once_witness:
  "\<exists>ss dk s. map (\<lambda>(fb, u, d). unat (delta_block d)) [sample_block] = [20] \<and>
     [20] = [Suc (unat (19 :: u64)) ..< Suc (unat (fl_last s))] \<and>
     follow_run sample_follow_ext sample_follow_config (sample_follow_start ss dk) (Following 20) s [sample_block] []"
proof -
  obtain ss dk s where r: "follow_run sample_follow_ext sample_follow_config (sample_follow_start ss dk) (Following 20) s [sample_block] []"
    using sample_saver sample_follow_run by metis
  have "fc_prefetch sample_follow_config < 2 ^ 64" by simp
  from follow_applies_every_block_once[OF r[unfolded sample_follow_start_def] this] r show ?thesis
    by (intro exI[of _ ss] exI[of _ dk] exI[of _ s]) (simp add: toy_empty_delta_def del: upt_Suc)
qed

text \<open>C33. No checkpoint is skipped and none is survived.  In every run of the follow loop the
  number of recorded checkpoints is that of the applied blocks divisible by the cadence (but for
  the block still being journaled), the last recorded one is the last such block, the addresses
  waiting for a check are distinct and at most 256, and the health record says halted exactly
  when the loop has stopped at a disagreement.\<close>

theorem follow_records_every_checkpoint:
  assumes "follow_run ext cfg (follow_start nd cfg start saver dk queue h) ph s applied pushed" and "\<not> rh_halted h"
    and "done = (if appending ph \<or> (\<exists>f fb. ph = Journaled f fb) then butlast applied else applied)"
    and "due_blocks = filter (\<lambda>b. 0 < fc_reconcile_every cfg \<and> b mod fc_reconcile_every cfg = 0) (map (\<lambda>(fb, u, d). delta_block d) done)"
  shows "(rh_halted (fl_health s) \<longleftrightarrow> ph = Stopped ReconcileHalted) \<and>
    (ph \<noteq> Stopped ReconcileHalted \<longrightarrow>
       rh_checkpoints_total (fl_health s) = rh_checkpoints_total h + of_nat (length due_blocks) \<and>
       rh_last_checkpoint_block (fl_health s) = last (rh_last_checkpoint_block h # due_blocks) \<and>
       distinct (fl_reservoir s) \<and> length (fl_reservoir s) \<le> 256)"
proof -
  have "turn_over ph applied = done" by (cases ph) (simp_all add: assms(3))
  moreover have "map delta_block (deltas_of done) = map (\<lambda>(fb, u, d). delta_block d) done" by (auto simp: deltas_of_def)
  ultimately have "due cfg (turn_over ph applied) = due_blocks" by (simp only: due_def assms(4))
  then show ?thesis using follow_run_checked[OF assms(1)] assms(2)
    by (simp add: checked_through_def follow_start_def deferred_reservoir_cap_def split: if_splits)
qed

lemma follow_records_every_checkpoint_witness:
  "\<exists>ss dk s. follow_run sample_follow_ext sample_follow_config (sample_follow_start ss dk) (Following 20) s [sample_block] [] \<and>
     rh_checkpoints_total (fl_health s) = (1 :: u64) \<and> rh_last_checkpoint_block (fl_health s) = (20 :: u64)"
proof -
  obtain ss dk s where r: "follow_run sample_follow_ext sample_follow_config (sample_follow_start ss dk) (Following 20) s [sample_block] []"
    using sample_saver sample_follow_run by metis
  have "\<not> rh_halted health_default" by (simp add: health_default_def)
  from follow_records_every_checkpoint[OF r[unfolded sample_follow_start_def] this refl refl] r show ?thesis
    by (intro exI[of _ ss] exI[of _ dk] exI[of _ s]) (simp add: toy_empty_delta_def health_default_def)
qed

end
