(* ===== verification/Http_Client.thy ===== *)
theory Http_Client
  imports Node_Run
begin

text \<open>
  Model of \<open>crates/risepir-http/src/client.rs\<close> and \<open>measure.rs\<close>: the HTTP client of
  the node, its response caps and its optional counters.

  The transport is a function of the requests sent so far and of the request: \<open>Inl\<close> when
  no response arrived, else the status, the headers, the declared length and the chunks of the
  body, of which one may be a failed read.  \<open>hx_ns\<close> is how long a call takes, \<open>hx_decode_ns\<close>
  how long its decoding takes.  The client keeps the requests it sent and a clock; both are
  of the model.  Error texts are the values they are formatted from.

  The lemmas: no body is ever buffered beyond its cap; what arrives whole is read whole, in
  whatever chunks; and a client that talks to the node reads what the handlers served.
\<close>

section \<open>Counters (\<open>measure.rs\<close>)\<close>

datatype net_call = CallSetup | CallHead | CallMode | CallSync | CallAnswer | CallRecent

record call_stats =
  ks_calls :: u64
  ks_wire_ns :: u64
  ks_decode_ns :: u64
  ks_request_bytes :: u64
  ks_response_bytes :: u64
  ks_last_content_length :: "u64 option"

definition no_calls :: call_stats where
  "no_calls = \<lparr> ks_calls = 0, ks_wire_ns = 0, ks_decode_ns = 0, ks_request_bytes = 0, ks_response_bytes = 0,
     ks_last_content_length = None \<rparr>"

record net_stats =
  ns_setup :: call_stats
  ns_head :: call_stats
  ns_mode :: call_stats
  ns_sync :: call_stats
  ns_answer :: call_stats
  ns_recent :: call_stats
  ns_server_compute_ns :: "u64 option"
  ns_server_handler_ns :: "u64 option"

definition no_stats :: net_stats where
  "no_stats = \<lparr> ns_setup = no_calls, ns_head = no_calls, ns_mode = no_calls, ns_sync = no_calls, ns_answer = no_calls,
     ns_recent = no_calls, ns_server_compute_ns = None, ns_server_handler_ns = None \<rparr>"

fun stats_get :: "net_stats \<Rightarrow> net_call \<Rightarrow> call_stats" where
  "stats_get s CallSetup = ns_setup s"
| "stats_get s CallHead = ns_head s"
| "stats_get s CallMode = ns_mode s"
| "stats_get s CallSync = ns_sync s"
| "stats_get s CallAnswer = ns_answer s"
| "stats_get s CallRecent = ns_recent s"

fun stats_update :: "net_call \<Rightarrow> (call_stats \<Rightarrow> call_stats) \<Rightarrow> net_stats \<Rightarrow> net_stats" where
  "stats_update CallSetup f s = s\<lparr> ns_setup := f (ns_setup s) \<rparr>"
| "stats_update CallHead f s = s\<lparr> ns_head := f (ns_head s) \<rparr>"
| "stats_update CallMode f s = s\<lparr> ns_mode := f (ns_mode s) \<rparr>"
| "stats_update CallSync f s = s\<lparr> ns_sync := f (ns_sync s) \<rparr>"
| "stats_update CallAnswer f s = s\<lparr> ns_answer := f (ns_answer s) \<rparr>"
| "stats_update CallRecent f s = s\<lparr> ns_recent := f (ns_recent s) \<rparr>"

definition total_wire_ns :: "net_stats \<Rightarrow> u64" where
  "total_wire_ns s =
     saturating_add_u (saturating_add_u (saturating_add_u (saturating_add_u (saturating_add_u
       (ks_wire_ns (ns_setup s)) (ks_wire_ns (ns_head s))) (ks_wire_ns (ns_mode s))) (ks_wire_ns (ns_sync s)))
       (ks_wire_ns (ns_answer s))) (ks_wire_ns (ns_recent s))"

definition sink_record :: "net_call \<Rightarrow> u64 \<Rightarrow> u64 \<Rightarrow> u64 \<Rightarrow> u64 option \<Rightarrow> net_stats \<Rightarrow> net_stats" where
  "sink_record call wire_ns request_bytes response_bytes content_length =
     stats_update call (\<lambda>k. k\<lparr> ks_calls := saturating_add_u (ks_calls k) 1,
       ks_wire_ns := saturating_add_u (ks_wire_ns k) wire_ns,
       ks_request_bytes := saturating_add_u (ks_request_bytes k) request_bytes,
       ks_response_bytes := saturating_add_u (ks_response_bytes k) response_bytes,
       ks_last_content_length := content_length \<rparr>)"

definition sink_record_decode :: "net_call \<Rightarrow> u64 \<Rightarrow> net_stats \<Rightarrow> net_stats" where
  "sink_record_decode call decode_ns =
     stats_update call (\<lambda>k. k\<lparr> ks_decode_ns := saturating_add_u (ks_decode_ns k) decode_ns \<rparr>)"

definition sink_record_server_timing :: "u64 option \<Rightarrow> u64 option \<Rightarrow> net_stats \<Rightarrow> net_stats" where
  "sink_record_server_timing compute_ns handler_ns s =
     (let s = (if compute_ns \<noteq> None then s\<lparr> ns_server_compute_ns := compute_ns \<rparr> else s)
      in if handler_ns \<noteq> None then s\<lparr> ns_server_handler_ns := handler_ns \<rparr> else s)"

text \<open>The counters and the sink after \<open>take\<close>.\<close>

definition sink_take :: "net_stats \<Rightarrow> net_stats \<times> net_stats" where
  "sink_take s = (s, no_stats)"

section \<open>Transport\<close>

datatype request = GetReq string | PostReq string bytes

datatype body_chunk = Chunk bytes | ChunkError string

record reply =
  rp_status :: nat
  rp_headers :: "(string \<times> bytes) list"
  rp_content_length :: "u64 option"
  rp_chunks :: "body_chunk list"

datatype wire_detail =
    DeclaredTooLong u64 nat
  | ExceededMidStream nat
  | BadModeHeader bytes
  | HeadLength nat
  | BadModeBody nat
  | RecentTooShort nat
  | RecentLength nat nat nat           \<comment> \<open>declared, found, expected\<close>
  | UndecodableBundle wire_error
  | UndecodableDelta codec_error

datatype http_error = Network string | Status nat bytes | WireText wire_detail

record 'p http_ext =
  hx_net :: "request list \<Rightarrow> request \<Rightarrow> string + reply"
  hx_ns :: "request list \<Rightarrow> request \<Rightarrow> nat"
  hx_decode_ns :: "request list \<Rightarrow> nat"
  hx_lib :: "'p simple_lib"

record http_client =
  hc_base :: string
  hc_sink :: "net_stats option"
  hc_sent :: "request list"
  hc_now :: nat

definition max_tiny_body_bytes :: nat where "max_tiny_body_bytes = 64"
definition max_answer_body_bytes :: nat where "max_answer_body_bytes = 64 * 2 ^ 20"
definition max_sync_body_bytes :: nat where "max_sync_body_bytes = 2 ^ 30"
definition max_setup_body_bytes :: nat where "max_setup_body_bytes = 8 * 2 ^ 30"
definition max_recent_body_bytes :: nat where "max_recent_body_bytes = 2 ^ 16"
definition max_error_body_bytes :: nat where "max_error_body_bytes = 64 * 2 ^ 10"

definition with_http_client :: "string \<Rightarrow> http_client" where
  "with_http_client base =
     \<lparr> hc_base = (if base \<noteq> [] \<and> last base = CHR ''/'' then butlast base else base), hc_sink = None, hc_sent = [], hc_now = 0 \<rparr>"

definition with_net_sink :: "net_stats \<Rightarrow> http_client \<Rightarrow> http_client" where
  "with_net_sink s c = c\<lparr> hc_sink := Some s \<rparr>"

text \<open>The loop over \<open>resp.chunk()\<close>.\<close>

fun read_capped :: "nat \<Rightarrow> bytes \<Rightarrow> body_chunk list \<Rightarrow> http_error + bytes" where
  "read_capped max_len out [] = Inr out"
| "read_capped max_len out (ChunkError e # chunks) = Inl (Network e)"
| "read_capped max_len out (Chunk c # chunks) =
     (if length out + length c > max_len then Inl (WireText (ExceededMidStream max_len))
      else read_capped max_len (out @ c) chunks)"

definition ok_body :: "reply \<Rightarrow> nat \<Rightarrow> http_error + bytes" where
  "ok_body resp max_len =
     (if rp_status resp \<noteq> 200
      then Inl (Status (rp_status resp)
        (case read_capped max_error_body_bytes [] (rp_chunks resp) of Inr body \<Rightarrow> body | Inl _ \<Rightarrow> []))
      else case rp_content_length resp of
        Some declared \<Rightarrow>
          if unat declared > max_len then Inl (WireText (DeclaredTooLong declared max_len))
          else read_capped max_len [] (rp_chunks resp)
      | None \<Rightarrow> read_capped max_len [] (rp_chunks resp))"

definition elapsed_ns :: "nat \<Rightarrow> u64" where
  "elapsed_ns ns = (if ns < 2 ^ 64 then of_nat ns else - 1)"

definition ascii :: "string \<Rightarrow> bytes" where
  "ascii s = map of_char s"

definition find_header :: "(string \<times> bytes) list \<Rightarrow> string \<Rightarrow> bytes option" where
  "find_header headers name = map_of headers name"

text \<open>\<open>to_str\<close> reads visible ASCII and tabs.\<close>

definition header_text :: "bytes \<Rightarrow> string option" where
  "header_text v = (if list_all (\<lambda>b. b = 9 \<or> 32 \<le> b \<and> b < 127) v then Some (map (\<lambda>b. char_of (unat b)) v) else None)"

definition header_u64 :: "(string \<times> bytes) list \<Rightarrow> string \<Rightarrow> u64 option" where
  "header_u64 headers name =
     Option.bind (find_header headers name) (\<lambda>v. Option.bind (header_text v) (\<lambda>s. parse_u64 (trim s)))"

record measured =
  ms_body :: "bytes option"
  ms_headers :: "(string \<times> bytes) list"

definition send_measured :: "'p http_ext \<Rightarrow> net_call \<Rightarrow> request \<Rightarrow> u64 \<Rightarrow> nat \<Rightarrow> bool \<Rightarrow> http_client
    \<Rightarrow> (http_error + measured) \<times> http_client" where
  "send_measured ext call req request_bytes max_len allow_conflict c =
     (let sent = hc_sent c;
          recorded = (\<lambda>response_bytes content_length. c\<lparr> hc_sent := sent @ [req], hc_now := hc_now c + hx_ns ext sent req,
            hc_sink := map_option (sink_record call (elapsed_ns (hx_ns ext sent req)) request_bytes response_bytes content_length)
              (hc_sink c) \<rparr>) in
      case hx_net ext sent req of
        Inl e \<Rightarrow> (Inl (Network e), recorded 0 None)
      | Inr resp \<Rightarrow>
          if allow_conflict \<and> rp_status resp = 409
          then (Inr \<lparr> ms_body = None, ms_headers = rp_headers resp \<rparr>, recorded 0 (rp_content_length resp))
          else case ok_body resp max_len of
            Inr bs \<Rightarrow> (Inr \<lparr> ms_body = Some bs, ms_headers = rp_headers resp \<rparr>,
                recorded (of_nat (length bs)) (rp_content_length resp))
          | Inl e \<Rightarrow> (Inl e, recorded 0 (rp_content_length resp)))"

definition timed_decode :: "'p http_ext \<Rightarrow> net_call \<Rightarrow> http_client \<Rightarrow> http_client" where
  "timed_decode ext call c =
     c\<lparr> hc_sink := map_option (sink_record_decode call (elapsed_ns (hx_decode_ns ext (hc_sent c)))) (hc_sink c) \<rparr>"

definition body_of :: "measured \<Rightarrow> bytes" where
  "body_of m = (case ms_body m of Some bs \<Rightarrow> bs | None \<Rightarrow> [])"

section \<open>The calls\<close>

definition header_mode :: "(string \<times> bytes) list \<Rightarrow> http_error + bool option" where
  "header_mode headers =
     (case find_header headers ''x-risepir-mode'' of
        None \<Rightarrow> Inr None
      | Some v \<Rightarrow>
          if v = ascii ''0'' then Inr (Some False)
          else if v = ascii ''1'' then Inr (Some True)
          else Inl (WireText (BadModeHeader v)))"

definition setup_with_mode :: "'p http_ext \<Rightarrow> http_client \<Rightarrow> (http_error + 'p wire_bundle \<times> bool option) \<times> http_client" where
  "setup_with_mode ext c =
     (case send_measured ext CallSetup (GetReq (hc_base c @ ''/setup'')) 0 max_setup_body_bytes False c of
        (Inl e, c) \<Rightarrow> (Inl e, c)
      | (Inr m, c) \<Rightarrow>
          (case header_mode (ms_headers m) of
             Inl e \<Rightarrow> (Inl e, c)
           | Inr mode \<Rightarrow>
               (map_err (\<lambda>e. WireText (UndecodableBundle e))
                  (and_then (decode_setup (hx_lib ext) (body_of m)) (\<lambda>bundle. Inr (bundle, mode))),
                timed_decode ext CallSetup c)))"

definition client_setup :: "'p http_ext \<Rightarrow> http_client \<Rightarrow> (http_error + 'p wire_bundle) \<times> http_client" where
  "client_setup ext c = (case setup_with_mode ext c of (r, c) \<Rightarrow> (and_then r (\<lambda>(bundle, _). Inr bundle), c))"

definition client_head :: "'p http_ext \<Rightarrow> http_client \<Rightarrow> (http_error + u64) \<times> http_client" where
  "client_head ext c =
     (case send_measured ext CallHead (GetReq (hc_base c @ ''/head'')) 0 max_tiny_body_bytes False c of
        (r, c) \<Rightarrow>
          (and_then r (\<lambda>m.
             if length (body_of m) = 8 then Inr (of_le (body_of m)) else Inl (WireText (HeadLength (length (body_of m))))), c))"

definition client_mode :: "'p http_ext \<Rightarrow> http_client \<Rightarrow> (http_error + bool) \<times> http_client" where
  "client_mode ext c =
     (case send_measured ext CallMode (GetReq (hc_base c @ ''/mode'')) 0 max_tiny_body_bytes False c of
        (r, c) \<Rightarrow>
          (and_then r (\<lambda>m.
             if body_of m = [0] then Inr False
             else if body_of m = [1] then Inr True
             else Inl (WireText (BadModeBody (length (body_of m))))), c))"

text \<open>\<open>chunks_exact(20)\<close>.\<close>

fun chunks_exact :: "nat \<Rightarrow> nat \<Rightarrow> bytes \<Rightarrow> bytes list" where
  "chunks_exact k 0 bs = []"
| "chunks_exact k (Suc n) bs = take k bs # chunks_exact k n (drop k bs)"

definition decode_recent :: "bytes \<Rightarrow> http_error + bytes list" where
  "decode_recent bs =
     (if length bs < 4 then Inl (WireText (RecentTooShort (length bs)))
      else
        let count = unat (of_le (take 4 bs) :: u32); rest = drop 4 bs in
        if length rest \<noteq> count * 20 then Inl (WireText (RecentLength count (length rest) (count * 20)))
        else Inr (chunks_exact 20 (length rest div 20) rest))"

definition client_recent :: "'p http_ext \<Rightarrow> http_client \<Rightarrow> (http_error + bytes list) \<times> http_client" where
  "client_recent ext c =
     (case send_measured ext CallRecent (GetReq (hc_base c @ ''/recent'')) 0 max_recent_body_bytes False c of
        (Inl e, c) \<Rightarrow> (Inl e, c)
      | (Inr m, c) \<Rightarrow> (decode_recent (body_of m), timed_decode ext CallRecent c))"

definition sync_query :: "u64 \<Rightarrow> u64 \<Rightarrow> string \<Rightarrow> string" where
  "sync_query from to epoch = ''from='' @ show_u64 from @ ''&to='' @ show_u64 to @ ''&epoch='' @ epoch"

definition client_sync :: "'p http_ext \<Rightarrow> u64 \<Rightarrow> u64 \<Rightarrow> string \<Rightarrow> u32 \<Rightarrow> u32 \<Rightarrow> http_client
    \<Rightarrow> (http_error + block_delta option) \<times> http_client" where
  "client_sync ext from to epoch plaintext_bits arity c =
     (case send_measured ext CallSync (GetReq (hc_base c @ ''/sync?'' @ sync_query from to epoch)) 0 max_sync_body_bytes True c of
        (Inl e, c) \<Rightarrow> (Inl e, c)
      | (Inr m, c) \<Rightarrow>
          (case ms_body m of
             None \<Rightarrow> (Inr None, c)
           | Some bs \<Rightarrow>
               (map_err (\<lambda>e. WireText (UndecodableDelta e)) (and_then (decode_block_delta bs plaintext_bits arity) (\<lambda>d. Inr (Some d))),
                timed_decode ext CallSync c)))"

definition client_answer :: "'p http_ext \<Rightarrow> u32 list list \<Rightarrow> string \<Rightarrow> u32 list \<Rightarrow> nat \<Rightarrow> http_client
    \<Rightarrow> ((http_error + u32 list list \<times> u64) \<times> http_client) option" where
  "client_answer ext queries epoch reshape_row_width_per_seg arity c =
     Option.bind (encode_query_bundle queries) (\<lambda>body.
       Some (case send_measured ext CallAnswer (PostReq (hc_base c @ ''/answer?epoch='' @ epoch) body) (of_nat (length body))
           max_answer_body_bytes False c of
         (Inl e, c) \<Rightarrow> (Inl e, c)
       | (Inr m, c) \<Rightarrow>
           let c = c\<lparr> hc_sink := map_option (sink_record_server_timing
                 (header_u64 (ms_headers m) ''x-risepir-answer-compute-ns'')
                 (header_u64 (ms_headers m) ''x-risepir-answer-handler-ns'')) (hc_sink c) \<rparr> in
           (map_err (\<lambda>e. WireText (UndecodableBundle e)) (decode_response_bundle (body_of m) reshape_row_width_per_seg arity),
            timed_decode ext CallAnswer c)))"

section \<open>Bodies\<close>

lemma read_capped_Inr:
  "length out \<le> n \<Longrightarrow> read_capped n out chunks = Inr bs \<longleftrightarrow>
   (\<exists>ds. chunks = map Chunk ds \<and> bs = out @ concat ds \<and> length bs \<le> n)"
proof (induction n out chunks rule: read_capped.induct)
  case (3 n out c chunks)
  show ?case
  proof (cases "length out + length c > n")
    case False
    then have "length (out @ c) \<le> n" by simp
    from 3(1)[OF False this] False show ?thesis by (auto simp: Cons_eq_map_conv intro: exI[of _ "c # _"])
  qed (auto simp: Cons_eq_map_conv)
qed (auto simp: Cons_eq_map_conv)

lemma ok_body_Inr:
  "ok_body resp n = Inr bs \<longleftrightarrow> rp_status resp = 200 \<and> (\<forall>d. rp_content_length resp = Some d \<longrightarrow> unat d \<le> n) \<and>
   (\<exists>ds. rp_chunks resp = map Chunk ds \<and> bs = concat ds) \<and> length bs \<le> n"
  using read_capped_Inr[of "[]" n "rp_chunks resp" bs] by (auto simp: ok_body_def split: option.splits)

lemma ok_body_Status:
  "ok_body resp n = Inl (Status st b) \<Longrightarrow> st = rp_status resp \<and> st \<noteq> 200 \<and> length b \<le> max_error_body_bytes"
proof -
  have r: "read_capped k out chunks \<noteq> Inl (Status st b)" for k out chunks
    by (induction k out chunks rule: read_capped.induct) auto
  have l: "read_capped max_error_body_bytes [] chunks = Inr body \<Longrightarrow> length body \<le> max_error_body_bytes" for chunks body
    using read_capped_Inr[of "[]" max_error_body_bytes chunks body] by auto
  assume "ok_body resp n = Inl (Status st b)"
  then show ?thesis using r l by (auto simp: ok_body_def split: if_splits option.splits sum.splits)
qed

lemma send_measured_cases:
  assumes "send_measured ext call req nb cap allow c = (r, c')"
  shows "hc_base c' = hc_base c \<and> hc_sent c' = hc_sent c @ [req] \<and> hc_now c' = hc_now c + hx_ns ext (hc_sent c) req \<and>
    (case hx_net ext (hc_sent c) req of Inl e \<Rightarrow> r = Inl (Network e)
     | Inr resp \<Rightarrow> r = (if allow \<and> rp_status resp = 409 then Inr \<lparr> ms_body = None, ms_headers = rp_headers resp \<rparr>
         else and_then (ok_body resp cap) (\<lambda>bs. Inr \<lparr> ms_body = Some bs, ms_headers = rp_headers resp \<rparr>)))"
  using assms by (auto simp: send_measured_def Let_def split: sum.splits if_splits)

lemma timed_decode_same [simp]:
  "hc_base (timed_decode ext call c) = hc_base c" "hc_sent (timed_decode ext call c) = hc_sent c"
  "hc_now (timed_decode ext call c) = hc_now c"
  by (simp_all add: timed_decode_def)

section \<open>Talking to the node\<close>

text \<open>A reply that carries a response of the node: the status, its headers (and possibly others),
  the body in any chunks, its length declared truly or not at all.\<close>

definition carries :: "http_response \<Rightarrow> reply \<Rightarrow> bool" where
  "carries h resp \<longleftrightarrow> rp_status resp = hr_status h \<and>
     (\<forall>(k, v) \<in> set (hr_headers h). find_header (rp_headers resp) k = Some (ascii v)) \<and>
     (\<forall>bs. hr_body h = Octets bs \<longrightarrow> (\<exists>ds. rp_chunks resp = map Chunk ds \<and> concat ds = bs) \<and>
        (\<forall>d. rp_content_length resp = Some d \<longrightarrow> unat d = length bs))"

definition delivered_reply :: "'p http_ext \<Rightarrow> http_client \<Rightarrow> request \<Rightarrow> http_response \<Rightarrow> bool" where
  "delivered_reply ext c req h \<longleftrightarrow> (\<exists>resp. hx_net ext (hc_sent c) req = Inr resp \<and> carries h resp)"

lemma ok_body_carried:
  assumes "carries h resp" and "hr_status h = 200" and "hr_body h = Octets bs" and "length bs \<le> n"
  shows "ok_body resp n = Inr bs"
  using assms by (auto simp: carries_def ok_body_Inr)

lemma send_delivered:
  assumes d: "delivered_reply ext c req h" and h: "hr_status h = 200" "hr_body h = Octets bs" and n: "length bs \<le> cap"
  obtains c' hs where "send_measured ext call req nb cap allow c = (Inr \<lparr> ms_body = Some bs, ms_headers = hs \<rparr>, c')"
    and "\<forall>(k, v) \<in> set (hr_headers h). find_header hs k = Some (ascii v)"
proof -
  obtain resp where r: "hx_net ext (hc_sent c) req = Inr resp" "carries h resp" using d by (auto simp: delivered_reply_def)
  have "rp_status resp = 200" using r(2) h by (simp add: carries_def)
  moreover obtain x c' where s: "send_measured ext call req nb cap allow c = (x, c')" by fastforce
  ultimately have "x = Inr \<lparr> ms_body = Some bs, ms_headers = rp_headers resp \<rparr>"
    using send_measured_cases[OF s] r ok_body_carried[OF r(2) h n] by simp
  then show thesis using that[of "rp_headers resp" c'] s r(2) by (auto simp: carries_def)
qed

lemma send_conflict:
  assumes d: "delivered_reply ext c req h" and h: "hr_status h = 409"
  shows "\<exists>c' hs. send_measured ext call req nb cap True c = (Inr \<lparr> ms_body = None, ms_headers = hs \<rparr>, c')"
proof -
  obtain resp where r: "hx_net ext (hc_sent c) req = Inr resp" "rp_status resp = 409"
    using d h by (auto simp: delivered_reply_def carries_def)
  then show ?thesis by (simp add: send_measured_def Let_def)
qed

lemma send_refused:
  assumes d: "delivered_reply ext c req h" and h: "hr_status h \<noteq> 200"
  shows "\<exists>c' b. send_measured ext call req nb cap False c = (Inl (Status (hr_status h) b), c')"
proof -
  obtain resp where r: "hx_net ext (hc_sent c) req = Inr resp" "rp_status resp = hr_status h"
    using d by (auto simp: delivered_reply_def carries_def)
  then show ?thesis using h by (simp add: send_measured_def Let_def ok_body_def)
qed

lemma show_nat_no_sep [simp]: "CHR ''&'' \<notin> set (show_nat n)" "CHR ''='' \<notin> set (show_nat n)"
  by (auto dest: show_nat_digits)

lemma sync_query_parses:
  assumes "CHR ''&'' \<notin> set epoch"
  shows "parse_epoch_param (Some (sync_query from to epoch)) = Some epoch"
    and "parse_sync_query (sync_query from to epoch) = Some (from, to)"
proof -
  let ?a = "''from='' @ show_u64 from" and ?b = "''to='' @ show_u64 to" and ?e = "''epoch='' @ epoch"
  have q: "sync_query from to epoch = ?a @ CHR ''&'' # ?b @ CHR ''&'' # ?e" by (simp add: sync_query_def)
  have n: "CHR ''&'' \<notin> set ?a" "CHR ''&'' \<notin> set ?b" "CHR ''&'' \<notin> set ?e" using assms by (simp_all add: show_u64_def)
  have sp: "split_char (CHR ''&'') (sync_query from to epoch) = [?a, ?b, ?e]"
    unfolding q split_char_append[OF n(1)] split_char_append[OF n(2)] split_char_none[OF n(3)] ..
  have once: "split_once (CHR ''='') ?a = Some (''from'', show_u64 from)" "split_once (CHR ''='') ?b = Some (''to'', show_u64 to)"
    "split_once (CHR ''='') ?e = Some (''epoch'', epoch)" by simp_all
  show "parse_epoch_param (Some (sync_query from to epoch)) = Some epoch"
    by (simp add: parse_epoch_param_def sp once del: append.simps split_once.simps)
  show "parse_sync_query (sync_query from to epoch) = Some (from, to)"
    by (simp add: parse_sync_query_def sp)
qed

lemma epoch_query_parses:
  assumes "CHR ''&'' \<notin> set epoch"
  shows "parse_epoch_param (Some (''epoch='' @ epoch)) = Some epoch"
proof -
  have "split_char (CHR ''&'') (''epoch='' @ epoch) = [''epoch='' @ epoch]" using assms by (intro split_char_none) simp
  then show ?thesis by (simp add: parse_epoch_param_def)
qed

lemma chunks_exact_concat:
  "\<forall>a \<in> set xs. length a = 20 \<Longrightarrow> chunks_exact 20 (length xs) (concat xs) = xs"
  by (induction xs) auto

lemma length_concat_20: "\<forall>a \<in> set addrs. length a = 20 \<Longrightarrow> length (concat addrs) = length addrs * 20"
  by (induction addrs) auto

lemma decode_recent_served:
  assumes "\<forall>a \<in> set addrs. length a = 20" and "length addrs < 2 ^ 32"
  shows "decode_recent (u32_le (of_nat (length addrs)) @ concat addrs) = Inr addrs"
proof -
  note l = length_concat_20[OF assms(1)]
  have u: "unat (of_nat (length addrs) :: u32) = length addrs"
    using assms(2) by (simp add: unsigned_of_nat take_bit_nat_eq_self)
  show ?thesis using chunks_exact_concat[OF assms(1)] by (simp add: decode_recent_def l u Let_def)
qed

text \<open>Each call against its handler.\<close>

lemma client_head_delivered:
  assumes "delivered_reply ext c (GetReq (hc_base c @ ''/head'')) (head_handler nd)"
  shows "fst (client_head ext c) = Inr (sv_block (in_server (nd_inner nd)))"
proof -
  have h: "hr_status (head_handler nd) = 200" "hr_body (head_handler nd) = Octets (u64_le (sv_block (in_server (nd_inner nd))))"
    by (simp_all add: head_handler_def with_headers_def octet_response_def)
  have "length (u64_le (sv_block (in_server (nd_inner nd)))) \<le> max_tiny_body_bytes" by (simp add: max_tiny_body_bytes_def)
  from send_delivered[OF assms h this, of CallHead 0 False] obtain c' hs where
    "send_measured ext CallHead (GetReq (hc_base c @ ''/head'')) 0 max_tiny_body_bytes False c =
      (Inr \<lparr> ms_body = Some (u64_le (sv_block (in_server (nd_inner nd)))), ms_headers = hs \<rparr>, c')" by blast
  then show ?thesis by (simp add: client_head_def body_of_def)
qed

lemma client_mode_delivered:
  assumes "delivered_reply ext c (GetReq (hc_base c @ ''/mode'')) (mode_handler nd)"
  shows "fst (client_mode ext c) = Inr (nd_complete nd)"
proof -
  have h: "hr_status (mode_handler nd) = 200" "hr_body (mode_handler nd) = Octets [if nd_complete nd then 1 else 0]"
    by (simp_all add: mode_handler_def octet_response_def)
  have "length [if nd_complete nd then 1 else 0 :: u8] \<le> max_tiny_body_bytes" by (simp add: max_tiny_body_bytes_def)
  from send_delivered[OF assms h this, of CallMode 0 False] obtain c' hs where
    "send_measured ext CallMode (GetReq (hc_base c @ ''/mode'')) 0 max_tiny_body_bytes False c =
      (Inr \<lparr> ms_body = Some [if nd_complete nd then 1 else 0], ms_headers = hs \<rparr>, c')" by blast
  then show ?thesis by (simp add: client_mode_def body_of_def)
qed

lemma client_recent_delivered:
  assumes "delivered_reply ext c (GetReq (hc_base c @ ''/recent'')) (recent_handler nd)"
    and a: "\<forall>a \<in> set (nd_recent nd). length a = 20" and n: "length (nd_recent nd) \<le> recent_capacity"
  shows "fst (client_recent ext c) = Inr (rev (nd_recent nd))"
proof -
  let ?bs = "u32_le (of_nat (length (nd_recent nd))) @ concat (rev (nd_recent nd))"
  have h: "hr_status (recent_handler nd) = 200" "hr_body (recent_handler nd) = Octets ?bs"
    by (simp_all add: recent_handler_def with_headers_def octet_response_def)
  have cl: "length (concat (rev (nd_recent nd))) = length (nd_recent nd) * 20"
    using length_concat_20[of "rev (nd_recent nd)"] a by simp
  have dec: "decode_recent ?bs = Inr (rev (nd_recent nd))"
    using decode_recent_served[of "rev (nd_recent nd)"] a n by (simp add: recent_capacity_def)
  have "length ?bs \<le> max_recent_body_bytes" using n cl by (simp add: max_recent_body_bytes_def recent_capacity_def)
  from send_delivered[OF assms(1) h this, of CallRecent 0 False] obtain c' hs where
    "send_measured ext CallRecent (GetReq (hc_base c @ ''/recent'')) 0 max_recent_body_bytes False c =
      (Inr \<lparr> ms_body = Some ?bs, ms_headers = hs \<rparr>, c')" by blast
  then show ?thesis by (simp add: client_recent_def body_of_def dec)
qed

definition plain_request :: setup_request where
  "plain_request = \<lparr> rq_if_none_match = None, rq_range = None, rq_if_range = None \<rparr>"

lemma setup_with_mode_delivered:
  assumes d: "delivered_reply ext c (GetReq (hc_base c @ ''/setup'')) h" and s: "setup_handler nx nd plain_request = Some (h, nd')"
    and b: "node_setup_bytes nx nd = Some ((bs, b), nd')" and n: "length bs \<le> max_setup_body_bytes"
  shows "fst (setup_with_mode ext c) = map_err (\<lambda>e. WireText (UndecodableBundle e))
    (and_then (decode_setup (hx_lib ext) bs) (\<lambda>bundle. Inr (bundle, Some (nd_complete nd'))))"
proof -
  have h: "hr_status h = 200" "hr_body h = Octets bs" and m: "(''x-risepir-mode'', mode_header nd') \<in> set (hr_headers h)"
    using s b by (auto simp: setup_handler_def plain_request_def setup_range_def with_headers_def octet_response_def validators_def Let_def)
  from send_delivered[OF d h n, of CallSetup 0 False] obtain c' hs where
    sm: "send_measured ext CallSetup (GetReq (hc_base c @ ''/setup'')) 0 max_setup_body_bytes False c =
      (Inr \<lparr> ms_body = Some bs, ms_headers = hs \<rparr>, c')"
    and hs: "\<forall>(k, v) \<in> set (hr_headers h). find_header hs k = Some (ascii v)" by blast
  have "find_header hs ''x-risepir-mode'' = Some (ascii (mode_header nd'))" using hs m by auto
  then have "header_mode hs = Inr (Some (nd_complete nd'))" by (simp add: header_mode_def mode_header_def ascii_def)
  then show ?thesis by (simp add: setup_with_mode_def sm body_of_def)
qed

lemma answer_delivered:
  assumes d: "delivered_reply ext c (PostReq (hc_base c @ ''/answer?epoch='' @ epoch) body) h"
    and h: "answer_handler nx so be nd (Some (''epoch='' @ epoch)) body = Some h" and amp: "CHR ''&'' \<notin> set epoch"
    and q: "encode_query_bundle queries = Some body"
    and ql: "map unat (map sp_reshape_rows (nd_backend_params nd)) = map length queries"
    and ar: "length (nd_backend_params nd) = nx_arity nx (nd_fields nd)"
    and ans: "answer so be (in_server (nd_inner nd)) queries = Some (Inr (rs, blk))" and rl: "map unat lens = map length rs"
    and n: "\<forall>bs. hr_body h = Octets bs \<longrightarrow> length bs \<le> max_answer_body_bytes"
  shows "map_option fst (client_answer ext queries epoch lens (length lens) c) =
    Some (if epoch = nd_epoch nd then Inr (rs, blk) else Inl (Status 409 (case fst (send_measured ext CallAnswer
      (PostReq (hc_base c @ ''/answer?epoch='' @ epoch) body) (of_nat (length body)) max_answer_body_bytes False c) of
      Inl (Status st b) \<Rightarrow> b | _ \<Rightarrow> [])))"
proof (cases "epoch = nd_epoch nd")
  case True
  have gate: "epoch_gate nd (Some (''epoch='' @ epoch)) = None"
    by (simp add: epoch_gate_def epoch_query_parses[OF amp, simplified] True[symmetric])
  have "decode_query_bundle (nx_arity nx) body (nd_fields nd) (map sp_reshape_rows (nd_backend_params nd)) = Inr queries"
    by (rule query_bytes_decode[OF q ql]) (simp add: ar)
  then obtain bs where bs: "encode_response_bundle rs blk = Some bs" and hh: "h = octet_response 200 bs"
    using h gate ans by (auto simp: answer_handler_def)
  have hb: "hr_status h = 200" "hr_body h = Octets bs" by (simp_all add: hh octet_response_def)
  have "length bs \<le> max_answer_body_bytes" using n hb(2) by blast
  from send_delivered[OF d hb this, of CallAnswer "of_nat (length body)" False] obtain c' hs where
    sm: "send_measured ext CallAnswer (PostReq (hc_base c @ ''/answer?epoch='' @ epoch) body) (of_nat (length body))
      max_answer_body_bytes False c = (Inr \<lparr> ms_body = Some bs, ms_headers = hs \<rparr>, c')" by blast
  show ?thesis unfolding client_answer_def q bind.bind_lunit sm
    by (simp add: body_of_def Let_def response_bytes_decode[OF bs rl] True)
next
  case False
  have "h = refused 409 EpochMismatch"
    using h False epoch_query_parses[OF amp] by (auto simp: answer_handler_def epoch_gate_def)
  then have hs: "hr_status h = 409" by (simp add: refused_def)
  then have ne: "hr_status h \<noteq> 200" by simp
  from send_refused[OF d ne, of CallAnswer "of_nat (length body)" max_answer_body_bytes] obtain c' b where
    sm: "send_measured ext CallAnswer (PostReq (hc_base c @ ''/answer?epoch='' @ epoch) body) (of_nat (length body))
      max_answer_body_bytes False c = (Inl (Status (hr_status h) b), c')" by blast
  show ?thesis unfolding client_answer_def q bind.bind_lunit sm by (simp add: hs False)
qed

lemma sync_handler_statuses:
  "sync_handler nd (Some q) = Some h \<Longrightarrow> parse_sync_query q \<noteq> None \<Longrightarrow> hr_status h = 200 \<or> hr_status h = 409"
  by (auto simp: sync_handler_def epoch_gate_def refused_def octet_response_def split: option.splits if_splits)

lemma client_sync_delivered:
  assumes d: "delivered_reply ext c (GetReq (hc_base c @ ''/sync?'' @ sync_query from to epoch)) h"
    and s: "sync_handler nd (Some (sync_query from to epoch)) = Some h" and amp: "CHR ''&'' \<notin> set epoch"
    and n: "\<forall>bs. hr_body h = Octets bs \<longrightarrow> length bs \<le> max_sync_body_bytes"
  shows "(hr_status h = 409 \<and> fst (client_sync ext from to epoch pb arity c) = Inr None) \<or>
    (\<exists>bs. hr_status h = 200 \<and> hr_body h = Octets bs \<and> fst (client_sync ext from to epoch pb arity c) =
       map_err (\<lambda>e. WireText (UndecodableDelta e)) (and_then (decode_block_delta bs pb arity) (\<lambda>d. Inr (Some d))))"
proof (cases "hr_status h = 200")
  case True
  obtain bs where bs: "hr_body h = Octets bs" using sync_handler_200[OF s True] by metis
  have "length bs \<le> max_sync_body_bytes" using n bs by blast
  from send_delivered[OF d True bs this, of CallSync 0 True] obtain c' hs where
    sm: "send_measured ext CallSync (GetReq (hc_base c @ ''/sync?'' @ sync_query from to epoch)) 0 max_sync_body_bytes True c =
      (Inr \<lparr> ms_body = Some bs, ms_headers = hs \<rparr>, c')" by blast
  show ?thesis unfolding client_sync_def sm using True bs by simp
next
  case False
  then have "hr_status h = 409" using sync_handler_statuses[OF s] sync_query_parses(2)[OF amp] by simp
  moreover from send_conflict[OF d this, of CallSync 0 max_sync_body_bytes] obtain c' hs where
    sm: "send_measured ext CallSync (GetReq (hc_base c @ ''/sync?'' @ sync_query from to epoch)) 0 max_sync_body_bytes True c =
      (Inr \<lparr> ms_body = None, ms_headers = hs \<rparr>, c')" by blast
  ultimately show ?thesis unfolding client_sync_def sm by simp
qed

section \<open>Properties\<close>

text \<open>C25. The client trusts no length and no partial body.  Every call sends one request; what it
  hands to a decoder is the whole body of a \<open>200\<close> whose every chunk was read, at most as long
  as the cap of the call, whatever length was declared (a \<open>409\<close> that is allowed has none); the
  text of a refusal is at most 64 KiB of it; and a \<open>200\<close> that arrives whole within the cap, with
  its length declared truly or not at all, is read.\<close>

theorem every_body_is_whole_and_capped:
  assumes "send_measured ext call req request_bytes cap allow c = (r, c')"
  shows "hc_sent c' = hc_sent c @ [req] \<and>
    (\<forall>m. r = Inr m \<longrightarrow> (\<exists>resp. hx_net ext (hc_sent c) req = Inr resp \<and> ms_headers m = rp_headers resp \<and>
       (case ms_body m of None \<Rightarrow> allow \<and> rp_status resp = 409
        | Some bs \<Rightarrow> rp_status resp = 200 \<and> (\<exists>ds. rp_chunks resp = map Chunk ds \<and> bs = concat ds) \<and> length bs \<le> cap))) \<and>
    (\<forall>st b. r = Inl (Status st b) \<longrightarrow> st \<noteq> 200 \<and> length b \<le> 65536) \<and>
    (\<forall>resp ds. hx_net ext (hc_sent c) req = Inr resp \<and> rp_status resp = 200 \<and> rp_chunks resp = map Chunk ds \<and>
       length (concat ds) \<le> cap \<and> (\<forall>d. rp_content_length resp = Some d \<longrightarrow> unat d = length (concat ds)) \<longrightarrow>
       r = Inr \<lparr> ms_body = Some (concat ds), ms_headers = rp_headers resp \<rparr>)"
proof -
  note s = send_measured_cases[OF assms]
  have "\<exists>resp. hx_net ext (hc_sent c) req = Inr resp \<and> ms_headers m = rp_headers resp \<and>
       (case ms_body m of None \<Rightarrow> allow \<and> rp_status resp = 409
        | Some bs \<Rightarrow> rp_status resp = 200 \<and> (\<exists>ds. rp_chunks resp = map Chunk ds \<and> bs = concat ds) \<and> length bs \<le> cap)"
    if "r = Inr m" for m
    using s that by (auto simp: ok_body_Inr split: sum.splits if_splits)
  moreover have "st \<noteq> 200 \<and> length b \<le> 65536" if "r = Inl (Status st b)" for st b
    using s that ok_body_Status[of _ cap st b] by (auto simp: max_error_body_bytes_def and_then_Inl_iff split: sum.splits if_splits)
  moreover have "r = Inr \<lparr> ms_body = Some (concat ds), ms_headers = rp_headers resp \<rparr>"
    if "hx_net ext (hc_sent c) req = Inr resp" "rp_status resp = 200" "rp_chunks resp = map Chunk ds"
      "length (concat ds) \<le> cap" "\<forall>d. rp_content_length resp = Some d \<longrightarrow> unat d = length (concat ds)" for resp ds
  proof -
    have "ok_body resp cap = Inr (concat ds)" using that by (auto simp: ok_body_Inr)
    then show ?thesis using s that by simp
  qed
  ultimately show ?thesis using s by blast
qed

definition constant_ext :: "reply \<Rightarrow> toy_params http_ext" where
  "constant_ext resp = \<lparr> hx_net = (\<lambda>_ _. Inr resp), hx_ns = (\<lambda>_ _. 5), hx_decode_ns = (\<lambda>_. 1), hx_lib = toy_simple_lib \<rparr>"

lemma every_body_is_whole_and_capped_witness:
  "fst (send_measured (constant_ext \<lparr> rp_status = 200, rp_headers = [], rp_content_length = None, rp_chunks = map Chunk [[1], [2, 3]] \<rparr>)
      CallHead (GetReq ''u/head'') 0 3 False (with_http_client ''u'')) = Inr \<lparr> ms_body = Some [1, 2, 3], ms_headers = [] \<rparr>"
proof -
  let ?resp = "\<lparr> rp_status = 200, rp_headers = [], rp_content_length = None, rp_chunks = map Chunk [[1], [2, 3]] \<rparr>"
  obtain r c' where s: "send_measured (constant_ext ?resp) CallHead (GetReq ''u/head'') 0 3 False (with_http_client ''u'') = (r, c')"
    by fastforce
  from every_body_is_whole_and_capped[OF s, THEN conjunct2, THEN conjunct2, THEN conjunct2, rule_format, of ?resp "[[1], [2, 3]]"]
  have "r = Inr \<lparr> ms_body = Some [1, 2, 3], ms_headers = [] \<rparr>" by (simp add: constant_ext_def)
  then show ?thesis by (simp only: s fst_conv)
qed

text \<open>The client reads what the node served.  When the replies carry the responses of the node's
  handlers, in any chunks, \<open>head\<close> is the block of the server, \<open>mode\<close> its completeness, \<open>recent\<close> its
  recent addresses, newest first, and \<open>setup_with_mode\<close> the bundle that was encoded with the mode
  of the same node, taken from the same response.\<close>

theorem client_reads_what_node_served:
  assumes "delivered_reply ext c (GetReq (hc_base c @ ''/head'')) (head_handler nd)"
    and "delivered_reply ext c (GetReq (hc_base c @ ''/mode'')) (mode_handler nd)"
    and "delivered_reply ext c (GetReq (hc_base c @ ''/recent'')) (recent_handler nd)"
    and "\<forall>a \<in> set (nd_recent nd). length a = 20" and "length (nd_recent nd) \<le> recent_capacity"
    and "delivered_reply ext c (GetReq (hc_base c @ ''/setup'')) h" and "setup_handler nx nd plain_request = Some (h, nd')"
    and "node_setup_bytes nx nd = Some ((bs, b), nd')" and "length bs \<le> max_setup_body_bytes"
    and "encode_setup (nx_arity nx) (nx_lib nx) bundle = Some bs" and "hx_lib ext = nx_lib nx"
    and "simple_lib_ok (nx_lib nx)" and "arity_doc (nx_arity nx)" and "setup_fits (nx_lib nx) bundle"
  shows "fst (client_head ext c) = Inr (sv_block (in_server (nd_inner nd))) \<and>
    fst (client_mode ext c) = Inr (nd_complete nd) \<and>
    fst (client_recent ext c) = Inr (rev (nd_recent nd)) \<and>
    fst (setup_with_mode ext c) = Inr (bundle, Some (nd_complete nd))"
proof -
  have "decode_setup (hx_lib ext) bs = Inr bundle"
    using decode_setup_bytes[OF assms(12,14)] encode_setup_bytes[OF assms(13)] assms(10,11) by (metis option.inject)
  moreover have "nd_complete nd' = nd_complete nd"
    using assms(8) by (auto simp: node_setup_bytes_def Let_def split: option.splits if_splits)
  ultimately show ?thesis
    using client_head_delivered[OF assms(1)] client_mode_delivered[OF assms(2)] client_recent_delivered[OF assms(3-5)]
      setup_with_mode_delivered[OF assms(6-9)] by simp
qed

definition reply_of :: "http_response \<Rightarrow> reply" where
  "reply_of h = \<lparr> rp_status = hr_status h, rp_headers = map (\<lambda>(k, v). (k, ascii v)) (hr_headers h), rp_content_length = None,
     rp_chunks = (case hr_body h of Octets bs \<Rightarrow> [Chunk bs] | _ \<Rightarrow> []) \<rparr>"

lemma reply_of_carries: "distinct (map fst (hr_headers h)) \<Longrightarrow> carries h (reply_of h)"
proof -
  assume d: "distinct (map fst (hr_headers h))"
  have "map_of (map (\<lambda>(k, v). (k, ascii v)) (hr_headers h)) k = Some (ascii v)" if "(k, v) \<in> set (hr_headers h)" for k v
  proof -
    have "map_of (hr_headers h) k = Some v" using d that by simp
    then show ?thesis by (simp add: map_of_map)
  qed
  then show ?thesis
    by (auto simp: carries_def reply_of_def find_header_def split: http_body.splits intro: exI[of _ "[_]"])
qed

definition sample_served :: "(u32 \<times> slot_mutation list, unit, toy_params, unit) node_state" where
  "sample_served = (pin_node 8 7 [pin_delta] (Some \<lparr> cs_block = 6, cs_bytes = setup_bytes toy_simple_lib toy_bundle \<rparr>) 1)
     \<lparr> nd_recent := [replicate 20 1, replicate 20 2] \<rparr>"

definition sample_nx :: "toy_params node_ext" where
  "sample_nx = \<lparr> nx_arity = toy_arity, nx_lib = toy_simple_lib, nx_keccak = (\<lambda>_. replicate 32 0xAB) \<rparr>"

definition sample_setup_response :: http_response where
  "sample_setup_response = with_headers (validators sample_served (setup_etag (nd_epoch sample_served) 6) @ [(''accept-ranges'', ''bytes'')])
     (octet_response 200 (setup_bytes toy_simple_lib toy_bundle))"

definition sample_http :: "toy_params http_ext" where
  "sample_http = (constant_ext (reply_of sample_setup_response))\<lparr> hx_net := (\<lambda>_ req. Inr (reply_of (
     if req = GetReq ''u/head'' then head_handler sample_served
     else if req = GetReq ''u/mode'' then mode_handler sample_served
     else if req = GetReq ''u/recent'' then recent_handler sample_served
     else sample_setup_response))) \<rparr>"

lemma client_reads_what_node_served_witness:
  "fst (client_head sample_http (with_http_client ''u/'')) = Inr (7 :: u64) \<and>
    fst (client_recent sample_http (with_http_client ''u/'')) = Inr [replicate 20 (2 :: u8), replicate 20 1] \<and>
    fst (setup_with_mode sample_http (with_http_client ''u/'')) = Inr (toy_bundle, Some True)"
proof -
  let ?c = "with_http_client ''u/''" and ?bs = "setup_bytes toy_simple_lib toy_bundle"
  have c: "hc_base ?c = ''u''" by (simp add: with_http_client_def)
  have net: "hx_net sample_http s req = Inr (reply_of (if req = GetReq ''u/head'' then head_handler sample_served
     else if req = GetReq ''u/mode'' then mode_handler sample_served
     else if req = GetReq ''u/recent'' then recent_handler sample_served else sample_setup_response))" for s req
    by (simp add: sample_http_def)
  have d: "delivered_reply sample_http ?c (GetReq ''u/head'') (head_handler sample_served)"
    "delivered_reply sample_http ?c (GetReq ''u/mode'') (mode_handler sample_served)"
    "delivered_reply sample_http ?c (GetReq ''u/recent'') (recent_handler sample_served)"
    "delivered_reply sample_http ?c (GetReq ''u/setup'') sample_setup_response"
    unfolding delivered_reply_def net
    by (auto intro!: reply_of_carries simp: head_handler_def mode_handler_def recent_handler_def sample_setup_response_def
        with_headers_def octet_response_def validators_def)
  have b: "node_setup_bytes sample_nx sample_served = Some ((?bs, 6), sample_served)"
    by (simp add: node_setup_bytes_def sample_served_def pin_node_def pin_server_def)
  have s: "setup_handler sample_nx sample_served plain_request = Some (sample_setup_response, sample_served)"
    by (simp add: setup_handler_def b plain_request_def setup_range_def sample_setup_response_def Let_def)
  have enc: "encode_setup (nx_arity sample_nx) (nx_lib sample_nx) toy_bundle = Some ?bs"
    using encode_setup_bytes[OF toy_arity_doc] by (simp add: sample_nx_def)
  have lib: "hx_lib sample_http = nx_lib sample_nx" "simple_lib_ok (nx_lib sample_nx)" "arity_doc (nx_arity sample_nx)"
    "setup_fits (nx_lib sample_nx) toy_bundle"
    using toy_simple_lib_ok toy_arity_doc toy_bundle_fits by (simp_all add: sample_http_def constant_ext_def sample_nx_def)
  have len: "length ?bs \<le> max_setup_body_bytes"
    using setup_bytes_length[OF toy_simple_lib_ok toy_bundle_fits] by (simp add: setup_encoded_len_def toy_bundle_def max_setup_body_bytes_def toy_server_params_def uvarint_len.simps)
  have rec: "\<forall>a \<in> set (nd_recent sample_served). length a = 20" "length (nd_recent sample_served) \<le> recent_capacity"
    by (simp_all add: sample_served_def recent_capacity_def)
  have u: "hc_base ?c @ ''/head'' = ''u/head''" "hc_base ?c @ ''/mode'' = ''u/mode''" "hc_base ?c @ ''/recent'' = ''u/recent''"
    "hc_base ?c @ ''/setup'' = ''u/setup''" by (simp_all add: c)
  from client_reads_what_node_served[of sample_http ?c, unfolded u, OF d(1-3) rec d(4) s b len enc lib]
  show ?thesis by (simp add: sample_served_def pin_node_def pin_server_def)
qed

text \<open>C24. A delta fetched over HTTP is the exact difference.  A client that talks to a node at any
  moment of its run and asks for the delta between two blocks either gets "no such delta", which
  is all a client of another lineage ever gets, or, presenting the epoch of this lineage, the
  delta that ends at the block it asked for and whose effect on every cell is the database
  there minus the database at the block it has.\<close>

theorem sync_over_http_is_exact:
  assumes "node_run xxh so be nx n0 ds0 ds served n" and "node_started so log reps b0 v0 cap m ds0 n0"
    and "store_contract so (sv_params (in_server (nd_inner n0))) log"
    and "backend_contract be (sv_params (in_server (nd_inner n0))) reps"
    and "1 \<le> node_plaintext_bits n0" "node_plaintext_bits n0 \<le> 31"
    and "\<And>b j row off. j < cp_arity (sv_params (in_server (nd_inner n0))) \<Longrightarrow>
      0 \<le> history_at v0 ds b j row off \<and> history_at v0 ds b j row off < 2 ^ unat (node_plaintext_bits n0)"
    and "delivered_reply ext c (GetReq (hc_base c @ ''/sync?'' @ sync_query from to epoch)) h"
    and "sync_handler n (Some (sync_query from to epoch)) = Some h" and "CHR ''&'' \<notin> set epoch"
    and "\<forall>bs. hr_body h = Octets bs \<longrightarrow> length bs \<le> max_sync_body_bytes"
    and "r = fst (client_sync ext from to epoch (node_plaintext_bits n0) (of_nat (cp_arity (sv_params (in_server (nd_inner n0))))) c)"
  shows "r = Inr None \<or> (\<exists>d. r = Inr (Some d) \<and> epoch = nd_epoch n0 \<and> delta_block d = to \<and> from < to \<and>
    to \<le> sv_block (in_server (nd_inner n)) \<and>
    (\<forall>j < cp_arity (sv_params (in_server (nd_inner n0))). \<forall>row off.
       delta_effect d j row off = history_at v0 ds to j row off - history_at v0 ds from j row off))"
proof -
  from client_sync_delivered[OF assms(8-11), of "node_plaintext_bits n0" "of_nat (cp_arity (sv_params (in_server (nd_inner n0))))"]
  consider "r = Inr None" | bs where "hr_status h = 200" "hr_body h = Octets bs"
      "r = map_err (\<lambda>e. WireText (UndecodableDelta e)) (and_then (decode_block_delta bs (node_plaintext_bits n0)
         (of_nat (cp_arity (sv_params (in_server (nd_inner n0)))))) (\<lambda>d. Inr (Some d)))"
    unfolding assms(12) by blast
  then show ?thesis
  proof cases
    case 2
    from sync_handler_exact[OF assms(1-7,9) 2(1)] obtain from_b to_b bs' d where
      x: "parse_epoch_param (Some (sync_query from to epoch)) = Some (nd_epoch n0)"
      "Option.bind (Some (sync_query from to epoch)) parse_sync_query = Some (from_b, to_b)" "hr_body h = Octets bs'"
      "decode_block_delta bs' (node_plaintext_bits n0) (of_nat (cp_arity (sv_params (in_server (nd_inner n0))))) = Inr d"
      "delta_block d = to_b" "from_b < to_b" "to_b \<le> sv_block (in_server (nd_inner n))"
      "\<forall>j < cp_arity (sv_params (in_server (nd_inner n0))). \<forall>row off.
         delta_effect d j row off = history_at v0 ds to_b j row off - history_at v0 ds from_b j row off"
      by blast
    have "from_b = from" "to_b = to" "epoch = nd_epoch n0" "bs' = bs"
      using x(1-3) sync_query_parses[OF assms(10), of "from" "to"] 2(2) by simp_all
    then show ?thesis using x 2(3) by auto
  qed simp
qed

lemma sync_over_http_is_exact_witness:
  "\<exists>(ext :: toy_params http_ext) c d. fst (client_sync ext 6 7 ''abababababababab'' (9 :: u32) (1 :: u32) c) = Inr (Some d) \<and> delta_block d = (7 :: u64) \<and>
    delta_effect d (0 :: nat) 0 0 = (8 :: int)"
proof -
  let ?n = "pin_node 8 7 [pin_delta] (Some \<lparr> cs_block = 6, cs_bytes = pin_bundle 0 6 \<rparr>) 1"
  let ?q = "sync_query 6 7 ''abababababababab''" and ?c = "with_http_client ''u''"
  have amp: "CHR ''&'' \<notin> set ''abababababababab''" by simp
  note parse = sync_query_parses[OF amp, of 6 7]
  have range: "ring_range \<lparr> ring_capacity = 8, ring_buf = [pin_delta] \<rparr> 6 7 = Some pin_delta"
    "\<exists>bs. encode_block_delta pin_delta 9 = Some bs"
    unfolding pin_delta_def by (code_simp, simp add: encode_block_delta_def)
  have pb: "node_plaintext_bits (pin_node c b ds k g) = 9" for c b ds k g
    by (simp add: node_plaintext_bits_def pin_params) (simp add: example_params_def)
  obtain bs where bs: "encode_block_delta pin_delta 9 = Some bs" using range(2) by blast
  have h: "sync_handler ?n (Some ?q) = Some (octet_response 200 bs)"
    using range(1) parse bs unfolding sync_handler_def epoch_gate_def pb by (auto simp: pin_node_def)
  have "length bs \<le> max_sync_body_bytes"
  proof -
    have "encoded_len pin_delta \<le> 100" unfolding pin_delta_def by code_simp
    then show ?thesis using encode_length[OF bs] by (simp add: max_sync_body_bytes_def)
  qed
  then have len: "\<forall>b. hr_body (octet_response 200 bs) = Octets b \<longrightarrow> length b \<le> max_sync_body_bytes"
    by (simp add: octet_response_def)
  let ?ext = "constant_ext (reply_of (octet_response 200 bs))"
  have del: "delivered_reply ?ext ?c (GetReq (hc_base ?c @ ''/sync?'' @ ?q)) (octet_response 200 bs)"
    by (auto simp: delivered_reply_def constant_ext_def octet_response_def intro!: reply_of_carries)
  have bounds: "0 \<le> history_at (\<lambda>_ _ _. 0) [pin_delta] b j row off \<and>
      history_at (\<lambda>_ _ _. 0) [pin_delta] b j row off < 2 ^ 9" if "j < 1" for b j row off
    using that by (simp add: history_at_def pin_delta_def delta_effect_def)
  have ar: "cp_arity example_params = 1" by (simp add: example_params_def)
  from sync_handler_exact[OF pin_run pin_started, unfolded pin_params pb, OF pin_contracts _ _ _ h] bounds
  obtain d where "decode_block_delta bs 9 1 = Inr d" unfolding ar by (auto simp: octet_response_def)
  then have "fst (client_sync ?ext 6 7 ''abababababababab'' 9 1 ?c) \<noteq> Inr None"
    using client_sync_delivered[OF del h amp len, of 9 1] by (auto simp: octet_response_def)
  with sync_over_http_is_exact[OF pin_run pin_started, unfolded pin_params pb, OF pin_contracts _ _ _ del h amp len refl] bounds
  obtain d where "fst (client_sync ?ext 6 7 ''abababababababab'' 9 1 ?c) = Inr (Some d)" "delta_block d = 7"
    "delta_effect d 0 0 0 = history_at (\<lambda>_ _ _. 0) [pin_delta] 7 0 0 0 - history_at (\<lambda>_ _ _. 0) [pin_delta] 6 0 0 0"
    unfolding ar by auto
  moreover have "delta_effect pin_delta 0 0 0 = 8" "delta_block pin_delta = 7"
    by (simp_all add: pin_delta_def delta_effect_def)
  then have "history_at (\<lambda>_ _ _. 0) [pin_delta] 7 0 0 0 - history_at (\<lambda>_ _ _. 0) [pin_delta] 6 0 0 0 = 8"
    by (simp add: history_at_def)
  ultimately show ?thesis by metis
qed

text \<open>An answer over HTTP is the server's answer to the query that was asked.  When the geometry of
  client and node agree, a client that presents the epoch of the node gets exactly the
  responses its server computes for the encoded queries, with the server's block; one of
  another lineage gets a \<open>409\<close>.\<close>

theorem answer_over_http_is_the_servers:
  assumes "delivered_reply ext c (PostReq (hc_base c @ ''/answer?epoch='' @ epoch) body) h"
    and "answer_handler nx so be nd (Some (''epoch='' @ epoch)) body = Some h" and "CHR ''&'' \<notin> set epoch"
    and "encode_query_bundle queries = Some body"
    and "map unat (map sp_reshape_rows (nd_backend_params nd)) = map length queries"
    and "length (nd_backend_params nd) = nx_arity nx (nd_fields nd)"
    and "answer so be (in_server (nd_inner nd)) queries = Some (Inr (rs, blk))" and "map unat lens = map length rs"
    and "\<forall>bs. hr_body h = Octets bs \<longrightarrow> length bs \<le> max_answer_body_bytes"
  shows "\<exists>b c'. client_answer ext queries epoch lens (length lens) c =
      Some (if epoch = nd_epoch nd then Inr (rs, blk) else Inl (Status 409 b), c') \<and>
    blk = sv_block (in_server (nd_inner nd))"
proof -
  obtain p where p: "client_answer ext queries epoch lens (length lens) c = Some p"
    using answer_delivered[OF assms] by (auto simp only: map_option_eq_Some)
  obtain r c' where r: "client_answer ext queries epoch lens (length lens) c = Some (r, c')" using p by (cases p) auto
  have "blk = sv_block (in_server (nd_inner nd))"
    using assms(7) by (auto simp: answer_def bind_eq_Some_conv split: if_splits)
  then show ?thesis using answer_delivered[OF assms] r by auto
qed

lemma answer_over_http_is_the_servers_witness:
  "\<exists>(ext :: toy_params http_ext) c'. client_answer ext [[1, 2, 3, 4]] ''abababababababab'' [1] (Suc 0) (with_http_client ''u'') =
     Some (Inr ([[8 :: u32]], 7 :: u64), c')"
proof -
  let ?nd = "pin_node 8 7 [pin_delta] None 0" and ?e = "''abababababababab''" and ?c = "with_http_client ''u''"
  obtain body where q: "encode_query_bundle [[1, 2, 3, 4]] = Some body" by (simp add: encode_query_bundle_def)
  obtain bs where bs: "encode_response_bundle [[8]] 7 = Some bs" and l: "length bs \<le> max_answer_body_bytes"
  proof -
    have "length (encode_u32s [8]) = 5" by code_simp
    then have "\<exists>bs. encode_response_bundle [[8]] 7 = Some bs \<and> length bs \<le> max_answer_body_bytes"
      by (simp add: encode_response_bundle_def max_answer_body_bytes_def)
    then show thesis using that by blast
  qed
  have f: "cp_arity example_params = 1" "so_cells example_store s = [fst s]" for s
    by (simp_all add: example_params_def example_store_def)
  have ans: "answer example_store pin_backend (in_server (nd_inner ?nd)) [[1, 2, 3, 4]] = Some (Inr ([[8]], 7))"
    by (simp add: answer_def pin_node_def pin_server_def f pin_backend_def segment_slice_def get_range_def get_def
        seg_cells_of_def row_width_of_def) (simp add: example_params_def)
  have ql: "map unat (map sp_reshape_rows (nd_backend_params ?nd)) = map length [[1, 2, 3, 4 :: u32]]"
    by (simp add: pin_node_def toy_server_params_def)
  have ar: "length (nd_backend_params ?nd) = nx_arity pin_ext (nd_fields ?nd)" by (simp add: pin_node_def pin_ext_def)
  have amp: "CHR ''&'' \<notin> set ?e" by simp
  have dec: "decode_query_bundle (nx_arity pin_ext) body (nd_fields ?nd) (map sp_reshape_rows (nd_backend_params ?nd)) = Inr [[1, 2, 3, 4]]"
    by (rule query_bytes_decode[OF q ql]) (simp add: pin_node_def pin_ext_def)
  have e: "nd_epoch ?nd = ?e" by (simp add: pin_node_def)
  have h: "answer_handler pin_ext example_store pin_backend ?nd (Some (''epoch='' @ ?e)) body = Some (octet_response 200 bs)"
    using epoch_query_parses[OF amp] by (simp add: answer_handler_def epoch_gate_def e dec ans bs del: append.simps append_Cons)
  let ?ext = "constant_ext (reply_of (octet_response 200 bs))"
  have del: "delivered_reply ?ext ?c (PostReq (hc_base ?c @ ''/answer?epoch='' @ ?e) body) (octet_response 200 bs)"
    by (auto simp: delivered_reply_def constant_ext_def octet_response_def intro!: reply_of_carries)
  have len: "\<forall>b. hr_body (octet_response 200 bs) = Octets b \<longrightarrow> length b \<le> max_answer_body_bytes"
    using l by (simp add: octet_response_def)
  have rl: "map unat [1 :: u32] = map length [[8 :: u32]]" by simp
  from answer_over_http_is_the_servers[OF del h amp q ql ar ans rl len] show ?thesis by (auto simp: e)
qed

end
