(* ===== verification/Private_Eth.thy ===== *)
theory Private_Eth
  imports Http_Client Client
begin

text \<open>
  Model of \<open>crates/risepir-rpc/src/private_eth.rs\<close> and \<open>error.rs\<close>: the private balance
  lookup, one session with the PIR server over HTTP.

  The state \<open>private_eth\<close> holds the session, the HTTP client with its clock and its request
  log, and the time of the last re-bootstrap; the session mutex is the sequence of the calls.
  The front end gives every request a deadline: its future is dropped at the await
  during which the clock passes it.  That is the ending \<open>Dropped\<close>; what was assigned before
  stays assigned.  Time passes at awaits only; what the local computations take is read from the
  parameters \<open>re_build_ns\<close>, \<open>re_ingest_ns\<close> and \<open>re_finish_ns\<close>.  \<open>FinishTimings\<close>, the four parts of
  one duration, is left out.  \<open>None\<close> is a panic.

  The lemmas: a session always stems from one bundle and one mode, and covers exactly up to its
  pending head; a balance is the answer of \<open>finish\<close> at the block of the response, and a zero
  for an unknown account comes from a complete deployment only; a call makes a bounded number of
  requests and downloads are metered; and what the deadline does to the recovery.
\<close>

section \<open>Errors (\<open>error.rs\<close>)\<close>

datatype rpc_error =
    Pir http_error
  | ClientFailed client_error
  | BalanceDecodeFailed
  | NotInTrackedSet
  | Stalled

datatype rpc_error_text =
    PirTransportText http_error
  | PirClientText client_error
  | DecodeFailedText
  | NotTrackedText
  | StalledText

fun rpc_error_display :: "rpc_error \<Rightarrow> rpc_error_text" where
  "rpc_error_display (Pir e) = PirTransportText e"
| "rpc_error_display (ClientFailed e) = PirClientText e"
| "rpc_error_display BalanceDecodeFailed = DecodeFailedText"
| "rpc_error_display NotInTrackedSet = NotTrackedText"
| "rpc_error_display Stalled = StalledText"

text \<open>How a call ends when it does not succeed.\<close>

datatype call_end = Failed rpc_error | Dropped

section \<open>State\<close>

record ('p, 'st) rpc_ext =
  re_http :: "'p http_ext"
  re_be :: "('p simple_server_params, u32 list, 'st) pir_backend"
  re_params :: "cuckoo_fields \<Rightarrow> cuckoo_params"
  re_keccak :: "bytes \<Rightarrow> bytes"
  re_xxh3 :: "bytes \<Rightarrow> u64 \<Rightarrow> u64"
  re_build_ns :: "request list \<Rightarrow> nat"
  re_ingest_ns :: "request list \<Rightarrow> nat"
  re_finish_ns :: "request list \<Rightarrow> nat"
  re_unix_ms :: "nat \<Rightarrow> nat"

record sync_fetch =
  sf_from_block :: u64
  sf_to_block :: u64
  sf_blocks :: u64
  sf_received_at_unix_ms :: nat
  sf_wire :: u64
  sf_decode :: u64
  sf_wire_bytes :: u64
  sf_ingest :: nat
  sf_cells_in_delta :: nat
  sf_delta_cells_total :: nat

record balance_timings =
  bt_build :: nat
  bt_finish :: nat
  bt_sync :: "sync_fetch list"
  bt_at_block :: u64
  bt_pinned_block :: u64
  bt_delta_cells :: nat
  bt_found :: bool
  bt_attempts :: u32

definition default_timings :: balance_timings where
  "default_timings = \<lparr> bt_build = 0, bt_finish = 0, bt_sync = [], bt_at_block = 0, bt_pinned_block = 0,
     bt_delta_cells = 0, bt_found = False, bt_attempts = 0 \<rparr>"

text \<open>300 seconds, in nanoseconds.\<close>

definition rebootstrap_cooldown :: nat where "rebootstrap_cooldown = 300000000000"

record 'st session =
  se_client :: "'st rise_client"
  se_pending_head :: u64
  se_arity :: nat
  se_plaintext_bits :: u32
  se_widths :: "u32 list"
  se_strict_not_found :: bool
  se_epoch :: string

record 'st private_eth =
  pe_session :: "'st session"
  pe_pir :: http_client
  pe_last_rebootstrap :: "nat option"
  pe_value_codec :: value_codec
  pe_chain_id :: u64
  pe_proxy_upstream :: "string option"

definition client_bundle :: "('p, 'st) rpc_ext \<Rightarrow> 'p wire_bundle \<Rightarrow> ('p simple_server_params, u32 list) setup_bundle" where
  "client_bundle rx b = \<lparr> sb_params = re_params rx (wb_params b), sb_backend_params = wb_backend_params b,
     sb_hints = wb_hints b, sb_block = wb_block b \<rparr>"

definition session_from_bundle :: "('p, 'st) rpc_ext \<Rightarrow> 'p wire_bundle \<Rightarrow> value_codec \<Rightarrow> bool \<Rightarrow> 'st session" where
  "session_from_bundle rx bundle vc complete =
     \<lparr> se_client = from_setup (re_be rx) (client_bundle rx bundle) vc,
       se_pending_head = wb_block bundle,
       se_arity = cp_arity (re_params rx (wb_params bundle)),
       se_plaintext_bits = cf_plaintext_bits (wb_params bundle),
       se_widths = map sp_reshape_row_width (wb_backend_params bundle),
       se_strict_not_found = (\<not> complete),
       se_epoch = lineage_epoch (re_keccak rx) (hx_lib (re_http rx)) (wb_backend_params bundle) \<rparr>"

definition private_eth_from_setup :: "('p, 'st) rpc_ext \<Rightarrow> http_client \<Rightarrow> 'p wire_bundle \<Rightarrow> value_codec \<Rightarrow> bool \<Rightarrow> u64
    \<Rightarrow> string option \<Rightarrow> 'st private_eth" where
  "private_eth_from_setup rx pir bundle vc complete chain_id proxy_upstream =
     \<lparr> pe_session = session_from_bundle rx bundle vc complete, pe_pir = pir, pe_last_rebootstrap = None,
       pe_value_codec = vc, pe_chain_id = chain_id, pe_proxy_upstream = proxy_upstream \<rparr>"

definition pinned_block :: "'st private_eth \<Rightarrow> u64" where
  "pinned_block pe = se_pending_head (pe_session pe)"

section \<open>Awaits\<close>

type_synonym ('a, 's) ended = "((call_end + 'a) \<times> 's) option"

text \<open>The operator \<open>?\<close>.\<close>

definition and_then_call :: "('a, 's) ended \<Rightarrow> ('a \<Rightarrow> 's \<Rightarrow> ('b, 's) ended) \<Rightarrow> ('b, 's) ended" where
  "and_then_call r f =
     (case r of None \<Rightarrow> None | Some (Inl e, s) \<Rightarrow> Some (Inl e, s) | Some (Inr x, s) \<Rightarrow> f x s)"

definition past :: "nat option \<Rightarrow> nat \<Rightarrow> bool" where
  "past deadline now = (case deadline of None \<Rightarrow> False | Some d \<Rightarrow> d < now)"

text \<open>An await of the HTTP client; a future dropped on the way has sent its request and
  counts nothing.\<close>

definition awaited :: "nat option \<Rightarrow> http_client \<Rightarrow> (http_error + 'a) \<times> http_client \<Rightarrow> (call_end + 'a) \<times> http_client" where
  "awaited deadline c rc =
     (case rc of (r, c') \<Rightarrow>
        if past deadline (hc_now c') then (Inl Dropped, c\<lparr> hc_sent := hc_sent c', hc_now := max (hc_now c) (the deadline) \<rparr>)
        else (map_err (\<lambda>e. Failed (Pir e)) r, c'))"

definition pir_call :: "nat option \<Rightarrow> (http_client \<Rightarrow> (http_error + 'a) \<times> http_client) \<Rightarrow> 'st private_eth
    \<Rightarrow> (call_end + 'a) \<times> 'st private_eth" where
  "pir_call deadline f pe = (case awaited deadline (pe_pir pe) (f (pe_pir pe)) of (r, c) \<Rightarrow> (r, pe\<lparr> pe_pir := c \<rparr>))"

definition private_head :: "('p, 'st) rpc_ext \<Rightarrow> nat option \<Rightarrow> 'st private_eth \<Rightarrow> (call_end + u64) \<times> 'st private_eth" where
  "private_head rx deadline pe = pir_call deadline (client_head (re_http rx)) pe"

section \<open>Catching up\<close>

definition delta_cells :: "block_delta \<Rightarrow> nat" where
  "delta_cells d = sum_list (map (\<lambda>(_, cells). length cells) (concat (per_segment d)))"

definition fetch_costs :: "net_stats option \<Rightarrow> net_stats option \<Rightarrow> u64 \<times> u64 \<times> u64" where
  "fetch_costs before after =
     (case (before, after) of
        (Some b, Some a) \<Rightarrow>
          (saturating_sub_u (ks_wire_ns (ns_sync a)) (ks_wire_ns (ns_sync b)),
           saturating_sub_u (ks_decode_ns (ns_sync a)) (ks_decode_ns (ns_sync b)),
           saturating_sub_u (ks_response_bytes (ns_sync a)) (ks_response_bytes (ns_sync b)))
      | _ \<Rightarrow> (0, 0, 0))"

text \<open>The row that an instrumented fetch adds.\<close>

definition sync_row :: "('p, 'st) rpc_ext \<Rightarrow> u64 \<Rightarrow> net_stats option \<Rightarrow> block_delta \<Rightarrow> 'st private_eth \<Rightarrow> sync_fetch" where
  "sync_row rx from before delta pe =
     (let (wire, decode, wire_bytes) = fetch_costs before (hc_sink (pe_pir pe)) in
      \<lparr> sf_from_block = from, sf_to_block = delta_block delta, sf_blocks = saturating_sub_u (delta_block delta) from,
        sf_received_at_unix_ms = re_unix_ms rx (hc_now (pe_pir pe)), sf_wire = wire, sf_decode = decode,
        sf_wire_bytes = wire_bytes, sf_ingest = re_ingest_ns rx (hc_sent (pe_pir pe)), sf_cells_in_delta = delta_cells delta,
        sf_delta_cells_total = delta_cells_count (se_client (pe_session pe)) \<rparr>)"

type_synonym 'st call_state = "'st private_eth \<times> balance_timings option"

definition on_timings :: "(balance_timings \<Rightarrow> balance_timings) \<Rightarrow> 'st call_state \<Rightarrow> 'st call_state" where
  "on_timings f s = (fst s, map_option f (snd s))"

definition on_session :: "('st session \<Rightarrow> 'st session) \<Rightarrow> 'st private_eth \<Rightarrow> 'st private_eth" where
  "on_session f pe = pe\<lparr> pe_session := f (pe_session pe) \<rparr>"

definition sync_to :: "('p, 'st) rpc_ext \<Rightarrow> nat option \<Rightarrow> u64 \<Rightarrow> 'st call_state \<Rightarrow> (call_end + unit) \<times> 'st call_state" where
  "sync_to rx deadline target s =
     (let (pe, sink) = s; se = pe_session pe; from = se_pending_head se in
      if target \<le> from then (Inr (), s)
      else
        let before = (case sink of None \<Rightarrow> None | Some _ \<Rightarrow> hc_sink (pe_pir pe)) in
        case pir_call deadline
            (client_sync (re_http rx) from target (se_epoch se) (se_plaintext_bits se) (of_nat (se_arity se))) pe of
          (Inl e, pe) \<Rightarrow> (Inl e, pe, sink)
        | (Inr None, pe) \<Rightarrow> (Inl (Failed Stalled), pe, sink)
        | (Inr (Some delta), pe) \<Rightarrow>
            (case ingest_delta (se_client se) delta of
               (Inl e, cl) \<Rightarrow> (Inl (Failed (ClientFailed e)), on_session (\<lambda>se. se\<lparr> se_client := cl \<rparr>) pe, sink)
             | (Inr _, cl) \<Rightarrow>
                 let pe = on_session (\<lambda>se. se\<lparr> se_client := cl, se_pending_head := delta_block delta \<rparr>) pe in
                 (Inr (), on_timings (\<lambda>t. t\<lparr> bt_sync := bt_sync t @ [sync_row rx from before delta pe] \<rparr>) (pe, sink))))"

definition follow_once :: "('p, 'st) rpc_ext \<Rightarrow> nat option \<Rightarrow> 'st private_eth
    \<Rightarrow> (call_end + sync_fetch option) \<times> 'st private_eth" where
  "follow_once rx deadline pe =
     (case private_head rx deadline pe of
        (Inl e, pe) \<Rightarrow> (Inl e, pe)
      | (Inr head, pe) \<Rightarrow>
          if head \<le> se_pending_head (pe_session pe) then (Inr None, pe)
          else case sync_to rx deadline head (pe, Some default_timings) of
            (Inl e, pe, _) \<Rightarrow> (Inl e, pe)
          | (Inr _, pe, fetches) \<Rightarrow>
              (Inr (case fetches of Some t \<Rightarrow> (if bt_sync t = [] then None else Some (last (bt_sync t))) | None \<Rightarrow> None), pe))"

section \<open>The lookup\<close>

definition answer_error :: "call_end \<Rightarrow> call_end" where
  "answer_error e = (case e of Failed (Pir (Status st _)) \<Rightarrow> if st = 409 then Failed Stalled else e | _ \<Rightarrow> e)"

definition finish_error :: "client_error \<Rightarrow> rpc_error" where
  "finish_error e = (case e of ResponseBlockMismatch _ _ \<Rightarrow> Stalled | _ \<Rightarrow> ClientFailed e)"

definition lookup_balance :: "bool \<Rightarrow> lookup \<Rightarrow> rpc_error + balance" where
  "lookup_balance strict l =
     (case l of
        Found balance \<Rightarrow> Inr balance
      | NotFound \<Rightarrow> if strict then Inl NotInTrackedSet else Inr 0
      | DecodeFailed \<Rightarrow> Inl BalanceDecodeFailed)"

text \<open>\<open>POST /answer\<close> for a query that is built.\<close>

definition answer_call :: "('p, 'st) rpc_ext \<Rightarrow> nat option \<Rightarrow> u32 list list \<Rightarrow> 'st call_state
    \<Rightarrow> (u32 list list \<times> u64, 'st call_state) ended" where
  "answer_call rx deadline queries s =
     (let (pe, sink) = s; se = pe_session pe in
      Option.bind (client_answer (re_http rx) queries (se_epoch se) (se_widths se) (se_arity se) (pe_pir pe)) (\<lambda>rc.
      case awaited deadline (pe_pir pe) rc of (r, c) \<Rightarrow> Some (map_err answer_error r, pe\<lparr> pe_pir := c \<rparr>, sink)))"

definition try_get_balance :: "('p, 'st) rpc_ext \<Rightarrow> nat option \<Rightarrow> address_hash \<Rightarrow> 'st call_state
    \<Rightarrow> (balance, 'st call_state) ended" where
  "try_get_balance rx deadline key s =
     and_then_call (case private_head rx deadline (fst s) of (r, pe) \<Rightarrow> Some (r, pe, snd s)) (\<lambda>server_head s.
     and_then_call (Some (sync_to rx deadline server_head s)) (\<lambda>_ s.
     Option.bind (build_query (re_be rx) (se_client (pe_session (fst s))) key) (\<lambda>(queries, ctx, cl).
     let s = (on_session (\<lambda>se. se\<lparr> se_client := cl \<rparr>) (fst s), snd s);
         s = on_timings (\<lambda>t. t\<lparr> bt_build := re_build_ns rx (hc_sent (pe_pir (fst s))) \<rparr>) s in
     and_then_call (answer_call rx deadline queries s) (\<lambda>(responses, at_block) s.
     and_then_call (Some (sync_to rx deadline at_block s)) (\<lambda>_ s.
     let se = pe_session (fst s);
         s = on_timings (\<lambda>t. t\<lparr> bt_at_block := at_block, bt_pinned_block := rc_pinned_block (se_client se),
               bt_delta_cells := delta_cells_count (se_client se) \<rparr>) s in
     Option.bind (finish (re_xxh3 rx) (re_be rx) (se_client se) key ctx responses at_block) (\<lambda>outcome.
     let s = on_timings (\<lambda>t. t\<lparr> bt_finish := re_finish_ns rx (hc_sent (pe_pir (fst s))) \<rparr>) s in
     case outcome of
       Inl e \<Rightarrow> Some (Inl (Failed (finish_error e)), s)
     | Inr lookup \<Rightarrow>
         Some (map_err Failed (lookup_balance (se_strict_not_found se) lookup),
           on_timings (\<lambda>t. t\<lparr> bt_found := (case lookup of Found _ \<Rightarrow> True | _ \<Rightarrow> False) \<rparr>) s)))))))"

section \<open>Recovery\<close>

definition take_rebootstrap_slot :: "'st private_eth \<Rightarrow> bool \<times> 'st private_eth" where
  "take_rebootstrap_slot pe =
     (let now = hc_now (pe_pir pe) in
      case pe_last_rebootstrap pe of
        Some prev \<Rightarrow>
          if now - prev < rebootstrap_cooldown then (False, pe) else (True, pe\<lparr> pe_last_rebootstrap := Some now \<rparr>)
      | None \<Rightarrow> (True, pe\<lparr> pe_last_rebootstrap := Some now \<rparr>))"

definition rebootstrap :: "('p, 'st) rpc_ext \<Rightarrow> nat option \<Rightarrow> 'st private_eth \<Rightarrow> (call_end + unit) \<times> 'st private_eth" where
  "rebootstrap rx deadline pe =
     (case pir_call deadline (setup_with_mode (re_http rx)) pe of
        (Inl e, pe) \<Rightarrow> (Inl e, pe)
      | (Inr (bundle, mode_sent), pe) \<Rightarrow>
          (case (case mode_sent of Some m \<Rightarrow> (Inr m, pe) | None \<Rightarrow> pir_call deadline (client_mode (re_http rx)) pe) of
             (Inl e, pe) \<Rightarrow> (Inl e, pe)
           | (Inr complete, pe) \<Rightarrow>
               (Inr (), on_session (\<lambda>_. session_from_bundle rx bundle (pe_value_codec pe) complete) pe)))"

definition get_balance_inner :: "('p, 'st) rpc_ext \<Rightarrow> nat option \<Rightarrow> bytes \<Rightarrow> 'st call_state \<Rightarrow> (balance, 'st call_state) ended" where
  "get_balance_inner rx deadline addr20 s =
     (let key = re_keccak rx addr20;
          s = on_timings (\<lambda>_. default_timings\<lparr> bt_attempts := 1 \<rparr>) s in
      Option.bind (try_get_balance rx deadline key s) (\<lambda>(first, s).
      if first = Inl (Failed Stalled) then
        (case take_rebootstrap_slot (fst s) of
           (False, _) \<Rightarrow> Some (first, s)
         | (True, pe) \<Rightarrow>
             and_then_call (case rebootstrap rx deadline pe of (r, pe) \<Rightarrow> Some (r, pe, snd s)) (\<lambda>_ s.
             try_get_balance rx deadline key (on_timings (\<lambda>t. t\<lparr> bt_attempts := 2 \<rparr>) s)))
      else Some (first, s)))"

definition get_balance :: "('p, 'st) rpc_ext \<Rightarrow> nat option \<Rightarrow> bytes \<Rightarrow> 'st private_eth \<Rightarrow> (balance, 'st private_eth) ended" where
  "get_balance rx deadline addr20 pe =
     map_option (\<lambda>(r, pe, _). (r, pe)) (get_balance_inner rx deadline addr20 (pe, None))"

definition get_balance_timed :: "('p, 'st) rpc_ext \<Rightarrow> nat option \<Rightarrow> bytes \<Rightarrow> balance_timings \<Rightarrow> 'st private_eth
    \<Rightarrow> (balance, 'st call_state) ended" where
  "get_balance_timed rx deadline addr20 sink pe = get_balance_inner rx deadline addr20 (pe, Some sink)"

section \<open>What a call does to the state\<close>

text \<open>One request: it is logged, and time passes, at most to the deadline.\<close>

definition one_request :: "nat option \<Rightarrow> request \<Rightarrow> http_client \<Rightarrow> http_client \<Rightarrow> bool" where
  "one_request deadline req c c' \<longleftrightarrow> hc_base c' = hc_base c \<and> hc_sent c' = hc_sent c @ [req] \<and> hc_now c \<le> hc_now c' \<and>
     (\<forall>d. deadline = Some d \<longrightarrow> hc_now c' \<le> max (hc_now c) d)"

abbreviation setup_request_of :: "http_client \<Rightarrow> request" where
  "setup_request_of c \<equiv> GetReq (hc_base c @ ''/setup'')"

lemma awaited_one_request:
  assumes "awaited deadline c (r, c') = (r', c'')"
    and "hc_base c' = hc_base c \<and> hc_sent c' = hc_sent c @ [req] \<and> hc_now c \<le> hc_now c'"
  shows "one_request deadline req c c''"
  using assms by (auto simp: awaited_def one_request_def past_def split: if_splits option.splits)

text \<open>Each call of the client sends its one request.\<close>

lemma send_measured_request:
  assumes "send_measured ext call req nb cap allow c = (r, c')"
  shows "hc_base c' = hc_base c \<and> hc_sent c' = hc_sent c @ [req] \<and> hc_now c \<le> hc_now c'"
  using send_measured_cases[OF assms] by simp

lemma client_head_request:
  "client_head ext c = (r, c') \<Longrightarrow>
   hc_base c' = hc_base c \<and> hc_sent c' = hc_sent c @ [GetReq (hc_base c @ ''/head'')] \<and> hc_now c \<le> hc_now c'"
  by (auto simp: client_head_def split: prod.splits dest: send_measured_request)

lemma client_mode_request:
  "client_mode ext c = (r, c') \<Longrightarrow>
   hc_base c' = hc_base c \<and> hc_sent c' = hc_sent c @ [GetReq (hc_base c @ ''/mode'')] \<and> hc_now c \<le> hc_now c'"
  by (auto simp: client_mode_def split: prod.splits dest: send_measured_request)

lemma client_sync_request:
  "client_sync ext a b epoch pb arity c = (r, c') \<Longrightarrow>
   hc_base c' = hc_base c \<and> hc_sent c' = hc_sent c @ [GetReq (hc_base c @ ''/sync?'' @ sync_query a b epoch)] \<and>
   hc_now c \<le> hc_now c'"
  by (auto simp: client_sync_def split: prod.splits sum.splits option.splits dest!: send_measured_request)

lemma client_answer_request:
  "client_answer ext queries epoch lens arity c = Some (r, c') \<Longrightarrow>
   \<exists>body. hc_base c' = hc_base c \<and> hc_sent c' = hc_sent c @ [PostReq (hc_base c @ ''/answer?epoch='' @ epoch) body] \<and>
     hc_now c \<le> hc_now c'"
  by (auto simp: client_answer_def Let_def split: prod.splits sum.splits bind_splits dest!: send_measured_request)

lemma setup_with_mode_request:
  "setup_with_mode ext c = (r, c') \<Longrightarrow>
   hc_base c' = hc_base c \<and> hc_sent c' = hc_sent c @ [setup_request_of c] \<and> hc_now c \<le> hc_now c'"
  by (auto simp: setup_with_mode_def split: prod.splits sum.splits dest!: send_measured_request)

lemma pir_call_request:
  assumes "pir_call deadline f pe = (r, pe')"
    and "\<And>r' c'. f (pe_pir pe) = (r', c') \<Longrightarrow>
      hc_base c' = hc_base (pe_pir pe) \<and> hc_sent c' = hc_sent (pe_pir pe) @ [req] \<and> hc_now (pe_pir pe) \<le> hc_now c'"
  shows "\<exists>c. pe' = pe\<lparr> pe_pir := c \<rparr> \<and> one_request deadline req (pe_pir pe) c"
proof -
  obtain r' c' where f: "f (pe_pir pe) = (r', c')" by (cases "f (pe_pir pe)")
  obtain x c where a: "awaited deadline (pe_pir pe) (r', c') = (x, c)" by (cases "awaited deadline (pe_pir pe) (r', c')")
  show ?thesis using assms(1) awaited_one_request[OF a assms(2)[OF f]] by (auto simp: pir_call_def f a)
qed

lemma private_head_request:
  "private_head rx deadline pe = (r, pe') \<Longrightarrow>
   \<exists>c. pe' = pe\<lparr> pe_pir := c \<rparr> \<and> one_request deadline (GetReq (hc_base (pe_pir pe) @ ''/head'')) (pe_pir pe) c"
  unfolding private_head_def by (erule pir_call_request, erule client_head_request)

lemma setup_call_request:
  "pir_call deadline (setup_with_mode ext) pe = (r, pe') \<Longrightarrow>
   \<exists>c. pe' = pe\<lparr> pe_pir := c \<rparr> \<and> one_request deadline (setup_request_of (pe_pir pe)) (pe_pir pe) c"
  by (erule pir_call_request, erule setup_with_mode_request)

lemma mode_call_request:
  "pir_call deadline (client_mode ext) pe = (r, pe') \<Longrightarrow>
   \<exists>c. pe' = pe\<lparr> pe_pir := c \<rparr> \<and> one_request deadline (GetReq (hc_base (pe_pir pe) @ ''/mode'')) (pe_pir pe) c"
  by (erule pir_call_request, erule client_mode_request)

definition sync_call :: "('p, 'st) rpc_ext \<Rightarrow> nat option \<Rightarrow> u64 \<Rightarrow> 'st private_eth
    \<Rightarrow> (call_end + block_delta option) \<times> 'st private_eth" where
  "sync_call rx deadline target pe =
     (let se = pe_session pe in
      pir_call deadline
        (client_sync (re_http rx) (se_pending_head se) target (se_epoch se) (se_plaintext_bits se) (of_nat (se_arity se))) pe)"

lemma sync_call_request:
  "sync_call rx deadline target pe = (r, pe') \<Longrightarrow>
   \<exists>c. pe' = pe\<lparr> pe_pir := c \<rparr> \<and> one_request deadline (GetReq (hc_base (pe_pir pe) @ ''/sync?'' @
     sync_query (se_pending_head (pe_session pe)) target (se_epoch (pe_session pe)))) (pe_pir pe) c"
  unfolding sync_call_def Let_def by (erule pir_call_request, erule client_sync_request)

text \<open>What a catch-up does, by its outcome.\<close>

lemma sync_to_cases:
  assumes "sync_to rx deadline target (pe, sink) = (r, pe', sink')"
  obtains (level) "target \<le> se_pending_head (pe_session pe)" "r = Inr ()" "pe' = pe" "sink' = sink"
  | (failed) e where "se_pending_head (pe_session pe) < target" "sync_call rx deadline target pe = (Inl e, pe')" "r = Inl e" "sink' = sink"
  | (refused) "se_pending_head (pe_session pe) < target" "sync_call rx deadline target pe = (Inr None, pe')"
      "r = Inl (Failed Stalled)" "sink' = sink"
  | (rejected) d pe1 e cl where "se_pending_head (pe_session pe) < target" "sync_call rx deadline target pe = (Inr (Some d), pe1)"
      "ingest_delta (se_client (pe_session pe)) d = (Inl e, cl)" "r = Inl (Failed (ClientFailed e))"
      "pe' = on_session (\<lambda>se. se\<lparr> se_client := cl \<rparr>) pe1" "sink' = sink"
  | (ingested) d pe1 cl where "se_pending_head (pe_session pe) < target" "sync_call rx deadline target pe = (Inr (Some d), pe1)"
      "ingest_delta (se_client (pe_session pe)) d = (Inr (), cl)" "r = Inr ()"
      "pe' = on_session (\<lambda>se. se\<lparr> se_client := cl, se_pending_head := delta_block d \<rparr>) pe1"
      "sink' = map_option (\<lambda>t. t\<lparr> bt_sync := bt_sync t @ [sync_row rx (se_pending_head (pe_session pe))
         (case sink of None \<Rightarrow> None | Some _ \<Rightarrow> hc_sink (pe_pir pe)) d pe'] \<rparr>) sink"
proof (cases "target \<le> se_pending_head (pe_session pe)")
  case True
  then have "r = Inr () \<and> pe' = pe \<and> sink' = sink" using assms by (auto simp: sync_to_def)
  then show thesis using level True by blast
next
  case False
  then have lt: "se_pending_head (pe_session pe) < target" by simp
  obtain x pe1 where c: "sync_call rx deadline target pe = (x, pe1)" by (cases "sync_call rx deadline target pe")
  note st = assms[unfolded sync_to_def Let_def prod.case, folded sync_call_def[unfolded Let_def], unfolded c] and c' = c
  show thesis
  proof (cases x)
    case (Inl e)
    then show thesis using st lt False failed[OF lt, of e] c by simp
  next
    case (Inr y)
    show thesis
    proof (cases y)
      case None
      then show thesis using st lt False refused[OF lt] c Inr by simp
    next
      case (Some d)
      obtain u cl where i: "ingest_delta (se_client (pe_session pe)) d = (u, cl)" by (cases "ingest_delta (se_client (pe_session pe)) d")
      show thesis
      proof (cases u)
        case (Inl e)
        then show thesis using st lt False rejected[OF lt, of d pe1 e cl] c Inr Some i by simp
      next
        case (Inr v)
        then show thesis using st lt False ingested[OF lt, of d pe1 cl] c \<open>x = Inr y\<close> Some i by (auto simp: on_timings_def)
      qed
    qed
  qed
qed

abbreviation with_query :: "'st rise_client \<Rightarrow> 'st private_eth \<Rightarrow> 'st private_eth" where
  "with_query cl pe \<equiv> on_session (\<lambda>se. se\<lparr> se_client := cl \<rparr>) pe"

text \<open>The same for an attempt, by how far it comes.\<close>

lemma try_get_balance_cases:
  assumes "try_get_balance rx deadline key (pe, sink) = Some (r, pe', sink')"
  obtains (no_head) e where "private_head rx deadline pe = (Inl e, pe')" "r = Inl e"
  | (no_sync) head pe1 e where "private_head rx deadline pe = (Inr head, pe1)"
      "sync_to rx deadline head (pe1, sink) = (Inl e, pe', sink')" "r = Inl e"
  | (no_answer) head pe1 pe2 sink2 qs ctx cl sink3 e where "private_head rx deadline pe = (Inr head, pe1)"
      "sync_to rx deadline head (pe1, sink) = (Inr (), pe2, sink2)"
      "build_query (re_be rx) (se_client (pe_session pe2)) key = Some (qs, ctx, cl)"
      "answer_call rx deadline qs (with_query cl pe2, sink3) = Some (Inl e, pe', sink')" "r = Inl e"
  | (no_second) head pe1 pe2 sink2 qs ctx cl sink3 resp at_block pe3 sink4 e where "private_head rx deadline pe = (Inr head, pe1)"
      "sync_to rx deadline head (pe1, sink) = (Inr (), pe2, sink2)"
      "build_query (re_be rx) (se_client (pe_session pe2)) key = Some (qs, ctx, cl)"
      "answer_call rx deadline qs (with_query cl pe2, sink3) = Some (Inr (resp, at_block), pe3, sink4)"
      "sync_to rx deadline at_block (pe3, sink4) = (Inl e, pe', sink')" "r = Inl e"
  | (finished) head pe1 pe2 sink2 qs ctx cl sink3 resp at_block pe3 sink4 sink5 outcome where "private_head rx deadline pe = (Inr head, pe1)"
      "sync_to rx deadline head (pe1, sink) = (Inr (), pe2, sink2)"
      "build_query (re_be rx) (se_client (pe_session pe2)) key = Some (qs, ctx, cl)"
      "answer_call rx deadline qs (with_query cl pe2, sink3) = Some (Inr (resp, at_block), pe3, sink4)"
      "sync_to rx deadline at_block (pe3, sink4) = (Inr (), pe', sink5)"
      "finish (re_xxh3 rx) (re_be rx) (se_client (pe_session pe')) key ctx resp at_block = Some outcome"
      "r = (case outcome of Inl e \<Rightarrow> Inl (Failed (finish_error e))
        | Inr l \<Rightarrow> map_err Failed (lookup_balance (se_strict_not_found (pe_session pe')) l))"
proof -
  obtain x pe1 where h: "private_head rx deadline pe = (x, pe1)" by (cases "private_head rx deadline pe")
  note st = assms[unfolded try_get_balance_def fst_conv snd_conv h prod.case and_then_call_def option.case]
  show thesis
  proof (cases x)
    case (Inl e)
    then show thesis using st h no_head by simp
  next
    case (Inr head)
    note h = h[unfolded Inr] and st = st[unfolded Inr prod.case sum.case]
    obtain y pe2 sink2 where s: "sync_to rx deadline head (pe1, sink) = (y, pe2, sink2)" by (cases "sync_to rx deadline head (pe1, sink)")
    note st = st[unfolded s prod.case]
    show thesis
    proof (cases y)
      case (Inl e)
      then show thesis using st h s no_sync by simp
    next
      case (Inr u)
      have s: "sync_to rx deadline head (pe1, sink) = (Inr (), pe2, sink2)" using s Inr by simp
      note st = st[unfolded Inr sum.case fst_conv snd_conv]
      from st obtain qs ctx cl where b: "build_query (re_be rx) (se_client (pe_session pe2)) key = Some (qs, ctx, cl)"
        by (auto simp: bind_eq_Some_conv)
      define sink3 where "sink3 = map_option (\<lambda>t. t\<lparr> bt_build := re_build_ns rx (hc_sent (pe_pir (with_query cl pe2))) \<rparr>) sink2"
      note st = st[unfolded b bind.bind_lunit prod.case Let_def on_timings_def fst_conv snd_conv, folded sink3_def]
      from st obtain z pe3 sink4 where a: "answer_call rx deadline qs (with_query cl pe2, sink3) = Some (z, pe3, sink4)"
        by (auto split: option.splits)
      note st = st[unfolded a option.case prod.case]
      show thesis
      proof (cases z)
        case (Inl e)
        then show thesis using st h s b a no_answer by simp
      next
        case (Inr ra)
        obtain resp at_block where ra: "ra = (resp, at_block)" by (cases ra)
        note a = a[unfolded Inr ra] and st = st[unfolded Inr ra sum.case prod.case]
        obtain w pe4 sink5 where s2: "sync_to rx deadline at_block (pe3, sink4) = (w, pe4, sink5)"
          by (cases "sync_to rx deadline at_block (pe3, sink4)")
        note st = st[unfolded s2 prod.case]
        show thesis
        proof (cases w)
          case (Inl e)
          then show thesis using st h s b a s2 no_second by simp
        next
          case (Inr v)
          have s2: "sync_to rx deadline at_block (pe3, sink4) = (Inr (), pe4, sink5)" using s2 Inr by simp
          note st = st[unfolded Inr sum.case fst_conv snd_conv]
          from st obtain outcome where f: "finish (re_xxh3 rx) (re_be rx) (se_client (pe_session pe4)) key ctx resp at_block = Some outcome"
            by (auto simp: bind_eq_Some_conv)
          have p: "pe' = pe4" and res: "r = (case outcome of Inl e \<Rightarrow> Inl (Failed (finish_error e))
              | Inr l \<Rightarrow> map_err Failed (lookup_balance (se_strict_not_found (pe_session pe4)) l))"
            using st by (auto simp: f split: sum.splits)
          show thesis by (rule finished[OF h s b a]) (simp_all only: p s2 f res)
        qed
      qed
    qed
  qed
qed

lemma follow_once_cases:
  assumes "follow_once rx deadline pe = (r, pe')"
  obtains (no_head) e where "private_head rx deadline pe = (Inl e, pe')"
  | (level) head where "private_head rx deadline pe = (Inr head, pe')"
  | (synced) head pe1 x sink where "private_head rx deadline pe = (Inr head, pe1)"
      "sync_to rx deadline head (pe1, Some default_timings) = (x, pe', sink)"
proof -
  obtain x pe1 where h: "private_head rx deadline pe = (x, pe1)" by (cases "private_head rx deadline pe")
  show thesis
  proof (cases x)
    case (Inl e)
    then show thesis using assms h no_head by (simp add: follow_once_def)
  next
    case (Inr head)
    obtain y pe2 sink where s: "sync_to rx deadline head (pe1, Some default_timings) = (y, pe2, sink)"
      by (cases "sync_to rx deadline head (pe1, Some default_timings)")
    show thesis using assms h Inr level[of head] synced[of head pe1 y sink] s
      by (auto simp: follow_once_def split: if_splits sum.splits)
  qed
qed

lemma get_balance_cases:
  assumes "get_balance rx deadline addr pe = Some (r, pe')"
  obtains (first) sink where "try_get_balance rx deadline (re_keccak rx addr) (pe, None) = Some (r, pe', sink)"
  | (failed) pe1 sink1 pe2 e where "try_get_balance rx deadline (re_keccak rx addr) (pe, None) = Some (Inl (Failed Stalled), pe1, sink1)"
      "take_rebootstrap_slot pe1 = (True, pe2)" "rebootstrap rx deadline pe2 = (Inl e, pe')" "r = Inl e"
  | (again) pe1 sink1 pe2 pe3 sink3 sink where
      "try_get_balance rx deadline (re_keccak rx addr) (pe, None) = Some (Inl (Failed Stalled), pe1, sink1)"
      "take_rebootstrap_slot pe1 = (True, pe2)" "rebootstrap rx deadline pe2 = (Inr (), pe3)"
      "try_get_balance rx deadline (re_keccak rx addr) (pe3, sink3) = Some (r, pe', sink)"
proof -
  from assms obtain sink where g: "get_balance_inner rx deadline addr (pe, None) = Some (r, pe', sink)"
    by (auto simp: get_balance_def)
  then obtain x pe1 sink1 where t: "try_get_balance rx deadline (re_keccak rx addr) (pe, None) = Some (x, pe1, sink1)"
    by (auto simp: get_balance_inner_def on_timings_def Let_def bind_eq_Some_conv)
  note st = g[unfolded get_balance_inner_def on_timings_def Let_def fst_conv snd_conv option.map t bind.bind_lunit prod.case]
  show thesis
  proof (cases "x = Inl (Failed Stalled)")
    case False
    then show thesis using st first[of sink1] t by simp
  next
    case True
    note st = st[unfolded True simp_thms if_True] and t = t[unfolded True]
    obtain ok pe2 where s: "take_rebootstrap_slot pe1 = (ok, pe2)" by fastforce
    show thesis
    proof (cases ok)
      case False
      then show thesis using st first[of sink1] t s by simp
    next
      case True
      obtain y pe3 where b: "rebootstrap rx deadline pe2 = (y, pe3)" by fastforce
      show thesis using st t s True b failed[of pe1 sink1 pe2] again[of pe1 sink1 pe2 pe3 _ sink]
        by (cases y) (auto simp: and_then_call_def)
    qed
  qed
qed

text \<open>A relation between the states of a call and the number of requests between them.  Whoever
  shows that the steps of a call respect it learns that every operation does.\<close>

locale call_relation =
  fixes rx :: "('p, 'st) rpc_ext" and deadline :: "nat option"
    and R :: "nat \<Rightarrow> 'st private_eth \<Rightarrow> 'st private_eth \<Rightarrow> bool"
  assumes R_refl: "R 0 pe pe"
    and R_trans: "R m a b \<Longrightarrow> R n b c \<Longrightarrow> R (m + n) a c"
    and R_request: "one_request deadline req (pe_pir pe) pir \<Longrightarrow> req \<noteq> setup_request_of (pe_pir pe) \<Longrightarrow> R 1 pe (pe\<lparr> pe_pir := pir \<rparr>)"
    and R_ingested: "ingest_delta (se_client (pe_session pe)) d = (Inr u, cl) \<Longrightarrow>
      R 0 pe (on_session (\<lambda>se. se\<lparr> se_client := cl, se_pending_head := delta_block d \<rparr>) pe)"
    and R_rejected: "ingest_delta (se_client (pe_session pe)) d = (Inl e, cl) \<Longrightarrow>
      R 0 pe (on_session (\<lambda>se. se\<lparr> se_client := cl \<rparr>) pe)"
    and R_query: "build_query (re_be rx) (se_client (pe_session pe)) key = Some (qs, ctx, cl) \<Longrightarrow>
      R 0 pe (on_session (\<lambda>se. se\<lparr> se_client := cl \<rparr>) pe)"
    and R_recover: "take_rebootstrap_slot pe = (True, pe1) \<Longrightarrow> rebootstrap rx deadline pe1 = (r, pe2) \<Longrightarrow>
      \<exists>n \<le> 2. R n pe pe2"
begin

lemma request_related:
  assumes "one_request deadline req (pe_pir pe) c" and "req \<noteq> setup_request_of (pe_pir pe)"
  shows "\<exists>n \<le> 1. R n pe (pe\<lparr> pe_pir := c \<rparr>)"
  using R_request[OF assms] by blast

lemma related_trans: "\<exists>n \<le> i. R n a b \<Longrightarrow> \<exists>n \<le> j. R n b c \<Longrightarrow> i + j = k \<Longrightarrow> \<exists>n \<le> k. R n a c"
  using R_trans by (metis add_le_mono)

lemma head_related:
  assumes "private_head rx deadline pe = (r, pe')"
  shows "\<exists>n \<le> 1. R n pe pe'"
  using private_head_request[OF assms] request_related by fastforce

lemma sync_to_related:
  assumes "sync_to rx deadline target (pe, sink) = (r, pe', sink')"
  shows "\<exists>n \<le> 1. R n pe pe'"
proof -
  have one: "\<exists>n \<le> 1. R n pe pe1" if "sync_call rx deadline target pe = (x, pe1)" for x pe1
    using sync_call_request[OF that] request_related by fastforce
  have same: "pe_session pe1 = pe_session pe" if "sync_call rx deadline target pe = (x, pe1)" for x pe1
    using sync_call_request[OF that] by fastforce
  from assms show ?thesis
  proof (cases rule: sync_to_cases)
    case level
    then show ?thesis using R_refl by blast
  next
    case (rejected d pe1 e cl)
    have "R 0 pe1 pe'" unfolding rejected(5) by (rule R_rejected) (use rejected(3) same[OF rejected(2)] in simp)
    then have "\<exists>n \<le> 0. R n pe1 pe'" by blast
    then show ?thesis by (rule related_trans[OF one[OF rejected(2)]]) simp
  next
    case (ingested d pe1 cl)
    have "R 0 pe1 pe'" unfolding ingested(5) by (rule R_ingested) (use ingested(3) same[OF ingested(2)] in simp)
    then have "\<exists>n \<le> 0. R n pe1 pe'" by blast
    then show ?thesis by (rule related_trans[OF one[OF ingested(2)]]) simp
  qed (use one in blast)+
qed

lemma weaken: "\<exists>n \<le> i. R n a b \<Longrightarrow> i \<le> j \<Longrightarrow> \<exists>n \<le> j. R n a b"
  using le_trans by blast

lemma follow_related:
  assumes "follow_once rx deadline pe = (r, pe')"
  shows "\<exists>n \<le> 2. R n pe pe'"
  using assms
proof (cases rule: follow_once_cases)
  case (synced head pe1 x sink)
  show ?thesis by (rule related_trans[OF head_related[OF synced(1)] sync_to_related[OF synced(2)]]) simp
qed (auto intro: weaken[OF head_related])

lemma answer_related:
  assumes "answer_call rx deadline queries (pe, sink) = Some (r, pe', sink')"
  shows "\<exists>n \<le> 1. R n pe pe'"
proof -
  from assms obtain x c1 where a: "client_answer (re_http rx) queries (se_epoch (pe_session pe)) (se_widths (pe_session pe))
      (se_arity (pe_session pe)) (pe_pir pe) = Some (x, c1)"
    by (auto simp: answer_call_def Let_def bind_eq_Some_conv)
  obtain y c where w: "awaited deadline (pe_pir pe) (x, c1) = (y, c)" by (cases "awaited deadline (pe_pir pe) (x, c1)")
  from client_answer_request[OF a] obtain body where
    "one_request deadline (PostReq (hc_base (pe_pir pe) @ ''/answer?epoch='' @ se_epoch (pe_session pe)) body) (pe_pir pe) c"
    using awaited_one_request[OF w] by blast
  then show ?thesis using assms request_related by (auto simp: answer_call_def Let_def a w)
qed

lemma try_related:
  assumes "try_get_balance rx deadline key (pe, sink) = Some (r, pe', sink')"
  shows "\<exists>n \<le> 4. R n pe pe'"
proof -
  have two: "\<exists>n \<le> 2. R n pe pe2"
    if "private_head rx deadline pe = (x, pe1)" "sync_to rx deadline head (pe1, sink) = (y, pe2, sink2)" for x pe1 head y pe2 sink2
    by (rule related_trans[OF head_related[OF that(1)] sync_to_related[OF that(2)]]) simp
  have three: "\<exists>n \<le> 3. R n pe pe3"
    if "private_head rx deadline pe = (x, pe1)" "sync_to rx deadline head (pe1, sink) = (y, pe2, sink2)"
      "build_query (re_be rx) (se_client (pe_session pe2)) key = Some (qs, ctx, cl)"
      "answer_call rx deadline qs (with_query cl pe2, sink3) = Some (z, pe3, sink4)"
    for x pe1 head y pe2 sink2 qs ctx cl sink3 z pe3 sink4
  proof -
    have "\<exists>n \<le> 2. R n pe (with_query cl pe2)" using related_trans[OF two[OF that(1,2)], of 0 _ 2] R_query[OF that(3)] by auto
    then show ?thesis by (rule related_trans[OF _ answer_related[OF that(4)]]) simp
  qed
  have four: "\<exists>n \<le> 4. R n pe pe4" if "\<exists>n \<le> 3. R n pe pe3" "sync_to rx deadline at_block (pe3, sink4) = (w, pe4, sink5)"
    for pe3 sink4 at_block w pe4 sink5
    by (rule related_trans[OF that(1) sync_to_related[OF that(2)]]) simp
  from assms show ?thesis
  proof (cases rule: try_get_balance_cases)
    case no_head
    then show ?thesis by (intro weaken[OF head_related]) auto
  next
    case no_sync
    then show ?thesis by (intro weaken[OF two]) auto
  next
    case no_answer
    then show ?thesis by (intro weaken[OF three]) auto
  next
    case no_second
    then show ?thesis by (intro four[OF three]) auto
  next
    case finished
    then show ?thesis by (intro four[OF three]) auto
  qed
qed

lemma get_balance_related:
  assumes "get_balance rx deadline addr pe = Some (r, pe')"
  shows "\<exists>n \<le> 10. R n pe pe'"
proof -
  have two: "\<exists>n \<le> 6. R n pe pe3" if "try_get_balance rx deadline key (pe, None) = Some (x, pe1, sink1)"
      "take_rebootstrap_slot pe1 = (True, pe2)" "rebootstrap rx deadline pe2 = (y, pe3)" for key x pe1 sink1 pe2 pe3 y
    by (rule related_trans[OF try_related[OF that(1)] R_recover[OF that(2,3)]]) simp
  from assms show ?thesis
  proof (cases rule: get_balance_cases)
    case (first sink)
    then show ?thesis by (intro weaken[OF try_related]) auto
  next
    case (failed pe1 sink1 pe2 e)
    then show ?thesis by (intro weaken[OF two]) auto
  next
    case (again pe1 sink1 pe2 pe3 sink3 sink)
    show ?thesis by (rule related_trans[OF two[OF again(1-3)] try_related[OF again(4)]]) simp
  qed
qed

end

section \<open>Requests and time\<close>

lemma pir_call_same:
  "pir_call deadline f pe = (r, pe') \<Longrightarrow> \<exists>c. pe' = pe\<lparr> pe_pir := c \<rparr>"
  by (auto simp: pir_call_def split: prod.splits)

lemma take_slot_cases:
  assumes "take_rebootstrap_slot pe = (True, pe1)"
  shows "pe1 = pe\<lparr> pe_last_rebootstrap := Some (hc_now (pe_pir pe)) \<rparr> \<and>
    (\<forall>prev. pe_last_rebootstrap pe = Some prev \<longrightarrow> rebootstrap_cooldown \<le> hc_now (pe_pir pe) - prev)"
  using assms by (auto simp: take_rebootstrap_slot_def Let_def split: option.splits if_splits)

lemma rebootstrap_cases:
  assumes "rebootstrap rx deadline pe = (r, pe')"
  obtains (no_setup) e where "pir_call deadline (setup_with_mode (re_http rx)) pe = (Inl e, pe')" "r = Inl e"
  | (sent) b m pe1 where "pir_call deadline (setup_with_mode (re_http rx)) pe = (Inr (b, Some m), pe1)" "r = Inr ()"
      "pe' = on_session (\<lambda>_. session_from_bundle rx b (pe_value_codec pe1) m) pe1"
  | (no_mode) b pe1 e where "pir_call deadline (setup_with_mode (re_http rx)) pe = (Inr (b, None), pe1)"
      "pir_call deadline (client_mode (re_http rx)) pe1 = (Inl e, pe')" "r = Inl e"
  | (asked) b pe1 m pe2 where "pir_call deadline (setup_with_mode (re_http rx)) pe = (Inr (b, None), pe1)"
      "pir_call deadline (client_mode (re_http rx)) pe1 = (Inr m, pe2)" "r = Inr ()"
      "pe' = on_session (\<lambda>_. session_from_bundle rx b (pe_value_codec pe2) m) pe2"
proof -
  obtain x pe1 where s: "pir_call deadline (setup_with_mode (re_http rx)) pe = (x, pe1)" by fastforce
  obtain y pe2 where m: "pir_call deadline (client_mode (re_http rx)) pe1 = (y, pe2)" by fastforce
  show thesis
    using assms s m no_setup[of "projl x"] sent[of "fst (projr x)" "the (snd (projr x))" pe1]
      no_mode[of "fst (projr x)" pe1 "projl y"] asked[of "fst (projr x)" pe1 "projr y" pe2]
    by (auto simp: rebootstrap_def split: sum.splits option.splits)
qed

text \<open>The cost of a call: its requests, and that the clock moves, but not beyond the deadline.\<close>

definition costs :: "nat option \<Rightarrow> nat \<Rightarrow> 'st private_eth \<Rightarrow> 'st private_eth \<Rightarrow> bool" where
  "costs deadline n pe pe' \<longleftrightarrow> hc_base (pe_pir pe') = hc_base (pe_pir pe) \<and> pe_value_codec pe' = pe_value_codec pe \<and>
     pe_chain_id pe' = pe_chain_id pe \<and> pe_proxy_upstream pe' = pe_proxy_upstream pe \<and>
     (\<exists>reqs. hc_sent (pe_pir pe') = hc_sent (pe_pir pe) @ reqs \<and> length reqs = n) \<and>
     hc_now (pe_pir pe) \<le> hc_now (pe_pir pe') \<and>
     (\<forall>d. deadline = Some d \<longrightarrow> hc_now (pe_pir pe') \<le> max (hc_now (pe_pir pe)) d)"

lemma on_session_fields [simp]:
  "pe_pir (on_session f pe) = pe_pir pe" "pe_value_codec (on_session f pe) = pe_value_codec pe"
  "pe_last_rebootstrap (on_session f pe) = pe_last_rebootstrap pe" "pe_chain_id (on_session f pe) = pe_chain_id pe"
  "pe_proxy_upstream (on_session f pe) = pe_proxy_upstream pe" "pe_session (on_session f pe) = f (pe_session pe)"
  by (simp_all add: on_session_def)

lemma costs_trans: "costs d m a b \<Longrightarrow> costs d n b c \<Longrightarrow> costs d (m + n) a c"
  unfolding costs_def by (force simp: max_def)

lemma costs_request: "one_request d req (pe_pir pe) c \<Longrightarrow> costs d 1 pe (pe\<lparr> pe_pir := c \<rparr>)"
  by (simp add: costs_def one_request_def)

lemma rebootstrap_costs:
  assumes "rebootstrap rx d pe = (r, pe')"
  shows "\<exists>n \<le> 2. costs d n pe pe'"
proof -
  have s: "costs d 1 pe pe1" if "pir_call d (setup_with_mode (re_http rx)) pe = (x, pe1)" for x pe1
    using setup_call_request[OF that] costs_request by blast
  have m: "costs d 1 pe1 pe2" if "pir_call d (client_mode (re_http rx)) pe1 = (y, pe2)" for pe1 y pe2
    using mode_call_request[OF that] costs_request by blast
  have same: "costs d n pe (on_session f pe1) = costs d n pe pe1" for n f pe1 by (simp add: costs_def)
  from assms show ?thesis
  proof (cases rule: rebootstrap_cases)
    case (no_mode b pe1 e)
    then show ?thesis using costs_trans[OF s m, of _ pe1 _ pe'] by (intro exI[of _ 2]) (simp add: numeral_2_eq_2)
  next
    case (asked b pe1 mo pe2)
    then show ?thesis using costs_trans[OF s m, of _ pe1 _ pe2] by (intro exI[of _ 2]) (simp add: same numeral_2_eq_2)
  qed (use s same in \<open>auto intro!: exI[of _ "1 :: nat"]\<close>)
qed

interpretation cost: call_relation rx deadline "costs deadline" for rx :: "('p, 'st) rpc_ext" and deadline
proof
  show "costs deadline 0 pe pe" for pe :: "'st private_eth" by (simp add: costs_def)
  show "costs deadline m a b \<Longrightarrow> costs deadline n b c \<Longrightarrow> costs deadline (m + n) a c" for m n and a b c :: "'st private_eth"
    by (rule costs_trans)
  show "costs deadline 1 pe (pe\<lparr> pe_pir := pir \<rparr>)" if "one_request deadline req (pe_pir pe) pir" for req pir and pe :: "'st private_eth"
    using that by (rule costs_request)
  show "\<exists>n \<le> 2. costs deadline n pe pe2"
    if "take_rebootstrap_slot pe = (True, pe1)" "rebootstrap rx deadline pe1 = (r, pe2)" for pe pe1 pe2 :: "'st private_eth" and r
    using rebootstrap_costs[OF that(2)] take_slot_cases[OF that(1)] by (auto simp: costs_def)
qed (simp_all add: costs_def)

section \<open>Runs\<close>

text \<open>Lookups and follow steps with any deadline, reads of the head, and waiting.\<close>

inductive eth_run :: "('p, 'st) rpc_ext \<Rightarrow> 'st private_eth \<Rightarrow> 'st private_eth \<Rightarrow> bool" for rx and pe where
  run_start: "eth_run rx pe pe"
| run_lookup: "eth_run rx pe pe1 \<Longrightarrow> get_balance rx deadline addr pe1 = Some (r, pe2) \<Longrightarrow> eth_run rx pe pe2"
| run_follow: "eth_run rx pe pe1 \<Longrightarrow> follow_once rx deadline pe1 = (f, pe2) \<Longrightarrow> eth_run rx pe pe2"
| run_head: "eth_run rx pe pe1 \<Longrightarrow> private_head rx deadline pe1 = (h, pe2) \<Longrightarrow> eth_run rx pe pe2"
| run_wait: "eth_run rx pe pe1 \<Longrightarrow> hc_now (pe_pir pe1) \<le> t \<Longrightarrow> eth_run rx pe (pe1\<lparr> pe_pir := (pe_pir pe1)\<lparr> hc_now := t \<rparr> \<rparr>)"

text \<open>A predicate that every step of every call keeps.\<close>

locale call_invariant =
  fixes rx :: "('p, 'st) rpc_ext" and I :: "'st private_eth \<Rightarrow> bool"
  assumes I_steps: "call_relation rx deadline (\<lambda>_ a b. I a \<longrightarrow> I b)"
    and I_wait: "I pe \<Longrightarrow> hc_now (pe_pir pe) \<le> t \<Longrightarrow> I (pe\<lparr> pe_pir := (pe_pir pe)\<lparr> hc_now := t \<rparr> \<rparr>)"
begin

lemma lookup_keeps: "get_balance rx deadline addr pe = Some (r, pe') \<Longrightarrow> I pe \<Longrightarrow> I pe'"
  using call_relation.get_balance_related[OF I_steps] by blast

lemma run_keeps: "eth_run rx pe pe' \<Longrightarrow> I pe \<Longrightarrow> I pe'"
proof (induction rule: eth_run.induct)
  case (run_follow pe1 deadline f pe2)
  then show ?case using call_relation.follow_related[OF I_steps] by blast
next
  case (run_head pe1 deadline h pe2)
  then show ?case using call_relation.head_related[OF I_steps] by blast
qed (auto intro: lookup_keeps I_wait)

end

section \<open>Sessions\<close>

lemma ingest_keeps_shape:
  assumes "ingest p d = (r, p')" and "pending_invar p"
  shows "pending_invar p' \<and> length (pd_per_segment p') = length (pd_per_segment p)"
proof -
  have c: "pending_map_invar m \<Longrightarrow> ingest_cells row cs m = (u, m') \<Longrightarrow> pending_map_invar m'" for row cs m u m'
    by (induction row cs m rule: ingest_cells.induct) (auto simp: pending_map_facts split: option.splits if_splits)
  have rs: "pending_map_invar m \<Longrightarrow> ingest_rows rs m = (u, m') \<Longrightarrow> pending_map_invar m'" for rs m u m'
    by (induction rs m rule: ingest_rows.induct) (auto split: prod.splits sum.splits dest: c)
  have s: "\<forall>m \<in> set ms. pending_map_invar m \<Longrightarrow> i + length segs \<le> length ms \<Longrightarrow> ingest_segments segs i ms = (u, ms') \<Longrightarrow>
      (\<forall>m \<in> set ms'. pending_map_invar m) \<and> length ms' = length ms" for segs i ms u ms'
  proof (induction segs i ms rule: ingest_segments.induct)
    case (2 rows segs seg ms)
    obtain v m' where r: "ingest_rows rows (ms ! seg) = (v, m')" by fastforce
    have "pending_map_invar m'" using rs[OF _ r] 2(2,3) by auto
    then have k: "\<forall>m \<in> set (ms[seg := m']). pending_map_invar m" using 2(2) set_update_subset_insert[of ms seg m'] by auto
    then show ?case using 2(1)[OF r[symmetric]] 2(3,4) r by (cases v) auto
  qed simp
  obtain u ms where g: "ingest_segments (per_segment d) 0 (pd_per_segment p) = (u, ms)" by fastforce
  have k: "length (per_segment d) = length (pd_per_segment p) \<Longrightarrow> (\<forall>m \<in> set ms. pending_map_invar m) \<and> length ms = length (pd_per_segment p)"
    using s[OF _ _ g] assms(2) by (simp add: pending_invar_def)
  show ?thesis using assms k by (cases u) (auto simp: ingest_def pending_invar_def g split: if_splits)
qed

text \<open>A session is the one derived from a bundle and a mode, caught up to its pending head.\<close>

definition session_of :: "('p, 'st) rpc_ext \<Rightarrow> value_codec \<Rightarrow> 'p wire_bundle \<Rightarrow> bool \<Rightarrow> 'st session \<Rightarrow> bool" where
  "session_of rx vc b complete se \<longleftrightarrow>
     rc_params (se_client se) = re_params rx (wb_params b) \<and> rc_pinned_block (se_client se) = wb_block b \<and>
     rc_value_codec (se_client se) = vc \<and> se_arity se = cp_arity (re_params rx (wb_params b)) \<and>
     se_plaintext_bits se = cf_plaintext_bits (wb_params b) \<and>
     se_widths se = map sp_reshape_row_width (wb_backend_params b) \<and>
     se_epoch se = lineage_epoch (re_keccak rx) (hx_lib (re_http rx)) (wb_backend_params b) \<and>
     se_strict_not_found se = (\<not> complete) \<and>
     pd_head (rc_delta (se_client se)) = se_pending_head se \<and> wb_block b \<le> se_pending_head se \<and>
     pending_invar (rc_delta (se_client se)) \<and> length (pd_per_segment (rc_delta (se_client se))) = se_arity se"

text \<open>Where the bundle and the mode came from: one \<open>/setup\<close> reply, or, when that reply named
  no mode, the reply and the \<open>/mode\<close> request right after it.\<close>

definition bundle_received :: "('p, 'st) rpc_ext \<Rightarrow> string \<Rightarrow> request list \<Rightarrow> 'p wire_bundle \<Rightarrow> bool \<Rightarrow> bool" where
  "bundle_received rx base log b m \<longleftrightarrow> (\<exists>pre post resp bs.
     log = pre @ GetReq (base @ ''/setup'') # post \<and>
     hx_net (re_http rx) pre (GetReq (base @ ''/setup'')) = Inr resp \<and> ok_body resp max_setup_body_bytes = Inr bs \<and>
     decode_setup (hx_lib (re_http rx)) bs = Inr b \<and>
     (header_mode (rp_headers resp) = Inr (Some m) \<or>
      header_mode (rp_headers resp) = Inr None \<and> (\<exists>rest resp'. post = GetReq (base @ ''/mode'') # rest \<and>
        hx_net (re_http rx) (pre @ [GetReq (base @ ''/setup'')]) (GetReq (base @ ''/mode'')) = Inr resp' \<and>
        ok_body resp' max_tiny_body_bytes = Inr [if m then 1 else 0])))"

definition session_ok :: "('p, 'st) rpc_ext \<Rightarrow> 'p wire_bundle \<Rightarrow> bool \<Rightarrow> 'st private_eth \<Rightarrow> bool" where
  "session_ok rx b0 m0 pe \<longleftrightarrow> (\<exists>b m. session_of rx (pe_value_codec pe) b m (pe_session pe) \<and>
     (b = b0 \<and> m = m0 \<or> bundle_received rx (hc_base (pe_pir pe)) (hc_sent (pe_pir pe)) b m))"

lemma session_from_bundle_ok: "session_of rx vc b m (session_from_bundle rx b vc m)"
  by (simp add: session_of_def session_from_bundle_def from_setup_def client_bundle_def pending_new_invar pending_new_def)
     (simp add: pending_invar_def)

lemma session_of_ingest:
  assumes "session_of rx vc b m se" and "ingest_delta (se_client se) d = (r, cl)"
  shows "session_of rx vc b m (se\<lparr> se_client := cl, se_pending_head := (case r of Inl _ \<Rightarrow> se_pending_head se | Inr _ \<Rightarrow> delta_block d) \<rparr>)"
proof -
  obtain p where i: "ingest (rc_delta (se_client se)) d = (r, p)" and cl: "cl = (se_client se)\<lparr> rc_delta := p \<rparr>"
    using assms(2) by (auto simp: ingest_delta_def split: prod.splits)
  have inv: "pending_invar (rc_delta (se_client se))" using assms(1) by (simp add: session_of_def)
  note k = ingest_keeps_shape[OF i inv]
  show ?thesis
  proof (cases r)
    case (Inl e)
    have "pd_head p = pd_head (rc_delta (se_client se))" using ingest_failed(1) i Inl by blast
    then show ?thesis using assms(1) k Inl by (simp add: session_of_def cl)
  next
    case (Inr u)
    have "pd_head p = delta_block d" "pd_head (rc_delta (se_client se)) < delta_block d" using ingest_adds[OF _ inv] i Inr by blast+
    then show ?thesis using assms(1) k Inr by (auto simp: session_of_def cl)
  qed
qed

lemma build_query_same:
  assumes "build_query be c key = Some (qs, ctx, cl)"
  shows "rc_params cl = rc_params c \<and> rc_pinned_block cl = rc_pinned_block c \<and> rc_delta cl = rc_delta c \<and>
    rc_value_codec cl = rc_value_codec c \<and> ctx_queries ctx = qs"
  using assms by (auto simp: build_query_def split: prod.splits)

lemma query_segments_rows:
  "query_segments be indices segment_size j n sts = Some (sts', qs, rows) \<Longrightarrow>
   length qs = n \<and> length rows = n \<and> (0 < n \<longrightarrow> segment_size \<noteq> 0 \<and> j + n \<le> length indices) \<and>
   (\<forall>i < n. rows ! i = indices ! (j + i) mod segment_size)"
proof (induction n arbitrary: j sts sts' qs rows)
  case (Suc n)
  from Suc.prems obtain st' q qs' rows' where
    rest: "query_segments be indices segment_size (Suc j) n (sts[j := st']) = Some (sts', qs', rows')" and
    eq: "qs = q # qs'" "rows = (indices ! j mod segment_size) # rows'" and ok: "segment_size \<noteq> 0" "j < length indices"
    by (auto simp: bind_eq_Some_conv Let_def get_def split: if_splits prod.splits)
  note ih = Suc.IH[OF rest]
  have "rows ! i = indices ! (j + i) mod segment_size" if "i < Suc n" for i
    using that ih eq(2) by (cases i) auto
  then show ?case using ih eq ok by (cases n) auto
qed simp

lemma build_query_ctx:
  assumes "build_query be c key = Some (qs, ctx, cl)" and "0 < cp_arity (rc_params c)"
  shows "ctx_for (rc_params c) key ctx"
  using assms query_segments_rows[of be "snd (cp_candidate_buckets (rc_params c) key)" "cp_segment_size (rc_params c)" 0]
  by (fastforce simp: build_query_def ctx_for_def split: prod.splits)

lemma session_of_query:
  assumes "session_of rx vc b m se" and "build_query be (se_client se) key = Some (qs, ctx, cl)"
  shows "session_of rx vc b m (se\<lparr> se_client := cl \<rparr>)"
  using assms(1) build_query_same[OF assms(2)] by (simp add: session_of_def)

text \<open>What a successful fetch of the bundle has read.\<close>

lemma setup_with_mode_ok:
  assumes "setup_with_mode ext c = (Inr (b, m), c')"
  shows "\<exists>resp bs. hx_net ext (hc_sent c) (setup_request_of c) = Inr resp \<and> ok_body resp max_setup_body_bytes = Inr bs \<and>
    decode_setup (hx_lib ext) bs = Inr b \<and> header_mode (rp_headers resp) = Inr m"
proof -
  obtain x c1 where s: "send_measured ext CallSetup (setup_request_of c) 0 max_setup_body_bytes False c = (x, c1)" by fastforce
  show ?thesis using assms send_measured_cases[OF s]
    by (auto simp: setup_with_mode_def s body_of_def split: sum.splits)
qed

lemma client_mode_ok:
  assumes "client_mode ext c = (Inr m, c')"
  shows "\<exists>resp. hx_net ext (hc_sent c) (GetReq (hc_base c @ ''/mode'')) = Inr resp \<and>
    ok_body resp max_tiny_body_bytes = Inr [if m then 1 else 0]"
proof -
  obtain x c1 where s: "send_measured ext CallMode (GetReq (hc_base c @ ''/mode'')) 0 max_tiny_body_bytes False c = (x, c1)" by fastforce
  show ?thesis using assms send_measured_cases[OF s]
    by (auto simp: client_mode_def s body_of_def split: sum.splits if_splits)
qed

lemma pir_call_ok:
  assumes "pir_call deadline f pe = (Inr x, pe')"
  shows "f (pe_pir pe) = (Inr x, pe_pir pe')"
  using assms by (auto simp: pir_call_def awaited_def split: prod.splits if_splits)

lemma rebootstrap_receives:
  assumes "rebootstrap rx d pe = (Inr (), pe')"
  shows "\<exists>b m. pe_session pe' = session_from_bundle rx b (pe_value_codec pe') m \<and>
    bundle_received rx (hc_base (pe_pir pe')) (hc_sent (pe_pir pe')) b m"
  using assms
proof (cases rule: rebootstrap_cases)
  case (sent b m pe1)
  note s = setup_with_mode_ok[OF pir_call_ok[OF sent(1)]] and q = setup_with_mode_request[OF pir_call_ok[OF sent(1)]]
  have "bundle_received rx (hc_base (pe_pir pe1)) (hc_sent (pe_pir pe1)) b m"
    unfolding bundle_received_def using s q by fastforce
  then show ?thesis using sent(3) by auto
next
  case (asked b pe1 m pe2)
  note s = setup_with_mode_ok[OF pir_call_ok[OF asked(1)]] and q = setup_with_mode_request[OF pir_call_ok[OF asked(1)]]
  note s2 = client_mode_ok[OF pir_call_ok[OF asked(2)]] and q2 = client_mode_request[OF pir_call_ok[OF asked(2)]]
  have "hc_sent (pe_pir pe2) = hc_sent (pe_pir pe) @ GetReq (hc_base (pe_pir pe2) @ ''/setup'') # [GetReq (hc_base (pe_pir pe2) @ ''/mode'')]"
    "hc_sent (pe_pir pe1) = hc_sent (pe_pir pe) @ [GetReq (hc_base (pe_pir pe2) @ ''/setup'')]"
    "hc_base (pe_pir pe1) = hc_base (pe_pir pe2)" "hc_base (pe_pir pe) = hc_base (pe_pir pe2)" using q q2 by simp_all
  then have "bundle_received rx (hc_base (pe_pir pe2)) (hc_sent (pe_pir pe2)) b m"
    unfolding bundle_received_def using s s2 by metis
  then show ?thesis using asked(4) by auto
qed auto

lemma bundle_received_append: "bundle_received rx base log b m \<Longrightarrow> bundle_received rx base (log @ reqs) b m"
proof -
  assume "bundle_received rx base log b m"
  then obtain pre post resp bs where r: "log = pre @ GetReq (base @ ''/setup'') # post"
     "hx_net (re_http rx) pre (GetReq (base @ ''/setup'')) = Inr resp" "ok_body resp max_setup_body_bytes = Inr bs"
     "decode_setup (hx_lib (re_http rx)) bs = Inr b"
     "header_mode (rp_headers resp) = Inr (Some m) \<or>
      header_mode (rp_headers resp) = Inr None \<and> (\<exists>rest resp'. post = GetReq (base @ ''/mode'') # rest \<and>
        hx_net (re_http rx) (pre @ [GetReq (base @ ''/setup'')]) (GetReq (base @ ''/mode'')) = Inr resp' \<and>
        ok_body resp' max_tiny_body_bytes = Inr [if m then 1 else 0])" unfolding bundle_received_def by blast
  have l: "log @ reqs = pre @ GetReq (base @ ''/setup'') # (post @ reqs)" using r(1) by simp
  show ?thesis unfolding bundle_received_def
    by (rule exI[of _ pre], rule exI[of _ "post @ reqs"], rule exI[of _ resp], rule exI[of _ bs]) (use r l in auto)
qed

lemma session_ok_costs:
  assumes "session_ok rx b0 m0 pe" and "costs d n pe pe'" and "\<And>b m. session_of rx (pe_value_codec pe) b m (pe_session pe) \<Longrightarrow>
    session_of rx (pe_value_codec pe) b m (pe_session pe')"
  shows "session_ok rx b0 m0 pe'"
  using assms unfolding session_ok_def costs_def by (metis bundle_received_append)

lemma session_ok_same:
  assumes "session_ok rx b0 m0 pe" and "\<And>b m. session_of rx (pe_value_codec pe) b m (pe_session pe) \<Longrightarrow>
    session_of rx (pe_value_codec pe) b m (f (pe_session pe))"
  shows "session_ok rx b0 m0 (on_session f pe)"
proof -
  have "costs None 0 pe (on_session f pe)" by (simp add: costs_def)
  then show ?thesis by (rule session_ok_costs[OF assms(1)]) (simp add: assms(2))
qed

lemma session_pending_same: "se\<lparr> se_client := cl, se_pending_head := se_pending_head se \<rparr> = se\<lparr> se_client := cl \<rparr>"
  by simp

interpretation session: call_invariant rx "session_ok rx b0 m0" for rx :: "('p, 'st) rpc_ext" and b0 m0
proof (rule call_invariant.intro)
  fix deadline :: "nat option"
  show "call_relation rx deadline (\<lambda>_ a b. session_ok rx b0 m0 a \<longrightarrow> session_ok rx b0 m0 b)"
  proof
    fix pe :: "'st private_eth" and pir req
    assume "one_request deadline req (pe_pir pe) pir"
    then show "session_ok rx b0 m0 pe \<longrightarrow> session_ok rx b0 m0 (pe\<lparr> pe_pir := pir \<rparr>)"
      using session_ok_costs[OF _ costs_request] by fastforce
  next
    fix pe :: "'st private_eth" and pe1 r pe2
    assume t: "take_rebootstrap_slot pe = (True, pe1)" and b: "rebootstrap rx deadline pe1 = (r, pe2)"
    obtain n where c: "costs deadline n pe pe2" using cost.R_recover[OF t b] by blast
    have "session_ok rx b0 m0 pe2" if ok: "session_ok rx b0 m0 pe"
    proof (cases r)
      case (Inl e)
      have "pe_session pe2 = pe_session pe" using b Inl take_slot_cases[OF t]
        by (cases rule: rebootstrap_cases) (auto dest!: pir_call_same)
      then show ?thesis using session_ok_costs[OF ok c] by simp
    next
      case (Inr u)
      then show ?thesis using rebootstrap_receives[of rx deadline pe1 pe2] b session_from_bundle_ok
        unfolding session_ok_def by (metis (full_types) old.unit.exhaust)
    qed
    then show "\<exists>n \<le> (2 :: nat). session_ok rx b0 m0 pe \<longrightarrow> session_ok rx b0 m0 pe2" by (intro exI[of _ 0]) simp
  next
    fix pe :: "'st private_eth" and d u cl
    assume "ingest_delta (se_client (pe_session pe)) d = (Inr u, cl)"
    then show "session_ok rx b0 m0 pe \<longrightarrow> session_ok rx b0 m0 (on_session (\<lambda>se. se\<lparr> se_client := cl, se_pending_head := delta_block d \<rparr>) pe)"
      using session_of_ingest[of rx _ _ _ "pe_session pe" d "Inr u" cl] by - (intro impI, erule session_ok_same, simp)
  next
    fix pe :: "'st private_eth" and d e cl
    assume "ingest_delta (se_client (pe_session pe)) d = (Inl e, cl)"
    then show "session_ok rx b0 m0 pe \<longrightarrow> session_ok rx b0 m0 (on_session (\<lambda>se. se\<lparr> se_client := cl \<rparr>) pe)"
      using session_of_ingest[of rx _ _ _ "pe_session pe" d "Inl e" cl] session_pending_same by - (intro impI, erule session_ok_same, simp)
  next
    fix pe :: "'st private_eth" and key qs ctx cl
    assume "build_query (re_be rx) (se_client (pe_session pe)) key = Some (qs, ctx, cl)"
    then show "session_ok rx b0 m0 pe \<longrightarrow> session_ok rx b0 m0 (on_session (\<lambda>se. se\<lparr> se_client := cl \<rparr>) pe)"
      using session_of_query by - (intro impI, erule session_ok_same, blast)
  qed auto
qed (auto simp: session_ok_def)

section \<open>Downloads are metered\<close>

definition downloads :: "http_client \<Rightarrow> nat" where
  "downloads c = length (filter (\<lambda>req. req = setup_request_of c) (hc_sent c))"

definition metered :: "nat \<Rightarrow> nat \<Rightarrow> 'st private_eth \<Rightarrow> bool" where
  "metered t0 k pe \<longleftrightarrow> t0 \<le> hc_now (pe_pir pe) \<and>
     (case pe_last_rebootstrap pe of
        None \<Rightarrow> downloads (pe_pir pe) = k
      | Some t \<Rightarrow> t0 \<le> t \<and> t \<le> hc_now (pe_pir pe) \<and>
          downloads (pe_pir pe) * rebootstrap_cooldown \<le> (k + 1) * rebootstrap_cooldown + (t - t0))"

lemma metered_on_session: "metered t0 k (on_session f pe) = metered t0 k pe"
  unfolding metered_def on_session_fields ..

lemma downloads_request:
  "one_request d req c c' \<Longrightarrow> downloads c' = downloads c + (if req = setup_request_of c then 1 else 0)"
  by (simp add: downloads_def one_request_def)

lemma metered_request:
  "one_request d req (pe_pir pe) c \<Longrightarrow> req \<noteq> setup_request_of (pe_pir pe) \<Longrightarrow> metered t0 k pe \<Longrightarrow> metered t0 k (pe\<lparr> pe_pir := c \<rparr>)"
  using downloads_request[of d req "pe_pir pe" c] by (auto simp: metered_def one_request_def split: option.splits)

lemma rebootstrap_downloads:
  assumes "rebootstrap rx d pe = (r, pe')"
  shows "downloads (pe_pir pe') = Suc (downloads (pe_pir pe)) \<and> pe_last_rebootstrap pe' = pe_last_rebootstrap pe \<and>
    hc_now (pe_pir pe) \<le> hc_now (pe_pir pe')"
proof -
  have s: "downloads (pe_pir pe1) = Suc (downloads (pe_pir pe)) \<and> pe_last_rebootstrap pe1 = pe_last_rebootstrap pe \<and>
      hc_now (pe_pir pe) \<le> hc_now (pe_pir pe1)"
    if "pir_call d (setup_with_mode (re_http rx)) pe = (x, pe1)" for x pe1
    using setup_call_request[OF that] downloads_request by (fastforce simp: one_request_def)
  have m: "downloads (pe_pir pe2) = downloads (pe_pir pe1) \<and> pe_last_rebootstrap pe2 = pe_last_rebootstrap pe1 \<and>
      hc_now (pe_pir pe1) \<le> hc_now (pe_pir pe2)"
    if "pir_call d (client_mode (re_http rx)) pe1 = (y, pe2)" for pe1 y pe2
    using mode_call_request[OF that] downloads_request by (fastforce simp: one_request_def)
  from assms show ?thesis
  proof (cases rule: rebootstrap_cases)
    case (no_mode b pe1 e)
    then show ?thesis using s[OF no_mode(1)] m[OF no_mode(2)] by simp
  next
    case (asked b pe1 mo pe2)
    then show ?thesis using s[OF asked(1)] m[OF asked(2)] by simp
  qed (use s in auto)
qed

lemma metered_recover:
  assumes "take_rebootstrap_slot pe = (True, pe1)" and "rebootstrap rx d pe1 = (r, pe2)" and "metered t0 k pe"
  shows "metered t0 k pe2"
proof -
  note t = take_slot_cases[OF assms(1)] and b = rebootstrap_downloads[OF assms(2)]
  have f: "pe_last_rebootstrap pe2 = Some (hc_now (pe_pir pe))" "hc_now (pe_pir pe) \<le> hc_now (pe_pir pe2)"
    "downloads (pe_pir pe2) = Suc (downloads (pe_pir pe))" using t b by simp_all
  have "downloads (pe_pir pe2) * rebootstrap_cooldown \<le> (k + 1) * rebootstrap_cooldown + (hc_now (pe_pir pe) - t0)"
  proof (cases "pe_last_rebootstrap pe")
    case None
    then show ?thesis using assms(3) f by (auto simp: metered_def)
  next
    case (Some prev)
    then have "rebootstrap_cooldown \<le> hc_now (pe_pir pe) - prev" using t by blast
    then show ?thesis using assms(3) f Some by (auto simp: metered_def)
  qed
  moreover have "t0 \<le> hc_now (pe_pir pe)" using assms(3) unfolding metered_def by blast
  ultimately show ?thesis using f(2) unfolding metered_def f(1) option.case by linarith
qed

interpretation meter: call_invariant rx "metered t0 k" for rx :: "('p, 'st) rpc_ext" and t0 k
proof (rule call_invariant.intro)
  fix deadline :: "nat option"
  show "call_relation rx deadline (\<lambda>_ a b. metered t0 k a \<longrightarrow> metered t0 k b)"
  proof
    fix pe :: "'st private_eth" and pe1 r pe2
    assume "take_rebootstrap_slot pe = (True, pe1)" and "rebootstrap rx deadline pe1 = (r, pe2)"
    then show "\<exists>n \<le> (2 :: nat). metered t0 k pe \<longrightarrow> metered t0 k pe2" using metered_recover by (intro exI[of _ 0]) blast
  qed (auto intro: metered_request simp: metered_on_session)
qed (auto simp: metered_def downloads_def split: option.splits)

lemma metered_bound:
  assumes "metered t0 k pe"
  shows "t0 \<le> hc_now (pe_pir pe) \<and> downloads (pe_pir pe) \<le> k + 1 + (hc_now (pe_pir pe) - t0) div rebootstrap_cooldown"
proof (cases "pe_last_rebootstrap pe")
  case (Some t)
  then have t: "t0 \<le> t" "t \<le> hc_now (pe_pir pe)"
    "downloads (pe_pir pe) * rebootstrap_cooldown \<le> (k + 1) * rebootstrap_cooldown + (t - t0)"
    using assms unfolding metered_def Some option.case by blast+
  have pos: "0 < rebootstrap_cooldown" by (simp add: rebootstrap_cooldown_def)
  have "downloads (pe_pir pe) * rebootstrap_cooldown \<le> (hc_now (pe_pir pe) - t0) + (k + 1) * rebootstrap_cooldown"
    using t by linarith
  then have "downloads (pe_pir pe) \<le> ((hc_now (pe_pir pe) - t0) + (k + 1) * rebootstrap_cooldown) div rebootstrap_cooldown"
    using pos by (simp only: less_eq_div_iff_mult_less_eq)
  also have "\<dots> = (k + 1) + (hc_now (pe_pir pe) - t0) div rebootstrap_cooldown" using pos by (intro div_mult_self1) simp
  finally show ?thesis using t by simp
qed (use assms in \<open>simp add: metered_def\<close>)

section \<open>Answers\<close>

lemma answer_call_ok:
  assumes "answer_call rx deadline queries (pe, sink) = Some (Inr (resp, at_block), pe', sink')"
  shows "\<exists>body rp bs c. pe' = pe\<lparr> pe_pir := c \<rparr> \<and> hc_base c = hc_base (pe_pir pe) \<and> encode_query_bundle queries = Some body \<and>
    hc_sent c = hc_sent (pe_pir pe) @ [PostReq (hc_base (pe_pir pe) @ ''/answer?epoch='' @ se_epoch (pe_session pe)) body] \<and>
    hx_net (re_http rx) (hc_sent (pe_pir pe)) (PostReq (hc_base (pe_pir pe) @ ''/answer?epoch='' @ se_epoch (pe_session pe)) body) = Inr rp \<and>
    ok_body rp max_answer_body_bytes = Inr bs \<and>
    decode_response_bundle bs (se_widths (pe_session pe)) (se_arity (pe_session pe)) = Inr (resp, at_block)"
proof -
  from assms obtain x c1 where a: "client_answer (re_http rx) queries (se_epoch (pe_session pe)) (se_widths (pe_session pe))
      (se_arity (pe_session pe)) (pe_pir pe) = Some (x, c1)"
    by (auto simp: answer_call_def Let_def bind_eq_Some_conv)
  obtain z c' where w': "awaited deadline (pe_pir pe) (x, c1) = (z, c')" by fastforce
  have p: "pe' = pe\<lparr> pe_pir := pe_pir pe' \<rparr>" and w: "awaited deadline (pe_pir pe) (x, c1) = (Inr (resp, at_block), pe_pir pe')"
    using assms a w' by (auto simp: answer_call_def Let_def)
  have x: "x = Inr (resp, at_block)" "c1 = pe_pir pe'" using w by (auto simp: awaited_def split: if_splits)
  from a obtain body where b: "encode_query_bundle queries = Some body" by (auto simp: client_answer_def bind_eq_Some_conv)
  let ?req = "PostReq (hc_base (pe_pir pe) @ ''/answer?epoch='' @ se_epoch (pe_session pe)) body"
  obtain y c2 where s: "send_measured (re_http rx) CallAnswer ?req (of_nat (length body)) max_answer_body_bytes False (pe_pir pe) = (y, c2)"
    by fastforce
  note st = a[unfolded client_answer_def b bind.bind_lunit s prod.case] and sm = send_measured_cases[OF s]
  obtain m where y: "y = Inr m" using st x by (cases y) auto
  have d: "decode_response_bundle (body_of m) (se_widths (pe_session pe)) (se_arity (pe_session pe)) = Inr (resp, at_block)"
    using st x y by (auto simp: Let_def)
  have sent: "hc_sent (pe_pir pe') = hc_sent c2" using st x y by (auto simp: Let_def dest!: arg_cong[where f = hc_sent])
  have base: "hc_base (pe_pir pe') = hc_base (pe_pir pe)" using client_answer_request[OF a] x(2) by auto
  obtain rp where rp: "hx_net (re_http rx) (hc_sent (pe_pir pe)) ?req = Inr rp" using sm y by (auto split: sum.splits)
  have "and_then (ok_body rp max_answer_body_bytes) (\<lambda>bs. Inr \<lparr> ms_body = Some bs, ms_headers = rp_headers rp \<rparr>) = Inr m"
    using sm y rp by simp
  then have o: "ok_body rp max_answer_body_bytes = Inr (body_of m)" by (auto simp: body_of_def)
  have q: "hc_sent (pe_pir pe') = hc_sent (pe_pir pe) @ [?req]" using sent sm by simp
  show ?thesis
    by (rule exI[of _ body], rule exI[of _ rp], rule exI[of _ "body_of m"], rule exI[of _ "pe_pir pe'"])
       (intro conjI p base b q rp o d)
qed

lemma ingest_delta_params: "ingest_delta c d = (x, cl) \<Longrightarrow> rc_params cl = rc_params c"
  by (auto simp: ingest_delta_def split: prod.splits)

lemma sync_to_keeps:
  assumes "sync_to rx deadline target (pe, sink) = (r, pe', sink')"
  shows "se_widths (pe_session pe') = se_widths (pe_session pe) \<and> se_arity (pe_session pe') = se_arity (pe_session pe) \<and>
    se_epoch (pe_session pe') = se_epoch (pe_session pe) \<and> se_strict_not_found (pe_session pe') = se_strict_not_found (pe_session pe) \<and>
    rc_params (se_client (pe_session pe')) = rc_params (se_client (pe_session pe))"
proof -
  have s: "pe_session pe1 = pe_session pe" if "sync_call rx deadline target pe = (x, pe1)" for x pe1
    using sync_call_request[OF that] by fastforce
  from assms show ?thesis
  proof (cases rule: sync_to_cases)
    case (rejected d pe1 e cl)
    then show ?thesis using ingest_delta_params[OF rejected(3)] s[OF rejected(2)] by simp
  next
    case (ingested d pe1 cl)
    then show ?thesis using ingest_delta_params[OF ingested(3)] s[OF ingested(2)] by simp
  qed (auto dest: s)
qed

text \<open>What a balance rests on: an answer decoded from a whole \<open>200\<close> to the query of this key, at the
  block that the session covers up to, and the outcome of \<open>finish\<close>.\<close>

definition rests_on_answer :: "('p, 'st) rpc_ext \<Rightarrow> address_hash \<Rightarrow> balance \<Rightarrow> 'st private_eth \<Rightarrow> bool" where
  "rests_on_answer rx key balance pe \<longleftrightarrow> (\<exists>ctx resp l pre post body rp bs.
     (let se = pe_session pe; c = se_client se;
          req = PostReq (hc_base (pe_pir pe) @ ''/answer?epoch='' @ se_epoch se) body in
      encode_query_bundle (ctx_queries ctx) = Some body \<and> (0 < cp_arity (rc_params c) \<longrightarrow> ctx_for (rc_params c) key ctx) \<and>
      hc_sent (pe_pir pe) = pre @ req # post \<and> hx_net (re_http rx) pre req = Inr rp \<and>
      ok_body rp max_answer_body_bytes = Inr bs \<and>
      decode_response_bundle bs (se_widths se) (se_arity se) = Inr (resp, pd_head (rc_delta c)) \<and>
      finish (re_xxh3 rx) (re_be rx) c key ctx resp (pd_head (rc_delta c)) = Some (Inr l) \<and>
      (l = Found balance \<or> l = NotFound \<and> balance = 0 \<and> \<not> se_strict_not_found se)))"

lemma finish_at_head:
  "finish xxh be c key ctx resp at_block = Some (Inr l) \<Longrightarrow> at_block = pd_head (rc_delta c)"
  by (auto simp: finish_def Let_def split: if_splits)

lemma lookup_balance_Inr:
  "lookup_balance strict l = Inr b \<longleftrightarrow> l = Found b \<or> l = NotFound \<and> b = 0 \<and> \<not> strict"
  by (auto simp: lookup_balance_def split: lookup.splits)

lemma attempt_rests_on_answer:
  assumes "try_get_balance rx deadline key (pe, sink) = Some (Inr b, pe', sink')"
  shows "rests_on_answer rx key b pe'"
  using assms
proof (cases rule: try_get_balance_cases)
  case (finished head pe1 pe2 sink2 qs ctx cl sink3 resp at_block pe3 sink4 sink5 outcome)
  from finished(7) obtain l where l: "outcome = Inr l" "l = Found b \<or> l = NotFound \<and> b = 0 \<and> \<not> se_strict_not_found (pe_session pe')"
    by (cases outcome) (auto simp: lookup_balance_Inr[symmetric] map_err_def split: sum.splits)
  note f = finished(6)[unfolded l(1)] and k = sync_to_keeps[OF finished(5)] and q = build_query_same[OF finished(3)]
  obtain body rp bs c where a: "pe3 = (with_query cl pe2)\<lparr> pe_pir := c \<rparr>" "hc_base c = hc_base (pe_pir pe2)" "encode_query_bundle qs = Some body"
    "hc_sent c = hc_sent (pe_pir pe2) @ [PostReq (hc_base (pe_pir pe2) @ ''/answer?epoch='' @ se_epoch (pe_session pe2)) body]"
    "hx_net (re_http rx) (hc_sent (pe_pir pe2)) (PostReq (hc_base (pe_pir pe2) @ ''/answer?epoch='' @ se_epoch (pe_session pe2)) body) = Inr rp"
    "ok_body rp max_answer_body_bytes = Inr bs"
    "decode_response_bundle bs (se_widths (pe_session pe2)) (se_arity (pe_session pe2)) = Inr (resp, at_block)"
    using answer_call_ok[OF finished(4)] by auto
  obtain reqs where r: "hc_sent (pe_pir pe') = hc_sent c @ reqs" "hc_base (pe_pir pe') = hc_base c"
    using cost.sync_to_related[OF finished(5)] a(1) by (auto simp: costs_def)
  have s3: "se_widths (pe_session pe') = se_widths (pe_session pe2)" "se_arity (pe_session pe') = se_arity (pe_session pe2)"
    "se_epoch (pe_session pe') = se_epoch (pe_session pe2)"
    "rc_params (se_client (pe_session pe')) = rc_params (se_client (pe_session pe2))"
    using k a(1) q by simp_all
  have ctx: "0 < cp_arity (rc_params (se_client (pe_session pe'))) \<Longrightarrow> ctx_for (rc_params (se_client (pe_session pe'))) key ctx"
    using build_query_ctx[OF finished(3)] s3(4) by simp
  show ?thesis unfolding rests_on_answer_def Let_def
    apply (rule exI[of _ ctx], rule exI[of _ resp], rule exI[of _ l], rule exI[of _ "hc_sent (pe_pir pe2)"], rule exI[of _ reqs],
      rule exI[of _ body], rule exI[of _ rp], rule exI[of _ bs])
    using a(2-7) r s3 ctx q f l(2) finish_at_head[OF f] by auto
qed auto

lemma lookup_rests_on_answer:
  assumes "get_balance rx deadline addr pe = Some (Inr balance, pe')"
  shows "rests_on_answer rx (re_keccak rx addr) balance pe'"
  using assms by (cases rule: get_balance_cases) (auto intro: attempt_rests_on_answer)

section \<open>Sessions along a run\<close>

interpretation fixed: call_invariant rx "\<lambda>pe. hc_base (pe_pir pe) = base \<and> pe_value_codec pe = vc" for rx :: "('p, 'st) rpc_ext" and base vc
proof (rule call_invariant.intro)
  fix deadline :: "nat option"
  show "call_relation rx deadline (\<lambda>_ a b. hc_base (pe_pir a) = base \<and> pe_value_codec a = vc \<longrightarrow>
      hc_base (pe_pir b) = base \<and> pe_value_codec b = vc)"
  proof
    fix pe :: "'st private_eth" and pe1 r pe2
    assume "take_rebootstrap_slot pe = (True, pe1)" and "rebootstrap rx deadline pe1 = (r, pe2)"
    then show "\<exists>n \<le> (2 :: nat). hc_base (pe_pir pe) = base \<and> pe_value_codec pe = vc \<longrightarrow>
        hc_base (pe_pir pe2) = base \<and> pe_value_codec pe2 = vc"
      using cost.R_recover[of pe pe1 rx deadline r pe2] by (auto simp: costs_def)
  qed (simp_all add: one_request_def)
qed simp

lemma setup_session_ok:
  "session_ok rx b0 m0 (private_eth_from_setup rx pir b0 vc m0 chain_id proxy)"
  using session_from_bundle_ok[of rx vc b0 m0] by (auto simp: session_ok_def private_eth_from_setup_def)

lemma run_session:
  assumes "eth_run rx (private_eth_from_setup rx pir b0 vc m0 chain_id proxy) pe"
  shows "session_ok rx b0 m0 pe \<and> hc_base (pe_pir pe) = hc_base pir \<and> pe_value_codec pe = vc"
  using session.run_keeps[OF assms setup_session_ok] fixed.run_keeps[OF assms, of "hc_base pir" vc]
  by (simp add: private_eth_from_setup_def)

text \<open>The mode and the data of a session never come from different deployments.\<close>

theorem session_stems_from_one_bundle:
  assumes "eth_run rx (private_eth_from_setup rx pir b0 vc m0 chain_id proxy) pe"
  shows "\<exists>b m. session_of rx vc b m (pe_session pe) \<and>
    (b = b0 \<and> m = m0 \<or> bundle_received rx (hc_base pir) (hc_sent (pe_pir pe)) b m)"
  using run_session[OF assms] unfolding session_ok_def by metis

text \<open>An answer from a block before the pending head, which a node restarted from an older state gives, ends as a
  stall: the second catch-up does nothing and \<open>finish\<close> refuses.\<close>

theorem earlier_answer_stalls:
  assumes "session_of rx vc b m (pe_session pe)" and "at_block < se_pending_head (pe_session pe)"
    and "length resp = cp_arity (rc_params (se_client (pe_session pe)))" and "length (ctx_queries ctx) = length resp"
    and "length (ctx_rows ctx) = length resp"
  shows "sync_to rx deadline at_block (pe, sink) = (Inr (), pe, sink) \<and>
    (\<exists>e. finish (re_xxh3 rx) (re_be rx) (se_client (pe_session pe)) key ctx resp at_block = Some (Inl e) \<and> finish_error e = Stalled)"
proof -
  have "at_block \<noteq> pd_head (rc_delta (se_client (pe_session pe)))" using assms(1,2) by (auto simp: session_of_def)
  then have "finish (re_xxh3 rx) (re_be rx) (se_client (pe_session pe)) key ctx resp at_block =
      Some (Inl (ResponseBlockMismatch (pd_head (rc_delta (se_client (pe_session pe)))) at_block))"
    using assms(3-5) by (simp add: finish_def Let_def)
  moreover have "at_block \<le> se_pending_head (pe_session pe)" using assms(2) by simp
  ultimately show ?thesis by (simp add: sync_to_def finish_error_def Let_def)
qed

section \<open>Properties\<close>

text \<open>C4. A balance is never guessed.  After any run of lookups, follow steps and recoveries, a balance
  that a lookup returns is the outcome of \<open>finish\<close> on an answer to the query for this very key, decoded
  whole from a \<open>200\<close> of this call, at exactly the block up to which the session's delta reaches; it is what
  was found, or zero for an account that is not there, and the latter only if the deployment is complete.
  The session that decided it stems from one bundle and one mode: those the client started with, or
  those of one \<open>/setup\<close> reply of the log.\<close>

theorem a_balance_is_never_guessed:
  assumes "eth_run rx (private_eth_from_setup rx pir b0 vc m0 chain_id proxy) pe"
    and "get_balance rx deadline addr pe = Some (Inr balance, pe')"
  shows "rests_on_answer rx (re_keccak rx addr) balance pe' \<and>
    (\<exists>b m. session_of rx vc b m (pe_session pe') \<and>
      (b = b0 \<and> m = m0 \<or> bundle_received rx (hc_base pir) (hc_sent (pe_pir pe')) b m))"
proof -
  have "session_ok rx b0 m0 pe' \<and> hc_base (pe_pir pe') = hc_base pir \<and> pe_value_codec pe' = vc"
    by (rule run_session[OF run_lookup[OF assms]])
  moreover have "rests_on_answer rx (re_keccak rx addr) balance pe'" by (rule lookup_rests_on_answer[OF assms(2)])
  ultimately show ?thesis unfolding session_ok_def by metis
qed

text \<open>A deployment of one segment at block 7, whose row \<open>[0, 6]\<close> holds the balance 5.\<close>

definition whole_reply :: "bytes \<Rightarrow> reply" where
  "whole_reply bs = \<lparr> rp_status = 200, rp_headers = [], rp_content_length = None, rp_chunks = [Chunk bs] \<rparr>"

definition lookup_body :: "request \<Rightarrow> bytes" where
  "lookup_body req = (case req of GetReq _ \<Rightarrow> u64_le 7 | PostReq _ _ \<Rightarrow> the (encode_response_bundle [[0, 6]] 7))"

definition lookup_http :: "toy_params http_ext" where
  "lookup_http = \<lparr> hx_net = (\<lambda>_ req. Inr (whole_reply (lookup_body req))), hx_ns = (\<lambda>_ _. 5), hx_decode_ns = (\<lambda>_. 1),
     hx_lib = toy_simple_lib \<rparr>"

definition lookup_backend :: "(toy_params simple_server_params, u32 list, u32) pir_backend" where
  "lookup_backend = \<lparr> be_setup = (\<lambda>_ _. 0), be_query = (\<lambda>_ row. (row, [1, 0])), be_decode = (\<lambda>_ r. r), be_patch = (\<lambda>st _. st),
     be_rewind = (\<lambda>_ _ r _. Some r) \<rparr>"

definition lookup_rx :: "(toy_params, u32) rpc_ext" where
  "lookup_rx = \<lparr> re_http = lookup_http, re_be = lookup_backend, re_params = (\<lambda>_. pair_params), re_keccak = (\<lambda>_. [1]),
     re_xxh3 = example_hash, re_build_ns = (\<lambda>_. 2), re_ingest_ns = (\<lambda>_. 3), re_finish_ns = (\<lambda>_. 4), re_unix_ms = (\<lambda>t. t) \<rparr>"

definition lookup_bundle :: "toy_params wire_bundle" where
  "lookup_bundle = toy_bundle\<lparr> wb_backend_params := [(toy_server_params 7)\<lparr> sp_reshape_row_width := 2 \<rparr>], wb_hints := [[1, 2]],
     wb_block := 7 \<rparr>"

definition lookup_start :: "u32 private_eth" where
  "lookup_start = private_eth_from_setup lookup_rx (with_http_client ''u'') lookup_bundle byte_codec True 1 None"

text \<open>Its HTTP client after some requests.\<close>

definition lookup_after :: "request list \<Rightarrow> http_client" where
  "lookup_after reqs = \<lparr> hc_base = ''u'', hc_sink = None, hc_sent = reqs, hc_now = 5 * length reqs \<rparr>"

lemma lookup_send:
  "length (lookup_body req) \<le> cap \<Longrightarrow>
   send_measured lookup_http call req nb cap False (lookup_after reqs) =
     (Inr \<lparr> ms_body = Some (lookup_body req), ms_headers = [] \<rparr>, lookup_after (reqs @ [req]))"
  by (simp add: send_measured_def lookup_http_def whole_reply_def ok_body_def lookup_after_def lookup_body_def)

lemma lookup_head: "client_head lookup_http (lookup_after reqs) = (Inr 7, lookup_after (reqs @ [GetReq ''u/head'']))"
proof -
  have "hc_base (lookup_after reqs) = ''u''" by (simp add: lookup_after_def)
  then show ?thesis
    using lookup_send[of "GetReq ''u/head''" max_tiny_body_bytes CallHead 0 reqs]
    by (simp add: client_head_def body_of_def lookup_body_def max_tiny_body_bytes_def)
qed

lemma lookup_answer:
  assumes q: "encode_query_bundle qs = Some body"
  shows "client_answer lookup_http qs epoch [2] 1 (lookup_after reqs) =
     Some (Inr ([[0, 6]], 7), lookup_after (reqs @ [PostReq (''u/answer?epoch='' @ epoch) body]))"
proof -
  obtain bs where bs: "encode_response_bundle [[0, 6 :: u32]] 7 = Some bs" by (simp add: encode_response_bundle_def)
  have d: "decode_response_bundle bs [2] (Suc 0) = Inr ([[0, 6]], 7)" using response_bytes_decode[OF bs, of "[2]"] by simp
  have "length (the (encode_response_bundle [[0, 6 :: u32]] 7)) \<le> 100" by code_simp
  then have l: "length (lookup_body (PostReq u b)) \<le> max_answer_body_bytes" for u b
    by (simp add: lookup_body_def max_answer_body_bytes_def)
  have base: "hc_base (lookup_after reqs) = ''u''" and t: "timed_decode lookup_http call (lookup_after rs) = lookup_after rs"
    and s: "(lookup_after rs)\<lparr> hc_sink := map_option f (hc_sink (lookup_after rs)) \<rparr> = lookup_after rs" for call rs f
    by (simp_all add: lookup_after_def timed_decode_def)
  show ?thesis
    unfolding client_answer_def q bind.bind_lunit base append.assoc lookup_send[OF l]
    by (simp add: body_of_def d Let_def s t) (simp add: lookup_body_def bs d)
qed

lemma lookup_scan:
  "scan_slot pair_params byte_codec 5 0 [0, 6] 0 ([0], 0) = Some ([0], 0)"
  "scan_slot pair_params byte_codec 5 0 [0, 6] (Suc 0) ([0], 0) = Some ([5], - 1)"
proof -
  have p: "cp_cells_per_slot pair_params = 1" "cp_unpack_slot pair_params cells = (if hd cells = 6 then 5 else 0, [ucast (hd cells - 1)])" for cells
    by (simp_all add: pair_params_def)
  show "scan_slot pair_params byte_codec 5 0 [0, 6] 0 ([0], 0) = Some ([0], 0)"
    "scan_slot pair_params byte_codec 5 0 [0, 6] (Suc 0) ([0], 0) = Some ([5], - 1)"
    by (simp_all add: scan_slot_def p get_range_def byte_encode(2) ct_eq_u64_mask_iff)
qed

lemma lookup_finish:
  assumes "rc_params c = pair_params" "rc_value_codec c = byte_codec" "rc_delta c = pending_new 1 7" "rc_states c = [0]"
  shows "finish example_hash lookup_backend c [1] \<lparr> ctx_queries = [[1, 0]], ctx_rows = [0] \<rparr> [[0, 6]] 7 = Some (Inr (Found 5))"
proof -
  have d: "decode example_hash byte_codec [1] [5] = Some (Found 5)" by code_simp
  have f: "cp_arity pair_params = Suc 0" "cp_segment_size pair_params = 4" "cp_bucket_size pair_params = 2" "cp_value_size pair_params = Suc 0"
    "cp_candidate_buckets pair_params k = (5, [0])" for k by (simp_all add: pair_params_def)
  have s: "scan_slots pair_params byte_codec 5 0 [0, 6] 0 2 ([0], 0) = Some ([5], - 1)"
    unfolding numeral_2_eq_2 scan_slots.simps by (simp add: lookup_scan)
  have p: "pending_segment (pending_new 1 7) 0 = Some []" "pending_row (pending_new 1 7) 0 0 = Some []"
    by (simp_all add: pending_new_def pending_segment_def pending_row_def get_def bt_range_def)
  have seg: "finish_segment lookup_backend c \<lparr> ctx_queries = [[1, 0]], ctx_rows = [0] \<rparr> [[0, 6]] 5 0 0 ([0], 0) = Some (Inr ([5], - 1))"
    by (simp add: finish_segment_def assms get_def p[simplified] f Let_def) (simp add: lookup_backend_def s)
  show ?thesis by (simp add: finish_def assms f get_def seg byte_encode(3)) (simp add: pending_new_def d)
qed

lemma lookup_fields:
  "pe_pir lookup_start = lookup_after []" "se_pending_head (pe_session lookup_start) = 7" "se_widths (pe_session lookup_start) = [2]"
  "se_arity (pe_session lookup_start) = 1" "rc_params (se_client (pe_session lookup_start)) = pair_params"
  "rc_value_codec (se_client (pe_session lookup_start)) = byte_codec" "rc_delta (se_client (pe_session lookup_start)) = pending_new 1 7"
  "rc_states (se_client (pe_session lookup_start)) = [0]" "re_http lookup_rx = lookup_http" "re_be lookup_rx = lookup_backend"
  "re_keccak lookup_rx a = [1]" "re_xxh3 lookup_rx = example_hash"
  by (simp_all add: lookup_start_def private_eth_from_setup_def session_from_bundle_def lookup_rx_def lookup_bundle_def
    from_setup_def client_bundle_def toy_bundle_def toy_server_params_def lookup_after_def with_http_client_def pair_params_def lookup_backend_def)

lemma lookup_awaited:
  "\<not> past deadline (5 * length reqs') \<Longrightarrow> awaited deadline c (r, lookup_after reqs') = (map_err (\<lambda>e. Failed (Pir e)) r, lookup_after reqs')"
  by (simp add: awaited_def lookup_after_def)

lemma lookup_head_call:
  "\<not> past deadline (5 * (length reqs + 1)) \<Longrightarrow> private_head lookup_rx deadline (pe\<lparr> pe_pir := lookup_after reqs \<rparr>) =
     (Inr 7, pe\<lparr> pe_pir := lookup_after (reqs @ [GetReq ''u/head'']) \<rparr>)"
  by (simp add: private_head_def pir_call_def lookup_fields lookup_head lookup_awaited)

lemma lookup_tries:
  assumes "\<not> past deadline (5 * (length reqs + 2))"
  shows "\<exists>pe'. try_get_balance lookup_rx deadline [1] (lookup_start\<lparr> pe_pir := lookup_after reqs \<rparr>, None) = Some (Inr 5, pe', None)"
proof -
  obtain body where body: "encode_query_bundle [[1, 0]] = Some body" by (simp add: encode_query_bundle_def)
  have early: "\<not> past deadline (5 * (length reqs + 1))" using assms by (auto simp: past_def split: option.splits)
  let ?pe1 = "lookup_start\<lparr> pe_pir := lookup_after (reqs @ [GetReq ''u/head'']) \<rparr>"
  have level: "sync_to lookup_rx deadline 7 (pe, sink) = (Inr (), pe, sink)" if "se_pending_head (pe_session pe) = 7" for pe sink
    using that by (simp add: sync_to_def Let_def)
  obtain cl where q: "build_query lookup_backend (se_client (pe_session lookup_start)) [1] = Some ([[1, 0]], \<lparr> ctx_queries = [[1, 0]], ctx_rows = [0] \<rparr>, cl)"
    and cl: "rc_params cl = pair_params" "rc_value_codec cl = byte_codec" "rc_delta cl = pending_new 1 7" "rc_states cl = [0]"
    using lookup_fields(5-8) by (simp add: build_query_def pair_params_def get_def lookup_backend_def)
  let ?pe2 = "with_query cl ?pe1"
  obtain c where ans: "answer_call lookup_rx deadline [[1, 0]] (?pe2, None) = Some (Inr ([[0, 6]], 7), ?pe2\<lparr> pe_pir := c \<rparr>, None)"
    using lookup_answer[OF body, of _ "reqs @ [GetReq ''u/head'']"] assms
    by (simp add: answer_call_def lookup_fields Let_def lookup_awaited)
  have "try_get_balance lookup_rx deadline [1] (lookup_start\<lparr> pe_pir := lookup_after reqs \<rparr>, None) = Some (Inr 5, ?pe2\<lparr> pe_pir := c \<rparr>, None)"
    using lookup_fields(2) q ans lookup_finish[OF cl]
    by (simp add: try_get_balance_def lookup_head_call[OF early] and_then_call_def level lookup_fields on_timings_def lookup_balance_def)
  then show ?thesis by blast
qed

lemma lookup_runs_from:
  assumes "\<not> past deadline (5 * (length reqs + 2))"
  shows "\<exists>pe'. get_balance lookup_rx deadline (replicate 20 1) (lookup_start\<lparr> pe_pir := lookup_after reqs \<rparr>) = Some (Inr 5, pe')"
  using lookup_tries[OF assms] by (auto simp: get_balance_def get_balance_inner_def on_timings_def lookup_fields)

lemma lookup_runs: "\<exists>pe'. get_balance lookup_rx None (replicate 20 1) lookup_start = Some (Inr 5, pe')"
  using lookup_runs_from[of None "[]"] by (simp add: past_def flip: lookup_fields(1))

lemma a_balance_is_never_guessed_witness:
  "\<exists>pe'. get_balance lookup_rx None (replicate 20 1) lookup_start = Some (Inr 5, pe') \<and> rests_on_answer lookup_rx [1] 5 pe'"
proof -
  obtain pe' where g: "get_balance lookup_rx None (replicate 20 1) lookup_start = Some (Inr 5, pe')" using lookup_runs by blast
  have "re_keccak lookup_rx (replicate 20 1) = [1]" by (simp add: lookup_rx_def)
  then show ?thesis
    using a_balance_is_never_guessed[OF run_start g[unfolded lookup_start_def]] g by auto
qed

text \<open>C5. A lookup ends, and recovery is metered.  A call sends at most ten requests, whatever the
  server answers, and with a deadline is over when the deadline passes; and along every run of
  calls, waits and failed recoveries, the bundle is downloaded at most once and once more for
  every 300 seconds that have passed since the client was set up.\<close>

theorem lookups_are_bounded_and_downloads_metered:
  assumes "eth_run rx pe0 pe" and "pe_last_rebootstrap pe0 = None"
    and "get_balance rx deadline addr pe = Some (r, pe')"
  shows "(\<exists>reqs. hc_sent (pe_pir pe') = hc_sent (pe_pir pe) @ reqs \<and> length reqs \<le> 10) \<and>
    (\<forall>d. deadline = Some d \<longrightarrow> hc_now (pe_pir pe') \<le> max (hc_now (pe_pir pe)) d) \<and>
    hc_now (pe_pir pe0) \<le> hc_now (pe_pir pe') \<and>
    downloads (pe_pir pe') \<le> downloads (pe_pir pe0) + 1 + (hc_now (pe_pir pe') - hc_now (pe_pir pe0)) div 300000000000"
proof -
  have "metered (hc_now (pe_pir pe0)) (downloads (pe_pir pe0)) pe0" using assms(2) by (simp add: metered_def)
  then have "metered (hc_now (pe_pir pe0)) (downloads (pe_pir pe0)) pe'" by (rule meter.run_keeps[OF run_lookup[OF assms(1,3)]])
  then have "hc_now (pe_pir pe0) \<le> hc_now (pe_pir pe') \<and>
    downloads (pe_pir pe') \<le> downloads (pe_pir pe0) + 1 + (hc_now (pe_pir pe') - hc_now (pe_pir pe0)) div rebootstrap_cooldown"
    by (rule metered_bound)
  moreover obtain n where "n \<le> 10" "costs deadline n pe pe'" using cost.get_balance_related[OF assms(3)] by blast
  ultimately show ?thesis by (auto simp: costs_def rebootstrap_cooldown_def)
qed

lemma lookups_are_bounded_and_downloads_metered_witness:
  "\<exists>pe'. get_balance lookup_rx None (replicate 20 1) lookup_start = Some (Inr 5, pe') \<and>
    downloads (pe_pir pe') \<le> downloads (pe_pir lookup_start) + 1 + (hc_now (pe_pir pe') - hc_now (pe_pir lookup_start)) div 300000000000"
proof -
  obtain pe' where g: "get_balance lookup_rx None (replicate 20 1) lookup_start = Some (Inr 5, pe')" using lookup_runs by blast
  have "pe_last_rebootstrap lookup_start = None" by (simp add: lookup_start_def private_eth_from_setup_def)
  then show ?thesis using lookups_are_bounded_and_downloads_metered[OF run_start _ g] g by blast
qed

end

