(* ===== verification/Rpc_Front.thy ===== *)
theory Rpc_Front
  imports Private_Eth Feed_Rpc
begin

text \<open>
  Model of \<open>crates/risepir-rpc/src/rpc.rs\<close> and \<open>front.rs\<close>: the JSON-RPC front end, which answers four
  methods and denies or, if the operator asked for it, forwards every other.

  The parser of \<open>serde_json\<close>, the upstream of the proxy and the rendering of a message from
  the values it is formatted from are the parameters \<open>front_env\<close>.  The state is the private core and the
  log of what was forwarded.  A request has a deadline, 60 seconds after it arrived.  Listening
  sockets are not modelled.

  The lemmas: nothing that names an account reaches the upstream; every reply is a result or an
  error with the caller's id; a balance is returned for the head only; and what the
  deadline does to a client whose recovery takes longer.
\<close>

section \<open>Errors\<close>

datatype params_detail =
    ExpectsAddressAndBlock json
  | BadAddress
  | BadBlock string

datatype rpc_message =
    ParseErrorMessage string
  | InvalidRequestMessage string
  | InvalidParamsMessage params_detail
  | MethodNotFoundMessage
  | HistoricalMessage
  | FutureBlockMessage u64 u64
  | InternalMessage rpc_error_text
  | ChecksumMessage
  | StalledMessage
  | NotTrackedMessage

record json_rpc_error =
  je_code :: int
  je_message :: rpc_message

definition parse_error :: "string \<Rightarrow> json_rpc_error" where
  "parse_error detail = \<lparr> je_code = - 32700, je_message = ParseErrorMessage detail \<rparr>"

definition invalid_request :: "string \<Rightarrow> json_rpc_error" where
  "invalid_request detail = \<lparr> je_code = - 32600, je_message = InvalidRequestMessage detail \<rparr>"

definition invalid_params :: "params_detail \<Rightarrow> json_rpc_error" where
  "invalid_params detail = \<lparr> je_code = - 32602, je_message = InvalidParamsMessage detail \<rparr>"

definition method_not_found :: json_rpc_error where
  "method_not_found = \<lparr> je_code = - 32601, je_message = MethodNotFoundMessage \<rparr>"

definition historical :: json_rpc_error where
  "historical = \<lparr> je_code = - 32000, je_message = HistoricalMessage \<rparr>"

definition future_block :: "u64 \<Rightarrow> u64 \<Rightarrow> json_rpc_error" where
  "future_block requested head = \<lparr> je_code = - 32000, je_message = FutureBlockMessage requested head \<rparr>"

definition internal :: "rpc_error_text \<Rightarrow> json_rpc_error" where
  "internal detail = \<lparr> je_code = - 32603, je_message = InternalMessage detail \<rparr>"

fun json_rpc_error_of :: "rpc_error \<Rightarrow> json_rpc_error" where
  "json_rpc_error_of BalanceDecodeFailed = \<lparr> je_code = - 32000, je_message = ChecksumMessage \<rparr>"
| "json_rpc_error_of Stalled = \<lparr> je_code = - 32000, je_message = StalledMessage \<rparr>"
| "json_rpc_error_of NotInTrackedSet = \<lparr> je_code = - 32000, je_message = NotTrackedMessage \<rparr>"
| "json_rpc_error_of e = internal (rpc_error_display e)"

section \<open>Requests\<close>

definition known_methods :: "string list" where
  "known_methods = [''eth_getBalance'', ''eth_chainId'', ''net_version'', ''eth_blockNumber'']"

definition max_rpc_body_bytes :: nat where "max_rpc_body_bytes = 1048576"

text \<open>60 seconds, in nanoseconds.\<close>

definition rpc_request_timeout :: nat where "rpc_request_timeout = 60000000000"

definition parse_method_and_params :: "json \<Rightarrow> json_rpc_error + string \<times> json" where
  "parse_method_and_params v =
     (case as_object v of
        None \<Rightarrow> Inl (invalid_request ''expected a JSON object'')
      | Some _ \<Rightarrow>
          and_then (ok_or (Option.bind (json_get v ''method'') as_str) (invalid_request ''missing or non-string method'')) (\<lambda>method.
            Inr (method, case json_get v ''params'' of Some params \<Rightarrow> params | None \<Rightarrow> JArr [])))"

text \<open>The tuple struct \<open>GetBalanceParams(String, String)\<close>: an array of exactly two strings.\<close>

definition get_balance_params :: "json \<Rightarrow> (string \<times> string) option" where
  "get_balance_params params = (case params of JArr [JStr a, JStr b] \<Rightarrow> Some (a, b) | _ \<Rightarrow> None)"

definition parse_address20 :: "string \<Rightarrow> bytes option" where
  "parse_address20 s =
     Option.bind (strip_0x s) (\<lambda>hex.
       if length hex \<noteq> 40 \<or> \<not> list_all (\<lambda>c. hex_value c \<noteq> None) hex then None else hex_pairs hex)"

definition classify_block_param :: "string \<Rightarrow> u64 \<Rightarrow> json_rpc_error + unit" where
  "classify_block_param s head =
     (if s \<in> {''latest'', ''pending'', ''safe'', ''finalized''} then Inr ()
      else
        and_then (ok_or (strip_0x s) (invalid_params (BadBlock s))) (\<lambda>hex.
        and_then (ok_or (from_hex (2 ^ 64) hex) (invalid_params (BadBlock s))) (\<lambda>k.
          let n = of_nat k :: u64 in
          if n = head then Inr () else if n < head then Inl historical else Inl (future_block n head))))"

definition hex_quantity :: "nat \<Rightarrow> json" where
  "hex_quantity n = JStr (''0x'' @ show_hex n)"

section \<open>Handling\<close>

datatype front_reply =
    JsonReply json
  | Forwarded nat "bytes option" bytes        \<comment> \<open>status, content type, body\<close>
  | BadGateway string
  | PayloadTooLarge
  | RequestTimeout

record upstream_reply =
  ur_status :: nat
  ur_content_type :: "bytes option"
  ur_body :: "string + bytes"

record ('p, 'st) front_env =
  ft_core :: "('p, 'st) rpc_ext"
  ft_parse :: "bytes \<Rightarrow> string + json"
  ft_text :: "rpc_message \<Rightarrow> string"
  ft_upstream :: "(string \<times> bytes) list \<Rightarrow> string \<Rightarrow> bytes \<Rightarrow> string + upstream_reply"
  ft_upstream_ns :: "(string \<times> bytes) list \<Rightarrow> nat"

record 'st front =
  fr_eth :: "'st private_eth"
  fr_forwarded :: "(string \<times> bytes) list"

text \<open>Errors of the core on their way out; a dropped future has no reply of its own.\<close>

datatype handler_end = RpcFailed json_rpc_error | HandlerDropped

definition handler_end_of :: "call_end \<Rightarrow> handler_end" where
  "handler_end_of e = (case e of Failed e \<Rightarrow> RpcFailed (json_rpc_error_of e) | Dropped \<Rightarrow> HandlerDropped)"

definition eth_get_balance :: "('p, 'st) rpc_ext \<Rightarrow> nat option \<Rightarrow> json \<Rightarrow> 'st private_eth
    \<Rightarrow> ((handler_end + json) \<times> 'st private_eth) option" where
  "eth_get_balance rx deadline params pe =
     (case get_balance_params params of
        None \<Rightarrow> Some (Inl (RpcFailed (invalid_params (ExpectsAddressAndBlock params))), pe)
      | Some (addr_str, block_str) \<Rightarrow>
          (case parse_address20 addr_str of
             None \<Rightarrow> Some (Inl (RpcFailed (invalid_params BadAddress)), pe)
           | Some addr20 \<Rightarrow>
               (case private_head rx deadline pe of
                  (Inl e, pe) \<Rightarrow> Some (Inl (handler_end_of e), pe)
                | (Inr head, pe) \<Rightarrow>
                    (case classify_block_param block_str head of
                       Inl e \<Rightarrow> Some (Inl (RpcFailed e), pe)
                     | Inr _ \<Rightarrow>
                         map_option (\<lambda>(r, pe).
                           (case r of Inl e \<Rightarrow> Inl (handler_end_of e) | Inr balance \<Rightarrow> Inr (hex_quantity (unat balance)), pe))
                           (get_balance rx deadline addr20 pe)))))"

definition dispatch :: "('p, 'st) rpc_ext \<Rightarrow> nat option \<Rightarrow> string \<Rightarrow> json \<Rightarrow> 'st private_eth
    \<Rightarrow> ((handler_end + json) \<times> 'st private_eth) option" where
  "dispatch rx deadline method params pe =
     (if method = ''eth_getBalance'' then eth_get_balance rx deadline params pe
      else if method = ''eth_chainId'' then Some (Inr (hex_quantity (unat (pe_chain_id pe))), pe)
      else if method = ''net_version'' then Some (Inr (JStr (show_u64 (pe_chain_id pe))), pe)
      else if method = ''eth_blockNumber'' then
        (case private_head rx deadline pe of
           (Inl e, pe) \<Rightarrow> Some (Inl (handler_end_of e), pe)
         | (Inr head, pe) \<Rightarrow> Some (Inr (hex_quantity (unat head)), pe))
      else Some (Inl (RpcFailed method_not_found), pe))"

text \<open>The members of an object in ascending order of their keys.\<close>

definition envelope :: "(rpc_message \<Rightarrow> string) \<Rightarrow> json \<Rightarrow> json_rpc_error + json \<Rightarrow> json" where
  "envelope text ident result =
     (case result of
        Inr v \<Rightarrow> JObj [(''id'', ident), (''jsonrpc'', JStr ''2.0''), (''result'', v)]
      | Inl e \<Rightarrow> JObj [(''error'', JObj [(''code'', JInt (je_code e)), (''message'', JStr (text (je_message e)))]),
          (''id'', ident), (''jsonrpc'', JStr ''2.0'')])"

definition proxy_forward :: "('p, 'st) front_env \<Rightarrow> nat option \<Rightarrow> string \<Rightarrow> bytes \<Rightarrow> 'st front \<Rightarrow> front_reply \<times> 'st front" where
  "proxy_forward fx deadline upstream body fr =
     (let c = pe_pir (fr_eth fr);
          t = hc_now c + ft_upstream_ns fx (fr_forwarded fr);
          t' = (if past deadline t then max (hc_now c) (the deadline) else t);
          reply = ft_upstream fx (fr_forwarded fr) upstream body;
          fr' = fr\<lparr> fr_eth := (fr_eth fr)\<lparr> pe_pir := c\<lparr> hc_now := t' \<rparr> \<rparr>, fr_forwarded := fr_forwarded fr @ [(upstream, body)] \<rparr> in
      (if past deadline t then RequestTimeout
       else case reply of
         Inl e \<Rightarrow> BadGateway e
       | Inr r \<Rightarrow>
           (case ur_body r of
              Inl e \<Rightarrow> BadGateway e
            | Inr bs \<Rightarrow> Forwarded (ur_status r) (if ur_content_type r \<noteq> None \<and> header_text (the (ur_content_type r)) \<noteq> None
                then ur_content_type r else None) bs), fr'))"

definition handle :: "('p, 'st) front_env \<Rightarrow> nat option \<Rightarrow> bytes \<Rightarrow> 'st front \<Rightarrow> (front_reply \<times> 'st front) option" where
  "handle fx deadline body fr =
     (case ft_parse fx body of
        Inl e \<Rightarrow> Some (JsonReply (envelope (ft_text fx) JNull (Inl (parse_error e))), fr)
      | Inr v \<Rightarrow>
          let ident = (case json_get v ''id'' of Some i \<Rightarrow> i | None \<Rightarrow> JNull) in
          case parse_method_and_params v of
            Inl e \<Rightarrow> Some (JsonReply (envelope (ft_text fx) ident (Inl e)), fr)
          | Inr (method, params) \<Rightarrow>
              if method \<notin> set known_methods then
                (case pe_proxy_upstream (fr_eth fr) of
                   Some upstream \<Rightarrow> Some (proxy_forward fx deadline upstream body fr)
                 | None \<Rightarrow> Some (JsonReply (envelope (ft_text fx) ident (Inl method_not_found)), fr))
              else
                map_option (\<lambda>(r, pe).
                  (case r of
                     Inl HandlerDropped \<Rightarrow> RequestTimeout
                   | Inl (RpcFailed e) \<Rightarrow> JsonReply (envelope (ft_text fx) ident (Inl e))
                   | Inr v \<Rightarrow> JsonReply (envelope (ft_text fx) ident (Inr v)), fr\<lparr> fr_eth := pe \<rparr>))
                  (dispatch (ft_core fx) deadline method params (fr_eth fr)))"

text \<open>The router: the body limit and the timeout layer.\<close>

definition router :: "('p, 'st) front_env \<Rightarrow> bytes \<Rightarrow> 'st front \<Rightarrow> (front_reply \<times> 'st front) option" where
  "router fx body fr =
     (if length body > max_rpc_body_bytes then Some (PayloadTooLarge, fr)
      else handle fx (Some (hc_now (pe_pir (fr_eth fr)) + rpc_request_timeout)) body fr)"

section \<open>Starting the front end (\<open>front.rs\<close>)\<close>

type_synonym ipv4 = "u8 \<times> u8 \<times> u8 \<times> u8"

definition localhost :: ipv4 where "localhost = (127, 0, 0, 1)"

fun show_ipv4 :: "ipv4 \<Rightarrow> string" where
  "show_ipv4 (a, b, c, d) = show_nat (unat a) @ ''.'' @ show_nat (unat b) @ ''.'' @ show_nat (unat c) @ ''.'' @ show_nat (unat d)"

record front_config =
  fc_pir_url :: string
  fc_rpc_port :: u16
  fc_bind :: ipv4
  fc_chain_id :: u64
  fc_proxy_upstream :: "string option"

definition default_front_config :: front_config where
  "default_front_config = \<lparr> fc_pir_url = [], fc_rpc_port = 8545, fc_bind = localhost, fc_chain_id = 1, fc_proxy_upstream = None \<rparr>"

datatype front_death = NoPirUrl | SetupFailed string http_error | ModeFailed string http_error

record front_handle =
  fh_complete :: bool
  fh_pinned_block :: u64

text \<open>Up to the listener; \<open>Inl\<close> is what \<open>die\<close> prints before the process exits.\<close>

definition front_spawn :: "('p, 'st) rpc_ext \<Rightarrow> value_codec \<Rightarrow> front_config \<Rightarrow> front_death + 'st front \<times> front_handle" where
  "front_spawn rx codec cfg =
     (if fc_pir_url cfg = [] then Inl NoPirUrl
      else case setup_with_mode (re_http rx) (with_http_client (fc_pir_url cfg)) of
        (Inl e, _) \<Rightarrow> Inl (SetupFailed (fc_pir_url cfg) e)
      | (Inr (bundle, mode_sent), c) \<Rightarrow>
          (case (case mode_sent of Some m \<Rightarrow> (Inr m, c) | None \<Rightarrow> client_mode (re_http rx) c) of
             (Inl e, _) \<Rightarrow> Inl (ModeFailed (fc_pir_url cfg) e)
           | (Inr complete, c) \<Rightarrow>
               Inr (\<lparr> fr_eth = private_eth_from_setup rx c bundle codec complete (fc_chain_id cfg) (fc_proxy_upstream cfg),
                      fr_forwarded = [] \<rparr>,
                    \<lparr> fh_complete = complete, fh_pinned_block = wb_block bundle \<rparr>)))"

definition local_url :: "ipv4 \<Rightarrow> u16 \<Rightarrow> string" where
  "local_url bind port =
     (let ip = (if bind = (0, 0, 0, 0) then localhost else bind) in
      ''http://'' @ show_ipv4 ip @ '':'' @ show_nat (unat port))"

section \<open>Replies\<close>

lemma json_get_envelope:
  "json_get (envelope text ident (Inr v)) ''result'' = Some v" "json_get (envelope text ident (Inr v)) ''error'' = None"
  "json_get (envelope text ident (Inl e)) ''result'' = None"
  "json_get (envelope text ident (Inl e)) ''error'' =
     Some (JObj [(''code'', JInt (je_code e)), (''message'', JStr (text (je_message e)))])"
  "json_get (envelope text ident r) ''id'' = Some ident" "json_get (envelope text ident r) ''jsonrpc'' = Some (JStr ''2.0'')"
  by (simp_all add: envelope_def split: sum.splits)

definition request_id :: "('p, 'st) front_env \<Rightarrow> bytes \<Rightarrow> json" where
  "request_id fx body =
     (case ft_parse fx body of Inl _ \<Rightarrow> JNull | Inr v \<Rightarrow> (case json_get v ''id'' of Some i \<Rightarrow> i | None \<Rightarrow> JNull))"

definition documented_codes :: "int set" where
  "documented_codes = {- 32700, - 32600, - 32602, - 32601, - 32000, - 32603}"

lemma json_rpc_error_of_code: "je_code (json_rpc_error_of e) \<in> documented_codes"
  by (cases e) (simp_all add: documented_codes_def internal_def)

lemma handler_end_of_code: "handler_end_of e = RpcFailed f \<Longrightarrow> je_code f \<in> documented_codes"
  using json_rpc_error_of_code by (auto simp: handler_end_of_def split: call_end.splits)

lemma classify_codes: "classify_block_param s head = Inl e \<Longrightarrow> je_code e \<in> documented_codes"
  by (auto simp: classify_block_param_def ok_or_def and_then_Inl_iff invalid_params_def historical_def future_block_def documented_codes_def
    Let_def split: if_splits option.splits)

lemma parse_method_codes: "parse_method_and_params v = Inl e \<Longrightarrow> je_code e \<in> documented_codes"
  by (auto simp: parse_method_and_params_def ok_or_def and_then_Inl_iff invalid_request_def documented_codes_def split: option.splits)

lemma eth_get_balance_cases:
  assumes "eth_get_balance rx deadline params pe = Some (r, pe')"
  obtains (refused) e where "r = Inl (RpcFailed e)" "je_code e \<in> documented_codes"
  | (failed) e where "r = Inl (handler_end_of e)"
  | (answered) addr_str block_str addr20 head pe1 balance where "get_balance_params params = Some (addr_str, block_str)"
      "parse_address20 addr_str = Some addr20" "private_head rx deadline pe = (Inr head, pe1)" "classify_block_param block_str head = Inr ()"
      "get_balance rx deadline addr20 pe1 = Some (Inr balance, pe')" "r = Inr (hex_quantity (unat balance))"
proof (cases "get_balance_params params")
  case None
  then show thesis using assms refused[of "invalid_params (ExpectsAddressAndBlock params)"]
    by (auto simp: eth_get_balance_def invalid_params_def documented_codes_def)
next
  case (Some ab)
  obtain a b where ab: "get_balance_params params = Some (a, b)" using Some by (cases ab) auto
  note st = assms[unfolded eth_get_balance_def ab option.case prod.case]
  show thesis
  proof (cases "parse_address20 a")
    case None
    then show thesis using st refused[of "invalid_params BadAddress"] by (auto simp: invalid_params_def documented_codes_def)
  next
    case (Some addr20)
    note st = st[unfolded Some option.case]
    obtain x pe1 where h: "private_head rx deadline pe = (x, pe1)" by fastforce
    show thesis
    proof (cases x)
      case (Inl e)
      then show thesis using st h failed[of e] by simp
    next
      case (Inr head)
      note st = st[unfolded h Inr prod.case sum.case]
      show thesis
      proof (cases "classify_block_param b head")
        case (Inl e)
        then show thesis using st refused[OF _ classify_codes[OF Inl]] by simp
      next
        case (Inr u)
        note st = st[unfolded Inr sum.case]
        then obtain y where g: "get_balance rx deadline addr20 pe1 = Some (y, pe')" by auto
        show thesis
        proof (cases y)
          case (Inl e)
          then show thesis using st g failed[of e] by simp
        next
          case (Inr balance)
          have "classify_block_param b head = Inr ()" using \<open>classify_block_param b head = Inr u\<close> by simp
          then show thesis using st g Inr answered[OF ab Some h[unfolded \<open>x = Inr head\<close>]] by simp
        qed
      qed
    qed
  qed
qed

lemma dispatch_codes: "dispatch rx deadline method params pe = Some (Inl (RpcFailed e), pe') \<Longrightarrow> je_code e \<in> documented_codes"
proof (cases "method = ''eth_getBalance''")
  case True
  moreover assume "dispatch rx deadline method params pe = Some (Inl (RpcFailed e), pe')"
  ultimately have "eth_get_balance rx deadline params pe = Some (Inl (RpcFailed e), pe')" by (simp add: dispatch_def)
  then show ?thesis
  proof (cases rule: eth_get_balance_cases)
    case (failed e')
    then show ?thesis using handler_end_of_code[of e' e] by simp
  qed auto
next
  case False
  assume "dispatch rx deadline method params pe = Some (Inl (RpcFailed e), pe')"
  then show ?thesis using False handler_end_of_code[of _ e]
    by (auto simp: dispatch_def method_not_found_def documented_codes_def split: if_splits prod.splits sum.splits)
qed

text \<open>What a request leads to.\<close>

lemma handle_cases:
  assumes "handle fx deadline body fr = Some (reply, fr')"
  obtains (refused) e where "reply = JsonReply (envelope (ft_text fx) (request_id fx body) (Inl e))" "je_code e \<in> documented_codes" "fr' = fr"
      "\<And>v meth params. ft_parse fx body = Inr v \<Longrightarrow> parse_method_and_params v = Inr (meth, params) \<Longrightarrow> meth \<notin> set known_methods \<and> e = method_not_found"
  | (forwarded) v meth params upstream where "ft_parse fx body = Inr v" "parse_method_and_params v = Inr (meth, params)"
      "meth \<notin> set known_methods" "pe_proxy_upstream (fr_eth fr) = Some upstream" "proxy_forward fx deadline upstream body fr = (reply, fr')"
  | (dispatched) v meth params r pe' where "ft_parse fx body = Inr v" "parse_method_and_params v = Inr (meth, params)"
      "meth \<in> set known_methods" "dispatch (ft_core fx) deadline meth params (fr_eth fr) = Some (r, pe')"
      "fr' = fr\<lparr> fr_eth := pe' \<rparr>" "reply = (case r of Inl HandlerDropped \<Rightarrow> RequestTimeout
         | Inl (RpcFailed e) \<Rightarrow> JsonReply (envelope (ft_text fx) (request_id fx body) (Inl e))
         | Inr v \<Rightarrow> JsonReply (envelope (ft_text fx) (request_id fx body) (Inr v)))"
proof (cases "ft_parse fx body")
  case (Inl e)
  then show thesis using assms refused[of "parse_error e"]
    by (auto simp: handle_def request_id_def parse_error_def documented_codes_def)
next
  case (Inr v)
  note st = assms[unfolded handle_def Inr sum.case Let_def] and v = Inr
  have ident: "(case json_get v ''id'' of Some i \<Rightarrow> i | None \<Rightarrow> JNull) = request_id fx body" by (simp add: request_id_def v)
  note st = st[unfolded ident]
  show thesis
  proof (cases "parse_method_and_params v")
    case (Inl e)
    show thesis by (rule refused[of e]) (use st v Inl parse_method_codes[OF Inl] in auto)
  next
    case (Inr mp)
    obtain meth params where mp: "parse_method_and_params v = Inr (meth, params)" using Inr by (cases mp) auto
    note st = st[unfolded mp sum.case prod.case]
    show thesis
    proof (cases "meth \<in> set known_methods")
      case True
      then show thesis using st v mp dispatched[OF v mp True] by auto
    next
      case False
      show thesis
      proof (cases "pe_proxy_upstream (fr_eth fr)")
        case None
        show thesis by (rule refused[of method_not_found]) (use st v mp False None in \<open>auto simp: method_not_found_def documented_codes_def\<close>)
      next
        case (Some upstream)
        then show thesis using st forwarded[OF v mp False Some] False by simp
      qed
    qed
  qed
qed

lemma router_handle:
  "router fx body fr = Some (reply, fr') \<Longrightarrow> reply = PayloadTooLarge \<and> fr' = fr \<or>
   handle fx (Some (hc_now (pe_pir (fr_eth fr)) + rpc_request_timeout)) body fr = Some (reply, fr')"
  by (auto simp: router_def split: if_splits)

lemma proxy_forward_state:
  "proxy_forward fx deadline upstream body fr = (reply, fr') \<Longrightarrow>
   fr_forwarded fr' = fr_forwarded fr @ [(upstream, body)] \<and> pe_session (fr_eth fr') = pe_session (fr_eth fr) \<and>
   hc_sent (pe_pir (fr_eth fr')) = hc_sent (pe_pir (fr_eth fr)) \<and> (\<forall>j. reply \<noteq> JsonReply j)"
  by (auto simp: proxy_forward_def Let_def split: sum.splits if_splits)

section \<open>A bundle that takes longer than a request may\<close>

text \<open>The server is ahead of the session and no longer has its delta.\<close>

definition left_behind :: "('p, 'st) rpc_ext \<Rightarrow> string \<Rightarrow> string \<Rightarrow> u64 \<Rightarrow> bool" where
  "left_behind rx base epoch at \<longleftrightarrow>
     (\<forall>sent. \<exists>head rp. hx_net (re_http rx) sent (GetReq (base @ ''/head'')) = Inr rp \<and>
        ok_body rp max_tiny_body_bytes = Inr (u64_le head) \<and> at < head) \<and>
     (\<forall>sent to. \<exists>rp. hx_net (re_http rx) sent (GetReq (base @ ''/sync?'' @ sync_query at to epoch)) = Inr rp \<and> rp_status rp = 409)"

definition slow_setup :: "('p, 'st) rpc_ext \<Rightarrow> string \<Rightarrow> bool" where
  "slow_setup rx base \<longleftrightarrow> (\<forall>sent. rpc_request_timeout < hx_ns (re_http rx) sent (GetReq (base @ ''/setup'')))"

text \<open>Requests one after the other, each after a pause and with its own deadline.\<close>

fun timed_lookups :: "('p, 'st) rpc_ext \<Rightarrow> (nat \<times> bytes) list \<Rightarrow> 'st private_eth \<Rightarrow> ((call_end + balance) list \<times> 'st private_eth) option" where
  "timed_lookups rx [] pe = Some ([], pe)"
| "timed_lookups rx ((pause, addr) # calls) pe =
     (let t = hc_now (pe_pir pe) + pause in
      Option.bind (get_balance rx (Some (t + rpc_request_timeout)) addr (pe\<lparr> pe_pir := (pe_pir pe)\<lparr> hc_now := t \<rparr> \<rparr>)) (\<lambda>(r, pe).
      map_option (\<lambda>(rs, pe). (r # rs, pe)) (timed_lookups rx calls pe)))"

definition untouched :: "'st private_eth \<Rightarrow> 'st private_eth \<Rightarrow> bool" where
  "untouched pe pe' \<longleftrightarrow> pe_session pe' = pe_session pe \<and> hc_base (pe_pir pe') = hc_base (pe_pir pe) \<and>
     hc_now (pe_pir pe) \<le> hc_now (pe_pir pe')"

lemma pir_call_outcome:
  assumes "f (pe_pir pe) = (x, c)" and "hc_base c = hc_base (pe_pir pe)" and "hc_now (pe_pir pe) \<le> hc_now c"
  shows "\<exists>pe'. pir_call (Some d) f pe = ((if d < hc_now c then Inl Dropped else map_err (\<lambda>e. Failed (Pir e)) x), pe') \<and> untouched pe pe'"
  using assms by (auto simp: pir_call_def awaited_def past_def untouched_def)

lemma head_left_behind:
  assumes "left_behind rx (hc_base (pe_pir pe)) epoch at"
  shows "\<exists>r pe'. private_head rx (Some d) pe = (r, pe') \<and> untouched pe pe' \<and> (r = Inl Dropped \<or> (\<exists>head. r = Inr head \<and> at < head))"
proof -
  let ?req = "GetReq (hc_base (pe_pir pe) @ ''/head'')"
  obtain head rp where rp: "hx_net (re_http rx) (hc_sent (pe_pir pe)) ?req = Inr rp"
    "ok_body rp max_tiny_body_bytes = Inr (u64_le head)" "at < head" using assms unfolding left_behind_def by blast
  obtain x c where s: "send_measured (re_http rx) CallHead ?req 0 max_tiny_body_bytes False (pe_pir pe) = (x, c)" by fastforce
  have x: "x = Inr \<lparr> ms_body = Some (u64_le head), ms_headers = rp_headers rp \<rparr>" using send_measured_cases[OF s] rp by simp
  have h: "client_head (re_http rx) (pe_pir pe) = (Inr head, c)" by (simp add: client_head_def s x body_of_def)
  obtain pe' where "private_head rx (Some d) pe = ((if d < hc_now c then Inl Dropped else Inr head), pe')" "untouched pe pe'"
    using pir_call_outcome[of "client_head (re_http rx)" pe "Inr head" c d] h send_measured_cases[OF s] by (auto simp: private_head_def)
  then show ?thesis using rp(3) by (cases "d < hc_now c") auto
qed

lemma sync_left_behind:
  assumes "left_behind rx (hc_base (pe_pir pe)) (se_epoch (pe_session pe)) (se_pending_head (pe_session pe))"
  shows "\<exists>r pe'. sync_call rx (Some d) target pe = (r, pe') \<and> untouched pe pe' \<and> (r = Inl Dropped \<or> r = Inr None)"
proof -
  let ?se = "pe_session pe"
  let ?req = "GetReq (hc_base (pe_pir pe) @ ''/sync?'' @ sync_query (se_pending_head ?se) target (se_epoch ?se))"
  let ?f = "client_sync (re_http rx) (se_pending_head ?se) target (se_epoch ?se) (se_plaintext_bits ?se) (of_nat (se_arity ?se))"
  obtain rp where rp: "hx_net (re_http rx) (hc_sent (pe_pir pe)) ?req = Inr rp" "rp_status rp = 409"
    using assms unfolding left_behind_def by blast
  obtain x c where s: "send_measured (re_http rx) CallSync ?req 0 max_sync_body_bytes True (pe_pir pe) = (x, c)" by fastforce
  have x: "x = Inr \<lparr> ms_body = None, ms_headers = rp_headers rp \<rparr>" using send_measured_cases[OF s] rp by simp
  have h: "?f (pe_pir pe) = (Inr None, c)" unfolding client_sync_def s x by simp
  obtain pe' where "sync_call rx (Some d) target pe = ((if d < hc_now c then Inl Dropped else Inr None), pe')" "untouched pe pe'"
    using pir_call_outcome[of ?f pe "Inr None" c d] h send_measured_cases[OF s] by (auto simp: sync_call_def)
  then show ?thesis by (cases "d < hc_now c") auto
qed

lemma untouched_trans: "untouched a b \<Longrightarrow> untouched b c \<Longrightarrow> untouched a c"
  by (auto simp: untouched_def)

lemma attempt_left_behind:
  assumes lb: "left_behind rx (hc_base (pe_pir pe)) (se_epoch (pe_session pe)) (se_pending_head (pe_session pe))"
  shows "\<exists>r pe'. try_get_balance rx (Some d) key (pe, sink) = Some (r, pe', sink) \<and> untouched pe pe' \<and>
    r \<in> {Inl Dropped, Inl (Failed Stalled)}"
proof -
  obtain x pe1 where h: "private_head rx (Some d) pe = (x, pe1)" "untouched pe pe1"
    "x = Inl Dropped \<or> (\<exists>head. x = Inr head \<and> se_pending_head (pe_session pe) < head)" using head_left_behind[OF lb] by blast
  show ?thesis
  proof (cases "x = Inl Dropped")
    case True
    then show ?thesis using h by (simp add: try_get_balance_def and_then_call_def)
  next
    case False
    then obtain head where x: "x = Inr head" "se_pending_head (pe_session pe) < head" using h(3) by blast
    have same: "pe_session pe1 = pe_session pe" "hc_base (pe_pir pe1) = hc_base (pe_pir pe)" using h(2) by (simp_all add: untouched_def)
    have lt: "\<not> head \<le> se_pending_head (pe_session pe1)" using x(2) same by simp
    have lb1: "left_behind rx (hc_base (pe_pir pe1)) (se_epoch (pe_session pe1)) (se_pending_head (pe_session pe1))" using lb same by simp
    obtain y pe2 where s: "sync_call rx (Some d) head pe1 = (y, pe2)" "untouched pe1 pe2" "y = Inl Dropped \<or> y = Inr None"
      using sync_left_behind[OF lb1] by blast
    have st: "sync_to rx (Some d) head (pe1, sink) = ((if y = Inl Dropped then Inl Dropped else Inl (Failed Stalled)), pe2, sink)"
      using lt s(1,3) by (auto simp: sync_to_def sync_call_def Let_def)
    show ?thesis using s(3) untouched_trans[OF h(2) s(2)]
      by (auto simp: try_get_balance_def and_then_call_def h(1) x(1) st)
  qed
qed

lemma slow_rebootstrap:
  assumes "slow_setup rx (hc_base (pe_pir pe))" and "d \<le> hc_now (pe_pir pe) + rpc_request_timeout"
  shows "\<exists>pe'. rebootstrap rx (Some d) pe = (Inl Dropped, pe') \<and> untouched pe pe'"
proof -
  obtain x c where s: "setup_with_mode (re_http rx) (pe_pir pe) = (x, c)" by fastforce
  obtain y c1 where m: "send_measured (re_http rx) CallSetup (setup_request_of (pe_pir pe)) 0 max_setup_body_bytes False (pe_pir pe) = (y, c1)"
    by fastforce
  have "hc_now c = hc_now c1" using s by (auto simp: setup_with_mode_def m split: sum.splits prod.splits)
  then have "hc_now c = hc_now (pe_pir pe) + hx_ns (re_http rx) (hc_sent (pe_pir pe)) (setup_request_of (pe_pir pe))"
    using send_measured_cases[OF m] by simp
  moreover have "rpc_request_timeout < hx_ns (re_http rx) (hc_sent (pe_pir pe)) (setup_request_of (pe_pir pe))"
    using assms(1) by (simp add: slow_setup_def)
  ultimately have late: "d < hc_now c" using assms(2) by simp
  obtain pe' where "pir_call (Some d) (setup_with_mode (re_http rx)) pe = (Inl Dropped, pe')" "untouched pe pe'"
    using pir_call_outcome[of "setup_with_mode (re_http rx)" pe x c d] s setup_with_mode_request[OF s] late by auto
  then show ?thesis by (simp add: rebootstrap_def)
qed

lemma slow_lookup:
  assumes lb: "left_behind rx (hc_base (pe_pir pe)) (se_epoch (pe_session pe)) (se_pending_head (pe_session pe))"
    and slow: "slow_setup rx (hc_base (pe_pir pe))" and d: "d \<le> hc_now (pe_pir pe) + rpc_request_timeout"
  shows "\<exists>r pe'. get_balance rx (Some d) addr pe = Some (r, pe') \<and> untouched pe pe' \<and> r \<in> {Inl Dropped, Inl (Failed Stalled)}"
proof -
  obtain r pe1 where t: "try_get_balance rx (Some d) (re_keccak rx addr) (pe, None) = Some (r, pe1, None)" "untouched pe pe1"
    "r \<in> {Inl Dropped, Inl (Failed Stalled)}" using attempt_left_behind[OF lb] by blast
  show ?thesis
  proof (cases "r = Inl Dropped")
    case True
    then show ?thesis using t by (simp add: get_balance_def get_balance_inner_def on_timings_def)
  next
    case False
    then have r: "r = Inl (Failed Stalled)" using t(3) by blast
    obtain ok pe2 where s: "take_rebootstrap_slot pe1 = (ok, pe2)" by fastforce
    have u2: "untouched pe1 pe2" using s by (auto simp: take_rebootstrap_slot_def untouched_def Let_def split: option.splits if_splits)
    note u = untouched_trans[OF t(2) u2]
    show ?thesis
    proof (cases ok)
      case False
      then show ?thesis using t r s by (simp add: get_balance_def get_balance_inner_def on_timings_def)
    next
      case True
      have "slow_setup rx (hc_base (pe_pir pe2))" "d \<le> hc_now (pe_pir pe2) + rpc_request_timeout"
        using slow d u by (simp_all add: untouched_def)
      then obtain pe3 where b: "rebootstrap rx (Some d) pe2 = (Inl Dropped, pe3)" "untouched pe2 pe3" using slow_rebootstrap by blast
      then show ?thesis using t(1) r s True untouched_trans[OF u b(2)]
        by (simp add: get_balance_def get_balance_inner_def on_timings_def and_then_call_def)
    qed
  qed
qed

lemma slow_lookups:
  assumes "left_behind rx (hc_base (pe_pir pe)) (se_epoch (pe_session pe)) (se_pending_head (pe_session pe))"
    and "slow_setup rx (hc_base (pe_pir pe))"
  shows "\<exists>rs pe'. timed_lookups rx calls pe = Some (rs, pe') \<and> length rs = length calls \<and>
    set rs \<subseteq> {Inl Dropped, Inl (Failed Stalled)} \<and> pe_session pe' = pe_session pe"
  using assms
proof (induction calls arbitrary: pe)
  case (Cons call calls)
  obtain pause addr where call: "call = (pause, addr)" by (cases call)
  let ?t = "hc_now (pe_pir pe) + pause" and ?pe = "pe\<lparr> pe_pir := (pe_pir pe)\<lparr> hc_now := hc_now (pe_pir pe) + pause \<rparr> \<rparr>"
  obtain r pe1 where g: "get_balance rx (Some (?t + rpc_request_timeout)) addr ?pe = Some (r, pe1)" "untouched ?pe pe1"
    "r \<in> {Inl Dropped, Inl (Failed Stalled)}"
    using slow_lookup[of rx ?pe "?t + rpc_request_timeout" addr] Cons.prems by auto
  have same: "pe_session pe1 = pe_session pe" "hc_base (pe_pir pe1) = hc_base (pe_pir pe)" using g(2) by (simp_all add: untouched_def)
  obtain rs pe' where "timed_lookups rx calls pe1 = Some (rs, pe')" "length rs = length calls"
    "set rs \<subseteq> {Inl Dropped, Inl (Failed Stalled)}" "pe_session pe' = pe_session pe1"
    using Cons.IH[of pe1] Cons.prems same by auto
  then show ?case using g(1,3) same by (simp add: call Let_def)
qed simp

section \<open>Properties\<close>

text \<open>C6. Only what is denied is ever forwarded.  A request adds to what the upstream has seen only if the
  operator configured one and the request names a method other than the four that are answered; then exactly the
  bytes of the request are forwarded, the session stays as it was and the PIR server is asked nothing.
  Without an upstream such a request ends with "method not found" and leaves no trace.\<close>

theorem only_denied_methods_are_forwarded:
  assumes "router fx body fr = Some (reply, fr')"
  shows "(fr_forwarded fr' = fr_forwarded fr \<or>
     (\<exists>upstream v method params. pe_proxy_upstream (fr_eth fr) = Some upstream \<and> ft_parse fx body = Inr v \<and>
        parse_method_and_params v = Inr (method, params) \<and>
        method \<notin> {''eth_getBalance'', ''eth_chainId'', ''net_version'', ''eth_blockNumber''} \<and>
        fr_forwarded fr' = fr_forwarded fr @ [(upstream, body)] \<and> pe_session (fr_eth fr') = pe_session (fr_eth fr) \<and>
        hc_sent (pe_pir (fr_eth fr')) = hc_sent (pe_pir (fr_eth fr)))) \<and>
    (\<forall>v method params. pe_proxy_upstream (fr_eth fr) = None \<and> length body \<le> 1048576 \<and> ft_parse fx body = Inr v \<and>
       parse_method_and_params v = Inr (method, params) \<and>
       method \<notin> {''eth_getBalance'', ''eth_chainId'', ''net_version'', ''eth_blockNumber''} \<longrightarrow>
       fr' = fr \<and> reply = JsonReply (envelope (ft_text fx) (request_id fx body) (Inl method_not_found)))"
proof (cases "length body \<le> max_rpc_body_bytes")
  case False
  then show ?thesis using assms by (simp add: router_def max_rpc_body_bytes_def)
next
  case True
  have k: "set known_methods = {''eth_getBalance'', ''eth_chainId'', ''net_version'', ''eth_blockNumber''}" by (simp add: known_methods_def)
  have "handle fx (Some (hc_now (pe_pir (fr_eth fr)) + rpc_request_timeout)) body fr = Some (reply, fr')"
    using assms True by (simp add: router_def)
  then show ?thesis
  proof (cases rule: handle_cases)
    case (refused e)
    then show ?thesis unfolding k[symmetric] by auto
  next
    case (forwarded v meth params upstream)
    then show ?thesis using proxy_forward_state[OF forwarded(5)] unfolding k[symmetric] by auto
  next
    case (dispatched v meth params r pe')
    then show ?thesis unfolding k[symmetric] by auto
  qed
qed

text \<open>C7. A reply is a result or an error, never both, and for the caller's request.  Every JSON reply has the
  version and the id of the request (null if it has none or is not JSON), and either a result and no
  error, or no result and an error with a documented code and a message.\<close>

theorem every_reply_is_result_xor_error:
  assumes "router fx body fr = Some (JsonReply j, fr')"
  shows "json_get j ''jsonrpc'' = Some (JStr ''2.0'') \<and> json_get j ''id'' = Some (request_id fx body) \<and>
    ((\<exists>v. json_get j ''result'' = Some v \<and> json_get j ''error'' = None) \<or>
     (json_get j ''result'' = None \<and> (\<exists>code msg. json_get j ''error'' =
        Some (JObj [(''code'', JInt code), (''message'', JStr msg)]) \<and>
        code \<in> {- 32700, - 32600, - 32602, - 32601, - 32000, - 32603})))"
proof -
  from router_handle[OF assms]
  have "handle fx (Some (hc_now (pe_pir (fr_eth fr)) + rpc_request_timeout)) body fr = Some (JsonReply j, fr')" by simp
  then show ?thesis
  proof (cases rule: handle_cases)
    case (refused e)
    then show ?thesis by (auto simp: json_get_envelope documented_codes_def)
  next
    case (forwarded v meth params upstream)
    then show ?thesis using proxy_forward_state[OF forwarded(5)] by simp
  next
    case (dispatched v meth params r pe')
    then consider e' where "r = Inl (RpcFailed e')" "j = envelope (ft_text fx) (request_id fx body) (Inl e')"
      | v' where "j = envelope (ft_text fx) (request_id fx body) (Inr v')"
      by (auto split: sum.splits handler_end.splits)
    then show ?thesis
    proof cases
      case 1
      then have "je_code e' \<in> documented_codes" using dispatched(4) dispatch_codes by blast
      then show ?thesis using 1 by (auto simp: json_get_envelope documented_codes_def)
    qed (auto simp: json_get_envelope)
  qed
qed

lemma from_hex_less: "from_hex lim s = Some n \<Longrightarrow> n < lim"
proof -
  have p: "parse_hex_digits lim v cs = Some n \<Longrightarrow> cs \<noteq> [] \<or> v < lim \<Longrightarrow> n < lim" for v cs n
    by (induction lim v cs rule: parse_hex_digits.induct) (auto split: option.splits if_splits)
  show "from_hex lim s = Some n \<Longrightarrow> n < lim" by (auto simp: from_hex_def Let_def split: if_splits dest: p)
qed

lemma classified_as_head:
  assumes "classify_block_param s head = Inr u"
  shows "s \<in> {''latest'', ''pending'', ''safe'', ''finalized''} \<or>
    (\<exists>hex. strip_0x s = Some hex \<and> from_hex (2 ^ 64) hex = Some (unat head))"
proof (cases "s \<in> {''latest'', ''pending'', ''safe'', ''finalized''}")
  case False
  then obtain hex k where h: "strip_0x s = Some hex" "from_hex (2 ^ 64) hex = Some k" "of_nat k = head"
    using assms by (auto simp: classify_block_param_def ok_or_def Let_def split: option.splits if_splits)
  have "unat (of_nat k :: u64) = k" using from_hex_less[OF h(2)] by (simp add: unsigned_of_nat take_bit_nat_eq_self)
  then show ?thesis using h by auto
qed simp

text \<open>C8. A balance is for the head and for the account that was asked.  If the answer to
  \<open>eth_getBalance\<close> is a result, its parameters were an address and a block that is a tag of the head or
  the number of the head that the server reported to this request, and the result is the
  hexadecimal quantity of a balance that rests on an answer to the query for the hash of exactly
  this address.\<close>

theorem balance_reply_is_for_the_head:
  assumes "router fx body fr = Some (JsonReply j, fr')" and "json_get j ''result'' = Some q"
    and "ft_parse fx body = Inr v" and "parse_method_and_params v = Inr (''eth_getBalance'', params)"
  shows "\<exists>addr_str block_str addr20 head pe1 balance. get_balance_params params = Some (addr_str, block_str) \<and>
    parse_address20 addr_str = Some addr20 \<and>
    private_head (ft_core fx) (Some (hc_now (pe_pir (fr_eth fr)) + rpc_request_timeout)) (fr_eth fr) = (Inr head, pe1) \<and>
    (block_str \<in> {''latest'', ''pending'', ''safe'', ''finalized''} \<or>
     (\<exists>hex. strip_0x block_str = Some hex \<and> from_hex (2 ^ 64) hex = Some (unat head))) \<and>
    q = JStr (''0x'' @ show_hex (unat balance)) \<and>
    rests_on_answer (ft_core fx) (re_keccak (ft_core fx) addr20) balance (fr_eth fr')"
proof -
  let ?d = "Some (hc_now (pe_pir (fr_eth fr)) + rpc_request_timeout)"
  have k: "''eth_getBalance'' \<in> set known_methods" by (simp add: known_methods_def)
  from router_handle[OF assms(1)] have "handle fx ?d body fr = Some (JsonReply j, fr')" by simp
  then obtain r pe' where r: "dispatch (ft_core fx) ?d ''eth_getBalance'' params (fr_eth fr) = Some (r, pe')" "fr' = fr\<lparr> fr_eth := pe' \<rparr>"
    and j: "JsonReply j = (case r of Inl HandlerDropped \<Rightarrow> RequestTimeout
         | Inl (RpcFailed e) \<Rightarrow> JsonReply (envelope (ft_text fx) (request_id fx body) (Inl e))
         | Inr v \<Rightarrow> JsonReply (envelope (ft_text fx) (request_id fx body) (Inr v)))"
    using assms(3,4) k by (cases rule: handle_cases) auto
  then have q: "r = Inr q" using assms(2) by (auto simp: json_get_envelope split: sum.splits handler_end.splits)
  have "eth_get_balance (ft_core fx) ?d params (fr_eth fr) = Some (Inr q, pe')" using r(1) q by (simp add: dispatch_def)
  then show ?thesis
  proof (cases rule: eth_get_balance_cases)
    case (answered addr_str block_str addr20 head pe1 balance)
    have "rests_on_answer (ft_core fx) (re_keccak (ft_core fx) addr20) balance pe'" by (rule lookup_rests_on_answer[OF answered(5)])
    moreover have "block_str \<in> {''latest'', ''pending'', ''safe'', ''finalized''} \<or>
       (\<exists>hex. strip_0x block_str = Some hex \<and> from_hex (2 ^ 64) hex = Some (unat head))"
      by (rule classified_as_head[OF answered(4)])
    ultimately show ?thesis using answered r(2) by (auto simp: hex_quantity_def)
  qed auto
qed

text \<open>C9. A bundle that takes longer to download than a request may never arrives.  When the server no longer
  has the delta of the session and \<open>/setup\<close> takes more than the 60 seconds of a request, then every lookup,
  whenever it is made, ends in a timeout or as stalled, and the session is the old one for ever: each
  recovery is dropped before it can be kept, and within 300 seconds of it none is even tried.\<close>

theorem slow_bundle_is_never_recovered:
  assumes "left_behind rx (hc_base (pe_pir pe)) (se_epoch (pe_session pe)) (se_pending_head (pe_session pe))"
    and "slow_setup rx (hc_base (pe_pir pe))"
  shows "\<exists>rs pe'. timed_lookups rx calls pe = Some (rs, pe') \<and> length rs = length calls \<and>
    set rs \<subseteq> {Inl Dropped, Inl (Failed Stalled)} \<and> pe_session pe' = pe_session pe"
  using slow_lookups[OF assms] by blast

text \<open>A front end over the deployment of the last theory: it parses three bodies.\<close>

definition sample_ask :: json where
  "sample_ask = JObj [(''id'', JInt 7), (''method'', JStr ''eth_getBalance''),
     (''params'', JArr [JStr (''0x'' @ hex_bytes (replicate 20 1)), JStr ''latest''])]"

definition sample_call :: json where
  "sample_call = JObj [(''id'', JInt 8), (''method'', JStr ''eth_call'')]"

definition sample_env :: "(toy_params, u32) front_env" where
  "sample_env = \<lparr> ft_core = lookup_rx, ft_parse = (\<lambda>bs. if bs = [1] then Inr sample_ask else if bs = [2] then Inr sample_call else Inl ''eof''),
     ft_text = (\<lambda>_. ''message''), ft_upstream = (\<lambda>_ _ _. Inl ''down''), ft_upstream_ns = (\<lambda>_. 3) \<rparr>"

definition sample_front :: "u32 front" where
  "sample_front = \<lparr> fr_eth = lookup_start, fr_forwarded = [] \<rparr>"

lemma sample_denied:
  "router sample_env [2] sample_front =
     Some (JsonReply (envelope (\<lambda>_. ''message'') (JInt 8) (Inl method_not_found)), sample_front)"
  by (simp add: router_def handle_def sample_env_def sample_call_def parse_method_and_params_def ok_or_def known_methods_def
    sample_front_def lookup_start_def private_eth_from_setup_def max_rpc_body_bytes_def)

lemma sample_balance:
  "\<exists>pe'. router sample_env [1] sample_front =
     Some (JsonReply (envelope (\<lambda>_. ''message'') (JInt 7) (Inr (JStr ''0x5''))), sample_front\<lparr> fr_eth := pe' \<rparr>)"
proof -
  let ?d = "Some (hc_now (pe_pir lookup_start) + rpc_request_timeout)"
  have d: "\<not> past ?d (5 * (length ([] :: request list) + 1))" "\<not> past ?d (5 * (length [GetReq ''u/head''] + 2))"
    by (simp_all add: past_def rpc_request_timeout_def)
  obtain pe' where b: "get_balance lookup_rx ?d (replicate 20 1) (lookup_start\<lparr> pe_pir := lookup_after [GetReq ''u/head''] \<rparr>) = Some (Inr 5, pe')"
    using lookup_runs_from[OF d(2)] by blast
  have pe: "lookup_start\<lparr> pe_pir := lookup_after [] \<rparr> = lookup_start" by (simp flip: lookup_fields(1))
  have h: "private_head lookup_rx ?d lookup_start = (Inr 7, lookup_start\<lparr> pe_pir := lookup_after [GetReq ''u/head''] \<rparr>)"
    using lookup_head_call[OF d(1), of lookup_start] unfolding pe by simp
  have a: "parse_address20 (''0x'' @ hex_bytes (replicate 20 1)) = Some (replicate 20 1)"
    using parse_address_hex[of "replicate 20 1"] by (simp add: parse_address20_def parse_address_def)
  have x: "show_hex 5 = ''5''" by code_simp
  have p: "parse_method_and_params sample_ask = Inr (''eth_getBalance'', JArr [JStr (''0x'' @ hex_bytes (replicate 20 1)), JStr ''latest''])"
    by (simp add: sample_ask_def parse_method_and_params_def ok_or_def)
  have e: "eth_get_balance lookup_rx ?d (JArr [JStr (''0x'' @ hex_bytes (replicate 20 1)), JStr ''latest'']) lookup_start =
      Some (Inr (JStr ''0x5''), pe')"
    unfolding eth_get_balance_def by (simp only: get_balance_params_def json.case list.case option.case prod.case a h sum.case)
      (simp add: classify_block_param_def b hex_quantity_def x)
  have i: "json_get sample_ask ''id'' = Some (JInt 7)" by (simp add: sample_ask_def)
  show ?thesis
    by (rule exI[of _ pe']) (simp add: router_def handle_def max_rpc_body_bytes_def sample_env_def p known_methods_def dispatch_def
      sample_front_def e i del: append.simps)
qed

lemma only_denied_methods_are_forwarded_witness:
  "\<exists>j. router sample_env [2] sample_front = Some (JsonReply j, sample_front) \<and>
    j = envelope (\<lambda>_. ''message'') (request_id sample_env [2]) (Inl method_not_found)"
proof -
  have "ft_parse sample_env [2] = Inr sample_call" "parse_method_and_params sample_call = Inr (''eth_call'', JArr [])"
    "pe_proxy_upstream (fr_eth sample_front) = None" "ft_text sample_env = (\<lambda>_. ''message'')"
    by (simp_all add: sample_env_def sample_call_def parse_method_and_params_def ok_or_def sample_front_def lookup_start_def private_eth_from_setup_def)
  then show ?thesis using only_denied_methods_are_forwarded[OF sample_denied, THEN conjunct2, rule_format, of sample_call "''eth_call''" "JArr []"]
      sample_denied by simp
qed

lemma every_reply_is_result_xor_error_witness:
  "\<exists>j. router sample_env [2] sample_front = Some (JsonReply j, sample_front) \<and> json_get j ''id'' = Some (JInt 8) \<and>
    json_get j ''result'' = None"
proof -
  have "request_id sample_env [2] = JInt 8" by (simp add: request_id_def sample_env_def sample_call_def)
  then show ?thesis using every_reply_is_result_xor_error[OF sample_denied] sample_denied by (auto simp: json_get_envelope)
qed

lemma balance_reply_is_for_the_head_witness:
  "\<exists>j fr'. router sample_env [1] sample_front = Some (JsonReply j, fr') \<and> json_get j ''result'' = Some (JStr ''0x5'') \<and>
    (\<exists>balance. rests_on_answer lookup_rx [1] balance (fr_eth fr') \<and> ''0x5'' = ''0x'' @ show_hex (unat balance))"
proof -
  obtain pe' where r: "router sample_env [1] sample_front =
     Some (JsonReply (envelope (\<lambda>_. ''message'') (JInt 7) (Inr (JStr ''0x5''))), sample_front\<lparr> fr_eth := pe' \<rparr>)"
    using sample_balance by blast
  have f: "ft_parse sample_env [1] = Inr sample_ask" "ft_core sample_env = lookup_rx" by (simp_all add: sample_env_def)
  have p: "parse_method_and_params sample_ask = Inr (''eth_getBalance'', JArr [JStr (''0x'' @ hex_bytes (replicate 20 1)), JStr ''latest''])"
    by (simp add: sample_ask_def parse_method_and_params_def ok_or_def)
  from balance_reply_is_for_the_head[OF r json_get_envelope(1) f(1) p]
  obtain addr20 balance where "JStr ''0x5'' = JStr (''0x'' @ show_hex (unat balance))"
    "rests_on_answer lookup_rx (re_keccak lookup_rx addr20) balance pe'" unfolding f(2) by auto
  then show ?thesis using r by (intro exI conjI) (auto simp: json_get_envelope lookup_fields)
qed

text \<open>The deployment at block 8 with its delta gone and a bundle that takes 480 seconds.\<close>

definition slow_rx :: "(toy_params, u32) rpc_ext" where
  "slow_rx = lookup_rx\<lparr> re_http := lookup_http\<lparr>
     hx_net := (\<lambda>_ req. Inr (if req = GetReq ''u/head'' then whole_reply (u64_le 8) else (whole_reply [])\<lparr> rp_status := 409 \<rparr>)),
     hx_ns := (\<lambda>_ req. if req = GetReq ''u/setup'' then 480000000000 else 5) \<rparr> \<rparr>"

lemma slow_bundle_is_never_recovered_witness:
  "\<exists>rs pe'. timed_lookups slow_rx [(0, replicate 20 1), (1000, replicate 20 1), (400000000000, replicate 20 2)] lookup_start = Some (rs, pe') \<and>
    length rs = 3 \<and> set rs \<subseteq> {Inl Dropped, Inl (Failed Stalled)} \<and> pe_session pe' = pe_session lookup_start"
proof -
  have base: "hc_base (pe_pir lookup_start) = ''u''" by (simp add: lookup_fields lookup_after_def)
  have behind: "left_behind slow_rx ''u'' epoch 7" for epoch
    by (auto simp: left_behind_def slow_rx_def whole_reply_def ok_body_def max_tiny_body_bytes_def intro!: exI[of _ 8])
  have l: "left_behind slow_rx (hc_base (pe_pir lookup_start)) (se_epoch (pe_session lookup_start))
      (se_pending_head (pe_session lookup_start))" unfolding base lookup_fields(2) by (rule behind)
  have s: "slow_setup slow_rx (hc_base (pe_pir lookup_start))" unfolding base by (simp add: slow_setup_def slow_rx_def rpc_request_timeout_def)
  let ?asks = "[(0, replicate 20 1), (1000, replicate 20 1), (400000000000, replicate 20 2)] :: (nat \<times> u8 list) list"
  have "length ?asks = 3" by simp
  then show ?thesis using slow_bundle_is_never_recovered[OF l s, of ?asks] by metis
qed

text \<open>A plus sign after the prefix is accepted as part of a block number.\<close>

lemma signed_block_accepted: "classify_block_param ''0x+5'' 5 = Inr ()"
  by (simp add: classify_block_param_def ok_or_def strip_0x_def from_hex_def hex_value_def)

end
