(* ===== verification/Browser.thy ===== *)
theory Browser
  imports Private_Eth
begin

text \<open>
  Model of \<open>crates/risepir-wasm/src/session.rs\<close> and \<open>abi.rs\<close>: the client in the browser.

  It is the private lookup of \<open>Private_Eth\<close> turned inside out: the host does the requests and hands the
  bodies in, the session checks at every step that it may be taken.  \<open>web_session\<close> is that session and
  \<open>abi\<close> the module state that the exported functions share, two byte buffers included.
  \<open>None\<close> is a panic, a trap of the module; an error text is the value that it is formatted from.
  The pointers into the buffers and the import that draws randomness (\<open>entropy.rs\<close>) are not modelled.

  The lemmas: the bodies that a successful native lookup receives make the browser give the same
  outcome; a status of \<open>risepir_finish\<close> rests on what the host handed in last, and "zero" on the
  mode it declared; and a query that gets no usable answer blocks every later one.
\<close>

section \<open>The session (\<open>session.rs\<close>)\<close>

datatype outcome =
    OutcomeFound balance
  | OutcomeZero
  | OutcomeUntracked
  | OutcomeDecodeFailed

datatype session_error =
    BadModeByte nat
  | BadAddressLen nat
  | QueryAlreadyInFlight
  | NoQueryInFlight
  | SyncRequired u64 u64          \<comment> \<open>at block, pending head\<close>
  | NoAnswer
  | NotInitialised
  | SessionWire wire_error
  | SessionCodec codec_error
  | SessionClient client_error

record in_flight =
  if_key :: address_hash
  if_ctx :: query_ctx
  if_answer :: "(u32 list list \<times> u64) option"

record 'st web_session =
  ws_client :: "'st rise_client"
  ws_widths :: "u32 list"
  ws_arity :: nat
  ws_plaintext_bits :: u32
  ws_complete :: bool
  ws_epoch :: string
  ws_pending_head :: u64
  ws_pinned_block :: u64
  ws_in_flight :: "in_flight option"

definition parse_mode :: "bytes \<Rightarrow> session_error + bool" where
  "parse_mode bs = (if bs = [0] then Inr False else if bs = [1] then Inr True else Inl (BadModeByte (length bs)))"

definition web_value_codec :: value_codec where
  "web_value_codec = \<lparr> key_tag_bits = 32, balance_bits = 96, checksum_bits = 16 \<rparr>"

definition web_decode :: "('p, 'st) rpc_ext \<Rightarrow> bytes \<Rightarrow> session_error + 'p wire_bundle" where
  "web_decode rx bs = map_err SessionWire (decode_setup (hx_lib (re_http rx)) bs)"

definition web_from_bundle :: "('p, 'st) rpc_ext \<Rightarrow> 'p wire_bundle \<Rightarrow> bool \<Rightarrow> 'st web_session" where
  "web_from_bundle rx bundle complete =
     \<lparr> ws_client = from_setup (re_be rx) (client_bundle rx bundle) web_value_codec,
       ws_widths = map sp_reshape_row_width (wb_backend_params bundle),
       ws_arity = cp_arity (re_params rx (wb_params bundle)),
       ws_plaintext_bits = cf_plaintext_bits (wb_params bundle),
       ws_complete = complete,
       ws_epoch = lineage_epoch (re_keccak rx) (hx_lib (re_http rx)) (wb_backend_params bundle),
       ws_pending_head = wb_block bundle,
       ws_pinned_block = wb_block bundle,
       ws_in_flight = None \<rparr>"

definition web_new :: "('p, 'st) rpc_ext \<Rightarrow> bytes \<Rightarrow> bytes \<Rightarrow> session_error + 'st web_session" where
  "web_new rx setup_body mode_body =
     and_then (parse_mode mode_body) (\<lambda>complete.
     and_then (web_decode rx setup_body) (\<lambda>bundle.
     Inr (web_from_bundle rx bundle complete)))"

definition web_delta_cells :: "'st web_session \<Rightarrow> nat" where
  "web_delta_cells s = delta_cells_count (ws_client s)"

definition web_ingest :: "bytes \<Rightarrow> 'st web_session \<Rightarrow> (session_error + u64) \<times> 'st web_session" where
  "web_ingest delta_bytes s =
     (case decode_block_delta delta_bytes (ws_plaintext_bits s) (of_nat (ws_arity s)) of
        Inl e \<Rightarrow> (Inl (SessionCodec e), s)
      | Inr delta \<Rightarrow>
          (case ingest_delta (ws_client s) delta of
             (Inl e, cl) \<Rightarrow> (Inl (SessionClient e), s\<lparr> ws_client := cl \<rparr>)
           | (Inr _, cl) \<Rightarrow> (Inr (delta_block delta), s\<lparr> ws_client := cl, ws_pending_head := delta_block delta \<rparr>)))"

definition web_build_query :: "('p, 'st) rpc_ext \<Rightarrow> bytes \<Rightarrow> 'st web_session \<Rightarrow> ((session_error + bytes) \<times> 'st web_session) option" where
  "web_build_query rx addr s =
     (if ws_in_flight s \<noteq> None then Some (Inl QueryAlreadyInFlight, s)
      else if length addr \<noteq> 20 then Some (Inl (BadAddressLen (length addr)), s)
      else
        let key = re_keccak rx addr in
        Option.bind (build_query (re_be rx) (ws_client s) key) (\<lambda>(queries, ctx, cl).
        Option.bind (encode_query_bundle queries) (\<lambda>body.
        Some (Inr body, s\<lparr> ws_client := cl,
          ws_in_flight := Some \<lparr> if_key = key, if_ctx = ctx, if_answer = None \<rparr> \<rparr>))))"

definition web_accept_answer :: "bytes \<Rightarrow> 'st web_session \<Rightarrow> (session_error + u64) \<times> 'st web_session" where
  "web_accept_answer resp_bytes s =
     (case decode_response_bundle resp_bytes (ws_widths s) (ws_arity s) of
        Inl e \<Rightarrow> (Inl (SessionWire e), s)
      | Inr decoded \<Rightarrow>
          (case ws_in_flight s of
             None \<Rightarrow> (Inl NoQueryInFlight, s)
           | Some slot \<Rightarrow> (Inr (snd decoded), s\<lparr> ws_in_flight := Some (slot\<lparr> if_answer := Some decoded \<rparr>) \<rparr>)))"

definition outcome_of :: "bool \<Rightarrow> lookup \<Rightarrow> outcome" where
  "outcome_of complete l =
     (case l of
        Found balance \<Rightarrow> OutcomeFound balance
      | NotFound \<Rightarrow> if complete then OutcomeZero else OutcomeUntracked
      | DecodeFailed \<Rightarrow> OutcomeDecodeFailed)"

definition web_finish :: "('p, 'st) rpc_ext \<Rightarrow> 'st web_session \<Rightarrow> ((session_error + outcome) \<times> 'st web_session) option" where
  "web_finish rx s =
     (case ws_in_flight s of
        None \<Rightarrow> Some (Inl NoQueryInFlight, s)
      | Some slot \<Rightarrow>
          (case if_answer slot of
             None \<Rightarrow> Some (Inl NoAnswer, s)
           | Some (responses, at_block) \<Rightarrow>
               if at_block \<noteq> ws_pending_head s then Some (Inl (SyncRequired at_block (ws_pending_head s)), s)
               else
                 map_option (\<lambda>lookup.
                   (case lookup of Inl e \<Rightarrow> Inl (SessionClient e) | Inr l \<Rightarrow> Inr (outcome_of (ws_complete s) l),
                    s\<lparr> ws_in_flight := None \<rparr>))
                   (finish (re_xxh3 rx) (re_be rx) (ws_client s) (if_key slot) (if_ctx slot) responses at_block)))"

section \<open>The exported functions (\<open>abi.rs\<close>)\<close>

type_synonym i32 = "32 word"   \<comment> \<open>read with \<open>sint\<close>\<close>

definition status_found :: i32 where "status_found = 0"

definition status_zero :: i32 where "status_zero = 1"

definition status_untracked :: i32 where "status_untracked = 2"

definition status_decode_failed :: i32 where "status_decode_failed = 3"

definition status_error :: i32 where "status_error = - 1"

datatype abi_message =
    SessionMessage session_error
  | BadModeValue u32
  | ModeNotLoaded

text \<open>The five thread-local cells; an empty error buffer is \<open>None\<close>.\<close>

record 'st abi =
  ab_session :: "'st web_session option"
  ab_mode :: "bytes option"
  ab_in :: bytes
  ab_out :: bytes
  ab_err :: "abi_message option"

definition abi_new :: "'st abi" where
  "abi_new = \<lparr> ab_session = None, ab_mode = None, ab_in = [], ab_out = [], ab_err = None \<rparr>"

definition set_err :: "abi_message \<Rightarrow> 'st abi \<Rightarrow> i32 \<times> 'st abi" where
  "set_err e a = (status_error, a\<lparr> ab_err := Some e \<rparr>)"

definition clear_err :: "'st abi \<Rightarrow> 'st abi" where
  "clear_err a = a\<lparr> ab_err := None \<rparr>"

definition put_out :: "bytes \<Rightarrow> 'st abi \<Rightarrow> 'st abi" where
  "put_out bs a = a\<lparr> ab_out := bs \<rparr>"

definition input :: "nat \<Rightarrow> 'st abi \<Rightarrow> bytes" where
  "input len a = take (min len (length (ab_in a))) (ab_in a)"

definition with_session :: "('st web_session \<Rightarrow> ((session_error + 'a) \<times> 'st web_session) option) \<Rightarrow> 'st abi
    \<Rightarrow> ((session_error + 'a) \<times> 'st abi) option" where
  "with_session f a =
     (case ab_session a of
        None \<Rightarrow> Some (Inl NotInitialised, a)
      | Some s \<Rightarrow> map_option (\<lambda>(r, s). (r, a\<lparr> ab_session := Some s \<rparr>)) (f s))"

definition risepir_in_reserve :: "nat \<Rightarrow> 'st abi \<Rightarrow> 'st abi" where
  "risepir_in_reserve len a = a\<lparr> ab_in := replicate len 0 \<rparr>"

definition put_input :: "bytes \<Rightarrow> 'st abi \<Rightarrow> nat \<times> 'st abi" where
  "put_input bs a = (length bs, a\<lparr> ab_in := bs \<rparr>)"

definition risepir_in_release :: "'st abi \<Rightarrow> 'st abi" where
  "risepir_in_release a = a\<lparr> ab_in := [] \<rparr>"

definition risepir_set_mode :: "nat \<Rightarrow> 'st abi \<Rightarrow> i32 \<times> 'st abi" where
  "risepir_set_mode len a =
     (let a = clear_err a; body = input len a in
      if body \<noteq> [0] \<and> body \<noteq> [1] then set_err (SessionMessage (BadModeByte (length body))) a
      else (0, a\<lparr> ab_mode := Some body \<rparr>))"

definition risepir_set_mode_byte :: "u32 \<Rightarrow> 'st abi \<Rightarrow> i32 \<times> 'st abi" where
  "risepir_set_mode_byte v a =
     (let a = clear_err a in
      if v > 1 then set_err (BadModeValue v) a else (0, a\<lparr> ab_mode := Some [ucast v] \<rparr>))"

definition risepir_init :: "('p, 'st) rpc_ext \<Rightarrow> nat \<Rightarrow> 'st abi \<Rightarrow> i32 \<times> 'st abi" where
  "risepir_init rx len a =
     (let a = clear_err a in
      case ab_mode a of
        None \<Rightarrow> set_err ModeNotLoaded a
      | Some mode \<Rightarrow>
          (case parse_mode mode of
             Inl e \<Rightarrow> set_err (SessionMessage e) a
           | Inr complete \<Rightarrow>
               (case web_decode rx (input len a) of
                  Inl e \<Rightarrow> set_err (SessionMessage e) a
                | Inr bundle \<Rightarrow>
                    (0, (risepir_in_release a)\<lparr> ab_session := Some (web_from_bundle rx bundle complete) \<rparr>))))"

definition risepir_complete :: "'st abi \<Rightarrow> i32 \<times> 'st abi" where
  "risepir_complete a =
     (case ab_session a of
        None \<Rightarrow> set_err (SessionMessage NotInitialised) a
      | Some s \<Rightarrow> (if ws_complete s then 1 else 0, a))"

definition risepir_pinned_block :: "'st abi \<Rightarrow> u64" where
  "risepir_pinned_block a = (case ab_session a of None \<Rightarrow> - 1 | Some s \<Rightarrow> ws_pinned_block s)"

definition risepir_pending_head :: "'st abi \<Rightarrow> u64" where
  "risepir_pending_head a = (case ab_session a of None \<Rightarrow> - 1 | Some s \<Rightarrow> ws_pending_head s)"

definition risepir_arity :: "'st abi \<Rightarrow> u32" where
  "risepir_arity a = (case ab_session a of None \<Rightarrow> 0 | Some s \<Rightarrow> of_nat (ws_arity s))"

definition risepir_delta_cells :: "'st abi \<Rightarrow> nat" where
  "risepir_delta_cells a = (case ab_session a of None \<Rightarrow> 0 | Some s \<Rightarrow> web_delta_cells s)"

text \<open>A value of an entry point that returns an \<open>i64\<close>; its error is the \<open>i32\<close> one.\<close>

definition i64_error :: "session_error \<Rightarrow> 'st abi \<Rightarrow> i64 \<times> 'st abi" where
  "i64_error e a = (case set_err (SessionMessage e) a of (st, a) \<Rightarrow> (scast st, a))"

definition risepir_epoch :: "'st abi \<Rightarrow> i64 \<times> 'st abi" where
  "risepir_epoch a =
     (let a = clear_err a in
      case ab_session a of
        None \<Rightarrow> i64_error NotInitialised a
      | Some s \<Rightarrow> (of_nat (length (ascii (ws_epoch s))), put_out (ascii (ws_epoch s)) a))"

definition risepir_ingest :: "nat \<Rightarrow> 'st abi \<Rightarrow> (i64 \<times> 'st abi) option" where
  "risepir_ingest len a =
     (let a = clear_err a in
      map_option (\<lambda>(r, a). case r of Inl e \<Rightarrow> i64_error e a | Inr head \<Rightarrow> (head, a))
        (with_session (\<lambda>s. Some (web_ingest (input len a) s)) a))"

definition risepir_query :: "('p, 'st) rpc_ext \<Rightarrow> nat \<Rightarrow> 'st abi \<Rightarrow> (i64 \<times> 'st abi) option" where
  "risepir_query rx len a =
     (let a = clear_err a in
      map_option (\<lambda>(r, a). case r of Inl e \<Rightarrow> i64_error e a | Inr body \<Rightarrow> (of_nat (length body), put_out body a))
        (with_session (web_build_query rx (input len a)) a))"

definition risepir_answer :: "nat \<Rightarrow> 'st abi \<Rightarrow> (i64 \<times> 'st abi) option" where
  "risepir_answer len a =
     (let a = clear_err a in
      map_option (\<lambda>(r, a). case r of Inl e \<Rightarrow> i64_error e a | Inr at_block \<Rightarrow> (at_block, a))
        (with_session (\<lambda>s. Some (web_accept_answer (input len a) s)) a))"

definition risepir_finish :: "('p, 'st) rpc_ext \<Rightarrow> 'st abi \<Rightarrow> (i32 \<times> 'st abi) option" where
  "risepir_finish rx a =
     map_option (\<lambda>(r, a).
       case r of
         Inl e \<Rightarrow> set_err (SessionMessage e) a
       | Inr (OutcomeFound balance) \<Rightarrow> (status_found, put_out (to_le 16 balance) a)
       | Inr OutcomeZero \<Rightarrow> (status_zero, a)
       | Inr OutcomeUntracked \<Rightarrow> (status_untracked, a)
       | Inr OutcomeDecodeFailed \<Rightarrow> (status_decode_failed, a))
       (with_session (web_finish rx) (put_out [] (clear_err a)))"

section \<open>Conversations\<close>

datatype abi_call =
    InReserve nat
  | PutInput bytes
  | InRelease
  | SetMode nat
  | SetModeByte u32
  | Init nat
  | Complete
  | Epoch
  | Ingest nat
  | Query nat
  | Answer nat
  | Finish

text \<open>The bytes a call reads.\<close>

definition call_input :: "abi_call \<Rightarrow> 'st abi \<Rightarrow> bytes" where
  "call_input call a =
     (case call of SetMode n \<Rightarrow> input n a | SetModeByte v \<Rightarrow> [ucast v] | Init n \<Rightarrow> input n a | Ingest n \<Rightarrow> input n a
      | Query n \<Rightarrow> input n a | Answer n \<Rightarrow> input n a | _ \<Rightarrow> [])"

definition abi_step :: "('p, 'st) rpc_ext \<Rightarrow> abi_call \<Rightarrow> 'st abi \<Rightarrow> (int \<times> 'st abi) option" where
  "abi_step rx call a =
     (case call of
        InReserve n \<Rightarrow> Some (0, risepir_in_reserve n a)
      | PutInput bs \<Rightarrow> Some (apfst int (put_input bs a))
      | InRelease \<Rightarrow> Some (0, risepir_in_release a)
      | SetMode n \<Rightarrow> Some (apfst sint (risepir_set_mode n a))
      | SetModeByte v \<Rightarrow> Some (apfst sint (risepir_set_mode_byte v a))
      | Init n \<Rightarrow> Some (apfst sint (risepir_init rx n a))
      | Complete \<Rightarrow> Some (apfst sint (risepir_complete a))
      | Epoch \<Rightarrow> Some (apfst sint (risepir_epoch a))
      | Ingest n \<Rightarrow> map_option (apfst sint) (risepir_ingest n a)
      | Query n \<Rightarrow> map_option (apfst sint) (risepir_query rx n a)
      | Answer n \<Rightarrow> map_option (apfst sint) (risepir_answer n a)
      | Finish \<Rightarrow> map_option (apfst sint) (risepir_finish rx a))"

text \<open>What a call was, what it read, what it returned, and whether it left the error buffer empty.\<close>

type_synonym abi_event = "abi_call \<times> bytes \<times> int \<times> bool"

inductive abi_run :: "('p, 'st) rpc_ext \<Rightarrow> 'st abi \<Rightarrow> abi_event list \<Rightarrow> 'st abi \<Rightarrow> bool" for rx a where
  abi_start: "abi_run rx a [] a"
| abi_next: "abi_run rx a tr b \<Longrightarrow> abi_step rx call b = Some (r, c) \<Longrightarrow>
    abi_run rx a (tr @ [(call, call_input call b, r, ab_err c = None)]) c"

text \<open>What the host has handed in with success: the mode, then the mode and the bundle of the session, the
  address of its last query, and the last answer to that query.\<close>

record handed =
  hd_mode :: "bytes option"
  hd_setup :: "(bytes \<times> bytes) option"
  hd_addr :: "bytes option"
  hd_answer :: "bytes option"

fun observe :: "abi_event \<Rightarrow> handed \<Rightarrow> handed" where
  "observe (call, bs, r, ok) p =
     (if \<not> ok then p
      else case call of
        SetMode _ \<Rightarrow> p\<lparr> hd_mode := Some bs \<rparr>
      | SetModeByte _ \<Rightarrow> p\<lparr> hd_mode := Some bs \<rparr>
      | Init _ \<Rightarrow> p\<lparr> hd_setup := map_option (\<lambda>m. (m, bs)) (hd_mode p), hd_addr := None, hd_answer := None \<rparr>
      | Query _ \<Rightarrow> p\<lparr> hd_addr := Some bs, hd_answer := None \<rparr>
      | Answer _ \<Rightarrow> p\<lparr> hd_answer := Some bs \<rparr>
      | _ \<Rightarrow> p)"

definition handed_in :: "abi_event list \<Rightarrow> handed" where
  "handed_in tr = fold observe tr \<lparr> hd_mode = None, hd_setup = None, hd_addr = None, hd_answer = None \<rparr>"

lemma handed_in_snoc: "handed_in (tr @ [e]) = observe e (handed_in tr)"
  by (simp add: handed_in_def)

section \<open>The native session\<close>

definition as_session :: "'st web_session \<Rightarrow> 'st session" where
  "as_session s = \<lparr> se_client = ws_client s, se_pending_head = ws_pending_head s, se_arity = ws_arity s,
     se_plaintext_bits = ws_plaintext_bits s, se_widths = ws_widths s, se_strict_not_found = (\<not> ws_complete s), se_epoch = ws_epoch s \<rparr>"

lemma as_session_fields [simp]:
  "se_client (as_session s) = ws_client s" "se_pending_head (as_session s) = ws_pending_head s" "se_arity (as_session s) = ws_arity s"
  "se_plaintext_bits (as_session s) = ws_plaintext_bits s" "se_widths (as_session s) = ws_widths s"
  "se_strict_not_found (as_session s) = (\<not> ws_complete s)" "se_epoch (as_session s) = ws_epoch s"
  by (simp_all add: as_session_def)

lemma as_session_updates [simp]:
  "as_session (s\<lparr> ws_client := cl \<rparr>) = (as_session s)\<lparr> se_client := cl \<rparr>"
  "as_session (s\<lparr> ws_pending_head := h \<rparr>) = (as_session s)\<lparr> se_pending_head := h \<rparr>"
  "as_session (s\<lparr> ws_in_flight := f \<rparr>) = as_session s"
  by (simp_all add: as_session_def)

lemma web_from_bundle_is_native: "as_session (web_from_bundle rx b m) = session_from_bundle rx b web_value_codec m"
  by (simp add: as_session_def web_from_bundle_def session_from_bundle_def)

lemma web_ingest_cases:
  assumes "web_ingest bs s = (r, s')"
  obtains (undecodable) e where "r = Inl (SessionCodec e)" "s' = s"
  | (rejected) d e cl where "decode_block_delta bs (ws_plaintext_bits s) (of_nat (ws_arity s)) = Inr d"
      "ingest_delta (ws_client s) d = (Inl e, cl)" "r = Inl (SessionClient e)" "s' = s\<lparr> ws_client := cl \<rparr>"
  | (ingested) d cl where "decode_block_delta bs (ws_plaintext_bits s) (of_nat (ws_arity s)) = Inr d"
      "ingest_delta (ws_client s) d = (Inr (), cl)" "r = Inr (delta_block d)"
      "s' = s\<lparr> ws_client := cl, ws_pending_head := delta_block d \<rparr>"
proof (cases "decode_block_delta bs (ws_plaintext_bits s) (of_nat (ws_arity s))")
  case (Inl e)
  then show thesis using assms undecodable[of e] by (auto simp: web_ingest_def)
next
  case (Inr d)
  obtain x cl where i: "ingest_delta (ws_client s) d = (x, cl)" by fastforce
  show thesis using assms Inr i rejected[OF Inr] ingested[OF Inr] by (cases x) (auto simp: web_ingest_def)
qed

lemma ingest_delta_forward: "ingest_delta c d = (Inr u, cl) \<Longrightarrow> pd_head (rc_delta c) < delta_block d"
  by (auto simp: ingest_delta_def ingest_def split: if_splits prod.splits sum.splits)

lemma web_build_query_cases:
  assumes "web_build_query rx addr s = Some (r, s')"
  obtains (busy) slot where "ws_in_flight s = Some slot" "r = Inl QueryAlreadyInFlight" "s' = s"
  | (bad_length) "r = Inl (BadAddressLen (length addr))" "s' = s"
  | (built) qs ctx cl body where "ws_in_flight s = None" "length addr = 20"
      "build_query (re_be rx) (ws_client s) (re_keccak rx addr) = Some (qs, ctx, cl)" "encode_query_bundle qs = Some body"
      "r = Inr body" "s' = s\<lparr> ws_client := cl, ws_in_flight := Some \<lparr> if_key = re_keccak rx addr, if_ctx = ctx, if_answer = None \<rparr> \<rparr>"
proof (cases "ws_in_flight s = None \<and> length addr = 20")
  case True
  with assms obtain qs ctx cl body where b: "build_query (re_be rx) (ws_client s) (re_keccak rx addr) = Some (qs, ctx, cl)"
    and e: "encode_query_bundle qs = Some body" by (auto simp: web_build_query_def Let_def bind_eq_Some_conv)
  have r: "r = Inr body \<and> s' = s\<lparr> ws_client := cl,
      ws_in_flight := Some \<lparr> if_key = re_keccak rx addr, if_ctx = ctx, if_answer = None \<rparr> \<rparr>"
    using True assms b e by (simp add: web_build_query_def)
  show thesis by (rule built[OF conjunct1[OF True] conjunct2[OF True] b e conjunct1[OF r] conjunct2[OF r]])
next
  case False
  show thesis
  proof (cases "ws_in_flight s")
    case None
    then show thesis using False assms by (intro bad_length) (simp_all add: web_build_query_def)
  next
    case (Some slot)
    then show thesis using assms by (intro busy[OF Some]) (simp_all add: web_build_query_def)
  qed
qed

section \<open>What a session stands for\<close>

definition slot_ok :: "('p, 'st) rpc_ext \<Rightarrow> handed \<Rightarrow> 'st web_session \<Rightarrow> in_flight \<Rightarrow> bool" where
  "slot_ok rx p s slot \<longleftrightarrow> (\<exists>addr. hd_addr p = Some addr \<and> length addr = 20 \<and> if_key slot = re_keccak rx addr \<and>
     (0 < cp_arity (rc_params (ws_client s)) \<longrightarrow> ctx_for (rc_params (ws_client s)) (if_key slot) (if_ctx slot)) \<and>
     (case if_answer slot of None \<Rightarrow> hd_answer p = None
      | Some ra \<Rightarrow> \<exists>bs. hd_answer p = Some bs \<and> decode_response_bundle bs (ws_widths s) (ws_arity s) = Inr ra))"

definition stems_from :: "('p, 'st) rpc_ext \<Rightarrow> handed \<Rightarrow> 'st web_session \<Rightarrow> bool" where
  "stems_from rx p s \<longleftrightarrow> (\<exists>mode body b. hd_setup p = Some (mode, body) \<and> mode \<in> {[0], [1]} \<and>
     decode_setup (hx_lib (re_http rx)) body = Inr b \<and> session_of rx web_value_codec b (mode = [1]) (as_session s) \<and>
     ws_pinned_block s = wb_block b)"

definition abi_ok :: "('p, 'st) rpc_ext \<Rightarrow> handed \<Rightarrow> 'st abi \<Rightarrow> bool" where
  "abi_ok rx p a \<longleftrightarrow> ab_mode a = hd_mode p \<and> hd_mode p \<in> {None, Some [0], Some [1]} \<and>
     (\<forall>s. ab_session a = Some s \<longrightarrow> stems_from rx p s \<and> (\<forall>slot. ws_in_flight s = Some slot \<longrightarrow> slot_ok rx p s slot))"

lemma slot_ok_same:
  "rc_params (ws_client s') = rc_params (ws_client s) \<Longrightarrow> ws_widths s' = ws_widths s \<Longrightarrow> ws_arity s' = ws_arity s \<Longrightarrow>
   slot_ok rx p s' = slot_ok rx p s"
  by (rule ext) (simp add: slot_ok_def split: option.split)

lemma web_ingest_keeps:
  assumes "web_ingest bs s = (r, s')" and "stems_from rx p s"
  shows "stems_from rx p s' \<and> ws_in_flight s' = ws_in_flight s \<and> (\<forall>slot. slot_ok rx p s slot \<longrightarrow> slot_ok rx p s' slot) \<and>
    ws_pending_head s \<le> ws_pending_head s'"
proof -
  obtain mode body b where st: "hd_setup p = Some (mode, body)" "mode \<in> {[0], [1]}" "decode_setup (hx_lib (re_http rx)) body = Inr b"
    "session_of rx web_value_codec b (mode = [1]) (as_session s)" "ws_pinned_block s = wb_block b"
    using assms(2) by (auto simp: stems_from_def)
  from assms(1) show ?thesis
  proof (cases rule: web_ingest_cases)
    case (rejected d e cl)
    have "session_of rx web_value_codec b (mode = [1]) (as_session s')"
      using session_of_ingest[OF st(4), of d "Inl e" cl] rejected by (simp add: as_session_def)
    moreover have "slot_ok rx p s' = slot_ok rx p s" by (rule slot_ok_same) (simp_all add: rejected ingest_delta_params[OF rejected(2)])
    ultimately show ?thesis using st rejected by (simp add: stems_from_def)
  next
    case (ingested d cl)
    have "session_of rx web_value_codec b (mode = [1]) (as_session s')"
      using session_of_ingest[OF st(4), of d "Inr ()" cl] ingested by simp
    moreover have "ws_pending_head s \<le> delta_block d"
      using ingest_delta_forward[OF ingested(2)] st(4) by (simp add: session_of_def)
    moreover have "slot_ok rx p s' = slot_ok rx p s" by (rule slot_ok_same) (simp_all add: ingested ingest_delta_params[OF ingested(2)])
    ultimately show ?thesis using st ingested by (simp add: stems_from_def)
  qed (use assms(2) in auto)
qed

lemma web_build_query_keeps:
  assumes "web_build_query rx addr s = Some (r, s')" and "stems_from rx p s"
  shows "stems_from rx p s' \<and>
    (case r of Inl e \<Rightarrow> s' = s
     | Inr _ \<Rightarrow> \<forall>slot. ws_in_flight s' = Some slot \<longrightarrow> slot_ok rx (p\<lparr> hd_addr := Some addr, hd_answer := None \<rparr>) s' slot)"
  using assms(1)
proof (cases rule: web_build_query_cases)
  case (built qs ctx cl body)
  obtain mode body' b where st: "hd_setup p = Some (mode, body')" "mode \<in> {[0], [1]}" "decode_setup (hx_lib (re_http rx)) body' = Inr b"
    "session_of rx web_value_codec b (mode = [1]) (as_session s)" "ws_pinned_block s = wb_block b"
    using assms(2) by (auto simp: stems_from_def)
  have "session_of rx web_value_codec b (mode = [1]) (as_session s')"
    using session_of_query[OF st(4), of "re_be rx" "re_keccak rx addr" qs ctx cl] built by simp
  moreover have "ctx_for (rc_params cl) (re_keccak rx addr) ctx" if "0 < cp_arity (rc_params cl)"
    using build_query_ctx[OF built(3)] build_query_same[OF built(3)] that by simp
  ultimately show ?thesis using st built by (auto simp: stems_from_def slot_ok_def)
qed (use assms(2) in auto)

lemma web_accept_answer_cases:
  assumes "web_accept_answer bs s = (r, s')"
  obtains (refused) e where "r = Inl e" "s' = s"
  | (accepted) slot responses at_block where "ws_in_flight s = Some slot"
      "decode_response_bundle bs (ws_widths s) (ws_arity s) = Inr (responses, at_block)" "r = Inr at_block"
      "s' = s\<lparr> ws_in_flight := Some (slot\<lparr> if_answer := Some (responses, at_block) \<rparr>) \<rparr>"
proof (cases "decode_response_bundle bs (ws_widths s) (ws_arity s)")
  case (Inl e)
  then show thesis using assms refused[of "SessionWire e"] by (simp add: web_accept_answer_def)
next
  case (Inr ra)
  show thesis
  proof (cases "ws_in_flight s")
    case None
    then show thesis using assms Inr refused[of NoQueryInFlight] by (simp add: web_accept_answer_def)
  next
    case (Some slot)
    obtain responses at_block where "ra = (responses, at_block)" by fastforce
    then show thesis using assms Inr Some accepted[OF Some] by (simp add: web_accept_answer_def)
  qed
qed

lemma web_accept_answer_keeps:
  assumes "web_accept_answer bs s = (r, s')" and "stems_from rx p s" and "\<forall>slot. ws_in_flight s = Some slot \<longrightarrow> slot_ok rx p s slot"
  shows "stems_from rx p s' \<and>
    (case r of Inl e \<Rightarrow> s' = s | Inr _ \<Rightarrow> \<forall>slot. ws_in_flight s' = Some slot \<longrightarrow> slot_ok rx (p\<lparr> hd_answer := Some bs \<rparr>) s' slot)"
  using assms(1)
proof (cases rule: web_accept_answer_cases)
  case (accepted slot responses at_block)
  have "slot_ok rx p s slot" using assms(3) accepted(1) by blast
  then show ?thesis using assms(2) accepted by (auto simp: stems_from_def slot_ok_def)
qed (use assms(2) in auto)

lemma web_finish_keeps:
  assumes "web_finish rx s = Some (r, s')"
  shows "(stems_from rx p s \<longrightarrow> stems_from rx p s') \<and> (s' = s \<or> s' = s\<lparr> ws_in_flight := None \<rparr>)"
  using assms by (auto simp: web_finish_def stems_from_def split: option.splits prod.splits if_splits)

lemma entry_cases:
  assumes "map_option (\<lambda>(r, a). case r of Inl e \<Rightarrow> g e a | Inr x \<Rightarrow> k x a) (with_session f b) = Some y"
  obtains (no_session) "ab_session b = None" "y = g NotInitialised b"
  | (failed) s e s' where "ab_session b = Some s" "f s = Some (Inl e, s')" "y = g e (b\<lparr> ab_session := Some s' \<rparr>)"
  | (success) s x s' where "ab_session b = Some s" "f s = Some (Inr x, s')" "y = k x (b\<lparr> ab_session := Some s' \<rparr>)"
proof (cases "ab_session b")
  case None
  then show thesis using assms no_session by (simp add: with_session_def)
next
  case (Some s)
  then obtain r s' where f: "f s = Some (r, s')" using assms by (auto simp: with_session_def)
  show thesis using assms Some f failed[OF Some] success[OF Some] by (cases r) (simp_all add: with_session_def)
qed

lemma input_clear [simp]: "input n (clear_err a) = input n a" "ab_session (clear_err a) = ab_session a" "ab_mode (clear_err a) = ab_mode a"
  by (simp_all add: input_def clear_err_def)

lemma scast_error: "scast (- 1 :: i32) = (- 1 :: i64)"
  by simp

lemma risepir_ingest_cases:
  assumes "risepir_ingest n a = Some (r, a')"
  obtains (no_session) "ab_session a = None" "r = - 1" "a' = a\<lparr> ab_err := Some (SessionMessage NotInitialised) \<rparr>"
  | (failed) s e s' where "ab_session a = Some s" "web_ingest (input n a) s = (Inl e, s')" "r = - 1"
      "a' = a\<lparr> ab_session := Some s', ab_err := Some (SessionMessage e) \<rparr>"
  | (success) s head s' where "ab_session a = Some s" "web_ingest (input n a) s = (Inr head, s')" "r = head"
      "a' = a\<lparr> ab_err := None, ab_session := Some s' \<rparr>"
  using assms unfolding risepir_ingest_def Let_def
proof (cases rule: entry_cases)
  case no_session
  then show thesis using that(1) by (simp add: i64_error_def set_err_def status_error_def scast_error clear_err_def)
next
  case (failed s e s')
  then show thesis using that(2)[of s e s'] by (simp add: i64_error_def set_err_def status_error_def scast_error) (simp add: clear_err_def)
next
  case (success s x s')
  then show thesis using that(3)[of s x s'] by (simp) (simp add: clear_err_def)
qed

lemma risepir_query_cases:
  assumes "risepir_query rx n a = Some (r, a')"
  obtains (no_session) "ab_session a = None" "r = - 1" "a' = a\<lparr> ab_err := Some (SessionMessage NotInitialised) \<rparr>"
  | (failed) s e s' where "ab_session a = Some s" "web_build_query rx (input n a) s = Some (Inl e, s')" "r = - 1"
      "a' = a\<lparr> ab_session := Some s', ab_err := Some (SessionMessage e) \<rparr>"
  | (success) s body s' where "ab_session a = Some s" "web_build_query rx (input n a) s = Some (Inr body, s')" "r = of_nat (length body)"
      "a' = a\<lparr> ab_err := None, ab_session := Some s', ab_out := body \<rparr>"
  using assms unfolding risepir_query_def Let_def
proof (cases rule: entry_cases)
  case no_session
  then show thesis using that(1) by (simp add: i64_error_def set_err_def status_error_def scast_error clear_err_def)
next
  case (failed s e s')
  then show thesis using that(2)[of s e s'] by (simp add: i64_error_def set_err_def status_error_def scast_error) (simp add: clear_err_def)
next
  case (success s x s')
  then show thesis using that(3)[of s x s'] by (simp add: put_out_def) (simp add: clear_err_def)
qed

lemma risepir_answer_cases:
  assumes "risepir_answer n a = Some (r, a')"
  obtains (no_session) "ab_session a = None" "r = - 1" "a' = a\<lparr> ab_err := Some (SessionMessage NotInitialised) \<rparr>"
  | (failed) s e s' where "ab_session a = Some s" "web_accept_answer (input n a) s = (Inl e, s')" "r = - 1"
      "a' = a\<lparr> ab_session := Some s', ab_err := Some (SessionMessage e) \<rparr>"
  | (success) s at_block s' where "ab_session a = Some s" "web_accept_answer (input n a) s = (Inr at_block, s')" "r = at_block"
      "a' = a\<lparr> ab_err := None, ab_session := Some s' \<rparr>"
  using assms unfolding risepir_answer_def Let_def
proof (cases rule: entry_cases)
  case no_session
  then show thesis using that(1) by (simp add: i64_error_def set_err_def status_error_def scast_error clear_err_def)
next
  case (failed s e s')
  then show thesis using that(2)[of s e s'] by (simp add: i64_error_def set_err_def status_error_def scast_error) (simp add: clear_err_def)
next
  case (success s x s')
  then show thesis using that(3)[of s x s'] by (simp) (simp add: clear_err_def)
qed

definition status_of :: "outcome \<Rightarrow> i32 \<times> bytes" where
  "status_of l =
     (case l of OutcomeFound balance \<Rightarrow> (status_found, to_le 16 balance) | OutcomeZero \<Rightarrow> (status_zero, [])
      | OutcomeUntracked \<Rightarrow> (status_untracked, []) | OutcomeDecodeFailed \<Rightarrow> (status_decode_failed, []))"

lemma risepir_finish_cases:
  assumes "risepir_finish rx a = Some (r, a')"
  obtains (no_session) "ab_session a = None" "r = status_error" "a' = a\<lparr> ab_out := [], ab_err := Some (SessionMessage NotInitialised) \<rparr>"
  | (failed) s e s' where "ab_session a = Some s" "web_finish rx s = Some (Inl e, s')" "r = status_error"
      "a' = a\<lparr> ab_session := Some s', ab_out := [], ab_err := Some (SessionMessage e) \<rparr>"
  | (success) s l s' where "ab_session a = Some s" "web_finish rx s = Some (Inr l, s')" "r = fst (status_of l)"
      "a' = a\<lparr> ab_err := None, ab_session := Some s', ab_out := snd (status_of l) \<rparr>"
proof -
  let ?k = "\<lambda>l a. case l of OutcomeFound balance \<Rightarrow> (status_found, put_out (to_le 16 balance) a) | OutcomeZero \<Rightarrow> (status_zero, a)
    | OutcomeUntracked \<Rightarrow> (status_untracked, a) | OutcomeDecodeFailed \<Rightarrow> (status_decode_failed, a)"
  have "map_option (\<lambda>(r, a). case r of Inl e \<Rightarrow> set_err (SessionMessage e) a | Inr l \<Rightarrow> ?k l a)
      (with_session (web_finish rx) (put_out [] (clear_err a))) = Some (r, a')" using assms by (simp add: risepir_finish_def)
  then show thesis
  proof (cases rule: entry_cases)
    case (success s l s')
    then show thesis using that(3)[of s l s'] by (cases l) (simp_all add: status_of_def put_out_def clear_err_def)
  qed (auto simp: set_err_def put_out_def clear_err_def intro: that)
qed

lemma abi_okD:
  assumes "abi_ok rx p a"
  shows "ab_mode a = hd_mode p" "hd_mode p \<in> {None, Some [0], Some [1]}"
    "ab_session a = Some s \<Longrightarrow> stems_from rx p s" "ab_session a = Some s \<Longrightarrow> ws_in_flight s = Some slot \<Longrightarrow> slot_ok rx p s slot"
  using assms by (auto simp: abi_ok_def)

text \<open>The invariant reads the mode and the session only.\<close>

lemma abi_ok_same: "ab_mode a' = ab_mode a \<Longrightarrow> ab_session a' = ab_session a \<Longrightarrow> abi_ok rx p a' = abi_ok rx p a"
  by (simp add: abi_ok_def)

lemma stems_from_handed: "hd_setup p' = hd_setup p \<Longrightarrow> stems_from rx p' s = stems_from rx p s"
  by (simp add: stems_from_def)

lemma word_le_1_cases: "\<not> (1 :: u32) < w \<Longrightarrow> w = 0 \<or> w = 1"
  unfolding word_less_nat_alt word_unat_eq_iff by simp arith

lemma slot_ok_handed: "hd_addr p' = hd_addr p \<Longrightarrow> hd_answer p' = hd_answer p \<Longrightarrow> slot_ok rx p' s = slot_ok rx p s"
  by (rule ext) (simp add: slot_ok_def split: option.split)

lemma abi_ok_mode:
  assumes "abi_ok rx p a" and "m \<in> {[0], [1]}" and "ab_session a' = ab_session a" and "ab_mode a' = Some m"
  shows "abi_ok rx (p\<lparr> hd_mode := Some m \<rparr>) a'"
  using assms by (auto simp: abi_ok_def slot_ok_handed[of "p\<lparr> hd_mode := Some m \<rparr>" p] stems_from_handed[of "p\<lparr> hd_mode := Some m \<rparr>" p])

lemma abi_ok_session:
  assumes "abi_ok rx p a" and "ab_mode a' = ab_mode a" and "ab_session a' = Some s'" and "hd_mode p' = hd_mode p"
    and "stems_from rx p' s'" and "\<And>slot. ws_in_flight s' = Some slot \<Longrightarrow> slot_ok rx p' s' slot"
  shows "abi_ok rx p' a'"
  using assms by (simp add: abi_ok_def)

lemma set_mode_keeps:
  assumes "risepir_set_mode n a = (r, a')" and "abi_ok rx p a"
  shows "abi_ok rx (observe (SetMode n, input n a, v, ab_err a' = None) p) a'"
proof (cases "input n a \<in> {[0], [1]}")
  case True
  then have a': "a' = (clear_err a)\<lparr> ab_mode := Some (input n a) \<rparr>" using assms(1) by (auto simp: risepir_set_mode_def Let_def)
  have "abi_ok rx (p\<lparr> hd_mode := Some (input n a) \<rparr>) a'" by (rule abi_ok_mode[OF assms(2) True]) (simp_all add: a')
  then show ?thesis by (simp add: a' clear_err_def)
next
  case False
  then show ?thesis using assms by (auto simp: risepir_set_mode_def Let_def set_err_def abi_ok_def)
qed

lemma set_mode_byte_keeps:
  assumes "risepir_set_mode_byte w a = (r, a')" and "abi_ok rx p a"
  shows "abi_ok rx (observe (SetModeByte w, [ucast w], v, ab_err a' = None) p) a'"
proof (cases "w > 1")
  case False
  then have "w \<in> {0, 1}" using word_le_1_cases[of w] by simp
  then have m: "[ucast w] \<in> {[0 :: u8], [1]}" by auto
  have a': "a' = (clear_err a)\<lparr> ab_mode := Some [ucast w] \<rparr>" using assms(1) False by (auto simp: risepir_set_mode_byte_def Let_def)
  have "abi_ok rx (p\<lparr> hd_mode := Some [ucast w] \<rparr>) a'" by (rule abi_ok_mode[OF assms(2) m]) (simp_all add: a')
  then show ?thesis by (simp add: a' clear_err_def)
qed (use assms in \<open>auto simp: risepir_set_mode_byte_def Let_def set_err_def abi_ok_def\<close>)

lemma init_keeps:
  assumes "risepir_init rx n a = (r, a')" and "abi_ok rx p a"
  shows "abi_ok rx (observe (Init n, input n a, v, ab_err a' = None) p) a'"
proof (cases "ab_err a' = None")
  case True
  then obtain mode complete b where m: "ab_mode a = Some mode" "parse_mode mode = Inr complete" "web_decode rx (input n a) = Inr b"
    "a' = (risepir_in_release (clear_err a))\<lparr> ab_session := Some (web_from_bundle rx b complete) \<rparr>"
    using assms(1) by (auto simp: risepir_init_def Let_def set_err_def split: option.splits sum.splits)
  have mode: "mode \<in> {[0], [1]}" "complete = (mode = [1])" using m(2) by (auto simp: parse_mode_def split: if_splits)
  have d: "decode_setup (hx_lib (re_http rx)) (input n a) = Inr b" using m(3) by (auto simp: web_decode_def map_err_def split: sum.splits)
  have "session_of rx web_value_codec b complete (as_session (web_from_bundle rx b complete))"
    unfolding web_from_bundle_is_native by (rule session_from_bundle_ok)
  moreover have "ws_pinned_block (web_from_bundle rx b complete) = wb_block b" "ws_in_flight (web_from_bundle rx b complete) = None"
    by (simp_all add: web_from_bundle_def)
  moreover have "hd_mode p = Some mode" using abi_okD(1)[OF assms(2)] m(1) by simp
  ultimately show ?thesis using True m(1,4) mode d abi_okD(1,2)[OF assms(2)]
    by (auto simp: abi_ok_def stems_from_def risepir_in_release_def)
next
  case False
  then have "ab_mode a' = ab_mode a \<and> ab_session a' = ab_session a"
    using assms(1) by (auto simp: risepir_init_def Let_def set_err_def risepir_in_release_def clear_err_def split: option.splits sum.splits)
  then show ?thesis using False assms(2) by (simp add: abi_ok_def)
qed

lemma ingest_keeps:
  assumes "risepir_ingest n a = Some (r, a')" and "abi_ok rx p a"
  shows "abi_ok rx (observe (Ingest n, bs, v, ab_err a' = None) p) a'"
proof -
  have "abi_ok rx p a'" if "ab_session a = Some s" "web_ingest (input n a) s = (x, s')" "ab_mode a' = ab_mode a" "ab_session a' = Some s'" for s x s'
  proof (rule abi_ok_session[OF assms(2) that(3,4)])
    note k = web_ingest_keeps[OF that(2) abi_okD(3)[OF assms(2) that(1)]]
    show "stems_from rx p s'" using k by blast
    show "slot_ok rx p s' slot" if "ws_in_flight s' = Some slot" for slot
      using k that abi_okD(4)[OF assms(2) \<open>ab_session a = Some s\<close>, of slot] by simp
  qed simp
  with assms(1) show ?thesis by (cases rule: risepir_ingest_cases) (use assms(2) in \<open>auto simp: abi_ok_def\<close>)
qed

lemma query_keeps:
  assumes "risepir_query rx n a = Some (r, a')" and "abi_ok rx p a"
  shows "abi_ok rx (observe (Query n, input n a, v, ab_err a' = None) p) a'"
  using assms(1)
proof (cases rule: risepir_query_cases)
  case (failed s e s')
  have "s' = s" using web_build_query_keeps[OF failed(2) abi_okD(3)[OF assms(2) failed(1)]] by simp
  then show ?thesis using assms(2) failed(1,4) by (simp add: abi_ok_def)
next
  case (success s body s')
  note k = web_build_query_keeps[OF success(2) abi_okD(3)[OF assms(2) success(1)]]
  have "abi_ok rx (p\<lparr> hd_addr := Some (input n a), hd_answer := None \<rparr>) a'"
    by (rule abi_ok_session[OF assms(2), of _ s']) (use k in \<open>simp_all add: success stems_from_handed[of "p\<lparr> hd_addr := x, hd_answer := y \<rparr>" p for x y]\<close>)
  then show ?thesis by (simp add: success)
qed (use assms(2) in \<open>simp add: abi_ok_def\<close>)

lemma answer_keeps:
  assumes "risepir_answer n a = Some (r, a')" and "abi_ok rx p a"
  shows "abi_ok rx (observe (Answer n, input n a, v, ab_err a' = None) p) a'"
  using assms(1)
proof (cases rule: risepir_answer_cases)
  case (failed s e s')
  have "s' = s" using failed(2) by (cases rule: web_accept_answer_cases) auto
  then show ?thesis using assms(2) failed(1,4) by (simp add: abi_ok_def)
next
  case (success s at_block s')
  have "\<forall>slot. ws_in_flight s = Some slot \<longrightarrow> slot_ok rx p s slot" using abi_okD(4)[OF assms(2) success(1)] by blast
  note k = web_accept_answer_keeps[OF success(2) abi_okD(3)[OF assms(2) success(1)] this]
  have "abi_ok rx (p\<lparr> hd_answer := Some (input n a) \<rparr>) a'"
    by (rule abi_ok_session[OF assms(2), of _ s']) (use k in \<open>simp_all add: success stems_from_handed[of "p\<lparr> hd_answer := y \<rparr>" p for y]\<close>)
  then show ?thesis by (simp add: success)
qed (use assms(2) in \<open>simp add: abi_ok_def\<close>)

lemma finish_keeps:
  assumes "risepir_finish rx a = Some (r, a')" and "abi_ok rx p a"
  shows "abi_ok rx p a'"
proof -
  have "abi_ok rx p a'" if "ab_session a = Some s" "web_finish rx s = Some (x, s')" "ab_mode a' = ab_mode a" "ab_session a' = Some s'" for s x s'
  proof (rule abi_ok_session[OF assms(2) that(3,4)])
    note k = web_finish_keeps[OF that(2), of p]
    show "stems_from rx p s'" using k abi_okD(3)[OF assms(2) that(1)] by blast
    show "slot_ok rx p s' slot" if "ws_in_flight s' = Some slot" for slot
      using k that abi_okD(4)[OF assms(2) \<open>ab_session a = Some s\<close>, of slot] by auto
  qed simp
  with assms(1) show ?thesis by (cases rule: risepir_finish_cases) (use assms(2) in \<open>auto simp: abi_ok_def\<close>)
qed

lemma abi_step_keeps:
  assumes "abi_step rx call a = Some (r, a')" and "abi_ok rx p a"
  shows "abi_ok rx (observe (call, call_input call a, r, ab_err a' = None) p) a'"
proof (cases call)
  case (SetMode n)
  with assms(1) obtain v where "risepir_set_mode n a = (v, a')" by (cases "risepir_set_mode n a") (auto simp: abi_step_def)
  then show ?thesis using set_mode_keeps[OF _ assms(2)] by (simp add: SetMode call_input_def del: observe.simps)
next
  case (SetModeByte w)
  with assms(1) obtain v where "risepir_set_mode_byte w a = (v, a')" by (cases "risepir_set_mode_byte w a") (auto simp: abi_step_def)
  then show ?thesis using set_mode_byte_keeps[OF _ assms(2)] by (simp add: SetModeByte call_input_def del: observe.simps)
next
  case (Init n)
  with assms(1) obtain v where "risepir_init rx n a = (v, a')" by (cases "risepir_init rx n a") (auto simp: abi_step_def)
  then show ?thesis using init_keeps[OF _ assms(2)] by (simp add: Init call_input_def del: observe.simps)
next
  case (Ingest n)
  with assms(1) obtain v where "risepir_ingest n a = Some (v, a')" by (auto simp: abi_step_def)
  then show ?thesis using ingest_keeps[OF _ assms(2)] by (simp add: Ingest del: observe.simps)
next
  case (Query n)
  with assms(1) obtain v where "risepir_query rx n a = Some (v, a')" by (auto simp: abi_step_def)
  then show ?thesis using query_keeps[OF _ assms(2)] by (simp add: Query call_input_def del: observe.simps)
next
  case (Answer n)
  with assms(1) obtain v where "risepir_answer n a = Some (v, a')" by (auto simp: abi_step_def)
  then show ?thesis using answer_keeps[OF _ assms(2)] by (simp add: Answer call_input_def del: observe.simps)
next
  case Finish
  with assms(1) obtain v where "risepir_finish rx a = Some (v, a')" by (auto simp: abi_step_def)
  then show ?thesis using finish_keeps[OF _ assms(2)] by (simp add: Finish)
next
  case Epoch
  then have "ab_mode a' = ab_mode a \<and> ab_session a' = ab_session a" using assms(1)
    by (auto simp: abi_step_def risepir_epoch_def Let_def i64_error_def set_err_def put_out_def clear_err_def split: option.splits)
  then show ?thesis using assms(2) Epoch abi_ok_same by auto
next
  case Complete
  then have "ab_mode a' = ab_mode a \<and> ab_session a' = ab_session a" using assms(1)
    by (auto simp: abi_step_def risepir_complete_def set_err_def split: option.splits)
  then show ?thesis using assms(2) Complete abi_ok_same by auto
qed (use assms in \<open>auto simp: abi_step_def risepir_in_reserve_def put_input_def risepir_in_release_def abi_ok_def\<close>)

lemma run_from_abi_ok: "abi_run rx a tr b \<Longrightarrow> abi_ok rx p a \<Longrightarrow> abi_ok rx (fold observe tr p) b"
proof (induction rule: abi_run.induct)
  case (abi_next tr b call r c)
  then show ?case using abi_step_keeps by (simp del: observe.simps)
qed simp

lemma run_abi_ok: "abi_run rx abi_new tr a \<Longrightarrow> abi_ok rx (handed_in tr) a"
  unfolding handed_in_def by (erule run_from_abi_ok) (simp add: abi_ok_def abi_new_def)

section \<open>The same lookup as the native client\<close>

definition ingest_if :: "bytes option \<Rightarrow> 'st web_session \<Rightarrow> (session_error + unit) \<times> 'st web_session" where
  "ingest_if d s =
     (case d of None \<Rightarrow> (Inr (), s)
      | Some bs \<Rightarrow> (case web_ingest bs s of (Inl e, s) \<Rightarrow> (Inl e, s) | (Inr _, s) \<Rightarrow> (Inr (), s)))"

text \<open>One lookup as a host holds it: catch up, query, answer, catch up, finish.\<close>

definition web_conversation :: "('p, 'st) rpc_ext \<Rightarrow> bytes option \<Rightarrow> bytes \<Rightarrow> bytes \<Rightarrow> bytes option \<Rightarrow> 'st web_session
    \<Rightarrow> ((session_error + bytes \<times> outcome) \<times> 'st web_session) option" where
  "web_conversation rx d1 addr reply d2 s =
     (case ingest_if d1 s of
        (Inl e, s) \<Rightarrow> Some (Inl e, s)
      | (Inr _, s) \<Rightarrow>
          Option.bind (web_build_query rx addr s) (\<lambda>(q, s).
          case q of Inl e \<Rightarrow> Some (Inl e, s)
          | Inr body \<Rightarrow>
              (case web_accept_answer reply s of
                 (Inl e, s) \<Rightarrow> Some (Inl e, s)
               | (Inr _, s) \<Rightarrow>
                   (case ingest_if d2 s of
                      (Inl e, s) \<Rightarrow> Some (Inl e, s)
                    | (Inr _, s) \<Rightarrow>
                        map_option (\<lambda>(r, s). (case r of Inl e \<Rightarrow> Inl e | Inr l \<Rightarrow> Inr (body, l), s)) (web_finish rx s)))))"

text \<open>A body that the server sent in reply to a logged request.\<close>

definition received :: "('p, 'st) rpc_ext \<Rightarrow> request list \<Rightarrow> request \<Rightarrow> nat \<Rightarrow> bytes \<Rightarrow> bool" where
  "received rx log req cap bs \<longleftrightarrow> (\<exists>pre post rp. log = pre @ req # post \<and> hx_net (re_http rx) pre req = Inr rp \<and> ok_body rp cap = Inr bs)"

lemma received_append: "received rx log req cap bs \<Longrightarrow> received rx (log @ reqs) req cap bs"
  by (fastforce simp: received_def)

lemma client_sync_ok:
  assumes "client_sync ext from target epoch pb arity c = (Inr (Some d), c')"
  shows "\<exists>rp bs. hx_net ext (hc_sent c) (GetReq (hc_base c @ ''/sync?'' @ sync_query from target epoch)) = Inr rp \<and>
    ok_body rp max_sync_body_bytes = Inr bs \<and> decode_block_delta bs pb arity = Inr d \<and>
    hc_sent c' = hc_sent c @ [GetReq (hc_base c @ ''/sync?'' @ sync_query from target epoch)]"
proof -
  let ?req = "GetReq (hc_base c @ ''/sync?'' @ sync_query from target epoch)"
  obtain x c1 where s: "send_measured ext CallSync ?req 0 max_sync_body_bytes True c = (x, c1)" by fastforce
  note st = assms[unfolded client_sync_def s prod.case] and sm = send_measured_cases[OF s]
  obtain m bs where x: "x = Inr m" "ms_body m = Some bs" "decode_block_delta bs pb arity = Inr d" "hc_sent c' = hc_sent c1"
    using st by (auto simp: map_err_def and_then_def split: sum.splits option.splits)
  then show ?thesis using sm by (auto split: sum.splits if_splits)
qed

lemma sync_to_bodies:
  assumes "sync_to rx deadline target (pe, sink) = (Inr (), pe', sink')" and "as_session s = pe_session pe"
  shows "\<exists>d s'. ingest_if d s = (Inr (), s') \<and> as_session s' = pe_session pe' \<and> ws_in_flight s' = ws_in_flight s \<and>
    (\<forall>bs. d = Some bs \<longrightarrow> received rx (hc_sent (pe_pir pe'))
       (GetReq (hc_base (pe_pir pe) @ ''/sync?'' @ sync_query (ws_pending_head s) target (ws_epoch s))) max_sync_body_bytes bs)"
  using assms(1)
proof (cases rule: sync_to_cases)
  case level
  then show ?thesis using assms(2) by (intro exI[of _ None] exI[of _ s]) (simp add: ingest_if_def)
next
  case (ingested d pe1 cl)
  have f: "ws_client s = se_client (pe_session pe)" "ws_pending_head s = se_pending_head (pe_session pe)" "ws_arity s = se_arity (pe_session pe)"
    "ws_plaintext_bits s = se_plaintext_bits (pe_session pe)" "ws_epoch s = se_epoch (pe_session pe)"
    unfolding assms(2)[symmetric] by simp_all
  have same: "pe_session pe1 = pe_session pe" using sync_call_request[OF ingested(2)] by fastforce
  note c = pir_call_ok[OF ingested(2)[unfolded sync_call_def Let_def]]
  obtain rp bs where b: "hx_net (re_http rx) (hc_sent (pe_pir pe)) (GetReq (hc_base (pe_pir pe) @ ''/sync?'' @ sync_query (ws_pending_head s) target (ws_epoch s))) = Inr rp"
    "ok_body rp max_sync_body_bytes = Inr bs" "decode_block_delta bs (ws_plaintext_bits s) (of_nat (ws_arity s)) = Inr d"
    "hc_sent (pe_pir pe1) = hc_sent (pe_pir pe) @ [GetReq (hc_base (pe_pir pe) @ ''/sync?'' @ sync_query (ws_pending_head s) target (ws_epoch s))]"
    using client_sync_ok[OF c] unfolding f by blast
  have "ingest_if (Some bs) s = (Inr (), s\<lparr> ws_client := cl, ws_pending_head := delta_block d \<rparr>)"
    using b(3) ingested(3) by (simp add: ingest_if_def web_ingest_def f(1))
  moreover have "as_session (s\<lparr> ws_client := cl, ws_pending_head := delta_block d \<rparr>) = pe_session pe'"
    by (simp add: ingested(5) same assms(2))
  moreover have "received rx (hc_sent (pe_pir pe')) (GetReq (hc_base (pe_pir pe) @ ''/sync?'' @ sync_query (ws_pending_head s) target (ws_epoch s)))
      max_sync_body_bytes bs"
    unfolding received_def using b(1,2,4) by (intro exI[of _ "hc_sent (pe_pir pe)"] exI[of _ "[]"] exI[of _ rp]) (simp add: ingested(5))
  ultimately show ?thesis by (intro exI[of _ "Some bs"] exI[of _ "s\<lparr> ws_client := cl, ws_pending_head := delta_block d \<rparr>"]) auto
qed simp_all

text \<open>What the native client makes of an outcome.\<close>

definition native_result :: "outcome \<Rightarrow> rpc_error + balance" where
  "native_result l =
     (case l of OutcomeFound balance \<Rightarrow> Inr balance | OutcomeZero \<Rightarrow> Inr 0
      | OutcomeUntracked \<Rightarrow> Inl NotInTrackedSet | OutcomeDecodeFailed \<Rightarrow> Inl BalanceDecodeFailed)"

lemma native_result_of: "native_result (outcome_of complete l) = lookup_balance (\<not> complete) l"
  by (simp add: native_result_def outcome_of_def lookup_balance_def split: lookup.split)

definition covers_head :: "'st session \<Rightarrow> bool" where
  "covers_head se \<longleftrightarrow> pd_head (rc_delta (se_client se)) = se_pending_head se"

lemma sync_to_covers:
  assumes "sync_to rx deadline target (pe, sink) = (Inr (), pe', sink')" and "covers_head (pe_session pe)"
  shows "covers_head (pe_session pe')"
  using assms(1)
proof (cases rule: sync_to_cases)
  case (ingested d pe1 cl)
  have "pd_head (rc_delta cl) = delta_block d"
    using ingested(3) by (auto simp: ingest_delta_def ingest_def split: if_splits prod.splits sum.splits)
  then show ?thesis using ingested(5) by (simp add: covers_head_def)
qed (use assms(2) in simp_all)

text \<open>An attempt that does not come to \<open>finish\<close> ends with another error than one of \<open>finish\<close>.\<close>

definition undecided :: "call_end \<Rightarrow> bool" where
  "undecided e \<longleftrightarrow> e \<noteq> Failed NotInTrackedSet \<and> e \<noteq> Failed BalanceDecodeFailed"

lemma pir_call_undecided: "pir_call deadline f pe = (Inl e, pe') \<Longrightarrow> undecided e"
  by (auto simp: pir_call_def awaited_def map_err_def undecided_def split: prod.splits sum.splits if_splits)

lemma sync_to_undecided: "sync_to rx deadline target (pe, sink) = (Inl e, pe', sink') \<Longrightarrow> undecided e"
  by (erule sync_to_cases) (auto simp: sync_call_def Let_def undecided_def dest: pir_call_undecided)

lemma answer_call_undecided: "answer_call rx deadline qs s = Some (Inl e, pe', sink') \<Longrightarrow> undecided e"
  by (auto simp: answer_call_def Let_def bind_eq_Some_conv awaited_def map_err_def answer_error_def undecided_def
      split: prod.splits sum.splits if_splits call_end.splits rpc_error.splits http_error.splits)

lemma conversation_of_lookup:
  assumes n: "try_get_balance rx deadline (re_keccak rx addr) (pe, sink) = Some (r, pe', sink')"
    and s: "as_session s = pe_session pe" "ws_in_flight s = None" "length addr = 20" and cov: "covers_head (pe_session pe)"
    and r: "r \<in> range Inr \<union> {Inl (Failed NotInTrackedSet), Inl (Failed BalanceDecodeFailed)}"
  shows "\<exists>d1 reply d2 body l s'. web_conversation rx d1 addr reply d2 s = Some (Inr (body, l), s') \<and>
    r = map_err Failed (native_result l) \<and> as_session s' = pe_session pe' \<and> ws_in_flight s' = None \<and>
    received rx (hc_sent (pe_pir pe')) (PostReq (hc_base (pe_pir pe) @ ''/answer?epoch='' @ ws_epoch s) body) max_answer_body_bytes reply \<and>
    (\<forall>d \<in> {d1, d2}. \<forall>bs. d = Some bs \<longrightarrow> (\<exists>from target. received rx (hc_sent (pe_pir pe'))
       (GetReq (hc_base (pe_pir pe) @ ''/sync?'' @ sync_query from target (ws_epoch s))) max_sync_body_bytes bs))"
  using n
proof (cases rule: try_get_balance_cases)
  case (finished head pe1 pe2 sink2 qs ctx cl sink3 resp at_block pe3 sink4 sink5 outcome)
  have pe1: "pe_session pe1 = pe_session pe" "hc_base (pe_pir pe1) = hc_base (pe_pir pe)"
    using private_head_request[OF finished(1)] by (auto simp: one_request_def)
  obtain l where l: "outcome = Inr l" "r = map_err Failed (lookup_balance (se_strict_not_found (pe_session pe')) l)"
    using finished(7) r by (cases outcome) (auto simp: finish_error_def split: client_error.splits)
  obtain d1 s1 where s1: "ingest_if d1 s = (Inr (), s1)" "as_session s1 = pe_session pe2" "ws_in_flight s1 = None"
    and d1: "\<And>bs. d1 = Some bs \<Longrightarrow> received rx (hc_sent (pe_pir pe2))
       (GetReq (hc_base (pe_pir pe) @ ''/sync?'' @ sync_query (ws_pending_head s) head (ws_epoch s))) max_sync_body_bytes bs"
    using sync_to_bodies[OF finished(2), of s] s(1,2) unfolding pe1 by auto
  have c1: "ws_client s1 = se_client (pe_session pe2)" "ws_widths s1 = se_widths (pe_session pe2)" "ws_arity s1 = se_arity (pe_session pe2)"
    "ws_epoch s1 = se_epoch (pe_session pe2)" unfolding s1(2)[symmetric] by simp_all
  obtain body rp bs c where a: "pe3 = (with_query cl pe2)\<lparr> pe_pir := c \<rparr>" "hc_base c = hc_base (pe_pir pe2)" "encode_query_bundle qs = Some body"
    "hc_sent c = hc_sent (pe_pir pe2) @ [PostReq (hc_base (pe_pir pe2) @ ''/answer?epoch='' @ se_epoch (pe_session pe2)) body]"
    "hx_net (re_http rx) (hc_sent (pe_pir pe2)) (PostReq (hc_base (pe_pir pe2) @ ''/answer?epoch='' @ se_epoch (pe_session pe2)) body) = Inr rp"
    "ok_body rp max_answer_body_bytes = Inr bs"
    "decode_response_bundle bs (ws_widths s1) (ws_arity s1) = Inr (resp, at_block)"
    using answer_call_ok[OF finished(4)] by (auto simp: c1)
  let ?slot = "\<lparr> if_key = re_keccak rx addr, if_ctx = ctx, if_answer = None \<rparr>"
  let ?s2 = "s1\<lparr> ws_client := cl, ws_in_flight := Some ?slot \<rparr>"
  let ?s3 = "?s2\<lparr> ws_in_flight := Some (?slot\<lparr> if_answer := Some (resp, at_block) \<rparr>) \<rparr>"
  have q: "web_build_query rx addr s1 = Some (Inr body, ?s2)"
    using finished(3) a(3) s1(3) s(3) by (simp add: web_build_query_def c1(1))
  have w: "web_accept_answer bs ?s2 = (Inr at_block, ?s3)" using a(7) by (simp add: web_accept_answer_def)
  have s3: "as_session ?s3 = pe_session pe3" by (simp add: a(1) s1(2))
  obtain d2 s4 where s4: "ingest_if d2 ?s3 = (Inr (), s4)" "as_session s4 = pe_session pe'" "ws_in_flight s4 = ws_in_flight ?s3"
    and d2: "\<And>b. d2 = Some b \<Longrightarrow> received rx (hc_sent (pe_pir pe'))
       (GetReq (hc_base (pe_pir pe3) @ ''/sync?'' @ sync_query (ws_pending_head ?s3) at_block (ws_epoch ?s3))) max_sync_body_bytes b"
    using sync_to_bodies[OF finished(5) s3] by blast
  have c4: "ws_client s4 = se_client (pe_session pe')" "ws_pending_head s4 = se_pending_head (pe_session pe')"
    "(\<not> ws_complete s4) = se_strict_not_found (pe_session pe')" unfolding s4(2)[symmetric] by simp_all
  note f = finished(6)[unfolded l(1)]
  have "covers_head (pe_session pe2)" using sync_to_covers[OF finished(2)] cov pe1 by simp
  then have "covers_head (pe_session pe3)" using a(1) build_query_same[OF finished(3)] by (simp add: covers_head_def)
  then have "covers_head (pe_session pe')" by (rule sync_to_covers[OF finished(5)])
  then have at_block: "ws_pending_head s4 = at_block" using finish_at_head[OF f] by (simp add: covers_head_def c4(2))
  have fin: "web_finish rx s4 = Some (Inr (outcome_of (ws_complete s4) l), s4\<lparr> ws_in_flight := None \<rparr>)"
    using f by (simp add: web_finish_def s4(3) at_block c4(1))
  have conv: "web_conversation rx d1 addr bs d2 s = Some (Inr (body, outcome_of (ws_complete s4) l), s4\<lparr> ws_in_flight := None \<rparr>)"
    unfolding web_conversation_def s1(1) prod.case sum.case q bind.bind_lunit w s4(1) fin by simp
  have res: "r = map_err Failed (native_result (outcome_of (ws_complete s4) l))" by (simp add: l(2) native_result_of c4(3))
  have epochs: "ws_epoch s1 = ws_epoch s" "se_epoch (pe_session pe2) = ws_epoch s"
    using sync_to_keeps[OF finished(2)] s(1) pe1(1) c1(4) by (metis as_session_fields(7))+
  have r2: "hc_base (pe_pir pe2) = hc_base (pe_pir pe)"
    using cost.sync_to_related[OF finished(2)] pe1(2) by (auto simp: costs_def)
  obtain reqs where log: "hc_sent (pe_pir pe') = hc_sent c @ reqs"
    using cost.sync_to_related[OF finished(5)] a(1) by (auto simp: costs_def)
  have rep: "received rx (hc_sent (pe_pir pe')) (PostReq (hc_base (pe_pir pe) @ ''/answer?epoch='' @ ws_epoch s) body) max_answer_body_bytes bs"
    unfolding log received_def using a(4-6)
    by (intro exI[of _ "hc_sent (pe_pir pe2)"] exI[of _ reqs] exI[of _ rp]) (simp add: r2 epochs(2))
  have g1: "\<exists>from target. received rx (hc_sent (pe_pir pe')) (GetReq (hc_base (pe_pir pe) @ ''/sync?'' @ sync_query from target (ws_epoch s)))
      max_sync_body_bytes b" if "d1 = Some b" for b
    using received_append[OF d1[OF that]] unfolding log a(4) append_assoc by blast
  have b3: "hc_base (pe_pir pe3) = hc_base (pe_pir pe)" "ws_epoch ?s3 = ws_epoch s" using a(1,2) r2 epochs(1) by simp_all
  have g2: "\<exists>from target. received rx (hc_sent (pe_pir pe')) (GetReq (hc_base (pe_pir pe) @ ''/sync?'' @ sync_query from target (ws_epoch s)))
      max_sync_body_bytes b" if "d2 = Some b" for b
    using d2[OF that] unfolding b3 by blast
  show ?thesis
    by (rule exI[of _ d1], rule exI[of _ bs], rule exI[of _ d2], rule exI[of _ body], rule exI[of _ "outcome_of (ws_complete s4) l"],
      rule exI[of _ "s4\<lparr> ws_in_flight := None \<rparr>"]) (use conv res s4(2) rep g1 g2 in auto)
qed (use r in \<open>auto simp: undecided_def private_head_def dest: pir_call_undecided sync_to_undecided answer_call_undecided\<close>)

section \<open>A query without a usable answer\<close>

definition waits :: "in_flight \<Rightarrow> 'st web_session \<Rightarrow> bool" where
  "waits slot s \<longleftrightarrow> ws_in_flight s = Some slot \<and> (\<forall>responses at_block. if_answer slot = Some (responses, at_block) \<longrightarrow> at_block < ws_pending_head s)"

lemma waits_finish: "waits slot s \<Longrightarrow> \<exists>e. web_finish rx s = Some (Inl e, s)"
  by (cases "if_answer slot") (auto simp: waits_def web_finish_def)

text \<open>Only a bundle or an answer that is accepted ends it.\<close>

definition rescues :: "abi_event \<Rightarrow> bool" where
  "rescues e \<longleftrightarrow> (case e of (call, _, _, ok) \<Rightarrow> ok \<and> (case call of Init _ \<Rightarrow> True | Answer _ \<Rightarrow> True | _ \<Rightarrow> False))"

lemma waits_step:
  assumes "abi_step rx call a = Some (r, a')" and "abi_ok rx p a" and "ab_session a = Some s" and "waits slot s"
    and "\<not> rescues (call, bs, r, ab_err a' = None)"
  shows "(\<exists>s'. ab_session a' = Some s' \<and> waits slot s') \<and> ((\<exists>n. call = Query n) \<or> call = Finish \<longrightarrow> r = - 1 \<and> ab_err a' \<noteq> None)"
proof (cases call)
  case (SetMode n)
  then have "ab_session a' = ab_session a" using assms(1)
    by (cases "risepir_set_mode n a") (auto simp: abi_step_def risepir_set_mode_def Let_def set_err_def split: if_splits)
  then show ?thesis using SetMode assms(3,4) by auto
next
  case (SetModeByte w)
  then have "ab_session a' = ab_session a" using assms(1)
    by (cases "risepir_set_mode_byte w a") (auto simp: abi_step_def risepir_set_mode_byte_def Let_def set_err_def split: if_splits)
  then show ?thesis using SetModeByte assms(3,4) by auto
next
  case (Init n)
  then have "ab_err a' \<noteq> None" using assms(5) by (simp add: rescues_def)
  then have "ab_session a' = ab_session a" using assms(1) Init
    by (cases "risepir_init rx n a") (auto simp: abi_step_def risepir_init_def Let_def set_err_def risepir_in_release_def clear_err_def split: option.splits sum.splits)
  then show ?thesis using Init assms(3,4) by auto
next
  case (Ingest n)
  with assms(1) obtain v where v: "risepir_ingest n a = Some (v, a')" by (auto simp: abi_step_def)
  then obtain x s' where w: "web_ingest (input n a) s = (x, s')" "ab_session a' = Some s'"
    by (cases rule: risepir_ingest_cases) (use assms(3) in auto)
  have "ws_in_flight s' = ws_in_flight s" "ws_pending_head s \<le> ws_pending_head s'"
    using web_ingest_keeps[OF w(1) abi_okD(3)[OF assms(2,3)]] by auto
  then have "waits slot s'" using assms(4) by (auto simp: waits_def)
  then show ?thesis using w(2) Ingest by auto
next
  case (Query n)
  with assms(1) obtain v where v: "risepir_query rx n a = Some (v, a')" "r = sint v" by (auto simp: abi_step_def)
  have busy: "web_build_query rx (input n a) s = Some (Inl QueryAlreadyInFlight, s)" using assms(4) by (simp add: waits_def web_build_query_def)
  from v(1) have "v = - 1 \<and> ab_session a' = Some s \<and> ab_err a' \<noteq> None"
    by (cases rule: risepir_query_cases) (use assms(3) busy in auto)
  then show ?thesis using v(2) assms(4) Query by simp
next
  case (Answer n)
  with assms(1) obtain v where v: "risepir_answer n a = Some (v, a')" by (auto simp: abi_step_def)
  have err: "ab_err a' \<noteq> None" using assms(5) Answer by (simp add: rescues_def)
  from v show ?thesis
  proof (cases rule: risepir_answer_cases)
    case (failed s0 e s')
    have "s' = s0" using failed(2) by (cases rule: web_accept_answer_cases) auto
    then show ?thesis using failed assms(3,4) Answer by simp
  qed (use assms(3) err in auto)
next
  case Finish
  with assms(1) obtain v where v: "risepir_finish rx a = Some (v, a')" "r = sint v" by (auto simp: abi_step_def)
  obtain e where e: "web_finish rx s = Some (Inl e, s)" using waits_finish[OF assms(4)] by blast
  from v(1) have "v = status_error \<and> ab_session a' = Some s \<and> ab_err a' \<noteq> None"
    by (cases rule: risepir_finish_cases) (use assms(3) e in auto)
  then show ?thesis using v(2) assms(4) Finish by (simp add: status_error_def)
next
  case Epoch
  then have "ab_session a' = ab_session a" using assms(1,3) by (auto simp: abi_step_def risepir_epoch_def Let_def put_out_def)
  then show ?thesis using Epoch assms(3,4) by auto
next
  case Complete
  then have "ab_session a' = ab_session a" using assms(1,3) by (auto simp: abi_step_def risepir_complete_def)
  then show ?thesis using Complete assms(3,4) by auto
qed (use assms in \<open>auto simp: abi_step_def risepir_in_reserve_def put_input_def risepir_in_release_def\<close>)

lemma waits_run:
  assumes "abi_run rx a tr b" and "abi_ok rx p a" and "ab_session a = Some s" and "waits slot s" and "list_all (\<lambda>e. \<not> rescues e) tr"
  shows "(\<exists>s'. ab_session b = Some s' \<and> waits slot s') \<and>
    (\<forall>call bs r ok. (call, bs, r, ok) \<in> set tr \<and> ((\<exists>n. call = Query n) \<or> call = Finish) \<longrightarrow> r = - 1 \<and> \<not> ok)"
  using assms
proof (induction rule: abi_run.induct)
  case (abi_next tr b call r c)
  then obtain s' where s': "ab_session b = Some s'" "waits slot s'" by auto
  have nr: "\<not> rescues (call, call_input call b, r, ab_err c = None)" using abi_next.prems(4) by simp
  have "list_all (\<lambda>e. \<not> rescues e) tr" using abi_next.prems(4) by simp
  note ih = abi_next.IH[OF abi_next.prems(1-3) this]
  have now: "(\<exists>s'. ab_session c = Some s' \<and> waits slot s') \<and> ((\<exists>n. call = Query n) \<or> call = Finish \<longrightarrow> r = - 1 \<and> ab_err c \<noteq> None)"
    by (rule waits_step[OF abi_next.hyps(2) run_from_abi_ok[OF abi_next.hyps(1) abi_next.prems(1)] s' nr])
  show ?case
  proof (intro conjI allI impI)
    show "\<exists>s'. ab_session c = Some s' \<and> waits slot s'" using now by blast
    fix call' bs r' ok
    assume e: "(call', bs, r', ok) \<in> set (tr @ [(call, call_input call b, r, ab_err c = None)]) \<and> ((\<exists>n. call' = Query n) \<or> call' = Finish)"
    then consider "(call', bs, r', ok) \<in> set tr" | "call' = call" "r' = r" "ok = (ab_err c = None)" by auto
    then have "r' = - 1 \<and> \<not> ok"
    proof cases
      case 1
      then show ?thesis using conjunct2[OF ih, rule_format, of call' bs r' ok] e by simp
    next
      case 2
      show ?thesis unfolding 2 using conjunct2[OF now] conjunct2[OF e, unfolded 2(1)] by blast
    qed
    then show "r' = - 1" "\<not> ok" by simp_all
  qed
qed auto

section \<open>Concrete data\<close>

text \<open>The toy deployment of theory \<open>Wire\<close>, whose tables hold no account.\<close>

definition empty_params :: cuckoo_params where
  "empty_params = pair_params\<lparr> cp_arity := 2, cp_value_size := 18, cp_candidate_buckets := (\<lambda>_. (5, [0, 4])),
     cp_unpack_slot := (\<lambda>_. (0, replicate 18 0)) \<rparr>"

lemma empty_params_fields:
  "cp_arity empty_params = 2" "cp_segment_size empty_params = 4" "cp_bucket_size empty_params = 2" "cp_value_size empty_params = 18"
  "cp_candidate_buckets empty_params k = (5, [0, 4])" "cp_cells_per_slot empty_params = 1"
  "cp_unpack_slot empty_params cs = (0, replicate 18 0)"
  by (simp_all add: empty_params_def pair_params_def)

definition empty_rx :: "(toy_params, u32) rpc_ext" where
  "empty_rx = lookup_rx\<lparr> re_params := (\<lambda>_. empty_params) \<rparr>"

definition empty_reply :: bytes where
  "empty_reply = the (encode_response_bundle [[0, 0, 0], [0, 0, 0]] 19)"

definition empty_setup :: bytes where
  "empty_setup = setup_bytes toy_simple_lib toy_bundle"

lemma empty_decodes:
  "decode_setup (hx_lib (re_http empty_rx)) empty_setup = Inr toy_bundle"
  "decode_response_bundle empty_reply [3, 3] 2 = Inr ([[0, 0, 0], [0, 0, 0]], 19)"
proof -
  have "hx_lib (re_http empty_rx) = toy_simple_lib" by (simp add: empty_rx_def lookup_rx_def lookup_http_def)
  then show "decode_setup (hx_lib (re_http empty_rx)) empty_setup = Inr toy_bundle"
    by (simp add: empty_setup_def decode_setup_bytes toy_simple_lib_ok toy_bundle_fits)
  obtain bs where bs: "encode_response_bundle [[0, 0, 0], [0, 0, 0 :: u32]] 19 = Some bs" by (simp add: encode_response_bundle_def)
  have w: "map unat [3, 3 :: u32] = map length [[0, 0, 0], [0, 0, 0 :: u32]]" by simp
  have n: "length [3, 3 :: u32] = 2" by simp
  show "decode_response_bundle empty_reply [3, 3] 2 = Inr ([[0, 0, 0], [0, 0, 0]], 19)"
    using response_bytes_decode[OF bs w] unfolding n by (simp only: empty_reply_def bs option.sel)
qed

definition empty_session :: "u32 web_session" where
  "empty_session = web_from_bundle empty_rx toy_bundle True"

lemma empty_session_fields:
  "ws_widths empty_session = [3, 3]" "ws_arity empty_session = 2" "ws_complete empty_session" "ws_pending_head empty_session = 19"
  "ws_in_flight empty_session = None" "rc_params (ws_client empty_session) = empty_params"
  "rc_value_codec (ws_client empty_session) = web_value_codec" "rc_delta (ws_client empty_session) = pending_new 2 19"
  "rc_states (ws_client empty_session) = [0, 0]"
  by (simp_all add: empty_session_def web_from_bundle_def from_setup_def client_bundle_def toy_bundle_def toy_server_params_def
    empty_rx_def lookup_rx_def lookup_backend_def empty_params_def pair_params_def numeral_2_eq_2)

definition empty_ctx :: query_ctx where
  "empty_ctx = \<lparr> ctx_queries = [[1, 0], [1, 0]], ctx_rows = [0, 0] \<rparr>"

lemma empty_query:
  "\<exists>body cl. web_build_query empty_rx (replicate 20 1) empty_session = Some (Inr body,
     empty_session\<lparr> ws_client := cl, ws_in_flight := Some \<lparr> if_key = [1], if_ctx = empty_ctx, if_answer = None \<rparr> \<rparr>) \<and>
   rc_params cl = empty_params \<and> rc_value_codec cl = web_value_codec \<and> rc_delta cl = pending_new 2 19 \<and> rc_states cl = [0, 0]"
proof -
  obtain body where b: "encode_query_bundle [[1, 0], [1, 0 :: u32]] = Some body" by (simp add: encode_query_bundle_def)
  let ?cl = "(ws_client empty_session)\<lparr> rc_states := [0, 0] \<rparr>"
  have st: "re_be empty_rx = lookup_backend" "re_keccak empty_rx k = [1]" for k by (simp_all add: empty_rx_def lookup_rx_def)
  have "query_segments lookup_backend [0, 4] 4 0 2 [0, 0] = Some ([0, 0], [[1, 0], [1, 0]], [0, 0])"
    unfolding numeral_2_eq_2 by (simp add: get_def lookup_backend_def)
  then have "build_query lookup_backend (ws_client empty_session) [1] = Some ([[1, 0], [1, 0]], empty_ctx, ?cl)"
    by (simp add: build_query_def empty_session_fields empty_params_fields empty_ctx_def)
  then have "web_build_query empty_rx (replicate 20 1) empty_session = Some (Inr body,
     empty_session\<lparr> ws_client := ?cl, ws_in_flight := Some \<lparr> if_key = [1], if_ctx = empty_ctx, if_answer = None \<rparr> \<rparr>)"
    using b by (simp add: web_build_query_def Let_def st empty_session_fields)
  then show ?thesis
    by (intro exI[of _ body] exI[of _ ?cl]) (simp add: empty_session_fields)
qed

lemma empty_finish:
  assumes "rc_params c = empty_params" "rc_value_codec c = web_value_codec" "rc_delta c = pending_new 2 19" "rc_states c = [0, 0]"
  shows "finish (re_xxh3 empty_rx) (re_be empty_rx) c [1] empty_ctx [[0, 0, 0], [0, 0, 0]] 19 = Some (Inr NotFound)"
proof -
  have tag: "extract_key_tag web_value_codec (replicate 18 0) = Some 0" by code_simp
  note f = empty_params_fields
  have slot: "scan_slot empty_params web_value_codec 5 t [0, 0, 0] i (replicate 18 0, 0) = Some (replicate 18 0, 0)" if "i < 2" for i t
  proof -
    have "or_masked 0 (replicate n 0) (replicate n 0) = replicate n 0" for n by (induction n) simp_all
    moreover have "ct_eq_u64_mask 0 5 = 0" by code_simp
    ultimately show ?thesis using that by (auto simp: scan_slot_def f tag get_range_def)
  qed
  have p: "pending_segment (pending_new 2 19) j = Some []" "pending_row (pending_new 2 19) j 0 = Some []" if "j < 2" for j
    using that by (simp_all add: pending_new_def pending_segment_def pending_row_def get_def bt_range_def)
  have st: "re_be empty_rx = lookup_backend" by (simp add: empty_rx_def lookup_rx_def)
  have seg: "finish_segment lookup_backend c empty_ctx [[0, 0, 0], [0, 0, 0]] 5 t j (replicate 18 0, 0) = Some (Inr (replicate 18 0, 0))"
    if "j < 2" for j t
  proof -
    have "scan_slots empty_params web_value_codec 5 t [0, 0, 0] 0 2 (replicate 18 0, 0) = Some (replicate 18 0, 0)"
      unfolding numeral_2_eq_2 scan_slots.simps using slot by simp
    then show ?thesis
      using that p[OF that] by (auto simp: finish_segment_def assms get_def f empty_ctx_def less_2_cases_iff) (simp_all add: lookup_backend_def)
  qed
  have r: "rows_match [0, 0] [0, 4] 4 0 2 = Some (Inr ())" by code_simp
  show ?thesis
    unfolding st finish_def assms f Let_def prod.case
    using r by (simp add: empty_ctx_def pending_new_def) (simp add: numeral_2_eq_2 seg[unfolded empty_ctx_def])
qed

text \<open>A host that declares a complete deployment and asks once.\<close>

definition asked :: "abi_call list" where
  "asked = [SetModeByte 1, PutInput empty_setup, Init (length empty_setup), PutInput (replicate 20 1), Query 20]"

lemma empty_asks:
  "\<exists>tr a cl. abi_run empty_rx abi_new tr a \<and> handed_in tr = \<lparr> hd_mode = Some [1], hd_setup = Some ([1], empty_setup),
       hd_addr = Some (replicate 20 1), hd_answer = None \<rparr> \<and>
     ab_session a = Some (empty_session\<lparr> ws_client := cl, ws_in_flight := Some \<lparr> if_key = [1], if_ctx = empty_ctx, if_answer = None \<rparr> \<rparr>) \<and>
     rc_params cl = empty_params \<and> rc_value_codec cl = web_value_codec \<and> rc_delta cl = pending_new 2 19 \<and> rc_states cl = [0, 0]"
proof -
  obtain body cl where q: "web_build_query empty_rx (replicate 20 1) empty_session = Some (Inr body,
     empty_session\<lparr> ws_client := cl, ws_in_flight := Some \<lparr> if_key = [1], if_ctx = empty_ctx, if_answer = None \<rparr> \<rparr>)"
    and cl: "rc_params cl = empty_params" "rc_value_codec cl = web_value_codec" "rc_delta cl = pending_new 2 19" "rc_states cl = [0, 0]"
    using empty_query by blast
  let ?a1 = "abi_new\<lparr> ab_mode := Some [1] \<rparr>" and ?s = "empty_session\<lparr> ws_client := cl,
    ws_in_flight := Some \<lparr> if_key = [1], if_ctx = empty_ctx, if_answer = None \<rparr> \<rparr>"
  let ?a2 = "?a1\<lparr> ab_in := empty_setup \<rparr>"
  let ?a3 = "?a2\<lparr> ab_in := [], ab_session := Some empty_session \<rparr>"
  let ?a4 = "?a3\<lparr> ab_in := replicate 20 1 \<rparr>"
  let ?a5 = "?a4\<lparr> ab_session := Some ?s, ab_out := body \<rparr>"
  have "abi_step empty_rx (SetModeByte 1) abi_new = Some (0, ?a1)"
    by (simp add: abi_step_def risepir_set_mode_byte_def Let_def clear_err_def abi_new_def)
  note r1 = abi_next[OF abi_start this]
  have "abi_step empty_rx (PutInput empty_setup) ?a1 = Some (int (length empty_setup), ?a2)"
    by (simp add: abi_step_def put_input_def)
  note r2 = abi_next[OF r1 this]
  have "abi_step empty_rx (Init (length empty_setup)) ?a2 = Some (0, ?a3)"
    by (simp add: abi_step_def risepir_init_def Let_def parse_mode_def web_decode_def input_def clear_err_def
        empty_decodes(1) risepir_in_release_def abi_new_def empty_session_def)
  note r3 = abi_next[OF r2 this]
  have "abi_step empty_rx (PutInput (replicate 20 1)) ?a3 = Some (20, ?a4)"
    by (simp add: abi_step_def put_input_def)
  note r4 = abi_next[OF r3 this]
  have "\<exists>v. abi_step empty_rx (Query 20) ?a4 = Some (v, ?a5)"
    using q by (simp add: abi_step_def risepir_query_def Let_def with_session_def input_def clear_err_def put_out_def abi_new_def)
  then obtain v where "abi_step empty_rx (Query 20) ?a4 = Some (v, ?a5)" by blast
  note r5 = abi_next[OF r4 this]
  have h: "handed_in ([] @ [(SetModeByte 1, call_input (SetModeByte 1) abi_new, 0, ab_err ?a1 = None)] @
      [(PutInput empty_setup, call_input (PutInput empty_setup) ?a1, int (length empty_setup), ab_err ?a2 = None)] @
      [(Init (length empty_setup), call_input (Init (length empty_setup)) ?a2, 0, ab_err ?a3 = None)] @
      [(PutInput (replicate 20 1), call_input (PutInput (replicate 20 1)) ?a3, 20, ab_err ?a4 = None)] @
      [(Query 20, call_input (Query 20) ?a4, v, ab_err ?a5 = None)]) = \<lparr> hd_mode = Some [1], hd_setup = Some ([1], empty_setup),
       hd_addr = Some (replicate 20 1), hd_answer = None \<rparr>"
    by (simp add: handed_in_def call_input_def input_def abi_new_def)
  show ?thesis using r5 h cl by (intro exI conjI) (assumption | simp)+
qed

lemma empty_answers:
  "\<exists>tr a a'. abi_run empty_rx abi_new tr a \<and> risepir_finish empty_rx a = Some (1, a') \<and>
    handed_in tr = \<lparr> hd_mode = Some [1], hd_setup = Some ([1], empty_setup), hd_addr = Some (replicate 20 1),
      hd_answer = Some empty_reply \<rparr>"
proof -
  obtain tr a cl where run: "abi_run empty_rx abi_new tr a" and h: "handed_in tr = \<lparr> hd_mode = Some [1], hd_setup = Some ([1], empty_setup),
       hd_addr = Some (replicate 20 1), hd_answer = None \<rparr>"
    and a: "ab_session a = Some (empty_session\<lparr> ws_client := cl, ws_in_flight := Some \<lparr> if_key = [1], if_ctx = empty_ctx, if_answer = None \<rparr> \<rparr>)"
    and cl: "rc_params cl = empty_params" "rc_value_codec cl = web_value_codec" "rc_delta cl = pending_new 2 19" "rc_states cl = [0, 0]"
    using empty_asks by blast
  let ?s = "empty_session\<lparr> ws_client := cl, ws_in_flight := Some \<lparr> if_key = [1], if_ctx = empty_ctx,
    if_answer = Some ([[0, 0, 0], [0, 0, 0]], 19) \<rparr> \<rparr>"
  let ?a1 = "a\<lparr> ab_in := empty_reply \<rparr>"
  let ?a2 = "?a1\<lparr> ab_err := None, ab_session := Some ?s \<rparr>"
  have "abi_step empty_rx (PutInput empty_reply) a = Some (int (length empty_reply), ?a1)"
    by (simp add: abi_step_def put_input_def)
  note r1 = abi_next[OF run this]
  have "abi_step empty_rx (Answer (length empty_reply)) ?a1 = Some (19, ?a2)"
    using a empty_decodes(2) empty_session_fields
    by (simp add: abi_step_def risepir_answer_def Let_def with_session_def input_def clear_err_def web_accept_answer_def)
  note r2 = abi_next[OF r1 this]
  have "web_finish empty_rx ?s = Some (Inr OutcomeZero, ?s\<lparr> ws_in_flight := None \<rparr>)"
    using empty_finish[OF cl] empty_session_fields by (simp add: web_finish_def outcome_of_def)
  then have "\<exists>a'. risepir_finish empty_rx ?a2 = Some (1, a')"
    by (simp add: risepir_finish_def with_session_def clear_err_def put_out_def status_zero_def)
  moreover have "handed_in ((tr @ [(PutInput empty_reply, call_input (PutInput empty_reply) a, int (length empty_reply), ab_err ?a1 = None)]) @
      [(Answer (length empty_reply), call_input (Answer (length empty_reply)) ?a1, 19, ab_err ?a2 = None)]) =
    \<lparr> hd_mode = Some [1], hd_setup = Some ([1], empty_setup), hd_addr = Some (replicate 20 1), hd_answer = Some empty_reply \<rparr>"
    using h by (simp add: handed_in_snoc call_input_def input_def del: append_assoc)
  ultimately show ?thesis using r2 by blast
qed

section \<open>Properties\<close>

text \<open>C10. The browser never guesses either.  Whatever sequence of calls a host has made, if
  \<open>risepir_finish\<close> returns a status, then it is the outcome of \<open>finish\<close> on the last answer that was
  accepted, decoded whole, for the hash of the address of the last query, at exactly the block the
  session's delta reaches, in a session of the last bundle and mode that were taken: the balance that
  was found, "zero" only in a mode that was declared complete, "untracked" otherwise, or a failed
  check.\<close>

theorem browser_never_guesses:
  assumes "abi_run rx abi_new tr a" and "risepir_finish rx a = Some (v, a')" and "v \<noteq> status_error"
  shows "\<exists>mode setup b addr reply s slot responses l.
    hd_setup (handed_in tr) = Some (mode, setup) \<and> decode_setup (hx_lib (re_http rx)) setup = Inr b \<and>
    hd_addr (handed_in tr) = Some addr \<and> length addr = 20 \<and> hd_answer (handed_in tr) = Some reply \<and>
    ab_session a = Some s \<and> session_of rx web_value_codec b (mode = [1]) (as_session s) \<and> ws_in_flight s = Some slot \<and>
    (0 < cp_arity (rc_params (ws_client s)) \<longrightarrow> ctx_for (rc_params (ws_client s)) (re_keccak rx addr) (if_ctx slot)) \<and>
    decode_response_bundle reply (ws_widths s) (ws_arity s) = Inr (responses, ws_pending_head s) \<and>
    finish (re_xxh3 rx) (re_be rx) (ws_client s) (re_keccak rx addr) (if_ctx slot) responses (ws_pending_head s) = Some (Inr l) \<and>
    (v, ab_out a') = (case l of Found balance \<Rightarrow> (0, to_le 16 balance) | NotFound \<Rightarrow> (if mode = [1] then 1 else 2, [])
      | DecodeFailed \<Rightarrow> (3, []))"
  using assms(2)
proof (cases rule: risepir_finish_cases)
  case (success s out s')
  note ok = run_abi_ok[OF assms(1)]
  obtain slot where slot: "ws_in_flight s = Some slot"
    using success(2) by (cases "ws_in_flight s") (auto simp: web_finish_def)
  obtain responses at_block where ans: "if_answer slot = Some (responses, at_block)"
    using success(2) slot by (cases "if_answer slot") (auto simp: web_finish_def)
  have head: "at_block = ws_pending_head s"
    using success(2) slot ans by (simp add: web_finish_def split: if_splits)
  obtain z where z: "finish (re_xxh3 rx) (re_be rx) (ws_client s) (if_key slot) (if_ctx slot) responses (ws_pending_head s) = Some z"
    "(case z of Inl e \<Rightarrow> Inl (SessionClient e) | Inr l \<Rightarrow> Inr (outcome_of (ws_complete s) l)) = Inr out"
    using success(2) by (auto simp: web_finish_def slot ans head)
  then obtain l where f: "finish (re_xxh3 rx) (re_be rx) (ws_client s) (if_key slot) (if_ctx slot) responses (ws_pending_head s) = Some (Inr l)"
    and out: "out = outcome_of (ws_complete s) l" by (cases z) auto
  obtain addr reply where a: "hd_addr (handed_in tr) = Some addr" "length addr = 20" "if_key slot = re_keccak rx addr"
    "0 < cp_arity (rc_params (ws_client s)) \<longrightarrow> ctx_for (rc_params (ws_client s)) (re_keccak rx addr) (if_ctx slot)"
    "hd_answer (handed_in tr) = Some reply" "decode_response_bundle reply (ws_widths s) (ws_arity s) = Inr (responses, ws_pending_head s)"
    using abi_okD(4)[OF ok success(1) slot] ans by (auto simp: slot_ok_def head)
  obtain mode setup_body b where m: "hd_setup (handed_in tr) = Some (mode, setup_body)"
    "decode_setup (hx_lib (re_http rx)) setup_body = Inr b" "session_of rx web_value_codec b (mode = [1]) (as_session s)"
    using abi_okD(3)[OF ok success(1)] by (auto simp: stems_from_def)
  have "ws_complete s = (mode = [1])" using m(3) by (simp add: session_of_def)
  then have "(v, ab_out a') = (case l of Found balance \<Rightarrow> (0, to_le 16 balance) | NotFound \<Rightarrow> (if mode = [1] then 1 else 2, [])
      | DecodeFailed \<Rightarrow> (3, []))"
    unfolding success(3,4) out
    by (simp add: status_of_def outcome_of_def status_found_def status_zero_def status_untracked_def status_decode_failed_def
        split: lookup.split)
  note facts = this m a success(1) slot f[unfolded a(3)]
  show ?thesis
    by (rule exI[of _ mode], rule exI[of _ setup_body], rule exI[of _ b], rule exI[of _ addr], rule exI[of _ reply],
      rule exI[of _ s], rule exI[of _ slot], rule exI[of _ responses], rule exI[of _ l]) (intro conjI facts)
qed (use assms(3) in simp_all)

lemma browser_never_guesses_witness:
  "\<exists>tr a a'. abi_run empty_rx abi_new tr a \<and> risepir_finish empty_rx a = Some (1, a') \<and>
    hd_addr (handed_in tr) = Some (replicate 20 1) \<and> hd_answer (handed_in tr) = Some empty_reply \<and>
    (\<exists>b. decode_setup (hx_lib (re_http empty_rx)) empty_setup = Inr b \<and> (\<exists>s. ab_session a = Some s \<and>
       session_of empty_rx web_value_codec b True (as_session s)))"
proof -
  obtain tr a a' where run: "abi_run empty_rx abi_new tr a" "risepir_finish empty_rx a = Some (1, a')"
    and h: "handed_in tr = \<lparr> hd_mode = Some [1], hd_setup = Some ([1], empty_setup), hd_addr = Some (replicate 20 1),
      hd_answer = Some empty_reply \<rparr>"
    using empty_answers by blast
  have "1 \<noteq> status_error" by (simp add: status_error_def)
  from browser_never_guesses[OF run this] obtain b s where "decode_setup (hx_lib (re_http empty_rx)) empty_setup = Inr b"
    "ab_session a = Some s" "session_of empty_rx web_value_codec b True (as_session s)"
    by (auto simp: h)
  moreover have "hd_addr (handed_in tr) = Some (replicate 20 1)" "hd_answer (handed_in tr) = Some empty_reply" by (simp_all add: h)
  ultimately show ?thesis using run by blast
qed

text \<open>C11. The browser decides as the native client does.  Take a lookup of the native client that comes to
  a decision (a balance, an account that is not tracked, a failed check), and a browser session in the
  same state.  Then there are bodies, each of them received by the native client in reply to a request of
  its log (a delta request for this lineage, or the answer request with this very query), with which the browser's calls (ingest, query, answer, ingest,
  finish) come to the same decision, send the same query, and leave the session in the same state.\<close>

theorem browser_decides_as_native:
  assumes "try_get_balance rx deadline (re_keccak rx addr) (pe, sink) = Some (r, pe', sink')"
    and "as_session s = pe_session pe" and "ws_in_flight s = None" and "length addr = 20"
    and "pd_head (rc_delta (se_client (pe_session pe))) = se_pending_head (pe_session pe)"
    and "r \<in> range Inr \<union> {Inl (Failed NotInTrackedSet), Inl (Failed BalanceDecodeFailed)}"
  shows "\<exists>d1 reply d2 body l s'. web_conversation rx d1 addr reply d2 s = Some (Inr (body, l), s') \<and>
    r = map_err Failed (native_result l) \<and> as_session s' = pe_session pe' \<and> ws_in_flight s' = None \<and>
    received rx (hc_sent (pe_pir pe')) (PostReq (hc_base (pe_pir pe) @ ''/answer?epoch='' @ ws_epoch s) body) max_answer_body_bytes reply \<and>
    (\<forall>d \<in> {d1, d2}. \<forall>bs. d = Some bs \<longrightarrow> (\<exists>from target. received rx (hc_sent (pe_pir pe'))
       (GetReq (hc_base (pe_pir pe) @ ''/sync?'' @ sync_query from target (ws_epoch s))) max_sync_body_bytes bs))"
  using conversation_of_lookup[OF assms(1-4) _ assms(6)] assms(5) by (simp add: covers_head_def)

lemma browser_decides_as_native_witness:
  "\<exists>s pe' d1 reply d2 body s'. try_get_balance lookup_rx None [1] (lookup_start, None) = Some (Inr 5, pe', None) \<and>
    web_conversation lookup_rx d1 (replicate 20 1) reply d2 s = Some (Inr (body, OutcomeFound 5), s') \<and> as_session s' = pe_session pe'"
proof -
  let ?se = "pe_session lookup_start"
  let ?s = "\<lparr> ws_client = se_client ?se, ws_widths = se_widths ?se, ws_arity = se_arity ?se, ws_plaintext_bits = se_plaintext_bits ?se,
    ws_complete = \<not> se_strict_not_found ?se, ws_epoch = se_epoch ?se, ws_pending_head = se_pending_head ?se, ws_pinned_block = 7,
    ws_in_flight = None \<rparr>"
  have s: "as_session ?s = ?se" by (simp add: as_session_def)
  obtain pe' where t: "try_get_balance lookup_rx None [1] (lookup_start, None) = Some (Inr 5, pe', None)"
    using lookup_tries[of None "[]"] by (auto simp: past_def lookup_fields(1)[symmetric])
  have k: "re_keccak lookup_rx (replicate 20 1) = [1]" by (simp add: lookup_fields)
  have c: "pd_head (rc_delta (se_client ?se)) = se_pending_head ?se" by (simp add: lookup_fields pending_new_def)
  from browser_decides_as_native[OF t[folded k] s _ _ c] obtain d1 reply d2 body l s' where
    w: "web_conversation lookup_rx d1 (replicate 20 1) reply d2 ?s = Some (Inr (body, l), s')"
    and l: "Inr 5 = map_err Failed (native_result l)" and e: "as_session s' = pe_session pe'"
    by auto
  have "l = OutcomeFound 5" using l by (cases l) (auto simp: native_result_def)
  then show ?thesis using t w e by blast
qed

text \<open>A query that was built and got no answer blocks every later one: until a bundle or an answer is taken,
  each \<open>risepir_query\<close> and \<open>risepir_finish\<close> fails, whatever the host calls.\<close>

theorem unanswered_query_blocks:
  assumes "abi_run rx abi_new tr0 a" and "ab_session a = Some s" and "ws_in_flight s = Some slot" and "if_answer slot = None"
    and "abi_run rx a tr b" and "\<And>call bs r n. (call, bs, r, True) \<in> set tr \<Longrightarrow> call \<noteq> Init n \<and> call \<noteq> Answer n"
    and "(call, bs, r, ok) \<in> set tr" and "call \<in> insert Finish (range Query)"
  shows "r = - 1 \<and> \<not> ok"
proof -
  have "list_all (\<lambda>e. \<not> rescues e) tr"
    using assms(6) by (fastforce simp: list_all_iff rescues_def split: abi_call.splits)
  moreover have "waits slot s" using assms(3,4) by (simp add: waits_def)
  ultimately show ?thesis using waits_run[OF assms(5) run_abi_ok[OF assms(1)] assms(2)] assms(7,8) by blast
qed

end
