(* ===== verification/Spec2Isabelle.thy ===== *)
theory Spec2Isabelle
  imports Delta_Codec Client Delta_Ring Server Wire Journal State_File Restore Node_Run
    Autosave Snapshot Mock_Feed Hard_Refresh Reconcile Prefetch Follow Http_Client Private_Eth Rpc_Front Browser
begin

text \<open>
  A verification development of RisePIR (\<open>src/crates\<close>), a server that answers Ethereum
  balance queries by private information retrieval.

  The program.  The server keeps a segmented cuckoo table of packed balances, a flat array of
  cells, and one hint per segment.  Every block is applied to the table; the changed cells
  become a block delta, which patches the hints.  A client downloads a setup bundle once, keeps
  the deltas of later blocks beside its hint, and at a query corrects the response by them, so
  its lookup is answered for the head.  The node serves bundles, deltas and answers over HTTP;
  a state file and a journal of deltas let it restart where it was.

  Theories and the code they model.
  \<^item> \<open>Prelude\<close>, \<open>Wire_Items\<close>, \<open>BTree_Map\<close>: results, words, little-endian bytes, reads at a
    cursor; the item loops of the codecs (locale \<open>wire_item\<close> and its kin); the
    standard ordered map (locale \<open>ordered_map\<close>).
  \<^item> \<open>Varint\<close>, \<open>Block_Delta\<close>, \<open>Delta_Codec\<close>, \<open>Value_Codec\<close>, \<open>Geometry\<close>:
    \<open>risepir-proto\<close> (\<open>codec.rs\<close>, \<open>types.rs\<close>, \<open>value.rs\<close>, \<open>geometry.rs\<close>).
  \<^item> \<open>Pending_Delta\<close>, \<open>Rewind\<close>, \<open>Client\<close>: \<open>risepir-client\<close> (\<open>delta.rs\<close>, \<open>rewind.rs\<close>,
    \<open>client.rs\<close>, \<open>error.rs\<close>).
  \<^item> \<open>Cuckoo\<close>, \<open>Fold\<close>, \<open>Verified\<close>, \<open>Delta_Ring\<close>, \<open>Server\<close>: \<open>risepir-server\<close> (\<open>fold.rs\<close>,
    \<open>verified.rs\<close>, \<open>delta_ring.rs\<close>, \<open>server.rs\<close>, \<open>error.rs\<close>) over the external store.
  \<^item> \<open>Wire\<close>, \<open>Http_Text\<close>, \<open>Node\<close>, \<open>Node_Run\<close>, \<open>Http_Client\<close>: \<open>risepir-http\<close> (\<open>wire.rs\<close>,
    \<open>node.rs\<close>, \<open>client.rs\<close>, \<open>measure.rs\<close>).
  \<^item> \<open>Journal\<close>, \<open>State_File\<close>, \<open>Restore\<close>: \<open>risepir-rpc\<close> (\<open>journal.rs\<close>, \<open>state.rs\<close>).
  \<^item> \<open>Autosave\<close>: the saver and the journal rotation (\<open>autosave.rs\<close>) in a run with the server.
  \<^item> \<open>Hex_Text\<close>, \<open>Text_Lines\<close>, \<open>Feed_Rpc\<close>, \<open>Snapshot\<close>, \<open>Mock_Feed\<close>: \<open>risepir-feed\<close> (\<open>rpc.rs\<close>,
    \<open>snapshot.rs\<close>, \<open>lib.rs\<close>).
  \<^item> \<open>Hard_Refresh\<close>, \<open>Reconcile\<close>: the two checks against other providers (\<open>hard_refresh.rs\<close>,
    \<open>mainnet.rs\<close>, the health record of \<open>node.rs\<close>).
  \<^item> \<open>Prefetch\<close>, \<open>Follow\<close>: the bounded lookahead (\<open>prefetch.rs\<close>) and the loop that polls,
    fetches, prepares, applies, journals and reconciles one block at a time (\<open>mainnet.rs\<close>).
  \<^item> \<open>Private_Eth\<close>, \<open>Rpc_Front\<close>: the light client of \<open>risepir-rpc\<close>: its session, lookups and recovery
    (\<open>private_eth.rs\<close>, \<open>error.rs\<close>) and the JSON-RPC listener (\<open>rpc.rs\<close>, \<open>front.rs\<close>).
  \<^item> \<open>Browser\<close>: the client in the browser, \<open>risepir-wasm\<close> (\<open>session.rs\<close>, \<open>abi.rs\<close>).
  \<^item> This theory: the path from the server's blocks through the wire to the client.

  How the code is read.  A struct is a record, an enum a datatype, a fixed-width integer a word
  (release build: plain arithmetic wraps), \<open>usize\<close> a natural number, \<open>f64\<close> its 64-bit
  pattern, a \<open>BTreeMap\<close> an ascending association list, a \<open>Result\<close> a sum with the error on the
  left, a panic the value \<open>None\<close>.  A method with \<open>&mut self\<close> returns the new state, also
  when it fails.  A file is its bytes; a write that fails leaves a prefix of what was to be
  written, at any cut.  Loops are recursions on the list they walk or carry a measure;
  nothing runs on fuel.

  What is a parameter.  The hashes (xxh3, Keccak), the store and its mutation log, the PIR
  backend (setup, answer, hint patch), \<open>CuckooParams\<close> and \<open>SimpleParams\<close>.  What the
  code relies on is a named hypothesis (\<open>store_contract\<close>, \<open>backend_contract\<close>,
  \<open>simple_lib_ok\<close>, \<open>arity_doc\<close>, \<open>from_cells_doc\<close>, the honest answers of theory \<open>Client\<close>), and
  each property with such a hypothesis has a witness over concrete functions.

  What the lemmas show.
  \<^item> Codecs: round trips, what an accepted input is (bounds, exact consumption), no accepted
    message extends another; for the bundles that every length matches the parameters.
  \<^item> Deltas: the effect of a delta on a cell is the common currency; coalescing, ingesting,
    folding a mutation log, applying to the flat array and rewinding are sums of effects.
  \<^item> Server: a block's delta is the difference of the databases, hints stay current along
    every run, failures keep everything but the store, no write hits a foreign slot.
  \<^item> Client: finish on an honest answer is the balance at the head; garbage collection keeps
    that view.
  \<^item> Node: along every run of blocks, served bundles and notes the window holds the last deltas,
    \<open>/sync\<close> serves differences of this lineage only, a served bundle reaches the head, and a
    resumed download is one bundle.  The HTTP client buffers no body beyond its cap and reads what
    the handlers served, in whatever chunks.
  \<^item> Persistence: after every run of appends, crashes and adoptions the journal returns the
    acknowledged records up to the first above the reader's cap of 64 MiB; a saved state loads back,
    and a file that loads is exactly such a state and its hash; at every moment of a run with
    periodic saves and rotations, whatever write failed, a restart reaches a server of the run.
  \<^item> A block refused halfway leaves a torn node, and no later block heals it
    (\<open>failed_block_leaves_torn_node\<close>).
  \<^item> Feeds: the changes of a block are the last writes of its trace, a block comes from an
    endpoint of the right chain, a snapshot is loaded completely or refused.
  \<^item> Checks: a correction needs unanimity and an unchanged account (with the gap that theorem
    \<open>refresh_overwrites_newer_balance\<close> states), a checkpoint halts exactly on a disagreement,
    defers without losing candidates while it has room, and its health record is truthful.
  \<^item> Following: the lookahead delivers every block once, in order, and the applier sees what the
    loop without it would see; a run of the follow loop is a run of the node, of the saver and
    of the prefetcher at once, so their theorems hold of it: consecutive blocks, checkpoints on
    cadence, and a restart at the newest block or the one in flight.
  \<^item> Light client: a balance is never guessed, a lookup ends and recovery is metered (with the gap that
    \<open>slow_bundle_is_never_recovered\<close> states), a reply is for the request, the account and the
    head it names, and only methods that are not answered are forwarded.  The browser decides as
    the native client does, and after no sequence of calls by guessing.

  Not modelled.  Threads and locks (each handler is one step under the lock it takes); clocks
  are arguments; metrics, logging; the external libraries (serde, HTTP, gzip, Keccak are
  parameters); the text form of JSON; of \<open>risepir-rpc\<close> the command line, the probes and audits; the
  pointers of the browser's buffers; the tooling of \<open>xtask\<close>.
\<close>

section \<open>From the server's blocks to the client's view\<close>

lemma sync_core:
  assumes run: "server_blocks xxh so be sv0 ds sv" and contract: "store_contract so (sv_params sv0) log"
    and empty: "log (sv_store sv0) = []" and co: "coalesce ds = Inr d"
    and pb: "1 \<le> pb" "pb \<le> 31"
    and fits: "\<And>j row off. uint (store_view so (sv_params sv0) (sv_store sv0) j row off) < 2 ^ unat pb"
      "\<And>j row off. uint (store_view so (sv_params sv0) (sv_store sv) j row off) < 2 ^ unat pb"
    and enc: "encode_block_delta d pb = Some bs"
  shows "decode_block_delta bs pb (of_nat (cp_arity (sv_params sv0))) = Inr d \<and>
    (\<exists>p. ingest (pending_new (cp_arity (sv_params sv0)) (sv_block sv0)) d = (Inr (), p) \<and>
       pending_invar p \<and> pd_head p = sv_block sv \<and>
       (\<forall>j < cp_arity (sv_params sv0). \<forall>row off. pending_effect p j row off =
          uint (store_view so (sv_params sv0) (sv_store sv) j row off) -
          uint (store_view so (sv_params sv0) (sv_store sv0) j row off)))"
proof -
  let ?n = "cp_arity (sv_params sv0)" and ?pinit = "pending_new (cp_arity (sv_params sv0)) (sv_block sv0)"
  let ?vold = "store_view so (sv_params sv0) (sv_store sv0)" and ?vnew = "store_view so (sv_params sv0) (sv_store sv)"
  note s = server_blocks_effect[OF run contract empty] and c = coalesce_shape[OF co]
  have ne: "ds \<noteq> []" using coalesce_InrD[OF co] by simp
  have len: "length (per_segment d) = ?n" using c(3) s ne by simp
  have head: "delta_block d = sv_block sv" "sv_block sv0 < sv_block sv" using c(1) s ne by auto
  have eff: "delta_effect d j row off = uint (?vnew j row off) - uint (?vold j row off)" if "j < ?n" for j row off
  proof -
    have "(\<Sum>d \<leftarrow> ds. delta_effect d j row off) = uint (?vnew j row off) - uint (?vold j row off)"
      using s that by blast
    then show ?thesis by (simp only: c(4))
  qed
  have out: "delta_effect d j row off = 0" if "\<not> j < ?n" for j row off
    using that len by (simp add: delta_effect_def)
  have small: "\<bar>delta_effect d j row off\<bar> < 2 ^ unat pb" for j row off
  proof (cases "j < ?n")
    case True
    have "0 \<le> uint (?vnew j row off)" "0 \<le> uint (?vold j row off)" by simp_all
    then show ?thesis using eff[OF True, of row off] fits(1,2)[of j row off] by linarith
  qed (simp add: out)
  have "(2 :: int) ^ unat pb \<le> 2 ^ 31"
    using pb(2) by (intro power_increasing) (simp_all add: word_le_nat_alt)
  then have rng: "i64_range (pending_effect ?pinit j row off + delta_effect d j row off)" for j row off
    using small[of j row off] unfolding pending_new_effect i64_range_def by (simp, linarith)
  have dec: "decode_block_delta bs pb (of_nat ?n) = Inr d"
    using encode_decode[OF enc pb canonical_fits[OF c(2) small]] sort_delta_canonical[OF c(2)] len by simp
  have "length (per_segment d) = length (pd_per_segment ?pinit)" using len by (simp add: pending_new_def)
  moreover have "pd_head ?pinit < delta_block d" using head by (simp add: pending_new_def)
  ultimately obtain p where p: "ingest ?pinit d = (Inr (), p)"
    using ingest_canonical[OF c(2) pending_new_invar _ _ rng] by blast
  note i = ingest_adds[OF p pending_new_invar]
  have "pending_effect p j row off = uint (?vnew j row off) - uint (?vold j row off)" if "j < ?n" for j row off
    using i eff[OF that] by (simp add: pending_new_effect)
  then show ?thesis using dec p i head(1) by auto
qed

text \<open>C12. End to end: a client pinned at the server's state \<open>sv0\<close> that receives, over the wire, the
  coalesced delta of the blocks the server applied since, decodes exactly the delta the server
  encoded, ingests it without error, and then holds exactly the difference to the server's current
  database: at every cell the pinned value plus the pending sum is the current value, and the
  client's head is the server's block.\<close>

theorem sync_reaches_server_state:
  assumes "server_blocks xxh so be sv0 ds sv" and "store_contract so (sv_params sv0) log"
    and "log (sv_store sv0) = []" and "coalesce ds = Inr d" and "1 \<le> pb" and "pb \<le> 31"
    and "\<And>j row off. uint (store_view so (sv_params sv0) (sv_store sv0) j row off) < 2 ^ unat pb"
    and "\<And>j row off. uint (store_view so (sv_params sv0) (sv_store sv) j row off) < 2 ^ unat pb"
    and "encode_block_delta d pb = Some bs"
  shows "decode_block_delta bs pb (of_nat (cp_arity (sv_params sv0))) = Inr d \<and>
    (\<exists>p. ingest (pending_new (cp_arity (sv_params sv0)) (sv_block sv0)) d = (Inr (), p) \<and>
       pd_head p = sv_block sv \<and>
       (\<forall>j < cp_arity (sv_params sv0). \<forall>row off.
          uint (store_view so (sv_params sv0) (sv_store sv0) j row off) + pending_effect p j row off =
          uint (store_view so (sv_params sv0) (sv_store sv) j row off)))"
  using sync_core[OF assms] by auto

lemma sync_reaches_server_state_witness:
  "\<exists>sv p. server_blocks example_hash example_store example_backend (example_server 0)
      [\<lparr> delta_block = 7, per_segment = [[(0, [(0, 8)])]] \<rparr>] sv \<and>
    ingest (pending_new 1 6) \<lparr> delta_block = 7, per_segment = [[(0, [(0, 8)])]] \<rparr> = (Inr (), p) \<and>
    pending_effect p 0 0 0 = 8"
proof -
  let ?d = "\<lparr> delta_block = 7, per_segment = [[(0, [(0, 8)])]] \<rparr> :: block_delta"
  from example_apply obtain rep sv' where
    a: "apply_block_reporting example_hash example_store example_backend (example_server 0) (example_update 7 5) =
     Some (Inr (?d, rep), sv')" and s: "sv_store sv' = (8, [])" by blast
  have run: "server_blocks example_hash example_store example_backend (example_server 0) [?d] sv'"
    using blocks_step[OF blocks_start a] by simp
  have f: "sv_params (example_server 0) = example_params" "sv_store (example_server 0) = (0, [])"
    "sv_block (example_server 0) = 6" "cp_arity example_params = 1"
    by (simp_all add: example_server_def example_params_def)
  have co: "coalesce [?d] = Inr ?d" by code_simp
  have v: "store_view example_store example_params (c, l) j row off = (if j = 0 \<and> row = 0 \<and> off = 0 then c else 0)"
    for c l j row off by (simp add: example_store_def example_db_view)
  have enc: "encode_block_delta ?d 9 = Some (the (encode_block_delta ?d 9))"
    by (simp add: encode_block_delta_def)
  have c: "store_contract example_store (sv_params (example_server 0)) snd" "snd (sv_store (example_server 0)) = []"
    using example_contract by (simp_all add: f)
  have b: "uint (store_view example_store (sv_params (example_server 0)) (sv_store (example_server 0)) j row off) < 2 ^ unat (9 :: u32)"
    "uint (store_view example_store (sv_params (example_server 0)) (sv_store sv') j row off) < 2 ^ unat (9 :: u32)" for j row off
    by (simp_all add: f s v)
  from sync_reaches_server_state[OF run c co _ _ b enc] obtain p where
    p: "ingest (pending_new 1 6) ?d = (Inr (), p)"
    "uint (store_view example_store example_params (0, []) 0 0 0) + pending_effect p 0 0 0 =
       uint (store_view example_store example_params (8, []) 0 0 0)"
    by (auto simp: f s)
  then have "pending_effect p 0 0 0 = 8" by (simp add: v)
  with run p(1) show ?thesis by blast
qed

end
